(* ===== verification/Prelude.thy ===== *)
theory Prelude
  imports "HOL-Library.Word" "HOL-Library.AList"
begin

text \<open>
  The types, the result monads and the byte-level helpers that every component shares.

  \<^item> Machine integers are words of HOL-Library.Word (\<open>u8\<close> .. \<open>u64\<close>): additions and
    multiplications wrap and shifts mask their distance, as the crate's release profile does.
    A \<open>usize\<close> that counts bytes of a buffer in memory is a \<open>nat\<close>.
  \<^item> \<open>error\<close> is the enum of \<^verbatim>\<open>src/src/error.rs\<close>; \<open>fail\<close> adds the Rust panic (a failed
    \<open>assert!\<close>, \<open>unwrap\<close> or slice index) and \<open>Undefined\<close>, an access outside its object through a
    raw pointer. A fallible operation returns \<open>'a res\<close>; an operation
    with a loop that may follow a cyclic chain for ever returns \<open>'a comp\<close>, where \<open>None\<close> is
    "does not return".
  \<^item> Buffers are byte lists; \<open>slice\<close>, \<open>splice\<close> and \<open>copy_prefix\<close> are Rust's range index,
    \<open>copy_from_slice\<close> into a range, and the partial copy out of a log overlay.
\<close>

unbundle bit_operations_syntax

section \<open>Machine integers\<close>

type_synonym u8 = "8 word"
type_synonym u16 = "16 word"
type_synonym u32 = "32 word"
type_synonym u64 = "64 word"
type_synonym bytes = "u8 list"

text \<open>Rust's \<open><<\<close> and \<open>>>\<close> on \<open>u64\<close>: the distance is taken modulo the width.\<close>

definition shl64 :: "u64 \<Rightarrow> u8 \<Rightarrow> u64" where
  "shl64 x n = push_bit (unat n mod 64) x"

definition shr64 :: "u64 \<Rightarrow> u8 \<Rightarrow> u64" where
  "shr64 x n = drop_bit (unat n mod 64) x"

text \<open>Widening casts keep the unsigned value; it is below the source's range.\<close>

lemma unat_ucast_up [simp]:
  "LENGTH('a) \<le> LENGTH('b) \<Longrightarrow> unat (ucast (w :: 'a::len word) :: 'b::len word) = unat w"
proof -
  assume "LENGTH('a) \<le> LENGTH('b)"
  then have "(2::nat) ^ LENGTH('a) \<le> 2 ^ LENGTH('b)" by simp
  then have "unat w < 2 ^ LENGTH('b)"
    using unsigned_less[of w] by (meson order_less_le_trans)
  then show "unat (ucast w :: 'b word) = unat w"
    by (simp add: unsigned_ucast_eq take_bit_nat_eq_self)
qed

lemma unat_lt_8 [simp]: "unat (w :: u8) < 256"
  using unsigned_less[of w] by simp

lemma unat_lt_16 [simp]: "unat (w :: u16) < 65536"
  using unsigned_less[of w] by simp

lemma unat_lt_32 [simp]: "unat (w :: u32) < 4294967296"
  using unsigned_less[of w] by simp

lemma unat_2p: "n < LENGTH('a) \<Longrightarrow> unat (2 ^ n :: 'a::len word) = 2 ^ n"
  using unat_of_nat[of "2 ^ n", where 'a = 'a] by simp

lemma unat_of_nat_u16: "n < 65536 \<Longrightarrow> unat (of_nat n :: u16) = n"
  by (simp add: unat_of_nat)

lemma unat_of_nat_u64: "n < 2 ^ 64 \<Longrightarrow> unat (of_nat n :: u64) = n"
  by (simp add: unat_of_nat)

section \<open>Errors and results\<close>

datatype io_kind = NotFound | UnexpectedEof | AlreadyExists | WouldBlock | InvalidData | OtherIo

datatype error =
    Io io_kind
  | Corruption string
  | InvalidConfiguration string
  | InvalidInput string
  | InvalidValueData
  | Background error
  | Locked io_kind
  | Migration string
  | Compression
  | DatabaseNotFound

datatype fail = Err error | Panic | Undefined

type_synonym 'a res = "fail + 'a"
type_synonym 'a comp = "'a res option"

fun rbind :: "'a res \<Rightarrow> ('a \<Rightarrow> 'b res) \<Rightarrow> 'b res" where
  "rbind (Inl e) f = Inl e"
| "rbind (Inr x) f = f x"

definition cbind :: "'a comp \<Rightarrow> ('a \<Rightarrow> 'b comp) \<Rightarrow> 'b comp" where
  "cbind m f = (case m of None \<Rightarrow> None | Some (Inl e) \<Rightarrow> Some (Inl e) | Some (Inr x) \<Rightarrow> f x)"

lemma cbind_mono [partial_function_mono]:
  assumes "mono_option B" and "\<And>y. mono_option (\<lambda>f. C y f)"
  shows "mono_option (\<lambda>f. cbind (B f) (\<lambda>y. C y f))"
proof -
  have "cbind (B f) (\<lambda>y. C y f) =
      Option.bind (B f) (\<lambda>r. case r of Inl e \<Rightarrow> Some (Inl e) | Inr y \<Rightarrow> C y f)" for f
    by (simp add: cbind_def bind_eq_None_conv split: option.split sum.split)
  moreover have "mono_option (\<lambda>f. case r of Inl e \<Rightarrow> Some (Inl e) | Inr y \<Rightarrow> C y f)" for r
    using assms(2) by (cases r) (simp_all add: option.const_mono)
  ultimately show ?thesis
    by (simp only: bind_mono[OF assms(1)])
qed

definition cret :: "'a \<Rightarrow> 'a comp" where
  "cret x = Some (Inr x)"

definition rassert :: "bool \<Rightarrow> unit res" where
  "rassert b = (if b then Inr () else Inl Panic)"

definition unwrap :: "'a option \<Rightarrow> 'a res" where
  "unwrap x = (case x of None \<Rightarrow> Inl Panic | Some y \<Rightarrow> Inr y)"

lemma rbind_Inr_iff: "rbind m f = Inr y \<longleftrightarrow> (\<exists>x. m = Inr x \<and> f x = Inr y)"
  by (cases m) auto

lemma rbind_assoc: "rbind (rbind m f) g = rbind m (\<lambda>x. rbind (f x) g)"
  by (cases m) auto

lemma cbind_simps [simp]:
  "cbind None f = None"
  "cbind (Some (Inl e)) f = Some (Inl e)"
  "cbind (Some (Inr x)) f = f x"
  "cbind (cret x) f = f x"
  by (simp_all add: cbind_def cret_def)

lemma cbind_cret_iff:
  "cbind m f = Some (Inr y) \<longleftrightarrow> (\<exists>x. m = Some (Inr x) \<and> f x = Some (Inr y))"
  by (auto simp: cbind_def split: option.splits sum.splits)

lemma cbind_InrE:
  assumes "cbind m f = Some (Inr y)"
  obtains x where "m = Some (Inr x)" and "f x = Some (Inr y)"
  using assms by (auto simp: cbind_cret_iff)

lemma rassert_simps [simp]:
  "rassert True = Inr ()"
  "rassert False = Inl Panic"
  "rassert b = Inr u \<longleftrightarrow> b"
  by (simp_all add: rassert_def)

lemma unwrap_simps [simp]:
  "unwrap (Some x) = Inr x"
  "unwrap None = Inl Panic"
  by (simp_all add: unwrap_def)

section \<open>Little- and big-endian encodings\<close>

definition to_le :: "nat \<Rightarrow> 'a::len word \<Rightarrow> bytes" where
  "to_le n w = map (\<lambda>i. ucast (drop_bit (8 * i) w)) [0..<n]"

fun from_le :: "bytes \<Rightarrow> 'a::len word" where
  "from_le [] = 0"
| "from_le (b # bs) = ucast b OR push_bit 8 (from_le bs)"

abbreviation le16 :: "u16 \<Rightarrow> bytes" where "le16 \<equiv> to_le 2"
abbreviation le32 :: "u32 \<Rightarrow> bytes" where "le32 \<equiv> to_le 4"
abbreviation le64 :: "u64 \<Rightarrow> bytes" where "le64 \<equiv> to_le 8"

definition to_be :: "nat \<Rightarrow> 'a::len word \<Rightarrow> bytes" where
  "to_be n w = rev (to_le n w)"

definition from_be :: "bytes \<Rightarrow> 'a::len word" where
  "from_be bs = from_le (rev bs)"

lemma length_to_le [simp]: "length (to_le n w) = n"
  by (simp add: to_le_def)

lemma length_to_be [simp]: "length (to_be n w) = n"
  by (simp add: to_be_def)

lemma bit_from_le:
  "bit (from_le bs :: 'a::len word) i \<longleftrightarrow>
     i < LENGTH('a) \<and> i div 8 < length bs \<and> bit (bs ! (i div 8)) (i mod 8)"
proof (induction bs arbitrary: i)
  case Nil
  then show ?case by simp
next
  case (Cons b bs)
  show ?case
  proof (cases "i < 8")
    case True
    then show ?thesis
      by (auto simp: bit_or_iff bit_ucast_iff bit_push_bit_iff bit_imp_le_length)
  next
    case False
    then obtain j where j: "i = 8 + j"
      by (metis le_add_diff_inverse not_less)
    have d: "(8 + j) div 8 = Suc (j div 8)" "(8 + j) mod 8 = j mod 8"
      by simp_all
    have "\<not> bit b i"
      using False bit_imp_le_length[of b i] by auto
    then show ?thesis
      using bit_imp_le_length[of "from_le bs :: 'a word" j]
      by (auto simp: j d bit_or_iff bit_ucast_iff bit_push_bit_iff Cons.IH simp del: div_add_self1)
  qed
qed

lemma from_le_to_le [simp]:
  "LENGTH('a) \<le> 8 * n \<Longrightarrow> from_le (to_le n w) = (w :: 'a::len word)"
  by (rule bit_word_eqI) (auto simp: bit_from_le to_le_def bit_ucast_iff bit_drop_bit_eq)

lemma to_le_from_le [simp]:
  assumes "length bs = n" and "8 * n \<le> LENGTH('a)"
  shows "to_le n (from_le bs :: 'a::len word) = bs"
proof (rule nth_equalityI)
  show "length (to_le n (from_le bs :: 'a word)) = length bs"
    using assms(1) by simp
  fix i assume "i < length (to_le n (from_le bs :: 'a word))"
  then have i: "i < n" by simp
  show "to_le n (from_le bs :: 'a word) ! i = bs ! i"
  proof (rule bit_word_eqI)
    fix j assume "j < LENGTH(8)"
    then have "(8 * i + j) div 8 = i" "(8 * i + j) mod 8 = j" by simp_all
    then show "bit (to_le n (from_le bs :: 'a word) ! i) j = bit (bs ! i) j"
      using i assms \<open>j < LENGTH(8)\<close>
      by (auto simp: to_le_def bit_ucast_iff bit_drop_bit_eq bit_from_le)
  qed
qed

lemma from_be_to_be [simp]:
  "LENGTH('a) \<le> 8 * n \<Longrightarrow> from_be (to_be n w) = (w :: 'a::len word)"
  by (simp add: from_be_def to_be_def)

lemma to_le_inject [simp]:
  "LENGTH('a) \<le> 8 * n \<Longrightarrow> to_le n v = to_le n w \<longleftrightarrow> v = (w :: 'a::len word)"
  by (metis from_le_to_le)

section \<open>Buffers\<close>

definition slice :: "'a list \<Rightarrow> nat \<Rightarrow> nat \<Rightarrow> 'a list res" where
  "slice xs a b = (if a \<le> b \<and> b \<le> length xs then Inr (take (b - a) (drop a xs)) else Inl Panic)"

definition splice :: "'a list \<Rightarrow> nat \<Rightarrow> 'a list \<Rightarrow> 'a list" where
  "splice xs a ys = take a xs @ ys @ drop (a + length ys) xs"

definition copy_prefix :: "bytes \<Rightarrow> bytes \<Rightarrow> bytes" where
  "copy_prefix dest d = take (length dest) d @ drop (length d) dest"

lemma length_splice [simp]:
  "a + length ys \<le> length xs \<Longrightarrow> length (splice xs a ys) = length xs"
  by (simp add: splice_def)

lemma length_copy_prefix [simp]: "length (copy_prefix dest d) = length dest"
  by (simp add: copy_prefix_def)

lemma take_copy_prefix:
  "n \<le> length d \<Longrightarrow> length d \<le> length dest \<Longrightarrow> take n (copy_prefix dest d) = take n d"
  by (simp add: copy_prefix_def)

lemma nth_splice:
  assumes "a + length ys \<le> length xs" and "i < length xs"
  shows "splice xs a ys ! i = (if a \<le> i \<and> i < a + length ys then ys ! (i - a) else xs ! i)"
  using assms by (auto simp: splice_def nth_append min_def)

lemma take_drop_splice_same:
  "a + length ys \<le> length xs \<Longrightarrow> take (length ys) (drop a (splice xs a ys)) = ys"
  by (simp add: splice_def)

lemma take_drop_splice_other:
  assumes "a + length ys \<le> length xs" and "b + n \<le> a \<or> a + length ys \<le> b"
    and "b + n \<le> length xs"
  shows "take n (drop b (splice xs a ys)) = take n (drop b xs)"
  by (rule nth_equalityI) (use assms in \<open>auto simp: nth_splice\<close>)

lemma slice_Inr_iff:
  "slice xs a b = Inr ys \<longleftrightarrow> a \<le> b \<and> b \<le> length xs \<and> ys = take (b - a) (drop a xs)"
  by (auto simp: slice_def)

section \<open>Association lists standing for hash maps\<close>

text \<open>
  A \<open>HashMap\<close> is an association list: its order is the iteration order, which the code leaves
  open, and \<open>AList.update\<close> is \<open>insert\<close>.
\<close>

lemmas alist_update_lookup [simp] = AList.update_conv'

lemma map_of_delete_other [simp]:
  "map_of (AList.delete k al) j = (if j = k then None else map_of al j)"
  by (simp add: AList.delete_conv')

end
