(* ===== verification/Index_Entry.thy ===== *)
theory Index_Entry
  imports Prelude
begin

text \<open>
  The bit layout of the hash index (\<^verbatim>\<open>src/src/index.rs\<close>): \<open>Address\<close>, \<open>Entry\<close>, \<open>TableId\<close> and
  the chunk of 64 little-endian entries, with the round trips between an entry and its parts
  and between the index position of an entry and the key it was made from.
\<close>

section \<open>Constants\<close>

definition SIZE_TIERS_BITS :: u8 where "SIZE_TIERS_BITS = 8"
definition CHUNK_ENTRIES_BITS :: u8 where "CHUNK_ENTRIES_BITS = 6"
definition CHUNK_ENTRIES :: nat where "CHUNK_ENTRIES = 64"
definition ENTRY_LEN :: u8 where "ENTRY_LEN = 64"
definition ENTRY_BYTES :: nat where "ENTRY_BYTES = 8"
definition CHUNK_LEN :: nat where "CHUNK_LEN = CHUNK_ENTRIES * ENTRY_BYTES"
definition HEADER_SIZE :: nat where "HEADER_SIZE = 512"
definition META_SIZE :: nat where "META_SIZE = 16 * 1024"

definition EMPTY_CHUNK :: bytes where "EMPTY_CHUNK = replicate CHUNK_LEN 0"

lemmas index_consts = SIZE_TIERS_BITS_def CHUNK_ENTRIES_BITS_def CHUNK_ENTRIES_def ENTRY_LEN_def
  ENTRY_BYTES_def CHUNK_LEN_def

section \<open>Addresses\<close>

datatype address = Address (address_as_u64: u64)

definition address_new :: "u64 \<Rightarrow> u8 \<Rightarrow> address" where
  "address_new offset size_tier = Address (shl64 offset SIZE_TIERS_BITS OR ucast size_tier)"

definition address_from_u64 :: "u64 \<Rightarrow> address" where
  "address_from_u64 a = Address a"

definition address_offset :: "address \<Rightarrow> u64" where
  "address_offset a = shr64 (address_as_u64 a) SIZE_TIERS_BITS"

definition address_size_tier :: "address \<Rightarrow> u8" where
  "address_size_tier a = ucast (address_as_u64 a AND (shl64 1 SIZE_TIERS_BITS - 1))"

section \<open>Index entries\<close>

datatype entry = Entry (entry_as_u64: u64)

definition entry_address_bits :: "u8 \<Rightarrow> u8" where
  "entry_address_bits index_bits = index_bits + CHUNK_ENTRIES_BITS + SIZE_TIERS_BITS"

definition entry_new :: "address \<Rightarrow> u64 \<Rightarrow> u8 \<Rightarrow> entry" where
  "entry_new address partial_key index_bits =
     Entry (shl64 partial_key (entry_address_bits index_bits) OR address_as_u64 address)"

definition entry_last_address :: "u8 \<Rightarrow> u64" where
  "entry_last_address index_bits = shl64 1 (entry_address_bits index_bits) - 1"

definition entry_address :: "entry \<Rightarrow> u8 \<Rightarrow> address" where
  "entry_address e index_bits =
     address_from_u64 (entry_as_u64 e AND entry_last_address index_bits)"

definition entry_partial_key :: "entry \<Rightarrow> u8 \<Rightarrow> u64" where
  "entry_partial_key e index_bits = shr64 (entry_as_u64 e) (entry_address_bits index_bits)"

definition entry_extract_key :: "u64 \<Rightarrow> u8 \<Rightarrow> u64" where
  "entry_extract_key key_prefix index_bits =
     shr64 (shl64 key_prefix index_bits) (entry_address_bits index_bits)"

definition entry_is_empty :: "entry \<Rightarrow> bool" where
  "entry_is_empty e = (entry_as_u64 e = 0)"

definition entry_empty :: entry where
  "entry_empty = Entry 0"

section \<open>Index table ids and geometry\<close>

datatype index_table_id = IndexTableId (index_id_as_u16: u16)

definition index_id_new :: "u8 \<Rightarrow> u8 \<Rightarrow> index_table_id" where
  "index_id_new col index_bits = IndexTableId (push_bit 8 (ucast col) OR ucast index_bits)"

definition index_id_col :: "index_table_id \<Rightarrow> u8" where
  "index_id_col t = ucast (drop_bit 8 (index_id_as_u16 t))"

definition index_id_bits :: "index_table_id \<Rightarrow> u8" where
  "index_id_bits t = ucast (index_id_as_u16 t AND 0xff)"

definition total_chunks :: "u8 \<Rightarrow> u64" where
  "total_chunks index_bits = shl64 1 index_bits"

definition total_entries :: "u8 \<Rightarrow> u64" where
  "total_entries index_bits = total_chunks index_bits * of_nat CHUNK_ENTRIES"

definition index_file_size :: "u8 \<Rightarrow> u64" where
  "index_file_size index_bits = total_entries index_bits * 8 + of_nat META_SIZE"

section \<open>Keys\<close>

text \<open>A \<open>Key\<close> is 32 bytes; the index uses the first eight, big-endian.\<close>

definition KEY_SIZE :: nat where "KEY_SIZE = 32"

definition index_from_partial :: "bytes \<Rightarrow> u64" where
  "index_from_partial key = from_be (take 8 key)"

definition chunk_index :: "index_table_id \<Rightarrow> u64 \<Rightarrow> u64" where
  "chunk_index t key_prefix = shr64 key_prefix (ENTRY_LEN - index_id_bits t)"

definition recover_key_prefix :: "index_table_id \<Rightarrow> u64 \<Rightarrow> entry \<Rightarrow> bytes" where
  "recover_key_prefix t chunk e =
     (let bits = index_id_bits t;
          partial_key = entry_partial_key e bits;
          k = 64 - entry_address_bits bits;
          index_key = shl64 chunk (64 - bits) OR shl64 partial_key (64 - k - bits)
      in to_be 8 index_key @ replicate (KEY_SIZE - 8) 0)"

section \<open>Chunks\<close>

definition read_entry :: "bytes \<Rightarrow> nat \<Rightarrow> entry" where
  "read_entry chunk at = Entry (from_le (take 8 (drop (at * 8) chunk)))"

definition write_entry :: "entry \<Rightarrow> nat \<Rightarrow> bytes \<Rightarrow> bytes" where
  "write_entry e at chunk = splice chunk (at * 8) (le64 (entry_as_u64 e))"

definition transmute_chunk :: "bytes \<Rightarrow> entry list" where
  "transmute_chunk chunk = map (read_entry chunk) [0..<CHUNK_ENTRIES]"

definition find_entry :: "index_table_id \<Rightarrow> u64 \<Rightarrow> nat \<Rightarrow> bytes \<Rightarrow> entry \<times> nat" where
  "find_entry t key_prefix sub_index chunk =
     (let bits = index_id_bits t; partial_key = entry_extract_key key_prefix bits
      in case List.find (\<lambda>i. \<not> entry_is_empty (read_entry chunk i)
                \<and> entry_partial_key (read_entry chunk i) bits = partial_key)
              [sub_index..<CHUNK_ENTRIES] of
           Some i \<Rightarrow> (read_entry chunk i, i)
         | None \<Rightarrow> (entry_empty, 0))"

section \<open>Address and id round trips\<close>

text \<open>
  The index sizes the code uses: \<open>MIN_INDEX_BITS\<close> is 16, and up to 49 bits an entry still has
  room for a bit of the key beside its address.
\<close>

definition valid_index_bits :: "u8 \<Rightarrow> bool" where
  "valid_index_bits b \<longleftrightarrow> 16 \<le> unat b \<and> unat b \<le> 49"

lemma bit_u64_bound: "bit (w :: u64) i \<Longrightarrow> i < 64"
  using bit_imp_le_length[of w i] by simp

lemma unat_mask_u64: "unat (mask n :: u64) = mask (min 64 n)"
proof -
  have "unat (mask n :: u64) = unat (of_nat (mask n) :: u64)"
    by (simp add: of_nat_mask_eq)
  also have "\<dots> = mask (min 64 n)"
    by (simp only: unsigned_of_nat take_bit_of_mask) simp
  finally show ?thesis .
qed

lemma le_mask_bit:
  assumes "(w :: u64) \<le> mask n" and "n \<le> i"
  shows "\<not> bit w i"
proof (cases "n < 64")
  case True
  have "unat w < 2 ^ n"
    using assms(1) True unat_mask_u64[of n]
    by (simp add: word_le_nat_alt mask_eq_exp_minus_1 le_less_trans)
  then have "take_bit n (unat w) = unat w"
    by (simp add: take_bit_nat_eq_self)
  then have "\<not> bit (unat w) i"
    using assms(2) by (metis bit_take_bit_iff not_le)
  then show ?thesis
    by (simp add: bit_unsigned_iff)
next
  case False
  then show ?thesis using assms(2) bit_u64_bound by fastforce
qed

lemma address_offset_new:
  "unat offset < 2 ^ 56 \<Longrightarrow> address_offset (address_new offset tier) = offset"
proof (rule bit_word_eqI)
  fix i assume off: "unat offset < 2 ^ 56" and i: "i < LENGTH(64)"
  have "\<not> bit tier (i + 8)"
    using bit_imp_le_length[of tier "i + 8"] by auto
  moreover have "\<not> bit offset i" if "56 \<le> i"
  proof -
    have "offset \<le> mask 56"
      using off unat_mask_u64[of 56] by (simp add: word_le_nat_alt mask_eq_exp_minus_1)
    then show ?thesis using that by (rule le_mask_bit)
  qed
  moreover have "address_offset (address_new offset tier)
      = drop_bit 8 (push_bit 8 offset OR ucast tier)"
    by (simp add: address_offset_def address_new_def shl64_def shr64_def SIZE_TIERS_BITS_def)
  ultimately show "bit (address_offset (address_new offset tier)) i = bit offset i"
    using i by (cases "56 \<le> i")
      (auto simp: bit_or_iff bit_push_bit_iff bit_drop_bit_eq bit_ucast_iff add.commute[of 8])
qed

lemma address_size_tier_new: "address_size_tier (address_new offset tier) = tier"
proof (rule bit_word_eqI)
  fix i assume i: "i < LENGTH(8)"
  have m: "push_bit 8 1 - 1 = (mask 8 :: u64)"
    by (simp add: mask_eq_exp_minus_1)
  show "bit (address_size_tier (address_new offset tier)) i = bit tier i"
    using i by (auto simp: address_size_tier_def address_new_def shl64_def SIZE_TIERS_BITS_def
        bit_or_iff bit_and_iff bit_push_bit_iff bit_ucast_iff bit_mask_iff m simp del: push_bit_of_1)
qed

lemma index_id_col_new [simp]: "index_id_col (index_id_new col bits) = col"
proof (rule bit_word_eqI)
  fix i assume "i < LENGTH(8)"
  moreover have "\<not> bit bits (i + 8)" using bit_imp_le_length[of bits "i + 8"] by auto
  ultimately show "bit (index_id_col (index_id_new col bits)) i = bit col i"
    by (auto simp: index_id_col_def index_id_new_def bit_or_iff bit_push_bit_iff bit_drop_bit_eq
        bit_ucast_iff add.commute)
qed

lemma index_id_bits_new [simp]: "index_id_bits (index_id_new col bits) = bits"
proof (rule bit_word_eqI)
  fix i assume i: "i < LENGTH(8)"
  have m: "(0xff :: u16) = mask 8" by (simp add: mask_eq_exp_minus_1)
  show "bit (index_id_bits (index_id_new col bits)) i = bit bits i"
    using i by (auto simp: index_id_bits_def index_id_new_def bit_or_iff bit_and_iff
        bit_push_bit_iff bit_ucast_iff m bit_mask_iff)
qed

section \<open>Entry round trips\<close>

lemma unat_address_bits:
  "valid_index_bits b \<Longrightarrow> unat (entry_address_bits b) = unat b + 14"
  by (simp add: valid_index_bits_def entry_address_bits_def CHUNK_ENTRIES_BITS_def
      SIZE_TIERS_BITS_def unat_word_ariths)

lemma entry_last_address_mask:
  assumes "valid_index_bits b"
  shows "entry_last_address b = mask (unat b + 14)"
  using assms unat_address_bits[OF assms]
  by (simp add: entry_last_address_def shl64_def valid_index_bits_def mask_eq_exp_minus_1)

lemma bit_extract_key:
  assumes "valid_index_bits b"
  shows "bit (entry_extract_key kp b) i \<longleftrightarrow> i < 50 - unat b \<and> bit kp (i + 14)"
proof -
  have r: "unat b mod 64 = unat b" "(unat b + 14) mod 64 = unat b + 14"
    using assms by (auto simp: valid_index_bits_def)
  show ?thesis
    using assms bit_u64_bound[of kp "i + 14"]
    by (auto simp: entry_extract_key_def shl64_def shr64_def unat_address_bits r
        bit_drop_bit_eq bit_push_bit_iff valid_index_bits_def add.commute add.left_commute)
qed

lemma entry_partial_key_new:
  assumes b: "valid_index_bits b" and a: "address_as_u64 a \<le> entry_last_address b"
  shows "entry_partial_key (entry_new a (entry_extract_key kp b) b) b = entry_extract_key kp b"
proof (rule bit_word_eqI)
  fix i assume "i < LENGTH(64)"
  have r: "(unat b + 14) mod 64 = unat b + 14"
    using b by (auto simp: valid_index_bits_def)
  have "\<not> bit (address_as_u64 a) (unat b + 14 + i)"
    using a le_mask_bit[of "address_as_u64 a" "unat b + 14"] by (simp add: entry_last_address_mask b)
  then show "bit (entry_partial_key (entry_new a (entry_extract_key kp b) b) b) i
      = bit (entry_extract_key kp b) i"
    using b by (auto simp: entry_partial_key_def entry_new_def shl64_def shr64_def r
        unat_address_bits bit_or_iff bit_drop_bit_eq bit_push_bit_iff bit_extract_key)
qed

lemma entry_address_new:
  assumes b: "valid_index_bits b" and a: "address_as_u64 a \<le> entry_last_address b"
  shows "entry_address (entry_new a pk b) b = a"
proof -
  have r: "(unat b + 14) mod 64 = unat b + 14"
    using b by (auto simp: valid_index_bits_def)
  have "bit (entry_as_u64 (entry_new a pk b) AND entry_last_address b) i
      = bit (address_as_u64 a) i" for i
    using le_mask_bit[of "address_as_u64 a" "unat b + 14" i] a b
    by (cases "i < unat b + 14")
      (auto simp: entry_new_def shl64_def r unat_address_bits entry_last_address_mask bit_or_iff
        bit_and_iff bit_push_bit_iff bit_mask_iff dest: bit_u64_bound)
  then have "entry_as_u64 (entry_new a pk b) AND entry_last_address b = address_as_u64 a"
    by (auto intro: bit_word_eqI)
  then show ?thesis
    by (simp add: entry_address_def address_from_u64_def)
qed

section \<open>Recovering the key from the index position\<close>

lemma chunk_index_drop:
  assumes "valid_index_bits (index_id_bits t)"
  shows "chunk_index t kp = drop_bit (64 - unat (index_id_bits t)) kp"
proof -
  have "unat (64 - index_id_bits t) = 64 - unat (index_id_bits t)"
    using assms by (simp add: valid_index_bits_def unat_sub word_le_nat_alt)
  then show ?thesis
    using assms by (simp add: chunk_index_def ENTRY_LEN_def shr64_def valid_index_bits_def)
qed

lemma chunk_index_bound:
  assumes "valid_index_bits (index_id_bits t)"
  shows "unat (chunk_index t kp) < unat (total_chunks (index_id_bits t))"
proof -
  have "unat (chunk_index t kp) = unat kp div 2 ^ (64 - unat (index_id_bits t))"
    using assms by (simp only: chunk_index_drop unat_drop_bit_eq) (simp add: drop_bit_eq_div)
  moreover have "unat kp < 2 ^ unat (index_id_bits t) * 2 ^ (64 - unat (index_id_bits t))"
    using assms unsigned_less[of kp] by (simp add: valid_index_bits_def flip: power_add)
  ultimately have "unat (chunk_index t kp) < 2 ^ unat (index_id_bits t)"
    by (simp add: less_mult_imp_div_less)
  then show ?thesis
    using assms by (simp add: total_chunks_def shl64_def valid_index_bits_def unat_2p)
qed

text \<open>
  The chunk number and the partial key of an entry determine the leading 50 bits of the key
  it was inserted under, whatever the size of the index.
\<close>

lemma recover_key_prefix_eq:
  assumes b: "valid_index_bits (index_id_bits t)"
    and a: "address_as_u64 a \<le> entry_last_address (index_id_bits t)"
  shows "index_from_partial (recover_key_prefix t (chunk_index t kp)
           (entry_new a (entry_extract_key kp (index_id_bits t)) (index_id_bits t)))
         = kp AND NOT (mask 14)"
proof -
  let ?b = "index_id_bits t"
  have u1: "unat (64 - ?b) = 64 - unat ?b"
    using b by (simp add: valid_index_bits_def unat_sub word_le_nat_alt)
  have "unat (64 - (64 - entry_address_bits ?b) - ?b) = 14"
  proof -
    have "64 - (64 - entry_address_bits ?b) - ?b = (14 :: u8)"
      by (simp add: entry_address_bits_def CHUNK_ENTRIES_BITS_def SIZE_TIERS_BITS_def)
    then show ?thesis by simp
  qed
  then have "index_from_partial (recover_key_prefix t (chunk_index t kp)
           (entry_new a (entry_extract_key kp ?b) ?b))
      = push_bit (64 - unat ?b) (drop_bit (64 - unat ?b) kp) OR push_bit 14 (entry_extract_key kp ?b)"
    using b by (simp add: index_from_partial_def recover_key_prefix_def Let_def shl64_def u1
        entry_partial_key_new[OF b a] chunk_index_drop valid_index_bits_def)
  also have "\<dots> = kp AND NOT (mask 14)"
  proof (rule bit_word_eqI)
    fix n assume n: "n < LENGTH(64)"
    have r: "16 \<le> unat ?b" "unat ?b \<le> 49"
      using b by (auto simp: valid_index_bits_def)
    show "bit (push_bit (64 - unat ?b) (drop_bit (64 - unat ?b) kp)
        OR push_bit 14 (entry_extract_key kp ?b)) n = bit (kp AND NOT (mask 14)) n"
      using n r by (cases "64 - unat ?b \<le> n")
        (auto simp: bit_or_iff bit_push_bit_iff bit_drop_bit_eq bit_extract_key[OF b] bit_and_iff
          bit_not_iff bit_mask_iff)
  qed
  finally show ?thesis .
qed

lemma drop_bit_low_cleared:
  "14 \<le> n \<Longrightarrow> drop_bit n (kp AND NOT (mask 14)) = drop_bit n (kp :: u64)"
  by (rule bit_word_eqI) (auto simp: bit_drop_bit_eq bit_and_iff bit_not_iff bit_mask_iff dest: bit_u64_bound)

lemma extract_key_low_cleared:
  "valid_index_bits b \<Longrightarrow> entry_extract_key (kp AND NOT (mask 14)) b = entry_extract_key kp b"
  by (rule bit_word_eqI) (auto simp: bit_extract_key bit_and_iff bit_not_iff bit_mask_iff dest: bit_u64_bound)

lemma chunk_index_low_cleared:
  "valid_index_bits (index_id_bits t) \<Longrightarrow> chunk_index t (kp AND NOT (mask 14)) = chunk_index t kp"
  by (simp only: chunk_index_drop) (rule drop_bit_low_cleared, auto simp: valid_index_bits_def)

section \<open>Chunk lemmas\<close>

lemma length_EMPTY_CHUNK [simp]: "length EMPTY_CHUNK = CHUNK_LEN"
  by (simp add: EMPTY_CHUNK_def)

lemma length_write_entry [simp]:
  "length chunk = CHUNK_LEN \<Longrightarrow> at < CHUNK_ENTRIES \<Longrightarrow> length (write_entry e at chunk) = CHUNK_LEN"
  by (simp add: write_entry_def index_consts)

lemma read_entry_write_entry:
  assumes "length chunk = CHUNK_LEN" and "i < CHUNK_ENTRIES" and "j < CHUNK_ENTRIES"
  shows "read_entry (write_entry e i chunk) j = (if i = j then e else read_entry chunk j)"
proof (cases "i = j")
  case True
  then show ?thesis
    using assms take_drop_splice_same[of "i * 8" "le64 (entry_as_u64 e)" chunk]
    by (simp add: read_entry_def write_entry_def index_consts)
next
  case False
  then have "j * 8 + 8 \<le> i * 8 \<or> i * 8 + 8 \<le> j * 8" by linarith
  then have "take 8 (drop (j * 8) (splice chunk (i * 8) (le64 (entry_as_u64 e))))
      = take 8 (drop (j * 8) chunk)"
    using assms by (intro take_drop_splice_other) (auto simp: index_consts)
  then show ?thesis
    using False by (simp add: read_entry_def write_entry_def)
qed

lemma transmute_write_entry:
  assumes "length chunk = CHUNK_LEN" and "i < CHUNK_ENTRIES"
  shows "transmute_chunk (write_entry e i chunk) = (transmute_chunk chunk)[i := e]"
  using assms by (auto simp: transmute_chunk_def read_entry_write_entry intro!: nth_equalityI
      simp: nth_list_update)

lemma chunk_eqI:
  assumes "length c = CHUNK_LEN" and "length d = CHUNK_LEN"
    and "\<And>i. i < CHUNK_ENTRIES \<Longrightarrow> read_entry c i = read_entry d i"
  shows "c = d"
proof (rule nth_equalityI)
  show "length c = length d" using assms by simp
  fix j assume j: "j < length c"
  define i where "i = j div 8"
  have i: "i < CHUNK_ENTRIES" "i * 8 + j mod 8 = j" "i * 8 + 8 \<le> length c"
    using j assms(1) by (auto simp: i_def index_consts)
  have "take 8 (drop (i * 8) c) = take 8 (drop (i * 8) d)"
  proof -
    have "from_le (take 8 (drop (i * 8) c)) = (from_le (take 8 (drop (i * 8) d)) :: u64)"
      using assms(3)[OF i(1)] by (simp add: read_entry_def)
    then have "to_le 8 (from_le (take 8 (drop (i * 8) c)) :: u64)
        = to_le 8 (from_le (take 8 (drop (i * 8) d)) :: u64)" by simp
    then show ?thesis using i assms by (subst (asm) (1 2) to_le_from_le) auto
  qed
  then have "take 8 (drop (i * 8) c) ! (j mod 8) = take 8 (drop (i * 8) d) ! (j mod 8)" by simp
  then show "c ! j = d ! j" using i assms by simp
qed

lemma find_entry_cases:
  assumes "find_entry t kp sub chunk = (e, i)"
  shows "(e = entry_empty \<and> i = 0 \<and>
            (\<forall>j. sub \<le> j \<and> j < CHUNK_ENTRIES \<longrightarrow> entry_is_empty (read_entry chunk j) \<or>
               entry_partial_key (read_entry chunk j) (index_id_bits t)
                 \<noteq> entry_extract_key kp (index_id_bits t)))
       \<or> (\<not> entry_is_empty e \<and> e = read_entry chunk i \<and> sub \<le> i \<and> i < CHUNK_ENTRIES \<and>
          entry_partial_key e (index_id_bits t) = entry_extract_key kp (index_id_bits t) \<and>
          (\<forall>j. sub \<le> j \<and> j < i \<longrightarrow> entry_is_empty (read_entry chunk j) \<or>
               entry_partial_key (read_entry chunk j) (index_id_bits t)
                 \<noteq> entry_extract_key kp (index_id_bits t)))"
proof (cases "List.find (\<lambda>i. \<not> entry_is_empty (read_entry chunk i)
         \<and> entry_partial_key (read_entry chunk i) (index_id_bits t)
            = entry_extract_key kp (index_id_bits t)) [sub..<CHUNK_ENTRIES]")
  case None
  then have "(e, i) = (entry_empty, 0)"
    using assms by (simp add: find_entry_def Let_def)
  then show ?thesis
    using None by (auto simp: find_None_iff)
next
  case (Some k)
  then obtain n where n: "n < length [sub..<CHUNK_ENTRIES]" "k = [sub..<CHUNK_ENTRIES] ! n"
    and P: "\<not> entry_is_empty (read_entry chunk k)"
      "entry_partial_key (read_entry chunk k) (index_id_bits t)
        = entry_extract_key kp (index_id_bits t)"
    and Q: "\<forall>j<n. entry_is_empty (read_entry chunk ([sub..<CHUNK_ENTRIES] ! j)) \<or>
        entry_partial_key (read_entry chunk ([sub..<CHUNK_ENTRIES] ! j)) (index_id_bits t)
          \<noteq> entry_extract_key kp (index_id_bits t)"
    by (auto simp: find_Some_iff)
  have "entry_is_empty (read_entry chunk j) \<or> entry_partial_key (read_entry chunk j)
      (index_id_bits t) \<noteq> entry_extract_key kp (index_id_bits t)" if "sub \<le> j" "j < k" for j
    using Q[rule_format, of "j - sub"] that n by auto
  then show ?thesis
    using assms n P Some by (auto simp: find_entry_def Let_def)
qed

end
