(* ===== verification/Table_Entry.thy ===== *)
theory Table_Entry
  imports Prelude
begin

text \<open>
  The layout of value-table entries (\<^verbatim>\<open>src/src/table.rs\<close>): table ids, the 16-byte header of a
  table, the cursor buffer \<open>Entry<B>\<close> with its typed reads and writes, the entry markers, and
  table keys (\<open>mod key\<close>).
\<close>

section \<open>Constants\<close>

definition SIZE_TIERS :: nat where "SIZE_TIERS = 256"
definition COMPRESSED_MASK :: u16 where "COMPRESSED_MASK = 0x8000"
definition MAX_ENTRY_SIZE :: nat where "MAX_ENTRY_SIZE = 0x7ff8"
definition MIN_ENTRY_SIZE :: nat where "MIN_ENTRY_SIZE = 32"
definition REFS_SIZE :: nat where "REFS_SIZE = 4"
definition SIZE_SIZE :: nat where "SIZE_SIZE = 2"
definition INDEX_SIZE :: nat where "INDEX_SIZE = 8"
definition MAX_ENTRY_BUF_SIZE :: nat where "MAX_ENTRY_BUF_SIZE = 0x8000"
definition PARTIAL_SIZE :: nat where "PARTIAL_SIZE = 26"
definition LOCKED_REF :: u32 where "LOCKED_REF = 0xffffffff"

definition TOMBSTONE :: bytes where "TOMBSTONE = [0xff, 0xff]"
definition MULTIPART_V4 :: bytes where "MULTIPART_V4 = [0xff, 0xfe]"
definition MULTIHEAD_V4 :: bytes where "MULTIHEAD_V4 = [0xff, 0xfd]"
definition MULTIPART :: bytes where "MULTIPART = [0xfe, 0xff]"
definition MULTIHEAD :: bytes where "MULTIHEAD = [0xfd, 0xff]"
definition MULTIHEAD_COMPRESSED :: bytes where "MULTIHEAD_COMPRESSED = [0xfd, 0x7f]"

lemmas table_sizes = REFS_SIZE_def SIZE_SIZE_def INDEX_SIZE_def PARTIAL_SIZE_def
  MAX_ENTRY_BUF_SIZE_def

lemmas markers = TOMBSTONE_def MULTIPART_V4_def MULTIHEAD_V4_def MULTIPART_def MULTIHEAD_def
  MULTIHEAD_COMPRESSED_def

section \<open>Table ids\<close>

datatype value_table_id = ValueTableId (value_id_as_u16: u16)

definition value_id_new :: "u8 \<Rightarrow> u8 \<Rightarrow> value_table_id" where
  "value_id_new col size_tier = ValueTableId (push_bit 8 (ucast col) OR ucast size_tier)"

definition value_id_col :: "value_table_id \<Rightarrow> u8" where
  "value_id_col t = ucast (drop_bit 8 (value_id_as_u16 t))"

definition value_id_size_tier :: "value_table_id \<Rightarrow> u8" where
  "value_id_size_tier t = ucast (value_id_as_u16 t AND 0xff)"

lemma value_id_col_new [simp]: "value_id_col (value_id_new col tier) = col"
proof (rule bit_word_eqI)
  fix i assume "i < LENGTH(8)"
  moreover have "\<not> bit tier (i + 8)" using bit_imp_le_length[of tier "i + 8"] by auto
  ultimately show "bit (value_id_col (value_id_new col tier)) i = bit col i"
    by (auto simp: value_id_col_def value_id_new_def bit_or_iff bit_push_bit_iff bit_drop_bit_eq
        bit_ucast_iff add.commute)
qed

lemma value_id_size_tier_new [simp]: "value_id_size_tier (value_id_new col tier) = tier"
proof (rule bit_word_eqI)
  fix i assume i: "i < LENGTH(8)"
  have m: "(0xff :: u16) = mask 8" by (simp add: mask_eq_exp_minus_1)
  show "bit (value_id_size_tier (value_id_new col tier)) i = bit tier i"
    using i by (auto simp: value_id_size_tier_def value_id_new_def bit_or_iff bit_and_iff
        bit_push_bit_iff bit_ucast_iff m bit_mask_iff)
qed

section \<open>The table header\<close>

definition header_default :: bytes where
  "header_default = replicate 16 0"

definition header_last_removed :: "bytes \<Rightarrow> u64" where
  "header_last_removed h = from_le (take INDEX_SIZE h)"

definition header_set_last_removed :: "bytes \<Rightarrow> u64 \<Rightarrow> bytes" where
  "header_set_last_removed h v = splice h 0 (le64 v)"

definition header_filled :: "bytes \<Rightarrow> u64" where
  "header_filled h = from_le (take INDEX_SIZE (drop INDEX_SIZE h))"

definition header_set_filled :: "bytes \<Rightarrow> u64 \<Rightarrow> bytes" where
  "header_set_filled h v = splice h INDEX_SIZE (le64 v)"

lemma header_roundtrip:
  fixes lr fl :: u64
  defines "h \<equiv> header_set_filled (header_set_last_removed header_default lr) fl"
  shows "header_last_removed h = lr" and "header_filled h = fl" and "length h = 16"
    and "h = le64 lr @ le64 fl"
proof -
  show "h = le64 lr @ le64 fl"
    by (simp add: h_def header_set_filled_def header_set_last_removed_def header_default_def
        splice_def INDEX_SIZE_def)
  then show "header_last_removed h = lr" and "header_filled h = fl" and "length h = 16"
    by (simp_all add: header_last_removed_def header_filled_def INDEX_SIZE_def)
qed

section \<open>The entry cursor\<close>

record ebuf =
  eoff :: nat
  edata :: bytes

definition ebuf_new :: "bytes \<Rightarrow> ebuf" where
  "ebuf_new d = \<lparr>eoff = 0, edata = d\<rparr>"

text \<open>
  \<open>Entry::new_uninit\<close>: the bytes are uninitialised memory. Zeros stand for them here; the
  reads of a table are shown to give the same result from any other buffer contents.
\<close>

definition ebuf_uninit :: "nat \<Rightarrow> ebuf" where
  "ebuf_uninit n = ebuf_new (replicate n 0)"

definition set_offset :: "ebuf \<Rightarrow> nat \<Rightarrow> ebuf" where
  "set_offset e n = e\<lparr>eoff := n\<rparr>"

definition write_slice :: "ebuf \<Rightarrow> bytes \<Rightarrow> ebuf res" where
  "write_slice e buf =
     (if eoff e + length buf \<le> length (edata e)
      then Inr \<lparr>eoff = eoff e + length buf, edata = splice (edata e) (eoff e) buf\<rparr>
      else Inl Panic)"

definition read_slice :: "ebuf \<Rightarrow> nat \<Rightarrow> (bytes \<times> ebuf) res" where
  "read_slice e n =
     (if eoff e + n \<le> length (edata e)
      then Inr (take n (drop (eoff e) (edata e)), e\<lparr>eoff := eoff e + n\<rparr>)
      else Inl Panic)"

definition ebuf_is :: "bytes \<Rightarrow> ebuf \<Rightarrow> bool" where
  "ebuf_is marker e = (take SIZE_SIZE (edata e) = marker)"

definition is_tombstone :: "ebuf \<Rightarrow> bool" where
  "is_tombstone e = ebuf_is TOMBSTONE e"

definition is_multihead_compressed :: "ebuf \<Rightarrow> bool" where
  "is_multihead_compressed e = ebuf_is MULTIHEAD_COMPRESSED e"

definition is_multihead :: "ebuf \<Rightarrow> bool" where
  "is_multihead e = (is_multihead_compressed e \<or> ebuf_is MULTIHEAD e)"

definition is_multipart :: "ebuf \<Rightarrow> bool" where
  "is_multipart e = ebuf_is MULTIPART e"

definition is_multi :: "u32 \<Rightarrow> ebuf \<Rightarrow> bool" where
  "is_multi db_version e =
     (is_multipart e \<or> is_multihead e \<or>
      (db_version \<le> 4 \<and> (ebuf_is MULTIPART_V4 e \<or> ebuf_is MULTIHEAD_V4 e)))"

definition read_size :: "ebuf \<Rightarrow> ((u16 \<times> bool) \<times> ebuf) res" where
  "read_size e =
     rbind (read_slice e SIZE_SIZE) (\<lambda>(b, e').
       let sz = from_le b
       in Inr ((sz AND NOT COMPRESSED_MASK, 0 < sz AND COMPRESSED_MASK), e'))"

definition skip_size :: "ebuf \<Rightarrow> ebuf" where
  "skip_size e = e\<lparr>eoff := eoff e + SIZE_SIZE\<rparr>"

definition write_size :: "ebuf \<Rightarrow> u16 \<Rightarrow> bool \<Rightarrow> ebuf res" where
  "write_size e sz compressed =
     write_slice e (le16 (if compressed then sz OR COMPRESSED_MASK else sz))"

definition read_u64 :: "ebuf \<Rightarrow> (u64 \<times> ebuf) res" where
  "read_u64 e = rbind (read_slice e 8) (\<lambda>(b, e'). Inr (from_le b, e'))"

definition skip_u64 :: "ebuf \<Rightarrow> ebuf" where
  "skip_u64 e = e\<lparr>eoff := eoff e + 8\<rparr>"

definition write_u64 :: "ebuf \<Rightarrow> u64 \<Rightarrow> ebuf res" where
  "write_u64 e v = write_slice e (le64 v)"

definition read_u32 :: "ebuf \<Rightarrow> (u32 \<times> ebuf) res" where
  "read_u32 e = rbind (read_slice e REFS_SIZE) (\<lambda>(b, e'). Inr (from_le b, e'))"

definition write_u32 :: "ebuf \<Rightarrow> u32 \<Rightarrow> ebuf res" where
  "write_u32 e v = write_slice e (le32 v)"

definition remaining_to :: "ebuf \<Rightarrow> nat \<Rightarrow> bytes res" where
  "remaining_to e n = slice (edata e) (eoff e) n"

section \<open>Table keys\<close>

datatype table_key = Partial bytes | NoHash

definition partial_key :: "bytes \<Rightarrow> bytes" where
  "partial_key hash = drop 6 hash"

definition key_encoded_size :: "table_key \<Rightarrow> nat" where
  "key_encoded_size k = (case k of Partial _ \<Rightarrow> PARTIAL_SIZE | NoHash \<Rightarrow> 0)"

definition key_compare :: "table_key \<Rightarrow> bytes option \<Rightarrow> bool" where
  "key_compare k fetch =
     (case (k, fetch) of
        (Partial h, Some f) \<Rightarrow> partial_key h = f
      | (NoHash, _) \<Rightarrow> True
      | _ \<Rightarrow> False)"

definition fetch_partial :: "ebuf \<Rightarrow> (bytes \<times> ebuf) res" where
  "fetch_partial e =
     (if PARTIAL_SIZE \<le> length (edata e) then read_slice e PARTIAL_SIZE
      else Inl (Err InvalidValueData))"

definition key_fetch :: "table_key \<Rightarrow> ebuf \<Rightarrow> (bytes option \<times> ebuf) res" where
  "key_fetch k e =
     (case k of
        Partial _ \<Rightarrow> rbind (fetch_partial e) (\<lambda>(b, e'). Inr (Some b, e'))
      | NoHash \<Rightarrow> Inr (None, e))"

definition key_write :: "table_key \<Rightarrow> ebuf \<Rightarrow> ebuf res" where
  "key_write k e = (case k of Partial h \<Rightarrow> write_slice e (partial_key h) | NoHash \<Rightarrow> Inr e)"

text \<open>\<open>Fetch (Some d)\<close> is the out-parameter of the query, with its current contents.\<close>

datatype table_key_query = Check table_key | Fetch "bytes option"

text \<open>The bytes of a key as \<open>key_write\<close> lays them out.\<close>

definition key_bytes :: "table_key \<Rightarrow> bytes" where
  "key_bytes k = (case k of Partial h \<Rightarrow> partial_key h | NoHash \<Rightarrow> [])"

definition wf_key :: "table_key \<Rightarrow> bool" where
  "wf_key k = (case k of Partial h \<Rightarrow> length h = 32 | NoHash \<Rightarrow> True)"

lemma length_key_bytes: "wf_key k \<Longrightarrow> length (key_bytes k) = key_encoded_size k"
  by (auto simp: key_bytes_def wf_key_def key_encoded_size_def partial_key_def PARTIAL_SIZE_def
      split: table_key.splits)

section \<open>Reading and writing through the cursor\<close>

text \<open>\<open>wrote n bs e\<close>: the cursor of a buffer of \<open>n\<close> bytes has written exactly \<open>bs\<close>.\<close>

definition wrote :: "nat \<Rightarrow> bytes \<Rightarrow> ebuf \<Rightarrow> bool" where
  "wrote n bs e \<longleftrightarrow> length (edata e) = n \<and> eoff e = length bs \<and> take (length bs) (edata e) = bs"

lemma wrote_uninit: "wrote n [] (ebuf_uninit n)"
  by (simp add: wrote_def ebuf_uninit_def ebuf_new_def)

lemma wrote_write_slice:
  assumes "wrote n bs e" and "length bs + length xs \<le> n"
  shows "\<exists>e'. write_slice e xs = Inr e' \<and> wrote n (bs @ xs) e'"
  using assms by (auto simp: wrote_def write_slice_def splice_def)

lemma wrote_key_write:
  assumes "wrote n bs e" and "length bs + length (key_bytes k) \<le> n"
  shows "\<exists>e'. key_write k e = Inr e' \<and> wrote n (bs @ key_bytes k) e'"
  using assms wrote_write_slice by (auto simp: key_write_def key_bytes_def split: table_key.splits)

text \<open>Sizes in the range of an entry are never read as a marker, and lose no bits.\<close>

lemma size_bits:
  assumes "unat (sz :: u16) \<le> MAX_ENTRY_SIZE"
  shows "(sz OR COMPRESSED_MASK) AND NOT COMPRESSED_MASK = sz"
    and "sz AND NOT COMPRESSED_MASK = sz"
    and "sz AND COMPRESSED_MASK = 0"
    and "(sz OR COMPRESSED_MASK) AND COMPRESSED_MASK = COMPRESSED_MASK"
proof -
  have c: "COMPRESSED_MASK = push_bit 15 1" by (simp add: COMPRESSED_MASK_def)
  have "unat sz < 2 ^ 15" using assms by (simp add: MAX_ENTRY_SIZE_def)
  then have "take_bit 15 (unat sz) = unat sz" by (simp add: take_bit_nat_eq_self)
  then have "\<not> bit (unat sz) 15" by (metis bit_take_bit_iff less_irrefl)
  then have n: "\<not> bit sz 15" by (simp add: bit_unsigned_iff)
  have cb: "bit (COMPRESSED_MASK) i \<longleftrightarrow> i = 15" for i
    by (auto simp: c bit_push_bit_iff bit_1_iff simp del: push_bit_of_1)
  show "(sz OR COMPRESSED_MASK) AND NOT COMPRESSED_MASK = sz"
    and "sz AND NOT COMPRESSED_MASK = sz" and "sz AND COMPRESSED_MASK = 0"
    and "(sz OR COMPRESSED_MASK) AND COMPRESSED_MASK = COMPRESSED_MASK"
    using n by (auto intro!: bit_word_eqI simp: bit_or_iff bit_and_iff bit_not_iff cb)
qed

definition size_bytes :: "nat \<Rightarrow> bool \<Rightarrow> bytes" where
  "size_bytes n compressed =
     le16 (if compressed then of_nat n OR COMPRESSED_MASK else of_nat n)"

lemma length_size_bytes [simp]: "length (size_bytes n c) = 2"
  by (simp add: size_bytes_def)

lemma size_bytes_decode:
  assumes "n \<le> MAX_ENTRY_SIZE"
  shows "(from_le (size_bytes n c) :: u16) AND NOT COMPRESSED_MASK = of_nat n"
    and "0 < (from_le (size_bytes n c) :: u16) AND COMPRESSED_MASK \<longleftrightarrow> c"
proof -
  have u: "unat (of_nat n :: u16) \<le> MAX_ENTRY_SIZE"
    using assms by (simp add: MAX_ENTRY_SIZE_def unat_of_nat)
  show "(from_le (size_bytes n c) :: u16) AND NOT COMPRESSED_MASK = of_nat n"
    and "0 < (from_le (size_bytes n c) :: u16) AND COMPRESSED_MASK \<longleftrightarrow> c"
    using size_bits[OF u] by (auto simp: size_bytes_def) (simp add: COMPRESSED_MASK_def)
qed

lemma size_bytes_not_marker:
  assumes "n \<le> MAX_ENTRY_SIZE"
  shows "size_bytes n c \<noteq> TOMBSTONE" and "size_bytes n c \<noteq> MULTIPART"
    and "size_bytes n c \<noteq> MULTIHEAD" and "size_bytes n c \<noteq> MULTIHEAD_COMPRESSED"
proof -
  have d: "(from_le (size_bytes n c) :: u16) AND NOT COMPRESSED_MASK = of_nat n"
    using size_bytes_decode(1)[OF assms] .
  have u: "unat (of_nat n :: u16) \<le> 0x7ff8"
    using assms by (simp add: MAX_ENTRY_SIZE_def unat_of_nat)
  have "unat ((from_le TOMBSTONE :: u16) AND NOT COMPRESSED_MASK) = 0x7fff"
    "unat ((from_le MULTIPART :: u16) AND NOT COMPRESSED_MASK) = 0x7ffe"
    "unat ((from_le MULTIHEAD :: u16) AND NOT COMPRESSED_MASK) = 0x7ffd"
    "unat ((from_le MULTIHEAD_COMPRESSED :: u16) AND NOT COMPRESSED_MASK) = 0x7ffd"
    by (simp_all add: markers COMPRESSED_MASK_def)
  then show "size_bytes n c \<noteq> TOMBSTONE" and "size_bytes n c \<noteq> MULTIPART"
    and "size_bytes n c \<noteq> MULTIHEAD" and "size_bytes n c \<noteq> MULTIHEAD_COMPRESSED"
    using d u by auto
qed

end
