(* ===== verification/Log.thy ===== *)
theory Log
  imports Index_Entry Table_Entry
begin

text \<open>
  The write-ahead log (\<^verbatim>\<open>src/src/log.rs\<close>): overlays and their queries, the record under
  construction (\<open>LogChange\<close>, \<open>LogWriter\<close>), the byte format of a record and its reader, and the
  files a log moves through (appending, flushing, reading, cleanup, pool).

  The checksum is the function \<open>crc\<close>, an argument (crate \<open>crc32fast\<close>); a hasher's state is the
  bytes fed to it. A log file is its contents; \<open>lg_disk\<close> holds the ids of the files in the
  directory. \<open>flush_one\<close> returns \<open>None\<close> where the code would wait for the reader.
\<close>

section \<open>Iterating over the set bits of a mask\<close>

definition trailing_zeros :: "u64 \<Rightarrow> nat" where
  "trailing_zeros m = length (takeWhile (\<lambda>i. \<not> bit m i) [0..<64])"

definition clear_bit :: "u64 \<Rightarrow> nat \<Rightarrow> u64" where
  "clear_bit m i = m AND NOT (push_bit i 1)"

definition mask_bits :: "u64 \<Rightarrow> nat list" where
  "mask_bits m = filter (bit m) [0..<64]"

lemma bit_clear_bit: "bit (clear_bit m i) j \<longleftrightarrow> bit m j \<and> j \<noteq> i"
  by (auto simp: clear_bit_def bit_and_iff bit_not_iff bit_push_bit_iff bit_1_iff
      dest: bit_u64_bound simp del: push_bit_of_1)

lemma trailing_zeros_props:
  assumes "m \<noteq> 0"
  shows "trailing_zeros m < 64" and "bit m (trailing_zeros m)"
    and "\<And>j. j < trailing_zeros m \<Longrightarrow> \<not> bit m j"
proof -
  let ?P = "\<lambda>i. \<not> bit m i" and ?xs = "[0..<64]"
  obtain i where i: "bit m i"
    using assms by (auto simp: bit_eq_iff)
  then have "\<not> (\<forall>x\<in>set ?xs. ?P x)" using bit_u64_bound[OF i] by auto
  then have ne: "takeWhile ?P ?xs \<noteq> ?xs" by (metis takeWhile_eq_all_conv)
  have le: "length (takeWhile ?P ?xs) \<le> 64"
    using length_takeWhile_le[of ?P ?xs] by simp
  show lt: "trailing_zeros m < 64"
  proof (rule ccontr)
    assume "\<not> ?thesis"
    then have "length (takeWhile ?P ?xs) = length ?xs"
      using le by (simp add: trailing_zeros_def)
    then show False using ne by (metis takeWhile_eq_take take_all order_refl)
  qed
  then show "bit m (trailing_zeros m)"
    using nth_length_takeWhile[of ?P ?xs] by (simp add: trailing_zeros_def)
  fix j assume j: "j < trailing_zeros m"
  then have "takeWhile ?P ?xs ! j \<in> set (takeWhile ?P ?xs)"
    by (simp add: trailing_zeros_def)
  moreover have "takeWhile ?P ?xs ! j = j"
    using j lt by (simp add: takeWhile_nth trailing_zeros_def)
  ultimately show "\<not> bit m j"
    using set_takeWhileD by force
qed

lemma mask_loop_decreases [termination_simp]:
  assumes "m \<noteq> 0"
  shows "unat (clear_bit m (trailing_zeros m)) < unat m"
proof -
  have "clear_bit m (trailing_zeros m) \<le> m"
    by (simp add: clear_bit_def word_and_le2)
  moreover have "clear_bit m (trailing_zeros m) \<noteq> m"
    using trailing_zeros_props(2)[OF assms] bit_clear_bit by metis
  ultimately show ?thesis
    by (simp add: word_less_nat_alt[symmetric])
qed

lemma mask_bits_0 [simp]: "mask_bits 0 = []"
  by (simp add: mask_bits_def)

lemma mask_bits_step:
  assumes "m \<noteq> 0"
  shows "mask_bits m = trailing_zeros m # mask_bits (clear_bit m (trailing_zeros m))"
proof -
  let ?n = "trailing_zeros m"
  note p = trailing_zeros_props[OF assms]
  have split: "[0..<64] = [0..<?n] @ ?n # [Suc ?n..<64]"
    using p(1) by (metis le_add_diff_inverse less_imp_le_nat upt_add_eq_append upt_conv_Cons zero_le)
  have "filter (bit m) [0..<?n] = []" "filter (bit (clear_bit m ?n)) [0..<?n] = []"
    using p(3) by (auto simp: filter_empty_conv bit_clear_bit)
  moreover have "filter (bit (clear_bit m ?n)) [Suc ?n..<64] = filter (bit m) [Suc ?n..<64]"
    by (rule filter_cong) (auto simp: bit_clear_bit)
  ultimately show ?thesis
    using p(2) by (simp add: mask_bits_def split bit_clear_bit)
qed

lemma set_mask_bits: "set (mask_bits m) = {i. bit m i}"
  by (auto simp: mask_bits_def dest: bit_u64_bound)

lemma distinct_mask_bits [simp]: "distinct (mask_bits m)"
  by (simp add: mask_bits_def)

section \<open>Overlays and queries\<close>

type_synonym index_overlay = "(u64 \<times> (u64 \<times> u64 \<times> bytes)) list"
type_synonym value_overlay = "(u64 \<times> (u64 \<times> bytes)) list"

record log_overlays =
  ov_index :: "(index_table_id \<times> index_overlay) list"
  ov_value :: "(value_table_id \<times> value_overlay) list"
  ov_last_record_id :: "(u8 \<times> u64) list"

definition empty_overlays :: log_overlays where
  "empty_overlays = \<lparr>ov_index = [], ov_value = [], ov_last_record_id = []\<rparr>"

definition last_record_id :: "log_overlays \<Rightarrow> u8 \<Rightarrow> u64" where
  "last_record_id ov col = (case map_of (ov_last_record_id ov) col of Some r \<Rightarrow> r | None \<Rightarrow> - 1)"

text \<open>The trait \<open>LogQuery\<close>: what a log answers for an index chunk and for a value slot.\<close>

record log_query =
  q_index :: "index_table_id \<Rightarrow> u64 \<Rightarrow> bytes option"
  q_value :: "value_table_id \<Rightarrow> u64 \<Rightarrow> bytes option"

definition index_lookup :: "(index_table_id \<times> index_overlay) list \<Rightarrow> index_table_id \<Rightarrow> u64 \<Rightarrow> bytes option"
  where "index_lookup al t i =
     (case map_of al t of
        None \<Rightarrow> None
      | Some ov \<Rightarrow> map_option (\<lambda>(_, _, data). data) (map_of ov i))"

definition value_lookup :: "(value_table_id \<times> value_overlay) list \<Rightarrow> value_table_id \<Rightarrow> u64 \<Rightarrow> bytes option"
  where "value_lookup al t i =
     (case map_of al t of None \<Rightarrow> None | Some ov \<Rightarrow> map_option (\<lambda>(_, data). data) (map_of ov i))"

definition overlays_query :: "log_overlays \<Rightarrow> log_query" where
  "overlays_query ov = \<lparr>q_index = index_lookup (ov_index ov), q_value = value_lookup (ov_value ov)\<rparr>"

text \<open>\<open>LogQuery::value\<close>: copies what fits of the overlay entry into \<open>dest\<close>.\<close>

definition log_value :: "log_query \<Rightarrow> value_table_id \<Rightarrow> u64 \<Rightarrow> bytes \<Rightarrow> bool \<times> bytes" where
  "log_value q t i dest =
     (case q_value q t i of Some d \<Rightarrow> (True, copy_prefix dest d) | None \<Rightarrow> (False, dest))"

section \<open>The record under construction\<close>

record log_change =
  lc_local_index :: "(index_table_id \<times> index_overlay) list"
  lc_local_values :: "(value_table_id \<times> value_overlay) list"
  lc_record_id :: u64
  lc_dropped_tables :: "index_table_id list"

definition log_change_new :: "u64 \<Rightarrow> log_change" where
  "log_change_new record_id = \<lparr>lc_local_index = [], lc_local_values = [], lc_record_id = record_id,
     lc_dropped_tables = []\<rparr>"

record log_writer =
  lw_overlays :: log_overlays
  lw_log :: log_change

definition log_writer_new :: "log_overlays \<Rightarrow> u64 \<Rightarrow> log_writer" where
  "log_writer_new ov record_id = \<lparr>lw_overlays = ov, lw_log = log_change_new record_id\<rparr>"

definition alist_or_default :: "('k \<times> 'v list) list \<Rightarrow> 'k \<Rightarrow> 'v list" where
  "alist_or_default al k = (case map_of al k of Some v \<Rightarrow> v | None \<Rightarrow> [])"

definition insert_index :: "log_writer \<Rightarrow> index_table_id \<Rightarrow> u64 \<Rightarrow> u8 \<Rightarrow> bytes \<Rightarrow> log_writer" where
  "insert_index w table index sub data =
     (let c = lw_log w;
          ov = alist_or_default (lc_local_index c) table;
          e = (case map_of ov index of
                 Some (_, msk, _) \<Rightarrow> (lc_record_id c, msk OR shl64 1 sub, data)
               | None \<Rightarrow> (lc_record_id c, shl64 1 sub, data))
      in w\<lparr>lw_log := c\<lparr>lc_local_index :=
             AList.update table (AList.update index e ov) (lc_local_index c)\<rparr>\<rparr>)"

definition insert_value :: "log_writer \<Rightarrow> value_table_id \<Rightarrow> u64 \<Rightarrow> bytes \<Rightarrow> log_writer" where
  "insert_value w table index data =
     (let c = lw_log w; ov = alist_or_default (lc_local_values c) table
      in w\<lparr>lw_log := c\<lparr>lc_local_values :=
             AList.update table (AList.update index (lc_record_id c, data) ov) (lc_local_values c)\<rparr>\<rparr>)"

definition drop_table :: "log_writer \<Rightarrow> index_table_id \<Rightarrow> log_writer" where
  "drop_table w id' =
     w\<lparr>lw_log := (lw_log w)\<lparr>lc_dropped_tables := lc_dropped_tables (lw_log w) @ [id']\<rparr>\<rparr>"

definition writer_query :: "log_writer \<Rightarrow> log_query" where
  "writer_query w =
     \<lparr>q_index = (\<lambda>t i. case index_lookup (lc_local_index (lw_log w)) t i of
                  Some d \<Rightarrow> Some d | None \<Rightarrow> index_lookup (ov_index (lw_overlays w)) t i),
      q_value = (\<lambda>t i. case value_lookup (lc_local_values (lw_log w)) t i of
                  Some d \<Rightarrow> Some d | None \<Rightarrow> value_lookup (ov_value (lw_overlays w)) t i)\<rparr>"

lemma writer_query_insert_value:
  "q_value (writer_query (insert_value w t i d)) =
     (\<lambda>t' i'. if t' = t \<and> i' = i then Some d else q_value (writer_query w) t' i')"
  by (auto simp: fun_eq_iff writer_query_def insert_value_def Let_def value_lookup_def
      alist_or_default_def split: option.splits)

lemma writer_query_insert_value_index [simp]:
  "q_index (writer_query (insert_value w t i d)) = q_index (writer_query w)"
  by (simp add: writer_query_def insert_value_def Let_def cong: option.case_cong)

lemma writer_query_insert_index:
  "q_index (writer_query (insert_index w t i s d)) =
     (\<lambda>t' i'. if t' = t \<and> i' = i then Some d else q_index (writer_query w) t' i')"
  by (auto simp: fun_eq_iff writer_query_def insert_index_def Let_def index_lookup_def
      alist_or_default_def split: option.splits prod.splits)

lemma writer_query_insert_index_value [simp]:
  "q_value (writer_query (insert_index w t i s d)) = q_value (writer_query w)"
  by (simp add: writer_query_def insert_index_def Let_def cong: option.case_cong)

section \<open>The byte format of a record\<close>

definition BEGIN_RECORD :: u8 where "BEGIN_RECORD = 1"
definition INSERT_INDEX :: u8 where "INSERT_INDEX = 2"
definition INSERT_VALUE :: u8 where "INSERT_VALUE = 3"
definition END_RECORD :: u8 where "END_RECORD = 4"
definition DROP_TABLE :: u8 where "DROP_TABLE = 5"

lemmas log_tags = BEGIN_RECORD_def INSERT_INDEX_def INSERT_VALUE_def END_RECORD_def DROP_TABLE_def

function masked_entries :: "bytes \<Rightarrow> u64 \<Rightarrow> bytes" where
  "masked_entries chunk msk =
     (if msk = 0 then []
      else let i = trailing_zeros msk
           in take ENTRY_BYTES (drop (i * ENTRY_BYTES) chunk) @ masked_entries chunk (clear_bit msk i))"
  by pat_completeness auto
termination
  by (relation "measure (\<lambda>(chunk, msk). unat msk)") (auto intro: mask_loop_decreases)

declare masked_entries.simps [simp del]

definition index_record_bytes :: "index_table_id \<Rightarrow> u64 \<times> (u64 \<times> u64 \<times> bytes) \<Rightarrow> bytes" where
  "index_record_bytes t = (\<lambda>(index, (_, msk, chunk)).
     [INSERT_INDEX] @ le16 (index_id_as_u16 t) @ le64 index @ le64 msk @ masked_entries chunk msk)"

definition value_record_bytes :: "value_table_id \<Rightarrow> u64 \<times> (u64 \<times> bytes) \<Rightarrow> bytes" where
  "value_record_bytes t = (\<lambda>(index, (_, value)).
     [INSERT_VALUE] @ le16 (value_id_as_u16 t) @ le64 index @ value)"

definition drop_record_bytes :: "index_table_id \<Rightarrow> bytes" where
  "drop_record_bytes t = [DROP_TABLE] @ le16 (index_id_as_u16 t)"

text \<open>The bytes that pass through the closure \<open>write\<close> of \<open>flush_to_file\<close>, all checksummed.\<close>

definition change_body :: "log_change \<Rightarrow> bytes" where
  "change_body c =
     [BEGIN_RECORD] @ le64 (lc_record_id c)
     @ concat (map (\<lambda>(t, ov). concat (map (index_record_bytes t) ov)) (lc_local_index c))
     @ concat (map (\<lambda>(t, ov). concat (map (value_record_bytes t) ov)) (lc_local_values c))
     @ concat (map drop_record_bytes (lc_dropped_tables c))
     @ [END_RECORD]"

record flushed_log =
  fl_index :: "(index_table_id \<times> index_overlay) list"
  fl_values :: "(value_table_id \<times> value_overlay) list"
  fl_bytes :: u64

definition flush_to_file :: "(bytes \<Rightarrow> u32) \<Rightarrow> log_change \<Rightarrow> bytes \<Rightarrow> flushed_log \<times> bytes" where
  "flush_to_file crc c file =
     (let body = change_body c
      in (\<lparr>fl_index = lc_local_index c, fl_values = lc_local_values c,
           fl_bytes = of_nat (length body) + 4\<rparr>,
          file @ body @ le32 (crc body)))"

section \<open>The reader of a record\<close>

datatype log_action =
    BeginRecord
  | InsertIndex index_table_id u64
  | InsertValue value_table_id u64
  | DropTable index_table_id
  | EndRecord

record cleared =
  cl_index :: "(index_table_id \<times> u64) list"
  cl_values :: "(value_table_id \<times> u64) list"

definition empty_cleared :: cleared where
  "empty_cleared = \<lparr>cl_index = [], cl_values = []\<rparr>"

record log_reader =
  lr_file :: bytes
  lr_pos :: nat
  lr_record_id :: u64
  lr_read_bytes :: u64
  lr_crc32 :: bytes
  lr_validate :: bool
  lr_cleared :: cleared

definition log_reader_new :: "bytes \<Rightarrow> nat \<Rightarrow> bool \<Rightarrow> log_reader" where
  "log_reader_new file pos validate =
     \<lparr>lr_file = file, lr_pos = pos, lr_record_id = 0, lr_read_bytes = 0, lr_crc32 = [],
      lr_validate = validate, lr_cleared = empty_cleared\<rparr>"

definition reader_reset :: "log_reader \<Rightarrow> log_reader" where
  "reader_reset r =
     r\<lparr>lr_cleared := empty_cleared, lr_pos := lr_pos r - unat (lr_read_bytes r),
       lr_read_bytes := 0, lr_record_id := 0, lr_crc32 := []\<rparr>"

definition reader_take :: "nat \<Rightarrow> log_reader \<Rightarrow> (bytes \<times> log_reader) res" where
  "reader_take n r =
     (if lr_pos r + n \<le> length (lr_file r)
      then Inr (take n (drop (lr_pos r) (lr_file r)),
                r\<lparr>lr_pos := lr_pos r + n, lr_read_bytes := lr_read_bytes r + of_nat n\<rparr>)
      else Inl (Err (Io UnexpectedEof)))"

definition reader_read :: "nat \<Rightarrow> log_reader \<Rightarrow> (bytes \<times> log_reader) res" where
  "reader_read n r =
     rbind (reader_take n r) (\<lambda>(b, r').
       Inr (b, if lr_validate r' then r'\<lparr>lr_crc32 := lr_crc32 r' @ b\<rparr> else r'))"

definition reader_next :: "(bytes \<Rightarrow> u32) \<Rightarrow> log_reader \<Rightarrow> (log_action \<times> log_reader) res" where
  "reader_next crc r =
     rbind (reader_read 1 r) (\<lambda>(tag, r).
       if tag = [BEGIN_RECORD] then
         rbind (reader_read 8 r) (\<lambda>(b, r). Inr (BeginRecord, r\<lparr>lr_record_id := from_le b\<rparr>))
       else if tag = [INSERT_INDEX] then
         rbind (reader_read 2 r) (\<lambda>(t, r).
         rbind (reader_read 8 r) (\<lambda>(i, r).
           Inr (InsertIndex (IndexTableId (from_le t)) (from_le i),
             r\<lparr>lr_cleared := (lr_cleared r)\<lparr>cl_index :=
                 cl_index (lr_cleared r) @ [(IndexTableId (from_le t), from_le i)]\<rparr>\<rparr>)))
       else if tag = [INSERT_VALUE] then
         rbind (reader_read 2 r) (\<lambda>(t, r).
         rbind (reader_read 8 r) (\<lambda>(i, r).
           Inr (InsertValue (ValueTableId (from_le t)) (from_le i),
             r\<lparr>lr_cleared := (lr_cleared r)\<lparr>cl_values :=
                 cl_values (lr_cleared r) @ [(ValueTableId (from_le t), from_le i)]\<rparr>\<rparr>)))
       else if tag = [END_RECORD] then
         rbind (reader_take 4 r) (\<lambda>(b, r).
           if lr_validate r then
             (if from_le b \<noteq> crc (lr_crc32 r)
              then Inl (Err (Corruption ''Log record CRC-32 mismatch''))
              else Inr (EndRecord, r\<lparr>lr_crc32 := []\<rparr>))
           else Inr (EndRecord, r))
       else if tag = [DROP_TABLE] then
         rbind (reader_read 2 r) (\<lambda>(t, r). Inr (DropTable (IndexTableId (from_le t)), r))
       else Inl (Err (Corruption ''Bad log entry type'')))"

section \<open>Log files\<close>

record log_appending =
  ap_id :: u32
  ap_file :: bytes
  ap_size :: u64

record log_reading =
  rd_id :: u32
  rd_file :: bytes
  rd_pos :: nat

datatype reading_state = Reading | Idle

record log_state =
  lg_overlays :: log_overlays
  lg_appending :: "log_appending option"
  lg_reading :: "log_reading option"
  lg_reading_state :: reading_state
  lg_flushing :: "(u32 \<times> bytes) option"
  lg_next_record_id :: u64
  lg_dirty :: bool
  lg_log_pool :: "(u32 \<times> bytes) list"
  lg_cleanup_queue :: "(u32 \<times> bytes) list"
  lg_replay_queue :: "(u32 \<times> u64 \<times> bytes) list"
  lg_next_log_id :: u32
  lg_sync :: bool
  lg_disk :: "u32 list"

definition MAX_LOG_POOL_SIZE :: nat where "MAX_LOG_POOL_SIZE = 16"

definition open_log_file :: "bytes \<Rightarrow> u64 option res" where
  "open_log_file file =
     (if length file = 0 then Inr None
      else if 9 \<le> length file then Inr (Some (from_le (take 8 (drop 1 file))))
      else Inl (Err (Io UnexpectedEof)))"

text \<open>The directory scan of \<open>Log::open\<close>: logs found so far and the greatest log id.\<close>

fun log_scan :: "(u32 \<times> bytes) list \<Rightarrow> (u32 \<times> u64 \<times> bytes) list \<Rightarrow> u32 \<Rightarrow>
    ((u32 \<times> u64 \<times> bytes) list \<times> u32) res" where
  "log_scan [] logs max_id = Inr (logs, max_id)"
| "log_scan ((nlog, file) # dir) logs max_id =
     rbind (open_log_file file) (\<lambda>record_id.
       case record_id of
         Some rid \<Rightarrow> log_scan dir (logs @ [(nlog, rid, file)]) (if max_id < nlog then nlog else max_id)
       | None \<Rightarrow> log_scan dir logs max_id)"

definition log_open :: "bool \<Rightarrow> (u32 \<times> bytes) list \<Rightarrow> log_state res" where
  "log_open sync_wal dir =
     rbind (log_scan dir [] 0) (\<lambda>(logs, max_log_id).
       Inr \<lparr>lg_overlays = empty_overlays, lg_appending = None, lg_reading = None,
            lg_reading_state = Idle, lg_flushing = None, lg_next_record_id = 1, lg_dirty = True,
            lg_log_pool = [], lg_cleanup_queue = [],
            lg_replay_queue = sort_key (\<lambda>(_, record_id, _). record_id) logs,
            lg_next_log_id = (if logs = [] then 0 else max_log_id + 1), lg_sync = sync_wal,
            lg_disk = map fst logs\<rparr>)"

definition replay_record_id :: "log_state \<Rightarrow> u64 option" where
  "replay_record_id l =
     (case lg_replay_queue l of [] \<Rightarrow> None | (_, record_id, _) # _ \<Rightarrow> Some record_id)"

definition drop_log :: "u32 \<Rightarrow> log_state \<Rightarrow> log_state res" where
  "drop_log i l =
     (if i \<in> set (lg_disk l) then Inr (l\<lparr>lg_disk := remove1 i (lg_disk l)\<rparr>)
      else Inl (Err (Io NotFound)))"

fun drop_logs :: "u32 list \<Rightarrow> log_state \<Rightarrow> log_state res" where
  "drop_logs [] l = Inr l"
| "drop_logs (i # is) l = rbind (drop_log i l) (drop_logs is)"

definition clear_replay_logs :: "log_state \<Rightarrow> log_state res" where
  "clear_replay_logs l =
     rbind (case lg_reading l of
              None \<Rightarrow> Inr l
            | Some rd \<Rightarrow> drop_log (rd_id rd) (l\<lparr>lg_reading := None\<rparr>)) (\<lambda>l.
     rbind (drop_logs (map fst (lg_replay_queue l)) (l\<lparr>lg_replay_queue := []\<rparr>)) (\<lambda>l.
       Inr (l\<lparr>lg_overlays := empty_overlays, lg_reading_state := Idle, lg_dirty := False\<rparr>)))"

definition begin_record :: "log_state \<Rightarrow> log_writer \<times> log_state" where
  "begin_record l =
     (log_writer_new (lg_overlays l) (lg_next_record_id l),
      l\<lparr>lg_next_record_id := lg_next_record_id l + 1\<rparr>)"

definition alist_extend :: "('k \<times> 'v) list \<Rightarrow> ('k \<times> 'v) list \<Rightarrow> ('k \<times> 'v) list" where
  "alist_extend base new = fold (\<lambda>(k, v). AList.update k v) new base"

definition merge_overlay :: "('t \<times> ('k \<times> 'v) list) list \<Rightarrow> ('t \<times> ('k \<times> 'v) list) list \<Rightarrow>
    ('t \<times> ('k \<times> 'v) list) list" where
  "merge_overlay base new =
     fold (\<lambda>(t, ov) al. AList.update t (alist_extend (alist_or_default al t) ov) al) new base"

definition merge_change :: "log_overlays \<Rightarrow> log_change \<Rightarrow> log_overlays" where
  "merge_change ov c =
     ov\<lparr>ov_index := merge_overlay (ov_index ov) (lc_local_index c),
        ov_value := merge_overlay (ov_value ov) (lc_local_values c),
        ov_last_record_id :=
          fold (\<lambda>(t, _). AList.update (value_id_col t) (lc_record_id c)) (lc_local_values c)
            (ov_last_record_id ov)\<rparr>"

definition end_record :: "(bytes \<Rightarrow> u32) \<Rightarrow> log_change \<Rightarrow> log_state \<Rightarrow> (u64 \<times> log_state) res" where
  "end_record crc c l =
     (if lc_record_id c + 1 \<noteq> lg_next_record_id l then Inl Panic
      else
        let (ap, l) =
          (case lg_appending l of
             Some ap \<Rightarrow> (ap, l)
           | None \<Rightarrow>
               (case lg_log_pool l of
                  (i, file) # pool \<Rightarrow>
                    (\<lparr>ap_id = i, ap_file = file, ap_size = 0\<rparr>, l\<lparr>lg_log_pool := pool\<rparr>)
                | [] \<Rightarrow>
                    (\<lparr>ap_id = lg_next_log_id l, ap_file = [], ap_size = 0\<rparr>,
                     l\<lparr>lg_next_log_id := lg_next_log_id l + 1,
                       lg_disk := lg_next_log_id l # lg_disk l\<rparr>)));
            (fl, file) = flush_to_file crc c (ap_file ap)
        in Inr (fl_bytes fl,
             l\<lparr>lg_appending := Some (ap\<lparr>ap_file := file, ap_size := ap_size ap + fl_bytes fl\<rparr>),
               lg_overlays := merge_change (lg_overlays l) c,
               lg_dirty := True\<rparr>))"

definition clear_entry :: "u64 \<Rightarrow> ('v \<Rightarrow> u64) \<Rightarrow> ('t \<times> u64) \<Rightarrow> ('t \<times> (u64 \<times> 'v) list) list \<Rightarrow>
    ('t \<times> (u64 \<times> 'v) list) list" where
  "clear_entry record_id rid_of = (\<lambda>(t, i) al.
     case map_of al t of
       None \<Rightarrow> al
     | Some ov \<Rightarrow>
         (case map_of ov i of
            Some v \<Rightarrow> if rid_of v = record_id then AList.update t (AList.delete i ov) al else al
          | None \<Rightarrow> al))"

definition end_read :: "cleared \<Rightarrow> u64 \<Rightarrow> log_state \<Rightarrow> log_state" where
  "end_read cl record_id l =
     (let l = (if lg_next_record_id l \<le> record_id then l\<lparr>lg_next_record_id := record_id + 1\<rparr> else l);
          ov = lg_overlays l;
          index = fold (clear_entry record_id fst) (cl_index cl) (ov_index ov);
          value' = fold (clear_entry record_id fst) (cl_values cl) (ov_value ov)
      in l\<lparr>lg_overlays := ov\<lparr>ov_index := filter (\<lambda>(_, m). m \<noteq> []) index, ov_value := value'\<rparr>\<rparr>)"

definition flush_one :: "u64 \<Rightarrow> log_state \<Rightarrow> ((bool \<times> bool \<times> bool) \<times> log_state) option" where
  "flush_one min_size l =
     (if lg_flushing l \<noteq> None \<and> lg_reading_state l = Reading then None
      else
        let (read_next, cleanup, l) =
          (case lg_flushing l of
             None \<Rightarrow> (False, False, l)
           | Some (fid, ffile) \<Rightarrow>
               let (cleanup, l) =
                 (case lg_reading l of
                    Some rd \<Rightarrow> (True, l\<lparr>lg_reading := None, lg_reading_state := Idle,
                       lg_cleanup_queue := lg_cleanup_queue l @ [(rd_id rd, rd_file rd)]\<rparr>)
                  | None \<Rightarrow> (False, l))
               in (True, cleanup,
                   l\<lparr>lg_flushing := None, lg_reading_state := Reading,
                     lg_reading := Some \<lparr>rd_id = fid, rd_file = ffile, rd_pos = 0\<rparr>\<rparr>));
            cur_size = (case lg_appending l of None \<Rightarrow> 0 | Some ap \<Rightarrow> ap_size ap);
            l = (if 0 < cur_size \<and> min_size < cur_size
                 then l\<lparr>lg_appending := None,
                        lg_flushing := map_option (\<lambda>ap. (ap_id ap, ap_file ap)) (lg_appending l)\<rparr>
                 else l)
        in Some ((lg_flushing l \<noteq> None, read_next, cleanup), l))"

definition replay_next :: "log_state \<Rightarrow> u32 option \<times> log_state" where
  "replay_next l =
     (let l = (case lg_reading l of
                 Some rd \<Rightarrow> l\<lparr>lg_reading := None,
                    lg_cleanup_queue := lg_cleanup_queue l @ [(rd_id rd, rd_file rd)]\<rparr>
               | None \<Rightarrow> l)
      in case lg_replay_queue l of
           (i, _, file) # q \<Rightarrow>
             (Some i, l\<lparr>lg_replay_queue := q, lg_reading_state := Reading,
                        lg_reading := Some \<lparr>rd_id = i, rd_file = file, rd_pos = 0\<rparr>\<rparr>)
         | [] \<Rightarrow> (None, l\<lparr>lg_reading_state := Idle\<rparr>))"

definition clean_logs :: "nat \<Rightarrow> log_state \<Rightarrow> (bool \<times> log_state) res" where
  "clean_logs count l =
     (if length (lg_cleanup_queue l) < count then Inl Panic
      else
        let cleaned = map (\<lambda>(i, _). (i, [])) (take count (lg_cleanup_queue l));
            pool = sort_key fst (lg_log_pool l @ cleaned);
            l = l\<lparr>lg_cleanup_queue := drop count (lg_cleanup_queue l),
                  lg_log_pool := take MAX_LOG_POOL_SIZE pool\<rparr>
        in rbind (drop_logs (map fst (drop MAX_LOG_POOL_SIZE pool)) l) (\<lambda>l.
             Inr (lg_cleanup_queue l \<noteq> [], l)))"

definition num_dirty_logs :: "log_state \<Rightarrow> nat" where
  "num_dirty_logs l = length (lg_cleanup_queue l)"

definition read_next :: "(bytes \<Rightarrow> u32) \<Rightarrow> bool \<Rightarrow> log_state \<Rightarrow> (log_reader option \<times> log_state) res" where
  "read_next crc validate l =
     (if lg_reading_state l \<noteq> Reading then Inr (None, l)
      else case lg_reading l of
        None \<Rightarrow> Inr (None, l)
      | Some rd \<Rightarrow>
          (case reader_next crc (log_reader_new (rd_file rd) (rd_pos rd) validate) of
             Inr (BeginRecord, r) \<Rightarrow> Inr (Some r, l)
           | Inr _ \<Rightarrow> Inl (Err (Corruption ''Bad log record structure''))
           | Inl (Err (Io UnexpectedEof)) \<Rightarrow> Inr (None, l\<lparr>lg_reading_state := Idle\<rparr>)
           | Inl e \<Rightarrow> Inl e))"

text \<open>Dropping the reader leaves the file where the reader stopped.\<close>

definition release_reader :: "log_reader \<Rightarrow> log_state \<Rightarrow> log_state" where
  "release_reader r l =
     l\<lparr>lg_reading := map_option (\<lambda>rd. rd\<lparr>rd_pos := lr_pos r\<rparr>) (lg_reading l)\<rparr>"

definition log_kill_logs :: "log_state \<Rightarrow> log_state res" where
  "log_kill_logs l =
     rbind (drop_logs (map fst (lg_log_pool l)) (l\<lparr>lg_log_pool := []\<rparr>)) (\<lambda>l.
       case lg_reading l of
         None \<Rightarrow> Inr l
       | Some rd \<Rightarrow> drop_log (rd_id rd) (l\<lparr>lg_reading := None\<rparr>))"

end
