(* ===== verification/Log_Overlay.thy ===== *)
theory Log_Overlay
  imports Log
begin

text \<open>
  What the overlays answer: finishing a record makes exactly the writer's view visible to every
  reader of the overlays, and retiring a record removes its own entries and no newer ones.
\<close>

section \<open>Two-level lookups\<close>

definition lookup2 :: "('t \<times> ('k \<times> 'v) list) list \<Rightarrow> 't \<Rightarrow> 'k \<Rightarrow> 'v option" where
  "lookup2 al t k = (case map_of al t of None \<Rightarrow> None | Some ov \<Rightarrow> map_of ov k)"

lemma index_lookup_eq: "index_lookup al t i = map_option (\<lambda>(_, _, d). d) (lookup2 al t i)"
  by (auto simp: index_lookup_def lookup2_def split: option.splits)

lemma value_lookup_eq: "value_lookup al t i = map_option (\<lambda>(_, d). d) (lookup2 al t i)"
  by (auto simp: value_lookup_def lookup2_def split: option.splits)

definition wf_alist2 :: "('t \<times> ('k \<times> 'v) list) list \<Rightarrow> bool" where
  "wf_alist2 al \<longleftrightarrow> distinct (map fst al) \<and> (\<forall>(t, ov) \<in> set al. distinct (map fst ov))"

lemma wf_alist2_Nil [simp]: "wf_alist2 []"
  by (simp add: wf_alist2_def)

lemma wf_alist2_update:
  assumes "wf_alist2 al" and "distinct (map fst ov)"
  shows "wf_alist2 (AList.update t ov al)"
proof -
  have "(t', ov') \<in> set (AList.update t ov al) \<Longrightarrow> ov' = ov \<or> (t', ov') \<in> set al" for t' ov'
    by (induction al) (auto split: if_splits)
  then show ?thesis
    using assms by (fastforce simp: wf_alist2_def distinct_update)
qed

lemma wf_alist2_or_default: "wf_alist2 al \<Longrightarrow> distinct (map fst (alist_or_default al t))"
  by (auto simp: wf_alist2_def alist_or_default_def dest: map_of_SomeD split: option.splits)

lemma distinct_alist_extend: "distinct (map fst base) \<Longrightarrow> distinct (map fst (alist_extend base new))"
  by (induction new arbitrary: base) (auto simp: alist_extend_def distinct_update)

lemma map_of_alist_extend:
  "distinct (map fst new) \<Longrightarrow> map_of (alist_extend base new) = map_of base ++ map_of new"
proof (induction new arbitrary: base)
  case Nil
  then show ?case by (simp add: alist_extend_def)
next
  case (Cons kv new)
  obtain k v where kv: "kv = (k, v)" by (cases kv)
  have "map_of (alist_extend base (kv # new)) = map_of (AList.update k v base) ++ map_of new"
    using Cons by (simp add: alist_extend_def kv)
  moreover have "k \<notin> dom (map_of new)"
    using Cons.prems by (simp add: kv dom_map_of_conv_image_fst)
  ultimately show ?case
    by (auto simp: kv fun_eq_iff map_add_def split: option.splits)
qed

lemma wf_merge_overlay: "wf_alist2 base \<Longrightarrow> wf_alist2 (merge_overlay base new)"
  by (induction new arbitrary: base)
    (auto simp: merge_overlay_def intro!: wf_alist2_update distinct_alist_extend wf_alist2_or_default)

lemma lookup2_update:
  "lookup2 (AList.update t ov al) t' k = (if t' = t then map_of ov k else lookup2 al t' k)"
  by (auto simp: lookup2_def)

lemma lookup2_merge:
  "wf_alist2 new \<Longrightarrow>
     lookup2 (merge_overlay base new) t k =
       (case lookup2 new t k of Some v \<Rightarrow> Some v | None \<Rightarrow> lookup2 base t k)"
proof (induction new arbitrary: base)
  case Nil
  then show ?case by (simp add: merge_overlay_def lookup2_def)
next
  case (Cons p new)
  obtain s ov where p: "p = (s, ov)" by (cases p)
  let ?base = "AList.update s (alist_extend (alist_or_default base s) ov) base"
  have wf: "wf_alist2 new" "distinct (map fst ov)" and s: "map_of new s = None"
    using Cons.prems by (auto simp: p wf_alist2_def map_of_eq_None_iff)
  have "merge_overlay base (p # new) = merge_overlay ?base new"
    by (simp add: merge_overlay_def p)
  moreover have "lookup2 ?base t k =
      (if t = s then (map_of (alist_or_default base s) ++ map_of ov) k else lookup2 base t k)"
    using wf(2) by (simp add: lookup2_update map_of_alist_extend)
  ultimately show ?case
    using Cons.IH[OF wf(1), of ?base] s
    by (auto simp: p lookup2_def alist_or_default_def map_add_def split: option.splits)
qed

section \<open>Finishing a record\<close>

lemma writer_query_new: "writer_query (log_writer_new ov rid) = overlays_query ov"
  by (simp add: writer_query_def overlays_query_def log_writer_new_def log_change_new_def fun_eq_iff
      index_lookup_def[of "[]"] value_lookup_def[of "[]"])

definition wf_change :: "log_change \<Rightarrow> bool" where
  "wf_change c \<longleftrightarrow> wf_alist2 (lc_local_index c) \<and> wf_alist2 (lc_local_values c)"

definition wf_overlays :: "log_overlays \<Rightarrow> bool" where
  "wf_overlays ov \<longleftrightarrow> wf_alist2 (ov_index ov) \<and> wf_alist2 (ov_value ov)"

lemma wf_change_new [simp]: "wf_change (log_change_new rid)"
  by (simp add: wf_change_def log_change_new_def)

lemma wf_change_insert_index:
  "wf_change (lw_log w) \<Longrightarrow> wf_change (lw_log (insert_index w t i s d))"
  by (auto simp: wf_change_def insert_index_def Let_def
      intro!: wf_alist2_update distinct_update wf_alist2_or_default)

lemma wf_change_insert_value:
  "wf_change (lw_log w) \<Longrightarrow> wf_change (lw_log (insert_value w t i d))"
  by (auto simp: wf_change_def insert_value_def Let_def
      intro!: wf_alist2_update distinct_update wf_alist2_or_default)

lemma wf_change_drop_table:
  "wf_change (lw_log w) \<Longrightarrow> wf_change (lw_log (drop_table w t))"
  by (simp add: wf_change_def drop_table_def)

lemma wf_overlays_empty [simp]: "wf_overlays empty_overlays"
  by (simp add: wf_overlays_def empty_overlays_def)

lemma wf_merge_change: "wf_overlays ov \<Longrightarrow> wf_overlays (merge_change ov c)"
  by (simp add: wf_overlays_def merge_change_def wf_merge_overlay)

lemma overlays_query_merge:
  assumes "wf_change (lw_log w)"
  shows "overlays_query (merge_change (lw_overlays w) (lw_log w)) = writer_query w"
  using assms
  by (auto simp: overlays_query_def writer_query_def merge_change_def wf_change_def fun_eq_iff
      index_lookup_eq value_lookup_eq lookup2_merge split: option.splits)

lemma end_record_overlays:
  assumes "end_record crc c l = Inr (b, l')"
  shows "lg_overlays l' = merge_change (lg_overlays l) c"
  using assms
  by (auto simp: end_record_def Let_def split: if_splits option.splits list.splits prod.splits)

lemma end_record_ok: "lc_record_id c + 1 = lg_next_record_id l \<Longrightarrow> \<exists>n l'. end_record crc c l = Inr (n, l')"
  by (simp add: end_record_def split_beta Let_def)

section \<open>Retiring a record\<close>

lemma lookup2_clear_entry:
  "lookup2 (clear_entry rid f (t, i) al) t' i' =
     (if t' = t \<and> i' = i \<and> (\<exists>v. lookup2 al t i = Some v \<and> f v = rid) then None
      else lookup2 al t' i')"
  by (auto simp: clear_entry_def lookup2_def split: option.splits)

lemma lookup2_clear_entries:
  "lookup2 (fold (clear_entry rid f) cs al) t i =
     (if (t, i) \<in> set cs \<and> (\<exists>v. lookup2 al t i = Some v \<and> f v = rid) then None
      else lookup2 al t i)"
proof (induction cs arbitrary: al)
  case Nil
  then show ?case by simp
next
  case (Cons c cs)
  obtain s j where c: "c = (s, j)" by (cases c)
  show ?case
    unfolding c fold_Cons o_apply Cons.IH lookup2_clear_entry
    by (cases "s = t \<and> j = i") auto
qed

lemma wf_clear_entry: "wf_alist2 al \<Longrightarrow> wf_alist2 (clear_entry rid f c al)"
proof -
  assume wf: "wf_alist2 al"
  have "distinct (map fst (AList.delete i ov))" if "map_of al t = Some ov" for t i ov
    using wf that distinct_delete by (fastforce simp: wf_alist2_def dest: map_of_SomeD)
  then show ?thesis
    using wf by (cases c) (auto simp: clear_entry_def split: option.splits intro!: wf_alist2_update)
qed

lemma wf_clear_entries: "wf_alist2 al \<Longrightarrow> wf_alist2 (fold (clear_entry rid f) cs al)"
  by (induction cs arbitrary: al) (auto intro: wf_clear_entry)

lemma lookup2_filter_nonempty:
  assumes "distinct (map fst al)"
  shows "lookup2 (filter (\<lambda>(_, m). m \<noteq> []) al) t k = lookup2 al t k"
  using assms
proof (induction al)
  case Nil
  then show ?case by simp
next
  case (Cons p al)
  obtain s m where p: "p = (s, m)" by (cases p)
  have "map_of (filter (\<lambda>(_, m). m \<noteq> []) al) t = None" if "t = s"
    using Cons.prems that by (force simp: p map_of_eq_None_iff)
  then show ?case
    using Cons by (auto simp: p lookup2_def)
qed

lemma wf_filter: "wf_alist2 al \<Longrightarrow> wf_alist2 (filter P al)"
  by (auto simp: wf_alist2_def distinct_map_filter)

lemma end_read_lookup:
  assumes "wf_overlays (lg_overlays l)"
  shows "lookup2 (ov_index (lg_overlays (end_read cl rid l))) t i =
      (if (t, i) \<in> set (cl_index cl) \<and>
          (\<exists>v. lookup2 (ov_index (lg_overlays l)) t i = Some v \<and> fst v = rid)
       then None else lookup2 (ov_index (lg_overlays l)) t i)"
    and "lookup2 (ov_value (lg_overlays (end_read cl rid l))) t' i' =
      (if (t', i') \<in> set (cl_values cl) \<and>
          (\<exists>v. lookup2 (ov_value (lg_overlays l)) t' i' = Some v \<and> fst v = rid)
       then None else lookup2 (ov_value (lg_overlays l)) t' i')"
proof -
  have "distinct (map fst (fold (clear_entry rid fst) (cl_index cl) (ov_index (lg_overlays l))))"
    using assms wf_clear_entries by (fastforce simp: wf_overlays_def wf_alist2_def)
  then show "lookup2 (ov_index (lg_overlays (end_read cl rid l))) t i =
      (if (t, i) \<in> set (cl_index cl) \<and>
          (\<exists>v. lookup2 (ov_index (lg_overlays l)) t i = Some v \<and> fst v = rid)
       then None else lookup2 (ov_index (lg_overlays l)) t i)"
    by (auto simp: end_read_def Let_def lookup2_filter_nonempty lookup2_clear_entries)
  show "lookup2 (ov_value (lg_overlays (end_read cl rid l))) t' i' =
      (if (t', i') \<in> set (cl_values cl) \<and>
          (\<exists>v. lookup2 (ov_value (lg_overlays l)) t' i' = Some v \<and> fst v = rid)
       then None else lookup2 (ov_value (lg_overlays l)) t' i')"
    by (auto simp: end_read_def Let_def lookup2_clear_entries)
qed

lemma wf_end_read: "wf_overlays (lg_overlays l) \<Longrightarrow> wf_overlays (lg_overlays (end_read cl rid l))"
  by (auto simp: end_read_def Let_def wf_overlays_def intro!: wf_filter wf_clear_entries)

section \<open>Reading a record back\<close>

definition reader_at :: "log_reader \<Rightarrow> bytes \<Rightarrow> bool" where
  "reader_at r bs \<longleftrightarrow> lr_pos r \<le> length (lr_file r) \<and> drop (lr_pos r) (lr_file r) = bs"

definition advance_raw :: "bytes \<Rightarrow> log_reader \<Rightarrow> log_reader" where
  "advance_raw xs r =
     r\<lparr>lr_pos := lr_pos r + length xs, lr_read_bytes := lr_read_bytes r + of_nat (length xs)\<rparr>"

definition advance :: "bytes \<Rightarrow> log_reader \<Rightarrow> log_reader" where
  "advance xs r =
     (advance_raw xs r)\<lparr>lr_crc32 := (if lr_validate r then lr_crc32 r @ xs else lr_crc32 r)\<rparr>"

lemma reader_at_advance:
  assumes "reader_at r (xs @ rest)"
  shows "reader_at (advance xs r) rest" and "reader_at (advance_raw xs r) rest"
proof -
  have "length (xs @ rest) = length (lr_file r) - lr_pos r"
    using assms unfolding reader_at_def by (metis length_drop)
  moreover have "drop (length xs) (drop (lr_pos r) (lr_file r)) = rest"
    using assms by (simp add: reader_at_def)
  ultimately show "reader_at (advance xs r) rest" and "reader_at (advance_raw xs r) rest"
    using assms by (auto simp: reader_at_def advance_def advance_raw_def add.commute)
qed

lemma reader_take_at:
  assumes "reader_at r (xs @ rest)" and "n = length xs"
  shows "reader_take n r = Inr (xs, advance_raw xs r)"
proof -
  have "length (xs @ rest) = length (lr_file r) - lr_pos r"
    using assms unfolding reader_at_def by (metis length_drop)
  then show ?thesis
    using assms by (auto simp: reader_take_def advance_raw_def reader_at_def)
qed

lemma reader_read_at:
  assumes "reader_at r (xs @ rest)" and "n = length xs"
  shows "reader_read n r = Inr (xs, advance xs r)"
  using reader_take_at[OF assms] by (auto simp: reader_read_def advance_def advance_raw_def)

lemma advance_append: "advance (xs @ ys) r = advance ys (advance xs r)"
  by (simp add: advance_def advance_raw_def)

lemma advance_fields [simp]:
  "lr_validate (advance xs r) = lr_validate r"
  "lr_record_id (advance xs r) = lr_record_id r"
  "lr_cleared (advance xs r) = lr_cleared r"
  "lr_crc32 (advance xs r) = (if lr_validate r then lr_crc32 r @ xs else lr_crc32 r)"
  "lr_file (advance xs r) = lr_file r"
  "lr_pos (advance xs r) = lr_pos r + length xs"
  "lr_read_bytes (advance xs r) = lr_read_bytes r + of_nat (length xs)"
  by (simp_all add: advance_def advance_raw_def)

definition push_index :: "index_table_id \<Rightarrow> u64 \<Rightarrow> log_reader \<Rightarrow> log_reader" where
  "push_index t i r = r\<lparr>lr_cleared := (lr_cleared r)\<lparr>cl_index := cl_index (lr_cleared r) @ [(t, i)]\<rparr>\<rparr>"

definition push_value :: "value_table_id \<Rightarrow> u64 \<Rightarrow> log_reader \<Rightarrow> log_reader" where
  "push_value t i r = r\<lparr>lr_cleared := (lr_cleared r)\<lparr>cl_values := cl_values (lr_cleared r) @ [(t, i)]\<rparr>\<rparr>"

lemma reader_at_push [simp]:
  "reader_at (push_index t i r) bs = reader_at r bs"
  "reader_at (push_value t' i r) bs = reader_at r bs"
  "reader_at (r\<lparr>lr_record_id := x\<rparr>) bs = reader_at r bs"
  by (simp_all add: reader_at_def push_index_def push_value_def)

lemma tags_distinct [simp]:
  "INSERT_INDEX \<noteq> BEGIN_RECORD" "INSERT_VALUE \<noteq> BEGIN_RECORD" "INSERT_VALUE \<noteq> INSERT_INDEX"
  "END_RECORD \<noteq> BEGIN_RECORD" "END_RECORD \<noteq> INSERT_INDEX" "END_RECORD \<noteq> INSERT_VALUE"
  "DROP_TABLE \<noteq> BEGIN_RECORD" "DROP_TABLE \<noteq> INSERT_INDEX" "DROP_TABLE \<noteq> INSERT_VALUE"
  "DROP_TABLE \<noteq> END_RECORD"
  by (simp_all add: log_tags)

lemma reader_next_begin:
  assumes "reader_at r (([BEGIN_RECORD] @ le64 rid) @ rest)"
  shows "reader_next crc r =
      Inr (BeginRecord, (advance ([BEGIN_RECORD] @ le64 rid) r)\<lparr>lr_record_id := rid\<rparr>)"
proof -
  have 1: "reader_at r ([BEGIN_RECORD] @ le64 rid @ rest)" using assms by simp
  note 2 = reader_at_advance(1)[OF 1]
  show ?thesis
    unfolding reader_next_def advance_append
    by (simp add: reader_read_at[OF 1] reader_read_at[OF 2])
qed

lemma reader_next_index:
  assumes "reader_at r (([INSERT_INDEX] @ le16 (index_id_as_u16 t) @ le64 i) @ rest)"
  shows "reader_next crc r =
      Inr (InsertIndex t i, push_index t i
        (advance ([INSERT_INDEX] @ le16 (index_id_as_u16 t) @ le64 i) r))"
proof -
  have 1: "reader_at r ([INSERT_INDEX] @ le16 (index_id_as_u16 t) @ le64 i @ rest)"
    using assms by simp
  note 2 = reader_at_advance(1)[OF 1] note 3 = reader_at_advance(1)[OF 2]
  show ?thesis
    unfolding reader_next_def advance_append
    by (simp add: reader_read_at[OF 1] reader_read_at[OF 2] reader_read_at[OF 3] push_index_def)
qed

lemma reader_next_value:
  assumes "reader_at r (([INSERT_VALUE] @ le16 (value_id_as_u16 t) @ le64 i) @ rest)"
  shows "reader_next crc r =
      Inr (InsertValue t i, push_value t i
        (advance ([INSERT_VALUE] @ le16 (value_id_as_u16 t) @ le64 i) r))"
proof -
  have 1: "reader_at r ([INSERT_VALUE] @ le16 (value_id_as_u16 t) @ le64 i @ rest)"
    using assms by simp
  note 2 = reader_at_advance(1)[OF 1] note 3 = reader_at_advance(1)[OF 2]
  show ?thesis
    unfolding reader_next_def advance_append
    by (simp add: reader_read_at[OF 1] reader_read_at[OF 2] reader_read_at[OF 3] push_value_def)
qed

lemma reader_next_drop:
  assumes "reader_at r (drop_record_bytes t @ rest)"
  shows "reader_next crc r = Inr (DropTable t, advance (drop_record_bytes t) r)"
proof -
  have 1: "reader_at r ([DROP_TABLE] @ le16 (index_id_as_u16 t) @ rest)"
    using assms by (simp add: drop_record_bytes_def)
  note 2 = reader_at_advance(1)[OF 1]
  show ?thesis
    unfolding reader_next_def drop_record_bytes_def advance_append
    by (simp add: reader_read_at[OF 1] reader_read_at[OF 2])
qed

text \<open>At the end of a record, the checksum of every byte read since its start is compared.\<close>

lemma reader_next_end:
  assumes "reader_at r (([END_RECORD] @ le32 cks) @ rest)"
  shows "reader_next crc r =
     (if lr_validate r \<and> cks \<noteq> crc (lr_crc32 r @ [END_RECORD])
      then Inl (Err (Corruption ''Log record CRC-32 mismatch''))
      else Inr (EndRecord, (advance_raw (le32 cks) (advance [END_RECORD] r))
             \<lparr>lr_crc32 := (if lr_validate r then [] else lr_crc32 r)\<rparr>))"
proof -
  have 1: "reader_at r ([END_RECORD] @ le32 cks @ rest)" using assms by simp
  note 2 = reader_at_advance(1)[OF 1]
  have f: "lr_validate (advance_raw xs r') = lr_validate r'"
      "lr_crc32 (advance_raw xs r') = lr_crc32 r'" for xs r'
    by (simp_all add: advance_raw_def)
  show ?thesis
    unfolding reader_next_def
    by (simp add: reader_read_at[OF 1] reader_take_at[OF 2] f)
qed

end
