(* ===== verification/File.thy ===== *)
theory File
  imports Prelude
begin

text \<open>
  Files and the growable table file of \<^verbatim>\<open>src/src/file.rs\<close>.

  An open file is its length and its byte at each offset. Reads and writes at an offset, and
  \<open>set_len\<close>, are those of a POSIX file system that does not fail by itself: a read that
  passes the end is \<open>UnexpectedEof\<close>, a write past the end extends the file with zeros.
  \<open>tfile\<close> is the struct \<open>TableFile\<close> without its path and its display id. \<open>fsync\<close> and the
  read-ahead advice have no effect on the contents, so \<open>flush\<close> only clears \<open>dirty\<close>.
\<close>

section \<open>Operating-system files\<close>

record os_file =
  fdata :: "nat \<Rightarrow> u8"
  flen :: nat

definition empty_file :: os_file where
  "empty_file = \<lparr>fdata = (\<lambda>_. 0), flen = 0\<rparr>"

definition set_len :: "os_file \<Rightarrow> nat \<Rightarrow> os_file" where
  "set_len f n = \<lparr>fdata = (\<lambda>i. if i < flen f \<and> i < n then fdata f i else 0), flen = n\<rparr>"

definition pread :: "os_file \<Rightarrow> nat \<Rightarrow> nat \<Rightarrow> bytes" where
  "pread f off n = map (fdata f) [off..<off + n]"

definition read_exact_at :: "os_file \<Rightarrow> nat \<Rightarrow> nat \<Rightarrow> bytes res" where
  "read_exact_at f off n =
     (if off + n \<le> flen f then Inr (pread f off n) else Inl (Err (Io UnexpectedEof)))"

definition write_all_at :: "os_file \<Rightarrow> nat \<Rightarrow> bytes \<Rightarrow> os_file" where
  "write_all_at f off b =
     \<lparr>fdata = (\<lambda>i. if off \<le> i \<and> i < off + length b then b ! (i - off)
                   else if i < flen f then fdata f i else 0),
      flen = max (flen f) (off + length b)\<rparr>"

lemma length_pread [simp]: "length (pread f off n) = n"
  by (simp add: pread_def)

lemma pread_write_same: "pread (write_all_at f off b) off (length b) = b"
  by (rule nth_equalityI) (auto simp: pread_def write_all_at_def)

lemma pread_write_other:
  assumes "o2 + n \<le> off \<or> off + length b \<le> o2" and "o2 + n \<le> flen f"
  shows "pread (write_all_at f off b) o2 n = pread f o2 n"
  using assms by (auto simp: pread_def write_all_at_def intro!: nth_equalityI)

lemma pread_split: "pread f off (m + n) = pread f off m @ pread f (off + m) n"
  using upt_add_eq_append[of off "off + m" n] by (simp add: pread_def add.assoc)

lemma take_pread: "n \<le> m \<Longrightarrow> take n (pread f off m) = pread f off n"
  by (simp add: pread_def take_map)

lemma pread_set_len: "off + n \<le> flen f \<Longrightarrow> off + n \<le> m \<Longrightarrow> pread (set_len f m) off n = pread f off n"
  by (auto simp: pread_def set_len_def)

lemma flen_simps [simp]:
  "flen (set_len f n) = n"
  "flen (write_all_at f off b) = max (flen f) (off + length b)"
  "flen empty_file = 0"
  by (simp_all add: set_len_def write_all_at_def empty_file_def)

section \<open>Table files\<close>

definition GROW_SIZE_BYTES :: u64 where
  "GROW_SIZE_BYTES = 256 * 1024"

record tfile =
  tf_file :: "os_file option"
  tf_capacity :: u64
  tf_dirty :: bool

text \<open>\<open>TableFile::open\<close>; the argument is the file at the path, \<open>None\<close> when there is none.\<close>

definition tfile_open :: "os_file option \<Rightarrow> u16 \<Rightarrow> tfile res" where
  "tfile_open existing entry_size =
     (case existing of
        None \<Rightarrow> Inr \<lparr>tf_file = None, tf_capacity = 0, tf_dirty = False\<rparr>
      | Some f \<Rightarrow>
          if entry_size = 0 then Inl Panic
          else if flen f = 0 then
            (let capacity = GROW_SIZE_BYTES div ucast entry_size
             in Inr \<lparr>tf_file = Some (set_len f (unat (capacity * ucast entry_size))),
                     tf_capacity = capacity, tf_dirty = False\<rparr>)
          else Inr \<lparr>tf_file = Some f,
                    tf_capacity = word_of_nat (flen f) div ucast entry_size, tf_dirty = False\<rparr>)"

definition tfile_read_at :: "tfile \<Rightarrow> u64 \<Rightarrow> nat \<Rightarrow> bytes res" where
  "tfile_read_at tf offset n =
     (case tf_file tf of None \<Rightarrow> Inl Panic | Some f \<Rightarrow> read_exact_at f (unat offset) n)"

definition tfile_write_at :: "tfile \<Rightarrow> bytes \<Rightarrow> u64 \<Rightarrow> tfile res" where
  "tfile_write_at tf buf offset =
     (case tf_file tf of
        None \<Rightarrow> Inl Panic
      | Some f \<Rightarrow> Inr (tf\<lparr>tf_dirty := True, tf_file := Some (write_all_at f (unat offset) buf)\<rparr>))"

definition tfile_grow :: "tfile \<Rightarrow> u16 \<Rightarrow> tfile res" where
  "tfile_grow tf entry_size =
     (if entry_size = 0 then Inl Panic
      else let capacity = tf_capacity tf + GROW_SIZE_BYTES div ucast entry_size;
               f = (case tf_file tf of None \<Rightarrow> empty_file | Some f \<Rightarrow> f)
           in Inr (tf\<lparr>tf_capacity := capacity,
                      tf_file := Some (set_len f (unat (capacity * ucast entry_size)))\<rparr>))"

definition tfile_flush :: "tfile \<Rightarrow> tfile" where
  "tfile_flush tf = (if tf_dirty tf then tf\<lparr>tf_dirty := False\<rparr> else tf)"

text \<open>The capacity counts only slots that the file holds completely.\<close>

definition tfile_inv :: "u16 \<Rightarrow> tfile \<Rightarrow> bool" where
  "tfile_inv es tf \<longleftrightarrow>
     (case tf_file tf of
        None \<Rightarrow> tf_capacity tf = 0
      | Some f \<Rightarrow> unat (tf_capacity tf) * unat es \<le> flen f)"

lemma grow_step_pos:
  assumes "0 < unat es" and "unat es \<le> 262144"
  shows "0 < unat (GROW_SIZE_BYTES div ucast (es :: u16))"
proof -
  have "unat (ucast es :: u64) = unat es"
    by simp
  then have "unat (GROW_SIZE_BYTES div ucast es) = 262144 div unat es"
    by (simp add: GROW_SIZE_BYTES_def unat_div)
  then show ?thesis
    using assms by (simp add: div_greater_zero_iff)
qed

lemma unat_capacity_mult:
  assumes "unat cap * unat (es :: u16) < 2 ^ 64"
  shows "unat ((cap :: u64) * ucast es) = unat cap * unat es"
  using assms by (simp add: unat_word_ariths)

lemma tfile_inv_open:
  assumes "tfile_open existing es = Inr tf"
    and "\<And>f. existing = Some f \<Longrightarrow> flen f < 2 ^ 64"
  shows "tfile_inv es tf"
proof (cases existing)
  case None
  then show ?thesis using assms(1) by (auto simp: tfile_open_def tfile_inv_def)
next
  case (Some f)
  have u: "unat (ucast es :: u64) = unat es"
    by simp
  have "unat (GROW_SIZE_BYTES div ucast es) * unat es \<le> 262144"
    by (simp add: GROW_SIZE_BYTES_def unat_div u)
  moreover have "unat (word_of_nat (flen f) div ucast es :: u64) * unat es \<le> flen f"
    using assms(2)[OF Some] by (simp add: unat_div u unat_of_nat)
  ultimately show ?thesis
    using assms(1) Some
    by (auto simp: tfile_open_def tfile_inv_def Let_def unat_capacity_mult split: if_splits)
qed

lemma tfile_inv_write:
  "tfile_inv es tf \<Longrightarrow> tfile_write_at tf b off = Inr tf' \<Longrightarrow> tfile_inv es tf'"
  by (auto simp: tfile_inv_def tfile_write_at_def split: option.splits)

lemma tfile_inv_flush: "tfile_inv es tf \<Longrightarrow> tfile_inv es (tfile_flush tf)"
  by (auto simp: tfile_inv_def tfile_flush_def split: option.splits)

end
