(* ===== verification/Stats.thy ===== *)
theory Stats
  imports Table_Entry "HOL-Library.Multiset"
begin

text \<open>
  Column statistics (\<^verbatim>\<open>src/src/stats.rs\<close>): counters kept in the metadata area of an index file.

  The atomics are words; an \<open>i64\<close> is its two's-complement \<open>u64\<close>. A \<open>Cursor\<close> over a slice is the
  list of bytes that is left. The abstract meaning of the counters is a multiset of values, each
  with its plain and its stored size.
\<close>

section \<open>State\<close>

definition HISTOGRAM_BUCKETS :: nat where "HISTOGRAM_BUCKETS = 1024"
definition HISTOGRAM_BUCKET_BITS :: nat where "HISTOGRAM_BUCKET_BITS = 5"

definition STATS_TOTAL_SIZE :: nat where
  "STATS_TOTAL_SIZE = 4 * HISTOGRAM_BUCKETS + 8 * HISTOGRAM_BUCKETS + 8 * SIZE_TIERS + 8 * 11"

record column_stats =
  cs_value_histogram :: "u32 list"
  cs_query_histogram :: "u64 list"
  cs_oversized :: u64
  cs_oversized_bytes :: u64
  cs_total_values :: u64
  cs_total_bytes :: u64
  cs_commits :: u64
  cs_inserted_new :: u64
  cs_inserted_overwrite :: u64
  cs_removed_hit :: u64
  cs_removed_miss :: u64
  cs_queries_miss :: u64
  cs_uncompressed_bytes :: u64
  cs_compression_delta :: "u64 list"

definition wf_stats :: "column_stats \<Rightarrow> bool" where
  "wf_stats st \<longleftrightarrow> length (cs_value_histogram st) = HISTOGRAM_BUCKETS \<and>
     length (cs_query_histogram st) = SIZE_TIERS \<and>
     length (cs_compression_delta st) = HISTOGRAM_BUCKETS"

definition stats_empty :: column_stats where
  "stats_empty = \<lparr>cs_value_histogram = replicate HISTOGRAM_BUCKETS 0,
     cs_query_histogram = replicate SIZE_TIERS 0, cs_oversized = 0, cs_oversized_bytes = 0,
     cs_total_values = 0, cs_total_bytes = 0, cs_commits = 0, cs_inserted_new = 0,
     cs_inserted_overwrite = 0, cs_removed_hit = 0, cs_removed_miss = 0, cs_queries_miss = 0,
     cs_uncompressed_bytes = 0, cs_compression_delta = replicate HISTOGRAM_BUCKETS 0\<rparr>"

section \<open>Loading and storing\<close>

definition cursor_read :: "nat \<Rightarrow> bytes \<Rightarrow> (bytes \<times> bytes) res" where
  "cursor_read n cur = (if n \<le> length cur then Inr (take n cur, drop n cur) else Inl Panic)"

fun read_words :: "nat \<Rightarrow> nat \<Rightarrow> bytes \<Rightarrow> ('a::len word list \<times> bytes) res" where
  "read_words k 0 cur = Inr ([], cur)"
| "read_words k (Suc n) cur =
     rbind (cursor_read k cur) (\<lambda>(b, cur).
     rbind (read_words k n cur) (\<lambda>(ws, cur). Inr (from_le b # ws, cur)))"

definition stats_from_slice :: "bytes \<Rightarrow> column_stats res" where
  "stats_from_slice data =
     rbind (read_words 4 HISTOGRAM_BUCKETS data) (\<lambda>(value_histogram, cur).
     rbind (read_words 8 SIZE_TIERS cur) (\<lambda>(query_histogram, cur).
     rbind (read_words 8 11 cur) (\<lambda>(f, cur).
     rbind (read_words 8 HISTOGRAM_BUCKETS cur) (\<lambda>(compression_delta, _).
       Inr \<lparr>cs_value_histogram = value_histogram, cs_query_histogram = query_histogram,
            cs_oversized = f ! 0, cs_oversized_bytes = f ! 1, cs_total_values = f ! 2,
            cs_total_bytes = f ! 3, cs_commits = f ! 4, cs_inserted_new = f ! 5,
            cs_inserted_overwrite = f ! 6, cs_removed_hit = f ! 7, cs_removed_miss = f ! 8,
            cs_queries_miss = f ! 9, cs_uncompressed_bytes = f ! 10,
            cs_compression_delta = compression_delta\<rparr>))))"

definition write_words :: "nat \<Rightarrow> 'a::len word list \<Rightarrow> bytes" where
  "write_words k ws = concat (map (to_le k) ws)"

definition stats_bytes :: "column_stats \<Rightarrow> bytes" where
  "stats_bytes st = write_words 4 (cs_value_histogram st) @ write_words 8 (cs_query_histogram st)
     @ write_words 8 [cs_oversized st, cs_oversized_bytes st, cs_total_values st, cs_total_bytes st,
         cs_commits st, cs_inserted_new st, cs_inserted_overwrite st, cs_removed_hit st,
         cs_removed_miss st, cs_queries_miss st, cs_uncompressed_bytes st]
     @ write_words 8 (cs_compression_delta st)"

definition stats_to_slice :: "column_stats \<Rightarrow> bytes \<Rightarrow> bytes res" where
  "stats_to_slice st data =
     (if length (stats_bytes st) \<le> length data then Inr (splice data 0 (stats_bytes st))
      else Inl Panic)"

section \<open>Counting\<close>

definition value_histogram_index :: "u32 \<Rightarrow> nat option" where
  "value_histogram_index sz =
     (let bucket = drop_bit HISTOGRAM_BUCKET_BITS (unat sz)
      in if bucket < HISTOGRAM_BUCKETS then Some bucket else None)"

text \<open>\<open>fetch_add\<close> on an array element (\<open>fetch_sub\<close> with the negated operand): wraps.\<close>

definition bump :: "nat \<Rightarrow> 'a::len word \<Rightarrow> 'a word list \<Rightarrow> 'a word list" where
  "bump i d xs = xs[i := xs ! i + d]"

definition query_hit :: "u8 \<Rightarrow> column_stats \<Rightarrow> column_stats" where
  "query_hit size_tier st =
     st\<lparr>cs_query_histogram := bump (unat size_tier) 1 (cs_query_histogram st)\<rparr>"

definition query_miss :: "column_stats \<Rightarrow> column_stats" where
  "query_miss st = st\<lparr>cs_queries_miss := cs_queries_miss st + 1\<rparr>"

definition stats_insert :: "u32 \<Rightarrow> u32 \<Rightarrow> column_stats \<Rightarrow> column_stats" where
  "stats_insert sz compressed st =
     (let st = (case value_histogram_index sz of
          Some index \<Rightarrow>
            st\<lparr>cs_value_histogram := bump index 1 (cs_value_histogram st),
               cs_compression_delta := bump index (ucast sz - ucast compressed) (cs_compression_delta st)\<rparr>
        | None \<Rightarrow>
            st\<lparr>cs_oversized := cs_oversized st + 1,
               cs_oversized_bytes := cs_oversized_bytes st + ucast compressed\<rparr>)
      in st\<lparr>cs_total_values := cs_total_values st + 1,
            cs_total_bytes := cs_total_bytes st + ucast compressed,
            cs_uncompressed_bytes := cs_uncompressed_bytes st + ucast sz\<rparr>)"

definition stats_remove :: "u32 \<Rightarrow> u32 \<Rightarrow> column_stats \<Rightarrow> column_stats" where
  "stats_remove sz compressed st =
     (let st = (case value_histogram_index sz of
          Some index \<Rightarrow>
            st\<lparr>cs_value_histogram := bump index (- 1) (cs_value_histogram st),
               cs_compression_delta :=
                 bump index (- (ucast sz - ucast compressed)) (cs_compression_delta st)\<rparr>
        | None \<Rightarrow>
            st\<lparr>cs_oversized := cs_oversized st - 1,
               cs_oversized_bytes := cs_oversized_bytes st - ucast compressed\<rparr>)
      in st\<lparr>cs_total_values := cs_total_values st - 1,
            cs_total_bytes := cs_total_bytes st - ucast compressed,
            cs_uncompressed_bytes := cs_uncompressed_bytes st - ucast sz\<rparr>)"

definition insert_val :: "u32 \<Rightarrow> u32 \<Rightarrow> column_stats \<Rightarrow> column_stats" where
  "insert_val sz compressed st =
     stats_insert sz compressed (st\<lparr>cs_inserted_new := cs_inserted_new st + 1\<rparr>)"

definition remove_val :: "u32 \<Rightarrow> u32 \<Rightarrow> column_stats \<Rightarrow> column_stats" where
  "remove_val sz compressed st =
     stats_remove sz compressed (st\<lparr>cs_removed_hit := cs_removed_hit st + 1\<rparr>)"

definition remove_miss :: "column_stats \<Rightarrow> column_stats" where
  "remove_miss st = st\<lparr>cs_removed_miss := cs_removed_miss st + 1\<rparr>"

definition replace_val :: "u32 \<Rightarrow> u32 \<Rightarrow> u32 \<Rightarrow> u32 \<Rightarrow> column_stats \<Rightarrow> column_stats" where
  "replace_val old old_compressed new new_compressed st =
     stats_insert new new_compressed
       (stats_remove old old_compressed (st\<lparr>cs_inserted_overwrite := cs_inserted_overwrite st + 1\<rparr>))"

definition stats_commit :: "column_stats \<Rightarrow> column_stats" where
  "stats_commit st = st\<lparr>cs_commits := cs_commits st + 1\<rparr>"

section \<open>Storing and loading gives the counters back\<close>

lemma length_write_words [simp]: "length (write_words k ws) = k * length ws"
  by (induction ws) (auto simp: write_words_def)

lemma read_write_words:
  "LENGTH('a) \<le> 8 * k \<Longrightarrow> n = length ws \<Longrightarrow>
     read_words k n (write_words k (ws :: 'a::len word list) @ rest) = Inr (ws, rest)"
proof (induction ws arbitrary: n)
  case Nil
  then show ?case by (simp add: write_words_def)
next
  case (Cons w ws)
  have "cursor_read k (write_words k (w # ws) @ rest) = Inr (to_le k w, write_words k ws @ rest)"
    by (simp add: cursor_read_def write_words_def)
  then show ?case
    using Cons by simp
qed

lemma length_stats_bytes: "wf_stats st \<Longrightarrow> length (stats_bytes st) = STATS_TOTAL_SIZE"
  by (simp add: stats_bytes_def wf_stats_def STATS_TOTAL_SIZE_def)

lemma stats_from_bytes:
  assumes "wf_stats st"
  shows "stats_from_slice (stats_bytes st @ rest) = Inr st"
  using assms
  by (simp add: stats_from_slice_def stats_bytes_def wf_stats_def read_write_words
      del: One_nat_def)

section \<open>The multiset that the counters describe\<close>

definition bucket_of :: "u32 \<times> u32 \<Rightarrow> nat option" where
  "bucket_of v = value_histogram_index (fst v)"

definition saved :: "u32 \<times> u32 \<Rightarrow> u64" where
  "saved v = ucast (fst v) - ucast (snd v)"

definition describes :: "column_stats \<Rightarrow> (u32 \<times> u32) multiset \<Rightarrow> bool" where
  "describes st M \<longleftrightarrow> wf_stats st \<and>
     (\<forall>i < HISTOGRAM_BUCKETS. cs_value_histogram st ! i =
        of_nat (size (filter_mset (\<lambda>v. bucket_of v = Some i) M))) \<and>
     (\<forall>i < HISTOGRAM_BUCKETS. cs_compression_delta st ! i =
        (\<Sum>v\<in>#filter_mset (\<lambda>v. bucket_of v = Some i) M. saved v)) \<and>
     cs_oversized st = of_nat (size (filter_mset (\<lambda>v. bucket_of v = None) M)) \<and>
     cs_oversized_bytes st = (\<Sum>v\<in>#filter_mset (\<lambda>v. bucket_of v = None) M. ucast (snd v)) \<and>
     cs_total_values st = of_nat (size M) \<and>
     cs_total_bytes st = (\<Sum>v\<in>#M. ucast (snd v)) \<and>
     cs_uncompressed_bytes st = (\<Sum>v\<in>#M. ucast (fst v))"

lemma length_bump [simp]: "length (bump i d xs) = length xs"
  by (simp add: bump_def)

lemma nth_bump:
  "i < length xs \<Longrightarrow> j < length xs \<Longrightarrow> bump i d xs ! j = (if i = j then xs ! j + d else xs ! j)"
  by (simp add: bump_def nth_list_update)

lemma value_histogram_index_bound: "value_histogram_index sz = Some i \<Longrightarrow> i < HISTOGRAM_BUCKETS"
  by (auto simp: value_histogram_index_def Let_def split: if_splits)

lemma describes_empty: "describes stats_empty {#}"
  by (simp add: describes_def stats_empty_def wf_stats_def)

lemma describes_insert:
  assumes "describes st M"
  shows "describes (stats_insert sz c st) (add_mset (sz, c) M)"
proof (cases "value_histogram_index sz")
  case None
  then show ?thesis
    using assms by (simp add: describes_def stats_insert_def bucket_of_def wf_stats_def algebra_simps)
next
  case (Some i)
  then show ?thesis
    using assms value_histogram_index_bound[OF Some]
    by (simp add: describes_def stats_insert_def bucket_of_def wf_stats_def nth_bump saved_def algebra_simps)
qed

lemma describes_remove:
  assumes "describes st (add_mset (sz, c) M)"
  shows "describes (stats_remove sz c st) M"
proof (cases "value_histogram_index sz")
  case None
  then show ?thesis
    using assms by (simp add: describes_def stats_remove_def bucket_of_def wf_stats_def algebra_simps)
next
  case (Some i)
  then show ?thesis
    using assms value_histogram_index_bound[OF Some]
    by (simp add: describes_def stats_remove_def bucket_of_def wf_stats_def nth_bump saved_def algebra_simps)
qed

lemma describes_other [simp]:
  "describes (st\<lparr>cs_inserted_new := x\<rparr>) M = describes st M"
  "describes (st\<lparr>cs_removed_hit := x\<rparr>) M = describes st M"
  "describes (st\<lparr>cs_inserted_overwrite := x\<rparr>) M = describes st M"
  by (simp_all add: describes_def wf_stats_def)

end
