(* ===== verification/Index.thy ===== *)
theory Index
  imports Log_Overlay File Stats
begin

text \<open>
  The hash index (\<^verbatim>\<open>src/src/index.rs\<close>, \<open>impl IndexTable\<close>): a memory-mapped file of chunks of 64
  entries, read through the log overlay and written only by enacting log records.

  The map is an \<open>os_file\<close>; \<open>it_on_disk\<close> says whether a file exists at the table's path. A chunk
  that is enacted outside the map is \<open>Undefined\<close>: the code writes there through a raw pointer.
\<close>

section \<open>State\<close>

datatype plan_outcome = Written | NeedReindex | Skipped

record index_table =
  it_id :: index_table_id
  it_map :: "os_file option"
  it_on_disk :: bool

abbreviation it_bits :: "index_table \<Rightarrow> u8" where
  "it_bits t \<equiv> index_id_bits (it_id t)"

definition index_open_existing :: "os_file option \<Rightarrow> index_table_id \<Rightarrow> index_table option" where
  "index_open_existing existing id' =
     (case existing of
        None \<Rightarrow> None
      | Some file \<Rightarrow>
          Some \<lparr>it_id = id', it_map = Some (set_len file (unat (index_file_size (index_id_bits id')))),
                it_on_disk = True\<rparr>)"

definition index_create_new :: "bool \<Rightarrow> index_table_id \<Rightarrow> index_table" where
  "index_create_new on_disk id' = \<lparr>it_id = id', it_map = None, it_on_disk = on_disk\<rparr>"

text \<open>A range of the map, bounds-checked as slicing a \<open>MmapMut\<close> is.\<close>

definition map_slice :: "os_file \<Rightarrow> nat \<Rightarrow> nat \<Rightarrow> bytes res" where
  "map_slice m off n = (if off + n \<le> flen m then Inr (pread m off n) else Inl Panic)"

definition load_stats :: "index_table \<Rightarrow> column_stats res" where
  "load_stats t =
     (case it_map t of
        Some m \<Rightarrow> rbind (map_slice m HEADER_SIZE STATS_TOTAL_SIZE) stats_from_slice
      | None \<Rightarrow> Inr stats_empty)"

definition write_stats :: "column_stats \<Rightarrow> index_table \<Rightarrow> index_table res" where
  "write_stats st t =
     (case it_map t of
        Some m \<Rightarrow>
          rbind (map_slice m HEADER_SIZE STATS_TOTAL_SIZE) (\<lambda>s.
          rbind (stats_to_slice st s) (\<lambda>s.
            Inr (t\<lparr>it_map := Some (write_all_at m HEADER_SIZE s)\<rparr>)))
      | None \<Rightarrow> Inr t)"

section \<open>Queries\<close>

definition chunk_offset :: "u64 \<Rightarrow> nat" where
  "chunk_offset index = unat (of_nat META_SIZE + index * of_nat CHUNK_LEN)"

definition chunk_at :: "u64 \<Rightarrow> os_file \<Rightarrow> bytes res" where
  "chunk_at index m = map_slice m (chunk_offset index) CHUNK_LEN"

definition index_get :: "index_table \<Rightarrow> bytes \<Rightarrow> nat \<Rightarrow> log_query \<Rightarrow> (entry \<times> nat) res" where
  "index_get t key sub_index q =
     (let key = index_from_partial key; chunk_index = chunk_index (it_id t) key
      in case q_index q (it_id t) chunk_index of
           Some chunk \<Rightarrow> Inr (find_entry (it_id t) key sub_index chunk)
         | None \<Rightarrow>
             (case it_map t of
                Some m \<Rightarrow> rbind (chunk_at chunk_index m) (\<lambda>chunk.
                  Inr (find_entry (it_id t) key sub_index chunk))
              | None \<Rightarrow> Inr (entry_empty, 0)))"

definition index_entries :: "index_table \<Rightarrow> u64 \<Rightarrow> log_query \<Rightarrow> entry list res" where
  "index_entries t ci q =
     (case q_index q (it_id t) ci of
        Some chunk \<Rightarrow> Inr (transmute_chunk chunk)
      | None \<Rightarrow>
          (case it_map t of
             Some m \<Rightarrow> rbind (chunk_at ci m) (\<lambda>chunk. Inr (transmute_chunk chunk))
           | None \<Rightarrow> Inr (transmute_chunk EMPTY_CHUNK)))"

section \<open>Planning\<close>

definition plan_insert_chunk :: "index_table \<Rightarrow> u64 \<Rightarrow> address \<Rightarrow> bytes \<Rightarrow> nat option \<Rightarrow> log_writer \<Rightarrow>
    (plan_outcome \<times> log_writer) res" where
  "plan_insert_chunk t key_prefix address source sub_index w =
     (let chunk_index = chunk_index (it_id t) key_prefix
      in if entry_last_address (it_bits t) < address_as_u64 address then Inr (NeedReindex, w)
         else
           let chunk = source;
               partial_key = entry_extract_key key_prefix (it_bits t);
               new_entry = entry_new address partial_key (it_bits t)
           in case sub_index of
                Some i \<Rightarrow>
                  if i < CHUNK_ENTRIES \<and>
                     entry_partial_key (read_entry chunk i) (it_bits t)
                       = entry_partial_key new_entry (it_bits t)
                  then Inr (Written,
                         insert_index w (it_id t) chunk_index (of_nat i) (write_entry new_entry i chunk))
                  else Inl Panic
              | None \<Rightarrow>
                  (case List.find (\<lambda>i. entry_is_empty (read_entry chunk i)) [0..<CHUNK_ENTRIES] of
                     Some i \<Rightarrow> Inr (Written,
                       insert_index w (it_id t) chunk_index (of_nat i) (write_entry new_entry i chunk))
                   | None \<Rightarrow> Inr (NeedReindex, w)))"

definition index_write_insert_plan :: "index_table \<Rightarrow> bytes \<Rightarrow> address \<Rightarrow> nat option \<Rightarrow> log_writer \<Rightarrow>
    (plan_outcome \<times> log_writer) res" where
  "index_write_insert_plan t key address sub_index w =
     (let key_prefix = index_from_partial key; chunk_index = chunk_index (it_id t) key_prefix
      in case q_index (writer_query w) (it_id t) chunk_index of
           Some chunk \<Rightarrow> plan_insert_chunk t key_prefix address chunk sub_index w
         | None \<Rightarrow>
             (case it_map t of
                Some m \<Rightarrow> rbind (chunk_at chunk_index m) (\<lambda>chunk.
                  plan_insert_chunk t key_prefix address chunk sub_index w)
              | None \<Rightarrow> plan_insert_chunk t key_prefix address EMPTY_CHUNK sub_index w))"

definition plan_remove_chunk :: "index_table \<Rightarrow> u64 \<Rightarrow> bytes \<Rightarrow> nat \<Rightarrow> log_writer \<Rightarrow>
    (plan_outcome \<times> log_writer) res" where
  "plan_remove_chunk t key_prefix source sub_index w =
     (let chunk = source;
          chunk_index = chunk_index (it_id t) key_prefix;
          partial_key = entry_extract_key key_prefix (it_bits t);
          i = sub_index;
          e = read_entry chunk i
      in if CHUNK_ENTRIES \<le> i then Inl Panic
         else if \<not> entry_is_empty e \<and> entry_partial_key e (it_bits t) = partial_key
         then Inr (Written,
                insert_index w (it_id t) chunk_index (of_nat i) (write_entry entry_empty i chunk))
         else Inr (Skipped, w))"

definition index_write_remove_plan :: "index_table \<Rightarrow> bytes \<Rightarrow> nat \<Rightarrow> log_writer \<Rightarrow>
    (plan_outcome \<times> log_writer) res" where
  "index_write_remove_plan t key sub_index w =
     (let key_prefix = index_from_partial key; chunk_index = chunk_index (it_id t) key_prefix
      in case q_index (writer_query w) (it_id t) chunk_index of
           Some chunk \<Rightarrow> plan_remove_chunk t key_prefix chunk sub_index w
         | None \<Rightarrow>
             (case it_map t of
                Some m \<Rightarrow> rbind (chunk_at chunk_index m) (\<lambda>chunk.
                  plan_remove_chunk t key_prefix chunk sub_index w)
              | None \<Rightarrow> Inr (Skipped, w)))"

section \<open>Enacting log records\<close>

function enact_entries :: "u64 \<Rightarrow> bytes \<Rightarrow> log_reader \<Rightarrow> (bytes \<times> log_reader) res" where
  "enact_entries msk chunk r =
     (if msk = 0 then Inr (chunk, r)
      else let i = trailing_zeros msk
           in rbind (reader_read ENTRY_BYTES r) (\<lambda>(b, r).
                enact_entries (clear_bit msk i) (splice chunk (i * ENTRY_BYTES) b) r))"
  by pat_completeness auto
termination
  by (relation "measure (\<lambda>(msk, chunk, r). unat msk)") (auto intro: mask_loop_decreases)

declare enact_entries.simps [simp del]

text \<open>The map that \<open>enact_plan\<close> writes to, created when there is none.\<close>

definition ensure_map :: "index_table \<Rightarrow> (os_file \<times> index_table) res" where
  "ensure_map t =
     (case it_map t of
        Some m \<Rightarrow> Inr (m, t)
      | None \<Rightarrow>
          if it_on_disk t then Inl (Err (Io AlreadyExists))
          else let m = set_len empty_file (unat (index_file_size (it_bits t)))
               in Inr (m, t\<lparr>it_map := Some m, it_on_disk := True\<rparr>))"

text \<open>
  The chunk is a raw pointer into the map. The entries that the mask names are written through it,
  which has no defined result for a chunk outside the map; with an empty mask nothing is written.
\<close>

definition index_enact_plan :: "index_table \<Rightarrow> u64 \<Rightarrow> log_reader \<Rightarrow> (index_table \<times> log_reader) res" where
  "index_enact_plan t index r =
     rbind (ensure_map t) (\<lambda>(m, t).
       let offset = chunk_offset index
       in rbind (reader_read 8 r) (\<lambda>(mask_buf, r).
          if flen m < offset + CHUNK_LEN
          then if from_le mask_buf = (0 :: u64) then Inr (t, r) else Inl Undefined
          else
            rbind (enact_entries (from_le mask_buf) (pread m offset CHUNK_LEN) r) (\<lambda>(chunk, r).
              Inr (t\<lparr>it_map := Some (write_all_at m offset chunk)\<rparr>, r))))"

function skip_entries :: "u64 \<Rightarrow> log_reader \<Rightarrow> log_reader res" where
  "skip_entries msk r =
     (if msk = 0 then Inr r
      else rbind (reader_read 8 r) (\<lambda>(_, r). skip_entries (clear_bit msk (trailing_zeros msk)) r))"
  by pat_completeness auto
termination
  by (relation "measure (\<lambda>(msk, r). unat msk)") (auto intro: mask_loop_decreases)

declare skip_entries.simps [simp del]

definition skip_plan :: "log_reader \<Rightarrow> log_reader res" where
  "skip_plan r = rbind (reader_read 8 r) (\<lambda>(buf, r). skip_entries (from_le buf) r)"

definition index_validate_plan :: "index_table \<Rightarrow> u64 \<Rightarrow> log_reader \<Rightarrow> log_reader res" where
  "index_validate_plan t index r =
     (if total_entries (it_bits t) \<le> index then Inl (Err (Corruption ''Bad index''))
      else rbind (reader_read 8 r) (\<lambda>(buf, r). skip_entries (from_le buf) r))"

definition drop_file :: "index_table \<Rightarrow> unit res" where
  "drop_file t = (if it_on_disk t then Inr () else Inl (Err (Io NotFound)))"

end
