(* ===== verification/Table.thy ===== *)
theory Table
  imports Log File
begin

text \<open>
  The value table (\<^verbatim>\<open>src/src/table.rs\<close>, \<open>impl ValueTable\<close>): a file of fixed-size slots with a
  linked list of free slots, whose values may span a chain of slots.

  The atomics \<open>filled\<close>, \<open>last_removed\<close> and \<open>dirty_header\<close> are fields of the record
  \<open>value_table\<close>; every operation that writes takes the table and the log writer and returns
  both. A closure is a function with an explicit state. Chain loops are partial functions: a
  cyclic chain makes them \<open>None\<close>.
\<close>

section \<open>State\<close>

record value_table =
  vt_id :: value_table_id
  vt_entry_size :: u16
  vt_file :: tfile
  vt_filled :: u64
  vt_last_removed :: u64
  vt_dirty_header :: bool
  vt_multipart :: bool
  vt_ref_counted :: bool
  vt_db_version :: u32

abbreviation es :: "value_table \<Rightarrow> nat" where
  "es t \<equiv> unat (vt_entry_size t)"

definition slot_offset :: "value_table \<Rightarrow> u64 \<Rightarrow> u64" where
  "slot_offset t index = index * ucast (vt_entry_size t)"

definition table_open :: "os_file option \<Rightarrow> value_table_id \<Rightarrow> u16 option \<Rightarrow> bool \<Rightarrow> u32 \<Rightarrow> value_table res"
  where "table_open existing id' entry_size ref_counted db_version =
     (let (multipart, entry_size) = (case entry_size of Some s \<Rightarrow> (False, s) | None \<Rightarrow> (True, 4096))
      in rbind (rassert (of_nat MIN_ENTRY_SIZE \<le> entry_size)) (\<lambda>_.
         rbind (rassert (4 \<le> db_version \<longrightarrow> entry_size \<le> of_nat MAX_ENTRY_SIZE)) (\<lambda>_.
         rbind (tfile_open existing entry_size) (\<lambda>file.
         rbind (case tf_file file of
                  None \<Rightarrow> Inr (1, 0)
                | Some f \<Rightarrow> rbind (read_exact_at f 0 16) (\<lambda>header.
                    let filled = header_filled header
                    in Inr (if filled = 0 then 1 else filled, header_last_removed header)))
           (\<lambda>(filled, last_removed).
             Inr \<lparr>vt_id = id', vt_entry_size = entry_size, vt_file = file, vt_filled = filled,
                  vt_last_removed = last_removed, vt_dirty_header = False, vt_multipart = multipart,
                  vt_ref_counted = ref_counted, vt_db_version = db_version\<rparr>)))))"

definition ref_size :: "value_table \<Rightarrow> nat" where
  "ref_size t = (if vt_ref_counted t then REFS_SIZE else 0)"

definition value_size :: "value_table \<Rightarrow> table_key \<Rightarrow> u16 option" where
  "value_size t key =
     (let base = vt_entry_size t - of_nat SIZE_SIZE - of_nat (ref_size t);
          k_encoded = of_nat (key_encoded_size key)
      in if base < k_encoded then None else Some (base - k_encoded))"

section \<open>Reading\<close>

text \<open>The read of a slot that every query starts with: the overlay, else \<open>n\<close> bytes of the file.\<close>

definition load_entry :: "value_table \<Rightarrow> log_query \<Rightarrow> u64 \<Rightarrow> ebuf \<Rightarrow> nat \<Rightarrow> ebuf res" where
  "load_entry t q index buf n =
     (let (hit, d) = log_value q (vt_id t) index (edata buf)
      in if hit then Inr (buf\<lparr>edata := d\<rparr>)
         else rbind (tfile_read_at (vt_file t) (slot_offset t index) n) (\<lambda>b.
                Inr (buf\<lparr>edata := splice (edata buf) 0 b\<rparr>)))"

definition part_header :: "value_table \<Rightarrow> nat \<Rightarrow> bool \<Rightarrow> ebuf \<Rightarrow> ((nat \<times> u64) \<times> bool \<times> ebuf) res" where
  "part_header t part compressed buf =
     (if vt_multipart t \<and> is_multi (vt_db_version t) buf then
        let compressed = (if part = 0 \<and> 6 < vt_db_version t \<and> is_multihead_compressed buf
                          then True else compressed)
        in rbind (read_u64 (skip_size buf)) (\<lambda>(nxt, buf). Inr ((es t, nxt), compressed, buf))
      else
        rbind (read_size buf) (\<lambda>((sz, read_compressed), buf).
          let compressed = (if part = 0 \<or> vt_db_version t \<le> 6 then read_compressed else compressed)
          in Inr ((eoff buf + unat sz, 0), compressed, buf)))"

text \<open>The first part also holds the counter and the key; \<open>None\<close> is a key mismatch.\<close>

definition part_key :: "value_table \<Rightarrow> nat \<Rightarrow> u32 \<Rightarrow> table_key_query \<Rightarrow> ebuf \<Rightarrow>
    (u32 \<times> table_key_query \<times> ebuf) option res" where
  "part_key t part rc kq buf =
     (if part \<noteq> 0 then Inr (Some (rc, kq, buf))
      else
        rbind (if vt_ref_counted t then read_u32 buf else Inr (rc, buf)) (\<lambda>(rc, buf).
          case kq of
            Fetch (Some _) \<Rightarrow>
              rbind (fetch_partial buf) (\<lambda>(pk, buf). Inr (Some (rc, Fetch (Some pk), buf)))
          | Fetch None \<Rightarrow> Inr (Some (rc, kq, buf))
          | Check k \<Rightarrow>
              rbind (key_fetch k buf) (\<lambda>(to_fetch, buf).
                if key_compare k to_fetch then Inr (Some (rc, kq, buf)) else Inr None)))"

partial_function (option) for_parts_loop ::
    "value_table \<Rightarrow> log_query \<Rightarrow> (bytes \<Rightarrow> 's \<Rightarrow> bool \<times> 's) \<Rightarrow> ebuf \<Rightarrow> nat \<Rightarrow> bool \<Rightarrow> u32 \<Rightarrow>
     table_key_query \<Rightarrow> u64 \<Rightarrow> 's \<Rightarrow> ((u32 \<times> bool) \<times> table_key_query \<times> 's) comp" where
  "for_parts_loop t q f buf part compressed rc kq index s =
     (case load_entry t q index buf (es t) of
        Inl e \<Rightarrow> Some (Inl e)
      | Inr buf \<Rightarrow>
          let buf = set_offset buf 0
          in if is_tombstone buf then Some (Inr ((0, False), kq, s))
             else
               case part_header t part compressed buf of
                 Inl e \<Rightarrow> Some (Inl e)
               | Inr ((entry_end, nxt), compressed, buf) \<Rightarrow>
                   (case part_key t part rc kq buf of
                      Inl e \<Rightarrow> Some (Inl e)
                    | Inr None \<Rightarrow> Some (Inr ((0, False), kq, s))
                    | Inr (Some (rc, kq, buf)) \<Rightarrow>
                        (case remaining_to buf entry_end of
                           Inl e \<Rightarrow> Some (Inl e)
                         | Inr bs \<Rightarrow>
                             let (continue, s) = f bs s
                             in if \<not> continue \<or> nxt = 0 then Some (Inr ((rc, compressed), kq, s))
                                else for_parts_loop t q f buf (Suc part) compressed rc kq nxt s)))"

definition for_parts :: "value_table \<Rightarrow> table_key_query \<Rightarrow> u64 \<Rightarrow> log_query \<Rightarrow>
    (bytes \<Rightarrow> 's \<Rightarrow> bool \<times> 's) \<Rightarrow> 's \<Rightarrow> ((u32 \<times> bool) \<times> table_key_query \<times> 's) comp" where
  "for_parts t kq index q f s =
     for_parts_loop t q f (ebuf_uninit MAX_ENTRY_BUF_SIZE) 0 False 1 kq index s"

definition query :: "value_table \<Rightarrow> table_key_query \<Rightarrow> u64 \<Rightarrow> log_query \<Rightarrow>
    ((bytes \<times> bool \<times> u32) option \<times> table_key_query) comp" where
  "query t kq index q =
     cbind (for_parts t kq index q (\<lambda>buf result. (True, result @ buf)) [])
       (\<lambda>((rc, compressed), kq, result).
         cret (if 0 < rc then Some (result, compressed, rc) else None, kq))"

definition table_get :: "value_table \<Rightarrow> table_key \<Rightarrow> u64 \<Rightarrow> log_query \<Rightarrow> (bytes \<times> bool) option comp" where
  "table_get t key index q =
     cbind (query t (Check key) index q)
       (\<lambda>(r, _). cret (map_option (\<lambda>(value, compressed, _). (value, compressed)) r))"

definition get_with_meta :: "value_table \<Rightarrow> u64 \<Rightarrow> log_query \<Rightarrow>
    (bytes \<times> u32 \<times> bytes \<times> bool) option comp" where
  "get_with_meta t index q =
     cbind (query t (Fetch (Some (replicate PARTIAL_SIZE 0))) index q)
       (\<lambda>(r, kq). cret (case (r, kq) of
          (Some (value, compressed, rc), Fetch (Some query_key)) \<Rightarrow> Some (value, rc, query_key, compressed)
        | _ \<Rightarrow> None))"

definition table_size :: "value_table \<Rightarrow> table_key \<Rightarrow> u64 \<Rightarrow> log_query \<Rightarrow> (u32 \<times> bool) option comp" where
  "table_size t key index q =
     cbind (for_parts t (Check key) index q (\<lambda>buf result. (True, result + of_nat (length buf))) 0)
       (\<lambda>((rc, compressed), _, result). cret (if 0 < rc then Some (result, compressed) else None))"

definition partial_key_at :: "value_table \<Rightarrow> u64 \<Rightarrow> log_query \<Rightarrow> bytes option comp" where
  "partial_key_at t index q =
     cbind (for_parts t (Fetch (Some (replicate PARTIAL_SIZE 0))) index q (\<lambda>_ s. (False, s)) ())
       (\<lambda>((rc, _), kq, _). cret (if rc = 0 then None
          else case kq of Fetch k \<Rightarrow> k | Check _ \<Rightarrow> None))"

definition table_is_tombstone :: "value_table \<Rightarrow> u64 \<Rightarrow> log_query \<Rightarrow> bool res" where
  "table_is_tombstone t index q =
     rbind (load_entry t q index (ebuf_uninit 40) 40) (\<lambda>buf. Inr (is_tombstone buf))"

definition has_key_at :: "value_table \<Rightarrow> u64 \<Rightarrow> table_key \<Rightarrow> log_query \<Rightarrow> bool comp" where
  "has_key_at t index key q =
     (case key of
        Partial k \<Rightarrow> cbind (partial_key_at t index q)
          (\<lambda>r. cret (case r of Some existing_key \<Rightarrow> existing_key = partial_key k | None \<Rightarrow> False))
      | NoHash \<Rightarrow> Some (rbind (table_is_tombstone t index q) (\<lambda>b. Inr (\<not> b))))"

definition read_next_free :: "value_table \<Rightarrow> u64 \<Rightarrow> log_query \<Rightarrow> u64 res" where
  "read_next_free t index q =
     rbind (load_entry t q index (ebuf_uninit 10) 10) (\<lambda>buf.
     rbind (read_u64 (skip_size buf)) (\<lambda>(nxt, _). Inr nxt))"

definition read_next_part :: "value_table \<Rightarrow> u64 \<Rightarrow> log_query \<Rightarrow> u64 option res" where
  "read_next_part t index q =
     rbind (load_entry t q index (ebuf_uninit 10) 10) (\<lambda>buf.
       if vt_multipart t \<and> is_multi (vt_db_version t) buf
       then rbind (read_u64 (skip_size buf)) (\<lambda>(nxt, _). Inr (Some nxt))
       else Inr None)"

section \<open>Allocating, writing and freeing slots\<close>

definition next_free :: "value_table \<Rightarrow> log_query \<Rightarrow> (u64 \<times> value_table) res" where
  "next_free t q =
     (let filled = vt_filled t; last_removed = vt_last_removed t
      in if last_removed \<noteq> 0 then
           rbind (read_next_free t last_removed q) (\<lambda>next_removed.
             Inr (last_removed, t\<lparr>vt_last_removed := next_removed, vt_dirty_header := True\<rparr>))
         else Inr (filled, t\<lparr>vt_filled := filled + 1, vt_dirty_header := True\<rparr>))"

definition clear_slot :: "value_table \<Rightarrow> u64 \<Rightarrow> log_writer \<Rightarrow> (value_table \<times> log_writer) res" where
  "clear_slot t index w =
     rbind (write_slice (ebuf_uninit 10) TOMBSTONE) (\<lambda>buf.
     rbind (write_u64 buf (vt_last_removed t)) (\<lambda>buf.
       Inr (t\<lparr>vt_last_removed := index, vt_dirty_header := True\<rparr>,
            insert_value w (vt_id t) index (take (eoff buf) (edata buf)))))"

partial_function (option) clear_chain ::
    "value_table \<Rightarrow> u64 \<Rightarrow> log_writer \<Rightarrow> (value_table \<times> log_writer) comp" where
  "clear_chain t index w =
     (case read_next_part t index (writer_query w) of
        Inl e \<Rightarrow> Some (Inl e)
      | Inr None \<Rightarrow> Some (clear_slot t index w)
      | Inr (Some nxt) \<Rightarrow>
          (case clear_slot t index w of
             Inl e \<Rightarrow> Some (Inl e)
           | Inr (t, w) \<Rightarrow> clear_chain t nxt w))"

text \<open>The head of the entry that one iteration of \<open>overwrite_chain\<close> writes.\<close>

definition write_part_head :: "value_table \<Rightarrow> log_query \<Rightarrow> nat \<Rightarrow> bool \<Rightarrow> u64 \<Rightarrow> bool \<Rightarrow> u64 \<Rightarrow>
    (nat \<times> u64 \<times> ebuf \<times> value_table) res" where
  "write_part_head t q remainder compressed start follow next_index =
     (let buf = ebuf_uninit MAX_ENTRY_BUF_SIZE; free_space = es t - SIZE_SIZE
      in if free_space < remainder then
           rbind (if follow then Inr (next_index, t) else next_free t q) (\<lambda>(next_index, t).
           rbind (write_slice buf (if start = 0 then (if compressed then MULTIHEAD_COMPRESSED else MULTIHEAD)
                                   else MULTIPART)) (\<lambda>buf.
           rbind (write_u64 buf next_index) (\<lambda>buf.
             Inr (free_space - INDEX_SIZE, next_index, buf, t))))
         else
           rbind (write_size buf (of_nat remainder) compressed) (\<lambda>buf.
             Inr (remainder, next_index, buf, t)))"

text \<open>One iteration of \<open>overwrite_chain\<close>, up to and including the write to the log.\<close>

definition overwrite_part :: "value_table \<Rightarrow> log_writer \<Rightarrow> table_key \<Rightarrow> bytes \<Rightarrow> bool \<Rightarrow>
    nat \<Rightarrow> nat \<Rightarrow> u64 \<Rightarrow> u64 \<Rightarrow> bool \<Rightarrow>
    (value_table \<times> log_writer \<times> nat \<times> nat \<times> u64 \<times> u64 \<times> bool) res" where
  "overwrite_part t w key value' compressed remainder offset start index follow =
     rbind (if follow then read_next_part t index (writer_query w) else Inr None) (\<lambda>existing.
       let follow = (follow \<and> existing \<noteq> None);
           next_index = (case existing of Some nxt \<Rightarrow> nxt | None \<Rightarrow> 0)
       in rbind (write_part_head t (writer_query w) remainder compressed start follow next_index)
            (\<lambda>(value_len, next_index, buf, t).
          let init_offset = eoff buf
          in rbind (if offset = 0 then
                      rbind (if vt_ref_counted t then write_u32 buf 1 else Inr buf) (key_write key)
                    else Inr buf) (\<lambda>buf.
             let written = eoff buf - init_offset
             in rbind (if offset + value_len < written then Inl Panic
                       else slice value' offset (offset + value_len - written)) (\<lambda>part.
                rbind (write_slice buf part) (\<lambda>buf.
                  Inr (t, insert_value w (vt_id t) index (take (eoff buf) (edata buf)),
                       remainder - value_len, offset + (value_len - written),
                       if start = 0 then index else start, next_index, follow))))))"

partial_function (option) overwrite_loop ::
    "table_key \<Rightarrow> bytes \<Rightarrow> bool \<Rightarrow> value_table \<Rightarrow> log_writer \<Rightarrow> nat \<Rightarrow> nat \<Rightarrow> u64 \<Rightarrow> u64 \<Rightarrow> bool \<Rightarrow>
     (u64 \<times> value_table \<times> log_writer) comp" where
  "overwrite_loop key value' compressed t w remainder offset start index follow =
     (case overwrite_part t w key value' compressed remainder offset start index follow of
        Inl e \<Rightarrow> Some (Inl e)
      | Inr (t, w, remainder, offset, start, index, follow) \<Rightarrow>
          if remainder = 0 then
            (if index \<noteq> 0 then cbind (clear_chain t index w) (\<lambda>(t, w). cret (start, t, w))
             else Some (Inr (start, t, w)))
          else overwrite_loop key value' compressed t w remainder offset start index follow)"

definition overwrite_chain :: "value_table \<Rightarrow> table_key \<Rightarrow> bytes \<Rightarrow> log_writer \<Rightarrow> u64 option \<Rightarrow> bool \<Rightarrow>
    (u64 \<times> value_table \<times> log_writer) comp" where
  "overwrite_chain t key value' w at compressed =
     (let remainder = length value' + ref_size t + key_encoded_size key
      in cbind (Some (if vt_multipart t then Inr ()
                      else rbind (unwrap (value_size t key)) (\<lambda>s. rassert (length value' \<le> unat s)))) (\<lambda>_.
         cbind (Some (case at of
                        Some index \<Rightarrow> Inr (index, True, t)
                      | None \<Rightarrow> rbind (next_free t (writer_query w)) (\<lambda>(index, t). Inr (index, False, t))))
           (\<lambda>(index, follow, t).
             overwrite_loop key value' compressed t w remainder 0 0 index follow)))"

definition table_write_insert_plan :: "value_table \<Rightarrow> table_key \<Rightarrow> bytes \<Rightarrow> log_writer \<Rightarrow> bool \<Rightarrow>
    (u64 \<times> value_table \<times> log_writer) comp" where
  "table_write_insert_plan t key value' w compressed = overwrite_chain t key value' w None compressed"

definition table_write_replace_plan :: "value_table \<Rightarrow> u64 \<Rightarrow> table_key \<Rightarrow> bytes \<Rightarrow> log_writer \<Rightarrow> bool \<Rightarrow>
    (value_table \<times> log_writer) comp" where
  "table_write_replace_plan t index key value' w compressed =
     cbind (overwrite_chain t key value' w (Some index) compressed) (\<lambda>(_, t, w). cret (t, w))"

definition table_write_remove_plan :: "value_table \<Rightarrow> u64 \<Rightarrow> log_writer \<Rightarrow> (value_table \<times> log_writer) comp"
  where "table_write_remove_plan t index w =
     (if vt_multipart t then clear_chain t index w else Some (clear_slot t index w))"

definition change_ref :: "value_table \<Rightarrow> u64 \<Rightarrow> int \<Rightarrow> log_writer \<Rightarrow> (bool \<times> log_writer) res" where
  "change_ref t index delta w =
     rbind (load_entry t (writer_query w) index (ebuf_uninit MAX_ENTRY_BUF_SIZE) (es t)) (\<lambda>buf.
       if is_tombstone buf then Inr (False, w)
       else
         rbind (if vt_multipart t \<and> is_multi (vt_db_version t) buf
                then Inr (es t, skip_u64 (skip_size buf))
                else rbind (read_size buf) (\<lambda>((sz, _), buf). Inr (eoff buf + unat sz, buf))) (\<lambda>(sz, buf).
         let rc_offset = eoff buf
         in rbind (read_u32 buf) (\<lambda>(counter, buf).
            let counter' =
              (if 0 < delta then
                 (if LOCKED_REF - of_int delta \<le> counter then Some LOCKED_REF
                  else Some (counter + of_int delta))
               else if counter \<noteq> LOCKED_REF then
                 (let c = of_nat (unat counter - nat (- delta))
                  in if c = 0 then None else Some c)
               else Some counter)
            in case counter' of
                 None \<Rightarrow> Inr (False, w)
               | Some c \<Rightarrow>
                   rbind (write_u32 (set_offset buf rc_offset) c) (\<lambda>buf.
                   rbind (slice (edata buf) 0 sz) (\<lambda>d.
                     Inr (True, insert_value w (vt_id t) index d))))))"

definition write_inc_ref :: "value_table \<Rightarrow> u64 \<Rightarrow> log_writer \<Rightarrow> log_writer res" where
  "write_inc_ref t index w = rbind (change_ref t index 1 w) (\<lambda>(_, w). Inr w)"

definition write_dec_ref :: "value_table \<Rightarrow> u64 \<Rightarrow> log_writer \<Rightarrow> (bool \<times> value_table \<times> log_writer) comp" where
  "write_dec_ref t index w =
     cbind (Some (change_ref t index (- 1) w)) (\<lambda>(remains, w).
       if remains then cret (True, t, w)
       else cbind (table_write_remove_plan t index w) (\<lambda>(t, w). cret (False, t, w)))"

section \<open>Enacting log records\<close>

partial_function (option) grow_until :: "u16 \<Rightarrow> u64 \<Rightarrow> tfile \<Rightarrow> tfile comp" where
  "grow_until entry_size index tf =
     (if tf_capacity tf \<le> index then
        (case tfile_grow tf entry_size of
           Inl e \<Rightarrow> Some (Inl e)
         | Inr tf \<Rightarrow> grow_until entry_size index tf)
      else Some (Inr tf))"

text \<open>The bytes a value record carries; their number is read off their first two bytes.\<close>

definition read_value_record :: "value_table \<Rightarrow> u64 \<Rightarrow> log_reader \<Rightarrow> (bytes \<times> log_reader) res" where
  "read_value_record t index r =
     (if index = 0 then reader_read 16 r
      else
        rbind (reader_read SIZE_SIZE r) (\<lambda>(head, r).
          let buf = ebuf_new head
          in rbind (if is_tombstone buf then Inr INDEX_SIZE
                    else if vt_multipart t \<and> is_multi (vt_db_version t) buf then Inr (es t - SIZE_SIZE)
                    else rbind (read_size buf) (\<lambda>((len, _), _).
                           if SIZE_SIZE + unat len \<le> MAX_ENTRY_BUF_SIZE then Inr (unat len)
                           else Inl Panic)) (\<lambda>n.
             rbind (reader_read n r) (\<lambda>(rest, r). Inr (head @ rest, r)))))"

definition table_enact_plan :: "value_table \<Rightarrow> u64 \<Rightarrow> log_reader \<Rightarrow> (value_table \<times> log_reader) comp" where
  "table_enact_plan t index r =
     cbind (grow_until (vt_entry_size t) index (vt_file t)) (\<lambda>file.
     cbind (Some (read_value_record t index r)) (\<lambda>(data, r).
     cbind (Some (tfile_write_at file data (slot_offset t index))) (\<lambda>file.
       cret (t\<lparr>vt_file := file\<rparr>, r))))"

definition table_validate_plan :: "value_table \<Rightarrow> u64 \<Rightarrow> log_reader \<Rightarrow> log_reader res" where
  "table_validate_plan t index r = rbind (read_value_record t index r) (\<lambda>(_, r). Inr r)"

definition table_refresh_metadata :: "value_table \<Rightarrow> value_table res" where
  "table_refresh_metadata t =
     (case tf_file (vt_file t) of
        None \<Rightarrow> Inr t
      | Some _ \<Rightarrow>
          rbind (tfile_read_at (vt_file t) 0 16) (\<lambda>header.
            let filled = header_filled header
            in Inr (t\<lparr>vt_last_removed := header_last_removed header,
                      vt_filled := (if filled = 0 then 1 else filled)\<rparr>)))"

definition table_complete_plan :: "value_table \<Rightarrow> log_writer \<Rightarrow> value_table \<times> log_writer" where
  "table_complete_plan t w =
     (if vt_dirty_header t then
        let buf = header_set_filled (header_set_last_removed header_default (vt_last_removed t)) (vt_filled t)
        in (t\<lparr>vt_dirty_header := False\<rparr>, insert_value w (vt_id t) 0 buf)
      else (t, w))"

definition table_flush :: "value_table \<Rightarrow> value_table" where
  "table_flush t = t\<lparr>vt_file := tfile_flush (vt_file t)\<rparr>"

text \<open>\<open>iter_while\<close>: the callback \<open>f index rc value compressed\<close> says whether to go on.\<close>

fun iter_slots :: "value_table \<Rightarrow> log_query \<Rightarrow> (u64 \<Rightarrow> u32 \<Rightarrow> bytes \<Rightarrow> bool \<Rightarrow> 's \<Rightarrow> bool \<times> 's) \<Rightarrow>
    u64 list \<Rightarrow> 's \<Rightarrow> 's comp" where
  "iter_slots t q f [] s = cret s"
| "iter_slots t q f (index # is) s =
     (case for_parts t (Fetch (Some (replicate PARTIAL_SIZE 0))) index q
             (\<lambda>buf result. (True, result @ buf)) [] of
        None \<Rightarrow> None
      | Some (Inl (Err InvalidValueData)) \<Rightarrow> iter_slots t q f is s
      | Some (Inl e) \<Rightarrow> Some (Inl e)
      | Some (Inr ((rc, compressed), _, result)) \<Rightarrow>
          if 0 < rc then
            (let (continue, s) = f index rc result compressed s
             in if continue then iter_slots t q f is s else cret s)
          else iter_slots t q f is s)"

definition table_iter_while :: "value_table \<Rightarrow> log_query \<Rightarrow>
    (u64 \<Rightarrow> u32 \<Rightarrow> bytes \<Rightarrow> bool \<Rightarrow> 's \<Rightarrow> bool \<times> 's) \<Rightarrow> 's \<Rightarrow> 's comp" where
  "table_iter_while t q f s = iter_slots t q f (map of_nat [1..<unat (vt_filled t)]) s"

definition table_is_init :: "value_table \<Rightarrow> bool" where
  "table_is_init t = (tf_file (vt_file t) \<noteq> None)"

fun write_entries :: "value_table \<Rightarrow> (u64 \<times> (u64 \<times> bytes)) list \<Rightarrow> value_table res" where
  "write_entries t [] = Inr t"
| "write_entries t ((at, (_, entry)) # rest) =
     rbind (tfile_write_at (vt_file t) entry (slot_offset t at)) (\<lambda>file.
       write_entries (t\<lparr>vt_file := file\<rparr>) rest)"

definition init_with_entry :: "value_table \<Rightarrow> bytes \<Rightarrow> value_table comp" where
  "init_with_entry t entry =
     cbind (Some (tfile_grow (vt_file t) (vt_entry_size t))) (\<lambda>file.
     cbind (overwrite_chain (t\<lparr>vt_file := file\<rparr>) NoHash entry (log_writer_new empty_overlays 0) None False)
       (\<lambda>(at, t, w).
          let (t, w) = table_complete_plan t w
          in cbind (Some (rassert (at = 1))) (\<lambda>_.
             cbind (Some (unwrap (map_of (lc_local_values (lw_log w)) (vt_id t)))) (\<lambda>change.
               Some (write_entries t change)))))"

end
