(* ===== verification/Compress.thy ===== *)
theory Compress
  imports Prelude
begin

text \<open>
  Compression (\<^verbatim>\<open>src/src/compress.rs\<close>): the choice of a codec and the dispatch to it. The codecs
  themselves are third-party crates; they are the fields of the record \<open>codecs\<close>, an argument of
  every definition that compresses or decompresses.
\<close>

datatype compression_type = NoCompression | Lz4 | Snappy

record codecs =
  lz4_compress :: "bytes \<Rightarrow> bytes"
  lz4_decompress :: "bytes \<Rightarrow> bytes option"
  snappy_compress :: "bytes \<Rightarrow> bytes"
  snappy_decompress :: "bytes \<Rightarrow> bytes option"

record compress =
  cp_inner :: compression_type
  cp_threshold :: u32

definition compress_new :: "compression_type \<Rightarrow> u32 \<Rightarrow> compress" where
  "compress_new kind threshold = \<lparr>cp_inner = kind, cp_threshold = threshold\<rparr>"

definition NO_COMPRESSION :: compress where
  "NO_COMPRESSION = \<lparr>cp_inner = NoCompression, cp_threshold = - 1\<rparr>"

definition compression_as_u8 :: "compression_type \<Rightarrow> u8" where
  "compression_as_u8 c = (case c of NoCompression \<Rightarrow> 0 | Lz4 \<Rightarrow> 1 | Snappy \<Rightarrow> 2)"

definition compression_from_u8 :: "u8 \<Rightarrow> compression_type res" where
  "compression_from_u8 n =
     (if n = 0 then Inr NoCompression else if n = 1 then Inr Lz4 else if n = 2 then Inr Snappy
      else Inl Panic)"

definition compress_bytes :: "codecs \<Rightarrow> compress \<Rightarrow> bytes \<Rightarrow> bytes" where
  "compress_bytes cd cp buf =
     (case cp_inner cp of
        NoCompression \<Rightarrow> buf
      | Lz4 \<Rightarrow> lz4_compress cd buf
      | Snappy \<Rightarrow> snappy_compress cd buf)"

definition codec_result :: "bytes option \<Rightarrow> bytes res" where
  "codec_result r = (case r of Some b \<Rightarrow> Inr b | None \<Rightarrow> Inl (Err Compression))"

definition decompress_bytes :: "codecs \<Rightarrow> compress \<Rightarrow> bytes \<Rightarrow> bytes res" where
  "decompress_bytes cd cp buf =
     (case cp_inner cp of
        NoCompression \<Rightarrow> Inr buf
      | Lz4 \<Rightarrow> codec_result (lz4_decompress cd buf)
      | Snappy \<Rightarrow> codec_result (snappy_decompress cd buf))"

text \<open>What the codecs are documented to do: decompression inverts compression.\<close>

definition codecs_ok :: "codecs \<Rightarrow> bool" where
  "codecs_ok cd \<longleftrightarrow> (\<forall>b. lz4_decompress cd (lz4_compress cd b) = Some b) \<and>
     (\<forall>b. snappy_decompress cd (snappy_compress cd b) = Some b)"

lemma compression_u8_roundtrip: "compression_from_u8 (compression_as_u8 c) = Inr c"
  by (cases c) (simp_all add: compression_from_u8_def compression_as_u8_def)

lemma decompress_compress:
  "codecs_ok cd \<Longrightarrow> decompress_bytes cd cp (compress_bytes cd cp b) = Inr b"
  by (cases "cp_inner cp")
    (simp_all add: codecs_ok_def decompress_bytes_def compress_bytes_def codec_result_def)

end
