(* ===== verification/Options.thy ===== *)
theory Options
  imports Compress
begin

text \<open>
  Options and the metadata file (\<^verbatim>\<open>src/src/options.rs\<close>): its textual format, its parser and the
  comparison of the stored configuration with the requested one.

  Text is a \<open>string\<close>; a file is \<open>None\<close> when it does not exist. The functions \<open>hex_encode\<close> and
  \<open>hex_decode\<close> of the crate \<open>hex\<close> and the random salt are arguments.
\<close>

section \<open>State\<close>

definition CURRENT_VERSION :: u32 where "CURRENT_VERSION = 7"
definition LAST_SUPPORTED_VERSION :: u32 where "LAST_SUPPORTED_VERSION = 4"

record column_options =
  co_preimage :: bool
  co_uniform :: bool
  co_ref_counted :: bool
  co_compression :: compression_type
  co_compression_threshold :: u32
  co_btree_index :: bool

record options =
  op_columns :: "column_options list"
  op_sync_wal :: bool
  op_sync_data :: bool
  op_stats :: bool
  op_salt :: "bytes option"

record metadata =
  md_salt :: bytes
  md_version :: u32
  md_columns :: "column_options list"

definition column_options_default :: column_options where
  "column_options_default = \<lparr>co_preimage = False, co_uniform = False, co_ref_counted = False,
     co_compression = NoCompression, co_compression_threshold = 4096, co_btree_index = False\<rparr>"

definition with_columns :: "u8 \<Rightarrow> options" where
  "with_columns num_columns = \<lparr>op_columns = replicate (unat num_columns) column_options_default,
     op_sync_wal = True, op_sync_data = True, op_stats = True, op_salt = None\<rparr>"

section \<open>Text\<close>

function dec :: "nat \<Rightarrow> string" where
  "dec n = (if n < 10 then [char_of (48 + n)] else dec (n div 10) @ [char_of (48 + n mod 10)])"
  by pat_completeness auto
termination by (relation "measure id") auto

declare dec.simps [simp del]

definition show_bool :: "bool \<Rightarrow> string" where
  "show_bool b = (if b then ''true'' else ''false'')"

definition parse_bool :: "string \<Rightarrow> bool option" where
  "parse_bool s = (if s = ''true'' then Some True else if s = ''false'' then Some False else None)"

definition is_digit :: "char \<Rightarrow> bool" where
  "is_digit c = (48 \<le> (of_char c :: nat) \<and> (of_char c :: nat) \<le> 57)"

text \<open>\<open>u8::from_str\<close> and \<open>u32::from_str\<close>: an optional sign, at least one digit, no overflow.\<close>

definition parse_uint :: "nat \<Rightarrow> string \<Rightarrow> nat option" where
  "parse_uint mx s =
     (let ds = (case s of c # r \<Rightarrow> if c = CHR ''+'' then r else s | [] \<Rightarrow> [])
      in if ds = [] \<or> \<not> list_all is_digit ds then None
         else let v = foldl (\<lambda>a c. a * 10 + ((of_char c :: nat) - 48)) 0 ds
              in if v \<le> mx then Some v else None)"

function split_aux :: "string \<Rightarrow> string \<Rightarrow> string \<Rightarrow> string list" where
  "split_aux sep acc [] = [rev acc]"
| "split_aux sep acc (c # cs) =
     (if take (length sep) (c # cs) = sep
      then rev acc # split_aux sep [] (drop (length sep - 1) cs)
      else split_aux sep (c # acc) cs)"
  by pat_completeness auto
termination by (relation "measure (\<lambda>(sep, acc, s). length s)") auto

definition split_str :: "string \<Rightarrow> string \<Rightarrow> string list" where
  "split_str sep s = split_aux sep [] s"

definition newline :: char where "newline = CHR 0x0A"

definition strip_cr :: "string \<Rightarrow> string" where
  "strip_cr l = (if l \<noteq> [] \<and> last l = CHR 0x0D then butlast l else l)"

definition lines_of :: "string \<Rightarrow> string list" where
  "lines_of s = (let ps = split_str [newline] s
                 in map strip_cr (butlast ps) @ (if last ps = [] then [] else [last ps]))"

section \<open>Column options\<close>

definition column_as_string :: "column_options \<Rightarrow> string" where
  "column_as_string c =
     ''preimage: '' @ show_bool (co_preimage c) @ '', uniform: '' @ show_bool (co_uniform c)
     @ '', refc: '' @ show_bool (co_ref_counted c)
     @ '', compression: '' @ dec (unat (compression_as_u8 (co_compression c)))
     @ '', ordered: '' @ show_bool (co_btree_index c)"

definition column_is_valid :: "column_options \<Rightarrow> bool" where
  "column_is_valid c = (\<not> (co_btree_index c \<and> co_preimage c))"

text \<open>The pairs of the hash map that \<open>from_string\<close> collects; a later pair replaces an earlier one.\<close>

definition parse_pairs :: "string \<Rightarrow> (string \<times> string) list" where
  "parse_pairs s =
     List.map_filter (\<lambda>p. case split_str '': '' p of k # v # _ \<Rightarrow> Some (k, v) | _ \<Rightarrow> None)
       (split_str '', '' (hd (split_str ''sizes: '' s)))"

definition column_from_string :: "string \<Rightarrow> column_options option res" where
  "column_from_string s =
     (let vals = map_of (rev (parse_pairs s));
          flag = (\<lambda>k. Option.bind (vals k) parse_bool);
          cmp = (case Option.bind (vals ''compression'') (parse_uint 255) of Some n \<Rightarrow> n | None \<Rightarrow> 0);
          btree_index = (case flag ''ordered'' of Some b \<Rightarrow> b | None \<Rightarrow> False)
      in case (flag ''preimage'', flag ''uniform'', flag ''refc'') of
           (Some preimage, Some uniform, Some ref_counted) \<Rightarrow>
             rbind (compression_from_u8 (of_nat cmp)) (\<lambda>cmp.
               Inr (Some \<lparr>co_preimage = preimage, co_uniform = uniform, co_ref_counted = ref_counted,
                     co_compression = cmp,
                     co_compression_threshold = co_compression_threshold column_options_default,
                     co_btree_index = btree_index\<rparr>))
         | _ \<Rightarrow> Inr None)"

section \<open>The metadata file\<close>

definition write_metadata_file_with_version :: "(bytes \<Rightarrow> string) \<Rightarrow> options \<Rightarrow> bytes \<Rightarrow> u32 option \<Rightarrow> string"
  where "write_metadata_file_with_version hex_encode op salt version =
     (let version = (case version of Some v \<Rightarrow> v | None \<Rightarrow> CURRENT_VERSION)
      in ''version='' @ dec (unat version) @ [newline]
         @ ''salt='' @ hex_encode salt @ [newline]
         @ concat (map (\<lambda>(i, c). ''col'' @ dec i @ ''='' @ column_as_string c @ [newline])
             (List.enumerate 0 (op_columns op))))"

definition write_metadata_file :: "(bytes \<Rightarrow> string) \<Rightarrow> options \<Rightarrow> bytes \<Rightarrow> string" where
  "write_metadata_file hex_encode op salt =
     ''version='' @ dec (unat CURRENT_VERSION) @ [newline]
     @ ''salt='' @ hex_encode salt @ [newline]
     @ concat (map (\<lambda>(i, c). ''col'' @ dec i @ ''='' @ column_as_string c @ [newline])
         (List.enumerate 0 (op_columns op)))"

text \<open>The state of the loop over the lines: version, salt, columns.\<close>

type_synonym meta_acc = "u32 \<times> bytes option \<times> column_options list"

definition load_line :: "(string \<Rightarrow> bytes option) \<Rightarrow> string \<Rightarrow> meta_acc \<Rightarrow> meta_acc res" where
  "load_line hex_decode l = (\<lambda>(version, salt, columns).
     case split_str ''='' l of
       k # v # _ \<Rightarrow>
         if k = ''version'' then
           (case parse_uint (2 ^ 32 - 1) v of
              Some n \<Rightarrow> Inr (of_nat n, salt, columns)
            | None \<Rightarrow> Inl (Err (Corruption ''Bad version string'')))
         else if k = ''salt'' then
           (case hex_decode v of
              Some s \<Rightarrow> if length s = 32 then Inr (version, Some s, columns) else Inl Panic
            | None \<Rightarrow> Inl (Err (Corruption ''Bad salt string'')))
         else if take 3 k = ''col'' then
           rbind (column_from_string v) (\<lambda>c.
             case c of
               Some c \<Rightarrow> Inr (version, salt, columns @ [c])
             | None \<Rightarrow> Inl (Err (Corruption ''Bad column metadata'')))
         else Inr (version, salt, columns)
     | _ \<Rightarrow> Inl (Err (Corruption ''Bad metadata'')))"

text \<open>
  \<open>BufRead::lines\<close> gives an error for a line that is not UTF-8: no lone or missing continuation byte,
  no overlong form, no surrogate, nothing above U+10FFFF.
\<close>

definition utf8_tail :: "nat \<Rightarrow> bool" where
  "utf8_tail b \<longleftrightarrow> 128 \<le> b \<and> b \<le> 191"

fun utf8_valid :: "nat list \<Rightarrow> bool" where
  "utf8_valid [] = True"
| "utf8_valid (a # s) =
     (if a < 128 then utf8_valid s
      else if 194 \<le> a \<and> a \<le> 223 then (case s of b # s \<Rightarrow> utf8_tail b \<and> utf8_valid s | _ \<Rightarrow> False)
      else if 224 \<le> a \<and> a \<le> 239 then
        (case s of
           b # c # s \<Rightarrow> utf8_tail b \<and> utf8_tail c \<and> (a = 224 \<longrightarrow> 160 \<le> b) \<and> (a = 237 \<longrightarrow> b \<le> 159) \<and> utf8_valid s
         | _ \<Rightarrow> False)
      else if 240 \<le> a \<and> a \<le> 244 then
        (case s of
           b # c # d # s \<Rightarrow> utf8_tail b \<and> utf8_tail c \<and> utf8_tail d \<and> (a = 240 \<longrightarrow> 144 \<le> b) \<and>
             (a = 244 \<longrightarrow> b \<le> 143) \<and> utf8_valid s
         | _ \<Rightarrow> False)
      else False)"

lemma utf8_ascii: "\<forall>c\<in>set s. c < 128 \<Longrightarrow> utf8_valid s"
  by (induction s) auto

fun load_lines :: "(string \<Rightarrow> bytes option) \<Rightarrow> string list \<Rightarrow> meta_acc \<Rightarrow> meta_acc res" where
  "load_lines hex_decode [] acc = Inr acc"
| "load_lines hex_decode (l # ls) acc =
     (if utf8_valid (map of_char l) then rbind (load_line hex_decode l acc) (load_lines hex_decode ls)
      else Inl (Err (Io InvalidData)))"

definition load_metadata_file :: "(string \<Rightarrow> bytes option) \<Rightarrow> string option \<Rightarrow> metadata option res" where
  "load_metadata_file hex_decode file =
     (case file of
        None \<Rightarrow> Inr None
      | Some content \<Rightarrow>
          rbind (load_lines hex_decode (lines_of content) (0, None, [])) (\<lambda>(version, salt, columns).
            if version < LAST_SUPPORTED_VERSION
            then Inl (Err (InvalidConfiguration (''Unsupported database version '' @ dec (unat version)
                   @ ''. Expected '' @ dec (unat CURRENT_VERSION))))
            else case salt of
                   None \<Rightarrow> Inl (Err (InvalidConfiguration ''Missing salt value''))
                 | Some s \<Rightarrow> Inr (Some \<lparr>md_salt = s, md_version = version, md_columns = columns\<rparr>)))"

definition mismatch :: "nat \<Rightarrow> column_options \<Rightarrow> column_options \<Rightarrow> string" where
  "mismatch c expected got = ''Column config mismatch for column '' @ dec c @ ''. Expected '' @ [CHR 0x22]
     @ column_as_string expected @ [CHR 0x22] @ '', got '' @ [CHR 0x22] @ column_as_string got @ [CHR 0x22]"

definition load_and_validate_metadata :: "(bytes \<Rightarrow> string) \<Rightarrow> (string \<Rightarrow> bytes option) \<Rightarrow> bytes \<Rightarrow>
    options \<Rightarrow> string option \<Rightarrow> bool \<Rightarrow> (metadata \<times> string option) res" where
  "load_and_validate_metadata hex_encode hex_decode random_salt op file create =
     rbind (load_metadata_file hex_decode file) (\<lambda>meta.
       case meta of
         Some meta \<Rightarrow>
           if length (md_columns meta) \<noteq> length (op_columns op)
           then Inl (Err (InvalidConfiguration ''Column config mismatch''))
           else (case List.find (\<lambda>c. md_columns meta ! c \<noteq> op_columns op ! c) [0..<length (md_columns meta)] of
                   Some c \<Rightarrow> Inl (Err (InvalidConfiguration
                     (mismatch c (op_columns op ! c) (md_columns meta ! c))))
                 | None \<Rightarrow> Inr (meta, file))
       | None \<Rightarrow>
           if create then
             let s = (case op_salt op of Some s \<Rightarrow> s | None \<Rightarrow> random_salt)
             in Inr (\<lparr>md_salt = s, md_version = CURRENT_VERSION, md_columns = op_columns op\<rparr>,
                  Some (write_metadata_file hex_encode op s))
           else Inl (Err (InvalidConfiguration
                  ''Database does not exist. To create a new one, use open_or_create'')))"

definition options_is_valid :: "options \<Rightarrow> bool" where
  "options_is_valid op = list_all column_is_valid (op_columns op)"

definition columns_to_migrate :: "metadata \<Rightarrow> u8 list" where
  "columns_to_migrate meta = []"

section \<open>Splitting\<close>

lemma split_aux_none:
  assumes "z \<in> set sep" and "z \<notin> set s"
  shows "split_aux sep acc s = [rev acc @ s]"
  using assms(2)
proof (induction s arbitrary: acc)
  case (Cons c cs)
  have "take (length sep) (c # cs) \<noteq> sep"
    using assms(1) Cons.prems in_set_takeD by metis
  then show ?case using Cons by simp
qed simp

lemma split_aux_piece:
  assumes "z \<notin> set p"
  shows "split_aux (z # sep) acc (p @ z # sep @ rest) = (rev acc @ p) # split_aux (z # sep) [] rest"
  using assms
proof (induction p arbitrary: acc)
  case Nil
  have "take (length (z # sep)) (z # sep @ rest) = z # sep" by simp
  then show ?case by simp
next
  case (Cons c p)
  then show ?case by auto
qed

lemma split_str_none: "z \<in> set sep \<Longrightarrow> z \<notin> set s \<Longrightarrow> split_str sep s = [s]"
  by (simp add: split_str_def split_aux_none)

lemma split_str_piece:
  "z \<notin> set p \<Longrightarrow> split_str (z # sep) (p @ z # sep @ rest) = p # split_str (z # sep) rest"
  by (simp add: split_str_def split_aux_piece)

section \<open>Writing and parsing a column\<close>

lemma show_bool_chars: "c \<in> set (show_bool b) \<Longrightarrow> c \<in> set ''truefalse''"
  by (auto simp: show_bool_def split: if_splits)

lemma parse_show_bool [simp]: "parse_bool (show_bool b) = Some b"
  by (simp add: parse_bool_def show_bool_def)

lemma dec_digits [simp]: "dec 0 = ''0''" "dec 1 = ''1''" "dec 2 = ''2''"
  by code_simp+

lemma dec_Suc_0 [simp]: "dec (Suc 0) = ''1''"
  using dec_digits(2) by simp

lemma dec_compression:
  "dec (unat (compression_as_u8 k)) = (case k of NoCompression \<Rightarrow> ''0'' | Lz4 \<Rightarrow> ''1'' | Snappy \<Rightarrow> ''2'')"
  by (cases k) (simp_all add: compression_as_u8_def)

lemma parse_field:
  assumes "CHR '':'' \<notin> set k" and "CHR '':'' \<notin> set v"
  shows "split_str '': '' (k @ '': '' @ v) = [k, v]"
  using split_str_piece[of "CHR '':''" k "'' ''" v] split_str_none[of "CHR '':''" "'': ''" v] assms by simp

lemma parse_field_end:
  assumes "CHR '':'' \<notin> set k" and "CHR '':'' \<notin> set v"
  shows "(case split_str '': '' (k @ '': '' @ v) of a # b # _ \<Rightarrow> Some (a, b) | _ \<Rightarrow> None) = Some (k, v)"
  by (simp only: parse_field[OF assms] list.case)

lemma pieces_of_column:
  fixes p u r n b :: string
  assumes "\<And>x. x \<in> {p, u, r, n, b} \<Longrightarrow> CHR '','' \<notin> set x"
  shows "split_str '', '' (''preimage: '' @ p @ '', uniform: '' @ u @ '', refc: '' @ r
      @ '', compression: '' @ n @ '', ordered: '' @ b) =
    [''preimage: '' @ p, ''uniform: '' @ u, ''refc: '' @ r, ''compression: '' @ n, ''ordered: '' @ b]"
proof -
  have 1: "split_str '', '' (x @ '', '' @ rest) = x # split_str '', '' rest" if "CHR '','' \<notin> set x" for x rest
    using split_str_piece[of "CHR '',''" x "'' ''" rest] that by simp
  have a: "CHR '','' \<notin> set (''preimage: '' @ p)" "CHR '','' \<notin> set (''uniform: '' @ u)"
      "CHR '','' \<notin> set (''refc: '' @ r)" "CHR '','' \<notin> set (''compression: '' @ n)"
      "CHR '','' \<notin> set (''ordered: '' @ b)"
    using assms by auto
  have l: "split_str '', '' (''ordered: '' @ b) = [''ordered: '' @ b]"
    using split_str_none[OF _ a(5)] by simp
  have "split_str '', '' ((''preimage: '' @ p) @ '', '' @ (''uniform: '' @ u) @ '', '' @ (''refc: '' @ r)
      @ '', '' @ (''compression: '' @ n) @ '', '' @ ''ordered: '' @ b) =
    [''preimage: '' @ p, ''uniform: '' @ u, ''refc: '' @ r, ''compression: '' @ n, ''ordered: '' @ b]"
    unfolding 1[OF a(1)] 1[OF a(2)] 1[OF a(3)] 1[OF a(4)] l ..
  then show ?thesis by simp
qed

lemma column_string_roundtrip:
  "column_from_string (column_as_string c) =
     Inr (Some (c\<lparr>co_compression_threshold := 4096\<rparr>))"
proof -
  let ?n = "dec (unat (compression_as_u8 (co_compression c)))"
  let ?b = "\<lambda>f. show_bool (f c)"
  have n: "set ?n \<subseteq> set ''012''" by (auto simp: dec_compression split: compression_type.splits)
  have z: "CHR ''z'' \<notin> set (column_as_string c)"
    using n by (auto simp: column_as_string_def dest!: show_bool_chars)
  have comma: "CHR '','' \<notin> set (show_bool x)" and colon: "CHR '':'' \<notin> set (show_bool x)" for x
    by (auto dest: show_bool_chars)
  have k: "CHR '':'' \<notin> set ''preimage''" "CHR '':'' \<notin> set ''uniform''" "CHR '':'' \<notin> set ''refc''"
      "CHR '':'' \<notin> set ''compression''" "CHR '':'' \<notin> set ''ordered''"
    by simp_all
  have commn: "CHR '','' \<notin> set ?n" and colonn: "CHR '':'' \<notin> set ?n" using n by auto
  have "split_str ''sizes: '' (column_as_string c) = [column_as_string c]"
    using split_str_none[of "CHR ''z''"] z by simp
  moreover have "split_str '', '' (column_as_string c) =
      [''preimage'' @ '': '' @ ?b co_preimage, ''uniform'' @ '': '' @ ?b co_uniform,
       ''refc'' @ '': '' @ ?b co_ref_counted, ''compression'' @ '': '' @ ?n,
       ''ordered'' @ '': '' @ ?b co_btree_index]"
    unfolding column_as_string_def using comma commn by (subst pieces_of_column) auto
  ultimately have pp: "parse_pairs (column_as_string c) =
      [(''preimage'', ?b co_preimage), (''uniform'', ?b co_uniform), (''refc'', ?b co_ref_counted),
       (''compression'', ?n), (''ordered'', ?b co_btree_index)]"
    unfolding parse_pairs_def
    by (simp only: list.sel map_filter_simps option.case
        parse_field_end[OF _ colon] parse_field_end[OF _ colonn] k not_False_eq_True)
  have "parse_uint 255 ?n = Some (unat (compression_as_u8 (co_compression c)))"
    by (cases "co_compression c")
      (simp_all add: dec_compression parse_uint_def is_digit_def compression_as_u8_def)
  then show ?thesis
    unfolding column_from_string_def pp
    by (simp add: Let_def compression_u8_roundtrip column_options_default_def)
qed

end
