(* ===== verification/Column.thy ===== *)
theory Column
  imports Index Table Options
begin

text \<open>
  Hash columns (\<^verbatim>\<open>src/src/column.rs\<close>): an index, a queue of older indexes that are being
  re-indexed, and one value table per size tier.

  The fields behind the two locks and the atomic counters are fields of \<open>hash_column\<close>; an
  operation that changes them returns the new column. The codecs and the hash function
  \<open>blake2b salt data\<close> of the crate \<open>blake2-rfc\<close> are arguments. The files are arguments of the
  operations that open them: a function from table ids to files. A new index is created for an id
  that no file in the directory has. \<open>dump\<close> only prints and is not modelled.
\<close>

section \<open>State\<close>

definition MIN_INDEX_BITS :: u8 where "MIN_INDEX_BITS = 16"
definition MAX_REINDEX_BATCH :: nat where "MAX_REINDEX_BATCH = 8192"

definition SIZES :: "u16 list" where
  "SIZES =
     [32, 33, 34, 35, 36, 37, 38, 39, 40, 41, 42, 43, 44, 46, 47, 48, 50, 51, 52, 54, 55, 57, 58,
      60, 62, 63, 65, 67, 69, 71, 73, 75, 77, 79, 81, 83, 85, 88, 90, 93, 95, 98, 101, 103, 106,
      109, 112, 115, 119, 122, 125, 129, 132, 136, 140, 144, 148, 152, 156, 160, 165, 169, 174,
      179, 183, 189, 194, 199, 205, 210, 216, 222, 228, 235, 241, 248, 255, 262, 269, 276, 284,
      292, 300, 308, 317, 325, 334, 344, 353, 363, 373, 383, 394, 405, 416, 428, 439, 452, 464,
      477, 490, 504, 518, 532, 547, 562, 577, 593, 610, 627, 644, 662, 680, 699, 718, 738, 758,
      779, 801, 823, 846, 869, 893, 918, 943, 969, 996, 1024, 1052, 1081, 1111, 1142, 1174, 1206,
      1239, 1274, 1309, 1345, 1382, 1421, 1460, 1500, 1542, 1584, 1628, 1673, 1720, 1767, 1816,
      1866, 1918, 1971, 2025, 2082, 2139, 2198, 2259, 2322, 2386, 2452, 2520, 2589, 2661, 2735,
      2810, 2888, 2968, 3050, 3134, 3221, 3310, 3402, 3496, 3593, 3692, 3794, 3899, 4007, 4118,
      4232, 4349, 4469, 4593, 4720, 4850, 4984, 5122, 5264, 5410, 5559, 5713, 5871, 6034, 6200,
      6372, 6548, 6729, 6916, 7107, 7303, 7506, 7713, 7927, 8146, 8371, 8603, 8841, 9085, 9337,
      9595, 9860, 10133, 10413, 10702, 10998, 11302, 11614, 11936, 12266, 12605, 12954, 13312,
      13681, 14059, 14448, 14848, 15258, 15681, 16114, 16560, 17018, 17489, 17973, 18470, 18981,
      19506, 20046, 20600, 21170, 21756, 22358, 22976, 23612, 24265, 24936, 25626, 26335, 27064,
      27812, 28582, 29372, 30185, 31020, 31878, 32760]"

record tables_ref =
  tr_tables :: "value_table list"
  tr_compression :: compress
  tr_col :: u8
  tr_preimage :: bool
  tr_ref_counted :: bool

record hash_column =
  hc_col :: u8
  hc_index :: index_table
  hc_value :: "value_table list"
  hc_queue :: "index_table list"
  hc_progress :: u64
  hc_preimage :: bool
  hc_uniform_keys :: bool
  hc_collect_stats :: bool
  hc_ref_counted :: bool
  hc_salt :: bytes
  hc_stats :: column_stats
  hc_compression :: compress
  hc_db_version :: u32

record iter_state =
  is_chunk_index :: u64
  is_key :: bytes
  is_rc :: u32
  is_value :: bytes

datatype iter_state_or_corrupted = Item iter_state | Corrupted entry "fail option"

record reindex_batch =
  rb_drop_index :: "index_table_id option"
  rb_batch :: "(bytes \<times> address) list"

definition as_ref :: "hash_column \<Rightarrow> tables_ref" where
  "as_ref hc = \<lparr>tr_tables = hc_value hc, tr_compression = hc_compression hc, tr_col = hc_col hc,
     tr_preimage = hc_preimage hc, tr_ref_counted = hc_ref_counted hc\<rparr>"

definition hash_key :: "(bytes \<Rightarrow> bytes \<Rightarrow> bytes) \<Rightarrow> bytes \<Rightarrow> bytes \<Rightarrow> bool \<Rightarrow> u32 \<Rightarrow> bytes res" where
  "hash_key blake2b key salt uniform db_version =
     (if uniform then
        rbind (slice key 0 32) (\<lambda>key.
          if db_version \<le> 5 then Inr key else Inr (map2 (XOR) key salt))
      else
        let h = blake2b salt key
        in if length h = KEY_SIZE then Inr h else Inl Panic)"

definition column_hash_key :: "(bytes \<Rightarrow> bytes \<Rightarrow> bytes) \<Rightarrow> hash_column \<Rightarrow> bytes \<Rightarrow> bytes res" where
  "column_hash_key blake2b hc key =
     hash_key blake2b key (hc_salt hc) (hc_uniform_keys hc) (hc_db_version hc)"

section \<open>Opening\<close>

definition open_table :: "(value_table_id \<Rightarrow> os_file option) \<Rightarrow> u8 \<Rightarrow> u8 \<Rightarrow> column_options \<Rightarrow> u32 \<Rightarrow>
    value_table res" where
  "open_table files col tier options db_version =
     (let id' = value_id_new col tier;
          entry_size = (if unat tier < length SIZES then Some (SIZES ! unat tier) else None)
      in table_open (files id') id' entry_size (co_ref_counted options) db_version)"

fun open_tables :: "(value_table_id \<Rightarrow> os_file option) \<Rightarrow> u8 \<Rightarrow> nat list \<Rightarrow> column_options \<Rightarrow> u32 \<Rightarrow>
    value_table list res" where
  "open_tables files col [] options db_version = Inr []"
| "open_tables files col (i # is) options db_version =
     rbind (open_table files col (of_nat i) options db_version) (\<lambda>t.
     rbind (open_tables files col is options db_version) (\<lambda>ts. Inr (t # ts)))"

fun open_index_loop :: "(index_table_id \<Rightarrow> os_file option) \<Rightarrow> u8 \<Rightarrow> u8 list \<Rightarrow>
    index_table option \<Rightarrow> index_table list \<Rightarrow> column_stats \<Rightarrow>
    (index_table option \<times> index_table list \<times> column_stats) res" where
  "open_index_loop files col [] found_top reindexing stats = Inr (found_top, reindexing, stats)"
| "open_index_loop files col (bits # rest) found_top reindexing stats =
     (let id' = index_id_new col bits
      in case index_open_existing (files id') id' of
           None \<Rightarrow> open_index_loop files col rest found_top reindexing stats
         | Some table \<Rightarrow>
             (case found_top of
                None \<Rightarrow> rbind (load_stats table) (\<lambda>stats.
                  open_index_loop files col rest (Some table) reindexing stats)
              | Some _ \<Rightarrow> open_index_loop files col rest found_top (table # reindexing) stats))"

definition open_index :: "(index_table_id \<Rightarrow> os_file option) \<Rightarrow> u8 \<Rightarrow>
    (index_table \<times> index_table list \<times> column_stats) res" where
  "open_index files col =
     rbind (open_index_loop files col (rev (map of_nat [unat MIN_INDEX_BITS..<65])) None [] stats_empty)
       (\<lambda>(found_top, reindexing, stats).
         let table = (case found_top of
               Some table \<Rightarrow> table
             | None \<Rightarrow> index_create_new False (index_id_new col MIN_INDEX_BITS))
         in Inr (table, reindexing, stats))"

definition hash_open :: "(index_table_id \<Rightarrow> os_file option) \<Rightarrow> u8 \<Rightarrow> value_table list \<Rightarrow> options \<Rightarrow>
    metadata \<Rightarrow> hash_column res" where
  "hash_open files col tables options metadata =
     rbind (open_index files col) (\<lambda>(index, reindexing, stats).
       if unat col < length (md_columns metadata) then
         let co = md_columns metadata ! unat col
         in Inr \<lparr>hc_col = col, hc_index = index, hc_value = tables, hc_queue = reindexing,
               hc_progress = 0, hc_preimage = co_preimage co, hc_uniform_keys = co_uniform co,
               hc_collect_stats = op_stats options, hc_ref_counted = co_ref_counted co,
               hc_salt = md_salt metadata, hc_stats = stats,
               hc_compression = compress_new (co_compression co) (co_compression_threshold co),
               hc_db_version = md_version metadata\<rparr>
       else Inl Panic)"

text \<open>\<open>Column::open\<close> for a column without a btree index.\<close>

definition column_open_hash :: "(value_table_id \<Rightarrow> os_file option) \<Rightarrow> (index_table_id \<Rightarrow> os_file option) \<Rightarrow>
    u8 \<Rightarrow> options \<Rightarrow> metadata \<Rightarrow> hash_column res" where
  "column_open_hash vfiles ifiles col options metadata =
     (if unat col < length (md_columns metadata) then
        rbind (open_tables vfiles col [0..<SIZE_TIERS] (md_columns metadata ! unat col)
                 (md_version metadata)) (\<lambda>tables.
          hash_open ifiles col tables options metadata)
      else Inl Panic)"

section \<open>Reading\<close>

definition nth_table :: "value_table list \<Rightarrow> nat \<Rightarrow> value_table res" where
  "nth_table ts i = (if i < length ts then Inr (ts ! i) else Inl Panic)"

definition get_value :: "codecs \<Rightarrow> table_key_query \<Rightarrow> address \<Rightarrow> tables_ref \<Rightarrow> log_query \<Rightarrow>
    (u8 \<times> bytes) option comp" where
  "get_value cd key address tables q =
     cbind (Some (nth_table (tr_tables tables) (unat (address_size_tier address)))) (\<lambda>t.
     cbind (query t key (address_offset address) q) (\<lambda>(r, _).
       case r of
         Some (val, compressed, _) \<Rightarrow>
           cbind (Some (if compressed then decompress_bytes cd (tr_compression tables) val else Inr val))
             (\<lambda>val. cret (Some (address_size_tier address, val)))
       | None \<Rightarrow> cret None))"

partial_function (option) get_in_index_loop :: "codecs \<Rightarrow> bytes \<Rightarrow> index_table \<Rightarrow> tables_ref \<Rightarrow> log_query \<Rightarrow>
    entry \<Rightarrow> nat \<Rightarrow> (u8 \<times> bytes) option comp" where
  "get_in_index_loop cd key index tables q entry sub_index =
     (if entry_is_empty entry then Some (Inr None)
      else
        case get_value cd (Check (Partial key)) (entry_address entry (it_bits index)) tables q of
          None \<Rightarrow> None
        | Some (Inl e) \<Rightarrow> Some (Inl e)
        | Some (Inr (Some r)) \<Rightarrow> Some (Inr (Some r))
        | Some (Inr None) \<Rightarrow>
            (case index_get index key (sub_index + 1) q of
               Inl e \<Rightarrow> Some (Inl e)
             | Inr (next_entry, next_index) \<Rightarrow>
                 get_in_index_loop cd key index tables q next_entry next_index))"

definition get_in_index :: "codecs \<Rightarrow> bytes \<Rightarrow> index_table \<Rightarrow> tables_ref \<Rightarrow> log_query \<Rightarrow>
    (u8 \<times> bytes) option comp" where
  "get_in_index cd key index tables q =
     cbind (Some (index_get index key 0 q)) (\<lambda>(entry, sub_index).
       get_in_index_loop cd key index tables q entry sub_index)"

fun get_in_indexes :: "codecs \<Rightarrow> bytes \<Rightarrow> index_table list \<Rightarrow> tables_ref \<Rightarrow> log_query \<Rightarrow>
    (u8 \<times> bytes) option comp" where
  "get_in_indexes cd key [] tables q = cret None"
| "get_in_indexes cd key (r # rs) tables q =
     cbind (get_in_index cd key r tables q) (\<lambda>found.
       case found of Some x \<Rightarrow> cret (Some x) | None \<Rightarrow> get_in_indexes cd key rs tables q)"

definition count_stats :: "hash_column \<Rightarrow> (column_stats \<Rightarrow> column_stats) \<Rightarrow> hash_column" where
  "count_stats hc f = (if hc_collect_stats hc then hc\<lparr>hc_stats := f (hc_stats hc)\<rparr> else hc)"

definition hash_get :: "codecs \<Rightarrow> hash_column \<Rightarrow> bytes \<Rightarrow> log_query \<Rightarrow> (bytes option \<times> hash_column) comp" where
  "hash_get cd hc key q =
     cbind (get_in_index cd key (hc_index hc) (as_ref hc) q) (\<lambda>found.
       case found of
         Some (tier, val) \<Rightarrow> cret (Some val, count_stats hc (query_hit tier))
       | None \<Rightarrow>
           cbind (get_in_indexes cd key (hc_queue hc) (as_ref hc) q) (\<lambda>found.
             case found of
               Some (tier, val) \<Rightarrow> cret (Some val, count_stats hc (query_hit tier))
             | None \<Rightarrow> cret (None, count_stats hc query_miss)))"

definition hash_get_size :: "codecs \<Rightarrow> hash_column \<Rightarrow> bytes \<Rightarrow> log_query \<Rightarrow> (u32 option \<times> hash_column) comp" where
  "hash_get_size cd hc key q =
     cbind (hash_get cd hc key q) (\<lambda>(v, hc). cret (map_option (\<lambda>v. of_nat (length v)) v, hc))"

section \<open>Planning values\<close>

text \<open>\<open>Column::compress\<close>: the compressed value when it is shorter, and the tier it goes to.\<close>

definition column_compress :: "codecs \<Rightarrow> compress \<Rightarrow> table_key \<Rightarrow> bytes \<Rightarrow> value_table list \<Rightarrow>
    bytes option \<times> nat" where
  "column_compress cd compression key val tables =
     (let (len, result) =
        (if unat (cp_threshold compression) < length val then
           let cvalue = compress_bytes cd compression val
           in if length cvalue < length val then (length cvalue, Some cvalue) else (length val, None)
         else (length val, None));
          target_tier = List.find (\<lambda>i. case value_size (tables ! i) key of
              Some s \<Rightarrow> len \<le> unat s | None \<Rightarrow> False) [0..<length tables]
      in (result, case target_tier of Some tier \<Rightarrow> tier | None \<Rightarrow> length tables - 1))"

definition stored_form :: "bytes option \<Rightarrow> bytes \<Rightarrow> bytes \<times> bool" where
  "stored_form cval val = (case cval of Some c \<Rightarrow> (c, True) | None \<Rightarrow> (val, False))"

text \<open>The stored and the plain size of the present value, for the statistics.\<close>

definition current_sizes :: "codecs \<Rightarrow> tables_ref \<Rightarrow> nat \<Rightarrow> table_key \<Rightarrow> u64 \<Rightarrow> log_query \<Rightarrow> (u32 \<times> u32) comp" where
  "current_sizes cd tables tier key offset q =
     cbind (Some (nth_table (tr_tables tables) tier)) (\<lambda>t.
     cbind (table_size t key offset q) (\<lambda>r.
       let (cur_size, compressed) = (case r of Some x \<Rightarrow> x | None \<Rightarrow> (0, False))
       in if compressed then
            cbind (table_get t key offset q) (\<lambda>v.
            cbind (Some (unwrap v)) (\<lambda>(v, _).
            cbind (Some (decompress_bytes cd (tr_compression tables) v)) (\<lambda>uncompressed.
              cret (cur_size, of_nat (length uncompressed)))))
          else cret (cur_size, cur_size)))"

definition replace_stats :: "codecs \<Rightarrow> tables_ref \<Rightarrow> nat \<Rightarrow> table_key \<Rightarrow> u64 \<Rightarrow> log_query \<Rightarrow>
    bytes \<Rightarrow> bytes \<Rightarrow> column_stats option \<Rightarrow> column_stats option comp" where
  "replace_stats cd tables tier key offset q val cval stats =
     (case stats of
        None \<Rightarrow> cret None
      | Some st \<Rightarrow>
          cbind (current_sizes cd tables tier key offset q) (\<lambda>(cur_size, uncompressed).
            cret (Some (replace_val cur_size uncompressed (of_nat (length val)) (of_nat (length cval)) st))))"

definition write_new_value_plan :: "codecs \<Rightarrow> table_key \<Rightarrow> tables_ref \<Rightarrow> bytes \<Rightarrow> log_writer \<Rightarrow>
    column_stats option \<Rightarrow> (address \<times> value_table list \<times> log_writer \<times> column_stats option) comp" where
  "write_new_value_plan cd key tables val w stats =
     (let (cval, target_tier) = column_compress cd (tr_compression tables) key val (tr_tables tables);
          (cval, compressed) = stored_form cval val
      in cbind (Some (nth_table (tr_tables tables) target_tier)) (\<lambda>t.
         cbind (table_write_insert_plan t key cval w compressed) (\<lambda>(offset, t, w).
           cret (address_new offset (of_nat target_tier), (tr_tables tables)[target_tier := t], w,
             map_option (insert_val (of_nat (length val)) (of_nat (length cval))) stats))))"

text \<open>Storing a value for a key that has one, in the table of another tier.\<close>

definition move_value :: "table_key \<Rightarrow> value_table list \<Rightarrow> nat \<Rightarrow> u64 \<Rightarrow> nat \<Rightarrow> bytes \<Rightarrow> bool \<Rightarrow> log_writer \<Rightarrow>
    (address \<times> value_table list \<times> log_writer) comp" where
  "move_value key ts tier offset target_tier cval compressed w =
     cbind (Some (nth_table ts tier)) (\<lambda>t.
     cbind (table_write_remove_plan t offset w) (\<lambda>(t, w).
     let ts = ts[tier := t]
     in cbind (Some (nth_table ts target_tier)) (\<lambda>t.
        cbind (table_write_insert_plan t key cval w compressed) (\<lambda>(new_offset, t, w).
          cret (address_new new_offset (of_nat target_tier), ts[target_tier := t], w)))))"

type_synonym value_plan = "(plan_outcome option \<times> address option) \<times> value_table list \<times> log_writer \<times> column_stats option"

text \<open>\<open>write_existing_value_plan\<close> with a value.\<close>

definition set_existing_value :: "codecs \<Rightarrow> table_key \<Rightarrow> tables_ref \<Rightarrow> address \<Rightarrow> bytes \<Rightarrow> log_writer \<Rightarrow>
    column_stats option \<Rightarrow> value_plan comp" where
  "set_existing_value cd key tables address val w stats =
     (let tier = unat (address_size_tier address); offset = address_offset address; ts = tr_tables tables
      in if tr_ref_counted tables then
           cbind (Some (rbind (nth_table ts tier) (\<lambda>t. write_inc_ref t offset w))) (\<lambda>w.
             cret ((Some Written, None), ts, w, stats))
         else if tr_preimage tables then cret ((Some Skipped, None), ts, w, stats)
         else
           let (cval, target_tier) = column_compress cd (tr_compression tables) key val ts;
               (cval, compressed) = stored_form cval val
           in cbind (replace_stats cd tables tier key offset (writer_query w) val cval stats) (\<lambda>stats.
              if tier = target_tier then
                cbind (Some (nth_table ts target_tier)) (\<lambda>t.
                cbind (table_write_replace_plan t offset key cval w compressed) (\<lambda>(t, w).
                  cret ((Some Written, None), ts[target_tier := t], w, stats)))
              else
                cbind (move_value key ts tier offset target_tier cval compressed w) (\<lambda>(address, ts, w).
                  cret ((None, Some address), ts, w, stats))))"

text \<open>\<open>write_existing_value_plan\<close> without a value: deletion.\<close>

definition delete_existing_value :: "codecs \<Rightarrow> table_key \<Rightarrow> tables_ref \<Rightarrow> address \<Rightarrow> log_writer \<Rightarrow>
    column_stats option \<Rightarrow> value_plan comp" where
  "delete_existing_value cd key tables address w stats =
     (let tier = unat (address_size_tier address); offset = address_offset address; ts = tr_tables tables
      in cbind (case stats of
                  None \<Rightarrow> cret None
                | Some _ \<Rightarrow> cbind (current_sizes cd tables tier key offset (writer_query w)) (\<lambda>s. cret (Some s)))
           (\<lambda>cur_size.
         cbind (Some (nth_table ts tier)) (\<lambda>t.
         cbind (if tr_ref_counted tables
                then cbind (write_dec_ref t offset w) (\<lambda>(remains, t, w). cret (\<not> remains, t, w))
                else cbind (table_write_remove_plan t offset w) (\<lambda>(t, w). cret (True, t, w)))
           (\<lambda>(remove, t, w).
             if remove then
               cret ((None, Some address), ts[tier := t], w,
                 case cur_size of
                   Some (compressed_size, uncompressed_size) \<Rightarrow>
                     map_option (remove_val uncompressed_size compressed_size) stats
                 | None \<Rightarrow> stats)
             else cret ((Some Written, None), ts[tier := t], w, stats)))))"

definition write_existing_value_plan :: "codecs \<Rightarrow> table_key \<Rightarrow> tables_ref \<Rightarrow> address \<Rightarrow> bytes option \<Rightarrow>
    log_writer \<Rightarrow> column_stats option \<Rightarrow> value_plan comp" where
  "write_existing_value_plan cd key tables address val w stats =
     (case val of
        Some val \<Rightarrow> set_existing_value cd key tables address val w stats
      | None \<Rightarrow> delete_existing_value cd key tables address w stats)"

section \<open>Planning changes of a column\<close>

definition trigger_reindex :: "hash_column \<Rightarrow> hash_column" where
  "trigger_reindex hc =
     (let new_index_id = index_id_new (index_id_col (it_id (hc_index hc))) (it_bits (hc_index hc) + 1)
      in hc\<lparr>hc_index := index_create_new False new_index_id, hc_queue := hc_queue hc @ [hc_index hc]\<rparr>)"

partial_function (option) search_index_loop :: "bytes \<Rightarrow> index_table \<Rightarrow> value_table list \<Rightarrow> log_query \<Rightarrow>
    entry \<Rightarrow> nat \<Rightarrow> (index_table \<times> nat \<times> address) option comp" where
  "search_index_loop key index ts q existing_entry sub_index =
     (if entry_is_empty existing_entry then Some (Inr None)
      else
        let existing_address = entry_address existing_entry (it_bits index)
        in case cbind (Some (nth_table ts (unat (address_size_tier existing_address)))) (\<lambda>t.
                  has_key_at t (address_offset existing_address) (Partial key) q) of
             None \<Rightarrow> None
           | Some (Inl e) \<Rightarrow> Some (Inl e)
           | Some (Inr found) \<Rightarrow>
               if found then Some (Inr (Some (index, sub_index, existing_address)))
               else (case index_get index key (sub_index + 1) q of
                  Inl e \<Rightarrow> Some (Inl e)
                | Inr (next_entry, next_index) \<Rightarrow> search_index_loop key index ts q next_entry next_index))"

definition search_index :: "bytes \<Rightarrow> index_table \<Rightarrow> value_table list \<Rightarrow> log_query \<Rightarrow>
    (index_table \<times> nat \<times> address) option comp" where
  "search_index key index ts q =
     cbind (Some (index_get index key 0 q)) (\<lambda>(existing_entry, sub_index).
       search_index_loop key index ts q existing_entry sub_index)"

fun search_indexes :: "bytes \<Rightarrow> index_table list \<Rightarrow> value_table list \<Rightarrow> log_query \<Rightarrow>
    (index_table \<times> nat \<times> address) option comp" where
  "search_indexes key [] ts q = cret None"
| "search_indexes key (index # rest) ts q =
     cbind (search_index key index ts q) (\<lambda>r.
       case r of Some x \<Rightarrow> cret (Some x) | None \<Rightarrow> search_indexes key rest ts q)"

definition search_all_indexes :: "bytes \<Rightarrow> hash_column \<Rightarrow> log_query \<Rightarrow>
    (index_table \<times> nat \<times> address) option comp" where
  "search_all_indexes key hc q =
     cbind (search_index key (hc_index hc) (hc_value hc) q) (\<lambda>r.
       case r of
         Some x \<Rightarrow> cret (Some x)
       | None \<Rightarrow> search_indexes key (hc_queue hc) (hc_value hc) q)"

text \<open>
  \<open>write_reindex_plan\<close>, when the chunk is full, starts a re-index and calls itself while \<open>_lock\<close> still
  holds the two upgradable guards that the call takes first: it waits for itself and never returns.
\<close>

definition write_reindex_plan :: "bytes \<Rightarrow> address \<Rightarrow> hash_column \<Rightarrow> log_writer \<Rightarrow>
    (plan_outcome \<times> hash_column \<times> log_writer) comp" where
  "write_reindex_plan key address hc w =
     (case search_index key (hc_index hc) (hc_value hc) (writer_query w) of
        None \<Rightarrow> None
      | Some (Inl e) \<Rightarrow> Some (Inl e)
      | Some (Inr (Some _)) \<Rightarrow> Some (Inr (Skipped, hc, w))
      | Some (Inr None) \<Rightarrow>
          (case index_write_insert_plan (hc_index hc) key address None w of
             Inl e \<Rightarrow> Some (Inl e)
           | Inr (outcome, w) \<Rightarrow>
               if outcome = NeedReindex then None else Some (Inr (Written, hc, w))))"

definition stats_in :: "hash_column \<Rightarrow> column_stats option" where
  "stats_in hc = (if hc_collect_stats hc then Some (hc_stats hc) else None)"

definition stats_out :: "hash_column \<Rightarrow> column_stats option \<Rightarrow> hash_column" where
  "stats_out hc stats = (case stats of Some st \<Rightarrow> hc\<lparr>hc_stats := st\<rparr> | None \<Rightarrow> hc)"

definition write_plan_existing :: "codecs \<Rightarrow> hash_column \<Rightarrow> bytes \<Rightarrow> bytes option \<Rightarrow> log_writer \<Rightarrow>
    index_table \<Rightarrow> nat \<Rightarrow> address \<Rightarrow> (plan_outcome \<times> hash_column \<times> log_writer) comp" where
  "write_plan_existing cd hc key val w index sub_index existing_address =
     cbind (write_existing_value_plan cd (Partial key) (as_ref hc) existing_address val w (stats_in hc))
       (\<lambda>(r, ts, w, stats).
         let hc = stats_out (hc\<lparr>hc_value := ts\<rparr>) stats
         in case r of
              (Some outcome, _) \<Rightarrow> cret (outcome, hc, w)
            | (None, Some value_address) \<Rightarrow>
                (case val of
                   Some _ \<Rightarrow>
                     let sub_index = (if it_id index = it_id (hc_index hc) then Some sub_index else None)
                     in cbind (Some (index_write_insert_plan (hc_index hc) key value_address sub_index w))
                          (\<lambda>(outcome, w). cret (outcome, hc, w))
                 | None \<Rightarrow>
                     cbind (Some (index_write_remove_plan index key sub_index w)) (\<lambda>(_, w).
                       cret (Skipped, hc, w)))
            | (None, None) \<Rightarrow> Some (Inl Panic))"

partial_function (option) write_plan_new :: "codecs \<Rightarrow> bytes \<Rightarrow> bytes \<Rightarrow> hash_column \<Rightarrow> log_writer \<Rightarrow>
    (plan_outcome \<times> hash_column \<times> log_writer) comp" where
  "write_plan_new cd key val hc w =
     (case write_new_value_plan cd (Partial key) (as_ref hc) val w (stats_in hc) of
        None \<Rightarrow> None
      | Some (Inl e) \<Rightarrow> Some (Inl e)
      | Some (Inr (address, ts, w, stats)) \<Rightarrow>
          let hc = stats_out (hc\<lparr>hc_value := ts\<rparr>) stats
          in case index_write_insert_plan (hc_index hc) key address None w of
               Inl e \<Rightarrow> Some (Inl e)
             | Inr (outcome, w) \<Rightarrow>
                 if outcome = NeedReindex then
                   cbind (write_plan_new cd key val (trigger_reindex hc) w) (\<lambda>(_, hc, w).
                     cret (NeedReindex, hc, w))
                 else Some (Inr (Written, hc, w)))"

definition hash_write_plan :: "codecs \<Rightarrow> hash_column \<Rightarrow> bytes \<Rightarrow> bytes option \<Rightarrow> log_writer \<Rightarrow>
    (plan_outcome \<times> hash_column \<times> log_writer) comp" where
  "hash_write_plan cd hc key val w =
     cbind (search_all_indexes key hc (writer_query w)) (\<lambda>existing.
       case existing of
         Some (table, sub_index, existing_address) \<Rightarrow>
           write_plan_existing cd hc key val w table sub_index existing_address
       | None \<Rightarrow>
           (case val of
              Some val \<Rightarrow> write_plan_new cd key val hc w
            | None \<Rightarrow> cret (Skipped, count_stats hc remove_miss, w)))"

section \<open>Enacting log records\<close>

text \<open>The index of a column with a given id, and its replacement.\<close>

definition find_queued :: "hash_column \<Rightarrow> index_table_id \<Rightarrow> nat option" where
  "find_queued hc id' = List.find (\<lambda>i. it_id (hc_queue hc ! i) = id') [0..<length (hc_queue hc)]"

definition hash_enact_plan :: "hash_column \<Rightarrow> log_action \<Rightarrow> log_reader \<Rightarrow> (hash_column \<times> log_reader) comp" where
  "hash_enact_plan hc action r =
     (case action of
        InsertIndex table index \<Rightarrow>
          Some (if it_id (hc_index hc) = table then
                  rbind (index_enact_plan (hc_index hc) index r) (\<lambda>(t, r). Inr (hc\<lparr>hc_index := t\<rparr>, r))
                else
                  (case find_queued hc table of
                     Some i \<Rightarrow>
                       rbind (index_enact_plan (hc_queue hc ! i) index r) (\<lambda>(t, r).
                         Inr (hc\<lparr>hc_queue := (hc_queue hc)[i := t]\<rparr>, r))
                   | None \<Rightarrow> rbind (skip_plan r) (\<lambda>r. Inr (hc, r))))
      | InsertValue table index \<Rightarrow>
          let tier = unat (value_id_size_tier table)
          in cbind (Some (nth_table (hc_value hc) tier)) (\<lambda>t.
             cbind (table_enact_plan t index r) (\<lambda>(t, r).
               cret (hc\<lparr>hc_value := (hc_value hc)[tier := t]\<rparr>, r)))
      | _ \<Rightarrow> Some (Inl (Err (Corruption ''Unexpected log action''))))"

text \<open>
  A record for an index that is neither the current nor a queued one starts a re-index and
  validates again while \<open>_lock\<close> holds the guards of both locks, so that this call never returns.
\<close>

definition validate_index_plan :: "index_table_id \<Rightarrow> u64 \<Rightarrow> log_reader \<Rightarrow> hash_column \<Rightarrow>
    (hash_column \<times> log_reader) comp" where
  "validate_index_plan table index r hc =
     (if it_id (hc_index hc) = table then
        Some (rbind (index_validate_plan (hc_index hc) index r) (\<lambda>r. Inr (hc, r)))
      else
        (case find_queued hc table of
           Some i \<Rightarrow> Some (rbind (index_validate_plan (hc_queue hc ! i) index r) (\<lambda>r. Inr (hc, r)))
         | None \<Rightarrow> None))"

definition hash_validate_plan :: "hash_column \<Rightarrow> log_action \<Rightarrow> log_reader \<Rightarrow> (hash_column \<times> log_reader) comp" where
  "hash_validate_plan hc action r =
     (case action of
        InsertIndex table index \<Rightarrow> validate_index_plan table index r hc
      | InsertValue table index \<Rightarrow>
          Some (rbind (nth_table (hc_value hc) (unat (value_id_size_tier table))) (\<lambda>t.
                rbind (table_validate_plan t index r) (\<lambda>r. Inr (hc, r))))
      | _ \<Rightarrow> Some (Inl (Err (Corruption ''Unexpected log action''))))"

fun complete_tables :: "value_table list \<Rightarrow> log_writer \<Rightarrow> value_table list \<times> log_writer" where
  "complete_tables [] w = ([], w)"
| "complete_tables (t # ts) w =
     (let (t, w) = table_complete_plan t w; (ts, w) = complete_tables ts w in (t # ts, w))"

definition hash_complete_plan :: "hash_column \<Rightarrow> log_writer \<Rightarrow> hash_column \<times> log_writer" where
  "hash_complete_plan hc w =
     (let (ts, w) = complete_tables (hc_value hc) w
      in (count_stats (hc\<lparr>hc_value := ts\<rparr>) stats_commit, w))"

fun refresh_tables :: "value_table list \<Rightarrow> value_table list res" where
  "refresh_tables [] = Inr []"
| "refresh_tables (t # ts) =
     rbind (table_refresh_metadata t) (\<lambda>t. rbind (refresh_tables ts) (\<lambda>ts. Inr (t # ts)))"

definition hash_refresh_metadata :: "hash_column \<Rightarrow> hash_column res" where
  "hash_refresh_metadata hc =
     rbind (refresh_tables (hc_value hc)) (\<lambda>ts. Inr (hc\<lparr>hc_value := ts\<rparr>))"

definition hash_flush :: "hash_column \<Rightarrow> hash_column" where
  "hash_flush hc = hc\<lparr>hc_value := map table_flush (hc_value hc)\<rparr>"

definition hash_write_stats :: "hash_column \<Rightarrow> hash_column res" where
  "hash_write_stats hc = rbind (write_stats (hc_stats hc) (hc_index hc)) (\<lambda>t. Inr (hc\<lparr>hc_index := t\<rparr>))"

definition hash_clear_stats :: "hash_column \<Rightarrow> hash_column res" where
  "hash_clear_stats hc = rbind (write_stats stats_empty (hc_index hc)) (\<lambda>t. Inr (hc\<lparr>hc_index := t\<rparr>))"

section \<open>Iterating\<close>

text \<open>
  The callback \<open>f\<close> may fail; it carries the state \<open>'s\<close>. In the scan of the value tables an error
  of the callback only ends the scan of the table at hand; a panic unwinds.
\<close>

definition iter_preimage :: "(bytes \<Rightarrow> bytes \<Rightarrow> bytes) \<Rightarrow> codecs \<Rightarrow> hash_column \<Rightarrow>
    (iter_state_or_corrupted \<Rightarrow> 's \<Rightarrow> bool res \<times> 's) \<Rightarrow>
    u64 \<Rightarrow> u32 \<Rightarrow> bytes \<Rightarrow> bool \<Rightarrow> 's res \<Rightarrow> bool \<times> 's res" where
  "iter_preimage blake2b cd hc f index rc val compressed rs =
     (case rs of
        Inl e \<Rightarrow> (False, Inl e)
      | Inr s \<Rightarrow>
          (case (if compressed then decompress_bytes cd (hc_compression hc) val else Inr val) of
             Inl _ \<Rightarrow> (False, Inr s)
           | Inr val \<Rightarrow>
               (case column_hash_key blake2b hc (blake2b [] val) of
                  Inl e \<Rightarrow> (False, Inl e)
                | Inr key \<Rightarrow>
                    (case f (Item \<lparr>is_chunk_index = index, is_key = key, is_rc = rc, is_value = val\<rparr>) s of
                       (Inr b, s) \<Rightarrow> (b, Inr s)
                     | (Inl (Err _), s) \<Rightarrow> (False, Inr s)
                     | (Inl e, s) \<Rightarrow> (False, Inl e)))))"

fun iter_tables :: "(bytes \<Rightarrow> bytes \<Rightarrow> bytes) \<Rightarrow> codecs \<Rightarrow> hash_column \<Rightarrow> log_query \<Rightarrow>
    (iter_state_or_corrupted \<Rightarrow> 's \<Rightarrow> bool res \<times> 's) \<Rightarrow> value_table list \<Rightarrow> 's \<Rightarrow> 's comp" where
  "iter_tables blake2b cd hc q f [] s = cret s"
| "iter_tables blake2b cd hc q f (t # ts) s =
     cbind (table_iter_while t q (iter_preimage blake2b cd hc f) (Inr s)) (\<lambda>rs.
     cbind (Some rs) (\<lambda>s. iter_tables blake2b cd hc q f ts s))"

definition entry_location :: "hash_column \<Rightarrow> entry \<Rightarrow> u8 \<times> u64" where
  "entry_location hc e =
     (let bits = it_bits (hc_index hc)
      in if 4 \<le> hc_db_version hc
         then let address = entry_address e bits in (address_size_tier address, address_offset address)
         else let address = entry_as_u64 e AND (shl64 1 (bits + 10) - 1)
              in (ucast (address AND 0x0f), drop_bit 4 address))"

text \<open>One entry of a chunk; the result says whether to go on.\<close>

definition iter_entry :: "codecs \<Rightarrow> hash_column \<Rightarrow> log_query \<Rightarrow> (iter_state_or_corrupted \<Rightarrow> 's \<Rightarrow> bool res \<times> 's) \<Rightarrow>
    bool \<Rightarrow> u64 \<Rightarrow> entry \<Rightarrow> 's \<Rightarrow> (bool \<times> 's) comp" where
  "iter_entry cd hc q f skip_preimage_indexes c entry s =
     (let (size_tier, offset) = entry_location hc entry
      in if entry_is_empty entry then cret (True, s)
         else if skip_preimage_indexes \<and> hc_preimage hc \<and> unat size_tier \<noteq> length (hc_value hc) - 1
         then cret (True, s)
         else
           cbind (Some (nth_table (hc_value hc) (unat size_tier))) (\<lambda>t.
             let corrupted = (\<lambda>e. case f (Corrupted entry e) s of
                   (Inr _, s) \<Rightarrow> cret (True, s) | (Inl e, _) \<Rightarrow> Some (Inl e))
             in case get_with_meta t offset q of
                  None \<Rightarrow> None
                | Some (Inl (Err e)) \<Rightarrow> corrupted (Some (Err e))
                | Some (Inl e) \<Rightarrow> Some (Inl e)
                | Some (Inr None) \<Rightarrow> corrupted None
                | Some (Inr (Some (val, rc, pk, compressed))) \<Rightarrow>
                    let key = take 6 (recover_key_prefix (it_id (hc_index hc)) c entry) @ pk
                    in cbind (Some (if compressed then decompress_bytes cd (hc_compression hc) val else Inr val))
                         (\<lambda>val.
                           case f (Item \<lparr>is_chunk_index = c, is_key = key, is_rc = rc, is_value = val\<rparr>) s of
                             (Inr b, s) \<Rightarrow> cret (b, s)
                           | (Inl e, _) \<Rightarrow> Some (Inl e))))"

fun iter_entries :: "codecs \<Rightarrow> hash_column \<Rightarrow> log_query \<Rightarrow> (iter_state_or_corrupted \<Rightarrow> 's \<Rightarrow> bool res \<times> 's) \<Rightarrow>
    bool \<Rightarrow> u64 \<Rightarrow> entry list \<Rightarrow> 's \<Rightarrow> (bool \<times> 's) comp" where
  "iter_entries cd hc q f skip_preimage_indexes c [] s = cret (True, s)"
| "iter_entries cd hc q f skip_preimage_indexes c (entry # entries) s =
     cbind (iter_entry cd hc q f skip_preimage_indexes c entry s) (\<lambda>(continue, s).
       if continue then iter_entries cd hc q f skip_preimage_indexes c entries s else cret (False, s))"

fun iter_chunks :: "codecs \<Rightarrow> hash_column \<Rightarrow> log_query \<Rightarrow> (iter_state_or_corrupted \<Rightarrow> 's \<Rightarrow> bool res \<times> 's) \<Rightarrow>
    bool \<Rightarrow> u64 list \<Rightarrow> 's \<Rightarrow> 's comp" where
  "iter_chunks cd hc q f skip_preimage_indexes [] s = cret s"
| "iter_chunks cd hc q f skip_preimage_indexes (c # cs) s =
     cbind (Some (index_entries (hc_index hc) c q)) (\<lambda>entries.
     cbind (iter_entries cd hc q f skip_preimage_indexes c entries s) (\<lambda>(continue, s).
       if continue then iter_chunks cd hc q f skip_preimage_indexes cs s else cret s))"

definition iter_while_inner :: "(bytes \<Rightarrow> bytes \<Rightarrow> bytes) \<Rightarrow> codecs \<Rightarrow> hash_column \<Rightarrow> log_query \<Rightarrow>
    (iter_state_or_corrupted \<Rightarrow> 's \<Rightarrow> bool res \<times> 's) \<Rightarrow> u64 \<Rightarrow> bool \<Rightarrow> 's \<Rightarrow> 's comp" where
  "iter_while_inner blake2b cd hc q f start_chunk skip_preimage_indexes s =
     cbind (if skip_preimage_indexes \<and> hc_preimage hc
            then iter_tables blake2b cd hc q f (butlast (hc_value hc)) s else cret s) (\<lambda>s.
       iter_chunks cd hc q f skip_preimage_indexes
         (map of_nat [unat start_chunk..<unat (total_chunks (it_bits (hc_index hc)))]) s)"

definition hash_iter_while :: "(bytes \<Rightarrow> bytes \<Rightarrow> bytes) \<Rightarrow> codecs \<Rightarrow> hash_column \<Rightarrow> log_query \<Rightarrow>
    (iter_state \<Rightarrow> 's \<Rightarrow> bool \<times> 's) \<Rightarrow> 's \<Rightarrow> 's comp" where
  "hash_iter_while blake2b cd hc q f s =
     iter_while_inner blake2b cd hc q (\<lambda>state s. case state of
         Item item \<Rightarrow> (let (b, s) = f item s in (Inr b, s))
       | Corrupted _ _ \<Rightarrow> (Inl (Err (Corruption ''Missing indexed value'')), s)) 0 True s"

section \<open>Re-indexing\<close>

definition chunk_plan :: "index_table_id \<Rightarrow> u64 \<Rightarrow> entry list \<Rightarrow> (bytes \<times> address) list" where
  "chunk_plan source ci entries =
     map (\<lambda>e. (recover_key_prefix source ci e, entry_address e (index_id_bits source)))
       (filter (\<lambda>e. \<not> entry_is_empty e) entries)"

function reindex_loop :: "index_table \<Rightarrow> log_query \<Rightarrow> u64 \<Rightarrow> (bytes \<times> address) list \<Rightarrow>
    (u64 \<times> (bytes \<times> address) list) res" where
  "reindex_loop source q source_index plan =
     (if source_index < total_chunks (it_bits source) \<and> length plan < MAX_REINDEX_BATCH then
        rbind (index_entries source source_index q) (\<lambda>entries.
          reindex_loop source q (source_index + 1) (plan @ chunk_plan (it_id source) source_index entries))
      else Inr (source_index, plan))"
  by pat_completeness auto
termination
proof (relation "measure (\<lambda>(source, q, i, plan). unat (total_chunks (it_bits source)) - unat i)")
  fix source :: index_table and q :: log_query and i :: u64 and plan :: "(bytes \<times> address) list"
    and entries :: "entry list"
  assume "i < total_chunks (it_bits source) \<and> length plan < MAX_REINDEX_BATCH"
  then have lt: "i < total_chunks (it_bits source)" by simp
  then have "unat (i + 1) = unat i + 1"
    using unsigned_less[of "total_chunks (it_bits source)", where 'a = nat] by (simp add: word_less_nat_alt unat_word_ariths)
  then show "((source, q, i + 1, plan @ chunk_plan (it_id source) i entries), (source, q, i, plan))
      \<in> measure (\<lambda>(source, q, i, plan). unat (total_chunks (it_bits source)) - unat i)"
    using lt by (simp add: word_less_nat_alt)
qed simp

declare reindex_loop.simps [simp del]

definition hash_reindex :: "hash_column \<Rightarrow> log_query \<Rightarrow> (reindex_batch \<times> hash_column) res" where
  "hash_reindex hc q =
     (case hc_queue hc of
        [] \<Rightarrow> Inr (\<lparr>rb_drop_index = None, rb_batch = []\<rparr>, hc)
      | source # _ \<Rightarrow>
          let total = total_chunks (it_bits source)
          in if hc_progress hc = total then Inr (\<lparr>rb_drop_index = None, rb_batch = []\<rparr>, hc)
             else
               rbind (reindex_loop source q (hc_progress hc) []) (\<lambda>(source_index, plan).
                 Inr (\<lparr>rb_drop_index = (if source_index = total then Some (it_id source) else None),
                       rb_batch = plan\<rparr>,
                      hc\<lparr>hc_progress := source_index\<rparr>)))"

definition hash_drop_index :: "hash_column \<Rightarrow> index_table_id \<Rightarrow> hash_column res" where
  "hash_drop_index hc id' =
     (case hc_queue hc of
        [] \<Rightarrow> Inr hc
      | table # rest \<Rightarrow>
          if it_id table = id' then
            rbind (drop_file table) (\<lambda>_. Inr (hc\<lparr>hc_queue := rest, hc_progress := 0\<rparr>))
          else Inr hc)"

end
