(* ===== verification/BTree_Node.thy ===== *)
theory BTree_Node
  imports Column "HOL-Library.List_Lexorder"
begin

text \<open>
  Nodes of the ordered index (\<^verbatim>\<open>src/src/btree/node.rs\<close>, \<^verbatim>\<open>src/src/btree/mod.rs\<close>): their byte
  format (\<open>Entry\<close>), the arrays of separators and children, and the operations on one node in
  memory. Keys are compared as byte strings, in the lexicographic order of lists.

  The arrays of a node have the fixed lengths \<open>ORDER\<close> and \<open>ORDER_CHILD\<close>; an access behind them is
  a panic.
\<close>

section \<open>Constants and types\<close>

definition ORDER :: nat where "ORDER = 8"
definition ORDER_CHILD :: nat where "ORDER_CHILD = ORDER + 1"
definition NULL_ADDRESS :: address where "NULL_ADDRESS = address_from_u64 0"
definition BTREE_HEADER_SIZE :: nat where "BTREE_HEADER_SIZE = 8 + 4"
definition HEADER_ADDRESS :: address where "HEADER_ADDRESS = address_new 1 0"

lemmas node_consts = ORDER_def ORDER_CHILD_def

record btree_header =
  bh_root :: address
  bh_depth :: u32

record separator_inner =
  si_key :: bytes
  si_value :: address

record separator =
  sp_modified :: bool
  sp_separator :: "separator_inner option"

record child =
  ch_moved :: bool
  ch_entry_index :: "address option"

record node =
  nd_separators :: "separator list"
  nd_children :: "child list"
  nd_changed :: bool

definition separator_default :: separator where
  "separator_default = \<lparr>sp_modified = False, sp_separator = None\<rparr>"

definition child_default :: child where
  "child_default = \<lparr>ch_moved = False, ch_entry_index = None\<rparr>"

definition node_blank :: "bool \<Rightarrow> node" where
  "node_blank changed = \<lparr>nd_separators = replicate ORDER separator_default,
     nd_children = replicate ORDER_CHILD child_default, nd_changed = changed\<rparr>"

definition node_default :: node where
  "node_default = node_blank True"

section \<open>The byte format\<close>

definition btree_entry_empty :: ebuf where
  "btree_entry_empty = ebuf_new []"

definition entry_grow :: "ebuf \<Rightarrow> nat \<Rightarrow> ebuf" where
  "entry_grow e n = e\<lparr>edata := edata e @ replicate n 0\<rparr>"

definition read_separator :: "ebuf \<Rightarrow> (separator_inner option \<times> ebuf) res" where
  "read_separator e =
     (if eoff e = length (edata e) then Inr (None, e)
      else
        rbind (read_u64 e) (\<lambda>(val, e).
        rbind (read_slice e 1) (\<lambda>(head, e).
        rbind (if hd head = 255 then rbind (read_u32 e) (\<lambda>(n, e). Inr (unat n, e))
               else Inr (unat (hd head), e)) (\<lambda>(n, e).
        rbind (read_slice e n) (\<lambda>(key, e).
          if val = 0 then Inr (None, e)
          else Inr (Some \<lparr>si_key = key, si_value = address_from_u64 val\<rparr>, e))))))"

definition write_separator :: "bytes \<Rightarrow> address \<Rightarrow> ebuf \<Rightarrow> ebuf res" where
  "write_separator key val e =
     (let n = length key;
          e = entry_grow e (if 255 \<le> n then 8 + 1 + 4 + n else 8 + 1 + n)
      in rbind (write_u64 e (address_as_u64 val)) (\<lambda>e.
         rbind (if 255 \<le> n then rbind (write_slice e [255]) (\<lambda>e. write_u32 e (of_nat n))
                else write_slice e [of_nat n]) (\<lambda>e.
           write_slice e key)))"

definition read_child_index :: "ebuf \<Rightarrow> (address option \<times> ebuf) res" where
  "read_child_index e =
     rbind (read_u64 e) (\<lambda>(index, e). Inr (if index = 0 then None else Some (address_from_u64 index), e))"

definition write_child_index :: "address \<Rightarrow> ebuf \<Rightarrow> ebuf res" where
  "write_child_index index e = write_u64 (entry_grow e 8) (address_as_u64 index)"

definition write_header :: "btree_header \<Rightarrow> ebuf res" where
  "write_header h =
     rbind (write_u64 \<lparr>eoff = 0, edata = replicate BTREE_HEADER_SIZE 0\<rparr> (address_as_u64 (bh_root h))) (\<lambda>e.
       write_u32 e (bh_depth h))"

text \<open>\<open>Node::from_encoded\<close>: child \<open>i\<close>, then separator \<open>i\<close>, up to the first missing separator.\<close>

function from_encoded_loop :: "nat \<Rightarrow> ebuf \<Rightarrow> node \<Rightarrow> node res" where
  "from_encoded_loop i e n =
     rbind (read_child_index e) (\<lambda>(child_index, e).
       let n = (case child_index of
                  Some ix \<Rightarrow> n\<lparr>nd_children := (nd_children n)
                    [i := (nd_children n ! i)\<lparr>ch_entry_index := Some ix\<rparr>]\<rparr>
                | None \<Rightarrow> n)
       in if ORDER_CHILD \<le> i + 1 then Inr n
          else rbind (read_separator e) (\<lambda>(sep, e).
            case sep of
              Some s \<Rightarrow> from_encoded_loop (i + 1) e (n\<lparr>nd_separators := (nd_separators n)
                  [i := (nd_separators n ! i)\<lparr>sp_separator := Some s\<rparr>]\<rparr>)
            | None \<Rightarrow> Inr n))"
  by pat_completeness auto
termination
  by (relation "measure (\<lambda>(i, e, n). ORDER_CHILD - i)") auto

declare from_encoded_loop.simps [simp del]

definition from_encoded :: "bytes \<Rightarrow> node res" where
  "from_encoded enc = from_encoded_loop 0 (ebuf_new enc) (node_blank False)"

text \<open>The loop of \<open>write_node_plan\<close> that encodes a node.\<close>

function encode_node_loop :: "node \<Rightarrow> nat \<Rightarrow> ebuf \<Rightarrow> ebuf res" where
  "encode_node_loop n i e =
     rbind (write_child_index (case ch_entry_index (nd_children n ! i) of Some ix \<Rightarrow> ix | None \<Rightarrow> NULL_ADDRESS) e)
       (\<lambda>e. if ORDER_CHILD \<le> i + 1 then Inr e
            else case sp_separator (nd_separators n ! i) of
              Some s \<Rightarrow> rbind (write_separator (si_key s) (si_value s) e) (encode_node_loop n (i + 1))
            | None \<Rightarrow> Inr e)"
  by pat_completeness auto
termination
  by (relation "measure (\<lambda>(n, i, e). ORDER_CHILD - i)") auto

declare encode_node_loop.simps [simp del]

definition encode_node :: "node \<Rightarrow> bytes res" where
  "encode_node n = rbind (encode_node_loop n 0 btree_entry_empty) (\<lambda>e. Inr (edata e))"

section \<open>One node in memory\<close>

definition separator_at :: "node \<Rightarrow> nat \<Rightarrow> separator res" where
  "separator_at n i = (if i < length (nd_separators n) then Inr (nd_separators n ! i) else Inl Panic)"

definition child_at :: "node \<Rightarrow> nat \<Rightarrow> child res" where
  "child_at n i = (if i < length (nd_children n) then Inr (nd_children n ! i) else Inl Panic)"

definition put_separator :: "nat \<Rightarrow> separator \<Rightarrow> node \<Rightarrow> node res" where
  "put_separator i s n =
     (if i < length (nd_separators n) then Inr (n\<lparr>nd_separators := (nd_separators n)[i := s]\<rparr>) else Inl Panic)"

definition put_child :: "nat \<Rightarrow> child \<Rightarrow> node \<Rightarrow> node res" where
  "put_child i c n =
     (if i < length (nd_children n) then Inr (n\<lparr>nd_children := (nd_children n)[i := c]\<rparr>) else Inl Panic)"

definition has_separator :: "node \<Rightarrow> nat \<Rightarrow> bool res" where
  "has_separator n i = rbind (separator_at n i) (\<lambda>s. Inr (sp_separator s \<noteq> None))"

definition separator_key :: "node \<Rightarrow> nat \<Rightarrow> bytes option res" where
  "separator_key n i = rbind (separator_at n i) (\<lambda>s. Inr (map_option si_key (sp_separator s)))"

definition separator_address :: "node \<Rightarrow> nat \<Rightarrow> address option res" where
  "separator_address n i = rbind (separator_at n i) (\<lambda>s. Inr (map_option si_value (sp_separator s)))"

definition remove_separator :: "nat \<Rightarrow> node \<Rightarrow> (separator \<times> node) res" where
  "remove_separator i n =
     rbind (separator_at n i) (\<lambda>s.
     rbind (put_separator i \<lparr>sp_modified = True, sp_separator = None\<rparr> n) (\<lambda>n.
       Inr (s\<lparr>sp_modified := True\<rparr>, n\<lparr>nd_changed := True\<rparr>)))"

definition remove_child :: "nat \<Rightarrow> node \<Rightarrow> (child \<times> node) res" where
  "remove_child i n =
     rbind (child_at n i) (\<lambda>c.
     rbind (put_child i \<lparr>ch_moved = True, ch_entry_index = None\<rparr> n) (\<lambda>n.
       Inr (c\<lparr>ch_moved := True\<rparr>, n\<lparr>nd_changed := True\<rparr>)))"

definition set_separator :: "nat \<Rightarrow> separator \<Rightarrow> node \<Rightarrow> node res" where
  "set_separator i s n = put_separator i (s\<lparr>sp_modified := True\<rparr>) (n\<lparr>nd_changed := True\<rparr>)"

definition new_child :: "address option \<Rightarrow> child" where
  "new_child index = \<lparr>ch_moved = True, ch_entry_index = index\<rparr>"

definition set_child :: "nat \<Rightarrow> child \<Rightarrow> node \<Rightarrow> node res" where
  "set_child i c n = put_child i (c\<lparr>ch_moved := True\<rparr>) (n\<lparr>nd_changed := True\<rparr>)"

definition number_separator :: "node \<Rightarrow> nat" where
  "number_separator n = length (takeWhile (\<lambda>s. sp_separator s \<noteq> None) (nd_separators n))"

definition last_separator_index :: "node \<Rightarrow> nat option" where
  "last_separator_index n = (let i = number_separator n in if i = 0 then None else Some (i - 1))"

fun position_in :: "bytes \<Rightarrow> separator list \<Rightarrow> nat \<Rightarrow> bool \<times> nat" where
  "position_in key [] i = (False, i)"
| "position_in key (s # ss) i =
     (case sp_separator s of
        None \<Rightarrow> (False, i)
      | Some sep \<Rightarrow>
          if key < si_key sep then (False, i)
          else if key = si_key sep then (True, i)
          else position_in key ss (i + 1))"

definition position :: "node \<Rightarrow> bytes \<Rightarrow> bool \<times> nat" where
  "position n key = position_in key (nd_separators n) 0"

definition need_rebalance :: "node \<Rightarrow> bool res" where
  "need_rebalance n = rbind (has_separator n (ORDER div 2 - 1)) (\<lambda>b. Inr (\<not> b))"

text \<open>\<open>Node::split\<close>: the two loops that move the upper part to a new node.\<close>

fun split_separators :: "nat \<Rightarrow> nat list \<Rightarrow> (nat \<times> separator) option \<Rightarrow> nat \<Rightarrow> node \<Rightarrow> node \<Rightarrow>
    ((nat \<times> separator) option \<times> node \<times> node) res" where
  "split_separators at [] ins offset left right = Inr (ins, left, right)"
| "split_separators at (i # is) ins offset left right =
     rbind (remove_separator i left) (\<lambda>(sep, left).
     rbind (case ins of
              Some (j, s) \<Rightarrow>
                if j = i then rbind (put_separator (i - at) s right) (\<lambda>right. Inr (None, 1, right))
                else Inr (ins, offset, right)
            | None \<Rightarrow> Inr (ins, offset, right)) (\<lambda>(ins, offset, right).
     rbind (put_separator (i + offset - at) sep right) (\<lambda>right.
       split_separators at is ins offset left right)))"

fun split_children :: "nat \<Rightarrow> nat list \<Rightarrow> (nat \<times> child) option \<Rightarrow> nat \<Rightarrow> node \<Rightarrow> node \<Rightarrow>
    ((nat \<times> child) option \<times> node \<times> node) res" where
  "split_children at [] ins offset left right = Inr (ins, left, right)"
| "split_children at (i # is) ins offset left right =
     rbind (remove_child i left) (\<lambda>(c, left).
     rbind (case ins of
              Some (j, x) \<Rightarrow>
                if j + 1 = i then rbind (put_child (i - at) (x\<lparr>ch_moved := True\<rparr>) right) (\<lambda>right. Inr (None, 1, right))
                else Inr (ins, offset, right)
            | None \<Rightarrow> Inr (ins, offset, right)) (\<lambda>(ins, offset, right).
     rbind (put_child (i + offset - at) c right) (\<lambda>right.
       split_children at is ins offset left right)))"

definition node_split :: "nat \<Rightarrow> bool \<Rightarrow> (nat \<times> separator) option \<Rightarrow> (nat \<times> child) option \<Rightarrow> bool \<Rightarrow> node \<Rightarrow>
    ((node \<times> address option) \<times> node) res" where
  "node_split at skip_left_child insert_right insert_right_child has_child left =
     rbind (split_separators at [at..<ORDER] insert_right 0 left node_default) (\<lambda>(ins, left, right).
     rbind (case ins of Some (j, s) \<Rightarrow> put_separator (j - at) s right | None \<Rightarrow> Inr right) (\<lambda>right.
     rbind (if has_child then
              rbind (split_children at [at + (if skip_left_child then 1 else 0)..<ORDER_CHILD]
                       insert_right_child 0 left right) (\<lambda>(ins, left, right).
              rbind (case ins of
                       Some (j, c) \<Rightarrow> put_child (j + 1 - at) (c\<lparr>ch_moved := True\<rparr>) right
                     | None \<Rightarrow> Inr right) (\<lambda>right. Inr (left, right)))
            else Inr (left, right)) (\<lambda>(left, right).
       Inr ((right, None), left))))"

text \<open>\<open>Node::shift_from\<close>: makes room for a separator, and for a child beside it.\<close>

function shift_separators :: "nat \<Rightarrow> separator \<Rightarrow> separator list \<Rightarrow> separator list" where
  "shift_separators i current seps =
     (if sp_separator current = None \<or> length seps \<le> i + 1 then seps
      else shift_separators (i + 1) (seps ! (i + 1)) (seps[i + 1 := current\<lparr>sp_modified := True\<rparr>]))"
  by pat_completeness auto
termination
  by (relation "measure (\<lambda>(i, current, seps). length seps - i)") auto

function shift_children :: "nat \<Rightarrow> child \<Rightarrow> child list \<Rightarrow> child list" where
  "shift_children i current cs =
     (if ch_entry_index current = None \<or> length cs \<le> i + 1 then cs
      else shift_children (i + 1) (cs ! (i + 1)) (cs[i + 1 := current\<lparr>ch_moved := True\<rparr>]))"
  by pat_completeness auto
termination
  by (relation "measure (\<lambda>(i, current, cs). length cs - i)") auto

declare shift_separators.simps [simp del] shift_children.simps [simp del]

definition shift_from :: "nat \<Rightarrow> bool \<Rightarrow> bool \<Rightarrow> node \<Rightarrow> node res" where
  "shift_from from has_child with_left_child n =
     rbind (remove_separator from n) (\<lambda>(current, n).
     let n = n\<lparr>nd_separators := shift_separators from current (nd_separators n)\<rparr>
     in if has_child then
          let i = (if with_left_child then from else from + 1)
          in rbind (remove_child i n) (\<lambda>(current, n).
               Inr (n\<lparr>nd_children := shift_children i current (nd_children n)\<rparr>))
        else Inr n)"

text \<open>\<open>Node::remove_from\<close>: closes the gap of a removed separator, and of a child beside it.\<close>

function close_separators :: "nat \<Rightarrow> separator list \<Rightarrow> separator list" where
  "close_separators i seps =
     (if i + 1 < length seps then
        let seps' = seps[i := (seps ! (i + 1))\<lparr>sp_modified := True\<rparr>,
                         i + 1 := \<lparr>sp_modified = True, sp_separator = None\<rparr>]
        in if sp_separator (seps ! (i + 1)) = None then seps' else close_separators (i + 1) seps'
      else seps)"
  by pat_completeness auto
termination
  by (relation "measure (\<lambda>(i, seps). length seps - i)") (auto simp: Let_def)

function close_children :: "nat \<Rightarrow> child list \<Rightarrow> child list" where
  "close_children i cs =
     (if i + 1 < length cs then
        let cs' = cs[i := (cs ! (i + 1))\<lparr>ch_moved := True\<rparr>,
                     i + 1 := \<lparr>ch_moved = True, ch_entry_index = None\<rparr>]
        in if ch_entry_index (cs ! (i + 1)) = None then cs' else close_children (i + 1) cs'
      else cs)"
  by pat_completeness auto
termination
  by (relation "measure (\<lambda>(i, cs). length cs - i)") (auto simp: Let_def)

declare close_separators.simps [simp del] close_children.simps [simp del]

definition remove_from :: "nat \<Rightarrow> bool \<Rightarrow> bool \<Rightarrow> node \<Rightarrow> node" where
  "remove_from from has_child with_left_child n =
     (let n = n\<lparr>nd_changed := True, nd_separators := close_separators from (nd_separators n)\<rparr>
      in if has_child
         then n\<lparr>nd_children := close_children (if with_left_child then from else from + 1) (nd_children n)\<rparr>
         else n)"

end
