(* ===== verification/BTree.thy ===== *)
theory BTree
  imports BTree_Node
begin

text \<open>
  The ordered index (\<^verbatim>\<open>src/src/btree/\<close>): nodes stored as values of the column's tables, the
  changes of a tree planned into a record (\<open>Node::change\<close> and what it calls), the tree
  (\<open>BTree\<close>) and the column (\<open>BTreeTable\<close>, \<open>BTreeChangeSet\<close>).

  A tree operation threads the value tables and the record, \<open>bstate\<close>. The recursion over the
  levels of a tree goes by its depth; the loop over the changes inside one node may not end on
  damaged data and is a partial function.
\<close>

type_synonym bstate = "tables_ref \<times> log_writer"
type_synonym btree_change = "bytes \<times> bytes option"
type_synonym change_result = "(separator \<times> child) option \<times> bool"

definition with_tables :: "tables_ref \<Rightarrow> value_table list \<Rightarrow> tables_ref" where
  "with_tables tables ts = tables\<lparr>tr_tables := ts\<rparr>"

section \<open>Storing nodes and values\<close>

definition get_encoded_entry :: "codecs \<Rightarrow> address \<Rightarrow> tables_ref \<Rightarrow> log_query \<Rightarrow> bytes comp" where
  "get_encoded_entry cd at tables q =
     cbind (get_value cd (Check NoHash) at tables q) (\<lambda>r.
       case r of
         Some (_, val) \<Rightarrow> cret val
       | None \<Rightarrow> Some (Inl (Err (Corruption ''Missing btree entry''))))"

definition fetch_child :: "codecs \<Rightarrow> node \<Rightarrow> nat \<Rightarrow> tables_ref \<Rightarrow> log_query \<Rightarrow> node option comp" where
  "fetch_child cd n i tables q =
     cbind (Some (child_at n i)) (\<lambda>c.
       case ch_entry_index c of
         Some ix \<Rightarrow> cbind (get_encoded_entry cd ix tables q) (\<lambda>enc.
           cbind (Some (from_encoded enc)) (\<lambda>child. cret (Some child)))
       | None \<Rightarrow> cret None)"

definition existing_plan :: "codecs \<Rightarrow> address \<Rightarrow> bytes option \<Rightarrow> bstate \<Rightarrow> (address option \<times> bstate) comp" where
  "existing_plan cd address val = (\<lambda>(tables, w).
     cbind (write_existing_value_plan cd NoHash tables address val w None) (\<lambda>((_, r), ts, w, _).
       cret (r, with_tables tables ts, w)))"

definition new_plan :: "codecs \<Rightarrow> bytes \<Rightarrow> bstate \<Rightarrow> (address \<times> bstate) comp" where
  "new_plan cd val = (\<lambda>(tables, w).
     cbind (write_new_value_plan cd NoHash tables val w None) (\<lambda>(a, ts, w, _).
       cret (a, with_tables tables ts, w)))"

definition node_dirty :: "node \<Rightarrow> bool" where
  "node_dirty n = (nd_changed n \<or> (\<exists>c\<in>set (nd_children n). ch_moved c) \<or> (\<exists>s\<in>set (nd_separators n). sp_modified s))"

definition uncompressed :: "(bstate \<Rightarrow> ('a \<times> bstate) comp) \<Rightarrow> bstate \<Rightarrow> ('a \<times> bstate) comp" where
  "uncompressed f = (\<lambda>(tables, w).
     cbind (f (tables\<lparr>tr_compression := NO_COMPRESSION\<rparr>, w)) (\<lambda>(r, tables', w).
       cret (r, tables'\<lparr>tr_compression := tr_compression tables\<rparr>, w)))"

definition write_node_plan :: "codecs \<Rightarrow> node \<Rightarrow> address option \<Rightarrow> bstate \<Rightarrow> (address option \<times> bstate) comp" where
  "write_node_plan cd n node_id s =
     (if \<not> node_dirty n then cret (None, s)
      else cbind (Some (encode_node n)) (\<lambda>enc.
        uncompressed (\<lambda>s.
          case node_id of
            Some existing \<Rightarrow> existing_plan cd existing (Some enc) s
          | None \<Rightarrow> cbind (new_plan cd enc s) (\<lambda>(a, s). cret (Some a, s))) s))"

definition write_plan_remove_node :: "codecs \<Rightarrow> address \<Rightarrow> bstate \<Rightarrow> bstate comp" where
  "write_plan_remove_node cd node_index s = cbind (existing_plan cd node_index None s) (\<lambda>(_, s). cret s)"

definition write_child :: "codecs \<Rightarrow> nat \<Rightarrow> node \<Rightarrow> node \<Rightarrow> bstate \<Rightarrow> (node \<times> bstate) comp" where
  "write_child cd i child n s =
     (if nd_changed child then
        cbind (Some (child_at n i)) (\<lambda>c.
        cbind (write_node_plan cd child (ch_entry_index c) s) (\<lambda>(new_index, s).
          case new_index of
            Some _ \<Rightarrow> cbind (Some (put_child i (c\<lparr>ch_entry_index := new_index\<rparr>) (n\<lparr>nd_changed := True\<rparr>))) (\<lambda>n. cret (n, s))
          | None \<Rightarrow> cret (n, s)))
      else cret (n, s))"

definition write_split_child :: "codecs \<Rightarrow> address option \<Rightarrow> node \<Rightarrow> bstate \<Rightarrow> (child \<times> bstate) comp" where
  "write_split_child cd right_ix right s =
     cbind (write_node_plan cd right right_ix s) (\<lambda>(new_index, s).
       cret (new_child (if new_index \<noteq> None then new_index else right_ix), s))"

definition create_separator :: "codecs \<Rightarrow> bytes \<Rightarrow> bytes \<Rightarrow> address option \<Rightarrow> bstate \<Rightarrow> (separator \<times> bstate) comp" where
  "create_separator cd key val existing s =
     cbind (case existing of
              Some address \<Rightarrow> cbind (existing_plan cd address (Some val) s) (\<lambda>(r, s).
                cret (case r of Some a \<Rightarrow> a | None \<Rightarrow> address, s))
            | None \<Rightarrow> new_plan cd val s) (\<lambda>(a, s).
       cret (\<lparr>sp_modified = True, sp_separator = Some \<lparr>si_key = key, si_value = a\<rparr>\<rparr>, s))"

section \<open>Splitting a full node\<close>

text \<open>Putting a separator, and the child right of it, into a node with room.\<close>

definition insert_at :: "nat \<Rightarrow> separator \<Rightarrow> child option \<Rightarrow> node \<Rightarrow> node res" where
  "insert_at i sep right n =
     rbind (shift_from i (right \<noteq> None) False n) (\<lambda>n.
     rbind (set_separator i sep n) (\<lambda>n.
       case right of Some c \<Rightarrow> set_child (i + 1) c n | None \<Rightarrow> Inr n))"

text \<open>
  The three cases of an insertion into a full node (\<open>insert\<close> without a child, \<open>insert_node\<close> with
  the child right of the separator): the separator that goes to the parent, the new right node
  and the node itself.
\<close>

definition split_insert :: "nat \<Rightarrow> separator \<Rightarrow> child option \<Rightarrow> node \<Rightarrow>
    (separator \<times> node \<times> address option \<times> node) res" where
  "split_insert at sep child n =
     (let middle = ORDER div 2; has_child = (child \<noteq> None)
      in if at = middle then
           rbind (node_split middle True None None has_child n) (\<lambda>((right, right_ix), n).
           rbind (case child of Some c \<Rightarrow> set_child 0 c right | None \<Rightarrow> Inr right) (\<lambda>right.
             Inr (sep, right, right_ix, n)))
         else if at < middle then
           rbind (node_split middle False None None has_child n) (\<lambda>((right, right_ix), n).
           rbind (remove_separator (middle - 1) n) (\<lambda>(up, n).
           rbind (insert_at at sep child n) (\<lambda>n.
             Inr (up, right, right_ix, n))))
         else
           rbind (node_split (middle + 1) False (Some (at, sep)) (map_option (Pair at) child) has_child n)
             (\<lambda>((right, right_ix), n).
           rbind (remove_separator middle n) (\<lambda>(up, n). Inr (up, right, right_ix, n))))"

definition insert_full :: "codecs \<Rightarrow> nat \<Rightarrow> separator \<Rightarrow> child option \<Rightarrow> node \<Rightarrow> bstate \<Rightarrow>
    ((separator \<times> child) \<times> node \<times> bstate) comp" where
  "insert_full cd i sep child n s =
     cbind (Some (split_insert i sep child n)) (\<lambda>(up, right, right_ix, n).
     cbind (write_split_child cd right_ix right s) (\<lambda>(right, s). cret ((up, right), n, s)))"

definition insert_node :: "codecs \<Rightarrow> nat \<Rightarrow> separator \<Rightarrow> child \<Rightarrow> node \<Rightarrow> bstate \<Rightarrow>
    ((separator \<times> child) option \<times> node \<times> bstate) comp" where
  "insert_node cd at sep right_child n s =
     cbind (Some (has_separator n (ORDER - 1))) (\<lambda>full.
       if full then
         cbind (insert_full cd at sep (Some right_child) n s) (\<lambda>(r, n, s). cret (Some r, n, s))
       else
         cbind (Some (insert_at at sep (Some right_child) n)) (\<lambda>n. cret (None, n, s)))"

section \<open>Rebalancing\<close>

definition unwrap_node :: "node option \<Rightarrow> node comp" where
  "unwrap_node x = Some (unwrap x)"

text \<open>A separator moves from the left sibling through the parent.\<close>

definition balance_from_left :: "codecs \<Rightarrow> bool \<Rightarrow> nat \<Rightarrow> node \<Rightarrow> node \<Rightarrow> bstate \<Rightarrow> (node \<times> bstate) comp" where
  "balance_from_left cd has_child at left n s =
     cbind (Some (unwrap (last_separator_index left))) (\<lambda>last_sibling.
     cbind (Some (if has_child then rbind (remove_child (last_sibling + 1) left) (\<lambda>(c, left). Inr (Some c, left))
                  else Inr (None, left))) (\<lambda>(child, left).
     cbind (Some (remove_separator last_sibling left)) (\<lambda>(separator2, left).
     cbind (Some (remove_separator (at - 1) n)) (\<lambda>(separator, n).
     cbind (Some (set_separator (at - 1) separator2 n)) (\<lambda>n.
     cbind (cbind (fetch_child cd n at (fst s) (writer_query (snd s))) unwrap_node) (\<lambda>right.
     cbind (Some (shift_from 0 has_child True right)) (\<lambda>right.
     cbind (Some (case child of Some c \<Rightarrow> set_child 0 c right | None \<Rightarrow> Inr right)) (\<lambda>right.
     cbind (Some (set_separator 0 separator right)) (\<lambda>right.
     cbind (write_child cd (at - 1) left n s) (\<lambda>(n, s).
       write_child cd at right n s))))))))))"

text \<open>A separator moves from the right sibling through the parent.\<close>

definition balance_from_right :: "codecs \<Rightarrow> bool \<Rightarrow> nat \<Rightarrow> node \<Rightarrow> node \<Rightarrow> bstate \<Rightarrow> (node \<times> bstate) comp" where
  "balance_from_right cd has_child at right n s =
     cbind (Some (if has_child then rbind (remove_child 0 right) (\<lambda>(c, right). Inr (Some c, right))
                  else Inr (None, right))) (\<lambda>(child, right).
     cbind (Some (remove_separator 0 right)) (\<lambda>(separator2, right).
     let right = remove_from 0 has_child True right
     in cbind (Some (remove_separator at n)) (\<lambda>(separator, n).
        cbind (Some (set_separator at separator2 n)) (\<lambda>n.
        cbind (cbind (fetch_child cd n at (fst s) (writer_query (snd s))) unwrap_node) (\<lambda>left.
        let last_left = number_separator left
        in cbind (Some (set_separator last_left separator left)) (\<lambda>left.
           cbind (Some (case child of Some c \<Rightarrow> set_child (last_left + 1) c left | None \<Rightarrow> Inr left)) (\<lambda>left.
           cbind (write_child cd at left n s) (\<lambda>(n, s).
             write_child cd (at + 1) right n s))))))))"

text \<open>The loop that moves the separators and children of the right node behind those of the left.\<close>

fun merge_nodes :: "bool \<Rightarrow> nat list \<Rightarrow> nat \<Rightarrow> node \<Rightarrow> node \<Rightarrow> (nat \<times> node \<times> node) res" where
  "merge_nodes has_child [] i left right = Inr (i, left, right)"
| "merge_nodes has_child (right_i # is) i left right =
     rbind (if has_child then rbind (remove_child right_i right) (\<lambda>(c, right). Inr (Some c, right))
            else Inr (None, right)) (\<lambda>(child, right).
     rbind (remove_separator right_i right) (\<lambda>(sep, right).
     rbind (set_separator i sep left) (\<lambda>left.
     rbind (case child of Some c \<Rightarrow> set_child i c left | None \<Rightarrow> Inr left) (\<lambda>left.
       merge_nodes has_child is (i + 1) left right))))"

definition merge_right :: "bool \<Rightarrow> separator \<Rightarrow> node \<Rightarrow> node \<Rightarrow> (node \<times> node) res" where
  "merge_right has_child separator left right =
     (let i = number_separator left
      in rbind (set_separator i separator left) (\<lambda>left.
         let right_len = number_separator right
         in rbind (merge_nodes has_child [0..<right_len] (i + 1) left right) (\<lambda>(i, left, right).
            if has_child then
              rbind (remove_child right_len right) (\<lambda>(c, right).
              rbind (set_child i c left) (\<lambda>left. Inr (left, right)))
            else Inr (left, right))))"

text \<open>Merging the children \<open>at\<close> and \<open>at + 1\<close>.\<close>

definition balance_merge :: "codecs \<Rightarrow> bool \<Rightarrow> nat \<Rightarrow> node option \<Rightarrow> node option \<Rightarrow> node \<Rightarrow> bstate \<Rightarrow> (node \<times> bstate) comp" where
  "balance_merge cd has_child at left right n s =
     cbind (unwrap_node left) (\<lambda>left.
     cbind (Some (remove_separator at n)) (\<lambda>(separator, n).
     cbind (unwrap_node right) (\<lambda>right.
     cbind (Some (merge_right has_child separator left right)) (\<lambda>(left, right).
     cbind (Some (remove_child (at + 1) n)) (\<lambda>(removed, n).
     cbind (case ch_entry_index removed of
              Some index \<Rightarrow> write_plan_remove_node cd index s
            | None \<Rightarrow> cret s) (\<lambda>s.
     cbind (write_child cd at left n s) (\<lambda>(n, s).
     cbind (write_child cd (at + 1) right n s) (\<lambda>(n, s).
       cret (remove_from at True False n, s)))))))))"

definition sibling_has_spare :: "node option \<Rightarrow> bool res" where
  "sibling_has_spare x = (case x of Some n \<Rightarrow> has_separator n (ORDER div 2) | None \<Rightarrow> Inr False)"

definition rebalance :: "codecs \<Rightarrow> nat \<Rightarrow> nat \<Rightarrow> node \<Rightarrow> bstate \<Rightarrow> (node \<times> bstate) comp" where
  "rebalance cd depth at n s =
     (let has_child = (depth - 1 \<noteq> 0); fetch = (\<lambda>i. fetch_child cd n i (fst s) (writer_query (snd s)))
      in cbind (if 0 < at then fetch (at - 1) else cret None) (\<lambda>left.
         cbind (Some (sibling_has_spare left)) (\<lambda>from_left.
         if from_left then cbind (unwrap_node left) (\<lambda>left. balance_from_left cd has_child at left n s)
         else
           let number_child = number_separator n + 1
           in cbind (if at + 1 < number_child then fetch (at + 1) else cret None) (\<lambda>right.
              cbind (Some (sibling_has_spare right)) (\<lambda>from_right.
              if from_right then cbind (unwrap_node right) (\<lambda>right. balance_from_right cd has_child at right n s)
              else if at + 1 = number_child then
                cbind (fetch at) (\<lambda>right.
                  if at = 0 then Some (Inl Panic)
                  else balance_merge cd has_child (at - 1) left right n s)
              else
                cbind (fetch at) (\<lambda>left.
                cbind (if right = None then fetch (at + 1) else cret right) (\<lambda>right.
                  balance_merge cd has_child at left right n s)))))))"

section \<open>Changing a tree\<close>

definition rebalanced :: "codecs \<Rightarrow> nat \<Rightarrow> nat \<Rightarrow> node \<Rightarrow> bstate \<Rightarrow> (bool \<times> node \<times> bstate) comp" where
  "rebalanced cd depth i n s =
     cbind (rebalance cd depth i n s) (\<lambda>(n, s).
     cbind (Some (need_rebalance n)) (\<lambda>b. cret (b, n, s)))"

fun remove_last :: "codecs \<Rightarrow> nat \<Rightarrow> node \<Rightarrow> bstate \<Rightarrow> ((bool \<times> separator option) \<times> node \<times> bstate) comp" where
  "remove_last cd depth n s =
     (case last_separator_index n of
        None \<Rightarrow> cret ((False, None), n, s)
      | Some i \<Rightarrow>
          (case depth of
             0 \<Rightarrow>
               cbind (Some (remove_separator i n)) (\<lambda>(sep, n).
               cbind (Some (need_rebalance n)) (\<lambda>b. cret ((b, Some sep), n, s)))
           | Suc d \<Rightarrow>
               cbind (fetch_child cd n (i + 1) (fst s) (writer_query (snd s))) (\<lambda>c.
                 case c of
                   Some child \<Rightarrow>
                     cbind (remove_last cd d child s) (\<lambda>((b, sep), child, s).
                     cbind (write_child cd (i + 1) child n s) (\<lambda>(n, s).
                       if b then cbind (rebalanced cd (Suc d) (i + 1) n s) (\<lambda>(b, n, s). cret ((b, sep), n, s))
                       else cret ((b, sep), n, s)))
                 | None \<Rightarrow> cret ((False, None), n, s))))"

text \<open>What a node does with the result of changing its child \<open>i\<close>.\<close>

definition after_child :: "codecs \<Rightarrow> nat \<Rightarrow> nat \<Rightarrow> change_result \<Rightarrow> node \<Rightarrow> bstate \<Rightarrow> (change_result \<times> node \<times> bstate) comp" where
  "after_child cd depth i r n s =
     (case r of
        (Some (sep, right), _) \<Rightarrow>
          cbind (insert_node cd i sep right n s) (\<lambda>(r, n, s). cret ((r, False), n, s))
      | (None, True) \<Rightarrow> cbind (rebalanced cd depth i n s) (\<lambda>(b, n, s). cret ((None, b), n, s))
      | (None, False) \<Rightarrow> cret ((None, False), n, s))"

type_synonym change_fun = "(node \<times> nat) option \<Rightarrow> node \<Rightarrow> btree_change list \<Rightarrow> bstate \<Rightarrow>
  (change_result \<times> node \<times> btree_change list \<times> bstate) comp"

text \<open>The change of the child at position \<open>i\<close>, by the operation \<open>chg\<close> of the level below.\<close>

definition change_child :: "codecs \<Rightarrow> change_fun \<Rightarrow> nat \<Rightarrow> nat \<Rightarrow> node \<Rightarrow> btree_change list \<Rightarrow> bstate \<Rightarrow>
    (change_result \<times> node \<times> btree_change list \<times> bstate) comp" where
  "change_child cd chg depth i n changes s =
     cbind (fetch_child cd n i (fst s) (writer_query (snd s))) (\<lambda>c.
       case c of
         Some child \<Rightarrow>
           cbind (chg (Some (n, i)) child changes s) (\<lambda>(r, child, changes, s).
           cbind (write_child cd i child n s) (\<lambda>(n, s).
           cbind (after_child cd depth i r n s) (\<lambda>(r, n, s). cret (r, n, changes, s))))
       | None \<Rightarrow> cret ((None, False), n, changes, s))"

definition node_insert :: "codecs \<Rightarrow> change_fun \<Rightarrow> nat \<Rightarrow> bytes \<Rightarrow> bytes \<Rightarrow> node \<Rightarrow> btree_change list \<Rightarrow> bstate \<Rightarrow>
    (change_result \<times> node \<times> btree_change list \<times> bstate) comp" where
  "node_insert cd chg depth key val n changes s =
     (let (at, i) = position n key
      in if at then
           cbind (Some (separator_address n i)) (\<lambda>existing.
           cbind (create_separator cd key val existing s) (\<lambda>(sep, s).
           cbind (Some (set_separator i sep n)) (\<lambda>n. cret ((None, False), n, changes, s))))
         else if depth \<noteq> 0 then change_child cd chg depth i n changes s
         else
           cbind (Some (has_separator n (ORDER - 1))) (\<lambda>full.
           if full then
             cbind (create_separator cd key val None s) (\<lambda>(sep, s).
             cbind (insert_full cd i sep None n s) (\<lambda>(r, n, s). cret ((Some r, False), n, changes, s)))
           else
             cbind (Some (shift_from i False False n)) (\<lambda>n.
             cbind (create_separator cd key val None s) (\<lambda>(sep, s).
             cbind (Some (set_separator i sep n)) (\<lambda>n. cret ((None, False), n, changes, s))))))"

definition node_remove :: "codecs \<Rightarrow> change_fun \<Rightarrow> nat \<Rightarrow> bytes \<Rightarrow> node \<Rightarrow> btree_change list \<Rightarrow> bstate \<Rightarrow>
    (change_result \<times> node \<times> btree_change list \<times> bstate) comp" where
  "node_remove cd chg depth key n changes s =
     (let (at, i) = position n key
      in if at then
           cbind (Some (separator_address n i)) (\<lambda>existing.
           cbind (case existing of
                    Some address \<Rightarrow> cbind (existing_plan cd address None s) (\<lambda>(_, s). cret s)
                  | None \<Rightarrow> cret s) (\<lambda>s.
           cbind (Some (remove_separator i n)) (\<lambda>(_, n).
           cbind (if depth \<noteq> 0 then
                    cbind (fetch_child cd n i (fst s) (writer_query (snd s))) (\<lambda>c.
                      case c of
                        Some child \<Rightarrow>
                          cbind (remove_last cd (depth - 1) child s) (\<lambda>((need_balance, sep), child, s).
                          cbind (write_child cd i child n s) (\<lambda>(n, s).
                          cbind (Some (case sep of Some sep \<Rightarrow> set_separator i sep n | None \<Rightarrow> Inr n)) (\<lambda>n.
                            if need_balance then rebalance cd depth i n s else cret (n, s))))
                      | None \<Rightarrow> cret (n, s))
                  else cret (remove_from i False True n, s)) (\<lambda>(n, s).
           cbind (Some (need_rebalance n)) (\<lambda>b. cret ((None, b), n, changes, s))))))
         else if depth \<noteq> 0 then change_child cd chg depth i n changes s
         else cret ((None, False), n, changes, s))"

definition node_apply :: "codecs \<Rightarrow> change_fun \<Rightarrow> nat \<Rightarrow> node \<Rightarrow> btree_change list \<Rightarrow> bstate \<Rightarrow>
    (change_result \<times> node \<times> btree_change list \<times> bstate) comp" where
  "node_apply cd chg depth n changes s =
     (case changes of
        [] \<Rightarrow> Some (Inl Panic)
      | (key, Some val) # _ \<Rightarrow> node_insert cd chg depth key val n changes s
      | (key, None) # _ \<Rightarrow> node_remove cd chg depth key n changes s)"

text \<open>Whether the next change falls into the same node, as far as the node and its parent know.\<close>

definition same_node :: "(node \<times> nat) option \<Rightarrow> node \<Rightarrow> bytes \<Rightarrow> bool" where
  "same_node parent n key =
     (case parent of
        None \<Rightarrow> False
      | Some (p, pi) \<Rightarrow>
          let (at, i) = position n key
          in at \<or> i < number_separator n \<or>
             (let (at, i) = position p key in \<not> at \<and> i = pi \<and> i < number_separator p))"

definition duplicate_change :: "btree_change list \<Rightarrow> bool" where
  "duplicate_change changes = (case changes of a # b # _ \<Rightarrow> fst a = fst b | _ \<Rightarrow> False)"

partial_function (option) change_loop ::
    "(node \<Rightarrow> btree_change list \<Rightarrow> bstate \<Rightarrow> (change_result \<times> node \<times> btree_change list \<times> bstate) comp) \<Rightarrow>
     (node \<times> nat) option \<Rightarrow> node \<Rightarrow> btree_change list \<Rightarrow> bstate \<Rightarrow>
     (change_result \<times> node \<times> btree_change list \<times> bstate) comp" where
  "change_loop app parent n changes s =
     (if duplicate_change changes then change_loop app parent n (tl changes) s
      else cbind (app n changes s) (\<lambda>(r, n, changes, s).
        if fst r \<noteq> None \<or> snd r then Some (Inr (r, n, changes, s))
        else if length changes = 1 then Some (Inr ((None, False), n, changes, s))
        else if parent \<noteq> None \<and> changes = [] then Some (Inl Panic)
        else if parent \<noteq> None \<and> same_node parent n (fst (changes ! 1))
        then change_loop app parent n (tl changes) s
        else Some (Inr ((None, False), n, changes, s))))"

text \<open>\<open>Node::change\<close> at a given depth.\<close>

primrec node_change :: "codecs \<Rightarrow> nat \<Rightarrow> change_fun" where
  "node_change cd 0 = change_loop (node_apply cd (\<lambda>_ _ _ _. Some (Inl Panic)) 0)"
| "node_change cd (Suc d) = change_loop (node_apply cd (node_change cd d) (Suc d))"

declare remove_last.simps [simp del]

text \<open>\<open>Node::get\<close> follows the children without a bound on the depth.\<close>

partial_function (option) node_get :: "codecs \<Rightarrow> bytes \<Rightarrow> tables_ref \<Rightarrow> log_query \<Rightarrow> node \<Rightarrow> address option comp" where
  "node_get cd key tables q n =
     (if fst (position n key) then Some (separator_address n (snd (position n key)))
      else cbind (fetch_child cd n (snd (position n key)) tables q) (\<lambda>c.
        if c = None then Some (Inr None) else node_get cd key tables q (the c)))"

text \<open>\<open>Node::seek\<close> pushes the path to a key; the top of the stack is the head of the list.\<close>

fun node_seek :: "codecs \<Rightarrow> bytes \<Rightarrow> tables_ref \<Rightarrow> log_query \<Rightarrow> nat \<Rightarrow> node \<Rightarrow> (nat \<times> node) list \<Rightarrow>
    (bool \<times> (nat \<times> node) list) comp" where
  "node_seek cd key tables q depth n stack =
     (let (at, i) = position n key
      in if at then cret (True, (i, n) # stack)
         else case depth of
                0 \<Rightarrow> cret (False, (i, n) # stack)
              | Suc d \<Rightarrow>
                  cbind (fetch_child cd n i tables q) (\<lambda>c.
                    case c of
                      Some child \<Rightarrow> node_seek cd key tables q d child ((i, n) # stack)
                    | None \<Rightarrow> cret (False, (i, n) # stack)))"

declare node_seek.simps [simp del]

definition need_remove_root :: "codecs \<Rightarrow> node \<Rightarrow> bstate \<Rightarrow> ((address option \<times> node) option \<times> node) comp" where
  "need_remove_root cd n s =
     (if number_separator n = 0 then
        cbind (fetch_child cd n 0 (fst s) (writer_query (snd s))) (\<lambda>c.
          case c of
            Some child \<Rightarrow> cbind (Some (remove_child 0 n)) (\<lambda>(c, n). cret (Some (ch_entry_index c, child), n))
          | None \<Rightarrow> cret (None, n))
      else cret (None, n))"

section \<open>Trees\<close>

record btree =
  bt_depth :: u32
  bt_root_index :: "address option"
  bt_record_id :: u64

definition root_or_null :: "btree \<Rightarrow> address" where
  "root_or_null t = (case bt_root_index t of Some a \<Rightarrow> a | None \<Rightarrow> NULL_ADDRESS)"

definition fetch_root :: "codecs \<Rightarrow> address \<Rightarrow> tables_ref \<Rightarrow> log_query \<Rightarrow> node comp" where
  "fetch_root cd root tables q =
     (if root = NULL_ADDRESS then cret node_default
      else cbind (get_encoded_entry cd root tables q) (\<lambda>enc. Some (from_encoded enc)))"

definition fetch_btree_header :: "codecs \<Rightarrow> tables_ref \<Rightarrow> log_query \<Rightarrow> btree_header comp" where
  "fetch_btree_header cd tables q =
     cbind (get_value cd (Fetch None) HEADER_ADDRESS tables q) (\<lambda>r.
       case r of
         Some (_, enc) \<Rightarrow>
           Some (rbind (read_u64 (ebuf_new enc)) (\<lambda>(root, e).
                 rbind (read_u32 e) (\<lambda>(depth, _).
                   Inr \<lparr>bh_root = address_from_u64 root, bh_depth = depth\<rparr>)))
       | None \<Rightarrow> cret \<lparr>bh_root = NULL_ADDRESS, bh_depth = 0\<rparr>)"

definition btree_open :: "codecs \<Rightarrow> tables_ref \<Rightarrow> log_query \<Rightarrow> u64 \<Rightarrow> btree comp" where
  "btree_open cd tables q record_id =
     cbind (fetch_btree_header cd tables q) (\<lambda>h.
       cret \<lparr>bt_depth = bh_depth h,
              bt_root_index = (if bh_root h = NULL_ADDRESS then None else Some (bh_root h)),
              bt_record_id = record_id\<rparr>)"

definition btree_get :: "codecs \<Rightarrow> bytes \<Rightarrow> tables_ref \<Rightarrow> log_query \<Rightarrow> btree \<Rightarrow> bytes option comp" where
  "btree_get cd key tables q t =
     cbind (fetch_root cd (root_or_null t) tables q) (\<lambda>root.
     cbind (node_get cd key tables q root) (\<lambda>a.
       case a of
         Some address \<Rightarrow> cbind (get_value cd (Fetch None) address tables q) (\<lambda>r. cret (map_option snd r))
       | None \<Rightarrow> cret None))"

text \<open>What \<open>write_sorted_changes\<close> does with the result of changing the root.\<close>

definition grow_root :: "codecs \<Rightarrow> separator \<Rightarrow> child \<Rightarrow> node \<Rightarrow> btree \<Rightarrow> bstate \<Rightarrow> (node \<times> btree \<times> bstate) comp" where
  "grow_root cd sep right root t s =
     cbind (write_node_plan cd root (bt_root_index t) s) (\<lambda>(new_index, s).
     cbind (Some (set_child 0 (new_child (if new_index \<noteq> None then new_index else bt_root_index t)) node_default)) (\<lambda>n.
     cbind (Some (set_child 1 right n)) (\<lambda>n.
     cbind (Some (set_separator 0 sep n)) (\<lambda>n.
       cret (n, t\<lparr>bt_depth := bt_depth t + 1, bt_root_index := None\<rparr>, s)))))"

definition shrink_root :: "codecs \<Rightarrow> node \<Rightarrow> btree \<Rightarrow> bstate \<Rightarrow> (node \<times> btree \<times> bstate) comp" where
  "shrink_root cd root t s =
     cbind (need_remove_root cd root s) (\<lambda>(r, root).
       case r of
         None \<Rightarrow> cret (root, t, s)
       | Some (node_index, n) \<Rightarrow>
           cbind (case bt_root_index t of
                    Some index \<Rightarrow> write_plan_remove_node cd index s
                  | None \<Rightarrow> cret s) (\<lambda>s.
             cret (n, t\<lparr>bt_depth := bt_depth t - 1, bt_root_index := node_index\<rparr>, s)))"

partial_function (option) sorted_changes_loop :: "codecs \<Rightarrow> node \<Rightarrow> btree \<Rightarrow> btree_change list \<Rightarrow> bstate \<Rightarrow>
    (node \<times> btree \<times> bstate) comp" where
  "sorted_changes_loop cd root t changes s =
     (if changes = [] then Some (Inr (root, t, s))
      else cbind (node_change cd (unat (bt_depth t)) None root changes s) (\<lambda>(r, root, changes, s).
        cbind (case r of
                 (Some (sep, right), _) \<Rightarrow> grow_root cd sep right root t s
               | (None, True) \<Rightarrow> shrink_root cd root t s
               | (None, False) \<Rightarrow> cret (root, t, s)) (\<lambda>(root, t, s).
          sorted_changes_loop cd root t (tl changes) s)))"

definition write_sorted_changes :: "codecs \<Rightarrow> btree_change list \<Rightarrow> btree \<Rightarrow> bstate \<Rightarrow> (btree \<times> bstate) comp" where
  "write_sorted_changes cd changes t s =
     cbind (fetch_root cd (root_or_null t) (fst s) (writer_query (snd s))) (\<lambda>root.
     cbind (sorted_changes_loop cd root t changes s) (\<lambda>(root, t, s).
       if nd_changed root then
         cbind (write_node_plan cd root (bt_root_index t) s) (\<lambda>(new_index, s).
           cret (if new_index \<noteq> None then t\<lparr>bt_root_index := new_index\<rparr> else t, s))
       else cret (t, s)))"

section \<open>Ordered columns\<close>

record btree_table =
  bc_id :: u8
  bc_tables :: "value_table list"
  bc_ref_counted :: bool
  bc_compression :: compress

definition btree_locked :: "btree_table \<Rightarrow> tables_ref" where
  "btree_locked b = \<lparr>tr_tables = bc_tables b, tr_compression = bc_compression b, tr_col = bc_id b,
     tr_preimage = False, tr_ref_counted = bc_ref_counted b\<rparr>"

definition btree_table_open :: "u8 \<Rightarrow> value_table list \<Rightarrow> metadata \<Rightarrow> btree_table comp" where
  "btree_table_open id' values metadata =
     (let tier = unat (address_size_tier HEADER_ADDRESS)
      in cbind (Some (nth_table values tier)) (\<lambda>t.
         cbind (if \<not> table_is_init t then
                  cbind (Some (write_header \<lparr>bh_root = NULL_ADDRESS, bh_depth = 0\<rparr>)) (\<lambda>e.
                  cbind (init_with_entry t (edata e)) (\<lambda>t. cret (values[tier := t])))
                else cret values) (\<lambda>values.
           if unat id' < length (md_columns metadata) then
             let co = md_columns metadata ! unat id'
             in cret \<lparr>bc_id = id', bc_tables = values, bc_ref_counted = co_ref_counted co,
                      bc_compression = compress_new (co_compression co) (co_compression_threshold co)\<rparr>
           else Some (Inl Panic))))"

definition btree_table_get :: "codecs \<Rightarrow> bytes \<Rightarrow> log_query \<Rightarrow> tables_ref \<Rightarrow> bytes option comp" where
  "btree_table_get cd key q tables =
     cbind (fetch_btree_header cd tables q) (\<lambda>h.
       if bh_root h = NULL_ADDRESS then cret None
       else btree_get cd key tables q
              \<lparr>bt_depth = bh_depth h, bt_root_index = Some (bh_root h), bt_record_id = 0\<rparr>)"

definition btree_flush :: "btree_table \<Rightarrow> btree_table" where
  "btree_flush b = b\<lparr>bc_tables := map table_flush (bc_tables b)\<rparr>"

definition btree_enact_plan :: "btree_table \<Rightarrow> log_action \<Rightarrow> log_reader \<Rightarrow> (btree_table \<times> log_reader) comp" where
  "btree_enact_plan b action r =
     (case action of
        InsertValue table index \<Rightarrow>
          let tier = unat (value_id_size_tier table)
          in cbind (Some (nth_table (bc_tables b) tier)) (\<lambda>t.
             cbind (table_enact_plan t index r) (\<lambda>(t, r).
               cret (b\<lparr>bc_tables := (bc_tables b)[tier := t]\<rparr>, r)))
      | _ \<Rightarrow> Some (Inl Panic))"

definition btree_validate_plan :: "btree_table \<Rightarrow> log_action \<Rightarrow> log_reader \<Rightarrow> log_reader res" where
  "btree_validate_plan b action r =
     (case action of
        InsertValue table index \<Rightarrow>
          rbind (nth_table (bc_tables b) (unat (value_id_size_tier table))) (\<lambda>t. table_validate_plan t index r)
      | _ \<Rightarrow> Inl (Err (Corruption ''Unexpected log action'')))"

definition btree_complete_plan :: "btree_table \<Rightarrow> log_writer \<Rightarrow> btree_table \<times> log_writer" where
  "btree_complete_plan b w = (let (ts, w) = complete_tables (bc_tables b) w in (b\<lparr>bc_tables := ts\<rparr>, w))"

definition btree_refresh_metadata :: "btree_table \<Rightarrow> btree_table res" where
  "btree_refresh_metadata b = rbind (refresh_tables (bc_tables b)) (\<lambda>ts. Inr (b\<lparr>bc_tables := ts\<rparr>))"

text \<open>\<open>BTreeTable::write_plan\<close>: the root once more, and the header it belongs to.\<close>

definition btree_table_write_plan :: "codecs \<Rightarrow> u64 \<Rightarrow> btree \<Rightarrow> bstate \<Rightarrow> (btree_header \<times> btree \<times> bstate) comp" where
  "btree_table_write_plan cd record_id t s =
     cbind (fetch_root cd (root_or_null t) (fst s) (writer_query (snd s))) (\<lambda>root.
     cbind (write_node_plan cd root (bt_root_index t) s) (\<lambda>(ix, s).
       let t = (if ix \<noteq> None then t\<lparr>bt_root_index := ix\<rparr> else t)\<lparr>bt_record_id := record_id\<rparr>
       in cret (\<lparr>bh_root = root_or_null t, bh_depth = bt_depth t\<rparr>, t, s)))"

text \<open>\<open>BTreeChangeSet::write_plan\<close>; the number of changes is added to the operations of the record.\<close>

definition btree_write_plan :: "codecs \<Rightarrow> btree_change list \<Rightarrow> btree_table \<Rightarrow> log_writer \<Rightarrow> (btree_table \<times> log_writer) comp" where
  "btree_write_plan cd changes b w =
     (let record_id = lc_record_id (lw_log w)
      in cbind (btree_open cd (btree_locked b) (writer_query w) record_id) (\<lambda>t.
         let old_header = \<lparr>bh_root = root_or_null t, bh_depth = bt_depth t\<rparr>
         in cbind (write_sorted_changes cd (sort_key fst changes) t (btree_locked b, w)) (\<lambda>(t, s).
            cbind (btree_table_write_plan cd record_id t s) (\<lambda>(header, t, s).
            cbind (if old_header \<noteq> header then
                     cbind (Some (write_header header)) (\<lambda>e.
                     cbind (existing_plan cd HEADER_ADDRESS (Some (take BTREE_HEADER_SIZE (edata e))) s) (\<lambda>(_, s). cret s))
                   else cret s) (\<lambda>(tables, w).
              cret (b\<lparr>bc_tables := tr_tables tables\<rparr>, w))))))"

end
