(* ===== verification/BTree_Layout.thy ===== *)
theory BTree_Layout
  imports BTree
begin

text \<open>
  What a node in memory holds: its separators in order and the addresses of its children. The
  arrays are filled from the left; behind the last child of an inner node an array may hold a
  stale address, which no operation reads. The lemmas give each operation on a node
  (\<^verbatim>\<open>src/src/btree/node.rs\<close>) as an operation on these two lists.
\<close>

section \<open>Arrays that are filled from the left\<close>

text \<open>\<open>arr b k K xs\<close>: an array of length \<open>k\<close> starts with \<open>xs\<close>; with \<open>b\<close> the rest is empty.\<close>

definition arr :: "bool \<Rightarrow> nat \<Rightarrow> 'a option list \<Rightarrow> 'a list \<Rightarrow> bool" where
  "arr b k K xs \<longleftrightarrow> length K = k \<and> (\<exists>R. K = map Some xs @ R \<and> (b \<longrightarrow> set R \<subseteq> {None}))"

lemma arrI: "length (map Some xs @ R) = k \<Longrightarrow> (b \<Longrightarrow> set R \<subseteq> {None}) \<Longrightarrow> arr b k (map Some xs @ R) xs"
  by (auto simp: arr_def)

lemma arr_length: "arr b k K xs \<Longrightarrow> length xs \<le> k" "arr b k K xs \<Longrightarrow> length K = k"
  by (auto simp: arr_def)

lemma arr_nth: "arr b k K xs \<Longrightarrow> i < length xs \<Longrightarrow> K ! i = Some (xs ! i)"
  by (auto simp: arr_def nth_append)

lemma arr_rest: "arr True k K xs \<Longrightarrow> length xs \<le> i \<Longrightarrow> i < k \<Longrightarrow> K ! i = None"
  by (auto simp: arr_def nth_append subset_iff)

lemma arr_nth_iff: "arr True k K xs \<Longrightarrow> i < k \<Longrightarrow> K ! i = (if i < length xs then Some (xs ! i) else None)"
  using arr_nth arr_rest by (metis not_less)

lemma arr_blank: "arr b k (replicate k None) []"
  by (auto simp: arr_def)

lemma arr_weaken: "arr b k K xs \<Longrightarrow> arr False k K xs"
  by (auto simp: arr_def)

lemma arr_map_inj: "arr True k K xs \<Longrightarrow> arr True k K ys \<Longrightarrow> xs = ys"
proof -
  have "map the (takeWhile (\<lambda>x. x \<noteq> None) (map Some zs @ R)) = zs" if "set R \<subseteq> {None}" for zs :: "'a list" and R
  proof -
    have "takeWhile (\<lambda>x. x \<noteq> None) (map Some zs @ R) = map Some zs"
      using that by (induction zs) (cases R, auto)
    then show ?thesis by (simp add: map_idI)
  qed
  then show "arr True k K xs \<Longrightarrow> arr True k K ys \<Longrightarrow> xs = ys" unfolding arr_def by metis
qed

lemma arr_set:
  assumes "arr b k K xs" and "i < length xs"
  shows "arr b k (K[i := Some x]) (xs[i := x])"
  using assms by (auto simp: arr_def list_update_append map_update)

lemma arr_snoc:
  assumes "arr b k K xs" and "length xs < k"
  shows "arr b k (K[length xs := Some x]) (xs @ [x])"
proof -
  obtain R where R: "K = map Some xs @ R" "length K = k" "b \<Longrightarrow> set R \<subseteq> {None}" using assms(1) by (auto simp: arr_def)
  then obtain r R' where "R = r # R'" using assms(2) by (cases R) auto
  then show ?thesis using R by (auto simp: arr_def list_update_append)
qed

lemma arr_drop_last:
  assumes "arr b k K xs" and "xs \<noteq> []"
  shows "arr b k (K[length xs - 1 := None]) (butlast xs)"
proof -
  obtain ys y where xs: "xs = ys @ [y]" using assms(2) by (cases xs rule: rev_cases) auto
  obtain R where "K = map Some xs @ R" "length K = k" "b \<longrightarrow> set R \<subseteq> {None}" using assms(1) by (auto simp: arr_def)
  then show ?thesis by (auto simp: arr_def xs list_update_append)
qed

text \<open>The loops of \<open>shift_from\<close> and \<open>remove_from\<close>, on the contents of either array.\<close>

function shift_opts :: "nat \<Rightarrow> 'a option \<Rightarrow> 'a option list \<Rightarrow> 'a option list" where
  "shift_opts i c xs =
     (if c = None \<or> length xs \<le> i + 1 then xs else shift_opts (i + 1) (xs ! (i + 1)) (xs[i + 1 := c]))"
  by pat_completeness auto
termination
  by (relation "measure (\<lambda>(i, c, xs). length xs - i)") auto

function close_opts :: "nat \<Rightarrow> 'a option list \<Rightarrow> 'a option list" where
  "close_opts i xs =
     (if i + 1 < length xs then
        let xs' = xs[i := xs ! (i + 1), i + 1 := None]
        in if xs ! (i + 1) = None then xs' else close_opts (i + 1) xs'
      else xs)"
  by pat_completeness auto
termination
  by (relation "measure (\<lambda>(i, xs). length xs - i)") (auto simp: Let_def)

declare shift_opts.simps [simp del] close_opts.simps [simp del]

lemma map_shift_separators:
  "map sp_separator (shift_separators i c ss) = shift_opts i (sp_separator c) (map sp_separator ss)"
  by (induction i c ss rule: shift_separators.induct)
    (subst shift_separators.simps, subst shift_opts.simps, auto simp: map_update)

lemma map_shift_children:
  "map ch_entry_index (shift_children i c cs) = shift_opts i (ch_entry_index c) (map ch_entry_index cs)"
  by (induction i c cs rule: shift_children.induct)
    (subst shift_children.simps, subst shift_opts.simps, auto simp: map_update)

lemma map_close_separators:
  "map sp_separator (close_separators i ss) = close_opts i (map sp_separator ss)"
  by (induction i ss rule: close_separators.induct)
    (subst close_separators.simps, subst close_opts.simps, auto simp: map_update Let_def)

lemma map_close_children:
  "map ch_entry_index (close_children i cs) = close_opts i (map ch_entry_index cs)"
  by (induction i cs rule: close_children.induct)
    (subst close_children.simps, subst close_opts.simps, auto simp: map_update Let_def)

lemma length_shift_opts [simp]: "length (shift_opts i c xs) = length xs"
  by (induction i c xs rule: shift_opts.induct) (subst shift_opts.simps, auto)

lemma length_close_opts [simp]: "length (close_opts i xs) = length xs"
  by (induction i xs rule: close_opts.induct) (subst close_opts.simps, auto simp: Let_def)

lemma length_array_loops [simp]:
  "length (shift_separators i c ss) = length ss" "length (shift_children i d cs) = length cs"
  "length (close_separators i ss) = length ss" "length (close_children i cs) = length cs"
  using map_shift_separators[of i c ss] map_shift_children[of i d cs] map_close_separators[of i ss] map_close_children[of i cs]
  by (metis length_map length_shift_opts length_close_opts)+

lemma shift_empty [simp]: "shift_separators i c ss = [] \<longleftrightarrow> ss = []" "shift_children i d cs = [] \<longleftrightarrow> cs = []"
  using length_array_loops(1)[of i c ss] length_array_loops(2)[of i d cs] by (metis length_0_conv)+

lemma shift_opts_keeps: "j \<le> i \<Longrightarrow> shift_opts i c xs ! j = xs ! j"
  by (induction i c xs rule: shift_opts.induct) (subst shift_opts.simps, auto)

lemma close_opts_keeps: "j < i \<Longrightarrow> close_opts i xs ! j = xs ! j"
  by (induction i xs rule: close_opts.induct) (subst close_opts.simps, auto simp: Let_def)

text \<open>Shifting behind a hole: what is filled moves on by one, what is behind it is not kept.\<close>

lemma shift_opts_run:
  assumes "length P = i" and "R \<noteq> []"
  shows "\<exists>R'. length R' = length R - 1 \<and>
     shift_opts i (Some c) (P @ x # map Some ys @ R) = P @ x # Some c # map Some ys @ R' \<and>
     (R = replicate (length R) None \<longrightarrow> R' = replicate (length R') None)"
  using assms
proof (induction ys arbitrary: P i x c)
  case Nil
  obtain r R' where R: "R = r # R'" using Nil(2) by (cases R) auto
  let ?a = "P @ x # Some c # R'"
  have s: "shift_opts i (Some c) (P @ x # R) = shift_opts (i + 1) r ?a"
    using Nil(1) by (subst shift_opts.simps) (simp add: R nth_append list_update_append)
  let ?b = "shift_opts (i + 1) r ?a"
  have "take (length P + 2) ?b = take (length P + 2) ?a"
    using Nil(1) by (intro nth_equalityI) (auto simp: shift_opts_keeps nth_append less_Suc_eq)
  then have "?b = P @ x # Some c # drop (length P + 2) ?b"
    by (metis (no_types, lifting) Cons_eq_appendI append_eq_appendI append_eq_conv_conj append_take_drop_id
        eq_Nil_appendI length_Cons length_append list.size(3) numeral_2_eq_2)
  moreover have "?b = ?a" if "r = None" using that by (subst shift_opts.simps) simp
  ultimately show ?case
    using R s by (intro exI[of _ "drop (length P + 2) ?b"]) auto
next
  case (Cons y ys)
  have s: "shift_opts i (Some c) (P @ x # map Some (y # ys) @ R) =
      shift_opts (Suc i) (Some y) ((P @ [x]) @ Some c # map Some ys @ R)"
    using Cons.prems by (subst shift_opts.simps) (simp add: nth_append list_update_append)
  show ?case unfolding s using Cons.IH[of "P @ [x]" "Suc i" y "Some c"] Cons.prems by auto
qed

lemma close_opts_run:
  assumes "length P = i"
  shows "\<exists>R'. length R' = Suc (length R) \<and> close_opts i (P @ h # map Some ys @ R) = P @ map Some ys @ R' \<and>
     (h = None \<and> R = replicate (length R) None \<longrightarrow> R' = replicate (length R') None)"
  using assms
proof (induction ys arbitrary: P i h)
  case Nil
  show ?case
  proof (cases R)
    case Nil
    then have "close_opts i (P @ h # R) = P @ [h]" using \<open>length P = i\<close> by (subst close_opts.simps) simp
    then show ?thesis using Nil by (intro exI[of _ "[h]"]) auto
  next
    case (Cons r R')
    let ?a = "P @ r # None # R'"
    have s: "close_opts i (P @ h # R) = (if r = None then ?a else close_opts (i + 1) ?a)"
      using \<open>length P = i\<close> by (subst close_opts.simps) (simp add: Cons nth_append list_update_append Let_def)
    let ?b = "close_opts i (P @ h # R)"
    have "take (length P) ?b = P"
      using \<open>length P = i\<close> by (intro nth_equalityI) (auto simp: close_opts_keeps nth_append)
    then have "?b = P @ drop (length P) ?b" by (metis append_take_drop_id)
    moreover have "length ?b = length P + Suc (length R)" by simp
    moreover have "r = None \<Longrightarrow> drop (length P) ?b = r # None # R'" using s by simp
    ultimately show ?thesis
      using Cons by (intro exI[of _ "drop (length P) ?b"]) auto
  qed
next
  case (Cons y ys)
  have s: "close_opts i (P @ h # map Some (y # ys) @ R) = close_opts (Suc i) ((P @ [Some y]) @ None # map Some ys @ R)"
    using Cons.prems by (subst close_opts.simps) (simp add: nth_append list_update_append)
  show ?case unfolding s using Cons.IH[of "P @ [Some y]" "Suc i" None] Cons.prems by auto
qed

lemma set_empty_iff: "set R \<subseteq> {None} \<longleftrightarrow> R = replicate (length R) None"
  by (induction R) auto

lemma arr_shift:
  assumes "arr b k K xs" and "length xs < k" and "i \<le> length xs"
  shows "arr b k ((shift_opts i (K ! i) (K[i := None]))[i := Some x]) (take i xs @ x # drop i xs)"
proof -
  obtain R where R: "K = map Some xs @ R" "length K = k" "b \<Longrightarrow> set R \<subseteq> {None}" using assms(1) by (auto simp: arr_def)
  have ne: "R \<noteq> []" using R assms(2) by auto
  show ?thesis
  proof (cases "i < length xs")
    case True
    let ?P = "map Some (take i xs)"
    have xs: "xs = take i xs @ xs ! i # drop (Suc i) xs" using True by (simp add: id_take_nth_drop[symmetric])
    have K: "K ! i = Some (xs ! i)" "K[i := None] = ?P @ None # map Some (drop (Suc i) xs) @ R"
      using True R(1) by (simp_all add: nth_append) (subst xs, simp add: list_update_append)
    have "length ?P = i" using True by simp
    from shift_opts_run[OF this ne, of "xs ! i" None "drop (Suc i) xs"]
    obtain R' where R': "length R' = length R - 1"
      "shift_opts i (K ! i) (K[i := None]) = ?P @ None # Some (xs ! i) # map Some (drop (Suc i) xs) @ R'"
      "b \<Longrightarrow> set R' \<subseteq> {None}" using R(3) unfolding K set_empty_iff by blast
    have "drop i xs = xs ! i # drop (Suc i) xs" using True by (simp add: Cons_nth_drop_Suc)
    then have "(shift_opts i (K ! i) (K[i := None]))[i := Some x] = map Some (take i xs @ x # drop i xs) @ R'"
      using R'(2) True by (simp add: list_update_append)
    then show ?thesis using R R' ne True by (auto simp: arr_def)
  next
    case False
    then have i: "i = length xs" using assms(3) by simp
    obtain r R' where r: "R = r # R'" using ne by (cases R) auto
    let ?S = "shift_opts i (K ! i) (K[i := None])"
    have "take i ?S = map Some xs"
      using R(1) i by (intro nth_equalityI) (auto simp: shift_opts_keeps nth_append r)
    then have S: "?S[i := Some x] = map Some (xs @ [x]) @ drop (Suc i) ?S"
      using R(2) assms(2) i by (subst upd_conv_take_nth_drop) auto
    have "drop (Suc i) ?S = R'" if b
      using R(3)[OF that] by (subst shift_opts.simps) (simp add: R(1) i r nth_append list_update_append)
    then have "arr b k (map Some (xs @ [x]) @ drop (Suc i) ?S) (xs @ [x])"
      using R i assms(2) by (intro arrI) (auto simp: r)
    then show ?thesis using S i by simp
  qed
qed

lemma arr_close:
  assumes "arr b k K xs" and "i < length xs" and "b \<Longrightarrow> h = None"
  shows "arr b k (close_opts i (K[i := h])) (take i xs @ drop (Suc i) xs)"
proof -
  obtain R where R: "K = map Some xs @ R" "length K = k" "b \<Longrightarrow> set R \<subseteq> {None}" using assms(1) by (auto simp: arr_def)
  let ?P = "map Some (take i xs)"
  have xs: "xs = take i xs @ xs ! i # drop (Suc i) xs" using assms(2) by (simp add: id_take_nth_drop[symmetric])
  have K: "K[i := h] = ?P @ h # map Some (drop (Suc i) xs) @ R"
    using assms(2) R(1) by (subst R(1), subst xs) (simp add: list_update_append)
  have "length ?P = i" using assms(2) by simp
  from close_opts_run[OF this, of R h "drop (Suc i) xs"]
  obtain R' where R': "length R' = Suc (length R)"
    "close_opts i (K[i := h]) = ?P @ map Some (drop (Suc i) xs) @ R'" "b \<Longrightarrow> set R' \<subseteq> {None}"
    using R(3) assms(3) unfolding K set_empty_iff by blast
  then show ?thesis using R assms(2) by (auto simp: arr_def)
qed

section \<open>Nodes\<close>

abbreviation sepv :: "node \<Rightarrow> separator_inner option list" where
  "sepv n \<equiv> map sp_separator (nd_separators n)"

abbreviation kidv :: "node \<Rightarrow> address option list" where
  "kidv n \<equiv> map ch_entry_index (nd_children n)"

text \<open>A node with the separators \<open>xs\<close> and the children \<open>cs\<close>; a leaf has no children.\<close>

definition node_is :: "node \<Rightarrow> separator_inner list \<Rightarrow> address list \<Rightarrow> bool" where
  "node_is n xs cs \<longleftrightarrow> arr True ORDER (sepv n) xs \<and> arr (cs = []) ORDER_CHILD (kidv n) cs \<and>
     (cs = [] \<or> length cs = Suc (length xs))"

lemma node_is_lengths:
  assumes "node_is n xs cs"
  shows "length (nd_separators n) = ORDER" and "length (nd_children n) = ORDER_CHILD" and "length xs \<le> ORDER"
    and "cs \<noteq> [] \<Longrightarrow> length cs = Suc (length xs)"
  using assms arr_length(1)[of True ORDER "sepv n"] arr_length(2)[of True ORDER "sepv n"]
    arr_length(2)[of _ ORDER_CHILD "kidv n"]
  by (auto simp: node_is_def)

lemma node_is_sep:
  assumes "node_is n xs cs" and "i < ORDER"
  shows "sp_separator (nd_separators n ! i) = (if i < length xs then Some (xs ! i) else None)"
  using arr_nth_iff[of ORDER "sepv n" xs i] assms node_is_lengths(1)[OF assms(1)] by (auto simp: node_is_def)

lemma node_is_kid:
  assumes "node_is n xs cs" and "i < length cs"
  shows "ch_entry_index (nd_children n ! i) = Some (cs ! i)"
  using arr_nth[of "cs = []" ORDER_CHILD "kidv n" cs i] arr_length(1)[of "cs = []" ORDER_CHILD "kidv n" cs] assms
    node_is_lengths(2)[OF assms(1)] by (auto simp: node_is_def)

lemma node_is_no_kid:
  assumes "node_is n xs []" and "i < ORDER_CHILD"
  shows "ch_entry_index (nd_children n ! i) = None"
  using arr_rest[of ORDER_CHILD "kidv n" "[]" i] assms node_is_lengths(2)[OF assms(1)] by (auto simp: node_is_def)

lemma node_is_flags [simp]: "node_is (n\<lparr>nd_changed := b\<rparr>) xs cs = node_is n xs cs"
  by (simp add: node_is_def)

lemma node_blank_is: "node_is (node_blank b) [] []"
  by (auto simp: node_is_def node_blank_def arr_def separator_default_def child_default_def)

lemma number_separator_is: "node_is n xs cs \<Longrightarrow> number_separator n = length xs"
proof -
  assume n: "node_is n xs cs"
  have t: "length (takeWhile (\<lambda>x. x \<noteq> None) (map Some ys @ R)) = length ys" if "set R \<subseteq> {None}" for ys :: "'x list" and R
    using that by (induction ys) (cases R, auto)
  have "number_separator n = length (takeWhile (\<lambda>x. x \<noteq> None) (sepv n))"
    by (simp add: number_separator_def takeWhile_map comp_def)
  then show ?thesis using n t by (auto simp: node_is_def arr_def)
qed

lemma last_separator_is: "node_is n xs cs \<Longrightarrow> last_separator_index n = (if xs = [] then None else Some (length xs - 1))"
  by (simp add: last_separator_index_def number_separator_is)

lemma has_separator_is:
  assumes "node_is n xs cs" and "i < ORDER"
  shows "has_separator n i = Inr (i < length xs)"
  using assms node_is_sep[OF assms] node_is_lengths(1)[OF assms(1)]
  by (simp add: has_separator_def separator_at_def)

lemma separator_address_is:
  assumes "node_is n xs cs" and "i < length xs"
  shows "separator_address n i = Inr (Some (si_value (xs ! i)))"
  using assms node_is_sep[OF assms(1), of i] node_is_lengths[OF assms(1)]
  by (simp add: separator_address_def separator_at_def)

lemma need_rebalance_is: "node_is n xs cs \<Longrightarrow> need_rebalance n = Inr (length xs < ORDER div 2)"
  using has_separator_is[of n xs cs "ORDER div 2 - 1"] by (auto simp: need_rebalance_def ORDER_def)

lemmas node_ops = remove_separator_def remove_child_def set_separator_def set_child_def put_separator_def put_child_def
  separator_at_def child_at_def

text \<open>The position of a key among sorted separators.\<close>

lemma position_in_arr:
  assumes "map sp_separator ss = map Some xs @ R" and "set R \<subseteq> {None}" and "sorted (map si_key xs)"
  shows "position_in key ss i = (key \<in> si_key ` set xs, i + length (takeWhile (\<lambda>x. si_key x < key) xs))"
  using assms
proof (induction xs arbitrary: ss i)
  case Nil
  then show ?case by (cases ss) auto
next
  case (Cons x xs)
  obtain s ss' where ss: "ss = s # ss'" "sp_separator s = Some x" "map sp_separator ss' = map Some xs @ R"
    using Cons.prems(1) by (cases ss) auto
  have "key < si_key x \<Longrightarrow> key \<notin> si_key ` set xs" using Cons.prems(3) by auto
  then show ?case using Cons ss by auto
qed

lemma position_is:
  assumes "node_is n xs cs" and "sorted (map si_key xs)"
  shows "position n key = (key \<in> si_key ` set xs, length (takeWhile (\<lambda>x. si_key x < key) xs))"
  using assms position_in_arr[where i = 0] unfolding position_def node_is_def arr_def by fastforce

section \<open>Filling, closing and exchanging\<close>

lemmas view_simps = map_update map_shift_separators map_shift_children map_close_separators map_close_children

lemma node_isI:
  "arr True ORDER (sepv n) xs \<Longrightarrow> arr (cs = []) ORDER_CHILD (kidv n) cs \<Longrightarrow> cs = [] \<or> length cs = Suc (length xs) \<Longrightarrow>
     node_is n xs cs"
  by (simp add: node_is_def)

lemma node_isD:
  assumes "node_is n xs cs"
  shows "arr True ORDER (sepv n) xs" and "arr (cs = []) ORDER_CHILD (kidv n) cs" and "cs = [] \<or> length cs = Suc (length xs)"
  using assms by (simp_all add: node_is_def)

text \<open>A node whose separator \<open>i\<close> is exchanged.\<close>

lemma set_separator_is:
  assumes "node_is n xs cs" and "i < length xs" and "sp_separator sep = Some x"
  shows "\<exists>n'. set_separator i sep n = Inr n' \<and> nd_changed n' \<and> node_is n' (xs[i := x]) cs \<and> nd_children n' = nd_children n"
  using assms arr_set[OF node_isD(1)[OF assms(1)] assms(2), of x] node_is_lengths[OF assms(1)] node_isD[OF assms(1)]
  by (auto simp: node_ops view_simps intro!: node_isI)

lemma set_child_is:
  assumes "node_is n xs cs" and "i < length cs" and "ch_entry_index c = Some a"
  shows "\<exists>n'. set_child i c n = Inr n' \<and> nd_changed n' \<and> node_is n' xs (cs[i := a])"
  using assms arr_set[OF node_isD(2)[OF assms(1)] assms(2), of a] node_is_lengths[OF assms(1)] node_isD[OF assms(1)]
    arr_length(1)[OF node_isD(2)[OF assms(1)]]
  by (auto simp: node_ops view_simps intro!: node_isI)

text \<open>A separator, and the child to its right, put into a node with room.\<close>

lemma insert_at_is:
  assumes n: "node_is n xs cs" and i: "i \<le> length xs" "length xs < ORDER" and sep: "sp_separator sep = Some x"
    and right: "right = None \<longleftrightarrow> cs = []" "\<And>c. right = Some c \<Longrightarrow> ch_entry_index c = Some a"
  shows "\<exists>n'. insert_at i sep right n = Inr n' \<and> nd_changed n' \<and>
     node_is n' (take i xs @ x # drop i xs) (case right of None \<Rightarrow> [] | Some _ \<Rightarrow> take (Suc i) cs @ a # drop (Suc i) cs)"
proof -
  note l = node_is_lengths[OF n] and d = node_isD[OF n]
  note A = arr_shift[OF d(1) i(2,1), of x]
  show ?thesis
  proof (cases right)
    case None
    then show ?thesis
      using l i A d(2) right(1) sep
      by (auto simp: insert_at_def shift_from_def node_ops view_simps intro!: node_isI)
  next
    case (Some c)
    have lc: "length cs = Suc (length xs)" using right(1) Some l(4) by blast
    then have "length cs < ORDER_CHILD" "Suc i \<le> length cs" using i by (auto simp: node_consts)
    note B = arr_shift[OF d(2) this, of a]
    have "i < ORDER" "Suc i < ORDER_CHILD" using i by (auto simp: node_consts)
    then show ?thesis
      using l i A B right sep Some lc
      by (auto simp: insert_at_def shift_from_def node_ops view_simps intro!: node_isI)
  qed
qed

text \<open>The separator that a removal has taken out of a leaf leaves a gap to close.\<close>

lemma remove_leaf_is:
  assumes n: "node_is n xs []" and i: "i < length xs"
  shows "\<exists>s n'. remove_separator i n = Inr (s, n') \<and> nd_changed n' \<and> sp_separator s = Some (xs ! i) \<and>
     node_is (remove_from i False True n') (take i xs @ drop (Suc i) xs) [] \<and> nd_changed (remove_from i False True n')"
  using node_is_lengths[OF n] node_isD[OF n] i arr_close[OF node_isD(1)[OF n] i, of None] node_is_sep[OF n, of i]
  by (auto simp: node_ops view_simps remove_from_def intro!: node_isI)

text \<open>The last separator of a node, with the child behind it.\<close>

lemma remove_last_separator_is:
  assumes n: "node_is n xs cs" and xs: "xs \<noteq> []"
  shows "\<exists>s n'. remove_separator (length xs - 1) n = Inr (s, n') \<and> nd_changed n' \<and> sp_separator s = Some (last xs) \<and>
     (cs = [] \<longrightarrow> node_is n' (butlast xs) [])"
proof -
  note l = node_is_lengths[OF n]
  have "length xs - 1 < ORDER" "length xs - 1 < length xs" using l(3) xs by (auto simp: Suc_le_eq ORDER_def)
  then show ?thesis
    using l node_isD[OF n] xs arr_drop_last[OF node_isD(1)[OF n] xs] node_is_sep[OF n, of "length xs - 1"]
    by (auto simp: node_ops view_simps last_conv_nth intro!: node_isI)
qed

lemma remove_last_both_is:
  assumes n: "node_is n xs cs" and xs: "xs \<noteq> []" and cs: "cs \<noteq> []"
  shows "\<exists>c n1 s n2. remove_child (length xs - 1 + 1) n = Inr (c, n1) \<and> ch_entry_index c = Some (last cs) \<and>
     remove_separator (length xs - 1) n1 = Inr (s, n2) \<and> nd_changed n2 \<and> sp_separator s = Some (last xs) \<and>
     node_is n2 (butlast xs) (butlast cs)"
proof -
  note l = node_is_lengths[OF n] and d = node_isD[OF n]
  have lc: "length cs = Suc (length xs)" using l(4) cs by blast
  then have bc: "length (butlast cs) = length xs" "length xs = length cs - 1" by simp_all
  have bn: "butlast cs \<noteq> []" using bc(1) xs by (metis length_0_conv)
  have k: "ch_entry_index (nd_children n ! length xs) = Some (last cs)"
    using node_is_kid[OF n, of "length xs"] lc cs by (simp add: last_conv_nth)
  have o: "length xs < ORDER_CHILD" "length xs - 1 < ORDER" "length xs - 1 + 1 = length xs" "length xs - 1 < length xs"
    using l(3) xs by (auto simp: node_consts Suc_le_eq)
  let ?n = "n\<lparr>nd_children := (nd_children n)[length xs := \<lparr>ch_moved = True, ch_entry_index = None\<rparr>], nd_changed := True\<rparr>"
  let ?m = "?n\<lparr>nd_separators := (nd_separators n)[length xs - 1 := \<lparr>sp_modified = True, sp_separator = None\<rparr>]\<rparr>"
  have 1: "remove_child (length xs - 1 + 1) n = Inr ((nd_children n ! length xs)\<lparr>ch_moved := True\<rparr>, ?n)"
    unfolding o(3) using o(1) l(2) by (simp add: node_ops)
  have 2: "remove_separator (length xs - 1) ?n = Inr ((nd_separators n ! (length xs - 1))\<lparr>sp_modified := True\<rparr>, ?m)"
    using o(2) l(1) by (simp add: node_ops)
  have "arr False ORDER_CHILD ((kidv n)[length xs := None]) (butlast cs)"
    using arr_weaken[OF arr_drop_last[OF d(2) cs]] bc(2) by simp
  then have "node_is ?m (butlast xs) (butlast cs)"
    using arr_drop_last[OF d(1) xs] bc(1) bn xs by (intro node_isI) (simp_all add: view_simps Suc_le_eq)
  then show ?thesis
    using 1 2 k node_is_sep[OF n o(2)] o(4) xs by (simp add: last_conv_nth)
qed

lemma prepend_is:
  assumes n: "node_is n xs cs" and xs: "length xs < ORDER" and sep: "sp_separator sep = Some x"
    and child: "child = None \<longleftrightarrow> cs = []" "\<And>c. child = Some c \<Longrightarrow> ch_entry_index c = Some a"
  shows "\<exists>n1 n2 n3. shift_from 0 (cs \<noteq> []) True n = Inr n1 \<and>
     (case child of Some c \<Rightarrow> set_child 0 c n1 | None \<Rightarrow> Inr n1) = Inr n2 \<and> set_separator 0 sep n2 = Inr n3 \<and>
     nd_changed n3 \<and> node_is n3 (x # xs) (if cs = [] then [] else a # cs)"
proof -
  note l = node_is_lengths[OF n] and d = node_isD[OF n]
  have A: "arr True ORDER ((shift_opts 0 (sepv n ! 0) ((sepv n)[0 := None]))[0 := Some x]) (x # xs)"
    using arr_shift[OF d(1) xs, of 0 x] by simp
  have o: "0 < ORDER" "0 < ORDER_CHILD" by (simp_all add: node_consts)
  have ne: "nd_separators n \<noteq> []" "nd_children n \<noteq> []" using l(1,2) by (auto simp: node_consts)
  show ?thesis
  proof (cases child)
    case None
    then show ?thesis
      using ne A d(2) child(1) sep xs by (auto simp: shift_from_def node_ops view_simps Let_def intro!: node_isI)
  next
    case (Some c)
    have lc: "length cs = Suc (length xs)" "cs \<noteq> []" using child(1) Some l(4) by auto
    have "length cs < ORDER_CHILD" using lc xs by (simp add: node_consts)
    from arr_shift[OF d(2) this, of 0 a]
    have "arr False ORDER_CHILD ((shift_opts 0 (kidv n ! 0) ((kidv n)[0 := None]))[0 := Some a]) (a # cs)"
      by (simp add: arr_weaken)
    then show ?thesis
      using ne A child sep Some lc xs by (auto simp: shift_from_def node_ops view_simps Let_def intro!: node_isI)
  qed
qed

lemma append_is:
  assumes n: "node_is n xs cs" and xs: "length xs < ORDER" and sep: "sp_separator sep = Some x"
    and child: "child = None \<longleftrightarrow> cs = []" "\<And>c. child = Some c \<Longrightarrow> ch_entry_index c = Some a"
  shows "\<exists>n1 n2. set_separator (length xs) sep n = Inr n1 \<and>
     (case child of Some c \<Rightarrow> set_child (length xs + 1) c n1 | None \<Rightarrow> Inr n1) = Inr n2 \<and>
     nd_changed n2 \<and> node_is n2 (xs @ [x]) (if cs = [] then [] else cs @ [a])"
proof -
  note l = node_is_lengths[OF n] and d = node_isD[OF n]
  note A = arr_snoc[OF d(1) xs, of x]
  show ?thesis
  proof (cases child)
    case None
    then show ?thesis
      using l A d(2) child(1) sep xs by (auto simp: node_ops view_simps intro!: node_isI)
  next
    case (Some c)
    have lc: "length cs = Suc (length xs)" "cs \<noteq> []" using child(1) Some l(4) by auto
    have "length cs < ORDER_CHILD" using lc xs by (simp add: node_consts)
    from arr_snoc[OF d(2) this, of a]
    have "arr False ORDER_CHILD ((kidv n)[Suc (length xs) := Some a]) (cs @ [a])" using lc by (simp add: arr_weaken)
    moreover have "Suc (length xs) < ORDER_CHILD" using xs by (simp add: node_consts)
    ultimately show ?thesis
      using l A child sep Some lc xs by (auto simp: node_ops view_simps intro!: node_isI)
  qed
qed

text \<open>The first separator of a node, with the child before it.\<close>

lemma remove_first_is:
  assumes n: "node_is n xs cs" and xs: "xs \<noteq> []"
  shows "\<exists>c n1 s n2. (if cs \<noteq> [] then rbind (remove_child 0 n) (\<lambda>(c, n). Inr (Some c, n)) else Inr (None, n)) = Inr (c, n1) \<and>
     (c = None \<longleftrightarrow> cs = []) \<and> (\<forall>x. c = Some x \<longrightarrow> ch_entry_index x = Some (hd cs)) \<and>
     remove_separator 0 n1 = Inr (s, n2) \<and> sp_separator s = Some (hd xs) \<and>
     nd_changed (remove_from 0 (cs \<noteq> []) True n2) \<and> node_is (remove_from 0 (cs \<noteq> []) True n2) (tl xs) (tl cs)"
proof -
  note l = node_is_lengths[OF n] and d = node_isD[OF n]
  have A: "arr True ORDER (close_opts 0 ((sepv n)[0 := None])) (tl xs)"
    using arr_close[OF d(1), of 0 None] xs by (simp add: drop_Suc)
  have o: "0 < ORDER" "0 < ORDER_CHILD" by (simp_all add: node_consts)
  have ne: "nd_separators n \<noteq> []" "nd_children n \<noteq> []" using l(1,2) by (auto simp: node_consts)
  have s: "sp_separator (nd_separators n ! 0) = Some (hd xs)" using node_is_sep[OF n o(1)] xs by (simp add: hd_conv_nth)
  show ?thesis
  proof (cases "cs = []")
    case True
    then show ?thesis
      using ne A d(2) s xs by (auto simp: node_ops view_simps remove_from_def intro!: node_isI)
  next
    case False
    have lc: "length cs = Suc (length xs)" using False l(4) by auto
    have "arr False ORDER_CHILD (close_opts 0 ((kidv n)[0 := None])) (tl cs)"
      using arr_weaken[OF arr_close[OF d(2), of 0 None]] False by (simp add: drop_Suc)
    moreover have "tl cs \<noteq> []" using lc xs by (cases cs) auto
    moreover have "ch_entry_index (nd_children n ! 0) = Some (hd cs)" using node_is_kid[OF n, of 0] False by (simp add: hd_conv_nth)
    ultimately show ?thesis
      using ne A s xs lc False by (auto simp: node_ops view_simps remove_from_def intro!: node_isI)
  qed
qed

text \<open>The separator between two children that are merged, and the right one of them.\<close>

lemma remove_merged_is:
  assumes n: "node_is n xs cs" and at: "at < length xs" and cs: "cs \<noteq> []"
    and m: "sepv m = (sepv n)[at := None]" "kidv m = (kidv n)[at := Some a, at + 1 := h]"
  shows "nd_changed (remove_from at True False m)"
    and "node_is (remove_from at True False m) (take at xs @ drop (Suc at) xs) (take at cs @ a # drop (at + 2) cs)"
proof -
  note d = node_isD[OF n]
  have lc: "length cs = Suc (length xs)" using node_is_lengths(4)[OF n] cs by blast
  have "arr False ORDER_CHILD ((kidv n)[at := Some a]) (cs[at := a])"
    using arr_set[OF arr_weaken[OF d(2)], of at a] at lc by simp
  from arr_close[OF this, of "Suc at" h]
  have B: "arr False ORDER_CHILD (close_opts (Suc at) ((kidv n)[at := Some a, Suc at := h])) (take at cs @ a # drop (at + 2) cs)"
    using at lc by (simp add: upd_conv_take_nth_drop take_Suc_conv_app_nth)
  show "nd_changed (remove_from at True False m)" by (simp add: remove_from_def)
  show "node_is (remove_from at True False m) (take at xs @ drop (Suc at) xs) (take at cs @ a # drop (at + 2) cs)"
    using arr_close[OF d(1) at, of None] B at lc m
    by (intro node_isI) (auto simp: remove_from_def view_simps)
qed

section \<open>Merging\<close>

lemma remove_separator_view:
  "i < length (nd_separators n) \<Longrightarrow> \<exists>s n'. remove_separator i n = Inr (s, n') \<and> sp_separator s = sepv n ! i \<and>
     sepv n' = (sepv n)[i := None] \<and> nd_children n' = nd_children n \<and> nd_changed n'"
  by (auto simp: node_ops map_update)

lemma set_separator_view:
  "i < length (nd_separators n) \<Longrightarrow> \<exists>n'. set_separator i s n = Inr n' \<and> sepv n' = (sepv n)[i := sp_separator s] \<and>
     nd_children n' = nd_children n \<and> nd_changed n'"
  by (auto simp: node_ops map_update)

lemma remove_child_view:
  "i < length (nd_children n) \<Longrightarrow> \<exists>c n'. remove_child i n = Inr (c, n') \<and> ch_entry_index c = kidv n ! i \<and>
     kidv n' = (kidv n)[i := None] \<and> nd_separators n' = nd_separators n \<and> nd_changed n'"
  by (auto simp: node_ops map_update)

lemma set_child_view:
  "i < length (nd_children n) \<Longrightarrow> \<exists>n'. set_child i c n = Inr n' \<and> kidv n' = (kidv n)[i := ch_entry_index c] \<and>
     nd_separators n' = nd_separators n \<and> nd_changed n'"
  by (auto simp: node_ops map_update)

lemma merge_nodes_is:
  assumes "length (nd_separators right) = ORDER" and "length (nd_children right) = ORDER_CHILD"
    and "\<And>k. j \<le> k \<Longrightarrow> k < j + d \<Longrightarrow> sepv right ! k = Some (xr ! k)"
    and "\<And>k. has_child \<Longrightarrow> j \<le> k \<Longrightarrow> k < j + d \<Longrightarrow> kidv right ! k = Some (cr ! k)"
    and "arr True ORDER (sepv left) ys" and "arr (\<not> has_child) ORDER_CHILD (kidv left) zs" and "nd_changed left"
    and "length ys = i" and "zs = [] \<or> has_child" and "has_child \<Longrightarrow> length zs = i"
    and "i + d \<le> ORDER" and "j + d \<le> ORDER"
  shows "\<exists>l r. merge_nodes has_child [j..<j + d] i left right = Inr (i + d, l, r) \<and> nd_changed l \<and>
     (d = 0 \<longrightarrow> r = right) \<and> (0 < d \<longrightarrow> nd_changed r) \<and>
     arr True ORDER (sepv l) (ys @ map ((!) xr) [j..<j + d]) \<and>
     arr (\<not> has_child) ORDER_CHILD (kidv l) (if has_child then zs @ map ((!) cr) [j..<j + d] else []) \<and>
     length (nd_separators r) = ORDER \<and> length (nd_children r) = ORDER_CHILD \<and>
     (\<forall>k. sepv r ! k = (if j \<le> k \<and> k < j + d then None else sepv right ! k)) \<and>
     (\<forall>k. j + d \<le> k \<longrightarrow> kidv r ! k = kidv right ! k)"
  using assms
proof (induction d arbitrary: j i left right ys zs)
  case 0
  then show ?case by auto
next
  case (Suc d)
  have j: "j < ORDER" "j < ORDER_CHILD" "i < ORDER" "i < ORDER_CHILD" using Suc.prems(11,12) by (auto simp: node_consts)
  have ll: "length (nd_separators left) = ORDER" "length (nd_children left) = ORDER_CHILD"
    using arr_length(2)[OF Suc.prems(5)] arr_length(2)[OF Suc.prems(6)] by simp_all
  have up: "[j..<j + Suc d] = j # [Suc j..<Suc j + d]" by (simp add: upt_rec)
  obtain l1 r1 where st: "merge_nodes has_child [j..<j + Suc d] i left right = merge_nodes has_child [Suc j..<Suc j + d] (i + 1) l1 r1"
    and l1: "sepv l1 = (sepv left)[i := sepv right ! j]" "kidv l1 = (if has_child then (kidv left)[i := kidv right ! j] else kidv left)"
      "nd_changed l1"
    and r1: "sepv r1 = (sepv right)[j := None]" "kidv r1 = (if has_child then (kidv right)[j := None] else kidv right)" "nd_changed r1"
  proof -
    obtain c r0 where r0: "(if has_child then rbind (remove_child j right) (\<lambda>(c, right). Inr (Some c, right)) else Inr (None, right)) = Inr (c, r0)"
        "nd_separators r0 = nd_separators right" "kidv r0 = (if has_child then (kidv right)[j := None] else kidv right)"
        "c = None \<longleftrightarrow> \<not> has_child" "\<And>x. c = Some x \<Longrightarrow> ch_entry_index x = kidv right ! j"
    proof (cases has_child)
      case True
      obtain x r0 where "remove_child j right = Inr (x, r0)" "ch_entry_index x = kidv right ! j" "kidv r0 = (kidv right)[j := None]"
          "nd_separators r0 = nd_separators right" using remove_child_view[of j right] Suc.prems(2) j(2) by auto
      then show ?thesis using True by (intro that[of "Some x" r0]) auto
    qed (use that[of None right] in auto)
    obtain s r1 where r1: "remove_separator j r0 = Inr (s, r1)" "sp_separator s = sepv r0 ! j" "sepv r1 = (sepv r0)[j := None]"
        "nd_children r1 = nd_children r0" "nd_changed r1"
      using remove_separator_view[of j r0] Suc.prems(1) j(1) r0(2) by auto
    obtain l0 where l0: "set_separator i s left = Inr l0" "sepv l0 = (sepv left)[i := sp_separator s]"
        "nd_children l0 = nd_children left" "nd_changed l0"
      using set_separator_view[where i = i and n = left and s = s] ll j by auto
    obtain l1 where l1: "(case c of Some c \<Rightarrow> set_child i c l0 | None \<Rightarrow> Inr l0) = Inr l1"
        "kidv l1 = (case c of Some c \<Rightarrow> (kidv l0)[i := ch_entry_index c] | None \<Rightarrow> kidv l0)" "nd_separators l1 = nd_separators l0" "nd_changed l1"
    proof (cases c)
      case (Some x)
      then show ?thesis using that set_child_view[where i = i and n = l0 and c = x] ll j l0(3) by auto
    qed (use that l0(4) in auto)
    show ?thesis
    proof (rule that)
      show "merge_nodes has_child [j..<j + Suc d] i left right = merge_nodes has_child [Suc j..<Suc j + d] (i + 1) l1 r1"
        unfolding up using r0(1) r1(1) l0(1) l1(1) by simp
      show "kidv l1 = (if has_child then (kidv left)[i := kidv right ! j] else kidv left)"
        using l1(2) l0(3) r0(4,5) by (cases c) auto
    qed (use r0 r1 l0 l1 in simp_all)
  qed
  have lr: "length (nd_separators r1) = ORDER" "length (nd_children r1) = ORDER_CHILD"
    using arg_cong[OF r1(1), of length] arg_cong[OF r1(2), of length] Suc.prems(1,2) by (auto split: if_splits)
  have S: "arr True ORDER (sepv l1) (ys @ [xr ! j])"
    using arr_snoc[OF Suc.prems(5), of "xr ! j"] Suc.prems(3)[of j] Suc.prems(8) j l1(1) by simp
  have K: "arr (\<not> has_child) ORDER_CHILD (kidv l1) (if has_child then zs @ [cr ! j] else [])"
    using arr_snoc[OF Suc.prems(6), of "cr ! j"] Suc.prems(4)[of j] Suc.prems(6,9,10) j l1(2) by auto
  have "\<exists>l r. merge_nodes has_child [Suc j..<Suc j + d] (i + 1) l1 r1 = Inr (i + 1 + d, l, r) \<and> nd_changed l \<and>
     (d = 0 \<longrightarrow> r = r1) \<and> (0 < d \<longrightarrow> nd_changed r) \<and>
     arr True ORDER (sepv l) ((ys @ [xr ! j]) @ map ((!) xr) [Suc j..<Suc j + d]) \<and>
     arr (\<not> has_child) ORDER_CHILD (kidv l)
       (if has_child then (if has_child then zs @ [cr ! j] else []) @ map ((!) cr) [Suc j..<Suc j + d] else []) \<and>
     length (nd_separators r) = ORDER \<and> length (nd_children r) = ORDER_CHILD \<and>
     (\<forall>k. sepv r ! k = (if Suc j \<le> k \<and> k < Suc j + d then None else sepv r1 ! k)) \<and>
     (\<forall>k. Suc j + d \<le> k \<longrightarrow> kidv r ! k = kidv r1 ! k)"
    by (rule Suc.IH) (use S K lr l1 r1 Suc.prems in \<open>auto split: if_splits\<close>)
  then obtain l r where ih: "merge_nodes has_child [Suc j..<Suc j + d] (i + 1) l1 r1 = Inr (i + 1 + d, l, r)" "nd_changed l"
    "d = 0 \<Longrightarrow> r = r1" "0 < d \<Longrightarrow> nd_changed r"
    "arr True ORDER (sepv l) ((ys @ [xr ! j]) @ map ((!) xr) [Suc j..<Suc j + d])"
    "arr (\<not> has_child) ORDER_CHILD (kidv l)
       (if has_child then (if has_child then zs @ [cr ! j] else []) @ map ((!) cr) [Suc j..<Suc j + d] else [])"
    "length (nd_separators r) = ORDER" "length (nd_children r) = ORDER_CHILD"
    "\<And>k. sepv r ! k = (if Suc j \<le> k \<and> k < Suc j + d then None else sepv r1 ! k)"
    "\<And>k. Suc j + d \<le> k \<Longrightarrow> kidv r ! k = kidv r1 ! k" by blast
  have "sepv r ! k = (if j \<le> k \<and> k < j + Suc d then None else sepv right ! k)" for k
    using ih(9)[of k] r1(1) Suc.prems(1) j(1) by (cases "k = j") (auto simp del: nth_map)
  moreover have "kidv r ! k = kidv right ! k" if "j + Suc d \<le> k" for k
    using ih(10)[of k] that r1(2) by (auto simp del: nth_map)
  moreover have "nd_changed r" using ih(3,4) r1(3) by (cases d) auto
  moreover have "merge_nodes has_child [j..<j + Suc d] i left right = Inr (i + Suc d, l, r)" using st ih(1) by simp
  moreover have "arr True ORDER (sepv l) (ys @ map ((!) xr) [j..<j + Suc d])" using ih(5) unfolding up by simp
  moreover have "arr (\<not> has_child) ORDER_CHILD (kidv l) (if has_child then zs @ map ((!) cr) [j..<j + Suc d] else [])"
    using ih(6) unfolding up by (cases has_child) simp_all
  ultimately show ?case using ih(2,7,8) by (metis Zero_not_Suc)
qed

lemma map_nth_all: "map ((!) xs) [0..<length xs] = xs"
  by (rule map_nth)

text \<open>Merging two nodes around the separator between them; nothing is left in the right one.\<close>

lemma merge_right_is:
  assumes l: "node_is left xl cl" and r: "node_is right xr cr" and kids: "cl = [] \<longleftrightarrow> cr = []"
    and fit: "length xl + length xr < ORDER" and sep: "sp_separator sep = Some x" and xr: "xr \<noteq> []"
  shows "\<exists>l' r'. merge_right (cl \<noteq> []) sep left right = Inr (l', r') \<and> nd_changed l' \<and> nd_changed r' \<and>
     node_is l' (xl @ x # xr) (cl @ cr) \<and> length (nd_separators r') = ORDER \<and> length (nd_children r') = ORDER_CHILD \<and>
     sepv r' = replicate ORDER None \<and> (cl \<noteq> [] \<longrightarrow> kidv r' ! length xr = None)"
proof -
  note ll = node_is_lengths[OF l] and dl = node_isD[OF l] and lr = node_is_lengths[OF r] and dr = node_isD[OF r]
  have n: "number_separator left = length xl" "number_separator right = length xr"
    using l r by (simp_all add: number_separator_is)
  have xl: "length xl < ORDER" using fit by simp
  obtain l1 where l1: "set_separator (length xl) sep left = Inr l1" "sepv l1 = (sepv left)[length xl := Some x]"
      "nd_children l1 = nd_children left" "nd_changed l1"
    using set_separator_view[of "length xl" left sep] ll(1) xl sep by auto
  have S: "arr True ORDER (sepv l1) (xl @ [x])" using arr_snoc[OF dl(1) xl] l1(2) by simp
  have K: "arr (\<not> cl \<noteq> []) ORDER_CHILD (kidv l1) cl" using dl(2) l1(3) by simp
  have kl: "cl = [] \<or> cl \<noteq> []" "cl \<noteq> [] \<Longrightarrow> length cl = length xl + 1" using ll(4) by auto
  have rs: "sepv right ! k = Some (xr ! k)" if "0 \<le> k" "k < 0 + length xr" for k using arr_nth[OF dr(1)] that by simp
  have rk: "kidv right ! k = Some (cr ! k)" if "cl \<noteq> []" "0 \<le> k" "k < 0 + length xr" for k
    using arr_nth[OF dr(2), of k] that kids lr(4) by simp
  have b: "length xl + 1 + length xr \<le> ORDER" "0 + length xr \<le> ORDER" using fit lr(3) by simp_all
  from merge_nodes_is[OF lr(1,2) rs rk S K l1(4) _ kl(1) _ b(1,2), unfolded add_0]
  obtain l2 r2 where m: "merge_nodes (cl \<noteq> []) [0..<length xr] (length xl + 1) l1 right = Inr (length xl + 1 + length xr, l2, r2)"
      "nd_changed l2" "nd_changed r2" "arr True ORDER (sepv l2) ((xl @ [x]) @ map ((!) xr) [0..<length xr])"
      "arr (\<not> cl \<noteq> []) ORDER_CHILD (kidv l2) (if cl \<noteq> [] then cl @ map ((!) cr) [0..<length xr] else [])"
      "length (nd_separators r2) = ORDER" "length (nd_children r2) = ORDER_CHILD"
      "\<And>k. sepv r2 ! k = (if 0 \<le> k \<and> k < length xr then None else sepv right ! k)"
      "\<And>k. length xr \<le> k \<Longrightarrow> kidv r2 ! k = kidv right ! k"
    using kl(2) xr by auto
  have S2: "arr True ORDER (sepv l2) (xl @ x # xr)" using m(4) by (simp add: map_nth_all)
  have E: "sepv r2 = replicate ORDER None"
  proof (rule nth_equalityI)
    fix k assume "k < length (sepv r2)"
    then have "k < ORDER" using m(6) by simp
    then show "sepv r2 ! k = replicate ORDER None ! k" using m(8)[of k] arr_rest[OF dr(1), of k] by auto
  qed (use m(6) in simp)
  show ?thesis
  proof (cases "cl = []")
    case True
    then have "node_is l2 (xl @ x # xr) (cl @ cr)" using S2 m(5) kids by (intro node_isI) auto
    then show ?thesis using m E l1(1) n True by (auto simp: merge_right_def)
  next
    case False
    have lc: "length cl = Suc (length xl)" "length cr = Suc (length xr)" using False kids ll(4) lr(4) by auto
    have o: "length xr < ORDER_CHILD" "length xl + 1 + length xr < ORDER_CHILD" using fit by (auto simp: node_consts)
    obtain c r3 where r3: "remove_child (length xr) r2 = Inr (c, r3)" "ch_entry_index c = kidv r2 ! length xr"
        "kidv r3 = (kidv r2)[length xr := None]" "nd_separators r3 = nd_separators r2" "nd_changed r3"
      using remove_child_view[of "length xr" r2] m(7) o(1) by auto
    have c: "ch_entry_index c = Some (cr ! length xr)"
      using r3(2) m(9)[of "length xr"] arr_nth[OF dr(2), of "length xr"] lc by (simp del: nth_map)
    have K2: "arr False ORDER_CHILD (kidv l2) (cl @ butlast cr)"
    proof -
      have "map ((!) cr) [0..<length xr] = butlast cr"
        using lc(2) by (intro nth_equalityI) (auto simp: nth_butlast)
      then show ?thesis using m(5) False by simp
    qed
    have len: "length (nd_children l2) = ORDER_CHILD" using arr_length(2)[OF K2] by simp
    obtain l3 where l3: "set_child (length xl + 1 + length xr) c l2 = Inr l3"
        "kidv l3 = (kidv l2)[length xl + 1 + length xr := ch_entry_index c]" "nd_separators l3 = nd_separators l2" "nd_changed l3"
      using set_child_view[of "length xl + 1 + length xr" l2 c] len o(2) by auto
    have lb: "length (cl @ butlast cr) = length xl + 1 + length xr" using lc by simp
    have "(cl @ butlast cr) @ [cr ! length xr] = cl @ cr"
      using lc(2) by (simp add: append_butlast_last_id[symmetric] last_conv_nth) (metis One_nat_def append_butlast_last_id diff_Suc_1 last_conv_nth length_0_conv nat.distinct(1))
    then have "arr False ORDER_CHILD (kidv l3) (cl @ cr)"
      using arr_snoc[OF K2, of "cr ! length xr"] lb o(2) l3(2) c by simp
    then have "node_is l3 (xl @ x # xr) (cl @ cr)"
      using S2 l3(3) lc False by (intro node_isI) auto
    moreover have "length (nd_children r3) = ORDER_CHILD" using arg_cong[OF r3(3), of length] m(7) by simp
    moreover have "kidv r3 ! length xr = None" using r3(3) m(7) o(1) by simp
    moreover have "merge_right (cl \<noteq> []) sep left right = Inr (l3, r3)"
      using m(1) l1(1) n False r3(1) l3(1) by (simp add: merge_right_def)
    ultimately show ?thesis using m(6) E r3(4,5) l3(4) by auto
  qed
qed

section \<open>Splitting\<close>

lemma arr_check:
  "arr b k K xs \<longleftrightarrow> length K = k \<and> take (length xs) K = map Some xs \<and> (b \<longrightarrow> set (drop (length xs) K) \<subseteq> {None})"
proof
  assume "length K = k \<and> take (length xs) K = map Some xs \<and> (b \<longrightarrow> set (drop (length xs) K) \<subseteq> {None})"
  then show "arr b k K xs" unfolding arr_def by (metis append_take_drop_id)
qed (auto simp: arr_def)

lemma list_of_8:
  assumes "length xs = 8"
  obtains x0 x1 x2 x3 x4 x5 x6 x7 where "xs = [x0, x1, x2, x3, x4, x5, x6, x7]"
  using assms by (auto simp: eval_nat_numeral length_Suc_conv)

lemma list_of_9:
  assumes "length xs = 9"
  obtains x0 x1 x2 x3 x4 x5 x6 x7 x8 where "xs = [x0, x1, x2, x3, x4, x5, x6, x7, x8]"
  using assms by (auto simp: eval_nat_numeral length_Suc_conv)

lemmas split_eval = node_split_def node_ops node_default_def node_blank_def node_consts separator_default_def child_default_def

lemma node_split_middle:
  assumes "length (nd_separators n) = ORDER" and "length (nd_children n) = ORDER_CHILD"
  shows "\<exists>right left. node_split 4 skip None None hc n = Inr ((right, None), left) \<and> nd_changed left \<and> nd_changed right \<and>
     sepv left = take 4 (sepv n) @ replicate 4 None \<and> sepv right = drop 4 (sepv n) @ replicate 4 None \<and>
     kidv left = (if hc then if skip then take 5 (kidv n) @ replicate 4 None else take 4 (kidv n) @ replicate 5 None else kidv n) \<and>
     kidv right = (if hc then if skip then None # drop 5 (kidv n) @ replicate 4 None else drop 4 (kidv n) @ replicate 4 None
       else replicate 9 None)"
proof -
  obtain s0 s1 s2 s3 s4 s5 s6 s7 where s: "nd_separators n = [s0, s1, s2, s3, s4, s5, s6, s7]"
    using assms(1) by (auto simp: ORDER_def elim: list_of_8)
  obtain c0 c1 c2 c3 c4 c5 c6 c7 c8 where c: "nd_children n = [c0, c1, c2, c3, c4, c5, c6, c7, c8]"
    using assms(2) by (auto simp: node_consts elim: list_of_9)
  show ?thesis
    by (cases hc; cases skip) (simp_all add: split_eval s c upt_conv_Cons numeral_eq_Suc)
qed

lemma node_split_upper:
  assumes "length (nd_separators n) = ORDER" and "length (nd_children n) = ORDER_CHILD" and "5 \<le> at" and "at \<le> ORDER"
  shows "\<exists>right left. node_split 5 False (Some (at, sep)) (map_option (Pair at) child) (child \<noteq> None) n = Inr ((right, None), left) \<and>
     nd_changed left \<and> nd_changed right \<and> sepv left = take 5 (sepv n) @ replicate 3 None \<and>
     sepv right = drop 5 (take at (sepv n) @ sp_separator sep # drop at (sepv n)) @ replicate 4 None \<and>
     kidv left = (if child \<noteq> None then take 5 (kidv n) @ replicate 4 None else kidv n) \<and>
     kidv right = (case child of
         Some c \<Rightarrow> drop 5 (take (Suc at) (kidv n) @ ch_entry_index c # drop (Suc at) (kidv n)) @ replicate 4 None
       | None \<Rightarrow> replicate 9 None)"
proof -
  obtain s0 s1 s2 s3 s4 s5 s6 s7 where s: "nd_separators n = [s0, s1, s2, s3, s4, s5, s6, s7]"
    using assms(1) by (auto simp: ORDER_def elim: list_of_8)
  obtain c0 c1 c2 c3 c4 c5 c6 c7 c8 where c: "nd_children n = [c0, c1, c2, c3, c4, c5, c6, c7, c8]"
    using assms(2) by (auto simp: node_consts elim: list_of_9)
  have "at = 5 \<or> at = 6 \<or> at = 7 \<or> at = 8" using assms(3,4) unfolding ORDER_def by linarith
  then show ?thesis
    by (elim disjE; cases child) (simp_all add: split_eval s c upt_conv_Cons numeral_eq_Suc)
qed

lemma arr_full: "arr b k K xs \<Longrightarrow> length xs = k \<Longrightarrow> K = map Some xs"
  by (auto simp: arr_def)

text \<open>
  An insertion into a full node: the nine separators are divided around the middle one, which goes
  to the parent, and the ten children with them.
\<close>

lemma split_insert_is:
  assumes n: "node_is n xs cs" and full: "length xs = ORDER" and at: "at \<le> ORDER" and sep: "sp_separator sep = Some x"
    and child: "child = None \<longleftrightarrow> cs = []" "\<And>c. child = Some c \<Longrightarrow> ch_entry_index c = Some a"
    and ys: "ys = take at xs @ x # drop at xs" and ds: "ds = (if cs = [] then [] else take (Suc at) cs @ a # drop (Suc at) cs)"
  shows "\<exists>up right n'. split_insert at sep child n = Inr (up, right, None, n') \<and> nd_changed n' \<and> nd_changed right \<and>
     sp_separator up = Some (ys ! 4) \<and> node_is n' (take 4 ys) (take 5 ds) \<and> node_is right (drop 5 ys) (drop 5 ds)"
proof -
  note l = node_is_lengths[OF n] and d = node_isD[OF n]
  have S: "sepv n = map Some xs" using arr_full[OF d(1) full] .
  have lx: "length xs = 8" using full by (simp add: ORDER_def)
  have lc: "length cs = 9" if "cs \<noteq> []" using l(4)[OF that] lx by simp
  have K: "kidv n = (if cs = [] then replicate 9 None else map Some cs)"
  proof (cases "cs = []")
    case True
    then show ?thesis using d(2) by (auto simp: arr_def node_consts image_subset_iff intro!: replicate_eqI)
  next
    case False
    then show ?thesis using arr_full[OF d(2)] lc by (simp add: node_consts)
  qed
  obtain x0 x1 x2 x3 x4 x5 x6 x7 where xs: "xs = [x0, x1, x2, x3, x4, x5, x6, x7]" using lx by (rule list_of_8)
  have cs9: "\<exists>c0 c1 c2 c3 c4 c5 c6 c7 c8. cs = [c0, c1, c2, c3, c4, c5, c6, c7, c8]" if "cs \<noteq> []"
    using lc[OF that] by (auto elim: list_of_9)
  have hc: "(child \<noteq> None) = (cs \<noteq> [])" using child(1) by auto
  have M: "ORDER div 2 = 4" by (simp add: ORDER_def)
  consider "at = 4" | "at < 4" | "5 \<le> at" by linarith
  then show ?thesis
  proof cases
    case 1
    obtain r left where sp: "node_split 4 True None None (child \<noteq> None) n = Inr ((r, None), left)" "nd_changed left" "nd_changed r"
        "sepv left = take 4 (sepv n) @ replicate 4 None" "sepv r = drop 4 (sepv n) @ replicate 4 None"
        "kidv left = (if child \<noteq> None then take 5 (kidv n) @ replicate 4 None else kidv n)"
        "kidv r = (if child \<noteq> None then None # drop 5 (kidv n) @ replicate 4 None else replicate 9 None)"
      using node_split_middle[OF l(1,2), of True "child \<noteq> None"] by auto
    have L: "node_is left (take 4 ys) (take 5 ds)"
      unfolding node_is_def arr_check sp(4,6) S K ys ds 1 hc using cs9 by (auto simp: xs node_consts numeral_eq_Suc)
    obtain r' where r': "(case child of Some c \<Rightarrow> set_child 0 c r | None \<Rightarrow> Inr r) = Inr r'" "nd_changed r'" "nd_separators r' = nd_separators r"
        "kidv r' = (case child of Some c \<Rightarrow> (kidv r)[0 := ch_entry_index c] | None \<Rightarrow> kidv r)"
    proof (cases child)
      case (Some c)
      have "0 < length (nd_children r)" using arg_cong[OF sp(7), of length] Some by auto
      then show ?thesis using that Some set_child_view[of 0 r c] by auto
    qed (use that sp(3) in auto)
    have "node_is r' (drop 5 ys) (drop 5 ds)"
      unfolding node_is_def arr_check r'(3,4) sp(5,7) S K ys ds 1 using cs9 child
      by (cases child) (auto simp: xs node_consts numeral_eq_Suc)
    moreover have "sp_separator sep = Some (ys ! 4)" using sep by (simp add: ys 1 xs numeral_eq_Suc)
    ultimately show ?thesis using L sp r' by (auto simp: split_insert_def M 1)
  next
    case 2
    obtain r left where sp: "node_split 4 False None None (child \<noteq> None) n = Inr ((r, None), left)" "nd_changed left" "nd_changed r"
        "sepv left = take 4 (sepv n) @ replicate 4 None" "sepv r = drop 4 (sepv n) @ replicate 4 None"
        "kidv left = (if child \<noteq> None then take 4 (kidv n) @ replicate 5 None else kidv n)"
        "kidv r = (if child \<noteq> None then drop 4 (kidv n) @ replicate 4 None else replicate 9 None)"
      using node_split_middle[OF l(1,2), of False "child \<noteq> None"] by auto
    have "3 < length (nd_separators left)" using arg_cong[OF sp(4), of length] l(1) by (simp add: ORDER_def)
    then obtain up left2 where rm: "remove_separator 3 left = Inr (up, left2)" "sp_separator up = sepv left ! 3"
        "sepv left2 = (sepv left)[3 := None]" "nd_children left2 = nd_children left"
      using remove_separator_view[of 3 left] by blast
    have L: "node_is left2 (take 3 xs) (take 4 cs)"
      unfolding node_is_def arr_check rm(3,4) sp(4,6) S K hc using cs9 by (auto simp: xs node_consts numeral_eq_Suc)
    have pre: "at \<le> length (take 3 xs)" "length (take 3 xs) < ORDER" "child = None \<longleftrightarrow> take 4 cs = []"
      using 2 child(1) by (auto simp: xs ORDER_def)
    obtain n' where ins: "insert_at at sep child left2 = Inr n'" "nd_changed n'"
        "node_is n' (take at (take 3 xs) @ x # drop at (take 3 xs))
           (case child of None \<Rightarrow> [] | Some _ \<Rightarrow> take (Suc at) (take 4 cs) @ a # drop (Suc at) (take 4 cs))"
      using insert_at_is[OF L pre(1,2) sep pre(3) child(2)] by auto
    have at: "at = 0 \<or> at = 1 \<or> at = 2 \<or> at = 3" using 2 by linarith
    have R: "node_is r (drop 5 ys) (drop 5 ds)"
      unfolding node_is_def arr_check sp(5,7) S K ys ds hc using cs9 at by (auto simp: xs node_consts numeral_eq_Suc)
    have "take at (take 3 xs) @ x # drop at (take 3 xs) = take 4 ys"
      using at by (elim disjE) (simp_all add: ys xs numeral_eq_Suc)
    moreover have "(case child of None \<Rightarrow> [] | Some _ \<Rightarrow> take (Suc at) (take 4 cs) @ a # drop (Suc at) (take 4 cs)) = take 5 ds"
      using at cs9 child(1) by (cases child) (auto simp: ds numeral_eq_Suc)
    moreover have "sp_separator up = Some (ys ! 4)"
      using at unfolding rm(2) sp(4) S by (elim disjE) (simp_all add: ys xs numeral_eq_Suc)
    ultimately show ?thesis using 2 sp(1,3) rm(1) ins R by (auto simp: split_insert_def M)
  next
    case 3
    obtain r left where sp: "node_split 5 False (Some (at, sep)) (map_option (Pair at) child) (child \<noteq> None) n = Inr ((r, None), left)"
        "nd_changed left" "nd_changed r" "sepv left = take 5 (sepv n) @ replicate 3 None"
        "sepv r = drop 5 (take at (sepv n) @ sp_separator sep # drop at (sepv n)) @ replicate 4 None"
        "kidv left = (if child \<noteq> None then take 5 (kidv n) @ replicate 4 None else kidv n)"
        "kidv r = (case child of
           Some c \<Rightarrow> drop 5 (take (Suc at) (kidv n) @ ch_entry_index c # drop (Suc at) (kidv n)) @ replicate 4 None
         | None \<Rightarrow> replicate 9 None)"
      using node_split_upper[OF l(1,2) 3 at, of sep child] by auto
    have "4 < length (nd_separators left)" using arg_cong[OF sp(4), of length] l(1) by (simp add: ORDER_def)
    then obtain up left2 where rm: "remove_separator 4 left = Inr (up, left2)" "sp_separator up = sepv left ! 4"
        "sepv left2 = (sepv left)[4 := None]" "nd_children left2 = nd_children left" "nd_changed left2"
      using remove_separator_view[of 4 left] by blast
    have at: "at = 5 \<or> at = 6 \<or> at = 7 \<or> at = 8" using 3 at unfolding ORDER_def by linarith
    have L: "node_is left2 (take 4 ys) (take 5 ds)"
      unfolding node_is_def arr_check rm(3,4) sp(4,6) S K ys ds hc using cs9 at by (auto simp: xs node_consts numeral_eq_Suc)
    have R: "node_is r (drop 5 ys) (drop 5 ds)"
      unfolding node_is_def arr_check sp(5,7) S K ys ds sep using cs9 at child
      by (cases child) (auto simp: xs node_consts numeral_eq_Suc)
    have "sp_separator up = Some (ys ! 4)"
      using at unfolding rm(2) sp(4) S by (elim disjE) (simp_all add: ys xs numeral_eq_Suc)
    then show ?thesis using 3 sp(1,3) rm(1,5) L R by (auto simp: split_insert_def M)
  qed
qed

end
