(* ===== verification/BTree_Codec.thy ===== *)
theory BTree_Codec
  imports BTree_Layout
begin

text \<open>
  The stored form of a node (\<open>write_node_plan\<close> and \<open>Node::from_encoded\<close> of \<^verbatim>\<open>src/src/btree/node.rs\<close>,
  \<open>Entry\<close> of \<^verbatim>\<open>src/src/btree/mod.rs\<close>): what encoding writes, and that decoding gives the node back
  without marks of change.
\<close>

definition sep_bytes :: "separator_inner \<Rightarrow> bytes" where
  "sep_bytes x = le64 (address_as_u64 (si_value x))
     @ (if 255 \<le> length (si_key x) then 255 # le32 (of_nat (length (si_key x))) else [of_nat (length (si_key x))])
     @ si_key x"

fun node_bytes :: "u64 list \<Rightarrow> separator_inner list \<Rightarrow> bytes" where
  "node_bytes (k # ks) (x # xs) = le64 k @ sep_bytes x @ node_bytes ks xs"
| "node_bytes (k # ks) [] = le64 k"
| "node_bytes [] xs = []"

text \<open>The words stored for the children: zero in a leaf.\<close>

definition kid_words :: "separator_inner list \<Rightarrow> address list \<Rightarrow> u64 list" where
  "kid_words xs cs = (if cs = [] then replicate (Suc (length xs)) 0 else map address_as_u64 cs)"

text \<open>What can be stored: addresses that are not null and keys below \<open>2 ^ 32\<close> bytes.\<close>

definition storable :: "separator_inner list \<Rightarrow> address list \<Rightarrow> bool" where
  "storable xs cs \<longleftrightarrow> length xs \<le> ORDER \<and> (cs = [] \<or> length cs = Suc (length xs)) \<and> (\<forall>c\<in>set cs. c \<noteq> NULL_ADDRESS) \<and>
     (\<forall>x\<in>set xs. si_value x \<noteq> NULL_ADDRESS \<and> length (si_key x) < 2 ^ 32)"

definition stored_separator :: "separator_inner \<Rightarrow> separator" where
  "stored_separator x = \<lparr>sp_modified = False, sp_separator = Some x\<rparr>"

definition stored_child :: "address \<Rightarrow> child" where
  "stored_child c = \<lparr>ch_moved = False, ch_entry_index = Some c\<rparr>"

definition clean_node :: "separator_inner list \<Rightarrow> address list \<Rightarrow> node" where
  "clean_node xs cs = \<lparr>nd_separators = map stored_separator xs @ replicate (ORDER - length xs) separator_default,
     nd_children = map stored_child cs @ replicate (ORDER_CHILD - length cs) child_default, nd_changed = False\<rparr>"

lemma clean_node_is: "storable xs cs \<Longrightarrow> node_is (clean_node xs cs) xs cs"
  by (auto simp: node_is_def clean_node_def storable_def arr_def stored_separator_def stored_child_def
      separator_default_def child_default_def node_consts comp_def)

lemma clean_node_unchanged [simp]: "\<not> nd_changed (clean_node xs cs)" "\<not> node_dirty (clean_node xs cs)"
  by (auto simp: clean_node_def node_dirty_def stored_separator_def stored_child_def separator_default_def child_default_def)

lemma null_address_iff: "address_as_u64 a = 0 \<longleftrightarrow> a = NULL_ADDRESS"
  by (cases a) (simp add: NULL_ADDRESS_def address_from_u64_def)

lemma address_of_word [simp]: "address_from_u64 (address_as_u64 a) = a"
  by (simp add: address_from_u64_def)

section \<open>Encoding\<close>

definition ebuf_end :: "bytes \<Rightarrow> ebuf" where
  "ebuf_end d = \<lparr>eoff = length d, edata = d\<rparr>"

text \<open>Writing into a buffer that has just been grown appends.\<close>

lemma write_grown:
  "length b \<le> n \<Longrightarrow> write_slice \<lparr>eoff = length d, edata = d @ replicate n 0\<rparr> b =
     Inr \<lparr>eoff = length (d @ b), edata = (d @ b) @ replicate (n - length b) 0\<rparr>"
  by (simp add: write_slice_def splice_def)

lemma write_child_append: "write_child_index a (ebuf_end d) = Inr (ebuf_end (d @ le64 (address_as_u64 a)))"
  using write_grown[of "le64 (address_as_u64 a)" 8 d]
  by (simp add: write_child_index_def entry_grow_def ebuf_end_def write_u64_def)

lemma write_separator_append: "write_separator (si_key x) (si_value x) (ebuf_end d) = Inr (ebuf_end (d @ sep_bytes x))"
proof -
  let ?k = "si_key x" and ?a = "le64 (address_as_u64 (si_value x))"
  let ?m = "if 255 \<le> length ?k then 255 # le32 (of_nat (length ?k)) else [of_nat (length ?k)]"
  let ?n = "8 + length ?m + length ?k"
  have g: "entry_grow (ebuf_end d) (if 255 \<le> length ?k then 8 + 1 + 4 + length ?k else 8 + 1 + length ?k) =
      \<lparr>eoff = length d, edata = d @ replicate ?n 0\<rparr>"
    by (simp add: entry_grow_def ebuf_end_def)
  have 1: "write_u64 \<lparr>eoff = length d, edata = d @ replicate ?n 0\<rparr> (address_as_u64 (si_value x)) =
      Inr \<lparr>eoff = length (d @ ?a), edata = (d @ ?a) @ replicate (length ?m + length ?k) 0\<rparr>"
    using write_grown[of ?a ?n d] by (simp add: write_u64_def)
  let ?d = "d @ ?a"
  have 2: "(if 255 \<le> length ?k then rbind (write_slice \<lparr>eoff = length ?d, edata = ?d @ replicate (length ?m + length ?k) 0\<rparr> [255])
        (\<lambda>e. write_u32 e (of_nat (length ?k)))
      else write_slice \<lparr>eoff = length ?d, edata = ?d @ replicate (length ?m + length ?k) 0\<rparr> [of_nat (length ?k)]) =
      Inr \<lparr>eoff = length (?d @ ?m), edata = (?d @ ?m) @ replicate (length ?k) 0\<rparr>"
    using write_grown[of "[255]" "5 + length ?k" ?d] write_grown[of "le32 (of_nat (length ?k))" "4 + length ?k" "?d @ [255]"]
      write_grown[of "[of_nat (length ?k)]" "1 + length ?k" ?d]
    by (auto simp: write_u32_def)
  have 3: "write_slice \<lparr>eoff = length (?d @ ?m), edata = (?d @ ?m) @ replicate (length ?k) 0\<rparr> ?k = Inr (ebuf_end (d @ sep_bytes x))"
    using write_grown[of ?k "length ?k" "?d @ ?m"] by (simp add: ebuf_end_def sep_bytes_def)
  show ?thesis unfolding write_separator_def Let_def g 1 rbind.simps 2 3 ..
qed

lemma length_kid_words: "cs = [] \<or> length cs = Suc (length xs) \<Longrightarrow> length (kid_words xs cs) = Suc (length xs)"
  by (auto simp: kid_words_def)

lemma kid_word_is:
  assumes "node_is n xs cs" and "i \<le> length xs"
  shows "address_as_u64 (case ch_entry_index (nd_children n ! i) of Some ix \<Rightarrow> ix | None \<Rightarrow> NULL_ADDRESS) = kid_words xs cs ! i"
proof (cases "cs = []")
  case True
  then have "ch_entry_index (nd_children n ! i) = None"
    using node_is_no_kid[of n xs i] assms node_is_lengths(3)[OF assms(1)] by (simp add: node_consts)
  then show ?thesis using assms(2) True by (simp add: kid_words_def NULL_ADDRESS_def address_from_u64_def del: replicate_Suc)
next
  case False
  then show ?thesis using node_is_kid[OF assms(1), of i] assms(2) node_is_lengths(4)[OF assms(1)] by (simp add: kid_words_def)
qed

lemma node_bytes_drop:
  assumes "i \<le> length xs" and "length ks = Suc (length xs)"
  shows "node_bytes (drop i ks) (drop i xs) =
     le64 (ks ! i) @ (if i < length xs then sep_bytes (xs ! i) @ node_bytes (drop (Suc i) ks) (drop (Suc i) xs) else [])"
proof -
  have "drop i ks = ks ! i # drop (Suc i) ks" using assms by (simp add: Cons_nth_drop_Suc)
  moreover have "i < length xs \<Longrightarrow> drop i xs = xs ! i # drop (Suc i) xs" by (simp add: Cons_nth_drop_Suc)
  ultimately show ?thesis by auto
qed

lemma encode_node_loop_is:
  assumes n: "node_is n xs cs" and i: "i \<le> length xs"
  shows "encode_node_loop n i (ebuf_end d) = Inr (ebuf_end (d @ node_bytes (drop i (kid_words xs cs)) (drop i xs)))"
  using i
proof (induction "length xs - i" arbitrary: i d)
  case (0 i d)
  then have i: "i = length xs" by simp
  have "\<not> ORDER_CHILD \<le> i + 1 \<Longrightarrow> sp_separator (nd_separators n ! i) = None"
    using node_is_sep[OF n, of i] i by (simp add: node_consts)
  then show ?case
    using node_bytes_drop[of i xs "kid_words xs cs"] length_kid_words[OF node_isD(3)[OF n]] i
    by (subst encode_node_loop.simps) (simp add: write_child_append kid_word_is[OF n])
next
  case (Suc m i d)
  then have i: "i < length xs" by simp
  then have o: "\<not> ORDER_CHILD \<le> i + 1" "sp_separator (nd_separators n ! i) = Some (xs ! i)"
    using node_is_sep[OF n, of i] node_is_lengths(3)[OF n] by (simp_all add: node_consts)
  have "encode_node_loop n (Suc i) (ebuf_end (d @ le64 (kid_words xs cs ! i) @ sep_bytes (xs ! i))) =
      Inr (ebuf_end ((d @ le64 (kid_words xs cs ! i) @ sep_bytes (xs ! i)) @ node_bytes (drop (Suc i) (kid_words xs cs)) (drop (Suc i) xs)))"
    by (rule Suc.hyps(1)) (use Suc.hyps(2) i in auto)
  then show ?case
    using node_bytes_drop[of i xs "kid_words xs cs"] length_kid_words[OF node_isD(3)[OF n]] i o
    by (subst encode_node_loop.simps) (simp add: write_child_append write_separator_append kid_word_is[OF n])
qed

lemma encode_node_is: "node_is n xs cs \<Longrightarrow> encode_node n = Inr (node_bytes (kid_words xs cs) xs)"
proof -
  have e: "btree_entry_empty = ebuf_end []" by (simp add: btree_entry_empty_def ebuf_end_def ebuf_new_def)
  show "node_is n xs cs \<Longrightarrow> encode_node n = Inr (node_bytes (kid_words xs cs) xs)"
    using encode_node_loop_is[of n xs cs 0 "[]"] unfolding encode_node_def e by (simp add: ebuf_end_def)
qed

section \<open>Decoding\<close>

definition ebuf_at :: "bytes \<Rightarrow> bytes \<Rightarrow> ebuf" where
  "ebuf_at p r = \<lparr>eoff = length p, edata = p @ r\<rparr>"

lemma read_at: "length b = n \<Longrightarrow> read_slice (ebuf_at p (b @ r)) n = Inr (b, ebuf_at (p @ b) r)"
  by (auto simp: read_slice_def ebuf_at_def)

lemma read_child_at:
  "read_child_index (ebuf_at p (le64 k @ r)) = Inr (if k = 0 then None else Some (address_from_u64 k), ebuf_at (p @ le64 k) r)"
  by (simp add: read_child_index_def read_u64_def read_at)

lemma read_separator_at:
  assumes "si_value x \<noteq> NULL_ADDRESS" and "length (si_key x) < 2 ^ 32"
  shows "read_separator (ebuf_at p (sep_bytes x @ r)) = Inr (Some x, ebuf_at (p @ sep_bytes x) r)"
proof -
  let ?k = "si_key x" and ?a = "address_as_u64 (si_value x)"
  have v: "?a \<noteq> 0" using assms(1) by (simp add: null_address_iff)
  have ne: "eoff (ebuf_at p (sep_bytes x @ r)) \<noteq> length (edata (ebuf_at p (sep_bytes x @ r)))"
    by (simp add: ebuf_at_def sep_bytes_def)
  have u: "unat (of_nat (length ?k) :: u32) = length ?k" using assms(2) by (simp add: unat_of_nat)
  have b: "(of_nat (length ?k) :: u8) \<noteq> 255" "unat (of_nat (length ?k) :: u8) = length ?k" if "length ?k < 255"
  proof -
    show *: "unat (of_nat (length ?k) :: u8) = length ?k" using that by (simp add: unat_of_nat)
    show "(of_nat (length ?k) :: u8) \<noteq> 255"
    proof
      assume "(of_nat (length ?k) :: u8) = 255"
      then have "unat (of_nat (length ?k) :: u8) = unat (255 :: u8)" by simp
      then show False using * that by simp
    qed
  qed
  have 1: "read_u64 (ebuf_at p (sep_bytes x @ r)) = Inr (?a, ebuf_at (p @ le64 ?a)
      ((if 255 \<le> length ?k then 255 # le32 (of_nat (length ?k)) else [of_nat (length ?k)]) @ ?k @ r))"
    by (simp add: read_u64_def sep_bytes_def read_at)
  show ?thesis
  proof (cases "255 \<le> length ?k")
    case True
    have 2: "read_slice (ebuf_at q (255 # le32 (of_nat (length ?k)) @ ?k @ r)) (Suc 0) =
        Inr ([255], ebuf_at (q @ [255]) (le32 (of_nat (length ?k)) @ ?k @ r))" for q
      using read_at[of "[255]" "Suc 0" q] by simp
    have 3: "read_u32 (ebuf_at q (le32 (of_nat (length ?k)) @ ?k @ r)) =
        Inr (of_nat (length ?k), ebuf_at (q @ le32 (of_nat (length ?k))) (?k @ r))" for q
      by (simp add: read_u32_def read_at REFS_SIZE_def)
    have "read_separator (ebuf_at p (sep_bytes x @ r)) =
        Inr (Some \<lparr>si_key = ?k, si_value = si_value x\<rparr>, ebuf_at (((p @ le64 ?a) @ [255]) @ le32 (of_nat (length ?k)) @ ?k) r)"
      unfolding read_separator_def if_not_P[OF ne] 1 rbind.simps prod.case using True v
      by (simp add: 2 3 u read_at)
    then show ?thesis using True by (simp add: sep_bytes_def)
  next
    case False
    have 2: "read_slice (ebuf_at q (of_nat (length ?k) # ?k @ r)) (Suc 0) = Inr ([of_nat (length ?k)], ebuf_at (q @ [of_nat (length ?k)]) (?k @ r))" for q
      using read_at[of "[of_nat (length ?k)]" "Suc 0" q] by simp
    have "read_separator (ebuf_at p (sep_bytes x @ r)) =
        Inr (Some \<lparr>si_key = ?k, si_value = si_value x\<rparr>, ebuf_at (((p @ le64 ?a) @ [of_nat (length ?k)]) @ ?k) r)"
      unfolding read_separator_def if_not_P[OF ne] 1 rbind.simps prod.case using False v b
      by (simp add: 2 read_at)
    then show ?thesis using False by (simp add: sep_bytes_def)
  qed
qed

lemma clean_node_blank: "clean_node [] [] = node_blank False"
  by (simp add: clean_node_def node_blank_def)

lemma clean_add_child:
  assumes "i < length cs" and "length cs \<le> ORDER_CHILD"
  shows "(clean_node xs (take i cs))\<lparr>nd_children := (nd_children (clean_node xs (take i cs)))
      [i := (nd_children (clean_node xs (take i cs)) ! i)\<lparr>ch_entry_index := Some (cs ! i)\<rparr>]\<rparr> = clean_node xs (take (Suc i) cs)"
proof -
  let ?L = "map stored_child (take i cs)"
  have r: "replicate (ORDER_CHILD - length (take i cs)) child_default = child_default # replicate (ORDER_CHILD - Suc i) child_default"
    using assms by (simp add: min_def Suc_diff_Suc flip: replicate_Suc)
  have l: "length ?L = i" using assms by simp
  have "(?L @ child_default # R) ! i = child_default" "(?L @ child_default # R)[i := y] = ?L @ y # R" for R y
    using l by (metis nth_append_length, metis list_update_length)
  moreover have "child_default\<lparr>ch_entry_index := Some (cs ! i)\<rparr> = stored_child (cs ! i)"
    by (simp add: child_default_def stored_child_def)
  moreover have "map stored_child (take (Suc i) cs) = ?L @ [stored_child (cs ! i)]" using assms by (simp add: take_Suc_conv_app_nth)
  moreover have "length (take (Suc i) cs) = Suc i" using assms by simp
  ultimately show ?thesis unfolding clean_node_def r by simp
qed

lemma clean_add_separator:
  assumes "i < length xs" and "length xs \<le> ORDER"
  shows "(clean_node (take i xs) cs)\<lparr>nd_separators := (nd_separators (clean_node (take i xs) cs))
      [i := (nd_separators (clean_node (take i xs) cs) ! i)\<lparr>sp_separator := Some (xs ! i)\<rparr>]\<rparr> = clean_node (take (Suc i) xs) cs"
proof -
  let ?L = "map stored_separator (take i xs)"
  have r: "replicate (ORDER - length (take i xs)) separator_default = separator_default # replicate (ORDER - Suc i) separator_default"
    using assms by (simp add: min_def Suc_diff_Suc flip: replicate_Suc)
  have l: "length ?L = i" using assms by simp
  have "(?L @ separator_default # R) ! i = separator_default" "(?L @ separator_default # R)[i := y] = ?L @ y # R" for R y
    using l by (metis nth_append_length, metis list_update_length)
  moreover have "separator_default\<lparr>sp_separator := Some (xs ! i)\<rparr> = stored_separator (xs ! i)"
    by (simp add: separator_default_def stored_separator_def)
  moreover have "map stored_separator (take (Suc i) xs) = ?L @ [stored_separator (xs ! i)]" using assms by (simp add: take_Suc_conv_app_nth)
  moreover have "length (take (Suc i) xs) = Suc i" using assms by simp
  ultimately show ?thesis unfolding clean_node_def r by simp
qed

lemma clean_read_child:
  assumes st: "storable xs cs" and i: "i \<le> length xs"
  shows "(case (if kid_words xs cs ! i = 0 then None else Some (address_from_u64 (kid_words xs cs ! i))) of
      Some ix \<Rightarrow> (clean_node ys (take i cs))\<lparr>nd_children := (nd_children (clean_node ys (take i cs)))
        [i := (nd_children (clean_node ys (take i cs)) ! i)\<lparr>ch_entry_index := Some ix\<rparr>]\<rparr>
    | None \<Rightarrow> clean_node ys (take i cs)) = clean_node ys (take (Suc i) cs)"
proof (cases "cs = []")
  case True
  then show ?thesis using i by (simp add: kid_words_def del: replicate_Suc)
next
  case False
  then have l: "i < length cs" "length cs \<le> ORDER_CHILD" using st i by (auto simp: storable_def node_consts)
  then have "cs ! i \<noteq> NULL_ADDRESS" using st by (auto simp: storable_def)
  then have "kid_words xs cs ! i \<noteq> 0" "address_from_u64 (kid_words xs cs ! i) = cs ! i"
    using False l by (simp_all add: kid_words_def null_address_iff)
  then show ?thesis using clean_add_child[OF l] by simp
qed

lemma from_encoded_loop_is:
  assumes st: "storable xs cs" and i: "i \<le> length xs"
  shows "from_encoded_loop i (ebuf_at p (node_bytes (drop i (kid_words xs cs)) (drop i xs))) (clean_node (take i xs) (take i cs)) =
     Inr (clean_node xs cs)"
  using i
proof (induction "length xs - i" arbitrary: i p)
  case (0 i p)
  then have i: "i = length xs" by simp
  have k: "length (kid_words xs cs) = Suc (length xs)" using st by (simp add: storable_def length_kid_words)
  have e: "node_bytes (drop i (kid_words xs cs)) (drop i xs) = le64 (kid_words xs cs ! i) @ []"
    using node_bytes_drop[of i xs "kid_words xs cs"] k i by simp
  have "take (Suc i) cs = cs" using st i by (auto simp: storable_def)
  moreover have "read_separator (ebuf_at q []) = Inr (None, ebuf_at q [])" for q
    by (simp add: read_separator_def ebuf_at_def)
  ultimately show ?case
    unfolding e
    by (subst from_encoded_loop.simps)
      (simp only: read_child_at rbind.simps prod.case Let_def clean_read_child[OF st eq_imp_le[OF i]], simp add: i)
next
  case (Suc m i p)
  then have i: "i < length xs" by simp
  let ?k = "kid_words xs cs ! i" and ?r = "node_bytes (drop (Suc i) (kid_words xs cs)) (drop (Suc i) xs)"
  have k: "length (kid_words xs cs) = Suc (length xs)" using st by (simp add: storable_def length_kid_words)
  have e: "node_bytes (drop i (kid_words xs cs)) (drop i xs) = le64 ?k @ sep_bytes (xs ! i) @ ?r"
    using node_bytes_drop[of i xs "kid_words xs cs"] k i by simp
  have o: "\<not> ORDER_CHILD \<le> i + 1" "length xs \<le> ORDER" using st i by (auto simp: storable_def node_consts)
  have x: "si_value (xs ! i) \<noteq> NULL_ADDRESS" "length (si_key (xs ! i)) < 2 ^ 32" using st i by (auto simp: storable_def)
  have ih: "from_encoded_loop (i + 1) (ebuf_at ((p @ le64 ?k) @ sep_bytes (xs ! i)) ?r) (clean_node (take (Suc i) xs) (take (Suc i) cs)) =
      Inr (clean_node xs cs)"
    using Suc.hyps(1)[of "Suc i" "(p @ le64 ?k) @ sep_bytes (xs ! i)"] Suc.hyps(2) i by simp
  show ?case
    unfolding e using i
    by (subst from_encoded_loop.simps)
      (simp only: read_child_at rbind.simps prod.case Let_def clean_read_child[OF st less_imp_le[OF i]] o(1) if_False
        read_separator_at[OF x] option.case clean_add_separator[OF i o(2)] ih)
qed

text \<open>A node that is stored is read back, with no mark of change.\<close>

lemma decode_encode:
  assumes "storable xs cs"
  shows "from_encoded (node_bytes (kid_words xs cs) xs) = Inr (clean_node xs cs)"
  using from_encoded_loop_is[OF assms, of 0 "[]"]
  by (simp add: from_encoded_def ebuf_new_def ebuf_at_def clean_node_blank)

lemma length_sep_bytes: "length (sep_bytes x) \<le> 13 + length (si_key x)"
  by (simp add: sep_bytes_def)

lemma length_node_bytes:
  "(\<And>x. x \<in> set xs \<Longrightarrow> length (si_key x) \<le> K) \<Longrightarrow> length (node_bytes ks xs) \<le> 8 + length xs * (21 + K)"
proof (induction ks xs rule: node_bytes.induct)
  case (1 k ks x xs)
  have "length (si_key x) \<le> K" "length (node_bytes ks xs) \<le> 8 + length xs * (21 + K)" using 1 by auto
  then show ?case using length_sep_bytes[of x] by simp
qed auto

end
