(* ===== verification/BTree_Tree.thy ===== *)
theory BTree_Tree
  imports BTree_Codec
begin

text \<open>
  The tree that a store of nodes holds. \<open>btr\<close> is a tree with the addresses of its nodes and
  values; \<open>stored_in\<close> says that a store holds the bytes of every node below the root. The list of
  its separators in order is the content of the tree: a lookup that walks the stored nodes
  (\<open>Node::get\<close> of \<^verbatim>\<open>src/src/btree/node.rs\<close>) is a lookup in that list.
\<close>

section \<open>Separators between lists\<close>

fun weave :: "'a list \<Rightarrow> 'a list list \<Rightarrow> 'a list" where
  "weave xs [] = xs"
| "weave [] (k # ks) = k @ concat ks"
| "weave (x # xs) (k # ks) = k @ x # weave xs ks"

definition lead :: "'a list \<Rightarrow> 'a list list \<Rightarrow> 'a list" where
  "lead xs ks = concat (map2 (\<lambda>k x. k @ [x]) ks xs)"

definition trail :: "'a list \<Rightarrow> 'a list list \<Rightarrow> 'a list" where
  "trail xs ks = concat (map2 (\<lambda>x k. x # k) xs ks)"

lemma lead_simps [simp]: "lead [] ks = []" "lead xs [] = []" "lead (x # xs) (k # ks) = k @ x # lead xs ks"
  by (simp_all add: lead_def)

lemma trail_simps [simp]: "trail [] ks = []" "trail xs [] = []" "trail (x # xs) (k # ks) = x # k @ trail xs ks"
  by (simp_all add: trail_def)

lemma weave_append:
  "length ks = length xs \<Longrightarrow> ls \<noteq> [] \<Longrightarrow> weave (xs @ ys) (ks @ ls) = lead xs ks @ weave ys ls"
  by (induction xs ks rule: list_induct2') auto

lemma weave_Cons: "length ks = length xs \<Longrightarrow> weave xs (k # ks) = k @ trail xs ks"
proof (induction xs arbitrary: k ks)
  case (Cons x xs)
  then show ?case by (cases ks) auto
qed auto

lemma trail_append: "length ks = length xs \<Longrightarrow> trail (xs @ ys) (ks @ ls) = trail xs ks @ trail ys ls"
  by (simp add: trail_def)

lemma lead_append: "length ks = length xs \<Longrightarrow> lead (xs @ ys) (ks @ ls) = lead xs ks @ lead ys ls"
  by (simp add: lead_def)

text \<open>The part before child \<open>i\<close>, the child, and the part behind it.\<close>

lemma weave_split:
  assumes "length ks = Suc (length xs)" and "i \<le> length xs"
  shows "weave xs ks = lead (take i xs) (take i ks) @ ks ! i @ trail (drop i xs) (drop (Suc i) ks)"
proof -
  have "weave xs ks = weave (take i xs @ drop i xs) (take i ks @ ks ! i # drop (Suc i) ks)"
    using assms by (simp add: id_take_nth_drop[symmetric])
  also have "\<dots> = lead (take i xs) (take i ks) @ weave (drop i xs) (ks ! i # drop (Suc i) ks)"
    using assms by (intro weave_append) auto
  finally show ?thesis using assms by (simp add: weave_Cons)
qed

lemma trail_nth:
  assumes "length ks = length xs" and "i < length xs"
  shows "trail xs ks = trail (take i xs) (take i ks) @ xs ! i # ks ! i @ trail (drop (Suc i) xs) (drop (Suc i) ks)"
proof -
  have "trail xs ks = trail (take i xs @ xs ! i # drop (Suc i) xs) (take i ks @ ks ! i # drop (Suc i) ks)"
    using assms by (simp add: id_take_nth_drop[symmetric])
  then show ?thesis using assms by (simp add: trail_append)
qed

lemma set_lead: "length ks = length xs \<Longrightarrow> set (lead xs ks) = set xs \<union> \<Union> (set ` set ks)"
  by (induction xs ks rule: list_induct2') auto

lemma set_trail: "length ks = length xs \<Longrightarrow> set (trail xs ks) = set xs \<union> \<Union> (set ` set ks)"
  by (induction xs ks rule: list_induct2') auto

lemma map_lead: "map f (lead xs ks) = lead (map f xs) (map (map f) ks)"
  by (induction xs ks rule: list_induct2') auto

lemma map_trail: "map f (trail xs ks) = trail (map f xs) (map (map f) ks)"
  by (induction xs ks rule: list_induct2') auto

lemma map_weave: "map f (weave xs ks) = weave (map f xs) (map (map f) ks)"
  by (induction xs ks rule: weave.induct) (auto simp: map_concat)

section \<open>Trees\<close>

datatype btr = Br (br_seps: "separator_inner list") (br_kids: "(address \<times> btr) list")

fun inorder :: "btr \<Rightarrow> separator_inner list" where
  "inorder (Br xs ks) = weave xs (map (\<lambda>k. inorder (snd k)) ks)"

fun owned :: "btr \<Rightarrow> address list" where
  "owned (Br xs ks) = map si_value xs @ concat (map (\<lambda>k. fst k # owned (snd k)) ks)"

abbreviation kid_addresses :: "btr \<Rightarrow> address list" where
  "kid_addresses t \<equiv> map fst (br_kids t)"

definition bytes_of :: "btr \<Rightarrow> bytes" where
  "bytes_of t = node_bytes (kid_words (br_seps t) (kid_addresses t)) (br_seps t)"

fun stored_in :: "(address \<rightharpoonup> bytes) \<Rightarrow> btr \<Rightarrow> bool" where
  "stored_in \<sigma> (Br xs ks) \<longleftrightarrow> (\<forall>k\<in>set ks. \<sigma> (fst k) = Some (bytes_of (snd k)) \<and> stored_in \<sigma> (snd k))"

text \<open>All leaves at depth \<open>d\<close>, every node storable and every node below the root at least half full.\<close>

fun wf_tree :: "nat \<Rightarrow> btr \<Rightarrow> bool" where
  "wf_tree d (Br xs ks) \<longleftrightarrow> storable xs (map fst ks) \<and>
     (case d of
        0 \<Rightarrow> ks = []
      | Suc e \<Rightarrow> length ks = Suc (length xs) \<and> (\<forall>k\<in>set ks. wf_tree e (snd k) \<and> ORDER div 2 \<le> length (br_seps (snd k))))"

text \<open>A node in memory that stands for the root of a tree.\<close>

definition root_is :: "node \<Rightarrow> btr \<Rightarrow> bool" where
  "root_is n t \<longleftrightarrow> node_is n (br_seps t) (kid_addresses t)"

lemma wf_tree_parts:
  assumes "wf_tree d t"
  shows "storable (br_seps t) (kid_addresses t)" and "d = 0 \<Longrightarrow> br_kids t = []"
    and "d = Suc e \<Longrightarrow> length (br_kids t) = Suc (length (br_seps t))"
    and "d = Suc e \<Longrightarrow> k \<in> set (br_kids t) \<Longrightarrow> wf_tree e (snd k) \<and> ORDER div 2 \<le> length (br_seps (snd k))"
  using assms by (cases t; auto)+

lemma stored_kid:
  assumes "stored_in \<sigma> t" and "k \<in> set (br_kids t)"
  shows "\<sigma> (fst k) = Some (bytes_of (snd k))" and "stored_in \<sigma> (snd k)"
  using assms by (cases t; auto)+

lemma inorder_split:
  assumes "wf_tree (Suc e) t" and "i \<le> length (br_seps t)"
  shows "inorder t = lead (take i (br_seps t)) (map (\<lambda>k. inorder (snd k)) (take i (br_kids t)))
     @ inorder (snd (br_kids t ! i))
     @ trail (drop i (br_seps t)) (map (\<lambda>k. inorder (snd k)) (drop (Suc i) (br_kids t)))"
  using weave_split[of "map (\<lambda>k. inorder (snd k)) (br_kids t)" "br_seps t" i] wf_tree_parts(3)[OF assms(1) refl] assms(2)
  by (cases t) (simp add: take_map drop_map)

section \<open>Looking a key up\<close>

abbreviation ordered :: "separator_inner list \<Rightarrow> bool" where
  "ordered xs \<equiv> sorted_wrt (<) (map si_key xs)"

definition find_sep :: "separator_inner list \<Rightarrow> bytes \<rightharpoonup> address" where
  "find_sep xs = map_of (map (\<lambda>x. (si_key x, si_value x)) xs)"

lemma find_sep_append: "find_sep (xs @ ys) k = (case find_sep xs k of Some a \<Rightarrow> Some a | None \<Rightarrow> find_sep ys k)"
  by (auto simp: find_sep_def map_add_def split: option.splits)

lemma find_sep_none: "(\<And>x. x \<in> set xs \<Longrightarrow> si_key x \<noteq> k) \<Longrightarrow> find_sep xs k = None"
  by (auto simp: find_sep_def map_of_eq_None_iff) blast

lemma find_sep_mem:
  assumes "ordered xs" and "x \<in> set xs"
  shows "find_sep xs (si_key x) = Some (si_value x)"
proof -
  have "distinct (map fst (map (\<lambda>x. (si_key x, si_value x)) xs))"
    using assms(1) by (simp add: comp_def strict_sorted_iff)
  then show ?thesis using assms(2) by (auto simp: find_sep_def intro!: map_of_is_SomeI)
qed

lemma takeWhile_position:
  fixes key :: bytes
  assumes "sorted (map si_key xs)" and "i = length (takeWhile (\<lambda>x. si_key x < key) xs)"
  shows "i \<le> length xs" and "\<And>j. j < i \<Longrightarrow> si_key (xs ! j) < key" and "\<And>j. i \<le> j \<Longrightarrow> j < length xs \<Longrightarrow> key \<le> si_key (xs ! j)"
    and "key \<in> si_key ` set xs \<Longrightarrow> i < length xs \<and> si_key (xs ! i) = key"
proof -
  show le: "i \<le> length xs" using assms(2) by (simp add: length_takeWhile_le)
  show lt: "si_key (xs ! j) < key" if "j < i" for j
    using that assms(2) nth_mem[of j "takeWhile (\<lambda>x. si_key x < key) xs"] set_takeWhileD takeWhile_nth by metis
  show ge: "key \<le> si_key (xs ! j)" if "i \<le> j" "j < length xs" for j
  proof -
    have "\<not> si_key (xs ! i) < key" using nth_length_takeWhile[of "\<lambda>x. si_key x < key" xs] assms(2) that by auto
    moreover have "map si_key xs ! i \<le> map si_key xs ! j" using sorted_nth_mono[OF assms(1), of i j] that by simp
    ultimately show ?thesis using that by simp
  qed
  assume "key \<in> si_key ` set xs"
  then obtain j where j: "j < length xs" "si_key (xs ! j) = key" by (auto simp: in_set_conv_nth)
  then have "i \<le> j" using lt[of j] by (metis less_irrefl not_le)
  then have "key \<le> si_key (xs ! i)" "si_key (xs ! i) \<le> key"
    using ge[of i] j sorted_nth_mono[OF assms(1), of i j] by auto
  then show "i < length xs \<and> si_key (xs ! i) = key" using \<open>i \<le> j\<close> j(1) by simp
qed

lemma lead_snoc: "length ks = length xs \<Longrightarrow> lead (xs @ [x]) (ks @ [k]) = lead xs ks @ k @ [x]"
  by (simp add: lead_append)

lemma weave_ordered: "ordered (weave zs ls) \<Longrightarrow> length ls = Suc (length zs) \<or> ls = [] \<Longrightarrow> ordered zs"
proof (induction zs ls rule: weave.induct)
  case (3 x xs k ks)
  have s: "ordered (weave xs ks)" "\<And>y. y \<in> set (weave xs ks) \<Longrightarrow> si_key x < si_key y"
    using "3.prems"(1) by (auto simp: sorted_wrt_append)
  have l: "length ks = Suc (length xs)" using "3.prems"(2) by auto
  then have "set xs \<subseteq> set (weave xs ks)"
    using weave_split[of ks xs 0] set_trail[of "drop (Suc 0) ks" xs] by auto
  then show ?case using s "3.IH"[OF s(1)] l by auto
qed auto

text \<open>What lies before and behind the child that a key belongs to.\<close>

lemma inorder_sides:
  assumes wf: "wf_tree (Suc e) t" and ord: "ordered (inorder t)"
    and i: "i = length (takeWhile (\<lambda>x. si_key x < key) (br_seps t))" and new: "key \<notin> si_key ` set (br_seps t)"
  shows "y \<in> set (lead (take i (br_seps t)) (map (\<lambda>k. inorder (snd k)) (take i (br_kids t)))) \<Longrightarrow> si_key y < key"
    and "y \<in> set (trail (drop i (br_seps t)) (map (\<lambda>k. inorder (snd k)) (drop (Suc i) (br_kids t)))) \<Longrightarrow> key < si_key y"
proof -
  let ?xs = "br_seps t" and ?ks = "map (\<lambda>k. inorder (snd k)) (br_kids t)"
  let ?l = "lead (take i ?xs) (take i ?ks)" and ?r = "trail (drop i ?xs) (drop (Suc i) ?ks)"
  have len: "length ?ks = Suc (length ?xs)" using wf_tree_parts(3)[OF wf refl] by simp
  have il: "i \<le> length ?xs" using i by (simp add: length_takeWhile_le)
  have io: "inorder t = ?l @ inorder (snd (br_kids t ! i)) @ ?r" using inorder_split[OF wf il] by (simp add: take_map drop_map)
  have "weave ?xs ?ks = inorder t" by (cases t) simp
  then have so: "ordered ?xs" using weave_ordered[of ?xs ?ks] ord len by simp
  then have sx: "sorted (map si_key ?xs)" by (simp add: strict_sorted_iff)
  note tp = takeWhile_position[OF sx i]
  show "si_key y < key" if "y \<in> set (lead (take i ?xs) (map (\<lambda>k. inorder (snd k)) (take i (br_kids t))))"
  proof -
    have y: "y \<in> set ?l" using that by (simp add: take_map)
    then obtain j where j: "i = Suc j" by (cases i) auto
    have "?l = lead (take j ?xs) (take j ?ks) @ ?ks ! j @ [?xs ! j]"
      using il len j by (simp add: take_Suc_conv_app_nth lead_snoc)
    moreover have "ordered ?l" using ord io by (simp add: sorted_wrt_append)
    ultimately have "si_key y \<le> si_key (?xs ! j)" using y by (auto simp: sorted_wrt_append less_imp_le)
    then show ?thesis using tp(2)[of j] j by simp
  qed
  show "key < si_key y" if "y \<in> set (trail (drop i ?xs) (map (\<lambda>k. inorder (snd k)) (drop (Suc i) (br_kids t))))"
  proof -
    have y: "y \<in> set ?r" using that by (simp add: drop_map)
    then have lt: "i < length ?xs" by (cases "i < length ?xs") auto
    have "?r = ?xs ! i # ?ks ! Suc i @ trail (drop (Suc i) ?xs) (drop (Suc (Suc i)) ?ks)"
      using lt len by (simp add: Cons_nth_drop_Suc[symmetric])
    moreover have "ordered ?r" using ord io by (simp add: sorted_wrt_append)
    ultimately have "si_key (?xs ! i) \<le> si_key y" using y by (auto simp: less_imp_le)
    moreover have "key < si_key (?xs ! i)" using tp(3)[of i] lt new by (auto simp: le_less)
    ultimately show ?thesis by simp
  qed
qed

lemma inorder_leaf: "wf_tree 0 t \<Longrightarrow> inorder t = br_seps t"
  by (cases t) simp

lemma inorder_seps: "wf_tree d t \<Longrightarrow> set (br_seps t) \<subseteq> set (inorder t)"
proof (cases d)
  case (Suc e)
  assume "wf_tree d t"
  then show ?thesis
    using inorder_split[of e t 0] wf_tree_parts(3)[of d t e] Suc
      set_trail[of "map (\<lambda>k. inorder (snd k)) (drop (Suc 0) (br_kids t))" "br_seps t"] by auto
qed (simp add: inorder_leaf)

lemma ordered_seps: "wf_tree d t \<Longrightarrow> ordered (inorder t) \<Longrightarrow> ordered (br_seps t)"
proof -
  assume "wf_tree d t" "ordered (inorder t)"
  then show ?thesis
    using weave_ordered[of "br_seps t" "map (\<lambda>k. inorder (snd k)) (br_kids t)"]
      wf_tree_parts(2,3)[of d t] by (cases t; cases d) auto
qed

lemma ordered_kid:
  assumes "wf_tree (Suc e) t" and "ordered (inorder t)" and "i \<le> length (br_seps t)"
  shows "ordered (inorder (snd (br_kids t ! i)))"
  using assms inorder_split[OF assms(1,3)] by (simp add: sorted_wrt_append)

text \<open>What a log and the tables answer for the nodes and values of a store.\<close>

definition reads :: "codecs \<Rightarrow> tables_ref \<Rightarrow> log_query \<Rightarrow> (address \<rightharpoonup> bytes) \<Rightarrow> bool" where
  "reads cd tables q \<sigma> \<longleftrightarrow> (\<forall>a b. \<sigma> a = Some b \<longrightarrow>
     get_encoded_entry cd a tables q = cret b \<and> (\<exists>tier. get_value cd (Fetch None) a tables q = cret (Some (tier, b))))"

lemma fetch_child_is:
  assumes n: "root_is n t" and wf: "wf_tree d t" and st: "stored_in \<sigma> t" and rd: "reads cd tables q \<sigma>"
    and i: "i \<le> length (br_seps t)"
  shows "d = 0 \<Longrightarrow> fetch_child cd n i tables q = cret None"
    and "d = Suc e \<Longrightarrow> \<exists>c. fetch_child cd n i tables q = cret (Some c) \<and>
       c = clean_node (br_seps (snd (br_kids t ! i))) (kid_addresses (snd (br_kids t ! i))) \<and> root_is c (snd (br_kids t ! i))"
proof -
  have nn: "node_is n (br_seps t) (kid_addresses t)" using n by (simp add: root_is_def)
  have o: "i < length (nd_children n)" using node_is_lengths(2,3)[OF nn] i by (simp add: node_consts)
  show "fetch_child cd n i tables q = cret None" if "d = 0"
    using node_is_no_kid[of n "br_seps t" i] nn wf_tree_parts(2)[OF wf that] o node_is_lengths(2)[OF nn]
    by (simp add: fetch_child_def child_at_def)
  assume d: "d = Suc e"
  let ?k = "br_kids t ! i"
  have k: "?k \<in> set (br_kids t)" and ix: "ch_entry_index (nd_children n ! i) = Some (fst ?k)"
    using wf_tree_parts(3)[OF wf d] i node_is_kid[OF nn, of i] by simp_all
  have "get_encoded_entry cd (fst ?k) tables q = cret (bytes_of (snd ?k))"
    using rd stored_kid(1)[OF st k] unfolding reads_def by blast
  moreover have sk: "storable (br_seps (snd ?k)) (kid_addresses (snd ?k))"
    using wf_tree_parts(1) wf_tree_parts(4)[OF wf d k] by blast
  ultimately show "\<exists>c. fetch_child cd n i tables q = cret (Some c) \<and>
       c = clean_node (br_seps (snd ?k)) (kid_addresses (snd ?k)) \<and> root_is c (snd ?k)"
    using o ix decode_encode[OF sk] clean_node_is[OF sk]
    by (simp add: fetch_child_def child_at_def bytes_of_def root_is_def cret_def)
qed

text \<open>The position of a key in the root of a tree.\<close>

lemma position_root:
  assumes "root_is n t" and "wf_tree d t" and "ordered (inorder t)" and "i = length (takeWhile (\<lambda>x. si_key x < key) (br_seps t))"
  shows "position n key = (key \<in> si_key ` set (br_seps t), i)" and "i \<le> length (br_seps t)"
    and "key \<in> si_key ` set (br_seps t) \<Longrightarrow> i < length (br_seps t) \<and> si_key (br_seps t ! i) = key \<and>
       find_sep (inorder t) key = Some (si_value (br_seps t ! i))"
proof -
  have s: "sorted (map si_key (br_seps t))" using ordered_seps[OF assms(2,3)] by (simp add: strict_sorted_iff)
  note tp = takeWhile_position[OF s assms(4)]
  show "position n key = (key \<in> si_key ` set (br_seps t), i)"
    using position_is[of n "br_seps t" "kid_addresses t" key] assms(1,4) s by (simp add: root_is_def)
  show "i \<le> length (br_seps t)" by (rule tp(1))
  assume k: "key \<in> si_key ` set (br_seps t)"
  then have "br_seps t ! i \<in> set (inorder t)" using tp(4)[OF k] inorder_seps[OF assms(2)] by auto
  then show "i < length (br_seps t) \<and> si_key (br_seps t ! i) = key \<and> find_sep (inorder t) key = Some (si_value (br_seps t ! i))"
    using find_sep_mem[OF assms(3)] tp(4)[OF k] by metis
qed

text \<open>A key that is not in the root is looked up in one child.\<close>

lemma find_sep_kid:
  assumes wf: "wf_tree (Suc e) t" and ord: "ordered (inorder t)"
    and i: "i = length (takeWhile (\<lambda>x. si_key x < key) (br_seps t))" and new: "key \<notin> si_key ` set (br_seps t)"
  shows "find_sep (inorder t) key = find_sep (inorder (snd (br_kids t ! i))) key"
proof -
  note sides = inorder_sides[OF wf ord i new]
  have il: "i \<le> length (br_seps t)" using i by (simp add: length_takeWhile_le)
  have "find_sep (lead (take i (br_seps t)) (map (\<lambda>k. inorder (snd k)) (take i (br_kids t)))) key = None"
    by (rule find_sep_none) (use sides(1) in blast)
  moreover have "find_sep (trail (drop i (br_seps t)) (map (\<lambda>k. inorder (snd k)) (drop (Suc i) (br_kids t)))) key = None"
    by (rule find_sep_none) (use sides(2) in blast)
  ultimately show ?thesis
    unfolding inorder_split[OF wf il] by (simp add: find_sep_append split: option.splits)
qed

text \<open>A lookup that walks the stored nodes is a lookup in the ordered list of separators.\<close>

lemma node_get_is:
  assumes "root_is n t" and "wf_tree d t" and "stored_in \<sigma> t" and rd: "reads cd tables q \<sigma>" and "ordered (inorder t)"
  shows "node_get cd key tables q n = cret (find_sep (inorder t) key)"
  using assms(1-3,5)
proof (induction d arbitrary: n t)
  case (0 n t)
  note p = position_root[OF 0(1,2,4) refl, of key]
  show ?case
  proof (cases "key \<in> si_key ` set (br_seps t)")
    case True
    then show ?thesis
      using p separator_address_is[of n "br_seps t" "kid_addresses t"] 0(1)
      by (subst node_get.simps) (simp add: root_is_def cret_def)
  next
    case False
    have "find_sep (inorder t) key = None"
      by (rule find_sep_none) (use False inorder_leaf[OF 0(2)] in auto)
    then show ?thesis
      using p False fetch_child_is(1)[OF 0(1-3) rd p(2) refl] by (subst node_get.simps) (simp add: cret_def)
  qed
next
  case (Suc e n t)
  let ?i = "length (takeWhile (\<lambda>x. si_key x < key) (br_seps t))" 
  let ?k = "snd (br_kids t ! ?i)"
  note p = position_root[OF Suc.prems(1,2,4) refl, of key]
  show ?case
  proof (cases "key \<in> si_key ` set (br_seps t)")
    case True
    then show ?thesis
      using p separator_address_is[of n "br_seps t" "kid_addresses t"] Suc.prems(1)
      by (subst node_get.simps) (simp add: root_is_def cret_def)
  next
    case False
    obtain c where c: "fetch_child cd n ?i tables q = cret (Some c)" "root_is c ?k"
      using fetch_child_is(2)[OF Suc.prems(1-3) rd p(2) refl] by blast
    have "br_kids t ! ?i \<in> set (br_kids t)" using p(2) wf_tree_parts(3)[OF Suc.prems(2) refl] by simp
    then have k: "wf_tree e ?k" "stored_in \<sigma> ?k"
      using wf_tree_parts(4)[OF Suc.prems(2) refl] stored_kid(2)[OF Suc.prems(3)] by blast+
    from Suc.IH[OF c(2) k ordered_kid[OF Suc.prems(2,4) p(2)]] show ?thesis
      using p(1) False c(1) find_sep_kid[OF Suc.prems(2,4) refl False]
      by (subst node_get.simps) (simp add: cret_def)
  qed
qed

end
