(* ===== verification/Table_Slots.thy ===== *)
theory Table_Slots
  imports Table
begin

text \<open>
  What a slot of a value table holds, and what a chain of slots stores: the reading half of the
  correctness of \<^verbatim>\<open>src/src/table.rs\<close>. A value is stored as a byte stream (the counter, the key and
  the payload) cut over a chain of slots; every query returns what the stream says, whatever the
  uninitialised part of its buffer holds.
\<close>

declare add_2_eq_Suc [simp del] add_2_eq_Suc' [simp del]

section \<open>Slots\<close>

definition wf_table :: "value_table \<Rightarrow> bool" where
  "wf_table t \<longleftrightarrow> MIN_ENTRY_SIZE \<le> es t \<and> es t \<le> MAX_ENTRY_SIZE \<and> (vt_multipart t \<longrightarrow> es t = 4096)"

lemma wf_table_bounds:
  assumes "wf_table t"
  shows "32 \<le> es t" and "es t \<le> 0x7ff8" and "vt_multipart t \<Longrightarrow> es t = 4096"
  using assms by (auto simp: wf_table_def MIN_ENTRY_SIZE_def MAX_ENTRY_SIZE_def)

text \<open>\<open>slot_has t q i bs\<close>: a query of slot \<open>i\<close> reads bytes that start with \<open>bs\<close>.\<close>

definition slot_has :: "value_table \<Rightarrow> log_query \<Rightarrow> u64 \<Rightarrow> bytes \<Rightarrow> bool" where
  "slot_has t q i bs \<longleftrightarrow> length bs \<le> es t \<and>
     (case q_value q (vt_id t) i of
        Some d \<Rightarrow> length d \<le> es t \<and> length bs \<le> length d \<and> take (length bs) d = bs
      | None \<Rightarrow>
          (case tf_file (vt_file t) of
             None \<Rightarrow> False
           | Some f \<Rightarrow> unat (slot_offset t i) + es t \<le> flen f \<and>
               pread f (unat (slot_offset t i)) (length bs) = bs))"

text \<open>The fields of a table that its planning operations never change.\<close>

definition same_table :: "value_table \<Rightarrow> value_table \<Rightarrow> bool" where
  "same_table t t' \<longleftrightarrow> vt_id t' = vt_id t \<and> vt_entry_size t' = vt_entry_size t \<and>
     vt_file t' = vt_file t \<and> vt_multipart t' = vt_multipart t \<and>
     vt_ref_counted t' = vt_ref_counted t \<and> vt_db_version t' = vt_db_version t"

lemma same_table_refl [simp]: "same_table t t"
  by (simp add: same_table_def)

lemma same_table_trans [trans]: "same_table t u \<Longrightarrow> same_table u v \<Longrightarrow> same_table t v"
  by (simp add: same_table_def)

lemma same_table_fields:
  assumes "same_table t t'"
  shows "vt_id t' = vt_id t" and "vt_entry_size t' = vt_entry_size t" and "vt_file t' = vt_file t"
    and "vt_multipart t' = vt_multipart t" and "vt_ref_counted t' = vt_ref_counted t"
    and "vt_db_version t' = vt_db_version t"
    and "wf_table t' = wf_table t" and "slot_has t' q = slot_has t q"
    and "ref_size t' = ref_size t"
  using assms
  by (simp_all add: same_table_def wf_table_def fun_eq_iff slot_has_def slot_offset_def ref_size_def
      cong: option.case_cong)

lemma slot_has_cong:
  "q_value q' (vt_id t) i = q_value q (vt_id t) i \<Longrightarrow> slot_has t q' i bs = slot_has t q i bs"
  by (simp add: slot_has_def)

lemma slot_has_written:
  "q_value q (vt_id t) i = Some bs \<Longrightarrow> length bs \<le> es t \<Longrightarrow> slot_has t q i bs"
  by (simp add: slot_has_def)

lemma slot_has_take:
  assumes "slot_has t q i bs"
  shows "slot_has t q i (take n bs)"
proof -
  let ?m = "min (length bs) n"
  have "take ?m d = take n bs" if "take (length bs) d = bs" for d :: bytes
  proof -
    have "take ?m d = take n (take (length bs) d)" by (simp add: min.commute)
    then show ?thesis unfolding that .
  qed
  moreover have "pread f off ?m = take n bs" if "pread f off (length bs) = bs" for f off
  proof -
    have "pread f off ?m = take ?m (pread f off (length bs))" by (simp add: take_pread)
    then show ?thesis unfolding that by (simp add: min_def)
  qed
  ultimately show ?thesis
    using assms by (auto simp: slot_has_def split: option.splits)
qed

lemma load_entry_slot:
  assumes "slot_has t q i bs" and "length (edata buf) = m" and "n \<le> m" and "n \<le> es t"
    and "length bs \<le> n"
  shows "\<exists>buf'. load_entry t q i buf n = Inr buf' \<and> eoff buf' = eoff buf \<and>
     length (edata buf') = m \<and> take (length bs) (edata buf') = bs"
proof (cases "q_value q (vt_id t) i")
  case None
  then obtain f where f: "tf_file (vt_file t) = Some f"
      "unat (slot_offset t i) + es t \<le> flen f"
      "pread f (unat (slot_offset t i)) (length bs) = bs"
    using assms(1) by (auto simp: slot_has_def split: option.splits)
  then have "take (length bs) (pread f (unat (slot_offset t i)) n) = bs"
    using assms(5) by (simp add: take_pread)
  then show ?thesis
    using None f assms(2-5)
    by (auto simp: load_entry_def log_value_def tfile_read_at_def read_exact_at_def splice_def)
next
  case (Some d)
  then have "length bs \<le> length d" "take (length bs) d = bs"
    using assms(1) by (auto simp: slot_has_def)
  then show ?thesis
    using Some assms(2-5)
    by (auto simp: load_entry_def log_value_def copy_prefix_def min_def)
qed

section \<open>Streams over chains of slots\<close>

definition head_marker :: "bool \<Rightarrow> bool \<Rightarrow> bytes" where
  "head_marker first compressed =
     (if first then (if compressed then MULTIHEAD_COMPRESSED else MULTIHEAD) else MULTIPART)"

lemma length_head_marker [simp]: "length (head_marker first c) = 2"
  by (simp add: head_marker_def markers)

fun stores :: "value_table \<Rightarrow> log_query \<Rightarrow> bool \<Rightarrow> bool \<Rightarrow> u64 list \<Rightarrow> bytes \<Rightarrow> bool" where
  "stores t q first c [] S = False"
| "stores t q first c [i] S =
     (length S \<le> es t - 2 \<and> slot_has t q i (size_bytes (length S) c @ S))"
| "stores t q first c (i # j # js) S =
     (vt_multipart t \<and> es t - 2 < length S \<and> j \<noteq> 0 \<and>
      slot_has t q i (head_marker first c @ le64 j @ take (es t - 10) S) \<and>
      stores t q False c (j # js) (drop (es t - 10) S))"

lemma stores_cong:
  "(\<And>i. i \<in> set is \<Longrightarrow> q_value q' (vt_id t) i = q_value q (vt_id t) i) \<Longrightarrow>
     stores t q' first c is S = stores t q first c is S"
  by (induction t q first c "is" S rule: stores.induct) (auto simp: slot_has_def)

lemma stores_same_table: "same_table t t' \<Longrightarrow> stores t' q first c is S = stores t q first c is S"
  by (induction t q first c "is" S rule: stores.induct) (auto simp: same_table_fields)

text \<open>The markers of the parts are told apart from sizes in a table that has chains.\<close>

lemma marker_recognised:
  assumes "take 2 (edata buf) = head_marker first c"
  shows "is_multi v buf" and "\<not> is_tombstone buf"
    and "first \<Longrightarrow> is_multihead_compressed buf = c"
  using assms
  by (auto simp: is_multi_def is_tombstone_def is_multihead_def is_multipart_def ebuf_is_def
      is_multihead_compressed_def head_marker_def SIZE_SIZE_def markers split: if_splits)

lemma size_bytes_not_v4:
  assumes "n \<le> 4094"
  shows "size_bytes n c \<noteq> MULTIPART_V4" and "size_bytes n c \<noteq> MULTIHEAD_V4"
proof -
  have d: "(from_le (size_bytes n c) :: u16) AND NOT COMPRESSED_MASK = of_nat n"
    using size_bytes_decode(1)[of n c] assms by (simp add: MAX_ENTRY_SIZE_def)
  have u: "unat (of_nat n :: u16) \<le> 4094"
    using assms by (simp add: unat_of_nat)
  have "unat ((from_le MULTIPART_V4 :: u16) AND NOT COMPRESSED_MASK) = 0x7eff"
    "unat ((from_le MULTIHEAD_V4 :: u16) AND NOT COMPRESSED_MASK) = 0x7dff"
    by (simp_all add: markers COMPRESSED_MASK_def)
  then show "size_bytes n c \<noteq> MULTIPART_V4" and "size_bytes n c \<noteq> MULTIHEAD_V4"
    using d u by auto
qed

lemma size_recognised:
  assumes "take 2 (edata buf) = size_bytes n c" and "n \<le> MAX_ENTRY_SIZE"
  shows "\<not> is_tombstone buf" and "n \<le> 4094 \<Longrightarrow> \<not> is_multi v buf"
  using assms size_bytes_not_marker[OF assms(2), of c] size_bytes_not_v4[of n c]
  by (auto simp: is_multi_def is_tombstone_def is_multihead_def is_multipart_def ebuf_is_def
      is_multihead_compressed_def SIZE_SIZE_def)

lemma read_slice_at:
  assumes "take (k + n) (edata buf) = ps @ xs" and "length ps = k" and "length xs = n"
    and "eoff buf = k" and "k + n \<le> length (edata buf)"
  shows "read_slice buf n = Inr (xs, buf\<lparr>eoff := k + n\<rparr>)"
proof -
  have "take n (drop k (edata buf)) = drop k (take (k + n) (edata buf))"
    by (simp add: drop_take)
  then show ?thesis
    using assms by (simp add: read_slice_def)
qed

text \<open>
  A cursor over a buffer that starts with known bytes; reads advance it through them.
\<close>

definition at_bytes :: "ebuf \<Rightarrow> bytes \<Rightarrow> bool" where
  "at_bytes buf bs \<longleftrightarrow> eoff buf + length bs \<le> length (edata buf) \<and>
     take (length bs) (drop (eoff buf) (edata buf)) = bs"

lemma at_bytes_read:
  assumes "at_bytes buf (xs @ rest)" and "n = length xs"
  shows "read_slice buf n = Inr (xs, buf\<lparr>eoff := eoff buf + n\<rparr>)"
    and "at_bytes (buf\<lparr>eoff := eoff buf + n\<rparr>) rest"
proof -
  let ?d = "drop (eoff buf) (edata buf)"
  have l: "eoff buf + length xs + length rest \<le> length (edata buf)"
    and t: "take (length xs + length rest) ?d = xs @ rest"
    using assms by (auto simp: at_bytes_def add.assoc)
  have "take (length xs) ?d = take (length xs) (take (length xs + length rest) ?d)" by simp
  then have x: "take (length xs) ?d = xs" unfolding t by simp
  have "take (length rest) (drop (length xs) ?d) = drop (length xs) (take (length xs + length rest) ?d)"
    by (simp add: drop_take)
  then have "take (length rest) (drop (length xs) ?d) = rest" unfolding t by simp
  then show "at_bytes (buf\<lparr>eoff := eoff buf + n\<rparr>) rest"
    using l assms(2) by (simp add: at_bytes_def add.commute add.assoc)
  show "read_slice buf n = Inr (xs, buf\<lparr>eoff := eoff buf + n\<rparr>)"
    using x l assms(2) by (simp add: read_slice_def)
qed

lemma at_bytes_skip:
  "at_bytes buf (xs @ rest) \<Longrightarrow> n = length xs \<Longrightarrow> at_bytes (buf\<lparr>eoff := eoff buf + n\<rparr>) rest"
  by (rule at_bytes_read(2))

lemma at_bytes_remaining:
  "at_bytes buf xs \<Longrightarrow> remaining_to buf (eoff buf + length xs) = Inr xs"
  by (simp add: at_bytes_def remaining_to_def slice_def)

lemma at_bytes_start:
  "take (length bs) (edata buf) = bs \<Longrightarrow> length bs \<le> length (edata buf) \<Longrightarrow>
     at_bytes (set_offset buf 0) bs"
  by (simp add: at_bytes_def set_offset_def)

end
