(* ===== verification/Table_Read.thy ===== *)
theory Table_Read
  imports Table_Slots
begin

text \<open>
  Every query of a value table, on a chain of slots that stores a stream: the value, its counter,
  its key and its compression flag come back, and a wrong key is told from the right one.
\<close>

section \<open>One part\<close>

lemma part_header_multi:
  assumes "at_bytes buf (head_marker first c @ le64 j @ xs)" and "eoff buf = 0" and "vt_multipart t"
  shows "part_header t part cmp buf =
      Inr ((es t, j), part = 0 \<and> 6 < vt_db_version t \<and> is_multihead_compressed buf \<or> cmp,
           buf\<lparr>eoff := 10\<rparr>)"
    and "at_bytes (buf\<lparr>eoff := 10\<rparr>) xs"
proof -
  have "take 2 (edata buf) = head_marker first c"
    using at_bytes_read(1)[of buf "head_marker first c" "le64 j @ xs" 2] assms(1,2)
    by (auto simp: read_slice_def split: if_splits)
  then have m: "is_multi (vt_db_version t) buf"
    by (rule marker_recognised)
  have b: "at_bytes (buf\<lparr>eoff := 2\<rparr>) (le64 j @ xs)"
    using at_bytes_skip[OF assms(1), of 2] assms(2) by simp
  have r: "read_slice (buf\<lparr>eoff := 2\<rparr>) 8 = Inr (le64 j, buf\<lparr>eoff := 10\<rparr>)"
    using at_bytes_read(1)[OF b, of 8] by simp
  show "at_bytes (buf\<lparr>eoff := 10\<rparr>) xs"
    using at_bytes_skip[OF b, of 8] by simp
  show "part_header t part cmp buf =
      Inr ((es t, j), part = 0 \<and> 6 < vt_db_version t \<and> is_multihead_compressed buf \<or> cmp,
           buf\<lparr>eoff := 10\<rparr>)"
    using m assms(2,3) r by (auto simp: part_header_def read_u64_def skip_size_def SIZE_SIZE_def)
qed

lemma part_header_plain:
  assumes wf: "wf_table t" and at: "at_bytes buf (size_bytes n c @ xs)" and "eoff buf = 0"
    and n: "n \<le> es t - 2"
  shows "part_header t part cmp buf =
      Inr ((2 + n, 0), if part = 0 \<or> vt_db_version t \<le> 6 then c else cmp, buf\<lparr>eoff := 2\<rparr>)"
    and "at_bytes (buf\<lparr>eoff := 2\<rparr>) xs"
proof -
  have r: "read_slice buf 2 = Inr (size_bytes n c, buf\<lparr>eoff := 2\<rparr>)"
    using at_bytes_read(1)[OF at, of 2] assms(3) by simp
  then have t2: "take 2 (edata buf) = size_bytes n c"
    using assms(3) by (auto simp: read_slice_def split: if_splits)
  have nm: "n \<le> MAX_ENTRY_SIZE" and n15: "n \<le> 0x7ff8"
    using n wf_table_bounds(2)[OF wf] by (auto simp: MAX_ENTRY_SIZE_def)
  have multi: "\<not> (vt_multipart t \<and> is_multi (vt_db_version t) buf)"
    using size_recognised(2)[OF t2 nm] n wf_table_bounds(3)[OF wf] by auto
  show "at_bytes (buf\<lparr>eoff := 2\<rparr>) xs"
    using at_bytes_skip[OF at, of 2] assms(3) by simp
  have "unat (of_nat n :: u16) = n"
    using n15 by (simp add: unat_of_nat)
  then show "part_header t part cmp buf =
      Inr ((2 + n, 0), if part = 0 \<or> vt_db_version t \<le> 6 then c else cmp, buf\<lparr>eoff := 2\<rparr>)"
    unfolding part_header_def if_not_P[OF multi] using r size_bytes_decode[OF nm, of c]
    by (simp add: read_size_def SIZE_SIZE_def Let_def)
qed

section \<open>Whole chains\<close>

text \<open>How a stream is cut over a chain of slots with \<open>n\<close> payload bytes per part.\<close>

fun cut :: "nat \<Rightarrow> 'a list \<Rightarrow> bytes \<Rightarrow> bytes list" where
  "cut n [] S = []"
| "cut n [i] S = [S]"
| "cut n (i # j # js) S = take n S # cut n (j # js) (drop n S)"

lemma concat_cut: "is \<noteq> [] \<Longrightarrow> concat (cut n is S) = S"
  by (induction n "is" S rule: cut.induct) auto

lemma load_part:
  assumes "wf_table t" and "slot_has t q i bs" and "length (edata buf) = MAX_ENTRY_BUF_SIZE"
  shows "\<exists>buf'. load_entry t q i buf (es t) = Inr buf' \<and>
     length (edata (set_offset buf' 0)) = MAX_ENTRY_BUF_SIZE \<and> eoff (set_offset buf' 0) = 0 \<and>
     take (length bs) (edata (set_offset buf' 0)) = bs \<and> at_bytes (set_offset buf' 0) bs"
proof -
  have le: "es t \<le> MAX_ENTRY_BUF_SIZE" "length bs \<le> es t"
    using assms(2) wf_table_bounds(2)[OF assms(1)] by (auto simp: MAX_ENTRY_BUF_SIZE_def slot_has_def)
  then obtain buf' where "load_entry t q i buf (es t) = Inr buf'"
      "length (edata buf') = MAX_ENTRY_BUF_SIZE" "take (length bs) (edata buf') = bs"
    using load_entry_slot[OF assms(2,3) le(1) order_refl le(2)] by blast
  then show ?thesis
    using le by (auto simp: at_bytes_def set_offset_def)
qed

text \<open>
  One turn of the loop. \<open>H\<close> is what the first part holds before the payload; the callback
  goes on.
\<close>

lemma for_parts_step_plain:
  assumes wf: "wf_table t" and S: "stores t q first c [i] (H @ V)"
    and buf: "length (edata buf) = MAX_ENTRY_BUF_SIZE"
    and key: "\<And>buf. at_bytes buf (H @ V) \<Longrightarrow> length (edata buf) = MAX_ENTRY_BUF_SIZE \<Longrightarrow>
        part_key t part rc kq buf = Inr (Some (rc', kq', buf\<lparr>eoff := eoff buf + length H\<rparr>))"
    and f: "\<And>b s. fst (f b s)"
  shows "for_parts_loop t q f buf part cmp rc kq i s =
      Some (Inr ((rc', if part = 0 \<or> vt_db_version t \<le> 6 then c else cmp), kq', snd (f V s)))"
proof -
  let ?n = "length (H @ V)"
  have n: "?n \<le> es t - 2" and sl: "slot_has t q i (size_bytes ?n c @ H @ V)"
    using S by auto
  obtain b where b: "load_entry t q i buf (es t) = Inr b"
      "length (edata (set_offset b 0)) = MAX_ENTRY_BUF_SIZE" "eoff (set_offset b 0) = 0"
      "take (length (size_bytes ?n c @ H @ V)) (edata (set_offset b 0)) = size_bytes ?n c @ H @ V"
      "at_bytes (set_offset b 0) (size_bytes ?n c @ H @ V)"
    using load_part[OF wf sl buf] by blast
  have t2: "take 2 (edata (set_offset b 0)) = size_bytes ?n c"
    using at_bytes_read(1)[OF b(5), of 2] b(3) by (auto simp: read_slice_def split: if_splits)
  have nt: "\<not> is_tombstone (set_offset b 0)"
    by (rule size_recognised(1)[OF t2]) (use n wf_table_bounds(2)[OF wf] in \<open>simp add: MAX_ENTRY_SIZE_def\<close>)
  note h1 = part_header_plain(1)[OF wf b(5,3) n, of part cmp] and h2 = part_header_plain(2)[OF wf b(5,3) n]
  note k = key[OF h2]
  have "at_bytes ((set_offset b 0)\<lparr>eoff := 2 + length H\<rparr>) V"
    using at_bytes_skip[OF h2, of "length H"] by simp
  then have r: "remaining_to ((set_offset b 0)\<lparr>eoff := 2 + length H\<rparr>) (2 + ?n) = Inr V"
    using at_bytes_remaining by (fastforce simp: add.assoc)
  obtain s' where fs: "f V s = (True, s')" using f[of V s] by (cases "f V s") auto
  show ?thesis
    using b nt h1 k r fs
    by (subst for_parts_loop.simps) simp
qed

lemma for_parts_step_multi:
  assumes wf: "wf_table t" and S: "stores t q first c (i # j # js) (H @ V)"
    and H: "length H \<le> 30" and fp: "first \<longleftrightarrow> part = 0"
    and buf: "length (edata buf) = MAX_ENTRY_BUF_SIZE"
    and key: "\<And>buf X. at_bytes buf (H @ X) \<Longrightarrow> length (edata buf) = MAX_ENTRY_BUF_SIZE \<Longrightarrow>
        part_key t part rc kq buf = Inr (Some (rc', kq', buf\<lparr>eoff := eoff buf + length H\<rparr>))"
    and f: "\<And>b s. fst (f b s)"
  shows "\<exists>buf'. length (edata buf') = MAX_ENTRY_BUF_SIZE \<and>
      for_parts_loop t q f buf part cmp rc kq i s =
      for_parts_loop t q f buf' (Suc part) (part = 0 \<and> 6 < vt_db_version t \<and> c \<or> cmp) rc' kq' j
        (snd (f (take (es t - 10 - length H) V) s))"
proof -
  let ?X = "take (es t - 10 - length H) V" and ?m = "head_marker first c"
  have es: "es t = 4096" and j: "j \<noteq> 0" and len: "es t - 2 < length (H @ V)"
    and sl: "slot_has t q i (?m @ le64 j @ H @ ?X)" and mp: "vt_multipart t"
    using S H wf_table_bounds(3)[OF wf] by (auto simp: min_def)
  obtain b where b: "load_entry t q i buf (es t) = Inr b"
      "length (edata (set_offset b 0)) = MAX_ENTRY_BUF_SIZE" "eoff (set_offset b 0) = 0"
      "take (length (?m @ le64 j @ H @ ?X)) (edata (set_offset b 0)) = ?m @ le64 j @ H @ ?X"
      "at_bytes (set_offset b 0) (?m @ le64 j @ H @ ?X)"
    using load_part[OF wf sl buf] by blast
  have t2: "take 2 (edata (set_offset b 0)) = ?m"
    using at_bytes_read(1)[OF b(5), of 2] b(3) by (auto simp: read_slice_def split: if_splits)
  note mr = marker_recognised[OF t2]
  note h1 = part_header_multi(1)[OF b(5,3) mp, of part cmp] and h2 = part_header_multi(2)[OF b(5,3) mp]
  note k = key[OF h2]
  have "at_bytes ((set_offset b 0)\<lparr>eoff := 10 + length H\<rparr>) ?X"
    using at_bytes_skip[OF h2, of "length H"] by simp
  moreover have "10 + length H + length ?X = es t"
    using len es H by simp
  ultimately have r: "remaining_to ((set_offset b 0)\<lparr>eoff := 10 + length H\<rparr>) (es t) = Inr ?X"
    using at_bytes_remaining[of "(set_offset b 0)\<lparr>eoff := 10 + length H\<rparr>" ?X] by simp
  obtain s' where fs: "f ?X s = (True, s')" using f[of ?X s] by (cases "f ?X s") auto
  have c: "(part = 0 \<and> 6 < vt_db_version t \<and> is_multihead_compressed (set_offset b 0) \<or> cmp)
      = (part = 0 \<and> 6 < vt_db_version t \<and> c \<or> cmp)"
    using mr(3) fp by auto
  show ?thesis
    using b mr(2) h1 k r fs j c
    by (intro exI[of _ "(set_offset b 0)\<lparr>eoff := 10 + length H\<rparr>"])
      (subst for_parts_loop.simps, simp)
qed

lemma for_parts_tail:
  assumes wf: "wf_table t" and f: "\<And>b s. fst (f b s)"
  shows "stores t q False c (i # js) S \<Longrightarrow> length (edata buf) = MAX_ENTRY_BUF_SIZE \<Longrightarrow> 0 < part \<Longrightarrow>
    for_parts_loop t q f buf part cmp rc kq i s =
      Some (Inr ((rc, if vt_db_version t \<le> 6 then c else cmp), kq,
        fold (\<lambda>b s. snd (f b s)) (cut (es t - 10) (i # js) S) s))"
proof (induction js arbitrary: i S buf part s)
  case Nil
  then show ?case
    using for_parts_step_plain[OF wf, of q False c i "[]" S buf part rc kq rc kq f cmp s] f
    by (simp add: part_key_def)
next
  case (Cons j js)
  have len: "es t - 2 < length S" using Cons.prems(1) by simp
  obtain buf' where "length (edata buf') = MAX_ENTRY_BUF_SIZE"
    "for_parts_loop t q f buf part cmp rc kq i s =
      for_parts_loop t q f buf' (Suc part) cmp rc kq j (snd (f (take (es t - 10) S) s))"
    using for_parts_step_multi[OF wf, of q False c i j js "[]" S part buf rc kq rc kq f cmp s]
      Cons.prems f by (auto simp: part_key_def)
  then show ?case
    using Cons.IH[of j "drop (es t - 10) S" buf' "Suc part"] Cons.prems by simp
qed

definition drop_head :: "nat \<Rightarrow> bytes list \<Rightarrow> bytes list" where
  "drop_head h ps = (case ps of [] \<Rightarrow> [] | p # ps \<Rightarrow> drop h p # ps)"

lemma for_parts_stores:
  assumes wf: "wf_table t" and S: "stores t q True c (i # js) (H @ V)" and H: "length H \<le> 30"
    and key: "\<And>buf X. at_bytes buf (H @ X) \<Longrightarrow> length (edata buf) = MAX_ENTRY_BUF_SIZE \<Longrightarrow>
        part_key t 0 1 kq buf = Inr (Some (rc, kq', buf\<lparr>eoff := eoff buf + length H\<rparr>))"
    and f: "\<And>b s. fst (f b s)" and buf: "length (edata buf) = MAX_ENTRY_BUF_SIZE"
  shows "for_parts_loop t q f buf 0 False 1 kq i s =
      Some (Inr ((rc, c), kq',
        fold (\<lambda>b s. snd (f b s)) (drop_head (length H) (cut (es t - 10) (i # js) (H @ V))) s))"
proof (cases js)
  case Nil
  then show ?thesis
    using for_parts_step_plain[OF wf, of q True c i H V buf 0 1 kq rc kq' f False s] S key f buf
    by (simp add: drop_head_def)
next
  case (Cons j js')
  have es: "es t = 4096" using S Cons wf_table_bounds(3)[OF wf] by simp
  obtain buf' where "length (edata buf') = MAX_ENTRY_BUF_SIZE"
    "for_parts_loop t q f buf 0 False 1 kq i s =
      for_parts_loop t q f buf' 1 (6 < vt_db_version t \<and> c) rc kq' j
        (snd (f (take (es t - 10 - length H) V) s))"
    using for_parts_step_multi[OF wf S[unfolded Cons] H, of 0 buf 1 kq rc kq' f False s] buf key f by auto
  moreover have "stores t q False c (j # js') (drop (es t - 10) (H @ V))"
    using S Cons by simp
  ultimately show ?thesis
    using for_parts_tail[OF wf f, of q c j js' "drop (es t - 10) (H @ V)" buf' 1] Cons H es
    by (auto simp: drop_head_def not_le)
qed

lemma concat_drop_head:
  assumes "wf_table t" and "stores t q first c is S" and "length H \<le> 30" and "S = H @ V"
  shows "concat (drop_head (length H) (cut (es t - 10) is S)) = V"
proof (cases "is")
  case Nil
  then show ?thesis using assms by simp
next
  case (Cons i js)
  then have c: "concat (cut (es t - 10) is S) = H @ V" using assms(4) concat_cut[of "is"] by simp
  have "length H \<le> length (hd (cut (es t - 10) is S))"
    using assms Cons wf_table_bounds[OF assms(1)] by (cases js) auto
  moreover have "cut (es t - 10) is S \<noteq> []" using Cons by (cases js) auto
  ultimately show ?thesis
    using c by (cases "cut (es t - 10) is S") (auto simp: drop_head_def append_eq_append_conv_if split: if_splits)
qed

section \<open>Heads\<close>

definition entry_head :: "value_table \<Rightarrow> u32 \<Rightarrow> table_key \<Rightarrow> bytes" where
  "entry_head t rc key = (if vt_ref_counted t then le32 rc else []) @ key_bytes key"

lemma length_entry_head:
  "wf_key key \<Longrightarrow> length (entry_head t rc key) = ref_size t + key_encoded_size key"
  by (simp add: entry_head_def ref_size_def REFS_SIZE_def length_key_bytes)

lemma entry_head_bound: "wf_key key \<Longrightarrow> length (entry_head t rc key) \<le> 30"
  by (auto simp: length_entry_head ref_size_def REFS_SIZE_def key_encoded_size_def PARTIAL_SIZE_def
      split: table_key.splits)

lemma read_rc:
  assumes "at_bytes buf (entry_head t rc key @ X)"
  shows "(if vt_ref_counted t then read_u32 buf else Inr (1, buf)) =
      Inr (if vt_ref_counted t then rc else 1, buf\<lparr>eoff := eoff buf + ref_size t\<rparr>)"
    and "at_bytes (buf\<lparr>eoff := eoff buf + ref_size t\<rparr>) (key_bytes key @ X)"
proof -
  have a: "vt_ref_counted t \<Longrightarrow> at_bytes buf (le32 rc @ key_bytes key @ X)"
    using assms by (simp add: entry_head_def)
  show "(if vt_ref_counted t then read_u32 buf else Inr (1, buf)) =
      Inr (if vt_ref_counted t then rc else 1, buf\<lparr>eoff := eoff buf + ref_size t\<rparr>)"
    using at_bytes_read(1)[OF a, of 4]
    by (auto simp: read_u32_def ref_size_def REFS_SIZE_def)
  show "at_bytes (buf\<lparr>eoff := eoff buf + ref_size t\<rparr>) (key_bytes key @ X)"
    using at_bytes_skip[OF a, of 4] assms
    by (auto simp: ref_size_def REFS_SIZE_def entry_head_def)
qed

lemma part_key_check:
  assumes "wf_key key" and "wf_key key'" and "key_encoded_size key = key_encoded_size key'"
    and at: "at_bytes buf (entry_head t rc key @ X)" and buf: "length (edata buf) = MAX_ENTRY_BUF_SIZE"
  shows "part_key t 0 1 (Check key') buf =
     Inr (if key_bytes key' = key_bytes key
          then Some (if vt_ref_counted t then rc else 1, Check key',
                     buf\<lparr>eoff := eoff buf + length (entry_head t rc key)\<rparr>)
          else None)"
proof (cases key')
  case (Partial h')
  then obtain h where h: "key = Partial h"
    using assms(3) by (cases key) (auto simp: key_encoded_size_def PARTIAL_SIZE_def)
  have l: "length (partial_key h) = PARTIAL_SIZE"
    using assms(1) h by (simp add: wf_key_def partial_key_def PARTIAL_SIZE_def)
  have "fetch_partial (buf\<lparr>eoff := eoff buf + ref_size t\<rparr>) =
      Inr (partial_key h, buf\<lparr>eoff := eoff buf + ref_size t + PARTIAL_SIZE\<rparr>)"
    using at_bytes_read(1)[OF read_rc(2)[OF at], of PARTIAL_SIZE] l h buf
    by (simp add: fetch_partial_def key_bytes_def MAX_ENTRY_BUF_SIZE_def PARTIAL_SIZE_def)
  then show ?thesis
    using Partial h length_entry_head[OF assms(1), of t rc]
    by (simp add: part_key_def read_rc(1)[OF at] key_fetch_def key_compare_def key_bytes_def
        key_encoded_size_def)
next
  case NoHash
  then have "key = NoHash"
    using assms(3) by (cases key) (auto simp: key_encoded_size_def PARTIAL_SIZE_def)
  then show ?thesis
    using NoHash length_entry_head[OF assms(1), of t rc]
    by (simp add: part_key_def read_rc(1)[OF at] key_fetch_def key_compare_def key_encoded_size_def)
qed

lemma part_key_fetch:
  assumes "wf_key key" and h: "key = Partial h"
    and at: "at_bytes buf (entry_head t rc key @ X)" and buf: "length (edata buf) = MAX_ENTRY_BUF_SIZE"
  shows "part_key t 0 1 (Fetch (Some d)) buf =
     Inr (Some (if vt_ref_counted t then rc else 1, Fetch (Some (partial_key h)),
                buf\<lparr>eoff := eoff buf + length (entry_head t rc key)\<rparr>))"
proof -
  have l: "length (partial_key h) = PARTIAL_SIZE"
    using assms(1) h by (simp add: wf_key_def partial_key_def PARTIAL_SIZE_def)
  have "fetch_partial (buf\<lparr>eoff := eoff buf + ref_size t\<rparr>) =
      Inr (partial_key h, buf\<lparr>eoff := eoff buf + ref_size t + PARTIAL_SIZE\<rparr>)"
    using at_bytes_read(1)[OF read_rc(2)[OF at], of PARTIAL_SIZE] l h buf
    by (simp add: fetch_partial_def key_bytes_def MAX_ENTRY_BUF_SIZE_def PARTIAL_SIZE_def)
  then show ?thesis
    using h length_entry_head[OF assms(1), of t rc]
    by (simp add: part_key_def read_rc(1)[OF at] key_encoded_size_def)
qed

section \<open>Queries\<close>

definition eff_rc :: "value_table \<Rightarrow> u32 \<Rightarrow> u32" where
  "eff_rc t rc = (if vt_ref_counted t then rc else 1)"

lemma fold_append_concat: "fold (\<lambda>b s. s @ b) ps s = s @ concat ps"
  by (induction ps arbitrary: s) auto

lemma length_ebuf_uninit [simp]: "length (edata (ebuf_uninit n)) = n"
  by (simp add: ebuf_uninit_def ebuf_new_def)

lemma query_check_stores:
  assumes wf: "wf_table t" "wf_key key" and S: "stores t q True c (i # js) (entry_head t rc key @ V)"
  shows "query t (Check key) i q =
     Some (Inr (if 0 < eff_rc t rc then Some (V, c, eff_rc t rc) else None, Check key))"
proof -
  have "for_parts t (Check key) i q (\<lambda>buf result. (True, result @ buf)) [] =
      Some (Inr ((eff_rc t rc, c), Check key,
        concat (drop_head (length (entry_head t rc key)) (cut (es t - 10) (i # js) (entry_head t rc key @ V)))))"
    unfolding for_parts_def
    by (subst for_parts_stores[OF wf(1) S entry_head_bound[OF wf(2)]])
      (auto simp: part_key_check[OF wf(2) wf(2) refl] eff_rc_def fold_append_concat)
  then show ?thesis
    using concat_drop_head[OF wf(1) S entry_head_bound[OF wf(2)]]
    by (simp add: query_def cret_def)
qed

lemma query_fetch_stores:
  assumes wf: "wf_table t" "wf_key (Partial h)"
    and S: "stores t q True c (i # js) (entry_head t rc (Partial h) @ V)"
  shows "query t (Fetch (Some d)) i q =
     Some (Inr (if 0 < eff_rc t rc then Some (V, c, eff_rc t rc) else None, Fetch (Some (partial_key h))))"
proof -
  have "for_parts t (Fetch (Some d)) i q (\<lambda>buf result. (True, result @ buf)) [] =
      Some (Inr ((eff_rc t rc, c), Fetch (Some (partial_key h)),
        concat (drop_head (length (entry_head t rc (Partial h)))
          (cut (es t - 10) (i # js) (entry_head t rc (Partial h) @ V)))))"
    unfolding for_parts_def
    by (subst for_parts_stores[OF wf(1) S entry_head_bound[OF wf(2)]])
      (auto simp: part_key_fetch wf eff_rc_def fold_append_concat)
  then show ?thesis
    using concat_drop_head[OF wf(1) S entry_head_bound[OF wf(2)]]
    by (simp add: query_def cret_def)
qed

text \<open>A first part whose key is another one ends every query with nothing.\<close>

lemma for_parts_wrong_key:
  assumes wf: "wf_table t" "wf_key key" "wf_key key'"
    and S: "stores t q True c (i # js) (entry_head t rc key @ V)"
    and k: "key_encoded_size key = key_encoded_size key'" "key_bytes key' \<noteq> key_bytes key"
  shows "for_parts t (Check key') i q f s = Some (Inr ((0, False), Check key', s))"
proof -
  let ?H = "entry_head t rc key"
  note H = entry_head_bound[OF wf(2), of t rc]
  have pk: "part_key t 0 1 (Check key') buf = Inr None"
    if "at_bytes buf (?H @ X)" "length (edata buf) = MAX_ENTRY_BUF_SIZE" for buf X
    using part_key_check[OF wf(2,3) k(1) that] k(2) by simp
  show ?thesis
  proof (cases js)
    case Nil
    let ?n = "length (?H @ V)"
    have n: "?n \<le> es t - 2" and sl: "slot_has t q i (size_bytes ?n c @ ?H @ V)"
      using S Nil by auto
    obtain b where b: "load_entry t q i (ebuf_uninit MAX_ENTRY_BUF_SIZE) (es t) = Inr b"
        "length (edata (set_offset b 0)) = MAX_ENTRY_BUF_SIZE" "eoff (set_offset b 0) = 0"
        "at_bytes (set_offset b 0) (size_bytes ?n c @ ?H @ V)"
      using load_part[OF wf(1) sl length_ebuf_uninit] by blast
    have t2: "take 2 (edata (set_offset b 0)) = size_bytes ?n c"
      using at_bytes_read(1)[OF b(4), of 2] b(3) by (auto simp: read_slice_def split: if_splits)
    have nt: "\<not> is_tombstone (set_offset b 0)"
      by (rule size_recognised(1)[OF t2])
        (use n wf_table_bounds(2)[OF wf(1)] in \<open>simp add: MAX_ENTRY_SIZE_def\<close>)
    note h1 = part_header_plain(1)[OF wf(1) b(4,3) n, of 0 False] and h2 = part_header_plain(2)[OF wf(1) b(4,3) n]
    show ?thesis
      unfolding for_parts_def using b nt h1 pk[OF h2]
      by (subst for_parts_loop.simps) simp
  next
    case (Cons j js')
    let ?X = "take (es t - 10 - length ?H) V" and ?m = "head_marker True c"
    have sl: "slot_has t q i (?m @ le64 j @ ?H @ ?X)" and mp: "vt_multipart t"
      using S Cons H wf_table_bounds(3)[OF wf(1)] by (auto simp: min_def)
    obtain b where b: "load_entry t q i (ebuf_uninit MAX_ENTRY_BUF_SIZE) (es t) = Inr b"
        "length (edata (set_offset b 0)) = MAX_ENTRY_BUF_SIZE" "eoff (set_offset b 0) = 0"
        "at_bytes (set_offset b 0) (?m @ le64 j @ ?H @ ?X)"
      using load_part[OF wf(1) sl length_ebuf_uninit] by blast
    have t2: "take 2 (edata (set_offset b 0)) = ?m"
      using at_bytes_read(1)[OF b(4), of 2] b(3) by (auto simp: read_slice_def split: if_splits)
    note h1 = part_header_multi(1)[OF b(4,3) mp, of 0 False] and h2 = part_header_multi(2)[OF b(4,3) mp]
    show ?thesis
      unfolding for_parts_def using b marker_recognised(2)[OF t2] h1 pk[OF h2]
      by (subst for_parts_loop.simps) simp
  qed
qed

end
