(* ===== verification/Table_Alloc.thy ===== *)
theory Table_Alloc
  imports Table_Read
begin

text \<open>
  Slot allocation in a value table: the free list threaded through tombstones, and the writing
  half of \<^verbatim>\<open>src/src/table.rs\<close>. Every slot below \<open>filled\<close> is on the free list or in use, never
  both; allocating, freeing and overwriting chains keep that, store the new stream and touch no
  slot of another chain.
\<close>

section \<open>The free list\<close>

definition hd0 :: "u64 list \<Rightarrow> u64" where
  "hd0 xs = (case xs of [] \<Rightarrow> 0 | x # _ \<Rightarrow> x)"

lemma hd0_simps [simp]: "hd0 [] = 0" "hd0 (x # xs) = x"
  by (simp_all add: hd0_def)

fun linked :: "value_table \<Rightarrow> log_query \<Rightarrow> u64 list \<Rightarrow> bool" where
  "linked t q [] = True"
| "linked t q (x # xs) = (slot_has t q x (TOMBSTONE @ le64 (hd0 xs)) \<and> linked t q xs)"

definition alloc_inv :: "value_table \<Rightarrow> log_query \<Rightarrow> u64 list \<Rightarrow> u64 set \<Rightarrow> bool" where
  "alloc_inv t q fl used \<longleftrightarrow> vt_last_removed t = hd0 fl \<and> linked t q fl \<and> distinct fl \<and>
     set fl \<inter> used = {} \<and> set fl \<union> used = {i. 1 \<le> i \<and> i < vt_filled t} \<and> 1 \<le> vt_filled t"

lemma linked_cong:
  "(\<And>i. i \<in> set xs \<Longrightarrow> q_value q' (vt_id t) i = q_value q (vt_id t) i) \<Longrightarrow>
     linked t q' xs = linked t q xs"
  by (induction xs) (auto simp: slot_has_cong[of q' t _ q])

lemma linked_same_table: "same_table t t' \<Longrightarrow> linked t' q xs = linked t q xs"
  by (induction xs) (auto simp: same_table_fields)

lemma alloc_inv_nonzero: "alloc_inv t q fl used \<Longrightarrow> i \<in> used \<Longrightarrow> i \<noteq> 0"
  by (auto simp: alloc_inv_def)

lemma alloc_inv_write:
  assumes "alloc_inv t q fl used" and "\<And>i. i \<notin> used \<Longrightarrow> q_value q' (vt_id t) i = q_value q (vt_id t) i"
  shows "alloc_inv t q' fl used"
proof -
  have "linked t q' fl = linked t q fl"
    by (rule linked_cong) (use assms in \<open>auto simp: alloc_inv_def\<close>)
  then show ?thesis
    using assms(1) by (simp add: alloc_inv_def)
qed

lemma read_next_free_linked:
  assumes "wf_table t" and "slot_has t q x (TOMBSTONE @ le64 nxt)"
  shows "read_next_free t x q = Inr nxt"
proof -
  let ?bs = "TOMBSTONE @ le64 nxt"
  have l: "length ?bs = 10" by (simp add: TOMBSTONE_def)
  have "\<exists>buf'. load_entry t q x (ebuf_uninit 10) 10 = Inr buf' \<and> eoff buf' = eoff (ebuf_uninit 10) \<and>
      length (edata buf') = 10 \<and> take (length ?bs) (edata buf') = ?bs"
    by (rule load_entry_slot[OF assms(2)]) (use wf_table_bounds(1)[OF assms(1)] l in auto)
  then obtain b where b: "load_entry t q x (ebuf_uninit 10) 10 = Inr b" "eoff b = 0"
      "length (edata b) = 10" "edata b = ?bs"
    using l by (auto simp: ebuf_uninit_def ebuf_new_def)
  then have "at_bytes b (TOMBSTONE @ le64 nxt @ [])"
    using l by (simp add: at_bytes_def)
  then have "at_bytes (b\<lparr>eoff := 2\<rparr>) (le64 nxt @ [])"
    using at_bytes_skip[of b TOMBSTONE "le64 nxt @ []" 2] b(2) by (simp add: TOMBSTONE_def)
  then have "read_slice (b\<lparr>eoff := 2\<rparr>) 8 = Inr (le64 nxt, b\<lparr>eoff := 10\<rparr>)"
    using at_bytes_read(1)[of "b\<lparr>eoff := 2\<rparr>" "le64 nxt" "[]" 8] by simp
  then show ?thesis
    using b(1,2) by (simp add: read_next_free_def read_u64_def skip_size_def SIZE_SIZE_def)
qed

lemma next_free_ok:
  assumes wf: "wf_table t" and inv: "alloc_inv t q fl used" and room: "unat (vt_filled t) < 2 ^ 64 - 1"
  shows "\<exists>i t' fl'. next_free t q = Inr (i, t') \<and> i \<noteq> 0 \<and> i \<notin> used \<and> same_table t t' \<and>
     alloc_inv t' q fl' (insert i used) \<and> unat (vt_filled t') \<le> unat (vt_filled t) + 1 \<and>
     set fl' \<subseteq> set fl \<and> vt_dirty_header t'"
proof (cases fl)
  case Nil
  let ?t = "t\<lparr>vt_filled := vt_filled t + 1, vt_dirty_header := True\<rparr>"
  have s: "same_table t ?t" by (simp add: same_table_def)
  have u: "unat (vt_filled t + 1) = unat (vt_filled t) + 1"
    using room by (simp add: unat_word_ariths)
  have "{i. 1 \<le> i \<and> i < vt_filled t + 1} = insert (vt_filled t) {i. 1 \<le> i \<and> i < vt_filled t}"
    using inv u
    by (auto simp: alloc_inv_def word_le_nat_alt word_less_nat_alt less_Suc_eq word_unat_eq_iff)
  then have "alloc_inv ?t q [] (insert (vt_filled t) used)"
    using inv Nil u by (auto simp: alloc_inv_def word_le_nat_alt)
  moreover have "vt_filled t \<notin> used" "vt_filled t \<noteq> 0"
    using inv by (auto simp: alloc_inv_def)
  ultimately show ?thesis
    using inv Nil s u by (auto simp: next_free_def Let_def alloc_inv_def intro!: exI[of _ "[]"])
next
  case (Cons x xs)
  let ?t = "t\<lparr>vt_last_removed := hd0 xs, vt_dirty_header := True\<rparr>"
  have s: "same_table t ?t" by (simp add: same_table_def)
  have "x \<in> set fl \<union> used" using Cons by simp
  then have "x \<in> {i. 1 \<le> i \<and> i < vt_filled t}" using inv unfolding alloc_inv_def by blast
  then have x: "x \<noteq> 0" "x \<notin> used" and sl: "slot_has t q x (TOMBSTONE @ le64 (hd0 xs))"
    using inv Cons by (auto simp: alloc_inv_def)
  have "alloc_inv ?t q xs (insert x used)"
    using inv Cons linked_same_table[OF s, of q xs] by (auto simp: alloc_inv_def)
  moreover have "next_free t q = Inr (x, ?t)"
    using inv Cons x read_next_free_linked[OF wf sl]
    by (simp add: next_free_def alloc_inv_def)
  ultimately show ?thesis
    using x s Cons by auto
qed

lemma next_free_le:
  assumes "alloc_inv t q fl used" and "next_free t q = Inr (i, t')"
  shows "i \<le> vt_filled t"
proof (cases fl)
  case Nil
  then show ?thesis using assms by (simp add: alloc_inv_def next_free_def Let_def)
next
  case (Cons x xs)
  then have "x \<in> {i. 1 \<le> i \<and> i < vt_filled t}" "vt_last_removed t = x"
    using assms(1) by (auto simp: alloc_inv_def)
  then show ?thesis
    using assms(2) by (auto simp: next_free_def Let_def rbind_Inr_iff split: if_splits)
qed

section \<open>Freeing\<close>

definition tomb :: "u64 \<Rightarrow> bytes" where
  "tomb nxt = TOMBSTONE @ le64 nxt"

lemma length_tomb [simp]: "length (tomb n) = 10"
  by (simp add: tomb_def TOMBSTONE_def)

lemma clear_slot_eq:
  "clear_slot t i w = Inr (t\<lparr>vt_last_removed := i, vt_dirty_header := True\<rparr>,
     insert_value w (vt_id t) i (tomb (vt_last_removed t)))"
proof -
  obtain b1 where b1: "write_slice (ebuf_uninit 10) TOMBSTONE = Inr b1" "wrote 10 ([] @ TOMBSTONE) b1"
    using wrote_write_slice[OF wrote_uninit, of TOMBSTONE 10] by (auto simp: TOMBSTONE_def)
  obtain b2 where b2: "write_slice b1 (le64 (vt_last_removed t)) = Inr b2"
      "wrote 10 (([] @ TOMBSTONE) @ le64 (vt_last_removed t)) b2"
    using wrote_write_slice[OF b1(2), of "le64 (vt_last_removed t)"] by (auto simp: TOMBSTONE_def)
  have "take (eoff b2) (edata b2) = tomb (vt_last_removed t)"
    using b2(2) by (simp add: wrote_def tomb_def)
  then show ?thesis
    using b1(1) b2(1) by (simp add: clear_slot_def write_u64_def)
qed

lemma clear_slot_ok:
  assumes wf: "wf_table t" and inv: "alloc_inv t (writer_query w) fl used" and i: "i \<in> used"
  shows "\<exists>t' w'. clear_slot t i w = Inr (t', w') \<and> same_table t t' \<and>
     alloc_inv t' (writer_query w') (i # fl) (used - {i}) \<and> vt_filled t' = vt_filled t \<and>
     vt_dirty_header t' \<and>
     w' = insert_value w (vt_id t) i (tomb (vt_last_removed t))"
proof -
  let ?t = "t\<lparr>vt_last_removed := i, vt_dirty_header := True\<rparr>"
  let ?w = "insert_value w (vt_id t) i (tomb (vt_last_removed t))"
  have s: "same_table t ?t" by (simp add: same_table_def)
  have "i \<notin> set fl" using inv i by (auto simp: alloc_inv_def)
  then have "linked t (writer_query ?w) fl = linked t (writer_query w) fl"
    by (intro linked_cong) (auto simp: writer_query_insert_value)
  moreover have "slot_has t (writer_query ?w) i (tomb (hd0 fl))"
    by (rule slot_has_written)
      (use inv wf_table_bounds(1)[OF wf] in \<open>auto simp: writer_query_insert_value alloc_inv_def\<close>)
  ultimately have "alloc_inv ?t (writer_query ?w) (i # fl) (used - {i})"
    using inv i linked_same_table[OF s] same_table_fields(8)[OF s] \<open>i \<notin> set fl\<close>
    by (auto simp: alloc_inv_def tomb_def)
  then show ?thesis
    using s by (auto simp: clear_slot_eq)
qed

text \<open>The links of a chain of slots as \<open>read_next_part\<close> follows them.\<close>

fun chain_links :: "value_table \<Rightarrow> log_query \<Rightarrow> u64 list \<Rightarrow> bool" where
  "chain_links t q [] = False"
| "chain_links t q [i] = (read_next_part t i q = Inr None)"
| "chain_links t q (i # j # js) = (read_next_part t i q = Inr (Some j) \<and> chain_links t q (j # js))"

lemma load_entry_cong:
  "q_value q' (vt_id t) i = q_value q (vt_id t) i \<Longrightarrow> load_entry t q' i = load_entry t q i"
  by (simp add: fun_eq_iff load_entry_def log_value_def)

lemma load_entry_same_table: "same_table t t' \<Longrightarrow> load_entry t' q i = load_entry t q i"
  by (rule ext)+ (auto simp: load_entry_def same_table_def slot_offset_def split: prod.splits)

lemma read_next_part_cong:
  "q_value q' (vt_id t) i = q_value q (vt_id t) i \<Longrightarrow> read_next_part t i q' = read_next_part t i q"
  by (simp add: read_next_part_def load_entry_cong[of q' t i q])

lemma chain_links_cong:
  "(\<And>i. i \<in> set is \<Longrightarrow> q_value q' (vt_id t) i = q_value q (vt_id t) i) \<Longrightarrow>
     chain_links t q' is = chain_links t q is"
proof (induction t q "is" rule: chain_links.induct)
  case (2 t q i)
  then show ?case using read_next_part_cong[of q' t i q] by simp
next
  case (3 t q i j js)
  then show ?case using read_next_part_cong[of q' t i q] by simp
qed simp

lemma read_next_part_same_table: "same_table t t' \<Longrightarrow> read_next_part t' i q = read_next_part t i q"
  by (simp add: read_next_part_def load_entry_same_table) (simp add: same_table_def)

lemma chain_links_same_table: "same_table t t' \<Longrightarrow> chain_links t' q is = chain_links t q is"
  by (induction t q "is" rule: chain_links.induct) (auto simp: read_next_part_same_table)

text \<open>
  The records a table writes to the log: their length can be read off their first bytes, as
  enacting does.
\<close>

definition valid_record :: "value_table \<Rightarrow> u64 \<Rightarrow> bytes \<Rightarrow> bool" where
  "valid_record t i d \<longleftrightarrow>
     (if i = 0 then length d = 16
      else (\<exists>n. d = tomb n) \<or>
        (vt_multipart t \<and> length d = es t \<and> (\<exists>f c j X. d = head_marker f c @ le64 j @ X)) \<or>
        (\<exists>c X. d = size_bytes (length X) c @ X \<and> length X \<le> es t - 2))"

lemma valid_record_same_table: "same_table t t' \<Longrightarrow> valid_record t' = valid_record t"
  by (simp add: valid_record_def same_table_def fun_eq_iff)

text \<open>The writes of an operation: only slots of \<open>A\<close> of the table change, to valid records.\<close>

definition only_slots :: "value_table \<Rightarrow> log_writer \<Rightarrow> log_writer \<Rightarrow> u64 set \<Rightarrow> bool" where
  "only_slots t w w' A \<longleftrightarrow>
     (\<forall>id' i. id' \<noteq> vt_id t \<or> i \<notin> A \<longrightarrow>
        q_value (writer_query w') id' i = q_value (writer_query w) id' i) \<and>
     (\<forall>i d. q_value (writer_query w') (vt_id t) i = Some d \<longrightarrow>
        q_value (writer_query w) (vt_id t) i = Some d \<or> valid_record t i d) \<and>
     q_index (writer_query w') = q_index (writer_query w)"

lemma only_slots_refl [simp]: "only_slots t w w A"
  by (simp add: only_slots_def)

lemma only_slotsD:
  "only_slots t w w' A \<Longrightarrow> i \<notin> A \<Longrightarrow>
     q_value (writer_query w') (vt_id t) i = q_value (writer_query w) (vt_id t) i"
  by (simp add: only_slots_def)

lemma only_slots_insert:
  "i \<in> A \<Longrightarrow> valid_record t i d \<Longrightarrow> only_slots t w (insert_value w (vt_id t) i d) A"
  by (auto simp: only_slots_def writer_query_insert_value)

lemma only_slots_trans:
  assumes "only_slots t w w' A" and "only_slots t w' w'' B" and "A \<union> B \<subseteq> C"
  shows "only_slots t w w'' C"
proof -
  have "q_value (writer_query w'') id' i = q_value (writer_query w) id' i"
    if "id' \<noteq> vt_id t \<or> i \<notin> C" for id' i
  proof -
    have "id' \<noteq> vt_id t \<or> i \<notin> A" "id' \<noteq> vt_id t \<or> i \<notin> B" using that assms(3) by auto
    then show ?thesis using assms(1,2) unfolding only_slots_def by metis
  qed
  moreover have "q_value (writer_query w) (vt_id t) i = Some d \<or> valid_record t i d"
    if "q_value (writer_query w'') (vt_id t) i = Some d" for i d
    using that assms(1,2) unfolding only_slots_def by blast
  moreover have "q_index (writer_query w'') = q_index (writer_query w)"
    using assms(1,2) unfolding only_slots_def by simp
  ultimately show ?thesis unfolding only_slots_def by blast
qed

lemma only_slots_mono: "only_slots t w w' A \<Longrightarrow> A \<subseteq> B \<Longrightarrow> only_slots t w w' B"
  by (rule only_slots_trans[OF _ only_slots_refl[where A = "{}"]]) auto

lemma only_slots_same_table:
  assumes "same_table t t'"
  shows "only_slots t' = only_slots t"
  by (intro ext) (simp only: only_slots_def valid_record_same_table[OF assms] same_table_fields(1)[OF assms])

lemma clear_chain_ok:
  assumes "wf_table t" and "alloc_inv t (writer_query w) fl used" and "set is \<subseteq> used"
    and "chain_links t (writer_query w) is" and "distinct is"
  shows "\<exists>t' w'. clear_chain t (hd is) w = Some (Inr (t', w')) \<and> same_table t t' \<and>
     alloc_inv t' (writer_query w') (rev is @ fl) (used - set is) \<and> vt_filled t' = vt_filled t \<and>
     only_slots t w w' (set is)"
  using assms
proof (induction "is" arbitrary: t w fl used)
  case Nil
  then show ?case by simp
next
  case (Cons i js)
  obtain t1 w1 where c: "clear_slot t i w = Inr (t1, w1)" "same_table t t1"
      "alloc_inv t1 (writer_query w1) (i # fl) (used - {i})" "vt_filled t1 = vt_filled t"
      "w1 = insert_value w (vt_id t) i (tomb (vt_last_removed t))"
    using clear_slot_ok[OF Cons.prems(1,2), of i] Cons.prems(3) by auto
  have "i \<noteq> 0" using alloc_inv_nonzero[OF Cons.prems(2), of i] Cons.prems(3) by simp
  then have "valid_record t i (tomb (vt_last_removed t))" by (auto simp: valid_record_def)
  then have o1: "only_slots t w w1 {i}" unfolding c(5) by (intro only_slots_insert) simp_all
  show ?case
  proof (cases js)
    case Nil
    then have "clear_chain t i w = Some (Inr (t1, w1))"
      using Cons.prems(4) c(1) by (subst clear_chain.simps) simp
    then show ?thesis
      using Nil c o1 by auto
  next
    case (Cons j js')
    note prems = Cons.prems
    have step: "clear_chain t i w = clear_chain t1 j w1"
      using prems(4) Cons c(1) by (subst clear_chain.simps) simp
    have "chain_links t (writer_query w1) js = chain_links t (writer_query w) js"
      by (rule chain_links_cong, rule only_slotsD[OF o1]) (use prems(5) in auto)
    then have "chain_links t1 (writer_query w1) js"
      using prems(4) Cons chain_links_same_table[OF c(2)] by simp
    moreover have "wf_table t1" using prems(1) c(2) by (simp add: same_table_fields)
    ultimately obtain t' w' where r: "clear_chain t1 (hd js) w1 = Some (Inr (t', w'))"
        "same_table t1 t'" "alloc_inv t' (writer_query w') (rev js @ i # fl) (used - {i} - set js)"
        "vt_filled t' = vt_filled t1" "only_slots t1 w1 w' (set js)"
      using Cons.IH[OF _ c(3)] prems(3,5) by (auto simp: Cons)
    have "only_slots t w w' (set (i # js))"
      by (rule only_slots_trans[OF o1 r(5)[unfolded only_slots_same_table[OF c(2)]]]) auto
    moreover have "used - {i} - set js = used - set (i # js)" by auto
    ultimately show ?thesis
      using step r c(2,4) same_table_trans by (auto simp: Cons)
  qed
qed

end
