(* ===== verification/Table_Write.thy ===== *)
theory Table_Write
  imports Table_Alloc
begin

text \<open>
  Writing chains: \<open>overwrite_chain\<close> stores the stream of its value whether it takes fresh slots,
  follows a shorter chain and extends it, or follows a longer one and frees the rest.
\<close>

section \<open>Links of a stored chain\<close>

lemma load_partial:
  assumes "wf_table t" and "slot_has t q i bs" and "length bs \<le> 10"
  shows "\<exists>b. load_entry t q i (ebuf_uninit 10) 10 = Inr b \<and> eoff b = 0 \<and> length (edata b) = 10 \<and>
     take (length bs) (edata b) = bs"
  using load_entry_slot[OF assms(2), of "ebuf_uninit 10" 10 10] wf_table_bounds(1)[OF assms(1)] assms(3)
  by (auto simp: ebuf_uninit_def ebuf_new_def)

lemma read_next_part_multi:
  assumes wf: "wf_table t" and "vt_multipart t" and sl: "slot_has t q i (head_marker f c @ le64 j @ X)"
  shows "read_next_part t i q = Inr (Some j)"
proof -
  let ?bs = "head_marker f c @ le64 j"
  have sl10: "slot_has t q i ?bs"
    using slot_has_take[OF sl, of 10] by simp
  obtain b where b: "load_entry t q i (ebuf_uninit 10) 10 = Inr b" "eoff b = 0"
      "length (edata b) = 10" "take (length ?bs) (edata b) = ?bs"
    using load_partial[OF wf sl10] by auto
  then have e: "edata b = ?bs" by simp
  have t2: "take 2 (edata b) = head_marker f c" by (simp add: e)
  have "at_bytes b (head_marker f c @ le64 j @ [])" using b e by (simp add: at_bytes_def)
  then have "at_bytes (b\<lparr>eoff := 2\<rparr>) (le64 j @ [])"
    using at_bytes_skip[of b "head_marker f c" "le64 j @ []" 2] b(2) by simp
  then have "read_slice (b\<lparr>eoff := 2\<rparr>) 8 = Inr (le64 j, b\<lparr>eoff := 10\<rparr>)"
    using at_bytes_read(1)[of "b\<lparr>eoff := 2\<rparr>" "le64 j" "[]" 8] by simp
  then show ?thesis
    using b(1,2) marker_recognised(1)[OF t2] assms(2)
    by (simp add: read_next_part_def read_u64_def skip_size_def SIZE_SIZE_def)
qed

lemma read_next_part_plain:
  assumes wf: "wf_table t" and sl: "slot_has t q i (size_bytes n c @ X)" and n: "n \<le> es t - 2"
  shows "read_next_part t i q = Inr None"
proof -
  have sl2: "slot_has t q i (size_bytes n c)"
    using slot_has_take[OF sl, of 2] by simp
  obtain b where b: "load_entry t q i (ebuf_uninit 10) 10 = Inr b"
      "take 2 (edata b) = size_bytes n c"
    using load_partial[OF wf sl2] by auto
  have "n \<le> MAX_ENTRY_SIZE"
    using n wf_table_bounds(2)[OF wf] by (simp add: MAX_ENTRY_SIZE_def)
  then have "\<not> (vt_multipart t \<and> is_multi (vt_db_version t) b)"
    using size_recognised(2)[OF b(2)] n wf_table_bounds(3)[OF wf] by auto
  then show ?thesis
    unfolding read_next_part_def b(1) rbind.simps by (rule if_not_P)
qed

lemma stores_chain_links:
  "wf_table t \<Longrightarrow> stores t q first c is S \<Longrightarrow> chain_links t q is"
  by (induction t q first c "is" S rule: stores.induct)
    (auto intro: read_next_part_multi read_next_part_plain)

section \<open>One iteration\<close>

definition at_stream :: "value_table \<Rightarrow> table_key \<Rightarrow> bytes \<Rightarrow> nat \<Rightarrow> bytes \<Rightarrow> bool" where
  "at_stream t key v offset S \<longleftrightarrow> offset \<le> length v \<and>
     S = (if offset = 0 then entry_head t 1 key else []) @ drop offset v"

lemma at_stream_same_table: "same_table t t' \<Longrightarrow> at_stream t' = at_stream t"
  by (simp add: at_stream_def entry_head_def same_table_def fun_eq_iff)

lemma write_rc_key:
  assumes w: "wrote m bs buf" and m: "length bs + length (entry_head t 1 key) \<le> m"
  shows "\<exists>b. rbind (if vt_ref_counted t then write_u32 buf 1 else Inr buf) (key_write key) = Inr b \<and>
     wrote m (bs @ entry_head t 1 key) b"
proof (cases "vt_ref_counted t")
  case True
  then have l: "length bs + length (le32 1) \<le> m" "length (bs @ le32 1) + length (key_bytes key) \<le> m"
    using m by (auto simp: entry_head_def)
  obtain b1 where b1: "write_slice buf (le32 1) = Inr b1" "wrote m (bs @ le32 1) b1"
    using wrote_write_slice[OF w l(1)] by auto
  obtain b2 where "key_write key b1 = Inr b2" "wrote m ((bs @ le32 1) @ key_bytes key) b2"
    using wrote_key_write[OF b1(2) l(2)] by auto
  then show ?thesis using True b1 by (simp add: write_u32_def entry_head_def)
next
  case False
  then show ?thesis using wrote_key_write[OF w, of key] m by (simp add: entry_head_def)
qed

text \<open>What follows the marker of a part: the head of the entry when it is the first, then the
  payload. \<open>n\<close> bytes of the stream go into this slot.\<close>

lemma part_payload:
  assumes S: "at_stream t key v offset S" and w: "wrote m bs buf" and n: "n \<le> length S"
    and m: "length bs + n \<le> m" and h: "offset = 0 \<Longrightarrow> length (entry_head t 1 key) \<le> n"
  defines "hl \<equiv> (if offset = 0 then length (entry_head t 1 key) else 0)"
  shows "\<exists>b1 b2. (if offset = 0
          then rbind (if vt_ref_counted t then write_u32 buf 1 else Inr buf) (key_write key)
          else Inr buf) = Inr b1 \<and> eoff b1 - eoff buf = hl \<and> hl \<le> n \<and>
     slice v offset (offset + n - hl) = Inr (drop hl (take n S)) \<and>
     write_slice b1 (drop hl (take n S)) = Inr b2 \<and> wrote m (bs @ take n S) b2 \<and>
     (0 < offset + n - hl \<longrightarrow> at_stream t key v (offset + n - hl) (drop n S))"
proof -
  let ?H = "if offset = 0 then entry_head t 1 key else []"
  have hl: "hl = length ?H" "hl \<le> n" using h by (auto simp: hl_def)
  have S': "S = ?H @ drop offset v" "offset \<le> length v"
    using S unfolding at_stream_def by auto
  have tk: "take n S = ?H @ take (n - hl) (drop offset v)"
    unfolding S'(1) using hl by simp
  have "\<exists>b. (if offset = 0
          then rbind (if vt_ref_counted t then write_u32 buf 1 else Inr buf) (key_write key)
          else Inr buf) = Inr b \<and> wrote m (bs @ ?H) b"
  proof (cases "offset = 0")
    case True
    then show ?thesis using write_rc_key[OF w, of t key] h m by auto
  next
    case False
    then show ?thesis using w by simp
  qed
  then obtain b1 where b1: "(if offset = 0
          then rbind (if vt_ref_counted t then write_u32 buf 1 else Inr buf) (key_write key)
          else Inr buf) = Inr b1" "wrote m (bs @ ?H) b1"
    by blast
  have dr: "drop hl (take n S) = take (n - hl) (drop offset v)"
    unfolding tk hl(1) by simp
  have ln: "n - hl \<le> length v - offset" using n S' hl by (cases "offset = 0") auto
  have "length (bs @ ?H) + length (take (n - hl) (drop offset v)) \<le> m"
    using m hl ln by simp
  then obtain b2 where b2: "write_slice b1 (take (n - hl) (drop offset v)) = Inr b2"
      "wrote m ((bs @ ?H) @ take (n - hl) (drop offset v)) b2"
    using wrote_write_slice[OF b1(2)] by blast
  have sl: "slice v offset (offset + n - hl) = Inr (take (n - hl) (drop offset v))"
    using ln hl(2) S'(2) by (simp add: slice_def) linarith
  have "eoff b1 - eoff buf = hl" using b1(2) w hl by (simp add: wrote_def)
  moreover have "0 < offset + n - hl \<longrightarrow> at_stream t key v (offset + n - hl) (drop n S)"
  proof -
    have "drop n S = drop (offset + n - hl) v"
      unfolding S'(1) using hl by (simp add: add.commute)
    moreover have "offset + n - hl \<le> length v" using ln hl(2) S'(2) by simp
    ultimately show ?thesis by (simp add: at_stream_def)
  qed
  ultimately show ?thesis
    using b1 b2 sl dr tk hl(2) by (metis append.assoc)
qed

lemma write_multi_head:
  assumes "es t - 2 < rem" and "(if follow then Inr (nx, t) else next_free t q) = Inr (n, t')"
  shows "\<exists>buf. write_part_head t q rem c start follow nx = Inr (es t - 10, n, buf, t') \<and>
     wrote MAX_ENTRY_BUF_SIZE (head_marker (start = 0) c @ le64 n) buf"
proof -
  let ?m = "head_marker (start = 0) c"
  obtain b1 where b1: "write_slice (ebuf_uninit MAX_ENTRY_BUF_SIZE) ?m = Inr b1"
      "wrote MAX_ENTRY_BUF_SIZE ([] @ ?m) b1"
    using wrote_write_slice[OF wrote_uninit, of ?m MAX_ENTRY_BUF_SIZE]
    by (auto simp: MAX_ENTRY_BUF_SIZE_def)
  obtain b2 where b2: "write_slice b1 (le64 n) = Inr b2"
      "wrote MAX_ENTRY_BUF_SIZE (([] @ ?m) @ le64 n) b2"
    using wrote_write_slice[OF b1(2), of "le64 n"] by (auto simp: MAX_ENTRY_BUF_SIZE_def)
  show ?thesis
    using assms b1 b2
    by (simp add: write_part_head_def Let_def write_u64_def head_marker_def SIZE_SIZE_def INDEX_SIZE_def)
qed

lemma write_plain_head:
  assumes "rem \<le> es t - 2"
  shows "\<exists>buf. write_part_head t q rem c start follow nx = Inr (rem, nx, buf, t) \<and>
     wrote MAX_ENTRY_BUF_SIZE (size_bytes rem c) buf"
proof -
  obtain b1 where "write_slice (ebuf_uninit MAX_ENTRY_BUF_SIZE) (size_bytes rem c) = Inr b1"
      "wrote MAX_ENTRY_BUF_SIZE ([] @ size_bytes rem c) b1"
    using wrote_write_slice[OF wrote_uninit, of "size_bytes rem c" MAX_ENTRY_BUF_SIZE]
    by (auto simp: MAX_ENTRY_BUF_SIZE_def)
  then show ?thesis
    using assms
    by (simp add: write_part_head_def Let_def write_size_def size_bytes_def SIZE_SIZE_def)
qed

lemma overwrite_part_multi:
  assumes wf: "wf_table t" "wf_key key" and mp: "vt_multipart t"
    and S: "at_stream t key v offset S" and len: "es t - 2 < length S"
    and ex: "(if follow then read_next_part t i (writer_query w) else Inr None) = Inr ex"
    and fo: "follow' = (follow \<and> ex \<noteq> None)"
    and al: "(if follow' then Inr (the ex, t) else next_free t (writer_query w)) = Inr (n, t')"
    and st: "same_table t t'"
  shows "\<exists>offset'. overwrite_part t w key v c (length S) offset start i follow =
       Inr (t', insert_value w (vt_id t) i (head_marker (start = 0) c @ le64 n @ take (es t - 10) S),
            length (drop (es t - 10) S), offset', if start = 0 then i else start, n, follow') \<and>
     0 < offset' \<and> at_stream t key v offset' (drop (es t - 10) S)"
proof -
  let ?nx = "case ex of Some nxt \<Rightarrow> nxt | None \<Rightarrow> 0"
  let ?hl = "if offset = 0 then length (entry_head t 1 key) else 0"
  have es: "es t = 4096" by (rule wf_table_bounds(3)[OF wf(1) mp])
  have "(if follow' then Inr (?nx, t) else next_free t (writer_query w)) = Inr (n, t')"
    using al fo by (auto split: option.splits if_splits)
  then obtain buf where buf: "write_part_head t (writer_query w) (length S) c start follow' ?nx =
        Inr (es t - 10, n, buf, t')"
      "wrote MAX_ENTRY_BUF_SIZE (head_marker (start = 0) c @ le64 n) buf"
    using write_multi_head[OF len] by blast
  have n: "es t - 10 \<le> length S" using len by simp
  have m: "length (head_marker (start = 0) c @ le64 n) + (es t - 10) \<le> MAX_ENTRY_BUF_SIZE"
    using es by (simp add: MAX_ENTRY_BUF_SIZE_def)
  have h: "length (entry_head t 1 key) \<le> es t - 10"
    using entry_head_bound[OF wf(2), of t 1] es by simp
  have pos: "0 < offset + (es t - 10) - ?hl"
    using entry_head_bound[OF wf(2), of t 1] es by simp
  obtain b1 b2 where b: "(if offset = 0
          then rbind (if vt_ref_counted t then write_u32 buf 1 else Inr buf) (key_write key)
          else Inr buf) = Inr b1" "eoff b1 - eoff buf = ?hl" "?hl \<le> es t - 10"
      "slice v offset (offset + (es t - 10) - ?hl) = Inr (drop ?hl (take (es t - 10) S))"
      "write_slice b1 (drop ?hl (take (es t - 10) S)) = Inr b2"
      "wrote MAX_ENTRY_BUF_SIZE ((head_marker (start = 0) c @ le64 n) @ take (es t - 10) S) b2"
      "at_stream t key v (offset + (es t - 10) - ?hl) (drop (es t - 10) S)"
    using part_payload[OF S buf(2) n m h] pos by blast
  have out: "take (eoff b2) (edata b2) = head_marker (start = 0) c @ le64 n @ take (es t - 10) S"
    using b(6) by (simp add: wrote_def)
  have off: "offset + (es t - 10 - ?hl) = offset + (es t - 10) - ?hl" using b(3) by simp
  have lt: "\<not> offset + (es t - 10) < ?hl" using b(3) by simp
  have ids: "vt_id t' = vt_id t" "vt_ref_counted t' = vt_ref_counted t"
    using st by (simp_all add: same_table_def)
  show ?thesis
    unfolding overwrite_part_def ex rbind.simps Let_def fo[symmetric] buf(1) prod.case ids b(1) b(2)
      if_not_P[OF lt] b(4) b(5) out off
    using b(7) pos by (intro exI[of _ "offset + (es t - 10) - ?hl"]) simp
qed

lemma overwrite_part_plain:
  assumes wf: "wf_table t" "wf_key key"
    and S: "at_stream t key v offset S" and len: "length S \<le> es t - 2"
    and ex: "(if follow then read_next_part t i (writer_query w) else Inr None) = Inr ex"
  shows "\<exists>offset'. overwrite_part t w key v c (length S) offset start i follow =
       Inr (t, insert_value w (vt_id t) i (size_bytes (length S) c @ S), 0, offset',
            if start = 0 then i else start, case ex of Some nxt \<Rightarrow> nxt | None \<Rightarrow> 0,
            follow \<and> ex \<noteq> None)"
proof -
  let ?nx = "case ex of Some nxt \<Rightarrow> nxt | None \<Rightarrow> 0"
  let ?hl = "if offset = 0 then length (entry_head t 1 key) else 0"
  obtain buf where buf: "write_part_head t (writer_query w) (length S) c start (follow \<and> ex \<noteq> None) ?nx =
        Inr (length S, ?nx, buf, t)"
      "wrote MAX_ENTRY_BUF_SIZE (size_bytes (length S) c) buf"
    using write_plain_head[OF len] by blast
  have m: "length (size_bytes (length S) c) + length S \<le> MAX_ENTRY_BUF_SIZE"
    using len wf_table_bounds(2)[OF wf(1)] by (simp add: MAX_ENTRY_BUF_SIZE_def)
  have h: "offset = 0 \<Longrightarrow> length (entry_head t 1 key) \<le> length S"
    using S by (simp add: at_stream_def)
  obtain b1 b2 where b: "(if offset = 0
          then rbind (if vt_ref_counted t then write_u32 buf 1 else Inr buf) (key_write key)
          else Inr buf) = Inr b1" "eoff b1 - eoff buf = ?hl" "?hl \<le> length S"
      "slice v offset (offset + length S - ?hl) = Inr (drop ?hl (take (length S) S))"
      "write_slice b1 (drop ?hl (take (length S) S)) = Inr b2"
      "wrote MAX_ENTRY_BUF_SIZE (size_bytes (length S) c @ take (length S) S) b2"
    using part_payload[OF S buf(2) order_refl m h] by blast
  have out: "take (eoff b2) (edata b2) = size_bytes (length S) c @ S"
    using b(6) by (simp add: wrote_def)
  have lt: "\<not> offset + length S < ?hl" using b(3) by simp
  show ?thesis
    unfolding overwrite_part_def ex rbind.simps Let_def buf(1) prod.case b(1) b(2)
      if_not_P[OF lt] b(4) b(5) out
    by simp
qed

section \<open>The loop\<close>

definition wrote_chain :: "value_table \<Rightarrow> log_writer \<Rightarrow> value_table \<Rightarrow> log_writer \<Rightarrow> bool \<Rightarrow> bool \<Rightarrow>
    u64 \<Rightarrow> bytes \<Rightarrow> u64 list \<Rightarrow> u64 set \<Rightarrow> bool" where
  "wrote_chain t w t' w' first c i S rest used \<longleftrightarrow>
     (\<exists>js fl. same_table t t' \<and> stores t' (writer_query w') first c (i # js) S \<and>
        alloc_inv t' (writer_query w') fl (used - set rest \<union> set js) \<and> distinct (i # js) \<and>
        set js \<inter> (used - set rest) = {} \<and> only_slots t w w' (- (used - set (i # rest))) \<and>
        unat (vt_filled t') \<le> unat (vt_filled t) + length S)"

lemma alloc_inv_insert_value:
  "alloc_inv t (writer_query w) fl used \<Longrightarrow> i \<in> used \<Longrightarrow>
     alloc_inv t (writer_query (insert_value w (vt_id t) i d)) fl used"
  by (rule alloc_inv_write) (auto simp: writer_query_insert_value)

lemma chain_links_insert_value:
  "i \<notin> set is \<Longrightarrow> chain_links t (writer_query (insert_value w (vt_id t) i d)) is
     = chain_links t (writer_query w) is"
  by (rule chain_links_cong) (auto simp: writer_query_insert_value)

lemma overwrite_plain_done:
  assumes wf: "wf_table t" and inv: "alloc_inv t (writer_query w) fl used" and i: "i \<in> used"
    and len: "length S \<le> es t - 2" and rest: "rest \<noteq> [] \<Longrightarrow> chain_links t (writer_query w) rest"
    and d: "distinct (i # rest)" "set rest \<subseteq> used"
    and w1: "w1 = insert_value w (vt_id t) i (size_bytes (length S) c @ S)"
  shows "\<exists>t' w'. (if hd0 rest \<noteq> 0 then cbind (clear_chain t (hd0 rest) w1) (\<lambda>(t, w). cret (st, t, w))
            else Some (Inr (st, t, w1))) = Some (Inr (st, t', w')) \<and>
     wrote_chain t w t' w' first c i S rest used"
proof -
  have es: "length (size_bytes (length S) c @ S) \<le> es t"
    using len wf_table_bounds(1)[OF wf] by simp
  have inv1: "alloc_inv t (writer_query w1) fl used"
    unfolding w1 by (rule alloc_inv_insert_value[OF inv i])
  have q1: "q_value (writer_query w1) (vt_id t) i = Some (size_bytes (length S) c @ S)"
    by (simp add: w1 writer_query_insert_value)
  have "valid_record t i (size_bytes (length S) c @ S)"
    using alloc_inv_nonzero[OF inv i] len by (auto simp: valid_record_def)
  then have o1: "only_slots t w w1 (- (used - set (i # rest)))"
    unfolding w1 by (intro only_slots_insert) simp_all
  show ?thesis
  proof (cases rest)
    case Nil
    have "stores t (writer_query w1) first c [i] S"
      using len slot_has_written[OF q1 es] by simp
    then have "wrote_chain t w t w1 first c i S rest used"
      unfolding wrote_chain_def using inv1 o1 Nil
      by (intro exI[of _ "[]"] exI[of _ fl]) auto
    then show ?thesis using Nil by auto
  next
    case (Cons j js)
    have j: "j \<noteq> 0" using alloc_inv_nonzero[OF inv] d(2) Cons by auto
    have "chain_links t (writer_query w1) rest"
      unfolding w1 using rest d(1) Cons by (subst chain_links_insert_value) auto
    then obtain t' w' where c: "clear_chain t j w1 = Some (Inr (t', w'))" "same_table t t'"
        "alloc_inv t' (writer_query w') (rev rest @ fl) (used - set rest)"
        "only_slots t w1 w' (set rest)" "vt_filled t' = vt_filled t"
      using clear_chain_ok[OF wf inv1 d(2)] d(1) Cons by auto
    have "q_value (writer_query w') (vt_id t) i = Some (size_bytes (length S) c @ S)"
      using only_slotsD[OF c(4), of i] d(1) q1 by simp
    then have "stores t' (writer_query w') first c [i] S"
      using len slot_has_written[OF _ es] by (simp add: same_table_fields[OF c(2)])
    moreover have "only_slots t w w' (- (used - set (i # rest)))"
      by (rule only_slots_trans[OF o1 c(4)]) auto
    ultimately have "wrote_chain t w t' w' first c i S rest used"
      unfolding wrote_chain_def using c(2,3,5)
      by (intro exI[of _ "[]"] exI[of _ "rev rest @ fl"]) auto
    then show ?thesis using Cons j c(1) by (auto simp: cret_def)
  qed
qed

lemma wrote_chain_Cons:
  assumes wf: "wf_table t" and mp: "vt_multipart t" and len: "es t - 2 < length S"
    and st: "same_table t t1" and n: "n \<noteq> 0" and i0: "i \<noteq> 0"
    and w1: "w1 = insert_value w (vt_id t) i (head_marker first c @ le64 n @ take (es t - 10) S)"
    and r: "wrote_chain t1 w1 t' w' False c n (drop (es t - 10) S) rest1 used1"
    and i: "i \<in> used - set rest" "i \<noteq> n" "i \<notin> set rest1"
    and u: "used1 - set rest1 = insert n (used - set rest)" "n \<notin> used - set rest"
    and f: "unat (vt_filled t1) \<le> unat (vt_filled t) + 1"
  shows "wrote_chain t w t' w' first c i S rest used"
proof -
  let ?bs = "head_marker first c @ le64 n @ take (es t - 10) S"
  obtain js fl where r: "same_table t1 t'" "stores t' (writer_query w') False c (n # js) (drop (es t - 10) S)"
      "alloc_inv t' (writer_query w') fl (used1 - set rest1 \<union> set js)" "distinct (n # js)"
      "set js \<inter> (used1 - set rest1) = {}" "only_slots t1 w1 w' (- (used1 - set (n # rest1)))"
      "unat (vt_filled t') \<le> unat (vt_filled t1) + length (drop (es t - 10) S)"
    using r unfolding wrote_chain_def by blast
  note st' = same_table_trans[OF st r(1)]
  have "i \<in> used1 - set (n # rest1)" using u i by auto
  then have "q_value (writer_query w') (vt_id t) i = q_value (writer_query w1) (vt_id t) i"
    using only_slotsD[OF r(6)[unfolded only_slots_same_table[OF st]]] by blast
  then have q: "q_value (writer_query w') (vt_id t) i = Some ?bs"
    by (simp add: w1 writer_query_insert_value)
  have es: "es t = 4096" by (rule wf_table_bounds(3)[OF wf mp])
  then have "slot_has t (writer_query w') i ?bs"
    using len by (intro slot_has_written[OF q]) simp
  then have "stores t' (writer_query w') first c (i # n # js) S"
    using r(2) mp len n by (simp add: same_table_fields[OF st'])
  moreover have "alloc_inv t' (writer_query w') fl (used - set rest \<union> set (n # js))"
    using r(3) unfolding u(1) by simp
  moreover have "distinct (i # n # js)" "set (n # js) \<inter> (used - set rest) = {}"
    using r(4,5) u i by auto
  moreover have "only_slots t w w' (- (used - set (i # rest)))"
  proof (rule only_slots_trans)
    have "length ?bs = es t" using len es by simp
    then have "valid_record t i ?bs" using mp i0 by (auto simp: valid_record_def)
    then show "only_slots t w w1 {i}" unfolding w1 by (intro only_slots_insert) simp_all
    show "only_slots t w1 w' (- (used1 - set (n # rest1)))"
      using r(6) unfolding only_slots_same_table[OF st] .
    show "{i} \<union> - (used1 - set (n # rest1)) \<subseteq> - (used - set (i # rest))"
      using u by auto
  qed
  moreover have "unat (vt_filled t') \<le> unat (vt_filled t) + length S"
    using r(7) f len es by simp
  ultimately show ?thesis
    unfolding wrote_chain_def using st' by blast
qed

lemma overwrite_loop_ok:
  assumes key: "wf_key key"
  shows "wf_table t \<Longrightarrow> alloc_inv t (writer_query w) fl used \<Longrightarrow> at_stream t key v offset S \<Longrightarrow>
    i \<in> used \<Longrightarrow> (if follow then chain_links t (writer_query w) (i # rest) else rest = []) \<Longrightarrow>
    distinct (i # rest) \<Longrightarrow> set rest \<subseteq> used \<Longrightarrow> vt_multipart t \<or> length S \<le> es t - 2 \<Longrightarrow>
    unat (vt_filled t) + length S < 2 ^ 64 \<Longrightarrow>
    \<exists>t' w'. overwrite_loop key v c t w (length S) offset start i follow =
        Some (Inr (if start = 0 then i else start, t', w')) \<and>
      wrote_chain t w t' w' (start = 0) c i S rest used"
proof (induction "length S" arbitrary: t w fl used offset S start i follow rest rule: less_induct)
  case less
  note wf = less.prems(1) and inv = less.prems(2) and S = less.prems(3) and i = less.prems(4)
    and links = less.prems(5) and dist = less.prems(6) and sub = less.prems(7)
    and mp = less.prems(8) and room = less.prems(9)
  define st where "st = (if start = 0 then i else start)"
  let ?ex = "case rest of [] \<Rightarrow> None | j # _ \<Rightarrow> Some j"
  have i0: "i \<noteq> 0" by (rule alloc_inv_nonzero[OF inv i])
  then have st0: "st \<noteq> 0" by (simp add: st_def)
  have ex: "(if follow then read_next_part t i (writer_query w) else Inr None) = Inr ?ex"
    using links by (cases rest) (auto split: if_splits)
  have fo: "(follow \<and> ?ex \<noteq> None) = (rest \<noteq> [])"
    using links by (cases rest) (auto split: if_splits)
  have "\<exists>t' w'. overwrite_loop key v c t w (length S) offset start i follow = Some (Inr (st, t', w')) \<and>
      wrote_chain t w t' w' (start = 0) c i S rest used"
  proof (cases "length S \<le> es t - 2")
    case True
    let ?w1 = "insert_value w (vt_id t) i (size_bytes (length S) c @ S)"
    obtain offset' where p: "overwrite_part t w key v c (length S) offset start i follow =
        Inr (t, ?w1, 0, offset', st, hd0 rest, rest \<noteq> [])"
      using overwrite_part_plain[OF wf key S True ex, of c start] fo by (cases rest) (auto simp: st_def)
    have rest: "rest \<noteq> [] \<Longrightarrow> chain_links t (writer_query w) rest"
      using links by (cases rest) (auto split: if_splits)
    show ?thesis
      using overwrite_plain_done[OF wf inv i True rest dist sub refl, where st = st and first = "start = 0" and c = c]
      by (subst overwrite_loop.simps) (simp add: p)
  next
    case False
    then have len: "es t - 2 < length S" and mp: "vt_multipart t" using mp by auto
    let ?S1 = "drop (es t - 10) S"
    have es: "es t = 4096" by (rule wf_table_bounds(3)[OF wf mp])
    have S1: "length ?S1 < length S" using len es by simp
    show ?thesis
    proof (cases rest)
      case Nil
      obtain n t1 fl1 where nf: "next_free t (writer_query w) = Inr (n, t1)" "n \<noteq> 0" "n \<notin> used"
          "same_table t t1" "alloc_inv t1 (writer_query w) fl1 (insert n used)"
          "unat (vt_filled t1) \<le> unat (vt_filled t) + 1"
        using next_free_ok[OF wf inv] room len es by auto
      let ?w1 = "insert_value w (vt_id t) i (head_marker (start = 0) c @ le64 n @ take (es t - 10) S)"
      obtain offset' where p: "overwrite_part t w key v c (length S) offset start i follow =
          Inr (t1, ?w1, length ?S1, offset', st, n, False)" "0 < offset'"
          "at_stream t key v offset' ?S1"
        using overwrite_part_multi[OF wf key mp S len ex, of False n t1 c start] fo nf(1,4) Nil by (auto simp: st_def)
      have "alloc_inv t1 (writer_query ?w1) fl1 (insert n used)"
        using alloc_inv_insert_value[OF nf(5), of i] i same_table_fields(1)[OF nf(4)] by simp
      moreover have "unat (vt_filled t1) + length ?S1 < 2 ^ 64"
        using nf(6) room len es by simp
      ultimately obtain t' w' where r: "overwrite_loop key v c t1 ?w1 (length ?S1) offset' st n False =
            Some (Inr (st, t', w'))" "wrote_chain t1 ?w1 t' w' False c n ?S1 [] (insert n used)"
        using less.hyps[OF S1, of t1 ?w1 fl1 "insert n used" offset' n False "[]" st] p(3) wf mp st0
        by (auto simp: same_table_fields[OF nf(4)] at_stream_same_table[OF nf(4)])
      have "wrote_chain t w t' w' (start = 0) c i S rest used"
        by (rule wrote_chain_Cons[OF wf mp len nf(4,2) i0 refl r(2)]) (use Nil nf(3,6) i in auto)
      then show ?thesis
        using r(1) p(1) S1 es len by (subst overwrite_loop.simps) simp
    next
      case (Cons j js)
      have j: "j \<noteq> 0" "j \<noteq> i" using alloc_inv_nonzero[OF inv] sub dist Cons by auto
      let ?w1 = "insert_value w (vt_id t) i (head_marker (start = 0) c @ le64 j @ take (es t - 10) S)"
      obtain offset' where p: "overwrite_part t w key v c (length S) offset start i follow =
          Inr (t, ?w1, length ?S1, offset', st, j, True)" "0 < offset'"
          "at_stream t key v offset' ?S1"
        using overwrite_part_multi[OF wf key mp S len ex, of True j t c start] fo Cons by (auto simp: st_def)
      have inv1: "alloc_inv t (writer_query ?w1) fl used"
        by (rule alloc_inv_insert_value[OF inv i])
      have "chain_links t (writer_query ?w1) (j # js)"
        using links Cons dist by (subst chain_links_insert_value) (auto split: if_splits)
      moreover have "unat (vt_filled t) + length ?S1 < 2 ^ 64"
        using room len es by simp
      ultimately obtain t' w' where r: "overwrite_loop key v c t ?w1 (length ?S1) offset' st j True =
            Some (Inr (st, t', w'))" "wrote_chain t ?w1 t' w' False c j ?S1 js used"
        using less.hyps[OF S1 wf inv1 p(3), where i = j and rest = js and
            start = st and follow = True] dist sub Cons mp st0 by auto
      have "wrote_chain t w t' w' (start = 0) c i S rest used"
        by (rule wrote_chain_Cons[OF wf mp len same_table_refl j(1) i0 refl r(2)])
          (use Cons dist sub i in auto)
      then show ?thesis
        using r(1) p(1) S1 es len by (subst overwrite_loop.simps) simp
    qed
  qed
  then show ?case by (simp add: st_def)
qed

end
