(* ===== verification/Table_Store.thy ===== *)
theory Table_Store
  imports Table_Write
begin

text \<open>
  A value table as a store of values: the abstract state is a map from slot numbers to stored
  values, and every planning operation of \<^verbatim>\<open>src/src/table.rs\<close> is an update of that map. The
  refinement relation also says that every slot below \<open>filled\<close> is free or belongs to exactly one
  stored value, so no operation leaks or shares a slot.
\<close>

section \<open>The abstract state\<close>

record stored =
  sv_rc :: u32
  sv_key :: table_key
  sv_value :: bytes
  sv_compressed :: bool

definition entry_stream :: "value_table \<Rightarrow> stored \<Rightarrow> bytes" where
  "entry_stream t e = entry_head t (sv_rc e) (sv_key e) @ sv_value e"

definition slots_of :: "(u64 \<Rightarrow> u64 list) \<Rightarrow> u64 set \<Rightarrow> u64 set" where
  "slots_of ch A = (\<Union>i\<in>A. set (i # ch i))"

definition chain_ok :: "value_table \<Rightarrow> log_query \<Rightarrow> u64 \<Rightarrow> u64 list \<Rightarrow> stored \<Rightarrow> bool" where
  "chain_ok t q i js e \<longleftrightarrow> 0 < sv_rc e \<and> wf_key (sv_key e) \<and> distinct (i # js) \<and>
     stores t q True (sv_compressed e) (i # js) (entry_stream t e)"

definition chains_ok :: "value_table \<Rightarrow> log_query \<Rightarrow> (u64 \<rightharpoonup> stored) \<Rightarrow> (u64 \<Rightarrow> u64 list) \<Rightarrow> bool" where
  "chains_ok t q m ch \<longleftrightarrow> (\<forall>i e. m i = Some e \<longrightarrow> chain_ok t q i (ch i) e) \<and>
     (\<forall>i\<in>dom m. \<forall>j\<in>dom m. i \<noteq> j \<longrightarrow> set (i # ch i) \<inter> set (j # ch j) = {})"

definition represents :: "value_table \<Rightarrow> log_query \<Rightarrow> (u64 \<rightharpoonup> stored) \<Rightarrow> bool" where
  "represents t q m \<longleftrightarrow> wf_table t \<and>
     (\<exists>ch fl. chains_ok t q m ch \<and> alloc_inv t q fl (slots_of ch (dom m)))"

lemma entry_stream_same_table: "same_table t t' \<Longrightarrow> entry_stream t' = entry_stream t"
  by (simp add: entry_stream_def entry_head_def same_table_def fun_eq_iff)

lemma chain_ok_cong:
  assumes "same_table t t'" and "\<And>x. x \<in> set (i # js) \<Longrightarrow> q_value q' (vt_id t) x = q_value q (vt_id t) x"
  shows "chain_ok t' q' i js e = chain_ok t q i js e"
  using stores_cong[OF assms(2), of "i # js"] assms(1)
  by (simp add: chain_ok_def stores_same_table entry_stream_same_table)

text \<open>Changing the chain of one slot, or dropping it, when the slots of the others stay.\<close>

lemma slots_of_other:
  "slots_of (ch(i := js)) (A - {i}) = slots_of ch (A - {i})"
  by (auto simp: slots_of_def)

lemma slots_of_insert: "slots_of ch (insert i A) = set (i # ch i) \<union> slots_of ch A"
  by (auto simp: slots_of_def)

lemma represents_put:
  assumes ch: "chains_ok t q m ch" and wf: "wf_table t" and st: "same_table t t'"
    and e: "chain_ok t' q' i js e"
    and inv: "alloc_inv t' q' fl (slots_of ch (dom m - {i}) \<union> set (i # js))"
    and disj: "set (i # js) \<inter> slots_of ch (dom m - {i}) = {}"
    and same: "\<And>x. x \<in> slots_of ch (dom m - {i}) \<Longrightarrow> q_value q' (vt_id t) x = q_value q (vt_id t) x"
  shows "represents t' q' (m(i \<mapsto> e))"
proof -
  let ?ch = "ch(i := js)"
  have d: "dom (m(i \<mapsto> e)) = insert i (dom m - {i})" by auto
  have "chain_ok t' q' k (?ch k) e'" if "(m(i \<mapsto> e)) k = Some e'" for k e'
  proof (cases "k = i")
    case True
    then show ?thesis using that e by simp
  next
    case False
    then have k: "m k = Some e'" "k \<in> dom m - {i}" using that by auto
    then have "set (k # ch k) \<subseteq> slots_of ch (dom m - {i})" by (auto simp: slots_of_def)
    then have "chain_ok t' q' k (ch k) e' = chain_ok t q k (ch k) e'"
      using same by (intro chain_ok_cong[OF st]) auto
    then show ?thesis using False ch k(1) by (simp add: chains_ok_def)
  qed
  moreover have "set (k # ?ch k) \<inter> set (l # ?ch l) = {}"
    if kl: "k \<in> dom (m(i \<mapsto> e))" "l \<in> dom (m(i \<mapsto> e))" "k \<noteq> l" for k l
  proof -
    have sub: "set (x # ch x) \<subseteq> slots_of ch (dom m - {i})" if "x \<in> dom m - {i}" for x
      using that by (auto simp: slots_of_def)
    consider "k = i" "l \<in> dom m - {i}" | "l = i" "k \<in> dom m - {i}"
      | "k \<in> dom m - {i}" "l \<in> dom m - {i}"
      using kl unfolding d by blast
    then show ?thesis
    proof cases
      case 1
      then show ?thesis using disj sub[of l] by auto
    next
      case 2
      then show ?thesis using disj sub[of k] by auto
    next
      case 3
      then show ?thesis using ch kl(3) unfolding chains_ok_def by auto
    qed
  qed
  ultimately have "chains_ok t' q' (m(i \<mapsto> e)) ?ch" unfolding chains_ok_def by blast
  moreover have "slots_of ?ch (dom (m(i \<mapsto> e))) = slots_of ch (dom m - {i}) \<union> set (i # js)"
    unfolding d slots_of_insert slots_of_other by auto
  ultimately show ?thesis
    unfolding represents_def same_table_fields(7)[OF st] using inv wf by metis
qed

lemma represents_del:
  assumes ch: "chains_ok t q m ch" and wf: "wf_table t" and st: "same_table t t'"
    and inv: "alloc_inv t' q' fl (slots_of ch (dom m - {i}))"
    and same: "\<And>x. x \<in> slots_of ch (dom m - {i}) \<Longrightarrow> q_value q' (vt_id t) x = q_value q (vt_id t) x"
  shows "represents t' q' (m(i := None))"
proof -
  have d: "dom (m(i := None)) = dom m - {i}" by auto
  have "chain_ok t' q' k (ch k) e'" if "(m(i := None)) k = Some e'" for k e'
  proof -
    have k: "m k = Some e'" "k \<in> dom m - {i}" using that by (auto split: if_splits)
    then have "set (k # ch k) \<subseteq> slots_of ch (dom m - {i})" by (auto simp: slots_of_def)
    then have "chain_ok t' q' k (ch k) e' = chain_ok t q k (ch k) e'"
      using same by (intro chain_ok_cong[OF st]) auto
    then show ?thesis using ch k(1) by (simp add: chains_ok_def)
  qed
  then have "chains_ok t' q' (m(i := None)) ch"
    using ch unfolding chains_ok_def by auto
  then show ?thesis
    using inv wf st d unfolding represents_def by (auto simp: same_table_fields)
qed

lemma slots_of_remove:
  assumes "chains_ok t q m ch" and "i \<in> dom m"
  shows "slots_of ch (dom m) = slots_of ch (dom m - {i}) \<union> set (i # ch i)"
    and "slots_of ch (dom m - {i}) \<inter> set (i # ch i) = {}"
proof -
  have "insert i (dom m - {i}) = dom m" using assms(2) by blast
  then show "slots_of ch (dom m) = slots_of ch (dom m - {i}) \<union> set (i # ch i)"
    using slots_of_insert[of ch i "dom m - {i}"] by auto
  have "set (j # ch j) \<inter> set (i # ch i) = {}" if "j \<in> dom m - {i}" for j
    using assms that unfolding chains_ok_def by blast
  then show "slots_of ch (dom m - {i}) \<inter> set (i # ch i) = {}"
    unfolding slots_of_def by blast
qed

section \<open>Inserting, replacing and removing\<close>

definition fits :: "value_table \<Rightarrow> table_key \<Rightarrow> bytes \<Rightarrow> bool" where
  "fits t key v \<longleftrightarrow> vt_multipart t \<or> length v + ref_size t + key_encoded_size key \<le> es t - 2"

definition room :: "value_table \<Rightarrow> bytes \<Rightarrow> bool" where
  "room t v \<longleftrightarrow> unat (vt_filled t) + length v + 31 < 2 ^ 64"

lemma value_size_eq:
  assumes "wf_table t"
  shows "value_size t key = (if es t - 2 - ref_size t < key_encoded_size key then None
     else Some (of_nat (es t - 2 - ref_size t - key_encoded_size key)))"
proof -
  note b = wf_table_bounds(1,2)[OF assms]
  have k: "key_encoded_size key \<le> 26" and r: "ref_size t \<le> 4"
    by (auto simp: key_encoded_size_def PARTIAL_SIZE_def ref_size_def REFS_SIZE_def split: table_key.splits)
  have e: "vt_entry_size t = of_nat (es t)" by simp
  have base: "vt_entry_size t - of_nat SIZE_SIZE - of_nat (ref_size t) = of_nat (es t - 2 - ref_size t)"
    using b r by (subst e) (simp add: SIZE_SIZE_def of_nat_diff)
  have u: "unat (of_nat n :: u16) = n" if "n \<le> 0x7ff8" for n
    using that by (simp add: unat_of_nat)
  have lt: "(of_nat (es t - 2 - ref_size t) :: u16) < of_nat (key_encoded_size key)
      \<longleftrightarrow> es t - 2 - ref_size t < key_encoded_size key"
    using b k r by (simp only: word_less_nat_alt) (subst u, simp, subst u, simp_all)
  show ?thesis
    unfolding value_size_def Let_def base lt
    by (cases "es t - 2 - ref_size t < key_encoded_size key") (simp, simp only: not_less of_nat_diff if_False)
qed

lemma fits_assert:
  assumes "wf_table t"
  shows "(if vt_multipart t then Inr () else rbind (unwrap (value_size t key)) (\<lambda>s. rassert (length v \<le> unat s)))
     = (if fits t key v then Inr () else Inl Panic)"
proof -
  have u: "unat (of_nat n :: u16) = n" if "n \<le> 0x7ff8" for n
    using that by (simp add: unat_of_nat)
  let ?n = "es t - 2 - ref_size t - key_encoded_size key"
  have n: "unat (of_nat ?n :: u16) = ?n"
    by (rule u) (use wf_table_bounds(2)[OF assms] in simp)
  have r: "ref_size t \<le> 4" by (simp add: ref_size_def REFS_SIZE_def)
  have "length v \<le> ?n \<longleftrightarrow> length v + ref_size t + key_encoded_size key \<le> es t - 2"
    if "\<not> es t - 2 - ref_size t < key_encoded_size key"
    using that r wf_table_bounds(1)[OF assms] by linarith
  then show ?thesis
    unfolding value_size_eq[OF assms] fits_def
    by (cases "es t - 2 - ref_size t < key_encoded_size key")
      (use r wf_table_bounds(1)[OF assms] in \<open>auto simp: rassert_def n[unfolded diff_diff_left] simp del: of_nat_diff\<close>)
qed

lemma stream_length:
  "wf_key key \<Longrightarrow> length (entry_head t rc key @ v) = length v + ref_size t + key_encoded_size key"
  by (simp add: length_entry_head)

lemma at_stream_start: "at_stream t key v 0 (entry_head t 1 key @ v)"
  by (simp add: at_stream_def)

lemma insert_represents_bound:
  assumes rep: "represents t (writer_query w) m" and key: "wf_key key" and f: "fits t key v" "room t v"
  shows "\<exists>i t' w'. table_write_insert_plan t key v w c = Some (Inr (i, t', w')) \<and> i \<noteq> 0 \<and>
     i \<notin> dom m \<and> i \<le> vt_filled t \<and> same_table t t' \<and> only_slots t w w' UNIV \<and>
     unat (vt_filled t') \<le> unat (vt_filled t) + length v + 31 \<and>
     represents t' (writer_query w') (m(i \<mapsto> \<lparr>sv_rc = 1, sv_key = key, sv_value = v, sv_compressed = c\<rparr>))"
proof -
  let ?S = "entry_head t 1 key @ v" and ?e = "\<lparr>sv_rc = 1, sv_key = key, sv_value = v, sv_compressed = c\<rparr>"
  obtain ch fl where wf: "wf_table t" and ch: "chains_ok t (writer_query w) m ch"
    and inv: "alloc_inv t (writer_query w) fl (slots_of ch (dom m))"
    using rep unfolding represents_def by blast
  let ?U = "slots_of ch (dom m)"
  have len: "length ?S = length v + ref_size t + key_encoded_size key" by (rule stream_length[OF key])
  have len30: "length ?S \<le> length v + 30" using entry_head_bound[OF key, of t 1] by simp
  obtain i t1 fl1 where nf: "next_free t (writer_query w) = Inr (i, t1)" "i \<noteq> 0" "i \<notin> ?U"
      "same_table t t1" "alloc_inv t1 (writer_query w) fl1 (insert i ?U)"
      "unat (vt_filled t1) \<le> unat (vt_filled t) + 1"
    using next_free_ok[OF wf inv] f(2) by (auto simp: room_def)
  note s1 = same_table_fields[OF nf(4)]
  have mp: "vt_multipart t1 \<or> length ?S \<le> es t1 - 2"
    using f(1) len by (auto simp: fits_def s1)
  have rm: "unat (vt_filled t1) + length ?S < 2 ^ 64"
    using nf(6) f(2) len30 by (simp add: room_def)
  have st: "at_stream t1 key v 0 ?S"
    unfolding at_stream_same_table[OF nf(4)] by (rule at_stream_start)
  obtain t' w' where r: "overwrite_loop key v c t1 w (length ?S) 0 0 i False = Some (Inr (i, t', w'))"
      "wrote_chain t1 w t' w' True c i ?S [] (insert i ?U)"
    using overwrite_loop_ok[OF key _ nf(5) st, of i False "[]" c 0] wf mp rm s1(7) by auto
  then obtain js fl' where w: "same_table t1 t'" "stores t' (writer_query w') True c (i # js) ?S"
      "alloc_inv t' (writer_query w') fl' (insert i ?U \<union> set js)" "distinct (i # js)"
      "set js \<inter> insert i ?U = {}" "only_slots t1 w w' (- (insert i ?U - {i}))"
      "unat (vt_filled t') \<le> unat (vt_filled t1) + length ?S"
    unfolding wrote_chain_def by auto
  note st' = same_table_trans[OF nf(4) w(1)]
  have i: "i \<notin> dom m" using nf(3) by (auto simp: slots_of_def)
  then have U: "slots_of ch (dom m - {i}) = ?U" by simp
  have o: "only_slots t w w' (- ?U)"
    using w(6) nf(3) unfolding only_slots_same_table[OF nf(4)] by (simp add: Diff_insert_absorb)
  have "represents t' (writer_query w') (m(i \<mapsto> ?e))"
  proof (rule represents_put[OF ch wf st', of _ _ js])
    show "chain_ok t' (writer_query w') i js ?e"
      using w(2,4) key by (simp add: chain_ok_def entry_stream_same_table[OF st'] entry_stream_def)
    show "alloc_inv t' (writer_query w') fl' (slots_of ch (dom m - {i}) \<union> set (i # js))"
      using w(3) by (simp add: U)
    show "set (i # js) \<inter> slots_of ch (dom m - {i}) = {}" using w(5) nf(3) by (auto simp: U)
    show "q_value (writer_query w') (vt_id t) x = q_value (writer_query w) (vt_id t) x"
      if "x \<in> slots_of ch (dom m - {i})" for x
      using only_slotsD[OF o] that by (simp add: U)
  qed
  moreover have "table_write_insert_plan t key v w c = Some (Inr (i, t', w'))"
    unfolding table_write_insert_plan_def overwrite_chain_def Let_def fits_assert[OF wf] len[symmetric]
    using f(1) nf(1) r(1) by simp
  moreover have "unat (vt_filled t') \<le> unat (vt_filled t) + length v + 31" using w(7) nf(6) len30 by simp
  ultimately show ?thesis
    using i nf(2) next_free_le[OF inv nf(1)] st' only_slots_mono[OF o] by blast
qed

lemma insert_represents:
  assumes "represents t (writer_query w) m" and "wf_key key" and "fits t key v" and "room t v"
  shows "\<exists>i t' w'. table_write_insert_plan t key v w c = Some (Inr (i, t', w')) \<and> i \<noteq> 0 \<and>
     i \<notin> dom m \<and> i \<le> vt_filled t \<and> same_table t t' \<and> only_slots t w w' UNIV \<and>
     represents t' (writer_query w') (m(i \<mapsto> \<lparr>sv_rc = 1, sv_key = key, sv_value = v, sv_compressed = c\<rparr>))"
  using insert_represents_bound[OF assms] by blast

lemma replace_represents_bound:
  assumes rep: "represents t (writer_query w) m" and key: "wf_key key" and f: "fits t key v" "room t v"
    and i: "i \<in> dom m"
  shows "\<exists>t' w'. table_write_replace_plan t i key v w c = Some (Inr (t', w')) \<and> same_table t t' \<and>
     only_slots t w w' UNIV \<and> unat (vt_filled t') \<le> unat (vt_filled t) + length v + 31 \<and>
     represents t' (writer_query w') (m(i \<mapsto> \<lparr>sv_rc = 1, sv_key = key, sv_value = v, sv_compressed = c\<rparr>))"
proof -
  let ?S = "entry_head t 1 key @ v" and ?e = "\<lparr>sv_rc = 1, sv_key = key, sv_value = v, sv_compressed = c\<rparr>"
  obtain ch fl where wf: "wf_table t" and ch: "chains_ok t (writer_query w) m ch"
    and inv: "alloc_inv t (writer_query w) fl (slots_of ch (dom m))"
    using rep unfolding represents_def by blast
  let ?U = "slots_of ch (dom m)" and ?V = "slots_of ch (dom m - {i})"
  note U = slots_of_remove[OF ch i]
  obtain e where e: "chain_ok t (writer_query w) i (ch i) e"
    using ch i by (auto simp: chains_ok_def)
  have len: "length ?S = length v + ref_size t + key_encoded_size key" by (rule stream_length[OF key])
  have len30: "length ?S \<le> length v + 30" using entry_head_bound[OF key, of t 1] by simp
  have links: "chain_links t (writer_query w) (i # ch i)" and dist: "distinct (i # ch i)"
    using e stores_chain_links[OF wf] unfolding chain_ok_def by blast+
  have mp: "vt_multipart t \<or> length ?S \<le> es t - 2" using f(1) len by (auto simp: fits_def)
  have rm: "unat (vt_filled t) + length ?S < 2 ^ 64" using f(2) len30 by (simp add: room_def)
  have "\<exists>t' w'. overwrite_loop key v c t w (length ?S) 0 0 i True = Some (Inr (if 0 = (0::u64) then i else 0, t', w')) \<and>
      wrote_chain t w t' w' (0 = (0::u64)) c i ?S (ch i) ?U"
    by (rule overwrite_loop_ok[OF key wf inv at_stream_start]) (use links dist mp rm U(1) in auto)
  then obtain t' w' where r: "overwrite_loop key v c t w (length ?S) 0 0 i True = Some (Inr (i, t', w'))"
      "wrote_chain t w t' w' True c i ?S (ch i) ?U"
    by auto
  then obtain js fl' where w: "same_table t t'" "stores t' (writer_query w') True c (i # js) ?S"
      "alloc_inv t' (writer_query w') fl' (?U - set (ch i) \<union> set js)" "distinct (i # js)"
      "set js \<inter> (?U - set (ch i)) = {}" "only_slots t w w' (- (?U - set (i # ch i)))"
      "unat (vt_filled t') \<le> unat (vt_filled t) + length ?S"
    unfolding wrote_chain_def by auto
  have V: "?U - set (ch i) = insert i ?V" "?U - set (i # ch i) = ?V"
    using U dist by auto
  have "represents t' (writer_query w') (m(i \<mapsto> ?e))"
  proof (rule represents_put[OF ch wf w(1), of _ _ js])
    show "chain_ok t' (writer_query w') i js ?e"
      using w(2,4) key by (simp add: chain_ok_def entry_stream_same_table[OF w(1)] entry_stream_def)
    show "alloc_inv t' (writer_query w') fl' (?V \<union> set (i # js))"
      using w(3) by (simp add: V)
    show "set (i # js) \<inter> ?V = {}" using w(5) U by (auto simp: V)
    show "q_value (writer_query w') (vt_id t) x = q_value (writer_query w) (vt_id t) x"
      if "x \<in> ?V" for x
      using only_slotsD[OF w(6)[unfolded V(2)], of x] that by simp
  qed
  moreover have "table_write_replace_plan t i key v w c = Some (Inr (t', w'))"
    unfolding table_write_replace_plan_def overwrite_chain_def Let_def fits_assert[OF wf] len[symmetric]
    using f(1) r(1) by (simp add: cret_def)
  moreover have "unat (vt_filled t') \<le> unat (vt_filled t) + length v + 31" using w(7) len30 by simp
  ultimately show ?thesis
    using w(1) only_slots_mono[OF w(6)] by blast
qed

lemma replace_represents:
  assumes "represents t (writer_query w) m" and "wf_key key" and "fits t key v" and "room t v" and "i \<in> dom m"
  shows "\<exists>t' w'. table_write_replace_plan t i key v w c = Some (Inr (t', w')) \<and> same_table t t' \<and>
     only_slots t w w' UNIV \<and>
     represents t' (writer_query w') (m(i \<mapsto> \<lparr>sv_rc = 1, sv_key = key, sv_value = v, sv_compressed = c\<rparr>))"
  using replace_represents_bound[OF assms] by blast

lemma remove_represents_bound:
  assumes rep: "represents t (writer_query w) m" and i: "i \<in> dom m"
  shows "\<exists>t' w'. table_write_remove_plan t i w = Some (Inr (t', w')) \<and> same_table t t' \<and>
     only_slots t w w' UNIV \<and> vt_filled t' = vt_filled t \<and> represents t' (writer_query w') (m(i := None))"
proof -
  obtain ch fl where wf: "wf_table t" and ch: "chains_ok t (writer_query w) m ch"
    and inv: "alloc_inv t (writer_query w) fl (slots_of ch (dom m))"
    using rep unfolding represents_def by blast
  let ?U = "slots_of ch (dom m)" and ?V = "slots_of ch (dom m - {i})"
  note U = slots_of_remove[OF ch i]
  obtain e where e: "chain_ok t (writer_query w) i (ch i) e"
    using ch i by (auto simp: chains_ok_def)
  have links: "chain_links t (writer_query w) (i # ch i)" and dist: "distinct (i # ch i)"
    using e stores_chain_links[OF wf] unfolding chain_ok_def by blast+
  obtain t' w' where c: "clear_chain t i w = Some (Inr (t', w'))" "same_table t t'"
      "alloc_inv t' (writer_query w') (rev (i # ch i) @ fl) (?U - set (i # ch i))"
      "only_slots t w w' (set (i # ch i))" "vt_filled t' = vt_filled t"
    using clear_chain_ok[OF wf inv _ links dist] U(1) by auto
  have single: "Some (clear_slot t i w) = clear_chain t i w" if "\<not> vt_multipart t"
  proof -
    have "ch i = []" using e that by (cases "ch i") (auto simp: chain_ok_def)
    then show ?thesis using links by (subst clear_chain.simps) simp
  qed
  have V: "?U - set (i # ch i) = ?V" using U by auto
  have "represents t' (writer_query w') (m(i := None))"
  proof (rule represents_del[OF ch wf c(2)])
    show "alloc_inv t' (writer_query w') (rev (i # ch i) @ fl) ?V" using c(3) V by simp
    show "q_value (writer_query w') (vt_id t) x = q_value (writer_query w) (vt_id t) x"
      if "x \<in> ?V" for x
      using only_slotsD[OF c(4), of x] that U(2) by blast
  qed
  moreover have "table_write_remove_plan t i w = Some (Inr (t', w'))"
    unfolding table_write_remove_plan_def using c(1) single by simp
  ultimately show ?thesis
    using c(2,5) only_slots_mono[OF c(4)] by blast
qed

lemma remove_represents:
  assumes "represents t (writer_query w) m" and "i \<in> dom m"
  shows "\<exists>t' w'. table_write_remove_plan t i w = Some (Inr (t', w')) \<and> same_table t t' \<and>
     only_slots t w w' UNIV \<and> represents t' (writer_query w') (m(i := None))"
  using remove_represents_bound[OF assms] by blast

lemma get_represents:
  assumes rep: "represents t q m" and i: "m i = Some e" and key: "wf_key key"
    "key_encoded_size key = key_encoded_size (sv_key e)"
  shows "table_get t key i q = Some (Inr (if key_bytes key = key_bytes (sv_key e)
      then Some (sv_value e, sv_compressed e) else None))"
proof -
  obtain ch where wf: "wf_table t" and e: "chain_ok t q i (ch i) e"
    using rep i unfolding represents_def chains_ok_def by blast
  then have S: "stores t q True (sv_compressed e) (i # ch i) (entry_head t (sv_rc e) (sv_key e) @ sv_value e)"
    and k: "wf_key (sv_key e)" and rc: "0 < eff_rc t (sv_rc e)"
    by (auto simp: chain_ok_def entry_stream_def eff_rc_def)
  show ?thesis
  proof (cases "key_bytes key = key_bytes (sv_key e)")
    case True
    then have "entry_head t (sv_rc e) (sv_key e) = entry_head t (sv_rc e) key"
      by (simp add: entry_head_def)
    then show ?thesis
      using query_check_stores[OF wf key(1), of q "sv_compressed e" i "ch i" "sv_rc e" "sv_value e"]
        S rc True by (simp add: table_get_def cret_def)
  next
    case False
    then show ?thesis
      using for_parts_wrong_key[OF wf k key(1) S key(2)[symmetric], of "\<lambda>buf result. (True, result @ buf)" "[]"]
      by (simp add: table_get_def query_def cret_def)
  qed
qed

end
