(* ===== verification/Table_Refs.thy ===== *)
theory Table_Refs
  imports Table_Store
begin

text \<open>
  Reference counts (\<open>change_ref\<close>, \<open>write_inc_ref\<close>, \<open>write_dec_ref\<close> of \<^verbatim>\<open>src/src/table.rs\<close>): the
  counter of a stored value is patched in place in the first slot of its chain; it saturates at
  \<open>LOCKED_REF\<close> and stays there, and a value whose counter reaches zero is removed.
\<close>

section \<open>Patching the counter\<close>

lemma rc_patch:
  assumes b: "length bs \<le> length (edata b)" "take (length bs) (edata b) = bs"
    and bs: "bs = pre @ le32 rc @ post" and off: "eoff b = length pre"
  shows "read_u32 b = Inr (rc, b\<lparr>eoff := length pre + 4\<rparr>)"
    and "\<exists>b'. write_u32 (set_offset (b\<lparr>eoff := length pre + 4\<rparr>) (length pre)) c = Inr b' \<and>
       slice (edata b') 0 (length bs) = Inr (pre @ le32 c @ post)"
proof -
  have "at_bytes b (le32 rc @ post)"
  proof -
    have "drop (length pre) (take (length bs) (edata b)) = le32 rc @ post"
      unfolding b(2) by (simp add: bs)
    then show ?thesis
      using b(1) off bs by (simp add: at_bytes_def drop_take)
  qed
  then show "read_u32 b = Inr (rc, b\<lparr>eoff := length pre + 4\<rparr>)"
    using at_bytes_read(1)[of b "le32 rc" post 4] off by (simp add: read_u32_def REFS_SIZE_def)
  have "take (length bs) (splice (edata b) (length pre) (le32 c)) = pre @ le32 c @ post"
  proof -
    have "edata b = bs @ drop (length bs) (edata b)"
      using b(2) by (metis append_take_drop_id)
    then obtain r where "edata b = (pre @ le32 rc @ post) @ r" using bs by metis
    then show ?thesis by (simp add: splice_def bs)
  qed
  then show "\<exists>b'. write_u32 (set_offset (b\<lparr>eoff := length pre + 4\<rparr>) (length pre)) c = Inr b' \<and>
       slice (edata b') 0 (length bs) = Inr (pre @ le32 c @ post)"
    using b(1) bs by (simp add: write_u32_def write_slice_def set_offset_def slice_def)
qed

definition new_count :: "int \<Rightarrow> u32 \<Rightarrow> u32 option" where
  "new_count delta counter =
     (if 0 < delta then
        (if LOCKED_REF - of_int delta \<le> counter then Some LOCKED_REF else Some (counter + of_int delta))
      else if counter \<noteq> LOCKED_REF then
        (let c = of_nat (unat counter - nat (- delta)) in if c = 0 then None else Some c)
      else Some counter)"

text \<open>The stream of a value with another counter, and the first part that holds it.\<close>

definition first_part :: "value_table \<Rightarrow> bool \<Rightarrow> u64 list \<Rightarrow> bytes \<Rightarrow> bytes" where
  "first_part t c js S = (case js of
     [] \<Rightarrow> size_bytes (length S) c @ S
   | j # _ \<Rightarrow> head_marker True c @ le64 j @ take (es t - 10) S)"

lemma stores_first_part:
  "stores t q True c (i # js) S \<longleftrightarrow> slot_has t q i (first_part t c js S) \<and>
     (case js of [] \<Rightarrow> length S \<le> es t - 2
      | j # _ \<Rightarrow> vt_multipart t \<and> es t - 2 < length S \<and> j \<noteq> 0 \<and>
          stores t q False c js (drop (es t - 10) S))"
  by (cases js) (auto simp: first_part_def)

lemma change_ref_stored:
  assumes wf: "wf_table t" and rcd: "vt_ref_counted t" and key: "wf_key key"
    and S: "stores t (writer_query w) True c (i # js) (entry_head t rc key @ v)"
  shows "change_ref t i delta w =
     (case new_count delta rc of
        None \<Rightarrow> Inr (False, w)
      | Some k \<Rightarrow> Inr (True, insert_value w (vt_id t) i (first_part t c js (entry_head t k key @ v))))"
proof -
  let ?S = "entry_head t rc key @ v" and ?T = "key_bytes key @ v"
  let ?bs = "first_part t c js ?S"
  let ?pre = "case js of [] \<Rightarrow> size_bytes (length ?S) c | j # _ \<Rightarrow> head_marker True c @ le64 j"
  let ?post = "case js of [] \<Rightarrow> ?T | _ \<Rightarrow> take (es t - 14) ?T"
  have Sk: "entry_head t k key @ v = le32 k @ ?T" for k
    using rcd by (simp add: entry_head_def)
  have sl: "slot_has t (writer_query w) i ?bs"
    and rest: "case js of [] \<Rightarrow> length ?S \<le> es t - 2 | j # _ \<Rightarrow> vt_multipart t \<and> es t - 2 < length ?S"
    using S unfolding stores_first_part by (auto split: list.splits)
  note bd = wf_table_bounds[OF wf]
  have fp: "first_part t c js (entry_head t k key @ v) = ?pre @ le32 k @ ?post" for k
    using bd(1,3) rest unfolding Sk by (cases js) (auto simp: first_part_def)
  have le: "es t \<le> MAX_ENTRY_BUF_SIZE" "length ?bs \<le> es t"
    using sl bd(2) by (auto simp: MAX_ENTRY_BUF_SIZE_def slot_has_def)
  obtain b where b: "load_entry t (writer_query w) i (ebuf_uninit MAX_ENTRY_BUF_SIZE) (es t) = Inr b"
      "eoff b = 0" "length (edata b) = MAX_ENTRY_BUF_SIZE" "take (length ?bs) (edata b) = ?bs"
    using load_entry_slot[OF sl length_ebuf_uninit le(1) order_refl le(2)]
    by (auto simp: ebuf_uninit_def ebuf_new_def)
  have len: "length ?bs \<le> length (edata b)" using b(3) le by simp
  have at: "at_bytes b (?pre @ le32 rc @ ?post)"
    using b(2,4) len unfolding fp by (simp add: at_bytes_def)
  define hd where "hd = (if vt_multipart t \<and> is_multi (vt_db_version t) b
      then Inr (es t, skip_u64 (skip_size b))
      else rbind (read_size b) (\<lambda>((sz, _), buf). Inr (eoff buf + unat sz, buf)))"
  have hd: "\<not> is_tombstone b \<and> hd = Inr (length ?bs, b\<lparr>eoff := length ?pre\<rparr>)"
  proof (cases js)
    case Nil
    let ?n = "length ?S"
    have r: "read_slice b 2 = Inr (size_bytes ?n c, b\<lparr>eoff := 2\<rparr>)"
      using at_bytes_read(1)[of b "size_bytes ?n c" "le32 rc @ ?post" 2] at b(2) Nil by simp
    then have t2: "take 2 (edata b) = size_bytes ?n c"
      using b(2) by (auto simp: read_slice_def split: if_splits)
    have n: "?n \<le> es t - 2" and nm: "?n \<le> MAX_ENTRY_SIZE"
      using rest Nil bd(2) by (auto simp: MAX_ENTRY_SIZE_def)
    have mp: "\<not> (vt_multipart t \<and> is_multi (vt_db_version t) b)"
      using size_recognised(2)[OF t2 nm] n bd(3) by auto
    have "unat (of_nat ?n :: u16) = ?n"
      by (rule unat_of_nat_u16) (use n bd(2) in simp)
    then show ?thesis
      unfolding hd_def if_not_P[OF mp] using r size_bytes_decode(1)[OF nm, of c] Nil b(2)
        size_recognised(1)[OF t2 nm]
      by (simp add: read_size_def SIZE_SIZE_def Let_def first_part_def del: of_nat_add length_append)
        simp
  next
    case (Cons j js')
    have t2: "take 2 (edata b) = head_marker True c"
      using at_bytes_read(1)[of b "head_marker True c" "le64 j @ le32 rc @ ?post" 2] at b(2) Cons
      by (auto simp: read_slice_def split: if_splits)
    show ?thesis
      unfolding hd_def using marker_recognised(1,2)[OF t2] rest Cons b(2) bd(1)
      by (simp add: first_part_def skip_u64_def skip_size_def SIZE_SIZE_def min_def) linarith
  qed
  let ?b = "b\<lparr>eoff := length ?pre\<rparr>"
  note p = rc_patch[of ?bs ?b ?pre rc ?post] 
  have r: "read_u32 ?b = Inr (rc, ?b\<lparr>eoff := length ?pre + 4\<rparr>)"
    using p(1) len b(4) fp by simp
  have e: "change_ref t i delta w =
      (case new_count delta rc of None \<Rightarrow> Inr (False, w)
       | Some k \<Rightarrow> rbind (write_u32 (set_offset (?b\<lparr>eoff := length ?pre + 4\<rparr>) (length ?pre)) k) (\<lambda>buf.
           rbind (slice (edata buf) 0 (length ?bs)) (\<lambda>d. Inr (True, insert_value w (vt_id t) i d))))"
    unfolding change_ref_def b(1) rbind.simps hd_def[symmetric] using hd r
    by (simp add: new_count_def Let_def)
  show ?thesis
  proof (cases "new_count delta rc")
    case None
    then show ?thesis using e by simp
  next
    case (Some k)
    obtain b' where "write_u32 (set_offset (?b\<lparr>eoff := length ?pre + 4\<rparr>) (length ?pre)) k = Inr b'"
        "slice (edata b') 0 (length ?bs) = Inr (?pre @ le32 k @ ?post)"
      using p(2)[of k] len b(4) fp by auto
    then show ?thesis using e Some fp[of k] by simp
  qed
qed

lemma stores_patched:
  assumes wf: "wf_table t" and rcd: "vt_ref_counted t" and key: "wf_key key"
    and S: "stores t (writer_query w) True c (i # js) (entry_head t rc key @ v)"
    and d: "distinct (i # js)"
  shows "stores t (writer_query (insert_value w (vt_id t) i (first_part t c js (entry_head t k key @ v))))
     True c (i # js) (entry_head t k key @ v)"
proof -
  let ?T = "key_bytes key @ v"
  let ?w = "insert_value w (vt_id t) i (first_part t c js (entry_head t k key @ v))"
  have Sk: "entry_head t k key @ v = le32 k @ ?T" for k
    using rcd by (simp add: entry_head_def)
  note bd = wf_table_bounds[OF wf]
  have "length (first_part t c js (le32 k @ ?T)) \<le> es t"
    using S[unfolded stores_first_part Sk] bd(1) by (cases js) (auto simp: first_part_def)
  then have "slot_has t (writer_query ?w) i (first_part t c js (entry_head t k key @ v))"
    by (intro slot_has_written) (auto simp: writer_query_insert_value Sk)
  moreover have "stores t (writer_query ?w) False c js (drop (es t - 10) (le32 k @ ?T))"
    if "stores t (writer_query w) False c js (drop (es t - 10) (le32 rc @ ?T))"
  proof -
    have "drop (es t - 10) (le32 k @ ?T) = drop (es t - 10) (le32 rc @ ?T)"
      using bd(1) by simp
    moreover have "stores t (writer_query ?w) False c js X = stores t (writer_query w) False c js X" for X
      by (rule stores_cong) (use d in \<open>auto simp: writer_query_insert_value\<close>)
    ultimately show ?thesis using that by simp
  qed
  ultimately show ?thesis
    using S[unfolded stores_first_part] unfolding stores_first_part Sk
    by (cases js) auto
qed

section \<open>Counters of stored values\<close>

definition inc_count :: "u32 \<Rightarrow> u32" where
  "inc_count rc = (if rc = LOCKED_REF then LOCKED_REF else rc + 1)"

lemma new_count_inc: "new_count 1 rc = Some (inc_count rc)"
proof -
  have "LOCKED_REF - 1 \<le> rc \<longleftrightarrow> rc = LOCKED_REF \<or> rc = LOCKED_REF - 1"
  proof -
    have "unat rc \<le> 0xffffffff" using unat_lt_32[of rc] by linarith
    then show ?thesis
      by (auto simp: LOCKED_REF_def word_le_nat_alt word_unat_eq_iff)
  qed
  then show ?thesis by (auto simp: new_count_def inc_count_def LOCKED_REF_def)
qed

lemma new_count_dec:
  assumes "0 < rc"
  shows "new_count (- 1) rc = (if rc = LOCKED_REF then Some LOCKED_REF
     else if rc = 1 then None else Some (rc - 1))"
proof -
  have "unat rc \<ge> 1" using assms by (simp add: word_less_nat_alt Suc_le_eq)
  then have "of_nat (unat rc - 1) = rc - 1" by (simp add: of_nat_diff)
  then show ?thesis by (auto simp: new_count_def)
qed

lemma patched_represents:
  assumes rep: "represents t (writer_query w) m" and rcd: "vt_ref_counted t" and i: "m i = Some e"
    and k: "new_count delta (sv_rc e) = Some k" "0 < k"
  shows "\<exists>w'. change_ref t i delta w = Inr (True, w') \<and> only_slots t w w' UNIV \<and>
     represents t (writer_query w') (m(i \<mapsto> e\<lparr>sv_rc := k\<rparr>))"
proof -
  obtain ch fl where wf: "wf_table t" and ch: "chains_ok t (writer_query w) m ch"
    and inv: "alloc_inv t (writer_query w) fl (slots_of ch (dom m))"
    using rep unfolding represents_def by blast
  have e: "chain_ok t (writer_query w) i (ch i) e" using ch i by (auto simp: chains_ok_def)
  then have S: "stores t (writer_query w) True (sv_compressed e) (i # ch i)
      (entry_head t (sv_rc e) (sv_key e) @ sv_value e)"
    and key: "wf_key (sv_key e)" and d: "distinct (i # ch i)"
    by (auto simp: chain_ok_def entry_stream_def)
  let ?w = "insert_value w (vt_id t) i (first_part t (sv_compressed e) (ch i)
      (entry_head t k (sv_key e) @ sv_value e))"
  have c: "change_ref t i delta w = Inr (True, ?w)"
    using change_ref_stored[OF wf rcd key S, of delta] k(1) by simp
  have di: "i \<in> dom m" using i by blast
  note U = slots_of_remove[OF ch di]
  have "represents t (writer_query ?w) (m(i \<mapsto> e\<lparr>sv_rc := k\<rparr>))"
  proof (rule represents_put[OF ch wf same_table_refl, of _ _ "ch i"])
    show "chain_ok t (writer_query ?w) i (ch i) (e\<lparr>sv_rc := k\<rparr>)"
      using stores_patched[OF wf rcd key S d, of k] key d k(2)
      by (simp add: chain_ok_def entry_stream_def)
    show "alloc_inv t (writer_query ?w) fl (slots_of ch (dom m - {i}) \<union> set (i # ch i))"
      using alloc_inv_insert_value[OF inv] U(1) by auto
    show "set (i # ch i) \<inter> slots_of ch (dom m - {i}) = {}" using U(2) by blast
    show "q_value (writer_query ?w) (vt_id t) x = q_value (writer_query w) (vt_id t) x"
      if "x \<in> slots_of ch (dom m - {i})" for x
      using that U(2) by (auto simp: writer_query_insert_value)
  qed
  moreover have "valid_record t i (first_part t (sv_compressed e) (ch i)
      (entry_head t k (sv_key e) @ sv_value e))"
  proof -
    have "i \<noteq> 0" using alloc_inv_nonzero[OF inv, of i] U(1) by auto
    then show ?thesis
      using stores_patched[OF wf rcd key S d, of k] wf_table_bounds[OF wf]
      by (cases "ch i") (auto simp: valid_record_def first_part_def)
  qed
  ultimately show ?thesis
    using c only_slots_insert[of i UNIV] by blast
qed

lemma inc_ref_represents:
  assumes rep: "represents t (writer_query w) m" and rcd: "vt_ref_counted t" and i: "m i = Some e"
  shows "\<exists>w'. write_inc_ref t i w = Inr w' \<and> only_slots t w w' UNIV \<and>
     represents t (writer_query w') (m(i \<mapsto> e\<lparr>sv_rc := inc_count (sv_rc e)\<rparr>))"
proof -
  have "0 < sv_rc e"
    using rep i unfolding represents_def chains_ok_def chain_ok_def by blast
  moreover have "rc \<noteq> LOCKED_REF \<Longrightarrow> 0 < rc + 1" for rc :: u32
  proof -
    assume "rc \<noteq> LOCKED_REF"
    then have "unat rc \<noteq> 4294967295" by (auto simp: LOCKED_REF_def word_unat_eq_iff)
    then have "Suc (unat rc) < 4294967296" using unat_lt_32[of rc] by linarith
    then show ?thesis by (simp add: word_less_nat_alt unat_word_ariths)
  qed
  ultimately have "0 < inc_count (sv_rc e)" by (simp add: inc_count_def LOCKED_REF_def)
  then show ?thesis
    using patched_represents[OF rep rcd i new_count_inc] by (auto simp: write_inc_ref_def)
qed

lemma dec_ref_represents:
  assumes rep: "represents t (writer_query w) m" and rcd: "vt_ref_counted t" and i: "m i = Some e"
  shows "\<exists>t' w'. write_dec_ref t i w = Some (Inr (sv_rc e \<noteq> 1, t', w')) \<and> same_table t t' \<and>
     only_slots t w w' UNIV \<and>
     represents t' (writer_query w') (m(i := (if sv_rc e = 1 then None
        else Some (e\<lparr>sv_rc := (if sv_rc e = LOCKED_REF then LOCKED_REF else sv_rc e - 1)\<rparr>))))"
proof -
  have rc: "0 < sv_rc e"
    using rep i unfolding represents_def chains_ok_def chain_ok_def by blast
  obtain ch where wf: "wf_table t" and e: "chain_ok t (writer_query w) i (ch i) e"
    using rep i unfolding represents_def chains_ok_def by blast
  then have S: "stores t (writer_query w) True (sv_compressed e) (i # ch i)
      (entry_head t (sv_rc e) (sv_key e) @ sv_value e)" and key: "wf_key (sv_key e)"
    by (auto simp: chain_ok_def entry_stream_def)
  show ?thesis
  proof (cases "sv_rc e = 1")
    case True
    have "change_ref t i (- 1) w = Inr (False, w)"
      using change_ref_stored[OF wf rcd key S, of "- 1"] new_count_dec[OF rc] True
      by (simp add: LOCKED_REF_def)
    then show ?thesis
      using remove_represents[OF rep, of i] domI[of m i e] i True by (auto simp: write_dec_ref_def cret_def)
  next
    case False
    let ?k = "if sv_rc e = LOCKED_REF then LOCKED_REF else sv_rc e - 1"
    have nc: "new_count (- 1) (sv_rc e) = Some ?k" using new_count_dec[OF rc] False by simp
    have "0 < ?k" using False rc by (auto simp: LOCKED_REF_def word_gt_0)
    then obtain w' where "change_ref t i (- 1) w = Inr (True, w')" "only_slots t w w' UNIV"
        "represents t (writer_query w') (m(i \<mapsto> e\<lparr>sv_rc := ?k\<rparr>))"
      using patched_represents[OF rep rcd i nc] by blast
    then show ?thesis
      using False by (auto simp: write_dec_ref_def cret_def)
  qed
qed

end
