(* ===== verification/Table_Query.thy ===== *)
theory Table_Query
  imports Table_Refs
begin

text \<open>
  The remaining queries of a value table on a stored value: the key at a slot, its presence, the
  size and the full query, as the hash column calls them.
\<close>

section \<open>The key at a slot\<close>

lemma for_parts_stop:
  assumes wf: "wf_table t" and S: "stores t q True c (i # js) (H @ V)" and H: "length H \<le> 30"
    and key: "\<And>buf X. at_bytes buf (H @ X) \<Longrightarrow> length (edata buf) = MAX_ENTRY_BUF_SIZE \<Longrightarrow>
        part_key t 0 1 kq buf = Inr (Some (rc, kq', buf\<lparr>eoff := eoff buf + length H\<rparr>))"
    and f: "\<And>b s. f b s = (False, s)"
  shows "\<exists>c'. for_parts t kq i q f s = Some (Inr ((rc, c'), kq', s))"
proof (cases js)
  case Nil
  let ?n = "length (H @ V)"
  have n: "?n \<le> es t - 2" and sl: "slot_has t q i (size_bytes ?n c @ H @ V)"
    using S Nil by auto
  obtain b where b: "load_entry t q i (ebuf_uninit MAX_ENTRY_BUF_SIZE) (es t) = Inr b"
      "length (edata (set_offset b 0)) = MAX_ENTRY_BUF_SIZE" "eoff (set_offset b 0) = 0"
      "at_bytes (set_offset b 0) (size_bytes ?n c @ H @ V)"
    using load_part[OF wf sl length_ebuf_uninit] by blast
  have t2: "take 2 (edata (set_offset b 0)) = size_bytes ?n c"
    using at_bytes_read(1)[OF b(4), of 2] b(3) by (auto simp: read_slice_def split: if_splits)
  have nt: "\<not> is_tombstone (set_offset b 0)"
    by (rule size_recognised(1)[OF t2]) (use n wf_table_bounds(2)[OF wf] in \<open>simp add: MAX_ENTRY_SIZE_def\<close>)
  note h1 = part_header_plain(1)[OF wf b(4,3) n, of 0 False] and h2 = part_header_plain(2)[OF wf b(4,3) n]
  have "at_bytes ((set_offset b 0)\<lparr>eoff := 2 + length H\<rparr>) V"
    using at_bytes_skip[OF h2, of "length H"] by simp
  then have r: "remaining_to ((set_offset b 0)\<lparr>eoff := 2 + length H\<rparr>) (2 + ?n) = Inr V"
    using at_bytes_remaining by (fastforce simp: add.assoc)
  show ?thesis
    unfolding for_parts_def using b nt h1 key[OF h2] r f
    by (subst for_parts_loop.simps) simp
next
  case (Cons j js')
  let ?X = "take (es t - 10 - length H) V" and ?m = "head_marker True c"
  have es: "es t = 4096" and len: "es t - 2 < length (H @ V)"
    and sl: "slot_has t q i (?m @ le64 j @ H @ ?X)" and mp: "vt_multipart t"
    using S Cons H wf_table_bounds(3)[OF wf] by (auto simp: min_def)
  obtain b where b: "load_entry t q i (ebuf_uninit MAX_ENTRY_BUF_SIZE) (es t) = Inr b"
      "length (edata (set_offset b 0)) = MAX_ENTRY_BUF_SIZE" "eoff (set_offset b 0) = 0"
      "at_bytes (set_offset b 0) (?m @ le64 j @ H @ ?X)"
    using load_part[OF wf sl length_ebuf_uninit] by blast
  have t2: "take 2 (edata (set_offset b 0)) = ?m"
    using at_bytes_read(1)[OF b(4), of 2] b(3) by (auto simp: read_slice_def split: if_splits)
  note h1 = part_header_multi(1)[OF b(4,3) mp, of 0 False] and h2 = part_header_multi(2)[OF b(4,3) mp]
  have "at_bytes ((set_offset b 0)\<lparr>eoff := 10 + length H\<rparr>) ?X"
    using at_bytes_skip[OF h2, of "length H"] by simp
  moreover have "10 + length H + length ?X = es t"
    using len es H by simp
  ultimately have r: "remaining_to ((set_offset b 0)\<lparr>eoff := 10 + length H\<rparr>) (es t) = Inr ?X"
    using at_bytes_remaining[of "(set_offset b 0)\<lparr>eoff := 10 + length H\<rparr>" ?X] by simp
  show ?thesis
    unfolding for_parts_def using b marker_recognised(2)[OF t2] h1 key[OF h2] r f
    by (subst for_parts_loop.simps) simp
qed

lemma represents_chain:
  assumes "represents t q m" and "m i = Some e"
  obtains js where "wf_table t" and "wf_key (sv_key e)" and "0 < eff_rc t (sv_rc e)"
    and "stores t q True (sv_compressed e) (i # js) (entry_head t (sv_rc e) (sv_key e) @ sv_value e)"
proof -
  obtain ch where wf: "wf_table t" and e: "chain_ok t q i (ch i) e"
    using assms unfolding represents_def chains_ok_def by blast
  then show ?thesis
    using that[of "ch i"] by (auto simp: chain_ok_def entry_stream_def eff_rc_def)
qed

lemma has_key_represents:
  assumes rep: "represents t q m" "m i = Some e" and key: "sv_key e = Partial h"
  shows "has_key_at t i (Partial k) q = Some (Inr (partial_key h = partial_key k))"
proof -
  obtain js where c: "wf_table t" "wf_key (Partial h)" "0 < eff_rc t (sv_rc e)"
      "stores t q True (sv_compressed e) (i # js) (entry_head t (sv_rc e) (Partial h) @ sv_value e)"
    using represents_chain[OF rep] key by metis
  have pk: "part_key t 0 1 (Fetch (Some d)) buf =
      Inr (Some (eff_rc t (sv_rc e), Fetch (Some (partial_key h)),
        buf\<lparr>eoff := eoff buf + length (entry_head t (sv_rc e) (Partial h))\<rparr>))"
    if "at_bytes buf (entry_head t (sv_rc e) (Partial h) @ X)" "length (edata buf) = MAX_ENTRY_BUF_SIZE"
    for buf X d
    using part_key_fetch[OF c(2) refl that] by (simp add: eff_rc_def)
  have "\<exists>c'. for_parts t (Fetch (Some (replicate PARTIAL_SIZE 0))) i q (\<lambda>_ s. (False, s)) () =
      Some (Inr ((eff_rc t (sv_rc e), c'), Fetch (Some (partial_key h)), ()))"
    by (rule for_parts_stop[OF c(1,4) entry_head_bound[OF c(2)]]) (auto simp: pk)
  then show ?thesis
    using c(3) by (auto simp: has_key_at_def partial_key_at_def cret_def)
qed

section \<open>Queries and sizes\<close>

lemma query_represents:
  assumes rep: "represents t q m" "m i = Some e" and key: "wf_key key"
    "key_encoded_size key = key_encoded_size (sv_key e)"
  shows "query t (Check key) i q = Some (Inr (if key_bytes key = key_bytes (sv_key e)
      then Some (sv_value e, sv_compressed e, eff_rc t (sv_rc e)) else None, Check key))"
proof -
  obtain js where c: "wf_table t" "wf_key (sv_key e)" "0 < eff_rc t (sv_rc e)"
      "stores t q True (sv_compressed e) (i # js) (entry_head t (sv_rc e) (sv_key e) @ sv_value e)"
    using represents_chain[OF rep] by metis
  show ?thesis
  proof (cases "key_bytes key = key_bytes (sv_key e)")
    case True
    then have "entry_head t (sv_rc e) (sv_key e) = entry_head t (sv_rc e) key"
      by (simp add: entry_head_def)
    then show ?thesis
      using query_check_stores[OF c(1) key(1), of q "sv_compressed e" i js "sv_rc e" "sv_value e"]
        c(3,4) True by simp
  next
    case False
    then show ?thesis
      using for_parts_wrong_key[OF c(1,2) key(1) c(4) key(2)[symmetric], of "\<lambda>buf result. (True, result @ buf)" "[]"]
      by (simp add: query_def cret_def)
  qed
qed

lemma fold_add_length:
  "fold (\<lambda>b s. s + of_nat (length b)) ps s = (s + of_nat (length (concat ps)) :: u32)"
  by (induction ps arbitrary: s) (auto simp: add.assoc)

lemma size_represents:
  assumes rep: "represents t q m" "m i = Some e"
  shows "table_size t (sv_key e) i q = Some (Inr (Some (of_nat (length (sv_value e)), sv_compressed e)))"
proof -
  obtain js where c: "wf_table t" "wf_key (sv_key e)" "0 < eff_rc t (sv_rc e)"
      "stores t q True (sv_compressed e) (i # js) (entry_head t (sv_rc e) (sv_key e) @ sv_value e)"
    using represents_chain[OF rep] by metis
  let ?H = "entry_head t (sv_rc e) (sv_key e)"
  have "for_parts t (Check (sv_key e)) i q (\<lambda>buf result. (True, result + of_nat (length buf))) (0 :: u32) =
      Some (Inr ((eff_rc t (sv_rc e), sv_compressed e), Check (sv_key e),
        of_nat (length (concat (drop_head (length ?H) (cut (es t - 10) (i # js) (?H @ sv_value e)))))))"
    unfolding for_parts_def
    by (subst for_parts_stores[OF c(1,4) entry_head_bound[OF c(2)]])
      (auto simp: part_key_check[OF c(2,2) refl] eff_rc_def fold_add_length)
  then show ?thesis
    using c(3) concat_drop_head[OF c(1,4) entry_head_bound[OF c(2)]]
    by (simp add: table_size_def cret_def)
qed

end
