(* ===== verification/Value_Store.thy ===== *)
theory Value_Store
  imports Table_Refs
begin

text \<open>
  The contract of a value table, as its client (the column) relies on it: a store of values
  under slot numbers. \<open>value_store\<close> gives the laws of insertion, replacement, removal and lookup,
  \<open>counted_store\<close> adds the reference counts. The interpretations discharge the laws for the
  operations of \<^verbatim>\<open>src/src/table.rs\<close>.
\<close>

definition fresh_entry :: "table_key \<Rightarrow> bytes \<Rightarrow> bool \<Rightarrow> stored" where
  "fresh_entry key v c = \<lparr>sv_rc = 1, sv_key = key, sv_value = v, sv_compressed = c\<rparr>"

locale value_store =
  fixes rep :: "'t \<Rightarrow> 'w \<Rightarrow> (u64 \<rightharpoonup> stored) \<Rightarrow> bool"
    and admits :: "'t \<Rightarrow> table_key \<Rightarrow> bytes \<Rightarrow> bool"
    and ins :: "'t \<Rightarrow> table_key \<Rightarrow> bytes \<Rightarrow> 'w \<Rightarrow> bool \<Rightarrow> (u64 \<times> 't \<times> 'w) comp"
    and repl :: "'t \<Rightarrow> u64 \<Rightarrow> table_key \<Rightarrow> bytes \<Rightarrow> 'w \<Rightarrow> bool \<Rightarrow> ('t \<times> 'w) comp"
    and rmv :: "'t \<Rightarrow> u64 \<Rightarrow> 'w \<Rightarrow> ('t \<times> 'w) comp"
    and look :: "'t \<Rightarrow> table_key \<Rightarrow> u64 \<Rightarrow> 'w \<Rightarrow> (bytes \<times> bool) option comp"
  assumes ins_law: "rep t w m \<Longrightarrow> wf_key k \<Longrightarrow> admits t k v \<Longrightarrow>
      \<exists>i t' w'. ins t k v w c = Some (Inr (i, t', w')) \<and> i \<noteq> 0 \<and> i \<notin> dom m \<and>
        rep t' w' (m(i \<mapsto> fresh_entry k v c))"
    and repl_law: "rep t w m \<Longrightarrow> wf_key k \<Longrightarrow> admits t k v \<Longrightarrow> i \<in> dom m \<Longrightarrow>
      \<exists>t' w'. repl t i k v w c = Some (Inr (t', w')) \<and> rep t' w' (m(i \<mapsto> fresh_entry k v c))"
    and rmv_law: "rep t w m \<Longrightarrow> i \<in> dom m \<Longrightarrow>
      \<exists>t' w'. rmv t i w = Some (Inr (t', w')) \<and> rep t' w' (m(i := None))"
    and look_law: "rep t w m \<Longrightarrow> m i = Some e \<Longrightarrow> wf_key k \<Longrightarrow>
      key_encoded_size k = key_encoded_size (sv_key e) \<Longrightarrow>
      look t k i w = Some (Inr (if key_bytes k = key_bytes (sv_key e)
        then Some (sv_value e, sv_compressed e) else None))"
begin

lemma insert_then_get:
  assumes "rep t w m" and "wf_key k" and "admits t k v"
  shows "\<exists>i t' w'. ins t k v w c = Some (Inr (i, t', w')) \<and> i \<notin> dom m \<and>
     look t' k i w' = Some (Inr (Some (v, c))) \<and>
     (\<forall>j e k'. m j = Some e \<longrightarrow> wf_key k' \<longrightarrow> key_encoded_size k' = key_encoded_size (sv_key e) \<longrightarrow>
        look t' k' j w' = look t k' j w)"
proof -
  obtain i t' w' where r: "ins t k v w c = Some (Inr (i, t', w'))" "i \<notin> dom m"
      "rep t' w' (m(i \<mapsto> fresh_entry k v c))"
    using ins_law[OF assms] by blast
  have "look t' k i w' = Some (Inr (Some (v, c)))"
    using look_law[OF r(3), of i "fresh_entry k v c" k] assms(2) by (simp add: fresh_entry_def)
  moreover have "look t' k' j w' = look t k' j w"
    if "m j = Some e" "wf_key k'" "key_encoded_size k' = key_encoded_size (sv_key e)" for j e k'
  proof -
    have "(m(i \<mapsto> fresh_entry k v c)) j = Some e" using that(1) r(2) by auto
    then show ?thesis using look_law[OF r(3)] look_law[OF assms(1)] that by metis
  qed
  ultimately show ?thesis using r(1,2) by blast
qed

lemma replace_then_get:
  assumes "rep t w m" and "wf_key k" and "admits t k v" and "i \<in> dom m"
  shows "\<exists>t' w'. repl t i k v w c = Some (Inr (t', w')) \<and>
     look t' k i w' = Some (Inr (Some (v, c))) \<and>
     (\<forall>j e k'. m j = Some e \<longrightarrow> j \<noteq> i \<longrightarrow> wf_key k' \<longrightarrow>
        key_encoded_size k' = key_encoded_size (sv_key e) \<longrightarrow> look t' k' j w' = look t k' j w)"
proof -
  obtain t' w' where r: "repl t i k v w c = Some (Inr (t', w'))"
      "rep t' w' (m(i \<mapsto> fresh_entry k v c))"
    using repl_law[OF assms] by blast
  have "look t' k i w' = Some (Inr (Some (v, c)))"
    using look_law[OF r(2), of i "fresh_entry k v c" k] assms(2) by (simp add: fresh_entry_def)
  moreover have "look t' k' j w' = look t k' j w"
    if "m j = Some e" "j \<noteq> i" "wf_key k'" "key_encoded_size k' = key_encoded_size (sv_key e)" for j e k'
  proof -
    have "(m(i \<mapsto> fresh_entry k v c)) j = Some e" using that(1,2) by auto
    then show ?thesis using look_law[OF r(2)] look_law[OF assms(1)] that by metis
  qed
  ultimately show ?thesis using r(1) by blast
qed

text \<open>Removing what was just inserted brings the store back: no slot is lost on the way.\<close>

lemma insert_then_remove:
  assumes "rep t w m" and "wf_key k" and "admits t k v"
  shows "\<exists>i t' w' t'' w''. ins t k v w c = Some (Inr (i, t', w')) \<and>
     rmv t' i w' = Some (Inr (t'', w'')) \<and> rep t'' w'' m"
proof -
  obtain i t' w' where r: "ins t k v w c = Some (Inr (i, t', w'))" "i \<notin> dom m"
      "rep t' w' (m(i \<mapsto> fresh_entry k v c))"
    using ins_law[OF assms] by blast
  obtain t'' w'' where "rmv t' i w' = Some (Inr (t'', w''))"
      "rep t'' w'' ((m(i \<mapsto> fresh_entry k v c))(i := None))"
    using rmv_law[OF r(3), of i] by auto
  moreover have "(m(i \<mapsto> fresh_entry k v c))(i := None) = m"
    using r(2) by auto
  ultimately show ?thesis using r(1) by metis
qed

end

locale counted_store = value_store rep admits ins repl rmv look
  for rep :: "'t \<Rightarrow> 'w \<Rightarrow> (u64 \<rightharpoonup> stored) \<Rightarrow> bool" and admits ins repl rmv look +
  fixes inc :: "'t \<Rightarrow> u64 \<Rightarrow> 'w \<Rightarrow> 'w res"
    and dec :: "'t \<Rightarrow> u64 \<Rightarrow> 'w \<Rightarrow> (bool \<times> 't \<times> 'w) comp"
  assumes inc_law: "rep t w m \<Longrightarrow> m i = Some e \<Longrightarrow>
      \<exists>w'. inc t i w = Inr w' \<and> rep t w' (m(i \<mapsto> e\<lparr>sv_rc := inc_count (sv_rc e)\<rparr>))"
    and dec_law: "rep t w m \<Longrightarrow> m i = Some e \<Longrightarrow>
      \<exists>t' w'. dec t i w = Some (Inr (sv_rc e \<noteq> 1, t', w')) \<and>
        rep t' w' (m(i := (if sv_rc e = 1 then None
          else Some (e\<lparr>sv_rc := (if sv_rc e = LOCKED_REF then LOCKED_REF else sv_rc e - 1)\<rparr>))))"
begin

text \<open>A reference taken and released leaves the counter as it was, short of the lock.\<close>

lemma inc_then_dec:
  assumes "rep t w m" and "m i = Some e" and "0 < sv_rc e" and "sv_rc e + 1 \<noteq> LOCKED_REF"
    and "sv_rc e \<noteq> LOCKED_REF"
  shows "\<exists>w' t'' w''. inc t i w = Inr w' \<and> dec t i w' = Some (Inr (True, t'', w'')) \<and> rep t'' w'' m"
proof -
  obtain w' where i: "inc t i w = Inr w'" "rep t w' (m(i \<mapsto> e\<lparr>sv_rc := sv_rc e + 1\<rparr>))"
    using inc_law[OF assms(1,2)] assms(5) by (auto simp: inc_count_def)
  have "sv_rc e + 1 \<noteq> 1" using assms(3) by auto
  then obtain t'' w'' where "dec t i w' = Some (Inr (True, t'', w''))"
      "rep t'' w'' ((m(i \<mapsto> e\<lparr>sv_rc := sv_rc e + 1\<rparr>))(i \<mapsto> e\<lparr>sv_rc := sv_rc e\<rparr>))"
    using dec_law[OF i(2), of i "e\<lparr>sv_rc := sv_rc e + 1\<rparr>"] assms(4) by auto
  moreover have "(m(i \<mapsto> e\<lparr>sv_rc := sv_rc e + 1\<rparr>))(i \<mapsto> e\<lparr>sv_rc := sv_rc e\<rparr>) = m"
    using assms(2) by auto
  ultimately show ?thesis using i(1) by metis
qed

text \<open>A locked value never goes away.\<close>

lemma locked_stays:
  assumes "rep t w m" and "m i = Some e" and "sv_rc e = LOCKED_REF"
  shows "\<exists>t' w'. dec t i w = Some (Inr (True, t', w')) \<and> rep t' w' m"
proof -
  have "LOCKED_REF \<noteq> 1" by (simp add: LOCKED_REF_def)
  then obtain t' w' where "dec t i w = Some (Inr (True, t', w'))"
      "rep t' w' (m(i \<mapsto> e\<lparr>sv_rc := LOCKED_REF\<rparr>))"
    using dec_law[OF assms(1,2)] assms(3) by auto
  moreover have "m(i \<mapsto> e\<lparr>sv_rc := LOCKED_REF\<rparr>) = m" using assms(2,3) by auto
  ultimately show ?thesis by metis
qed

end

section \<open>Value tables are such stores\<close>

definition table_rep :: "value_table \<Rightarrow> log_writer \<Rightarrow> (u64 \<rightharpoonup> stored) \<Rightarrow> bool" where
  "table_rep t w m \<longleftrightarrow> represents t (writer_query w) m"

definition counted_rep :: "value_table \<Rightarrow> log_writer \<Rightarrow> (u64 \<rightharpoonup> stored) \<Rightarrow> bool" where
  "counted_rep t w m \<longleftrightarrow> represents t (writer_query w) m \<and> vt_ref_counted t"

definition table_admits :: "value_table \<Rightarrow> table_key \<Rightarrow> bytes \<Rightarrow> bool" where
  "table_admits t k v \<longleftrightarrow> fits t k v \<and> room t v"

definition table_look :: "value_table \<Rightarrow> table_key \<Rightarrow> u64 \<Rightarrow> log_writer \<Rightarrow> (bytes \<times> bool) option comp" where
  "table_look t k i w = table_get t k i (writer_query w)"

interpretation vt: value_store table_rep table_admits table_write_insert_plan
  table_write_replace_plan table_write_remove_plan table_look
proof unfold_locales
  fix t w m k v c
  assume "table_rep t w m" "wf_key k" "table_admits t k v"
  then show "\<exists>i t' w'. table_write_insert_plan t k v w c = Some (Inr (i, t', w')) \<and> i \<noteq> 0 \<and>
      i \<notin> dom m \<and> table_rep t' w' (m(i \<mapsto> fresh_entry k v c))"
    using insert_represents[of t w m k v c] by (auto simp: table_rep_def table_admits_def fresh_entry_def)
next
  fix t w m k v i c
  assume "table_rep t w m" "wf_key k" "table_admits t k v" "i \<in> dom m"
  then show "\<exists>t' w'. table_write_replace_plan t i k v w c = Some (Inr (t', w')) \<and>
      table_rep t' w' (m(i \<mapsto> fresh_entry k v c))"
    using replace_represents[of t w m k v i c]
    by (auto simp: table_rep_def table_admits_def fresh_entry_def)
next
  fix t w m i
  assume "table_rep t w m" "i \<in> dom m"
  then show "\<exists>t' w'. table_write_remove_plan t i w = Some (Inr (t', w')) \<and> table_rep t' w' (m(i := None))"
    using remove_represents[of t w m i] by (auto simp: table_rep_def)
next
  fix t w m i e k
  assume "table_rep t w m" "m i = Some e" "wf_key k" "key_encoded_size k = key_encoded_size (sv_key e)"
  then show "table_look t k i w = Some (Inr (if key_bytes k = key_bytes (sv_key e)
      then Some (sv_value e, sv_compressed e) else None))"
    using get_represents[of t "writer_query w" m i e k] by (simp add: table_rep_def table_look_def)
qed

lemma represents_counted: "same_table t t' \<Longrightarrow> vt_ref_counted t' = vt_ref_counted t"
  by (simp add: same_table_def)

interpretation ct: counted_store counted_rep table_admits table_write_insert_plan
  table_write_replace_plan table_write_remove_plan table_look write_inc_ref write_dec_ref
proof unfold_locales
  fix t w m k v c
  assume "counted_rep t w m" "wf_key k" "table_admits t k v"
  then show "\<exists>i t' w'. table_write_insert_plan t k v w c = Some (Inr (i, t', w')) \<and> i \<noteq> 0 \<and>
      i \<notin> dom m \<and> counted_rep t' w' (m(i \<mapsto> fresh_entry k v c))"
    using insert_represents[of t w m k v c]
    by (auto simp: counted_rep_def table_admits_def fresh_entry_def represents_counted)
next
  fix t w m k v i c
  assume "counted_rep t w m" "wf_key k" "table_admits t k v" "i \<in> dom m"
  then show "\<exists>t' w'. table_write_replace_plan t i k v w c = Some (Inr (t', w')) \<and>
      counted_rep t' w' (m(i \<mapsto> fresh_entry k v c))"
    using replace_represents[of t w m k v i c]
    by (auto simp: counted_rep_def table_admits_def fresh_entry_def represents_counted)
next
  fix t w m i
  assume "counted_rep t w m" "i \<in> dom m"
  then show "\<exists>t' w'. table_write_remove_plan t i w = Some (Inr (t', w')) \<and> counted_rep t' w' (m(i := None))"
    using remove_represents[of t w m i] by (auto simp: counted_rep_def represents_counted)
next
  fix t w m i e k
  assume "counted_rep t w m" "m i = Some e" "wf_key k" "key_encoded_size k = key_encoded_size (sv_key e)"
  then show "table_look t k i w = Some (Inr (if key_bytes k = key_bytes (sv_key e)
      then Some (sv_value e, sv_compressed e) else None))"
    using get_represents[of t "writer_query w" m i e k] by (simp add: counted_rep_def table_look_def)
next
  fix t w m i e
  assume a: "counted_rep t w m" "m i = Some e"
  then show "\<exists>w'. write_inc_ref t i w = Inr w' \<and> counted_rep t w' (m(i \<mapsto> e\<lparr>sv_rc := inc_count (sv_rc e)\<rparr>))"
    using inc_ref_represents[of t w m i e] by (auto simp: counted_rep_def)
  show "\<exists>t' w'. write_dec_ref t i w = Some (Inr (sv_rc e \<noteq> 1, t', w')) \<and>
      counted_rep t' w' (m(i := (if sv_rc e = 1 then None
        else Some (e\<lparr>sv_rc := (if sv_rc e = LOCKED_REF then LOCKED_REF else sv_rc e - 1)\<rparr>))))"
    using dec_ref_represents[of t w m i e] a
    by (auto simp: counted_rep_def represents_counted simp del: fun_upd_apply)
qed

end
