(* ===== verification/Column_Tiers.thy ===== *)
theory Column_Tiers
  imports Column Table_Query Value_Store
begin

text \<open>
  The value tables of a column as one store: each tier represents a map from slots to stored
  values, and planning an operation on one tier leaves the others and every index chunk alone.
\<close>

definition tiers_rep :: "value_table list \<Rightarrow> log_query \<Rightarrow> (nat \<Rightarrow> u64 \<rightharpoonup> stored) \<Rightarrow> bool" where
  "tiers_rep ts q ms \<longleftrightarrow> distinct (map vt_id ts) \<and> (\<forall>i < length ts. represents (ts ! i) q (ms i))"

lemma represents_cong:
  assumes "\<And>x. q_value q' (vt_id t) x = q_value q (vt_id t) x"
  shows "represents t q' m = represents t q m"
proof -
  have "chain_ok t q' i js e = chain_ok t q i js e" for i js e
    by (rule chain_ok_cong) (use assms in auto)
  moreover have "linked t q' fl = linked t q fl" for fl
    by (rule linked_cong) (use assms in auto)
  ultimately show ?thesis
    by (simp add: represents_def chains_ok_def alloc_inv_def)
qed

lemma tiers_rep_cong:
  "(\<And>id' x. q_value q' id' x = q_value q id' x) \<Longrightarrow> tiers_rep ts q' ms = tiers_rep ts q ms"
  unfolding tiers_rep_def using represents_cong by metis

lemma tiers_frame:
  assumes ts: "tiers_rep ts (writer_query w) ms" and i: "i < length ts"
    and t': "same_table (ts ! i) t'" "only_slots (ts ! i) w w' UNIV" "represents t' (writer_query w') m'"
  shows "tiers_rep (ts[i := t']) (writer_query w') (ms(i := m'))"
proof -
  have id: "vt_id t' = vt_id (ts ! i)" using t'(1) by (simp add: same_table_def)
  have "map vt_id (ts[i := t']) = map vt_id ts"
    using id i by (simp add: map_update list_update_same_conv)
  moreover have "represents (ts[i := t'] ! j) (writer_query w') ((ms(i := m')) j)"
    if j: "j < length ts" for j
  proof (cases "j = i")
    case False
    then have "vt_id (ts ! j) \<noteq> vt_id (ts ! i)"
      using ts i j nth_eq_iff_index_eq[of "map vt_id ts" j i] by (simp add: tiers_rep_def)
    then have "q_value (writer_query w') (vt_id (ts ! j)) x = q_value (writer_query w) (vt_id (ts ! j)) x" for x
      using t'(2) by (simp add: only_slots_def)
    then show ?thesis
      using represents_cong[of "writer_query w'" "ts ! j" "writer_query w"] ts j False
      by (simp add: tiers_rep_def)
  qed (use i t'(3) in simp)
  ultimately show ?thesis using ts by (simp add: tiers_rep_def)
qed

lemma only_slots_index: "only_slots t w w' A \<Longrightarrow> q_index (writer_query w') = q_index (writer_query w)"
  by (simp add: only_slots_def)

section \<open>The operations on one tier\<close>

lemma tier_represents:
  "tiers_rep ts q ms \<Longrightarrow> i < length ts \<Longrightarrow> represents (ts ! i) q (ms i)"
  by (simp add: tiers_rep_def)

lemma tier_insert_bound:
  assumes ts: "tiers_rep ts (writer_query w) ms" and i: "i < length ts"
    and A: "wf_key k" "fits (ts ! i) k v" "room (ts ! i) v"
  shows "\<exists>off t' w'. table_write_insert_plan (ts ! i) k v w c = Some (Inr (off, t', w')) \<and> off \<noteq> 0 \<and>
     off \<notin> dom (ms i) \<and> off \<le> vt_filled (ts ! i) \<and> same_table (ts ! i) t' \<and>
     unat (vt_filled t') \<le> unat (vt_filled (ts ! i)) + length v + 31 \<and>
     q_index (writer_query w') = q_index (writer_query w) \<and>
     tiers_rep (ts[i := t']) (writer_query w') (ms(i := (ms i)(off \<mapsto> fresh_entry k v c)))"
  using insert_represents_bound[OF tier_represents[OF ts i] A, of c] tiers_frame[OF ts i] only_slots_index
  unfolding fresh_entry_def by blast

lemma tier_insert:
  assumes ts: "tiers_rep ts (writer_query w) ms" and i: "i < length ts"
    and A: "wf_key k" "fits (ts ! i) k v" "room (ts ! i) v"
  shows "\<exists>off t' w'. table_write_insert_plan (ts ! i) k v w c = Some (Inr (off, t', w')) \<and> off \<noteq> 0 \<and>
     off \<notin> dom (ms i) \<and> off \<le> vt_filled (ts ! i) \<and> same_table (ts ! i) t' \<and>
     q_index (writer_query w') = q_index (writer_query w) \<and>
     tiers_rep (ts[i := t']) (writer_query w') (ms(i := (ms i)(off \<mapsto> fresh_entry k v c)))"
  using tier_insert_bound[OF assms, of c] by blast

lemma tier_replace:
  assumes ts: "tiers_rep ts (writer_query w) ms" and i: "i < length ts"
    and A: "wf_key k" "fits (ts ! i) k v" "room (ts ! i) v" "off \<in> dom (ms i)"
  shows "\<exists>t' w'. table_write_replace_plan (ts ! i) off k v w c = Some (Inr (t', w')) \<and>
     same_table (ts ! i) t' \<and> q_index (writer_query w') = q_index (writer_query w) \<and>
     tiers_rep (ts[i := t']) (writer_query w') (ms(i := (ms i)(off \<mapsto> fresh_entry k v c)))"
  using replace_represents[OF tier_represents[OF ts i] A, of c] tiers_frame[OF ts i] only_slots_index
  unfolding fresh_entry_def by blast

lemma tier_remove:
  assumes ts: "tiers_rep ts (writer_query w) ms" and i: "i < length ts"
    and A: "off \<in> dom (ms i)"
  shows "\<exists>t' w'. table_write_remove_plan (ts ! i) off w = Some (Inr (t', w')) \<and>
     same_table (ts ! i) t' \<and> q_index (writer_query w') = q_index (writer_query w) \<and>
     tiers_rep (ts[i := t']) (writer_query w') (ms(i := (ms i)(off := None)))"
  using remove_represents[OF tier_represents[OF ts i] A] tiers_frame[OF ts i] only_slots_index by blast

lemma tier_inc_ref:
  assumes ts: "tiers_rep ts (writer_query w) ms" and i: "i < length ts"
    and A: "vt_ref_counted (ts ! i)" "ms i off = Some e"
  shows "\<exists>w'. write_inc_ref (ts ! i) off w = Inr w' \<and>
     q_index (writer_query w') = q_index (writer_query w) \<and>
     tiers_rep ts (writer_query w') (ms(i := (ms i)(off \<mapsto> e\<lparr>sv_rc := inc_count (sv_rc e)\<rparr>)))"
proof -
  obtain w' where w': "write_inc_ref (ts ! i) off w = Inr w'" "only_slots (ts ! i) w w' UNIV"
      "represents (ts ! i) (writer_query w') ((ms i)(off \<mapsto> e\<lparr>sv_rc := inc_count (sv_rc e)\<rparr>))"
    using inc_ref_represents[OF tier_represents[OF ts i] A] by blast
  then show ?thesis
    using tiers_frame[OF ts i same_table_refl w'(2,3)] only_slots_index[OF w'(2)] by simp
qed

lemma tier_dec_ref:
  assumes ts: "tiers_rep ts (writer_query w) ms" and i: "i < length ts"
    and A: "vt_ref_counted (ts ! i)" "ms i off = Some e"
  shows "\<exists>t' w'. write_dec_ref (ts ! i) off w = Some (Inr (sv_rc e \<noteq> 1, t', w')) \<and>
     same_table (ts ! i) t' \<and> q_index (writer_query w') = q_index (writer_query w) \<and>
     tiers_rep (ts[i := t']) (writer_query w') (ms(i := (ms i)(off := (if sv_rc e = 1 then None
        else Some (e\<lparr>sv_rc := (if sv_rc e = LOCKED_REF then LOCKED_REF else sv_rc e - 1)\<rparr>)))))"
  using dec_ref_represents[OF tier_represents[OF ts i] A] tiers_frame[OF ts i] only_slots_index by blast

end
