(* ===== verification/Index_Props.thy ===== *)
theory Index_Props
  imports Index
begin

text \<open>
  What the hash index promises: planning an insertion fills one empty entry of the key's chunk
  and leaves every other entry, and every other chunk, as it was; a filled chunk or an address
  that no longer fits asks for a larger index; enacting the bytes that were logged for a chunk
  brings the mapped chunk to what the overlay showed.
\<close>

section \<open>The chunk a query sees\<close>

definition chunk_view :: "index_table \<Rightarrow> log_query \<Rightarrow> u64 \<Rightarrow> bytes res" where
  "chunk_view t q ci =
     (case q_index q (it_id t) ci of
        Some chunk \<Rightarrow> Inr chunk
      | None \<Rightarrow> (case it_map t of Some m \<Rightarrow> chunk_at ci m | None \<Rightarrow> Inr EMPTY_CHUNK))"

definition wf_index :: "index_table \<Rightarrow> bool" where
  "wf_index t \<longleftrightarrow> valid_index_bits (it_bits t) \<and>
     (case it_map t of Some m \<Rightarrow> unat (index_file_size (it_bits t)) \<le> flen m | None \<Rightarrow> True)"

definition wf_query :: "log_query \<Rightarrow> bool" where
  "wf_query q \<longleftrightarrow> (\<forall>t i d. q_index q t i = Some d \<longrightarrow> length d = CHUNK_LEN)"

lemma read_entry_EMPTY [simp]: "i < CHUNK_ENTRIES \<Longrightarrow> read_entry EMPTY_CHUNK i = Entry 0"
proof -
  have z: "from_le (replicate n 0) = (0 :: u64)" for n
    by (induction n) auto
  assume "i < CHUNK_ENTRIES"
  then show ?thesis
    by (simp add: read_entry_def EMPTY_CHUNK_def index_consts z)
qed

lemma find_entry_EMPTY [simp]: "find_entry t kp sub EMPTY_CHUNK = (entry_empty, 0)"
  using find_entry_cases[of t kp sub EMPTY_CHUNK]
  by (cases "find_entry t kp sub EMPTY_CHUNK") (auto simp: entry_is_empty_def)

lemma index_get_view:
  "index_get t key sub q =
     rbind (chunk_view t q (chunk_index (it_id t) (index_from_partial key)))
       (\<lambda>c. Inr (find_entry (it_id t) (index_from_partial key) sub c))"
  by (auto simp: index_get_def chunk_view_def Let_def split: option.splits)

lemma index_entries_view:
  "index_entries t ci q = rbind (chunk_view t q ci) (\<lambda>c. Inr (transmute_chunk c))"
  by (auto simp: index_entries_def chunk_view_def split: option.splits)

lemma index_insert_view:
  "index_write_insert_plan t key a sub w =
     rbind (chunk_view t (writer_query w) (chunk_index (it_id t) (index_from_partial key)))
       (\<lambda>c. plan_insert_chunk t (index_from_partial key) a c sub w)"
  by (auto simp: index_write_insert_plan_def chunk_view_def Let_def split: option.splits)

lemma index_remove_view:
  "sub < CHUNK_ENTRIES \<Longrightarrow> index_write_remove_plan t key sub w =
     rbind (chunk_view t (writer_query w) (chunk_index (it_id t) (index_from_partial key)))
       (\<lambda>c. plan_remove_chunk t (index_from_partial key) c sub w)"
  by (auto simp: index_write_remove_plan_def chunk_view_def Let_def plan_remove_chunk_def
      entry_is_empty_def split: option.splits)

text \<open>The geometry: every chunk number below \<open>total_chunks\<close> lies inside the mapped file.\<close>

lemma unat_total_chunks: "valid_index_bits b \<Longrightarrow> unat (total_chunks b) = 2 ^ unat b"
  by (simp add: total_chunks_def shl64_def valid_index_bits_def unat_2p)

lemma index_file_size_eq:
  assumes "valid_index_bits b"
  shows "unat (index_file_size b) = 2 ^ unat b * CHUNK_LEN + META_SIZE"
proof -
  have "(2 :: nat) ^ unat b \<le> 2 ^ 49"
    using assms by (intro power_increasing) (auto simp: valid_index_bits_def)
  moreover have "index_file_size b = of_nat (unat (total_chunks b) * 512 + 16384)"
    by (simp add: index_file_size_def total_entries_def index_consts META_SIZE_def)
  moreover have "unat (of_nat n :: u64) = n" if "n \<le> 2 ^ 49 * 512 + 16384" for n
    by (rule unat_of_nat_u64) (use that in simp)
  ultimately show ?thesis
    by (simp add: unat_total_chunks[OF assms] index_consts META_SIZE_def del: of_nat_add of_nat_mult)
qed

lemma chunk_offset_eq:
  assumes "valid_index_bits b" and "unat ci < 2 ^ unat b"
  shows "chunk_offset ci = META_SIZE + unat ci * CHUNK_LEN"
    and "chunk_offset ci + CHUNK_LEN \<le> unat (index_file_size b)"
proof -
  have p: "(2 :: nat) ^ unat b \<le> 2 ^ 49"
    using assms(1) by (intro power_increasing) (auto simp: valid_index_bits_def)
  have "of_nat META_SIZE + ci * of_nat CHUNK_LEN = (of_nat (16384 + unat ci * 512) :: u64)"
    by (simp add: META_SIZE_def index_consts)
  then show e: "chunk_offset ci = META_SIZE + unat ci * CHUNK_LEN"
    using p assms(2) unat_of_nat_u64[of "16384 + unat ci * 512"]
    by (simp only: chunk_offset_def META_SIZE_def index_consts) simp
  have "(unat ci + 1) * CHUNK_LEN \<le> 2 ^ unat b * CHUNK_LEN"
    using assms(2) by (intro mult_le_mono1) simp
  then show "chunk_offset ci + CHUNK_LEN \<le> unat (index_file_size b)"
    unfolding e index_file_size_eq[OF assms(1)] by simp
qed

text \<open>A chunk number past the last chunk, below the number of entries: its offset is behind the file.\<close>

lemma chunk_outside_file:
  assumes "valid_index_bits b" and "unat b < 49" and "total_chunks b \<le> ci" and "ci < total_entries b"
  shows "unat (index_file_size b) < chunk_offset ci + CHUNK_LEN"
proof -
  have p: "(2 :: nat) ^ unat b \<le> 2 ^ 48" using assms(2) by (intro power_increasing) auto
  have "total_entries b = of_nat (unat (total_chunks b) * 64)"
    by (simp add: total_entries_def CHUNK_ENTRIES_def)
  then have "total_entries b = of_nat (2 ^ unat b * 64)" unfolding unat_total_chunks[OF assms(1)] .
  then have u: "unat ci < 2 ^ unat b * 64"
    using assms(4) unat_of_nat_u64[of "2 ^ unat b * 64"] p by (simp add: word_less_nat_alt)
  have "of_nat META_SIZE + ci * of_nat CHUNK_LEN = (of_nat (16384 + unat ci * 512) :: u64)"
    by (simp add: META_SIZE_def index_consts)
  moreover have "16384 + unat ci * 512 < 2 ^ 64" using u p by simp
  ultimately have "chunk_offset ci = 16384 + unat ci * 512"
    unfolding chunk_offset_def by (simp only: unat_of_nat_u64)
  moreover have "2 ^ unat b \<le> unat ci"
    using assms(3) unat_total_chunks[OF assms(1)] by (simp add: word_le_nat_alt)
  ultimately show ?thesis
    unfolding index_file_size_eq[OF assms(1)] by (simp add: META_SIZE_def index_consts)
qed

lemma chunk_view_total:
  assumes "wf_index t" and "wf_query q" and "unat ci < 2 ^ unat (it_bits t)"
  shows "\<exists>c. chunk_view t q ci = Inr c \<and> length c = CHUNK_LEN"
  using assms chunk_offset_eq(2)[of "it_bits t" ci]
  by (fastforce simp: chunk_view_def wf_index_def wf_query_def chunk_at_def map_slice_def
      split: option.splits)

lemma chunk_index_below:
  "wf_index t \<Longrightarrow> unat (chunk_index (it_id t) kp) < 2 ^ unat (it_bits t)"
  using chunk_index_bound[of "it_id t" kp] unat_total_chunks[of "it_bits t"]
  by (simp add: wf_index_def word_less_nat_alt)

lemma chunk_view_insert_index:
  "chunk_view t (writer_query (insert_index w (it_id t) ci i d)) ci' =
     (if ci' = ci then Inr d else chunk_view t (writer_query w) ci')"
  by (simp add: chunk_view_def writer_query_insert_index)

lemma wf_query_insert_index:
  "wf_query (writer_query w) \<Longrightarrow> length d = CHUNK_LEN \<Longrightarrow>
     wf_query (writer_query (insert_index w t ci i d))"
  by (auto simp: wf_query_def writer_query_insert_index)

section \<open>Insertion and removal\<close>

lemma find_empty_cases:
  "List.find (\<lambda>i. entry_is_empty (read_entry chunk i)) [0..<CHUNK_ENTRIES] = None
     \<longleftrightarrow> (\<forall>i < CHUNK_ENTRIES. \<not> entry_is_empty (read_entry chunk i))"
  by (auto simp: find_None_iff)

lemma find_empty_Some:
  assumes "List.find (\<lambda>i. entry_is_empty (read_entry chunk i)) [0..<CHUNK_ENTRIES] = Some i"
  shows "i < CHUNK_ENTRIES" and "entry_is_empty (read_entry chunk i)"
    and "\<And>j. j < i \<Longrightarrow> \<not> entry_is_empty (read_entry chunk j)"
  using assms by (auto simp: find_Some_iff)

lemma nth_transmute [simp]: "i < CHUNK_ENTRIES \<Longrightarrow> transmute_chunk c ! i = read_entry c i"
  by (simp add: transmute_chunk_def)

lemma length_transmute [simp]: "length (transmute_chunk c) = CHUNK_ENTRIES"
  by (simp add: transmute_chunk_def)

text \<open>Planning an insertion, on every branch, as a function of the 64 entries seen before.\<close>

lemma index_insert_spec:
  assumes wf: "wf_index t" "wf_query (writer_query w)"
    and kp: "kp = index_from_partial key" and ci: "ci = chunk_index (it_id t) kp"
    and es: "index_entries t ci (writer_query w) = Inr es"
  shows "entry_last_address (it_bits t) < address_as_u64 a \<Longrightarrow>
           index_write_insert_plan t key a None w = Inr (NeedReindex, w)"
    and "\<forall>e\<in>set es. \<not> entry_is_empty e \<Longrightarrow>
           index_write_insert_plan t key a None w = Inr (NeedReindex, w)"
    and "\<lbrakk>address_as_u64 a \<le> entry_last_address (it_bits t); i < CHUNK_ENTRIES;
           entry_is_empty (es ! i); \<forall>j<i. \<not> entry_is_empty (es ! j)\<rbrakk> \<Longrightarrow>
           \<exists>w'. index_write_insert_plan t key a None w = Inr (Written, w') \<and>
             wf_query (writer_query w') \<and>
             index_entries t ci (writer_query w') =
               Inr (es[i := entry_new a (entry_extract_key kp (it_bits t)) (it_bits t)]) \<and>
             (\<forall>ci'. ci' \<noteq> ci \<longrightarrow>
                index_entries t ci' (writer_query w') = index_entries t ci' (writer_query w))"
proof -
  obtain c where c: "chunk_view t (writer_query w) ci = Inr c" "length c = CHUNK_LEN"
    using chunk_view_total[OF wf chunk_index_below[OF wf(1)]] ci by blast
  then have es: "es = transmute_chunk c"
    using es by (simp add: index_entries_view)
  show "entry_last_address (it_bits t) < address_as_u64 a \<Longrightarrow>
           index_write_insert_plan t key a None w = Inr (NeedReindex, w)"
    using c by (simp add: index_insert_view flip: kp ci) (simp add: plan_insert_chunk_def Let_def)
  show "\<forall>e\<in>set es. \<not> entry_is_empty e \<Longrightarrow>
           index_write_insert_plan t key a None w = Inr (NeedReindex, w)"
  proof -
    assume "\<forall>e\<in>set es. \<not> entry_is_empty e"
    then have "List.find (\<lambda>i. entry_is_empty (read_entry c i)) [0..<CHUNK_ENTRIES] = None"
      by (auto simp: find_empty_cases es transmute_chunk_def)
    then show ?thesis
      using c by (simp add: index_insert_view flip: kp ci) (simp add: plan_insert_chunk_def Let_def)
  qed
  assume a: "address_as_u64 a \<le> entry_last_address (it_bits t)" and i: "i < CHUNK_ENTRIES"
    and e: "entry_is_empty (es ! i)" "\<forall>j<i. \<not> entry_is_empty (es ! j)"
  have "List.find (\<lambda>i. entry_is_empty (read_entry c i)) [0..<CHUNK_ENTRIES] = Some i"
    unfolding find_Some_iff using i e by (auto simp: es intro!: exI[of _ i])
  then have "index_write_insert_plan t key a None w = Inr (Written,
      insert_index w (it_id t) ci (of_nat i)
        (write_entry (entry_new a (entry_extract_key kp (it_bits t)) (it_bits t)) i c))"
    using c a by (simp add: index_insert_view flip: kp ci)
      (simp add: plan_insert_chunk_def Let_def not_less ci)
  then show "\<exists>w'. index_write_insert_plan t key a None w = Inr (Written, w') \<and>
      wf_query (writer_query w') \<and>
      index_entries t ci (writer_query w') =
        Inr (es[i := entry_new a (entry_extract_key kp (it_bits t)) (it_bits t)]) \<and>
      (\<forall>ci'. ci' \<noteq> ci \<longrightarrow>
         index_entries t ci' (writer_query w') = index_entries t ci' (writer_query w))"
    using c i wf(2)
    by (auto simp: index_entries_view chunk_view_insert_index wf_query_insert_index es
        transmute_write_entry)
qed

lemma index_replace_spec:
  assumes wf: "wf_index t" "wf_query (writer_query w)"
    and kp: "kp = index_from_partial key" and ci: "ci = chunk_index (it_id t) kp"
    and es: "index_entries t ci (writer_query w) = Inr es"
    and a: "address_as_u64 a \<le> entry_last_address (it_bits t)" and i: "i < CHUNK_ENTRIES"
    and p: "entry_partial_key (es ! i) (it_bits t) = entry_extract_key kp (it_bits t)"
  shows "\<exists>w'. index_write_insert_plan t key a (Some i) w = Inr (Written, w') \<and>
      wf_query (writer_query w') \<and>
      index_entries t ci (writer_query w') =
        Inr (es[i := entry_new a (entry_extract_key kp (it_bits t)) (it_bits t)]) \<and>
      (\<forall>ci'. ci' \<noteq> ci \<longrightarrow>
         index_entries t ci' (writer_query w') = index_entries t ci' (writer_query w))"
proof -
  have b: "valid_index_bits (it_bits t)" using wf(1) by (simp add: wf_index_def)
  obtain c where c: "chunk_view t (writer_query w) ci = Inr c" "length c = CHUNK_LEN"
    using chunk_view_total[OF wf chunk_index_below[OF wf(1)]] ci by blast
  then have es: "es = transmute_chunk c"
    using es by (simp add: index_entries_view)
  have "entry_partial_key (read_entry c i) (it_bits t)
      = entry_partial_key (entry_new a (entry_extract_key kp (it_bits t)) (it_bits t)) (it_bits t)"
    using p i by (simp add: es entry_partial_key_new[OF b a])
  then have "index_write_insert_plan t key a (Some i) w = Inr (Written,
      insert_index w (it_id t) ci (of_nat i)
        (write_entry (entry_new a (entry_extract_key kp (it_bits t)) (it_bits t)) i c))"
    using c a i by (simp add: index_insert_view flip: kp ci)
      (simp add: plan_insert_chunk_def Let_def not_less ci)
  then show ?thesis
    using c i wf(2)
    by (auto simp: index_entries_view chunk_view_insert_index wf_query_insert_index es
        transmute_write_entry)
qed

lemma index_remove_spec:
  assumes wf: "wf_index t" "wf_query (writer_query w)"
    and kp: "kp = index_from_partial key" and ci: "ci = chunk_index (it_id t) kp"
    and es: "index_entries t ci (writer_query w) = Inr es" and i: "i < CHUNK_ENTRIES"
  shows "\<exists>w'. index_write_remove_plan t key i w =
        Inr (if \<not> entry_is_empty (es ! i) \<and>
               entry_partial_key (es ! i) (it_bits t) = entry_extract_key kp (it_bits t)
             then Written else Skipped, w') \<and>
      wf_query (writer_query w') \<and>
      index_entries t ci (writer_query w') =
        Inr (if \<not> entry_is_empty (es ! i) \<and>
               entry_partial_key (es ! i) (it_bits t) = entry_extract_key kp (it_bits t)
             then es[i := entry_empty] else es) \<and>
      (\<forall>ci'. ci' \<noteq> ci \<longrightarrow>
         index_entries t ci' (writer_query w') = index_entries t ci' (writer_query w))"
proof -
  obtain c where c: "chunk_view t (writer_query w) ci = Inr c" "length c = CHUNK_LEN"
    using chunk_view_total[OF wf chunk_index_below[OF wf(1)]] ci by blast
  then have es: "es = transmute_chunk c"
    using es by (simp add: index_entries_view)
  show ?thesis
    using c i wf(2)
    by (auto simp: index_remove_view[OF i] plan_remove_chunk_def Let_def es
        index_entries_view chunk_view_insert_index wf_query_insert_index transmute_write_entry
        simp flip: kp ci)
qed

text \<open>A lookup at or before the place of an entry with the key's partial key does not miss it.\<close>

lemma find_entry_hit:
  assumes "sub < CHUNK_ENTRIES" and "\<not> entry_is_empty (read_entry c sub)"
    and "entry_partial_key (read_entry c sub) (index_id_bits t) = entry_extract_key kp (index_id_bits t)"
  shows "find_entry t kp sub c = (read_entry c sub, sub)"
proof -
  have "[sub..<CHUNK_ENTRIES] = sub # [Suc sub..<CHUNK_ENTRIES]"
    using assms(1) by (simp add: upt_conv_Cons)
  then show ?thesis
    using assms(2,3) by (simp add: find_entry_def Let_def)
qed

section \<open>Enacting\<close>

lemma masked_entries_step:
  "msk \<noteq> 0 \<Longrightarrow> masked_entries chunk msk =
     take ENTRY_BYTES (drop (trailing_zeros msk * ENTRY_BYTES) chunk)
     @ masked_entries chunk (clear_bit msk (trailing_zeros msk))"
  by (subst masked_entries.simps) (simp add: Let_def)

lemma masked_entries_0 [simp]: "masked_entries chunk 0 = []"
  by (simp add: masked_entries.simps)

definition merge_chunk :: "u64 \<Rightarrow> bytes \<Rightarrow> bytes \<Rightarrow> bytes" where
  "merge_chunk msk chunk base =
     fold (\<lambda>i. write_entry (read_entry chunk i) i) (mask_bits msk) base"

lemma write_read_entry:
  assumes "length chunk = CHUNK_LEN" and "i < CHUNK_ENTRIES"
  shows "splice base (i * ENTRY_BYTES) (take ENTRY_BYTES (drop (i * ENTRY_BYTES) chunk))
       = write_entry (read_entry chunk i) i base"
  using assms by (simp add: write_entry_def read_entry_def index_consts)

lemma enact_entries_logged:
  assumes "length chunk = CHUNK_LEN" and "reader_at r (masked_entries chunk msk @ rest)"
  shows "enact_entries msk base r
       = Inr (merge_chunk msk chunk base, advance (masked_entries chunk msk) r)"
  using assms(2)
proof (induction msk arbitrary: base r rule: measure_induct_rule[of unat])
  case (less msk)
  show ?case
  proof (cases "msk = 0")
    case True
    then show ?thesis
      by (simp add: enact_entries.simps merge_chunk_def advance_def advance_raw_def)
  next
    case False
    let ?i = "trailing_zeros msk" and ?m = "clear_bit msk (trailing_zeros msk)"
    let ?b = "take ENTRY_BYTES (drop (?i * ENTRY_BYTES) chunk)"
    have i: "?i < CHUNK_ENTRIES"
      using trailing_zeros_props(1)[OF False] by (simp add: CHUNK_ENTRIES_def)
    have len: "ENTRY_BYTES = length ?b"
      using i assms(1) by (simp add: index_consts)
    have at: "reader_at r (?b @ masked_entries chunk ?m @ rest)"
      using less.prems masked_entries_step[OF False] by simp
    have IH: "enact_entries ?m (splice base (?i * ENTRY_BYTES) ?b) (advance ?b r)
        = Inr (merge_chunk ?m chunk (splice base (?i * ENTRY_BYTES) ?b),
               advance (masked_entries chunk ?m) (advance ?b r))"
      using less.IH[OF mask_loop_decreases[OF False] reader_at_advance(1)[OF at]] .
    have "enact_entries msk base r
        = enact_entries ?m (splice base (?i * ENTRY_BYTES) ?b) (advance ?b r)"
      using False by (subst enact_entries.simps) (simp add: Let_def reader_read_at[OF at len])
    then show ?thesis
      using IH by (simp add: merge_chunk_def mask_bits_step[OF False] write_read_entry[OF assms(1) i]
          masked_entries_step[OF False] advance_append)
  qed
qed

lemma read_entry_merge_list:
  assumes "length base = CHUNK_LEN" and "\<forall>i\<in>set is. i < CHUNK_ENTRIES" and "j < CHUNK_ENTRIES"
  shows "length (fold (\<lambda>i. write_entry (read_entry chunk i) i) is base) = CHUNK_LEN \<and>
     read_entry (fold (\<lambda>i. write_entry (read_entry chunk i) i) is base) j =
       (if j \<in> set is then read_entry chunk j else read_entry base j)"
  using assms by (induction "is" arbitrary: base) (auto simp: read_entry_write_entry)

lemma read_entry_merge:
  assumes "length base = CHUNK_LEN" and "j < CHUNK_ENTRIES"
  shows "length (merge_chunk msk chunk base) = CHUNK_LEN"
    and "read_entry (merge_chunk msk chunk base) j =
       (if bit msk j then read_entry chunk j else read_entry base j)"
proof -
  have m: "\<forall>i\<in>set (mask_bits msk). i < CHUNK_ENTRIES"
    by (auto simp: set_mask_bits CHUNK_ENTRIES_def dest: bit_u64_bound)
  show "length (merge_chunk msk chunk base) = CHUNK_LEN"
    and "read_entry (merge_chunk msk chunk base) j =
       (if bit msk j then read_entry chunk j else read_entry base j)"
    using read_entry_merge_list[OF assms(1) m assms(2), of chunk]
    by (simp_all add: merge_chunk_def set_mask_bits)
qed

text \<open>
  \<open>covers\<close>: the mask of a logged chunk names every entry in which the chunk differs from the
  one below it; then the logged entries are enough to rebuild the chunk.
\<close>

definition covers :: "u64 \<Rightarrow> bytes \<Rightarrow> bytes \<Rightarrow> bool" where
  "covers msk chunk base \<longleftrightarrow>
     (\<forall>i < CHUNK_ENTRIES. \<not> bit msk i \<longrightarrow> read_entry chunk i = read_entry base i)"

lemma merge_chunk_covers:
  assumes "length base = CHUNK_LEN" and "length chunk = CHUNK_LEN" and "covers msk chunk base"
  shows "merge_chunk msk chunk base = chunk"
proof -
  have "0 < CHUNK_ENTRIES" by (simp add: CHUNK_ENTRIES_def)
  then show ?thesis
    using assms read_entry_merge[OF assms(1)] by (intro chunk_eqI) (auto simp: covers_def)
qed

lemma skip_entries_logged:
  assumes "length chunk = CHUNK_LEN" and "reader_at r (masked_entries chunk msk @ rest)"
  shows "skip_entries msk r = Inr (advance (masked_entries chunk msk) r)"
  using assms(2)
proof (induction msk arbitrary: r rule: measure_induct_rule[of unat])
  case (less msk)
  show ?case
  proof (cases "msk = 0")
    case True
    then show ?thesis
      by (simp add: skip_entries.simps advance_def advance_raw_def)
  next
    case False
    let ?i = "trailing_zeros msk" and ?m = "clear_bit msk (trailing_zeros msk)"
    let ?b = "take ENTRY_BYTES (drop (?i * ENTRY_BYTES) chunk)"
    have len: "8 = length ?b"
      using trailing_zeros_props(1)[OF False] assms(1) by (simp add: index_consts)
    have at: "reader_at r (?b @ masked_entries chunk ?m @ rest)"
      using less.prems masked_entries_step[OF False] by simp
    show ?thesis
      using less.IH[OF mask_loop_decreases[OF False] reader_at_advance(1)[OF at]] False
      by (subst skip_entries.simps)
        (simp add: reader_read_at[OF at len] masked_entries_step[OF False] advance_append)
  qed
qed

section \<open>Logged chunks cover what changed\<close>

text \<open>The chunk below the record under construction: what the other overlays and the map hold.\<close>

definition base_view :: "index_table \<Rightarrow> log_writer \<Rightarrow> u64 \<Rightarrow> bytes res" where
  "base_view t w ci = chunk_view t (overlays_query (lw_overlays w)) ci"

definition logged_ok :: "index_table \<Rightarrow> log_writer \<Rightarrow> bool" where
  "logged_ok t w \<longleftrightarrow> (\<forall>ci rid msk d. lookup2 (lc_local_index (lw_log w)) (it_id t) ci = Some (rid, msk, d) \<longrightarrow>
     length d = CHUNK_LEN \<and> (\<exists>b. base_view t w ci = Inr b \<and> covers msk d b))"

lemma logged_ok_new: "logged_ok t (log_writer_new ov rid)"
  by (simp add: logged_ok_def log_writer_new_def log_change_new_def lookup2_def)

lemma insert_index_lookup:
  "lookup2 (lc_local_index (lw_log (insert_index w t ci s d))) t' ci' =
     (if t' = t \<and> ci' = ci then
        Some (lc_record_id (lw_log w),
          (case lookup2 (lc_local_index (lw_log w)) t ci of Some (_, msk, _) \<Rightarrow> msk | None \<Rightarrow> 0) OR shl64 1 s, d)
      else lookup2 (lc_local_index (lw_log w)) t' ci')"
  by (auto simp: insert_index_def Let_def lookup2_def alist_or_default_def split: option.splits)

lemma insert_index_overlays [simp]: "lw_overlays (insert_index w t ci s d) = lw_overlays w"
  by (simp add: insert_index_def Let_def)

lemma bit_sub_mask: "i < 64 \<Longrightarrow> bit (m OR shl64 1 (of_nat i) :: u64) j \<longleftrightarrow> bit m j \<or> j = i"
proof -
  assume i: "i < 64"
  then have "unat (of_nat i :: u8) mod 64 = i" by (simp add: unat_of_nat)
  then show ?thesis
    using i by (auto simp: shl64_def bit_or_iff bit_push_bit_iff bit_1_iff dest: bit_u64_bound
        simp del: push_bit_of_1)
qed

lemma chunk_view_writer:
  "chunk_view t (writer_query w) ci =
     (case lookup2 (lc_local_index (lw_log w)) (it_id t) ci of
        Some (_, _, d) \<Rightarrow> Inr d | None \<Rightarrow> base_view t w ci)"
  by (auto simp: chunk_view_def base_view_def writer_query_def overlays_query_def index_lookup_eq
      split: option.splits)

lemma logged_ok_write:
  assumes ok: "logged_ok t w" and c: "chunk_view t (writer_query w) ci = Inr c" "length c = CHUNK_LEN"
    and i: "i < CHUNK_ENTRIES"
  shows "logged_ok t (insert_index w (it_id t) ci (of_nat i) (write_entry e i c))"
proof -
  have i64: "i < 64" using i by (simp add: CHUNK_ENTRIES_def)
  obtain b msk where b: "base_view t w ci = Inr b" "covers msk c b"
      "(case lookup2 (lc_local_index (lw_log w)) (it_id t) ci of Some (_, m, _) \<Rightarrow> m | None \<Rightarrow> 0) = msk"
  proof (cases "lookup2 (lc_local_index (lw_log w)) (it_id t) ci")
    case None
    then show ?thesis using that[of c 0] c(1) by (simp add: chunk_view_writer covers_def)
  next
    case (Some v)
    obtain rid m d where "v = (rid, m, d)" by (cases v)
    then show ?thesis
      using that ok Some c(1) unfolding logged_ok_def by (fastforce simp: chunk_view_writer)
  qed
  have "covers (msk OR shl64 1 (of_nat i)) (write_entry e i c) b"
    using b(2) c(2) i bit_sub_mask[OF i64]
    by (auto simp: covers_def read_entry_write_entry)
  then show ?thesis
    using ok b c(2) i unfolding logged_ok_def
    by (auto simp: insert_index_lookup base_view_def)
qed

lemma logged_ok_insert:
  assumes wf: "wf_index t" "wf_query (writer_query w)" and ok: "logged_ok t w"
    and p: "index_write_insert_plan t key a sub w = Inr (out, w')"
  shows "logged_ok t w'"
proof -
  let ?ci = "chunk_index (it_id t) (index_from_partial key)"
  obtain c where c: "chunk_view t (writer_query w) ?ci = Inr c" "length c = CHUNK_LEN"
    using chunk_view_total[OF wf chunk_index_below[OF wf(1)]] by blast
  show ?thesis
    using p logged_ok_write[OF ok c] ok c(1) find_empty_Some(1)
    by (auto simp: index_insert_view plan_insert_chunk_def Let_def split: if_splits option.splits)
qed

lemma logged_ok_remove:
  assumes wf: "wf_index t" "wf_query (writer_query w)" and ok: "logged_ok t w"
    and i: "i < CHUNK_ENTRIES" and p: "index_write_remove_plan t key i w = Inr (out, w')"
  shows "logged_ok t w'"
proof -
  let ?ci = "chunk_index (it_id t) (index_from_partial key)"
  obtain c where c: "chunk_view t (writer_query w) ?ci = Inr c" "length c = CHUNK_LEN"
    using chunk_view_total[OF wf chunk_index_below[OF wf(1)]] by blast
  show ?thesis
    using p logged_ok_write[OF ok c i] ok c(1)
    by (auto simp: index_remove_view[OF i] plan_remove_chunk_def Let_def split: if_splits)
qed

text \<open>Enacting a covered chunk makes the map agree with the overlay, and no other chunk moves.\<close>

lemma index_enact_logged:
  assumes wf: "wf_index t" and new: "it_map t = None \<Longrightarrow> \<not> it_on_disk t"
    and ci: "unat ci < 2 ^ unat (it_bits t)" and d: "length d = CHUNK_LEN"
    and cov: "chunk_view t \<lparr>q_index = (\<lambda>_ _. None), q_value = qv\<rparr> ci = Inr b" "covers msk d b"
    and at: "reader_at r (le64 msk @ masked_entries d msk @ rest)"
  shows "\<exists>t'. index_enact_plan t ci r = Inr (t', advance (le64 msk @ masked_entries d msk) r) \<and>
     wf_index t' \<and> it_id t' = it_id t \<and> it_map t' \<noteq> None \<and>
     (\<forall>q cj. unat cj < 2 ^ unat (it_bits t) \<longrightarrow> q_index q (it_id t) cj = None \<longrightarrow>
        chunk_view t' q cj = (if cj = ci then Inr d else chunk_view t q cj))"
proof -
  have bits: "valid_index_bits (it_bits t)" using wf by (simp add: wf_index_def)
  let ?sz = "unat (index_file_size (it_bits t))"
  obtain m t1 where m: "ensure_map t = Inr (m, t1)" "?sz \<le> flen m" "it_id t1 = it_id t"
      "it_map t1 = Some m" and same: "\<And>cj. unat cj < 2 ^ unat (it_bits t) \<Longrightarrow>
        pread m (chunk_offset cj) CHUNK_LEN = (case it_map t of None \<Rightarrow> EMPTY_CHUNK
          | Some m \<Rightarrow> pread m (chunk_offset cj) CHUNK_LEN)"
  proof (cases "it_map t")
    case None
    let ?m = "set_len empty_file ?sz"
    have "pread ?m off CHUNK_LEN = EMPTY_CHUNK" for off
      by (rule nth_equalityI) (auto simp: pread_def set_len_def empty_file_def EMPTY_CHUNK_def)
    then show ?thesis
      using that[of ?m "t\<lparr>it_map := Some ?m, it_on_disk := True\<rparr>"] None new
      by (simp add: ensure_map_def Let_def)
  next
    case (Some m)
    then show ?thesis using that[of m t] wf by (simp add: ensure_map_def wf_index_def)
  qed
  have le: "chunk_offset cj + CHUNK_LEN \<le> flen m" if "unat cj < 2 ^ unat (it_bits t)" for cj
    using chunk_offset_eq(2)[OF bits that] m(2) by simp
  let ?off = "chunk_offset ci"
  have b: "pread m ?off CHUNK_LEN = b"
    using cov(1) same[OF ci] le[OF ci]
    by (auto simp: chunk_view_def chunk_at_def map_slice_def split: option.splits if_splits)
  have lb: "length b = CHUNK_LEN" using b by (metis length_pread)
  note a2 = reader_at_advance(1)[OF at]
  have e: "enact_entries msk b (advance (le64 msk) r)
      = Inr (d, advance (masked_entries d msk) (advance (le64 msk) r))"
    using enact_entries_logged[OF d a2, of b] merge_chunk_covers[OF lb d cov(2)] by simp
  let ?t = "t1\<lparr>it_map := Some (write_all_at m ?off d)\<rparr>"
  have en: "index_enact_plan t ci r = Inr (?t, advance (le64 msk @ masked_entries d msk) r)"
    using m(1) le[OF ci] reader_read_at[OF at, of 8] e b
    by (simp add: index_enact_plan_def Let_def advance_append)
  have "wf_index ?t" using m(2,3) bits by (simp add: wf_index_def)
  moreover have "chunk_view ?t q cj = (if cj = ci then Inr d else chunk_view t q cj)"
    if cj: "unat cj < 2 ^ unat (it_bits t)" and q: "q_index q (it_id t) cj = None" for q cj
  proof (cases "cj = ci")
    case True
    have "flen m \<le> flen (write_all_at m ?off d)" by simp
    then have "chunk_offset cj + CHUNK_LEN \<le> flen (write_all_at m ?off d)"
      using le[OF cj] by (rule order_trans[rotated])
    then show ?thesis
      using True q m(3) pread_write_same[of m ?off d] d
      by (simp add: chunk_view_def chunk_at_def map_slice_def)
  next
    case False
    have "unat cj \<noteq> unat ci" using False by (simp add: word_unat_eq_iff)
    then have dis: "chunk_offset cj + CHUNK_LEN \<le> ?off \<or> ?off + CHUNK_LEN \<le> chunk_offset cj"
      unfolding chunk_offset_eq(1)[OF bits ci] chunk_offset_eq(1)[OF bits cj]
      by (cases "unat cj < unat ci") (auto simp: index_consts)
    have p: "pread (write_all_at m ?off d) (chunk_offset cj) CHUNK_LEN = pread m (chunk_offset cj) CHUNK_LEN"
      using dis d le[OF cj] by (intro pread_write_other) auto
    have l1: "chunk_offset cj + CHUNK_LEN \<le> max (flen m) (?off + length d)" using le[OF cj] by simp
    have "chunk_view ?t q cj = Inr (pread m (chunk_offset cj) CHUNK_LEN)"
      using q m(3) p l1 by (simp add: chunk_view_def chunk_at_def map_slice_def)
    also have "\<dots> = chunk_view t q cj"
      using q same[OF cj] chunk_offset_eq(2)[OF bits cj] wf
      by (auto simp: chunk_view_def chunk_at_def map_slice_def wf_index_def split: option.splits)
    finally show ?thesis using False by simp
  qed
  ultimately show ?thesis using en m(3) by auto
qed

end
