(* ===== verification/Index_Store.thy ===== *)
theory Index_Store
  imports Index_Props
begin

text \<open>
  The contract of a hash index, as its client (the hash column) relies on it: chunks of entries,
  in which a key has a home chunk; a lookup finds the entries that carry the key's tag, in order.
  The interpretation discharges the laws for the operations of \<^verbatim>\<open>src/src/index.rs\<close>.
\<close>

definition next_match :: "(entry \<Rightarrow> bool) \<Rightarrow> entry list \<Rightarrow> nat \<Rightarrow> entry \<times> nat" where
  "next_match P ents sub =
     (case List.find (\<lambda>i. P (ents ! i)) [sub..<CHUNK_ENTRIES] of
        Some i \<Rightarrow> (ents ! i, i) | None \<Rightarrow> (entry_empty, 0))"

lemma next_match_at: "i < CHUNK_ENTRIES \<Longrightarrow> P (ents ! i) \<Longrightarrow> next_match P ents i = (ents ! i, i)"
  by (simp add: next_match_def upt_conv_Cons)

lemma next_match_none: "\<forall>i < CHUNK_ENTRIES. sub \<le> i \<longrightarrow> \<not> P (ents ! i) \<Longrightarrow> next_match P ents sub = (entry_empty, 0)"
proof -
  assume "\<forall>i < CHUNK_ENTRIES. sub \<le> i \<longrightarrow> \<not> P (ents ! i)"
  then have "List.find (\<lambda>i. P (ents ! i)) [sub..<CHUNK_ENTRIES] = None"
    by (auto simp: find_None_iff)
  then show ?thesis by (simp add: next_match_def)
qed

lemma next_match_skip: "sub < CHUNK_ENTRIES \<Longrightarrow> \<not> P (ents ! sub) \<Longrightarrow> next_match P ents sub = next_match P ents (Suc sub)"
  by (simp add: next_match_def upt_conv_Cons)

locale hash_index =
  fixes rep :: "'t \<Rightarrow> 'w \<Rightarrow> (u64 \<Rightarrow> entry list) \<Rightarrow> bool"
    and home :: "'t \<Rightarrow> bytes \<Rightarrow> u64"
    and mk :: "'t \<Rightarrow> bytes \<Rightarrow> address \<Rightarrow> entry"
    and hits :: "'t \<Rightarrow> bytes \<Rightarrow> entry \<Rightarrow> bool"
    and admits :: "'t \<Rightarrow> address \<Rightarrow> bool"
    and look :: "'t \<Rightarrow> bytes \<Rightarrow> nat \<Rightarrow> 'w \<Rightarrow> (entry \<times> nat) res"
    and put :: "'t \<Rightarrow> bytes \<Rightarrow> address \<Rightarrow> nat option \<Rightarrow> 'w \<Rightarrow> (plan_outcome \<times> 'w) res"
    and del :: "'t \<Rightarrow> bytes \<Rightarrow> nat \<Rightarrow> 'w \<Rightarrow> (plan_outcome \<times> 'w) res"
    and vals :: "'w \<Rightarrow> 'v"
  assumes chunk_size: "rep t w E \<Longrightarrow> length (E (home t k)) = CHUNK_ENTRIES"
    and look_law: "rep t w E \<Longrightarrow> look t k sub w = Inr (next_match (hits t k) (E (home t k)) sub)"
    and put_law: "rep t w E \<Longrightarrow> admits t a \<Longrightarrow> i < CHUNK_ENTRIES \<Longrightarrow> entry_is_empty (E (home t k) ! i) \<Longrightarrow>
      \<forall>j<i. \<not> entry_is_empty (E (home t k) ! j) \<Longrightarrow>
      \<exists>w'. put t k a None w = Inr (Written, w') \<and> vals w' = vals w \<and>
        rep t w' (E(home t k := (E (home t k))[i := mk t k a]))"
    and set_law: "rep t w E \<Longrightarrow> admits t a \<Longrightarrow> i < CHUNK_ENTRIES \<Longrightarrow> hits t k (E (home t k) ! i) \<Longrightarrow>
      \<exists>w'. put t k a (Some i) w = Inr (Written, w') \<and> vals w' = vals w \<and>
        rep t w' (E(home t k := (E (home t k))[i := mk t k a]))"
    and del_law: "rep t w E \<Longrightarrow> i < CHUNK_ENTRIES \<Longrightarrow> hits t k (E (home t k) ! i) \<Longrightarrow>
      \<exists>w'. del t k i w = Inr (Written, w') \<and> vals w' = vals w \<and>
        rep t w' (E(home t k := (E (home t k))[i := entry_empty]))"
    and full_law: "rep t w E \<Longrightarrow> \<forall>e\<in>set (E (home t k)). \<not> entry_is_empty e \<Longrightarrow>
      put t k a None w = Inr (NeedReindex, w)"
    and reject_law: "rep t w E \<Longrightarrow> \<not> admits t a \<Longrightarrow> put t k a None w = Inr (NeedReindex, w)"
    and hits_mk: "rep t w E \<Longrightarrow> admits t a \<Longrightarrow> address_as_u64 a \<noteq> 0 \<Longrightarrow> hits t k (mk t k a)"
    and hits_not_empty: "hits t k e \<Longrightarrow> \<not> entry_is_empty e"
begin

text \<open>With an empty entry in the home chunk the insertion succeeds and the next lookup finds it.\<close>

lemma put_room:
  assumes "rep t w E" and "admits t a" and "\<exists>e\<in>set (E (home t k)). entry_is_empty e"
  obtains i w' where "i < CHUNK_ENTRIES" and "entry_is_empty (E (home t k) ! i)"
    and "put t k a None w = Inr (Written, w')" and "vals w' = vals w"
    and "rep t w' (E(home t k := (E (home t k))[i := mk t k a]))"
proof -
  have "\<exists>i. i < CHUNK_ENTRIES \<and> entry_is_empty (E (home t k) ! i)"
    using assms(3) chunk_size[OF assms(1), of k] by (auto simp: in_set_conv_nth)
  then obtain i where i: "i < CHUNK_ENTRIES" "entry_is_empty (E (home t k) ! i)"
      "\<forall>j<i. \<not> entry_is_empty (E (home t k) ! j)"
    using exists_least_iff[of "\<lambda>i. i < CHUNK_ENTRIES \<and> entry_is_empty (E (home t k) ! i)"]
    by (meson less_trans)
  then show ?thesis using that put_law[OF assms(1,2)] by blast
qed

lemma put_look:
  assumes "rep t w E" and "admits t a" and "address_as_u64 a \<noteq> 0"
    and "\<exists>e\<in>set (E (home t k)). entry_is_empty e"
  shows "\<exists>i w'. put t k a None w = Inr (Written, w') \<and> look t k i w' = Inr (mk t k a, i)"
proof -
  obtain i w' where r: "i < CHUNK_ENTRIES" "put t k a None w = Inr (Written, w')"
      "rep t w' (E(home t k := (E (home t k))[i := mk t k a]))"
    using put_room[OF assms(1,2,4)] by metis
  then have "look t k i w' = Inr (mk t k a, i)"
    using next_match_at[of i "hits t k" "(E (home t k))[i := mk t k a]"]
      hits_mk[OF assms(1,2,3)] chunk_size[OF assms(1), of k]
    by (simp add: look_law[OF r(3)])
  then show ?thesis using r(2) by blast
qed

end

section \<open>Index tables are such indexes\<close>

definition index_rep :: "index_table \<Rightarrow> log_query \<Rightarrow> (u64 \<Rightarrow> entry list) \<Rightarrow> bool" where
  "index_rep t q E \<longleftrightarrow> wf_index t \<and> wf_query q \<and>
     (\<forall>c. unat c < 2 ^ unat (it_bits t) \<longrightarrow> index_entries t c q = Inr (E c))"

definition key_home :: "index_table \<Rightarrow> bytes \<Rightarrow> u64" where
  "key_home t k = chunk_index (it_id t) (index_from_partial k)"

definition key_entry :: "index_table \<Rightarrow> bytes \<Rightarrow> address \<Rightarrow> entry" where
  "key_entry t k a = entry_new a (entry_extract_key (index_from_partial k) (it_bits t)) (it_bits t)"

definition key_hits :: "index_table \<Rightarrow> bytes \<Rightarrow> entry \<Rightarrow> bool" where
  "key_hits t k e \<longleftrightarrow> \<not> entry_is_empty e \<and>
     entry_partial_key e (it_bits t) = entry_extract_key (index_from_partial k) (it_bits t)"

definition index_admits :: "index_table \<Rightarrow> address \<Rightarrow> bool" where
  "index_admits t a \<longleftrightarrow> address_as_u64 a \<le> entry_last_address (it_bits t)"

lemma index_rep_cong:
  "(\<And>c. q_index q' (it_id t) c = q_index q (it_id t) c) \<Longrightarrow> wf_query q' \<Longrightarrow> index_rep t q E \<Longrightarrow> index_rep t q' E"
  by (simp add: index_rep_def index_entries_view chunk_view_def)

lemma index_rep_home:
  "index_rep t q E \<Longrightarrow> index_entries t (key_home t k) q = Inr (E (key_home t k))"
  using chunk_index_below[of t "index_from_partial k"] by (simp add: index_rep_def key_home_def)

lemma index_rep_update:
  assumes "index_rep t q E" and "wf_query q'" and "index_entries t c q' = Inr ents"
    and "\<forall>c'. c' \<noteq> c \<longrightarrow> index_entries t c' q' = index_entries t c' q"
  shows "index_rep t q' (E(c := ents))"
  using assms by (auto simp: index_rep_def)

lemma find_entry_next_match:
  "find_entry (it_id t) (index_from_partial k) sub c = next_match (key_hits t k) (transmute_chunk c) sub"
proof -
  have "List.find (\<lambda>i. key_hits t k (transmute_chunk c ! i)) [sub..<CHUNK_ENTRIES] =
      List.find (\<lambda>i. key_hits t k (read_entry c i)) [sub..<CHUNK_ENTRIES]"
    by (rule find_cong) auto
  moreover have "transmute_chunk c ! i = read_entry c i"
    if "List.find (\<lambda>i. key_hits t k (read_entry c i)) [sub..<CHUNK_ENTRIES] = Some i" for i
    using that by (auto simp: find_Some_iff)
  moreover have "find_entry (it_id t) (index_from_partial k) sub c =
      (case List.find (\<lambda>i. key_hits t k (read_entry c i)) [sub..<CHUNK_ENTRIES] of
         Some i \<Rightarrow> (read_entry c i, i) | None \<Rightarrow> (entry_empty, 0))"
    by (simp add: find_entry_def Let_def key_hits_def)
  ultimately show ?thesis
    by (simp add: next_match_def split: option.split)
qed

lemma index_get_rep:
  assumes "index_rep t q E"
  shows "index_get t k sub q = Inr (next_match (key_hits t k) (E (key_home t k)) sub)"
proof -
  obtain c where "chunk_view t q (key_home t k) = Inr c" "E (key_home t k) = transmute_chunk c"
    using index_rep_home[OF assms, of k] by (auto simp: index_entries_view rbind_Inr_iff)
  then show ?thesis
    by (simp add: index_get_view find_entry_next_match flip: key_home_def)
qed

lemma index_put_values:
  "index_write_insert_plan t k a sub w = Inr (out, w') \<Longrightarrow> q_value (writer_query w') = q_value (writer_query w)"
  by (auto simp: index_insert_view rbind_Inr_iff plan_insert_chunk_def Let_def
      split: if_splits option.splits)

lemma index_remove_values:
  "sub < CHUNK_ENTRIES \<Longrightarrow> index_write_remove_plan t k sub w = Inr (out, w') \<Longrightarrow>
     q_value (writer_query w') = q_value (writer_query w)"
  by (auto simp: index_remove_view rbind_Inr_iff plan_remove_chunk_def Let_def split: if_splits)

lemma key_hits_entry:
  assumes b: "valid_index_bits (it_bits t)" and "index_admits t a" and "address_as_u64 a \<noteq> 0"
  shows "key_hits t k (key_entry t k a)"
proof -
  have a: "address_as_u64 a \<le> entry_last_address (it_bits t)" using assms(2) by (simp add: index_admits_def)
  have "entry_address (key_entry t k a) (it_bits t) = a"
    unfolding key_entry_def by (rule entry_address_new[OF b a])
  then have "\<not> entry_is_empty (key_entry t k a)"
    using assms(3) by (auto simp: entry_is_empty_def entry_address_def address_from_u64_def)
  then show ?thesis
    by (simp add: key_hits_def) (simp add: key_entry_def entry_partial_key_new[OF b a])
qed

interpretation ix: hash_index "\<lambda>t w. index_rep t (writer_query w)" key_home key_entry key_hits index_admits
  "\<lambda>t k sub w. index_get t k sub (writer_query w)" index_write_insert_plan index_write_remove_plan
  "\<lambda>w. q_value (writer_query w)"
proof unfold_locales
  fix t w E k
  assume r: "index_rep t (writer_query w) E"
  note h = index_rep_home[OF r, of k]
  have wf: "wf_index t" "wf_query (writer_query w)" using r by (auto simp: index_rep_def)
  show "length (E (key_home t k)) = CHUNK_ENTRIES"
    using h length_transmute by (auto simp: index_entries_view rbind_Inr_iff dest!: sym[of "transmute_chunk _"])
  note sp = index_insert_spec[OF wf refl refl h[unfolded key_home_def]]
    and rs = index_replace_spec[OF wf refl refl h[unfolded key_home_def]]
    and ds = index_remove_spec[OF wf refl refl h[unfolded key_home_def]]
  show "index_get t k sub (writer_query w) = Inr (next_match (key_hits t k) (E (key_home t k)) sub)" for sub
    by (rule index_get_rep[OF r])
  show "\<exists>w'. index_write_insert_plan t k a None w = Inr (Written, w') \<and>
      q_value (writer_query w') = q_value (writer_query w) \<and>
      index_rep t (writer_query w') (E(key_home t k := (E (key_home t k))[i := key_entry t k a]))"
    if "index_admits t a" "i < CHUNK_ENTRIES" "entry_is_empty (E (key_home t k) ! i)"
      "\<forall>j<i. \<not> entry_is_empty (E (key_home t k) ! j)" for a i
    using sp(3)[of a i] that index_put_values index_rep_update[OF r]
    unfolding index_admits_def key_home_def key_entry_def by metis
  show "\<exists>w'. index_write_insert_plan t k a (Some i) w = Inr (Written, w') \<and>
      q_value (writer_query w') = q_value (writer_query w) \<and>
      index_rep t (writer_query w') (E(key_home t k := (E (key_home t k))[i := key_entry t k a]))"
    if "index_admits t a" "i < CHUNK_ENTRIES" "key_hits t k (E (key_home t k) ! i)" for a i
    using rs[of a i] that index_put_values index_rep_update[OF r]
    unfolding index_admits_def key_home_def key_entry_def key_hits_def by metis
  show "\<exists>w'. index_write_remove_plan t k i w = Inr (Written, w') \<and>
      q_value (writer_query w') = q_value (writer_query w) \<and>
      index_rep t (writer_query w') (E(key_home t k := (E (key_home t k))[i := entry_empty]))"
    if "i < CHUNK_ENTRIES" "key_hits t k (E (key_home t k) ! i)" for i
    using ds[of i] that index_remove_values index_rep_update[OF r]
    unfolding key_home_def key_hits_def by fastforce
  show "index_write_insert_plan t k a None w = Inr (NeedReindex, w)"
    if "\<forall>e\<in>set (E (key_home t k)). \<not> entry_is_empty e" for a
    using sp(2) that by (simp add: key_home_def)
  show "index_write_insert_plan t k a None w = Inr (NeedReindex, w)" if "\<not> index_admits t a" for a
    using sp(1)[of a] that by (simp add: index_admits_def)
  show "key_hits t k (key_entry t k a)" if "index_admits t a" "address_as_u64 a \<noteq> 0" for a
    using key_hits_entry[OF _ that] wf(1) by (simp add: wf_index_def)
next
  show "key_hits t k e \<Longrightarrow> \<not> entry_is_empty e" for t k e by (simp add: key_hits_def)
qed

end
