(* ===== verification/Column_Layout.thy ===== *)
theory Column_Layout
  imports Column_Tiers Index_Store
begin

text \<open>
  Where a hash column keeps its keys: each key has one stored value in one tier and one entry in
  its home chunk that holds the value's address, and there are no other values and no other entries.
  The lemmas follow the layout through adding, changing and removing a key.
\<close>

section \<open>Keys, home chunks and tags\<close>

lemma prefix_from_home_and_tag:
  assumes b: "valid_index_bits (it_bits t)" and "key_home t k = key_home t k'"
    and "entry_extract_key (index_from_partial k) (it_bits t) = entry_extract_key (index_from_partial k') (it_bits t)"
    and "14 \<le> j"
  shows "bit (index_from_partial k) j = bit (index_from_partial k') j"
proof (cases "j < 64 - unat (it_bits t)")
  case True
  have "bit (entry_extract_key (index_from_partial k) (it_bits t)) (j - 14) =
      bit (entry_extract_key (index_from_partial k') (it_bits t)) (j - 14)"
    using assms(3) by simp
  moreover have "j - 14 < 50 - unat (it_bits t)" using True assms(4) by linarith
  ultimately show ?thesis using assms(4) by (simp add: bit_extract_key[OF b])
next
  case False
  let ?n = "64 - unat (it_bits t)"
  have "bit (drop_bit ?n (index_from_partial k)) (j - ?n) = bit (drop_bit ?n (index_from_partial k')) (j - ?n)"
    using assms(2) by (simp add: key_home_def chunk_index_drop[OF b])
  then show ?thesis using False by (simp add: bit_drop_bit_eq)
qed

lemma take6_from_prefix:
  assumes "length k = 32" and "length k' = 32"
    and eq: "\<And>j. 14 \<le> j \<Longrightarrow> bit (index_from_partial k) j = bit (index_from_partial k') j"
  shows "take 6 k = take 6 k'"
proof -
  have nth: "x ! p = ucast (drop_bit (8 * (7 - p)) (index_from_partial x))"
    if "length x = 32" "p < 6" for x p
  proof -
    have "to_le 8 (index_from_partial x) = rev (take 8 x)"
      using that(1) by (simp add: index_from_partial_def from_be_def)
    moreover have "to_le 8 (index_from_partial x) ! (7 - p) = ucast (drop_bit (8 * (7 - p)) (index_from_partial x))"
      using nth_upt[of 0 "7 - p" 8] by (simp add: to_le_def)
    ultimately have "rev (take 8 x) ! (7 - p) = ucast (drop_bit (8 * (7 - p)) (index_from_partial x))" by simp
    then show ?thesis using that by (simp add: rev_nth)
  qed
  show ?thesis
  proof (rule nth_equalityI)
    fix p assume "p < length (take 6 k)"
    then have p: "p < 6" by simp
    have "drop_bit (8 * (7 - p)) (index_from_partial k) = drop_bit (8 * (7 - p)) (index_from_partial k')"
      using p by (intro bit_word_eqI) (simp add: bit_drop_bit_eq eq)
    then show "take 6 k ! p = take 6 k' ! p"
      using nth[OF assms(1) p] nth[OF assms(2) p] p by simp
  qed (use assms in simp)
qed

lemma key_eqI:
  assumes "length k = 32" and "length k' = 32" and "take 6 k = take 6 k'" and "partial_key k = partial_key k'"
  shows "k = k'"
  using assms(3,4) unfolding partial_key_def by (metis append_take_drop_id)

section \<open>The layout\<close>

type_synonym places = "bytes \<rightharpoonup> nat \<times> u64 \<times> nat"

definition place_address :: "nat \<Rightarrow> u64 \<Rightarrow> address" where
  "place_address t off = address_new off (of_nat t)"

definition placed :: "index_table \<Rightarrow> (nat \<Rightarrow> u64 \<rightharpoonup> stored) \<Rightarrow> (u64 \<Rightarrow> entry list) \<Rightarrow> bytes \<Rightarrow> nat \<times> u64 \<times> nat \<Rightarrow> bool"
  where "placed it ms E k = (\<lambda>(t, off, i). length k = 32 \<and> t < SIZE_TIERS \<and> off \<noteq> 0 \<and> unat off < 2 ^ 56 \<and>
     i < CHUNK_ENTRIES \<and> (\<exists>e. ms t off = Some e \<and> sv_key e = Partial k) \<and>
     index_admits it (place_address t off) \<and>
     E (key_home it k) ! i = key_entry it k (place_address t off))"

definition layout :: "index_table \<Rightarrow> (nat \<Rightarrow> u64 \<rightharpoonup> stored) \<Rightarrow> (u64 \<Rightarrow> entry list) \<Rightarrow> places \<Rightarrow> bool" where
  "layout it ms E loc \<longleftrightarrow> valid_index_bits (it_bits it) \<and> (\<forall>k. length (E (key_home it k)) = CHUNK_ENTRIES) \<and>
     (\<forall>k p. loc k = Some p \<longrightarrow> placed it ms E k p) \<and>
     (\<forall>t off e. t < SIZE_TIERS \<longrightarrow> ms t off = Some e \<longrightarrow> (\<exists>k i. loc k = Some (t, off, i))) \<and>
     (\<forall>k i. i < CHUNK_ENTRIES \<longrightarrow> \<not> entry_is_empty (E (key_home it k) ! i) \<longrightarrow>
        (\<exists>k' t off. loc k' = Some (t, off, i) \<and> key_home it k' = key_home it k))"

lemma place_address_inverse:
  assumes "t < SIZE_TIERS" and "unat off < 2 ^ 56"
  shows "unat (address_size_tier (place_address t off)) = t" and "address_offset (place_address t off) = off"
  using assms
  by (simp_all add: place_address_def address_size_tier_new address_offset_new unat_of_nat SIZE_TIERS_def)

lemma place_address_nonzero:
  assumes "unat off < 2 ^ 56" and "off \<noteq> 0"
  shows "address_as_u64 (place_address t off) \<noteq> 0"
proof
  assume z: "address_as_u64 (place_address t off) = 0"
  have "off = address_offset (place_address t off)"
    using assms(1) by (simp add: place_address_def address_offset_new)
  then show False using z assms(2) by (simp add: address_offset_def shr64_def)
qed

lemma key_entry_address:
  "valid_index_bits (it_bits it) \<Longrightarrow> index_admits it a \<Longrightarrow> entry_address (key_entry it k a) (it_bits it) = a"
  by (simp add: key_entry_def index_admits_def entry_address_new)

lemma layout_placed: "layout it ms E loc \<Longrightarrow> loc k = Some p \<Longrightarrow> placed it ms E k p"
  by (cases p) (simp add: layout_def)

lemma layout_address:
  assumes "layout it ms E loc" and "loc k = Some (t, off, i)"
  shows "entry_address (E (key_home it k) ! i) (it_bits it) = place_address t off"
  using assms layout_placed[OF assms] key_entry_address[of it "place_address t off" k]
  by (simp add: layout_def placed_def)

text \<open>A slot belongs to one key, and so does an entry.\<close>

lemma layout_slot_inj:
  assumes "layout it ms E loc" and "loc k = Some (t, off, i)" and "loc k' = Some (t, off, i')"
  shows "k = k'"
  using layout_placed[OF assms(1,2)] layout_placed[OF assms(1,3)] by (auto simp: placed_def)

lemma layout_entry_inj:
  assumes l: "layout it ms E loc" and k: "loc k = Some (t, off, i)" and k': "loc k' = Some (t', off', i)"
    and h: "key_home it k = key_home it k'"
  shows "k = k'"
proof -
  have a: "place_address t off = place_address t' off'"
    using layout_address[OF l k] layout_address[OF l k'] h by simp
  have p: "t < SIZE_TIERS" "unat off < 2 ^ 56" "t' < SIZE_TIERS" "unat off' < 2 ^ 56"
    using layout_placed[OF l k] layout_placed[OF l k'] by (auto simp: placed_def)
  have "t = t'" "off = off'"
    using place_address_inverse[OF p(1,2)] place_address_inverse[OF p(3,4)] a by auto
  then show ?thesis using layout_slot_inj[OF l k] k' by simp
qed

text \<open>What a lookup meets: an entry that hits for \<open>k\<close> belongs to a key with the same first bytes.\<close>

lemma layout_hit:
  assumes l: "layout it ms E loc" and i: "i < CHUNK_ENTRIES" and h: "key_hits it k (E (key_home it k) ! i)"
    and k: "length k = 32"
  obtains k' t off e where "loc k' = Some (t, off, i)" and "ms t off = Some e" and "sv_key e = Partial k'"
    and "t < SIZE_TIERS" and "unat off < 2 ^ 56"
    and "entry_address (E (key_home it k) ! i) (it_bits it) = place_address t off"
    and "partial_key k' = partial_key k \<longleftrightarrow> k' = k" and "key_home it k' = key_home it k"
proof -
  have "\<not> entry_is_empty (E (key_home it k) ! i)" using h by (simp add: key_hits_def)
  then obtain k' t off where k': "loc k' = Some (t, off, i)" "key_home it k' = key_home it k"
    using l i unfolding layout_def by metis
  have p: "placed it ms E k' (t, off, i)" by (rule layout_placed[OF l k'(1)])
  then obtain e where e: "ms t off = Some e" "sv_key e = Partial k'" and l': "length k' = 32"
    and pe: "index_admits it (place_address t off)" "E (key_home it k') ! i = key_entry it k' (place_address t off)"
    and b: "t < SIZE_TIERS" "unat off < 2 ^ 56"
    by (auto simp: placed_def)
  have v: "valid_index_bits (it_bits it)" using l by (simp add: layout_def)
  have "entry_extract_key (index_from_partial k') (it_bits it) = entry_extract_key (index_from_partial k) (it_bits it)"
    using h pe k'(2) entry_partial_key_new[OF v pe(1)[unfolded index_admits_def]]
    by (simp add: key_hits_def key_entry_def)
  then have "take 6 k' = take 6 k"
    using prefix_from_home_and_tag[OF v k'(2)] by (intro take6_from_prefix[OF l' k]) blast
  then have "partial_key k' = partial_key k \<longleftrightarrow> k' = k" using key_eqI[OF l' k] by auto
  then show ?thesis
    using that[OF k'(1) e b _ _ k'(2)] layout_address[OF l k'(1)] k'(2) by simp
qed

lemma layout_hits_own:
  assumes "layout it ms E loc" and "loc k = Some (t, off, i)"
  shows "key_hits it k (E (key_home it k) ! i)"
  using layout_placed[OF assms] place_address_nonzero[of off t] assms(1)
    key_hits_entry[of it "place_address t off" k]
  by (auto simp: placed_def layout_def)

section \<open>Changing the layout\<close>

text \<open>Another stored value for the same key in the same slot.\<close>

lemma layout_change:
  assumes l: "layout it ms E loc" and k: "loc k = Some (t, off, i)" and e: "sv_key e = Partial k"
  shows "layout it (ms(t := (ms t)(off \<mapsto> e))) E loc"
proof -
  let ?ms = "ms(t := (ms t)(off \<mapsto> e))"
  have "placed it ?ms E k' p" if "loc k' = Some p" for k' p
  proof -
    obtain t' off' i' where p: "p = (t', off', i')" by (cases p)
    have "t' = t \<and> off' = off \<longrightarrow> k' = k" using layout_slot_inj[OF l] k that p by blast
    then show ?thesis using layout_placed[OF l that] e p by (auto simp: placed_def)
  qed
  moreover have "\<exists>k' i'. loc k' = Some (t', off', i')" if "t' < SIZE_TIERS" "?ms t' off' = Some e'" for t' off' e'
    using that l k unfolding layout_def by (auto split: if_splits)
  ultimately show ?thesis using l unfolding layout_def by blast
qed

text \<open>A key leaves.\<close>

lemma layout_remove:
  assumes l: "layout it ms E loc" and k: "loc k = Some (t, off, i)"
  shows "layout it (ms(t := (ms t)(off := None)))
     (E(key_home it k := (E (key_home it k))[i := entry_empty])) (loc(k := None))"
proof -
  let ?ms = "ms(t := (ms t)(off := None))" and ?h = "key_home it k"
  let ?E = "E(?h := (E ?h)[i := entry_empty])"
  have len: "length (E (key_home it k')) = CHUNK_ENTRIES" for k' using l by (simp add: layout_def)
  have "placed it ?ms ?E k' p" if "(loc(k := None)) k' = Some p" for k' p
  proof -
    obtain t' off' i' where p: "p = (t', off', i')" by (cases p)
    have k': "k' \<noteq> k" "loc k' = Some (t', off', i')" using that p by (auto split: if_splits)
    have "\<not> (t' = t \<and> off' = off)" using layout_slot_inj[OF l] k k' by blast
    moreover have "\<not> (key_home it k' = ?h \<and> i' = i)" using layout_entry_inj[OF l k'(2)] k k'(1) by metis
    ultimately show ?thesis
      using layout_placed[OF l k'(2)] len[of k] p by (auto simp: placed_def nth_list_update)
  qed
  moreover have "\<exists>k' i'. (loc(k := None)) k' = Some (t', off', i')"
    if tt: "t' < SIZE_TIERS" "?ms t' off' = Some e'" for t' off' e'
  proof -
    have n: "\<not> (t' = t \<and> off' = off)" "ms t' off' = Some e'" using tt(2) by (auto split: if_splits)
    then obtain k' i' where "loc k' = Some (t', off', i')" using l tt(1) unfolding layout_def by blast
    moreover have "k' \<noteq> k" using n(1) k calculation by auto
    ultimately show ?thesis by auto
  qed
  moreover have "\<exists>k'' t' off'. (loc(k := None)) k'' = Some (t', off', j) \<and> key_home it k'' = key_home it k'"
    if j: "j < CHUNK_ENTRIES" and ne: "\<not> entry_is_empty (?E (key_home it k') ! j)" for k' j
  proof -
    have n: "\<not> (key_home it k' = ?h \<and> j = i)" "\<not> entry_is_empty (E (key_home it k') ! j)"
      using ne j len[of k]
      by (cases "i = j"; force simp: entry_is_empty_def entry_empty_def split: if_splits)+
    then obtain k'' t' off' where "loc k'' = Some (t', off', j)" "key_home it k'' = key_home it k'"
      using l j unfolding layout_def by blast
    moreover have "k'' \<noteq> k" using n(1) k calculation by auto
    ultimately show ?thesis by auto
  qed
  moreover have "length (?E (key_home it k')) = CHUNK_ENTRIES" for k' using len by simp
  ultimately show ?thesis using l unfolding layout_def by blast
qed

text \<open>A key arrives.\<close>

lemma layout_add:
  assumes l: "layout it ms E loc" and k: "loc k = None" "length k = 32"
    and t: "t < SIZE_TIERS" "off \<notin> dom (ms t)" "off \<noteq> 0" "unat off < 2 ^ 56" "sv_key e = Partial k"
    and i: "i < CHUNK_ENTRIES" "entry_is_empty (E (key_home it k) ! i)" "index_admits it (place_address t off)"
  shows "layout it (ms(t := (ms t)(off \<mapsto> e)))
     (E(key_home it k := (E (key_home it k))[i := key_entry it k (place_address t off)])) (loc(k \<mapsto> (t, off, i)))"
proof -
  let ?ms = "ms(t := (ms t)(off \<mapsto> e))" and ?h = "key_home it k"
  let ?E = "E(?h := (E ?h)[i := key_entry it k (place_address t off)])" and ?loc = "loc(k \<mapsto> (t, off, i))"
  have len: "length (E (key_home it k')) = CHUNK_ENTRIES" for k' using l by (simp add: layout_def)
  have "placed it ?ms ?E k' p" if kp: "?loc k' = Some p" for k' p
  proof (cases "k' = k")
    case True
    then show ?thesis using kp k t i len[of k] by (auto simp: placed_def)
  next
    case False
    obtain t' off' i' where p: "p = (t', off', i')" by (cases p)
    have k': "loc k' = Some (t', off', i')" using kp p False by auto
    note pl = layout_placed[OF l k']
    have "\<not> (t' = t \<and> off' = off)" using pl t(2) by (auto simp: placed_def)
    moreover have "\<not> (key_home it k' = ?h \<and> i' = i)"
      using layout_hits_own[OF l k'] i(2) by (auto simp: key_hits_def)
    ultimately show ?thesis using pl len[of k] p by (auto simp: placed_def nth_list_update)
  qed
  moreover have "\<exists>k' i'. ?loc k' = Some (t', off', i')"
    if tt: "t' < SIZE_TIERS" "?ms t' off' = Some e'" for t' off' e'
  proof (cases "t' = t \<and> off' = off")
    case False
    then have "ms t' off' = Some e'" using tt(2) by (auto split: if_splits)
    then obtain k' i' where "loc k' = Some (t', off', i')" using l tt(1) unfolding layout_def by blast
    moreover have "k' \<noteq> k" using k(1) calculation by auto
    ultimately show ?thesis by auto
  qed auto
  moreover have "\<exists>k'' t' off'. ?loc k'' = Some (t', off', j) \<and> key_home it k'' = key_home it k'"
    if j: "j < CHUNK_ENTRIES" and ne: "\<not> entry_is_empty (?E (key_home it k') ! j)" for k' j
  proof (cases "key_home it k' = ?h \<and> j = i")
    case False
    then have "\<not> entry_is_empty (E (key_home it k') ! j)"
      using ne j len[of k] by (auto simp: nth_list_update split: if_splits)
    then obtain k'' t' off' where "loc k'' = Some (t', off', j)" "key_home it k'' = key_home it k'"
      using l j unfolding layout_def by blast
    moreover have "k'' \<noteq> k" using k(1) calculation by auto
    ultimately show ?thesis by auto
  qed auto
  moreover have "length (?E (key_home it k')) = CHUNK_ENTRIES" for k' using len by simp
  ultimately show ?thesis using l unfolding layout_def by blast
qed

end
