(* ===== verification/Column_Rep.thy ===== *)
theory Column_Rep
  imports Column_Layout
begin

text \<open>
  What a hash column stores: a map from keys to values with a reference count. \<open>col_rep\<close> relates a
  column without pending re-index, read through a log, to that map; lookups return it. The lookup
  lemmas are stated for one index (\<open>index_inv\<close>), so that they serve for the queued index of a growing
  column too.
\<close>

section \<open>The stored map\<close>

definition unpack :: "codecs \<Rightarrow> compress \<Rightarrow> stored \<Rightarrow> bytes res" where
  "unpack cd cp e = (if sv_compressed e then decompress_bytes cd cp (sv_value e) else Inr (sv_value e))"

definition holds :: "codecs \<Rightarrow> compress \<Rightarrow> (nat \<Rightarrow> u64 \<rightharpoonup> stored) \<Rightarrow> places \<Rightarrow> (bytes \<rightharpoonup> bytes \<times> u32) \<Rightarrow> bool" where
  "holds cd cp ms loc M \<longleftrightarrow> dom M = dom loc \<and>
     (\<forall>k t off i e. loc k = Some (t, off, i) \<longrightarrow> ms t off = Some e \<longrightarrow>
        (\<exists>v. unpack cd cp e = Inr v \<and> M k = Some (v, sv_rc e)))"

definition tier_shape :: "bool \<Rightarrow> value_table list \<Rightarrow> bool" where
  "tier_shape counted ts \<longleftrightarrow> length ts = SIZE_TIERS \<and>
     (\<forall>i < SIZE_TIERS. vt_ref_counted (ts ! i) = counted \<and> (vt_multipart (ts ! i) \<longleftrightarrow> i = SIZE_TIERS - 1))"

definition col_inv :: "codecs \<Rightarrow> hash_column \<Rightarrow> log_query \<Rightarrow> (nat \<Rightarrow> u64 \<rightharpoonup> stored) \<Rightarrow> (u64 \<Rightarrow> entry list) \<Rightarrow>
    places \<Rightarrow> (bytes \<rightharpoonup> bytes \<times> u32) \<Rightarrow> bool" where
  "col_inv cd hc q ms E loc M \<longleftrightarrow> hc_queue hc = [] \<and> tier_shape (hc_ref_counted hc) (hc_value hc) \<and>
     tiers_rep (hc_value hc) q ms \<and> index_rep (hc_index hc) q E \<and> layout (hc_index hc) ms E loc \<and>
     holds cd (hc_compression hc) ms loc M"

definition col_rep :: "codecs \<Rightarrow> hash_column \<Rightarrow> log_query \<Rightarrow> (bytes \<rightharpoonup> bytes \<times> u32) \<Rightarrow> bool" where
  "col_rep cd hc q M \<longleftrightarrow> (\<exists>ms E loc. col_inv cd hc q ms E loc M)"

lemma col_repI [intro]: "col_inv cd hc q ms E loc M \<Longrightarrow> col_rep cd hc q M"
  unfolding col_rep_def by blast

lemma col_inv_parts:
  assumes "col_inv cd hc q ms E loc M"
  shows "hc_queue hc = []" and "length (hc_value hc) = SIZE_TIERS" and "tiers_rep (hc_value hc) q ms"
    and "index_rep (hc_index hc) q E" and "layout (hc_index hc) ms E loc"
    and "holds cd (hc_compression hc) ms loc M" and "tier_shape (hc_ref_counted hc) (hc_value hc)"
  using assms by (auto simp: col_inv_def tier_shape_def)

lemma holdsD:
  assumes "holds cd cp ms loc M" and "loc k = Some (t, off, i)" and "ms t off = Some e"
  obtains v where "unpack cd cp e = Inr v" and "M k = Some (v, sv_rc e)"
  using assms unfolding holds_def by metis

lemma col_inv_stats [simp]: "col_inv cd (hc\<lparr>hc_stats := st\<rparr>) q ms E loc M = col_inv cd hc q ms E loc M"
  by (simp add: col_inv_def)

lemma col_inv_key:
  assumes "col_inv cd hc q ms E loc M" and "loc k = Some (t, off, i)"
  obtains e v where "ms t off = Some e" and "sv_key e = Partial k" and "unpack cd (hc_compression hc) e = Inr v"
    and "M k = Some (v, sv_rc e)" and "t < SIZE_TIERS" and "off \<noteq> 0" and "unat off < 2 ^ 56"
    and "i < CHUNK_ENTRIES" and "length k = 32"
proof -
  note p = col_inv_parts[OF assms(1)]
  obtain e where e: "ms t off = Some e" "sv_key e = Partial k" "t < SIZE_TIERS" "off \<noteq> 0" "unat off < 2 ^ 56"
      "i < CHUNK_ENTRIES" "length k = 32"
    using layout_placed[OF p(5) assms(2)] by (auto simp: placed_def)
  then show ?thesis using that holdsD[OF p(6) assms(2) e(1)] by metis
qed

section \<open>Lookups\<close>

lemma nth_table_ok: "i < length ts \<Longrightarrow> nth_table ts i = Inr (ts ! i)"
  by (simp add: nth_table_def)

text \<open>
  One index of a column: it places the keys of \<open>loc\<close>, whose values \<open>ms0\<close> are among the stored ones. A
  column that is being re-indexed has several of these.
\<close>

definition index_inv :: "codecs \<Rightarrow> hash_column \<Rightarrow> index_table \<Rightarrow> log_query \<Rightarrow> (nat \<Rightarrow> u64 \<rightharpoonup> stored) \<Rightarrow>
    (nat \<Rightarrow> u64 \<rightharpoonup> stored) \<Rightarrow> (u64 \<Rightarrow> entry list) \<Rightarrow> places \<Rightarrow> (bytes \<rightharpoonup> bytes \<times> u32) \<Rightarrow> bool" where
  "index_inv cd hc it q ms ms0 E loc M \<longleftrightarrow> length (hc_value hc) = SIZE_TIERS \<and> tiers_rep (hc_value hc) q ms \<and>
     (\<forall>t. ms0 t \<subseteq>\<^sub>m ms t) \<and> index_rep it q E \<and> layout it ms0 E loc \<and> holds cd (hc_compression hc) ms0 loc M"

lemma col_inv_index: "col_inv cd hc q ms E loc M \<Longrightarrow> index_inv cd hc (hc_index hc) q ms ms E loc M"
  by (simp add: col_inv_def index_inv_def tier_shape_def)

lemma index_inv_parts:
  assumes "index_inv cd hc it q ms ms0 E loc M"
  shows "length (hc_value hc) = SIZE_TIERS" and "tiers_rep (hc_value hc) q ms" and "index_rep it q E"
    and "layout it ms0 E loc" and "holds cd (hc_compression hc) ms0 loc M"
  using assms by (auto simp: index_inv_def)

lemma index_inv_key:
  assumes "index_inv cd hc it q ms ms0 E loc M" and "loc k = Some (t, off, i)"
  obtains e v where "ms t off = Some e" and "sv_key e = Partial k" and "unpack cd (hc_compression hc) e = Inr v"
    and "M k = Some (v, sv_rc e)" and "t < SIZE_TIERS" and "unat off < 2 ^ 56" and "i < CHUNK_ENTRIES"
proof -
  note p = index_inv_parts[OF assms(1)]
  obtain e where e: "ms0 t off = Some e" "sv_key e = Partial k" "t < SIZE_TIERS" "unat off < 2 ^ 56" "i < CHUNK_ENTRIES"
    using layout_placed[OF p(4) assms(2)] by (auto simp: placed_def)
  moreover have "ms0 t \<subseteq>\<^sub>m ms t" using assms(1) unfolding index_inv_def by blast
  with e(1) have "ms t off = Some e" by (metis domI map_le_def)
  ultimately show ?thesis using that holdsD[OF p(5) assms(2) e(1)] by metis
qed

lemma index_inv_places: "index_inv cd hc it q ms ms0 E loc M \<Longrightarrow> loc k = None \<longleftrightarrow> M k = None"
  unfolding index_inv_def holds_def by blast

lemma get_value_rep:
  assumes inv: "index_inv cd hc it q ms ms0 E loc M" and k': "loc k' = Some (t, off, i)" and k: "length k = 32"
  shows "get_value cd (Check (Partial k)) (place_address t off) (as_ref hc) q =
     Some (Inr (if partial_key k' = partial_key k then map_option (\<lambda>v. (of_nat t, fst v)) (M k') else None))"
proof -
  obtain e v where e: "ms t off = Some e" "sv_key e = Partial k'" "unpack cd (hc_compression hc) e = Inr v"
      "M k' = Some (v, sv_rc e)" "t < SIZE_TIERS" "unat off < 2 ^ 56"
    using index_inv_key[OF inv k'] by metis
  note p = index_inv_parts[OF inv]
  note a = place_address_inverse[OF e(5,6)]
  have tier: "address_size_tier (place_address t off) = of_nat t"
    by (simp add: place_address_def address_size_tier_new)
  have rp: "represents (hc_value hc ! t) q (ms t)" using tier_represents[OF p(2)] p(1) e(5) by simp
  have kk: "wf_key (Partial k)" "key_encoded_size (Partial k) = key_encoded_size (sv_key e)"
    using k e(2) by (simp_all add: wf_key_def key_encoded_size_def)
  have "query (hc_value hc ! t) (Check (Partial k)) off q =
      Some (Inr (if partial_key k = partial_key k'
        then Some (sv_value e, sv_compressed e, eff_rc (hc_value hc ! t) (sv_rc e)) else None, Check (Partial k)))"
    using query_represents[OF rp e(1) kk] e(2) by (simp add: key_bytes_def)
  moreover have "unat (of_nat t :: u8) = t" using a(1) tier by simp
  moreover have "nth_table (hc_value hc) t = Inr (hc_value hc ! t)" using p(1) e(5) by (simp add: nth_table_ok)
  ultimately show ?thesis
    using e(3,4) by (auto simp: get_value_def a(2) as_ref_def unpack_def tier cret_def)
qed

lemma get_loop_rep:
  assumes inv: "index_inv cd hc it q ms ms0 E loc M" and k: "length k = 32"
    and sub: "sub \<le> CHUNK_ENTRIES" "\<And>t off i. loc k = Some (t, off, i) \<Longrightarrow> sub \<le> i"
  shows "case next_match (key_hits it k) (E (key_home it k)) sub of (entry, j) \<Rightarrow>
     get_in_index_loop cd k it (as_ref hc) q entry j =
       Some (Inr (case loc k of Some (t, off, i) \<Rightarrow> map_option (\<lambda>v. (of_nat t, fst v)) (M k) | None \<Rightarrow> None))"
  using sub
proof (induction "CHUNK_ENTRIES - sub" arbitrary: sub)
  case 0
  have "loc k = None"
  proof (cases "loc k")
    case (Some x)
    obtain t off i where "loc k = Some (t, off, i)" using Some by (cases x) auto
    moreover from this have "i < CHUNK_ENTRIES" by (rule index_inv_key[OF inv])
    ultimately show ?thesis using 0 by fastforce
  qed simp
  moreover have "next_match (key_hits it k) (E (key_home it k)) sub = (entry_empty, 0)"
    by (rule next_match_none) (use 0 in auto)
  ultimately show ?case by (subst get_in_index_loop.simps) (simp add: entry_is_empty_def entry_empty_def)
next
  case (Suc n)
  let ?ents = "E (key_home it k)"
  note p = index_inv_parts[OF inv]
  have s: "sub < CHUNK_ENTRIES" using Suc.hyps(2) by simp
  have IH: "case next_match (key_hits it k) ?ents (Suc sub) of (entry, j) \<Rightarrow>
      get_in_index_loop cd k it (as_ref hc) q entry j =
       Some (Inr (case loc k of Some (t, off, i) \<Rightarrow> map_option (\<lambda>v. (of_nat t, fst v)) (M k) | None \<Rightarrow> None))"
    if "\<And>t off. loc k \<noteq> Some (t, off, sub)"
    using Suc.hyps(1)[of "Suc sub"] Suc.hyps(2) Suc.prems(2) that s
    by (metis Suc_diff_Suc Suc_leI diff_Suc_1 le_neq_implies_less)
  show ?case
  proof (cases "key_hits it k (?ents ! sub)")
    case False
    then have "loc k \<noteq> Some (t, off, sub)" for t off using layout_hits_own[OF p(4)] by blast
    then show ?thesis using IH next_match_skip[of sub "key_hits it k" ?ents] False s by simp
  next
    case True
    obtain k' t off e where h: "loc k' = Some (t, off, sub)"
        "entry_address (?ents ! sub) (it_bits it) = place_address t off"
        "partial_key k' = partial_key k \<longleftrightarrow> k' = k" "key_home it k' = key_home it k"
      using layout_hit[OF p(4) s True k] by metis
    have ne: "\<not> entry_is_empty (?ents ! sub)" using True by (simp add: key_hits_def)
    note gv = get_value_rep[OF inv h(1) k]
    have m: "next_match (key_hits it k) ?ents sub = (?ents ! sub, sub)"
      by (rule next_match_at[OF s]) (rule True)
    show ?thesis
    proof (cases "k' = k")
      case eq: True
      then obtain v where "M k = Some v" using index_inv_key[OF inv h(1)] by metis
      then show ?thesis
        using gv h ne eq unfolding m by (subst get_in_index_loop.simps) simp
    next
      case neq: False
      have "loc k \<noteq> Some (t', off', sub)" for t' off'
        using layout_entry_inj[OF p(4) h(1) _ h(4)] neq by blast
      then show ?thesis
        using IH gv h ne neq index_get_rep[OF p(3), of k "Suc sub"] unfolding m
        by (subst get_in_index_loop.simps) (simp add: split_beta)
    qed
  qed
qed

lemma get_in_index_rep:
  assumes inv: "index_inv cd hc it q ms ms0 E loc M" and k: "length k = 32"
  shows "get_in_index cd k it (as_ref hc) q =
     Some (Inr (case loc k of Some (t, off, i) \<Rightarrow> map_option (\<lambda>v. (of_nat t, fst v)) (M k) | None \<Rightarrow> None))"
  using get_loop_rep[OF inv k, of 0] index_get_rep[OF index_inv_parts(3)[OF inv], of k 0]
  by (simp add: get_in_index_def split_beta)

lemma count_stats_eq: "\<exists>st. count_stats hc f = hc\<lparr>hc_stats := st\<rparr>"
  by (cases "hc_collect_stats hc") (auto simp: count_stats_def intro: exI[of _ "hc_stats hc"])

lemma hash_get_rep:
  assumes "col_rep cd hc q M" and k: "length k = 32"
  shows "\<exists>st. hash_get cd hc k q = Some (Inr (map_option fst (M k), hc\<lparr>hc_stats := st\<rparr>))"
proof -
  obtain ms E loc where inv: "col_inv cd hc q ms E loc M" using assms(1) unfolding col_rep_def by blast
  note g = get_in_index_rep[OF col_inv_index[OF inv] k] and p = col_inv_parts[OF inv] and cs = count_stats_eq
  show ?thesis
  proof (cases "loc k")
    case None
    then have "M k = None" using p(6) unfolding holds_def by blast
    then show ?thesis using g None p(1) cs[of hc query_miss] by (auto simp: hash_get_def cret_def)
  next
    case (Some x)
    obtain t off i where l: "loc k = Some (t, off, i)" using Some by (cases x) auto
    then obtain v where "M k = Some v" using col_inv_key[OF inv] by metis
    then show ?thesis using g l cs[of hc "query_hit (of_nat t)"] by (auto simp: hash_get_def cret_def)
  qed
qed

section \<open>Searching before a write\<close>

lemma search_loop_rep:
  assumes inv: "col_inv cd hc q ms E loc M" and k: "length k = 32"
    and sub: "sub \<le> CHUNK_ENTRIES" "\<And>t off i. loc k = Some (t, off, i) \<Longrightarrow> sub \<le> i"
  shows "case next_match (key_hits (hc_index hc) k) (E (key_home (hc_index hc) k)) sub of (entry, j) \<Rightarrow>
     search_index_loop k (hc_index hc) (hc_value hc) q entry j =
       Some (Inr (map_option (\<lambda>(t, off, i). (hc_index hc, i, place_address t off)) (loc k)))"
  using sub
proof (induction "CHUNK_ENTRIES - sub" arbitrary: sub)
  case 0
  have "loc k = None"
  proof (cases "loc k")
    case (Some x)
    obtain t off i where "loc k = Some (t, off, i)" using Some by (cases x) auto
    moreover from this have "i < CHUNK_ENTRIES" by (rule col_inv_key[OF inv])
    ultimately show ?thesis using 0 by fastforce
  qed simp
  moreover have "next_match (key_hits (hc_index hc) k) (E (key_home (hc_index hc) k)) sub = (entry_empty, 0)"
    by (rule next_match_none) (use 0 in auto)
  ultimately show ?case by (subst search_index_loop.simps) (simp add: entry_is_empty_def entry_empty_def)
next
  case (Suc n)
  let ?it = "hc_index hc"
  let ?ents = "E (key_home ?it k)"
  note p = col_inv_parts[OF inv]
  have s: "sub < CHUNK_ENTRIES" using Suc.hyps(2) by simp
  have IH: "case next_match (key_hits ?it k) ?ents (Suc sub) of (entry, j) \<Rightarrow>
      search_index_loop k ?it (hc_value hc) q entry j =
       Some (Inr (map_option (\<lambda>(t, off, i). (hc_index hc, i, place_address t off)) (loc k)))"
    if "\<And>t off. loc k \<noteq> Some (t, off, sub)"
    using Suc.hyps(1)[of "Suc sub"] Suc.hyps(2) Suc.prems(2) that s
    by (metis Suc_diff_Suc Suc_leI diff_Suc_1 le_neq_implies_less)
  show ?case
  proof (cases "key_hits ?it k (?ents ! sub)")
    case False
    then have "loc k \<noteq> Some (t, off, sub)" for t off using layout_hits_own[OF p(5)] by blast
    then show ?thesis using IH next_match_skip[of sub "key_hits ?it k" ?ents] False s by simp
  next
    case True
    obtain k' t off e where h: "loc k' = Some (t, off, sub)"
        "entry_address (?ents ! sub) (it_bits ?it) = place_address t off"
        "partial_key k' = partial_key k \<longleftrightarrow> k' = k" "key_home ?it k' = key_home ?it k"
        "ms t off = Some e" "sv_key e = Partial k'" "t < SIZE_TIERS" "unat off < 2 ^ 56"
      using layout_hit[OF p(5) s True k] by metis
    have ne: "\<not> entry_is_empty (?ents ! sub)" using True by (simp add: key_hits_def)
    note a = place_address_inverse[OF h(7,8)]
    have rp: "represents (hc_value hc ! t) q (ms t)" using tier_represents[OF p(3)] p(2) h(7) by simp
    have hk: "cbind (Some (nth_table (hc_value hc) (unat (address_size_tier (place_address t off)))))
        (\<lambda>t'. has_key_at t' (address_offset (place_address t off)) (Partial k) q) = Some (Inr (k' = k))"
      using has_key_represents[OF rp h(5,6), of k] p(2) h(3,7) by (simp add: a nth_table_ok)
    have m: "next_match (key_hits ?it k) ?ents sub = (?ents ! sub, sub)"
      by (rule next_match_at[OF s]) (rule True)
    show ?thesis
    proof (cases "k' = k")
      case eq: True
      then show ?thesis
        using hk h ne unfolding m by (subst search_index_loop.simps) (simp add: Let_def)
    next
      case neq: False
      have "loc k \<noteq> Some (t', off', sub)" for t' off'
        using layout_entry_inj[OF p(5) h(1) _ h(4)] neq by blast
      then show ?thesis
        using IH hk h ne neq index_get_rep[OF p(4), of k "Suc sub"] unfolding m
        by (subst search_index_loop.simps) (simp add: split_beta Let_def)
    qed
  qed
qed

lemma search_all_rep:
  assumes inv: "col_inv cd hc q ms E loc M" and k: "length k = 32"
  shows "search_all_indexes k hc q =
     Some (Inr (map_option (\<lambda>(t, off, i). (hc_index hc, i, place_address t off)) (loc k)))"
proof -
  have "search_index k (hc_index hc) (hc_value hc) q =
      Some (Inr (map_option (\<lambda>(t, off, i). (hc_index hc, i, place_address t off)) (loc k)))"
    using search_loop_rep[OF inv k, of 0] index_get_rep[OF col_inv_parts(4)[OF inv], of k 0]
    by (simp add: search_index_def split_beta)
  then show ?thesis
    using col_inv_parts(1)[OF inv] by (auto simp: search_all_indexes_def cret_def split: option.split)
qed

end
