(* ===== verification/Column_Write.thy ===== *)
theory Column_Write
  imports Column_Rep
begin

text \<open>
  Planning a change of a hash column updates the stored map: insertion, replacement in place or in
  another tier, reference counting and deletion, with the statistics on or off.
\<close>

section \<open>The tier of a value\<close>

lemma value_size_fits:
  assumes "wf_table t"
  shows "(case value_size t key of Some s \<Rightarrow> length v \<le> unat s | None \<Rightarrow> False) \<longleftrightarrow>
     length v + ref_size t + key_encoded_size key \<le> es t - 2"
proof -
  have "es t - 2 - ref_size t - key_encoded_size key < 65536"
    using wf_table_bounds(2)[OF assms] by simp
  then have "unat (of_nat (es t - 2 - ref_size t - key_encoded_size key) :: u16) = es t - 2 - ref_size t - key_encoded_size key"
    by (simp add: unat_of_nat)
  moreover have "key_encoded_size key \<le> 26" "ref_size t \<le> 4"
    by (auto simp: key_encoded_size_def PARTIAL_SIZE_def ref_size_def REFS_SIZE_def split: table_key.splits)
  ultimately show ?thesis
    using wf_table_bounds(1)[OF assms] by (auto simp: value_size_eq[OF assms])
qed

text \<open>The stored form is no longer than the value and gives it back; its tier is the first that holds it.\<close>

lemma column_compress_spec:
  assumes cd: "codecs_ok cd" and ts: "\<forall>t\<in>set ts. wf_table t" and last: "ts \<noteq> []" "vt_multipart (last ts)"
    and r: "column_compress cd cp key v ts = (cval, tier)" and s: "stored_form cval v = (sv, c)"
  shows "tier < length ts" and "fits (ts ! tier) key sv" and "length sv \<le> length v"
    and "(if c then decompress_bytes cd cp sv else Inr sv) = Inr v"
    and "\<And>j. j < tier \<Longrightarrow> \<not> length sv + ref_size (ts ! j) + key_encoded_size key \<le> es (ts ! j) - 2"
proof -
  let ?P = "\<lambda>i. case value_size (ts ! i) key of Some s \<Rightarrow> length sv \<le> unat s | None \<Rightarrow> False"
  have sv: "length sv \<le> length v \<and> (if c then decompress_bytes cd cp sv else Inr sv) = Inr v \<and>
      tier = (case List.find ?P [0..<length ts] of Some tier \<Rightarrow> tier | None \<Rightarrow> length ts - 1)"
    using r s decompress_compress[OF cd, of cp v]
    by (auto simp: column_compress_def stored_form_def Let_def split: if_splits)
  then show "length sv \<le> length v" "(if c then decompress_bytes cd cp sv else Inr sv) = Inr v" by auto
  have P: "?P i \<longleftrightarrow> length sv + ref_size (ts ! i) + key_encoded_size key \<le> es (ts ! i) - 2" if "i < length ts" for i
    using value_size_fits[of "ts ! i" sv key] ts that by simp
  show "tier < length ts" and "fits (ts ! tier) key sv"
    and "\<And>j. j < tier \<Longrightarrow> \<not> length sv + ref_size (ts ! j) + key_encoded_size key \<le> es (ts ! j) - 2"
  proof (atomize (full), cases "List.find ?P [0..<length ts]")
    case None
    then have t: "tier = length ts - 1" using sv by simp
    moreover have "fits (ts ! tier) key sv" using last t by (simp add: fits_def last_conv_nth)
    ultimately show "tier < length ts \<and> fits (ts ! tier) key sv \<and>
        (\<forall>j. j < tier \<longrightarrow> \<not> length sv + ref_size (ts ! j) + key_encoded_size key \<le> es (ts ! j) - 2)"
      using None last(1) P by (auto simp: find_None_iff)
  next
    case (Some i)
    then have t: "tier = i" using sv by simp
    then have "tier < length ts" "?P tier" "\<forall>j<tier. \<not> ?P j"
      using Some by (auto simp: find_Some_iff)
    then show "tier < length ts \<and> fits (ts ! tier) key sv \<and>
        (\<forall>j. j < tier \<longrightarrow> \<not> length sv + ref_size (ts ! j) + key_encoded_size key \<le> es (ts ! j) - 2)"
      using P by (auto simp: fits_def)
  qed
qed

section \<open>Room\<close>

text \<open>Every slot that storing \<open>n\<close> bytes may take can be named by an entry of the index.\<close>

definition slots_room :: "hash_column \<Rightarrow> nat \<Rightarrow> bool" where
  "slots_room hc n \<longleftrightarrow> (\<forall>t\<in>set (hc_value hc).
     unat (vt_filled t) + n + 31 < 2 ^ (unat (it_bits (hc_index hc)) + 6))"

lemma admits_place:
  assumes b: "valid_index_bits (it_bits it)" and off: "unat off < 2 ^ (unat (it_bits it) + 6)"
  shows "index_admits it (place_address t off)" and "unat off < 2 ^ 56"
proof -
  let ?n = "unat (it_bits it) + 14" and ?a = "address_as_u64 (place_address t off)"
  have "(2 :: nat) ^ (unat (it_bits it) + 6) \<le> 2 ^ 55"
    using b by (intro power_increasing) (auto simp: valid_index_bits_def)
  then show "unat off < 2 ^ 56" using off by simp
  have o: "\<not> bit off j" if "unat (it_bits it) + 6 \<le> j" for j
  proof -
    have "take_bit (unat (it_bits it) + 6) (unat off) = unat off"
      using off by (simp add: take_bit_nat_eq_self)
    then have "take_bit (unat (it_bits it) + 6) off = off"
      by (metis unsigned_take_bit_eq word_unat_eq_iff)
    then have "bit off j = bit (take_bit (unat (it_bits it) + 6) off) j" by simp
    then show ?thesis using that by (simp add: bit_take_bit_iff)
  qed
  have "\<not> bit ?a j" if "?n \<le> j" for j
    using that o[of "j - 8"] bit_imp_le_length[of "of_nat t :: u8" j]
    by (auto simp: place_address_def address_new_def shl64_def SIZE_TIERS_BITS_def bit_or_iff
        bit_push_bit_iff bit_ucast_iff)
  then have "take_bit ?n ?a = ?a"
    by (intro bit_word_eqI) (metis bit_take_bit_iff not_le)
  then have "unat ?a < 2 ^ ?n"
    by (metis take_bit_nat_less_exp unsigned_take_bit_eq)
  moreover have "min 64 ?n = ?n" using b by (simp add: valid_index_bits_def)
  ultimately show "index_admits it (place_address t off)"
    using unat_mask_u64[of ?n]
    by (simp add: index_admits_def entry_last_address_mask[OF b] word_le_nat_alt mask_eq_exp_minus_1)
qed

lemma slots_room_table:
  assumes "slots_room hc n" and "valid_index_bits (it_bits (hc_index hc))" and "t \<in> set (hc_value hc)"
    and "length v \<le> n"
  shows "room t v" and "off \<le> vt_filled t \<Longrightarrow> unat off < 2 ^ (unat (it_bits (hc_index hc)) + 6)"
proof -
  have r: "unat (vt_filled t) + n + 31 < 2 ^ (unat (it_bits (hc_index hc)) + 6)"
    using assms(1,3) by (simp add: slots_room_def)
  moreover have "(2 :: nat) ^ (unat (it_bits (hc_index hc)) + 6) \<le> 2 ^ 55"
    using assms(2) by (intro power_increasing) (auto simp: valid_index_bits_def)
  ultimately show "room t v" using assms(4) by (simp add: room_def)
  show "off \<le> vt_filled t \<Longrightarrow> unat off < 2 ^ (unat (it_bits (hc_index hc)) + 6)"
    using r by (simp add: word_le_nat_alt)
qed

section \<open>Changing one tier\<close>

lemma tier_shape_update:
  "tier_shape b ts \<Longrightarrow> i < length ts \<Longrightarrow> same_table (ts ! i) t' \<Longrightarrow> tier_shape b (ts[i := t'])"
  by (auto simp: tier_shape_def nth_list_update same_table_def)

lemma index_rep_values:
  "index_rep t q E \<Longrightarrow> q_index q' = q_index q \<Longrightarrow> index_rep t q' E"
  by (simp add: index_rep_def wf_query_def index_entries_def cong: option.case_cong)

lemma holds_put:
  assumes "holds cd cp ms loc M" and "layout it ms E loc" and "unpack cd cp e = Inr v"
    and "\<And>k' i'. k' \<noteq> k \<Longrightarrow> loc k' \<noteq> Some (t, off, i')"
  shows "holds cd cp (ms(t := (ms t)(off \<mapsto> e))) (loc(k \<mapsto> (t, off, i))) (M(k \<mapsto> (v, sv_rc e)))"
  unfolding holds_def
proof (intro conjI allI impI)
  show "dom (M(k \<mapsto> (v, sv_rc e))) = dom (loc(k \<mapsto> (t, off, i)))"
    using assms(1) by (simp add: holds_def)
  fix k' t' off' i' e'
  assume l: "(loc(k \<mapsto> (t, off, i))) k' = Some (t', off', i')"
    and m: "(ms(t := (ms t)(off \<mapsto> e))) t' off' = Some e'"
  show "\<exists>v'. unpack cd cp e' = Inr v' \<and> (M(k \<mapsto> (v, sv_rc e))) k' = Some (v', sv_rc e')"
  proof (cases "k' = k")
    case True
    then show ?thesis using l m assms(3) by auto
  next
    case False
    then have "loc k' = Some (t', off', i')" "ms t' off' = Some e'"
      using l m assms(4)[of k' i'] by (auto split: if_splits)
    then show ?thesis using assms(1) False unfolding holds_def by auto
  qed
qed

lemma holds_remove:
  assumes "holds cd cp ms loc M" and "layout it ms E loc" and "loc k = Some (t, off, i)"
  shows "holds cd cp (ms(t := (ms t)(off := None))) (loc(k := None)) (M(k := None))"
  using assms(1) unfolding holds_def by (auto split: if_splits)

text \<open>
  The three ways a plan changes the layout, for a column whose tables were updated in tier \<open>t\<close> and
  whose index was updated for \<open>k\<close>.
\<close>

lemma col_inv_change:
  assumes inv: "col_inv cd hc (writer_query w) ms E loc M" and k: "loc k = Some (t, off, i)"
    and e: "sv_key e = Partial k" "unpack cd (hc_compression hc) e = Inr v"
    and ts: "tiers_rep ts (writer_query w') (ms(t := (ms t)(off \<mapsto> e)))" "tier_shape (hc_ref_counted hc) ts"
    and q: "q_index (writer_query w') = q_index (writer_query w)"
  shows "col_inv cd (hc\<lparr>hc_value := ts\<rparr>) (writer_query w') (ms(t := (ms t)(off \<mapsto> e))) E loc (M(k \<mapsto> (v, sv_rc e)))"
proof -
  note p = col_inv_parts[OF inv]
  have "k' = k" if "loc k' = Some (t, off, i')" for k' i' using layout_slot_inj[OF p(5) that k] .
  then have "holds cd (hc_compression hc) (ms(t := (ms t)(off \<mapsto> e))) (loc(k \<mapsto> (t, off, i))) (M(k \<mapsto> (v, sv_rc e)))"
    using holds_put[OF p(6,5) e(2), of k t off i] by blast
  moreover have "loc(k \<mapsto> (t, off, i)) = loc" using k by auto
  ultimately show ?thesis
    using p ts layout_change[OF p(5) k e(1)] index_rep_values[OF p(4) q] by (simp add: col_inv_def)
qed

lemma col_inv_remove:
  assumes inv: "col_inv cd hc (writer_query w) ms E loc M" and k: "loc k = Some (t, off, i)"
    and ts: "tiers_rep ts (writer_query w') (ms(t := (ms t)(off := None)))" "tier_shape (hc_ref_counted hc) ts"
    and ix: "index_rep (hc_index hc) (writer_query w')
      (E(key_home (hc_index hc) k := (E (key_home (hc_index hc) k))[i := entry_empty]))"
  shows "col_inv cd (hc\<lparr>hc_value := ts\<rparr>) (writer_query w') (ms(t := (ms t)(off := None)))
     (E(key_home (hc_index hc) k := (E (key_home (hc_index hc) k))[i := entry_empty])) (loc(k := None)) (M(k := None))"
proof -
  note p = col_inv_parts[OF inv]
  show ?thesis
    using p ts ix layout_remove[OF p(5) k] holds_remove[OF p(6,5) k] by (simp add: col_inv_def)
qed

lemma col_inv_add:
  assumes inv: "hc_queue hc = []" "layout (hc_index hc) ms E loc" "holds cd (hc_compression hc) ms loc M"
    and k: "loc k = None" "length k = 32" and e: "sv_key e = Partial k" "unpack cd (hc_compression hc) e = Inr v"
    and off: "t < SIZE_TIERS" "off \<notin> dom (ms t)" "off \<noteq> 0" "unat off < 2 ^ 56"
      "index_admits (hc_index hc) (place_address t off)"
    and i: "i < CHUNK_ENTRIES" "entry_is_empty (E (key_home (hc_index hc) k) ! i)"
    and ts: "tiers_rep ts (writer_query w') (ms(t := (ms t)(off \<mapsto> e)))" "tier_shape (hc_ref_counted hc) ts"
    and ix: "index_rep (hc_index hc) (writer_query w')
      (E(key_home (hc_index hc) k := (E (key_home (hc_index hc) k))[i := key_entry (hc_index hc) k (place_address t off)]))"
  shows "col_rep cd (hc\<lparr>hc_value := ts\<rparr>) (writer_query w') (M(k \<mapsto> (v, sv_rc e)))"
proof -
  have "loc k' \<noteq> Some (t, off, i')" for k' i'
    using layout_placed[OF inv(2), of k' "(t, off, i')"] off(2) by (auto simp: placed_def)
  then have "holds cd (hc_compression hc) (ms(t := (ms t)(off \<mapsto> e))) (loc(k \<mapsto> (t, off, i))) (M(k \<mapsto> (v, sv_rc e)))"
    using holds_put[OF inv(3,2) e(2), of k t off i] by blast
  then have "col_inv cd (hc\<lparr>hc_value := ts\<rparr>) (writer_query w') (ms(t := (ms t)(off \<mapsto> e)))
     (E(key_home (hc_index hc) k := (E (key_home (hc_index hc) k))[i := key_entry (hc_index hc) k (place_address t off)]))
     (loc(k \<mapsto> (t, off, i))) (M(k \<mapsto> (v, sv_rc e)))"
    using inv(1) ts ix layout_add[OF inv(2) k off(1-4) e(1) i off(5)] by (simp add: col_inv_def)
  then show ?thesis unfolding col_rep_def by blast
qed

section \<open>A key that is not there\<close>

definition same_column :: "hash_column \<Rightarrow> hash_column \<Rightarrow> bool" where
  "same_column hc hc' \<longleftrightarrow> (\<exists>ts st. hc' = hc\<lparr>hc_value := ts, hc_stats := st\<rparr>)"

definition home_room :: "hash_column \<Rightarrow> log_query \<Rightarrow> bytes \<Rightarrow> bool" where
  "home_room hc q k \<longleftrightarrow> (\<exists>ents. index_entries (hc_index hc) (key_home (hc_index hc) k) q = Inr ents \<and>
     (\<exists>e\<in>set ents. entry_is_empty e))"

lemma home_room_rep:
  "index_rep (hc_index hc) q E \<Longrightarrow> home_room hc q k \<longleftrightarrow> (\<exists>e\<in>set (E (key_home (hc_index hc) k)). entry_is_empty e)"
  using index_rep_home[of "hc_index hc" q E k] by (auto simp: home_room_def)

lemma same_column_stats: "same_column hc (stats_out (hc\<lparr>hc_value := ts\<rparr>) st)"
proof (cases st)
  case None
  have "hc\<lparr>hc_value := ts\<rparr> = hc\<lparr>hc_value := ts, hc_stats := hc_stats hc\<rparr>" by simp
  then show ?thesis unfolding same_column_def stats_out_def None option.case by blast
qed (auto simp: same_column_def stats_out_def)

lemma col_rep_stats: "col_rep cd hc q M \<Longrightarrow> col_rep cd (stats_out hc st) q M"
  by (cases st) (auto simp: col_rep_def stats_out_def)

lemma stats_out_fields [simp]:
  "hc_index (stats_out hc st) = hc_index hc" "hc_value (stats_out hc st) = hc_value hc"
  by (auto simp: stats_out_def split: option.splits)

lemma tier_tables:
  assumes "tiers_rep ts q ms" and "tier_shape b ts"
  shows "\<forall>t\<in>set ts. wf_table t" and "ts \<noteq> []" and "vt_multipart (last ts)"
proof -
  have ne: "SIZE_TIERS \<noteq> 0" by (simp add: SIZE_TIERS_def)
  then show n: "ts \<noteq> []" using assms(2) by (auto simp: tier_shape_def)
  show "vt_multipart (last ts)" using assms(2) ne n by (simp add: tier_shape_def last_conv_nth)
  show "\<forall>t\<in>set ts. wf_table t" using tier_represents[OF assms(1)] by (auto simp: in_set_conv_nth represents_def)
qed

lemma col_inv_tables:
  assumes "col_inv cd hc q ms E loc M"
  shows "\<forall>t\<in>set (hc_value hc). wf_table t" and "hc_value hc \<noteq> []" and "vt_multipart (last (hc_value hc))"
    and "valid_index_bits (it_bits (hc_index hc))"
  using tier_tables[OF col_inv_parts(3,7)[OF assms]] col_inv_parts(5)[OF assms] by (simp_all add: layout_def)

text \<open>The tables after storing \<open>n\<close> bytes have at most the slots for them more.\<close>

definition grown_by :: "nat \<Rightarrow> value_table list \<Rightarrow> value_table list \<Rightarrow> bool" where
  "grown_by n ts ts' \<longleftrightarrow> list_all2 (\<lambda>t t'. unat (vt_filled t') \<le> unat (vt_filled t) + n + 31) ts ts'"

lemma grown_by_update:
  assumes "i < length ts" and "unat (vt_filled t') \<le> unat (vt_filled (ts ! i)) + m + 31" and "m \<le> n"
  shows "grown_by n ts (ts[i := t'])"
  using assms by (auto simp: grown_by_def list_all2_conv_all_nth nth_list_update)

lemma new_value_rep:
  assumes ti: "tiers_rep (hc_value hc) (writer_query w) ms" "tier_shape (hc_ref_counted hc) (hc_value hc)"
    and bits: "valid_index_bits (it_bits (hc_index hc))" and cd: "codecs_ok cd" and k: "length k = 32"
    and room: "slots_room hc (length v)"
  shows "\<exists>t off sv c ts w' st'. write_new_value_plan cd (Partial k) (as_ref hc) v w st =
       Some (Inr (place_address t off, ts, w', st')) \<and> t < SIZE_TIERS \<and> off \<notin> dom (ms t) \<and> off \<noteq> 0 \<and>
     unat off < 2 ^ 56 \<and> index_admits (hc_index hc) (place_address t off) \<and>
     unpack cd (hc_compression hc) (fresh_entry (Partial k) sv c) = Inr v \<and>
     tiers_rep ts (writer_query w') (ms(t := (ms t)(off \<mapsto> fresh_entry (Partial k) sv c))) \<and>
     tier_shape (hc_ref_counted hc) ts \<and> q_index (writer_query w') = q_index (writer_query w) \<and>
     grown_by (length v) (hc_value hc) ts"
proof -
  let ?ts = "hc_value hc"
  note tb = tier_tables[OF ti]
  obtain cval t where cc: "column_compress cd (hc_compression hc) (Partial k) v ?ts = (cval, t)" by force
  obtain sv c where sf: "stored_form cval v = (sv, c)" by force
  note sp = column_compress_spec[OF cd tb cc sf]
  have wk: "wf_key (Partial k)" using k by (simp add: wf_key_def)
  have tin: "?ts ! t \<in> set ?ts" using sp(1) by simp
  note sr = slots_room_table[OF room bits tin sp(3)]
  obtain off t' w' where ins: "table_write_insert_plan (?ts ! t) (Partial k) sv w c = Some (Inr (off, t', w'))"
      "off \<noteq> 0" "off \<notin> dom (ms t)" "off \<le> vt_filled (?ts ! t)" "same_table (?ts ! t) t'"
      "q_index (writer_query w') = q_index (writer_query w)"
      "tiers_rep (?ts[t := t']) (writer_query w') (ms(t := (ms t)(off \<mapsto> fresh_entry (Partial k) sv c)))"
      and fl: "unat (vt_filled t') \<le> unat (vt_filled (?ts ! t)) + length sv + 31"
    using tier_insert_bound[OF ti(1) sp(1) wk sp(2) sr(1), of c] by blast
  note ad = admits_place(1)[OF bits sr(2)[OF ins(4)], of t] admits_place(2)[OF bits sr(2)[OF ins(4)]]
  have "write_new_value_plan cd (Partial k) (as_ref hc) v w st =
      Some (Inr (place_address t off, ?ts[t := t'], w',
        map_option (insert_val (of_nat (length v)) (of_nat (length sv))) st))"
    using cc sf ins(1) sp(1) by (simp add: write_new_value_plan_def as_ref_def nth_table_ok place_address_def cret_def)
  moreover have "unpack cd (hc_compression hc) (fresh_entry (Partial k) sv c) = Inr v"
    using sp(4) by (simp add: unpack_def fresh_entry_def split: if_splits)
  moreover have "t < SIZE_TIERS" using sp(1) ti(2) by (simp add: tier_shape_def)
  ultimately show ?thesis
    using ins ad tier_shape_update[OF ti(2) sp(1) ins(5)] grown_by_update[OF sp(1) fl sp(3)] by blast
qed

lemma write_plan_new_rep:
  assumes inv: "col_inv cd hc (writer_query w) ms E loc M" and cd: "codecs_ok cd" and k: "length k = 32" "loc k = None"
    and room: "slots_room hc (length v)" "home_room hc (writer_query w) k"
  shows "\<exists>hc' w'. write_plan_new cd k v hc w = Some (Inr (Written, hc', w')) \<and> same_column hc hc' \<and>
     col_rep cd hc' (writer_query w') (M(k \<mapsto> (v, 1)))"
proof -
  note p = col_inv_parts[OF inv]
  obtain t off sv c ts w1 st' where nv: "write_new_value_plan cd (Partial k) (as_ref hc) v w (stats_in hc) =
        Some (Inr (place_address t off, ts, w1, st'))" and a: "t < SIZE_TIERS" "off \<notin> dom (ms t)" "off \<noteq> 0"
        "unat off < 2 ^ 56" "index_admits (hc_index hc) (place_address t off)"
      and u: "unpack cd (hc_compression hc) (fresh_entry (Partial k) sv c) = Inr v"
      and ts: "tiers_rep ts (writer_query w1) (ms(t := (ms t)(off \<mapsto> fresh_entry (Partial k) sv c)))"
        "tier_shape (hc_ref_counted hc) ts" and qi: "q_index (writer_query w1) = q_index (writer_query w)"
    using new_value_rep[OF p(3,7) col_inv_tables(4)[OF inv] cd k(1) room(1)] by metis
  have "\<exists>e\<in>set (E (key_home (hc_index hc) k)). entry_is_empty e"
    using room(2) home_room_rep[OF p(4)] by simp
  then obtain i w2 where put: "i < CHUNK_ENTRIES" "entry_is_empty (E (key_home (hc_index hc) k) ! i)"
      "index_write_insert_plan (hc_index hc) k (place_address t off) None w1 = Inr (Written, w2)"
      "q_value (writer_query w2) = q_value (writer_query w1)"
      "index_rep (hc_index hc) (writer_query w2)
        (E(key_home (hc_index hc) k := (E (key_home (hc_index hc) k))[i := key_entry (hc_index hc) k (place_address t off)]))"
    using ix.put_room[OF index_rep_values[OF p(4) qi] a(5)] by metis
  have ts2: "tiers_rep ts (writer_query w2) (ms(t := (ms t)(off \<mapsto> fresh_entry (Partial k) sv c)))"
    using ts(1) tiers_rep_cong[of "writer_query w2" "writer_query w1" ts] put(4) by simp
  have "col_rep cd (hc\<lparr>hc_value := ts\<rparr>) (writer_query w2) (M(k \<mapsto> (v, sv_rc (fresh_entry (Partial k) sv c))))"
    by (rule col_inv_add[OF p(1,5,6) k(2,1) _ u a put(1,2) ts2 ts(2) put(5)]) (simp add: fresh_entry_def)
  then have "col_rep cd (stats_out (hc\<lparr>hc_value := ts\<rparr>) st') (writer_query w2) (M(k \<mapsto> (v, 1)))"
    by (intro col_rep_stats) (simp add: fresh_entry_def)
  moreover have "write_plan_new cd k v hc w = Some (Inr (Written, stats_out (hc\<lparr>hc_value := ts\<rparr>) st', w2))"
    using nv put(3) by (subst write_plan_new.simps) (simp add: Let_def)
  ultimately show ?thesis using same_column_stats by blast
qed

end
