(* ===== verification/Column_Update.thy ===== *)
theory Column_Update
  imports Column_Write
begin

text \<open>
  Planning a change for a key that is stored: replacement in place or in another tier, taking and
  releasing a reference, deletion; and the whole of \<open>write_plan\<close> as an update of the stored map.
\<close>

section \<open>Statistics of the present value\<close>

lemma current_sizes_rep:
  assumes inv: "col_inv cd hc q ms E loc M" and k: "loc k = Some (t, off, i)"
  shows "\<exists>s. current_sizes cd (as_ref hc) t (Partial k) off q = Some (Inr s)"
proof -
  note p = col_inv_parts[OF inv]
  obtain e v where e: "ms t off = Some e" "sv_key e = Partial k" "unpack cd (hc_compression hc) e = Inr v"
      "t < SIZE_TIERS" "length k = 32"
    using col_inv_key[OF inv k] by metis
  have rp: "represents (hc_value hc ! t) q (ms t)" using tier_represents[OF p(3)] p(2) e(4) by simp
  have wk: "wf_key (Partial k)" using e(5) by (simp add: wf_key_def)
  have "table_get (hc_value hc ! t) (Partial k) off q = Some (Inr (Some (sv_value e, sv_compressed e)))"
    using get_represents[OF rp e(1) wk] e(2) by simp
  moreover have "table_size (hc_value hc ! t) (Partial k) off q =
      Some (Inr (Some (of_nat (length (sv_value e)), sv_compressed e)))"
    using size_represents[OF rp e(1)] e(2) by simp
  ultimately show ?thesis
    using e(3,4) p(2)
    by (simp add: current_sizes_def as_ref_def nth_table_ok unwrap_def cret_def unpack_def split: if_splits)
qed

lemma replace_stats_rep:
  assumes "col_inv cd hc q ms E loc M" and "loc k = Some (t, off, i)"
  shows "\<exists>st'. replace_stats cd (as_ref hc) t (Partial k) off q v cval st = Some (Inr st')"
  using current_sizes_rep[OF assms] by (cases st) (auto simp: replace_stats_def cret_def)

section \<open>Replacement\<close>

lemma set_existing_counted:
  assumes inv: "col_inv cd hc (writer_query w) ms E loc M" and k: "loc k = Some (t, off, i)" "M k = Some (u, rc)"
    and rc: "hc_ref_counted hc"
  shows "\<exists>w' st'. set_existing_value cd (Partial k) (as_ref hc) (place_address t off) v w st =
       Some (Inr ((Some Written, None), hc_value hc, w', st')) \<and>
     col_rep cd hc (writer_query w') (M(k \<mapsto> (u, inc_count rc)))"
proof -
  note p = col_inv_parts[OF inv]
  obtain e v' where e: "ms t off = Some e" "sv_key e = Partial k" "unpack cd (hc_compression hc) e = Inr v'"
      "M k = Some (v', sv_rc e)" "t < SIZE_TIERS" "unat off < 2 ^ 56"
    using col_inv_key[OF inv k(1)] by metis
  note a = place_address_inverse[OF e(5,6)]
  have t: "t < length (hc_value hc)" "vt_ref_counted (hc_value hc ! t)"
    using e(5) p(2,7) rc by (auto simp: tier_shape_def)
  let ?e = "e\<lparr>sv_rc := inc_count (sv_rc e)\<rparr>"
  obtain w' where w': "write_inc_ref (hc_value hc ! t) off w = Inr w'"
      "q_index (writer_query w') = q_index (writer_query w)"
      "tiers_rep (hc_value hc) (writer_query w') (ms(t := (ms t)(off \<mapsto> ?e)))"
    using tier_inc_ref[OF p(3) t e(1)] by blast
  have "col_inv cd (hc\<lparr>hc_value := hc_value hc\<rparr>) (writer_query w') (ms(t := (ms t)(off \<mapsto> ?e))) E loc
      (M(k \<mapsto> (v', sv_rc ?e)))"
    by (rule col_inv_change[OF inv k(1) _ _ w'(3) p(7) w'(2)]) (use e(2,3) in \<open>auto simp: unpack_def\<close>)
  then have "col_rep cd hc (writer_query w') (M(k \<mapsto> (u, inc_count rc)))"
    using e(4) k(2) unfolding col_rep_def by auto
  moreover have "set_existing_value cd (Partial k) (as_ref hc) (place_address t off) v w st =
      Some (Inr ((Some Written, None), hc_value hc, w', st))"
    using w'(1) rc t(1) by (simp add: set_existing_value_def a as_ref_def nth_table_ok cret_def)
  ultimately show ?thesis by blast
qed

text \<open>Where the value goes: in place when its tier is the old one, otherwise to another table.\<close>

lemma set_existing_plain:
  assumes inv: "col_inv cd hc (writer_query w) ms E loc M" and cd: "codecs_ok cd"
    and k: "loc k = Some (t, off, i)" and plain: "\<not> hc_ref_counted hc" "\<not> hc_preimage hc"
    and room: "slots_room hc (length v)"
  shows "(\<exists>ts w' st'. set_existing_value cd (Partial k) (as_ref hc) (place_address t off) v w st =
        Some (Inr ((Some Written, None), ts, w', st')) \<and>
        col_rep cd (hc\<lparr>hc_value := ts\<rparr>) (writer_query w') (M(k \<mapsto> (v, 1)))) \<or>
     (\<exists>t' off' sv c ts w' st'. set_existing_value cd (Partial k) (as_ref hc) (place_address t off) v w st =
        Some (Inr ((None, Some (place_address t' off')), ts, w', st')) \<and>
        t' < SIZE_TIERS \<and> t' \<noteq> t \<and> off' \<notin> dom (ms t') \<and> off' \<noteq> 0 \<and> unat off' < 2 ^ 56 \<and>
        index_admits (hc_index hc) (place_address t' off') \<and>
        unpack cd (hc_compression hc) (fresh_entry (Partial k) sv c) = Inr v \<and>
        tiers_rep ts (writer_query w') (ms(t := (ms t)(off := None),
          t' := (ms t')(off' \<mapsto> fresh_entry (Partial k) sv c))) \<and>
        tier_shape (hc_ref_counted hc) ts \<and> q_index (writer_query w') = q_index (writer_query w))"
proof -
  let ?ts = "hc_value hc"
  note p = col_inv_parts[OF inv] and tb = col_inv_tables[OF inv]
  obtain e v' where e: "ms t off = Some e" "t < SIZE_TIERS" "unat off < 2 ^ 56" "length k = 32"
    using col_inv_key[OF inv k] by metis
  note a = place_address_inverse[OF e(2,3)]
  have t: "t < length ?ts" and wk: "wf_key (Partial k)" using e(2,4) p(2) by (simp_all add: wf_key_def)
  obtain cval t' where cc: "column_compress cd (hc_compression hc) (Partial k) v ?ts = (cval, t')" by force
  obtain sv c where sf: "stored_form cval v = (sv, c)" by force
  note sp = column_compress_spec[OF cd tb(1-3) cc sf]
  have u: "unpack cd (hc_compression hc) (fresh_entry (Partial k) sv c) = Inr v"
    using sp(4) by (simp add: unpack_def fresh_entry_def split: if_splits)
  have tin: "?ts ! t' \<in> set ?ts" using sp(1) by simp
  note sr = slots_room_table[OF room tb(4) tin sp(3)]
  obtain st' where rs: "replace_stats cd (as_ref hc) t (Partial k) off (writer_query w) v sv st = Some (Inr st')"
    using replace_stats_rep[OF inv k] by blast
  note unf = set_existing_value_def a Let_def as_ref_def
  show ?thesis
  proof (cases "t = t'")
    case True
    obtain tt w' where r: "table_write_replace_plan (?ts ! t) off (Partial k) sv w c = Some (Inr (tt, w'))"
        "same_table (?ts ! t) tt" "q_index (writer_query w') = q_index (writer_query w)"
        "tiers_rep (?ts[t := tt]) (writer_query w') (ms(t := (ms t)(off \<mapsto> fresh_entry (Partial k) sv c)))"
      using tier_replace[OF p(3) t wk, of sv off c] sp(2) sr(1) True e(1) by blast
    have "col_inv cd (hc\<lparr>hc_value := ?ts[t := tt]\<rparr>) (writer_query w')
        (ms(t := (ms t)(off \<mapsto> fresh_entry (Partial k) sv c))) E loc (M(k \<mapsto> (v, sv_rc (fresh_entry (Partial k) sv c))))"
      by (rule col_inv_change[OF inv k _ u r(4) tier_shape_update[OF p(7) t r(2)] r(3)]) (simp add: fresh_entry_def)
    then have "col_rep cd (hc\<lparr>hc_value := ?ts[t := tt]\<rparr>) (writer_query w') (M(k \<mapsto> (v, 1)))"
      unfolding col_rep_def by (auto simp: fresh_entry_def)
    moreover have "set_existing_value cd (Partial k) (as_ref hc) (place_address t off) v w st =
        Some (Inr ((Some Written, None), ?ts[t := tt], w', st'))"
      using cc sf rs r(1) t plain by (simp add: unf nth_table_ok cret_def flip: True)
    ultimately show ?thesis by blast
  next
    case False
    obtain tt w1 where r: "table_write_remove_plan (?ts ! t) off w = Some (Inr (tt, w1))"
        "same_table (?ts ! t) tt" "q_index (writer_query w1) = q_index (writer_query w)"
        "tiers_rep (?ts[t := tt]) (writer_query w1) (ms(t := (ms t)(off := None)))"
      using tier_remove[OF p(3) t] e(1) by blast
    have n: "?ts[t := tt] ! t' = ?ts ! t'" "t' < length (?ts[t := tt])" using False sp(1) by auto
    obtain off' tt' w2 where ins: "table_write_insert_plan (?ts ! t') (Partial k) sv w1 c = Some (Inr (off', tt', w2))"
        "off' \<noteq> 0" "off' \<notin> dom (ms t')" "off' \<le> vt_filled (?ts ! t')" "same_table (?ts ! t') tt'"
        "q_index (writer_query w2) = q_index (writer_query w1)"
        "tiers_rep (?ts[t := tt, t' := tt']) (writer_query w2)
           (ms(t := (ms t)(off := None), t' := (ms t')(off' \<mapsto> fresh_entry (Partial k) sv c)))"
      using tier_insert[OF r(4) n(2) wk, of sv c] sp(2) sr(1) False unfolding n(1) by auto
    have sh: "tier_shape (hc_ref_counted hc) (?ts[t := tt, t' := tt'])"
      using tier_shape_update[OF tier_shape_update[OF p(7) t r(2)] n(2)] ins(5) n(1) by simp
    note ad = admits_place(1)[OF tb(4) sr(2)[OF ins(4)], of t'] admits_place(2)[OF tb(4) sr(2)[OF ins(4)]]
    have "move_value (Partial k) ?ts t off t' sv c w = Some (Inr (place_address t' off', ?ts[t := tt, t' := tt'], w2))"
      using r(1) ins(1) t n by (simp add: move_value_def nth_table_ok cret_def place_address_def)
    then have "set_existing_value cd (Partial k) (as_ref hc) (place_address t off) v w st =
        Some (Inr ((None, Some (place_address t' off')), ?ts[t := tt, t' := tt'], w2, st'))"
      using cc sf rs False plain by (simp add: unf cret_def)
    moreover have "t' < SIZE_TIERS" using sp(1) p(2) by simp
    ultimately show ?thesis using False ins ad u sh r(3) by (intro disjI2) fastforce
  qed
qed

section \<open>Deletion\<close>

lemma delete_existing_rep:
  assumes inv: "col_inv cd hc (writer_query w) ms E loc M" and k: "loc k = Some (t, off, i)" "M k = Some (u, rc)"
  shows "(\<exists>ts w' st'. delete_existing_value cd (Partial k) (as_ref hc) (place_address t off) w st =
        Some (Inr ((Some Written, None), ts, w', st')) \<and> hc_ref_counted hc \<and> rc \<noteq> 1 \<and>
        col_rep cd (hc\<lparr>hc_value := ts\<rparr>) (writer_query w')
          (M(k \<mapsto> (u, if rc = LOCKED_REF then LOCKED_REF else rc - 1)))) \<or>
     (\<exists>ts w' st'. delete_existing_value cd (Partial k) (as_ref hc) (place_address t off) w st =
        Some (Inr ((None, Some (place_address t off)), ts, w', st')) \<and> (hc_ref_counted hc \<longrightarrow> rc = 1) \<and>
        tiers_rep ts (writer_query w') (ms(t := (ms t)(off := None))) \<and>
        tier_shape (hc_ref_counted hc) ts \<and> q_index (writer_query w') = q_index (writer_query w))"
proof -
  let ?ts = "hc_value hc"
  note p = col_inv_parts[OF inv]
  obtain e where e: "ms t off = Some e" "sv_key e = Partial k" "unpack cd (hc_compression hc) e = Inr u"
      "sv_rc e = rc" "t < SIZE_TIERS" "unat off < 2 ^ 56"
    using col_inv_key[OF inv k(1)] k(2) by (metis Pair_inject option.inject)
  note a = place_address_inverse[OF e(5,6)]
  have t: "t < length ?ts" using e(5) p(2) by simp
  have "\<exists>cs. (case st of None \<Rightarrow> cret None
      | Some _ \<Rightarrow> cbind (current_sizes cd (as_ref hc) t (Partial k) off (writer_query w)) (\<lambda>s. cret (Some s)))
      = Some (Inr cs)"
    using current_sizes_rep[OF inv k(1)] by (cases st) (auto simp: cret_def)
  then obtain cs where cs: "(case st of None \<Rightarrow> cret None
      | Some _ \<Rightarrow> cbind (current_sizes cd (as_ref hc) t (Partial k) off (writer_query w)) (\<lambda>s. cret (Some s)))
      = Some (Inr cs)" by blast
  have tr: "tr_tables (as_ref hc) = ?ts" "tr_ref_counted (as_ref hc) = hc_ref_counted hc"
    by (simp_all add: as_ref_def)
  have unf: "delete_existing_value cd (Partial k) (as_ref hc) (place_address t off) w st =
      cbind (if hc_ref_counted hc
             then cbind (write_dec_ref (?ts ! t) off w) (\<lambda>(remains, t, w). cret (\<not> remains, t, w))
             else cbind (table_write_remove_plan (?ts ! t) off w) (\<lambda>(t, w). cret (True, t, w)))
        (\<lambda>(remove, t', w). if remove then
           cret ((None, Some (place_address t off)), ?ts[t := t'], w,
             case cs of Some (c, u) \<Rightarrow> map_option (remove_val u c) st | None \<Rightarrow> st)
         else cret ((Some Written, None), ?ts[t := t'], w, st))"
    unfolding delete_existing_value_def Let_def a cs cbind_simps tr nth_table_ok[OF t] ..
  show ?thesis
  proof (cases "hc_ref_counted hc")
    case True
    then have vc: "vt_ref_counted (?ts ! t)" using p(7) e(5) by (simp add: tier_shape_def)
    obtain t' w' where r: "write_dec_ref (?ts ! t) off w = Some (Inr (rc \<noteq> 1, t', w'))" "same_table (?ts ! t) t'"
        "q_index (writer_query w') = q_index (writer_query w)"
        "tiers_rep (?ts[t := t']) (writer_query w') (ms(t := (ms t)(off := (if rc = 1 then None
            else Some (e\<lparr>sv_rc := (if rc = LOCKED_REF then LOCKED_REF else rc - 1)\<rparr>)))))"
      using tier_dec_ref[OF p(3) t vc e(1)] e(4) by blast
    note sh = tier_shape_update[OF p(7) t r(2)]
    show ?thesis
    proof (cases "rc = 1")
      case one: True
      then show ?thesis using r sh unf True by (intro disjI2) (simp add: cret_def)
    next
      case more: False
      let ?e = "e\<lparr>sv_rc := (if rc = LOCKED_REF then LOCKED_REF else rc - 1)\<rparr>"
      have "col_inv cd (hc\<lparr>hc_value := ?ts[t := t']\<rparr>) (writer_query w') (ms(t := (ms t)(off \<mapsto> ?e))) E loc
          (M(k \<mapsto> (u, sv_rc ?e)))"
        by (rule col_inv_change[OF inv k(1) _ _ _ sh r(3)])
          (use e r(4) more in \<open>auto simp: unpack_def\<close>)
      then have "col_rep cd (hc\<lparr>hc_value := ?ts[t := t']\<rparr>) (writer_query w')
          (M(k \<mapsto> (u, if rc = LOCKED_REF then LOCKED_REF else rc - 1)))"
        by (simp add: col_repI)
      then show ?thesis using r(1) unf True more by (intro disjI1) (simp add: cret_def)
    qed
  next
    case False
    obtain t' w' where r: "table_write_remove_plan (?ts ! t) off w = Some (Inr (t', w'))" "same_table (?ts ! t) t'"
        "q_index (writer_query w') = q_index (writer_query w)"
        "tiers_rep (?ts[t := t']) (writer_query w') (ms(t := (ms t)(off := None)))"
      using tier_remove[OF p(3) t] e(1) by blast
    then show ?thesis
      using unf False tier_shape_update[OF p(7) t r(2)] by (intro disjI2) (simp add: cret_def)
  qed
qed

section \<open>The whole plan\<close>

text \<open>What \<open>write_plan\<close> promises, on the stored map.\<close>

definition column_spec :: "bool \<Rightarrow> bool \<Rightarrow> bytes \<Rightarrow> bytes option \<Rightarrow> (bytes \<rightharpoonup> bytes \<times> u32) \<Rightarrow> bytes \<rightharpoonup> bytes \<times> u32" where
  "column_spec ref_counted preimage k val M =
     (case (M k, val) of
        (None, None) \<Rightarrow> M
      | (None, Some v) \<Rightarrow> M(k \<mapsto> (v, 1))
      | (Some (u, rc), Some v) \<Rightarrow>
          if ref_counted then M(k \<mapsto> (u, inc_count rc)) else if preimage then M else M(k \<mapsto> (v, 1))
      | (Some (u, rc), None) \<Rightarrow>
          if ref_counted \<and> rc \<noteq> 1 then M(k \<mapsto> (u, if rc = LOCKED_REF then LOCKED_REF else rc - 1))
          else M(k := None))"

lemma write_existing_set:
  assumes inv: "col_inv cd hc (writer_query w) ms E loc M" and cd: "codecs_ok cd"
    and k: "loc k = Some (t, off, i)" "M k = Some (u, rc)" and room: "slots_room hc (length v)"
  shows "\<exists>out hc' w'. write_plan_existing cd hc k (Some v) w (hc_index hc) i (place_address t off) =
       Some (Inr (out, hc', w')) \<and> same_column hc hc' \<and>
     col_rep cd hc' (writer_query w') (column_spec (hc_ref_counted hc) (hc_preimage hc) k (Some v) M)"
proof -
  let ?it = "hc_index hc"
  let ?h = "key_home ?it k"
  note p = col_inv_parts[OF inv]
  have self: "same_column hc (stats_out (hc\<lparr>hc_value := hc_value hc\<rparr>) st)" for st
    by (rule same_column_stats)
  consider "hc_ref_counted hc" | "\<not> hc_ref_counted hc" "hc_preimage hc" | "\<not> hc_ref_counted hc" "\<not> hc_preimage hc"
    by blast
  then show ?thesis
  proof cases
    case 1
    obtain w' st' where r: "set_existing_value cd (Partial k) (as_ref hc) (place_address t off) v w (stats_in hc) =
        Some (Inr ((Some Written, None), hc_value hc, w', st'))"
        "col_rep cd hc (writer_query w') (M(k \<mapsto> (u, inc_count rc)))"
      using set_existing_counted[OF inv k 1] by blast
    then have "write_plan_existing cd hc k (Some v) w ?it i (place_address t off) =
        Some (Inr (Written, stats_out (hc\<lparr>hc_value := hc_value hc\<rparr>) st', w'))"
      by (simp add: write_plan_existing_def write_existing_value_plan_def cret_def)
    moreover have "col_rep cd (stats_out (hc\<lparr>hc_value := hc_value hc\<rparr>) st') (writer_query w')
        (column_spec (hc_ref_counted hc) (hc_preimage hc) k (Some v) M)"
      using col_rep_stats[OF r(2), of st'] 1 k(2) by (simp add: column_spec_def)
    ultimately show ?thesis using self by blast
  next
    case 2
    have "write_plan_existing cd hc k (Some v) w ?it i (place_address t off) =
        Some (Inr (Skipped, stats_out (hc\<lparr>hc_value := hc_value hc\<rparr>) (stats_in hc), w))"
      using 2 by (simp add: write_plan_existing_def write_existing_value_plan_def set_existing_value_def as_ref_def cret_def)
    moreover have "col_rep cd (stats_out (hc\<lparr>hc_value := hc_value hc\<rparr>) (stats_in hc)) (writer_query w)
        (column_spec (hc_ref_counted hc) (hc_preimage hc) k (Some v) M)"
      using col_rep_stats[of cd hc "writer_query w" M "stats_in hc"] inv 2 k(2)
      by (auto simp: column_spec_def col_rep_def)
    ultimately show ?thesis using self by blast
  next
    case 3
    have sp: "column_spec (hc_ref_counted hc) (hc_preimage hc) k (Some v) M = M(k \<mapsto> (v, 1))"
      using 3 k(2) by (simp add: column_spec_def)
    from set_existing_plain[OF inv cd k(1) 3 room, of "stats_in hc"] show ?thesis
    proof (elim disjE exE conjE)
      fix ts w' st'
      assume r: "set_existing_value cd (Partial k) (as_ref hc) (place_address t off) v w (stats_in hc) =
          Some (Inr ((Some Written, None), ts, w', st'))"
        and c: "col_rep cd (hc\<lparr>hc_value := ts\<rparr>) (writer_query w') (M(k \<mapsto> (v, 1)))"
      have "write_plan_existing cd hc k (Some v) w ?it i (place_address t off) =
          Some (Inr (Written, stats_out (hc\<lparr>hc_value := ts\<rparr>) st', w'))"
        using r by (simp add: write_plan_existing_def write_existing_value_plan_def cret_def)
      then show ?thesis using col_rep_stats[OF c] same_column_stats sp by metis
    next
      fix t' off' sv c ts w1 st'
      assume r: "set_existing_value cd (Partial k) (as_ref hc) (place_address t off) v w (stats_in hc) =
          Some (Inr ((None, Some (place_address t' off')), ts, w1, st'))"
        and b: "t' < SIZE_TIERS" "t' \<noteq> t" "off' \<notin> dom (ms t')" "off' \<noteq> 0" "unat off' < 2 ^ 56"
          "index_admits ?it (place_address t' off')"
        and un: "unpack cd (hc_compression hc) (fresh_entry (Partial k) sv c) = Inr v"
        and ts: "tiers_rep ts (writer_query w1) (ms(t := (ms t)(off := None),
            t' := (ms t')(off' \<mapsto> fresh_entry (Partial k) sv c)))" "tier_shape (hc_ref_counted hc) ts"
        and qi: "q_index (writer_query w1) = q_index (writer_query w)"
      let ?ms = "ms(t := (ms t)(off := None))" and ?E = "E(?h := (E ?h)[i := entry_empty])"
      have i: "i < CHUNK_ENTRIES" "length k = 32" by (rule col_inv_key[OF inv k(1)], assumption)+
      obtain w2 where put: "index_write_insert_plan ?it k (place_address t' off') (Some i) w1 = Inr (Written, w2)"
          "q_value (writer_query w2) = q_value (writer_query w1)"
          "index_rep ?it (writer_query w2) (E(?h := (E ?h)[i := key_entry ?it k (place_address t' off')]))"
        using ix.set_law[OF index_rep_values[OF p(4) qi] b(6) i(1) layout_hits_own[OF p(5) k(1)]] by blast
      have E2: "?E(?h := (?E ?h)[i := key_entry ?it k (place_address t' off')]) =
          E(?h := (E ?h)[i := key_entry ?it k (place_address t' off')])" by simp
      have len: "length (E ?h) = CHUNK_ENTRIES" using p(5) by (simp add: layout_def)
      have ts2: "tiers_rep ts (writer_query w2) (?ms(t' := (?ms t')(off' \<mapsto> fresh_entry (Partial k) sv c)))"
        using ts(1) b(2) tiers_rep_cong[of "writer_query w2" "writer_query w1" ts] put(2) by simp
      have "col_rep cd (hc\<lparr>hc_value := ts\<rparr>) (writer_query w2)
          ((M(k := None))(k \<mapsto> (v, sv_rc (fresh_entry (Partial k) sv c))))"
      proof (rule col_inv_add[OF p(1) layout_remove[OF p(5) k(1)] holds_remove[OF p(6,5) k(1)] _ i(2) _ un b(1) _ b(4-6) i(1) _ ts2 ts(2)])
        show "off' \<notin> dom (?ms t')" using b(2,3) by simp
        show "entry_is_empty (?E ?h ! i)" using len i(1) by (simp add: entry_is_empty_def entry_empty_def)
        show "index_rep ?it (writer_query w2) (?E(?h := (?E ?h)[i := key_entry ?it k (place_address t' off')]))"
          unfolding E2 by (rule put(3))
      qed (simp_all add: fresh_entry_def)
      then have "col_rep cd (stats_out (hc\<lparr>hc_value := ts\<rparr>) st') (writer_query w2) (M(k \<mapsto> (v, 1)))"
        by (intro col_rep_stats) (simp add: fresh_entry_def)
      moreover have "write_plan_existing cd hc k (Some v) w ?it i (place_address t off) =
          Some (Inr (Written, stats_out (hc\<lparr>hc_value := ts\<rparr>) st', w2))"
        using r put(1) by (simp add: write_plan_existing_def write_existing_value_plan_def Let_def cret_def)
      ultimately show ?thesis using same_column_stats sp by metis
    qed
  qed
qed

lemma write_existing_delete:
  assumes inv: "col_inv cd hc (writer_query w) ms E loc M" and k: "loc k = Some (t, off, i)" "M k = Some (u, rc)"
  shows "\<exists>out hc' w'. write_plan_existing cd hc k None w (hc_index hc) i (place_address t off) =
       Some (Inr (out, hc', w')) \<and> same_column hc hc' \<and>
     col_rep cd hc' (writer_query w') (column_spec (hc_ref_counted hc) (hc_preimage hc) k None M)"
proof -
  let ?it = "hc_index hc"
  let ?h = "key_home ?it k"
  note p = col_inv_parts[OF inv]
  from delete_existing_rep[OF inv k, of "stats_in hc"] show ?thesis
  proof (elim disjE exE conjE)
    fix ts w' st'
    assume r: "delete_existing_value cd (Partial k) (as_ref hc) (place_address t off) w (stats_in hc) =
        Some (Inr ((Some Written, None), ts, w', st'))" and rc: "hc_ref_counted hc" "rc \<noteq> 1"
      and c: "col_rep cd (hc\<lparr>hc_value := ts\<rparr>) (writer_query w')
        (M(k \<mapsto> (u, if rc = LOCKED_REF then LOCKED_REF else rc - 1)))"
    have "write_plan_existing cd hc k None w ?it i (place_address t off) =
        Some (Inr (Written, stats_out (hc\<lparr>hc_value := ts\<rparr>) st', w'))"
      using r by (simp add: write_plan_existing_def write_existing_value_plan_def cret_def)
    moreover have "col_rep cd (stats_out (hc\<lparr>hc_value := ts\<rparr>) st') (writer_query w')
        (column_spec (hc_ref_counted hc) (hc_preimage hc) k None M)"
      using col_rep_stats[OF c, of st'] rc k(2) by (simp add: column_spec_def)
    ultimately show ?thesis using same_column_stats by metis
  next
    fix ts w1 st'
    assume r: "delete_existing_value cd (Partial k) (as_ref hc) (place_address t off) w (stats_in hc) =
        Some (Inr ((None, Some (place_address t off)), ts, w1, st'))" and rc: "hc_ref_counted hc \<longrightarrow> rc = 1"
      and ts: "tiers_rep ts (writer_query w1) (ms(t := (ms t)(off := None)))" "tier_shape (hc_ref_counted hc) ts"
      and qi: "q_index (writer_query w1) = q_index (writer_query w)"
    have i: "i < CHUNK_ENTRIES" by (rule col_inv_key[OF inv k(1)])
    obtain w2 where del: "index_write_remove_plan ?it k i w1 = Inr (Written, w2)"
        "q_value (writer_query w2) = q_value (writer_query w1)"
        "index_rep ?it (writer_query w2) (E(?h := (E ?h)[i := entry_empty]))"
      using ix.del_law[OF index_rep_values[OF p(4) qi] i layout_hits_own[OF p(5) k(1)]] by blast
    have ts2: "tiers_rep ts (writer_query w2) (ms(t := (ms t)(off := None)))"
      using ts(1) tiers_rep_cong[of "writer_query w2" "writer_query w1" ts] del(2) by simp
    have "col_rep cd (hc\<lparr>hc_value := ts\<rparr>) (writer_query w2) (M(k := None))"
      using col_inv_remove[OF inv k(1) ts2 ts(2) del(3)] by blast
    then have "col_rep cd (stats_out (hc\<lparr>hc_value := ts\<rparr>) st') (writer_query w2)
        (column_spec (hc_ref_counted hc) (hc_preimage hc) k None M)"
      using rc k(2) by (auto simp: column_spec_def intro: col_rep_stats)
    moreover have "write_plan_existing cd hc k None w ?it i (place_address t off) =
        Some (Inr (Skipped, stats_out (hc\<lparr>hc_value := ts\<rparr>) st', w2))"
      using r del(1) by (simp add: write_plan_existing_def write_existing_value_plan_def Let_def cret_def)
    ultimately show ?thesis using same_column_stats by metis
  qed
qed

text \<open>
  The plan for any key and any change returns and implements the specification, provided that the
  slots of the tables can be named by index entries and, for a new key, that its chunk has room.
\<close>

lemma hash_write_plan_rep:
  assumes rep: "col_rep cd hc (writer_query w) M" and cd: "codecs_ok cd" and k: "length k = 32"
    and room: "\<And>v. val = Some v \<Longrightarrow> slots_room hc (length v)"
      "M k = None \<Longrightarrow> val \<noteq> None \<Longrightarrow> home_room hc (writer_query w) k"
  shows "\<exists>out hc' w'. hash_write_plan cd hc k val w = Some (Inr (out, hc', w')) \<and> same_column hc hc' \<and>
     col_rep cd hc' (writer_query w') (column_spec (hc_ref_counted hc) (hc_preimage hc) k val M)"
proof -
  obtain ms E loc where inv: "col_inv cd hc (writer_query w) ms E loc M" using rep unfolding col_rep_def by blast
  note p = col_inv_parts[OF inv] and se = search_all_rep[OF inv k]
  show ?thesis
  proof (cases "loc k")
    case None
    then have M: "M k = None" using p(6) unfolding holds_def by blast
    show ?thesis
    proof (cases val)
      case None
      obtain st where "count_stats hc remove_miss = stats_out hc st"
        by (cases "hc_collect_stats hc")
          (auto simp: count_stats_def stats_out_def intro: that[of "Some (remove_miss (hc_stats hc))"] that[of None])
      moreover have "same_column hc (stats_out hc st)"
        using same_column_stats[of hc "hc_value hc"] by simp
      ultimately show ?thesis
        using se \<open>loc k = None\<close> None M rep by (auto simp: hash_write_plan_def column_spec_def cret_def col_rep_stats)
    next
      case (Some v)
      obtain hc' w' where "write_plan_new cd k v hc w = Some (Inr (Written, hc', w'))" "same_column hc hc'"
          "col_rep cd hc' (writer_query w') (M(k \<mapsto> (v, 1)))"
        using write_plan_new_rep[OF inv cd k \<open>loc k = None\<close> room(1)[OF Some] room(2)[OF M]] Some by blast
      then show ?thesis using se \<open>loc k = None\<close> Some M by (simp add: hash_write_plan_def column_spec_def)
    qed
  next
    case (Some x)
    obtain t off i where l: "loc k = Some (t, off, i)" using Some by (cases x) auto
    obtain u rc where M: "M k = Some (u, rc)" using col_inv_key[OF inv l] by metis
    have "hash_write_plan cd hc k val w =
        write_plan_existing cd hc k val w (hc_index hc) i (place_address t off)"
      using se l by (simp add: hash_write_plan_def)
    then show ?thesis
      using write_existing_set[OF inv cd l M] write_existing_delete[OF inv l M] room(1) by (cases val) auto
  qed
qed

end
