(* ===== verification/BTree_Store.thy ===== *)
theory BTree_Store
  imports BTree_Tree Column_Update
begin

text \<open>
  The value tables of an ordered column as a store from addresses to bytes. The laws are those the
  tree operations rely on: a new value gets an address that was free, a changed value keeps its
  address or moves to a free one, a removed value is gone, and everything else stays. A budget
  bounds what may still be written before a slot number no longer fits into an address. Columns with
  reference counts are left out: in them \<open>write_existing_value_plan\<close> only counts and never rewrites a
  slot.
\<close>

section \<open>The store\<close>

definition view :: "codecs \<Rightarrow> compress \<Rightarrow> (nat \<Rightarrow> u64 \<rightharpoonup> stored) \<Rightarrow> address \<rightharpoonup> bytes" where
  "view cd cp ms a =
     (case ms (unat (address_size_tier a)) (address_offset a) of
        None \<Rightarrow> None
      | Some e \<Rightarrow> (case unpack cd cp e of Inr v \<Rightarrow> Some v | Inl _ \<Rightarrow> None))"

definition plain_entry :: "codecs \<Rightarrow> compress \<Rightarrow> u64 \<Rightarrow> stored \<Rightarrow> bool" where
  "plain_entry cd cp off e \<longleftrightarrow> sv_key e = NoHash \<and> off \<noteq> 0 \<and> unat off < 2 ^ 56 \<and> (\<exists>v. unpack cd cp e = Inr v)"

definition store_inv :: "codecs \<Rightarrow> tables_ref \<Rightarrow> log_query \<Rightarrow> nat \<Rightarrow> (nat \<Rightarrow> u64 \<rightharpoonup> stored) \<Rightarrow> bool" where
  "store_inv cd tb q B ms \<longleftrightarrow> \<not> tr_ref_counted tb \<and> \<not> tr_preimage tb \<and> tier_shape False (tr_tables tb) \<and>
     tiers_rep (tr_tables tb) q ms \<and> (\<forall>t\<in>set (tr_tables tb). unat (vt_filled t) + B < 2 ^ 56) \<and>
     (\<forall>i off e. i < SIZE_TIERS \<longrightarrow> ms i off = Some e \<longrightarrow> plain_entry cd (tr_compression tb) off e)"

definition store_rep :: "codecs \<Rightarrow> tables_ref \<Rightarrow> log_query \<Rightarrow> nat \<Rightarrow> (address \<rightharpoonup> bytes) \<Rightarrow> bool" where
  "store_rep cd tb q B \<sigma> \<longleftrightarrow> (\<exists>ms. store_inv cd tb q B ms \<and> \<sigma> = view cd (tr_compression tb) ms)"

lemma store_less: "store_rep cd tb q B \<sigma> \<Longrightarrow> C \<le> B \<Longrightarrow> store_rep cd tb q C \<sigma>"
proof -
  assume s: "store_rep cd tb q B \<sigma>" "C \<le> B"
  have "unat (vt_filled t) + C < 2 ^ 56" if "unat (vt_filled t) + B < 2 ^ 56" for t :: value_table
    using that s(2) by linarith
  then have "store_inv cd tb q B ms \<Longrightarrow> store_inv cd tb q C ms" for ms by (simp add: store_inv_def)
  then show ?thesis using s(1) unfolding store_rep_def by blast
qed

lemma address_place: "a = place_address (unat (address_size_tier a)) (address_offset a)"
proof (cases a)
  case (Address w)
  have m: "shl64 1 8 - 1 = (mask 8 :: u64)" by (simp add: shl64_def mask_eq_exp_minus_1)
  have "bit (shl64 (shr64 w 8) 8 OR ucast (ucast (w AND mask 8) :: u8)) i = bit w i" if "i < 64" for i
    using that by (cases "i < 8") (auto simp: shl64_def shr64_def bit_or_iff bit_push_bit_iff bit_drop_bit_eq bit_ucast_iff bit_and_iff bit_mask_iff)
  then have "shl64 (shr64 w 8) 8 OR ucast (ucast (w AND mask 8) :: u8) = w" by (intro bit_word_eqI) auto
  then show ?thesis
    by (simp add: Address place_address_def address_new_def address_size_tier_def address_offset_def SIZE_TIERS_BITS_def m)
qed

lemma address_tier_bound: "unat (address_size_tier a) < SIZE_TIERS"
  using unsigned_less[of "address_size_tier a", where 'a = nat] by (simp add: SIZE_TIERS_def)

lemma address_place_iff:
  assumes "i < SIZE_TIERS" and "unat off < 2 ^ 56"
  shows "unat (address_size_tier a) = i \<and> address_offset a = off \<longleftrightarrow> a = place_address i off"
  using place_address_inverse[OF assms] address_place[of a] by auto

lemma view_put:
  assumes "i < SIZE_TIERS" and "unat off < 2 ^ 56" and "unpack cd cp e = Inr v"
  shows "view cd cp (ms(i := (ms i)(off \<mapsto> e))) = (view cd cp ms)(place_address i off \<mapsto> v)"
  using address_place_iff[OF assms(1,2)] assms(3) by (auto simp: view_def fun_eq_iff)

lemma view_remove:
  assumes "i < SIZE_TIERS" and "unat off < 2 ^ 56"
  shows "view cd cp (ms(i := (ms i)(off := None))) = (view cd cp ms)(place_address i off := None)"
  using address_place_iff[OF assms] by (auto simp: view_def fun_eq_iff)

lemma store_inv_parts:
  assumes "store_inv cd tb q B ms"
  shows "tier_shape False (tr_tables tb)" and "tiers_rep (tr_tables tb) q ms" and "length (tr_tables tb) = SIZE_TIERS"
    and "\<forall>t\<in>set (tr_tables tb). wf_table t" and "tr_tables tb \<noteq> []" and "vt_multipart (last (tr_tables tb))"
    and "\<And>t. t \<in> set (tr_tables tb) \<Longrightarrow> unat (vt_filled t) + B < 2 ^ 56"
    and "\<And>i off e. i < SIZE_TIERS \<Longrightarrow> ms i off = Some e \<Longrightarrow> plain_entry cd (tr_compression tb) off e"
proof -
  show sh: "tier_shape False (tr_tables tb)" and ts: "tiers_rep (tr_tables tb) q ms"
    and "\<And>t. t \<in> set (tr_tables tb) \<Longrightarrow> unat (vt_filled t) + B < 2 ^ 56"
    and "\<And>i off e. i < SIZE_TIERS \<Longrightarrow> ms i off = Some e \<Longrightarrow> plain_entry cd (tr_compression tb) off e"
    using assms by (auto simp: store_inv_def)
  show l: "length (tr_tables tb) = SIZE_TIERS" using sh by (simp add: tier_shape_def)
  show "\<forall>t\<in>set (tr_tables tb). wf_table t"
    using ts by (auto simp: tiers_rep_def in_set_conv_nth represents_def)
  show ne: "tr_tables tb \<noteq> []" using l by (auto simp: SIZE_TIERS_def)
  show "vt_multipart (last (tr_tables tb))"
    using sh l ne by (simp add: tier_shape_def last_conv_nth SIZE_TIERS_def)
qed

text \<open>Replacing one table by what an operation on it leaves.\<close>

lemma store_inv_update:
  assumes inv: "store_inv cd tb q B ms" and i: "i < SIZE_TIERS" and t': "same_table (tr_tables tb ! i) t'"
    and ts: "tiers_rep ((tr_tables tb)[i := t']) q' ms'" and f: "unat (vt_filled t') + C < 2 ^ 56" and C: "C \<le> B"
    and e: "\<And>j off e. j < SIZE_TIERS \<Longrightarrow> ms' j off = Some e \<Longrightarrow> plain_entry cd (tr_compression tb) off e"
  shows "store_inv cd (with_tables tb ((tr_tables tb)[i := t'])) q' C ms'"
proof -
  note p = store_inv_parts[OF inv]
  have "unat (vt_filled t) + C < 2 ^ 56" if "t \<in> set ((tr_tables tb)[i := t'])" for t
  proof (cases "t = t'")
    case False
    then have "t \<in> set (tr_tables tb)" using that set_update_subset_insert[of "tr_tables tb" i t'] by auto
    from p(7)[OF this] show ?thesis using C by linarith
  qed (use f in simp)
  then show ?thesis
    using inv ts e tier_shape_update[OF p(1) _ t'] i p(3) by (simp add: store_inv_def with_tables_def)
qed

section \<open>Reading\<close>

lemma query_plain_stores:
  assumes wf: "wf_table t" and S: "stores t q True c (i # js) (entry_head t rc NoHash @ V)"
  shows "query t (Fetch None) i q =
     Some (Inr (if 0 < eff_rc t rc then Some (V, c, eff_rc t rc) else None, Fetch None))"
proof -
  have k: "wf_key NoHash" by (simp add: wf_key_def)
  have pk: "part_key t 0 1 (Fetch None) buf = Inr (Some (if vt_ref_counted t then rc else 1, Fetch None,
      buf\<lparr>eoff := eoff buf + length (entry_head t rc NoHash)\<rparr>))" if "at_bytes buf (entry_head t rc NoHash @ X)" for buf X
    using length_entry_head[OF k, of t rc] read_rc(1)[OF that]
    by (simp add: part_key_def key_encoded_size_def)
  have "for_parts t (Fetch None) i q (\<lambda>buf result. (True, result @ buf)) [] =
      Some (Inr ((eff_rc t rc, c), Fetch None,
        concat (drop_head (length (entry_head t rc NoHash)) (cut (es t - 10) (i # js) (entry_head t rc NoHash @ V)))))"
    unfolding for_parts_def
    by (subst for_parts_stores[OF wf S entry_head_bound[OF k]]) (auto simp: pk eff_rc_def fold_append_concat)
  then show ?thesis
    using concat_drop_head[OF wf S entry_head_bound[OF k]] by (simp add: query_def cret_def)
qed

lemma store_reads:
  assumes "store_rep cd tb q B \<sigma>"
  shows "reads cd tb q \<sigma>"
  unfolding reads_def
proof (intro allI impI)
  fix a b assume a: "\<sigma> a = Some b"
  obtain ms where inv: "store_inv cd tb q B ms" and v: "\<sigma> = view cd (tr_compression tb) ms"
    using assms unfolding store_rep_def by blast
  note p = store_inv_parts[OF inv]
  let ?i = "unat (address_size_tier a)" and ?off = "address_offset a"
  have i: "?i < SIZE_TIERS" by (rule address_tier_bound)
  obtain e where e: "ms ?i ?off = Some e" "unpack cd (tr_compression tb) e = Inr b"
    using a v by (auto simp: view_def split: option.splits sum.splits)
  have k: "sv_key e = NoHash" using p(8)[OF i e(1)] by (simp add: plain_entry_def)
  have rp: "represents (tr_tables tb ! ?i) q (ms ?i)" using tier_represents[OF p(2)] p(3) i by simp
  have nt: "nth_table (tr_tables tb) ?i = Inr (tr_tables tb ! ?i)" using p(3) i by (simp add: nth_table_ok)
  have "query (tr_tables tb ! ?i) (Check NoHash) ?off q = Some (Inr (Some (sv_value e, sv_compressed e,
      eff_rc (tr_tables tb ! ?i) (sv_rc e)), Check NoHash))"
    using query_represents[OF rp e(1), of NoHash] k by (simp add: wf_key_def)
  then have 1: "get_value cd (Check NoHash) a tb q = cret (Some (address_size_tier a, b))"
    using nt e(2) by (simp add: get_value_def unpack_def split: if_splits)
  obtain js where "wf_table (tr_tables tb ! ?i)" "0 < eff_rc (tr_tables tb ! ?i) (sv_rc e)"
      "stores (tr_tables tb ! ?i) q True (sv_compressed e) (?off # js) (entry_head (tr_tables tb ! ?i) (sv_rc e) NoHash @ sv_value e)"
    using represents_chain[OF rp e(1)] k by metis
  from query_plain_stores[OF this(1,3)] this(2)
  have 2: "get_value cd (Fetch None) a tb q = cret (Some (address_size_tier a, b))"
    using nt e(2) by (simp add: get_value_def unpack_def split: if_splits)
  show "get_encoded_entry cd a tb q = cret b \<and> (\<exists>tier. get_value cd (Fetch None) a tb q = cret (Some (tier, b)))"
    using 1 2 by (auto simp: get_encoded_entry_def cret_def)
qed

section \<open>Writing\<close>

text \<open>Values are stored with the compression of the column, nodes without one.\<close>

abbreviation may_store :: "tables_ref \<Rightarrow> compress \<Rightarrow> bool" where
  "may_store tb cp \<equiv> cp = tr_compression tb \<or> cp = NO_COMPRESSION"

lemma no_compression_form:
  assumes "column_compress cd NO_COMPRESSION key v ts = (cval, t)"
  shows "cval = None"
  using assms by (auto simp: column_compress_def NO_COMPRESSION_def compress_bytes_def Let_def split: if_splits)

lemma stored_value:
  assumes inv: "store_inv cd tb q B ms" and cd: "codecs_ok cd" and cp: "may_store tb cp"
    and r: "column_compress cd cp NoHash v (tr_tables tb) = (cval, t)" and s: "stored_form cval v = (sv, c)"
  shows "t < SIZE_TIERS" and "fits (tr_tables tb ! t) NoHash sv" and "length sv \<le> length v"
    and "unpack cd (tr_compression tb) (fresh_entry NoHash sv c) = Inr v"
proof -
  note p = store_inv_parts[OF inv]
  note sp = column_compress_spec[OF cd p(4-6) r s]
  show "t < SIZE_TIERS" "fits (tr_tables tb ! t) NoHash sv" "length sv \<le> length v" using sp p(3) by auto
  have "cp = NO_COMPRESSION \<Longrightarrow> \<not> c" using no_compression_form r s by (fastforce simp: stored_form_def)
  then show "unpack cd (tr_compression tb) (fresh_entry NoHash sv c) = Inr v"
    using sp(4) cp by (auto simp: unpack_def fresh_entry_def split: if_splits)
qed

lemma wf_key_NoHash [simp]: "wf_key NoHash"
  by (simp add: wf_key_def)

text \<open>A header is always in the table of the smallest entries.\<close>

lemma header_tier:
  assumes inv: "store_inv cd tb q B ms" and cd: "codecs_ok cd"
    and r: "column_compress cd cp NoHash v (tr_tables tb) = (cval, t)" and v: "length v \<le> BTREE_HEADER_SIZE"
  shows "t = 0"
proof (rule ccontr)
  assume "t \<noteq> 0"
  note p = store_inv_parts[OF inv]
  obtain sv c where sf: "stored_form cval v = (sv, c)" by force
  note sp = column_compress_spec[OF cd p(4-6) r sf]
  have "0 < length (tr_tables tb)" using p(5) by simp
  then have "32 \<le> es (tr_tables tb ! 0)" using p(4) wf_table_bounds(1) nth_mem by blast
  moreover have "\<not> vt_ref_counted (tr_tables tb ! 0)" using p(1) by (simp add: tier_shape_def SIZE_TIERS_def)
  ultimately show False using sp(3) sp(5)[of 0] v \<open>t \<noteq> 0\<close>
    by (simp add: ref_size_def key_encoded_size_def BTREE_HEADER_SIZE_def)
qed

lemma insert_store:
  assumes inv: "store_inv cd tb (writer_query w) (B + length v + 31) ms" and t: "t < SIZE_TIERS"
    and f: "fits (tr_tables tb ! t) NoHash sv" and sv: "length sv \<le> length v"
    and u: "unpack cd (tr_compression tb) (fresh_entry NoHash sv c) = Inr v"
  shows "\<exists>off t' w'. table_write_insert_plan (tr_tables tb ! t) NoHash sv w c = Some (Inr (off, t', w')) \<and>
     ms t off = None \<and> unat off < 2 ^ 56 \<and> off \<noteq> 0 \<and>
     store_inv cd (with_tables tb ((tr_tables tb)[t := t'])) (writer_query w') B (ms(t := (ms t)(off \<mapsto> fresh_entry NoHash sv c)))"
proof -
  note p = store_inv_parts[OF inv]
  have tl: "t < length (tr_tables tb)" using t p(3) by simp
  have fl: "unat (vt_filled (tr_tables tb ! t)) + (B + length v + 31) < 2 ^ 56" using p(7) nth_mem[OF tl] by blast
  then have rm: "room (tr_tables tb ! t) sv" using sv by (simp add: room_def)
  obtain off t' w' where ins: "table_write_insert_plan (tr_tables tb ! t) NoHash sv w c = Some (Inr (off, t', w'))" "off \<noteq> 0"
      "off \<notin> dom (ms t)" "off \<le> vt_filled (tr_tables tb ! t)" "same_table (tr_tables tb ! t) t'" "only_slots (tr_tables tb ! t) w w' UNIV"
      "unat (vt_filled t') \<le> unat (vt_filled (tr_tables tb ! t)) + length sv + 31"
      "represents t' (writer_query w') ((ms t)(off \<mapsto> fresh_entry NoHash sv c))"
    using insert_represents_bound[OF tier_represents[OF p(2) tl] wf_key_NoHash f rm, of c] unfolding fresh_entry_def by blast
  have o: "unat off < 2 ^ 56" using ins(4) fl by (simp add: word_le_nat_alt)
  have "store_inv cd (with_tables tb ((tr_tables tb)[t := t'])) (writer_query w') B (ms(t := (ms t)(off \<mapsto> fresh_entry NoHash sv c)))"
  proof (rule store_inv_update[OF inv t ins(5) tiers_frame[OF p(2) tl ins(5,6,8)]])
    show "unat (vt_filled t') + B < 2 ^ 56" using ins(7) fl sv by linarith
    show "plain_entry cd (tr_compression tb) off' e"
      if "j < SIZE_TIERS" "(ms(t := (ms t)(off \<mapsto> fresh_entry NoHash sv c))) j off' = Some e" for j off' e
      using that p(8)[OF that(1)] o ins(2) u by (auto simp: plain_entry_def fresh_entry_def split: if_splits)
  qed simp
  moreover have "ms t off = None" using ins(3) by (simp add: domIff)
  ultimately show ?thesis using ins(1,2) o by blast
qed

lemma replace_store:
  assumes inv: "store_inv cd tb (writer_query w) (B + length v + 31) ms" and t: "t < SIZE_TIERS"
    and f: "fits (tr_tables tb ! t) NoHash sv" and sv: "length sv \<le> length v" and off: "off \<in> dom (ms t)"
    and u: "unpack cd (tr_compression tb) (fresh_entry NoHash sv c) = Inr v"
  shows "\<exists>t' w'. table_write_replace_plan (tr_tables tb ! t) off NoHash sv w c = Some (Inr (t', w')) \<and>
     store_inv cd (with_tables tb ((tr_tables tb)[t := t'])) (writer_query w') B (ms(t := (ms t)(off \<mapsto> fresh_entry NoHash sv c)))"
proof -
  note p = store_inv_parts[OF inv]
  have tl: "t < length (tr_tables tb)" using t p(3) by simp
  have fl: "unat (vt_filled (tr_tables tb ! t)) + (B + length v + 31) < 2 ^ 56" using p(7) nth_mem[OF tl] by blast
  then have rm: "room (tr_tables tb ! t) sv" using sv by (simp add: room_def)
  obtain t' w' where r: "table_write_replace_plan (tr_tables tb ! t) off NoHash sv w c = Some (Inr (t', w'))"
      "same_table (tr_tables tb ! t) t'" "only_slots (tr_tables tb ! t) w w' UNIV"
      "unat (vt_filled t') \<le> unat (vt_filled (tr_tables tb ! t)) + length sv + 31"
      "represents t' (writer_query w') ((ms t)(off \<mapsto> fresh_entry NoHash sv c))"
    using replace_represents_bound[OF tier_represents[OF p(2) tl] wf_key_NoHash f rm off, of c] unfolding fresh_entry_def by blast
  have "store_inv cd (with_tables tb ((tr_tables tb)[t := t'])) (writer_query w') B (ms(t := (ms t)(off \<mapsto> fresh_entry NoHash sv c)))"
  proof (rule store_inv_update[OF inv t r(2) tiers_frame[OF p(2) tl r(2,3,5)]])
    show "unat (vt_filled t') + B < 2 ^ 56" using r(4) fl sv by linarith
    show "plain_entry cd (tr_compression tb) off' e"
      if "j < SIZE_TIERS" "(ms(t := (ms t)(off \<mapsto> fresh_entry NoHash sv c))) j off' = Some e" for j off' e
      using that p(8)[OF that(1)] off p(8)[OF t] u by (auto simp: plain_entry_def fresh_entry_def split: if_splits)
  qed simp
  then show ?thesis using r(1) by blast
qed

lemma remove_store:
  assumes inv: "store_inv cd tb (writer_query w) B ms" and t: "t < SIZE_TIERS" and off: "off \<in> dom (ms t)"
  shows "\<exists>t' w'. table_write_remove_plan (tr_tables tb ! t) off w = Some (Inr (t', w')) \<and>
     store_inv cd (with_tables tb ((tr_tables tb)[t := t'])) (writer_query w') B (ms(t := (ms t)(off := None)))"
proof -
  note p = store_inv_parts[OF inv]
  have tl: "t < length (tr_tables tb)" using t p(3) by simp
  obtain t' w' where r: "table_write_remove_plan (tr_tables tb ! t) off w = Some (Inr (t', w'))"
      "same_table (tr_tables tb ! t) t'" "only_slots (tr_tables tb ! t) w w' UNIV" "vt_filled t' = vt_filled (tr_tables tb ! t)"
      "represents t' (writer_query w') ((ms t)(off := None))"
    using remove_represents_bound[OF tier_represents[OF p(2) tl] off] by blast
  have "store_inv cd (with_tables tb ((tr_tables tb)[t := t'])) (writer_query w') B (ms(t := (ms t)(off := None)))"
  proof (rule store_inv_update[OF inv t r(2) tiers_frame[OF p(2) tl r(2,3,5)]])
    show "unat (vt_filled t') + B < 2 ^ 56" using p(7) nth_mem[OF tl] r(4) by simp
    show "plain_entry cd (tr_compression tb) off' e"
      if "j < SIZE_TIERS" "(ms(t := (ms t)(off := None))) j off' = Some e" for j off' e
      using that p(8)[OF that(1)] by (auto split: if_splits)
  qed simp
  then show ?thesis using r(1) by blast
qed

lemma with_tables_simps [simp]:
  "tr_tables (with_tables tb ts) = ts" "tr_compression (with_tables tb ts) = tr_compression tb"
  "with_tables (with_tables tb ts) us = with_tables tb us"
  "with_tables (tb\<lparr>tr_compression := cp\<rparr>) ts = (with_tables tb ts)\<lparr>tr_compression := cp\<rparr>"
  by (simp_all add: with_tables_def)

lemma place_not_null: "unat off < 2 ^ 56 \<Longrightarrow> off \<noteq> 0 \<Longrightarrow> place_address t off \<noteq> NULL_ADDRESS"
  using place_address_nonzero null_address_iff by metis

lemma view_free:
  assumes "ms t off = None" and "t < SIZE_TIERS" and "unat off < 2 ^ 56"
  shows "view cd cp ms (place_address t off) = None"
  using place_address_inverse[OF assms(2,3)] assms(1) by (simp add: view_def)

text \<open>A new value.\<close>

lemma new_plan_store:
  assumes st: "store_rep cd tb (writer_query w) (B + length v + 31) \<sigma>" and cd: "codecs_ok cd" and cp: "may_store tb cp"
  shows "\<exists>a ts w'. new_plan cd v (tb\<lparr>tr_compression := cp\<rparr>, w) = cret (a, (with_tables tb ts)\<lparr>tr_compression := cp\<rparr>, w') \<and>
     \<sigma> a = None \<and> a \<noteq> NULL_ADDRESS \<and> store_rep cd (with_tables tb ts) (writer_query w') B (\<sigma>(a \<mapsto> v))"
proof -
  obtain ms where inv: "store_inv cd tb (writer_query w) (B + length v + 31) ms" and \<sigma>: "\<sigma> = view cd (tr_compression tb) ms"
    using st unfolding store_rep_def by blast
  note p = store_inv_parts[OF inv]
  obtain cval t where cc: "column_compress cd cp NoHash v (tr_tables tb) = (cval, t)" by force
  obtain sv c where sf: "stored_form cval v = (sv, c)" by force
  note sp = stored_value[OF inv cd cp cc sf]
  obtain off t' w' where ins: "table_write_insert_plan (tr_tables tb ! t) NoHash sv w c = Some (Inr (off, t', w'))"
      "ms t off = None" "unat off < 2 ^ 56" "off \<noteq> 0"
      "store_inv cd (with_tables tb ((tr_tables tb)[t := t'])) (writer_query w') B (ms(t := (ms t)(off \<mapsto> fresh_entry NoHash sv c)))"
    using insert_store[OF inv sp] by blast
  let ?a = "place_address t off" and ?ts = "(tr_tables tb)[t := t']"
  have "new_plan cd v (tb\<lparr>tr_compression := cp\<rparr>, w) = cret (?a, (with_tables tb ?ts)\<lparr>tr_compression := cp\<rparr>, w')"
    using cc sf ins(1) sp(1) p(3)
    by (simp add: new_plan_def write_new_value_plan_def nth_table_ok place_address_def cret_def)
  moreover have "store_rep cd (with_tables tb ?ts) (writer_query w') B (\<sigma>(?a \<mapsto> v))"
    unfolding store_rep_def using ins(5) view_put[OF sp(1) ins(3) sp(4)] \<sigma> by auto
  ultimately show ?thesis
    using view_free[of ms t off] ins(2,3) sp(1) place_not_null[OF ins(3,4)] \<sigma> by blast
qed

text \<open>The place of a value that is stored.\<close>

lemma store_entry:
  assumes "view cd (tr_compression tb) ms a = Some b" and "store_inv cd tb q B ms"
  shows "address_offset a \<in> dom (ms (unat (address_size_tier a)))" and "unat (address_size_tier a) < SIZE_TIERS"
    and "unat (address_offset a) < 2 ^ 56" and "address_offset a \<noteq> 0"
    and "place_address (unat (address_size_tier a)) (address_offset a) = a" and "a \<noteq> NULL_ADDRESS"
proof -
  obtain e where e: "ms (unat (address_size_tier a)) (address_offset a) = Some e"
    using assms(1) by (auto simp: view_def split: option.splits)
  show t: "unat (address_size_tier a) < SIZE_TIERS" by (rule address_tier_bound)
  show "address_offset a \<in> dom (ms (unat (address_size_tier a)))" using e by blast
  show o: "unat (address_offset a) < 2 ^ 56" "address_offset a \<noteq> 0" using store_inv_parts(8)[OF assms(2) t e] by (auto simp: plain_entry_def)
  show "place_address (unat (address_size_tier a)) (address_offset a) = a" by (rule address_place[symmetric])
  then show "a \<noteq> NULL_ADDRESS" using place_not_null[OF o] by metis
qed

lemma existing_plan_set_store:
  assumes st: "store_rep cd tb (writer_query w) (B + length v + 31) \<sigma>" and cd: "codecs_ok cd" and cp: "may_store tb cp"
    and a: "\<sigma> a = Some old"
  shows "\<exists>r a' ts w'. existing_plan cd a (Some v) (tb\<lparr>tr_compression := cp\<rparr>, w) =
       cret (r, (with_tables tb ts)\<lparr>tr_compression := cp\<rparr>, w') \<and> a' = (case r of Some x \<Rightarrow> x | None \<Rightarrow> a) \<and>
     (a' = a \<or> \<sigma> a' = None) \<and> a' \<noteq> NULL_ADDRESS \<and> store_rep cd (with_tables tb ts) (writer_query w') B (\<sigma>(a := None, a' \<mapsto> v)) \<and>
     (unat (address_size_tier a) = 0 \<longrightarrow> length v \<le> BTREE_HEADER_SIZE \<longrightarrow> a' = a)"
proof -
  obtain ms where inv: "store_inv cd tb (writer_query w) (B + length v + 31) ms" and \<sigma>: "\<sigma> = view cd (tr_compression tb) ms"
    using st unfolding store_rep_def by blast
  note p = store_inv_parts[OF inv]
  let ?t = "unat (address_size_tier a)" and ?off = "address_offset a"
  have v: "view cd (tr_compression tb) ms a = Some old" using a \<sigma> by simp
  note e = store_entry[OF v inv]
  obtain cval t' where cc: "column_compress cd cp NoHash v (tr_tables tb) = (cval, t')" by force
  obtain sv c where sf: "stored_form cval v = (sv, c)" by force
  note sp = stored_value[OF inv cd cp cc sf]
  have flags: "\<not> tr_ref_counted tb" "\<not> tr_preimage tb" using inv by (auto simp: store_inv_def)
  note unf = existing_plan_def write_existing_value_plan_def set_existing_value_def Let_def replace_stats_def
  show ?thesis
  proof (cases "?t = t'")
    case True
    obtain tt w' where r: "table_write_replace_plan (tr_tables tb ! t') ?off NoHash sv w c = Some (Inr (tt, w'))"
        "store_inv cd (with_tables tb ((tr_tables tb)[t' := tt])) (writer_query w') B (ms(t' := (ms t')(?off \<mapsto> fresh_entry NoHash sv c)))"
      using replace_store[OF inv sp(1-3) _ sp(4), of ?off] e(1) True by blast
    have "existing_plan cd a (Some v) (tb\<lparr>tr_compression := cp\<rparr>, w) =
        cret (None, (with_tables tb ((tr_tables tb)[t' := tt]))\<lparr>tr_compression := cp\<rparr>, w')"
      using cc sf r(1) True flags sp(1) p(3) by (simp add: unf nth_table_ok cret_def)
    moreover have "\<sigma>(a := None, a \<mapsto> v) = view cd (tr_compression tb) (ms(t' := (ms t')(?off \<mapsto> fresh_entry NoHash sv c)))"
      using view_put[OF sp(1) e(3) sp(4), of ms] e(5) True \<sigma> by simp
    then have "store_rep cd (with_tables tb ((tr_tables tb)[t' := tt])) (writer_query w') B (\<sigma>(a := None, a \<mapsto> v))"
      unfolding store_rep_def using r(2) by auto
    ultimately show ?thesis using e(6) by (intro exI[of _ None] exI[of _ a]) auto
  next
    case False
    obtain tt w1 where r: "table_write_remove_plan (tr_tables tb ! ?t) ?off w = Some (Inr (tt, w1))"
        "store_inv cd (with_tables tb ((tr_tables tb)[?t := tt])) (writer_query w1) (B + length v + 31) (ms(?t := (ms ?t)(?off := None)))"
      using remove_store[OF inv e(2,1)] by blast
    let ?tb = "with_tables tb ((tr_tables tb)[?t := tt])" and ?ms = "ms(?t := (ms ?t)(?off := None))"
    have n: "tr_tables ?tb ! t' = tr_tables tb ! t'" using False by simp
    have f2: "fits (tr_tables ?tb ! t') NoHash sv" and u2: "unpack cd (tr_compression ?tb) (fresh_entry NoHash sv c) = Inr v"
      using sp(2,4) n by simp_all
    obtain off' tt' w2 where ins: "table_write_insert_plan (tr_tables tb ! t') NoHash sv w1 c = Some (Inr (off', tt', w2))"
        "?ms t' off' = None" "unat off' < 2 ^ 56" "off' \<noteq> 0"
        "store_inv cd (with_tables ?tb ((tr_tables ?tb)[t' := tt'])) (writer_query w2) B (?ms(t' := (?ms t')(off' \<mapsto> fresh_entry NoHash sv c)))"
      using insert_store[OF r(2) sp(1) f2 sp(3) u2, unfolded n] by blast
    let ?a = "place_address t' off'" and ?ts = "(tr_tables tb)[?t := tt, t' := tt']"
    have "move_value NoHash (tr_tables tb) ?t ?off t' sv c w = Some (Inr (?a, ?ts, w2))"
      using r(1) ins(1) False e(2) sp(1) p(3) by (simp add: move_value_def nth_table_ok cret_def place_address_def)
    then have ep: "existing_plan cd a (Some v) (tb\<lparr>tr_compression := cp\<rparr>, w) =
        cret (Some ?a, (with_tables tb ?ts)\<lparr>tr_compression := cp\<rparr>, w2)"
      using cc sf False flags by (simp add: unf cret_def)
    have "\<sigma>(a := None) = view cd (tr_compression tb) ?ms" using view_remove[OF e(2,3), of cd "tr_compression tb" ms] e(5) \<sigma> by simp
    then have "\<sigma>(a := None, ?a \<mapsto> v) = view cd (tr_compression tb) (?ms(t' := (?ms t')(off' \<mapsto> fresh_entry NoHash sv c)))"
      using view_put[OF sp(1) ins(3) sp(4), of ?ms] by simp
    then have "store_rep cd (with_tables tb ?ts) (writer_query w2) B (\<sigma>(a := None, ?a \<mapsto> v))"
      unfolding store_rep_def using ins(5) by auto
    moreover have "\<sigma> ?a = None" using view_free[of ms t' off'] ins(2,3) sp(1) False \<sigma> by simp
    moreover have "\<not> (?t = 0 \<and> length v \<le> BTREE_HEADER_SIZE)" using header_tier[OF inv cd cc] False by auto
    ultimately show ?thesis
      using ep place_not_null[OF ins(3,4)] by (intro exI[of _ "Some ?a"] exI[of _ ?a] exI[of _ ?ts] exI[of _ w2]) auto
  qed
qed

lemma existing_plan_remove_store:
  assumes st: "store_rep cd tb (writer_query w) B \<sigma>" and a: "\<sigma> a = Some old"
  shows "\<exists>r ts w'. existing_plan cd a None (tb, w) = cret (r, with_tables tb ts, w') \<and>
     store_rep cd (with_tables tb ts) (writer_query w') B (\<sigma>(a := None))"
proof -
  obtain ms where inv: "store_inv cd tb (writer_query w) B ms" and \<sigma>: "\<sigma> = view cd (tr_compression tb) ms"
    using st unfolding store_rep_def by blast
  note p = store_inv_parts[OF inv]
  let ?t = "unat (address_size_tier a)" and ?off = "address_offset a"
  have v: "view cd (tr_compression tb) ms a = Some old" using a \<sigma> by simp
  note e = store_entry[OF v inv]
  have flags: "\<not> tr_ref_counted tb" using inv by (auto simp: store_inv_def)
  obtain tt w1 where r: "table_write_remove_plan (tr_tables tb ! ?t) ?off w = Some (Inr (tt, w1))"
      "store_inv cd (with_tables tb ((tr_tables tb)[?t := tt])) (writer_query w1) B (ms(?t := (ms ?t)(?off := None)))"
    using remove_store[OF inv e(2,1)] by blast
  have "existing_plan cd a None (tb, w) = cret (Some a, with_tables tb ((tr_tables tb)[?t := tt]), w1)"
    using r(1) flags e(2) p(3)
    by (simp add: existing_plan_def write_existing_value_plan_def delete_existing_value_def Let_def nth_table_ok cret_def)
  moreover have "\<sigma>(a := None) = view cd (tr_compression tb) (ms(?t := (ms ?t)(?off := None)))"
    using view_remove[OF e(2,3), of cd "tr_compression tb" ms] e(5) \<sigma> by simp
  ultimately show ?thesis unfolding store_rep_def using r(2) by auto
qed

section \<open>The interface of the store\<close>

text \<open>
  What the tree operations use of the value tables: \<open>store s m \<sigma>\<close> says that the tables and the
  record in \<open>s\<close> hold \<open>\<sigma>\<close> and that \<open>m\<close> more nodes or values may be written. Nodes have keys of at
  most \<open>K\<close> bytes and values at most \<open>V\<close> bytes.
\<close>

definition node_limit :: "nat \<Rightarrow> nat" where
  "node_limit K = 8 + ORDER * (21 + K)"

locale node_store =
  fixes cd :: codecs and K :: nat and V :: nat and store :: "bstate \<Rightarrow> nat \<Rightarrow> (address \<rightharpoonup> bytes) \<Rightarrow> bool"
  assumes store_weaken: "store s m \<sigma> \<Longrightarrow> k \<le> m \<Longrightarrow> store s k \<sigma>"
    and store_read: "store s m \<sigma> \<Longrightarrow> reads cd (fst s) (writer_query (snd s)) \<sigma>"
    and new_node: "store s (Suc m) \<sigma> \<Longrightarrow> length b \<le> node_limit K \<Longrightarrow>
      \<exists>a s'. uncompressed (new_plan cd b) s = cret (a, s') \<and> \<sigma> a = None \<and> a \<noteq> NULL_ADDRESS \<and> store s' m (\<sigma>(a \<mapsto> b))"
    and set_node: "store s (Suc m) \<sigma> \<Longrightarrow> \<sigma> a = Some old \<Longrightarrow> length b \<le> node_limit K \<Longrightarrow>
      \<exists>r a' s'. uncompressed (existing_plan cd a (Some b)) s = cret (r, s') \<and> a' = (case r of Some x \<Rightarrow> x | None \<Rightarrow> a) \<and>
        (a' = a \<or> \<sigma> a' = None) \<and> a' \<noteq> NULL_ADDRESS \<and> store s' m (\<sigma>(a := None, a' \<mapsto> b))"
    and new_value: "store s (Suc m) \<sigma> \<Longrightarrow> length v \<le> V \<Longrightarrow>
      \<exists>a s'. new_plan cd v s = cret (a, s') \<and> \<sigma> a = None \<and> a \<noteq> NULL_ADDRESS \<and> store s' m (\<sigma>(a \<mapsto> v))"
    and set_value: "store s (Suc m) \<sigma> \<Longrightarrow> \<sigma> a = Some old \<Longrightarrow> length v \<le> V \<Longrightarrow>
      \<exists>r a' s'. existing_plan cd a (Some v) s = cret (r, s') \<and> a' = (case r of Some x \<Rightarrow> x | None \<Rightarrow> a) \<and>
        (a' = a \<or> \<sigma> a' = None) \<and> a' \<noteq> NULL_ADDRESS \<and> store s' m (\<sigma>(a := None, a' \<mapsto> v))"
    and set_header: "store s (Suc m) \<sigma> \<Longrightarrow> \<sigma> HEADER_ADDRESS = Some old \<Longrightarrow> length v \<le> BTREE_HEADER_SIZE \<Longrightarrow>
      \<exists>r s'. existing_plan cd HEADER_ADDRESS (Some v) s = cret (r, s') \<and> store s' m (\<sigma>(HEADER_ADDRESS \<mapsto> v))"
    and remove_stored: "store s m \<sigma> \<Longrightarrow> \<sigma> a = Some old \<Longrightarrow>
      \<exists>r s'. existing_plan cd a None s = cret (r, s') \<and> store s' m (\<sigma>(a := None))"

text \<open>The tables of a record, as the store of a tree; \<open>T\<close> has the settings of the column.\<close>

definition tree_store :: "codecs \<Rightarrow> nat \<Rightarrow> nat \<Rightarrow> tables_ref \<Rightarrow> bstate \<Rightarrow> nat \<Rightarrow> (address \<rightharpoonup> bytes) \<Rightarrow> bool" where
  "tree_store cd K V T s m \<sigma> \<longleftrightarrow> codecs_ok cd \<and> fst s = with_tables T (tr_tables (fst s)) \<and>
     store_rep cd (fst s) (writer_query (snd s)) (m * (node_limit K + V + 31)) \<sigma>"

lemma tree_store_step:
  assumes "tree_store cd K V T (tb, w) (Suc m) \<sigma>" and "n \<le> node_limit K + V"
  shows "codecs_ok cd" and "store_rep cd tb (writer_query w) (m * (node_limit K + V + 31) + n + 31) \<sigma>"
    and "tb = with_tables T (tr_tables tb)"
  using assms store_less[of cd tb "writer_query w" "Suc m * (node_limit K + V + 31)" \<sigma>]
  by (auto simp: tree_store_def)

lemma tree_store_back:
  "codecs_ok cd \<Longrightarrow> tb = with_tables T (tr_tables tb) \<Longrightarrow> store_rep cd (with_tables tb ts) (writer_query w) (m * (node_limit K + V + 31)) \<sigma> \<Longrightarrow>
     tree_store cd K V T (with_tables tb ts, w) m \<sigma>"
  by (cases tb) (simp add: tree_store_def with_tables_def)

lemma header_size_tier: "unat (address_size_tier HEADER_ADDRESS) = 0"
proof -
  have "HEADER_ADDRESS = place_address 0 1" by (simp add: HEADER_ADDRESS_def place_address_def)
  moreover have "(0 :: nat) < SIZE_TIERS" "unat (1 :: u64) < 2 ^ 56" by (simp_all add: SIZE_TIERS_def)
  ultimately show ?thesis using place_address_inverse(1)[of 0 1] by simp
qed

lemma same_compression [simp]: "(with_tables tb ts)\<lparr>tr_compression := tr_compression tb\<rparr> = with_tables tb ts"
  by (simp add: with_tables_def)

lemma tree_store_new:
  assumes "tree_store cd K V T (tb, w) (Suc m) \<sigma>" and "length v \<le> node_limit K + V" and "may_store tb cp"
  shows "\<exists>a ts w'. new_plan cd v (tb\<lparr>tr_compression := cp\<rparr>, w) = cret (a, (with_tables tb ts)\<lparr>tr_compression := cp\<rparr>, w') \<and>
     \<sigma> a = None \<and> a \<noteq> NULL_ADDRESS \<and> tree_store cd K V T (with_tables tb ts, w') m (\<sigma>(a \<mapsto> v))"
  using new_plan_store[OF tree_store_step(2)[OF assms(1,2)] tree_store_step(1)[OF assms(1,2)] assms(3)]
    tree_store_back[OF tree_store_step(1,3)[OF assms(1,2)]] by metis

lemma tree_store_set:
  assumes "tree_store cd K V T (tb, w) (Suc m) \<sigma>" and "length v \<le> node_limit K + V" and "may_store tb cp" and "\<sigma> a = Some old"
  shows "\<exists>r a' ts w'. existing_plan cd a (Some v) (tb\<lparr>tr_compression := cp\<rparr>, w) =
       cret (r, (with_tables tb ts)\<lparr>tr_compression := cp\<rparr>, w') \<and> a' = (case r of Some x \<Rightarrow> x | None \<Rightarrow> a) \<and>
     (a' = a \<or> \<sigma> a' = None) \<and> a' \<noteq> NULL_ADDRESS \<and> tree_store cd K V T (with_tables tb ts, w') m (\<sigma>(a := None, a' \<mapsto> v)) \<and>
     (unat (address_size_tier a) = 0 \<longrightarrow> length v \<le> BTREE_HEADER_SIZE \<longrightarrow> a' = a)"
proof -
  obtain r a' ts w' where r: "existing_plan cd a (Some v) (tb\<lparr>tr_compression := cp\<rparr>, w) =
       cret (r, (with_tables tb ts)\<lparr>tr_compression := cp\<rparr>, w')" "a' = (case r of Some x \<Rightarrow> x | None \<Rightarrow> a)"
     "a' = a \<or> \<sigma> a' = None" "a' \<noteq> NULL_ADDRESS"
     "store_rep cd (with_tables tb ts) (writer_query w') (m * (node_limit K + V + 31)) (\<sigma>(a := None, a' \<mapsto> v))"
     "unat (address_size_tier a) = 0 \<longrightarrow> length v \<le> BTREE_HEADER_SIZE \<longrightarrow> a' = a"
    using existing_plan_set_store[OF tree_store_step(2)[OF assms(1,2)] tree_store_step(1)[OF assms(1,2)] assms(3,4)]
    by - (elim exE conjE, rule that, assumption+)
  note b = tree_store_back[OF tree_store_step(1,3)[OF assms(1,2)] r(5)]
  show ?thesis by (intro exI conjI) (rule r(1,2,3,4,6) b)+
qed

interpretation ns: node_store cd K V "tree_store cd K V T" for cd K V T
proof
  fix s :: bstate and m k :: nat and \<sigma> :: "address \<rightharpoonup> bytes" and a :: address and old b v :: bytes
  obtain tb w where s: "s = (tb, w)" by (cases s)
  have c: "tb\<lparr>tr_compression := tr_compression tb\<rparr> = tb" by simp
  show "tree_store cd K V T s m \<sigma> \<Longrightarrow> k \<le> m \<Longrightarrow> tree_store cd K V T s k \<sigma>"
    using store_less unfolding tree_store_def by (meson mult_le_mono1)
  show "tree_store cd K V T s m \<sigma> \<Longrightarrow> reads cd (fst s) (writer_query (snd s)) \<sigma>"
    using store_reads unfolding tree_store_def by blast
  show "\<exists>a s'. uncompressed (new_plan cd b) s = cret (a, s') \<and> \<sigma> a = None \<and> a \<noteq> NULL_ADDRESS \<and> tree_store cd K V T s' m (\<sigma>(a \<mapsto> b))"
    if "tree_store cd K V T s (Suc m) \<sigma>" "length b \<le> node_limit K"
  proof -
    have "length b \<le> node_limit K + V" using that(2) by simp
    from tree_store_new[OF that(1)[unfolded s] this, of NO_COMPRESSION] show ?thesis
      by (fastforce simp: s uncompressed_def cret_def)
  qed
  show "\<exists>r a' s'. uncompressed (existing_plan cd a (Some b)) s = cret (r, s') \<and> a' = (case r of Some x \<Rightarrow> x | None \<Rightarrow> a) \<and>
        (a' = a \<or> \<sigma> a' = None) \<and> a' \<noteq> NULL_ADDRESS \<and> tree_store cd K V T s' m (\<sigma>(a := None, a' \<mapsto> b))"
    if "tree_store cd K V T s (Suc m) \<sigma>" "\<sigma> a = Some old" "length b \<le> node_limit K"
  proof -
    have "length b \<le> node_limit K + V" using that(3) by simp
    from tree_store_set[OF that(1)[unfolded s] this _ that(2), of NO_COMPRESSION]
    obtain r a' ts w' where "existing_plan cd a (Some b) (tb\<lparr>tr_compression := NO_COMPRESSION\<rparr>, w) =
       cret (r, (with_tables tb ts)\<lparr>tr_compression := NO_COMPRESSION\<rparr>, w')" "a' = (case r of Some x \<Rightarrow> x | None \<Rightarrow> a)"
      "a' = a \<or> \<sigma> a' = None" "a' \<noteq> NULL_ADDRESS" "tree_store cd K V T (with_tables tb ts, w') m (\<sigma>(a := None, a' \<mapsto> b))" by blast
    then show ?thesis
      by (intro exI[of _ r] exI[of _ a'] exI[of _ "(with_tables tb ts, w')"]) (simp add: s uncompressed_def cret_def)
  qed
  show "\<exists>a s'. new_plan cd v s = cret (a, s') \<and> \<sigma> a = None \<and> a \<noteq> NULL_ADDRESS \<and> tree_store cd K V T s' m (\<sigma>(a \<mapsto> v))"
    if "tree_store cd K V T s (Suc m) \<sigma>" "length v \<le> V"
  proof -
    have "length v \<le> node_limit K + V" using that(2) by simp
    from tree_store_new[OF that(1)[unfolded s] this, of "tr_compression tb"] show ?thesis
      unfolding s by (simp only: c same_compression) blast
  qed
  show "\<exists>r a' s'. existing_plan cd a (Some v) s = cret (r, s') \<and> a' = (case r of Some x \<Rightarrow> x | None \<Rightarrow> a) \<and>
        (a' = a \<or> \<sigma> a' = None) \<and> a' \<noteq> NULL_ADDRESS \<and> tree_store cd K V T s' m (\<sigma>(a := None, a' \<mapsto> v))"
    if "tree_store cd K V T s (Suc m) \<sigma>" "\<sigma> a = Some old" "length v \<le> V"
  proof -
    have "length v \<le> node_limit K + V" using that(3) by simp
    from tree_store_set[OF that(1)[unfolded s] this _ that(2), of "tr_compression tb"] show ?thesis
      unfolding s by (simp only: c same_compression) blast
  qed
  show "\<exists>r s'. existing_plan cd HEADER_ADDRESS (Some v) s = cret (r, s') \<and> tree_store cd K V T s' m (\<sigma>(HEADER_ADDRESS \<mapsto> v))"
    if h: "tree_store cd K V T s (Suc m) \<sigma>" "\<sigma> HEADER_ADDRESS = Some old" "length v \<le> BTREE_HEADER_SIZE"
  proof -
    have "length v \<le> node_limit K + V" using h(3) by (simp add: BTREE_HEADER_SIZE_def node_limit_def ORDER_def)
    from tree_store_set[OF h(1)[unfolded s] this disjI1[OF refl] h(2)]
    obtain r a' ts w' where r: "existing_plan cd HEADER_ADDRESS (Some v) (tb, w) = cret (r, with_tables tb ts, w')"
        "tree_store cd K V T (with_tables tb ts, w') m (\<sigma>(HEADER_ADDRESS := None, a' \<mapsto> v))"
        "unat (address_size_tier HEADER_ADDRESS) = 0 \<longrightarrow> length v \<le> BTREE_HEADER_SIZE \<longrightarrow> a' = HEADER_ADDRESS"
      unfolding c same_compression by - (elim exE conjE, rule that, assumption+)
    have "a' = HEADER_ADDRESS" using r(3) h(3) header_size_tier by simp
    then show ?thesis unfolding s using r(1,2) by auto
  qed
  show "\<exists>r s'. existing_plan cd a None s = cret (r, s') \<and> tree_store cd K V T s' m (\<sigma>(a := None))"
    if "tree_store cd K V T s m \<sigma>" "\<sigma> a = Some old"
  proof -
    have "store_rep cd tb (writer_query w) (m * (node_limit K + V + 31)) \<sigma>" "codecs_ok cd"
        "tb = with_tables T (tr_tables tb)"
      using that(1) s by (simp_all add: tree_store_def)
    from existing_plan_remove_store[OF this(1) that(2)] tree_store_back[OF this(2,3)] show ?thesis unfolding s by metis
  qed
qed

end
