(* ===== verification/BTree_Frame.thy ===== *)
theory BTree_Frame
  imports BTree_Store "HOL-Library.Multiset"
begin

text \<open>
  Trees inside a store. A tree owns the addresses of its nodes below the root and of its values. An
  operation on a tree changes only what the tree owns and takes only addresses that were free, so
  the trees beside it stay. While a node is rearranged in memory some of its children are not yet
  stored (\<open>loose\<close>); writing them one by one brings the tree back into the store.
\<close>

section \<open>What an operation may touch\<close>

definition frame :: "('a \<rightharpoonup> 'b) \<Rightarrow> 'a set \<Rightarrow> ('a \<rightharpoonup> 'b) \<Rightarrow> 'a set \<Rightarrow> bool" where
  "frame \<sigma> A \<sigma>' A' \<longleftrightarrow> (\<forall>a \<in> dom \<sigma> - A. \<sigma>' a = \<sigma> a) \<and> A' \<inter> dom \<sigma> \<subseteq> A"

lemma frame_refl [simp]: "frame \<sigma> A \<sigma> A"
  by (auto simp: frame_def)

lemma frame_keep: "frame \<sigma> A \<sigma>' A' \<Longrightarrow> a \<in> dom \<sigma> \<Longrightarrow> a \<notin> A \<Longrightarrow> \<sigma>' a = \<sigma> a"
  by (simp add: frame_def)

lemma frame_disjoint: "frame \<sigma> A \<sigma>' A' \<Longrightarrow> C \<subseteq> dom \<sigma> \<Longrightarrow> C \<inter> A = {} \<Longrightarrow> C \<inter> A' = {}"
  by (auto simp: frame_def)

lemma frame_trans:
  assumes "frame \<sigma> A \<sigma>' A'" and "frame \<sigma>' A' \<sigma>'' A''"
  shows "frame \<sigma> A \<sigma>'' A''"
  unfolding frame_def
proof (intro conjI ballI subsetI)
  fix a assume a: "a \<in> dom \<sigma> - A"
  then have 1: "\<sigma>' a = \<sigma> a" "a \<notin> A'" using assms(1) by (auto simp: frame_def)
  then show "\<sigma>'' a = \<sigma> a" using a assms(2) by (auto simp: frame_def domIff)
next
  fix a assume a: "a \<in> A'' \<inter> dom \<sigma>"
  show "a \<in> A"
  proof (rule ccontr)
    assume "a \<notin> A"
    then have "\<sigma>' a = \<sigma> a" "a \<notin> A'" using a assms(1) by (auto simp: frame_def)
    then show False using a assms(2) by (auto simp: frame_def domIff)
  qed
qed

lemma frame_mono: "frame \<sigma> A \<sigma>' A' \<Longrightarrow> A \<subseteq> B \<Longrightarrow> B' \<subseteq> A' \<Longrightarrow> frame \<sigma> B \<sigma>' B'"
  by (auto simp: frame_def)

lemma frame_extend: "frame \<sigma> A \<sigma>' A' \<Longrightarrow> frame \<sigma> (A \<union> C) \<sigma>' (A' \<union> C)"
  by (auto simp: frame_def)

lemma frame_move: "a' = a \<or> \<sigma> a' = None \<Longrightarrow> frame \<sigma> {a} (\<sigma>(a := None, a' \<mapsto> b)) {a'}"
  by (auto simp: frame_def)

lemma frame_new: "\<sigma> a = None \<Longrightarrow> frame \<sigma> {} (\<sigma>(a \<mapsto> b)) {a}"
  by (auto simp: frame_def)

lemma frame_free: "frame \<sigma> {a} (\<sigma>(a := None)) {}"
  by (auto simp: frame_def)

section \<open>Trees in a store\<close>

abbreviation own :: "btr \<Rightarrow> address set" where
  "own t \<equiv> set (owned t)"

abbreviation kid_owned :: "address \<times> btr \<Rightarrow> address list" where
  "kid_owned k \<equiv> fst k # owned (snd k)"

abbreviation kids_owned :: "(address \<times> btr) list \<Rightarrow> address list" where
  "kids_owned ks \<equiv> concat (map kid_owned ks)"

lemma stored_in_cong: "(\<And>a. a \<in> own t \<Longrightarrow> \<sigma>' a = \<sigma> a) \<Longrightarrow> stored_in \<sigma>' t = stored_in \<sigma> t"
proof (induction \<sigma> t rule: stored_in.induct)
  case (1 \<sigma> xs ks)
  have "\<sigma>' (fst k) = \<sigma> (fst k) \<and> stored_in \<sigma>' (snd k) = stored_in \<sigma> (snd k)" if "k \<in> set ks" for k
    using "1.prems" "1.IH"[OF that] that by auto
  then show ?case by simp
qed

lemma set_weave: "set (weave xs ks) = set xs \<union> \<Union> (set ` set ks)"
  by (induction xs ks rule: weave.induct) auto

lemma values_owned: "si_value ` set (inorder t) \<subseteq> own t"
proof (induction t rule: inorder.induct)
  case (1 xs ks)
  then show ?case by (force simp: set_weave)
qed

text \<open>The keys and values of separators.\<close>

definition ent :: "(address \<rightharpoonup> bytes) \<Rightarrow> separator_inner list \<Rightarrow> (bytes \<times> bytes option) list" where
  "ent \<sigma> xs = map (\<lambda>x. (si_key x, \<sigma> (si_value x))) xs"

lemma ent_simps [simp]: "ent \<sigma> [] = []" "ent \<sigma> (x # xs) = (si_key x, \<sigma> (si_value x)) # ent \<sigma> xs" "ent \<sigma> (xs @ ys) = ent \<sigma> xs @ ent \<sigma> ys"
  by (simp_all add: ent_def)

lemma ent_cong: "(\<And>x. x \<in> set xs \<Longrightarrow> \<sigma>' (si_value x) = \<sigma> (si_value x)) \<Longrightarrow> ent \<sigma>' xs = ent \<sigma> xs"
  by (simp add: ent_def)

lemma ent_eq: "ent \<sigma>' xs = ent \<sigma> xs \<longleftrightarrow> (\<forall>x\<in>set xs. \<sigma>' (si_value x) = \<sigma> (si_value x))"
  by (simp add: ent_def)

lemma keys_ent [simp]: "map fst (ent \<sigma> xs) = map si_key xs"
  by (simp add: ent_def comp_def)

definition entries :: "(address \<rightharpoonup> bytes) \<Rightarrow> btr \<Rightarrow> (bytes \<times> bytes option) list" where
  "entries \<sigma> t = ent \<sigma> (inorder t)"

lemma entries_cong: "(\<And>a. a \<in> own t \<Longrightarrow> \<sigma>' a = \<sigma> a) \<Longrightarrow> entries \<sigma>' t = entries \<sigma> t"
  using values_owned by (fastforce simp: entries_def ent_eq)

text \<open>A tree whose children in \<open>I\<close> still have to be written.\<close>

definition loose :: "nat set \<Rightarrow> (address \<rightharpoonup> bytes) \<Rightarrow> btr \<Rightarrow> bool" where
  "loose I \<sigma> t \<longleftrightarrow> distinct (owned t) \<and> own t \<subseteq> dom \<sigma> \<and> (\<forall>k\<in>set (br_kids t). stored_in \<sigma> (snd k)) \<and>
     (\<forall>i<length (br_kids t). i \<notin> I \<longrightarrow> \<sigma> (fst (br_kids t ! i)) = Some (bytes_of (snd (br_kids t ! i))))"

abbreviation tree_in :: "(address \<rightharpoonup> bytes) \<Rightarrow> btr \<Rightarrow> bool" where
  "tree_in \<equiv> loose {}"

lemma tree_in_iff: "tree_in \<sigma> t \<longleftrightarrow> distinct (owned t) \<and> own t \<subseteq> dom \<sigma> \<and> stored_in \<sigma> t"
  by (cases t) (simp add: loose_def all_set_conv_all_nth, blast)

lemma loose_stored: "loose {} \<sigma> t \<Longrightarrow> stored_in \<sigma> t"
  by (simp add: tree_in_iff)

lemma tree_in_keep:
  assumes "tree_in \<sigma> t" and "frame \<sigma> A \<sigma>' A'" and "own t \<inter> A = {}"
  shows "tree_in \<sigma>' t" and "own t \<inter> A' = {}" and "\<And>a. a \<in> own t \<Longrightarrow> \<sigma>' a = \<sigma> a"
proof -
  have d: "own t \<subseteq> dom \<sigma>" using assms(1) by (simp add: loose_def)
  show k: "\<sigma>' a = \<sigma> a" if "a \<in> own t" for a using frame_keep[OF assms(2)] d that assms(3) by blast
  show "own t \<inter> A' = {}" using frame_disjoint[OF assms(2) d assms(3)] .
  have "own t \<subseteq> dom \<sigma>'" using k d by (auto simp: domIff)
  then show "tree_in \<sigma>' t" using assms(1) stored_in_cong[of t \<sigma>' \<sigma>] k by (simp add: tree_in_iff)
qed

section \<open>Writing one child\<close>

lemma owned_split:
  assumes "i < length (br_kids t)" and "br_kids t ! i = (a, c)"
  shows "owned t = (map si_value (br_seps t) @ kids_owned (take i (br_kids t))) @ a # owned c @ kids_owned (drop (Suc i) (br_kids t))"
proof -
  obtain xs ks where t: "t = Br xs ks" by (cases t)
  have "ks = take i ks @ (a, c) # drop (Suc i) ks" using assms id_take_nth_drop[of i ks] by (simp add: t)
  have "kids_owned ks = kids_owned (take i ks) @ (a # owned c) @ kids_owned (drop (Suc i) ks)"
    by (subst (1) \<open>ks = _\<close>) simp
  then show ?thesis by (simp add: t)
qed

lemma kids_owned_sub: "k \<in> set ks \<Longrightarrow> set (kid_owned k) \<subseteq> set (kids_owned ks)"
  by auto

lemma inorder_kids_cong:
  "map (\<lambda>k. inorder (snd k)) ks = map (\<lambda>k. inorder (snd k)) ls \<Longrightarrow> inorder (Br xs ks) = inorder (Br xs ls)"
  by simp

lemma write_kid:
  assumes l: "loose I \<sigma> t" and i: "i < length (br_kids t)" and k: "br_kids t ! i = (a, c)"
    and a': "a' = a \<or> \<sigma> a' = None" and \<sigma>': "\<sigma>' = \<sigma>(a := None, a' \<mapsto> bytes_of c)"
    and t': "t' = Br (br_seps t) ((br_kids t)[i := (a', c)])"
  shows "loose (I - {i}) \<sigma>' t'" and "frame \<sigma> (own t) \<sigma>' (own t')" and "inorder t' = inorder t"
    and "entries \<sigma>' t' = entries \<sigma> t"
proof -
  define pre where "pre = map si_value (br_seps t) @ kids_owned (take i (br_kids t))"
  define post where "post = owned c @ kids_owned (drop (Suc i) (br_kids t))"
  have ot: "owned t = pre @ a # post" using owned_split[OF i k] by (simp add: pre_def post_def)
  have ot': "owned t' = pre @ a' # post"
    using owned_split[of i t' a' c] i t' by (simp add: pre_def post_def)
  have dist: "distinct (owned t)" and sub: "own t \<subseteq> dom \<sigma>" using l by (auto simp: loose_def)
  have new: "a' = a \<or> a' \<notin> own t" using a' sub by (auto simp: domIff)
  have keep: "\<sigma>' b = \<sigma> b" if "b \<in> set pre \<union> set post" for b
    using that dist new unfolding ot \<sigma>' by auto
  have d': "distinct (owned t')" using dist new unfolding ot ot' by auto
  have s': "own t' \<subseteq> dom \<sigma>'" using sub a' dist unfolding ot ot' \<sigma>' by auto
  have sub_rest: "own (snd k') \<subseteq> set pre \<union> set post" if k': "k' \<in> set (br_kids t)" for k'
  proof -
    obtain j where j: "j < length (br_kids t)" "br_kids t ! j = k'" using k' by (auto simp: in_set_conv_nth)
    consider "j < i" | "j = i" | "i < j" by linarith
    then show ?thesis
    proof cases
      case 1
      then have "k' \<in> set (take i (br_kids t))" using j by (auto simp: in_set_conv_nth)
      then show ?thesis by (auto simp: pre_def)
    next
      case 2
      then show ?thesis using j k by (auto simp: post_def)
    next
      case 3
      then have "k' \<in> set (drop (Suc i) (br_kids t))" using j by (auto simp: in_set_conv_nth intro!: exI[of _ "j - Suc i"])
      then show ?thesis by (auto simp: post_def)
    qed
  qed
  have st: "stored_in \<sigma>' (snd k') = stored_in \<sigma> (snd k')" if "k' \<in> set (br_kids t)" for k'
    by (rule stored_in_cong, rule keep) (use sub_rest[OF that] in blast)
  have ad: "\<sigma>' (fst (br_kids t ! j)) = \<sigma> (fst (br_kids t ! j))" if j: "j < length (br_kids t)" "j \<noteq> i" for j
  proof (rule keep)
    show "fst (br_kids t ! j) \<in> set pre \<union> set post"
    proof (cases "j < i")
      case True
      then have "br_kids t ! j \<in> set (take i (br_kids t))" using j by (auto simp: in_set_conv_nth)
      then show ?thesis by (auto simp: pre_def)
    next
      case False
      then have "br_kids t ! j \<in> set (drop (Suc i) (br_kids t))"
        using j by (auto simp: in_set_conv_nth intro!: exI[of _ "j - Suc i"])
      then show ?thesis by (auto simp: post_def)
    qed
  qed
  have kids: "br_kids t' = (br_kids t)[i := (a', c)]" using t' by simp
  have "stored_in \<sigma>' (snd k')" if "k' \<in> set (br_kids t')" for k'
  proof -
    have "k' = (a', c) \<or> k' \<in> set (br_kids t)"
      using that set_update_subset_insert[of "br_kids t" i "(a', c)"] unfolding kids by blast
    then have "snd k' \<in> snd ` set (br_kids t)" using nth_mem[OF i] k by (auto simp: image_iff) force+
    then obtain k'' where "k'' \<in> set (br_kids t)" "snd k'' = snd k'" by auto
    then show ?thesis using st[of k''] l by (auto simp: loose_def)
  qed
  moreover have "\<sigma>' (fst (br_kids t' ! j)) = Some (bytes_of (snd (br_kids t' ! j)))"
    if "j < length (br_kids t')" "j \<notin> I - {i}" for j
  proof (cases "j = i")
    case True
    then show ?thesis using i by (simp add: kids \<sigma>')
  next
    case False
    then show ?thesis using that ad[of j] l unfolding kids by (simp add: loose_def)
  qed
  ultimately show "loose (I - {i}) \<sigma>' t'" using d' s' by (simp add: loose_def)
  show "frame \<sigma> (own t) \<sigma>' (own t')"
  proof -
    have "frame \<sigma> ({a} \<union> (set pre \<union> set post)) \<sigma>' ({a'} \<union> (set pre \<union> set post))"
      unfolding \<sigma>' by (rule frame_extend, rule frame_move) (rule a')
    then show ?thesis unfolding ot ot' by (rule frame_mono) auto
  qed
  have km: "map (\<lambda>k. inorder (snd k)) ((br_kids t)[i := (a', c)]) = map (\<lambda>k. inorder (snd k)) (br_kids t)"
    using i k by (simp add: map_update list_update_same_conv)
  then show io: "inorder t' = inorder t" unfolding t' by (cases t) simp
  have "\<sigma>' (si_value x) = \<sigma> (si_value x)" if x: "x \<in> set (inorder t)" for x
  proof (rule keep)
    have "set (inorder t) = set (br_seps t) \<union> (\<Union>k\<in>set (br_kids t). set (inorder (snd k)))"
      by (cases t) (simp add: set_weave)
    then consider "x \<in> set (br_seps t)" | k' where "k' \<in> set (br_kids t)" "x \<in> set (inorder (snd k'))" using x by blast
    then show "si_value x \<in> set pre \<union> set post"
    proof cases
      case 2
      then show ?thesis using values_owned sub_rest[OF 2(1)] by blast
    qed (auto simp: pre_def)
  qed
  then show "entries \<sigma>' t' = entries \<sigma> t" by (simp add: entries_def io ent_eq)
qed

section \<open>A child that has changed\<close>

text \<open>
  The child \<open>i\<close> of a tree becomes \<open>c'\<close>, followed by new separators \<open>ys\<close> and children \<open>ls\<close> when it was
  split. Its siblings stay.
\<close>

lemma kid_changed:
  assumes t: "tree_in \<sigma> t" and i: "i < length (br_kids t)" and k: "br_kids t ! i = (a, c)"
    and f: "frame \<sigma> (own c) \<sigma>' (set new)" and new: "new = map si_value ys @ owned c' @ kids_owned ls"
    and d: "distinct new" and sub: "set new \<subseteq> dom \<sigma>'" and st: "stored_in \<sigma>' c'"
    and ls: "\<forall>l\<in>set ls. \<sigma>' (fst l) = Some (bytes_of (snd l)) \<and> stored_in \<sigma>' (snd l)"
    and t': "t' = Br (take i (br_seps t) @ ys @ drop i (br_seps t)) (take i (br_kids t) @ (a, c') # ls @ drop (Suc i) (br_kids t))"
  shows "loose {i} \<sigma>' t'" and "frame \<sigma> (own t) \<sigma>' (own t')" and "\<sigma>' a = \<sigma> a" and "bytes_of c' = bytes_of c \<Longrightarrow> tree_in \<sigma>' t'"
    and "\<And>x. x \<in> set (br_seps t) \<Longrightarrow> \<sigma>' (si_value x) = \<sigma> (si_value x)"
    and "\<And>j x. j < length (br_kids t) \<Longrightarrow> j \<noteq> i \<Longrightarrow> x \<in> own (snd (br_kids t ! j)) \<Longrightarrow> \<sigma>' x = \<sigma> x"
proof -
  define pre where "pre = map si_value (br_seps t) @ kids_owned (take i (br_kids t))"
  define post where "post = kids_owned (drop (Suc i) (br_kids t))"
  have ot: "owned t = pre @ a # owned c @ post" using owned_split[OF i k] by (simp add: pre_def post_def)
  have dist: "distinct (owned t)" and sbt: "own t \<subseteq> dom \<sigma>" and stt: "stored_in \<sigma> t" using t by (auto simp: tree_in_iff)
  let ?rest = "insert a (set pre \<union> set post)"
  have rd: "?rest \<subseteq> dom \<sigma>" "?rest \<inter> own c = {}" using sbt dist unfolding ot by auto
  have keep: "\<sigma>' b = \<sigma> b" if "b \<in> ?rest" for b using frame_keep[OF f] rd that by blast
  have rn: "?rest \<inter> set new = {}" by (rule frame_disjoint[OF f rd])
  have "mset (owned t') = mset (pre @ a # new @ post)"
  proof -
    have "mset (map si_value (take i (br_seps t))) + mset (map si_value (drop i (br_seps t))) = mset (map si_value (br_seps t))"
      by (metis append_take_drop_id map_append mset_append)
    then show ?thesis unfolding t' pre_def post_def new by (simp add: ac_simps)
  qed
  then have mo: "own t' = set (pre @ a # new @ post)" "distinct (owned t') = distinct (pre @ a # new @ post)"
    using mset_eq_setD mset_eq_imp_distinct_iff by blast+
  have "distinct (owned t')" using mo(2) dist d rn unfolding ot by auto
  moreover have "own t' \<subseteq> dom \<sigma>'"
  proof -
    have "?rest \<subseteq> dom \<sigma>'" using keep rd(1) by (auto simp: domIff)
    then show ?thesis using sub mo(1) by auto
  qed
  moreover have kin: "set (kid_owned k') \<subseteq> ?rest" if "k' \<in> set (take i (br_kids t)) \<union> set (drop (Suc i) (br_kids t))" for k'
    using that by (auto simp: pre_def post_def)
  have kst: "\<sigma>' (fst k') = Some (bytes_of (snd k')) \<and> stored_in \<sigma>' (snd k')"
    if k': "k' \<in> set (take i (br_kids t)) \<union> set (drop (Suc i) (br_kids t))" for k'
  proof -
    have "k' \<in> set (br_kids t)" using k' by (auto dest: in_set_takeD in_set_dropD)
    then have "\<sigma> (fst k') = Some (bytes_of (snd k'))" "stored_in \<sigma> (snd k')" using stored_kid[OF stt] by auto
    moreover have "stored_in \<sigma>' (snd k') = stored_in \<sigma> (snd k')"
      by (rule stored_in_cong, rule keep) (use kin[OF k'] in auto)
    ultimately show ?thesis using keep[of "fst k'"] kin[OF k'] by auto
  qed
  have "stored_in \<sigma>' (snd k')" if "k' \<in> set (br_kids t')" for k'
    using that kst[of k'] bspec[OF ls, of k'] st unfolding t' by auto
  moreover have kad: "\<sigma>' (fst (br_kids t' ! j)) = Some (bytes_of (snd (br_kids t' ! j)))" if "j < length (br_kids t')" "j \<noteq> i" for j
  proof -
    let ?ks = "take i (br_kids t) @ (a, c') # ls @ drop (Suc i) (br_kids t)"
    have lt: "length (take i (br_kids t)) = i" using i by simp
    have "?ks ! j \<in> set (take i (br_kids t)) \<union> set (ls @ drop (Suc i) (br_kids t))"
    proof (cases "j < i")
      case True
      then have "?ks ! j = take i (br_kids t) ! j" "j < length (take i (br_kids t))" using lt by (simp_all add: nth_append)
      then show ?thesis by (metis UnI1 nth_mem)
    next
      case False
      then have "?ks ! j = (ls @ drop (Suc i) (br_kids t)) ! (j - Suc i)" "j - Suc i < length (ls @ drop (Suc i) (br_kids t))"
        using that lt i unfolding t' by (auto simp: nth_append nth_Cons')
      then show ?thesis by (metis UnI2 nth_mem)
    qed
    then show ?thesis using kst[of "?ks ! j"] bspec[OF ls, of "?ks ! j"] unfolding t' by auto
  qed
  ultimately show l: "loose {i} \<sigma>' t'" by (simp add: loose_def)
  show "frame \<sigma> (own t) \<sigma>' (own t')"
    by (rule frame_mono[OF frame_extend[OF f, of ?rest]]) (auto simp: ot mo(1))
  show a: "\<sigma>' a = \<sigma> a" using keep by simp
  show "tree_in \<sigma>' t'" if b: "bytes_of c' = bytes_of c"
  proof -
    have "br_kids t' ! i = (a, c')" using i by (simp add: t' nth_append)
    moreover have "\<sigma> a = Some (bytes_of c)" using stored_kid(1)[OF stt nth_mem[OF i]] k by simp
    ultimately have "\<sigma>' (fst (br_kids t' ! i)) = Some (bytes_of (snd (br_kids t' ! i)))" using a b by simp
    then show ?thesis using l kad unfolding loose_def by (metis empty_iff)
  qed
  show "\<sigma>' (si_value x) = \<sigma> (si_value x)" if "x \<in> set (br_seps t)" for x
    by (rule keep) (use that in \<open>simp add: pre_def\<close>)
  show "\<sigma>' x = \<sigma> x" if "j < length (br_kids t)" "j \<noteq> i" "x \<in> own (snd (br_kids t ! j))" for j x
  proof (rule keep)
    have "br_kids t ! j \<in> set (take i (br_kids t)) \<union> set (drop (Suc i) (br_kids t))"
    proof (cases "j < i")
      case True
      then show ?thesis using that(1) by (auto simp: in_set_conv_nth)
    next
      case False
      then show ?thesis using that(1,2) by (auto simp: in_set_conv_nth intro!: exI[of _ "j - Suc i"])
    qed
    then show "x \<in> ?rest" using kin[of "br_kids t ! j"] that(3) by auto
  qed
qed

end
