(* ===== verification/BTree_Rebalance.thy ===== *)
theory BTree_Rebalance
  imports BTree_Frame
begin

text \<open>
  Writing nodes and rebalancing (\<open>write_node_plan\<close>, \<open>write_child\<close>, \<open>rebalance\<close> of
  \<^verbatim>\<open>src/src/btree/node.rs\<close>): a child that has lost a separator takes one from a sibling or is merged
  with it; the content of the tree stays the same and every child is at least half full again.
\<close>

section \<open>Nodes with children of given sizes\<close>

definition wf_kids :: "nat \<Rightarrow> (nat \<Rightarrow> nat) \<Rightarrow> btr \<Rightarrow> bool" where
  "wf_kids e lo t \<longleftrightarrow> storable (br_seps t) (kid_addresses t) \<and> length (br_kids t) = Suc (length (br_seps t)) \<and>
     (\<forall>i<length (br_kids t). wf_tree e (snd (br_kids t ! i)) \<and> lo i \<le> length (br_seps (snd (br_kids t ! i))))"

lemma wf_tree_kids: "wf_tree (Suc e) t \<longleftrightarrow> wf_kids e (\<lambda>_. ORDER div 2) t"
  by (cases t) (auto simp: wf_kids_def all_set_conv_all_nth)

lemma wf_kids_mono: "wf_kids e lo t \<Longrightarrow> (\<And>i. i < length (br_kids t) \<Longrightarrow> lo' i \<le> lo i) \<Longrightarrow> wf_kids e lo' t"
  unfolding wf_kids_def by (meson order_trans)

lemma storable_update:
  assumes "storable xs cs" and "a \<noteq> NULL_ADDRESS"
  shows "storable xs (cs[i := a])"
  using assms set_update_subset_insert[of cs i a] by (auto simp: storable_def)

text \<open>Keys of at most \<open>K\<close> bytes.\<close>

definition small :: "nat \<Rightarrow> btr \<Rightarrow> bool" where
  "small K t \<longleftrightarrow> (\<forall>x\<in>set (inorder t). length (si_key x) \<le> K)"

lemma length_bytes_of:
  assumes "storable (br_seps t) (kid_addresses t)" and "\<And>x. x \<in> set (br_seps t) \<Longrightarrow> length (si_key x) \<le> K"
  shows "length (bytes_of t) \<le> node_limit K"
proof -
  have "length (bytes_of t) \<le> 8 + length (br_seps t) * (21 + K)"
    unfolding bytes_of_def by (rule length_node_bytes) (rule assms(2))
  moreover have "length (br_seps t) * (21 + K) \<le> ORDER * (21 + K)"
    using assms(1) by (intro mult_right_mono) (simp_all add: storable_def)
  ultimately show ?thesis unfolding node_limit_def by linarith
qed

lemma small_parts:
  "small K t \<longleftrightarrow> (\<forall>x\<in>set (br_seps t). length (si_key x) \<le> K) \<and> (\<forall>k\<in>set (br_kids t). small K (snd k))"
  by (cases t) (auto simp: small_def set_weave)

section \<open>Moving separators between neighbours\<close>

lemma weave_snoc: "length ks = Suc (length xs) \<Longrightarrow> weave (xs @ [x]) (ks @ [k]) = weave xs ks @ x # k"
  using weave_append[of "butlast ks" xs "[last ks, k]" "[x]"] weave_append[of "butlast ks" xs "[last ks]" "[]"]
  by (cases ks rule: rev_cases) auto

text \<open>The last child of one node becomes the first of the next; a leaf has none.\<close>

lemma rotate_inorder:
  assumes "kl = [] \<and> K = [] \<and> kr = [] \<or> length kl = Suc (length xl) \<and> K = [k] \<and> length kr = Suc (length xr)"
  shows "inorder (Br (xl @ [y]) (kl @ K)) @ x # inorder (Br xr kr) = inorder (Br xl kl) @ y # inorder (Br (x # xr) (K @ kr))"
  using assms by (auto simp: weave_snoc)

lemma merge_inorder:
  assumes "kl = [] \<and> kr = [] \<or> length kl = Suc (length xl) \<and> length kr = Suc (length xr)"
  shows "inorder (Br (xl @ x # xr) (kl @ kr)) = inorder (Br xl kl) @ x # inorder (Br xr kr)"
  using assms
proof (elim disjE conjE)
  assume l: "length kl = Suc (length xl)" "length kr = Suc (length xr)"
  obtain k ks where "kl = ks @ [k]" "length ks = length xl" using l(1) by (cases kl rule: rev_cases) auto
  moreover have "kr \<noteq> []" using l(2) by auto
  moreover have "weave xl (map (\<lambda>k. inorder (snd k)) (ks @ [k])) = lead xl (map (\<lambda>k. inorder (snd k)) ks) @ inorder (snd k)"
    using weave_append[of "map (\<lambda>k. inorder (snd k)) ks" xl "[inorder (snd k)]" "[]"] \<open>length ks = _\<close> by simp
  ultimately show ?thesis by (simp add: weave_append)
qed auto

lemma inorder_around:
  assumes "length ks = length xs" and "length ls = length ys"
  shows "inorder (Br (xs @ x # ys) (ks @ (a, c) # (b, d) # ls)) =
     lead xs (map (\<lambda>k. inorder (snd k)) ks) @ (inorder c @ x # inorder d) @ trail ys (map (\<lambda>k. inorder (snd k)) ls)"
    and "inorder (Br (xs @ ys) (ks @ (a, c) # ls)) =
     lead xs (map (\<lambda>k. inorder (snd k)) ks) @ inorder c @ trail ys (map (\<lambda>k. inorder (snd k)) ls)"
  using assms by (simp_all add: weave_append weave_Cons)

lemma loose_around:
  assumes "tree_in \<sigma> (Br xs (ks @ (a, c) # (b, d) # ls))"
    and "mset (map si_value ys @ owned c' @ owned d') = mset (map si_value xs @ owned c @ owned d)"
    and "stored_in \<sigma> c'" and "stored_in \<sigma> d'"
  shows "loose {length ks, Suc (length ks)} \<sigma> (Br ys (ks @ (a, c') # (b, d') # ls))"
    and "own (Br ys (ks @ (a, c') # (b, d') # ls)) = own (Br xs (ks @ (a, c) # (b, d) # ls))"
proof -
  let ?t = "Br xs (ks @ (a, c) # (b, d) # ls)" and ?u = "Br ys (ks @ (a, c') # (b, d') # ls)"
  have "mset (owned ?u) = mset (map si_value ys @ owned c' @ owned d') + mset (a # b # kids_owned ks @ kids_owned ls)" by simp
  also have "\<dots> = mset (owned ?t)" unfolding assms(2) by simp
  finally have m: "mset (owned ?u) = mset (owned ?t)" .
  show o: "own ?u = own ?t" using m by (rule mset_eq_setD)
  have "distinct (owned ?t)" "own ?t \<subseteq> dom \<sigma>" using assms(1) by (simp_all only: loose_def)
  then have du: "distinct (owned ?u)" "own ?u \<subseteq> dom \<sigma>" using mset_eq_imp_distinct_iff[OF m] o by (simp_all only:)
  have "\<sigma> (fst ((ks @ (a, c') # (b, d') # ls) ! i)) = Some (bytes_of (snd ((ks @ (a, c') # (b, d') # ls) ! i)))"
    if "i < length (ks @ (a, c') # (b, d') # ls)" "i \<notin> {length ks, Suc (length ks)}" for i
  proof -
    have "(ks @ (a, c') # (b, d') # ls) ! i = (ks @ (a, c) # (b, d) # ls) ! i"
      using that by (auto simp: nth_append nth_Cons split: nat.splits)
    then show ?thesis using that assms(1) by (simp add: loose_def)
  qed
  then show "loose {length ks, Suc (length ks)} \<sigma> ?u"
    using du assms unfolding loose_def by simp
qed

lemma loose_merge:
  assumes tr: "tree_in \<sigma> t" and t: "t = Br xs (ks @ (a, c) # (b, d) # ls)" and \<sigma>': "\<sigma>' = \<sigma>(b := None)"
    and ms: "mset (map si_value ys @ owned c') = mset (map si_value xs @ owned c @ owned d)" and st: "stored_in \<sigma> c'"
    and t': "t' = Br ys (ks @ (a, c') # ls)"
  shows "loose {length ks} \<sigma>' t'" and "frame \<sigma> (own t) \<sigma>' (own t')" and "\<And>x. x \<in> own t' \<Longrightarrow> \<sigma>' x = \<sigma> x"
proof -
  have "mset (owned t) = mset (map si_value xs @ owned c @ owned d) + mset (a # b # kids_owned ks @ kids_owned ls)"
    unfolding t by simp
  also have "\<dots> = mset (b # owned t')" unfolding ms[symmetric] t' by simp
  finally have m: "mset (owned t) = mset (b # owned t')" .
  have own: "own t = insert b (own t')" using mset_eq_setD[OF m] by simp
  have d: "distinct (owned t')" "b \<notin> own t'" "own t' \<subseteq> dom \<sigma>"
    using mset_eq_imp_distinct_iff[OF m] tr own by (auto simp: loose_def)
  show keep: "\<sigma>' x = \<sigma> x" if "x \<in> own t'" for x using that d(2) by (auto simp: \<sigma>')
  have "own t' \<subseteq> dom \<sigma>'" using d(3) keep by (auto simp: domIff)
  have kin: "set (kid_owned k) \<subseteq> own t'" if "k \<in> set ks \<union> set ls" for k using that by (auto simp: t')
  have "stored_in \<sigma>' (snd k)" if "k \<in> set ks \<union> set ls" for k
  proof -
    have "stored_in \<sigma> (snd k)" using tr that by (auto simp: loose_def t)
    then show ?thesis using stored_in_cong[of "snd k" \<sigma>' \<sigma>] keep kin[OF that] by auto
  qed
  moreover have "stored_in \<sigma>' c'" using stored_in_cong[of c' \<sigma>' \<sigma>] keep st by (auto simp: t')
  moreover have "set (br_kids t') = insert (a, c') (set ks \<union> set ls)" by (auto simp: t')
  ultimately have s: "stored_in \<sigma>' (snd k)" if "k \<in> set (br_kids t')" for k using that by (metis insert_iff snd_conv)
  have "\<sigma>' (fst (br_kids t' ! i)) = Some (bytes_of (snd (br_kids t' ! i)))" if i: "i < length (br_kids t')" "i \<noteq> length ks" for i
  proof -
    have "br_kids t' ! i \<in> set ks \<union> set ls"
      using i nth_mem[of i ks] nth_mem[of "i - Suc (length ks)" ls] by (auto simp: t' nth_append nth_Cons split: nat.splits)
    then have k: "br_kids t' ! i \<in> set (br_kids t)" "fst (br_kids t' ! i) \<in> own t'" using kin by (auto simp: t)
    show ?thesis using stored_kid(1)[OF loose_stored[OF tr] k(1)] keep[OF k(2)] by simp
  qed
  then show "loose {length ks} \<sigma>' t'" using d(1) s \<open>own t' \<subseteq> dom \<sigma>'\<close> by (simp add: loose_def)
  show "frame \<sigma> (own t) \<sigma>' (own t')"
    using frame_extend[OF frame_free[of \<sigma> b], of "own t'"] unfolding own \<sigma>' by simp
qed

section \<open>Nodes in memory\<close>

lemma encode_empty:
  assumes "length (nd_separators n) = ORDER" and "sepv n ! 0 = None"
  shows "\<exists>b. encode_node n = Inr b \<and> length b = 8"
proof -
  have "sp_separator (nd_separators n ! 0) = None" using assms by (simp add: ORDER_def)
  then show ?thesis
    by (subst encode_node_def, subst encode_node_loop.simps)
      (simp add: write_child_index_def btree_entry_empty_def entry_grow_def write_u64_def write_slice_def ebuf_new_def node_consts)
qed

lemma remove_last_is:
  assumes "node_is n (xs @ [y]) (cs @ ds)" and "cs @ ds = [] \<or> length ds = 1"
  shows "\<exists>c n1 s n2. (if cs @ ds \<noteq> [] then rbind (remove_child (length xs + 1) n) (\<lambda>(c, n). Inr (Some c, n)) else Inr (None, n)) = Inr (c, n1) \<and>
     (c = None \<longleftrightarrow> cs @ ds = []) \<and> (\<forall>x. c = Some x \<longrightarrow> map Some ds = [ch_entry_index x]) \<and>
     remove_separator (length xs) n1 = Inr (s, n2) \<and> sp_separator s = Some y \<and> nd_changed n2 \<and> node_is n2 xs cs"
proof (cases "cs @ ds = []")
  case True
  then show ?thesis using remove_last_separator_is[OF assms(1)] by auto
next
  case False
  then obtain a where a: "ds = [a]" using assms(2) by (auto simp: length_Suc_conv)
  show ?thesis using remove_last_both_is[OF assms(1)] by (auto simp: a)
qed

lemma exchange_separator_is:
  assumes n: "node_is n (xs @ x # ys) cs" and sep: "sp_separator sep = Some y"
  shows "\<exists>old n1 n2. remove_separator (length xs) n = Inr (old, n1) \<and> sp_separator old = Some x \<and>
     set_separator (length xs) sep n1 = Inr n2 \<and> nd_changed n2 \<and> nd_children n2 = nd_children n \<and> node_is n2 (xs @ y # ys) cs"
proof -
  note l = node_is_lengths[OF n]
  have i: "length xs < length (nd_separators n)" using l(1,3) by simp
  obtain old n1 where r: "remove_separator (length xs) n = Inr (old, n1)" "sp_separator old = sepv n ! length xs"
      "sepv n1 = (sepv n)[length xs := None]" "nd_children n1 = nd_children n"
    using remove_separator_view[OF i] by blast
  have "length (nd_separators n1) = length (nd_separators n)" using arg_cong[OF r(3), of length] by simp
  then have "length xs < length (nd_separators n1)" using i by simp
  from set_separator_view[OF this, of sep]
  obtain n2 where s: "set_separator (length xs) sep n1 = Inr n2" "sepv n2 = (sepv n1)[length xs := sp_separator sep]"
      "nd_children n2 = nd_children n1" "nd_changed n2"
    by blast
  have "arr True ORDER (sepv n2) (xs @ y # ys)"
    using arr_set[OF node_isD(1)[OF n], of "length xs" y] s(2) r(3) sep by simp
  then have "node_is n2 (xs @ y # ys) cs" using node_isD[OF n] s(3) r(4) by (intro node_isI) simp_all
  moreover have "sp_separator old = Some x" using r(2) node_is_sep[OF n, of "length xs"] i l by (simp add: nth_append)
  ultimately show ?thesis using r s by auto
qed

definition rearranged :: "nat \<Rightarrow> (address \<rightharpoonup> bytes) \<Rightarrow> btr \<Rightarrow> node \<Rightarrow> (address \<rightharpoonup> bytes) \<Rightarrow> btr \<Rightarrow> bool" where
  "rearranged e \<sigma> t n' \<sigma>' t' \<longleftrightarrow> root_is n' t' \<and> nd_changed n' \<and> tree_in \<sigma>' t' \<and> frame \<sigma> (own t) \<sigma>' (own t') \<and>
     inorder t' = inorder t \<and> entries \<sigma>' t' = entries \<sigma> t \<and> wf_tree (Suc e) t' \<and> length (br_seps t) \<le> Suc (length (br_seps t'))"

lemma kids_of_depth:
  assumes "wf_tree e c" and "br_seps c = xl @ [y]"
  obtains kl K where "br_kids c = kl @ K" and "e = 0 \<and> kl = [] \<and> K = [] \<or> e \<noteq> 0 \<and> length kl = Suc (length xl) \<and> (\<exists>k. K = [k])"
proof (cases e)
  case 0
  then show ?thesis using that[of "[]" "[]"] wf_tree_parts(2)[OF assms(1)] by simp
next
  case (Suc f)
  have "length (br_kids c) = Suc (Suc (length xl))" using wf_tree_parts(3)[OF assms(1) Suc] assms(2) by simp
  then show ?thesis using that[of "butlast (br_kids c)" "[last (br_kids c)]"] Suc by (cases "br_kids c" rule: rev_cases) auto
qed

section \<open>Writing nodes\<close>

context node_store
begin

lemma node_bytes_fit:
  assumes "root_is n t" and "storable (br_seps t) (kid_addresses t)" and "\<And>x. x \<in> set (br_seps t) \<Longrightarrow> length (si_key x) \<le> K"
  shows "encode_node n = Inr (bytes_of t)" and "length (bytes_of t) \<le> node_limit K"
  using assms encode_node_is[of n "br_seps t" "kid_addresses t"] length_bytes_of
  by (auto simp: root_is_def bytes_of_def)

lemma uncompressed_new:
  "uncompressed (\<lambda>s. cbind (new_plan cd b s) (\<lambda>(a, s). cret (Some a, s))) s =
     cbind (uncompressed (new_plan cd b) s) (\<lambda>(a, s). cret (Some a, s))"
  by (cases s) (auto simp: uncompressed_def cret_def cbind_def split: option.splits sum.splits prod.splits)

lemma write_node_new:
  assumes "store s (Suc m) \<sigma>" and "root_is n t" and "nd_changed n" and "storable (br_seps t) (kid_addresses t)"
    and "\<And>x. x \<in> set (br_seps t) \<Longrightarrow> length (si_key x) \<le> K"
  shows "\<exists>a s'. write_node_plan cd n None s = cret (Some a, s') \<and> \<sigma> a = None \<and> a \<noteq> NULL_ADDRESS \<and> store s' m (\<sigma>(a \<mapsto> bytes_of t))"
proof -
  note e = node_bytes_fit[OF assms(2,4,5)]
  obtain a s' where "uncompressed (new_plan cd (bytes_of t)) s = cret (a, s')" "\<sigma> a = None" "a \<noteq> NULL_ADDRESS"
      "store s' m (\<sigma>(a \<mapsto> bytes_of t))"
    using new_node[OF assms(1) e(2)] by blast
  then show ?thesis
    using assms(3) e(1) uncompressed_new[of "bytes_of t" s] by (auto simp: write_node_plan_def node_dirty_def cret_def)
qed

lemma write_node_existing:
  assumes "store s (Suc m) \<sigma>" and "\<sigma> a = Some old" and "root_is n t" and "nd_changed n" and "storable (br_seps t) (kid_addresses t)"
    and "\<And>x. x \<in> set (br_seps t) \<Longrightarrow> length (si_key x) \<le> K"
  shows "\<exists>r a' s'. write_node_plan cd n (Some a) s = cret (r, s') \<and> a' = (case r of Some x \<Rightarrow> x | None \<Rightarrow> a) \<and>
     (a' = a \<or> \<sigma> a' = None) \<and> a' \<noteq> NULL_ADDRESS \<and> store s' m (\<sigma>(a := None, a' \<mapsto> bytes_of t))"
  using set_node[OF assms(1,2) node_bytes_fit(2)[OF assms(3,5,6)]] node_bytes_fit(1)[OF assms(3,5,6)] assms(4)
  by (simp add: write_node_plan_def node_dirty_def cret_def)

lemma write_child_raw:
  assumes st: "store s (Suc m) \<sigma>" and i: "i < length (nd_children n)" "kidv n ! i = Some a" and a: "\<sigma> a = Some old" "a \<noteq> NULL_ADDRESS"
    and c: "root_is child c" "storable (br_seps c) (kid_addresses c)" "\<And>x. x \<in> set (br_seps c) \<Longrightarrow> length (si_key x) \<le> K"
    and ch: "nd_changed child \<or> old = bytes_of c"
  shows "\<exists>a' n' s'. write_child cd i child n s = cret (n', s') \<and> (a' = a \<or> \<sigma> a' = None) \<and> a' \<noteq> NULL_ADDRESS \<and>
     store s' m (\<sigma>(a := None, a' \<mapsto> bytes_of c)) \<and> kidv n' = (kidv n)[i := Some a'] \<and> nd_separators n' = nd_separators n \<and>
     (nd_changed n' \<or> a' = a \<and> n' = n)"
proof (cases "nd_changed child")
  case True
  obtain r a' s' where w: "write_node_plan cd child (Some a) s = cret (r, s')" "a' = (case r of Some x \<Rightarrow> x | None \<Rightarrow> a)"
      "a' = a \<or> \<sigma> a' = None" "a' \<noteq> NULL_ADDRESS" "store s' m (\<sigma>(a := None, a' \<mapsto> bytes_of c))"
    using write_node_existing[OF st a(1) c(1) True c(2,3)] by blast
  have ix: "ch_entry_index (nd_children n ! i) = Some a" using i by simp
  show ?thesis
  proof (cases r)
    case None
    have "kidv n = (kidv n)[i := Some a]" using i by (metis list_update_id)
    then show ?thesis using w None True i ix
      by (intro exI[of _ a] exI[of _ n] exI[of _ s']) (simp add: write_child_def child_at_def cret_def)
  next
    case (Some x)
    then show ?thesis using w True i ix
      by (intro exI[of _ a'] exI[of _ "n\<lparr>nd_changed := True, nd_children := (nd_children n)[i := (nd_children n ! i)\<lparr>ch_entry_index := Some x\<rparr>]\<rparr>"]
          exI[of _ s']) (simp add: write_child_def child_at_def put_child_def cret_def map_update)
  qed
next
  case False
  then have "\<sigma>(a := None, a \<mapsto> bytes_of c) = \<sigma>" using a ch by auto
  moreover have "kidv n = (kidv n)[i := Some a]" using i by (metis list_update_id)
  ultimately show ?thesis using False a(2) store_weaken[OF st, of m]
    by (intro exI[of _ a] exI[of _ n] exI[of _ s]) (simp add: write_child_def)
qed

lemma write_child_is:
  assumes st: "store s (Suc m) \<sigma>" and i: "i < length (nd_children n)" "kidv n ! i = Some a"
    and t: "loose I \<sigma> t" "j < length (br_kids t)" "br_kids t ! j = (a, c)" and a: "a \<noteq> NULL_ADDRESS"
    and c: "root_is child c" "storable (br_seps c) (kid_addresses c)" "small K c"
    and ch: "nd_changed child \<or> \<sigma> a = Some (bytes_of c)"
  shows "\<exists>a' n' s' \<sigma>' t'. write_child cd i child n s = cret (n', s') \<and> store s' m \<sigma>' \<and> a' \<noteq> NULL_ADDRESS \<and>
     t' = Br (br_seps t) ((br_kids t)[j := (a', c)]) \<and> loose (I - {j}) \<sigma>' t' \<and> frame \<sigma> (own t) \<sigma>' (own t') \<and>
     inorder t' = inorder t \<and> entries \<sigma>' t' = entries \<sigma> t \<and>
     kidv n' = (kidv n)[i := Some a'] \<and> nd_separators n' = nd_separators n \<and> (nd_changed n' \<or> n' = n)"
proof -
  have "a \<in> own t" unfolding owned_split[OF t(2,3)] by simp
  then obtain old where old: "\<sigma> a = Some old" using t(1) by (auto simp: loose_def)
  have "nd_changed child \<or> old = bytes_of c" using ch old by simp
  from write_child_raw[OF st i old a c(1,2) _ this] c(3)
  obtain a' n' s' where w: "write_child cd i child n s = cret (n', s')" "a' = a \<or> \<sigma> a' = None" "a' \<noteq> NULL_ADDRESS"
      "store s' m (\<sigma>(a := None, a' \<mapsto> bytes_of c))" "kidv n' = (kidv n)[i := Some a']" "nd_separators n' = nd_separators n"
      "nd_changed n' \<or> a' = a \<and> n' = n"
    by (auto simp: small_parts[of K c])
  note k = write_kid[OF t w(2) refl refl]
  show ?thesis using w k by blast
qed

section \<open>Two neighbours\<close>

lemma node_is_written:
  assumes "node_is n xs cs" and "kidv n' = (kidv n)[i := Some a]" and "nd_separators n' = nd_separators n" and "i < length cs"
  shows "node_is n' xs (cs[i := a])"
  using assms arr_set[OF node_isD(2)[OF assms(1)] assms(4), of a] node_isD[OF assms(1)]
  by (auto intro!: node_isI)

lemma node_is_kidv: "node_is n xs cs \<Longrightarrow> i < length cs \<Longrightarrow> i < length (nd_children n) \<and> kidv n ! i = Some (cs ! i)"
proof -
  assume n: "node_is n xs cs" and i: "i < length cs"
  have "length cs \<le> ORDER_CHILD" using arr_length(1)[OF node_isD(2)[OF n]] .
  then show ?thesis using node_is_kid[OF n i] node_is_lengths(2)[OF n] i by simp
qed

lemma write_pair_is:
  assumes st: "store s (Suc (Suc m)) \<sigma>" and n: "root_is n t" and t: "t = Br xs (ks @ (a, c) # (b, d) # ls)"
    and l: "loose {length ks, Suc (length ks)} \<sigma> t" and nn: "a \<noteq> NULL_ADDRESS" "b \<noteq> NULL_ADDRESS"
    and left: "root_is left c" "nd_changed left" "storable (br_seps c) (kid_addresses c)" "small K c"
    and right: "root_is right d" "nd_changed right" "storable (br_seps d) (kid_addresses d)" "small K d"
  shows "\<exists>a' b' n' s' \<sigma>' t'. cbind (write_child cd (length ks) left n s) (\<lambda>(n, s). write_child cd (Suc (length ks)) right n s) = cret (n', s') \<and>
     store s' m \<sigma>' \<and> t' = Br xs (ks @ (a', c) # (b', d) # ls) \<and> a' \<noteq> NULL_ADDRESS \<and> b' \<noteq> NULL_ADDRESS \<and> root_is n' t' \<and> tree_in \<sigma>' t' \<and>
     frame \<sigma> (own t) \<sigma>' (own t') \<and> inorder t' = inorder t \<and> entries \<sigma>' t' = entries \<sigma> t \<and> (nd_changed n \<longrightarrow> nd_changed n')"
proof -
  let ?i = "length ks"
  have n0: "node_is n xs (kid_addresses t)" using n t by (simp add: root_is_def)
  have k: "?i < length (br_kids t)" "br_kids t ! ?i = (a, c)" using t by simp_all
  have i: "?i < length (nd_children n)" "kidv n ! ?i = Some a" using node_is_kidv[OF n0, of ?i] t by (auto simp: nth_append)
  from write_child_is[OF st i l k nn(1) left(1,3,4)] left(2)
  obtain a' n1 s1 \<sigma>1 t1 where w: "write_child cd ?i left n s = cret (n1, s1)" "store s1 (Suc m) \<sigma>1" "a' \<noteq> NULL_ADDRESS"
      "t1 = Br (br_seps t) ((br_kids t)[?i := (a', c)])" "loose ({?i, Suc ?i} - {?i}) \<sigma>1 t1" "frame \<sigma> (own t) \<sigma>1 (own t1)"
      "inorder t1 = inorder t" "entries \<sigma>1 t1 = entries \<sigma> t" "kidv n1 = (kidv n)[?i := Some a']" "nd_separators n1 = nd_separators n"
      "nd_changed n1 \<or> n1 = n"
    by blast
  have t1: "t1 = Br xs (ks @ (a', c) # (b, d) # ls)" using w(4) t by simp
  have n1: "node_is n1 xs (kid_addresses t1)" using node_is_written[OF n0 w(9,10)] t t1 by (simp add: list_update_append)
  have k1: "Suc ?i < length (br_kids t1)" "br_kids t1 ! Suc ?i = (b, d)" using t1 by (simp_all add: nth_append)
  have i1: "Suc ?i < length (nd_children n1)" "kidv n1 ! Suc ?i = Some b"
    using node_is_kidv[OF n1, of "Suc ?i"] t1 by (auto simp: nth_append)
  from write_child_is[OF w(2) i1 w(5) k1 nn(2) right(1,3,4)] right(2)
  obtain b' n2 s2 \<sigma>2 t2 where v: "write_child cd (Suc ?i) right n1 s1 = cret (n2, s2)" "store s2 m \<sigma>2" "b' \<noteq> NULL_ADDRESS"
      "t2 = Br (br_seps t1) ((br_kids t1)[Suc ?i := (b', d)])" "loose ({?i, Suc ?i} - {?i} - {Suc ?i}) \<sigma>2 t2" "frame \<sigma>1 (own t1) \<sigma>2 (own t2)"
      "inorder t2 = inorder t1" "entries \<sigma>2 t2 = entries \<sigma>1 t1" "kidv n2 = (kidv n1)[Suc ?i := Some b']" "nd_separators n2 = nd_separators n1"
      "nd_changed n2 \<or> n2 = n1"
    by blast
  have t2: "t2 = Br xs (ks @ (a', c) # (b', d) # ls)" using v(4) t1 by (simp add: list_update_append)
  have n2: "root_is n2 t2" using node_is_written[OF n1 v(9,10)] t1 t2 by (simp add: root_is_def list_update_append)
  have "{?i, Suc ?i} - {?i} - {Suc ?i} = {}" by auto
  with v(5) have "tree_in \<sigma>2 t2" by (simp only:)
  moreover have "cbind (write_child cd ?i left n s) (\<lambda>(n, s). write_child cd (Suc ?i) right n s) = cret (n2, s2)"
    using w(1) v(1) by (simp add: cret_def)
  ultimately show ?thesis
    using v(2,3,7,8,11) w(3,7,8,11) t2 n2 frame_trans[OF w(6) v(6)]
    by (intro exI[of _ a'] exI[of _ b'] exI[of _ n2] exI[of _ s2] exI[of _ \<sigma>2] exI[of _ t2]) auto
qed

lemma fetch_child_at:
  assumes "store s m \<sigma>" and "i < length (nd_children n)" and "kidv n ! i = Some a" and "\<sigma> a = Some (bytes_of c)"
    and "storable (br_seps c) (kid_addresses c)"
  shows "\<exists>child. fetch_child cd n i (fst s) (writer_query (snd s)) = cret (Some child) \<and> root_is child c \<and> \<not> nd_changed child"
proof -
  have "get_encoded_entry cd a (fst s) (writer_query (snd s)) = cret (bytes_of c)"
    using store_read[OF assms(1)] assms(4) unfolding reads_def by blast
  then show ?thesis
    using assms(2,3) decode_encode[OF assms(5)] clean_node_is[OF assms(5)]
    by (simp add: fetch_child_def child_at_def bytes_of_def root_is_def cret_def)
qed

section \<open>Rebalancing\<close>

text \<open>Two neighbours with new contents around a new separator, once both are written.\<close>

lemma pair_rearranged:
  assumes st: "store s (Suc (Suc m)) \<sigma>" and t: "t = Br (xs @ x # ys) (ks @ (a, c) # (b, d) # ls)" "length ks = length xs"
    and tr: "tree_in \<sigma> t" "small K t" "storable (br_seps t) (kid_addresses t)"
    and rest: "\<And>k. k \<in> set ks \<union> set ls \<Longrightarrow> wf_tree e (snd k) \<and> ORDER div 2 \<le> length (br_seps (snd k))"
    and n: "node_is n (xs @ y # ys) (kid_addresses t)" "nd_changed n" and y: "si_value y \<noteq> NULL_ADDRESS" "length (si_key y) < 2 ^ 32"
    and left: "root_is left c'" "nd_changed left" "wf_tree e c'" "ORDER div 2 \<le> length (br_seps c')" "stored_in \<sigma> c'"
    and right: "root_is right d'" "nd_changed right" "wf_tree e d'" "ORDER div 2 \<le> length (br_seps d')" "stored_in \<sigma> d'"
    and ms: "mset (si_value y # owned c' @ owned d') = mset (si_value x # owned c @ owned d)"
    and io: "inorder c' @ y # inorder d' = inorder c @ x # inorder d"
  shows "\<exists>n' s' \<sigma>' t'. cbind (write_child cd (length ks) left n s) (\<lambda>(n, s). write_child cd (Suc (length ks)) right n s) = cret (n', s') \<and>
     store s' m \<sigma>' \<and> rearranged e \<sigma> t n' \<sigma>' t'"
proof -
  define t1 where "t1 = Br (xs @ y # ys) (ks @ (a, c') # (b, d') # ls)"
  have lt: "length ls = length ys" using tr(3) t by (auto simp: storable_def)
  have "mset (map si_value (xs @ y # ys) @ owned c' @ owned d') = mset (map si_value (xs @ x # ys) @ owned c @ owned d)"
    using ms by simp
  note lo = loose_around[OF tr(1)[unfolded t(1)] this left(5) right(5)]
  have io1: "inorder t1 = inorder t"
    unfolding t1_def t(1) inorder_around(1)[OF t(2) lt] io by (rule refl)
  then have en: "entries \<sigma> t1 = entries \<sigma> t" "small K t1" using tr(2) by (simp_all add: entries_def small_def)
  have sm: "small K c'" "small K d'" using iffD1[OF small_parts en(2)] by (simp_all add: t1_def)
  have nn: "a \<noteq> NULL_ADDRESS" "b \<noteq> NULL_ADDRESS" using tr(3) t by (auto simp: storable_def)
  have n1: "root_is n t1" using n(1) t by (simp add: root_is_def t1_def)
  from write_pair_is[OF st n1 t1_def lo(1)[folded t1_def] nn left(1,2) wf_tree_parts(1)[OF left(3)] sm(1)
      right(1,2) wf_tree_parts(1)[OF right(3)] sm(2)] n(2)
  obtain a' b' n' s' \<sigma>' t' where W: "cbind (write_child cd (length ks) left n s) (\<lambda>(n, s). write_child cd (Suc (length ks)) right n s) = cret (n', s')"
     "store s' m \<sigma>'" "t' = Br (xs @ y # ys) (ks @ (a', c') # (b', d') # ls)" "a' \<noteq> NULL_ADDRESS" "b' \<noteq> NULL_ADDRESS" "root_is n' t'" "tree_in \<sigma>' t'"
     "frame \<sigma> (own t1) \<sigma>' (own t')" "inorder t' = inorder t1" "entries \<sigma>' t' = entries \<sigma> t1" "nd_changed n'"
    by blast
  have "wf_tree (Suc e) t'"
    using W(4,5) tr(3) rest left(3,4) right(3,4) y unfolding W(3) t(1) by (auto simp: storable_def)
  moreover have "length (br_seps t) \<le> Suc (length (br_seps t'))" using W(3) t(1) by simp
  ultimately have "rearranged e \<sigma> t n' \<sigma>' t'"
    using W(6-11) lo(2)[folded t1_def t(1)] io1 en(1) unfolding rearranged_def by simp
  then show ?thesis using W(1,2) by blast
qed

lemma kid_bytes:
  assumes "tree_in \<sigma> t" and "br_kids t = ks @ (a, c) # ls"
  shows "\<sigma> a = Some (bytes_of c)" and "stored_in \<sigma> c"
  using assms stored_kid[of \<sigma> t "(a, c)"] by (auto dest: loose_stored)

lemma fetch_kid:
  assumes "store s m \<sigma>" and "node_is n xs (kid_addresses t)" and "tree_in \<sigma> t" and "br_kids t = ks @ (a, c) # ls" and "wf_tree e c"
  shows "\<exists>child. fetch_child cd n (length ks) (fst s) (writer_query (snd s)) = cret (Some child) \<and> root_is child c \<and> \<not> nd_changed child"
  using fetch_child_at[OF assms(1) _ _ kid_bytes(1)[OF assms(3,4)] wf_tree_parts(1)[OF assms(5)], of "length ks" n]
    node_is_kidv[OF assms(2), of "length ks"] assms(4) by (auto simp: nth_append)

lemma balance_from_left_is:
  assumes st: "store s (Suc (Suc m)) \<sigma>" and n: "root_is n t" and t: "t = Br (xs @ x # ys) (ks @ (a, c) # (b, d) # ls)" "length ks = length xs"
    and tr: "tree_in \<sigma> t" "small K t" "storable (br_seps t) (kid_addresses t)"
    and rest: "\<And>k. k \<in> set ks \<union> set ls \<Longrightarrow> wf_tree e (snd k) \<and> ORDER div 2 \<le> length (br_seps (snd k))"
    and c: "wf_tree e c" "ORDER div 2 < length (br_seps c)"
    and d: "wf_tree e d" "ORDER div 2 \<le> Suc (length (br_seps d))" "length (br_seps d) < ORDER"
    and left: "root_is left c"
  shows "\<exists>n' s' \<sigma>' t'. balance_from_left cd (e \<noteq> 0) (Suc (length ks)) left n s = cret (n', s') \<and> store s' m \<sigma>' \<and> rearranged e \<sigma> t n' \<sigma>' t'"
proof -
  obtain xl y where xl: "br_seps c = xl @ [y]" using c(2) by (cases "br_seps c" rule: rev_cases) auto
  obtain kl Kl where kl: "br_kids c = kl @ Kl" "e = 0 \<and> kl = [] \<and> Kl = [] \<or> e \<noteq> 0 \<and> length kl = Suc (length xl) \<and> (\<exists>k. Kl = [k])"
    using kids_of_depth[OF c(1) xl] by blast
  obtain xr kr where dr: "d = Br xr kr" by (cases d)
  have cl: "c = Br (xl @ [y]) (kl @ Kl)" using xl kl(1) by (cases c) simp
  have kr: "e = 0 \<and> kr = [] \<or> e \<noteq> 0 \<and> length kr = Suc (length xr)"
    using wf_tree_parts(2,3)[OF d(1)] dr by (cases e) auto
  have sx: "si_value x \<noteq> NULL_ADDRESS" "length (si_key x) < 2 ^ 32" "si_value y \<noteq> NULL_ADDRESS" "length (si_key y) < 2 ^ 32"
    using tr(3) t wf_tree_parts(1)[OF c(1)] xl by (auto simp: storable_def)
  have wf: "wf_tree e (Br xl kl)" "wf_tree e (Br (x # xr) (Kl @ kr))"
    using c(1) d(1,3) kl(2) kr sx unfolding cl dr by (cases e; auto simp: storable_def)+
  have ln: "node_is left (xl @ [y]) (map fst kl @ map fst Kl)" using left cl by (simp add: root_is_def)
  have "map fst kl @ map fst Kl = [] \<or> length (map fst Kl) = 1" using kl(2) by auto
  from remove_last_is[OF ln this] kl(2)
  obtain cc left1 sep2 left2 where L: "(if e \<noteq> 0 then rbind (remove_child (length xl + 1) left) (\<lambda>(c, n). Inr (Some c, n)) else Inr (None, left)) = Inr (cc, left1)"
      "cc = None \<longleftrightarrow> e = 0" "\<And>z. cc = Some z \<Longrightarrow> map Some (map fst Kl) = [ch_entry_index z]"
      "remove_separator (length xl) left1 = Inr (sep2, left2)" "sp_separator sep2 = Some y" "nd_changed left2" "node_is left2 xl (map fst kl)"
    by fastforce
  have nn: "node_is n (xs @ x # ys) (kid_addresses t)" using n t by (simp add: root_is_def)
  from exchange_separator_is[OF nn L(5)]
  obtain old n1 n2 where N: "remove_separator (length xs) n = Inr (old, n1)" "sp_separator old = Some x"
      "set_separator (length xs) sep2 n1 = Inr n2" "nd_changed n2" "node_is n2 (xs @ y # ys) (kid_addresses t)"
    by blast
  from fetch_kid[OF st N(5) tr(1) _ d(1), of "ks @ [(a, c)]" b ls] t(1)
  obtain right where R: "fetch_child cd n2 (Suc (length ks)) (fst s) (writer_query (snd s)) = cret (Some right)" "root_is right d" by auto
  have rn: "node_is right xr (map fst kr)" using R(2) dr by (simp add: root_is_def)
  have "cc = None \<longleftrightarrow> map fst kr = []" using L(2) kr by auto
  moreover have "ch_entry_index z = Some (hd (map fst Kl))" if "cc = Some z" for z using L(3)[OF that] by auto
  moreover have "length xr < ORDER" using d(3) dr by simp
  ultimately obtain r1 r2 r3 where P: "shift_from 0 (map fst kr \<noteq> []) True right = Inr r1"
      "(case cc of Some c \<Rightarrow> set_child 0 c r1 | None \<Rightarrow> Inr r1) = Inr r2" "set_separator 0 old r2 = Inr r3" "nd_changed r3"
      "node_is r3 (x # xr) (if map fst kr = [] then [] else hd (map fst Kl) # map fst kr)"
    using prepend_is[OF rn _ N(2), of cc "hd (map fst Kl)"] by blast
  have r3: "root_is r3 (Br (x # xr) (Kl @ kr))" "root_is left2 (Br xl kl)"
    using P(5) L(7) kr kl(2) by (cases "kr = []"; auto simp: root_is_def)+
  have "stored_in \<sigma> c" "stored_in \<sigma> d" using tr(1) t by (simp_all add: loose_def)
  then have sc: "stored_in \<sigma> (Br xl kl)" "stored_in \<sigma> (Br (x # xr) (Kl @ kr))" unfolding cl dr by auto
  have "kl = [] \<and> Kl = [] \<and> kr = [] \<or> length kl = Suc (length xl) \<and> Kl = [hd Kl] \<and> length kr = Suc (length xr)" using kl(2) kr by auto
  note io = rotate_inorder[OF this, of y x, folded cl dr, symmetric]
  have ms: "mset (si_value y # owned (Br xl kl) @ owned (Br (x # xr) (Kl @ kr))) = mset (si_value x # owned c @ owned d)"
    by (simp add: cl dr)
  have "ORDER div 2 \<le> length (br_seps (Br xl kl))" "ORDER div 2 \<le> length (br_seps (Br (x # xr) (Kl @ kr)))"
    using c(2) d(2) by (simp_all add: cl dr)
  from pair_rearranged[OF st t tr rest N(5,4) sx(3,4) r3(2) L(6) wf(1) this(1) sc(1) r3(1) P(4) wf(2) this(2) sc(2) ms io]
  obtain n' s' \<sigma>' t' where W: "cbind (write_child cd (length ks) left2 n2 s) (\<lambda>(n, s). write_child cd (Suc (length ks)) r3 n s) = cret (n', s')"
     "store s' m \<sigma>'" "rearranged e \<sigma> t n' \<sigma>' t'"
    by blast
  have "last_separator_index left = Some (length xl)" using last_separator_is[OF ln] by simp
  moreover have "(map fst kr \<noteq> []) = (0 < e)" using kr by auto
  ultimately have "balance_from_left cd (e \<noteq> 0) (Suc (length ks)) left n s = cret (n', s')"
    using L(1,4) N(1,3) R(1) P(1,2,3) W(1) unfolding balance_from_left_def t(2) by (simp add: cret_def unwrap_node_def)
  then show ?thesis using W(2,3) by blast
qed

lemma balance_from_right_is:
  assumes st: "store s (Suc (Suc m)) \<sigma>" and n: "root_is n t" and t: "t = Br (xs @ x # ys) (ks @ (a, c) # (b, d) # ls)" "length ks = length xs"
    and tr: "tree_in \<sigma> t" "small K t" "storable (br_seps t) (kid_addresses t)"
    and rest: "\<And>k. k \<in> set ks \<union> set ls \<Longrightarrow> wf_tree e (snd k) \<and> ORDER div 2 \<le> length (br_seps (snd k))"
    and c: "wf_tree e c" "ORDER div 2 \<le> Suc (length (br_seps c))" "length (br_seps c) < ORDER"
    and d: "wf_tree e d" "ORDER div 2 < length (br_seps d)"
    and right: "root_is right d"
  shows "\<exists>n' s' \<sigma>' t'. balance_from_right cd (e \<noteq> 0) (length ks) right n s = cret (n', s') \<and> store s' m \<sigma>' \<and> rearranged e \<sigma> t n' \<sigma>' t'"
proof -
  obtain y xr where xr: "br_seps d = y # xr" using d(2) by (cases "br_seps d") auto
  obtain Kr kr where kr: "br_kids d = Kr @ kr" "e = 0 \<and> kr = [] \<and> Kr = [] \<or> e \<noteq> 0 \<and> length kr = Suc (length xr) \<and> (\<exists>k. Kr = [k])"
  proof (cases e)
    case (Suc f)
    then show ?thesis using that[of "[hd (br_kids d)]" "tl (br_kids d)"] wf_tree_parts(3)[OF d(1) Suc] xr by (cases "br_kids d") auto
  qed (use that[of "[]" "[]"] wf_tree_parts(2)[OF d(1)] in simp)
  obtain xl kl where cl: "c = Br xl kl" by (cases c)
  have dr: "d = Br (y # xr) (Kr @ kr)" using xr kr(1) by (cases d) simp
  have kl: "e = 0 \<and> kl = [] \<or> e \<noteq> 0 \<and> length kl = Suc (length xl)"
    using wf_tree_parts(2,3)[OF c(1)] cl by (cases e) auto
  have sx: "si_value x \<noteq> NULL_ADDRESS" "length (si_key x) < 2 ^ 32" "si_value y \<noteq> NULL_ADDRESS" "length (si_key y) < 2 ^ 32"
    using tr(3) t wf_tree_parts(1)[OF d(1)] xr by (auto simp: storable_def)
  have wf: "wf_tree e (Br (xl @ [x]) (kl @ Kr))" "wf_tree e (Br xr kr)"
    using d(1) c(1,3) kr(2) kl sx unfolding cl dr by (cases e; auto simp: storable_def)+
  have rn: "node_is right (y # xr) (map fst (Kr @ kr))" using right dr by (simp add: root_is_def)
  have he: "(map fst (Kr @ kr) \<noteq> []) = (e \<noteq> 0)" using kr(2) by auto
  from remove_first_is[OF rn, unfolded he]
  obtain cc right1 sep2 right2 where R: "(if e \<noteq> 0 then rbind (remove_child 0 right) (\<lambda>(c, n). Inr (Some c, n)) else Inr (None, right)) = Inr (cc, right1)"
      "cc = None \<longleftrightarrow> e = 0" "\<And>z. cc = Some z \<Longrightarrow> ch_entry_index z = Some (hd (map fst (Kr @ kr)))"
      "remove_separator 0 right1 = Inr (sep2, right2)" "sp_separator sep2 = Some y"
      "nd_changed (remove_from 0 (e \<noteq> 0) True right2)" "node_is (remove_from 0 (e \<noteq> 0) True right2) xr (tl (map fst (Kr @ kr)))"
    using he by auto
  have nn: "node_is n (xs @ x # ys) (kid_addresses t)" using n t by (simp add: root_is_def)
  from exchange_separator_is[OF nn R(5)]
  obtain old n1 n2 where N: "remove_separator (length xs) n = Inr (old, n1)" "sp_separator old = Some x"
      "set_separator (length xs) sep2 n1 = Inr n2" "nd_changed n2" "node_is n2 (xs @ y # ys) (kid_addresses t)"
    by blast
  from fetch_kid[OF st N(5) tr(1) _ c(1), of ks a "(b, d) # ls"] t(1)
  obtain left where L: "fetch_child cd n2 (length ks) (fst s) (writer_query (snd s)) = cret (Some left)" "root_is left c" by auto
  have ln: "node_is left xl (map fst kl)" using L(2) cl by (simp add: root_is_def)
  have "cc = None \<longleftrightarrow> map fst kl = []" using R(2) kl by auto
  moreover have "ch_entry_index z = Some (hd (map fst Kr))" if "cc = Some z" for z using R(3)[OF that] R(2) that kr(2) by auto
  moreover have "length xl < ORDER" using c(3) cl by simp
  ultimately obtain l1 l2 where P: "set_separator (length xl) old left = Inr l1"
      "(case cc of Some c \<Rightarrow> set_child (length xl + 1) c l1 | None \<Rightarrow> Inr l1) = Inr l2" "nd_changed l2"
      "node_is l2 (xl @ [x]) (if map fst kl = [] then [] else map fst kl @ [hd (map fst Kr)])"
    using append_is[OF ln _ N(2), of cc "hd (map fst Kr)"] by blast
  have l2: "root_is l2 (Br (xl @ [x]) (kl @ Kr))" "root_is (remove_from 0 (e \<noteq> 0) True right2) (Br xr kr)"
    using P(4) R(7) kr(2) kl by (cases "kl = []"; auto simp: root_is_def)+
  have "stored_in \<sigma> c" "stored_in \<sigma> d" using tr(1) t by (simp_all add: loose_def)
  then have sc: "stored_in \<sigma> (Br (xl @ [x]) (kl @ Kr))" "stored_in \<sigma> (Br xr kr)" unfolding cl dr by auto
  have "kl = [] \<and> Kr = [] \<and> kr = [] \<or> length kl = Suc (length xl) \<and> Kr = [hd Kr] \<and> length kr = Suc (length xr)" using kr(2) kl by auto
  note io = rotate_inorder[OF this, of x y, folded cl dr]
  have ms: "mset (si_value y # owned (Br (xl @ [x]) (kl @ Kr)) @ owned (Br xr kr)) = mset (si_value x # owned c @ owned d)"
    by (simp add: cl dr)
  have "ORDER div 2 \<le> length (br_seps (Br (xl @ [x]) (kl @ Kr)))" "ORDER div 2 \<le> length (br_seps (Br xr kr))"
    using c(2) d(2) by (simp_all add: cl dr)
  from pair_rearranged[OF st t tr rest N(5,4) sx(3,4) l2(1) P(3) wf(1) this(1) sc(1) l2(2) R(6) wf(2) this(2) sc(2) ms io]
  obtain n' s' \<sigma>' t' where W: "cbind (write_child cd (length ks) l2 n2 s)
       (\<lambda>(n, s). write_child cd (Suc (length ks)) (remove_from 0 (e \<noteq> 0) True right2) n s) = cret (n', s')"
     "store s' m \<sigma>'" "rearranged e \<sigma> t n' \<sigma>' t'"
    by blast
  have "(case cc of Some c \<Rightarrow> set_child (number_separator left + 1) c l1 | None \<Rightarrow> Inr l1) = Inr l2"
    unfolding number_separator_is[OF ln] by (rule P(2))
  then have "balance_from_right cd (e \<noteq> 0) (length ks) right n s = cret (n', s')"
    using R(1,4) N(1,3) L(1) P(1) W(1) number_separator_is[OF ln] unfolding balance_from_right_def t(2)
    by (simp add: cret_def unwrap_node_def Let_def)
  then show ?thesis using W(2,3) by blast
qed

text \<open>The node that a merge has emptied is stored once more, at a new address.\<close>

lemma write_emptied:
  assumes st: "store s (Suc m) \<sigma>" and r: "nd_changed r" "length (nd_separators r) = ORDER" "sepv r ! 0 = None"
    and i: "i < length (nd_children n)" "kidv n ! i = None"
  shows "\<exists>b v n' s'. write_child cd i r n s = cret (n', s') \<and> \<sigma> b = None \<and> store s' m (\<sigma>(b \<mapsto> v)) \<and>
     kidv n' = (kidv n)[i := Some b] \<and> nd_separators n' = nd_separators n \<and> nd_changed n'"
proof -
  obtain v where v: "encode_node r = Inr v" "length v = 8" using encode_empty[OF r(2,3)] by blast
  then have "length v \<le> node_limit K" by (simp add: node_limit_def)
  from new_node[OF st this] obtain b s' where s': "uncompressed (new_plan cd v) s = cret (b, s')" "\<sigma> b = None" "store s' m (\<sigma>(b \<mapsto> v))"
    by blast
  have "write_node_plan cd r None s = cret (Some b, s')"
    using uncompressed_new[of v s] s'(1) v(1) r(1) by (simp add: write_node_plan_def node_dirty_def cret_def)
  moreover have "ch_entry_index (nd_children n ! i) = None" using i by simp
  ultimately show ?thesis using s' r(1) i(1)
    by (intro exI[of _ b] exI[of _ v] exI[of _ "n\<lparr>nd_changed := True, nd_children := (nd_children n)[i := (nd_children n ! i)\<lparr>ch_entry_index := Some b\<rparr>]\<rparr>"]
        exI[of _ s']) (simp add: write_child_def child_at_def put_child_def cret_def map_update)
qed

lemma remove_node_is: "store s m \<sigma> \<Longrightarrow> \<sigma> a = Some old \<Longrightarrow> \<exists>s'. write_plan_remove_node cd a s = cret s' \<and> store s' m (\<sigma>(a := None))"
  using remove_stored[of s m \<sigma> a old] by (auto simp: write_plan_remove_node_def cret_def)

lemma balance_merge_is:
  assumes st: "store s (Suc (Suc m)) \<sigma>" and n: "root_is n t" and t: "t = Br (xs @ x # ys) (ks @ (a, c) # (b, d) # ls)" "length ks = length xs"
    and tr: "tree_in \<sigma> t" "small K t" "storable (br_seps t) (kid_addresses t)"
    and rest: "\<And>k. k \<in> set ks \<union> set ls \<Longrightarrow> wf_tree e (snd k) \<and> ORDER div 2 \<le> length (br_seps (snd k))"
    and c: "wf_tree e c" and d: "wf_tree e d" "br_seps d \<noteq> []"
    and cd: "length (br_seps c) + length (br_seps d) < ORDER" "ORDER div 2 \<le> Suc (length (br_seps c) + length (br_seps d))"
    and lr: "root_is left c" "root_is right d"
  shows "\<exists>n' s' \<sigma>' t'. balance_merge cd (e \<noteq> 0) (length ks) (Some left) (Some right) n s = cret (n', s') \<and> store s' m \<sigma>' \<and> rearranged e \<sigma> t n' \<sigma>' t'"
proof -
  obtain xl kl where cl: "c = Br xl kl" by (cases c)
  obtain xr kr where dr: "d = Br xr kr" by (cases d)
  have kk: "e = 0 \<and> kl = [] \<and> kr = [] \<or> e \<noteq> 0 \<and> length kl = Suc (length xl) \<and> length kr = Suc (length xr)"
    using wf_tree_parts(2,3)[OF c] wf_tree_parts(2,3)[OF d(1)] cl dr by (cases e) auto
  let ?at = "length ks" and ?c = "Br (xl @ x # xr) (kl @ kr)"
  have sx: "si_value x \<noteq> NULL_ADDRESS" "length (si_key x) < 2 ^ 32" "a \<noteq> NULL_ADDRESS" and lt: "length ls = length ys"
    using tr(3) t by (auto simp: storable_def)
  have wf: "wf_tree e ?c" using c d(1) cd kk sx unfolding cl dr by (cases e; auto simp: storable_def)
  \<comment> \<open>the nodes in memory\<close>
  have nn: "node_is n (xs @ x # ys) (kid_addresses t)" using n t by (simp add: root_is_def)
  note ln = node_is_lengths[OF nn]
  have at: "?at < length (nd_separators n)" using t(2) ln by simp
  obtain sep n1 where N: "remove_separator ?at n = Inr (sep, n1)" "sp_separator sep = sepv n ! ?at"
      "sepv n1 = (sepv n)[?at := None]" "nd_children n1 = nd_children n"
    using remove_separator_view[OF at] by blast
  have sep: "sp_separator sep = Some x" using N(2) node_is_sep[OF nn, of ?at] at ln t(2) by (simp add: nth_append)
  have "node_is left xl (map fst kl)" "node_is right xr (map fst kr)" using lr cl dr by (simp_all add: root_is_def)
  moreover have he: "(map fst kl = []) = (map fst kr = [])" "(map fst kl \<noteq> []) = (e \<noteq> 0)" using kk by auto
  ultimately obtain l' r' where M: "merge_right (e \<noteq> 0) sep left right = Inr (l', r')" "nd_changed l'" "nd_changed r'"
      "node_is l' (xl @ x # xr) (map fst kl @ map fst kr)" "length (nd_separators r') = ORDER" "sepv r' = replicate ORDER None"
    using merge_right_is[of left xl "map fst kl" right xr "map fst kr" sep x] cd(1) d(2) sep unfolding cl dr he(2) by auto
  have i1: "Suc ?at < length (nd_children n1)" "kidv n ! Suc ?at = Some b"
    using node_is_kidv[OF nn, of "Suc ?at"] N(4) t(1) by (auto simp: nth_append)
  obtain cc n2 where C: "remove_child (Suc ?at) n1 = Inr (cc, n2)" "ch_entry_index cc = Some b" "kidv n2 = (kidv n)[Suc ?at := None]"
      "nd_separators n2 = nd_separators n1"
    using remove_child_view[OF i1(1)] i1(2) N(4) by auto
  have len2: "length (nd_children n2) = length (nd_children n)" using arg_cong[OF C(3), of length] by simp
  \<comment> \<open>the store\<close>
  obtain s1 where S1: "write_plan_remove_node cd b s = cret s1" "store s1 (Suc (Suc m)) (\<sigma>(b := None))"
    using remove_node_is[OF st kid_bytes(1)[OF tr(1), of "ks @ [(a, c)]" b d ls]] t(1) by auto
  define t1 where "t1 = Br (xs @ ys) (ks @ (a, ?c) # ls)"
  have "stored_in \<sigma> c" "stored_in \<sigma> d" using tr(1) t by (simp_all add: loose_def)
  then have sc: "stored_in \<sigma> ?c" unfolding cl dr by auto
  have "mset (map si_value (xs @ ys) @ owned ?c) = mset (map si_value (xs @ x # ys) @ owned c @ owned d)" by (simp add: cl dr)
  note lo = loose_merge[OF tr(1) t(1) refl this sc t1_def]
  have io: "inorder t1 = inorder t"
    using merge_inorder[of kl kr xl xr x] kk unfolding t1_def t(1) inorder_around[OF t(2) lt] cl dr by auto
  have "entries (\<sigma>(b := None)) t1 = entries \<sigma> t1" by (rule entries_cong) (rule lo(3))
  then have en: "entries (\<sigma>(b := None)) t1 = entries \<sigma> t" using io by (simp add: entries_def)
  have sm: "small K ?c" using tr(2) io iffD1[OF small_parts, of K t1] by (simp add: small_def t1_def)
  have k1: "?at < length (br_kids t1)" "br_kids t1 ! ?at = (a, ?c)" by (simp_all add: t1_def)
  have i2: "?at < length (nd_children n2)" "kidv n2 ! ?at = Some a"
    using node_is_kidv[OF nn, of ?at] len2 C(3) t(1) by (auto simp: nth_append)
  have "root_is l' ?c" using M(4) by (simp add: root_is_def)
  from write_child_is[OF S1(2) i2 lo(1) k1 sx(3) this wf_tree_parts(1)[OF wf] sm disjI1[OF M(2)]]
  obtain a' n3 s2 \<sigma>2 t2 where W: "write_child cd ?at l' n2 s1 = cret (n3, s2)" "store s2 (Suc m) \<sigma>2" "a' \<noteq> NULL_ADDRESS"
      "t2 = Br (br_seps t1) ((br_kids t1)[?at := (a', ?c)])" "loose ({?at} - {?at}) \<sigma>2 t2" "frame (\<sigma>(b := None)) (own t1) \<sigma>2 (own t2)"
      "inorder t2 = inorder t1" "entries \<sigma>2 t2 = entries (\<sigma>(b := None)) t1" "kidv n3 = (kidv n2)[?at := Some a']" "nd_separators n3 = nd_separators n2"
    by blast
  have t2: "t2 = Br (xs @ ys) (ks @ (a', ?c) # ls)" "tree_in \<sigma>2 t2" using W(4,5) by (simp_all add: t1_def)
  have "length (nd_children n3) = length (nd_children n)" using arg_cong[OF W(9), of length] len2 by simp
  then have i3: "Suc ?at < length (nd_children n3)" "kidv n3 ! Suc ?at = None" using i1(1) N(4) W(9) C(3) len2 by simp_all
  have "sepv r' ! 0 = None" unfolding M(6) by (simp add: ORDER_def)
  from write_emptied[OF W(2) M(3,5) this i3]
  obtain j v n4 s3 where E: "write_child cd (Suc ?at) r' n3 s2 = cret (n4, s3)" "\<sigma>2 j = None" "store s3 m (\<sigma>2(j \<mapsto> v))"
      "kidv n4 = (kidv n3)[Suc ?at := Some j]" "nd_separators n4 = nd_separators n3"
    by blast
  have f: "frame \<sigma>2 (own t2) (\<sigma>2(j \<mapsto> v)) (own t2)" using E(2) by (auto simp: frame_def)
  have "own t2 \<subseteq> dom \<sigma>2" using t2(2) by (simp add: loose_def)
  then have keep: "(\<sigma>2(j \<mapsto> v)) x = \<sigma>2 x" if "x \<in> own t2" for x using that E(2) by auto
  have "tree_in (\<sigma>2(j \<mapsto> v)) t2"
    using tree_in_keep(1)[OF t2(2) frame_new[of \<sigma>2 j v]] E(2) by simp
  moreover have "entries (\<sigma>2(j \<mapsto> v)) t2 = entries \<sigma> t"    unfolding en[symmetric] W(8)[symmetric] by (rule entries_cong) (rule keep)
  moreover have "frame \<sigma> (own t) (\<sigma>2(j \<mapsto> v)) (own t2)" using frame_trans[OF frame_trans[OF lo(2) W(6)] f] .
  moreover have "wf_tree (Suc e) t2"
    using wf rest tr(3) W(3) cd(2) unfolding t2(1) t(1) cl dr by (auto simp: storable_def)
  moreover have "nd_changed (remove_from ?at True False n4)" "root_is (remove_from ?at True False n4) t2"
  proof -
    have "?at < length (xs @ x # ys)" "kid_addresses t \<noteq> []" using t by auto
    moreover have "sepv n4 = (sepv n)[?at := None]" using E(5) W(10) C(4) N(3) by simp
    moreover have "kidv n4 = (kidv n)[?at := Some a', ?at + 1 := Some j]" using E(4) W(9) C(3) by (simp add: list_update_swap)
    ultimately show "nd_changed (remove_from ?at True False n4)" "root_is (remove_from ?at True False n4) t2"
      using remove_merged_is[OF nn, of ?at n4 a' "Some j"] t by (simp_all add: root_is_def t2(1))
  qed
  ultimately have "rearranged e \<sigma> t (remove_from ?at True False n4) (\<sigma>2(j \<mapsto> v)) t2"
    using io W(7) t2(1) t(1) unfolding rearranged_def by simp
  moreover have "balance_merge cd (e \<noteq> 0) ?at (Some left) (Some right) n s = cret (remove_from ?at True False n4, s3)"
    using N(1) M(1) C(1,2) S1(1) W(1) E(1) by (simp add: balance_merge_def unwrap_node_def cret_def unwrap_def)
  ultimately show ?thesis using E(3) by blast
qed

lemma pair_at:
  assumes wf: "wf_kids e ((\<lambda>_. ORDER div 2)(at := ORDER div 2 - 1)) t" and i: "i < length (br_seps t)" and at: "at = i \<or> at = Suc i"
  obtains xs x ys ks a c b d ls where "t = Br (xs @ x # ys) (ks @ (a, c) # (b, d) # ls)" and "length ks = length xs" and "length ks = i"
    and "\<And>k. k \<in> set ks \<union> set ls \<Longrightarrow> wf_tree e (snd k) \<and> ORDER div 2 \<le> length (br_seps (snd k))"
    and "wf_tree e c" and "wf_tree e d" and "c = snd (br_kids t ! i)" and "d = snd (br_kids t ! Suc i)"
proof -
  obtain zs ms where t: "t = Br zs ms" by (cases t)
  have lm: "length ms = Suc (length zs)" using wf t by (simp add: wf_kids_def)
  have kid: "wf_tree e (snd (ms ! j)) \<and> (j \<noteq> at \<longrightarrow> ORDER div 2 \<le> length (br_seps (snd (ms ! j))))" if "j < length ms" for j
    using wf that unfolding wf_kids_def t by (auto split: if_splits)
  have "zs = take i zs @ zs ! i # drop (Suc i) zs" using i t by (simp add: id_take_nth_drop[symmetric])
  moreover have "ms = take i ms @ ms ! i # ms ! Suc i # drop (Suc (Suc i)) ms"
    using i t lm by (simp add: id_take_nth_drop[symmetric] Cons_nth_drop_Suc)
  ultimately have T: "t = Br (take i zs @ zs ! i # drop (Suc i) zs)
      (take i ms @ (fst (ms ! i), snd (ms ! i)) # (fst (ms ! Suc i), snd (ms ! Suc i)) # drop (Suc (Suc i)) ms)"
    unfolding t by simp
  have R: "wf_tree e (snd k) \<and> ORDER div 2 \<le> length (br_seps (snd k))" if k: "k \<in> set (take i ms) \<union> set (drop (Suc (Suc i)) ms)" for k
  proof -
    have "\<exists>j<length ms. k = ms ! j \<and> j \<noteq> i \<and> j \<noteq> Suc i"
    proof (cases "k \<in> set (take i ms)")
      case True
      then show ?thesis by (auto simp: in_set_conv_nth)
    next
      case False
      then obtain l where "l < length ms - Suc (Suc i)" "k = ms ! (Suc (Suc i) + l)" using k by (auto simp: in_set_conv_nth)
      then show ?thesis by (intro exI[of _ "Suc (Suc i) + l"]) auto
    qed
    then show ?thesis using kid at by blast
  qed
  show ?thesis
    by (rule that[OF T _ _ R]) (use kid[of i] kid[of "Suc i"] i t lm in simp_all)
qed

text \<open>
  \<open>rebalance\<close>: a child with one separator too few takes one from its left or its right sibling, or is
  merged with one of them; the tree keeps its content and all children are at least half full.
\<close>

lemma rebalance_is:
  assumes st: "store s (Suc (Suc m)) \<sigma>" and n: "root_is n t" and tr: "tree_in \<sigma> t" "small K t"
    and wf: "wf_kids e ((\<lambda>_. ORDER div 2)(at := ORDER div 2 - 1)) t"
    and at: "at < length (br_kids t)" and seps: "br_seps t \<noteq> []" and short: "length (br_seps (snd (br_kids t ! at))) < ORDER div 2"
  shows "\<exists>n' s' \<sigma>' t'. rebalance cd (Suc e) at n s = cret (n', s') \<and> store s' m \<sigma>' \<and> rearranged e \<sigma> t n' \<sigma>' t'"
proof -
  have sto: "storable (br_seps t) (kid_addresses t)" and lk: "length (br_kids t) = Suc (length (br_seps t))"
    using wf by (simp_all add: wf_kids_def)
  have kid: "wf_tree e (snd (br_kids t ! j))" "j \<noteq> at \<Longrightarrow> ORDER div 2 \<le> length (br_seps (snd (br_kids t ! j)))"
      "ORDER div 2 \<le> Suc (length (br_seps (snd (br_kids t ! j))))" if "j < length (br_kids t)" for j
    using wf that by (auto simp: wf_kids_def ORDER_def split: if_splits)
  have nn: "node_is n (br_seps t) (kid_addresses t)" using n by (simp add: root_is_def)
  have ns: "number_separator n = length (br_seps t)" by (rule number_separator_is[OF nn])
  let ?fetch = "\<lambda>i. fetch_child cd n i (fst s) (writer_query (snd s))"
  have fetch: "\<exists>child. ?fetch j = cret (Some child) \<and> root_is child (snd (br_kids t ! j)) \<and>
      sibling_has_spare (Some child) = Inr (ORDER div 2 < length (br_seps (snd (br_kids t ! j))))" if j: "j < length (br_kids t)" for j
  proof -
    have "br_kids t = take j (br_kids t) @ (fst (br_kids t ! j), snd (br_kids t ! j)) # drop (Suc j) (br_kids t)"
      using j by (simp add: id_take_nth_drop[symmetric])
    from fetch_kid[OF st nn tr(1) this kid(1)[OF j]] j obtain child where c: "?fetch j = cret (Some child)" "root_is child (snd (br_kids t ! j))"
      by auto
    then show ?thesis
      using has_separator_is[of child "br_seps (snd (br_kids t ! j))" "kid_addresses (snd (br_kids t ! j))" "ORDER div 2"]
      by (intro exI[of _ child]) (simp add: sibling_has_spare_def root_is_def ORDER_def)
  qed
  define spare where "spare j \<longleftrightarrow> j < length (br_kids t) \<and> ORDER div 2 < length (br_seps (snd (br_kids t ! j)))" for j
  have sibling: "\<exists>lo. (if b then ?fetch j else cret None) = cret lo \<and> sibling_has_spare lo = Inr (b \<and> spare j) \<and>
      (b \<longrightarrow> (\<exists>l. lo = Some l \<and> root_is l (snd (br_kids t ! j))))" if j: "b \<Longrightarrow> j < length (br_kids t)" for b j
  proof (cases b)
    case True
    then obtain child where "?fetch j = cret (Some child)" "root_is child (snd (br_kids t ! j))"
        "sibling_has_spare (Some child) = Inr (ORDER div 2 < length (br_seps (snd (br_kids t ! j))))"
      using fetch[OF j] by blast
    then show ?thesis using True j by (intro exI[of _ "Some child"]) (simp add: spare_def)
  qed (auto simp: sibling_has_spare_def intro: exI[of _ None])
  have "at - 1 < length (br_kids t)" using at by simp
  note L = sibling[of "0 < at" "at - 1", OF this]
  have "at + 1 < number_separator n + 1 \<Longrightarrow> at + 1 < length (br_kids t)" using ns lk by simp
  note R = sibling[of "at + 1 < number_separator n + 1" "at + 1", OF this]
  have "at < length (br_seps t) \<or> at = length (br_seps t) \<and> 0 < at" using at lk seps by (cases "br_seps t") auto
  then consider (left) "0 < at" "spare (at - 1)" | (right) "\<not> (0 < at \<and> spare (at - 1))" "spare (Suc at)" "at < length (br_seps t)"
    | (last) "\<not> (0 < at \<and> spare (at - 1))" "0 < at" "at = length (br_seps t)"
    | (inner) "\<not> (0 < at \<and> spare (at - 1))" "\<not> spare (Suc at)" "at < length (br_seps t)"
    by blast
  then show ?thesis
  proof cases
    case left
    then have i: "at - 1 < length (br_seps t)" "at = at - 1 \<or> at = Suc (at - 1)" using at lk by auto
    obtain l where l: "?fetch (at - 1) = cret (Some l)" "root_is l (snd (br_kids t ! (at - 1)))" "sibling_has_spare (Some l) = Inr True"
      using L left by auto
    from pair_at[OF wf i] obtain xs x ys ks a c b d ls where T: "t = Br (xs @ x # ys) (ks @ (a, c) # (b, d) # ls)" "length ks = length xs"
        "length ks = at - 1" "\<And>k. k \<in> set ks \<union> set ls \<Longrightarrow> wf_tree e (snd k) \<and> ORDER div 2 \<le> length (br_seps (snd k))"
        "wf_tree e c" "wf_tree e d" "c = snd (br_kids t ! (at - 1))" "d = snd (br_kids t ! Suc (at - 1))"
      by blast
    have "d = snd (br_kids t ! at)" using T(8) left(1) by simp
    then have dl: "ORDER div 2 \<le> Suc (length (br_seps d))" "length (br_seps d) < ORDER" using kid(3)[OF at] short by (simp_all add: ORDER_def)
    have cl: "ORDER div 2 < length (br_seps c)" "root_is l c" using left(2) T(7) l(2) by (simp_all add: spare_def)
    from balance_from_left_is[OF st n T(1,2) tr sto T(4,5) cl(1) T(6) dl cl(2)]
    show ?thesis using l left(1) T(3) unfolding rebalance_def by (simp add: Let_def cret_def unwrap_node_def unwrap_def)
  next
    case right
    obtain lo where lo: "(if 0 < at then ?fetch (at - 1) else cret None) = cret lo" "sibling_has_spare lo = Inr False" using L right(1) by auto
    obtain r where r: "?fetch (at + 1) = cret (Some r)" "root_is r (snd (br_kids t ! Suc at))" "sibling_has_spare (Some r) = Inr True"
      using R right(2,3) ns by auto
    from pair_at[OF wf right(3)] obtain xs x ys ks a c b d ls where T: "t = Br (xs @ x # ys) (ks @ (a, c) # (b, d) # ls)" "length ks = length xs"
        "length ks = at" "\<And>k. k \<in> set ks \<union> set ls \<Longrightarrow> wf_tree e (snd k) \<and> ORDER div 2 \<le> length (br_seps (snd k))"
        "wf_tree e c" "wf_tree e d" "c = snd (br_kids t ! at)" "d = snd (br_kids t ! Suc at)"
      by blast
    have cl: "ORDER div 2 \<le> Suc (length (br_seps c))" "length (br_seps c) < ORDER" using kid(3)[OF at] short T(7) by (simp_all add: ORDER_def)
    have dl: "ORDER div 2 < length (br_seps d)" "root_is r d" using right(2) T(8) r(2) by (simp_all add: spare_def)
    from balance_from_right_is[OF st n T(1,2) tr sto T(4,5) cl T(6) dl]
    show ?thesis using lo r right(3) T(3) ns unfolding rebalance_def by (simp add: Let_def cret_def unwrap_node_def unwrap_def)
  next
    case last
    obtain l where l: "?fetch (at - 1) = cret (Some l)" "root_is l (snd (br_kids t ! (at - 1)))" "sibling_has_spare (Some l) = Inr False"
      using L last by auto
    obtain r where r: "?fetch at = cret (Some r)" "root_is r (snd (br_kids t ! at))" using fetch[OF at] by blast
    have i: "at - 1 < length (br_seps t)" "at = at - 1 \<or> at = Suc (at - 1)" using last by auto
    from pair_at[OF wf i] obtain xs x ys ks a c b d ls where T: "t = Br (xs @ x # ys) (ks @ (a, c) # (b, d) # ls)" "length ks = length xs"
        "length ks = at - 1" "\<And>k. k \<in> set ks \<union> set ls \<Longrightarrow> wf_tree e (snd k) \<and> ORDER div 2 \<le> length (br_seps (snd k))"
        "wf_tree e c" "wf_tree e d" "c = snd (br_kids t ! (at - 1))" "d = snd (br_kids t ! Suc (at - 1))"
      by blast
    have dd: "d = snd (br_kids t ! at)" using T(8) last(2) by simp
    have ml: "br_seps d \<noteq> []" "length (br_seps c) + length (br_seps d) < ORDER" "ORDER div 2 \<le> Suc (length (br_seps c) + length (br_seps d))"
      using kid(3)[OF at] short last(1,2) at dd unfolding T(7) spare_def by (auto simp: ORDER_def)
    from balance_merge_is[OF st n T(1,2) tr sto T(4,5,6) ml l(2)[folded T(7)] r(2)[folded dd]]
    show ?thesis using l r last T(3) ns unfolding rebalance_def by (simp add: Let_def cret_def sibling_has_spare_def)
  next
    case inner
    obtain lo where lo: "(if 0 < at then ?fetch (at - 1) else cret None) = cret lo" "sibling_has_spare lo = Inr False" using L inner(1) by auto
    obtain l where l: "?fetch at = cret (Some l)" "root_is l (snd (br_kids t ! at))" using fetch[OF at] by blast
    obtain r where r: "?fetch (at + 1) = cret (Some r)" "root_is r (snd (br_kids t ! Suc at))" "sibling_has_spare (Some r) = Inr False"
      using R inner(2,3) ns by auto
    from pair_at[OF wf inner(3)] obtain xs x ys ks a c b d ls where T: "t = Br (xs @ x # ys) (ks @ (a, c) # (b, d) # ls)" "length ks = length xs"
        "length ks = at" "\<And>k. k \<in> set ks \<union> set ls \<Longrightarrow> wf_tree e (snd k) \<and> ORDER div 2 \<le> length (br_seps (snd k))"
        "wf_tree e c" "wf_tree e d" "c = snd (br_kids t ! at)" "d = snd (br_kids t ! Suc at)"
      by blast
    have ml: "br_seps d \<noteq> []" "length (br_seps c) + length (br_seps d) < ORDER" "ORDER div 2 \<le> Suc (length (br_seps c) + length (br_seps d))"
      using kid(2)[of "Suc at"] kid(3)[OF at] short inner(2,3) lk unfolding T(7,8) spare_def by (auto simp: ORDER_def)
    from balance_merge_is[OF st n T(1,2) tr sto T(4,5,6) ml l(2)[folded T(7)] r(2)[folded T(8)]]
    show ?thesis using lo l(1) r(1,3) inner(3) T(3) ns unfolding rebalance_def by (simp add: Let_def cret_def)
  qed
qed

end

end
