(* ===== verification/BTree_Remove.thy ===== *)
theory BTree_Remove
  imports BTree_Rebalance
begin

text \<open>
  A node after one of its children has changed (\<open>write_child\<close> of \<^verbatim>\<open>src/src/btree/node.rs\<close>), and
  \<open>remove_last\<close>, which takes the greatest separator out of a subtree: it is handed to the caller, its
  value stays in the store, and the subtree keeps the rest.
\<close>

section \<open>A separator in hand\<close>

lemma tree_in_extra:
  assumes "mset xs' = mset (x # xs)"
  shows "tree_in \<sigma> (Br xs' ks) \<longleftrightarrow> si_value x \<in> dom \<sigma> \<and> si_value x \<notin> own (Br xs ks) \<and> tree_in \<sigma> (Br xs ks)"
    and "own (Br xs' ks) = insert (si_value x) (own (Br xs ks))"
proof -
  have "mset (map si_value xs') = mset (map si_value (x # xs))" using assms by simp
  then have m: "mset (owned (Br xs' ks)) = mset (si_value x # owned (Br xs ks))" by simp
  show o: "own (Br xs' ks) = insert (si_value x) (own (Br xs ks))" using mset_eq_setD[OF m] by simp
  have "distinct (owned (Br xs' ks)) \<longleftrightarrow> si_value x \<notin> own (Br xs ks) \<and> distinct (owned (Br xs ks))"
    using mset_eq_imp_distinct_iff[OF m] by (simp only: distinct.simps)
  then show "tree_in \<sigma> (Br xs' ks) \<longleftrightarrow> si_value x \<in> dom \<sigma> \<and> si_value x \<notin> own (Br xs ks) \<and> tree_in \<sigma> (Br xs ks)"
    unfolding tree_in_iff o by auto
qed

text \<open>What one operation leaves of a subtree: the tree \<open>t\<close>, separators \<open>ys\<close> and new neighbours \<open>ls\<close>.\<close>

abbreviation left_over :: "separator_inner list \<Rightarrow> btr \<Rightarrow> (address \<times> btr) list \<Rightarrow> address list" where
  "left_over ys t ls \<equiv> map si_value ys @ owned t @ kids_owned ls"

definition leaves :: "(address \<rightharpoonup> bytes) \<Rightarrow> btr \<Rightarrow> (address \<rightharpoonup> bytes) \<Rightarrow> separator_inner list \<Rightarrow> btr \<Rightarrow> (address \<times> btr) list \<Rightarrow> bool" where
  "leaves \<sigma> t \<sigma>' ys t' ls \<longleftrightarrow> frame \<sigma> (own t) \<sigma>' (set (left_over ys t' ls)) \<and> distinct (left_over ys t' ls) \<and>
     set (left_over ys t' ls) \<subseteq> dom \<sigma>' \<and> stored_in \<sigma>' t' \<and>
     (\<forall>l\<in>set ls. \<sigma>' (fst l) = Some (bytes_of (snd l)) \<and> stored_in \<sigma>' (snd l))"

text \<open>The values of the separators that are not below child \<open>i\<close>.\<close>

abbreviation before :: "nat \<Rightarrow> btr \<Rightarrow> separator_inner list" where
  "before i t \<equiv> lead (take i (br_seps t)) (map (\<lambda>k. inorder (snd k)) (take i (br_kids t)))"

abbreviation behind :: "nat \<Rightarrow> btr \<Rightarrow> separator_inner list" where
  "behind i t \<equiv> trail (drop i (br_seps t)) (map (\<lambda>k. inorder (snd k)) (drop (Suc i) (br_kids t)))"

lemma in_before: "x \<in> set (before i t) \<Longrightarrow> x \<in> set (br_seps t) \<or> (\<exists>j<length (br_kids t). j < i \<and> x \<in> set (inorder (snd (br_kids t ! j))))"
proof -
  have "set (lead xs ks) \<subseteq> set xs \<union> \<Union> (set ` set ks)" for xs :: "'a list" and ks
    by (induction xs ks rule: list_induct2') auto
  note sub = this[of "take i (br_seps t)" "map (\<lambda>k. inorder (snd k)) (take i (br_kids t))"]
  assume "x \<in> set (before i t)"
  then consider "x \<in> set (take i (br_seps t))" | k where "k \<in> set (take i (br_kids t))" "x \<in> set (inorder (snd k))" using sub by auto
  then show ?thesis
  proof cases
    case 2
    then obtain j where "j < i" "j < length (br_kids t)" "k = br_kids t ! j" by (auto simp: in_set_conv_nth)
    then show ?thesis using 2(2) by blast
  qed (auto dest: in_set_takeD)
qed

lemma in_behind: "x \<in> set (behind i t) \<Longrightarrow> x \<in> set (br_seps t) \<or> (\<exists>j<length (br_kids t). i < j \<and> x \<in> set (inorder (snd (br_kids t ! j))))"
proof -
  have "set (trail xs ks) \<subseteq> set xs \<union> \<Union> (set ` set ks)" for xs :: "'a list" and ks
    by (induction xs ks rule: list_induct2') auto
  note sub = this[of "drop i (br_seps t)" "map (\<lambda>k. inorder (snd k)) (drop (Suc i) (br_kids t))"]
  assume "x \<in> set (behind i t)"
  then consider "x \<in> set (drop i (br_seps t))" | k where "k \<in> set (drop (Suc i) (br_kids t))" "x \<in> set (inorder (snd k))" using sub by auto
  then show ?thesis
  proof cases
    case 2
    then obtain l where "l < length (br_kids t) - Suc i" "k = br_kids t ! (Suc i + l)" by (auto simp: in_set_conv_nth)
    then show ?thesis using 2(2) by (intro disjI2 exI[of _ "Suc i + l"]) simp
  qed (auto dest: in_set_dropD)
qed

text \<open>How many separators a node keeps, and when it asks for a rebalance.\<close>

definition fill :: "bool \<Rightarrow> btr \<Rightarrow> btr \<Rightarrow> bool" where
  "fill b t t' \<longleftrightarrow> (if b then length (br_seps t) \<le> Suc (length (br_seps t')) \<and> length (br_seps t') < ORDER div 2
     else length (br_seps t) \<le> length (br_seps t') \<or> ORDER div 2 \<le> length (br_seps t'))"

lemma root_bytes: "root_is n t \<Longrightarrow> root_is n t' \<Longrightarrow> bytes_of t' = bytes_of t"
  using encode_node_is[of n "br_seps t" "kid_addresses t"] encode_node_is[of n "br_seps t'" "kid_addresses t'"]
  by (simp add: root_is_def bytes_of_def)

lemma leaves_bytes: "root_is n t \<Longrightarrow> root_is n' t' \<Longrightarrow> nd_changed n' \<or> n' = n \<Longrightarrow> nd_changed n' \<or> bytes_of t' = bytes_of t"
  using root_bytes by blast

lemma leavesI:
  assumes "tree_in \<sigma>' u" and "frame \<sigma> (own t) \<sigma>' (own u)" and "mset (owned u) = mset (left_over ys t' ls)"
    and "stored_in \<sigma>' t'" and "\<forall>l\<in>set ls. \<sigma>' (fst l) = Some (bytes_of (snd l)) \<and> stored_in \<sigma>' (snd l)"
  shows "leaves \<sigma> t \<sigma>' ys t' ls"
proof -
  have "own u \<subseteq> dom \<sigma>'" "distinct (owned u)" using assms(1) by (simp_all only: loose_def)
  then show ?thesis
    using assms(2,4,5) mset_eq_imp_distinct_iff[OF assms(3)] unfolding leaves_def mset_eq_setD[OF assms(3)] by blast
qed

text \<open>A value that is in hand while the rest of the tree changes.\<close>

lemma frame_in_hand:
  assumes "frame \<sigma> A \<sigma>2 (insert v B)" and "v \<notin> B" and "v \<in> dom \<sigma>2" and "frame \<sigma>2 B \<sigma>3 C"
  shows "frame \<sigma> A \<sigma>3 (insert v C)" and "v \<notin> C" and "\<sigma>3 v = \<sigma>2 v"
proof -
  show "frame \<sigma> A \<sigma>3 (insert v C)" using frame_trans[OF assms(1), of \<sigma>3 "insert v C"] frame_extend[OF assms(4), of "{v}"] by simp
  show "v \<notin> C" using frame_disjoint[OF assms(4), of "{v}"] assms(2,3) by simp
  show "\<sigma>3 v = \<sigma>2 v" by (rule frame_keep[OF assms(4,3,2)])
qed

lemma kids_beside: "k \<in> set (take i ks) \<union> set (drop (Suc i) ks) \<longleftrightarrow> (\<exists>j<length ks. j \<noteq> i \<and> k = ks ! j)"
proof
  assume "k \<in> set (take i ks) \<union> set (drop (Suc i) ks)"
  then show "\<exists>j<length ks. j \<noteq> i \<and> k = ks ! j"
  proof
    assume "k \<in> set (drop (Suc i) ks)"
    then obtain l where "l < length ks - Suc i" "k = ks ! (Suc i + l)" by (auto simp: in_set_conv_nth)
    then show ?thesis by (intro exI[of _ "Suc i + l"]) auto
  qed (auto simp: in_set_conv_nth)
next
  assume "\<exists>j<length ks. j \<noteq> i \<and> k = ks ! j"
  then obtain j where j: "j < length ks" "j \<noteq> i" "k = ks ! j" by blast
  show "k \<in> set (take i ks) \<union> set (drop (Suc i) ks)"
  proof (cases "j < i")
    case False
    then show ?thesis using j by (auto simp: in_set_conv_nth intro!: exI[of _ "j - Suc i"])
  qed (use j in \<open>auto simp: in_set_conv_nth\<close>)
qed

context node_store
begin

lemma child_written:
  assumes st: "store s (Suc m) \<sigma>1" and t: "tree_in \<sigma> t" and i: "i < length (br_kids t)" and k: "br_kids t ! i = (a, c)" and a: "a \<noteq> NULL_ADDRESS"
    and lv: "leaves \<sigma> c \<sigma>1 ys c' ls"
    and c: "root_is child c'" "storable (br_seps c') (kid_addresses c')" "small K c'" "nd_changed child \<or> bytes_of c' = bytes_of c"
    and n: "i < length (nd_children n)" "kidv n ! i = Some a"
    and t1: "t1 = (\<lambda>a'. Br (take i (br_seps t) @ ys @ drop i (br_seps t)) (take i (br_kids t) @ (a', c') # ls @ drop (Suc i) (br_kids t)))"
  shows "\<exists>a' n' s' \<sigma>'. write_child cd i child n s = cret (n', s') \<and> store s' m \<sigma>' \<and> a' \<noteq> NULL_ADDRESS \<and>
     tree_in \<sigma>' (t1 a') \<and> frame \<sigma> (own t) \<sigma>' (own (t1 a')) \<and>
     kidv n' = (kidv n)[i := Some a'] \<and> nd_separators n' = nd_separators n \<and> (nd_changed n' \<or> n' = n) \<and>
     ent \<sigma>' (before i t) = ent \<sigma> (before i t) \<and> ent \<sigma>' (behind i t) = ent \<sigma> (behind i t) \<and>
     (\<forall>x \<in> set ys \<union> set (inorder c') \<union> (\<Union>l\<in>set ls. set (inorder (snd l))). \<sigma>' (si_value x) = \<sigma>1 (si_value x)) \<and>
     (\<forall>x \<in> set (br_seps t) \<union> (\<Union>l\<in>set (take i (br_kids t)) \<union> set (drop (Suc i) (br_kids t)). set (inorder (snd l))).
        \<sigma>' (si_value x) = \<sigma> (si_value x))"
proof -
  have lv': "frame \<sigma> (own c) \<sigma>1 (set (left_over ys c' ls))" "distinct (left_over ys c' ls)" "set (left_over ys c' ls) \<subseteq> dom \<sigma>1" "stored_in \<sigma>1 c'"
      "\<forall>l\<in>set ls. \<sigma>1 (fst l) = Some (bytes_of (snd l)) \<and> stored_in \<sigma>1 (snd l)"
    using lv unfolding leaves_def by blast+
  note kc = kid_changed[OF t i k lv'(1) refl lv'(2-5) refl, folded fun_cong[OF t1]]
  have j: "i < length (br_kids (t1 a))" "br_kids (t1 a) ! i = (a, c')" using i by (simp_all add: t1 nth_append)
  have "nd_changed child \<or> \<sigma>1 a = Some (bytes_of c')"
    using c(4) kc(3) stored_kid(1)[OF loose_stored[OF t] nth_mem[OF i]] k by auto
  from write_child_is[OF st n kc(1) j a c(1-3) this]
  obtain a' n' s' \<sigma>' t' where w: "write_child cd i child n s = cret (n', s')" "store s' m \<sigma>'" "a' \<noteq> NULL_ADDRESS"
     "t' = Br (br_seps (t1 a)) ((br_kids (t1 a))[i := (a', c')])" "loose ({i} - {i}) \<sigma>' t'" "frame \<sigma>1 (own (t1 a)) \<sigma>' (own t')"
     "inorder t' = inorder (t1 a)" "entries \<sigma>' t' = entries \<sigma>1 (t1 a)" "kidv n' = (kidv n)[i := Some a']" "nd_separators n' = nd_separators n"
     "nd_changed n' \<or> n' = n"
    by blast
  have t': "t' = t1 a'" using w(4) i by (simp add: t1 list_update_append)
  have all: "\<sigma>' (si_value x) = \<sigma>1 (si_value x)" if "x \<in> set (br_seps t) \<union> set ys \<union> set (inorder c') \<union> (\<Union>l\<in>set ls. set (inorder (snd l))) \<union>
      (\<Union>l\<in>set (take i (br_kids t)) \<union> set (drop (Suc i) (br_kids t)). set (inorder (snd l)))" for x
  proof -
    have "set (br_seps t) = set (take i (br_seps t)) \<union> set (drop i (br_seps t))" by (metis append_take_drop_id set_append)
    then have "x \<in> set (inorder (t1 a))" using that unfolding t1 by (auto simp: set_weave)
    then show ?thesis using w(7,8) by (simp add: entries_def ent_eq)
  qed
  have sib: "\<sigma>' (si_value x) = \<sigma> (si_value x)"
    if "x \<in> set (br_seps t) \<or> (\<exists>j<length (br_kids t). j \<noteq> i \<and> x \<in> set (inorder (snd (br_kids t ! j))))" for x
    using that
  proof (elim disjE exE conjE)
    assume "x \<in> set (br_seps t)"
    then show ?thesis using all[of x] kc(5) by simp
  next
    fix j assume j: "j < length (br_kids t)" "j \<noteq> i" "x \<in> set (inorder (snd (br_kids t ! j)))"
    have "br_kids t ! j \<in> set (take i (br_kids t)) \<union> set (drop (Suc i) (br_kids t))" using kids_beside[of _ i "br_kids t"] j(1,2) by blast
    then have "\<sigma>' (si_value x) = \<sigma>1 (si_value x)" using j(3) by (intro all) blast
    moreover have "si_value x \<in> own (snd (br_kids t ! j))" using values_owned j(3) by blast
    ultimately show ?thesis using kc(6)[OF j(1,2)] by simp
  qed
  have bb: "ent \<sigma>' (before i t) = ent \<sigma> (before i t)" "ent \<sigma>' (behind i t) = ent \<sigma> (behind i t)"
    using sib by (intro ent_cong; auto dest!: in_before in_behind)+
  have beside: "\<forall>x \<in> set (br_seps t) \<union> (\<Union>l\<in>set (take i (br_kids t)) \<union> set (drop (Suc i) (br_kids t)). set (inorder (snd l))).
      \<sigma>' (si_value x) = \<sigma> (si_value x)"
  proof
    fix x assume "x \<in> set (br_seps t) \<union> (\<Union>l\<in>set (take i (br_kids t)) \<union> set (drop (Suc i) (br_kids t)). set (inorder (snd l)))"
    then consider "x \<in> set (br_seps t)"
      | l where "l \<in> set (take i (br_kids t)) \<union> set (drop (Suc i) (br_kids t))" "x \<in> set (inorder (snd l))" by blast
    then show "\<sigma>' (si_value x) = \<sigma> (si_value x)"
    proof cases
      case 2
      then obtain j where "j < length (br_kids t)" "j \<noteq> i" "l = br_kids t ! j" using iffD1[OF kids_beside 2(1)] by blast
      then show ?thesis using sib 2(2) by blast
    qed (use sib in blast)
  qed
  have "{i} - {i} = {}" by simp
  then have "tree_in \<sigma>' (t1 a')" using w(5) t' by (simp only:)
  moreover have "frame \<sigma> (own t) \<sigma>' (own (t1 a'))" using frame_trans[OF kc(2) w(6)] t' by simp
  moreover have "\<forall>x \<in> set ys \<union> set (inorder c') \<union> (\<Union>l\<in>set ls. set (inorder (snd l))). \<sigma>' (si_value x) = \<sigma>1 (si_value x)"
    using all by blast
  ultimately show ?thesis using w(1-3,9-11) bb beside by blast
qed

section \<open>Taking the last separator\<close>

lemma tree_in_kid:
  assumes "tree_in \<sigma> t" and "br_kids t = ks @ (a, c) # ls"
  shows "tree_in \<sigma> c" and "own c \<subseteq> own t"
proof -
  have "owned t = map si_value (br_seps t) @ kids_owned ks @ a # owned c @ kids_owned ls" using assms(2) by (cases t) simp
  then show "tree_in \<sigma> c" "own c \<subseteq> own t" using assms(1) kid_bytes(2)[OF assms] by (auto simp: tree_in_iff)
qed

text \<open>A child is replaced and, when it has become too small, the node is rebalanced around it.\<close>

lemma rebalanced_is:
  assumes st: "store s (Suc (Suc m)) \<sigma>" and n: "root_is n t" and tr: "tree_in \<sigma> t" "small K t"
    and wf: "wf_kids e ((\<lambda>_. ORDER div 2)(at := ORDER div 2 - 1)) t"
    and at: "at < length (br_kids t)" and seps: "br_seps t \<noteq> []" and short: "length (br_seps (snd (br_kids t ! at))) < ORDER div 2"
  shows "\<exists>n' s' \<sigma>' t'. rebalanced cd (Suc e) at n s = cret (length (br_seps t') < ORDER div 2, n', s') \<and> store s' m \<sigma>' \<and> rearranged e \<sigma> t n' \<sigma>' t'"
proof -
  obtain n' s' \<sigma>' t' where r: "rebalance cd (Suc e) at n s = cret (n', s')" "store s' m \<sigma>'" "rearranged e \<sigma> t n' \<sigma>' t'"
    using rebalance_is[OF assms] by blast
  then have "need_rebalance n' = Inr (length (br_seps t') < ORDER div 2)"
    using need_rebalance_is[of n' "br_seps t'" "kid_addresses t'"] by (simp add: rearranged_def root_is_def)
  then show ?thesis using r by (intro exI[of _ n'] exI[of _ s'] exI[of _ \<sigma>'] exI[of _ t']) (simp add: rebalanced_def cret_def)
qed

lemma remove_last_tree:
  assumes "store s (3 * d + m) \<sigma>" and "root_is n t" and "wf_tree d t" and "tree_in \<sigma> t" and "small K t" and "br_seps t \<noteq> []"
  shows "\<exists>b sep x n' s' \<sigma>' t'. remove_last cd d n s = cret ((b, Some sep), n', s') \<and> sp_separator sep = Some x \<and> store s' m \<sigma>' \<and>
     root_is n' t' \<and> (nd_changed n' \<or> n' = n) \<and> wf_tree d t' \<and> leaves \<sigma> t \<sigma>' [x] t' [] \<and>
     inorder t = inorder t' @ [x] \<and> ent \<sigma>' (inorder t) = entries \<sigma> t \<and> fill b t t'"
  using assms
proof (induction d arbitrary: s m \<sigma> n t)
  case 0
  obtain xs where t: "t = Br xs []" using wf_tree_parts(2)[OF "0.prems"(3)] by (cases t) simp
  have n: "node_is n xs []" and ne: "xs \<noteq> []" using "0.prems"(2,6) t by (simp_all add: root_is_def)
  obtain sep n' where r: "remove_separator (length xs - 1) n = Inr (sep, n')" "nd_changed n'" "sp_separator sep = Some (last xs)" "node_is n' (butlast xs) []"
    using remove_last_separator_is[OF n ne] by blast
  have xs: "xs = butlast xs @ [last xs]" using ne by simp
  have "mset (owned t) = mset (left_over [last xs] (Br (butlast xs) []) [])"
    unfolding t by (subst xs) (simp del: append_butlast_last_id)
  then have "leaves \<sigma> t \<sigma> [last xs] (Br (butlast xs) []) []" using leavesI[OF "0.prems"(4) frame_refl] by simp
  moreover have "remove_last cd 0 n s = cret ((length (butlast xs) < ORDER div 2, Some sep), n', s)"
    using r(1) last_separator_is[OF n] ne need_rebalance_is[OF r(4)] by (subst remove_last.simps) (simp add: cret_def)
  moreover have "wf_tree 0 (Br (butlast xs) [])" using "0.prems"(3) by (auto simp: t storable_def dest: in_set_butlastD)
  moreover have "fill (length (butlast xs) < ORDER div 2) t (Br (butlast xs) [])" by (auto simp: fill_def t)
  ultimately show ?case
    using r(2-4) "0.prems"(1) ne t by (intro exI conjI) (auto simp: root_is_def entries_def)
next
  case (Suc d)
  obtain xs ks where t: "t = Br xs ks" by (cases t)
  have lk: "length ks = Suc (length xs)" using wf_tree_parts(3)[OF Suc.prems(3) refl] t by simp
  then obtain ks' a c where ks: "ks = ks' @ [(a, c)]" "length ks' = length xs" by (cases ks rule: rev_cases) auto
  have c: "wf_tree d c" "ORDER div 2 \<le> length (br_seps c)" and sto: "storable xs (map fst ks)"
    using Suc.prems(3) by (auto simp: t ks)
  have n: "node_is n xs (kid_addresses t)" using Suc.prems(2) t by (simp add: root_is_def)
  have kt: "br_kids t = ks' @ (a, c) # []" by (simp add: t ks)
  obtain child where ch: "fetch_child cd n (length xs) (fst s) (writer_query (snd s)) = cret (Some child)" "root_is child c"
    using fetch_kid[OF Suc.prems(1) n Suc.prems(4) kt c(1)] ks(2) by auto
  have sm: "small K c" "\<forall>x\<in>set xs. length (si_key x) \<le> K" using iffD1[OF small_parts Suc.prems(5)] by (simp_all add: t ks)
  have "store s (3 * d + (3 + m)) \<sigma>" using Suc.prems(1) by (simp add: algebra_simps)
  moreover have "br_seps c \<noteq> []" using c(2) by (auto simp: ORDER_def)
  ultimately obtain b sep x child' s1 \<sigma>1 c' where r: "remove_last cd d child s = cret ((b, Some sep), child', s1)" "sp_separator sep = Some x"
      "store s1 (3 + m) \<sigma>1" "root_is child' c'" "nd_changed child' \<or> child' = child" "wf_tree d c'" "leaves \<sigma> c \<sigma>1 [x] c' []"
      "inorder c = inorder c' @ [x]" "ent \<sigma>1 (inorder c) = entries \<sigma> c" "fill b c c'"
    using Suc.IH[of s "3 + m" \<sigma> child c] ch(2) c(1) tree_in_kid(1)[OF Suc.prems(4) kt] sm(1) by blast
  let ?i = "length xs" and ?t = "\<lambda>a'. Br (xs @ [x]) (ks' @ [(a', c')])" and ?u = "\<lambda>a'. Br xs (ks' @ [(a', c')])"
  have i: "?i < length (br_kids t)" "br_kids t ! ?i = (a, c)" using ks by (simp_all add: t nth_append)
  have nc: "?i < length (nd_children n)" "kidv n ! ?i = Some a" using node_is_kidv[OF n, of ?i] i by auto
  have "small K c'" using sm(1) r(8) by (simp add: small_def)
  moreover have "?t = (\<lambda>a'. Br (take ?i (br_seps t) @ [x] @ drop ?i (br_seps t)) (take ?i (br_kids t) @ (a', c') # [] @ drop (Suc ?i) (br_kids t)))"
    using ks by (simp add: t)
  moreover have "a \<noteq> NULL_ADDRESS" using sto ks by (simp add: storable_def)
  moreover have "store s1 (Suc (2 + m)) \<sigma>1" using r(3) by (simp add: eval_nat_numeral)
  ultimately obtain a' n1 s2 \<sigma>2 where w: "write_child cd ?i child' n s1 = cret (n1, s2)" "store s2 (2 + m) \<sigma>2" "a' \<noteq> NULL_ADDRESS"
      "tree_in \<sigma>2 (?t a')" "frame \<sigma> (own t) \<sigma>2 (own (?t a'))" "kidv n1 = (kidv n)[?i := Some a']" "nd_separators n1 = nd_separators n"
      "nd_changed n1 \<or> n1 = n" "ent \<sigma>2 (before ?i t) = ent \<sigma> (before ?i t)"
      "\<forall>y \<in> set [x] \<union> set (inorder c'). \<sigma>2 (si_value y) = \<sigma>1 (si_value y)"
    using child_written[OF _ Suc.prems(4) i _ r(7,4) wf_tree_parts(1)[OF r(6)] _ leaves_bytes[OF ch(2) r(4,5)] nc, of s1 "2 + m" ?t] by auto
  have u: "tree_in \<sigma>2 (?u a')" "si_value x \<notin> own (?u a')" "si_value x \<in> dom \<sigma>2" "own (?t a') = insert (si_value x) (own (?u a'))"
    using tree_in_extra[where xs' = "xs @ [x]" and x = x and xs = xs and ks = "ks' @ [(a', c')]"] w(4) by simp_all
  have n1: "root_is n1 (?u a')" using node_is_written[OF n w(6,7)] ks by (simp add: t root_is_def list_update_append)
  have io: "inorder t = before ?i t @ inorder c" "inorder (?u a') = before ?i t @ inorder c'"
    using inorder_around(2)[of ks' xs "[]" "[]"] ks by (simp_all add: t)
  have iox: "inorder t = inorder (?u a') @ [x]" using io r(8) by simp
  have "ent \<sigma>2 (inorder c) = ent \<sigma>1 (inorder c)" using w(10) r(8) by (auto simp: ent_eq)
  then have en: "ent \<sigma>2 (inorder t) = entries \<sigma> t" using w(9) r(9) io(1) by (simp add: entries_def)
  have smu: "small K (?u a')" using Suc.prems(5) iox by (simp add: small_def)
  have st: "storable xs (map fst (ks' @ [(a', c')]))" using sto w(3) ks by (auto simp: storable_def)
  have rl: "remove_last cd (Suc d) n s = (if b then cbind (rebalanced cd (Suc d) ?i n1 s2) (\<lambda>(b, n, s). cret ((b, Some sep), n, s))
      else cret ((False, Some sep), n1, s2))"
    using last_separator_is[OF n] Suc.prems(6) ch(1) r(1) w(1) by (subst remove_last.simps) (simp add: t cret_def)
  show ?case
  proof (cases b)
    case False
    have "wf_tree (Suc d) (?u a')" using Suc.prems(3) st r(6,10) c(2) False ks(2) by (auto simp: t ks fill_def)
    moreover have "leaves \<sigma> t \<sigma>2 [x] (?u a') []"
      by (rule leavesI[OF w(4,5)]) (use u(1) in \<open>simp_all add: loose_stored del: stored_in.simps\<close>)
    moreover have "fill False t (?u a')" by (simp add: fill_def t)
    moreover have "remove_last cd (Suc d) n s = cret ((False, Some sep), n1, s2)" "store s2 m \<sigma>2"
      using rl False store_weaken[OF w(2), of m] by simp_all
    ultimately show ?thesis using r(2) n1 w(8) iox en by blast
  next
    case True
    have "storable xs (kid_addresses (?u a'))" using st by simp
    moreover have "wf_tree d (snd ((ks' @ [(a', c')]) ! j)) \<and> (j \<noteq> ?i \<longrightarrow> ORDER div 2 \<le> length (br_seps (snd ((ks' @ [(a', c')]) ! j))))"
      if "j \<le> ?i" for j
      using that Suc.prems(3) r(6) ks(2) by (auto simp: t ks nth_append)
    moreover have fc: "ORDER div 2 - 1 \<le> length (br_seps c')" "length (br_seps c') < ORDER div 2" using r(10) True c(2) by (auto simp: fill_def)
    ultimately have "wf_kids d ((\<lambda>_. ORDER div 2)(?i := ORDER div 2 - 1)) (?u a')"
      using ks(2) by (auto simp: wf_kids_def nth_append less_Suc_eq_le)
    moreover have "snd (br_kids (?u a') ! ?i) = c'" using ks(2) by (simp add: nth_append)
    moreover have "store s2 (Suc (Suc m)) \<sigma>2" using w(2) by simp
    ultimately obtain n2 s3 \<sigma>3 t3 where b: "rebalanced cd (Suc d) ?i n1 s2 = cret (length (br_seps t3) < ORDER div 2, n2, s3)" "store s3 m \<sigma>3"
        "rearranged d \<sigma>2 (?u a') n2 \<sigma>3 t3"
      using rebalanced_is[of s2 m \<sigma>2 n1 "?u a'" d ?i] n1 u(1) smu Suc.prems(6) fc(2) ks(2) by (auto simp: t)
    have q: "root_is n2 t3" "nd_changed n2" "tree_in \<sigma>3 t3" "frame \<sigma>2 (own (?u a')) \<sigma>3 (own t3)" "inorder t3 = inorder (?u a')"
        "entries \<sigma>3 t3 = entries \<sigma>2 (?u a')" "wf_tree (Suc d) t3" "length xs \<le> Suc (length (br_seps t3))"
      using b(3) by (simp_all add: rearranged_def)
    note h = frame_in_hand[OF w(5)[unfolded u(4)] u(2,3) q(4)]
    have "leaves \<sigma> t \<sigma>3 [x] t3 []" using h u(3) q(3) by (auto simp: leaves_def tree_in_iff domIff)
    moreover have "fill (length (br_seps t3) < ORDER div 2) t t3" using q(8) by (auto simp: fill_def t)
    moreover have "ent \<sigma>3 (inorder t) = entries \<sigma> t" using en q(5,6) h(3) unfolding iox by (simp add: entries_def)
    moreover have "inorder t = inorder t3 @ [x]" using iox q(5) by simp
    moreover have "remove_last cd (Suc d) n s = cret ((length (br_seps t3) < ORDER div 2, Some sep), n2, s3)"
      using rl True b(1) by (simp add: cret_def)
    ultimately show ?thesis using r(2) b(2) q(1,2,7) by blast
  qed
qed

end

end
