(* ===== verification/BTree_Change.thy ===== *)
theory BTree_Change
  imports BTree_Remove
begin

text \<open>
  One change inside a tree (\<open>Node::insert\<close>, \<open>Node::on_existing\<close> and what they call in
  \<^verbatim>\<open>src/src/btree/node.rs\<close>): the entries of the tree change as an ordered list of keys and values
  changes, and what the node hands to its parent is a separator with a new right neighbour when it
  was split, or the wish to be rebalanced.
\<close>

section \<open>Changes of an ordered list of entries\<close>

type_synonym entry_list = "(bytes \<times> bytes option) list"

definition put_entry :: "bytes \<Rightarrow> bytes \<Rightarrow> entry_list \<Rightarrow> entry_list" where
  "put_entry k v ps = filter (\<lambda>e. fst e < k) ps @ (k, Some v) # filter (\<lambda>e. k < fst e) ps"

definition cut_entry :: "bytes \<Rightarrow> entry_list \<Rightarrow> entry_list" where
  "cut_entry k ps = filter (\<lambda>e. fst e \<noteq> k) ps"

definition change_entries :: "btree_change \<Rightarrow> entry_list \<Rightarrow> entry_list" where
  "change_entries c ps = (case snd c of Some v \<Rightarrow> put_entry (fst c) v ps | None \<Rightarrow> cut_entry (fst c) ps)"

abbreviation keys_sorted :: "entry_list \<Rightarrow> bool" where
  "keys_sorted ps \<equiv> sorted_wrt (<) (map fst ps)"

lemma filter_none: "(\<And>e. e \<in> set ps \<Longrightarrow> \<not> P e) \<Longrightarrow> filter P ps = []"
  by (simp add: filter_empty_conv)

lemma filter_all: "(\<And>e. e \<in> set ps \<Longrightarrow> P e) \<Longrightarrow> filter P ps = ps"
  by (simp add: filter_id_conv)

text \<open>A change concerns only the part of the list that its key belongs to.\<close>

lemma change_entries_local:
  assumes "\<And>e. e \<in> set A \<Longrightarrow> fst e < fst c" and "\<And>e. e \<in> set C \<Longrightarrow> fst c < fst e"
  shows "change_entries c (A @ B @ C) = A @ change_entries c B @ C"
proof -
  have "filter (\<lambda>e. fst e < fst c) A = A" "filter (\<lambda>e. fst c < fst e) A = []" "filter (\<lambda>e. fst e \<noteq> fst c) A = A"
    using assms(1) by (intro filter_all filter_none; force)+
  moreover have "filter (\<lambda>e. fst e < fst c) C = []" "filter (\<lambda>e. fst c < fst e) C = C" "filter (\<lambda>e. fst e \<noteq> fst c) C = C"
    using assms(2) by (intro filter_all filter_none; force)+
  ultimately show ?thesis by (simp add: change_entries_def put_entry_def cut_entry_def split: option.splits)
qed

lemma change_entries_keys: "fst ` set (change_entries c ps) \<subseteq> insert (fst c) (fst ` set ps)"
  by (auto simp: change_entries_def put_entry_def cut_entry_def split: option.splits)

lemma change_entries_sorted: "keys_sorted ps \<Longrightarrow> keys_sorted (change_entries c ps)"
proof -
  assume s: "keys_sorted ps"
  have f: "keys_sorted (filter P ps)" for P using sorted_wrt_filter[of _ ps] s by (simp add: sorted_wrt_map)
  show ?thesis
    using f by (auto simp: change_entries_def put_entry_def cut_entry_def sorted_wrt_append split: option.splits)
qed

lemma change_entries_twice:
  assumes "keys_sorted ps" and "fst c = fst c'"
  shows "change_entries c' (change_entries c ps) = change_entries c' ps"
proof -
  have "filter (\<lambda>e. fst e < k) ps @ filter (\<lambda>e. k < fst e) ps = filter (\<lambda>e. fst e \<noteq> k) ps" for k
    using assms(1)
  proof (induction ps)
    case (Cons e ps)
    then have "k \<le> fst e \<Longrightarrow> filter (\<lambda>e. fst e < k) ps = []" by (intro filter_none) force
    then show ?case using Cons by auto
  qed simp
  moreover have "(x < k \<and> x \<noteq> k) = (x < k)" "(k < x \<and> x \<noteq> k) = (k < x)" "(x < k \<and> k < x) = False" "(k < x \<and> x < k) = False"
      "(x \<noteq> k \<and> x < k) = (x < k)" "(x \<noteq> k \<and> k < x) = (k < x)" for x k :: bytes
    by auto
  ultimately show ?thesis
    using assms(2) by (cases "snd c"; cases "snd c'") (simp_all add: change_entries_def put_entry_def cut_entry_def)
qed

lemma change_entries_absent:
  assumes "k \<notin> fst ` set ps" and "keys_sorted ps"
  shows "cut_entry k ps = ps"
  using assms by (auto simp: cut_entry_def intro!: filter_all)

lemma fold_entries_local:
  assumes "\<And>c e. c \<in> set cs \<Longrightarrow> e \<in> set A \<Longrightarrow> fst e < fst c" and "\<And>c e. c \<in> set cs \<Longrightarrow> e \<in> set C \<Longrightarrow> fst c < fst e"
  shows "fold change_entries cs (A @ B @ C) = A @ fold change_entries cs B @ C"
  using assms
proof (induction cs arbitrary: B)
  case (Cons c cs)
  then show ?case by (simp add: change_entries_local)
qed simp

lemma fold_entries_keys: "fst ` set (fold change_entries cs ps) \<subseteq> fst ` set cs \<union> fst ` set ps"
proof (induction cs arbitrary: ps)
  case (Cons c cs)
  then show ?case using change_entries_keys[of c ps] Cons[of "change_entries c ps"] by simp blast
qed simp

lemma fold_entries_sorted: "keys_sorted ps \<Longrightarrow> keys_sorted (fold change_entries cs ps)"
  by (induction cs arbitrary: ps) (auto intro: change_entries_sorted)

text \<open>The part of the list around one entry.\<close>

lemma put_entry_at:
  assumes "keys_sorted (A @ (k, w) # C)"
  shows "put_entry k v (A @ (k, w) # C) = A @ (k, Some v) # C" and "cut_entry k (A @ (k, w) # C) = A @ C"
proof -
  have "\<And>e. e \<in> set A \<Longrightarrow> fst e < k" "\<And>e. e \<in> set C \<Longrightarrow> k < fst e" using assms by (auto simp: sorted_wrt_append)
  then have l: "change_entries (k, w') (A @ [(k, w)] @ C) = A @ change_entries (k, w') [(k, w)] @ C" for w'
    by (intro change_entries_local) auto
  show "put_entry k v (A @ (k, w) # C) = A @ (k, Some v) # C" "cut_entry k (A @ (k, w) # C) = A @ C"
    using l[of "Some v"] l[of None] by (simp_all add: change_entries_def put_entry_def cut_entry_def)
qed

section \<open>What a change leaves\<close>

definition outcome :: "change_result \<Rightarrow> separator_inner list \<Rightarrow> (address \<times> btr) list \<Rightarrow> bool" where
  "outcome r ys ls \<longleftrightarrow>
     (case r of
        (None, _) \<Rightarrow> ys = [] \<and> ls = []
      | (Some (sep, child), b) \<Rightarrow> \<not> b \<and> (\<exists>y l. ys = [y] \<and> ls = [l] \<and> sp_separator sep = Some y \<and> ch_entry_index child = Some (fst l)))"

abbreviation flat :: "btr \<Rightarrow> separator_inner list \<Rightarrow> (address \<times> btr) list \<Rightarrow> separator_inner list" where
  "flat t ys ls \<equiv> inorder t @ trail ys (map (\<lambda>l. inorder (snd l)) ls)"

definition changed :: "nat \<Rightarrow> (address \<rightharpoonup> bytes) \<Rightarrow> node \<Rightarrow> btr \<Rightarrow> change_result \<Rightarrow> node \<Rightarrow> (address \<rightharpoonup> bytes) \<Rightarrow>
    separator_inner list \<Rightarrow> btr \<Rightarrow> (address \<times> btr) list \<Rightarrow> entry_list \<Rightarrow> bool" where
  "changed d \<sigma> n t r n' \<sigma>' ys t' ls ps \<longleftrightarrow> outcome r ys ls \<and> root_is n' t' \<and> (nd_changed n' \<or> n' = n) \<and> wf_tree d t' \<and>
     leaves \<sigma> t \<sigma>' ys t' ls \<and> ent \<sigma>' (flat t' ys ls) = ps \<and> (\<forall>y\<in>set ys. si_value y \<noteq> NULL_ADDRESS) \<and>
     (\<forall>l\<in>set ls. fst l \<noteq> NULL_ADDRESS \<and> wf_tree d (snd l) \<and> ORDER div 2 \<le> length (br_seps (snd l))) \<and>
     (ls \<noteq> [] \<longrightarrow> ORDER div 2 \<le> length (br_seps t'))"

text \<open>A tree that takes the place of another, with nothing handed to the parent.\<close>

lemma changedI:
  assumes "tree_in \<sigma>' t'" and "frame \<sigma> (own t) \<sigma>' (own t')" and "root_is n' t'" and "nd_changed n' \<or> n' = n" and "wf_tree d t'" and "entries \<sigma>' t' = ps"
  shows "changed d \<sigma> n t (None, b) n' \<sigma>' [] t' [] ps"
  using assms leavesI[OF assms(1,2), of "[]" t' "[]"] by (simp add: changed_def outcome_def loose_stored entries_def)

lemma changedD:
  assumes "changed d \<sigma> n t (None, b) n' \<sigma>' ys t' ls ps"
  shows "ys = []" and "ls = []" and "tree_in \<sigma>' t'" and "frame \<sigma> (own t) \<sigma>' (own t')" and "root_is n' t'" and "nd_changed n' \<or> n' = n"
    and "wf_tree d t'" and "entries \<sigma>' t' = ps"
  using assms by (auto simp: changed_def outcome_def leaves_def tree_in_iff entries_def)

text \<open>The value of one separator, replaced, added or removed.\<close>

lemma value_replaced:
  assumes t: "tree_in \<sigma> (Br (xs @ x # ys) ks)" and a': "a' = si_value x \<or> \<sigma> a' = None" and \<sigma>': "\<sigma>' = \<sigma>(si_value x := None, a' \<mapsto> v)"
    and x': "x' = \<lparr>si_key = si_key x, si_value = a'\<rparr>"
  shows "tree_in \<sigma>' (Br (xs @ x' # ys) ks)" and "frame \<sigma> (own (Br (xs @ x # ys) ks)) \<sigma>' (own (Br (xs @ x' # ys) ks))"
    and "\<And>y. y \<in> own (Br (xs @ ys) ks) \<Longrightarrow> \<sigma>' y = \<sigma> y"
proof -
  have m: "mset (xs @ z # ys) = mset (z # (xs @ ys))" for z by simp
  note e = tree_in_extra[OF m]
  have u: "si_value x \<in> dom \<sigma>" "si_value x \<notin> own (Br (xs @ ys) ks)" "tree_in \<sigma> (Br (xs @ ys) ks)" using t unfolding e(1) by auto
  have "own (Br (xs @ ys) ks) \<subseteq> dom \<sigma>" using u(3) by (simp add: loose_def)
  then have a: "a' \<notin> own (Br (xs @ ys) ks)" using a' u(2) by auto
  have f: "frame \<sigma> {si_value x} \<sigma>' {a'}" unfolding \<sigma>' by (rule frame_move) (rule a')
  note k = tree_in_keep[OF u(3) f]
  show "\<And>y. y \<in> own (Br (xs @ ys) ks) \<Longrightarrow> \<sigma>' y = \<sigma> y" using k(3) u(2) by blast
  have "a' \<in> dom \<sigma>'" by (simp add: \<sigma>')
  then show "tree_in \<sigma>' (Br (xs @ x' # ys) ks)" using k(1) u(2) a unfolding e(1) x' by simp
  show "frame \<sigma> (own (Br (xs @ x # ys) ks)) \<sigma>' (own (Br (xs @ x' # ys) ks))"
    using frame_extend[OF f, of "own (Br (xs @ ys) ks)"] unfolding e(2) x' by simp
qed

lemma value_added:
  assumes t: "tree_in \<sigma> (Br (xs @ ys) ks)" and a: "\<sigma> a = None" and x: "si_value x = a" and \<sigma>': "\<sigma>' = \<sigma>(a \<mapsto> v)"
  shows "tree_in \<sigma>' (Br (xs @ x # ys) ks)" and "frame \<sigma> (own (Br (xs @ ys) ks)) \<sigma>' (own (Br (xs @ x # ys) ks))"
    and "\<And>y. y \<in> own (Br (xs @ ys) ks) \<Longrightarrow> \<sigma>' y = \<sigma> y"
proof -
  have m: "mset (xs @ x # ys) = mset (x # (xs @ ys))" by simp
  note e = tree_in_extra[OF m]
  have f: "frame \<sigma> {} \<sigma>' {a}" unfolding \<sigma>' by (rule frame_new) (rule a)
  note k = tree_in_keep[OF t f]
  have "a \<notin> own (Br (xs @ ys) ks)" using t a by (auto simp: loose_def)
  then show "tree_in \<sigma>' (Br (xs @ x # ys) ks)" using k(1) unfolding e(1) x by (simp add: \<sigma>')
  show "frame \<sigma> (own (Br (xs @ ys) ks)) \<sigma>' (own (Br (xs @ x # ys) ks))"
    using frame_extend[OF f, of "own (Br (xs @ ys) ks)"] unfolding e(2) x by simp
  show "\<And>y. y \<in> own (Br (xs @ ys) ks) \<Longrightarrow> \<sigma>' y = \<sigma> y" using k(3) by simp
qed

lemma value_removed:
  assumes t: "tree_in \<sigma> (Br (xs @ x # ys) ks)" and \<sigma>': "\<sigma>' = \<sigma>(si_value x := None)"
  shows "tree_in \<sigma>' (Br (xs @ ys) ks)" and "frame \<sigma> (own (Br (xs @ x # ys) ks)) \<sigma>' (own (Br (xs @ ys) ks))"
    and "\<And>y. y \<in> own (Br (xs @ ys) ks) \<Longrightarrow> \<sigma>' y = \<sigma> y"
proof -
  have m: "mset (xs @ x # ys) = mset (x # (xs @ ys))" by simp
  note e = tree_in_extra[OF m]
  have u: "si_value x \<notin> own (Br (xs @ ys) ks)" "tree_in \<sigma> (Br (xs @ ys) ks)" using t unfolding e(1) by auto
  have f: "frame \<sigma> {si_value x} \<sigma>' {}" unfolding \<sigma>' by (rule frame_free)
  note k = tree_in_keep[OF u(2) f]
  show "tree_in \<sigma>' (Br (xs @ ys) ks)" "\<And>y. y \<in> own (Br (xs @ ys) ks) \<Longrightarrow> \<sigma>' y = \<sigma> y" using k u(1) by simp_all
  show "frame \<sigma> (own (Br (xs @ x # ys) ks)) \<sigma>' (own (Br (xs @ ys) ks))"
    using frame_extend[OF f, of "own (Br (xs @ ys) ks)"] unfolding e(2) by simp
qed

section \<open>A tree that an operation may start from\<close>

definition tree_at :: "nat \<Rightarrow> nat \<Rightarrow> (address \<rightharpoonup> bytes) \<Rightarrow> node \<Rightarrow> btr \<Rightarrow> bool" where
  "tree_at K d \<sigma> n t \<longleftrightarrow> root_is n t \<and> wf_tree d t \<and> tree_in \<sigma> t \<and> ordered (inorder t) \<and> small K t \<and> (d \<noteq> 0 \<longrightarrow> br_seps t \<noteq> [])"

lemma tree_atD:
  assumes "tree_at K d \<sigma> n t"
  shows "root_is n t" and "wf_tree d t" and "tree_in \<sigma> t" and "ordered (inorder t)" and "small K t" and "d \<noteq> 0 \<Longrightarrow> br_seps t \<noteq> []"
  using assms by (simp_all add: tree_at_def)

lemma weave_at:
  "\<exists>P Q. (\<forall>x. weave (xs @ x # ys) ks = P @ x # Q) \<and> set P \<union> set Q \<subseteq> set xs \<union> set ys \<union> \<Union> (set ` set ks)"
proof (induction xs arbitrary: ks)
  case Nil
  show ?case
  proof (cases ks)
    case (Cons k ks')
    then show ?thesis using set_weave[of ys ks'] by (intro exI[of _ k] exI[of _ "weave ys ks'"]) auto
  qed (auto intro: exI[of _ "[]"])
next
  case (Cons y xs)
  show ?case
  proof (cases ks)
    case Nil
    then show ?thesis by (intro exI[of _ "y # xs"] exI[of _ ys]) auto
  next
    case k: (Cons k ks')
    obtain P Q where "\<forall>x. weave (xs @ x # ys) ks' = P @ x # Q" "set P \<union> set Q \<subseteq> set xs \<union> set ys \<union> \<Union> (set ` set ks')"
      using Cons.IH by blast
    then show ?thesis using k by (intro exI[of _ "k @ y # P"] exI[of _ Q]) auto
  qed
qed

lemma inorder_at:
  obtains P Q where "\<And>x. inorder (Br (xs @ x # ys) ks) = P @ x # Q" and "\<And>y. y \<in> set P \<union> set Q \<Longrightarrow> si_value y \<in> own (Br (xs @ ys) ks)"
proof -
  obtain P Q where pq: "\<And>x. weave (xs @ x # ys) (map (\<lambda>k. inorder (snd k)) ks) = P @ x # Q"
      "set P \<union> set Q \<subseteq> set xs \<union> set ys \<union> \<Union> (set ` set (map (\<lambda>k. inorder (snd k)) ks))"
    using weave_at[of xs ys "map (\<lambda>k. inorder (snd k)) ks"] by blast
  then have "set P \<union> set Q \<subseteq> set (inorder (Br (xs @ ys) ks))" by (auto simp: set_weave)
  then show ?thesis using that pq(1) values_owned by (metis image_subset_iff inorder.simps subset_iff)
qed

section \<open>Splitting\<close>

text \<open>What the separators and children of a node of depth \<open>d\<close> have to be, whatever their number.\<close>

definition parts_ok :: "nat \<Rightarrow> separator_inner list \<Rightarrow> (address \<times> btr) list \<Rightarrow> bool" where
  "parts_ok d xs ks \<longleftrightarrow> (\<forall>x\<in>set xs. si_value x \<noteq> NULL_ADDRESS \<and> length (si_key x) < 2 ^ 32) \<and>
     (case d of
        0 \<Rightarrow> ks = []
      | Suc e \<Rightarrow> length ks = Suc (length xs) \<and>
          (\<forall>k\<in>set ks. fst k \<noteq> NULL_ADDRESS \<and> wf_tree e (snd k) \<and> ORDER div 2 \<le> length (br_seps (snd k))))"

lemma wf_tree_parts_ok: "wf_tree d (Br xs ks) \<longleftrightarrow> length xs \<le> ORDER \<and> parts_ok d xs ks"
  by (cases d) (auto simp: parts_ok_def storable_def)

context node_store
begin

lemma write_split_is:
  assumes st: "store s (Suc m) \<sigma>1" and u: "tree_in \<sigma>1 u" "u = Br zs ms" "length zs = 9" "parts_ok d zs ms" "small K u"
    and f: "frame \<sigma> (own t) \<sigma>1 (own u)"
    and n': "root_is n' (Br (take 4 zs) (take 5 ms))" "nd_changed n'"
    and right: "root_is right (Br (drop 5 zs) (drop 5 ms))" "nd_changed right" and up: "sp_separator up = Some (zs ! 4)"
  shows "\<exists>child s' \<sigma>' l. write_split_child cd None right s = cret (child, s') \<and> store s' m \<sigma>' \<and>
     changed d \<sigma> n t (Some (up, child), False) n' \<sigma>' [zs ! 4] (Br (take 4 zs) (take 5 ms)) [l] (entries \<sigma>1 u)"
proof -
  let ?l = "Br (take 4 zs) (take 5 ms)" and ?r = "Br (drop 5 zs) (drop 5 ms)"
  have zs: "zs = take 4 zs @ zs ! 4 # drop 5 zs" using id_take_nth_drop[of 4 zs] u(3) by simp
  have ms: "ms = take 5 ms @ drop 5 ms" by simp
  have parts: "parts_ok d (take 4 zs) (take 5 ms)" "parts_ok d (drop 5 zs) (drop 5 ms)"
    using u(3,4) by (cases d; force simp: parts_ok_def dest: in_set_takeD in_set_dropD)+
  have wf: "wf_tree d ?l" "wf_tree d ?r" using parts u(3) unfolding wf_tree_parts_ok by (simp_all add: ORDER_def)
  have "take 5 ms = [] \<and> drop 5 ms = [] \<or> length (take 5 ms) = Suc (length (take 4 zs)) \<and> length (drop 5 ms) = Suc (length (drop 5 zs))"
    using u(3,4) by (cases d) (auto simp: parts_ok_def)
  from merge_inorder[OF this, of "zs ! 4"] have io: "inorder u = inorder ?l @ zs ! 4 # inorder ?r"
    unfolding u(2) zs[symmetric] ms[symmetric] .
  have "\<forall>x\<in>set (drop 5 zs). length (si_key x) \<le> K" using iffD1[OF small_parts u(5)] u(2) by (auto dest: in_set_dropD)
  then obtain a s' where w: "write_node_plan cd right None s = cret (Some a, s')" "\<sigma>1 a = None" "a \<noteq> NULL_ADDRESS" "store s' m (\<sigma>1(a \<mapsto> bytes_of ?r))"
    using write_node_new[OF st right wf_tree_parts(1)[OF wf(2)]] by auto
  define \<sigma>' where "\<sigma>' = \<sigma>1(a \<mapsto> bytes_of ?r)"
  have fr: "frame \<sigma>1 {} \<sigma>' {a}" unfolding \<sigma>'_def by (rule frame_new) (rule w(2))
  note k = tree_in_keep[OF u(1) fr, simplified]
  have ko: "map si_value zs = map si_value (take 4 zs) @ si_value (zs ! 4) # map si_value (drop 5 zs)"
    by (subst zs) simp
  have "kids_owned ms = kids_owned (take 5 ms) @ kids_owned (drop 5 ms)" by (subst ms) (simp del: append_take_drop_id)
  then have m: "mset (left_over [zs ! 4] ?l [(a, ?r)]) = mset (a # owned u)" using ko by (simp add: u(2))
  have own: "set (left_over [zs ! 4] ?l [(a, ?r)]) = insert a (own u)" using mset_eq_setD[OF m] by simp
  have st': "stored_in \<sigma>' ?l" "stored_in \<sigma>' ?r"
    using loose_stored[OF k(1)] by (auto simp: u(2) dest: in_set_takeD in_set_dropD)
  have "leaves \<sigma> t \<sigma>' [zs ! 4] ?l [(a, ?r)]"
    unfolding leaves_def own
  proof (intro conjI)
    show "frame \<sigma> (own t) \<sigma>' (insert a (own u))" using frame_trans[OF f, of \<sigma>' "insert a (own u)"] frame_extend[OF fr, of "own u"] by simp
    show "distinct (left_over [zs ! 4] ?l [(a, ?r)])" using mset_eq_imp_distinct_iff[OF m] k(1,2) u(1) by (simp add: loose_def)
    show "insert a (own u) \<subseteq> dom \<sigma>'" using k(1) by (auto simp: loose_def \<sigma>'_def)
  qed (use st' in \<open>simp_all add: \<sigma>'_def\<close>)
  moreover have "entries \<sigma>' u = entries \<sigma>1 u" by (rule entries_cong) (rule k(3))
  then have "ent \<sigma>' (flat ?l [zs ! 4] [(a, ?r)]) = entries \<sigma>1 u" by (simp add: entries_def io)
  moreover have "si_value (zs ! 4) \<noteq> NULL_ADDRESS" using u(3,4) by (simp add: parts_ok_def)
  ultimately have "changed d \<sigma> n t (Some (up, new_child (Some a)), False) n' \<sigma>' [zs ! 4] ?l [(a, ?r)] (entries \<sigma>1 u)"
    using n' up wf w(3) u(3) unfolding changed_def outcome_def by (simp add: new_child_def ORDER_def)
  moreover have "write_split_child cd None right s = cret (new_child (Some a), s')" using w(1) by (simp add: write_split_child_def cret_def)
  ultimately show ?thesis using w(4) unfolding \<sigma>'_def[symmetric] by blast
qed

text \<open>Insertion of a separator, with the child to its right in an inner node.\<close>

lemma insert_full_is:
  assumes st: "store s (Suc m) \<sigma>1" and n: "node_is n xs cs" "length xs = ORDER" and i: "i \<le> length xs" and sep: "sp_separator sep = Some x"
    and child: "child = None \<longleftrightarrow> cs = []" "\<And>c. child = Some c \<Longrightarrow> ch_entry_index c = Some a"
    and u: "tree_in \<sigma>1 u" "u = Br (take i xs @ x # drop i xs) ms" "map fst ms = (if cs = [] then [] else take (Suc i) cs @ a # drop (Suc i) cs)"
      "parts_ok d (br_seps u) ms" "small K u"
    and f: "frame \<sigma> (own t) \<sigma>1 (own u)"
  shows "\<exists>r n' s' \<sigma>' ys t' ls. insert_full cd i sep child n s = cret (r, n', s') \<and> store s' m \<sigma>' \<and>
     changed d \<sigma> n0 t (Some r, False) n' \<sigma>' ys t' ls (entries \<sigma>1 u)"
proof -
  let ?ys = "take i xs @ x # drop i xs"
  obtain up right n' where s: "split_insert i sep child n = Inr (up, right, None, n')" "nd_changed n'" "nd_changed right"
      "sp_separator up = Some (?ys ! 4)" "node_is n' (take 4 ?ys) (take 5 (map fst ms))" "node_is right (drop 5 ?ys) (drop 5 (map fst ms))"
    using split_insert_is[OF n(1,2) _ sep child refl u(3)] i n(2) by auto
  have r: "root_is n' (Br (take 4 ?ys) (take 5 ms))" "root_is right (Br (drop 5 ?ys) (drop 5 ms))"
    using s(5,6) by (simp_all add: root_is_def take_map drop_map)
  have "length ?ys = 9" using i n(2) by (simp add: ORDER_def)
  moreover have "parts_ok d ?ys ms" using u(2,4) by simp
  ultimately obtain c s' \<sigma>' l where w: "write_split_child cd None right s = cret (c, s')" "store s' m \<sigma>'"
     "changed d \<sigma> n0 t (Some (up, c), False) n' \<sigma>' [?ys ! 4] (Br (take 4 ?ys) (take 5 ms)) [l] (entries \<sigma>1 u)"
    using write_split_is[OF st u(1,2) _ _ u(5) f r(1) s(2) r(2) s(3,4)] by blast
  have "insert_full cd i sep child n s = cret ((up, c), n', s')" using s(1) w(1) by (simp add: insert_full_def cret_def)
  then show ?thesis using w(2,3) by blast
qed

lemma insert_node_is:
  assumes st: "store s (Suc m) \<sigma>1" and n: "node_is n xs cs" "cs \<noteq> []" and i: "i \<le> length xs" and sep: "sp_separator sep = Some x"
    and c: "ch_entry_index c = Some a"
    and u: "tree_in \<sigma>1 u" "u = Br (take i xs @ x # drop i xs) ms" "map fst ms = take (Suc i) cs @ a # drop (Suc i) cs"
      "parts_ok d (br_seps u) ms" "small K u"
    and f: "frame \<sigma> (own t) \<sigma>1 (own u)"
  shows "\<exists>r n' s' \<sigma>' ys t' ls. insert_node cd i sep c n s = cret (r, n', s') \<and> store s' m \<sigma>' \<and>
     changed d \<sigma> n0 t (r, False) n' \<sigma>' ys t' ls (entries \<sigma>1 u) \<and> (ls = [] \<longrightarrow> length xs \<le> length (br_seps t'))"
proof (cases "length xs = ORDER")
  case True
  then have "has_separator n (ORDER - 1) = Inr True" using has_separator_is[OF n(1), of "ORDER - 1"] by (simp add: ORDER_def)
  moreover obtain r n' s' \<sigma>' ys t' ls where "insert_full cd i sep (Some c) n s = cret (r, n', s')" "store s' m \<sigma>'"
     "changed d \<sigma> n0 t (Some r, False) n' \<sigma>' ys t' ls (entries \<sigma>1 u)"
    using insert_full_is[OF st n(1) True i sep _ _ u(1,2) _ u(4,5) f, of "Some c" a] n(2) c u(3) by (metis option.inject option.distinct(1))
  moreover from this(3) have "ls \<noteq> []" by (cases r) (auto simp: changed_def outcome_def)
  ultimately show ?thesis by (fastforce simp: insert_node_def cret_def)
next
  case False
  then have l: "length xs < ORDER" using node_is_lengths(3)[OF n(1)] by simp
  then have "has_separator n (ORDER - 1) = Inr False" using has_separator_is[OF n(1), of "ORDER - 1"] by (simp add: ORDER_def)
  moreover obtain n' where n': "insert_at i sep (Some c) n = Inr n'" "nd_changed n'" "node_is n' (take i xs @ x # drop i xs) (take (Suc i) cs @ a # drop (Suc i) cs)"
    using insert_at_is[OF n(1) i l sep, of "Some c" a] n(2) c by auto
  moreover have "changed d \<sigma> n0 t (None, False) n' \<sigma>1 [] u [] (entries \<sigma>1 u)"
  proof (rule changedI[OF u(1) f])
    show "wf_tree d u" using u(2,4) l i unfolding u(2) wf_tree_parts_ok by simp
    show "root_is n' u" using n'(3) u(2,3) by (simp add: root_is_def)
  qed (use n'(2) in simp_all)
  moreover have "length xs \<le> length (br_seps u)" using u(2) i by simp
  ultimately show ?thesis using store_weaken[OF st, of m] by (fastforce simp: insert_node_def cret_def)
qed

lemma create_new:
  assumes "store s (Suc m) \<sigma>" and "length val \<le> V"
  shows "\<exists>sep a s'. create_separator cd key val None s = cret (sep, s') \<and> sp_separator sep = Some \<lparr>si_key = key, si_value = a\<rparr> \<and>
     \<sigma> a = None \<and> a \<noteq> NULL_ADDRESS \<and> store s' m (\<sigma>(a \<mapsto> val))"
  using new_value[OF assms] by (auto simp: create_separator_def cret_def)

lemma create_existing:
  assumes "store s (Suc m) \<sigma>" and "\<sigma> a = Some old" and "length val \<le> V"
  shows "\<exists>sep a' s'. create_separator cd key val (Some a) s = cret (sep, s') \<and> sp_separator sep = Some \<lparr>si_key = key, si_value = a'\<rparr> \<and>
     (a' = a \<or> \<sigma> a' = None) \<and> a' \<noteq> NULL_ADDRESS \<and> store s' m (\<sigma>(a := None, a' \<mapsto> val))"
  using set_value[OF assms] by (fastforce simp: create_separator_def cret_def)

section \<open>Inserting\<close>

lemma separator_split:
  assumes "tree_at K d \<sigma> n t" and "key \<in> si_key ` set (br_seps t)"
  obtains xs x ys ks where "t = Br (xs @ x # ys) ks" and "si_key x = key" and "position n key = (True, length xs)"
    and "separator_address n (length xs) = Inr (Some (si_value x))"
proof -
  note T = tree_atD[OF assms(1)]
  let ?i = "length (takeWhile (\<lambda>x. si_key x < key) (br_seps t))"
  note p = position_root[OF T(1,2,4) refl, of key]
  have i: "?i < length (br_seps t)" "si_key (br_seps t ! ?i) = key" using p(3)[OF assms(2)] by auto
  have "t = Br (take ?i (br_seps t) @ br_seps t ! ?i # drop (Suc ?i) (br_seps t)) (br_kids t)"
    using i(1) by (cases t) (simp add: id_take_nth_drop[symmetric])
  moreover have "separator_address n ?i = Inr (Some (si_value (br_seps t ! ?i)))"
    using separator_address_is[of n "br_seps t" "kid_addresses t" ?i] T(1) i(1) by (simp add: root_is_def)
  ultimately show ?thesis using that[of "take ?i (br_seps t)" "br_seps t ! ?i" "drop (Suc ?i) (br_seps t)" "br_kids t"] i p(1) assms(2) by simp
qed

lemma insert_found:
  assumes st: "store s (Suc m) \<sigma>" and t: "tree_at K d \<sigma> n t" and key: "key \<in> si_key ` set (br_seps t)" and val: "length val \<le> V"
  shows "\<exists>n' s' \<sigma>' t'. node_insert cd chg d key val n changes s = cret ((None, False), n', changes, s') \<and> store s' m \<sigma>' \<and>
     changed d \<sigma> n t (None, False) n' \<sigma>' [] t' [] (put_entry key val (entries \<sigma> t)) \<and> length (br_seps t') = length (br_seps t)"
proof -
  note T = tree_atD[OF t]
  obtain xs x ys ks where x: "t = Br (xs @ x # ys) ks" "si_key x = key" "position n key = (True, length xs)"
      "separator_address n (length xs) = Inr (Some (si_value x))"
    by (rule separator_split[OF t key])
  have "si_value x \<in> own t" by (simp add: x)
  then obtain old where "\<sigma> (si_value x) = Some old" using T(3) by (auto simp: loose_def)
  from create_existing[OF st this val, of key]
  obtain sep a' s' where c: "create_separator cd key val (Some (si_value x)) s = cret (sep, s')" "sp_separator sep = Some \<lparr>si_key = key, si_value = a'\<rparr>"
      "a' = si_value x \<or> \<sigma> a' = None" "a' \<noteq> NULL_ADDRESS" "store s' m (\<sigma>(si_value x := None, a' \<mapsto> val))"
    by blast
  define x' where "x' = \<lparr>si_key = si_key x, si_value = a'\<rparr>"
  define \<sigma>' where "\<sigma>' = \<sigma>(si_value x := None, a' \<mapsto> val)"
  note v = value_replaced[OF T(3)[unfolded x(1)] c(3) \<sigma>'_def x'_def]
  have n: "node_is n (xs @ x # ys) (map fst ks)" using T(1) by (simp add: root_is_def x(1))
  obtain n' where n': "set_separator (length xs) sep n = Inr n'" "nd_changed n'" "node_is n' (xs @ x' # ys) (map fst ks)"
    using set_separator_is[OF n, of "length xs" sep x'] c(2) x(2) by (auto simp: x'_def)
  obtain P Q where pq: "\<And>z. inorder (Br (xs @ z # ys) ks) = P @ z # Q" "\<And>y. y \<in> set P \<union> set Q \<Longrightarrow> si_value y \<in> own (Br (xs @ ys) ks)"
    using inorder_at by blast
  have "ent \<sigma>' P = ent \<sigma> P" "ent \<sigma>' Q = ent \<sigma> Q" using v(3) pq(2) by (intro ent_cong; blast)+
  moreover have "keys_sorted (ent \<sigma> P @ (key, \<sigma> (si_value x)) # ent \<sigma> Q)" using T(4) x(2) unfolding x(1) pq(1) by simp
  ultimately have en: "entries \<sigma>' (Br (xs @ x' # ys) ks) = put_entry key val (entries \<sigma> t)"
    unfolding x(1) entries_def pq(1) by (simp add: put_entry_at x(2) x'_def) (simp add: \<sigma>'_def)
  have "wf_tree d (Br (xs @ x' # ys) ks)"
    using T(2) c(4) unfolding x(1) wf_tree_parts_ok by (cases d) (auto simp: parts_ok_def x'_def)
  then have "changed d \<sigma> n t (None, False) n' \<sigma>' [] (Br (xs @ x' # ys) ks) [] (put_entry key val (entries \<sigma> t))"
    using changedI[OF v(1,2)] n'(2,3) en by (simp add: root_is_def x(1))
  moreover have "node_insert cd chg d key val n changes s = cret ((None, False), n', changes, s')"
    using x(3,4) c(1) n'(1) by (simp add: node_insert_def cret_def)
  ultimately show ?thesis using c(5) unfolding \<sigma>'_def[symmetric] by (intro exI[of _ n'] exI[of _ s'] exI[of _ \<sigma>'] exI[of _ "Br (xs @ x' # ys) ks"]) (simp add: x(1))
qed

lemma absent_split:
  assumes "tree_at K 0 \<sigma> n t" and "key \<notin> si_key ` set (br_seps t)"
  obtains xs ys where "t = Br (xs @ ys) []" and "position n key = (False, length xs)"
    and "\<forall>x\<in>set xs. si_key x < key" and "\<forall>y\<in>set ys. key < si_key y"
proof -
  note T = tree_atD[OF assms(1)]
  let ?i = "length (takeWhile (\<lambda>x. si_key x < key) (br_seps t))" and ?xs = "takeWhile (\<lambda>x. si_key x < key) (br_seps t)"
    and ?ys = "dropWhile (\<lambda>x. si_key x < key) (br_seps t)"
  have s: "sorted (map si_key (br_seps t))" using ordered_seps[OF T(2,4)] by (simp add: strict_sorted_iff)
  have "t = Br (?xs @ ?ys) []" using wf_tree_parts(2)[OF T(2)] by (cases t) simp
  moreover have "key < si_key y" if y: "y \<in> set ?ys" for y
  proof -
    have "?ys = drop ?i (br_seps t)" by (simp add: dropWhile_eq_drop)
    then obtain j where "j < length (br_seps t) - ?i" "y = br_seps t ! (?i + j)" using y by (auto simp: in_set_conv_nth)
    then have j: "?i + j < length (br_seps t)" "y = br_seps t ! (?i + j)" by simp_all
    then have "key \<le> si_key y" "y \<in> set (br_seps t)" using takeWhile_position(3)[OF s refl, of key "?i + j"] by simp_all
    then show ?thesis using assms(2) by (auto simp: le_less)
  qed
  ultimately show ?thesis
    using that[of ?xs ?ys] position_root(1)[OF T(1,2,4) refl, of key] assms(2) by (auto dest: set_takeWhileD)
qed

lemma insert_leaf:
  assumes st: "store s (Suc (Suc m)) \<sigma>" and t: "tree_at K 0 \<sigma> n t" and key: "key \<notin> si_key ` set (br_seps t)" "length key \<le> K" and val: "length val \<le> V"
    and K: "K < 2 ^ 32"
  shows "\<exists>r n' s' \<sigma>' ys t' ls. node_insert cd chg 0 key val n changes s = cret ((r, False), n', changes, s') \<and> store s' m \<sigma>' \<and>
     changed 0 \<sigma> n t (r, False) n' \<sigma>' ys t' ls (put_entry key val (entries \<sigma> t)) \<and> (ls = [] \<longrightarrow> length (br_seps t) \<le> length (br_seps t'))"
proof -
  note T = tree_atD[OF t]
  obtain xs ys where x: "t = Br (xs @ ys) []" "position n key = (False, length xs)"
      "\<forall>x\<in>set xs. si_key x < key" "\<forall>y\<in>set ys. key < si_key y"
    by (rule absent_split[OF t key(1)])
  obtain sep a s1 where c: "create_separator cd key val None s = cret (sep, s1)" "sp_separator sep = Some \<lparr>si_key = key, si_value = a\<rparr>"
      "\<sigma> a = None" "a \<noteq> NULL_ADDRESS" "store s1 (Suc m) (\<sigma>(a \<mapsto> val))"
    using create_new[OF st val] by blast
  define x' where "x' = \<lparr>si_key = key, si_value = a\<rparr>"
  define \<sigma>1 where "\<sigma>1 = \<sigma>(a \<mapsto> val)"
  let ?u = "Br (xs @ x' # ys) []"
  have sx: "si_value x' = a" by (simp add: x'_def)
  note v = value_added[OF T(3)[unfolded x(1)] c(3) sx \<sigma>1_def]
  have n: "node_is n (xs @ ys) []" using T(1) by (simp add: root_is_def x(1))
  have u: "parts_ok 0 (br_seps ?u) []" "small K ?u"
    using T(2,5) c(4) key(2) K unfolding x(1) wf_tree_parts_ok by (auto simp: parts_ok_def x'_def small_def)
  have "ent \<sigma>1 xs = ent \<sigma> xs" "ent \<sigma>1 ys = ent \<sigma> ys" by (rule ent_cong, rule v(3), simp)+
  moreover have "change_entries (key, Some val) (ent \<sigma> xs @ [] @ ent \<sigma> ys) = ent \<sigma> xs @ change_entries (key, Some val) [] @ ent \<sigma> ys"
    by (rule change_entries_local) (use x(3,4) in \<open>auto simp: ent_def\<close>)
  ultimately have en: "entries \<sigma>1 ?u = put_entry key val (entries \<sigma> t)"
    by (simp add: entries_def x(1) change_entries_def put_entry_def x'_def) (simp add: \<sigma>1_def)
  show ?thesis
  proof (cases "length (xs @ ys) = ORDER")
    case True
    then have h: "has_separator n (ORDER - 1) = Inr True" using has_separator_is[OF n, of "ORDER - 1"] by (simp add: ORDER_def)
    have "\<exists>r n' s' \<sigma>' zs t' ls. insert_full cd (length xs) sep None n s1 = cret (r, n', s') \<and> store s' m \<sigma>' \<and>
        changed 0 \<sigma> n t (Some r, False) n' \<sigma>' zs t' ls (entries \<sigma>1 ?u)"
      by (rule insert_full_is[OF c(5)[folded \<sigma>1_def] n True _ c(2)[folded x'_def] _ _ v(1) _ _ u v(2)[folded x(1)]]) simp_all
    then obtain r n' s' \<sigma>' zs t' ls where w: "insert_full cd (length xs) sep None n s1 = cret (r, n', s')" "store s' m \<sigma>'"
        "changed 0 \<sigma> n t (Some r, False) n' \<sigma>' zs t' ls (entries \<sigma>1 ?u)"
      by blast
    have "ls \<noteq> []" using w(3) by (cases r) (auto simp: changed_def outcome_def)
    moreover have "node_insert cd chg 0 key val n changes s = cret ((Some r, False), n', changes, s')"
      using x(2) h c(1) w(1) by (simp add: node_insert_def cret_def)
    ultimately show ?thesis using w(2,3) unfolding en by blast
  next
    case False
    then have l: "length (xs @ ys) < ORDER" using node_is_lengths(3)[OF n] by simp
    then have h: "has_separator n (ORDER - 1) = Inr False" using has_separator_is[OF n, of "ORDER - 1"] by (simp add: ORDER_def)
    obtain n' where n': "insert_at (length xs) sep None n = Inr n'" "nd_changed n'" "node_is n' (xs @ x' # ys) []"
      using insert_at_is[OF n _ l c(2), of "length xs" None a] by (auto simp: x'_def)
    then obtain n1 where n1: "shift_from (length xs) False False n = Inr n1" "set_separator (length xs) sep n1 = Inr n'"
      by (auto simp: insert_at_def rbind_Inr_iff)
    have "changed 0 \<sigma> n t (None, False) n' \<sigma>1 [] ?u [] (put_entry key val (entries \<sigma> t))"
    proof (rule changedI[OF v(1)])
      show "frame \<sigma> (own t) \<sigma>1 (own ?u)" using v(2) x(1) by simp
      show "wf_tree 0 ?u" using u(1) l unfolding wf_tree_parts_ok by simp
    qed (use n' en in \<open>simp_all add: root_is_def\<close>)
    moreover have "node_insert cd chg 0 key val n changes s = cret ((None, False), n', changes, s1)"
      using x(2) h c(1) n1 by (simp add: node_insert_def cret_def)
    moreover have "length (br_seps t) \<le> length (br_seps ?u)" by (simp add: x(1))
    ultimately show ?thesis using store_weaken[OF c(5)[folded \<sigma>1_def], of m] le_SucI[OF le_refl] by blast
  qed
qed

end

end
