(* ===== verification/BTree_Update.thy ===== *)
theory BTree_Update
  imports BTree_Change
begin

text \<open>
  Removal of a key from a node (\<open>Node::on_existing\<close> of \<^verbatim>\<open>src/src/btree/node.rs\<close>) and the change of a
  child, with the split of a full node or the rebalance of a small child that may follow.
\<close>

lemma wf_tree_inorder: "wf_tree d t \<Longrightarrow> z \<in> set (inorder t) \<Longrightarrow> si_value z \<noteq> NULL_ADDRESS \<and> length (si_key z) < 2 ^ 32"
proof (induction d arbitrary: t)
  case 0
  then show ?case by (cases t) (auto simp: storable_def)
next
  case (Suc d)
  then show ?case by (cases t) (fastforce simp: storable_def set_weave)
qed

lemma small_entries: "small K t \<longleftrightarrow> (\<forall>e\<in>set (entries \<sigma> t). length (fst e) \<le> K)"
  by (auto simp: small_def entries_def ent_def)

lemma wf_kidsI:
  assumes "storable xs (map fst (ks @ (a, c) # ls))" and "length (ks @ (a, c) # ls) = Suc (length xs)"
    and "\<forall>k\<in>set ks \<union> set ls. wf_tree e (snd k) \<and> ORDER div 2 \<le> length (br_seps (snd k))" and "wf_tree e c" and "lo \<le> length (br_seps c)"
  shows "wf_kids e ((\<lambda>_. ORDER div 2)(length ks := lo)) (Br xs (ks @ (a, c) # ls))"
proof -
  have "wf_tree e (snd ((ks @ (a, c) # ls) ! j)) \<and> ((\<lambda>_. ORDER div 2)(length ks := lo)) j \<le> length (br_seps (snd ((ks @ (a, c) # ls) ! j)))"
    if "j < length (ks @ (a, c) # ls)" for j
    using that assms(3-5) nth_mem[of j ks] nth_mem[of "j - Suc (length ks)" ls] by (auto simp: nth_append nth_Cons split: nat.splits)
  then show ?thesis using assms(1,2) by (simp add: wf_kids_def)
qed

context node_store
begin

section \<open>Removing\<close>

lemma remove_leaf:
  assumes st: "store s m \<sigma>" and t: "tree_at K 0 \<sigma> n t" and key: "key \<in> si_key ` set (br_seps t)"
  shows "\<exists>b n' s' \<sigma>' t'. node_remove cd chg 0 key n changes s = cret ((None, b), n', changes, s') \<and> store s' m \<sigma>' \<and>
     changed 0 \<sigma> n t (None, b) n' \<sigma>' [] t' [] (cut_entry key (entries \<sigma> t)) \<and> fill b t t'"
proof -
  note T = tree_atD[OF t]
  obtain xs x ys ks where x: "t = Br (xs @ x # ys) ks" "si_key x = key" "position n key = (True, length xs)"
      "separator_address n (length xs) = Inr (Some (si_value x))"
    by (rule separator_split[OF t key])
  have ks: "ks = []" using wf_tree_parts(2)[OF T(2)] x(1) by simp
  have "si_value x \<in> own t" by (simp add: x)
  then obtain old where "\<sigma> (si_value x) = Some old" using T(3) by (auto simp: loose_def)
  then obtain r s' where c: "existing_plan cd (si_value x) None s = cret (r, s')" "store s' m (\<sigma>(si_value x := None))"
    using remove_stored[OF st] by blast
  define \<sigma>' where "\<sigma>' = \<sigma>(si_value x := None)"
  note v = value_removed[OF T(3)[unfolded x(1)] \<sigma>'_def]
  have n: "node_is n (xs @ x # ys) []" using T(1) by (simp add: root_is_def x(1) ks)
  obtain sep n1 where r: "remove_separator (length xs) n = Inr (sep, n1)" "node_is (remove_from (length xs) False True n1) (xs @ ys) []"
      "nd_changed (remove_from (length xs) False True n1)"
    using remove_leaf_is[OF n, of "length xs"] by auto
  have "ent \<sigma>' xs = ent \<sigma> xs" "ent \<sigma>' ys = ent \<sigma> ys" by (rule ent_cong, rule v(3), simp)+
  then have en: "entries \<sigma>' (Br (xs @ ys) []) = cut_entry key (entries \<sigma> t)"
    using put_entry_at(2)[of "ent \<sigma> xs" key "\<sigma> (si_value x)" "ent \<sigma> ys"] T(4) x(2) by (simp add: entries_def x(1) ks)
  have "wf_tree 0 (Br (xs @ ys) [])" using T(2) by (auto simp: x(1) ks storable_def)
  then have "changed 0 \<sigma> n t (None, b) (remove_from (length xs) False True n1) \<sigma>' [] (Br (xs @ ys) []) [] (cut_entry key (entries \<sigma> t))" for b
    using changedI[OF v(1,2)[folded x(1)]] r(2,3) en by (simp add: root_is_def ks)
  moreover have "node_remove cd chg 0 key n changes s =
      cret ((None, length (xs @ ys) < ORDER div 2), remove_from (length xs) False True n1, changes, s')"
    using x(3,4) c(1) r(1) need_rebalance_is[OF r(2)] by (simp add: node_remove_def cret_def)
  moreover have "fill (length (xs @ ys) < ORDER div 2) t (Br (xs @ ys) [])" by (simp add: fill_def x(1))
  ultimately show ?thesis using c(2) unfolding \<sigma>'_def[symmetric] by blast
qed

text \<open>
  In an inner node the separator that is removed is replaced by the greatest one below the child to
  its left.
\<close>

lemma exchange_hole_is:
  assumes n: "node_is n (xs @ x # ys) cs" and n1: "remove_separator (length xs) n = Inr (old, n1)"
    and n2: "kidv n2 = (kidv n1)[i := Some a]" "nd_separators n2 = nd_separators n1" "i < length cs" and sep: "sp_separator sep = Some y"
  shows "\<exists>n3. set_separator (length xs) sep n2 = Inr n3 \<and> nd_changed n3 \<and> node_is n3 (xs @ y # ys) (cs[i := a])"
proof -
  note l = node_is_lengths[OF n]
  have len: "length xs < length (nd_separators n)" using l(1,3) by simp
  have v: "sepv n1 = (sepv n)[length xs := None]" "nd_children n1 = nd_children n" using remove_separator_view[OF len] n1 by auto
  have "length (nd_separators n2) = length (nd_separators n)" using arg_cong[OF v(1), of length] n2(2) by simp
  then obtain n3 where s: "set_separator (length xs) sep n2 = Inr n3" "sepv n3 = (sepv n2)[length xs := Some y]"
      "nd_children n3 = nd_children n2" "nd_changed n3"
    using set_separator_view[of "length xs" n2 sep] len sep by auto
  have "arr True ORDER (sepv n3) (xs @ y # ys)"
    using arr_set[OF node_isD(1)[OF n], of "length xs" y] s(2) v(1) n2(2) by simp
  moreover have "arr (cs[i := a] = []) ORDER_CHILD (kidv n3) (cs[i := a])"
    using arr_set[OF node_isD(2)[OF n] n2(3), of a] n2(1) s(3) v(2) by simp
  ultimately have "node_is n3 (xs @ y # ys) (cs[i := a])" using node_isD(3)[OF n] by (intro node_isI) auto
  then show ?thesis using s by blast
qed

lemma inner_split:
  assumes "wf_tree (Suc e) (Br (xs @ x # ys) ks)"
  obtains ks1 a c k ks2 where "ks = ks1 @ (a, c) # k # ks2" and "length ks1 = length xs" and "length ks2 = length ys"
    and "wf_tree e c" and "ORDER div 2 \<le> length (br_seps c)" and "a \<noteq> NULL_ADDRESS"
    and "\<forall>k'\<in>set ks1 \<union> {k} \<union> set ks2. wf_tree e (snd k') \<and> ORDER div 2 \<le> length (br_seps (snd k')) \<and> fst k' \<noteq> NULL_ADDRESS"
proof -
  have l: "length ks = Suc (Suc (length xs + length ys))" using assms by simp
  then have "ks = take (length xs) ks @ ks ! length xs # ks ! Suc (length xs) # drop (Suc (Suc (length xs))) ks"
    by (simp add: id_take_nth_drop[symmetric] Cons_nth_drop_Suc)
  moreover obtain a c where "ks ! length xs = (a, c)" by (cases "ks ! length xs")
  ultimately have ks: "ks = take (length xs) ks @ (a, c) # ks ! Suc (length xs) # drop (Suc (Suc (length xs))) ks" by simp
  have k: "\<forall>k\<in>set ks. wf_tree e (snd k) \<and> ORDER div 2 \<le> length (br_seps (snd k)) \<and> fst k \<noteq> NULL_ADDRESS"
    using assms by (auto simp: storable_def)
  have "(a, c) \<in> set ks" by (subst ks) simp
  moreover have "set (take (length xs) ks) \<union> {ks ! Suc (length xs)} \<union> set (drop (Suc (Suc (length xs))) ks) \<subseteq> set ks"
    using l by (auto dest: in_set_takeD in_set_dropD)
  ultimately show ?thesis using that[OF ks] k l by fastforce
qed

lemma remove_inner_step:
  assumes st: "store s (3 * e + Suc m) \<sigma>" and t: "tree_at K (Suc e) \<sigma> n t" and key: "key \<in> si_key ` set (br_seps t)"
  shows "\<exists>i bal n1 s' \<sigma>' t'. node_remove cd chg (Suc e) key n changes s =
       cbind (if bal then rebalance cd (Suc e) i n1 s' else cret (n1, s')) (\<lambda>(n, s).
         cbind (Some (need_rebalance n)) (\<lambda>b. cret ((None, b), n, changes, s))) \<and> store s' m \<sigma>' \<and>
     root_is n1 t' \<and> nd_changed n1 \<and> tree_in \<sigma>' t' \<and> frame \<sigma> (own t) \<sigma>' (own t') \<and> entries \<sigma>' t' = cut_entry key (entries \<sigma> t) \<and>
     length (br_seps t') = length (br_seps t) \<and> i < length (br_kids t') \<and>
     wf_kids e ((\<lambda>_. ORDER div 2)(i := if bal then ORDER div 2 - 1 else ORDER div 2)) t' \<and>
     (bal \<longrightarrow> length (br_seps (snd (br_kids t' ! i))) < ORDER div 2)"
proof -
  note T = tree_atD[OF t]
  obtain xs x ys ks where x: "t = Br (xs @ x # ys) ks" "si_key x = key" "position n key = (True, length xs)"
      "separator_address n (length xs) = Inr (Some (si_value x))"
    by (rule separator_split[OF t key])
  obtain ks1 a c k ks2 where ks: "ks = ks1 @ (a, c) # k # ks2" "length ks1 = length xs" "length ks2 = length ys" "wf_tree e c"
      "ORDER div 2 \<le> length (br_seps c)" "a \<noteq> NULL_ADDRESS"
      "\<forall>k'\<in>set ks1 \<union> {k} \<union> set ks2. wf_tree e (snd k') \<and> ORDER div 2 \<le> length (br_seps (snd k')) \<and> fst k' \<noteq> NULL_ADDRESS"
    by (rule inner_split[OF T(2)[unfolded x(1)]])
  have "si_value x \<in> own t" by (simp add: x)
  then obtain old where "\<sigma> (si_value x) = Some old" using T(3) by (auto simp: loose_def)
  then obtain r0 s1 where c1: "existing_plan cd (si_value x) None s = cret (r0, s1)" "store s1 (3 * e + Suc m) (\<sigma>(si_value x := None))"
    using remove_stored[OF st] by blast
  define \<sigma>1 where "\<sigma>1 = \<sigma>(si_value x := None)"
  note v = value_removed[OF T(3)[unfolded x(1)] \<sigma>1_def]
  let ?i = "length xs" and ?t = "Br (xs @ ys) ks"
  have n: "node_is n (xs @ x # ys) (map fst ks)" using T(1) by (simp add: root_is_def x(1))
  obtain sep0 n1 where r: "remove_separator ?i n = Inr (sep0, n1)" "nd_children n1 = nd_children n"
    using remove_separator_view[of ?i n] node_is_lengths[OF n] by auto
  have kt: "br_kids ?t = ks1 @ (a, c) # k # ks2" using ks(1) by simp
  have nc: "?i < length (nd_children n1)" "kidv n1 ! ?i = Some a"
    using node_is_kidv[OF n, of ?i] r(2) ks(1,2) by (auto simp: nth_append)
  obtain child where ch: "fetch_child cd n1 ?i (fst s1) (writer_query (snd s1)) = cret (Some child)" "root_is child c"
    using fetch_child_at[OF c1(2)[folded \<sigma>1_def] nc kid_bytes(1)[OF v(1) kt] wf_tree_parts(1)[OF ks(4)]] by blast
  have sm: "small K c" using iffD1[OF small_parts T(5)] by (simp add: x(1) ks(1))
  have "br_seps c \<noteq> []" using ks(5) by (auto simp: ORDER_def)
  from remove_last_tree[OF c1(2)[folded \<sigma>1_def] ch(2) ks(4) tree_in_kid(1)[OF v(1) kt] sm this]
  obtain bal sep y child' s2 \<sigma>2 c' where l: "remove_last cd e child s1 = cret ((bal, Some sep), child', s2)" "sp_separator sep = Some y"
      "store s2 (Suc m) \<sigma>2" "root_is child' c'" "nd_changed child' \<or> child' = child" "wf_tree e c'" "leaves \<sigma>1 c \<sigma>2 [y] c' []"
      "inorder c = inorder c' @ [y]" "ent \<sigma>2 (inorder c) = entries \<sigma>1 c" "fill bal c c'"
    by blast
  have i: "?i < length (br_kids ?t)" "br_kids ?t ! ?i = (a, c)" using ks(1,2) by (simp_all add: nth_append)
  let ?u = "\<lambda>a'. Br (xs @ y # ys) (ks1 @ (a', c') # k # ks2)"
  have u: "?u = (\<lambda>a'. Br (take ?i (br_seps ?t) @ [y] @ drop ?i (br_seps ?t)) (take ?i (br_kids ?t) @ (a', c') # [] @ drop (Suc ?i) (br_kids ?t)))"
    using ks(1,2) by simp
  have "small K c'" using sm l(8) by (simp add: small_def)
  from child_written[OF l(3) v(1) i ks(6) l(7,4) wf_tree_parts(1)[OF l(6)] this leaves_bytes[OF ch(2) l(4,5)] nc u]
  obtain a' n2 s3 \<sigma>3 where w: "write_child cd ?i child' n1 s2 = cret (n2, s3)" "store s3 m \<sigma>3" "a' \<noteq> NULL_ADDRESS" "tree_in \<sigma>3 (?u a')"
      "frame \<sigma>1 (own ?t) \<sigma>3 (own (?u a'))" "kidv n2 = (kidv n1)[?i := Some a']" "nd_separators n2 = nd_separators n1"
      "\<forall>z \<in> set [y] \<union> set (inorder c'). \<sigma>3 (si_value z) = \<sigma>2 (si_value z)"
      "\<forall>z \<in> set (br_seps ?t) \<union> (\<Union>l\<in>set (take ?i (br_kids ?t)) \<union> set (drop (Suc ?i) (br_kids ?t)). set (inorder (snd l))). \<sigma>3 (si_value z) = \<sigma>1 (si_value z)"
    by (simp only: list.set UN_empty Un_empty_right) blast
  obtain n3 where n3: "set_separator ?i sep n2 = Inr n3" "nd_changed n3" "node_is n3 (xs @ y # ys) ((map fst ks)[?i := a'])"
    using exchange_hole_is[OF n r(1) w(6,7) _ l(2)] ks(1,2) by auto
  have r3: "root_is n3 (?u a')" using n3(3) ks(1,2) by (simp add: root_is_def list_update_append)
  have all: "\<sigma>3 (si_value z) = \<sigma> (si_value z)" if z: "z \<in> set (inorder ?t)" for z
  proof -
    have "si_value z \<in> own ?t" using values_owned z by blast
    moreover have "\<sigma>3 (si_value z) = \<sigma>1 (si_value z)"
    proof (cases "z \<in> set (inorder c)")
      case True
      then show ?thesis using w(8) l(8,9) by (auto simp: entries_def ent_eq)
    next
      case False
      then show ?thesis using w(9) z ks(1,2) by (auto simp: set_weave)
    qed
    ultimately show ?thesis using v(3) by simp
  qed
  define P where "P = lead xs (map (\<lambda>k. inorder (snd k)) ks1) @ inorder c"
  define Q where "Q = inorder (snd k) @ trail ys (map (\<lambda>k. inorder (snd k)) ks2)"
  have io: "inorder t = P @ x # Q"
    using inorder_around(1)[OF ks(2,3), of x a c "fst k" "snd k"] by (simp add: x(1) ks(1) P_def Q_def)
  have io': "inorder (?u a') = P @ Q"
    using inorder_around(1)[OF ks(2,3), of y a' c' "fst k" "snd k"] l(8) by (simp add: P_def Q_def)
  have "set P \<union> set Q \<subseteq> set (inorder ?t)" using set_lead[of "map (\<lambda>k. inorder (snd k)) ks1" xs] set_trail[of "map (\<lambda>k. inorder (snd k)) ks2" ys] ks(1-3)
    by (auto simp: P_def Q_def set_weave)
  then have "ent \<sigma>3 P = ent \<sigma> P" "ent \<sigma>3 Q = ent \<sigma> Q" using all by (auto simp: ent_eq)
  moreover have "keys_sorted (ent \<sigma> P @ (key, \<sigma> (si_value x)) # ent \<sigma> Q)" using T(4) x(2) by (simp add: io)
  ultimately have en: "entries \<sigma>3 (?u a') = cut_entry key (entries \<sigma> t)" unfolding entries_def io io' by (simp add: put_entry_at x(2))
  have "si_value y \<noteq> NULL_ADDRESS \<and> length (si_key y) < 2 ^ 32" using wf_tree_inorder[OF ks(4)] l(8) by simp
  then have "storable (xs @ y # ys) (map fst (ks1 @ (a', c') # k # ks2))"
    using T(2) w(3) ks(1) by (auto simp: x(1) storable_def)
  then have wk: "wf_kids e ((\<lambda>_. ORDER div 2)(length ks1 := if bal then ORDER div 2 - 1 else ORDER div 2)) (?u a')"
    using ks l(6,10) by (intro wf_kidsI) (auto simp: fill_def)
  have "node_remove cd chg (Suc e) key n changes s =
       cbind (if bal then rebalance cd (Suc e) ?i n3 s3 else cret (n3, s3)) (\<lambda>(n, s).
         cbind (Some (need_rebalance n)) (\<lambda>b. cret ((None, b), n, changes, s)))"
    using x(3,4) c1(1) r(1) ch(1) l(1) w(1) n3(1) by (simp add: node_remove_def cret_def)
  moreover have "bal \<longrightarrow> length (br_seps (snd (br_kids (?u a') ! ?i))) < ORDER div 2" using l(10) ks(2) by (simp add: fill_def nth_append)
  moreover have "frame \<sigma> (own t) \<sigma>3 (own (?u a'))" using frame_trans[OF v(2)[folded x(1)] w(5)] .
  moreover have "length (br_seps (?u a')) = length (br_seps t)" "?i < length (br_kids (?u a'))" using ks(2) by (simp_all add: x(1))
  ultimately show ?thesis using w(2,4) r3 n3(2) en wk unfolding ks(2) by blast
qed

lemma remove_inner:
  assumes st: "store s (3 * e + Suc (Suc (Suc m))) \<sigma>" and t: "tree_at K (Suc e) \<sigma> n t" and key: "key \<in> si_key ` set (br_seps t)"
  shows "\<exists>b n' s' \<sigma>' t'. node_remove cd chg (Suc e) key n changes s = cret ((None, b), n', changes, s') \<and> store s' m \<sigma>' \<and>
     changed (Suc e) \<sigma> n t (None, b) n' \<sigma>' [] t' [] (cut_entry key (entries \<sigma> t)) \<and> fill b t t'"
proof -
  obtain i bal n1 s1 \<sigma>1 t1 where r: "node_remove cd chg (Suc e) key n changes s =
       cbind (if bal then rebalance cd (Suc e) i n1 s1 else cret (n1, s1)) (\<lambda>(n, s).
         cbind (Some (need_rebalance n)) (\<lambda>b. cret ((None, b), n, changes, s)))" "store s1 (Suc (Suc m)) \<sigma>1"
     "root_is n1 t1" "nd_changed n1" "tree_in \<sigma>1 t1" "frame \<sigma> (own t) \<sigma>1 (own t1)" "entries \<sigma>1 t1 = cut_entry key (entries \<sigma> t)"
     "length (br_seps t1) = length (br_seps t)" "i < length (br_kids t1)"
     "wf_kids e ((\<lambda>_. ORDER div 2)(i := if bal then ORDER div 2 - 1 else ORDER div 2)) t1"
     "bal \<longrightarrow> length (br_seps (snd (br_kids t1 ! i))) < ORDER div 2"
    using remove_inner_step[OF st t key] by blast
  have need: "need_rebalance n' = Inr (length (br_seps t') < ORDER div 2)" if "root_is n' t'" for n' t'
    using need_rebalance_is[of n' "br_seps t'"] that by (simp add: root_is_def)
  show ?thesis
  proof (cases bal)
    case False
    moreover have "(\<lambda>_. ORDER div 2)(i := ORDER div 2) = (\<lambda>_. ORDER div 2)" by auto
    ultimately have "wf_tree (Suc e) t1" using r(10) by (simp add: wf_tree_kids)
    then have "changed (Suc e) \<sigma> n t (None, b) n1 \<sigma>1 [] t1 [] (cut_entry key (entries \<sigma> t))" for b
      using changedI[OF r(5,6,3)] r(4,7) by simp
    moreover have "node_remove cd chg (Suc e) key n changes s = cret ((None, length (br_seps t1) < ORDER div 2), n1, changes, s1)"
      using r(1) False need[OF r(3)] by (simp add: cret_def)
    moreover have "fill (length (br_seps t1) < ORDER div 2) t t1" using r(8) by (auto simp: fill_def)
    ultimately show ?thesis using store_weaken[OF r(2), of m] by fastforce
  next
    case True
    have "length (br_seps t1) \<noteq> 0" using r(8) tree_atD(6)[OF t] by simp
    then have ne: "br_seps t1 \<noteq> []" by auto
    have sm: "small K t1"
      using iffD1[OF small_entries tree_atD(5)[OF t], of \<sigma>] unfolding small_entries[of K t1 \<sigma>1] r(7) by (auto simp: cut_entry_def)
    have "wf_kids e ((\<lambda>_. ORDER div 2)(i := ORDER div 2 - 1)) t1" "length (br_seps (snd (br_kids t1 ! i))) < ORDER div 2"
      using r(10,11) True by simp_all
    from rebalance_is[OF r(2,3,5) sm this(1) r(9) ne this(2)]
    obtain n2 s2 \<sigma>2 t2 where b: "rebalance cd (Suc e) i n1 s1 = cret (n2, s2)" "store s2 m \<sigma>2" "rearranged e \<sigma>1 t1 n2 \<sigma>2 t2"
      by blast
    have q: "root_is n2 t2" "nd_changed n2" "tree_in \<sigma>2 t2" "frame \<sigma>1 (own t1) \<sigma>2 (own t2)" "entries \<sigma>2 t2 = entries \<sigma>1 t1"
        "wf_tree (Suc e) t2" "length (br_seps t1) \<le> Suc (length (br_seps t2))"
      using b(3) by (simp_all add: rearranged_def)
    have "changed (Suc e) \<sigma> n t (None, b) n2 \<sigma>2 [] t2 [] (cut_entry key (entries \<sigma> t))" for b
      using changedI[OF q(3) frame_trans[OF r(6) q(4)] q(1)] q(2,5,6) r(7) by simp
    moreover have "node_remove cd chg (Suc e) key n changes s = cret ((None, length (br_seps t2) < ORDER div 2), n2, changes, s2)"
      using r(1) True b(1) need[OF q(1)] by (simp add: cret_def)
    moreover have "fill (length (br_seps t2) < ORDER div 2) t t2" using r(8) q(7) by (auto simp: fill_def)
    ultimately show ?thesis using b(2) by fastforce
  qed
qed

section \<open>Changing a child\<close>

lemma inorder_flat:
  assumes "length ks = length xs" and "length ls = length ys" and "length ms = length zs"
  shows "inorder (Br (xs @ ys @ zs) (ks @ (a, c) # ls @ ms)) =
     lead xs (map (\<lambda>k. inorder (snd k)) ks) @ flat c ys ls @ trail zs (map (\<lambda>k. inorder (snd k)) ms)"
  using assms by (simp add: weave_append weave_Cons trail_append)

lemma child_changed:
  assumes st: "store s1 (Suc (Suc (Suc m))) \<sigma>1" and t: "tree_at K (Suc e) \<sigma> n t" and i: "i \<le> length (br_seps t)" and k: "br_kids t ! i = (a, c)"
    and child: "root_is child c" and ch: "changed e \<sigma> child c r child' \<sigma>1 ys c' ls ps"
    and half: "ls = [] \<longrightarrow> (if snd r then ORDER div 2 \<le> Suc (length (br_seps c')) \<and> length (br_seps c') < ORDER div 2 else ORDER div 2 \<le> length (br_seps c'))"
    and sm: "\<forall>p\<in>set ps. length (fst p) \<le> K" and K: "K < 2 ^ 32"
  shows "\<exists>r' n' s' \<sigma>' ys' t' ls'. cbind (write_child cd i child' n s1) (\<lambda>(n, s). cbind (after_child cd (Suc e) i r n s) (\<lambda>(r, n, s). cret (r, n, changes, s))) =
       cret (r', n', changes, s') \<and> store s' m \<sigma>' \<and>
     changed (Suc e) \<sigma> n t r' n' \<sigma>' ys' t' ls' (ent \<sigma> (before i t) @ ps @ ent \<sigma> (behind i t)) \<and> (ls' = [] \<longrightarrow> fill (snd r') t t')"
proof -
  note T = tree_atD[OF t]
  have lk: "length (br_kids t) = Suc (length (br_seps t))" using wf_tree_parts(3)[OF T(2) refl] .
  have ik: "i < length (br_kids t)" using i lk by simp
  have C: "outcome r ys ls" "root_is child' c'" "nd_changed child' \<or> child' = child" "wf_tree e c'" "leaves \<sigma> c \<sigma>1 ys c' ls"
      "ent \<sigma>1 (flat c' ys ls) = ps" "\<forall>y\<in>set ys. si_value y \<noteq> NULL_ADDRESS"
      "\<forall>l\<in>set ls. fst l \<noteq> NULL_ADDRESS \<and> wf_tree e (snd l) \<and> ORDER div 2 \<le> length (br_seps (snd l))" "ls \<noteq> [] \<longrightarrow> ORDER div 2 \<le> length (br_seps c')"
    using ch by (simp_all add: changed_def)
  have ll: "length ls = length ys" using C(1) by (auto simp: outcome_def split: option.splits prod.splits)
  let ?u = "\<lambda>a'. Br (take i (br_seps t) @ ys @ drop i (br_seps t)) (take i (br_kids t) @ (a', c') # ls @ drop (Suc i) (br_kids t))"
  have nn: "node_is n (br_seps t) (kid_addresses t)" using T(1) by (simp add: root_is_def)
  have nc: "i < length (nd_children n)" "kidv n ! i = Some a" using node_is_kidv[OF nn, of i] ik k by auto
  have an: "a \<noteq> NULL_ADDRESS" using wf_tree_parts(1)[OF T(2)] nth_mem[OF ik] k by (force simp: storable_def)
  have fk: "length (si_key x) \<le> K" if "x \<in> set (flat c' ys ls)" for x
    using imageI[OF that, of "\<lambda>x. (si_key x, \<sigma>1 (si_value x))"] sm unfolding C(6)[symmetric] ent_def set_map by fastforce
  have "small K c'" using fk by (simp add: small_def)
  from child_written[OF st T(3) ik k an C(5,2) wf_tree_parts(1)[OF C(4)] this leaves_bytes[OF child C(2,3)] nc refl]
  obtain a' n1 s2 \<sigma>2 where w: "write_child cd i child' n s1 = cret (n1, s2)" "store s2 (Suc (Suc m)) \<sigma>2" "a' \<noteq> NULL_ADDRESS" "tree_in \<sigma>2 (?u a')"
      "frame \<sigma> (own t) \<sigma>2 (own (?u a'))" "kidv n1 = (kidv n)[i := Some a']" "nd_separators n1 = nd_separators n" "nd_changed n1 \<or> n1 = n"
      "ent \<sigma>2 (before i t) = ent \<sigma> (before i t)" "ent \<sigma>2 (behind i t) = ent \<sigma> (behind i t)"
      "\<forall>x \<in> set ys \<union> set (inorder c') \<union> (\<Union>l\<in>set ls. set (inorder (snd l))). \<sigma>2 (si_value x) = \<sigma>1 (si_value x)"
    by - (elim exE conjE, rule that, assumption+)
  have io: "inorder (?u a') = before i t @ flat c' ys ls @ behind i t" using inorder_flat[of "take i (br_kids t)" "take i (br_seps t)"] ll lk i by simp
  have "set (flat c' ys ls) = set ys \<union> set (inorder c') \<union> (\<Union>l\<in>set ls. set (inorder (snd l)))"
    using set_trail[of "map (\<lambda>l. inorder (snd l)) ls" ys] ll by auto
  then have "ent \<sigma>2 (flat c' ys ls) = ps" unfolding C(6)[symmetric] ent_eq using w(11) by blast
  then have en: "entries \<sigma>2 (?u a') = ent \<sigma> (before i t) @ ps @ ent \<sigma> (behind i t)" unfolding entries_def io using w(9,10) by simp
  have "\<forall>x\<in>set (inorder t). length (si_key x) \<le> K" using T(5) by (simp add: small_def)
  moreover have "set (before i t) \<union> set (behind i t) \<subseteq> set (inorder t)" using inorder_split[OF T(2) i] by auto
  ultimately have su: "small K (?u a')" unfolding small_def io using fk by auto
  have n1: "node_is n1 (br_seps t) ((kid_addresses t)[i := a'])" using node_is_written[OF nn w(6,7)] ik by simp
  have cs: "kid_addresses t \<noteq> []" using lk by auto
  have rest: "\<forall>k\<in>set (take i (br_kids t)) \<union> set (drop (Suc i) (br_kids t)). fst k \<noteq> NULL_ADDRESS \<and> wf_tree e (snd k) \<and> ORDER div 2 \<le> length (br_seps (snd k))"
    using wf_tree_parts(1)[OF T(2)] wf_tree_parts(4)[OF T(2) refl] by (force simp: storable_def dest: in_set_takeD in_set_dropD)
  have sep_ok: "\<forall>x\<in>set (take i (br_seps t) @ ys @ drop i (br_seps t)). si_value x \<noteq> NULL_ADDRESS \<and> length (si_key x) < 2 ^ 32"
  proof -
    have "set ys \<subseteq> set (flat c' ys ls)" using set_trail[of "map (\<lambda>l. inorder (snd l)) ls" ys] ll by auto
    then have "\<forall>y\<in>set ys. length (si_key y) < 2 ^ 32" using fk K by (meson le_less_trans subsetD)
    then show ?thesis using C(7) wf_tree_parts(1)[OF T(2)] by (auto simp: storable_def dest: in_set_takeD in_set_dropD)
  qed
  have res: "cbind (write_child cd i child' n s1) (\<lambda>(n, s). cbind (after_child cd (Suc e) i r n s) (\<lambda>(r, n, s). cret (r, n, changes, s))) =
      cbind (after_child cd (Suc e) i r n1 s2) (\<lambda>(r, n, s). cret (r, n, changes, s))"
    using w(1) by (simp add: cret_def)
  show ?thesis
  proof (cases r)
    case r: (Pair x b)
    show ?thesis
    proof (cases x)
      case (Some y)
      then obtain sep right where x: "x = Some (sep, right)" by (cases y) auto
      obtain y l where yl: "ys = [y]" "ls = [l]" "sp_separator sep = Some y" "ch_entry_index right = Some (fst l)"
        using C(1) by (auto simp: outcome_def r x)
      let ?cs = "(kid_addresses t)[i := a']" and ?ms = "take i (br_kids t) @ (a', c') # l # drop (Suc i) (br_kids t)"
      have u: "?u a' = Br (take i (br_seps t) @ y # drop i (br_seps t)) ?ms" by (simp add: yl)
      have ms: "map fst ?ms = take (Suc i) ?cs @ fst l # drop (Suc i) ?cs"
        using ik by (simp add: take_Suc_conv_app_nth take_map drop_map)
      have pk: "parts_ok (Suc e) (br_seps (?u a')) ?ms"
        using sep_ok rest C(4,8,9) w(3) lk i yl by (auto simp: parts_ok_def)
      have cs': "?cs \<noteq> []" using cs by simp
      from insert_node_is[OF w(2) n1 cs' i yl(3,4) w(4) u ms pk su w(5), of n]
      obtain r' n' s' \<sigma>' ys' t' ls' where v: "insert_node cd i sep right n1 s2 = cret (r', n', s')" "store s' (Suc m) \<sigma>'"
          "changed (Suc e) \<sigma> n t (r', False) n' \<sigma>' ys' t' ls' (entries \<sigma>2 (?u a'))" "ls' = [] \<longrightarrow> length (br_seps t) \<le> length (br_seps t')"
        by - (elim exE conjE, rule that, assumption+)
      have "cbind (after_child cd (Suc e) i r n1 s2) (\<lambda>(r, n, s). cret (r, n, changes, s)) = cret ((r', False), n', changes, s')"
        using v(1) by (simp add: after_child_def r x cret_def)
      moreover have "ls' = [] \<longrightarrow> fill False t t'" using v(4) by (simp add: fill_def)
      ultimately show ?thesis
        using v(3) store_weaken[OF v(2), of m] unfolding res en
        by (intro exI[of _ "(r', False)"] exI[of _ n'] exI[of _ s'] exI[of _ \<sigma>'] exI[of _ ys'] exI[of _ t'] exI[of _ ls']) simp
    next
      case None
      then have yl: "ys = []" "ls = []" using C(1) by (auto simp: outcome_def r)
      have u: "?u a' = Br (br_seps t) (take i (br_kids t) @ (a', c') # drop (Suc i) (br_kids t))" by (simp add: yl)
      have r1: "root_is n1 (?u a')" using n1 ik by (simp add: u root_is_def upd_conv_take_nth_drop take_map drop_map)
      have sto: "storable (br_seps t) (map fst (take i (br_kids t) @ (a', c') # drop (Suc i) (br_kids t)))"
        using wf_tree_parts(1)[OF T(2)] w(3) lk ik rest unfolding storable_def by (auto, force+)
      have lu: "length (take i (br_kids t) @ (a', c') # drop (Suc i) (br_kids t)) = Suc (length (br_seps t))" using lk ik by simp
      show ?thesis
      proof (cases b)
        case False
        have "wf_tree (Suc e) (?u a')" using sto lu rest C(4) half yl False r unfolding u by auto
        then have "changed (Suc e) \<sigma> n t (None, False) n1 \<sigma>2 [] (?u a') [] (entries \<sigma>2 (?u a'))"
          using changedI[OF w(4,5) r1 w(8)] by simp
        moreover have "cbind (after_child cd (Suc e) i r n1 s2) (\<lambda>(r, n, s). cret (r, n, changes, s)) = cret ((None, False), n1, changes, s2)"
          using None False by (simp add: after_child_def r cret_def)
        moreover have "fill False t (?u a')" by (simp add: fill_def u)
        ultimately show ?thesis
          using store_weaken[OF w(2), of m] unfolding res en
          by (intro exI[of _ "(None, False)"] exI[of _ n1] exI[of _ s2] exI[of _ \<sigma>2] exI[of _ "[]"] exI[of _ "?u a'"]) (simp add: yl)
      next
        case True
        have h: "ORDER div 2 - 1 \<le> length (br_seps c')" "length (br_seps c') < ORDER div 2" using half yl True r by auto
        have li: "length (take i (br_kids t)) = i" using ik by simp
        have wk: "wf_kids e ((\<lambda>_. ORDER div 2)(i := ORDER div 2 - 1)) (?u a')"
          using wf_kidsI[OF sto lu _ C(4) h(1)] rest unfolding u li by blast
        have ne: "br_seps (?u a') \<noteq> []" "i < length (br_kids (?u a'))" "length (br_seps (snd (br_kids (?u a') ! i))) < ORDER div 2"
          using T(6) lu ik h(2) by (simp_all add: u nth_append)
        from rebalanced_is[OF w(2) r1 w(4) su wk ne(2,1,3)]
        obtain n2 s3 \<sigma>3 t3 where b: "rebalanced cd (Suc e) i n1 s2 = cret (length (br_seps t3) < ORDER div 2, n2, s3)" "store s3 m \<sigma>3"
            "rearranged e \<sigma>2 (?u a') n2 \<sigma>3 t3"
          by blast
        have q: "root_is n2 t3" "nd_changed n2" "tree_in \<sigma>3 t3" "frame \<sigma>2 (own (?u a')) \<sigma>3 (own t3)" "entries \<sigma>3 t3 = entries \<sigma>2 (?u a')"
            "wf_tree (Suc e) t3" "length (br_seps t) \<le> Suc (length (br_seps t3))"
          using b(3) by (simp_all add: rearranged_def yl)
        let ?b = "length (br_seps t3) < ORDER div 2"
        have "changed (Suc e) \<sigma> n t (None, ?b) n2 \<sigma>3 [] t3 [] (entries \<sigma>2 (?u a'))"
          using changedI[OF q(3) frame_trans[OF w(5) q(4)] q(1) disjI1[OF q(2)] q(6,5)] .
        moreover have "cbind (after_child cd (Suc e) i r n1 s2) (\<lambda>(r, n, s). cret (r, n, changes, s)) = cret ((None, ?b), n2, changes, s3)"
          using None True b(1) by (simp add: after_child_def r cret_def)
        moreover have "fill ?b t t3" using q(7) by (auto simp: fill_def)
        ultimately show ?thesis
          using b(2) unfolding res en
          by (intro exI[of _ "(None, ?b)"] exI[of _ n2] exI[of _ s3] exI[of _ \<sigma>3] exI[of _ "[]"] exI[of _ t3]) simp
      qed
    qed
  qed
qed

end

end
