(* ===== verification/BTree_Loop.thy ===== *)
theory BTree_Loop
  imports BTree_Update
begin

text \<open>
  A sorted list of changes applied to a tree (\<open>Node::change\<close> of \<^verbatim>\<open>src/src/btree/node.rs\<close>). A node
  takes as many changes as belong to it; what it leaves is a suffix of the list whose head is the last
  change that was applied. The loop ends for every list of changes, and the entries of the tree are
  changed by the changes that were taken, in their order.
\<close>

section \<open>Which changes a node takes\<close>

definition near :: "btr \<Rightarrow> bytes \<Rightarrow> bytes \<Rightarrow> bool" where
  "near t k0 k \<longleftrightarrow> k \<le> k0 \<or> (\<exists>y\<in>set (inorder t). k \<le> si_key y)"

definition inside :: "nat \<Rightarrow> btr \<Rightarrow> bytes \<Rightarrow> bool" where
  "inside i t k \<longleftrightarrow> (\<forall>y\<in>set (before i t). si_key y < k) \<and> (\<forall>y\<in>set (behind i t). k < si_key y)"

definition batch :: "nat \<Rightarrow> nat \<Rightarrow> btree_change list \<Rightarrow> bool" where
  "batch K V changes \<longleftrightarrow> changes \<noteq> [] \<and> sorted (map fst changes) \<and>
     (\<forall>c\<in>set changes. length (fst c) \<le> K \<and> (\<forall>v. snd c = Some v \<longrightarrow> length v \<le> V))"

definition half :: "bool \<Rightarrow> btr \<Rightarrow> btr \<Rightarrow> bool" where
  "half b t t' \<longleftrightarrow> (if b then ORDER div 2 \<le> Suc (length (br_seps t')) \<and> length (br_seps t') < ORDER div 2 else ORDER div 2 \<le> length (br_seps t'))"

definition cost :: "nat \<Rightarrow> nat" where
  "cost d = 4 * Suc d"

lemma fill_half: "fill b t t' \<Longrightarrow> ORDER div 2 \<le> length (br_seps t) \<Longrightarrow> half b t t'"
  by (auto simp: fill_def half_def)

lemma inside_le:
  assumes "inside i t k0" and "k0 \<le> k" and "k \<le> k1" and "inside i t k1"
  shows "inside i t k"
  using assms unfolding inside_def by (meson le_less_trans less_le_trans)

lemma batch_tl: "batch K V changes \<Longrightarrow> changes = used @ rest \<Longrightarrow> rest \<noteq> [] \<Longrightarrow> batch K V rest"
  by (auto simp: batch_def sorted_append)

lemma batch_first: "batch K V changes \<Longrightarrow> c \<in> set changes \<Longrightarrow> fst (hd changes) \<le> fst c"
  by (cases changes) (auto simp: batch_def)

lemma changed_trans:
  assumes "changed d \<sigma> n t (None, False) n1 \<sigma>1 [] t1 [] ps1" and "changed d \<sigma>1 n1 t1 r n' \<sigma>' ys t' ls ps"
  shows "changed d \<sigma> n t r n' \<sigma>' ys t' ls ps"
proof -
  note a = changedD[OF assms(1)]
  have "leaves \<sigma> t \<sigma>' ys t' ls" using assms(2) frame_trans[OF a(4)] by (simp add: changed_def leaves_def)
  then show ?thesis using assms(2) a(6) by (auto simp: changed_def)
qed

section \<open>One change\<close>

context node_store
begin

definition runs :: "nat \<Rightarrow> (address \<rightharpoonup> bytes) \<Rightarrow> node \<Rightarrow> btr \<Rightarrow> btree_change list \<Rightarrow> nat \<Rightarrow> (bool \<Rightarrow> btr \<Rightarrow> btr \<Rightarrow> bool) \<Rightarrow>
    (bytes \<Rightarrow> bool) \<Rightarrow> (change_result \<times> node \<times> btree_change list \<times> bstate) comp \<Rightarrow> bool" where
  "runs d \<sigma> n t changes m F N res \<longleftrightarrow> (\<exists>r n' changes' s' \<sigma>' used ys t' ls. res = cret (r, n', changes', s') \<and>
     changes = used @ tl changes' \<and> used \<noteq> [] \<and> changes' \<noteq> [] \<and> store s' (cost d * length (tl changes') + m) \<sigma>' \<and>
     changed d \<sigma> n t r n' \<sigma>' ys t' ls (fold change_entries used (entries \<sigma> t)) \<and> (ls = [] \<longrightarrow> F (snd r) t t') \<and>
     (\<forall>c\<in>set used. N (fst c)))"

lemma runsI:
  assumes "res = cret (r, n', changes', s')" and "changes = used @ tl changes'" and "used \<noteq> []" and "changes' \<noteq> []"
    and "store s' (cost d * length (tl changes') + m) \<sigma>'" and "changed d \<sigma> n t r n' \<sigma>' ys t' ls (fold change_entries used (entries \<sigma> t))"
    and "ls = [] \<longrightarrow> F (snd r) t t'" and "\<forall>c\<in>set used. N (fst c)"
  shows "runs d \<sigma> n t changes m F N res"
  unfolding runs_def by (intro exI conjI) (rule assms)+

lemma runsE:
  assumes "runs d \<sigma> n t changes m F N res"
  obtains r n' changes' s' \<sigma>' used ys t' ls where "res = cret (r, n', changes', s')" and "changes = used @ tl changes'" and "used \<noteq> []" and "changes' \<noteq> []"
    and "store s' (cost d * length (tl changes') + m) \<sigma>'" and "changed d \<sigma> n t r n' \<sigma>' ys t' ls (fold change_entries used (entries \<sigma> t))"
    and "ls = [] \<longrightarrow> F (snd r) t t'" and "\<forall>c\<in>set used. N (fst c)"
  using assms unfolding runs_def by - (elim exE conjE, rule that, assumption+)

text \<open>A change that is applied in the node itself.\<close>

lemma runs_one:
  assumes "changes = c # rest" and "res = cret (r, n', changes, s')" and "store s' (cost d * length rest + m) \<sigma>'"
    and "changed d \<sigma> n t r n' \<sigma>' ys t' ls (change_entries c (entries \<sigma> t))" and "ls = [] \<longrightarrow> fill (snd r) t t'"
  shows "runs d \<sigma> n t changes m fill (near t (fst (hd changes))) res"
  by (rule runsI[of _ r n' changes s' _ "[c]"]) (use assms in \<open>simp_all add: near_def\<close>)

definition chg_ok :: "nat \<Rightarrow> change_fun \<Rightarrow> bool" where
  "chg_ok e chg \<longleftrightarrow> (\<forall>p tp i a c child changes s m \<sigma>. root_is p tp \<longrightarrow> wf_tree (Suc e) tp \<longrightarrow> ordered (inorder tp) \<longrightarrow>
     i \<le> length (br_seps tp) \<longrightarrow> br_kids tp ! i = (a, c) \<longrightarrow> tree_at K e \<sigma> child c \<longrightarrow> ORDER div 2 \<le> length (br_seps c) \<longrightarrow>
     batch K V changes \<longrightarrow> inside i tp (fst (hd changes)) \<longrightarrow> store s (cost e * length changes + m) \<sigma> \<longrightarrow>
     runs e \<sigma> child c changes m half (\<lambda>k. inside i tp k \<and> near tp (fst (hd changes)) k) (chg (Some (p, i)) child changes s))"

lemma change_child_runs:
  assumes chg: "chg_ok e chg" and st: "store s (cost (Suc e) * length changes + m) \<sigma>" and t: "tree_at K (Suc e) \<sigma> n t" and K: "K < 2 ^ 32"
    and ch: "batch K V changes" and key: "key = fst (hd changes)" "key \<notin> si_key ` set (br_seps t)"
    and i: "i = length (takeWhile (\<lambda>x. si_key x < key) (br_seps t))"
  shows "runs (Suc e) \<sigma> n t changes m fill (near t (fst (hd changes))) (change_child cd chg (Suc e) i n changes s)"
proof -
  note T = tree_atD[OF t]
  have il: "i \<le> length (br_seps t)" using i by (simp add: length_takeWhile_le)
  have lk: "length (br_kids t) = Suc (length (br_seps t))" using wf_tree_parts(3)[OF T(2) refl] .
  obtain a c where k: "br_kids t ! i = (a, c)" by (cases "br_kids t ! i")
  have kt: "br_kids t = take i (br_kids t) @ (a, c) # drop (Suc i) (br_kids t)"
    using il lk k by (metis id_take_nth_drop le_imp_less_Suc)
  have c: "wf_tree e c" "ORDER div 2 \<le> length (br_seps c)" using wf_tree_parts(4)[OF T(2) refl, of "(a, c)"] kt by (metis in_set_conv_decomp snd_conv)+
  have nn: "node_is n (br_seps t) (kid_addresses t)" using T(1) by (simp add: root_is_def)
  have "length (take i (br_kids t)) = i" using il lk by simp
  then obtain child where f: "fetch_child cd n i (fst s) (writer_query (snd s)) = cret (Some child)" "root_is child c"
    using fetch_kid[OF st nn T(3) kt c(1)] by auto
  have io: "inorder t = before i t @ inorder c @ behind i t" using inorder_split[OF T(2) il] k by simp
  have sc: "ordered (inorder c)" "small K c" using T(4,5) by (simp_all add: io sorted_wrt_append small_def)
  have "br_seps c \<noteq> []" using c(2) by (auto simp: ORDER_def)
  then have tc: "tree_at K e \<sigma> child c" using f(2) c(1) sc tree_in_kid(1)[OF T(3) kt] by (simp add: tree_at_def)
  have ins: "inside i t (fst (hd changes))"
    using inorder_sides[OF T(2,4) i key(2)] by (simp add: inside_def key(1))
  have "store s (cost e * length changes + (4 * length changes + m)) \<sigma>" using st by (simp add: cost_def algebra_simps)
  then have "runs e \<sigma> child c changes (4 * length changes + m) half (\<lambda>k. inside i t k \<and> near t (fst (hd changes)) k) (chg (Some (n, i)) child changes s)"
    by (rule chg[unfolded chg_ok_def, rule_format, OF T(1,2,4) il k tc c(2) ch ins])
  then obtain r child' changes' s1 \<sigma>1 used ys c' ls where r: "chg (Some (n, i)) child changes s = cret (r, child', changes', s1)"
      "changes = used @ tl changes'" "used \<noteq> []" "changes' \<noteq> []" "store s1 (cost e * length (tl changes') + (4 * length changes + m)) \<sigma>1"
      "changed e \<sigma> child c r child' \<sigma>1 ys c' ls (fold change_entries used (entries \<sigma> c))" "ls = [] \<longrightarrow> half (snd r) c c'"
      "\<forall>x\<in>set used. inside i t (fst x) \<and> near t (fst (hd changes)) (fst x)"
    by (rule runsE)
  have "Suc (length (tl changes')) \<le> length changes" using r(3) by (subst r(2)) (simp add: Suc_le_eq)
  then have "Suc (Suc (Suc (cost (Suc e) * length (tl changes') + m))) \<le> cost e * length (tl changes') + (4 * length changes + m)"
    by (simp add: cost_def algebra_simps)
  note st1 = store_weaken[OF r(5) this]
  have used: "\<forall>x\<in>set used. length (fst x) \<le> K" using ch r(2) by (auto simp: batch_def)
  have "\<forall>p\<in>set (entries \<sigma> c). length (fst p) \<le> K" using iffD1[OF small_entries sc(2)] .
  then have "length k \<le> K" if "k \<in> fst ` set (fold change_entries used (entries \<sigma> c))" for k
    using subsetD[OF fold_entries_keys that] used by auto
  then have sm: "\<forall>p\<in>set (fold change_entries used (entries \<sigma> c)). length (fst p) \<le> K" by simp
  have half: "ls = [] \<longrightarrow> (if snd r then ORDER div 2 \<le> Suc (length (br_seps c')) \<and> length (br_seps c') < ORDER div 2 else ORDER div 2 \<le> length (br_seps c'))"
    using r(7) by (simp add: half_def)
  from child_changed[OF st1 t il k f(2) r(6) half sm K, of changes']
  obtain r' n' s' \<sigma>' ys' t' ls' where w: "cbind (write_child cd i child' n s1) (\<lambda>(n, s). cbind (after_child cd (Suc e) i r n s) (\<lambda>(r, n, s). cret (r, n, changes', s))) =
       cret (r', n', changes', s')" "store s' (cost (Suc e) * length (tl changes') + m) \<sigma>'"
     "changed (Suc e) \<sigma> n t r' n' \<sigma>' ys' t' ls' (ent \<sigma> (before i t) @ fold change_entries used (entries \<sigma> c) @ ent \<sigma> (behind i t))" "ls' = [] \<longrightarrow> fill (snd r') t t'"
    by - (elim exE conjE, rule that, assumption+)
  have loc: "fold change_entries used (entries \<sigma> t) = ent \<sigma> (before i t) @ fold change_entries used (entries \<sigma> c) @ ent \<sigma> (behind i t)"
    unfolding entries_def io ent_simps by (rule fold_entries_local) (use r(8) in \<open>auto simp: inside_def ent_def\<close>)
  show ?thesis
  proof (rule runsI[where F = fill, OF _ r(2-4) w(2) w(3)[folded loc] w(4)])
    show "change_child cd chg (Suc e) i n changes s = cret (r', n', changes', s')"
      using f(1) r(1) w(1) by (simp add: change_child_def cret_def)
  qed (use r(8) in blast)
qed

lemma node_apply_runs:
  assumes chg: "\<And>e. d = Suc e \<Longrightarrow> chg_ok e chg" and st: "store s (cost d * length changes + m) \<sigma>" and t: "tree_at K d \<sigma> n t" and K: "K < 2 ^ 32"
    and ch: "batch K V changes"
  shows "runs d \<sigma> n t changes m fill (near t (fst (hd changes))) (node_apply cd chg d n changes s)"
proof -
  note T = tree_atD[OF t]
  obtain key vo rest where c: "changes = (key, vo) # rest" using ch by (cases changes) (auto simp: batch_def)
  have kl: "length key \<le> K" "\<And>v. vo = Some v \<Longrightarrow> length v \<le> V" using ch by (auto simp: c batch_def)
  have le: "store s b \<sigma>" if "b \<le> cost d + (cost d * length rest + m)" for b
    using store_weaken[OF st, of b] that by (simp add: c)
  let ?i = "length (takeWhile (\<lambda>x. si_key x < key) (br_seps t))"
  note p = position_root(1)[OF T(1,2,4) refl, of key]
  show ?thesis
  proof (cases "key \<in> si_key ` set (br_seps t)")
    case found: True
    show ?thesis
    proof (cases vo)
      case (Some v)
      have "store s (Suc (cost d * length rest + m)) \<sigma>" by (rule le) (simp add: cost_def)
      from insert_found[OF this t found kl(2)[OF Some]]
      obtain n' s' \<sigma>' t' where w: "node_insert cd chg d key v n changes s = cret ((None, False), n', changes, s')" "store s' (cost d * length rest + m) \<sigma>'"
          "changed d \<sigma> n t (None, False) n' \<sigma>' [] t' [] (put_entry key v (entries \<sigma> t))" "length (br_seps t') = length (br_seps t)"
        by blast
      show ?thesis
        by (rule runs_one[where r = "(None, False)" and ls = "[]" and t' = t', OF c _ w(2)])
          (use w in \<open>simp_all add: node_apply_def c Some change_entries_def fill_def\<close>)
    next
      case None
      have "\<exists>b n' s' \<sigma>' t'. node_remove cd chg d key n changes s = cret ((None, b), n', changes, s') \<and> store s' (cost d * length rest + m) \<sigma>' \<and>
          changed d \<sigma> n t (None, b) n' \<sigma>' [] t' [] (cut_entry key (entries \<sigma> t)) \<and> fill b t t'"
      proof (cases d)
        case 0
        show ?thesis using remove_leaf[of s "cost d * length rest + m" \<sigma> n t key chg changes] le t found by (simp add: 0)
      next
        case (Suc e)
        have "store s (3 * e + Suc (Suc (Suc (cost d * length rest + m)))) \<sigma>" by (rule le) (simp add: cost_def Suc)
        from remove_inner[OF this] t found show ?thesis by (simp add: Suc)
      qed
      then obtain b n' s' \<sigma>' t' where w: "node_remove cd chg d key n changes s = cret ((None, b), n', changes, s')" "store s' (cost d * length rest + m) \<sigma>'"
          "changed d \<sigma> n t (None, b) n' \<sigma>' [] t' [] (cut_entry key (entries \<sigma> t))" "fill b t t'"
        by blast
      show ?thesis
        by (rule runs_one[where r = "(None, b)" and ls = "[]" and t' = t', OF c _ w(2)]) (use w in \<open>simp_all add: node_apply_def c None change_entries_def\<close>)
    qed
  next
    case absent: False
    show ?thesis
    proof (cases d)
      case (Suc e)
      have "node_apply cd chg d n changes s = change_child cd chg (Suc e) ?i n changes s"
        using p absent by (cases vo) (simp_all add: node_apply_def node_insert_def node_remove_def c Suc)
      then show ?thesis
        using change_child_runs[OF chg[OF Suc] st[unfolded Suc] t[unfolded Suc] K ch _ absent refl] by (simp add: Suc c)
    next
      case 0
      show ?thesis
      proof (cases vo)
        case (Some v)
        have "store s (Suc (Suc (cost d * length rest + m))) \<sigma>" by (rule le) (simp add: cost_def)
        from insert_leaf[OF this t[unfolded 0] absent kl(1) kl(2)[OF Some] K]
        obtain r n' s' \<sigma>' ys t' ls where w: "node_insert cd chg 0 key v n changes s = cret ((r, False), n', changes, s')" "store s' (cost d * length rest + m) \<sigma>'"
            "changed 0 \<sigma> n t (r, False) n' \<sigma>' ys t' ls (put_entry key v (entries \<sigma> t))" "ls = [] \<longrightarrow> length (br_seps t) \<le> length (br_seps t')"
          by blast
        show ?thesis
          by (rule runs_one[where r = "(r, False)" and ls = ls and t' = t', OF c _ w(2)])
            (use w in \<open>simp_all add: node_apply_def c Some change_entries_def fill_def 0\<close>)
      next
        case None
        have "key \<notin> fst ` set (entries \<sigma> t)" using absent inorder_leaf[of t] T(2) by (auto simp: entries_def ent_def 0)
        then have "change_entries (key, vo) (entries \<sigma> t) = entries \<sigma> t" by (auto simp: change_entries_def None cut_entry_def intro!: filter_all)
        then have "changed d \<sigma> n t (None, False) n \<sigma> [] t [] (change_entries (key, vo) (entries \<sigma> t))"
          using changedI[OF T(3) frame_refl T(1) _ T(2)] by simp
        moreover have "node_apply cd chg d n changes s = cret ((None, False), n, changes, s)"
          using p absent by (simp add: node_apply_def node_remove_def c None 0)
        moreover have "store s (cost d * length rest + m) \<sigma>" by (rule le) simp
        ultimately show ?thesis by (intro runs_one[where r = "(None, False)" and ls = "[]" and t' = t, OF c]) (simp_all add: fill_def)
      qed
    qed
  qed
qed

section \<open>The loop over the changes\<close>

text \<open>The first of two changes of one key has no effect of its own.\<close>

lemma runs_duplicate:
  assumes dup: "duplicate_change changes" and srt: "keys_sorted (entries \<sigma> t)"
    and tl: "runs d \<sigma> n t (tl changes) m F N res" and N: "N (fst (hd changes))"
  shows "runs d \<sigma> n t changes m F N res"
proof -
  obtain c1 c2 rest where c: "changes = c1 # c2 # rest" "fst c1 = fst c2" using dup
    by (auto simp: duplicate_change_def split: list.splits)
  obtain r n' changes' s' \<sigma>' used ys t' ls where r: "res = cret (r, n', changes', s')" "tl changes = used @ tl changes'" "used \<noteq> []" "changes' \<noteq> []"
      "store s' (cost d * length (tl changes') + m) \<sigma>'" "changed d \<sigma> n t r n' \<sigma>' ys t' ls (fold change_entries used (entries \<sigma> t))"
      "ls = [] \<longrightarrow> F (snd r) t t'" "\<forall>x\<in>set used. N (fst x)"
    using tl by (rule runsE)
  obtain used' where u: "used = c2 # used'" using r(2,3) c(1) by (cases used) auto
  have f: "fold change_entries used (entries \<sigma> t) = fold change_entries (c1 # used) (entries \<sigma> t)"
    using change_entries_twice[OF srt c(2)] by (simp add: u)
  show ?thesis
    by (rule runsI[where F = F, OF r(1) _ _ r(4,5) r(6)[unfolded f] r(7)]) (use r(2,8) N c in auto)
qed

lemma entries_sorted: "keys_sorted (entries \<sigma> t) \<longleftrightarrow> ordered (inorder t)"
  by (simp add: entries_def)

lemma change_loop_step:
  assumes "\<not> duplicate_change changes" and "app n changes s = cret (r, n1, changes1, s1)" and "changes1 \<noteq> []"
  shows "change_loop app parent n changes s =
     (if fst r = None \<and> \<not> snd r \<and> length changes1 \<noteq> 1 \<and> parent \<noteq> None \<and> same_node parent n1 (fst (changes1 ! 1))
      then change_loop app parent n1 (tl changes1) s1 else cret (r, n1, changes1, s1))"
  using assms by (subst change_loop.simps, cases r, cases "fst r") (auto simp: cret_def)

lemma change_loop_root:
  assumes app: "\<And>n t changes s m \<sigma>. tree_at K d \<sigma> n t \<Longrightarrow> batch K V changes \<Longrightarrow> store s (cost d * length changes + m) \<sigma> \<Longrightarrow>
      runs d \<sigma> n t changes m fill (near t (fst (hd changes))) (app n changes s)"
    and t: "tree_at K d \<sigma> n t" and ch: "batch K V changes" and st: "store s (cost d * length changes + m) \<sigma>"
  shows "runs d \<sigma> n t changes m fill (near t (fst (hd changes))) (change_loop app None n changes s)"
  using ch st
proof (induction changes)
  case (Cons c rest)
  show ?case
  proof (cases "duplicate_change (c # rest)")
    case True
    then have rest: "rest \<noteq> []" "fst (hd rest) = fst c" by (auto simp: duplicate_change_def split: list.splits)
    have "batch K V rest" using batch_tl[OF Cons.prems(1), of "[c]" rest] rest(1) by simp
    moreover have "store s (cost d * length rest + m) \<sigma>" using store_weaken[OF Cons.prems(2)] by simp
    ultimately have "runs d \<sigma> n t (tl (c # rest)) m fill (near t (fst (hd (c # rest)))) (change_loop app None n rest s)"
      using Cons.IH rest(2) by simp
    then have "runs d \<sigma> n t (c # rest) m fill (near t (fst (hd (c # rest)))) (change_loop app None n rest s)"
      using runs_duplicate[OF True] tree_atD(4)[OF t] by (simp add: entries_sorted near_def)
    then show ?thesis using True by (subst change_loop.simps) simp
  next
    case False
    from app[OF t Cons.prems] obtain r n' changes' s' \<sigma>' used ys t' ls where r: "app n (c # rest) s = cret (r, n', changes', s')" "changes' \<noteq> []"
      by (rule runsE) blast
    show ?thesis using app[OF t Cons.prems] change_loop_step[of "c # rest" app n s r n' changes' s' None] False r by simp
  qed
qed (simp add: batch_def)

text \<open>The next change goes to the same child as long as its key belongs there.\<close>

lemma same_node_inside:
  assumes p: "root_is p tp" "wf_tree (Suc e) tp" "ordered (inorder tp)" "i \<le> length (br_seps tp)"
    and n: "root_is n t" "wf_tree e t" "ordered (inorder t)" and same: "same_node (Some (p, i)) n k"
    and keys: "\<forall>y\<in>set (inorder t). inside i tp (si_key y) \<and> near tp k0 (si_key y)"
    and lo: "inside i tp k'" "k' \<le> k"
  shows "inside i tp k" and "near tp k0 k"
proof -
  have node: "number_separator n' = length (br_seps t')" if "root_is n' t'" for n' t'
    using number_separator_is[of n' "br_seps t'"] that by (simp add: root_is_def)
  have reach: "\<exists>y\<in>set (inorder t'). k \<le> si_key y" if t': "root_is n' t'" "wf_tree d t'" "ordered (inorder t')"
      "position n' k = (at, j)" "at \<or> j < length (br_seps t')" for n' t' at d j
  proof -
    note pr = position_root[OF t'(1-3) refl, of k]
    have j: "at = (k \<in> si_key ` set (br_seps t'))" "j = length (takeWhile (\<lambda>x. si_key x < k) (br_seps t'))" using pr(1) t'(4) by auto
    have lt: "j < length (br_seps t')" using t'(5) pr(3) j by auto
    have "sorted (map si_key (br_seps t'))" using ordered_seps[OF t'(2,3)] by (simp add: strict_sorted_iff)
    then have "k \<le> si_key (br_seps t' ! j)" using takeWhile_position(3)[OF _ j(2), of j] lt by simp
    then show ?thesis using inorder_seps[OF t'(2)] lt by (meson nth_mem subsetD)
  qed
  obtain at j where pos: "position n k = (at, j)" by (cases "position n k")
  have "inside i tp k \<and> near tp k0 k"
  proof (cases "at \<or> j < length (br_seps t)")
    case True
    then obtain y where y: "y \<in> set (inorder t)" "k \<le> si_key y" using reach[OF n pos] by blast
    have "near tp k0 (si_key y)" "inside i tp (si_key y)" using keys y(1) by auto
    then show ?thesis using inside_le[OF lo(1,2) y(2)] y(2) unfolding near_def by (meson order_trans)
  next
    case False
    then obtain q where q: "position p k = (False, i)" "i < length (br_seps tp)"
      using same pos node[OF n(1)] node[OF p(1)] by (auto simp: same_node_def Let_def split: prod.splits)
    note pr = position_root(1)[OF p(1-3) refl, of k]
    have i: "i = length (takeWhile (\<lambda>x. si_key x < k) (br_seps tp))" "k \<notin> si_key ` set (br_seps tp)" using pr q(1) by auto
    have "inside i tp k" using inorder_sides[OF p(2,3) i] by (simp add: inside_def)
    moreover have "near tp k0 k" using reach[OF p(1-3) q(1)] q(2) by (simp add: near_def)
    ultimately show ?thesis by blast
  qed
  then show "inside i tp k" "near tp k0 k" by auto
qed

lemma changed_tree_at:
  assumes t: "tree_at K d \<sigma> n t" and c: "changed d \<sigma> n t (None, b) n1 \<sigma>1 [] t1 [] (fold change_entries used (entries \<sigma> t))"
    and used: "\<forall>c\<in>set used. length (fst c) \<le> K" and ne: "d \<noteq> 0 \<longrightarrow> br_seps t1 \<noteq> []"
  shows "tree_at K d \<sigma>1 n1 t1" and "si_key ` set (inorder t1) \<subseteq> fst ` set used \<union> si_key ` set (inorder t)"
proof -
  note T = tree_atD[OF t] and D = changedD[OF c]
  have k: "fst ` set (entries \<sigma>' t') = si_key ` set (inorder t')" for \<sigma>' t'
    by (simp add: entries_def ent_def image_image)
  have keys: "si_key ` set (inorder t1) \<subseteq> fst ` set used \<union> si_key ` set (inorder t)"
    using fold_entries_keys[of used "entries \<sigma> t"] unfolding D(8)[symmetric] k .
  then show "si_key ` set (inorder t1) \<subseteq> fst ` set used \<union> si_key ` set (inorder t)" .
  have "keys_sorted (entries \<sigma>1 t1)" unfolding D(8) by (rule fold_entries_sorted) (use T(4) in \<open>simp add: entries_sorted\<close>)
  then have o: "ordered (inorder t1)" by (simp add: entries_sorted)
  have "length (si_key y) \<le> K" if "y \<in> set (inorder t1)" for y
    using subsetD[OF keys imageI[OF that]] used T(5) by (auto simp: small_def)
  then show "tree_at K d \<sigma>1 n1 t1" using D(3,5,7) o ne by (simp add: tree_at_def small_def)
qed

lemma runs_trans:
  assumes c: "changed d \<sigma> n t (None, False) n1 \<sigma>1 [] t1 [] (fold change_entries used (entries \<sigma> t))"
    and ch: "changes = used @ rest" and N: "\<forall>c\<in>set used. N (fst c)" and r: "runs d \<sigma>1 n1 t1 rest m half N res"
  shows "runs d \<sigma> n t changes m half N res"
proof -
  obtain r n' changes' s' \<sigma>' used' ys t' ls where w: "res = cret (r, n', changes', s')" "rest = used' @ tl changes'" "used' \<noteq> []" "changes' \<noteq> []"
      "store s' (cost d * length (tl changes') + m) \<sigma>'" "changed d \<sigma>1 n1 t1 r n' \<sigma>' ys t' ls (fold change_entries used' (entries \<sigma>1 t1))"
      "ls = [] \<longrightarrow> half (snd r) t1 t'" "\<forall>x\<in>set used'. N (fst x)"
    using r by (rule runsE)
  have "fold change_entries used' (entries \<sigma>1 t1) = fold change_entries (used @ used') (entries \<sigma> t)" using changedD(8)[OF c] by simp
  with changed_trans[OF c w(6)] have "changed d \<sigma> n t r n' \<sigma>' ys t' ls (fold change_entries (used @ used') (entries \<sigma> t))" by simp
  moreover have "ls = [] \<longrightarrow> half (snd r) t t'" using w(7) by (simp add: half_def)
  ultimately show ?thesis
    using w(2,3) ch N w(8) by (intro runsI[where F = half and used = "used @ used'", OF w(1) _ _ w(4,5)]) (assumption | auto)+
qed

lemma change_loop_child:
  assumes app: "\<And>n t changes s m \<sigma>. tree_at K e \<sigma> n t \<Longrightarrow> batch K V changes \<Longrightarrow> store s (cost e * length changes + m) \<sigma> \<Longrightarrow>
      runs e \<sigma> n t changes m fill (near t (fst (hd changes))) (app n changes s)"
    and p: "root_is p tp" "wf_tree (Suc e) tp" "ordered (inorder tp)" "i \<le> length (br_seps tp)"
    and t: "tree_at K e \<sigma> n t" "ORDER div 2 \<le> length (br_seps t)" and ch: "batch K V changes" and st: "store s (cost e * length changes + m) \<sigma>"
    and first: "inside i tp (fst (hd changes))" "near tp k0 (fst (hd changes))"
    and keys: "\<forall>y\<in>set (inorder t). inside i tp (si_key y) \<and> near tp k0 (si_key y)"
  shows "runs e \<sigma> n t changes m half (\<lambda>k. inside i tp k \<and> near tp k0 k) (change_loop app (Some (p, i)) n changes s)"
  using t ch st first keys
proof (induction "length changes" arbitrary: changes n t \<sigma> s rule: less_induct)
  case less
  note prems = less.prems
  let ?N = "\<lambda>k. inside i tp k \<and> near tp k0 k"
  show ?case
  proof (cases "duplicate_change changes")
    case True
    then obtain c1 c2 rest where c: "changes = c1 # c2 # rest" "fst c1 = fst c2" by (auto simp: duplicate_change_def split: list.splits)
    have "batch K V (c2 # rest)" using batch_tl[OF prems(3), of "[c1]" "c2 # rest"] c by simp
    moreover have "store s (cost e * length (c2 # rest) + m) \<sigma>" using store_weaken[OF prems(4)] by (simp add: c)
    ultimately have "runs e \<sigma> n t (c2 # rest) m half ?N (change_loop app (Some (p, i)) n (c2 # rest) s)"
      using less.hyps[of "c2 # rest" \<sigma> n t s] prems(1,2,5-7) c by simp
    then have "runs e \<sigma> n t changes m half ?N (change_loop app (Some (p, i)) n (c2 # rest) s)"
      using runs_duplicate[OF True] tree_atD(4)[OF prems(1)] prems(5,6) c by (simp add: entries_sorted)
    then show ?thesis using True c by (subst change_loop.simps) simp
  next
    case False
    from app[OF prems(1,3,4)]
    obtain r n1 changes1 s1 \<sigma>1 used ys t1 ls where r: "app n changes s = cret (r, n1, changes1, s1)" "changes = used @ tl changes1" "used \<noteq> []" "changes1 \<noteq> []"
        "store s1 (cost e * length (tl changes1) + m) \<sigma>1" "changed e \<sigma> n t r n1 \<sigma>1 ys t1 ls (fold change_entries used (entries \<sigma> t))"
        "ls = [] \<longrightarrow> fill (snd r) t t1" "\<forall>x\<in>set used. near t (fst (hd changes)) (fst x)"
      by (rule runsE)
    have N: "\<forall>c\<in>set used. ?N (fst c)"
    proof
      fix c assume c: "c \<in> set used"
      then have lo: "fst (hd changes) \<le> fst c" using batch_first[OF prems(3)] r(2) by simp
      consider "fst c \<le> fst (hd changes)" | y where "y \<in> set (inorder t)" "fst c \<le> si_key y" using r(8) c by (auto simp: near_def)
      then show "?N (fst c)"
      proof cases
        case 1
        then have "fst c = fst (hd changes)" using lo by simp
        then show ?thesis using prems(5,6) by simp
      next
        case 2
        have y: "inside i tp (si_key y)" "near tp k0 (si_key y)" using prems(7) 2(1) by auto
        show ?thesis using inside_le[OF prems(5) lo 2(2) y(1)] y(2) 2(2) unfolding near_def by (meson order_trans)
      qed
    qed
    have step: "change_loop app (Some (p, i)) n changes s =
       (if fst r = None \<and> \<not> snd r \<and> length changes1 \<noteq> 1 \<and> same_node (Some (p, i)) n1 (fst (changes1 ! 1))
        then change_loop app (Some (p, i)) n1 (tl changes1) s1 else cret (r, n1, changes1, s1))"
      using change_loop_step[of changes app n s r n1 changes1 s1 "Some (p, i)"] False r(1,4) by simp
    show ?thesis
    proof (cases "fst r = None \<and> \<not> snd r \<and> length changes1 \<noteq> 1 \<and> same_node (Some (p, i)) n1 (fst (changes1 ! 1))")
      case False
      have "ls = [] \<longrightarrow> half (snd r) t t1" using r(7) fill_half prems(2) by blast
      then show ?thesis unfolding step using False runsI[where F = half, OF refl r(2-6) _ N] by (simp only: if_False)
    next
      case True
      define rest where "rest = tl changes1"
      have "length changes1 \<noteq> 1" using True by blast
      then have rest: "tl changes1 = rest" "rest \<noteq> []" "hd rest = changes1 ! 1"
        using r(4) by (cases changes1; cases "tl changes1"; simp add: rest_def)+
      have rr: "r = (None, False)" using True by (cases r) simp
      have c1: "changed e \<sigma> n t (None, False) n1 \<sigma>1 [] t1 [] (fold change_entries used (entries \<sigma> t))" and "ls = []"
        using r(6) changedD(1,2)[OF r(6)[unfolded rr]] by (simp_all add: rr)
      have h: "ORDER div 2 \<le> length (br_seps t1)" using r(7) \<open>ls = []\<close> fill_half[OF _ prems(2)] rr by (auto simp: half_def)
      then have ne: "e \<noteq> 0 \<longrightarrow> br_seps t1 \<noteq> []" by (auto simp: ORDER_def)
      have "\<forall>c\<in>set used. length (fst c) \<le> K" using prems(3) r(2) by (auto simp: batch_def)
      note t1 = changed_tree_at[OF prems(1) c1 this ne]
      have keys1: "\<forall>y\<in>set (inorder t1). inside i tp (si_key y) \<and> near tp k0 (si_key y)"
      proof
        fix y assume "y \<in> set (inorder t1)"
        then have "si_key y \<in> fst ` set used \<union> si_key ` set (inorder t)" using t1(2) by blast
        then show "inside i tp (si_key y) \<and> near tp k0 (si_key y)" using N prems(7) by auto
      qed
      have "hd rest \<in> set changes" using r(2) rest by (metis Un_iff hd_in_set set_append)
      then have "fst (hd changes) \<le> fst (hd rest)" by (rule batch_first[OF prems(3)])
      note nx = same_node_inside[OF p tree_atD(1,2,4)[OF t1(1)] _ keys1 prems(5) this]
      have f: "batch K V rest" using batch_tl[OF prems(3) r(2)] rest by simp
      have "length rest < length changes" using r(2,3) rest(1) by (metis length_append less_add_same_cancel2 length_greater_0_conv)
      from less.hyps[OF this t1(1) h f r(5)[unfolded rest(1)] nx keys1] True rest(3)
      have "runs e \<sigma>1 n1 t1 rest m half ?N (change_loop app (Some (p, i)) n1 rest s1)" by simp
      then show ?thesis unfolding step using True runs_trans[OF c1 r(2)[unfolded rest(1)] N] rest(1) by simp
    qed
  qed
qed

section \<open>All levels\<close>

lemma child_keys:
  assumes "wf_tree (Suc e) tp" and "ordered (inorder tp)" and "i \<le> length (br_seps tp)" and "br_kids tp ! i = (a, c)" and "y \<in> set (inorder c)"
  shows "inside i tp (si_key y)" and "near tp k0 (si_key y)"
proof -
  have io: "inorder tp = before i tp @ inorder c @ behind i tp" using inorder_split[OF assms(1,3)] assms(4) by simp
  show "inside i tp (si_key y)" using assms(2,5) unfolding io inside_def by (auto simp: sorted_wrt_append)
  show "near tp k0 (si_key y)" using assms(5) unfolding io near_def by auto
qed

lemma chg_okI:
  assumes app: "\<And>n t changes s m \<sigma>. tree_at K e \<sigma> n t \<Longrightarrow> batch K V changes \<Longrightarrow> store s (cost e * length changes + m) \<sigma> \<Longrightarrow>
      runs e \<sigma> n t changes m fill (near t (fst (hd changes))) (app n changes s)"
  shows "chg_ok e (change_loop app)"
  unfolding chg_ok_def
proof (intro allI impI)
  fix p tp i a c child changes s m \<sigma>
  assume p: "root_is p tp" "wf_tree (Suc e) tp" "ordered (inorder tp)" "i \<le> length (br_seps tp)" and k: "br_kids tp ! i = (a, c)"
    and c: "tree_at K e \<sigma> child c" "ORDER div 2 \<le> length (br_seps c)" and f: "batch K V changes" and ins: "inside i tp (fst (hd changes))"
    and st: "store s (cost e * length changes + m) \<sigma>"
  have "near tp (fst (hd changes)) (fst (hd changes))" by (simp add: near_def)
  moreover have "\<forall>y\<in>set (inorder c). inside i tp (si_key y) \<and> near tp (fst (hd changes)) (si_key y)"
    using child_keys[OF p(2-4) k] by blast
  ultimately show "runs e \<sigma> child c changes m half (\<lambda>k. inside i tp k \<and> near tp (fst (hd changes)) k) (change_loop app (Some (p, i)) child changes s)"
    by (intro change_loop_child[OF _ p c f st ins]) (rule app)
qed

lemma node_change_loop:
  assumes K: "K < 2 ^ 32"
  shows "\<exists>app. node_change cd d = change_loop app \<and> (\<forall>n t changes s m \<sigma>. tree_at K d \<sigma> n t \<longrightarrow> batch K V changes \<longrightarrow>
     store s (cost d * length changes + m) \<sigma> \<longrightarrow> runs d \<sigma> n t changes m fill (near t (fst (hd changes))) (app n changes s))"
proof (induction d)
  case 0
  have "runs 0 \<sigma> n t changes m fill (near t (fst (hd changes))) (node_apply cd (\<lambda>_ _ _ _. Some (Inl Panic)) 0 n changes s)"
    if "tree_at K 0 \<sigma> n t" "batch K V changes" "store s (cost 0 * length changes + m) \<sigma>" for n t changes s m \<sigma>
    by (rule node_apply_runs[OF _ that(3,1) K that(2)]) simp
  then show ?case unfolding node_change.simps by blast
next
  case (Suc d)
  then obtain app where app: "node_change cd d = change_loop app" "\<And>n t changes s m \<sigma>. tree_at K d \<sigma> n t \<Longrightarrow> batch K V changes \<Longrightarrow>
      store s (cost d * length changes + m) \<sigma> \<Longrightarrow> runs d \<sigma> n t changes m fill (near t (fst (hd changes))) (app n changes s)"
    by blast
  have ok: "chg_ok d (node_change cd d)" unfolding app(1) by (rule chg_okI) (rule app(2))
  have "runs (Suc d) \<sigma> n t changes m fill (near t (fst (hd changes))) (node_apply cd (node_change cd d) (Suc d) n changes s)"
    if "tree_at K (Suc d) \<sigma> n t" "batch K V changes" "store s (cost (Suc d) * length changes + m) \<sigma>" for n t changes s m \<sigma>
    by (rule node_apply_runs[OF _ that(3,1) K that(2)]) (use ok in simp)
  then show ?case unfolding node_change.simps by blast
qed

text \<open>\<open>Node::change\<close> on a root: it returns, for every list of changes.\<close>

lemma node_change_root:
  assumes "K < 2 ^ 32" and "tree_at K d \<sigma> n t" and "batch K V changes" and "store s (cost d * length changes + m) \<sigma>"
  shows "runs d \<sigma> n t changes m fill (near t (fst (hd changes))) (node_change cd d None n changes s)"
proof -
  obtain app where app: "node_change cd d = change_loop app" "\<And>n t changes s m \<sigma>. tree_at K d \<sigma> n t \<Longrightarrow> batch K V changes \<Longrightarrow>
      store s (cost d * length changes + m) \<sigma> \<Longrightarrow> runs d \<sigma> n t changes m fill (near t (fst (hd changes))) (app n changes s)"
    using node_change_loop[OF assms(1), of d] by blast
  show ?thesis unfolding app(1) by (rule change_loop_root[OF _ assms(2-4)]) (rule app(2))
qed

end

end
