(* ===== verification/BTree_Write.thy ===== *)
theory BTree_Write
  imports BTree_Loop
begin

text \<open>
  A batch of changes written to a tree (\<open>BTree::write_sorted_changes\<close> of
  \<^verbatim>\<open>src/src/btree/btree.rs\<close>, \<open>BTreeTable::write_plan\<close> and \<open>BTreeChangeSet::write_plan\<close> of
  \<^verbatim>\<open>src/src/btree/mod.rs\<close>): the root is replaced when it was split or has only one child left, and the
  header follows it.
\<close>

section \<open>The root of a tree\<close>

definition own_root :: "btree \<Rightarrow> btr \<Rightarrow> address set" where
  "own_root bt t = own t \<union> set_option (bt_root_index bt)"

definition root_ok :: "nat \<Rightarrow> (address \<rightharpoonup> bytes) \<Rightarrow> btree \<Rightarrow> node \<Rightarrow> btr \<Rightarrow> bool" where
  "root_ok K \<sigma> bt root t \<longleftrightarrow> root_is root t \<and> wf_tree (unat (bt_depth bt)) t \<and> tree_in \<sigma> t \<and> ordered (inorder t) \<and> small K t \<and>
     (case bt_root_index bt of
        None \<Rightarrow> nd_changed root
      | Some a \<Rightarrow> a \<noteq> NULL_ADDRESS \<and> a \<in> dom \<sigma> \<and> a \<notin> own t \<and> (nd_changed root \<or> \<sigma> a = Some (bytes_of t)))"

lemma frame_both: "frame \<sigma> A \<sigma>1 B \<Longrightarrow> frame \<sigma>1 I \<sigma>' J \<Longrightarrow> frame \<sigma> (A \<union> I) \<sigma>' (J \<union> B)"
  using frame_trans[OF frame_extend[of \<sigma> A \<sigma>1 B I], of \<sigma>' "J \<union> B"] frame_extend[of \<sigma>1 I \<sigma>' J B] by (simp add: Un_commute)

abbreviation not_hollow :: "btree \<Rightarrow> btr \<Rightarrow> bool" where
  "not_hollow bt t \<equiv> unat (bt_depth bt) \<noteq> 0 \<longrightarrow> br_seps t \<noteq> []"

lemma root_okD:
  assumes "root_ok K \<sigma> bt root t"
  shows "root_is root t" and "wf_tree (unat (bt_depth bt)) t" and "tree_in \<sigma> t" and "ordered (inorder t)" and "small K t"
    and "bt_root_index bt = None \<Longrightarrow> nd_changed root"
    and "bt_root_index bt = Some a \<Longrightarrow> a \<noteq> NULL_ADDRESS \<and> a \<in> dom \<sigma> \<and> a \<notin> own t \<and> (nd_changed root \<or> \<sigma> a = Some (bytes_of t))"
  using assms by (auto simp: root_ok_def)

text \<open>The two children and the separator of a new root.\<close>

lemma new_root_is:
  assumes "ch_entry_index right = Some b" and "sp_separator sep = Some y"
  shows "\<exists>n1 n2 n. set_child 0 (new_child (Some a)) node_default = Inr n1 \<and> set_child 1 right n1 = Inr n2 \<and>
     set_separator 0 sep n2 = Inr n \<and> nd_changed n \<and> node_is n [y] [a, b]"
  using assms
  by (auto simp: set_child_def put_child_def set_separator_def put_separator_def node_default_def node_blank_def new_child_def
      node_consts node_is_def arr_check separator_default_def child_default_def eval_nat_numeral)

context node_store
begin

text \<open>Writing the root, at its address or at a new one.\<close>

lemma write_root_is:
  assumes st: "store s (Suc m) \<sigma>" and n: "root_is n t" "storable (br_seps t) (kid_addresses t)" "small K t"
    and ix: "ix = None \<Longrightarrow> nd_changed n" "\<And>a. ix = Some a \<Longrightarrow> a \<noteq> NULL_ADDRESS \<and> a \<in> dom \<sigma> \<and> (nd_changed n \<or> \<sigma> a = Some (bytes_of t))"
  shows "\<exists>r a' s' \<sigma>'. write_node_plan cd n ix s = cret (r, s') \<and> (if r \<noteq> None then r else ix) = Some a' \<and> a' \<noteq> NULL_ADDRESS \<and>
     store s' m \<sigma>' \<and> \<sigma>' a' = Some (bytes_of t) \<and> frame \<sigma> (set_option ix) \<sigma>' {a'}"
proof (cases ix)
  case None
  have sm: "\<And>x. x \<in> set (br_seps t) \<Longrightarrow> length (si_key x) \<le> K" using iffD1[OF small_parts n(3)] by blast
  obtain a s' where w: "write_node_plan cd n None s = cret (Some a, s')" "\<sigma> a = None" "a \<noteq> NULL_ADDRESS" "store s' m (\<sigma>(a \<mapsto> bytes_of t))"
    using write_node_new[OF st n(1) ix(1)[OF None] n(2) sm] by blast
  have "frame \<sigma> {} (\<sigma>(a \<mapsto> bytes_of t)) {a}" by (rule frame_new) (rule w(2))
  then show ?thesis using w None by (intro exI[of _ "Some a"] exI[of _ a] exI[of _ s'] exI[of _ "\<sigma>(a \<mapsto> bytes_of t)"]) simp
next
  case (Some a)
  note a = ix(2)[OF Some]
  show ?thesis
  proof (cases "node_dirty n")
    case True
    have sm: "\<And>x. x \<in> set (br_seps t) \<Longrightarrow> length (si_key x) \<le> K" using iffD1[OF small_parts n(3)] by blast
    obtain old where old: "\<sigma> a = Some old" using a by blast
    from set_node[OF st old node_bytes_fit(2)[OF n(1,2) sm]]
    obtain r a' s' where w: "uncompressed (existing_plan cd a (Some (bytes_of t))) s = cret (r, s')" "a' = (case r of Some x \<Rightarrow> x | None \<Rightarrow> a)"
        "a' = a \<or> \<sigma> a' = None" "a' \<noteq> NULL_ADDRESS" "store s' m (\<sigma>(a := None, a' \<mapsto> bytes_of t))"
      by blast
    have "write_node_plan cd n ix s = cret (r, s')"
      using True w(1) node_bytes_fit(1)[OF n(1,2) sm] Some by (simp add: write_node_plan_def cret_def)
    moreover have "frame \<sigma> {a} (\<sigma>(a := None, a' \<mapsto> bytes_of t)) {a'}" by (rule frame_move) (rule w(3))
    moreover have "(if r \<noteq> None then r else ix) = Some a'" using w(2) Some by (cases r) simp_all
    ultimately show ?thesis using w(4,5) Some
      by (intro exI[of _ r] exI[of _ a'] exI[of _ s'] exI[of _ "\<sigma>(a := None, a' \<mapsto> bytes_of t)"]) simp
  next
    case False
    then have "write_node_plan cd n ix s = cret (None, s)" "\<not> nd_changed n" by (simp_all add: write_node_plan_def node_dirty_def)
    then show ?thesis using a Some store_weaken[OF st, of m]
      by (intro exI[of _ None] exI[of _ a] exI[of _ s] exI[of _ \<sigma>]) simp
  qed
qed

lemma grow_root_is:
  assumes st: "store s (Suc m) \<sigma>1" and r: "root_ok K \<sigma> bt root t"
    and c: "changed (unat (bt_depth bt)) \<sigma> root t (Some (sep, right), False) root1 \<sigma>1 ys t1 ls ps"
    and ps: "keys_sorted ps" "\<forall>p\<in>set ps. length (fst p) \<le> K" and K: "K < 2 ^ 32" and d: "Suc (unat (bt_depth bt)) < 2 ^ 32"
  shows "\<exists>root' bt' s' \<sigma>' t'. grow_root cd sep right root1 bt s = cret (root', bt', s') \<and> store s' m \<sigma>' \<and>
     root_ok K \<sigma>' bt' root' t' \<and> not_hollow bt' t' \<and> entries \<sigma>' t' = ps \<and> frame \<sigma> (own_root bt t) \<sigma>' (own_root bt' t') \<and>
     unat (bt_depth bt') \<le> Suc (unat (bt_depth bt))"
proof -
  note R = root_okD[OF r]
  obtain y l where yl: "ys = [y]" "ls = [l]" "sp_separator sep = Some y" "ch_entry_index right = Some (fst l)"
    using c by (auto simp: changed_def outcome_def)
  have C: "root_is root1 t1" "nd_changed root1 \<or> root1 = root" "wf_tree (unat (bt_depth bt)) t1" "leaves \<sigma> t \<sigma>1 [y] t1 [l]"
      "ent \<sigma>1 (inorder t1 @ y # inorder (snd l)) = ps" "si_value y \<noteq> NULL_ADDRESS" "fst l \<noteq> NULL_ADDRESS" "wf_tree (unat (bt_depth bt)) (snd l)"
      "ORDER div 2 \<le> length (br_seps (snd l))" "ORDER div 2 \<le> length (br_seps t1)"
    using c by (simp_all add: changed_def yl)
  let ?ix = "bt_root_index bt" and ?lo = "left_over [y] t1 [l]"
  have lv: "frame \<sigma> (own t) \<sigma>1 (set ?lo)" "distinct ?lo" "set ?lo \<subseteq> dom \<sigma>1" "stored_in \<sigma>1 t1" "\<sigma>1 (fst l) = Some (bytes_of (snd l))" "stored_in \<sigma>1 (snd l)"
    using C(4) by (simp_all add: leaves_def)
  have ixk: "\<sigma>1 a = \<sigma> a" "a \<notin> set ?lo" "a \<in> dom \<sigma>1" if "?ix = Some a" for a
  proof -
    have a: "a \<in> dom \<sigma>" "a \<notin> own t" using R(7)[OF that] by auto
    show k: "\<sigma>1 a = \<sigma> a" by (rule frame_keep[OF lv(1) a])
    show "a \<notin> set ?lo" using frame_disjoint[OF lv(1), of "{a}"] a by auto
    show "a \<in> dom \<sigma>1" using k a(1) by (auto simp: domIff)
  qed
  have keys: "length (si_key x) \<le> K" if "x \<in> set (inorder t1 @ y # inorder (snd l))" for x
    using imageI[OF that, of "\<lambda>x. (si_key x, \<sigma>1 (si_value x))"] ps(2) unfolding C(5)[symmetric] ent_def set_map by fastforce
  have sm: "small K t1" using keys by (simp add: small_def)
  have x1: "nd_changed root1" if "?ix = None" using C(2) R(6)[OF that] by auto
  have x2: "a \<noteq> NULL_ADDRESS \<and> a \<in> dom \<sigma>1 \<and> (nd_changed root1 \<or> \<sigma>1 a = Some (bytes_of t1))" if ix: "?ix = Some a" for a
    using C(2) R(7)[OF ix] ixk[OF ix] root_bytes[OF R(1), of t1] C(1) by auto
  obtain x a' s' \<sigma>' where w: "write_node_plan cd root1 ?ix s = cret (x, s')" "(if x \<noteq> None then x else ?ix) = Some a'" "a' \<noteq> NULL_ADDRESS"
      "store s' m \<sigma>'" "\<sigma>' a' = Some (bytes_of t1)" "frame \<sigma>1 (set_option ?ix) \<sigma>' {a'}"
    by (rule exE[OF write_root_is[OF st C(1) wf_tree_parts(1)[OF C(3)] sm, where ix = ?ix]], rule x1, assumption, rule x2, assumption) (elim exE conjE, rule that, assumption+)
  have di: "set ?lo \<inter> set_option ?ix = {}" using ixk(2) by (cases ?ix) auto
  have a': "a' \<notin> set ?lo" using frame_disjoint[OF w(6) lv(3) di] by simp
  have keep: "\<sigma>' x = \<sigma>1 x" if "x \<in> set ?lo" for x using frame_keep[OF w(6)] that lv(3) di by blast
  let ?u = "Br [y] [(a', t1), l]"
  have m: "mset (owned ?u) = mset (a' # ?lo)" by simp
  have ou: "own ?u = insert a' (set ?lo)" using mset_eq_setD[OF m] by simp
  have "distinct (owned ?u)" using mset_eq_imp_distinct_iff[OF m] lv(2) a' by (simp del: owned.simps)
  moreover have "own ?u \<subseteq> dom \<sigma>'" unfolding ou using w(5) keep lv(3) by (auto simp: domIff)
  moreover have "stored_in \<sigma>' ?u"
    using w(5) lv(4-6) keep stored_in_cong[of t1 \<sigma>' \<sigma>1] stored_in_cong[of "snd l" \<sigma>' \<sigma>1] by auto
  ultimately have tu: "tree_in \<sigma>' ?u" by (simp add: tree_in_iff del: owned.simps)
  have io: "inorder ?u = inorder t1 @ y # inorder (snd l)" by simp
  have "ent \<sigma>' (inorder ?u) = ent \<sigma>1 (inorder ?u)"
  proof (rule ent_cong, rule keep)
    fix x assume "x \<in> set (inorder ?u)"
    then show "si_value x \<in> set ?lo" using values_owned[of t1] values_owned[of "snd l"] unfolding io by auto
  qed
  then have en: "entries \<sigma>' ?u = ps" using C(5) unfolding entries_def io by simp
  have "length (si_key y) < 2 ^ 32" using keys[of y] K by simp
  then have wf: "wf_tree (Suc (unat (bt_depth bt))) ?u" using C(3,6-10) w(3) by (auto simp: storable_def ORDER_def)
  obtain n1 n2 n where nr: "set_child 0 (new_child (Some a')) node_default = Inr n1" "set_child 1 right n1 = Inr n2" "set_separator 0 sep n2 = Inr n"
      "nd_changed n" "node_is n [y] [a', fst l]"
    using new_root_is[OF yl(4,3)] by blast
  let ?bt = "bt\<lparr>bt_depth := bt_depth bt + 1, bt_root_index := None\<rparr>"
  have dp: "unat (bt_depth bt + 1) = Suc (unat (bt_depth bt))" using d by (simp add: unat_word_ariths)
  have "ordered (inorder ?u)" using ps(1) unfolding en[symmetric] entries_sorted .
  moreover have "small K ?u" using keys unfolding small_def io by blast
  ultimately have ok: "root_ok K \<sigma>' ?bt n ?u" using tu wf nr(4,5) unfolding root_ok_def by (simp add: dp root_is_def del: owned.simps inorder.simps)
  have f: "frame \<sigma> (own_root bt t) \<sigma>' (own_root ?bt ?u)"
    using frame_both[OF lv(1) w(6)] unfolding own_root_def ou by (simp add: insert_commute)
  have "grow_root cd sep right root1 bt s = cret (n, ?bt, s')"
    using w(1,2) nr(1-3) by (simp add: grow_root_def cret_def split: if_splits)
  then show ?thesis using w(4) ok en f dp by (intro exI[of _ n] exI[of _ ?bt] exI[of _ s'] exI[of _ \<sigma>'] exI[of _ ?u]) simp
qed

text \<open>A root that has lost its last separator gives way to its only child.\<close>

lemma shrink_root_is:
  assumes st: "store s m \<sigma>" and r: "root_ok K \<sigma> bt root t"
  shows "\<exists>root' bt' s' \<sigma>' t'. shrink_root cd root bt s = cret (root', bt', s') \<and> store s' m \<sigma>' \<and>
     root_ok K \<sigma>' bt' root' t' \<and> not_hollow bt' t' \<and> entries \<sigma>' t' = entries \<sigma> t \<and> frame \<sigma> (own_root bt t) \<sigma>' (own_root bt' t') \<and>
     unat (bt_depth bt') \<le> unat (bt_depth bt)"
proof -
  note R = root_okD[OF r]
  have n: "node_is root (br_seps t) (kid_addresses t)" using R(1) by (simp add: root_is_def)
  have len: "0 < length (nd_children root)" using node_is_lengths(2)[OF n] by (simp add: node_consts)
  consider "br_seps t \<noteq> []" | "br_seps t = []" "unat (bt_depth bt) = 0" | e where "br_seps t = []" "unat (bt_depth bt) = Suc e"
    by (cases "unat (bt_depth bt)") auto
  then show ?thesis
  proof cases
    case 1
    then have "shrink_root cd root bt s = cret (root, bt, s)"
      by (simp add: shrink_root_def need_remove_root_def number_separator_is[OF n] cret_def)
    then show ?thesis using st r 1 by (intro exI[of _ root] exI[of _ bt] exI[of _ s] exI[of _ \<sigma>] exI[of _ t]) simp
  next
    case 2
    then have "fetch_child cd root 0 (fst s) (writer_query (snd s)) = cret None"
      using fetch_child_is(1)[OF R(1,2) loose_stored[OF R(3)] store_read[OF st]] by simp
    then have "shrink_root cd root bt s = cret (root, bt, s)"
      using 2 by (simp add: shrink_root_def need_remove_root_def number_separator_is[OF n] cret_def)
    then show ?thesis using st r 2 by (intro exI[of _ root] exI[of _ bt] exI[of _ s] exI[of _ \<sigma>] exI[of _ t]) simp
  next
    case 3
    obtain a c where t: "t = Br [] [(a, c)]"
      using wf_tree_parts(3)[OF R(2) 3(2)] 3(1) by (cases t) (auto simp: length_Suc_conv)
    have c: "wf_tree e c" "ORDER div 2 \<le> length (br_seps c)" using R(2) 3(2) by (auto simp: t)
    have a: "a \<noteq> NULL_ADDRESS" using R(2) by (auto simp: t storable_def)
    have k: "br_kids t = [] @ (a, c) # []" by (simp add: t)
    obtain child where f: "fetch_child cd root 0 (fst s) (writer_query (snd s)) = cret (Some child)" "root_is child c" "\<not> nd_changed child"
      using fetch_kid[OF st n R(3) k c(1)] by auto
    obtain ch root' where rm: "remove_child 0 root = Inr (ch, root')" "ch_entry_index ch = Some a"
      using remove_child_view[OF len] node_is_kidv[OF n, of 0] by (auto simp: t)
    let ?bt = "bt\<lparr>bt_depth := bt_depth bt - 1, bt_root_index := Some a\<rparr>" and ?ix = "bt_root_index bt"
    have dp: "unat (bt_depth bt - 1) = e" using 3(2) by (metis One_nat_def diff_Suc_1 unat_minus_one unsigned_0 nat.distinct(1))
    obtain s' \<sigma>' where w: "(case ?ix of Some index \<Rightarrow> write_plan_remove_node cd index s | None \<Rightarrow> cret s) = cret s'" "store s' m \<sigma>'"
        "frame \<sigma> (set_option ?ix) \<sigma>' {}"
    proof (cases ?ix)
      case (Some b)
      then obtain old where old: "\<sigma> b = Some old" using R(7)[OF Some] by auto
      from remove_stored[OF st this] obtain x s' where "existing_plan cd b None s = cret (x, s')" "store s' m (\<sigma>(b := None))" by blast
      then show ?thesis using that[of s' "\<sigma>(b := None)"] Some frame_free[of \<sigma> b] by (simp add: write_plan_remove_node_def cret_def)
    qed (use that[of s \<sigma>] st in simp)
    have oc: "own t = insert a (own c)" by (simp add: t)
    have di: "own t \<inter> set_option ?ix = {}" using R(7) by (cases ?ix) auto
    note tk = tree_in_keep[OF R(3) w(3) di]
    have tc: "tree_in \<sigma>' c" "a \<notin> own c" using tree_in_kid(1)[OF tk(1) k] tk(1) by (simp_all add: t loose_def)
    have ab: "\<sigma>' a = Some (bytes_of c)" using tk(1) by (simp add: tree_in_iff t)
    have en: "entries \<sigma>' c = entries \<sigma> t" using entries_cong[of t \<sigma>' \<sigma>] tk(3) by (simp add: entries_def t)
    have "ordered (inorder c)" "small K c" using R(4,5) by (simp_all add: t small_def)
    then have ok: "root_ok K \<sigma>' ?bt child c" using f(2) c(1) tc a ab by (auto simp: root_ok_def dp)
    have "shrink_root cd root bt s = cret (child, ?bt, s')"
      using f(1) rm w(1) 3(1) by (simp add: shrink_root_def need_remove_root_def number_separator_is[OF n] cret_def)
    moreover have "frame \<sigma> (own_root bt t) \<sigma>' (own_root ?bt c)"
      using frame_extend[OF w(3), of "own t"] by (simp add: own_root_def oc Un_commute)
    moreover have "br_seps c \<noteq> []" using c(2) by (auto simp: ORDER_def)
    ultimately show ?thesis using w(2) ok en dp 3(2)
      by (intro exI[of _ child] exI[of _ ?bt] exI[of _ s'] exI[of _ \<sigma>'] exI[of _ c]) simp
  qed
qed


section \<open>The loop over the changes\<close>

lemma root_ok_changed:
  assumes r: "root_ok K \<sigma> bt root t" and c: "changed (unat (bt_depth bt)) \<sigma> root t (None, b) root1 \<sigma>1 ys t1 ls (fold change_entries used (entries \<sigma> t))"
    and used: "\<forall>c\<in>set used. length (fst c) \<le> K"
  shows "root_ok K \<sigma>1 bt root1 t1" and "frame \<sigma> (own_root bt t) \<sigma>1 (own_root bt t1)"
proof -
  note R = root_okD[OF r] and C = changedD[OF c]
  have srt: "keys_sorted (entries \<sigma>1 t1)" unfolding C(8) by (rule fold_entries_sorted) (use R(4) in \<open>simp add: entries_sorted\<close>)
  have "length (fst p) \<le> K" if "p \<in> set (entries \<sigma>1 t1)" for p
    using subsetD[OF fold_entries_keys imageI[OF that[unfolded C(8)]]] used iffD1[OF small_entries R(5), of \<sigma>] by auto
  then have sm: "small K t1" using small_entries[of K t1 \<sigma>1] by blast
  have "a \<noteq> NULL_ADDRESS \<and> a \<in> dom \<sigma>1 \<and> a \<notin> own t1 \<and> (nd_changed root1 \<or> \<sigma>1 a = Some (bytes_of t1))" if ix: "bt_root_index bt = Some a" for a
  proof -
    have a: "a \<noteq> NULL_ADDRESS" "a \<in> dom \<sigma>" "a \<notin> own t" "nd_changed root \<or> \<sigma> a = Some (bytes_of t)" using R(7)[OF ix] by auto
    have k: "\<sigma>1 a = \<sigma> a" by (rule frame_keep[OF C(4) a(2,3)])
    have "a \<notin> own t1" using frame_disjoint[OF C(4), of "{a}"] a(2,3) by auto
    then show ?thesis using k a C(6) root_bytes[OF R(1), of t1] C(5) by (auto simp: domIff)
  qed
  moreover have "nd_changed root1" if "bt_root_index bt = None" using C(6) R(6)[OF that] by auto
  ultimately show "root_ok K \<sigma>1 bt root1 t1"
    using C(3,5,7) srt sm by (simp add: root_ok_def entries_sorted split: option.split)
  show "frame \<sigma> (own_root bt t) \<sigma>1 (own_root bt t1)" using frame_extend[OF C(4)] by (simp add: own_root_def)
qed

definition root_step :: "change_result \<Rightarrow> node \<Rightarrow> btree \<Rightarrow> bstate \<Rightarrow> (node \<times> btree \<times> bstate) comp" where
  "root_step r root bt s =
     (case r of
        (Some (sep, right), _) \<Rightarrow> grow_root cd sep right root bt s
      | (None, True) \<Rightarrow> shrink_root cd root bt s
      | (None, False) \<Rightarrow> cret (root, bt, s))"

lemma root_step_is:
  assumes st: "store s (Suc m) \<sigma>1" and r: "root_ok K \<sigma> bt root t" "not_hollow bt t"
    and c: "changed (unat (bt_depth bt)) \<sigma> root t res root1 \<sigma>1 ys t1 ls (fold change_entries used (entries \<sigma> t))" "ls = [] \<longrightarrow> fill (snd res) t t1"
    and used: "\<forall>c\<in>set used. length (fst c) \<le> K" and K: "K < 2 ^ 32" and d: "Suc (unat (bt_depth bt)) < 2 ^ 32"
  shows "\<exists>root' bt' s' \<sigma>' t'. root_step res root1 bt s = cret (root', bt', s') \<and> store s' m \<sigma>' \<and>
     root_ok K \<sigma>' bt' root' t' \<and> not_hollow bt' t' \<and> entries \<sigma>' t' = fold change_entries used (entries \<sigma> t) \<and>
     frame \<sigma> (own_root bt t) \<sigma>' (own_root bt' t') \<and> unat (bt_depth bt') \<le> Suc (unat (bt_depth bt))"
proof (cases "fst res")
  case None
  then obtain b where res: "res = (None, b)" by (cases res) simp
  note ok = root_ok_changed[OF r(1) c(1)[unfolded res] used] and C = changedD[OF c(1)[unfolded res]]
  show ?thesis
  proof (cases b)
    case True
    have "store s m \<sigma>1" using store_weaken[OF st] by simp
    from shrink_root_is[OF this ok(1)]
    obtain root' bt' s' \<sigma>' t' where w: "shrink_root cd root1 bt s = cret (root', bt', s')" "store s' m \<sigma>'" "root_ok K \<sigma>' bt' root' t'"
        "not_hollow bt' t'" "entries \<sigma>' t' = entries \<sigma>1 t1" "frame \<sigma>1 (own_root bt t1) \<sigma>' (own_root bt' t')" "unat (bt_depth bt') \<le> unat (bt_depth bt)"
      by - (elim exE conjE, rule that, assumption+)
    show ?thesis
      by (rule exI[of _ root'], rule exI[of _ bt'], rule exI[of _ s'], rule exI[of _ \<sigma>'], rule exI[of _ t'])
        (use w frame_trans[OF ok(2) w(6)] in \<open>simp add: root_step_def res True C(8)\<close>)
  next
    case False
    have "not_hollow bt t1" using r(2) c(2) C(2) by (auto simp: fill_def res False ORDER_def)
    then show ?thesis
      using ok store_weaken[OF st, of m] C(8)
      by (intro exI[of _ root1] exI[of _ bt] exI[of _ s] exI[of _ \<sigma>1] exI[of _ t1]) (simp add: root_step_def res False)
  qed
next
  case (Some x)
  then obtain sep right where res: "res = (Some (sep, right), False)" using c(1) by (cases res) (auto simp: changed_def outcome_def split: prod.splits)
  note R = root_okD[OF r(1)]
  let ?ps = "fold change_entries used (entries \<sigma> t)"
  have "keys_sorted ?ps" by (rule fold_entries_sorted) (use R(4) in \<open>simp add: entries_sorted\<close>)
  moreover have "\<forall>p\<in>set ?ps. length (fst p) \<le> K"
  proof
    fix p assume "p \<in> set ?ps"
    then show "length (fst p) \<le> K" using subsetD[OF fold_entries_keys imageI] used iffD1[OF small_entries R(5), of \<sigma>] by fastforce
  qed
  ultimately show ?thesis using grow_root_is[OF st r(1) c(1)[unfolded res] _ _ K d] by (simp add: root_step_def res)
qed

lemma sorted_changes_loop_is:
  assumes K: "K < 2 ^ 32" and D: "D < 2 ^ 32"
  shows "store s ((cost D + 1) * length changes + m) \<sigma> \<Longrightarrow> root_ok K \<sigma> bt root t \<Longrightarrow> not_hollow bt t \<Longrightarrow> changes = [] \<or> batch K V changes \<Longrightarrow>
     unat (bt_depth bt) + length changes \<le> D \<Longrightarrow>
     \<exists>root' bt' s' \<sigma>' t'. sorted_changes_loop cd root bt changes s = cret (root', bt', s') \<and> store s' m \<sigma>' \<and>
       root_ok K \<sigma>' bt' root' t' \<and> not_hollow bt' t' \<and> entries \<sigma>' t' = fold change_entries changes (entries \<sigma> t) \<and>
       frame \<sigma> (own_root bt t) \<sigma>' (own_root bt' t') \<and> unat (bt_depth bt') \<le> D"
proof (induction "length changes" arbitrary: changes \<sigma> bt root t s rule: less_induct)
  case less
  note prems = less.prems
  show ?case
  proof (cases "changes = []")
    case True
    then have "sorted_changes_loop cd root bt changes s = cret (root, bt, s)" by (subst sorted_changes_loop.simps) (simp add: cret_def)
    then show ?thesis using prems True by (intro exI[of _ root] exI[of _ bt] exI[of _ s] exI[of _ \<sigma>] exI[of _ t]) simp
  next
    case False
    let ?d = "unat (bt_depth bt)"
    have b: "batch K V changes" using prems(4) False by simp
    have ta: "tree_at K ?d \<sigma> root t" using root_okD[OF prems(2)] prems(3) by (simp add: tree_at_def)
    have dD: "?d < D" using prems(5) False by (cases changes) auto
    then have cd: "cost ?d < cost D" by (simp add: cost_def)
    then have sp: "cost ?d * n + (cost D + 1 - cost ?d) * n = (cost D + 1) * n" for n by (simp flip: add_mult_distrib)
    have "(cost D + 1) * length changes + m = cost ?d * length changes + ((cost D + 1 - cost ?d) * length changes + m)"
      by (simp only: sp flip: add.assoc)
    note bud = prems(1)[unfolded this]
    have "runs ?d \<sigma> root t changes ((cost D + 1 - cost ?d) * length changes + m) fill (near t (fst (hd changes))) (node_change cd ?d None root changes s)"
      by (rule node_change_root[OF K ta b bud])
    then obtain r root1 changes' s1 \<sigma>1 used ys t1 ls where w: "node_change cd ?d None root changes s = cret (r, root1, changes', s1)"
        "changes = used @ tl changes'" "used \<noteq> []" "changes' \<noteq> []" "store s1 (cost ?d * length (tl changes') + ((cost D + 1 - cost ?d) * length changes + m)) \<sigma>1"
        "changed ?d \<sigma> root t r root1 \<sigma>1 ys t1 ls (fold change_entries used (entries \<sigma> t))" "ls = [] \<longrightarrow> fill (snd r) t t1"
      by (rule runsE)
    define rest where "rest = tl changes'"
    have lr: "Suc (length rest) \<le> length changes" using w(3) by (subst w(2)) (simp add: rest_def Suc_le_eq)
    have "(cost D + 1 - cost ?d) * Suc (length rest) \<le> (cost D + 1 - cost ?d) * length changes" using lr by (rule mult_le_mono2)
    then have "Suc ((cost D + 1) * length rest + m) \<le> cost ?d * length rest + ((cost D + 1 - cost ?d) * length changes + m)"
      using cd sp[of "length rest"] unfolding mult_Suc_right by linarith
    note st1 = store_weaken[OF w(5)[folded rest_def] this]
    have used: "\<forall>c\<in>set used. length (fst c) \<le> K" using b w(2) by (auto simp: batch_def)
    have "Suc ?d < 2 ^ 32" using dD D by simp
    from root_step_is[OF st1 prems(2,3) w(6,7) used K this]
    obtain root2 bt2 s2 \<sigma>2 t2 where u: "root_step r root1 bt s1 = cret (root2, bt2, s2)" "store s2 ((cost D + 1) * length rest + m) \<sigma>2"
        "root_ok K \<sigma>2 bt2 root2 t2" "not_hollow bt2 t2" "entries \<sigma>2 t2 = fold change_entries used (entries \<sigma> t)"
        "frame \<sigma> (own_root bt t) \<sigma>2 (own_root bt2 t2)" "unat (bt_depth bt2) \<le> Suc ?d"
      by - (elim exE conjE, rule that, assumption+)
    have br: "rest = [] \<or> batch K V rest" using batch_tl[OF b w(2)] by (auto simp: rest_def)
    have "unat (bt_depth bt2) + length rest \<le> D" using u(7) prems(5) lr by simp
    from less.hyps[OF _ u(2-4) br this] lr
    obtain root' bt' s' \<sigma>' t' where v: "sorted_changes_loop cd root2 bt2 rest s2 = cret (root', bt', s')" "store s' m \<sigma>'" "root_ok K \<sigma>' bt' root' t'"
       "not_hollow bt' t'" "entries \<sigma>' t' = fold change_entries rest (entries \<sigma>2 t2)" "frame \<sigma>2 (own_root bt2 t2) \<sigma>' (own_root bt' t')" "unat (bt_depth bt') \<le> D"
      by - (drule meta_mp, simp, elim exE conjE, rule that, assumption+)
    have "sorted_changes_loop cd root bt changes s = cret (root', bt', s')"
      using False w(1) u(1) v(1) unfolding root_step_def rest_def by (subst sorted_changes_loop.simps) (simp add: cret_def)
    moreover have "entries \<sigma>' t' = fold change_entries changes (entries \<sigma> t)" using v(5) u(5) w(2) by (simp add: rest_def)
    ultimately show ?thesis
      using v(2-4,7) frame_trans[OF u(6) v(6)] by (intro exI[of _ root'] exI[of _ bt'] exI[of _ s'] exI[of _ \<sigma>'] exI[of _ t']) simp
  qed
qed


end

end
