(* ===== verification/BTree_Batch.thy ===== *)
theory BTree_Batch
  imports BTree_Write
begin

text \<open>
  An ordered column as a map from keys to values. \<open>btree_holds\<close> says that a store has the header and
  the nodes of a tree; a lookup (\<open>BTreeTable::get\<close>) reads the map, and writing a batch
  (\<open>BTreeChangeSet::write_plan\<close> of \<^verbatim>\<open>src/src/btree/mod.rs\<close>) updates it with every change in the
  order they were committed.
\<close>

section \<open>The entries of a tree as a map\<close>

definition entry_map :: "entry_list \<Rightarrow> bytes \<rightharpoonup> bytes" where
  "entry_map ps k = (case map_of ps k of Some v \<Rightarrow> v | None \<Rightarrow> None)"

definition apply_change :: "btree_change \<Rightarrow> (bytes \<rightharpoonup> bytes) \<Rightarrow> (bytes \<rightharpoonup> bytes)" where
  "apply_change c m = m(fst c := snd c)"

definition tree_map :: "(address \<rightharpoonup> bytes) \<Rightarrow> btr \<Rightarrow> bytes \<rightharpoonup> bytes" where
  "tree_map \<sigma> t = entry_map (entries \<sigma> t)"

lemma map_of_keep: "map_of (filter (\<lambda>e. P (fst e)) ps) k = (if P k then map_of ps k else None)"
  by (induction ps) auto

lemma entry_map_change: "entry_map (change_entries c ps) = apply_change c (entry_map ps)"
proof
  fix k
  show "entry_map (change_entries c ps) k = apply_change c (entry_map ps) k"
    using map_of_keep[of "\<lambda>x. x < fst c" ps k] map_of_keep[of "\<lambda>x. fst c < x" ps k] map_of_keep[of "\<lambda>x. x \<noteq> fst c" ps k]
    by (auto simp: entry_map_def apply_change_def change_entries_def put_entry_def cut_entry_def map_add_def split: option.splits)
qed

lemma entry_map_fold: "entry_map (fold change_entries cs ps) = fold apply_change cs (entry_map ps)"
  by (induction cs arbitrary: ps) (simp_all add: entry_map_change)

text \<open>Changes of different keys commute, and the sort is stable: the order of the batch decides.\<close>

lemma apply_changes_at:
  "fold apply_change cs m k = (let ds = filter (\<lambda>c. fst c = k) cs in if ds = [] then m k else snd (last ds))"
proof (induction cs rule: rev_induct)
  case (snoc c cs)
  then show ?case by (auto simp: apply_change_def Let_def)
qed simp

lemma apply_changes_sorted: "fold apply_change (sort_key fst cs) m = fold apply_change cs m"
  by (rule ext) (simp add: apply_changes_at sort_key_stable)

lemma entry_map_find:
  assumes "\<And>x. x \<in> set xs \<Longrightarrow> si_value x \<in> dom \<sigma>"
  shows "entry_map (ent \<sigma> xs) k = (case find_sep xs k of Some a \<Rightarrow> \<sigma> a | None \<Rightarrow> None)"
  using assms by (induction xs) (auto simp: entry_map_def ent_def find_sep_def)

section \<open>The header\<close>

definition header_bytes :: "btree_header \<Rightarrow> bytes" where
  "header_bytes h = le64 (address_as_u64 (bh_root h)) @ le32 (bh_depth h)"

lemma length_header_bytes [simp]: "length (header_bytes h) = BTREE_HEADER_SIZE"
  by (simp add: header_bytes_def BTREE_HEADER_SIZE_def)

lemma write_header_is: "write_header h = Inr \<lparr>eoff = BTREE_HEADER_SIZE, edata = header_bytes h\<rparr>"
  using write_grown[of "le64 (address_as_u64 (bh_root h))" BTREE_HEADER_SIZE "[]"]
    write_grown[of "le32 (bh_depth h)" 4 "le64 (address_as_u64 (bh_root h))"]
  by (simp add: write_header_def write_u64_def write_u32_def header_bytes_def BTREE_HEADER_SIZE_def)

lemma fetch_header_is:
  assumes "reads cd tables q \<sigma>" and "\<sigma> HEADER_ADDRESS = Some (header_bytes h)"
  shows "fetch_btree_header cd tables q = cret h"
proof -
  obtain tier where g: "get_value cd (Fetch None) HEADER_ADDRESS tables q = cret (Some (tier, header_bytes h))"
    using assms by (auto simp: reads_def)
  have e: "ebuf_new (header_bytes h) = ebuf_at [] (le64 (address_as_u64 (bh_root h)) @ le32 (bh_depth h) @ [])"
    by (simp add: ebuf_new_def ebuf_at_def header_bytes_def)
  show ?thesis
    unfolding fetch_btree_header_def g using read_at[of "le32 (bh_depth h)" 4 "le64 (address_as_u64 (bh_root h))" "[]"]
    by (simp add: cret_def e read_u64_def read_u32_def read_at REFS_SIZE_def address_from_u64_def)
qed

section \<open>Trees on a store\<close>

definition btree_holds :: "nat \<Rightarrow> (address \<rightharpoonup> bytes) \<Rightarrow> btree_header \<Rightarrow> btr \<Rightarrow> bool" where
  "btree_holds K \<sigma> h t \<longleftrightarrow> \<sigma> HEADER_ADDRESS = Some (header_bytes h) \<and> HEADER_ADDRESS \<notin> own t \<and>
     wf_tree (unat (bh_depth h)) t \<and> tree_in \<sigma> t \<and> ordered (inorder t) \<and> small K t \<and> (bh_depth h \<noteq> 0 \<longrightarrow> br_seps t \<noteq> []) \<and>
     (if bh_root h = NULL_ADDRESS then t = Br [] [] \<and> bh_depth h = 0
      else bh_root h \<noteq> HEADER_ADDRESS \<and> bh_root h \<notin> own t \<and> \<sigma> (bh_root h) = Some (bytes_of t))"

definition btree_of :: "btree_header \<Rightarrow> u64 \<Rightarrow> btree" where
  "btree_of h record_id = \<lparr>bt_depth = bh_depth h, bt_root_index = (if bh_root h = NULL_ADDRESS then None else Some (bh_root h)),
     bt_record_id = record_id\<rparr>"

lemma root_of_header [simp]: "root_or_null (btree_of h r) = bh_root h" "bt_depth (btree_of h r) = bh_depth h"
  by (simp_all add: root_or_null_def btree_of_def)

lemma btree_holdsD:
  assumes "btree_holds K \<sigma> h t"
  shows "\<sigma> HEADER_ADDRESS = Some (header_bytes h)" and "HEADER_ADDRESS \<notin> own t" and "wf_tree (unat (bh_depth h)) t" and "tree_in \<sigma> t"
    and "ordered (inorder t)" and "small K t" and "bh_depth h \<noteq> 0 \<Longrightarrow> br_seps t \<noteq> []"
    and "bh_root h = NULL_ADDRESS \<Longrightarrow> t = Br [] [] \<and> bh_depth h = 0"
    and "bh_root h \<noteq> NULL_ADDRESS \<Longrightarrow> bh_root h \<noteq> HEADER_ADDRESS \<and> bh_root h \<notin> own t \<and> \<sigma> (bh_root h) = Some (bytes_of t)"
  using assms by (auto simp: btree_holds_def)

lemma node_default_is: "root_is node_default (Br [] [])" "nd_changed node_default"
  by (auto simp: root_is_def node_is_def node_default_def node_blank_def arr_def separator_default_def child_default_def)

lemma fetch_root_is:
  assumes "reads cd tables q \<sigma>" and "btree_holds K \<sigma> h t"
  shows "\<exists>root. fetch_root cd (bh_root h) tables q = cret root \<and> root_is root t \<and>
     (if bh_root h = NULL_ADDRESS then nd_changed root else \<not> node_dirty root)"
proof (cases "bh_root h = NULL_ADDRESS")
  case True
  then show ?thesis using node_default_is btree_holdsD(8)[OF assms(2)] by (intro exI[of _ node_default]) (simp add: fetch_root_def)
next
  case False
  note s = wf_tree_parts(1)[OF btree_holdsD(3)[OF assms(2)]]
  have "get_encoded_entry cd (bh_root h) tables q = cret (bytes_of t)"
    using assms(1) btree_holdsD(9)[OF assms(2) False] by (simp add: reads_def)
  then show ?thesis
    using False decode_encode[OF s] clean_node_is[OF s] by (simp add: fetch_root_def cret_def bytes_of_def root_is_def)
qed

text \<open>\<open>BTreeTable::get\<close> reads the map.\<close>

lemma btree_table_get_is:
  assumes rd: "reads cd tables q \<sigma>" and b: "btree_holds K \<sigma> h t"
  shows "btree_table_get cd key q tables = cret (tree_map \<sigma> t key)"
proof -
  note B = btree_holdsD[OF b]
  note hd = fetch_header_is[OF rd B(1)]
  have sub: "own t \<subseteq> dom \<sigma>" using B(4) by (simp add: tree_in_iff)
  have m: "tree_map \<sigma> t key = (case find_sep (inorder t) key of Some a \<Rightarrow> \<sigma> a | None \<Rightarrow> None)"
    unfolding tree_map_def entries_def by (rule entry_map_find) (use sub values_owned in blast)
  show ?thesis
  proof (cases "bh_root h = NULL_ADDRESS")
    case True
    then show ?thesis using hd B(8) m by (simp add: btree_table_get_def cret_def find_sep_def)
  next
    case False
    obtain root where f: "fetch_root cd (bh_root h) tables q = cret root" "root_is root t" using fetch_root_is[OF assms] by blast
    have g: "node_get cd key tables q root = cret (find_sep (inorder t) key)"
      by (rule node_get_is[OF f(2) B(3) loose_stored[OF B(4)] rd B(5)])
    have "(\<exists>tier. get_value cd (Fetch None) a tables q = cret (Some (tier, v)))" if "\<sigma> a = Some v" for a v
      using rd that by (simp add: reads_def)
    moreover have "a \<in> dom \<sigma>" if "find_sep (inorder t) key = Some a" for a
    proof -
      have "a \<in> si_value ` set (inorder t)" using that by (auto simp: find_sep_def dest!: map_of_SomeD)
      then show ?thesis using sub values_owned[of t] by blast
    qed
    ultimately show ?thesis
      using hd f(1) g False m
      by (fastforce simp: btree_table_get_def btree_get_def root_or_null_def cret_def split: option.splits)
  qed
qed

section \<open>Writing a batch\<close>

lemma holds_root_ok:
  assumes b: "btree_holds K \<sigma> h t" and n: "root_is n t" "if bh_root h = NULL_ADDRESS then nd_changed n else \<not> node_dirty n"
  shows "root_ok K \<sigma> (btree_of h r) n t" and "not_hollow (btree_of h r) t" and "HEADER_ADDRESS \<notin> own_root (btree_of h r) t"
proof -
  note B = btree_holdsD[OF b]
  show "root_ok K \<sigma> (btree_of h r) n t"
    using B n by (auto simp: root_ok_def btree_of_def domIff)
  show "not_hollow (btree_of h r) t" using B(7) by (cases "bh_depth h = 0") (auto simp: btree_of_def)
  show "HEADER_ADDRESS \<notin> own_root (btree_of h r) t" using B(2,9) by (auto simp: own_root_def btree_of_def)
qed

text \<open>A tree below a new header.\<close>

lemma holds_new_header:
  assumes ok: "wf_tree (unat (bh_depth h)) t" "tree_in \<sigma> t" "ordered (inorder t)" "small K t" "bh_depth h \<noteq> 0 \<longrightarrow> br_seps t \<noteq> []"
    and a: "bh_root h \<noteq> NULL_ADDRESS" "bh_root h \<notin> own t" "\<sigma> (bh_root h) = Some (bytes_of t)"
    and hd: "HEADER_ADDRESS \<notin> own t" "HEADER_ADDRESS \<noteq> bh_root h"
  shows "btree_holds K (\<sigma>(HEADER_ADDRESS \<mapsto> header_bytes h)) h t" and "entries (\<sigma>(HEADER_ADDRESS \<mapsto> header_bytes h)) t = entries \<sigma> t"
proof -
  let ?\<sigma> = "\<sigma>(HEADER_ADDRESS \<mapsto> header_bytes h)"
  have f: "frame \<sigma> {HEADER_ADDRESS} ?\<sigma> {HEADER_ADDRESS}" by (auto simp: frame_def)
  have "own t \<inter> {HEADER_ADDRESS} = {}" using hd(1) by simp
  note k = tree_in_keep[OF ok(2) f this]
  show "btree_holds K ?\<sigma> h t" using ok a hd k(1) by (auto simp: btree_holds_def)
  show "entries ?\<sigma> t = entries \<sigma> t" by (rule entries_cong) (rule k(3))
qed

context node_store
begin

lemma write_sorted_changes_is:
  assumes K: "K < 2 ^ 32" and D: "D < 2 ^ 32" and st: "store s ((cost D + 1) * length changes + Suc m) \<sigma>" and b: "btree_holds K \<sigma> h t"
    and ch: "changes = [] \<or> batch K V changes" and d: "unat (bh_depth h) + length changes \<le> D"
  shows "\<exists>bt' s' \<sigma>' h' t'. write_sorted_changes cd changes (btree_of h r) s = cret (bt', s') \<and> store s' m \<sigma>' \<and>
     bt_root_index bt' = Some (bh_root h') \<and> bt_depth bt' = bh_depth h' \<and> bh_root h' \<noteq> NULL_ADDRESS \<and> \<sigma>' (bh_root h') = Some (bytes_of t') \<and>
     wf_tree (unat (bh_depth h')) t' \<and> unat (bh_depth h') \<le> D \<and>
     \<sigma>' HEADER_ADDRESS = Some (header_bytes h) \<and> btree_holds K (\<sigma>'(HEADER_ADDRESS \<mapsto> header_bytes h')) h' t' \<and>
     entries (\<sigma>'(HEADER_ADDRESS \<mapsto> header_bytes h')) t' = fold change_entries changes (entries \<sigma> t)"
proof -
  let ?bt = "btree_of h r"
  obtain root where f: "fetch_root cd (bh_root h) (fst s) (writer_query (snd s)) = cret root" "root_is root t"
      "if bh_root h = NULL_ADDRESS then nd_changed root else \<not> node_dirty root"
    using fetch_root_is[OF store_read[OF st] b] by blast
  note R = holds_root_ok[OF b f(2,3), of r]
  have "unat (bt_depth ?bt) + length changes \<le> D" using d by simp
  from sorted_changes_loop_is[OF K D st R(1,2) ch this]
  obtain root1 bt1 s1 \<sigma>1 t1 where w: "sorted_changes_loop cd root ?bt changes s = cret (root1, bt1, s1)" "store s1 (Suc m) \<sigma>1" "root_ok K \<sigma>1 bt1 root1 t1"
      "not_hollow bt1 t1" "entries \<sigma>1 t1 = fold change_entries changes (entries \<sigma> t)" "frame \<sigma> (own_root ?bt t) \<sigma>1 (own_root bt1 t1)" "unat (bt_depth bt1) \<le> D"
    by - (elim exE conjE, rule that, assumption+)
  note O = root_okD[OF w(3)]
  have hd: "HEADER_ADDRESS \<in> dom \<sigma>" "\<sigma> HEADER_ADDRESS = Some (header_bytes h)" using btree_holdsD(1)[OF b] by auto
  have h1: "\<sigma>1 HEADER_ADDRESS = Some (header_bytes h)" using frame_keep[OF w(6) hd(1) R(3)] hd(2) by simp
  have h2: "HEADER_ADDRESS \<notin> own_root bt1 t1" using frame_disjoint[OF w(6), of "{HEADER_ADDRESS}"] hd(1) R(3) by simp
  obtain bt' a s' \<sigma>' where u: "write_sorted_changes cd changes ?bt s = cret (bt', s')" "store s' m \<sigma>'" "bt_root_index bt' = Some a" "bt_depth bt' = bt_depth bt1"
      "a \<noteq> NULL_ADDRESS" "\<sigma>' a = Some (bytes_of t1)" "frame \<sigma>1 (set_option (bt_root_index bt1)) \<sigma>' {a}"
  proof (cases "nd_changed root1")
    case True
    have "a \<noteq> NULL_ADDRESS \<and> a \<in> dom \<sigma>1 \<and> (nd_changed root1 \<or> \<sigma>1 a = Some (bytes_of t1))" if "bt_root_index bt1 = Some a" for a
      using O(7)[OF that] by blast
    from write_root_is[OF w(2) O(1) wf_tree_parts(1)[OF O(2)] O(5) True this]
    obtain x a' s' \<sigma>' where x: "write_node_plan cd root1 (bt_root_index bt1) s1 = cret (x, s')" "(if x \<noteq> None then x else bt_root_index bt1) = Some a'" "a' \<noteq> NULL_ADDRESS"
        "store s' m \<sigma>'" "\<sigma>' a' = Some (bytes_of t1)" "frame \<sigma>1 (set_option (bt_root_index bt1)) \<sigma>' {a'}"
      by - (drule meta_spec, drule meta_mp, assumption, elim exE conjE, rule that, assumption+)
    show ?thesis
    proof (rule that[of "if x \<noteq> None then bt1\<lparr>bt_root_index := x\<rparr> else bt1" s' \<sigma>' a'])
      show "write_sorted_changes cd changes ?bt s = cret (if x \<noteq> None then bt1\<lparr>bt_root_index := x\<rparr> else bt1, s')"
        using f(1) w(1) x(1) True by (simp add: write_sorted_changes_def cret_def)
    qed (use x in \<open>auto split: if_splits\<close>)
  next
    case False
    then obtain a where a: "bt_root_index bt1 = Some a" using O(6) by (cases "bt_root_index bt1") auto
    have "write_sorted_changes cd changes ?bt s = cret (bt1, s1)" using f(1) w(1) False by (simp add: write_sorted_changes_def cret_def)
    then show ?thesis using that[of bt1 s1 \<sigma>1 a] O(7)[OF a] False a store_weaken[OF w(2), of m] by simp
  qed
  have di: "own t1 \<inter> set_option (bt_root_index bt1) = {}" using O(7) by (cases "bt_root_index bt1") auto
  note k = tree_in_keep[OF O(3) u(7) di]
  have hx: "\<sigma>' HEADER_ADDRESS = Some (header_bytes h)" "HEADER_ADDRESS \<noteq> a"
    using frame_keep[OF u(7), of HEADER_ADDRESS] frame_disjoint[OF u(7), of "{HEADER_ADDRESS}"] h1 h2 by (auto simp: own_root_def)
  let ?h = "\<lparr>bh_root = a, bh_depth = bt_depth bt1\<rparr>"
  have nh: "bt_depth bt1 \<noteq> 0 \<longrightarrow> br_seps t1 \<noteq> []" using w(4) by (simp add: unat_eq_0)
  have "btree_holds K (\<sigma>'(HEADER_ADDRESS \<mapsto> header_bytes ?h)) ?h t1" "entries (\<sigma>'(HEADER_ADDRESS \<mapsto> header_bytes ?h)) t1 = entries \<sigma>' t1"
    by (rule holds_new_header; use O(2,4,5) k(1,2) nh u(5,6) h2 hx(2) in \<open>simp add: own_root_def\<close>)+
  moreover have "entries \<sigma>' t1 = entries \<sigma>1 t1" by (rule entries_cong) (rule k(3))
  ultimately show ?thesis
    using u hx(1) O(2) w(5,7) by (intro exI[of _ bt'] exI[of _ s'] exI[of _ \<sigma>'] exI[of _ ?h] exI[of _ t1]) simp
qed

lemma root_not_rewritten:
  assumes st: "store s m \<sigma>" and r: "bt_root_index bt = Some (bh_root h)" "bt_depth bt = bh_depth h" "bh_root h \<noteq> NULL_ADDRESS" "\<sigma> (bh_root h) = Some (bytes_of t)"
    and wf: "wf_tree d t"
  shows "btree_table_write_plan cd record_id bt s = cret (h, bt\<lparr>bt_record_id := record_id\<rparr>, s)"
proof -
  have "get_encoded_entry cd (bh_root h) (fst s) (writer_query (snd s)) = cret (bytes_of t)"
    using store_read[OF st] r(4) by (simp add: reads_def)
  then have "fetch_root cd (root_or_null bt) (fst s) (writer_query (snd s)) = cret (clean_node (br_seps t) (kid_addresses t))"
    using r(1,3) decode_encode[OF wf_tree_parts(1)[OF wf]] by (simp add: root_or_null_def fetch_root_def bytes_of_def cret_def)
  then show ?thesis
    using r by (simp add: btree_table_write_plan_def write_node_plan_def cret_def root_or_null_def)
qed

lemma btree_write_plan_is:
  assumes K: "K < 2 ^ 32" and D: "D < 2 ^ 32" and st: "store (btree_locked b, w) ((cost D + 1) * length changes + Suc (Suc m)) \<sigma>" and h: "btree_holds K \<sigma> h t"
    and ch: "\<forall>c\<in>set changes. length (fst c) \<le> K \<and> (\<forall>v. snd c = Some v \<longrightarrow> length v \<le> V)" and d: "unat (bh_depth h) + length changes \<le> D"
  shows "\<exists>tb w' \<sigma>' h' t'. btree_write_plan cd changes b w = cret (b\<lparr>bc_tables := tr_tables tb\<rparr>, w') \<and> store (tb, w') m \<sigma>' \<and>
     btree_holds K \<sigma>' h' t' \<and> entries \<sigma>' t' = fold change_entries (sort_key fst changes) (entries \<sigma> t) \<and> unat (bh_depth h') \<le> D"
proof -
  let ?cs = "sort_key fst changes" and ?r = "lc_record_id (lw_log w)"
  have ba: "?cs = [] \<or> batch K V ?cs" using ch by (cases "changes = []") (auto simp: batch_def dest: arg_cong[of _ _ length])
  have "store (btree_locked b, w) ((cost D + 1) * length ?cs + Suc (Suc m)) \<sigma>" "unat (bh_depth h) + length ?cs \<le> D" using st d by simp_all
  from write_sorted_changes_is[OF K D this(1) h ba this(2), of ?r]
  obtain bt' s' \<sigma>' h' t' where u: "write_sorted_changes cd ?cs (btree_of h ?r) (btree_locked b, w) = cret (bt', s')" "store s' (Suc m) \<sigma>'"
     "bt_root_index bt' = Some (bh_root h')" "bt_depth bt' = bh_depth h'" "bh_root h' \<noteq> NULL_ADDRESS" "\<sigma>' (bh_root h') = Some (bytes_of t')"
     "wf_tree (unat (bh_depth h')) t'" "unat (bh_depth h') \<le> D"
     "\<sigma>' HEADER_ADDRESS = Some (header_bytes h)" "btree_holds K (\<sigma>'(HEADER_ADDRESS \<mapsto> header_bytes h')) h' t'"
     "entries (\<sigma>'(HEADER_ADDRESS \<mapsto> header_bytes h')) t' = fold change_entries ?cs (entries \<sigma> t)"
    by - (elim exE conjE, rule that, assumption+)
  note rn = root_not_rewritten[OF u(2-7)]
  have op: "btree_open cd (btree_locked b) (writer_query w) ?r = cret (btree_of h ?r)"
    using fetch_header_is[OF store_read[OF st, simplified] btree_holdsD(1)[OF h]] by (simp add: btree_open_def btree_of_def cret_def)
  let ?\<sigma> = "\<sigma>'(HEADER_ADDRESS \<mapsto> header_bytes h')"
  obtain tb w' where x: "(if h \<noteq> h' then cbind (Some (write_header h')) (\<lambda>e.
         cbind (existing_plan cd HEADER_ADDRESS (Some (take BTREE_HEADER_SIZE (edata e))) s') (\<lambda>(_, s). cret s)) else cret s') = cret (tb, w')" "store (tb, w') m ?\<sigma>"
  proof (cases "h = h'")
    case True
    then have "?\<sigma> = \<sigma>'" using u(9) by (simp add: fun_upd_idem)
    then show ?thesis using that[of "fst s'" "snd s'"] True store_weaken[OF u(2), of m] by simp
  next
    case False
    obtain y s2 where y: "existing_plan cd HEADER_ADDRESS (Some (header_bytes h')) s' = cret (y, s2)" "store s2 m ?\<sigma>"
      using set_header[OF u(2,9), of "header_bytes h'"] by auto
    then show ?thesis using that[of "fst s2" "snd s2"] False by (simp add: write_header_is cret_def)
  qed
  have "btree_write_plan cd changes b w = cret (b\<lparr>bc_tables := tr_tables tb\<rparr>, w')"
  proof -
    have e: "(\<lparr>bh_root = bh_root h, bh_depth = bh_depth h\<rparr> = h') = (h = h')" by (cases h) simp
    show ?thesis using op u(1) rn x(1) by (cases "h = h'") (simp_all add: btree_write_plan_def Let_def cret_def e)
  qed
  then show ?thesis using x(2) u(8,10,11) by (intro exI[of _ tb] exI[of _ w'] exI[of _ ?\<sigma>] exI[of _ h'] exI[of _ t']) simp
qed


end

end
