(* ===== verification/Column_Grow.thy ===== *)
theory Column_Grow
  imports Column_Update
begin

text \<open>
  A new key whose index chunk is full: the column starts an index with one bit more, plans the value
  again and inserts it there, while the old index waits to be re-indexed. Lookups search the new index
  first and then the old one, and return the map with the new key.
\<close>

section \<open>The next index\<close>

definition next_index :: "hash_column \<Rightarrow> index_table" where
  "next_index hc = index_create_new False
     (index_id_new (index_id_col (it_id (hc_index hc))) (it_bits (hc_index hc) + 1))"

lemma trigger_reindex_eq:
  "trigger_reindex hc = hc\<lparr>hc_index := next_index hc, hc_queue := hc_queue hc @ [hc_index hc]\<rparr>"
  by (simp add: trigger_reindex_def next_index_def Let_def)

text \<open>There is a larger index to go to, and no record has entries for it yet.\<close>

definition can_grow :: "hash_column \<Rightarrow> log_query \<Rightarrow> bool" where
  "can_grow hc q \<longleftrightarrow> unat (it_bits (hc_index hc)) < 49 \<and> (\<forall>c. q_index q (it_id (next_index hc)) c = None)"

lemma next_index_bits:
  assumes "unat (it_bits (hc_index hc)) < 49"
  shows "unat (it_bits (next_index hc)) = Suc (unat (it_bits (hc_index hc)))"
    and "it_id (next_index hc) \<noteq> it_id (hc_index hc)"
proof -
  have "it_bits (next_index hc) = it_bits (hc_index hc) + 1" by (simp add: next_index_def index_create_new_def)
  then show b: "unat (it_bits (next_index hc)) = Suc (unat (it_bits (hc_index hc)))"
    using assms by (simp add: unat_word_ariths)
  then show "it_id (next_index hc) \<noteq> it_id (hc_index hc)" by (metis n_not_Suc_n)
qed

lemma next_index_valid:
  assumes "can_grow hc q" and "valid_index_bits (it_bits (hc_index hc))"
  shows "valid_index_bits (it_bits (next_index hc))"
  using assms next_index_bits(1)[of hc] by (simp add: can_grow_def valid_index_bits_def)

lemma next_index_empty:
  assumes "can_grow hc q" and "valid_index_bits (it_bits (hc_index hc))" and "wf_query q"
  shows "index_rep (next_index hc) q (\<lambda>_. replicate CHUNK_ENTRIES (Entry 0))"
proof -
  have "transmute_chunk EMPTY_CHUNK = replicate CHUNK_ENTRIES (Entry 0)"
    by (rule nth_equalityI) simp_all
  moreover have "it_map (next_index hc) = None" by (simp add: next_index_def index_create_new_def)
  ultimately show ?thesis
    using assms next_index_valid[OF assms(1,2)]
    by (simp add: index_rep_def wf_index_def index_entries_def can_grow_def)
qed

text \<open>Entries of one index say nothing about another.\<close>

lemma index_put_other:
  "index_write_insert_plan t k a sub w = Inr (out, w') \<Longrightarrow> id' \<noteq> it_id t \<Longrightarrow>
     q_index (writer_query w') id' c = q_index (writer_query w) id' c"
  by (auto simp: index_insert_view rbind_Inr_iff plan_insert_chunk_def Let_def writer_query_insert_index
      split: if_splits option.splits)

section \<open>Lookups with one index waiting\<close>

lemma get_in_index_found:
  assumes "index_inv cd hc it q ms ms0 E loc M" and "length k = 32"
  shows "\<exists>t. get_in_index cd k it (as_ref hc) q = Some (Inr (map_option (\<lambda>v. (t, fst v)) (M k)))"
  using get_in_index_rep[OF assms] index_inv_places[OF assms(1), of k] by (cases "loc k") auto

lemma hash_get_two:
  assumes new: "index_inv cd hc (hc_index hc) q ms ms1 E1 loc1 M1"
    and old: "index_inv cd hc it q ms ms0 E loc M" and queue: "hc_queue hc = [it]" and k: "length k = 32"
  shows "\<exists>st. hash_get cd hc k q = Some (Inr (map_option fst ((M ++ M1) k), hc\<lparr>hc_stats := st\<rparr>))"
proof -
  obtain t t' where g: "get_in_index cd k (hc_index hc) (as_ref hc) q = Some (Inr (map_option (\<lambda>v. (t, fst v)) (M1 k)))"
      "get_in_index cd k it (as_ref hc) q = Some (Inr (map_option (\<lambda>v. (t', fst v)) (M k)))"
    using get_in_index_found[OF new k] get_in_index_found[OF old k] by blast
  show ?thesis
  proof (cases "M1 k")
    case None
    then show ?thesis
      using g queue count_stats_eq[of hc query_miss] count_stats_eq[of hc "query_hit t'"]
      by (cases "M k") (auto simp: hash_get_def cret_def map_add_def)
  next
    case (Some x)
    then show ?thesis
      using g(1) count_stats_eq[of hc "query_hit t"] by (auto simp: hash_get_def cret_def map_add_def)
  qed
qed

section \<open>Growing\<close>

lemma slots_room_next:
  assumes "slots_room hc n" and "unat (it_bits (hc_index hc)) < 49" and "grown_by n (hc_value hc) ts"
  shows "slots_room (trigger_reindex (stats_out (hc\<lparr>hc_value := ts\<rparr>) st)) n"
proof -
  let ?b = "unat (it_bits (hc_index hc))"
  have "next_index (stats_out (hc\<lparr>hc_value := ts\<rparr>) st) = next_index hc" by (simp add: next_index_def)
  moreover have "unat (vt_filled t) + n + 31 < 2 ^ (Suc ?b + 6)" if tin: "t \<in> set ts" for t
  proof -
    obtain i where i: "i < length ts" "t = ts ! i" using tin by (auto simp: in_set_conv_nth)
    then have "unat (vt_filled t) \<le> unat (vt_filled (hc_value hc ! i)) + n + 31" "hc_value hc ! i \<in> set (hc_value hc)"
      using assms(3) by (auto simp: grown_by_def list_all2_conv_all_nth)
    moreover from this(2) have "unat (vt_filled (hc_value hc ! i)) + n + 31 < 2 ^ (?b + 6)"
      using assms(1) by (simp add: slots_room_def)
    moreover have "(2 :: nat) ^ (Suc ?b + 6) = 2 * 2 ^ (?b + 6)" unfolding add_Suc power_Suc ..
    ultimately show ?thesis by linarith
  qed
  moreover have "unat (it_bits (next_index hc)) = Suc ?b" by (rule next_index_bits(1)[OF assms(2)])
  ultimately show ?thesis
    unfolding slots_room_def trigger_reindex_eq by (simp del: power_Suc add_Suc)
qed

lemma layout_single:
  assumes b: "valid_index_bits (it_bits it)" and k: "length k = 32"
    and t: "t < SIZE_TIERS" "off \<noteq> 0" "unat off < 2 ^ 56" "index_admits it (place_address t off)"
    and e: "sv_key e = Partial k" "unpack cd cp e = Inr v" and i: "i < CHUNK_ENTRIES"
  defines "ms0 \<equiv> (\<lambda>_. Map.empty)(t := [off \<mapsto> e])" and "E \<equiv> (\<lambda>_. replicate CHUNK_ENTRIES (Entry 0))"
  shows "layout it ms0 (E(key_home it k := (E (key_home it k))[i := key_entry it k (place_address t off)])) [k \<mapsto> (t, off, i)]"
    and "holds cd cp ms0 [k \<mapsto> (t, off, i)] [k \<mapsto> (v, sv_rc e)]"
proof -
  have l: "layout it (\<lambda>_. Map.empty) E Map.empty" using b by (simp add: layout_def E_def entry_is_empty_def)
  have "entry_is_empty (E (key_home it k) ! i)" using i by (simp add: E_def entry_is_empty_def)
  from layout_add[OF l _ k t(1) _ t(2,3) e(1) i this t(4)]
  show "layout it ms0 (E(key_home it k := (E (key_home it k))[i := key_entry it k (place_address t off)])) [k \<mapsto> (t, off, i)]"
    by (simp add: ms0_def)
  have "holds cd cp (\<lambda>_. Map.empty) Map.empty Map.empty" by (simp add: holds_def)
  from holds_put[OF this l e(2), of k t off i] show "holds cd cp ms0 [k \<mapsto> (t, off, i)] [k \<mapsto> (v, sv_rc e)]"
    by (simp add: ms0_def)
qed

text \<open>The second attempt, in a column with an empty index above the old one.\<close>

lemma write_plan_new_empty:
  assumes ti: "tiers_rep (hc_value hc) (writer_query w) ms" "tier_shape (hc_ref_counted hc) (hc_value hc)"
    and b: "valid_index_bits (it_bits (hc_index hc))" and cd: "codecs_ok cd" and k: "length k = 32"
    and room: "slots_room hc (length v)"
    and ir: "index_rep (hc_index hc) (writer_query w) (\<lambda>_. replicate CHUNK_ENTRIES (Entry 0))"
  shows "\<exists>ts st w' ms1 E1 loc1 ms'. write_plan_new cd k v hc w = Some (Inr (Written, stats_out (hc\<lparr>hc_value := ts\<rparr>) st, w')) \<and>
     (\<forall>t. ms t \<subseteq>\<^sub>m ms' t) \<and> wf_query (writer_query w') \<and>
     (\<forall>id' c. id' \<noteq> it_id (hc_index hc) \<longrightarrow> q_index (writer_query w') id' c = q_index (writer_query w) id' c) \<and>
     tiers_rep ts (writer_query w') ms' \<and> tier_shape (hc_ref_counted hc) ts \<and>
     index_inv cd (stats_out (hc\<lparr>hc_value := ts\<rparr>) st) (hc_index hc) (writer_query w') ms' ms1 E1 loc1 [k \<mapsto> (v, 1)]"
proof -
  let ?it = "hc_index hc" and ?E = "\<lambda>_ :: u64. replicate CHUNK_ENTRIES (Entry 0)"
  obtain t off sv c ts w1 st where nv: "write_new_value_plan cd (Partial k) (as_ref hc) v w (stats_in hc) =
        Some (Inr (place_address t off, ts, w1, st))" and a: "t < SIZE_TIERS" "off \<notin> dom (ms t)" "off \<noteq> 0"
        "unat off < 2 ^ 56" "index_admits ?it (place_address t off)"
      and u: "unpack cd (hc_compression hc) (fresh_entry (Partial k) sv c) = Inr v"
      and ts: "tiers_rep ts (writer_query w1) (ms(t := (ms t)(off \<mapsto> fresh_entry (Partial k) sv c)))"
        "tier_shape (hc_ref_counted hc) ts" and qi: "q_index (writer_query w1) = q_index (writer_query w)"
    using new_value_rep[OF ti b cd k room] by metis
  let ?e = "fresh_entry (Partial k) sv c" and ?a = "place_address t off"
  have "\<exists>e\<in>set (?E (key_home ?it k)). entry_is_empty e" by (simp add: entry_is_empty_def CHUNK_ENTRIES_def)
  then obtain i w2 where put: "i < CHUNK_ENTRIES" "index_write_insert_plan ?it k ?a None w1 = Inr (Written, w2)"
      "q_value (writer_query w2) = q_value (writer_query w1)"
      "index_rep ?it (writer_query w2) (?E(key_home ?it k := (?E (key_home ?it k))[i := key_entry ?it k ?a]))"
    using ix.put_room[OF index_rep_values[OF ir qi] a(5), of k] by metis
  have ts2: "tiers_rep ts (writer_query w2) (ms(t := (ms t)(off \<mapsto> ?e)))"
    using ts(1) tiers_rep_cong[of "writer_query w2" "writer_query w1" ts] put(3) by simp
  have "sv_key ?e = Partial k" by (simp add: fresh_entry_def)
  note ls = layout_single[OF b k a(1,3,4,5) this u put(1)]
  let ?hc = "stats_out (hc\<lparr>hc_value := ts\<rparr>) st"
  have cp: "hc_compression ?hc = hc_compression hc" by (simp add: stats_out_def split: option.split)
  have "index_inv cd ?hc ?it (writer_query w2) (ms(t := (ms t)(off \<mapsto> ?e))) ((\<lambda>_. Map.empty)(t := [off \<mapsto> ?e]))
      (?E(key_home ?it k := (?E (key_home ?it k))[i := key_entry ?it k ?a])) [k \<mapsto> (t, off, i)] [k \<mapsto> (v, 1)]"
    using ts2 ts(2) put(4) ls by (simp add: index_inv_def tier_shape_def cp map_le_def fresh_entry_def)
  moreover have "write_plan_new cd k v hc w = Some (Inr (Written, ?hc, w2))"
    using nv put(2) by (subst write_plan_new.simps) (simp add: Let_def)
  moreover have "ms t' \<subseteq>\<^sub>m (ms(t := (ms t)(off \<mapsto> ?e))) t'" for t' using a(2) by (auto simp: map_le_def)
  moreover have "wf_query (writer_query w2)" using put(4) by (simp add: index_rep_def)
  moreover have "q_index (writer_query w2) id' c' = q_index (writer_query w) id' c'" if "id' \<noteq> it_id ?it" for id' c'
    using index_put_other[OF put(2) that] qi by simp
  ultimately show ?thesis using ts2 ts(2) by blast
qed

lemma write_plan_new_grow:
  assumes inv: "col_inv cd hc (writer_query w) ms E loc M" and cd: "codecs_ok cd" and k: "length k = 32"
    and room: "slots_room hc (length v)" and full: "\<not> home_room hc (writer_query w) k"
    and grow: "can_grow hc (writer_query w)"
  shows "\<exists>hc' w'. write_plan_new cd k v hc w = Some (Inr (NeedReindex, hc', w')) \<and>
     hc_queue hc' = [hc_index hc] \<and> hc_index hc' = next_index hc \<and>
     (\<forall>k'. length k' = 32 \<longrightarrow> (\<exists>st. hash_get cd hc' k' (writer_query w') =
        Some (Inr (map_option fst ((M(k \<mapsto> (v, 1))) k'), hc'\<lparr>hc_stats := st\<rparr>))))"
proof -
  note p = col_inv_parts[OF inv] and b = col_inv_tables(4)[OF inv]
  obtain t off sv c ts w1 st where nv: "write_new_value_plan cd (Partial k) (as_ref hc) v w (stats_in hc) =
        Some (Inr (place_address t off, ts, w1, st))" and off: "off \<notin> dom (ms t)"
      and ts: "tiers_rep ts (writer_query w1) (ms(t := (ms t)(off \<mapsto> fresh_entry (Partial k) sv c)))"
        "tier_shape (hc_ref_counted hc) ts" and qi: "q_index (writer_query w1) = q_index (writer_query w)"
      and gb: "grown_by (length v) (hc_value hc) ts"
    using new_value_rep[OF p(3,7) b cd k room] by metis
  let ?ms = "ms(t := (ms t)(off \<mapsto> fresh_entry (Partial k) sv c))"
  note ir = index_rep_values[OF p(4) qi]
  have "\<forall>e\<in>set (E (key_home (hc_index hc) k)). \<not> entry_is_empty e" using full home_room_rep[OF p(4)] by simp
  from ix.full_law[OF ir this]
  have nr: "index_write_insert_plan (hc_index hc) k (place_address t off) None w1 = Inr (NeedReindex, w1)" .
  define h1 where "h1 = stats_out (hc\<lparr>hc_value := ts\<rparr>) st"
  define h2 where "h2 = trigger_reindex h1"
  have f1: "hc_index h1 = hc_index hc" "hc_queue h1 = []" "hc_ref_counted h1 = hc_ref_counted hc"
      "hc_compression h1 = hc_compression hc" "next_index h1 = next_index hc" "hc_value h1 = ts"
    using p(1) by (auto simp: h1_def stats_out_def next_index_def split: option.split)
  have f2: "hc_index h2 = next_index hc" "hc_queue h2 = [hc_index hc]" "hc_value h2 = ts"
      "hc_ref_counted h2 = hc_ref_counted hc" "hc_compression h2 = hc_compression hc"
    using f1 by (simp_all add: h2_def trigger_reindex_eq)
  have "can_grow hc (writer_query w1)" using grow qi by (simp add: can_grow_def)
  note nx = next_index_empty[OF this b] and nb = next_index_valid[OF this b]
  have wq: "wf_query (writer_query w1)" using ir by (simp add: index_rep_def)
  have bits: "unat (it_bits (hc_index hc)) < 49" using grow by (simp add: can_grow_def)
  have "slots_room h2 (length v)" unfolding h2_def h1_def by (rule slots_room_next[OF room bits gb])
  then obtain ts' st' w' ms1 E1 loc1 ms' where g:
      "write_plan_new cd k v h2 w1 = Some (Inr (Written, stats_out (h2\<lparr>hc_value := ts'\<rparr>) st', w'))"
      "\<And>t. ?ms t \<subseteq>\<^sub>m ms' t" "wf_query (writer_query w')"
      "\<And>id' c. id' \<noteq> it_id (next_index hc) \<Longrightarrow> q_index (writer_query w') id' c = q_index (writer_query w1) id' c"
      "tiers_rep ts' (writer_query w') ms'" "tier_shape (hc_ref_counted hc) ts'"
      "index_inv cd (stats_out (h2\<lparr>hc_value := ts'\<rparr>) st') (next_index hc) (writer_query w') ms' ms1 E1 loc1 [k \<mapsto> (v, 1)]"
    using write_plan_new_empty[of h2 w1 ?ms cd k v] ts cd k nx[OF wq] nb unfolding f2 by metis
  let ?h = "stats_out (h2\<lparr>hc_value := ts'\<rparr>) st'"
  have fh: "hc_index ?h = next_index hc" "hc_queue ?h = [hc_index hc]" "hc_value ?h = ts'"
      "hc_compression ?h = hc_compression hc"
    using f2 by (auto simp: stats_out_def split: option.split)
  have old: "index_rep (hc_index hc) (writer_query w') E"
    by (rule index_rep_cong[OF _ g(3) ir]) (use g(4) next_index_bits(2)[OF bits] in metis)
  have "ms t' \<subseteq>\<^sub>m ms' t'" for t'
    by (rule map_le_trans[OF _ g(2)[of t']]) (use off in \<open>auto simp: map_le_def\<close>)
  then have "index_inv cd ?h (hc_index hc) (writer_query w') ms' ms E loc M"
    using g(5,6) old p(5,6) unfolding index_inv_def fh by (simp add: tier_shape_def)
  from hash_get_two[OF g(7)[folded fh(1)] this fh(2)]
  have "\<exists>st. hash_get cd ?h k' (writer_query w') = Some (Inr (map_option fst ((M(k \<mapsto> (v, 1))) k'), ?h\<lparr>hc_stats := st\<rparr>))"
    if "length k' = 32" for k' using that by (simp only: map_add_upd map_add_empty)
  moreover have "write_plan_new cd k v hc w = Some (Inr (NeedReindex, ?h, w'))"
    using nv nr g(1) by (subst write_plan_new.simps) (simp add: Let_def cret_def flip: h1_def h2_def)
  ultimately show ?thesis using fh by blast
qed

end
