(* ===== verification/Table_Enact.thy ===== *)
theory Table_Enact
  imports Value_Store Log_Overlay
begin

text \<open>
  Enacting value records (\<open>enact_plan\<close>, \<open>validate_plan\<close> of \<^verbatim>\<open>src/src/table.rs\<close>): the growth loop
  ends, the bytes of a record are read back exactly as they were planned, and once a slot is
  written to the file its overlay entry can go without changing what the table stores.
\<close>

section \<open>Growing the file\<close>

text \<open>The capacity is exactly the number of whole slots of the file.\<close>

definition file_ok :: "u16 \<Rightarrow> tfile \<Rightarrow> bool" where
  "file_ok sz tf \<longleftrightarrow>
     (case tf_file tf of
        None \<Rightarrow> tf_capacity tf = 0
      | Some f \<Rightarrow> unat (tf_capacity tf) * unat sz \<le> flen f \<and>
          flen f < (unat (tf_capacity tf) + 1) * unat sz)"

definition grow_step :: "u16 \<Rightarrow> nat" where
  "grow_step sz = 262144 div unat sz"

lemma unat_grow_step: "unat (GROW_SIZE_BYTES div ucast sz :: u64) = grow_step sz"
  by (simp add: GROW_SIZE_BYTES_def unat_div grow_step_def)

definition keeps_file :: "os_file option \<Rightarrow> os_file option \<Rightarrow> bool" where
  "keeps_file f f' \<longleftrightarrow>
     (case f of None \<Rightarrow> True
      | Some g \<Rightarrow> (\<exists>h. f' = Some h \<and> flen g \<le> flen h \<and> (\<forall>i < flen g. fdata h i = fdata g i)))"

lemma keeps_file_refl [simp]: "keeps_file f f"
  by (auto simp: keeps_file_def split: option.splits)

lemma keeps_file_trans: "keeps_file f g \<Longrightarrow> keeps_file g h \<Longrightarrow> keeps_file f h"
  by (force simp: keeps_file_def split: option.splits)

lemma tfile_grow_ok:
  assumes ok: "file_ok sz tf" and sz: "0 < unat sz" "unat sz \<le> 0x7ff8"
    and room: "(unat (tf_capacity tf) + grow_step sz) * unat sz < 2 ^ 64"
  shows "\<exists>tf' f. tfile_grow tf sz = Inr tf' \<and> file_ok sz tf' \<and> tf_file tf' = Some f \<and>
     unat (tf_capacity tf') = unat (tf_capacity tf) + grow_step sz \<and>
     keeps_file (tf_file tf) (tf_file tf')"
proof -
  let ?cap = "tf_capacity tf + GROW_SIZE_BYTES div ucast sz"
  let ?f = "case tf_file tf of None \<Rightarrow> empty_file | Some f \<Rightarrow> f"
  let ?tf = "tf\<lparr>tf_capacity := ?cap, tf_file := Some (set_len ?f (unat (?cap * ucast sz)))\<rparr>"
  have st: "1 \<le> grow_step sz" using sz by (simp add: grow_step_def Suc_le_eq div_greater_zero_iff)
  have cap: "unat ?cap = unat (tf_capacity tf) + grow_step sz"
  proof -
    have "unat (tf_capacity tf) + grow_step sz \<le> (unat (tf_capacity tf) + grow_step sz) * unat sz"
      using sz by simp
    then have "unat (tf_capacity tf) + grow_step sz < 2 ^ 64" using room by linarith
    then show ?thesis unfolding unat_word_ariths(1) unat_grow_step by simp
  qed
  have len: "unat (?cap * ucast sz) = (unat (tf_capacity tf) + grow_step sz) * unat sz"
    using unat_capacity_mult[of ?cap sz] room by (simp add: cap)
  have "keeps_file (tf_file tf) (tf_file ?tf)"
  proof (cases "tf_file tf")
    case None
    then show ?thesis by (simp add: keeps_file_def)
  next
    case (Some f)
    have "flen f < (unat (tf_capacity tf) + 1) * unat sz"
      using ok Some by (simp add: file_ok_def)
    also have "\<dots> \<le> (unat (tf_capacity tf) + grow_step sz) * unat sz"
      using st by (intro mult_le_mono1) simp
    finally show ?thesis
      using Some by (simp add: keeps_file_def len) (simp add: set_len_def)
  qed
  moreover have "file_ok sz ?tf"
    using sz by (simp add: file_ok_def len cap)
  moreover have "tfile_grow tf sz = Inr ?tf"
    using sz by (auto simp: tfile_grow_def Let_def)
  ultimately show ?thesis using cap by auto
qed

lemma grow_until_ok:
  assumes sz: "0 < unat sz" "unat sz \<le> 0x7ff8"
  shows "file_ok sz tf \<Longrightarrow> (unat index + 1) * unat sz + 262144 < 2 ^ 64 \<Longrightarrow>
     unat (tf_capacity tf) * unat sz < 2 ^ 64 \<Longrightarrow>
     \<exists>tf'. grow_until sz index tf = Some (Inr tf') \<and> file_ok sz tf' \<and>
       index < tf_capacity tf' \<and> (\<exists>f. tf_file tf' = Some f) \<and> keeps_file (tf_file tf) (tf_file tf')"
proof (induction "unat index + 1 - unat (tf_capacity tf)" arbitrary: tf rule: less_induct)
  case less
  show ?case
  proof (cases "tf_capacity tf \<le> index")
    case False
    then have "0 < tf_capacity tf" by (metis not_le word_le_0_iff word_gt_0 word_zero_le)
    then have "\<exists>f. tf_file tf = Some f"
      using less.prems(1) by (cases "tf_file tf") (auto simp: file_ok_def)
    then show ?thesis
      using False less.prems(1) by (subst grow_until.simps) (auto simp: not_le)
  next
    case True
    then have c: "unat (tf_capacity tf) \<le> unat index" by (simp add: word_le_nat_alt)
    have gs: "grow_step sz * unat sz \<le> 262144" "1 \<le> grow_step sz"
      using sz by (simp_all add: grow_step_def Suc_le_eq div_greater_zero_iff)
    have "(unat (tf_capacity tf) + grow_step sz) * unat sz \<le> unat index * unat sz + 262144"
      unfolding add_mult_distrib using c gs by (intro add_mono mult_le_mono1) auto
    then have room: "(unat (tf_capacity tf) + grow_step sz) * unat sz < 2 ^ 64"
      using less.prems(2) by simp
    obtain tf1 f where g: "tfile_grow tf sz = Inr tf1" "file_ok sz tf1" "tf_file tf1 = Some f"
        "unat (tf_capacity tf1) = unat (tf_capacity tf) + grow_step sz"
        "keeps_file (tf_file tf) (tf_file tf1)"
      using tfile_grow_ok[OF less.prems(1) sz room] by blast
    have "unat index + 1 - unat (tf_capacity tf1) < unat index + 1 - unat (tf_capacity tf)"
      using g(4) gs(2) c by simp
    then obtain tf' where "grow_until sz index tf1 = Some (Inr tf')" "file_ok sz tf'"
        "index < tf_capacity tf'" "\<exists>f. tf_file tf' = Some f" "keeps_file (tf_file tf1) (tf_file tf')"
      using less.hyps[OF _ g(2) less.prems(2)] room g(4) by auto
    moreover have "grow_until sz index tf = grow_until sz index tf1"
      using True g(1) by (subst grow_until.simps) simp
    ultimately show ?thesis
      using keeps_file_trans[OF g(5)] by auto
  qed
qed

section \<open>Reading a record back\<close>

lemma read_value_record_exact:
  assumes wf: "wf_table t" and v: "valid_record t i d" and at: "reader_at r (d @ rest)"
  shows "read_value_record t i r = Inr (d, advance d r)"
proof (cases "i = 0")
  case True
  then show ?thesis
    using v reader_read_at[OF at, of 16] by (simp add: read_value_record_def valid_record_def)
next
  case False
  note bd = wf_table_bounds[OF wf]
  have split: "read_value_record t i r = Inr (d, advance d r)"
    if d: "d = h @ x" and h: "length h = 2"
      and n: "(if is_tombstone (ebuf_new h) then Inr INDEX_SIZE
          else if vt_multipart t \<and> is_multi (vt_db_version t) (ebuf_new h) then Inr (es t - SIZE_SIZE)
          else rbind (read_size (ebuf_new h)) (\<lambda>((len, _), _).
                 if SIZE_SIZE + unat len \<le> MAX_ENTRY_BUF_SIZE then Inr (unat len) else Inl Panic))
        = Inr (length x)" for h x
  proof -
    have a1: "reader_at r (h @ x @ rest)" using at d by simp
    note a2 = reader_at_advance(1)[OF a1]
    show ?thesis
      using False reader_read_at[OF a1, of 2] reader_read_at[OF a2 refl] h n
      by (simp add: read_value_record_def SIZE_SIZE_def Let_def d advance_append)
  qed
  consider (tomb) n where "d = tomb n"
    | (multi) f c j X where "vt_multipart t" "length d = es t" "d = head_marker f c @ le64 j @ X"
    | (plain) c X where "d = size_bytes (length X) c @ X" "length X \<le> es t - 2"
    using v False by (auto simp: valid_record_def)
  then show ?thesis
  proof cases
    case tomb
    then show ?thesis
      by (intro split[of TOMBSTONE "le64 n"])
        (auto simp: tomb_def TOMBSTONE_def is_tombstone_def ebuf_is_def ebuf_new_def SIZE_SIZE_def INDEX_SIZE_def)
  next
    case multi
    have "take 2 (edata (ebuf_new (head_marker f c))) = head_marker f c" by (simp add: ebuf_new_def)
    note m = marker_recognised(1,2)[OF this]
    show ?thesis
      by (rule split[of "head_marker f c" "le64 j @ X"]) (use multi m in \<open>auto simp: SIZE_SIZE_def\<close>)
  next
    case plain
    let ?n = "length X" and ?b = "ebuf_new (size_bytes (length X) c)"
    have t2: "take 2 (edata ?b) = size_bytes ?n c" by (simp add: ebuf_new_def)
    have nm: "?n \<le> MAX_ENTRY_SIZE" "?n \<le> 0x7ff8" using plain(2) bd(2) by (auto simp: MAX_ENTRY_SIZE_def)
    have mp: "\<not> (vt_multipart t \<and> is_multi (vt_db_version t) ?b)"
      using size_recognised(2)[OF t2 nm(1)] plain(2) bd(3) by auto
    have "read_slice ?b 2 = Inr (size_bytes ?n c, ?b\<lparr>eoff := 2\<rparr>)"
      by (simp add: read_slice_def ebuf_new_def)
    then show ?thesis
      using plain size_recognised(1)[OF t2 nm(1)] mp size_bytes_decode(1)[OF nm(1), of c] nm(2)
      by (intro split[of "size_bytes ?n c" X])
        (auto simp: read_size_def SIZE_SIZE_def Let_def unat_of_nat_u16 MAX_ENTRY_BUF_SIZE_def)
  qed
qed

lemma valid_record_length:
  "wf_table t \<Longrightarrow> valid_record t i d \<Longrightarrow> length d \<le> es t"
  using wf_table_bounds(1)[of t] by (auto simp: valid_record_def split: if_splits)

section \<open>Enacting keeps what is stored\<close>

definition same_but_file :: "value_table \<Rightarrow> value_table \<Rightarrow> bool" where
  "same_but_file t t' \<longleftrightarrow> t' = t\<lparr>vt_file := vt_file t'\<rparr>"

lemma same_but_file_fields:
  assumes "same_but_file t t'"
  shows "vt_id t' = vt_id t" and "vt_entry_size t' = vt_entry_size t"
    and "vt_multipart t' = vt_multipart t" and "vt_ref_counted t' = vt_ref_counted t"
    and "vt_filled t' = vt_filled t" and "vt_last_removed t' = vt_last_removed t"
    and "wf_table t' = wf_table t" and "entry_stream t' = entry_stream t"
proof -
  obtain f where t': "t' = t\<lparr>vt_file := f\<rparr>" using assms unfolding same_but_file_def by metis
  show "vt_id t' = vt_id t" and "vt_entry_size t' = vt_entry_size t"
    and "vt_multipart t' = vt_multipart t" and "vt_ref_counted t' = vt_ref_counted t"
    and "vt_filled t' = vt_filled t" and "vt_last_removed t' = vt_last_removed t"
    and "wf_table t' = wf_table t" and "entry_stream t' = entry_stream t"
    by (simp_all add: t' wf_table_def entry_stream_def entry_head_def fun_eq_iff)
qed

lemma represents_mono:
  assumes rep: "represents t q m" and sf: "same_but_file t t'"
    and sl: "\<And>i bs. slot_has t q i bs \<Longrightarrow> i \<noteq> 0 \<Longrightarrow> i < vt_filled t \<Longrightarrow> slot_has t' q' i bs"
  shows "represents t' q' m"
proof -
  obtain ch fl where wf: "wf_table t" and ch: "chains_ok t q m ch"
    and inv: "alloc_inv t q fl (slots_of ch (dom m))"
    using rep unfolding represents_def by blast
  note f = same_but_file_fields[OF sf]
  have rng: "i \<noteq> 0 \<and> i < vt_filled t" if "i \<in> set fl \<union> slots_of ch (dom m)" for i
  proof -
    have "i \<in> {i. 1 \<le> i \<and> i < vt_filled t}" using inv that unfolding alloc_inv_def by blast
    then show ?thesis by auto
  qed
  have st: "stores t' q' first c is S" if "stores t q first c is S" "set is \<subseteq> slots_of ch (dom m)"
    for first c "is" S
    using that
  proof (induction "is" arbitrary: first S)
    case (Cons i js)
    then have "i \<noteq> 0 \<and> i < vt_filled t" by (intro rng) auto
    then show ?case
      using Cons Cons.IH[of False "drop (es t - 10) S"] by (cases js) (auto simp: f intro!: sl)
  qed simp
  have "linked t' q' xs" if "linked t q xs" "set xs \<subseteq> set fl" for xs
    using that
  proof (induction xs)
    case (Cons i xs)
    then have "i \<noteq> 0 \<and> i < vt_filled t" by (intro rng) auto
    then show ?case using Cons by (auto intro!: sl)
  qed simp
  then have "alloc_inv t' q' fl (slots_of ch (dom m))"
    using inv by (simp add: alloc_inv_def f)
  moreover have "chain_ok t' q' i (ch i) e" if "m i = Some e" for i e
  proof -
    have "set (i # ch i) \<subseteq> slots_of ch (dom m)" using that by (auto simp: slots_of_def)
    then show ?thesis
      using ch that st[of True "sv_compressed e" "i # ch i" "entry_stream t e"]
      unfolding chains_ok_def chain_ok_def by (simp add: f)
  qed
  then have "chains_ok t' q' m ch" using ch unfolding chains_ok_def by blast
  ultimately show ?thesis
    unfolding represents_def using wf f(7) by blast
qed

text \<open>The query after the overlay entry of slot \<open>i\<close> is retired.\<close>

definition without_slot :: "log_query \<Rightarrow> value_table_id \<Rightarrow> u64 \<Rightarrow> log_query" where
  "without_slot q id' i = q\<lparr>q_value := (\<lambda>t j. if t = id' \<and> j = i then None else q_value q t j)\<rparr>"

lemma unat_slot_offset:
  "(unat i + 1) * es t < 2 ^ 64 \<Longrightarrow> unat (slot_offset t i) = unat i * es t"
  by (simp add: slot_offset_def unat_capacity_mult)

lemma pread_keeps:
  assumes "keeps_file (Some f) (Some g)" and "off + n \<le> flen f"
  shows "pread g off n = pread f off n"
  using assms by (auto simp: keeps_file_def pread_def)

lemma enact_represents:
  assumes rep: "represents t q m" and ok: "file_ok (vt_entry_size t) (vt_file t)"
    and q: "q_value q (vt_id t) i = Some d" and v: "valid_record t i d"
    and at: "reader_at r (d @ rest)"
    and sm: "(unat (vt_filled t) + 1) * es t + 262144 < 2 ^ 64" "i < vt_filled t"
      "unat (tf_capacity (vt_file t)) * es t < 2 ^ 64"
  shows "\<exists>t'. table_enact_plan t i r = Some (Inr (t', advance d r)) \<and> same_but_file t t' \<and>
     file_ok (vt_entry_size t') (vt_file t') \<and>
     represents t' q m \<and> represents t' (without_slot q (vt_id t) i) m"
proof -
  have wf: "wf_table t" using rep by (simp add: represents_def)
  note bd = wf_table_bounds[OF wf]
  have small: "(unat j + 1) * es t < 2 ^ 64 \<and> (unat j + 1) * es t + 262144 < 2 ^ 64"
    if "j < vt_filled t" for j
  proof -
    have "(unat j + 1) * es t \<le> (unat (vt_filled t) + 1) * es t"
      using that by (intro mult_le_mono1) (simp add: word_less_nat_alt)
    then show ?thesis using sm(1) by linarith
  qed
  obtain tf f where g: "grow_until (vt_entry_size t) i (vt_file t) = Some (Inr tf)"
      "file_ok (vt_entry_size t) tf" "i < tf_capacity tf" "tf_file tf = Some f"
      "keeps_file (tf_file (vt_file t)) (tf_file tf)"
    using grow_until_ok[OF _ bd(2) ok _ sm(3), of i] small[OF sm(2)] bd(1) by auto
  let ?f = "write_all_at f (unat (slot_offset t i)) d"
  let ?t = "t\<lparr>vt_file := tf\<lparr>tf_dirty := True, tf_file := Some ?f\<rparr>\<rparr>"
  have off: "unat (slot_offset t j) = unat j * es t" if "j < vt_filled t" for j
    using unat_slot_offset small[OF that] by blast
  have fl: "unat i * es t + es t \<le> flen f"
  proof -
    have "(unat i + 1) * es t \<le> unat (tf_capacity tf) * es t"
      using g(3) by (intro mult_le_mono1) (simp add: word_less_nat_alt Suc_le_eq)
    then show ?thesis using g(2,4) by (simp add: file_ok_def)
  qed
  have ld: "length d \<le> es t" by (rule valid_record_length[OF wf v])
  have en: "table_enact_plan t i r = Some (Inr (?t, advance d r))"
    using g(1,4) read_value_record_exact[OF wf v at]
    by (simp add: table_enact_plan_def tfile_write_at_def cret_def)
  have sf: "same_but_file t ?t" by (simp add: same_but_file_def)
  have fok: "file_ok (vt_entry_size ?t) (vt_file ?t)"
    using g(2,4) fl ld off[OF sm(2)] by (simp add: file_ok_def)
  have other: "slot_has ?t q' j bs"
    if o: "slot_has t q j bs" "j \<noteq> i" "j < vt_filled t"
      "q_value q' (vt_id t) j = q_value q (vt_id t) j" for q' j bs
  proof (cases "q_value q (vt_id t) j")
    case None
    then obtain f0 where f0: "tf_file (vt_file t) = Some f0" "unat j * es t + es t \<le> flen f0"
        "pread f0 (unat j * es t) (length bs) = bs" "length bs \<le> es t"
      using o off[OF o(3)] by (auto simp: slot_has_def split: option.splits)
    have kf: "keeps_file (Some f0) (Some f)" using g(4,5) f0(1) by simp
    have le: "unat j * es t + es t \<le> flen f" using kf f0(2) by (auto simp: keeps_file_def)
    have "unat j \<noteq> unat i" using o(2) by (simp add: word_unat_eq_iff)
    then have "unat j * es t + es t \<le> unat i * es t \<or> unat i * es t + es t \<le> unat j * es t"
      using mult_le_mono1[of "unat j + 1" "unat i" "es t"] mult_le_mono1[of "unat i + 1" "unat j" "es t"]
      by (cases "unat j < unat i") auto
    then have "pread ?f (unat j * es t) (length bs) = pread f (unat j * es t) (length bs)"
      unfolding off[OF sm(2)] using ld f0(4) le by (intro pread_write_other) auto
    also have "\<dots> = bs"
      using pread_keeps[OF kf, of "unat j * es t" "length bs"] f0 by simp
    finally have p: "pread ?f (unat j * es t) (length bs) = bs" .
    have "slot_offset ?t j = slot_offset t j" by (simp add: slot_offset_def)
    then show ?thesis
      using None o(4) p le f0(4) off[OF o(3)] by (simp add: slot_has_def)
  next
    case (Some d')
    then show ?thesis using o by (simp add: slot_has_def)
  qed
  have here: "slot_has ?t q i bs \<and> slot_has ?t (without_slot q (vt_id t) i) i bs"
    if s: "slot_has t q i bs" for bs
  proof -
    have b: "length bs \<le> length d" "take (length bs) d = bs" "length bs \<le> es t"
      using s q by (auto simp: slot_has_def)
    have "pread ?f (unat (slot_offset t i)) (length bs) = take (length bs) (pread ?f (unat (slot_offset t i)) (length d))"
      using b(1) by (simp add: take_pread)
    also have "\<dots> = bs" using b(2) by (simp add: pread_write_same)
    finally have p: "pread ?f (unat (slot_offset t i)) (length bs) = bs" .
    have "slot_offset ?t i = slot_offset t i" by (simp add: slot_offset_def)
    then show ?thesis
      using p b q ld fl off[OF sm(2)] by (simp add: slot_has_def without_slot_def)
  qed
  have "represents ?t q m"
    by (rule represents_mono[OF rep sf]) (use here other[of _ _ q] in \<open>metis\<close>)
  moreover have "represents ?t (without_slot q (vt_id t) i) m"
  proof (rule represents_mono[OF rep sf])
    fix j bs assume "slot_has t q j bs" "j \<noteq> 0" "j < vt_filled t"
    then show "slot_has ?t (without_slot q (vt_id t) i) j bs"
      using here other[of j bs "without_slot q (vt_id t) i"]
      by (cases "j = i") (auto simp: without_slot_def)
  qed
  ultimately show ?thesis using en sf fok by blast
qed

end
