(* ===== verification/Sample_States.thy ===== *)
theory Sample_States
  imports Table_Enact Index_Props
begin

text \<open>
  Concrete states on which the properties are instantiated: an empty value table, one that holds
  a single value in the log overlay, and a fresh hash index of the smallest size.
\<close>

section \<open>Value tables\<close>

definition sample_id :: value_table_id where "sample_id = value_id_new 0 0"

definition empty_table :: "bool \<Rightarrow> value_table" where
  "empty_table rc = \<lparr>vt_id = sample_id, vt_entry_size = 32,
     vt_file = \<lparr>tf_file = None, tf_capacity = 0, tf_dirty = False\<rparr>, vt_filled = 1,
     vt_last_removed = 0, vt_dirty_header = False, vt_multipart = False, vt_ref_counted = rc,
     vt_db_version = 7\<rparr>"

definition empty_writer :: log_writer where
  "empty_writer = log_writer_new empty_overlays 1"

lemma empty_table_open: "table_open None sample_id (Some 32) rc 7 = Inr (empty_table rc)"
  by (simp add: table_open_def tfile_open_def empty_table_def MIN_ENTRY_SIZE_def MAX_ENTRY_SIZE_def)

lemma wf_empty_table [simp]: "wf_table (empty_table rc)"
  by (simp add: wf_table_def empty_table_def MIN_ENTRY_SIZE_def MAX_ENTRY_SIZE_def)

lemma represents_empty_table: "represents (empty_table rc) q Map.empty"
  unfolding represents_def
  by (intro conjI exI[of _ "\<lambda>_. []"] exI[of _ "[]"])
    (auto simp: chains_ok_def alloc_inv_def slots_of_def empty_table_def wf_table_def
      MIN_ENTRY_SIZE_def MAX_ENTRY_SIZE_def)

lemma admits_empty_table: "table_admits (empty_table rc) NoHash [1, 2, 3]"
  by (simp add: table_admits_def fits_def room_def empty_table_def ref_size_def REFS_SIZE_def
      key_encoded_size_def)

text \<open>Slot 1 holds the bytes 1, 2, 3 with a counter of 1.\<close>

definition one_table :: "bool \<Rightarrow> value_table" where
  "one_table rc = (empty_table rc)\<lparr>vt_filled := 2\<rparr>"

definition one_entry :: stored where
  "one_entry = fresh_entry NoHash [1, 2, 3] False"

definition one_record :: "bool \<Rightarrow> bytes" where
  "one_record rc = size_bytes (length (entry_stream (empty_table rc) one_entry)) False
     @ entry_stream (empty_table rc) one_entry"

definition one_writer :: "bool \<Rightarrow> log_writer" where
  "one_writer rc = insert_value empty_writer sample_id 1 (one_record rc)"

lemma entry_stream_one:
  "length (entry_stream (empty_table rc) one_entry) \<le> 7"
  "entry_stream (one_table rc) one_entry = entry_stream (empty_table rc) one_entry"
  by (auto simp: entry_stream_def entry_head_def one_entry_def fresh_entry_def key_bytes_def
      empty_table_def one_table_def)

lemma one_query: "q_value (writer_query (one_writer rc)) sample_id 1 = Some (one_record rc)"
  by (simp add: one_writer_def writer_query_insert_value)

lemma one_valid: "valid_record (one_table rc) 1 (one_record rc)"
  using entry_stream_one(1)[of rc]
  by (auto simp: valid_record_def one_record_def one_table_def empty_table_def)

lemma represents_one_table:
  "represents (one_table rc) (writer_query (one_writer rc)) [1 \<mapsto> one_entry]"
proof -
  have one: "{i :: u64. 1 \<le> i \<and> i < 2} = {1}"
    by (auto simp: word_le_nat_alt word_less_nat_alt word_unat_eq_iff)
  have es: "es (one_table rc) = 32" by (simp add: one_table_def empty_table_def)
  have "slot_has (one_table rc) (writer_query (one_writer rc)) 1 (one_record rc)"
    by (rule slot_has_written) (use one_query entry_stream_one(1)[of rc] in
        \<open>auto simp: one_table_def empty_table_def one_record_def\<close>)
  then have "chain_ok (one_table rc) (writer_query (one_writer rc)) 1 [] one_entry"
    using entry_stream_one[of rc] es
    by (simp add: chain_ok_def one_record_def) (simp add: one_entry_def fresh_entry_def wf_key_def)
  then show ?thesis
    unfolding represents_def
    by (intro conjI exI[of _ "\<lambda>_. []"] exI[of _ "[]"])
      (auto simp: chains_ok_def alloc_inv_def slots_of_def one_table_def empty_table_def one wf_table_def
        MIN_ENTRY_SIZE_def MAX_ENTRY_SIZE_def)
qed

lemma admits_one_table: "table_admits (one_table rc) NoHash [4, 5]"
  by (simp add: table_admits_def fits_def room_def one_table_def empty_table_def ref_size_def
      REFS_SIZE_def key_encoded_size_def)

section \<open>Hash indexes\<close>

definition empty_index :: index_table where
  "empty_index = index_create_new False (index_id_new 0 16)"

definition sample_key :: bytes where
  "sample_key = map of_nat [1..<33]"

lemma wf_empty_index [simp]: "wf_index empty_index"
  by (simp add: wf_index_def empty_index_def index_create_new_def valid_index_bits_def)

lemma wf_empty_query [simp]: "wf_query (writer_query empty_writer)"
  by (simp add: wf_query_def writer_query_def empty_writer_def log_writer_new_def log_change_new_def
      empty_overlays_def index_lookup_def)

lemma empty_index_entries:
  "index_entries empty_index ci (writer_query empty_writer) = Inr (replicate CHUNK_ENTRIES (Entry 0))"
proof -
  have "transmute_chunk EMPTY_CHUNK = replicate CHUNK_ENTRIES (Entry 0)"
    by (rule nth_equalityI) auto
  then show ?thesis
    by (simp add: index_entries_def empty_index_def index_create_new_def writer_query_def
        empty_writer_def log_writer_new_def log_change_new_def empty_overlays_def index_lookup_def)
qed

end
