(* ===== verification/Column_Correct.thy ===== *)
theory Column_Correct
  imports Column_Grow Sample_States
begin

text \<open>
  The properties of hash columns (\<^verbatim>\<open>src/src/column.rs\<close>), stated over their operations.
\<close>

section \<open>A column without files\<close>

definition new_table :: "u8 \<Rightarrow> column_options \<Rightarrow> u32 \<Rightarrow> nat \<Rightarrow> value_table" where
  "new_table col co version i = \<lparr>vt_id = value_id_new col (of_nat i),
     vt_entry_size = (if i < length SIZES then SIZES ! i else 4096),
     vt_file = \<lparr>tf_file = None, tf_capacity = 0, tf_dirty = False\<rparr>, vt_filled = 1, vt_last_removed = 0,
     vt_dirty_header = False, vt_multipart = (length SIZES \<le> i), vt_ref_counted = co_ref_counted co,
     vt_db_version = version\<rparr>"

lemma length_SIZES: "length SIZES = 255"
  by (simp add: SIZES_def)

lemma SIZES_bounds: "s \<in> set SIZES \<Longrightarrow> 32 \<le> s \<and> s \<le> 32760"
proof -
  have "\<forall>s\<in>set SIZES. 32 \<le> s \<and> s \<le> 32760" unfolding SIZES_def by simp
  then show "s \<in> set SIZES \<Longrightarrow> 32 \<le> s \<and> s \<le> 32760" by blast
qed

lemma open_new_table:
  assumes "i < SIZE_TIERS"
  shows "open_table (\<lambda>_. None) col (of_nat i) co version = Inr (new_table col co version i)"
proof -
  have u: "unat (of_nat i :: u8) = i" using assms by (simp add: unat_of_nat SIZE_TIERS_def)
  have "32 \<le> SIZES ! i \<and> SIZES ! i \<le> 32760" if "i < length SIZES"
    using SIZES_bounds[of "SIZES ! i"] that by simp
  then show ?thesis
    by (auto simp: open_table_def table_open_def u new_table_def MIN_ENTRY_SIZE_def MAX_ENTRY_SIZE_def
        rassert_def tfile_open_def Let_def)
qed

lemma open_new_tables:
  "\<forall>i\<in>set is. i < SIZE_TIERS \<Longrightarrow>
     open_tables (\<lambda>_. None) col is co version = Inr (map (new_table col co version) is)"
  by (induction "is") (simp_all add: open_new_table)

lemma wf_new_table: "i < SIZE_TIERS \<Longrightarrow> wf_table (new_table col co version i)"
  using SIZES_bounds[of "SIZES ! i"]
  by (auto simp: wf_table_def new_table_def MIN_ENTRY_SIZE_def MAX_ENTRY_SIZE_def word_le_nat_alt)

lemma represents_new_table:
  "i < SIZE_TIERS \<Longrightarrow> represents (new_table col co version i) q Map.empty"
  using wf_new_table[of i col co version]
  unfolding represents_def
  by (intro conjI exI[of _ "\<lambda>_. []"] exI[of _ "[]"])
    (auto simp: chains_ok_def alloc_inv_def slots_of_def new_table_def)

lemma value_id_tier_inj: "i < SIZE_TIERS \<Longrightarrow> j < SIZE_TIERS \<Longrightarrow>
    value_id_new col (of_nat i) = value_id_new col (of_nat j) \<Longrightarrow> i = j"
proof -
  assume b: "i < SIZE_TIERS" "j < SIZE_TIERS" and eq: "value_id_new col (of_nat i) = value_id_new col (of_nat j)"
  have "(of_nat i :: u8) = of_nat j"
    using arg_cong[OF eq, of value_id_size_tier] by simp
  then have "unat (of_nat i :: u8) = unat (of_nat j :: u8)" by simp
  then show "i = j" using b by (simp add: unat_of_nat SIZE_TIERS_def)
qed

lemma open_index_new:
  "open_index (\<lambda>_. None) col = Inr (index_create_new False (index_id_new col MIN_INDEX_BITS), [], stats_empty)"
proof -
  have "open_index_loop (\<lambda>_. None) col bs tp re st = Inr (tp, re, st)" for bs tp re st
    by (induction bs) (simp_all add: index_open_existing_def)
  then show ?thesis by (simp add: open_index_def)
qed

definition new_column :: "u8 \<Rightarrow> options \<Rightarrow> metadata \<Rightarrow> hash_column" where
  "new_column col options metadata =
     (let co = md_columns metadata ! unat col
      in \<lparr>hc_col = col, hc_index = index_create_new False (index_id_new col MIN_INDEX_BITS),
          hc_value = map (new_table col co (md_version metadata)) [0..<SIZE_TIERS], hc_queue = [],
          hc_progress = 0, hc_preimage = co_preimage co, hc_uniform_keys = co_uniform co,
          hc_collect_stats = op_stats options, hc_ref_counted = co_ref_counted co,
          hc_salt = md_salt metadata, hc_stats = stats_empty,
          hc_compression = compress_new (co_compression co) (co_compression_threshold co),
          hc_db_version = md_version metadata\<rparr>)"

lemma column_open_new:
  "unat col < length (md_columns metadata) \<Longrightarrow>
     column_open_hash (\<lambda>_. None) (\<lambda>_. None) col options metadata = Inr (new_column col options metadata)"
  by (simp add: column_open_hash_def open_new_tables hash_open_def open_index_new new_column_def Let_def)

lemma new_column_index:
  assumes "\<And>i. q_index q (index_id_new col MIN_INDEX_BITS) i = None"
  shows "index_entries (hc_index (new_column col options metadata)) c q = Inr (replicate CHUNK_ENTRIES (Entry 0))"
proof -
  have "transmute_chunk EMPTY_CHUNK = replicate CHUNK_ENTRIES (Entry 0)"
    by (rule nth_equalityI) simp_all
  then show ?thesis
    using assms by (simp add: new_column_def Let_def index_create_new_def index_entries_def)
qed

text \<open>The tables of a new column, of any kind.\<close>

definition new_tables :: "u8 \<Rightarrow> column_options \<Rightarrow> u32 \<Rightarrow> value_table list" where
  "new_tables col co version = map (new_table col co version) [0..<SIZE_TIERS]"

lemma new_tables_rep:
  shows "tiers_rep (new_tables col co version) q (\<lambda>_. Map.empty)" and "tier_shape (co_ref_counted co) (new_tables col co version)"
proof -
  have "inj_on (\<lambda>i. vt_id (new_table col co version i)) {0..<SIZE_TIERS}"
    using value_id_tier_inj by (auto simp: inj_on_def new_table_def)
  then show "tiers_rep (new_tables col co version) q (\<lambda>_. Map.empty)"
    by (auto simp: tiers_rep_def new_tables_def distinct_map o_def represents_new_table)
  show "tier_shape (co_ref_counted co) (new_tables col co version)"
    by (auto simp: tier_shape_def new_tables_def new_table_def length_SIZES SIZE_TIERS_def)
qed

lemma col_rep_new:
  assumes q: "\<And>i. q_index q (index_id_new col MIN_INDEX_BITS) i = None" "wf_query q"
  shows "col_rep cd (new_column col options metadata) q Map.empty"
proof (rule col_repI)
  let ?hc = "new_column col options metadata" and ?E = "\<lambda>_. replicate CHUNK_ENTRIES (Entry 0)"
  let ?co = "md_columns metadata ! unat col"
  have v: "hc_value ?hc = new_tables col ?co (md_version metadata)"
    and i: "hc_index ?hc = index_create_new False (index_id_new col MIN_INDEX_BITS)"
    and rc: "hc_ref_counted ?hc = co_ref_counted ?co" and qu: "hc_queue ?hc = []"
    by (simp_all add: new_column_def new_tables_def Let_def)
  have b: "valid_index_bits (it_bits (hc_index ?hc))"
    by (simp add: i index_create_new_def MIN_INDEX_BITS_def valid_index_bits_def)
  have "tiers_rep (hc_value ?hc) q (\<lambda>_. Map.empty)" "tier_shape (hc_ref_counted ?hc) (hc_value ?hc)"
    unfolding v rc by (rule new_tables_rep)+
  moreover have "index_rep (hc_index ?hc) q ?E"
    using new_column_index[OF q(1)] q(2) b by (simp add: index_rep_def wf_index_def) (simp add: i index_create_new_def)
  moreover have "layout (hc_index ?hc) (\<lambda>_. Map.empty) ?E Map.empty"
    using b by (simp add: layout_def entry_is_empty_def)
  moreover have "holds cd (hc_compression ?hc) (\<lambda>_. Map.empty) Map.empty Map.empty"
    by (simp add: holds_def)
  ultimately show "col_inv cd ?hc q (\<lambda>_. Map.empty) ?E Map.empty Map.empty"
    using qu by (simp add: col_inv_def)
qed

lemma empty_query: "q_index (writer_query (log_writer_new empty_overlays rid)) t i = None"
    "wf_query (writer_query (log_writer_new empty_overlays rid))"
  by (simp_all add: wf_query_def writer_query_def log_writer_new_def log_change_new_def empty_overlays_def
      index_lookup_def)

definition no_codec :: codecs where
  "no_codec = \<lparr>lz4_compress = id, lz4_decompress = Some, snappy_compress = id, snappy_decompress = Some\<rparr>"

lemma no_codec_ok: "codecs_ok no_codec"
  by (simp add: codecs_ok_def no_codec_def)

text \<open>What lookups return before and after one key of the stored map changed.\<close>

lemma hash_get_update:
  assumes "col_rep cd hc q M" and "col_rep cd hc' q' (M(k := x))" and "map_option fst x = y"
  shows "\<forall>k'. length k' = 32 \<longrightarrow> (\<exists>r hc1 hc2. hash_get cd hc k' q = Some (Inr (r, hc1)) \<and>
     hash_get cd hc' k' q' = Some (Inr (if k' = k then y else r, hc2)))"
proof (intro allI impI)
  fix k' :: bytes assume "length k' = 32"
  then obtain st st' where "hash_get cd hc k' q = Some (Inr (map_option fst (M k'), hc\<lparr>hc_stats := st\<rparr>))"
      "hash_get cd hc' k' q' = Some (Inr (map_option fst ((M(k := x)) k'), hc'\<lparr>hc_stats := st'\<rparr>))"
    using hash_get_rep[OF assms(1)] hash_get_rep[OF assms(2)] by blast
  with assms(3) show "\<exists>r hc1 hc2. hash_get cd hc k' q = Some (Inr (r, hc1)) \<and>
     hash_get cd hc' k' q' = Some (Inr (if k' = k then y else r, hc2))" by auto
qed

section \<open>Properties\<close>

text \<open>
  C22: A column opened on a directory without files answers every lookup with nothing, and it
  represents the empty map for the first record that is planned on it.
\<close>

theorem column_open_empty:
  assumes "unat col < length (md_columns metadata)"
  shows "\<exists>hc. column_open_hash (\<lambda>_. None) (\<lambda>_. None) col options metadata = Inr hc \<and>
     col_rep cd hc (writer_query (log_writer_new empty_overlays rid)) Map.empty \<and>
     (\<forall>k. length k = 32 \<longrightarrow> (\<exists>hc'. hash_get cd hc k (overlays_query empty_overlays) = Some (Inr (None, hc'))))"
proof -
  have q: "q_index (overlays_query empty_overlays) t i = None" "wf_query (overlays_query empty_overlays)" for t i
    by (simp_all add: wf_query_def overlays_query_def empty_overlays_def index_lookup_def)
  have "\<exists>hc'. hash_get cd (new_column col options metadata) k (overlays_query empty_overlays) = Some (Inr (None, hc'))"
    if "length k = 32" for k
    using hash_get_rep[OF col_rep_new[OF q(1,2)] that] by fastforce
  then show ?thesis using column_open_new[OF assms] col_rep_new[OF empty_query] by blast
qed

definition sample_metadata :: metadata where
  "sample_metadata = \<lparr>md_salt = replicate 32 0, md_version = 7, md_columns = [column_options_default]\<rparr>"

theorem column_open_empty_witness:
  "\<exists>hc. column_open_hash (\<lambda>_. None) (\<lambda>_. None) 0 (with_columns 1) sample_metadata = Inr hc \<and>
     (\<exists>hc'. hash_get no_codec hc (replicate 32 5) (overlays_query empty_overlays) = Some (Inr (None, hc')))"
proof -
  have "unat (0 :: u8) < length (md_columns sample_metadata)" by (simp add: sample_metadata_def)
  from column_open_empty[OF this, of "with_columns 1" no_codec 1] show ?thesis by force
qed

text \<open>
  C3: In a column with no index waiting to be re-indexed, planning a change that finds room (slots that
  the index can name, and for a new key an empty entry in its chunk) returns, and the column then
  represents the updated map: a new value for a new key, a replaced value (in place or in another
  tier), a counter taken or released, a removed key, and the unchanged map where the code skips the
  change.
\<close>

theorem column_write_refines:
  assumes "col_rep cd hc (writer_query w) M" and "codecs_ok cd" and "length k = 32"
    and "\<And>v. val = Some v \<Longrightarrow> slots_room hc (length v)"
    and "M k = None \<Longrightarrow> val \<noteq> None \<Longrightarrow> home_room hc (writer_query w) k"
  shows "\<exists>out hc' w'. hash_write_plan cd hc k val w = Some (Inr (out, hc', w')) \<and>
     col_rep cd hc' (writer_query w') (column_spec (hc_ref_counted hc) (hc_preimage hc) k val M)"
  using hash_write_plan_rep[OF assms] by blast

abbreviation sample_column :: hash_column where
  "sample_column \<equiv> new_column 0 (with_columns 1) sample_metadata"

lemma sample_column_rep: "col_rep cd sample_column (writer_query (log_writer_new empty_overlays 1)) Map.empty"
  by (rule col_rep_new[OF empty_query])

lemma sample_column_room: "n < 4000000 \<Longrightarrow> slots_room sample_column n"
    "home_room sample_column (writer_query (log_writer_new empty_overlays 1)) k"
  by (auto simp: slots_room_def home_room_def new_column_index[OF empty_query(1)] entry_is_empty_def CHUNK_ENTRIES_def)
    (auto simp: new_column_def Let_def new_table_def index_create_new_def MIN_INDEX_BITS_def)

theorem column_write_refines_witness:
  "\<exists>out hc' w'. hash_write_plan no_codec sample_column (replicate 32 5) (Some [1, 2, 3])
       (log_writer_new empty_overlays 1) = Some (Inr (out, hc', w')) \<and>
     col_rep no_codec hc' (writer_query w') [replicate 32 5 \<mapsto> ([1, 2, 3], 1)]"
  using column_write_refines[OF sample_column_rep no_codec_ok, of "replicate 32 5" "Some [1, 2, 3]"]
    sample_column_room by (simp add: column_spec_def)

text \<open>
  C4: After a value is planned for a key, a lookup of the key through the same record returns that
  value, and a lookup of any other key returns what it returned before. This holds for a new key of any
  hash column and for any key of a column without reference counts and without \<open>preimage\<close>, when no index
  waits to be re-indexed and the slots can be named by the index; a new key whose chunk is full is
  included: then the plan asks for a re-index, the next larger index becomes the current one (the log
  must not have entries for it yet) and the old one waits in the queue.
\<close>

theorem column_put_get:
  assumes "col_rep cd hc (writer_query w) M" and "codecs_ok cd" and "length k = 32"
    and "slots_room hc (length v)"
    and "M k = None \<Longrightarrow> \<not> home_room hc (writer_query w) k \<Longrightarrow> can_grow hc (writer_query w)"
    and "M k \<noteq> None \<Longrightarrow> \<not> hc_ref_counted hc \<and> \<not> hc_preimage hc"
  shows "\<exists>out hc' w'. hash_write_plan cd hc k (Some v) w = Some (Inr (out, hc', w')) \<and>
     (\<forall>k'. length k' = 32 \<longrightarrow> (\<exists>r hc1 hc2. hash_get cd hc k' (writer_query w) = Some (Inr (r, hc1)) \<and>
        hash_get cd hc' k' (writer_query w') = Some (Inr (if k' = k then Some v else r, hc2)))) \<and>
     (M k = None \<longrightarrow> \<not> home_room hc (writer_query w) k \<longrightarrow>
        out = NeedReindex \<and> hc_index hc' = next_index hc \<and> hc_queue hc' = [hc_index hc])"
proof (cases "M k = None \<and> \<not> home_room hc (writer_query w) k")
  case True
  obtain ms E loc where inv: "col_inv cd hc (writer_query w) ms E loc M" using assms(1) unfolding col_rep_def by blast
  have "loc k = None" using index_inv_places[OF col_inv_index[OF inv]] True by simp
  then have "search_all_indexes k hc (writer_query w) = Some (Inr None)" using search_all_rep[OF inv assms(3)] by simp
  then have pl: "hash_write_plan cd hc k (Some v) w = write_plan_new cd k v hc w" by (simp add: hash_write_plan_def)
  obtain hc' w' where g: "write_plan_new cd k v hc w = Some (Inr (NeedReindex, hc', w'))"
      "hc_queue hc' = [hc_index hc]" "hc_index hc' = next_index hc"
      "\<forall>k'. length k' = 32 \<longrightarrow> (\<exists>st. hash_get cd hc' k' (writer_query w') =
        Some (Inr (map_option fst ((M(k \<mapsto> (v, 1))) k'), hc'\<lparr>hc_stats := st\<rparr>)))"
    using write_plan_new_grow[OF inv assms(2,3,4)] True assms(5) by blast
  have "\<exists>r hc1 hc2. hash_get cd hc k' (writer_query w) = Some (Inr (r, hc1)) \<and>
      hash_get cd hc' k' (writer_query w') = Some (Inr (if k' = k then Some v else r, hc2))" if "length k' = 32" for k'
    using hash_get_rep[OF assms(1) that] g(4)[rule_format, OF that] by (cases "k' = k") auto
  then show ?thesis using pl g(1-3) by auto
next
  case False
  obtain out hc' w' where p: "hash_write_plan cd hc k (Some v) w = Some (Inr (out, hc', w'))"
      "col_rep cd hc' (writer_query w') (column_spec (hc_ref_counted hc) (hc_preimage hc) k (Some v) M)"
    using hash_write_plan_rep[OF assms(1-3), of "Some v"] assms(4) False by auto
  have "column_spec (hc_ref_counted hc) (hc_preimage hc) k (Some v) M = M(k \<mapsto> (v, 1))"
    using assms(6) by (auto simp: column_spec_def split: option.split)
  from hash_get_update[OF assms(1) p(2)[unfolded this], of "Some v"] show ?thesis
    using p(1) False by (intro exI[of _ out] exI[of _ hc'] exI[of _ w'] conjI) auto
qed

theorem column_put_get_witness:
  "\<exists>out hc' w' hc2. hash_write_plan no_codec sample_column (replicate 32 5) (Some [1, 2, 3])
       (log_writer_new empty_overlays 1) = Some (Inr (out, hc', w')) \<and>
     hash_get no_codec hc' (replicate 32 5) (writer_query w') = Some (Inr (Some [1, 2, 3], hc2))"
proof -
  have "slots_room sample_column (length [1, 2, 3 :: u8])" using sample_column_room(1) by simp
  from column_put_get[OF sample_column_rep no_codec_ok _ this, of "replicate 32 5"] sample_column_room(2)
  obtain out hc' w' where r: "hash_write_plan no_codec sample_column (replicate 32 5) (Some [1, 2, 3])
       (log_writer_new empty_overlays 1) = Some (Inr (out, hc', w'))"
      "\<forall>k'. length k' = 32 \<longrightarrow> (\<exists>r hc1 hc2.
         hash_get no_codec sample_column k' (writer_query (log_writer_new empty_overlays 1)) = Some (Inr (r, hc1)) \<and>
         hash_get no_codec hc' k' (writer_query w') =
           Some (Inr (if k' = replicate 32 5 then Some [1, 2, 3] else r, hc2)))" by auto
  from r(2)[rule_format, of "replicate 32 5"] show ?thesis using r(1) by auto
qed

text \<open>
  C5: After a deletion is planned for a key of any hash column with no index waiting to be re-indexed,
  a lookup of the key returns nothing, unless the column counts references and the counter of the key is
  not one: then the value stays. A lookup of any other key returns what it returned before.
\<close>

theorem column_delete_get:
  assumes "col_rep cd hc (writer_query w) M" and "codecs_ok cd" and "length k = 32"
  shows "\<exists>out hc' w'. hash_write_plan cd hc k None w = Some (Inr (out, hc', w')) \<and>
     (\<forall>k'. length k' = 32 \<longrightarrow> (\<exists>r hc1 hc2. hash_get cd hc k' (writer_query w) = Some (Inr (r, hc1)) \<and>
        hash_get cd hc' k' (writer_query w') = Some (Inr (
          if k' = k \<and> \<not> (hc_ref_counted hc \<and> (\<exists>u rc. M k = Some (u, rc) \<and> rc \<noteq> 1)) then None else r, hc2))))"
proof -
  obtain out hc' w' where p: "hash_write_plan cd hc k None w = Some (Inr (out, hc', w'))"
      "col_rep cd hc' (writer_query w') (column_spec (hc_ref_counted hc) (hc_preimage hc) k None M)"
    using hash_write_plan_rep[OF assms, of None] by auto
  have sp: "map_option fst (column_spec (hc_ref_counted hc) (hc_preimage hc) k None M k') =
      (if k' = k \<and> \<not> (hc_ref_counted hc \<and> (\<exists>u rc. M k = Some (u, rc) \<and> rc \<noteq> 1)) then None else map_option fst (M k'))" for k'
    by (auto simp: column_spec_def split: option.split)
  have "\<exists>r hc1 hc2. hash_get cd hc k' (writer_query w) = Some (Inr (r, hc1)) \<and>
      hash_get cd hc' k' (writer_query w') = Some (Inr (
        if k' = k \<and> \<not> (hc_ref_counted hc \<and> (\<exists>u rc. M k = Some (u, rc) \<and> rc \<noteq> 1)) then None else r, hc2))"
    if "length k' = 32" for k'
    using hash_get_rep[OF assms(1) that] hash_get_rep[OF p(2) that] unfolding sp by blast
  then show ?thesis using p(1) by blast
qed

theorem column_delete_get_witness:
  "\<exists>out hc w out' hc' w' hc1 hc2. hash_write_plan no_codec sample_column (replicate 32 5) (Some [1, 2, 3])
       (log_writer_new empty_overlays 1) = Some (Inr (out, hc, w)) \<and>
     hash_get no_codec hc (replicate 32 5) (writer_query w) = Some (Inr (Some [1, 2, 3], hc1)) \<and>
     hash_write_plan no_codec hc (replicate 32 5) None w = Some (Inr (out', hc', w')) \<and>
     hash_get no_codec hc' (replicate 32 5) (writer_query w') = Some (Inr (None, hc2))"
proof -
  let ?k = "replicate 32 (5 :: u8)"
  from hash_write_plan_rep[OF sample_column_rep no_codec_ok, of ?k "Some [1, 2, 3]"] sample_column_room
  obtain out hc w where p: "hash_write_plan no_codec sample_column ?k (Some [1, 2, 3])
       (log_writer_new empty_overlays 1) = Some (Inr (out, hc, w))"
      "col_rep no_codec hc (writer_query w) [?k \<mapsto> ([1, 2, 3], 1)]"
    by (auto simp: column_spec_def)
  have l: "length ?k = 32" by simp
  obtain hc1 where "hash_get no_codec hc ?k (writer_query w) = Some (Inr (Some [1, 2, 3], hc1))"
    using hash_get_rep[OF p(2) l] by auto
  moreover obtain out' hc' w' hc2 where "hash_write_plan no_codec hc ?k None w = Some (Inr (out', hc', w'))"
      "hash_get no_codec hc' ?k (writer_query w') = Some (Inr (None, hc2))"
    using column_delete_get[OF p(2) no_codec_ok l] l by fastforce
  ultimately show ?thesis using p(1) by blast
qed

text \<open>
  C21: The form in which a value is stored is never longer than the value and decompresses to it;
  the tier chosen for it is the first one that holds it, and the last tier when none does.
\<close>

theorem column_tier_first_fit:
  assumes "col_rep cd hc q M" and "codecs_ok cd"
    and "column_compress cd (hc_compression hc) key v (hc_value hc) = (cval, tier)"
    and "stored_form cval v = (sv, c)"
  shows "length sv \<le> length v \<and> (if c then decompress_bytes cd (hc_compression hc) sv else Inr sv) = Inr v \<and>
     tier < SIZE_TIERS \<and>
     (tier < SIZE_TIERS - 1 \<longrightarrow>
        length sv + ref_size (hc_value hc ! tier) + key_encoded_size key \<le> es (hc_value hc ! tier) - 2) \<and>
     (\<forall>j<tier. es (hc_value hc ! j) - 2 < length sv + ref_size (hc_value hc ! j) + key_encoded_size key)"
proof -
  obtain ms E loc where inv: "col_inv cd hc q ms E loc M" using assms(1) unfolding col_rep_def by blast
  note p = col_inv_parts[OF inv] and sp = column_compress_spec[OF assms(2) col_inv_tables(1-3)[OF inv] assms(3,4)]
  have "\<not> vt_multipart (hc_value hc ! tier)" if "tier < SIZE_TIERS - 1"
    using p(7) that by (simp add: tier_shape_def)
  then have "tier < SIZE_TIERS - 1 \<longrightarrow>
      length sv + ref_size (hc_value hc ! tier) + key_encoded_size key \<le> es (hc_value hc ! tier) - 2"
    using sp(2) unfolding fits_def by blast
  then show ?thesis using sp p(2) by (simp add: not_le)
qed

theorem column_tier_first_fit_witness:
  "\<exists>tier. column_compress no_codec (hc_compression sample_column) (Partial (replicate 32 5)) (replicate 10 1)
       (hc_value sample_column) = (None, tier) \<and> tier < SIZE_TIERS"
proof -
  have t: "hc_compression sample_column = compress_new NoCompression 4096"
    by (simp add: new_column_def Let_def sample_metadata_def column_options_default_def)
  obtain tier where cc: "column_compress no_codec (hc_compression sample_column) (Partial (replicate 32 5))
      (replicate 10 1) (hc_value sample_column) = (None, tier)"
    by (auto simp: column_compress_def t compress_new_def Let_def)
  have "tier < SIZE_TIERS"
    using column_tier_first_fit[OF sample_column_rep no_codec_ok cc, of "replicate 10 1" False]
    by (simp add: stored_form_def)
  then show ?thesis using cc by blast
qed

end
