(* ===== verification/BTree_Open.thy ===== *)
theory BTree_Open
  imports BTree_Batch Column_Correct
begin

text \<open>
  Opening an ordered column whose tables have no files yet (\<open>BTreeTable::open\<close> of
  \<^verbatim>\<open>src/src/btree/mod.rs\<close>, \<open>ValueTable::init_with_entry\<close> of \<^verbatim>\<open>src/src/table.rs\<close>): the first slot of
  the first table receives the header of an empty tree.
\<close>

section \<open>The first entry of a table\<close>

lemma alist_inserted:
  "lc_local_values (lw_log (insert_value (insert_value (log_writer_new empty_overlays r) tid i d) tid j e)) =
     (if i = j then [(tid, [(i, (r, e))])] else [(tid, [(i, (r, d)), (j, (r, e))])])"
  by (simp add: insert_value_def log_writer_new_def log_change_new_def alist_or_default_def Let_def)

lemma value_size_plain:
  assumes "wf_table t" and "\<not> vt_ref_counted t"
  shows "\<exists>s. value_size t NoHash = Some s \<and> unat s = es t - 2"
proof -
  have "(2 :: u16) \<le> vt_entry_size t" using wf_table_bounds(1)[OF assms(1)] by (simp add: word_le_nat_alt)
  then have "unat (vt_entry_size t - 2) = es t - 2" by (simp add: unat_sub)
  then show ?thesis using assms(2) by (simp add: value_size_def Let_def ref_size_def key_encoded_size_def SIZE_SIZE_def)
qed

definition blank_table :: "value_table \<Rightarrow> bool" where
  "blank_table t \<longleftrightarrow> wf_table t \<and> vt_filled t = 1 \<and> vt_last_removed t = 0 \<and> \<not> vt_multipart t \<and> \<not> vt_ref_counted t \<and>
     vt_file t = \<lparr>tf_file = None, tf_capacity = 0, tf_dirty = False\<rparr>"

lemma write_first_entry:
  assumes t: "blank_table t" and f: "vt_file t' = fi" "t' = t\<lparr>vt_file := fi\<rparr>" and v: "length v \<le> es t - 2"
  shows "overwrite_chain t' NoHash v (log_writer_new empty_overlays 0) None False =
     cret (1, t'\<lparr>vt_filled := 2, vt_dirty_header := True\<rparr>,
       insert_value (log_writer_new empty_overlays 0) (vt_id t) 1 (size_bytes (length v) False @ v))"
proof -
  let ?u = "t'\<lparr>vt_filled := 2, vt_dirty_header := True\<rparr>" and ?w = "log_writer_new empty_overlays 0"
  have wf: "wf_table ?u" "wf_table t'" "\<not> vt_ref_counted t'" "wf_key NoHash" using t f(2) by (simp_all add: blank_table_def wf_table_def wf_key_def)
  obtain s where s: "value_size t' NoHash = Some s" "unat s = es t - 2" using value_size_plain[OF wf(2,3)] f(2) by auto
  have S: "at_stream ?u NoHash v 0 v" using t f(2) by (simp add: at_stream_def entry_head_def key_bytes_def blank_table_def)
  have "length v \<le> es ?u - 2" "(if False then read_next_part ?u 1 (writer_query ?w) else Inr None) = Inr None" using v f(2) by simp_all
  from overwrite_part_plain[OF wf(1,4) S this, of False 0]
  obtain off where "overwrite_part ?u ?w NoHash v False (length v) 0 0 1 False =
       Inr (?u, insert_value ?w (vt_id t) 1 (size_bytes (length v) False @ v), 0, off, 1, 0, False)"
    using f(2) by auto
  then have "overwrite_loop NoHash v False ?u ?w (length v) 0 0 1 False =
      cret (1, ?u, insert_value ?w (vt_id t) 1 (size_bytes (length v) False @ v))"
    by (subst overwrite_loop.simps) (simp add: cret_def)
  moreover have "next_free t' (writer_query ?w) = Inr (1, ?u)" using t f(2) by (simp add: next_free_def blank_table_def)
  moreover have "vt_multipart t' = False" "ref_size t' = 0" "key_encoded_size NoHash = 0"
    using t f(2) by (simp_all add: blank_table_def ref_size_def key_encoded_size_def)
  ultimately show ?thesis using s v by (simp add: overwrite_chain_def rassert_def cret_def)
qed

lemma init_with_entry_is:
  assumes t: "blank_table t" and v: "length v \<le> es t - 2"
  shows "\<exists>t'. init_with_entry t v = cret t' \<and> vt_id t' = vt_id t \<and> vt_multipart t' = vt_multipart t \<and>
     vt_ref_counted t' = vt_ref_counted t \<and> vt_filled t' = 2 \<and>
     (\<forall>q. (\<forall>i. q_value q (vt_id t) i = None) \<longrightarrow> represents t' q [1 \<mapsto> fresh_entry NoHash v False])"
proof -
  have b: "32 \<le> es t" "es t \<le> 0x7ff8" "wf_table t" using t wf_table_bounds[of t] by (simp_all add: blank_table_def)
  let ?tf = "\<lparr>tf_file = None, tf_capacity = 0, tf_dirty = False\<rparr> :: tfile"
  have fl: "vt_file t = ?tf" using t by (simp add: blank_table_def)
  have "file_ok (vt_entry_size t) ?tf" by (simp add: file_ok_def)
  moreover have "(0 + grow_step (vt_entry_size t)) * es t < 2 ^ 64"
    using le_less_trans[OF div_times_less_eq_dividend[of 262144 "es t"], of "2 ^ 64"] by (simp add: grow_step_def)
  ultimately obtain fi f where g: "tfile_grow ?tf (vt_entry_size t) = Inr fi" "tf_file fi = Some f" "file_ok (vt_entry_size t) fi"
      "unat (tf_capacity fi) = grow_step (vt_entry_size t)"
    using tfile_grow_ok[of "vt_entry_size t" ?tf] b by auto
  let ?hd = "header_set_filled (header_set_last_removed header_default 0) 2" and ?rec = "size_bytes (length v) False @ v"
  let ?f = "write_all_at (write_all_at f (es t) ?rec) 0 ?hd"
  let ?t = "t\<lparr>vt_file := fi\<lparr>tf_dirty := True, tf_file := Some ?f\<rparr>, vt_filled := 2, vt_dirty_header := False\<rparr>"
  have hl: "length ?hd = 16" by (simp add: header_set_filled_def header_set_last_removed_def header_default_def INDEX_SIZE_def)
  have rl: "length ?rec \<le> es t" using v b(1) by simp
  have so: "unat (slot_offset u 1) = es t" "slot_offset u 0 = 0" if "vt_entry_size u = vt_entry_size t" for u
    using that by (simp_all add: slot_offset_def)
  let ?t1 = "t\<lparr>vt_file := fi\<rparr>"
  note wc = write_first_entry[OF t _ refl v, of fi]
  have al: "lc_local_values (lw_log (insert_value (insert_value (log_writer_new empty_overlays 0) (vt_id t) 1 ?rec) (vt_id t) 0 ?hd)) =
      [(vt_id t, [(1, (0, ?rec)), (0, (0, ?hd))])]"
    by (simp add: alist_inserted)
  have lr: "vt_last_removed t = 0" using t by (simp add: blank_table_def)
  have we: "write_entries (?t1\<lparr>vt_filled := 2, vt_dirty_header := False\<rparr>) [(1, (0, ?rec)), (0, (0, ?hd))] = Inr ?t"
    using g(2) so[of "?t1\<lparr>vt_filled := 2, vt_dirty_header := False\<rparr>"]
      so[of "?t1\<lparr>vt_filled := 2, vt_dirty_header := False, vt_file := fi\<lparr>tf_dirty := True, tf_file := Some (write_all_at f (es t) ?rec)\<rparr>\<rparr>"]
    by (simp add: tfile_write_at_def)
  have "init_with_entry t v = cret ?t"
    using wc we lr unfolding init_with_entry_def fl
    by (simp add: g(1) cret_def table_complete_plan_def Let_def al unwrap_def rassert_def)
  moreover have "represents ?t q [1 \<mapsto> fresh_entry NoHash v False]" if q: "\<And>i. q_value q (vt_id t) i = None" for q
  proof -
    have one: "{i :: u64. 1 \<le> i \<and> i < 2} = {1}" by (auto simp: word_le_nat_alt word_less_nat_alt word_unat_eq_iff)
    have "8 \<le> grow_step (vt_entry_size t)" using div_le_mono2[of "es t" 32760 262144] b by (simp add: grow_step_def)
    then have "8 * es t \<le> grow_step (vt_entry_size t) * es t" by (rule mult_le_mono1)
    from le_trans[OF this, of "flen f"] have "8 * es t \<le> flen f" using g(2-4) by (simp add: file_ok_def)
    then have fit: "es t + es t \<le> flen f" by simp
    have "pread ?f (es t) (length ?rec) = ?rec"
      using pread_write_other[of "es t" "length ?rec" 0 ?hd "write_all_at f (es t) ?rec"] pread_write_same[of f "es t" ?rec] hl b(1) rl fit by simp
    then have sl: "slot_has ?t q 1 ?rec" using q so(1)[of ?t] rl fit by (simp add: slot_has_def)
    have "entry_stream ?t (fresh_entry NoHash v False) = v"
      using t by (simp add: entry_stream_def entry_head_def key_bytes_def blank_table_def fresh_entry_def)
    then have "chain_ok ?t q 1 [] (fresh_entry NoHash v False)"
      using sl v by (simp add: chain_ok_def) (simp add: fresh_entry_def wf_key_def)
    moreover have "wf_table ?t" using b(3) by (simp add: wf_table_def)
    ultimately show ?thesis
      unfolding represents_def
      by (intro conjI exI[of _ "\<lambda>_. []"] exI[of _ "[]"]) (use lr in \<open>auto simp: chains_ok_def alloc_inv_def slots_of_def one\<close>)
  qed
  ultimately show ?thesis by (intro exI[of _ ?t]) simp
qed

section \<open>An empty tree\<close>

definition empty_header :: btree_header where
  "empty_header = \<lparr>bh_root = NULL_ADDRESS, bh_depth = 0\<rparr>"

definition empty_store :: "address \<rightharpoonup> bytes" where
  "empty_store = [HEADER_ADDRESS \<mapsto> header_bytes empty_header]"

lemma holds_empty: "btree_holds K empty_store empty_header (Br [] [])" and map_empty: "tree_map \<sigma> (Br [] []) = Map.empty"
  by (auto simp: btree_holds_def empty_store_def empty_header_def storable_def loose_def small_def tree_map_def entry_map_def entries_def)

lemma header_place: "HEADER_ADDRESS = place_address 0 1"
  by (simp add: HEADER_ADDRESS_def place_address_def)

lemma first_new_table: "\<not> co_ref_counted co \<Longrightarrow> blank_table (new_table col co version 0)" "es (new_table col co version 0) = 32"
  using wf_new_table[of 0 col co version] by (simp_all add: blank_table_def new_table_def SIZE_TIERS_def length_SIZES) (simp_all add: SIZES_def)

lemma btree_open_new:
  assumes col: "unat col < length (md_columns metadata)" and co: "co = md_columns metadata ! unat col" "\<not> co_ref_counted co"
  shows "\<exists>b. btree_table_open col (new_tables col co (md_version metadata)) metadata = cret b \<and>
     (\<forall>cd q B. (\<forall>i j. q_value q i j = None) \<longrightarrow> B + 2 < 2 ^ 56 \<longrightarrow> store_rep cd (btree_locked b) q B empty_store)"
proof -
  let ?ts = "new_tables col co (md_version metadata)" and ?t = "new_table col co (md_version metadata) 0" and ?v = "header_bytes empty_header"
  have t0: "?ts ! 0 = ?t" and lts: "length ?ts = SIZE_TIERS" by (simp_all add: new_tables_def SIZE_TIERS_def)
  have "length ?v \<le> es ?t - 2" using first_new_table(2) by (simp add: BTREE_HEADER_SIZE_def)
  from init_with_entry_is[OF first_new_table(1)[OF co(2)] this]
  obtain t' where t': "init_with_entry ?t ?v = cret t'" "vt_id t' = vt_id ?t" "vt_multipart t' = vt_multipart ?t" "vt_ref_counted t' = vt_ref_counted ?t"
      "vt_filled t' = 2" "\<And>q. (\<And>i. q_value q (vt_id ?t) i = None) \<Longrightarrow> represents t' q [1 \<mapsto> fresh_entry NoHash ?v False]"
    by blast
  let ?ts' = "?ts[0 := t']"
  let ?b = "\<lparr>bc_id = col, bc_tables = ?ts', bc_ref_counted = co_ref_counted co, bc_compression = compress_new (co_compression co) (co_compression_threshold co)\<rparr>"
  have "table_is_init ?t = False" by (simp add: table_is_init_def new_table_def)
  then have op: "btree_table_open col ?ts metadata = cret ?b"
    using t'(1) t0 lts col co(1)
    by (simp add: btree_table_open_def header_size_tier nth_table_def write_header_is empty_header_def[symmetric] cret_def SIZE_TIERS_def Let_def)
  have "store_rep cd (btree_locked ?b) q B empty_store" if q: "\<forall>i j. q_value q i j = None" and B: "B + 2 < 2 ^ 56" for cd q B
  proof -
    let ?e = "fresh_entry NoHash ?v False" and ?ms = "(\<lambda>_. Map.empty)(0 := Map.empty(1 \<mapsto> fresh_entry NoHash ?v False)) :: nat \<Rightarrow> u64 \<rightharpoonup> stored"
    have z: "(0 :: nat) < SIZE_TIERS" by (simp add: SIZE_TIERS_def)
    have "map vt_id ?ts' = map vt_id ?ts" using t'(2) t0 lts by (metis list_update_id map_update)
    then have "tiers_rep ?ts' q ?ms"
      using new_tables_rep(1)[of col co "md_version metadata" q] t'(6) q t0 lts
      by (auto simp: tiers_rep_def nth_list_update)
    moreover have "tier_shape False ?ts'"
      using new_tables_rep(2)[of co col "md_version metadata"] co(2) t'(3,4) t0 lts z by (auto simp: tier_shape_def nth_list_update)
    moreover have "unat (vt_filled t) + B < 2 ^ 56" if "t \<in> set ?ts'" for t
    proof -
      have "t = t' \<or> t \<in> set ?ts" using that set_update_subset_insert[of ?ts 0 t'] by blast
      then show ?thesis using B t'(5) by (auto simp: new_tables_def new_table_def)
    qed
    moreover have "plain_entry cd cp off e" if "?ms i off = Some e" for i off e cp
      using that by (auto simp: plain_entry_def fresh_entry_def unpack_def split: if_splits)
    ultimately have "store_inv cd (btree_locked ?b) q B ?ms" using co(2) by (simp add: store_inv_def btree_locked_def)
    moreover have "empty_store = view cd (tr_compression (btree_locked ?b)) ?ms"
      unfolding empty_store_def header_place
      by (subst view_put[OF z]) (auto simp: fresh_entry_def unpack_def view_def fun_eq_iff)
    ultimately show ?thesis unfolding store_rep_def by blast
  qed
  then show ?thesis using op by (intro exI[of _ ?b]) blast
qed


end
