(* ===== verification/Commit_Overlay.thy ===== *)
theory Commit_Overlay
  imports BTree
begin

text \<open>
  The overlay of values that are committed and not yet in the log (\<open>CommitOverlay\<close> of
  \<^verbatim>\<open>src/src/db.rs\<close>) and the change sets that fill and clean it (\<open>IndexedChangeSet\<close>,
  \<open>BTreeChangeSet\<close>). Both maps go from a key to the id of the commit that wrote it last and its
  value, \<open>None\<close> for a deletion.
\<close>

type_synonym overlay_map = "(bytes \<times> (u64 \<times> bytes option)) list"

record commit_overlay =
  cv_indexed :: overlay_map
  cv_btree_indexed :: overlay_map

definition commit_overlay_new :: commit_overlay where
  "commit_overlay_new = \<lparr>cv_indexed = [], cv_btree_indexed = []\<rparr>"

definition overlay_get :: "commit_overlay \<Rightarrow> bytes \<Rightarrow> bytes option option" where
  "overlay_get ov key = map_option snd (map_of (cv_indexed ov) key)"

definition overlay_get_size :: "commit_overlay \<Rightarrow> bytes \<Rightarrow> u32 option option" where
  "overlay_get_size ov key = map_option (map_option (\<lambda>b. of_nat (length b))) (overlay_get ov key)"

definition overlay_btree_get :: "commit_overlay \<Rightarrow> bytes \<Rightarrow> bytes option option" where
  "overlay_btree_get ov key = map_option snd (map_of (cv_btree_indexed ov) key)"

text \<open>\<open>BTreeMap::range\<close>: the entries from a key on, in the order of the keys.\<close>

definition overlay_range :: "overlay_map \<Rightarrow> (bytes \<Rightarrow> bool) \<Rightarrow> overlay_map" where
  "overlay_range m P = sort_key fst (filter (\<lambda>e. P (fst e)) m)"

definition first_of :: "overlay_map \<Rightarrow> (bytes \<times> bytes option) option" where
  "first_of m = (case m of [] \<Rightarrow> None | (k, (_, v)) # _ \<Rightarrow> Some (k, v))"

definition btree_next :: "commit_overlay \<Rightarrow> bytes option \<Rightarrow> bool \<Rightarrow> (bytes \<times> bytes option) option" where
  "btree_next ov last_key from_seek =
     (case last_key of
        Some key \<Rightarrow>
          (case overlay_range (cv_btree_indexed ov) (\<lambda>k. key \<le> k) of
             [] \<Rightarrow> None
           | (k, (c, v)) # rest \<Rightarrow> if from_seek \<or> k \<noteq> key then Some (k, v) else first_of rest)
      | None \<Rightarrow> first_of (overlay_range (cv_btree_indexed ov) (\<lambda>_. True)))"

section \<open>Change sets\<close>

text \<open>
  A change set of one column: the changes in the order they were pushed. \<open>copy_changes\<close> is the
  loop of both \<open>copy_to_overlay\<close> methods, \<open>clean_changes\<close> that of both \<open>clean_overlay\<close> methods.
\<close>

type_synonym change_set = "(bytes \<times> bytes option) list"

fun copy_changes :: "bool \<Rightarrow> u64 \<Rightarrow> change_set \<Rightarrow> overlay_map \<Rightarrow> overlay_map" where
  "copy_changes ref_counted record_id [] m = m"
| "copy_changes ref_counted record_id ((k, v) # cs) m =
     copy_changes ref_counted record_id cs
       (if \<not> ref_counted \<or> v \<noteq> None then AList.update k (record_id, v) m else m)"

definition change_bytes :: "change_set \<Rightarrow> nat" where
  "change_bytes cs = sum_list (map (\<lambda>(k, v). length k + (case v of Some b \<Rightarrow> length b | None \<Rightarrow> 0)) cs)"

fun clean_changes :: "u64 \<Rightarrow> change_set \<Rightarrow> overlay_map \<Rightarrow> overlay_map" where
  "clean_changes record_id [] m = m"
| "clean_changes record_id ((k, v) # cs) m =
     clean_changes record_id cs
       (case map_of m k of
          Some (rid, _) \<Rightarrow> if rid = record_id then AList.delete k m else m
        | None \<Rightarrow> m)"

definition indexed_copy_to_overlay :: "bool \<Rightarrow> u64 \<Rightarrow> change_set \<Rightarrow> commit_overlay \<Rightarrow> commit_overlay" where
  "indexed_copy_to_overlay ref_counted record_id cs ov =
     ov\<lparr>cv_indexed := copy_changes ref_counted record_id cs (cv_indexed ov)\<rparr>"

definition indexed_clean_overlay :: "u64 \<Rightarrow> change_set \<Rightarrow> commit_overlay \<Rightarrow> commit_overlay" where
  "indexed_clean_overlay record_id cs ov = ov\<lparr>cv_indexed := clean_changes record_id cs (cv_indexed ov)\<rparr>"

definition btree_copy_to_overlay :: "bool \<Rightarrow> u64 \<Rightarrow> change_set \<Rightarrow> commit_overlay \<Rightarrow> commit_overlay" where
  "btree_copy_to_overlay ref_counted record_id cs ov =
     ov\<lparr>cv_btree_indexed := copy_changes ref_counted record_id cs (cv_btree_indexed ov)\<rparr>"

definition btree_clean_overlay :: "u64 \<Rightarrow> change_set \<Rightarrow> commit_overlay \<Rightarrow> commit_overlay" where
  "btree_clean_overlay record_id cs ov =
     ov\<lparr>cv_btree_indexed := clean_changes record_id cs (cv_btree_indexed ov)\<rparr>"

section \<open>What the overlay answers\<close>

text \<open>The last change of a key in a change set that reaches the overlay.\<close>

definition last_change :: "bool \<Rightarrow> change_set \<Rightarrow> bytes \<Rightarrow> bytes option option" where
  "last_change ref_counted cs k = map_of (rev (filter (\<lambda>(_, v). \<not> ref_counted \<or> v \<noteq> None) cs)) k"

lemma map_of_copy_changes:
  "map_of (copy_changes rc rid cs m) k =
     (case last_change rc cs k of Some v \<Rightarrow> Some (rid, v) | None \<Rightarrow> map_of m k)"
  by (induction rc rid cs m rule: copy_changes.induct)
    (auto simp: last_change_def map_add_def split: option.splits)

lemma map_of_clean_changes:
  "map_of (clean_changes rid cs m) k =
     (case map_of m k of
        Some (r, v) \<Rightarrow> if r = rid \<and> k \<in> fst ` set cs then None else Some (r, v)
      | None \<Rightarrow> None)"
  by (induction rid cs m rule: clean_changes.induct) (auto split: option.splits prod.splits if_splits)

lemma last_change_dom: "last_change rc cs k \<noteq> None \<Longrightarrow> k \<in> fst ` set cs"
  by (auto simp: last_change_def dest!: map_of_SomeD intro: rev_image_eqI)

text \<open>Copying a change set and cleaning it gives back what the overlay answered elsewhere.\<close>

lemma clean_copy_changes:
  assumes "\<And>r v. map_of m k = Some (r, v) \<Longrightarrow> r \<noteq> rid"
  shows "map_of (clean_changes rid cs (copy_changes rc rid cs m)) k =
     (case last_change rc cs k of Some _ \<Rightarrow> None | None \<Rightarrow> map_of m k)"
  using assms last_change_dom[of rc cs k]
  by (auto simp: map_of_clean_changes map_of_copy_changes split: option.splits)

end
