(* ===== verification/BTree_Iter.thy ===== *)
theory BTree_Iter
  imports Commit_Overlay
begin

text \<open>
  Iterating over an ordered column (\<^verbatim>\<open>src/src/btree/iter.rs\<close>): \<open>BTreeIterState\<close> walks the stored
  tree with a stack of nodes, \<open>BTreeIterator\<close> merges it with the commit overlay. The stack is a
  list with its top at the head.
\<close>

section \<open>Walking the stored tree\<close>

record btree_iter_state =
  ist_state :: "(nat \<times> node) list"
  ist_next_separator :: bool
  ist_record_id :: u64

definition iter_state_new :: "u64 \<Rightarrow> btree_iter_state" where
  "iter_state_new record_id = \<lparr>ist_state = [], ist_next_separator = False, ist_record_id = record_id\<rparr>"

text \<open>The inner loop of \<open>next\<close>: down the leftmost path below the position of the top.\<close>

partial_function (option) descend :: "codecs \<Rightarrow> tables_ref \<Rightarrow> log_query \<Rightarrow> (nat \<times> node) list \<Rightarrow> (nat \<times> node) list comp" where
  "descend cd tables q st =
     (case st of
        [] \<Rightarrow> Some (Inr [])
      | (ix, n) # rest \<Rightarrow>
          cbind (fetch_child cd n ix tables q) (\<lambda>c.
            if c = None then Some (Inr st) else descend cd tables q ((0, the c) # st)))"

definition enter_separator :: "codecs \<Rightarrow> btree \<Rightarrow> tables_ref \<Rightarrow> log_query \<Rightarrow> btree_iter_state \<Rightarrow> btree_iter_state comp" where
  "enter_separator cd t tables q st =
     (if ist_next_separator st then cret st
      else
        cbind (if ist_state st = []
               then cbind (fetch_root cd (root_or_null t) tables q) (\<lambda>root. cret [(0, root)])
               else cret (ist_state st)) (\<lambda>stack.
        cbind (descend cd tables q stack) (\<lambda>stack.
          cret (st\<lparr>ist_state := stack, ist_next_separator := True\<rparr>))))"

text \<open>The separator at the top of the stack, when there is one.\<close>

definition top_separator :: "(nat \<times> node) list \<Rightarrow> separator_inner option" where
  "top_separator st =
     (case st of
        (ix, n) # _ \<Rightarrow> if ix < ORDER then sp_separator (nd_separators n ! ix) else None
      | [] \<Rightarrow> None)"

definition advance_top :: "(nat \<times> node) list \<Rightarrow> (nat \<times> node) list" where
  "advance_top st = (case st of (ix, n) # rest \<Rightarrow> (ix + 1, n) # rest | [] \<Rightarrow> [])"

partial_function (option) iter_state_next :: "codecs \<Rightarrow> btree \<Rightarrow> tables_ref \<Rightarrow> log_query \<Rightarrow> btree_iter_state \<Rightarrow>
    ((bytes \<times> bytes) option \<times> btree_iter_state) comp" where
  "iter_state_next cd t tables q st =
     (if ist_next_separator st \<and> ist_state st = [] then Some (Inr (None, st))
      else cbind (enter_separator cd t tables q st) (\<lambda>st.
        if top_separator (ist_state st) \<noteq> None then
          let sep = the (top_separator (ist_state st))
          in cbind (get_value cd (Fetch None) (si_value sep) tables q) (\<lambda>r.
               Some (Inr (map_option (\<lambda>(_, v). (si_key sep, v)) r,
                 st\<lparr>ist_state := advance_top (ist_state st), ist_next_separator := False\<rparr>)))
        else
          iter_state_next cd t tables q (st\<lparr>ist_state := tl (ist_state st), ist_next_separator := True\<rparr>)))"

definition iter_state_seek :: "codecs \<Rightarrow> bytes \<Rightarrow> btree \<Rightarrow> tables_ref \<Rightarrow> log_query \<Rightarrow> bool \<Rightarrow> btree_iter_state \<Rightarrow>
    btree_iter_state comp" where
  "iter_state_seek cd key t tables q after st =
     cbind (fetch_root cd (root_or_null t) tables q) (\<lambda>root.
     cbind (node_seek cd key tables q (unat (bt_depth t)) root []) (\<lambda>(found, stack).
       if found \<and> after then cret (st\<lparr>ist_state := advance_top stack, ist_next_separator := False\<rparr>)
       else cret (st\<lparr>ist_state := stack, ist_next_separator := True\<rparr>)))"

section \<open>The iterator\<close>

text \<open>
  The table, the log overlays and the commit overlay are borrowed by the iterator and may change
  between two calls: they are arguments of its operations.
\<close>

record btree_iterator =
  bi_tree :: btree
  bi_state :: btree_iter_state
  bi_pending_next_backend :: "(bytes \<times> bytes) option option"
  bi_last_key :: "bytes option"
  bi_from_seek :: bool

definition btree_iterator_new :: "codecs \<Rightarrow> btree_table \<Rightarrow> u8 \<Rightarrow> log_overlays \<Rightarrow> btree_iterator comp" where
  "btree_iterator_new cd table col log =
     (let record_id = last_record_id log col
      in cbind (btree_open cd (btree_locked table) (overlays_query log) record_id) (\<lambda>t.
           cret \<lparr>bi_tree = t, bi_state = iter_state_new (bt_record_id t), bi_pending_next_backend = None,
                 bi_last_key = None, bi_from_seek = False\<rparr>))"

definition reopen_tree :: "codecs \<Rightarrow> u64 \<Rightarrow> btree_table \<Rightarrow> log_query \<Rightarrow> btree_iterator \<Rightarrow> (bool \<times> btree_iterator) comp" where
  "reopen_tree cd record_id table q it =
     (if record_id \<noteq> bt_record_id (bi_tree it) then
        cbind (btree_open cd (btree_locked table) q record_id) (\<lambda>t. cret (True, it\<lparr>bi_tree := t\<rparr>))
      else cret (False, it))"

definition iterator_next_backend :: "codecs \<Rightarrow> u64 \<Rightarrow> btree_table \<Rightarrow> log_query \<Rightarrow> btree_iterator \<Rightarrow>
    ((bytes \<times> bytes) option \<times> btree_iterator) comp" where
  "iterator_next_backend cd record_id table q it =
     cbind (reopen_tree cd record_id table q it) (\<lambda>(reopened, it).
     cbind (if reopened then
              cbind (case bi_last_key it of
                       Some last_key \<Rightarrow> iter_state_seek cd last_key (bi_tree it) (btree_locked table) q True (bi_state it)
                     | None \<Rightarrow> cret (bi_state it)) (\<lambda>st.
                cret (st\<lparr>ist_record_id := record_id\<rparr>))
            else cret (bi_state it)) (\<lambda>st.
     cbind (iter_state_next cd (bi_tree it) (btree_locked table) q st) (\<lambda>(r, st).
       cret (r, it\<lparr>bi_state := st\<rparr>))))"

definition iterator_seek_backend :: "codecs \<Rightarrow> bytes \<Rightarrow> u64 \<Rightarrow> btree_table \<Rightarrow> log_query \<Rightarrow> bool \<Rightarrow> btree_iterator \<Rightarrow>
    btree_iterator comp" where
  "iterator_seek_backend cd key record_id table q after it =
     cbind (reopen_tree cd record_id table q it) (\<lambda>(reopened, it).
       let st = (if reopened then (bi_state it)\<lparr>ist_record_id := record_id\<rparr> else bi_state it)
       in cbind (iter_state_seek cd key (bi_tree it) (btree_locked table) q after st) (\<lambda>st.
            cret (it\<lparr>bi_state := st\<rparr>)))"

definition iterator_seek :: "codecs \<Rightarrow> bytes \<Rightarrow> u8 \<Rightarrow> btree_table \<Rightarrow> log_overlays \<Rightarrow> btree_iterator \<Rightarrow> btree_iterator comp" where
  "iterator_seek cd key col table log it =
     iterator_seek_backend cd key (last_record_id log col) table (overlays_query log) False
       (it\<lparr>bi_from_seek := True, bi_last_key := Some key, bi_pending_next_backend := None\<rparr>)"

text \<open>
  How \<open>next\<close> combines the next entry of the commit overlay with the next stored entry: the entry
  it returns, or \<open>None\<close> when it skips a deleted key and goes on, and the iterator.
\<close>

definition merge_next :: "(bytes \<times> bytes option) option \<Rightarrow> (bytes \<times> bytes) option \<Rightarrow> btree_iterator \<Rightarrow>
    (bytes \<times> bytes) option option \<times> btree_iterator" where
  "merge_next next_commit next_backend it =
     (case (next_commit, next_backend) of
        (Some (ck, cv), Some (bk, bv)) \<Rightarrow>
          if ck < bk then
            (map_option (\<lambda>v. Some (ck, v)) cv,
             it\<lparr>bi_last_key := Some ck, bi_from_seek := False, bi_pending_next_backend := Some (Some (bk, bv))\<rparr>)
          else if bk < ck then (Some (Some (bk, bv)), it\<lparr>bi_last_key := Some bk\<rparr>)
          else (map_option (\<lambda>v. Some (bk, v)) cv, it\<lparr>bi_last_key := Some ck, bi_from_seek := False\<rparr>)
      | (Some (ck, cv), None) \<Rightarrow>
          (map_option (\<lambda>v. Some (ck, v)) cv,
           it\<lparr>bi_last_key := Some ck, bi_from_seek := False, bi_pending_next_backend := Some None\<rparr>)
      | (None, Some (bk, bv)) \<Rightarrow> (Some (Some (bk, bv)), it\<lparr>bi_last_key := Some bk\<rparr>)
      | (None, None) \<Rightarrow> (Some None, it\<lparr>bi_pending_next_backend := Some None\<rparr>))"

definition take_backend :: "codecs \<Rightarrow> u64 \<Rightarrow> btree_table \<Rightarrow> log_query \<Rightarrow> btree_iterator \<Rightarrow>
    ((bytes \<times> bytes) option \<times> btree_iterator) comp" where
  "take_backend cd record_id table q it =
     (let it = (if record_id \<noteq> ist_record_id (bi_state it) then it\<lparr>bi_pending_next_backend := None\<rparr> else it)
      in case bi_pending_next_backend it of
           Some n \<Rightarrow> cret (n, it\<lparr>bi_pending_next_backend := None\<rparr>)
         | None \<Rightarrow> iterator_next_backend cd record_id table q it)"

partial_function (option) iterator_next :: "codecs \<Rightarrow> u8 \<Rightarrow> btree_table \<Rightarrow> log_overlays \<Rightarrow> commit_overlay list \<Rightarrow>
    btree_iterator \<Rightarrow> ((bytes \<times> bytes) option \<times> btree_iterator) comp" where
  "iterator_next cd col table log overlays it =
     cbind (take_backend cd (last_record_id log col) table (overlays_query log) it) (\<lambda>(next_backend, it').
       let next_commit = (if unat col < length overlays
                          then btree_next (overlays ! unat col) (bi_last_key it) (bi_from_seek it) else None);
           r = merge_next next_commit next_backend it'
       in if fst r = None then iterator_next cd col table log overlays (snd r)
          else Some (Inr (the (fst r), snd r)))"

end
