(* ===== verification/Db.thy ===== *)
theory Db
  imports BTree_Iter
begin

text \<open>
  The database (\<^verbatim>\<open>src/src/db.rs\<close>, and the dispatch of \<open>Column\<close> in \<^verbatim>\<open>src/src/column.rs\<close>): the
  commit queue and its overlay, and the stages that move a commit on - \<open>process_commits\<close> into
  the log, \<open>flush_logs\<close> to the log's reader, \<open>enact_logs\<close> into the files, \<open>clean_logs\<close> - with
  re-indexing, replay and shutdown.

  The worker threads call these operations one at a time per stage, under the locks of the parts
  they touch; an operation here is one such call. Waiting on a condition variable changes no
  state: the conditions are the predicates \<open>commit_waits\<close> and \<open>log_waits\<close>. The third-party crates
  are the record \<open>crates\<close>, an argument.
\<close>

section \<open>Columns\<close>

datatype column = Hash hash_column | Tree btree_table

definition column_open :: "(value_table_id \<Rightarrow> os_file option) \<Rightarrow> (index_table_id \<Rightarrow> os_file option) \<Rightarrow> u8 \<Rightarrow>
    options \<Rightarrow> metadata \<Rightarrow> column comp" where
  "column_open vfiles ifiles col options metadata =
     (if unat col < length (md_columns metadata) then
        let co = md_columns metadata ! unat col
        in cbind (Some (open_tables vfiles col [0..<SIZE_TIERS] co (md_version metadata))) (\<lambda>tables.
             if co_btree_index co then cbind (btree_table_open col tables metadata) (\<lambda>b. cret (Tree b))
             else cbind (Some (hash_open ifiles col tables options metadata)) (\<lambda>hc. cret (Hash hc)))
      else Some (Inl Panic))"

definition column_complete_plan :: "column \<Rightarrow> log_writer \<Rightarrow> column \<times> log_writer" where
  "column_complete_plan c w =
     (case c of
        Hash hc \<Rightarrow> let (hc, w) = hash_complete_plan hc w in (Hash hc, w)
      | Tree b \<Rightarrow> let (b, w) = btree_complete_plan b w in (Tree b, w))"

definition column_validate_plan :: "column \<Rightarrow> log_action \<Rightarrow> log_reader \<Rightarrow> (column \<times> log_reader) comp" where
  "column_validate_plan c action r =
     (case c of
        Hash hc \<Rightarrow> cbind (hash_validate_plan hc action r) (\<lambda>(hc, r). cret (Hash hc, r))
      | Tree b \<Rightarrow> Some (rbind (btree_validate_plan b action r) (\<lambda>r. Inr (Tree b, r))))"

definition column_enact_plan :: "column \<Rightarrow> log_action \<Rightarrow> log_reader \<Rightarrow> (column \<times> log_reader) comp" where
  "column_enact_plan c action r =
     (case c of
        Hash hc \<Rightarrow> cbind (hash_enact_plan hc action r) (\<lambda>(hc, r). cret (Hash hc, r))
      | Tree b \<Rightarrow> cbind (btree_enact_plan b action r) (\<lambda>(b, r). cret (Tree b, r)))"

definition column_flush :: "column \<Rightarrow> column" where
  "column_flush c = (case c of Hash hc \<Rightarrow> Hash (hash_flush hc) | Tree b \<Rightarrow> Tree (btree_flush b))"

definition column_refresh_metadata :: "column \<Rightarrow> column res" where
  "column_refresh_metadata c =
     (case c of
        Hash hc \<Rightarrow> rbind (hash_refresh_metadata hc) (\<lambda>hc. Inr (Hash hc))
      | Tree b \<Rightarrow> rbind (btree_refresh_metadata b) (\<lambda>b. Inr (Tree b)))"

definition column_write_stats :: "column \<Rightarrow> column res" where
  "column_write_stats c =
     (case c of Hash hc \<Rightarrow> rbind (hash_write_stats hc) (\<lambda>hc. Inr (Hash hc)) | Tree b \<Rightarrow> Inr (Tree b))"

definition column_clear_stats :: "column \<Rightarrow> column res" where
  "column_clear_stats c =
     (case c of Hash hc \<Rightarrow> rbind (hash_clear_stats hc) (\<lambda>hc. Inr (Hash hc)) | Tree b \<Rightarrow> Inr (Tree b))"

section \<open>State\<close>

definition MAX_COMMIT_QUEUE_BYTES :: nat where "MAX_COMMIT_QUEUE_BYTES = 16 * 1024 * 1024"
definition MAX_LOG_QUEUE_BYTES :: int where "MAX_LOG_QUEUE_BYTES = 128 * 1024 * 1024"
definition MIN_LOG_SIZE_BYTES :: u64 where "MIN_LOG_SIZE_BYTES = 64 * 1024 * 1024"
definition KEEP_LOGS :: nat where "KEEP_LOGS = 16"

record commit_change_set =
  cs_indexed :: "(u8 \<times> change_set) list"
  cs_btree_indexed :: "(u8 \<times> change_set) list"

record commit =
  cm_id :: u64
  cm_bytes :: nat
  cm_changeset :: commit_change_set

record commit_queue =
  cq_record_id :: u64
  cq_bytes :: nat
  cq_commits :: "commit list"

record db_inner =
  db_columns :: "column list"
  db_options :: options
  db_shutdown :: bool
  db_log :: log_state
  db_commit_queue :: commit_queue
  db_commit_overlay :: "commit_overlay list"
  db_log_queue :: int
  db_last_enacted :: u64
  db_next_reindex :: u64
  db_bg_err :: "error option"
  db_version :: u32

record crates =
  cr_crc :: "bytes \<Rightarrow> u32"
  cr_blake2b :: "bytes \<Rightarrow> bytes \<Rightarrow> bytes"
  cr_codecs :: codecs
  cr_hex_encode :: "bytes \<Rightarrow> string"
  cr_hex_decode :: "string \<Rightarrow> bytes option"
  cr_random_salt :: bytes

text \<open>The directory of a database: the metadata file, the files of the columns, the logs.\<close>

record db_files =
  df_metadata :: "string option"
  df_values :: "value_table_id \<Rightarrow> os_file option"
  df_indexes :: "index_table_id \<Rightarrow> os_file option"
  df_logs :: "(u32 \<times> bytes) list"
  df_locked :: "io_kind option"

definition column_nth :: "db_inner \<Rightarrow> nat \<Rightarrow> column res" where
  "column_nth db i = (if i < length (db_columns db) then Inr (db_columns db ! i) else Inl Panic)"

definition set_column :: "nat \<Rightarrow> column \<Rightarrow> db_inner \<Rightarrow> db_inner" where
  "set_column i c db = db\<lparr>db_columns := (db_columns db)[i := c]\<rparr>"

section \<open>Opening\<close>

fun open_columns :: "db_files \<Rightarrow> options \<Rightarrow> metadata \<Rightarrow> nat list \<Rightarrow> column list comp" where
  "open_columns fs options metadata [] = cret []"
| "open_columns fs options metadata (c # cs) =
     cbind (column_open (df_values fs) (df_indexes fs) (of_nat c) options metadata) (\<lambda>col.
     cbind (open_columns fs options metadata cs) (\<lambda>cols. cret (col # cols)))"

definition db_inner_open :: "crates \<Rightarrow> options \<Rightarrow> bool \<Rightarrow> bool \<Rightarrow> db_files \<Rightarrow> db_inner comp" where
  "db_inner_open cr options create skip_check_lock fs =
     cbind (Some (case df_locked fs of
                    Some e \<Rightarrow> if skip_check_lock then Inr () else Inl (Err (Locked e))
                  | None \<Rightarrow> Inr ())) (\<lambda>_.
     cbind (Some (load_and_validate_metadata (cr_hex_encode cr) (cr_hex_decode cr) (cr_random_salt cr)
                    options (df_metadata fs) create)) (\<lambda>(metadata, _).
     cbind (Some (log_open (op_sync_wal options) (df_logs fs))) (\<lambda>log.
     cbind (open_columns fs options metadata [0..<length (md_columns metadata)]) (\<lambda>columns.
       cret \<lparr>db_columns = columns,
             db_options = options\<lparr>op_salt := (case op_salt options of Some s \<Rightarrow> Some s | None \<Rightarrow> Some (md_salt metadata))\<rparr>,
             db_shutdown = False, db_log = log,
             db_commit_queue = \<lparr>cq_record_id = 0, cq_bytes = 0, cq_commits = []\<rparr>,
             db_commit_overlay = replicate (length (md_columns metadata)) commit_overlay_new,
             db_log_queue = 0,
             db_last_enacted = (case replay_record_id log of Some r \<Rightarrow> r | None \<Rightarrow> 2) - 1,
             db_next_reindex = 1, db_bg_err = None, db_version = md_version metadata\<rparr>))))"

section \<open>Reading\<close>

definition overlay_nth :: "db_inner \<Rightarrow> nat \<Rightarrow> commit_overlay option" where
  "overlay_nth db i = (if i < length (db_commit_overlay db) then Some (db_commit_overlay db ! i) else None)"

definition db_get :: "crates \<Rightarrow> u8 \<Rightarrow> bytes \<Rightarrow> db_inner \<Rightarrow> (bytes option \<times> db_inner) comp" where
  "db_get cr col key db =
     cbind (Some (column_nth db (unat col))) (\<lambda>c.
       let overlay = overlay_nth db (unat col); q = overlays_query (lg_overlays (db_log db))
       in case c of
            Hash hc \<Rightarrow>
              cbind (Some (column_hash_key (cr_blake2b cr) hc key)) (\<lambda>k.
                case Option.bind overlay (\<lambda>ov. overlay_get ov k) of
                  Some v \<Rightarrow> cret (v, db)
                | None \<Rightarrow> cbind (hash_get (cr_codecs cr) hc k q) (\<lambda>(r, hc).
                    cret (r, set_column (unat col) (Hash hc) db)))
          | Tree b \<Rightarrow>
              (case Option.bind overlay (\<lambda>ov. overlay_btree_get ov key) of
                 Some v \<Rightarrow> cret (v, db)
               | None \<Rightarrow> cbind (btree_table_get (cr_codecs cr) key q (btree_locked b)) (\<lambda>r. cret (r, db))))"

definition db_get_size :: "crates \<Rightarrow> u8 \<Rightarrow> bytes \<Rightarrow> db_inner \<Rightarrow> (u32 option \<times> db_inner) comp" where
  "db_get_size cr col key db =
     cbind (Some (column_nth db (unat col))) (\<lambda>c.
       let overlay = overlay_nth db (unat col); q = overlays_query (lg_overlays (db_log db))
       in case c of
            Hash hc \<Rightarrow>
              cbind (Some (column_hash_key (cr_blake2b cr) hc key)) (\<lambda>k.
                case Option.bind overlay (\<lambda>ov. overlay_get_size ov k) of
                  Some l \<Rightarrow> cret (l, db)
                | None \<Rightarrow> cbind (hash_get_size (cr_codecs cr) hc k q) (\<lambda>(r, hc).
                    cret (r, set_column (unat col) (Hash hc) db)))
          | Tree b \<Rightarrow>
              (case Option.bind overlay (\<lambda>ov. overlay_btree_get ov key) of
                 Some v \<Rightarrow> cret (map_option (\<lambda>v. of_nat (length v)) v, db)
               | None \<Rightarrow> cbind (btree_table_get (cr_codecs cr) key q (btree_locked b)) (\<lambda>r.
                   cret (map_option (\<lambda>v. of_nat (length v)) r, db))))"

definition db_btree_iter :: "crates \<Rightarrow> u8 \<Rightarrow> db_inner \<Rightarrow> btree_iterator comp" where
  "db_btree_iter cr col db =
     cbind (Some (column_nth db (unat col))) (\<lambda>c.
       case c of
         Hash _ \<Rightarrow> Some (Inl (Err (InvalidConfiguration ''Not an indexed column.'')))
       | Tree b \<Rightarrow> btree_iterator_new (cr_codecs cr) b col (lg_overlays (db_log db)))"

definition db_iter_column_while :: "crates \<Rightarrow> u8 \<Rightarrow> (iter_state \<Rightarrow> 's \<Rightarrow> bool \<times> 's) \<Rightarrow> db_inner \<Rightarrow> 's \<Rightarrow> 's comp" where
  "db_iter_column_while cr col f db st =
     cbind (Some (column_nth db (unat col))) (\<lambda>c.
       case c of
         Hash hc \<Rightarrow> hash_iter_while (cr_blake2b cr) (cr_codecs cr) hc (overlays_query (lg_overlays (db_log db))) f st
       | Tree _ \<Rightarrow> Some (Inl Panic))"

section \<open>Committing\<close>

definition push_change :: "u8 \<Rightarrow> bytes \<times> bytes option \<Rightarrow> (u8 \<times> change_set) list \<Rightarrow> (u8 \<times> change_set) list" where
  "push_change c kv m = AList.update c (alist_or_default m c @ [kv]) m"

fun build_commit :: "crates \<Rightarrow> options \<Rightarrow> u32 \<Rightarrow> (u8 \<times> bytes \<times> bytes option) list \<Rightarrow> commit_change_set \<Rightarrow>
    commit_change_set res" where
  "build_commit cr options version [] cs = Inr cs"
| "build_commit cr options version ((c, k, v) # tx) cs =
     (if unat c < length (op_columns options) then
        let co = op_columns options ! unat c
        in if co_btree_index co
           then build_commit cr options version tx (cs\<lparr>cs_btree_indexed := push_change c (k, v) (cs_btree_indexed cs)\<rparr>)
           else
             rbind (hash_key (cr_blake2b cr) k (case op_salt options of Some s \<Rightarrow> s | None \<Rightarrow> replicate 32 0)
                      (co_uniform co) version) (\<lambda>k.
               build_commit cr options version tx (cs\<lparr>cs_indexed := push_change c (k, v) (cs_indexed cs)\<rparr>))
      else Inl Panic)"

text \<open>\<open>commit_raw\<close> waits while this holds.\<close>

definition commit_waits :: "db_inner \<Rightarrow> bool" where
  "commit_waits db = (MAX_COMMIT_QUEUE_BYTES < cq_bytes (db_commit_queue db))"

text \<open>The loops over the columns of a change set, with the change \<open>f\<close> of one overlay.\<close>

fun update_overlays :: "(u8 \<Rightarrow> change_set \<Rightarrow> commit_overlay \<Rightarrow> commit_overlay res) \<Rightarrow> (u8 \<times> change_set) list \<Rightarrow>
    commit_overlay list \<Rightarrow> commit_overlay list res" where
  "update_overlays f [] ovs = Inr ovs"
| "update_overlays f ((c, cs) # rest) ovs =
     (if unat c < length ovs then
        rbind (f c cs (ovs ! unat c)) (\<lambda>ov. update_overlays f rest (ovs[unat c := ov]))
      else Inl Panic)"

definition column_ref_counted :: "options \<Rightarrow> u8 \<Rightarrow> bool res" where
  "column_ref_counted options c =
     (if unat c < length (op_columns options) then Inr (co_ref_counted (op_columns options ! unat c)) else Inl Panic)"

definition commit_overlays :: "options \<Rightarrow> u64 \<Rightarrow> commit_change_set \<Rightarrow> commit_overlay list \<Rightarrow> commit_overlay list res" where
  "commit_overlays options record_id cs ovs =
     rbind (update_overlays (\<lambda>c ch ov. rbind (column_ref_counted options c) (\<lambda>rc.
              Inr (indexed_copy_to_overlay rc record_id ch ov))) (cs_indexed cs) ovs) (\<lambda>ovs.
       update_overlays (\<lambda>c ch ov. rbind (column_ref_counted options c) (\<lambda>rc.
         Inr (btree_copy_to_overlay rc record_id ch ov))) (cs_btree_indexed cs) ovs)"

definition changeset_bytes :: "commit_change_set \<Rightarrow> nat" where
  "changeset_bytes cs = sum_list (map (change_bytes \<circ> snd) (cs_indexed cs @ cs_btree_indexed cs))"

definition commit_raw :: "commit_change_set \<Rightarrow> db_inner \<Rightarrow> db_inner res" where
  "commit_raw cs db =
     (case db_bg_err db of
        Some e \<Rightarrow> Inl (Err (Background e))
      | None \<Rightarrow>
          let queue = db_commit_queue db;
              queue_id = cq_record_id queue + 1;
              record_id = queue_id + 1
          in rbind (commit_overlays (db_options db) record_id cs (db_commit_overlay db)) (\<lambda>ovs.
               Inr (db\<lparr>db_commit_overlay := ovs,
                       db_commit_queue := \<lparr>cq_record_id = queue_id,
                         cq_bytes = cq_bytes queue + changeset_bytes cs,
                         cq_commits = cq_commits queue @
                           [\<lparr>cm_id = record_id, cm_bytes = changeset_bytes cs, cm_changeset = cs\<rparr>]\<rparr>\<rparr>)))"

definition db_commit :: "crates \<Rightarrow> (u8 \<times> bytes \<times> bytes option) list \<Rightarrow> db_inner \<Rightarrow> db_inner res" where
  "db_commit cr tx db =
     rbind (build_commit cr (db_options db) (db_version db) tx \<lparr>cs_indexed = [], cs_btree_indexed = []\<rparr>) (\<lambda>cs.
       commit_raw cs db)"

end
