(* ===== verification/BTree_Correct.thy ===== *)
theory BTree_Correct
  imports BTree_Open Db
begin

text \<open>
  The properties of ordered columns, with their instances on concrete states. \<open>ordered_rep\<close> says
  which map an ordered column holds, as a writer or reader sees it; \<open>write_budget\<close> bounds the slots that a batch may take.
  A column with reference counts holds no map in this sense: there \<open>write_existing_value_plan\<close> takes the
  rewriting of a node or of the header for one more reference, so that the tree on disk stays as it was.
\<close>

section \<open>Ordered columns as maps\<close>

definition ordered_rep :: "codecs \<Rightarrow> nat \<Rightarrow> nat \<Rightarrow> btree_table \<Rightarrow> log_query \<Rightarrow> nat \<Rightarrow> nat \<Rightarrow> (bytes \<rightharpoonup> bytes) \<Rightarrow> bool" where
  "ordered_rep cd K V b q m d M \<longleftrightarrow> codecs_ok cd \<and> (\<exists>\<sigma> h t. store_rep cd (btree_locked b) q (m * (node_limit K + V + 31)) \<sigma> \<and>
     btree_holds K \<sigma> h t \<and> unat (bh_depth h) \<le> d \<and> tree_map \<sigma> t = M)"

definition write_budget :: "nat \<Rightarrow> nat \<Rightarrow> nat" where
  "write_budget D n = (cost D + 1) * n + 2"

definition small_batch :: "nat \<Rightarrow> nat \<Rightarrow> btree_change list \<Rightarrow> bool" where
  "small_batch K V changes \<longleftrightarrow> (\<forall>c\<in>set changes. length (fst c) \<le> K \<and> (\<forall>v. snd c = Some v \<longrightarrow> length v \<le> V))"

lemma locked_tables: "btree_locked (b\<lparr>bc_tables := ts\<rparr>) = with_tables (btree_locked b) ts"
  by (simp add: btree_locked_def with_tables_def)

lemma ordered_rep_write:
  assumes r: "ordered_rep cd K V b (writer_query w) (write_budget D (length changes) + m) d M" and ch: "small_batch K V changes"
    and d: "d + length changes \<le> D" and D: "D < 2 ^ 32" and K: "K < 2 ^ 32"
  shows "\<exists>b' w'. btree_write_plan cd changes b w = cret (b', w') \<and> ordered_rep cd K V b' (writer_query w') m D (fold apply_change changes M)"
proof -
  let ?T = "btree_locked b"
  obtain \<sigma> h t where s: "codecs_ok cd" "store_rep cd ?T (writer_query w) ((write_budget D (length changes) + m) * (node_limit K + V + 31)) \<sigma>"
      "btree_holds K \<sigma> h t" "unat (bh_depth h) \<le> d" "tree_map \<sigma> t = M"
    using r unfolding ordered_rep_def by blast
  have wb: "write_budget D (length changes) + m = (cost D + 1) * length changes + Suc (Suc m)" by (simp add: write_budget_def)
  have st: "tree_store cd K V ?T (?T, w) ((cost D + 1) * length changes + Suc (Suc m)) \<sigma>"
    using s(1,2) unfolding wb by (simp add: tree_store_def with_tables_def)
  have "unat (bh_depth h) + length changes \<le> D" using s(4) d by simp
  from ns.btree_write_plan_is[OF K D st s(3) ch[unfolded small_batch_def] this]
  obtain tb w' \<sigma>' h' t' where x: "btree_write_plan cd changes b w = cret (b\<lparr>bc_tables := tr_tables tb\<rparr>, w')" "tree_store cd K V ?T (tb, w') m \<sigma>'"
      "btree_holds K \<sigma>' h' t'" "entries \<sigma>' t' = fold change_entries (sort_key fst changes) (entries \<sigma> t)" "unat (bh_depth h') \<le> D"
    by - (elim exE conjE, rule that, assumption+)
  have "tree_map \<sigma>' t' = fold apply_change changes M"
    using s(5) x(4) by (simp add: tree_map_def entry_map_fold apply_changes_sorted)
  moreover have "btree_locked (b\<lparr>bc_tables := tr_tables tb\<rparr>) = tb" using x(2) by (simp add: tree_store_def locked_tables)
  ultimately have "ordered_rep cd K V (b\<lparr>bc_tables := tr_tables tb\<rparr>) (writer_query w') m D (fold apply_change changes M)"
    using s(1) x(2,3,5) unfolding ordered_rep_def tree_store_def by auto
  then show ?thesis using x(1) by blast
qed

lemma ordered_rep_get: "ordered_rep cd K V b q m d M \<Longrightarrow> btree_table_get cd key q (btree_locked b) = cret (M key)"
  using btree_table_get_is[OF store_reads] unfolding ordered_rep_def by blast

text \<open>The number of entries below a node: every child of the root has at least \<open>p - 1\<close>.\<close>

lemma weave_count:
  "length ks = Suc (length xs) \<Longrightarrow> \<forall>k\<in>set ks. p \<le> Suc (length k) \<Longrightarrow> Suc (length xs) * p \<le> Suc (length (weave xs ks))"
proof (induction xs ks rule: weave.induct)
  case (2 k ks)
  then show ?case by (cases ks) auto
next
  case (3 x xs k ks)
  then have "Suc (length xs) * p \<le> Suc (length (weave xs ks))" "p \<le> Suc (length k)" by auto
  then show ?case by simp
qed simp

lemma kids_count:
  assumes "wf_tree (Suc e) t" and "\<And>k. k \<in> set (br_kids t) \<Longrightarrow> p \<le> Suc (length (inorder (snd k)))"
  shows "Suc (length (br_seps t)) * p \<le> Suc (length (inorder t))"
  using weave_count[of "map (\<lambda>k. inorder (snd k)) (br_kids t)" "br_seps t" p] assms wf_tree_parts(3)[OF assms(1) refl] by (cases t) auto

lemma entries_below:
  "wf_tree d t \<Longrightarrow> ORDER div 2 \<le> length (br_seps t) \<Longrightarrow> 5 ^ Suc d \<le> Suc (length (inorder t))"
proof (induction d arbitrary: t)
  case 0
  then show ?case using inorder_leaf[of t] by (simp add: ORDER_def)
next
  case (Suc e)
  have "Suc (length (br_seps t)) * 5 ^ Suc e \<le> Suc (length (inorder t))"
    by (rule kids_count[OF Suc.prems(1)]) (use Suc.IH wf_tree_parts(4)[OF Suc.prems(1) refl] in blast)
  moreover have "5 * 5 ^ Suc e \<le> Suc (length (br_seps t)) * 5 ^ Suc e" using Suc.prems(2) by (intro mult_le_mono1) (simp add: ORDER_def)
  ultimately have "5 * 5 ^ Suc e \<le> Suc (length (inorder t))" by linarith
  then show ?case by simp
qed

lemma tree_map_dom:
  assumes "ordered (inorder t)" and "tree_in \<sigma> t"
  shows "card (dom (tree_map \<sigma> t)) = length (inorder t)"
proof -
  have v: "\<sigma> (si_value x) \<noteq> None" if "x \<in> set (inorder t)" for x
    using that assms(2) values_owned[of t] by (auto simp: tree_in_iff domIff)
  have "dom (tree_map \<sigma> t) = si_key ` set (inorder t)"
  proof -
    have "k \<in> dom (tree_map \<sigma> t) \<longleftrightarrow> k \<in> si_key ` set (inorder t)" for k
      using v map_of_SomeD[of "entries \<sigma> t" k] map_of_eq_None_iff[of "entries \<sigma> t" k]
      by (auto simp: tree_map_def entry_map_def entries_def ent_def image_image split: option.splits)
    then show ?thesis by blast
  qed
  moreover have "distinct (map si_key (inorder t))" using assms(1) by (simp add: strict_sorted_iff)
  ultimately show ?thesis by (metis distinct_card length_map set_map)
qed

lemma depth_bound:
  assumes "btree_holds K \<sigma> h t" and "bh_depth h \<noteq> 0"
  shows "2 * 5 ^ unat (bh_depth h) \<le> Suc (card (dom (tree_map \<sigma> t)))"
proof -
  note B = btree_holdsD[OF assms(1)]
  obtain e where e: "unat (bh_depth h) = Suc e" using assms(2) by (cases "unat (bh_depth h)") (auto simp: unat_eq_0)
  have "Suc (length (br_seps t)) * 5 ^ Suc e \<le> Suc (length (inorder t))"
    by (rule kids_count[OF B(3)[unfolded e]]) (use entries_below wf_tree_parts(4)[OF B(3) e] in blast)
  moreover have "2 * 5 ^ Suc e \<le> Suc (length (br_seps t)) * 5 ^ Suc e"
    using B(7)[OF assms(2)] by (intro mult_le_mono1) (cases "br_seps t"; simp)
  ultimately show ?thesis unfolding e tree_map_dom[OF B(5,4)] by linarith
qed

section \<open>A new ordered column\<close>

definition btree_metadata :: metadata where
  "btree_metadata = \<lparr>md_salt = replicate 32 0, md_version = 7, md_columns = [column_options_default\<lparr>co_btree_index := True\<rparr>]\<rparr>"

lemma empty_values: "q_value (writer_query (log_writer_new empty_overlays r)) i j = None" "q_value (overlays_query empty_overlays) i j = None"
  by (simp_all add: writer_query_def overlays_query_def log_writer_new_def log_change_new_def empty_overlays_def value_lookup_def)

lemma ordered_rep_new:
  assumes "unat col < length (md_columns metadata)" and "co = md_columns metadata ! unat col" and "\<not> co_ref_counted co"
  shows "\<exists>b. btree_table_open col (new_tables col co (md_version metadata)) metadata = cret b \<and>
     (\<forall>cd K V q m. codecs_ok cd \<longrightarrow> (\<forall>i j. q_value q i j = None) \<longrightarrow> m * (node_limit K + V + 31) + 2 < 2 ^ 56 \<longrightarrow>
        ordered_rep cd K V b q m 0 Map.empty)"
proof -
  obtain b where b: "btree_table_open col (new_tables col co (md_version metadata)) metadata = cret b"
      "\<And>cd q B. \<forall>i j. q_value q i j = None \<Longrightarrow> B + 2 < 2 ^ 56 \<Longrightarrow> store_rep cd (btree_locked b) q B empty_store"
    using btree_open_new[OF assms] by blast
  have "ordered_rep cd K V b q m 0 Map.empty"
    if "codecs_ok cd" "\<forall>i j. q_value q i j = None" "m * (node_limit K + V + 31) + 2 < 2 ^ 56" for cd K V q m
    unfolding ordered_rep_def using that(1) b(2)[OF that(2,3)] holds_empty map_empty
    by (intro conjI exI[of _ empty_store] exI[of _ empty_header] exI[of _ "Br [] []"]) (simp_all add: empty_header_def)
  then show ?thesis using b(1) by blast
qed

text \<open>A column to which the properties are applied.\<close>

lemma sample_ordered:
  "\<exists>b. btree_table_open 0 (new_tables 0 (column_options_default\<lparr>co_btree_index := True\<rparr>) 7) btree_metadata = cret b \<and>
     ordered_rep no_codec 10 10 b (writer_query (log_writer_new empty_overlays 1)) 1000 0 Map.empty"
proof -
  have "unat (0 :: u8) < length (md_columns btree_metadata)" by (simp add: btree_metadata_def)
  from ordered_rep_new[OF this refl] no_codec_ok empty_values(1)[of 1] show ?thesis
    by (fastforce simp: btree_metadata_def column_options_default_def node_limit_def ORDER_def)
qed


section \<open>Properties\<close>

text \<open>
  C6: Writing a batch of changes to an ordered column without reference counts returns, for every batch and every tree that the column can hold, and the column then holds the map
  updated by the changes in the order of the batch, although they are applied sorted by key, several to
  a node, with nodes split, merged and rebalanced on the way.
\<close>

theorem btree_write_refines:
  assumes "ordered_rep cd K V b (writer_query w) (write_budget D (length changes) + m) d M" and "small_batch K V changes"
    and "d + length changes \<le> D" and "D < 2 ^ 32" and "K < 2 ^ 32"
  shows "\<exists>b' w'. btree_write_plan cd changes b w = Some (Inr (b', w')) \<and>
     ordered_rep cd K V b' (writer_query w') m D (fold (\<lambda>(k, v) M. M(k := v)) changes M)"
proof -
  have "apply_change = (\<lambda>(k, v) M. M(k := v))" by (auto simp: apply_change_def fun_eq_iff)
  then show ?thesis using ordered_rep_write[OF assms] by (simp add: cret_def)
qed

theorem btree_write_refines_witness:
  "\<exists>b b' w'. btree_table_open 0 (new_tables 0 (column_options_default\<lparr>co_btree_index := True\<rparr>) 7) btree_metadata = Some (Inr b) \<and>
     btree_write_plan no_codec [([2], Some [7]), ([1], Some [8]), ([2], None)] b (log_writer_new empty_overlays 1) = Some (Inr (b', w')) \<and>
     ordered_rep no_codec 10 10 b' (writer_query w') 947 3 [[1] \<mapsto> [8]]"
proof -
  obtain b where b: "btree_table_open 0 (new_tables 0 (column_options_default\<lparr>co_btree_index := True\<rparr>) 7) btree_metadata = cret b"
      "ordered_rep no_codec 10 10 b (writer_query (log_writer_new empty_overlays 1)) 1000 0 Map.empty"
    using sample_ordered by blast
  have "ordered_rep no_codec 10 10 b (writer_query (log_writer_new empty_overlays 1))
      (write_budget 3 (length [([2 :: u8], Some [7 :: u8]), ([1], Some [8]), ([2], None)]) + 947) 0 Map.empty"
    using b(2) by (simp add: write_budget_def cost_def)
  from btree_write_refines[OF this] show ?thesis
    using b(1) by (fastforce simp: small_batch_def cret_def fun_upd_twist)
qed

text \<open>
  C8: A lookup in an ordered column (without reference counts), which walks the stored nodes from the
  root, gives the value that the column holds for the key, or nothing when it holds none.
\<close>

theorem btree_get_is_lookup:
  assumes "ordered_rep cd K V b q m d M"
  shows "btree_table_get cd key q (btree_locked b) = Some (Inr (M key))"
  using ordered_rep_get[OF assms] by (simp add: cret_def)

theorem btree_get_is_lookup_witness:
  "\<exists>b. btree_table_open 0 (new_tables 0 (column_options_default\<lparr>co_btree_index := True\<rparr>) 7) btree_metadata = Some (Inr b) \<and>
     btree_table_get no_codec [1] (writer_query (log_writer_new empty_overlays 1)) (btree_locked b) = Some (Inr None)"
  using sample_ordered btree_get_is_lookup[of no_codec 10 10 _ "writer_query (log_writer_new empty_overlays 1)" 1000 0 Map.empty "[1]"]
  by (auto simp: cret_def)

text \<open>
  C7: After a batch is written to an ordered column without reference counts, a
  lookup of a key through the same record gives what the last change of the key in the batch says; a
  key that the batch does not name gives what it gave before.
\<close>

theorem btree_batch_get:
  assumes "ordered_rep cd K V b (writer_query w) (write_budget D (length changes) + m) d M" and "small_batch K V changes"
    and "d + length changes \<le> D" and "D < 2 ^ 32" and "K < 2 ^ 32"
  shows "\<exists>b' w'. btree_write_plan cd changes b w = Some (Inr (b', w')) \<and>
     (\<forall>k. btree_table_get cd k (writer_query w') (btree_locked b') =
        (case filter (\<lambda>c. fst c = k) changes of
           [] \<Rightarrow> btree_table_get cd k (writer_query w) (btree_locked b)
         | cs \<Rightarrow> Some (Inr (snd (last cs)))))"
proof -
  obtain b' w' where w: "btree_write_plan cd changes b w = cret (b', w')" "ordered_rep cd K V b' (writer_query w') m D (fold apply_change changes M)"
    using ordered_rep_write[OF assms] by blast
  have "btree_table_get cd k (writer_query w') (btree_locked b') = (case filter (\<lambda>c. fst c = k) changes of
      [] \<Rightarrow> btree_table_get cd k (writer_query w) (btree_locked b) | cs \<Rightarrow> Some (Inr (snd (last cs))))" for k
    unfolding ordered_rep_get[OF assms(1)] ordered_rep_get[OF w(2)] by (auto simp: apply_changes_at Let_def cret_def split: list.split)
  then show ?thesis using w(1) by (auto simp: cret_def)
qed

theorem btree_batch_get_witness:
  "\<exists>b b' w'. btree_table_open 0 (new_tables 0 (column_options_default\<lparr>co_btree_index := True\<rparr>) 7) btree_metadata = Some (Inr b) \<and>
     btree_write_plan no_codec [([2], Some [7]), ([1], Some [8])] b (log_writer_new empty_overlays 1) = Some (Inr (b', w')) \<and>
     btree_table_get no_codec [2] (writer_query w') (btree_locked b') = Some (Inr (Some [7]))"
proof -
  let ?cs = "[([2 :: u8], Some [7 :: u8]), ([1], Some [8])]"
  obtain b where b: "btree_table_open 0 (new_tables 0 (column_options_default\<lparr>co_btree_index := True\<rparr>) 7) btree_metadata = cret b"
      "ordered_rep no_codec 10 10 b (writer_query (log_writer_new empty_overlays 1)) 1000 0 Map.empty"
    using sample_ordered by blast
  have r: "ordered_rep no_codec 10 10 b (writer_query (log_writer_new empty_overlays 1)) (write_budget 2 (length ?cs) + 972) 0 Map.empty"
    using b(2) by (simp add: write_budget_def cost_def)
  have "small_batch 10 10 ?cs" "0 + length ?cs \<le> 2" "(2 :: nat) < 2 ^ 32" "(10 :: nat) < 2 ^ 32" by (simp_all add: small_batch_def)
  from btree_batch_get[OF r this] obtain b' w' where w: "btree_write_plan no_codec ?cs b (log_writer_new empty_overlays 1) = Some (Inr (b', w'))"
      "\<And>k. btree_table_get no_codec k (writer_query w') (btree_locked b') = (case filter (\<lambda>c. fst c = k) ?cs of
        [] \<Rightarrow> btree_table_get no_codec k (writer_query (log_writer_new empty_overlays 1)) (btree_locked b) | cs \<Rightarrow> Some (Inr (snd (last cs))))"
    by blast
  from w(2)[of "[2]"] have "btree_table_get no_codec [2] (writer_query w') (btree_locked b') = Some (Inr (Some [7]))" by simp
  then show ?thesis using b(1) w(1) by (auto simp: cret_def)
qed

text \<open>
  C28: An ordered column without reference counts, opened on a directory without files, has the header
  of an empty tree in the first slot of its first table: it opens, holds the empty map, and every lookup
  gives nothing.
\<close>

theorem btree_open_empty:
  assumes "unat col < length (md_columns metadata)" and "co_btree_index (md_columns metadata ! unat col)"
    and "\<not> co_ref_counted (md_columns metadata ! unat col)" and "codecs_ok cd" and "m * (node_limit K + V + 31) + 2 < 2 ^ 56"
  shows "\<exists>b. column_open (\<lambda>_. None) (\<lambda>_. None) col options metadata = Some (Inr (Tree b)) \<and>
     ordered_rep cd K V b (writer_query (log_writer_new empty_overlays rid)) m 0 Map.empty \<and>
     (\<forall>k. btree_table_get cd k (overlays_query empty_overlays) (btree_locked b) = Some (Inr None))"
proof -
  let ?co = "md_columns metadata ! unat col"
  obtain b where b: "btree_table_open col (new_tables col ?co (md_version metadata)) metadata = cret b"
      "\<And>q. \<forall>i j. q_value q i j = None \<Longrightarrow> ordered_rep cd K V b q m 0 Map.empty"
    using ordered_rep_new[OF assms(1) refl assms(3)] assms(4,5) by blast
  have "column_open (\<lambda>_. None) (\<lambda>_. None) col options metadata = cret (Tree b)"
    using assms(1,2) b(1) by (simp add: column_open_def open_new_tables new_tables_def Let_def cret_def)
  then show ?thesis
    using b(2)[of "writer_query (log_writer_new empty_overlays rid)"] ordered_rep_get[OF b(2), of "overlays_query empty_overlays"]
    by (auto simp: empty_values cret_def)
qed

theorem btree_open_empty_witness:
  "\<exists>b. column_open (\<lambda>_. None) (\<lambda>_. None) 0 (with_columns 1) btree_metadata = Some (Inr (Tree b)) \<and>
     btree_table_get no_codec [1] (overlays_query empty_overlays) (btree_locked b) = Some (Inr None)"
proof -
  have "unat (0 :: u8) < length (md_columns btree_metadata)" "co_btree_index (md_columns btree_metadata ! unat (0 :: u8))"
      "\<not> co_ref_counted (md_columns btree_metadata ! unat (0 :: u8))" "0 * (node_limit 0 + 0 + 31) + 2 < (2 :: nat) ^ 56"
    by (simp_all add: btree_metadata_def column_options_default_def)
  from btree_open_empty[OF this(1-3) no_codec_ok this(4), of "with_columns 1" 1] show ?thesis by blast
qed


text \<open>The batches of several commits, one after the other.\<close>

fun write_batches :: "codecs \<Rightarrow> btree_change list list \<Rightarrow> btree_table \<Rightarrow> log_writer \<Rightarrow> (btree_table \<times> log_writer) comp" where
  "write_batches cd [] b w = cret (b, w)"
| "write_batches cd (c # cs) b w = cbind (btree_write_plan cd c b w) (\<lambda>(b, w). write_batches cd cs b w)"

definition batches_budget :: "btree_change list list \<Rightarrow> nat" where
  "batches_budget bs = sum_list (map (\<lambda>c. write_budget (length (concat bs)) (length c)) bs)"

lemma ordered_rep_less:
  assumes "ordered_rep cd K V b (writer_query w) m d M" and "m' \<le> m"
  shows "ordered_rep cd K V b (writer_query w) m' d M"
proof -
  obtain \<sigma> h t where s: "codecs_ok cd" "store_rep cd (btree_locked b) (writer_query w) (m * (node_limit K + V + 31)) \<sigma>"
      "btree_holds K \<sigma> h t" "unat (bh_depth h) \<le> d" "tree_map \<sigma> t = M"
    using assms(1) unfolding ordered_rep_def by blast
  have "tree_store cd K V (btree_locked b) (btree_locked b, w) m \<sigma>" using s(1,2) by (simp add: tree_store_def with_tables_def)
  from ns.store_weaken[OF this assms(2)] show ?thesis
    using s unfolding ordered_rep_def tree_store_def by auto
qed

lemma write_batches_rep:
  assumes "ordered_rep cd K V b (writer_query w) (sum_list (map (\<lambda>c. write_budget D (length c)) bs)) d M"
    and "\<forall>c\<in>set bs. small_batch K V c" and "d + length (concat bs) \<le> D" and "D < 2 ^ 32" and "K < 2 ^ 32"
  shows "\<exists>b' w' d'. write_batches cd bs b w = cret (b', w') \<and>
     ordered_rep cd K V b' (writer_query w') 0 d' (fold apply_change (concat bs) M)"
  using assms(1-3)
proof (induction bs arbitrary: b w d M)
  case Nil
  then show ?case by auto
next
  case (Cons c bs)
  let ?m = "sum_list (map (\<lambda>c. write_budget D (length c)) bs)" and ?d = "d + length c"
  have le: "?d \<le> D" using Cons.prems(3) by simp
  then have "write_budget ?d (length c) \<le> write_budget D (length c)" by (simp add: write_budget_def cost_def)
  then have "ordered_rep cd K V b (writer_query w) (write_budget ?d (length c) + ?m) d M"
    by (intro ordered_rep_less[OF Cons.prems(1)]) simp
  moreover have "small_batch K V c" "?d < 2 ^ 32" using Cons.prems(2) le assms(4) by auto
  ultimately obtain b1 w1 where w1: "btree_write_plan cd c b w = cret (b1, w1)"
      "ordered_rep cd K V b1 (writer_query w1) ?m ?d (fold apply_change c M)"
    using ordered_rep_write[OF _ _ le_refl] assms(5) by blast
  have "\<forall>c\<in>set bs. small_batch K V c" "?d + length (concat bs) \<le> D" using Cons.prems(2,3) by auto
  from Cons.IH[OF w1(2) this] show ?case using w1(1) by simp
qed

text \<open>
  C27: The depth that the header of an ordered column records is logarithmic in the number of keys,
  after any sequence of batches of any changes is written to a new column (of a kind without reference
  counts): with depth zero there are at most eight keys, and with depth \<open>d > 0\<close> at least \<open>2 * 5 ^ d - 1\<close>,
  because splitting, merging and rebalancing keep every node below the root at least half full.
\<close>

theorem btree_depth_logarithmic:
  assumes "unat col < length (md_columns metadata)" and "co = md_columns metadata ! unat col" and "\<not> co_ref_counted co"
    and "codecs_ok cd" and "\<forall>c\<in>set bs. small_batch K V c" and "length (concat bs) < 2 ^ 32" and "K < 2 ^ 32"
    and "batches_budget bs * (node_limit K + V + 31) + 2 < 2 ^ 56"
  shows "\<exists>b b' w' h. btree_table_open col (new_tables col co (md_version metadata)) metadata = Some (Inr b) \<and>
     write_batches cd bs b (log_writer_new empty_overlays rid) = Some (Inr (b', w')) \<and>
     fetch_btree_header cd (btree_locked b') (writer_query w') = Some (Inr h) \<and>
     (let n = card (dom (fold (\<lambda>(k, v) M. M(k := v)) (concat bs) Map.empty))
      in if bh_depth h = 0 then n \<le> ORDER else 2 * 5 ^ unat (bh_depth h) \<le> Suc n)"
proof -
  have ap: "apply_change = (\<lambda>(k, v) M. M(k := v))" by (auto simp: apply_change_def fun_eq_iff)
  obtain b where b: "btree_table_open col (new_tables col co (md_version metadata)) metadata = cret b"
      "ordered_rep cd K V b (writer_query (log_writer_new empty_overlays rid)) (batches_budget bs) 0 Map.empty"
    using ordered_rep_new[OF assms(1-3)] assms(4,8) empty_values(1)[of rid] by blast
  from write_batches_rep[OF b(2)[unfolded batches_budget_def] assms(5) _ assms(6,7)]
  obtain b' w' d' where w: "write_batches cd bs b (log_writer_new empty_overlays rid) = cret (b', w')"
      "ordered_rep cd K V b' (writer_query w') 0 d' (fold apply_change (concat bs) Map.empty)" by auto
  obtain \<sigma> h t where s: "store_rep cd (btree_locked b') (writer_query w') (0 * (node_limit K + V + 31)) \<sigma>" "btree_holds K \<sigma> h t"
      "tree_map \<sigma> t = fold apply_change (concat bs) Map.empty"
    using w(2) unfolding ordered_rep_def by blast
  have h: "fetch_btree_header cd (btree_locked b') (writer_query w') = cret h"
    by (rule fetch_header_is[OF store_reads[OF s(1)] btree_holdsD(1)[OF s(2)]])
  have "card (dom (tree_map \<sigma> t)) \<le> ORDER" if "bh_depth h = 0"
    using btree_holdsD[OF s(2)] that tree_map_dom inorder_leaf wf_tree_parts(1) by (fastforce simp: storable_def)
  then show ?thesis
    using b(1) w(1) h depth_bound[OF s(2)] unfolding s(3) ap by (auto simp: cret_def Let_def)
qed

text \<open>Nine keys do not fit in one node: the tree has depth one.\<close>

abbreviation nine_keys :: "btree_change list list" where
  "nine_keys \<equiv> [map (\<lambda>i. ([i], Some [7])) [1, 2, 3, 4, 5, 6, 7, 8, 9]]"

theorem btree_depth_logarithmic_witness:
  "\<exists>b b' w' h. btree_table_open 0 (new_tables 0 (column_options_default\<lparr>co_btree_index := True\<rparr>) 7) btree_metadata = Some (Inr b) \<and>
     write_batches no_codec nine_keys b (log_writer_new empty_overlays 1) = Some (Inr (b', w')) \<and>
     fetch_btree_header no_codec (btree_locked b') (writer_query w') = Some (Inr h) \<and> unat (bh_depth h) = 1"
proof -
  let ?co = "column_options_default\<lparr>co_btree_index := True\<rparr>"
  have c: "unat (0 :: u8) < length (md_columns btree_metadata)" "?co = md_columns btree_metadata ! unat (0 :: u8)"
      "\<not> co_ref_counted ?co" "md_version btree_metadata = 7"
    by (simp_all add: btree_metadata_def column_options_default_def)
  have n: "\<forall>c\<in>set nine_keys. small_batch 1 1 c" "length (concat nine_keys) < 2 ^ 32"
    by (simp_all add: small_batch_def)
  have m: "batches_budget nine_keys * (node_limit 1 + 1 + 31) + 2 < 2 ^ 56"
    by (simp add: batches_budget_def write_budget_def cost_def node_limit_def ORDER_def)
  have k: "card (dom (fold (\<lambda>(k, v) M. M(k := v)) (concat nine_keys) Map.empty)) = 9"
    by (simp add: insert_commute)
  have "(1 :: nat) < 2 ^ 32" by simp
  note t = btree_depth_logarithmic[OF c(1-3) no_codec_ok n this m, of 1, unfolded c(4) k Let_def]
  obtain b b' w' h where b: "btree_table_open 0 (new_tables 0 ?co 7) btree_metadata = Some (Inr b)"
      "write_batches no_codec nine_keys b (log_writer_new empty_overlays 1) = Some (Inr (b', w'))"
      "fetch_btree_header no_codec (btree_locked b') (writer_query w') = Some (Inr h)"
      "if bh_depth h = 0 then 9 \<le> ORDER else 2 * 5 ^ unat (bh_depth h) \<le> Suc 9"
    using t by blast
  from b(4) have z: "bh_depth h \<noteq> 0" "(5 :: nat) ^ unat (bh_depth h) \<le> 5 ^ 1" by (auto simp: ORDER_def split: if_splits)
  from power_le_imp_le_exp[OF _ z(2)] have "unat (bh_depth h) \<le> 1" by simp
  moreover have "unat (bh_depth h) \<noteq> 0" using z(1) by (simp add: unat_eq_0)
  ultimately show ?thesis using b(1-3) by (intro exI[of _ b] exI[of _ b'] exI[of _ w'] exI[of _ h]) simp
qed

text \<open>
  C26: A node that is written is read back: the separators of the decoded node are those of the encoded
  one, in the same positions, with the same children around them, and the decoded node carries no mark
  of change, so that it is not written again.
\<close>

theorem node_stored_roundtrip:
  assumes "node_is n xs cs" and "storable xs cs"
  shows "\<exists>enc n'. encode_node n = Inr enc \<and> from_encoded enc = Inr n' \<and> sepv n' = sepv n \<and>
     (\<forall>i \<le> number_separator n. ch_entry_index (nd_children n' ! i) = ch_entry_index (nd_children n ! i)) \<and> \<not> node_dirty n'"
proof -
  have n': "node_is (clean_node xs cs) xs cs" by (rule clean_node_is[OF assms(2)])
  have none: "set R \<subseteq> {None} \<Longrightarrow> R = replicate (length R) None" for R :: "separator_inner option list" by (induction R) auto
  have "sepv (clean_node xs cs) = sepv n"
    using n' assms(1) none unfolding node_is_def arr_def by (metis append_eq_append_conv length_append add_left_cancel)
  moreover have "ch_entry_index (nd_children (clean_node xs cs) ! i) = ch_entry_index (nd_children n ! i)" if i: "i \<le> length xs" for i
  proof (cases "cs = []")
    case True
    have "i < ORDER_CHILD" using i node_is_lengths(3)[OF assms(1)] by (simp add: node_consts)
    then show ?thesis using True node_is_no_kid n' assms(1) by metis
  next
    case False
    then have "i < length cs" using i assms(2) by (simp add: storable_def)
    then show ?thesis using node_is_kid[OF n'] node_is_kid[OF assms(1)] by simp
  qed
  ultimately show ?thesis using encode_node_is[OF assms(1)] decode_encode[OF assms(2)] by (auto simp: number_separator_is[OF assms(1)])
qed

definition pair_node :: node where
  "pair_node = clean_node [\<lparr>si_key = [1, 2], si_value = Address 5\<rparr>] [Address 3, Address 4]"

theorem node_stored_roundtrip_witness:
  "\<exists>enc n'. encode_node pair_node = Inr enc \<and> from_encoded enc = Inr n' \<and>
     sepv n' ! 0 = Some \<lparr>si_key = [1, 2], si_value = Address 5\<rparr> \<and> ch_entry_index (nd_children n' ! 1) = Some (Address 4) \<and> \<not> node_dirty n'"
proof -
  have "storable [\<lparr>si_key = [1, 2], si_value = Address 5\<rparr>] [Address 3, Address 4]"
    by (simp add: storable_def ORDER_def NULL_ADDRESS_def address_from_u64_def)
  note n = clean_node_is[OF this, folded pair_node_def]
  have "number_separator pair_node = 1" using number_separator_is[OF n] by simp
  moreover have "sepv pair_node ! 0 = Some \<lparr>si_key = [1, 2], si_value = Address 5\<rparr>"
      "ch_entry_index (nd_children pair_node ! 1) = Some (Address 4)"
    by (simp_all add: pair_node_def clean_node_def stored_separator_def stored_child_def)
  ultimately show ?thesis using node_stored_roundtrip[OF n \<open>storable _ _\<close>] by (metis order_refl)
qed

text \<open>
  C25: \<open>Node::change\<close> on the root of a stored tree (of a column without reference counts) ends for every
  sorted list of changes, without a panic or an error, and does what the changes say: it uses up a non-empty initial part of the list
  (the list that it returns begins with a change that is done), and the node with what it hands to
  its parent (a separator and a new node to the right of it, when it was split) is again a tree of the
  same depth whose entries are the old ones with the used changes applied in order.
\<close>

theorem node_change_ends:
  assumes "K < 2 ^ 32" and "tree_at K d \<sigma> n t" and "batch K V changes" and "tree_store cd K V T s (cost d * length changes) \<sigma>"
  shows "\<exists>r n' changes' s' used \<sigma>' ys t' ls. node_change cd d None n changes s = Some (Inr (r, n', changes', s')) \<and>
     changes = used @ tl changes' \<and> used \<noteq> [] \<and> changes' \<noteq> [] \<and>
     tree_store cd K V T s' (cost d * length (tl changes')) \<sigma>' \<and> root_is n' t' \<and> wf_tree d t' \<and> outcome r ys ls \<and>
     (\<forall>l\<in>set ls. wf_tree d (snd l)) \<and> ent \<sigma>' (flat t' ys ls) = fold change_entries used (entries \<sigma> t)"
proof -
  have st: "tree_store cd K V T s (cost d * length changes + 0) \<sigma>" using assms(4) by simp
  show ?thesis
    by (rule ns.runsE[OF ns.node_change_root[OF assms(1-3) st]])
      (unfold changed_def cret_def add_0_right, elim conjE, intro exI conjI, assumption+, blast, assumption)
qed

lemma sample_store:
  "\<exists>b. btree_table_open 0 (new_tables 0 (column_options_default\<lparr>co_btree_index := True\<rparr>) 7) btree_metadata = cret b \<and>
     tree_store no_codec 10 10 (btree_locked b) (btree_locked b, log_writer_new empty_overlays 1) 1000 empty_store"
proof -
  have "unat (0 :: u8) < length (md_columns btree_metadata)" by (simp add: btree_metadata_def)
  from btree_open_new[OF this refl] no_codec_ok empty_values(1)[of 1] show ?thesis
    by (fastforce simp: btree_metadata_def column_options_default_def node_limit_def ORDER_def tree_store_def with_tables_def)
qed

lemma sample_tree: "tree_at 10 0 empty_store node_default (Br [] [])" "batch 10 10 [([1], Some [7]), ([2], None)]"
  using node_default_is(1) by (simp_all add: tree_at_def storable_def loose_def small_def batch_def)

theorem node_change_ends_witness:
  "\<exists>b r n' changes' s' \<sigma>' ys t' ls. btree_table_open 0 (new_tables 0 (column_options_default\<lparr>co_btree_index := True\<rparr>) 7) btree_metadata = Some (Inr b) \<and>
     node_change no_codec 0 None node_default [([1], Some [7]), ([2], None)] (btree_locked b, log_writer_new empty_overlays 1) =
       Some (Inr (r, n', changes', s')) \<and> root_is n' t' \<and> outcome r ys ls \<and> ent \<sigma>' (flat t' ys ls) = [([1], Some [7])]"
proof -
  let ?cs = "[([1 :: u8], Some [7 :: u8]), ([2], None)]"
  obtain b where b: "btree_table_open 0 (new_tables 0 (column_options_default\<lparr>co_btree_index := True\<rparr>) 7) btree_metadata = cret b"
      "tree_store no_codec 10 10 (btree_locked b) (btree_locked b, log_writer_new empty_overlays 1) 1000 empty_store"
    using sample_store by blast
  have "tree_store no_codec 10 10 (btree_locked b) (btree_locked b, log_writer_new empty_overlays 1)
      (cost 0 * length ?cs) empty_store"
    by (rule ns.store_weaken[OF b(2)]) (simp add: cost_def)
  from node_change_ends[OF _ sample_tree this] obtain r n' changes' s' used \<sigma>' ys t' ls where c:
      "node_change no_codec 0 None node_default ?cs (btree_locked b, log_writer_new empty_overlays 1) = Some (Inr (r, n', changes', s'))"
      "?cs = used @ tl changes'" "used \<noteq> []" "root_is n' t'" "outcome r ys ls"
      "ent \<sigma>' (flat t' ys ls) = fold change_entries used (entries empty_store (Br [] []))" by auto
  have "used = [([1], Some [7])] \<or> used = ?cs"
    using c(2,3) by (cases used; cases "tl used") (auto simp: Cons_eq_append_conv)
  then have "fold change_entries used (entries empty_store (Br [] [])) = [([1], Some [7])]"
    by (auto simp: change_entries_def put_entry_def cut_entry_def entries_def ent_def)
  then have e: "ent \<sigma>' (flat t' ys ls) = [([1], Some [7])]" using c(6) by simp
  have "btree_table_open 0 (new_tables 0 (column_options_default\<lparr>co_btree_index := True\<rparr>) 7) btree_metadata = Some (Inr b)"
    using b(1) by (simp add: cret_def)
  with c(1,4,5) e show ?thesis by blast
qed

text \<open>
  C24: Applying a sorted batch to an ordered column without reference counts keeps the tree well formed: all leaves stay at the depth that the header
  records, every node below the root has at least four and at most eight separators, the keys stay
  strictly ordered, the root has a separator unless it is a leaf, and no address is used twice.
\<close>

theorem btree_write_keeps_shape:
  assumes "btree_holds K \<sigma> h t" and "tree_store cd K V T s ((cost D + 1) * length changes + Suc m) \<sigma>"
    and "changes = [] \<or> batch K V changes" and "unat (bh_depth h) + length changes \<le> D" and "D < 2 ^ 32" and "K < 2 ^ 32"
  shows "\<exists>bt' s' \<sigma>' h' t'. write_sorted_changes cd changes (btree_of h r) s = Some (Inr (bt', s')) \<and>
     bt_root_index bt' = Some (bh_root h') \<and> bt_depth bt' = bh_depth h' \<and> tree_store cd K V T s' m \<sigma>' \<and>
     btree_holds K (\<sigma>'(HEADER_ADDRESS \<mapsto> header_bytes h')) h' t'"
  using ns.write_sorted_changes_is[OF assms(6,5,2,1,3,4), of r] by (fastforce simp: cret_def)

theorem btree_write_keeps_shape_witness:
  "\<exists>b bt' s' \<sigma>' h' t'. btree_table_open 0 (new_tables 0 (column_options_default\<lparr>co_btree_index := True\<rparr>) 7) btree_metadata = Some (Inr b) \<and>
     write_sorted_changes no_codec [([1], Some [7]), ([2], None)] (btree_of empty_header 1) (btree_locked b, log_writer_new empty_overlays 1) =
       Some (Inr (bt', s')) \<and> btree_holds 10 (\<sigma>'(HEADER_ADDRESS \<mapsto> header_bytes h')) h' t'"
proof -
  obtain b where b: "btree_table_open 0 (new_tables 0 (column_options_default\<lparr>co_btree_index := True\<rparr>) 7) btree_metadata = cret b"
      "tree_store no_codec 10 10 (btree_locked b) (btree_locked b, log_writer_new empty_overlays 1) 1000 empty_store"
    using sample_store by blast
  have st: "tree_store no_codec 10 10 (btree_locked b) (btree_locked b, log_writer_new empty_overlays 1)
      ((cost 2 + 1) * length [([1 :: u8], Some [7 :: u8]), ([2], None)] + Suc 0) empty_store"
    by (rule ns.store_weaken[OF b(2)]) (simp add: cost_def)
  have "unat (bh_depth empty_header) + length [([1 :: u8], Some [7 :: u8]), ([2], None)] \<le> 2" by (simp add: empty_header_def)
  from btree_write_keeps_shape[OF holds_empty st disjI2[OF sample_tree(2)] this, of 1] b(1) show ?thesis by (fastforce simp: cret_def)
qed


end
