(* ===== verification/BTree_Scan.thy ===== *)
theory BTree_Scan
  imports BTree_Batch BTree_Iter
begin

text \<open>
  What iterating an ordered column gives (\<^verbatim>\<open>src/src/btree/iter.rs\<close>). The stack of \<open>BTreeIterState\<close>
  stands for the separators that are still to come; a step returns the first of them, and a seek
  leaves those from a key on.
\<close>

section \<open>The separators that are still to come\<close>

definition come_after :: "nat \<times> btr \<Rightarrow> separator_inner list" where
  "come_after f = (if br_kids (snd f) = [] then drop (fst f) (br_seps (snd f))
     else trail (drop (fst f) (br_seps (snd f))) (map (\<lambda>k. inorder (snd k)) (drop (Suc (fst f)) (br_kids (snd f)))))"

definition come_below :: "nat \<times> btr \<Rightarrow> separator_inner list" where
  "come_below f = (if br_kids (snd f) = [] then [] else inorder (snd (br_kids (snd f) ! fst f)))"

definition to_come :: "bool \<Rightarrow> (nat \<times> btr) list \<Rightarrow> separator_inner list" where
  "to_come next_separator fs =
     (case fs of [] \<Rightarrow> [] | f # _ \<Rightarrow> if next_separator then [] else come_below f) @ concat (map come_after fs)"

lemma to_come_simps [simp]:
  "to_come ns [] = []" "to_come True (f # fs) = come_after f @ concat (map come_after fs)"
  "to_come False (f # fs) = come_below f @ come_after f @ concat (map come_after fs)"
  by (simp_all add: to_come_def)

definition frame_of :: "(address \<rightharpoonup> bytes) \<Rightarrow> nat \<times> node \<Rightarrow> nat \<times> btr \<Rightarrow> bool" where
  "frame_of \<sigma> a f \<longleftrightarrow> fst a = fst f \<and> root_is (snd a) (snd f) \<and> (\<exists>d. wf_tree d (snd f)) \<and> stored_in \<sigma> (snd f) \<and>
     own (snd f) \<subseteq> dom \<sigma> \<and> fst f \<le> length (br_seps (snd f))"

abbreviation stack_of :: "(address \<rightharpoonup> bytes) \<Rightarrow> (nat \<times> node) list \<Rightarrow> (nat \<times> btr) list \<Rightarrow> bool" where
  "stack_of \<sigma> \<equiv> list_all2 (frame_of \<sigma>)"

text \<open>The whole tree, from its root on.\<close>

lemma come_whole: "wf_tree d t \<Longrightarrow> come_below (0, t) @ come_after (0, t) = inorder t"
proof (cases d)
  case (Suc e)
  assume "wf_tree d t"
  then show ?thesis
    using inorder_split[of e t 0] wf_tree_parts(3)[of d t e] Suc by (auto simp: come_below_def come_after_def)
qed (auto simp: come_below_def come_after_def inorder_leaf wf_tree_parts(2))

lemma come_step:
  assumes "wf_tree d t" and "i < length (br_seps t)"
  shows "come_after (i, t) = br_seps t ! i # come_below (Suc i, t) @ come_after (Suc i, t)"
proof (cases "br_kids t = []")
  case True
  then show ?thesis using assms(2) by (simp add: come_below_def come_after_def Cons_nth_drop_Suc)
next
  case False
  then have l: "length (br_kids t) = Suc (length (br_seps t))" using wf_tree_parts(2,3)[OF assms(1)] by (cases d) auto
  then have "drop i (br_seps t) = br_seps t ! i # drop (Suc i) (br_seps t)" "drop (Suc i) (br_kids t) = br_kids t ! Suc i # drop (Suc (Suc i)) (br_kids t)"
    using assms(2) by (simp_all add: Cons_nth_drop_Suc)
  then show ?thesis using False by (simp add: come_below_def come_after_def)
qed

lemma come_end: "wf_tree d t \<Longrightarrow> come_after (length (br_seps t), t) = []"
  by (simp add: come_after_def)

section \<open>One step\<close>

lemma descend_is:
  assumes rd: "reads cd tables q \<sigma>"
  shows "frame_of \<sigma> (i, n) (i, t) \<Longrightarrow> wf_tree d t \<Longrightarrow> stack_of \<sigma> st fs \<Longrightarrow>
     \<exists>st' fs'. descend cd tables q ((i, n) # st) = cret st' \<and> stack_of \<sigma> st' fs' \<and> st' \<noteq> [] \<and> to_come True fs' = to_come False ((i, t) # fs)"
proof (induction d arbitrary: i n t st fs)
  case 0
  then have f: "root_is n t" "stored_in \<sigma> t" "i \<le> length (br_seps t)" by (simp_all add: frame_of_def)
  have "fetch_child cd n i tables q = cret None" by (rule fetch_child_is(1)[OF f(1) 0(2) f(2) rd f(3) refl])
  then have "descend cd tables q ((i, n) # st) = cret ((i, n) # st)" by (subst descend.simps) (simp add: cret_def)
  moreover have "come_below (i, t) = []" using wf_tree_parts(2)[OF 0(2)] by (simp add: come_below_def)
  ultimately show ?case using 0(1,3) by (intro exI[of _ "(i, n) # st"] exI[of _ "(i, t) # fs"]) simp
next
  case (Suc d)
  then have f: "root_is n t" "stored_in \<sigma> t" "i \<le> length (br_seps t)" "own t \<subseteq> dom \<sigma>" by (simp_all add: frame_of_def)
  have l: "length (br_kids t) = Suc (length (br_seps t))" using wf_tree_parts(3)[OF Suc.prems(2) refl] .
  let ?k = "br_kids t ! i"
  have k: "?k \<in> set (br_kids t)" using l f(3) by simp
  obtain c where c: "fetch_child cd n i tables q = cret (Some c)" "root_is c (snd ?k)"
    using fetch_child_is(2)[OF f(1) Suc.prems(2) f(2) rd f(3) refl] by blast
  have wk: "wf_tree d (snd ?k)" using wf_tree_parts(4)[OF Suc.prems(2) refl k] by blast
  have "set (kid_owned ?k) \<subseteq> own t" using kids_owned_sub[OF k] by (cases t) auto
  then have "frame_of \<sigma> (0, c) (0, snd ?k)"
    using c(2) wk stored_kid(2)[OF f(2) k] f(4) by (auto simp: frame_of_def)
  from Suc.IH[OF this wk, of "(i, n) # st" "(i, t) # fs"] Suc.prems(1,3)
  obtain st' fs' where w: "descend cd tables q ((0, c) # (i, n) # st) = cret st'" "stack_of \<sigma> st' fs'" "st' \<noteq> []"
      "to_come True fs' = to_come False ((0, snd ?k) # (i, t) # fs)"
    by auto
  have "descend cd tables q ((i, n) # st) = cret st'" using c(1) w(1) by (subst descend.simps) (simp add: cret_def)
  moreover have "come_below (i, t) = inorder (snd ?k)" using l by (auto simp: come_below_def)
  then have "to_come False ((0, snd ?k) # (i, t) # fs) = to_come False ((i, t) # fs)" using come_whole[OF wk] by simp
  ultimately show ?case using w(2-4) by metis
qed

text \<open>The iterator has yet to return the separators \<open>xs\<close> of the tree with header \<open>h\<close>.\<close>

definition walks :: "(address \<rightharpoonup> bytes) \<Rightarrow> btr \<Rightarrow> btree_iter_state \<Rightarrow> separator_inner list \<Rightarrow> bool" where
  "walks \<sigma> t st xs \<longleftrightarrow> (ist_state st = [] \<and> \<not> ist_next_separator st \<and> xs = inorder t) \<or>
     (\<exists>fs. stack_of \<sigma> (ist_state st) fs \<and> (ist_state st = [] \<longrightarrow> ist_next_separator st) \<and> xs = to_come (ist_next_separator st) fs)"

lemma walksI: "stack_of \<sigma> (ist_state st) fs \<Longrightarrow> (ist_state st = [] \<longrightarrow> ist_next_separator st) \<Longrightarrow> xs = to_come (ist_next_separator st) fs \<Longrightarrow> walks \<sigma> t st xs"
  by (auto simp: walks_def)

definition gives :: "(address \<rightharpoonup> bytes) \<Rightarrow> btr \<Rightarrow> u64 \<Rightarrow> separator_inner list \<Rightarrow> ((bytes \<times> bytes) option \<times> btree_iter_state) comp \<Rightarrow> bool" where
  "gives \<sigma> t rid xs r \<longleftrightarrow> (\<exists>st'. ist_record_id st' = rid \<and>
     (case xs of [] \<Rightarrow> r = cret (None, st') \<and> walks \<sigma> t st' []
      | x # ys \<Rightarrow> (\<exists>v. \<sigma> (si_value x) = Some v \<and> r = cret (Some (si_key x, v), st') \<and> walks \<sigma> t st' ys)))"

lemma top_separator_is:
  assumes "frame_of \<sigma> (i, n) (i, t)"
  shows "top_separator ((i, n) # st) = (if i < length (br_seps t) then Some (br_seps t ! i) else None)"
proof -
  have n: "node_is n (br_seps t) (kid_addresses t)" and i: "i \<le> length (br_seps t)" using assms by (simp_all add: frame_of_def root_is_def)
  then show ?thesis using node_is_sep[OF n, of i] node_is_lengths(3)[OF n] by (cases "i < length (br_seps t)") (auto simp: top_separator_def)
qed

lemma next_from_separator:
  assumes rd: "reads cd tables q \<sigma>"
  shows "stack_of \<sigma> stack fs \<Longrightarrow> gives \<sigma> t rid (to_come True fs)
     (iter_state_next cd bt tables q \<lparr>ist_state = stack, ist_next_separator = True, ist_record_id = rid\<rparr>)"
proof (induction stack arbitrary: fs)
  case Nil
  then show ?case
    by (subst iter_state_next.simps) (auto simp: gives_def cret_def walks_def)
next
  case (Cons a stack)
  obtain i n where a: "a = (i, n)" by (cases a)
  obtain u gs where fs: "fs = (i, u) # gs" "frame_of \<sigma> (i, n) (i, u)" "stack_of \<sigma> stack gs"
  proof (cases fs)
    case (Cons f gs)
    then have "frame_of \<sigma> (i, n) f" "stack_of \<sigma> stack gs" using Cons.prems by (simp_all add: a)
    moreover have "f = (i, snd f)" using calculation(1) by (cases f) (simp add: frame_of_def)
    ultimately show ?thesis using that[of "snd f" gs] Cons by simp
  qed (use Cons.prems in simp)
  obtain d where wf: "wf_tree d u" and il: "i \<le> length (br_seps u)" and own: "own u \<subseteq> dom \<sigma>" using fs(2) by (auto simp: frame_of_def)
  let ?st = "\<lparr>ist_state = (i, n) # stack, ist_next_separator = True, ist_record_id = rid\<rparr>"
  have en: "enter_separator cd bt tables q ?st = cret ?st" by (simp add: enter_separator_def)
  show ?case
  proof (cases "i < length (br_seps u)")
    case True
    let ?x = "br_seps u ! i"
    have "?x \<in> set (inorder u)" using inorder_seps[OF wf] nth_mem[OF True] by blast
    then have "si_value ?x \<in> dom \<sigma>" using values_owned[of u] own by blast
    then obtain v tier where v: "\<sigma> (si_value ?x) = Some v" "get_value cd (Fetch None) (si_value ?x) tables q = cret (Some (tier, v))"
      using rd unfolding reads_def by blast
    let ?st' = "\<lparr>ist_state = (Suc i, n) # stack, ist_next_separator = False, ist_record_id = rid\<rparr>"
    have "iter_state_next cd bt tables q ?st = cret (Some (si_key ?x, v), ?st')"
      using en v(2) top_separator_is[OF fs(2), of stack] True
      by (subst iter_state_next.simps) (simp add: cret_def advance_top_def)
    moreover have "walks \<sigma> t ?st' (to_come False ((Suc i, u) # gs))"
      by (rule walksI[of _ _ "(Suc i, u) # gs"]) (use fs(2,3) True in \<open>simp_all add: frame_of_def\<close>)
    ultimately show ?thesis using v(1) come_step[OF wf True] by (auto simp: gives_def a fs(1) intro!: exI[of _ ?st'])
  next
    case False
    then have "to_come True fs = to_come True gs" using come_end[OF wf] il fs(1) by (cases gs) (simp_all add: to_come_def)
    moreover have "iter_state_next cd bt tables q ?st = iter_state_next cd bt tables q \<lparr>ist_state = stack, ist_next_separator = True, ist_record_id = rid\<rparr>"
      using en top_separator_is[OF fs(2), of stack] False by (subst iter_state_next.simps) (simp add: cret_def)
    ultimately show ?thesis using Cons.IH[OF fs(3)] by (simp add: a)
  qed
qed

lemma next_entered:
  assumes "enter_separator cd bt tables q st = cret st'" and "ist_next_separator st'" and "\<not> (ist_next_separator st \<and> ist_state st = [])" and "ist_state st' \<noteq> []"
  shows "iter_state_next cd bt tables q st = iter_state_next cd bt tables q st'"
proof -
  have "enter_separator cd bt tables q st' = cret st'" using assms(2) by (simp add: enter_separator_def)
  then show ?thesis
    using assms by (subst (1 2) iter_state_next.simps) (auto simp: cret_def)
qed

lemma iter_state_next_is:
  assumes rd: "reads cd tables q \<sigma>" and b: "btree_holds K \<sigma> h t" and bt: "root_or_null bt = bh_root h" and w: "walks \<sigma> t st xs"
  shows "gives \<sigma> t (ist_record_id st) xs (iter_state_next cd bt tables q st)"
proof (cases "ist_next_separator st")
  case True
  then obtain fs where "stack_of \<sigma> (ist_state st) fs" "xs = to_come True fs" using w by (auto simp: walks_def)
  moreover have "st = \<lparr>ist_state = ist_state st, ist_next_separator = True, ist_record_id = ist_record_id st\<rparr>" using True by simp
  ultimately show ?thesis using next_from_separator[OF rd] by metis
next
  case False
  note B = btree_holdsD[OF b]
  obtain root where f: "fetch_root cd (bh_root h) tables q = cret root" "root_is root t" using fetch_root_is[OF rd b] by blast
  have fr: "frame_of \<sigma> (0, root) (0, t)" using f(2) B(3,4) by (auto simp: frame_of_def tree_in_iff)
  obtain i n s u gs where s: "(if ist_state st = [] then [(0, root)] else ist_state st) = (i, n) # s" "frame_of \<sigma> (i, n) (i, u)" "stack_of \<sigma> s gs"
      "xs = to_come False ((i, u) # gs)"
  proof (cases "ist_state st = []")
    case True
    then have "xs = inorder t" using w False by (auto simp: walks_def)
    then show ?thesis using that[of 0 root "[]" t "[]"] True fr come_whole[OF B(3)] by simp
  next
    case ne: False
    then obtain fs where fs: "stack_of \<sigma> (ist_state st) fs" "xs = to_come False fs" using w False by (auto simp: walks_def)
    then obtain a s f gs where "ist_state st = a # s" "fs = f # gs" using ne by (cases "ist_state st"; cases fs) auto
    then show ?thesis using that[of "fst a" "snd a" s "snd f" gs] fs by (cases a; cases f) (auto simp: frame_of_def)
  qed
  obtain d where d: "wf_tree d u" using s(2) by (auto simp: frame_of_def)
  obtain st' fs' where e: "descend cd tables q ((i, n) # s) = cret st'" "stack_of \<sigma> st' fs'" "st' \<noteq> []" "to_come True fs' = xs"
    using descend_is[OF rd s(2) d s(3)] s(4) by metis
  let ?st = "\<lparr>ist_state = st', ist_next_separator = True, ist_record_id = ist_record_id st\<rparr>"
  have "enter_separator cd bt tables q st = cret ?st"
    using False s(1) e(1) f(1) bt by (auto simp: enter_separator_def cret_def split: if_splits)
  then have "iter_state_next cd bt tables q st = iter_state_next cd bt tables q ?st"
    by (rule next_entered) (use False e(3) in simp_all)
  then show ?thesis using next_from_separator[OF rd e(2), of t "ist_record_id st" bt] e(4) by simp
qed


section \<open>Seeking\<close>

lemma filter_from:
  fixes key :: bytes
  assumes "ordered (P @ Q)" and "\<forall>x\<in>set P. si_key x < key" and "\<forall>x\<in>set Q. key \<le> si_key x"
  shows "filter (\<lambda>x. key \<le> si_key x) (P @ Q) = Q"
proof -
  have "filter (\<lambda>x. key \<le> si_key x) P = []" using assms(2) by (auto simp: filter_empty_conv)
  then show ?thesis using assms(3) by (simp add: filter_id_conv)
qed

text \<open>A key that is a separator of the node itself.\<close>

lemma seek_found:
  assumes wf: "wf_tree d t" and ord: "ordered (inorder t)" and i: "i < length (br_seps t)" "si_key (br_seps t ! i) = key"
  shows "come_after (i, t) = filter (\<lambda>x. key \<le> si_key x) (inorder t)"
    and "come_below (Suc i, t) @ come_after (Suc i, t) = filter (\<lambda>x. key < si_key x) (inorder t)"
proof -
  let ?x = "br_seps t ! i" and ?Q = "come_below (Suc i, t) @ come_after (Suc i, t)"
  obtain P where P: "inorder t = P @ ?x # ?Q"
  proof (cases d)
    case 0
    then have "inorder t = take i (br_seps t) @ come_after (i, t)" using wf_tree_parts(2)[OF wf] inorder_leaf[of t] wf by (simp add: come_after_def)
    then show ?thesis using that come_step[OF wf i(1)] by simp
  next
    case (Suc e)
    then have "br_kids t \<noteq> []" using wf_tree_parts(3)[OF wf] by auto
    then have "\<exists>A. inorder t = A @ come_after (i, t)" using inorder_split[of e t i] wf Suc i(1) by (auto simp: come_after_def)
    then show ?thesis using that come_step[OF wf i(1)] by auto
  qed
  have s: "\<forall>y\<in>set P. si_key y < key" "\<forall>y\<in>set ?Q. key < si_key y" using ord i(2) unfolding P by (auto simp: sorted_wrt_append)
  have "filter (\<lambda>x. key \<le> si_key x) (P @ ?x # ?Q) = ?x # ?Q"
    by (rule filter_from) (use ord s i(2) in \<open>auto simp: P less_imp_le\<close>)
  then show "come_after (i, t) = filter (\<lambda>x. key \<le> si_key x) (inorder t)" using come_step[OF wf i(1)] unfolding P by simp
  have "filter (\<lambda>x. key < si_key x) P = []" "filter (\<lambda>x. key < si_key x) ?Q = ?Q"
    using s by (auto simp: filter_empty_conv filter_id_conv)
  then show "?Q = filter (\<lambda>x. key < si_key x) (inorder t)" using i(2) unfolding P by simp
qed

definition seeks :: "(address \<rightharpoonup> bytes) \<Rightarrow> bytes \<Rightarrow> separator_inner list \<Rightarrow> (nat \<times> btr) list \<Rightarrow> (bool \<times> (nat \<times> node) list) comp \<Rightarrow> bool" where
  "seeks \<sigma> key xs fs r \<longleftrightarrow> (\<exists>found st fs'. r = cret (found, st) \<and> stack_of \<sigma> st fs' \<and> st \<noteq> [] \<and>
     to_come True fs' = filter (\<lambda>x. key \<le> si_key x) xs @ concat (map come_after fs) \<and>
     (found \<longrightarrow> (\<exists>fs''. stack_of \<sigma> (advance_top st) fs'' \<and> to_come False fs'' = filter (\<lambda>x. key < si_key x) xs @ concat (map come_after fs))) \<and>
     (\<not> found \<longrightarrow> key \<notin> si_key ` set xs))"

lemma node_seek_is:
  assumes rd: "reads cd tables q \<sigma>"
  shows "root_is n t \<Longrightarrow> wf_tree d t \<Longrightarrow> stored_in \<sigma> t \<Longrightarrow> own t \<subseteq> dom \<sigma> \<Longrightarrow> ordered (inorder t) \<Longrightarrow> stack_of \<sigma> st fs \<Longrightarrow>
     seeks \<sigma> key (inorder t) fs (node_seek cd key tables q d n st)"
proof (induction d arbitrary: n t st fs)
  case (0 n t)
  let ?i = "length (takeWhile (\<lambda>x. si_key x < key) (br_seps t))"
  note p = position_root[OF 0(1,2,5) refl, of key]
  have f: "frame_of \<sigma> (?i, n) (?i, t)" using 0 p(2) by (auto simp: frame_of_def)
  show ?case
  proof (cases "key \<in> si_key ` set (br_seps t)")
    case True
    then have i: "?i < length (br_seps t)" "si_key (br_seps t ! ?i) = key" using p(3) by auto
    have "node_seek cd key tables q 0 n st = cret (True, (?i, n) # st)" using p(1) True by (subst node_seek.simps) simp
    moreover have "frame_of \<sigma> (Suc ?i, n) (Suc ?i, t)" using f i(1) by (simp add: frame_of_def)
    ultimately show ?thesis
      unfolding seeks_def using f 0(6) seek_found[OF 0(2,5) i]
      by (intro exI[of _ True] exI[of _ "(?i, n) # st"] exI[of _ "(?i, t) # fs"]) (auto simp: advance_top_def intro!: exI[of _ "(Suc ?i, t) # fs"])
  next
    case False
    have io: "inorder t = br_seps t" by (rule inorder_leaf[OF 0(2)])
    have "sorted (map si_key (br_seps t))" using 0(5) by (simp add: io strict_sorted_iff)
    note tp = takeWhile_position[OF this refl, where key = key]
    have "filter (\<lambda>x. key \<le> si_key x) (take ?i (br_seps t) @ drop ?i (br_seps t)) = drop ?i (br_seps t)"
    proof (rule filter_from)
      show "ordered (take ?i (br_seps t) @ drop ?i (br_seps t))" using 0(5) by (simp add: io)
      show "\<forall>x\<in>set (take ?i (br_seps t)). si_key x < key" using tp(2) by (auto simp: in_set_conv_nth)
      show "\<forall>x\<in>set (drop ?i (br_seps t)). key \<le> si_key x" using tp(3) by (auto simp: in_set_conv_nth)
    qed
    then have "come_after (?i, t) = filter (\<lambda>x. key \<le> si_key x) (inorder t)" using wf_tree_parts(2)[OF 0(2)] by (simp add: come_after_def io)
    moreover have "node_seek cd key tables q 0 n st = cret (False, (?i, n) # st)" using p(1) False by (subst node_seek.simps) simp
    ultimately show ?thesis
      unfolding seeks_def using f 0(6) False by (intro exI[of _ False] exI[of _ "(?i, n) # st"] exI[of _ "(?i, t) # fs"]) (auto simp: io)
  qed
next
  case (Suc e n t)
  let ?i = "length (takeWhile (\<lambda>x. si_key x < key) (br_seps t))"
  note p = position_root[OF Suc.prems(1,2,5) refl, of key]
  have f: "frame_of \<sigma> (?i, n) (?i, t)" using Suc.prems p(2) by (auto simp: frame_of_def)
  have l: "length (br_kids t) = Suc (length (br_seps t))" using wf_tree_parts(3)[OF Suc.prems(2) refl] .
  show ?case
  proof (cases "key \<in> si_key ` set (br_seps t)")
    case True
    then have i: "?i < length (br_seps t)" "si_key (br_seps t ! ?i) = key" using p(3) by auto
    have "node_seek cd key tables q (Suc e) n st = cret (True, (?i, n) # st)" using p(1) True by (subst node_seek.simps) simp
    moreover have "frame_of \<sigma> (Suc ?i, n) (Suc ?i, t)" using f i(1) by (simp add: frame_of_def)
    ultimately show ?thesis
      unfolding seeks_def using f Suc.prems(6) seek_found[OF Suc.prems(2,5) i]
      by (intro exI[of _ True] exI[of _ "(?i, n) # st"] exI[of _ "(?i, t) # fs"]) (auto simp: advance_top_def intro!: exI[of _ "(Suc ?i, t) # fs"])
  next
    case False
    let ?k = "br_kids t ! ?i"
    have k: "?k \<in> set (br_kids t)" using l p(2) by simp
    obtain c where c: "fetch_child cd n ?i tables q = cret (Some c)" "root_is c (snd ?k)"
      using fetch_child_is(2)[OF Suc.prems(1-3) rd p(2) refl] by blast
    have sub: "set (kid_owned ?k) \<subseteq> own t" using kids_owned_sub[OF k] by (cases t) auto
    have "seeks \<sigma> key (inorder (snd ?k)) ((?i, t) # fs) (node_seek cd key tables q e c ((?i, n) # st))"
      by (rule Suc.IH[OF c(2)])
        (use wf_tree_parts(4)[OF Suc.prems(2) refl k] stored_kid(2)[OF Suc.prems(3) k] sub Suc.prems(4,6) ordered_kid[OF Suc.prems(2,5) p(2)] f in auto)
    moreover have "node_seek cd key tables q (Suc e) n st = node_seek cd key tables q e c ((?i, n) # st)"
      using p(1) False c(1) by (subst node_seek.simps) (simp add: cret_def)
    moreover have io: "inorder t = before ?i t @ inorder (snd ?k) @ behind ?i t" by (rule inorder_split[OF Suc.prems(2) p(2)])
    note sd = inorder_sides[OF Suc.prems(2,5) refl False]
    have z: "filter (\<lambda>x. key \<le> si_key x) (before ?i t) = []" "filter (\<lambda>x. key < si_key x) (before ?i t) = []"
        "filter (\<lambda>x. key \<le> si_key x) (behind ?i t) = behind ?i t" "filter (\<lambda>x. key < si_key x) (behind ?i t) = behind ?i t"
      by (rule filter_none, drule sd(1), simp add: not_le not_less)+ (rule filter_all, drule sd(2), simp add: less_imp_le)+
    have "key \<notin> si_key ` set (before ?i t)" "key \<notin> si_key ` set (behind ?i t)"
      by (rule notI, erule imageE, drule sd(1), simp) (rule notI, erule imageE, drule sd(2), simp)
    moreover have "br_kids t \<noteq> []" using l by auto
    ultimately show ?thesis unfolding seeks_def io by (simp add: z come_after_def image_Un)
  qed
qed

lemma iter_state_seek_is:
  assumes rd: "reads cd tables q \<sigma>" and b: "btree_holds K \<sigma> h t" and bt: "root_or_null bt = bh_root h" "bt_depth bt = bh_depth h"
  shows "\<exists>st'. iter_state_seek cd key bt tables q after st = cret st' \<and> ist_record_id st' = ist_record_id st \<and>
     walks \<sigma> t st' (filter (\<lambda>x. if after then key < si_key x else key \<le> si_key x) (inorder t))"
proof -
  note B = btree_holdsD[OF b]
  obtain root where f: "fetch_root cd (bh_root h) tables q = cret root" "root_is root t" using fetch_root_is[OF rd b] by blast
  have sub: "stored_in \<sigma> t" "own t \<subseteq> dom \<sigma>" using B(4) by (simp_all add: tree_in_iff)
  have "seeks \<sigma> key (inorder t) [] (node_seek cd key tables q (unat (bh_depth h)) root [])"
    by (rule node_seek_is[OF rd f(2) B(3) sub B(5)]) simp
  then obtain found stack fs where s: "node_seek cd key tables q (unat (bh_depth h)) root [] = cret (found, stack)" "stack_of \<sigma> stack fs" "stack \<noteq> []"
      "to_come True fs = filter (\<lambda>x. key \<le> si_key x) (inorder t)"
      "found \<longrightarrow> (\<exists>fs''. stack_of \<sigma> (advance_top stack) fs'' \<and> to_come False fs'' = filter (\<lambda>x. key < si_key x) (inorder t))"
      "\<not> found \<longrightarrow> key \<notin> si_key ` set (inorder t)"
    by (auto simp: seeks_def)
  show ?thesis
  proof (cases "found \<and> after")
    case True
    then obtain fs'' where fs: "stack_of \<sigma> (advance_top stack) fs''" "to_come False fs'' = filter (\<lambda>x. key < si_key x) (inorder t)" using s(5) by blast
    let ?st = "st\<lparr>ist_state := advance_top stack, ist_next_separator := False\<rparr>"
    have "advance_top stack \<noteq> []" using s(3) by (cases stack) (auto simp: advance_top_def)
    then have "walks \<sigma> t ?st (filter (\<lambda>x. key < si_key x) (inorder t))" using fs by (intro walksI[of _ _ fs'']) simp_all
    then show ?thesis using True f(1) s(1) bt by (intro exI[of _ ?st]) (simp add: iter_state_seek_def cret_def)
  next
    case False
    let ?st = "st\<lparr>ist_state := stack, ist_next_separator := True\<rparr>"
    have "filter (\<lambda>x. if after then key < si_key x else key \<le> si_key x) (inorder t) = filter (\<lambda>x. key \<le> si_key x) (inorder t)"
      using False s(6) by (intro filter_cong refl) (auto simp: le_less)
    moreover have "walks \<sigma> t ?st (filter (\<lambda>x. key \<le> si_key x) (inorder t))" using s(2,4) by (intro walksI[of _ _ fs]) simp_all
    ultimately show ?thesis using False f(1) s(1) bt by (intro exI[of _ ?st]) (auto simp: iter_state_seek_def cret_def)
  qed
qed


end
