(* ===== verification/BTree_Merge.thy ===== *)
theory BTree_Merge
  imports BTree_Scan
begin

text \<open>
  The iterator of an ordered column (\<open>BTreeIterator\<close> of \<^verbatim>\<open>src/src/btree/iter.rs\<close>) merges the stored
  entries with the commit overlay. While neither changes it returns the keys in order, each once, with
  the value of the overlay where it has one and without the keys the overlay deletes.
\<close>

section \<open>Merging two ordered lists\<close>

abbreviation kept :: "bytes \<Rightarrow> bytes option \<Rightarrow> (bytes \<times> bytes) list" where
  "kept k v \<equiv> (case v of Some x \<Rightarrow> [(k, x)] | None \<Rightarrow> [])"

fun overlaid :: "(bytes \<times> bytes) list \<Rightarrow> (bytes \<times> bytes option) list \<Rightarrow> (bytes \<times> bytes) list" where
  "overlaid R [] = R"
| "overlaid [] ((k, v) # os) = kept k v @ overlaid [] os"
| "overlaid ((b, w) # R) ((k, v) # os) =
     (if b < k then (b, w) # overlaid R ((k, v) # os)
      else if k < b then kept k v @ overlaid ((b, w) # R) os
      else kept k v @ overlaid R os)"

lemma overlaid_step:
  "b < k \<Longrightarrow> overlaid ((b, w) # R) ((k, v) # os) = (b, w) # overlaid R ((k, v) # os)"
  "k < b \<Longrightarrow> overlaid ((b, w) # R) ((k, v) # os) = kept k v @ overlaid ((b, w) # R) os"
  "overlaid ((k, w) # R) ((k, v) # os) = kept k v @ overlaid R os"
  using less_not_sym[of k b] by simp_all

declare overlaid.simps(3) [simp del]

abbreviation rising :: "(bytes \<times> 'a) list \<Rightarrow> bool" where
  "rising xs \<equiv> sorted_wrt (<) (map fst xs)"

lemma overlaid_keys: "fst ` set (overlaid R os) \<subseteq> fst ` set R \<union> fst ` set os"
proof (induction R os rule: overlaid.induct)
  case (3 b w R k v os)
  consider "b < k" | "k < b" | "k = b" by (rule linorder_cases)
  then show ?case
  proof cases
    case 1
    then have "fst ` set (overlaid R ((k, v) # os)) \<subseteq> fst ` set R \<union> fst ` set ((k, v) # os)" by (rule "3.IH"(1))
    then show ?thesis unfolding overlaid_step(1)[OF 1] by auto
  next
    case 2
    then have "fst ` set (overlaid ((b, w) # R) os) \<subseteq> fst ` set ((b, w) # R) \<union> fst ` set os" by (intro "3.IH"(2)) auto
    then show ?thesis unfolding overlaid_step(2)[OF 2] by (cases v) auto
  next
    case 3
    then have "fst ` set (overlaid R os) \<subseteq> fst ` set R \<union> fst ` set os" by (intro "3.IH"(3)) auto
    then show ?thesis unfolding 3 overlaid_step(3) by (cases v) auto
  qed
qed (auto split: option.splits)

lemma overlaid_above: "\<forall>x\<in>set R. k < fst x \<Longrightarrow> \<forall>x\<in>set os. k < fst x \<Longrightarrow> y \<in> set (overlaid R os) \<Longrightarrow> k < fst y"
  using overlaid_keys[of R os] by fastforce

lemma overlaid_rising: "rising R \<Longrightarrow> rising os \<Longrightarrow> rising (overlaid R os)"
proof (induction R os rule: overlaid.induct)
  case (2 k v os)
  then show ?case using overlaid_above[of "[]" k os] by (cases v) auto
next
  case (3 b w R k v os)
  have l: "\<forall>x\<in>set R. b < fst x" "\<forall>x\<in>set os. k < fst x" using "3.prems" by auto
  consider "b < k" | "k < b" | "k = b" by (rule linorder_cases)
  then show ?case
  proof cases
    case 1
    then have "\<forall>x\<in>set ((k, v) # os). b < fst x" using l(2) by auto
    then have "\<forall>y\<in>set (overlaid R ((k, v) # os)). b < fst y" using overlaid_above[OF l(1)] by blast
    moreover have "rising (overlaid R ((k, v) # os))" using "3.IH"(1)[OF 1] "3.prems" by simp
    ultimately show ?thesis unfolding overlaid_step(1)[OF 1] by simp
  next
    case 2
    then have "\<forall>x\<in>set ((b, w) # R). k < fst x" using l(1) by auto
    then have "\<forall>y\<in>set (overlaid ((b, w) # R) os). k < fst y" using overlaid_above[OF _ l(2)] by blast
    moreover have "rising (overlaid ((b, w) # R) os)" using "3.prems" 2 by (intro "3.IH"(2)) auto
    ultimately show ?thesis unfolding overlaid_step(2)[OF 2] by (cases v) simp_all
  next
    case 3
    then have "\<forall>y\<in>set (overlaid R os). k < fst y" using overlaid_above[OF _ l(2)] l(1) by blast
    moreover have "rising (overlaid R os)" using "3.prems" 3 by (intro "3.IH"(3)) auto
    ultimately show ?thesis unfolding 3 overlaid_step(3) by (cases v) simp_all
  qed
qed simp

lemma map_of_overlaid:
  "rising R \<Longrightarrow> rising os \<Longrightarrow> map_of (overlaid R os) j = (case map_of os j of Some v \<Rightarrow> v | None \<Rightarrow> map_of R j)"
proof (induction R os rule: overlaid.induct)
  case (2 k v os)
  have "map_of os k = None" using "2.prems"(2) by (auto simp: map_of_eq_None_iff)
  then show ?case using 2 by (cases v) (auto split: option.splits)
next
  case (3 b w R k v os)
  have n: "map_of os k = None" and r: "map_of R b = None" using "3.prems" by (auto simp: map_of_eq_None_iff)
  have m: "map_of os b = None" if "b < k" using "3.prems"(2) that by (auto simp: map_of_eq_None_iff)
  have q: "map_of R k = None" if "k < b" using "3.prems"(1) that by (auto simp: map_of_eq_None_iff)
  consider "b < k" | "k < b" | "k = b" by (rule linorder_cases)
  then show ?case
  proof cases
    case 1
    then have "map_of (overlaid R ((k, v) # os)) j = (case map_of ((k, v) # os) j of Some v \<Rightarrow> v | None \<Rightarrow> map_of R j)"
      using "3.prems" by (intro "3.IH"(1)) auto
    then show ?thesis unfolding overlaid_step(1)[OF 1] using m[OF 1] 1 by (auto split: option.splits)
  next
    case 2
    then have "map_of (overlaid ((b, w) # R) os) j = (case map_of os j of Some v \<Rightarrow> v | None \<Rightarrow> map_of ((b, w) # R) j)"
      using "3.prems" by (intro "3.IH"(2)) auto
    then show ?thesis unfolding overlaid_step(2)[OF 2] using n q[OF 2] 2 by (cases v) (auto split: option.splits)
  next
    case 3
    then have "map_of (overlaid R os) j = (case map_of os j of Some v \<Rightarrow> v | None \<Rightarrow> map_of R j)"
      using "3.prems" by (intro "3.IH"(3)) auto
    then show ?thesis unfolding 3 overlaid_step(3) using n[unfolded 3] r by (cases v) (auto split: option.splits)
  qed
qed simp

section \<open>The overlay\<close>

definition beyond :: "bytes option \<Rightarrow> bool \<Rightarrow> bytes \<Rightarrow> bool" where
  "beyond last_key from_seek k = (case last_key of None \<Rightarrow> True | Some l \<Rightarrow> if from_seek then l \<le> k else l < k)"

definition in_order :: "overlay_map \<Rightarrow> (bytes \<times> bytes option) list" where
  "in_order m = map (\<lambda>(k, _, v). (k, v)) (sort_key fst m)"

definition ahead :: "bytes option \<Rightarrow> bool \<Rightarrow> overlay_map \<Rightarrow> (bytes \<times> bytes option) list" where
  "ahead last_key from_seek m = filter (\<lambda>e. beyond last_key from_seek (fst e)) (in_order m)"

lemma in_order_rising: "distinct (map fst m) \<Longrightarrow> rising (in_order m)"
proof -
  assume d: "distinct (map fst m)"
  have "map fst (in_order m) = map fst (sort_key fst m)" by (simp add: in_order_def comp_def case_prod_beta)
  moreover have "distinct (map fst (sort_key fst m))" using d mset_sort[of fst m] mset_map mset_eq_imp_distinct_iff by metis
  ultimately show ?thesis by (simp add: strict_sorted_iff)
qed

lemma rising_filter: "rising xs \<Longrightarrow> rising (filter P xs)"
  using sorted_wrt_filter[of _ xs P] by (simp add: sorted_wrt_map)

lemma map_of_in_order:
  assumes "distinct (map fst m)"
  shows "map_of (in_order m) k = map_option snd (map_of m k)"
proof -
  have "distinct (map fst (sort_key fst m))" using assms mset_sort[of fst m] mset_map mset_eq_imp_distinct_iff by metis
  then have "map_of (sort_key fst m) = map_of m" using assms by (simp add: map_of_inject_set)
  moreover have "map_of (map (\<lambda>(k, _, v). (k, v)) xs) k = map_option snd (map_of xs k)" for xs :: overlay_map
    by (induction xs) auto
  ultimately show ?thesis by (simp add: in_order_def)
qed

lemma filter_sort_first: "filter P (sort_key fst m) = sort_key fst (filter P m)" for m :: overlay_map
  by (simp add: filter_sort)

lemma btree_next_is:
  assumes "distinct (map fst (cv_btree_indexed ov))"
  shows "btree_next ov last_key from_seek = (case ahead last_key from_seek (cv_btree_indexed ov) of [] \<Rightarrow> None | e # _ \<Rightarrow> Some e)"
proof -
  let ?m = "sort_key fst (cv_btree_indexed ov)" and ?g = "\<lambda>(k, _, v). (k, v) :: bytes \<times> bytes option"
  have f: "overlay_range (cv_btree_indexed ov) P = filter (\<lambda>e. P (fst e)) ?m" for P
    by (simp add: overlay_range_def filter_sort_first)
  have a: "ahead lk fs (cv_btree_indexed ov) = map ?g (filter (\<lambda>e. beyond lk fs (fst e)) ?m)" for lk fs
    by (simp add: ahead_def in_order_def filter_map comp_def case_prod_beta)
  have d: "rising ?m" using in_order_rising[OF assms] by (simp add: in_order_def comp_def case_prod_beta)
  have first: "first_of xs = (case map ?g xs of [] \<Rightarrow> None | e # _ \<Rightarrow> Some e)" for xs
    by (auto simp: first_of_def split: list.splits)
  show ?thesis
  proof (cases last_key)
    case None
    then show ?thesis using first[of ?m] by (simp add: btree_next_def f a beyond_def)
  next
    case (Some key)
    have r: "rising (filter (\<lambda>e. key \<le> fst e) ?m)" by (rule rising_filter[OF d])
    have st: "filter (\<lambda>e. key < fst e) ?m = filter (\<lambda>e. fst e \<noteq> key) (filter (\<lambda>e. key \<le> fst e) ?m)"
      by (auto simp: filter_filter intro!: filter_cong)
    show ?thesis
    proof (cases "filter (\<lambda>e. key \<le> fst e) ?m")
      case Nil
      then show ?thesis using st by (cases from_seek) (simp_all add: btree_next_def f a beyond_def Some)
    next
      case (Cons e rest)
      obtain k c v where e: "e = (k, c, v)" by (cases e)
      have "filter (\<lambda>e. fst e \<noteq> key) rest = rest" if "k = key" using r Cons that by (auto simp: e filter_id_conv)
      moreover have "filter (\<lambda>e. fst e \<noteq> key) rest = rest" if "k \<noteq> key"
      proof -
        have "key < k" using Cons filter_eq_ConsD[OF Cons] that e by (auto simp: le_less)
        then show ?thesis using r Cons by (auto simp: e filter_id_conv)
      qed
      ultimately have "filter (\<lambda>e. fst e \<noteq> key) rest = rest" by blast
      then show ?thesis
        using Some Cons st first[of rest] by (cases "k = key"; cases from_seek) (simp_all add: btree_next_def f a beyond_def e)
    qed
  qed
qed

section \<open>The iterator\<close>

lemma beyond_mono: "beyond l s k \<Longrightarrow> k \<le> j \<Longrightarrow> beyond l s j"
  by (auto simp: beyond_def split: option.splits if_splits)

lemma ahead_after_stored:
  assumes "beyond l s k" and "\<forall>e\<in>set (ahead l s m). k < fst e"
  shows "ahead (Some k) s' m = ahead l s m"
  unfolding ahead_def
proof (rule filter_cong[OF refl])
  fix e assume e: "e \<in> set (in_order m)"
  have "k < fst e" if "beyond l s (fst e)" using bspec[OF assms(2), of e] e that by (simp add: ahead_def)
  then show "beyond (Some k) s' (fst e) = beyond l s (fst e)"
    using beyond_mono[OF assms(1), of "fst e"] by (auto simp: beyond_def[of "Some k"] less_imp_le split: if_splits)
qed

lemma ahead_after_commit:
  assumes "distinct (map fst m)" and "ahead l s m = (k, v) # os"
  shows "ahead (Some k) False m = os"
proof -
  have r: "rising ((k, v) # os)" using rising_filter[OF in_order_rising[OF assms(1)]] assms(2) unfolding ahead_def by metis
  have "(k, v) \<in> set (ahead l s m)" using assms(2) by simp
  then have b: "beyond l s k" by (auto simp: ahead_def)
  have "ahead (Some k) False m = filter (\<lambda>e. k < fst e) (ahead l s m)"
    using beyond_mono[OF b] by (auto simp: ahead_def filter_filter beyond_def[of "Some k"] less_imp_le intro!: filter_cong)
  then show ?thesis using r by (simp add: assms(2) filter_id_conv)
qed

definition stored_entries :: "(address \<rightharpoonup> bytes) \<Rightarrow> separator_inner list \<Rightarrow> (bytes \<times> bytes) list" where
  "stored_entries \<sigma> xs = map (\<lambda>x. (si_key x, the (\<sigma> (si_value x)))) xs"

text \<open>The iterator has yet to merge the stored entries \<open>R\<close> with what the overlay has ahead.\<close>

definition iterates :: "(address \<rightharpoonup> bytes) \<Rightarrow> btree_header \<Rightarrow> btr \<Rightarrow> u64 \<Rightarrow> overlay_map \<Rightarrow> btree_iterator \<Rightarrow> (bytes \<times> bytes) list \<Rightarrow> bool" where
  "iterates \<sigma> h t rid m it R \<longleftrightarrow> root_or_null (bi_tree it) = bh_root h \<and> bt_depth (bi_tree it) = bh_depth h \<and>
     bt_record_id (bi_tree it) = rid \<and> ist_record_id (bi_state it) = rid \<and>
     (\<exists>ws. walks \<sigma> t (bi_state it) ws \<and> (bi_pending_next_backend it = Some None \<longrightarrow> ws = []) \<and>
        R = (case bi_pending_next_backend it of Some (Some e) \<Rightarrow> [e] | _ \<Rightarrow> []) @ stored_entries \<sigma> ws) \<and>
     rising R \<and> (\<forall>e\<in>set R. beyond (bi_last_key it) (bi_from_seek it) (fst e))"

lemma take_backend_is:
  assumes rd: "reads cd (btree_locked b) q \<sigma>" and h: "btree_holds K \<sigma> h t" and it: "iterates \<sigma> h t rid m it R"
  shows "\<exists>st ws. take_backend cd rid b q it = cret (case R of [] \<Rightarrow> None | e # _ \<Rightarrow> Some e, it\<lparr>bi_state := st, bi_pending_next_backend := None\<rparr>) \<and>
     walks \<sigma> t st ws \<and> stored_entries \<sigma> ws = tl R \<and> ist_record_id st = rid"
proof -
  obtain ws where w: "walks \<sigma> t (bi_state it) ws" "bi_pending_next_backend it = Some None \<longrightarrow> ws = []"
      "R = (case bi_pending_next_backend it of Some (Some e) \<Rightarrow> [e] | _ \<Rightarrow> []) @ stored_entries \<sigma> ws"
    using it by (auto simp: iterates_def)
  have i: "root_or_null (bi_tree it) = bh_root h" "bt_record_id (bi_tree it) = rid" "ist_record_id (bi_state it) = rid" using it by (simp_all add: iterates_def)
  show ?thesis
  proof (cases "bi_pending_next_backend it")
    case (Some p)
    have "take_backend cd rid b q it = cret (p, it\<lparr>bi_pending_next_backend := None\<rparr>)" using Some i by (simp add: take_backend_def)
    then show ?thesis using w Some i(3) by (intro exI[of _ "bi_state it"] exI[of _ ws]) (cases p; simp add: stored_entries_def)
  next
    case None
    have "gives \<sigma> t rid ws (iter_state_next cd (bi_tree it) (btree_locked b) q (bi_state it))"
      using iter_state_next_is[OF rd h i(1) w(1)] i(3) by simp
    then obtain st' where g: "ist_record_id st' = rid"
        "iter_state_next cd (bi_tree it) (btree_locked b) q (bi_state it) = cret (case ws of [] \<Rightarrow> None | x # _ \<Rightarrow> Some (si_key x, the (\<sigma> (si_value x))), st')"
        "walks \<sigma> t st' (tl ws)"
      by (cases ws) (auto simp: gives_def)
    have "take_backend cd rid b q it = cret (case R of [] \<Rightarrow> None | e # _ \<Rightarrow> Some e, it\<lparr>bi_state := st', bi_pending_next_backend := None\<rparr>)"
      using g(2) i None w(3) by (cases ws) (simp_all add: take_backend_def iterator_next_backend_def reopen_tree_def cret_def stored_entries_def)
    then show ?thesis using g(1,3) None w(3) by (intro exI[of _ st'] exI[of _ "tl ws"]) (simp add: stored_entries_def map_tl)
  qed
qed


lemma iterator_swap:
  "it\<lparr>bi_pending_next_backend := p, bi_last_key := k\<rparr> = it\<lparr>bi_last_key := k, bi_pending_next_backend := p\<rparr>"
  "it\<lparr>bi_pending_next_backend := p, bi_from_seek := f\<rparr> = it\<lparr>bi_from_seek := f, bi_pending_next_backend := p\<rparr>"
  by (cases it; simp)+

text \<open>The state after a stored entry and after an entry of the overlay was taken.\<close>

lemma iterates_after:
  assumes it: "iterates \<sigma> h t rid m it R" and s: "walks \<sigma> t st ws" "stored_entries \<sigma> ws = tl R" "ist_record_id st = rid"
    and p: "p = None \<or> (p = Some None \<and> R = []) \<or> (\<exists>e. p = Some (Some e) \<and> R = e # tl R)"
    and R': "R' = (case p of Some (Some e) \<Rightarrow> [e] | _ \<Rightarrow> []) @ tl R"
    and b: "\<forall>e\<in>set R'. beyond lk fs (fst e)"
  shows "iterates \<sigma> h t rid m (it\<lparr>bi_state := st, bi_last_key := lk, bi_from_seek := fs, bi_pending_next_backend := p\<rparr>) R'"
proof -
  have "rising R'" using it p R' by (cases R) (auto simp: iterates_def split: option.splits)
  moreover have "p = Some None \<longrightarrow> ws = []" using p s(2) by (auto simp: stored_entries_def)
  ultimately show ?thesis using it s b R' by (auto simp: iterates_def)
qed

lemma iterator_next_is:
  assumes rd: "reads cd (btree_locked b) (overlays_query log) \<sigma>" and h: "btree_holds K \<sigma> h t" and col: "unat col < length overlays"
    and m: "m = cv_btree_indexed (overlays ! unat col)" "distinct (map fst m)"
  shows "iterates \<sigma> h t (last_record_id log col) m it R \<Longrightarrow> ahead (bi_last_key it) (bi_from_seek it) m = os \<Longrightarrow>
     \<exists>it' R'. iterator_next cd col b log overlays it = cret (case overlaid R os of [] \<Rightarrow> None | e # _ \<Rightarrow> Some e, it') \<and>
       iterates \<sigma> h t (last_record_id log col) m it' R' \<and> overlaid R' (ahead (bi_last_key it') (bi_from_seek it') m) = tl (overlaid R os)"
proof (induction os arbitrary: it R)
  let ?rid = "last_record_id log col"
  case (Nil it R)
  obtain st ws where s: "take_backend cd ?rid b (overlays_query log) it = cret (case R of [] \<Rightarrow> None | e # _ \<Rightarrow> Some e, it\<lparr>bi_state := st, bi_pending_next_backend := None\<rparr>)"
     "walks \<sigma> t st ws" "stored_entries \<sigma> ws = tl R" "ist_record_id st = ?rid"
    using take_backend_is[OF rd h Nil(1)] by blast
  have nx: "btree_next (overlays ! unat col) (bi_last_key it) (bi_from_seek it) = None"
    using btree_next_is[of "overlays ! unat col"] m Nil(2) by simp
  note A = iterates_after[OF Nil(1) s(2-4)]
  show ?case
  proof (cases R)
    case Nil': Nil
    let ?it = "it\<lparr>bi_state := st, bi_last_key := bi_last_key it, bi_from_seek := bi_from_seek it, bi_pending_next_backend := Some None\<rparr>"
    have "iterator_next cd col b log overlays it = cret (None, ?it)"
      using s(1) nx col Nil' by (subst iterator_next.simps) (simp add: merge_next_def cret_def)
    moreover have "iterates \<sigma> h t ?rid m ?it []" by (rule A) (simp_all add: Nil')
    ultimately show ?thesis using Nil' Nil(2) by (intro exI[of _ ?it] exI[of _ "[]"]) simp
  next
    case (Cons e R')
    obtain k v where e: "e = (k, v)" by (cases e)
    let ?it = "it\<lparr>bi_state := st, bi_last_key := Some k, bi_from_seek := bi_from_seek it, bi_pending_next_backend := None\<rparr>"
    have "iterator_next cd col b log overlays it = cret (Some e, ?it)"
      using s(1) nx col Cons by (subst iterator_next.simps) (simp add: merge_next_def cret_def e)
    moreover have bk: "beyond (bi_last_key it) (bi_from_seek it) k" "\<forall>x\<in>set R'. k < fst x" using Nil(1) Cons e by (auto simp: iterates_def)
    have "iterates \<sigma> h t ?rid m ?it R'" by (rule A) (use bk(2) in \<open>auto simp: Cons beyond_def less_imp_le\<close>)
    moreover have "ahead (Some k) (bi_from_seek it) m = []" using ahead_after_stored[OF bk(1)] Nil(2) by simp
    ultimately show ?thesis using Cons by (intro exI[of _ ?it] exI[of _ R']) simp
  qed
next
  let ?rid = "last_record_id log col"
  case (Cons c os it R)
  obtain ck cv where c: "c = (ck, cv)" by (cases c)
  obtain st ws where s: "take_backend cd ?rid b (overlays_query log) it = cret (case R of [] \<Rightarrow> None | e # _ \<Rightarrow> Some e, it\<lparr>bi_state := st, bi_pending_next_backend := None\<rparr>)"
     "walks \<sigma> t st ws" "stored_entries \<sigma> ws = tl R" "ist_record_id st = ?rid"
    using take_backend_is[OF rd h Cons.prems(1)] by blast
  have nx: "btree_next (overlays ! unat col) (bi_last_key it) (bi_from_seek it) = Some (ck, cv)"
    using btree_next_is[of "overlays ! unat col"] m Cons.prems(2) c by simp
  have os: "ahead (Some ck) False m = os" using ahead_after_commit[OF m(2)] Cons.prems(2) c by blast
  note A = iterates_after[OF Cons.prems(1) s(2-4)]
  have taken: ?case
    if R': "overlaid R (c # os) = kept ck cv @ overlaid R' os"
      and it': "it' = it\<lparr>bi_state := st, bi_last_key := Some ck, bi_from_seek := False, bi_pending_next_backend := p\<rparr>" "iterates \<sigma> h t ?rid m it' R'"
      and step: "iterator_next cd col b log overlays it = (case cv of None \<Rightarrow> iterator_next cd col b log overlays it' | Some v \<Rightarrow> cret (Some (ck, v), it'))" for R' it' p
  proof (cases cv)
    case None
    have "ahead (bi_last_key it') (bi_from_seek it') m = os" using it'(1) os by simp
    from Cons.IH[OF it'(2) this] show ?thesis using None R' step by simp
  next
    case (Some v)
    then show ?thesis using R' step it' os by (intro exI[of _ it'] exI[of _ R']) simp
  qed
  show ?case
  proof (cases R)
    case Nil
    let ?it = "it\<lparr>bi_state := st, bi_last_key := Some ck, bi_from_seek := False, bi_pending_next_backend := Some None\<rparr>"
    show ?thesis
    proof (rule taken[of "[]" ?it "Some None"])
      show "iterates \<sigma> h t ?rid m ?it []" by (rule A) (simp_all add: Nil)
      show "iterator_next cd col b log overlays it = (case cv of None \<Rightarrow> iterator_next cd col b log overlays ?it | Some v \<Rightarrow> cret (Some (ck, v), ?it))"
        using s(1) nx col Nil by (subst iterator_next.simps) (simp add: merge_next_def cret_def split: option.split)
    qed (simp_all add: Nil c)
  next
    case R: (Cons e R')
    obtain bk bv where e: "e = (bk, bv)" by (cases e)
    have b1: "beyond (bi_last_key it) (bi_from_seek it) bk" "\<forall>x\<in>set R'. bk < fst x" using Cons.prems(1) R e by (auto simp: iterates_def)
    consider "ck < bk" | "bk < ck" | "ck = bk" by (rule linorder_cases)
    then show ?thesis
    proof cases
      case 1
      let ?it = "it\<lparr>bi_state := st, bi_last_key := Some ck, bi_from_seek := False, bi_pending_next_backend := Some (Some (bk, bv))\<rparr>"
      show ?thesis
      proof (rule taken[of R ?it])
        show "iterates \<sigma> h t ?rid m ?it R" by (rule A) (use b1(2) 1 in \<open>auto simp: R e beyond_def\<close>)
        show "iterator_next cd col b log overlays it = (case cv of None \<Rightarrow> iterator_next cd col b log overlays ?it | Some v \<Rightarrow> cret (Some (ck, v), ?it))"
          using s(1) nx col R e 1 by (subst iterator_next.simps) (simp add: merge_next_def cret_def split: option.split)
      qed (use overlaid_step(2)[OF 1] in \<open>simp_all add: R e c\<close>)
    next
      case 2
      let ?it = "it\<lparr>bi_state := st, bi_last_key := Some bk, bi_from_seek := bi_from_seek it, bi_pending_next_backend := None\<rparr>"
      have "iterator_next cd col b log overlays it = cret (Some (bk, bv), ?it)"
        using s(1) nx col R e 2 less_not_sym[OF 2] by (subst iterator_next.simps) (simp add: merge_next_def cret_def)
      moreover have "iterates \<sigma> h t ?rid m ?it R'" by (rule A) (use b1(2) in \<open>auto simp: R beyond_def less_imp_le\<close>)
      moreover have "rising (c # os)" using rising_filter[OF in_order_rising[OF m(2)]] Cons.prems(2) unfolding ahead_def by metis
      then have "\<forall>x\<in>set (c # os). bk < fst x" using 2 c by auto
      then have "ahead (Some bk) (bi_from_seek it) m = c # os" using ahead_after_stored[OF b1(1)] Cons.prems(2) by simp
      ultimately show ?thesis using overlaid_step(1)[OF 2] by (intro exI[of _ ?it] exI[of _ R']) (simp add: R e c)
    next
      case 3
      let ?it = "it\<lparr>bi_state := st, bi_last_key := Some ck, bi_from_seek := False, bi_pending_next_backend := None\<rparr>"
      show ?thesis
      proof (rule taken[of R' ?it])
        show "iterates \<sigma> h t ?rid m ?it R'" by (rule A) (use b1(2) 3 in \<open>auto simp: R beyond_def\<close>)
        show "iterator_next cd col b log overlays it = (case cv of None \<Rightarrow> iterator_next cd col b log overlays ?it | Some v \<Rightarrow> cret (Some (ck, v), ?it))"
          using s(1) nx col R e 3 by (subst iterator_next.simps) (simp add: merge_next_def cret_def iterator_swap split: option.split)
      qed (simp_all add: R e c overlaid_step(3) flip: 3)
    qed
  qed
qed


section \<open>Runs of the iterator\<close>

text \<open>The results of at most \<open>n\<close> calls of \<open>next\<close>, up to the first that gives nothing.\<close>

primrec iter_take :: "codecs \<Rightarrow> u8 \<Rightarrow> btree_table \<Rightarrow> log_overlays \<Rightarrow> commit_overlay list \<Rightarrow> nat \<Rightarrow> btree_iterator \<Rightarrow>
    (bytes \<times> bytes) list comp" where
  "iter_take cd col table log overlays 0 it = cret []"
| "iter_take cd col table log overlays (Suc n) it =
     cbind (iterator_next cd col table log overlays it) (\<lambda>(r, it).
       case r of None \<Rightarrow> cret [] | Some e \<Rightarrow> cbind (iter_take cd col table log overlays n it) (\<lambda>es'. cret (e # es')))"

lemma iter_take_is:
  assumes "reads cd (btree_locked b) (overlays_query log) \<sigma>" and "btree_holds K \<sigma> h t" and "unat col < length overlays"
    and "m = cv_btree_indexed (overlays ! unat col)" and "distinct (map fst m)"
  shows "iterates \<sigma> h t (last_record_id log col) m it R \<Longrightarrow>
     iter_take cd col b log overlays n it = cret (take n (overlaid R (ahead (bi_last_key it) (bi_from_seek it) m)))"
proof (induction n arbitrary: it R)
  case (Suc n)
  let ?L = "overlaid R (ahead (bi_last_key it) (bi_from_seek it) m)"
  obtain it' R' where s: "iterator_next cd col b log overlays it = cret (case ?L of [] \<Rightarrow> None | e # _ \<Rightarrow> Some e, it')"
      "iterates \<sigma> h t (last_record_id log col) m it' R'" "overlaid R' (ahead (bi_last_key it') (bi_from_seek it') m) = tl ?L"
    using iterator_next_is[OF assms Suc.prems refl] by blast
  show ?case using s(1) Suc.IH[OF s(2)] s(3) by (cases ?L) (simp_all add: cret_def)
qed simp

lemma stored_entries_rising: "ordered xs \<Longrightarrow> rising (stored_entries \<sigma> (filter P xs))"
  using sorted_wrt_filter[of "\<lambda>x y. si_key x < si_key y" xs P] by (simp add: stored_entries_def comp_def sorted_wrt_map)

lemma map_of_stored:
  assumes h: "btree_holds K \<sigma> h t"
  shows "map_of (stored_entries \<sigma> (filter (\<lambda>x. P (si_key x)) (inorder t))) k = (if P k then tree_map \<sigma> t k else None)"
proof -
  note B = btree_holdsD[OF h]
  have v: "\<sigma> (si_value x) \<noteq> None" if "x \<in> set (inorder t)" for x
    using that B(4) values_owned[of t] by (auto simp: tree_in_iff domIff)
  have "map_of (stored_entries \<sigma> (filter (\<lambda>x. P (si_key x)) xs)) k = (if P k then entry_map (ent \<sigma> xs) k else None)"
    if "\<And>x. x \<in> set xs \<Longrightarrow> \<sigma> (si_value x) \<noteq> None" for xs
    using that by (induction xs) (auto simp: stored_entries_def entry_map_def ent_def)
  from this[OF v] show ?thesis by (simp add: tree_map_def entries_def)
qed

lemma iterator_new_is:
  assumes rd: "reads cd (btree_locked b) (overlays_query log) \<sigma>" and h: "btree_holds K \<sigma> h t"
  shows "\<exists>it. btree_iterator_new cd b col log = cret it \<and> iterates \<sigma> h t (last_record_id log col) m it (stored_entries \<sigma> (inorder t)) \<and>
     bi_last_key it = None \<and> \<not> bi_from_seek it"
proof -
  let ?it = "\<lparr>bi_tree = btree_of h (last_record_id log col), bi_state = iter_state_new (last_record_id log col), bi_pending_next_backend = None,
     bi_last_key = None, bi_from_seek = False\<rparr>"
  have "btree_iterator_new cd b col log = cret ?it"
    using fetch_header_is[OF rd btree_holdsD(1)[OF h]] by (simp add: btree_iterator_new_def btree_open_def btree_of_def cret_def Let_def)
  moreover have "iterates \<sigma> h t (last_record_id log col) m ?it (stored_entries \<sigma> (inorder t))"
    using stored_entries_rising[OF btree_holdsD(5)[OF h], of \<sigma> "\<lambda>_. True"]
    by (simp add: iterates_def walks_def iter_state_new_def beyond_def) (simp add: btree_of_def)
  ultimately show ?thesis by (intro exI[of _ ?it]) simp
qed

lemma iterator_seek_is:
  assumes rd: "reads cd (btree_locked b) (overlays_query log) \<sigma>" and h: "btree_holds K \<sigma> h t"
    and it: "iterates \<sigma> h t (last_record_id log col) m it R"
  shows "\<exists>it'. iterator_seek cd key col b log it = cret it' \<and>
     iterates \<sigma> h t (last_record_id log col) m it' (stored_entries \<sigma> (filter (\<lambda>x. key \<le> si_key x) (inorder t))) \<and>
     bi_last_key it' = Some key \<and> bi_from_seek it' \<and> bi_pending_next_backend it' = None"
proof -
  let ?it = "it\<lparr>bi_from_seek := True, bi_last_key := Some key, bi_pending_next_backend := None\<rparr>" and ?rid = "last_record_id log col"
  have i: "root_or_null (bi_tree it) = bh_root h" "bt_depth (bi_tree it) = bh_depth h" "bt_record_id (bi_tree it) = ?rid" "ist_record_id (bi_state it) = ?rid"
    using it by (simp_all add: iterates_def)
  obtain st where s: "iter_state_seek cd key (bi_tree it) (btree_locked b) (overlays_query log) False (bi_state it) = cret st"
      "ist_record_id st = ?rid" "walks \<sigma> t st (filter (\<lambda>x. key \<le> si_key x) (inorder t))"
    using iter_state_seek_is[OF rd h i(1,2), of key False "bi_state it"] i(4) by auto
  have "iterator_seek cd key col b log it = cret (?it\<lparr>bi_state := st\<rparr>)"
    using i(3) s(1) by (simp add: iterator_seek_def iterator_seek_backend_def reopen_tree_def Let_def cret_def)
  moreover have "\<forall>e\<in>set (stored_entries \<sigma> (filter (\<lambda>x. key \<le> si_key x) (inorder t))). key \<le> fst e" by (auto simp: stored_entries_def)
  then have "iterates \<sigma> h t ?rid m (?it\<lparr>bi_state := st\<rparr>) (stored_entries \<sigma> (filter (\<lambda>x. key \<le> si_key x) (inorder t)))"
    using i s(2,3) stored_entries_rising[OF btree_holdsD(5)[OF h]] by (auto simp: iterates_def beyond_def)
  ultimately show ?thesis by (intro exI[of _ "?it\<lparr>bi_state := st\<rparr>"]) simp
qed


section \<open>A record between a seek and the next step\<close>

lemma iterator_next_same:
  assumes "take_backend cd (last_record_id log col) b (overlays_query log) it = take_backend cd (last_record_id log col) b (overlays_query log) it2"
    and "bi_last_key it2 = bi_last_key it" and "bi_from_seek it2 = bi_from_seek it"
  shows "iterator_next cd col b log overlays it = iterator_next cd col b log overlays it2"
  using assms by (subst (1 2) iterator_next.simps) simp

lemma iter_take_same:
  assumes "iterator_next cd col b log overlays it = iterator_next cd col b log overlays it2"
  shows "iter_take cd col b log overlays n it = iter_take cd col b log overlays n it2"
  using assms by (cases n) simp_all

text \<open>An iterator that has just sought a key, when the next call finds a newer record.\<close>

lemma stale_seek_is:
  assumes rd: "reads cd (btree_locked b) (overlays_query log) \<sigma>" and h: "btree_holds K \<sigma> h t"
    and it: "bi_last_key it = Some key" "bi_from_seek it" "bi_pending_next_backend it = None"
      "bt_record_id (bi_tree it) \<noteq> last_record_id log col"
  shows "\<exists>it2. iterator_next cd col b log overlays it = iterator_next cd col b log overlays it2 \<and> bi_last_key it2 = Some key \<and> bi_from_seek it2 \<and>
     iterates \<sigma> h t (last_record_id log col) m it2 (stored_entries \<sigma> (filter (\<lambda>x. key < si_key x) (inorder t)))"
proof -
  let ?rid = "last_record_id log col"
  let ?bt = "btree_of h ?rid"
  obtain st where s: "iter_state_seek cd key ?bt (btree_locked b) (overlays_query log) True (bi_state it) = cret st"
      "walks \<sigma> t st (filter (\<lambda>x. key < si_key x) (inorder t))"
    using iter_state_seek_is[OF rd h root_of_header, of key ?rid True "bi_state it"] by auto
  let ?it = "it\<lparr>bi_tree := ?bt, bi_state := st\<lparr>ist_record_id := ?rid\<rparr>\<rparr>"
  have op: "btree_open cd (btree_locked b) (overlays_query log) ?rid = cret ?bt"
    using fetch_header_is[OF rd btree_holdsD(1)[OF h]] by (simp add: btree_open_def btree_of_def cret_def)
  have r: "bt_record_id ?bt = ?rid" by (simp add: btree_of_def)
  have p: "it\<lparr>bi_pending_next_backend := None\<rparr> = it" using it(3) by (cases it) simp
  have "take_backend cd ?rid b (overlays_query log) it = iterator_next_backend cd ?rid b (overlays_query log) it"
    using it(3) by (simp add: take_backend_def p Let_def)
  also have "\<dots> = take_backend cd ?rid b (overlays_query log) ?it"
    using it s(1) op r by (simp add: take_backend_def iterator_next_backend_def reopen_tree_def cret_def)
  finally have "iterator_next cd col b log overlays it = iterator_next cd col b log overlays ?it"
    by (rule iterator_next_same) simp_all
  moreover have w: "walks \<sigma> t (st\<lparr>ist_record_id := ?rid\<rparr>) (filter (\<lambda>x. key < si_key x) (inorder t))" using s(2) by (simp add: walks_def)
  have "iterates \<sigma> h t ?rid m ?it (stored_entries \<sigma> (filter (\<lambda>x. key < si_key x) (inorder t)))"
    unfolding iterates_def using w it r stored_entries_rising[OF btree_holdsD(5)[OF h]]
    by (auto simp: beyond_def stored_entries_def less_imp_le)
  ultimately show ?thesis using it(1,2) by (intro exI[of _ ?it]) simp
qed


end
