(* ===== verification/Iter_Correct.thy ===== *)
theory Iter_Correct
  imports BTree_Correct BTree_Merge
begin

text \<open>
  The properties of the iterator of ordered columns, with their instances on a new column, on one
  that stores a key, and a commit overlay that holds values and a deletion.
\<close>

text \<open>What a reader sees of a key: the commit overlay, and below it the column.\<close>

definition seen :: "commit_overlay \<Rightarrow> (bytes \<rightharpoonup> bytes) \<Rightarrow> bytes \<rightharpoonup> bytes" where
  "seen ov M k = (case overlay_btree_get ov k of Some v \<Rightarrow> v | None \<Rightarrow> M k)"

lemma map_of_ahead:
  assumes "distinct (map fst (cv_btree_indexed ov))"
  shows "map_of (ahead lk fs (cv_btree_indexed ov)) k = (if beyond lk fs k then overlay_btree_get ov k else None)"
  by (simp add: ahead_def map_of_keep map_of_in_order[OF assms] overlay_btree_get_def)

lemma overlaid_seen:
  assumes h: "btree_holds K \<sigma> h t" and M: "tree_map \<sigma> t = M" and d: "distinct (map fst (cv_btree_indexed ov))"
    and P: "\<And>k. P k = beyond lk fs k"
  shows "rising (overlaid (stored_entries \<sigma> (filter (\<lambda>x. P (si_key x)) (inorder t))) (ahead lk fs (cv_btree_indexed ov)))"
    and "map_of (overlaid (stored_entries \<sigma> (filter (\<lambda>x. P (si_key x)) (inorder t))) (ahead lk fs (cv_btree_indexed ov))) k =
       (if P k then seen ov M k else None)"
proof -
  have r: "rising (stored_entries \<sigma> (filter (\<lambda>x. P (si_key x)) (inorder t)))" "rising (ahead lk fs (cv_btree_indexed ov))"
    using stored_entries_rising[OF btree_holdsD(5)[OF h]] rising_filter[OF in_order_rising[OF d]] by (simp_all add: ahead_def)
  show "rising (overlaid (stored_entries \<sigma> (filter (\<lambda>x. P (si_key x)) (inorder t))) (ahead lk fs (cv_btree_indexed ov)))"
    by (rule overlaid_rising[OF r])
  have "map_of (ahead lk fs (cv_btree_indexed ov)) k = (if P k then overlay_btree_get ov k else None)"
    by (simp add: map_of_ahead[OF d] P)
  then show "map_of (overlaid (stored_entries \<sigma> (filter (\<lambda>x. P (si_key x)) (inorder t))) (ahead lk fs (cv_btree_indexed ov))) k =
       (if P k then seen ov M k else None)"
    unfolding map_of_overlaid[OF r] map_of_stored[OF h] M by (simp add: seen_def)
qed

text \<open>
  C29: Iterating an ordered column (without reference counts) from its start, with no commit and no
  record in between, gives the keys that a reader sees, each once and in order, with their values: the stored entries overlaid with
  the commit overlay, deleted keys left out.
\<close>

theorem btree_iterate_in_order:
  assumes "ordered_rep cd K V b (overlays_query log) m d M" and "unat col < length overlays"
    and "distinct (map fst (cv_btree_indexed (overlays ! unat col)))"
  shows "\<exists>it L. btree_iterator_new cd b col log = Some (Inr it) \<and> (\<forall>n. iter_take cd col b log overlays n it = Some (Inr (take n L))) \<and>
     sorted_wrt (<) (map fst L) \<and> map_of L = seen (overlays ! unat col) M"
proof -
  obtain \<sigma> h t where s: "store_rep cd (btree_locked b) (overlays_query log) (m * (node_limit K + V + 31)) \<sigma>" "btree_holds K \<sigma> h t" "tree_map \<sigma> t = M"
    using assms(1) unfolding ordered_rep_def by blast
  note rd = store_reads[OF s(1)]
  obtain it where it: "btree_iterator_new cd b col log = cret it"
      "iterates \<sigma> h t (last_record_id log col) (cv_btree_indexed (overlays ! unat col)) it (stored_entries \<sigma> (inorder t))" "bi_last_key it = None" "\<not> bi_from_seek it"
    using iterator_new_is[OF rd s(2)] by blast
  let ?L = "overlaid (stored_entries \<sigma> (inorder t)) (ahead None False (cv_btree_indexed (overlays ! unat col)))"
  have "\<forall>n. iter_take cd col b log overlays n it = cret (take n ?L)" using iter_take_is[OF rd s(2) assms(2) refl assms(3) it(2)] it(3,4) by simp
  moreover have "rising ?L" "map_of ?L k = seen (overlays ! unat col) M k" for k
    using overlaid_seen[OF s(2,3) assms(3), of "\<lambda>_. True" None False] by (simp_all add: beyond_def)
  ultimately show ?thesis using it(1) by (intro exI[of _ it] exI[of _ ?L]) (auto simp: cret_def)
qed

definition sample_overlay :: commit_overlay where
  "sample_overlay = \<lparr>cv_indexed = [], cv_btree_indexed = [([3], (5, Some [30])), ([1], (6, Some [10])), ([2], (6, None))]\<rparr>"

lemma sample_readable:
  "\<exists>b. btree_table_open 0 (new_tables 0 (column_options_default\<lparr>co_btree_index := True\<rparr>) 7) btree_metadata = cret b \<and>
     ordered_rep no_codec 10 10 b (overlays_query empty_overlays) 1 0 Map.empty"
proof -
  have "unat (0 :: u8) < length (md_columns btree_metadata)" by (simp add: btree_metadata_def)
  from ordered_rep_new[OF this refl] no_codec_ok empty_values(2) show ?thesis
    by (fastforce simp: btree_metadata_def column_options_default_def node_limit_def ORDER_def)
qed

theorem btree_iterate_in_order_witness:
  "\<exists>b it L. btree_table_open 0 (new_tables 0 (column_options_default\<lparr>co_btree_index := True\<rparr>) 7) btree_metadata = Some (Inr b) \<and>
     btree_iterator_new no_codec b 0 empty_overlays = Some (Inr it) \<and>
     (\<forall>n. iter_take no_codec 0 b empty_overlays [sample_overlay] n it = Some (Inr (take n L))) \<and> map_of L [1] = Some [10] \<and> map_of L [2] = None"
proof -
  obtain b where b: "btree_table_open 0 (new_tables 0 (column_options_default\<lparr>co_btree_index := True\<rparr>) 7) btree_metadata = cret b"
      "ordered_rep no_codec 10 10 b (overlays_query empty_overlays) 1 0 Map.empty"
    using sample_readable by blast
  have "distinct (map fst (cv_btree_indexed ([sample_overlay] ! unat (0 :: u8))))" "unat (0 :: u8) < length [sample_overlay]"
    by (simp_all add: sample_overlay_def)
  from btree_iterate_in_order[OF b(2) this(2,1)] obtain it L where "btree_iterator_new no_codec b 0 empty_overlays = Some (Inr it)"
      "\<forall>n. iter_take no_codec 0 b empty_overlays [sample_overlay] n it = Some (Inr (take n L))" "map_of L = seen sample_overlay Map.empty"
    by auto
  moreover have "seen sample_overlay Map.empty [1] = Some [10]" "seen sample_overlay Map.empty [2] = None"
    by (simp_all add: seen_def overlay_btree_get_def sample_overlay_def)
  ultimately show ?thesis using b(1) by (auto simp: cret_def)
qed

text \<open>
  C30: After a seek the iterator of an ordered column (without reference counts) gives, in order, exactly
  the keys a reader sees from the sought key on, the sought key included.
\<close>

theorem btree_seek_iterate:
  assumes "ordered_rep cd K V b (overlays_query log) m d M" and "unat col < length overlays"
    and "distinct (map fst (cv_btree_indexed (overlays ! unat col)))"
  shows "\<exists>it it' L. btree_iterator_new cd b col log = Some (Inr it) \<and> iterator_seek cd key col b log it = Some (Inr it') \<and>
     (\<forall>n. iter_take cd col b log overlays n it' = Some (Inr (take n L))) \<and> sorted_wrt (<) (map fst L) \<and>
     (\<forall>k. map_of L k = (if key \<le> k then seen (overlays ! unat col) M k else None))"
proof -
  obtain \<sigma> h t where s: "store_rep cd (btree_locked b) (overlays_query log) (m * (node_limit K + V + 31)) \<sigma>" "btree_holds K \<sigma> h t" "tree_map \<sigma> t = M"
    using assms(1) unfolding ordered_rep_def by blast
  note rd = store_reads[OF s(1)]
  let ?m = "cv_btree_indexed (overlays ! unat col)"
  obtain it where it: "btree_iterator_new cd b col log = cret it" "iterates \<sigma> h t (last_record_id log col) ?m it (stored_entries \<sigma> (inorder t))"
    using iterator_new_is[OF rd s(2)] by blast
  obtain it' where it': "iterator_seek cd key col b log it = cret it'"
      "iterates \<sigma> h t (last_record_id log col) ?m it' (stored_entries \<sigma> (filter (\<lambda>x. key \<le> si_key x) (inorder t)))" "bi_last_key it' = Some key" "bi_from_seek it'"
    using iterator_seek_is[OF rd s(2) it(2)] by blast
  let ?L = "overlaid (stored_entries \<sigma> (filter (\<lambda>x. key \<le> si_key x) (inorder t))) (ahead (Some key) True ?m)"
  have "\<forall>n. iter_take cd col b log overlays n it' = cret (take n ?L)" using iter_take_is[OF rd s(2) assms(2) refl assms(3) it'(2)] it'(3,4) by simp
  moreover have "rising ?L" "map_of ?L k = (if key \<le> k then seen (overlays ! unat col) M k else None)" for k
    using overlaid_seen[OF s(2,3) assms(3), of "\<lambda>k. key \<le> k" "Some key" True] by (simp_all add: beyond_def)
  ultimately show ?thesis using it(1) it'(1) by (intro exI[of _ it] exI[of _ it'] exI[of _ ?L]) (auto simp: cret_def)
qed

theorem btree_seek_iterate_witness:
  "\<exists>b it it' L. btree_table_open 0 (new_tables 0 (column_options_default\<lparr>co_btree_index := True\<rparr>) 7) btree_metadata = Some (Inr b) \<and>
     btree_iterator_new no_codec b 0 empty_overlays = Some (Inr it) \<and> iterator_seek no_codec [2] 0 b empty_overlays it = Some (Inr it') \<and>
     (\<forall>n. iter_take no_codec 0 b empty_overlays [sample_overlay] n it' = Some (Inr (take n L))) \<and> map_of L [1] = None \<and> map_of L [3] = Some [30]"
proof -
  obtain b where b: "btree_table_open 0 (new_tables 0 (column_options_default\<lparr>co_btree_index := True\<rparr>) 7) btree_metadata = cret b"
      "ordered_rep no_codec 10 10 b (overlays_query empty_overlays) 1 0 Map.empty"
    using sample_readable by blast
  have "distinct (map fst (cv_btree_indexed ([sample_overlay] ! unat (0 :: u8))))" "unat (0 :: u8) < length [sample_overlay]"
    by (simp_all add: sample_overlay_def)
  from btree_seek_iterate[OF b(2) this(2,1), of "[2]"] obtain it it' L where "btree_iterator_new no_codec b 0 empty_overlays = Some (Inr it)"
      "iterator_seek no_codec [2] 0 b empty_overlays it = Some (Inr it')" "\<forall>n. iter_take no_codec 0 b empty_overlays [sample_overlay] n it' = Some (Inr (take n L))"
      "\<forall>k. map_of L k = (if [2] \<le> k then seen ([sample_overlay] ! unat (0 :: u8)) Map.empty k else None)"
    by blast
  moreover have "seen sample_overlay Map.empty [3] = Some [30]" "\<not> [2] \<le> [1 :: u8]" "[2] \<le> [3 :: u8]"
    by (simp_all add: seen_def overlay_btree_get_def sample_overlay_def)
  ultimately show ?thesis using b(1) by (auto simp: cret_def)
qed

text \<open>
  C31: A key that is sought is skipped when another record reaches the log between \<open>seek\<close> and \<open>next\<close>:
  \<open>next\<close> then seeks again behind the last key, which is the sought key and was never returned. The
  stored value of the sought key is not among the results, whatever it is; the larger keys are.
\<close>

theorem btree_seek_skips_key:
  assumes "ordered_rep cd K V b (overlays_query log) m d M" and "ordered_rep cd K V b' (overlays_query log') m' d' M'"
    and "last_record_id log' col \<noteq> last_record_id log col" and "unat col < length overlays"
    and "distinct (map fst (cv_btree_indexed (overlays ! unat col)))" and "overlay_btree_get (overlays ! unat col) key = None"
  shows "\<exists>it it' L. btree_iterator_new cd b col log = Some (Inr it) \<and> iterator_seek cd key col b log it = Some (Inr it') \<and>
     (\<forall>n. iter_take cd col b' log' overlays n it' = Some (Inr (take n L))) \<and>
     (\<forall>k. map_of L k = (if key < k then seen (overlays ! unat col) M' k else None))"
proof -
  obtain \<sigma> h t where s: "store_rep cd (btree_locked b) (overlays_query log) (m * (node_limit K + V + 31)) \<sigma>" "btree_holds K \<sigma> h t"
    using assms(1) unfolding ordered_rep_def by blast
  obtain \<sigma>' h' t' where s': "store_rep cd (btree_locked b') (overlays_query log') (m' * (node_limit K + V + 31)) \<sigma>'" "btree_holds K \<sigma>' h' t'" "tree_map \<sigma>' t' = M'"
    using assms(2) unfolding ordered_rep_def by blast
  note rd = store_reads[OF s(1)] and rd' = store_reads[OF s'(1)]
  let ?ov = "overlays ! unat col"
  let ?m = "cv_btree_indexed ?ov"
  obtain it where it: "btree_iterator_new cd b col log = cret it" "iterates \<sigma> h t (last_record_id log col) ?m it (stored_entries \<sigma> (inorder t))"
    using iterator_new_is[OF rd s(2)] by blast
  obtain it' where it': "iterator_seek cd key col b log it = cret it'"
      "iterates \<sigma> h t (last_record_id log col) ?m it' (stored_entries \<sigma> (filter (\<lambda>x. key \<le> si_key x) (inorder t)))" "bi_last_key it' = Some key" "bi_from_seek it'"
      "bi_pending_next_backend it' = None"
    using iterator_seek_is[OF rd s(2) it(2)] by blast
  have "bt_record_id (bi_tree it') \<noteq> last_record_id log' col" using it'(2) assms(3) by (simp add: iterates_def)
  from stale_seek_is[OF rd' s'(2) it'(3-5) this, of overlays ?m]
  obtain it2 where i2: "iterator_next cd col b' log' overlays it' = iterator_next cd col b' log' overlays it2" "bi_last_key it2 = Some key" "bi_from_seek it2"
      "iterates \<sigma>' h' t' (last_record_id log' col) ?m it2 (stored_entries \<sigma>' (filter (\<lambda>x. key < si_key x) (inorder t')))"
    by blast
  let ?R = "stored_entries \<sigma>' (filter (\<lambda>x. key < si_key x) (inorder t'))" and ?os = "ahead (Some key) True ?m"
  have "iter_take cd col b' log' overlays n it' = cret (take n (overlaid ?R ?os))" for n
    using iter_take_is[OF rd' s'(2) assms(4) refl assms(5) i2(4), of n] i2(2,3) iter_take_same[OF i2(1)] by simp
  moreover have "map_of (overlaid ?R ?os) k = (if key < k then seen ?ov M' k else None)" for k
  proof -
    have r: "rising ?R" "rising ?os" using stored_entries_rising[OF btree_holdsD(5)[OF s'(2)]] rising_filter[OF in_order_rising[OF assms(5)]] by (simp_all add: ahead_def)
    have "map_of ?os k = (if key \<le> k then overlay_btree_get ?ov k else None)" using map_of_ahead[OF assms(5)] by (simp add: beyond_def)
    then show ?thesis
      unfolding map_of_overlaid[OF r] map_of_stored[OF s'(2)] s'(3) using assms(6) by (auto simp: seen_def le_less)
  qed
  ultimately show ?thesis using it(1) it'(1) by (intro exI[of _ it] exI[of _ it'] exI[of _ "overlaid ?R ?os"]) (auto simp: cret_def)
qed

text \<open>Any answers of a writer are those of a log with overlays of its own.\<close>

lemma lookup2_finite: "finite {(t, i). lookup2 al t i \<noteq> None}"
proof (rule finite_subset)
  show "{(t, i). lookup2 al t i \<noteq> None} \<subseteq> (\<Union>p\<in>set al. {fst p} \<times> fst ` set (snd p))"
  proof safe
    fix t i v assume "lookup2 al t i = Some v"
    then obtain m where "(t, m) \<in> set al" "(i, v) \<in> set m"
      by (auto simp: lookup2_def split: option.splits dest: map_of_SomeD)
    then show "(t, i) \<in> (\<Union>p\<in>set al. {fst p} \<times> fst ` set (snd p))" by (intro UN_I[of "(t, m)"]) force+
  qed
qed simp

lemma lookup2_exists:
  assumes "finite {(t, i). f t i \<noteq> None}"
  shows "\<exists>al. \<forall>t i. lookup2 al t i = f t i"
proof -
  let ?S = "{(t, i). f t i \<noteq> None}"
  obtain ts where ts: "set ts = fst ` ?S" using assms finite_list by (meson finite_imageI)
  have "\<exists>is. set is = {i. f t i \<noteq> None}" for t
    by (rule finite_list, rule finite_subset[of _ "snd ` ?S"]) (use assms in \<open>force intro: finite_imageI\<close>)+
  then obtain ks where ks: "\<And>t. set (ks t) = {i. f t i \<noteq> None}" by metis
  have "lookup2 (map (\<lambda>t. (t, map (\<lambda>i. (i, the (f t i))) (ks t))) ts) t i = f t i" for t i
  proof (cases "f t i")
    case None
    then have "i \<notin> set (ks t)" using ks[of t] by simp
    then show ?thesis using None by (cases "t \<in> set ts") (simp_all add: lookup2_def map_of_map_restrict restrict_map_def)
  next
    case (Some v)
    then have "i \<in> set (ks t)" "t \<in> set ts" using ks[of t] ts by force+
    then show ?thesis using Some by (simp add: lookup2_def map_of_map_restrict restrict_map_def)
  qed
  then show ?thesis by blast
qed

lemma writer_as_log: "\<exists>log. overlays_query log = writer_query w \<and> ov_last_record_id log = ids"
proof -
  let ?o = "\<lambda>l1 l2 t i. case lookup2 l1 t i of Some x \<Rightarrow> Some x | None \<Rightarrow> lookup2 l2 t i"
  have fin: "finite {(t, i). ?o l1 l2 t i \<noteq> None}" for l1 l2 :: "('t \<times> ('k \<times> 'v) list) list"
    by (rule finite_subset[OF _ finite_UnI[OF lookup2_finite[of l1] lookup2_finite[of l2]]]) (auto split: option.splits)
  obtain xs where xs: "\<forall>t i. lookup2 xs t i = ?o (lc_local_index (lw_log w)) (ov_index (lw_overlays w)) t i"
    using lookup2_exists[OF fin] by blast
  obtain vs where vs: "\<forall>t i. lookup2 vs t i = ?o (lc_local_values (lw_log w)) (ov_value (lw_overlays w)) t i"
    using lookup2_exists[OF fin] by blast
  have "overlays_query \<lparr>ov_index = xs, ov_value = vs, ov_last_record_id = ids\<rparr> = writer_query w"
    by (auto simp: overlays_query_def writer_query_def index_lookup_eq value_lookup_eq xs vs fun_eq_iff split: option.split)
  then show ?thesis by (intro exI[of _ "\<lparr>ov_index = xs, ov_value = vs, ov_last_record_id = ids\<rparr>"]) simp
qed

lemma sample_stored:
  "\<exists>b log log' d. ordered_rep no_codec 10 10 b (overlays_query log) 0 d [[0] \<mapsto> [7]] \<and> overlays_query log' = overlays_query log \<and>
     last_record_id log' 0 \<noteq> last_record_id log 0"
proof -
  let ?bs = "[[([0 :: u8], Some [7 :: u8])]]"
  obtain b where b: "ordered_rep no_codec 10 10 b (writer_query (log_writer_new empty_overlays 1)) 1000 0 Map.empty"
    using sample_ordered by blast
  have "ordered_rep no_codec 10 10 b (writer_query (log_writer_new empty_overlays 1))
      (sum_list (map (\<lambda>c. write_budget 1 (length c)) ?bs)) 0 Map.empty"
    by (rule ordered_rep_less[OF b]) (simp add: write_budget_def cost_def)
  then obtain b' w' d' where r: "ordered_rep no_codec 10 10 b' (writer_query w') 0 d' (fold apply_change (concat ?bs) Map.empty)"
    using write_batches_rep[of no_codec 10 10 b "log_writer_new empty_overlays 1" 1 ?bs 0 Map.empty] by (force simp: small_batch_def)
  obtain log log' where "overlays_query log = writer_query w'" "ov_last_record_id log = [(0, 4)]"
      "overlays_query log' = writer_query w'" "ov_last_record_id log' = [(0, 5)]"
    using writer_as_log by metis
  then show ?thesis using r by (intro exI[of _ b'] exI[of _ log] exI[of _ log'] exI[of _ d']) (simp add: last_record_id_def apply_change_def)
qed

theorem btree_seek_skips_key_witness:
  "\<exists>b log log' it it' L. btree_table_get no_codec [0] (overlays_query log) (btree_locked b) = Some (Inr (Some [7])) \<and>
     btree_iterator_new no_codec b 0 log = Some (Inr it) \<and> iterator_seek no_codec [0] 0 b log it = Some (Inr it') \<and>
     (\<forall>n. iter_take no_codec 0 b log' [sample_overlay] n it' = Some (Inr (take n L))) \<and>
     map_of L [0] = None \<and> map_of L [3] = Some [30]"
proof -
  obtain b log log' d where s: "ordered_rep no_codec 10 10 b (overlays_query log) 0 d [[0] \<mapsto> [7]]"
      "overlays_query log' = overlays_query log" "last_record_id log' 0 \<noteq> last_record_id log 0"
    using sample_stored by blast
  have g: "btree_table_get no_codec [0] (overlays_query log) (btree_locked b) = Some (Inr (Some [7]))"
    using ordered_rep_get[OF s(1)] by (simp add: cret_def)
  have r: "ordered_rep no_codec 10 10 b (overlays_query log') 0 d [[0] \<mapsto> [7]]" using s(1,2) by simp
  have h: "unat (0 :: u8) < length [sample_overlay]" "distinct (map fst (cv_btree_indexed ([sample_overlay] ! unat (0 :: u8))))"
      "overlay_btree_get ([sample_overlay] ! unat (0 :: u8)) [0] = None"
    by (simp_all add: sample_overlay_def overlay_btree_get_def)
  from btree_seek_skips_key[OF s(1) r s(3) h] obtain it it' L where t: "btree_iterator_new no_codec b 0 log = Some (Inr it)"
      "iterator_seek no_codec [0] 0 b log it = Some (Inr it')" "\<forall>n. iter_take no_codec 0 b log' [sample_overlay] n it' = Some (Inr (take n L))"
      "\<forall>k. map_of L k = (if [0] < k then seen ([sample_overlay] ! unat (0 :: u8)) [[0] \<mapsto> [7]] k else None)"
    by blast
  have "seen sample_overlay [[0] \<mapsto> [7]] [3] = Some [30]" "[0] < [3 :: u8]" by (simp_all add: seen_def overlay_btree_get_def sample_overlay_def)
  then have "map_of L [0] = None" "map_of L [3] = Some [30]" using t(4) by simp_all
  then show ?thesis using g t(1-3) by blast
qed

end
