(* ===== verification/Db_Pipeline.thy ===== *)
theory Db_Pipeline
  imports Db
begin

text \<open>
  The stages of the commit pipeline (\<^verbatim>\<open>src/src/db.rs\<close>, \<open>DbInner::process_commits\<close> to
  \<open>kill_logs\<close>, and the loops of the worker threads).
\<close>

section \<open>From the commit queue to the log\<close>

text \<open>\<open>process_commits\<close> waits while this holds.\<close>

definition log_waits :: "db_inner \<Rightarrow> bool" where
  "log_waits db = (\<not> db_shutdown db \<and> MAX_LOG_QUEUE_BYTES < db_log_queue db)"

text \<open>\<open>IndexedChangeSet::write_plan\<close>: the changes of one column, and whether one asked to re-index.\<close>

fun write_changes :: "codecs \<Rightarrow> change_set \<Rightarrow> bool \<Rightarrow> hash_column \<Rightarrow> log_writer \<Rightarrow>
    (bool \<times> hash_column \<times> log_writer) comp" where
  "write_changes cd [] reindex hc w = cret (reindex, hc, w)"
| "write_changes cd ((key, val) # cs) reindex hc w =
     cbind (hash_write_plan cd hc key val w) (\<lambda>(outcome, hc, w).
       write_changes cd cs (reindex \<or> outcome = NeedReindex) hc w)"

definition indexed_write_plan :: "codecs \<Rightarrow> change_set \<Rightarrow> column \<Rightarrow> bool \<Rightarrow> log_writer \<Rightarrow>
    (bool \<times> column \<times> log_writer) comp" where
  "indexed_write_plan cd cs c reindex w =
     (case c of
        Hash hc \<Rightarrow> cbind (write_changes cd cs reindex hc w) (\<lambda>(reindex, hc, w). cret (reindex, Hash hc, w))
      | Tree _ \<Rightarrow> cret (reindex, c, w))"

fun plan_indexed :: "codecs \<Rightarrow> (u8 \<times> change_set) list \<Rightarrow> bool \<Rightarrow> log_writer \<Rightarrow> db_inner \<Rightarrow>
    (bool \<times> log_writer \<times> db_inner) comp" where
  "plan_indexed cd [] reindex w db = cret (reindex, w, db)"
| "plan_indexed cd ((c, cs) # rest) reindex w db =
     cbind (Some (column_nth db (unat c))) (\<lambda>col.
     cbind (indexed_write_plan cd cs col reindex w) (\<lambda>(reindex, col, w).
       plan_indexed cd rest reindex w (set_column (unat c) col db)))"

fun plan_btree :: "codecs \<Rightarrow> (u8 \<times> change_set) list \<Rightarrow> log_writer \<Rightarrow> db_inner \<Rightarrow> (log_writer \<times> db_inner) comp" where
  "plan_btree cd [] w db = cret (w, db)"
| "plan_btree cd ((c, cs) # rest) w db =
     cbind (Some (column_nth db (unat c))) (\<lambda>col.
       case col of
         Hash _ \<Rightarrow> Some (Inl (Err (InvalidConfiguration ''Not an indexed column.'')))
       | Tree b \<Rightarrow> cbind (btree_write_plan cd cs b w) (\<lambda>(b, w).
           plan_btree cd rest w (set_column (unat c) (Tree b) db)))"

fun complete_columns :: "column list \<Rightarrow> log_writer \<Rightarrow> column list \<times> log_writer" where
  "complete_columns [] w = ([], w)"
| "complete_columns (c # cs) w =
     (let (c, w) = column_complete_plan c w; (cs, w) = complete_columns cs w in (c # cs, w))"

definition clean_commit :: "commit \<Rightarrow> commit_overlay list \<Rightarrow> commit_overlay list res" where
  "clean_commit commit ovs =
     rbind (update_overlays (\<lambda>_ ch ov. Inr (indexed_clean_overlay (cm_id commit) ch ov))
              (cs_indexed (cm_changeset commit)) ovs) (\<lambda>ovs.
       update_overlays (\<lambda>_ ch ov. Inr (btree_clean_overlay (cm_id commit) ch ov))
         (cs_btree_indexed (cm_changeset commit)) ovs)"

definition start_reindex :: "u64 \<Rightarrow> db_inner \<Rightarrow> db_inner" where
  "start_reindex record_id db = db\<lparr>db_next_reindex := record_id\<rparr>"

definition pop_commit :: "db_inner \<Rightarrow> (commit \<times> db_inner) option" where
  "pop_commit db =
     (case cq_commits (db_commit_queue db) of
        [] \<Rightarrow> None
      | commit # rest \<Rightarrow> Some (commit, db\<lparr>db_commit_queue := (db_commit_queue db)
          \<lparr>cq_commits := rest, cq_bytes := cq_bytes (db_commit_queue db) - cm_bytes commit\<rparr>\<rparr>))"

text \<open>The record of one commit: all its changes, then the headers of the value tables.\<close>

definition plan_commit :: "codecs \<Rightarrow> commit \<Rightarrow> log_writer \<Rightarrow> db_inner \<Rightarrow> (bool \<times> log_writer \<times> db_inner) comp" where
  "plan_commit cd commit w db =
     cbind (plan_indexed cd (cs_indexed (cm_changeset commit)) False w db) (\<lambda>(reindex, w, db).
     cbind (plan_btree cd (cs_btree_indexed (cm_changeset commit)) w db) (\<lambda>(w, db).
       let (cols, w) = complete_columns (db_columns db) w
       in cret (reindex, w, db\<lparr>db_columns := cols\<rparr>)))"

definition process_commits :: "crates \<Rightarrow> db_inner \<Rightarrow> (bool \<times> db_inner) comp" where
  "process_commits cr db =
     (case pop_commit db of
        None \<Rightarrow> cret (False, db)
      | Some (commit, db) \<Rightarrow>
          let (w, log) = begin_record (db_log db)
          in cbind (plan_commit (cr_codecs cr) commit w (db\<lparr>db_log := log\<rparr>)) (\<lambda>(reindex, w, db).
             cbind (Some (end_record (cr_crc cr) (lw_log w) (db_log db))) (\<lambda>(bytes, log).
             cbind (Some (clean_commit commit (db_commit_overlay db))) (\<lambda>ovs.
               let db = db\<lparr>db_log := log, db_log_queue := db_log_queue db + uint bytes, db_commit_overlay := ovs\<rparr>
               in cret (True, if reindex then start_reindex (lc_record_id (lw_log w)) db else db)))))"

section \<open>Re-indexing\<close>

fun write_reindex_plans :: "(bytes \<times> address) list \<Rightarrow> bool \<Rightarrow> hash_column \<Rightarrow> log_writer \<Rightarrow>
    (bool \<times> hash_column \<times> log_writer) comp" where
  "write_reindex_plans [] next_reindex hc w = cret (next_reindex, hc, w)"
| "write_reindex_plans ((key, address) # batch) next_reindex hc w =
     cbind (write_reindex_plan key address hc w) (\<lambda>(outcome, hc, w).
       write_reindex_plans batch (next_reindex \<or> outcome = NeedReindex) hc w)"

fun process_reindex_columns :: "crates \<Rightarrow> nat list \<Rightarrow> db_inner \<Rightarrow> (bool \<times> db_inner) comp" where
  "process_reindex_columns cr [] db = cret (False, db\<lparr>db_next_reindex := 0\<rparr>)"
| "process_reindex_columns cr (i # is) db =
     (case db_columns db ! i of
        Tree _ \<Rightarrow> process_reindex_columns cr is db
      | Hash hc \<Rightarrow>
          cbind (Some (hash_reindex hc (overlays_query (lg_overlays (db_log db))))) (\<lambda>(rb, hc).
            if rb_batch rb \<noteq> [] \<or> rb_drop_index rb \<noteq> None then
              let (w, log) = begin_record (db_log db)
              in cbind (write_reindex_plans (rb_batch rb) False hc w) (\<lambda>(next_reindex, hc, w).
                 let w = (case rb_drop_index rb of Some t \<Rightarrow> drop_table w t | None \<Rightarrow> w)
                 in cbind (Some (end_record (cr_crc cr) (lw_log w) log)) (\<lambda>(bytes, log).
                    let db = (set_column i (Hash hc) db)\<lparr>db_log := log, db_log_queue := db_log_queue db + uint bytes\<rparr>
                    in cret (True, if next_reindex then start_reindex (lc_record_id (lw_log w)) db else db)))
            else process_reindex_columns cr is (set_column i (Hash hc) db)))"

definition process_reindex :: "crates \<Rightarrow> db_inner \<Rightarrow> (bool \<times> db_inner) comp" where
  "process_reindex cr db =
     (if db_next_reindex db = 0 \<or> db_last_enacted db < db_next_reindex db then cret (False, db)
      else process_reindex_columns cr [0..<length (db_columns db)] db)"

section \<open>From the log to the files\<close>

text \<open>
  One round of the validation loop: \<open>Inl\<close> ends it, with the reader behind the record or
  \<open>None\<close> for a record that is refused.
\<close>

definition validate_insertion :: "nat \<Rightarrow> log_action \<Rightarrow> log_reader \<Rightarrow> column list \<Rightarrow>
    (log_reader option \<times> column list + log_reader \<times> column list) comp" where
  "validate_insertion col action r cols =
     (if col < length cols then
        case column_validate_plan (cols ! col) action r of
          None \<Rightarrow> None
        | Some (Inr (c, r)) \<Rightarrow> cret (Inr (r, cols[col := c]))
        | Some (Inl (Err _)) \<Rightarrow>
            cret (Inl (None, cols))
        | Some (Inl e) \<Rightarrow> Some (Inl e)
      else Some (Inl Panic))"

definition validate_step :: "(bytes \<Rightarrow> u32) \<Rightarrow> log_reader \<Rightarrow> column list \<Rightarrow>
    (log_reader option \<times> column list + log_reader \<times> column list) comp" where
  "validate_step crc r cols =
     (case reader_next crc r of
        Inl (Err _) \<Rightarrow> cret (Inl (None, cols))
      | Inl e \<Rightarrow> Some (Inl e)
      | Inr (BeginRecord, r) \<Rightarrow> cret (Inl (None, cols))
      | Inr (EndRecord, r) \<Rightarrow> cret (Inl (Some r, cols))
      | Inr (InsertIndex t i, r) \<Rightarrow> validate_insertion (unat (index_id_col t)) (InsertIndex t i) r cols
      | Inr (InsertValue t i, r) \<Rightarrow> validate_insertion (unat (value_id_col t)) (InsertValue t i) r cols
      | Inr (DropTable t, r) \<Rightarrow> cret (Inr (r, cols)))"

partial_function (option) validate_loop :: "(bytes \<Rightarrow> u32) \<Rightarrow> log_reader \<Rightarrow> column list \<Rightarrow>
    (log_reader option \<times> column list) comp" where
  "validate_loop crc r cols =
     cbind (validate_step crc r cols) (\<lambda>x.
       if isl x then Some (Inr (projl x)) else validate_loop crc (fst (projr x)) (snd (projr x)))"

text \<open>One round of the loop that applies a record; \<open>Inl\<close> at its end.\<close>

definition enact_insertion :: "nat \<Rightarrow> log_action \<Rightarrow> log_reader \<Rightarrow> db_inner \<Rightarrow>
    (log_reader \<times> db_inner + log_reader \<times> db_inner) comp" where
  "enact_insertion col action r db =
     cbind (Some (column_nth db col)) (\<lambda>c.
     cbind (column_enact_plan c action r) (\<lambda>(c, r). cret (Inr (r, set_column col c db))))"

definition enact_drop :: "index_table_id \<Rightarrow> log_reader \<Rightarrow> db_inner \<Rightarrow>
    (log_reader \<times> db_inner + log_reader \<times> db_inner) comp" where
  "enact_drop t r db =
     cbind (Some (column_nth db (unat (index_id_col t)))) (\<lambda>c.
       case c of
         Hash hc \<Rightarrow> cbind (Some (hash_drop_index hc t)) (\<lambda>hc.
           cret (Inr (r, start_reindex (lr_record_id r) (set_column (unat (index_id_col t)) (Hash hc) db))))
       | Tree _ \<Rightarrow> cret (Inr (r, db)))"

definition enact_step :: "(bytes \<Rightarrow> u32) \<Rightarrow> log_reader \<Rightarrow> db_inner \<Rightarrow>
    (log_reader \<times> db_inner + log_reader \<times> db_inner) comp" where
  "enact_step crc r db =
     cbind (Some (reader_next crc r)) (\<lambda>(action, r).
       case action of
         BeginRecord \<Rightarrow> Some (Inl (Err (Corruption ''Bad log record'')))
       | EndRecord \<Rightarrow> cret (Inl (r, db))
       | InsertIndex t i \<Rightarrow> enact_insertion (unat (index_id_col t)) action r db
       | InsertValue t i \<Rightarrow> enact_insertion (unat (value_id_col t)) action r db
       | DropTable t \<Rightarrow> enact_drop t r db)"

partial_function (option) enact_loop :: "(bytes \<Rightarrow> u32) \<Rightarrow> log_reader \<Rightarrow> db_inner \<Rightarrow> (log_reader \<times> db_inner) comp" where
  "enact_loop crc r db =
     cbind (enact_step crc r db) (\<lambda>x.
       if isl x then Some (Inr (projl x)) else enact_loop crc (fst (projr x)) (snd (projr x)))"

definition refuse_logs :: "db_inner \<Rightarrow> (bool \<times> db_inner) comp" where
  "refuse_logs db = Some (rbind (clear_replay_logs (db_log db)) (\<lambda>log. Inr (False, db\<lparr>db_log := log\<rparr>)))"

text \<open>A record is applied, its overlay entries are retired and its size leaves the log queue.\<close>

definition enact_record :: "crates \<Rightarrow> bool \<Rightarrow> log_reader \<Rightarrow> db_inner \<Rightarrow> (bool \<times> db_inner) comp" where
  "enact_record cr validation_mode r db =
     cbind (enact_loop (cr_crc cr) r db) (\<lambda>(r, db).
       let record_id = lr_record_id r; bytes = lr_read_bytes r;
           log = end_read (lr_cleared r) record_id (release_reader r (db_log db))
       in cret (True, db\<lparr>db_log := log, db_last_enacted := record_id,
            db_log_queue := (if validation_mode then db_log_queue db else db_log_queue db - uint bytes)\<rparr>))"

definition validate_record :: "crates \<Rightarrow> log_reader \<Rightarrow> db_inner \<Rightarrow> (bool \<times> db_inner) comp" where
  "validate_record cr r db =
     (if lr_record_id r \<noteq> db_last_enacted db + 1 then refuse_logs db
      else
        cbind (validate_loop (cr_crc cr) r (db_columns db)) (\<lambda>(v, cols).
          let db = db\<lparr>db_columns := cols\<rparr>
          in case v of
               None \<Rightarrow> refuse_logs db
             | Some r \<Rightarrow> cbind (Some (reader_next (cr_crc cr) (reader_reset r))) (\<lambda>(_, r).
                 enact_record cr True r db)))"

definition enact_logs :: "crates \<Rightarrow> bool \<Rightarrow> db_inner \<Rightarrow> (bool \<times> db_inner) comp" where
  "enact_logs cr validation_mode db =
     (case read_next (cr_crc cr) validation_mode (db_log db) of
        Inl (Err (Corruption m)) \<Rightarrow> if validation_mode then refuse_logs db else Some (Inl (Err (Corruption m)))
      | Inl e \<Rightarrow> Some (Inl e)
      | Inr (None, log) \<Rightarrow> cret (False, db\<lparr>db_log := log\<rparr>)
      | Inr (Some r, log) \<Rightarrow>
          if validation_mode then validate_record cr r (db\<lparr>db_log := log\<rparr>)
          else enact_record cr False r (db\<lparr>db_log := log\<rparr>))"

section \<open>Flushing and cleaning\<close>

text \<open>\<open>None\<close> where \<open>flush_one\<close> waits for the reader.\<close>

definition flush_logs :: "u64 \<Rightarrow> db_inner \<Rightarrow> (bool \<times> db_inner) option" where
  "flush_logs min_log_size db =
     map_option (\<lambda>((flush_next, _, _), log). (flush_next, db\<lparr>db_log := log\<rparr>)) (flush_one min_log_size (db_log db))"

definition db_clean_logs :: "db_inner \<Rightarrow> (bool \<times> db_inner) res" where
  "db_clean_logs db =
     (let keep_logs = (if op_sync_data (db_options db) then 0 else KEEP_LOGS);
          num_cleanup = num_dirty_logs (db_log db)
      in if keep_logs < num_cleanup then
           let cols = (if op_sync_data (db_options db) then map column_flush (db_columns db) else db_columns db)
           in rbind (clean_logs (num_cleanup - keep_logs) (db_log db)) (\<lambda>(more_logs, log).
                Inr (more_logs, db\<lparr>db_columns := cols, db_log := log\<rparr>))
         else Inr (False, db))"

definition clean_all_logs :: "db_inner \<Rightarrow> db_inner res" where
  "clean_all_logs db =
     rbind (clean_logs (num_dirty_logs (db_log db)) (db_log db)) (\<lambda>(_, log).
       Inr (db\<lparr>db_columns := map column_flush (db_columns db), db_log := log\<rparr>))"

section \<open>Replay and shutdown\<close>

partial_function (option) repeat_while :: "(db_inner \<Rightarrow> (bool \<times> db_inner) comp) \<Rightarrow> db_inner \<Rightarrow> db_inner comp" where
  "repeat_while f db =
     cbind (f db) (\<lambda>(more_work, db). if more_work then repeat_while f db else Some (Inr db))"

partial_function (option) replay_loop :: "crates \<Rightarrow> db_inner \<Rightarrow> db_inner comp" where
  "replay_loop cr db =
     (if fst (replay_next (db_log db)) = None then Some (Inr (db\<lparr>db_log := snd (replay_next (db_log db))\<rparr>))
      else cbind (repeat_while (enact_logs cr True) (db\<lparr>db_log := snd (replay_next (db_log db))\<rparr>)) (\<lambda>db.
        replay_loop cr db))"

fun refresh_columns :: "column list \<Rightarrow> column list res" where
  "refresh_columns [] = Inr []"
| "refresh_columns (c # cs) =
     rbind (column_refresh_metadata c) (\<lambda>c. rbind (refresh_columns cs) (\<lambda>cs. Inr (c # cs)))"

definition replay_all_logs :: "crates \<Rightarrow> db_inner \<Rightarrow> db_inner comp" where
  "replay_all_logs cr db =
     cbind (replay_loop cr db) (\<lambda>db.
     cbind (Some (refresh_columns (db_columns db))) (\<lambda>cols. cret (db\<lparr>db_columns := cols\<rparr>)))"

definition db_open_inner :: "crates \<Rightarrow> options \<Rightarrow> bool \<Rightarrow> bool \<Rightarrow> db_files \<Rightarrow> db_inner comp" where
  "db_open_inner cr options create skip_check_lock fs =
     cbind (Some (rassert (options_is_valid options))) (\<lambda>_.
     cbind (db_inner_open cr options create skip_check_lock fs) (replay_all_logs cr))"

definition shutdown :: "db_inner \<Rightarrow> db_inner" where
  "shutdown db = db\<lparr>db_shutdown := True\<rparr>"

fun map_columns :: "(column \<Rightarrow> column res) \<Rightarrow> column list \<Rightarrow> column list res" where
  "map_columns f [] = Inr []"
| "map_columns f (c # cs) = rbind (f c) (\<lambda>c. rbind (map_columns f cs) (\<lambda>cs. Inr (c # cs)))"

definition collect_stats :: "u8 option \<Rightarrow> db_inner \<Rightarrow> db_inner res" where
  "collect_stats col db =
     (case col of
        Some c \<Rightarrow> rbind (rbind (column_nth db (unat c)) column_write_stats) (\<lambda>x. Inr (set_column (unat c) x db))
      | None \<Rightarrow> rbind (map_columns column_write_stats (db_columns db)) (\<lambda>cols. Inr (db\<lparr>db_columns := cols\<rparr>)))"

definition clear_stats :: "u8 option \<Rightarrow> db_inner \<Rightarrow> db_inner res" where
  "clear_stats col db =
     (case col of
        Some c \<Rightarrow> rbind (rbind (column_nth db (unat c)) column_clear_stats) (\<lambda>x. Inr (set_column (unat c) x db))
      | None \<Rightarrow> rbind (map_columns column_clear_stats (db_columns db)) (\<lambda>cols. Inr (db\<lparr>db_columns := cols\<rparr>)))"

definition flush_unless_waiting :: "u64 \<Rightarrow> db_inner \<Rightarrow> db_inner comp" where
  "flush_unless_waiting n db = (case flush_logs n db of None \<Rightarrow> None | Some (_, db) \<Rightarrow> cret db)"

definition kill_logs :: "crates \<Rightarrow> db_inner \<Rightarrow> db_inner comp" where
  "kill_logs cr db =
     (case db_bg_err db of
        Some _ \<Rightarrow> cret db
      | None \<Rightarrow>
          cbind (repeat_while (enact_logs cr False) db) (\<lambda>db.
          cbind (flush_unless_waiting 0 db) (\<lambda>db.
          cbind (repeat_while (process_commits cr) db) (\<lambda>db.
          cbind (repeat_while (enact_logs cr False) db) (\<lambda>db.
          cbind (flush_unless_waiting 0 db) (\<lambda>db.
          cbind (repeat_while (enact_logs cr False) db) (\<lambda>db.
          cbind (Some (clean_all_logs db)) (\<lambda>db.
          cbind (Some (log_kill_logs (db_log db))) (\<lambda>log.
          let db = db\<lparr>db_log := log\<rparr>
          in if op_stats (db_options db) then Some (collect_stats None db) else cret db)))))))))"

definition store_err :: "unit res \<Rightarrow> db_inner \<Rightarrow> db_inner" where
  "store_err result db =
     (case result of
        Inl (Err e) \<Rightarrow> if db_bg_err db = None then shutdown (db\<lparr>db_bg_err := Some e\<rparr>) else db
      | _ \<Rightarrow> db)"

section \<open>The pipeline as a step relation\<close>

text \<open>
  One step of the database: a commit by a user, or one call of a worker thread. A call that
  fails stops half way: \<open>failed\<close> stores its error and leaves the columns, the log, the queue and the
  overlays in any state.
\<close>

inductive db_step :: "crates \<Rightarrow> db_inner \<Rightarrow> db_inner \<Rightarrow> bool" for cr where
  commit: "\<not> commit_waits db \<Longrightarrow> db_commit cr tx db = Inr db' \<Longrightarrow> db_step cr db db'"
| log: "\<not> log_waits db \<Longrightarrow> process_commits cr db = Some (Inr (more_work, db')) \<Longrightarrow> db_step cr db db'"
| reindex: "process_reindex cr db = Some (Inr (more_work, db')) \<Longrightarrow> db_step cr db db'"
| flush: "flush_logs MIN_LOG_SIZE_BYTES db = Some (more_work, db') \<Longrightarrow> db_step cr db db'"
| enact: "enact_logs cr False db = Some (Inr (more_work, db')) \<Longrightarrow> db_step cr db db'"
| clean: "db_clean_logs db = Inr (more_work, db') \<Longrightarrow> db_step cr db db'"
| failed: "db_step cr db (store_err (Inl (Err e)) (db\<lparr>db_columns := cols, db_log := l, db_commit_queue := q,
     db_commit_overlay := ovs, db_log_queue := lq, db_last_enacted := le, db_next_reindex := nr\<rparr>))"

end
