(* ===== verification/Plan_Frame.thy ===== *)
theory Plan_Frame
  imports Column Log_Overlay
begin

text \<open>
  What planning may do to a record: \<open>log_extends c w w'\<close> says that \<open>w'\<close> came from \<open>w\<close> by adding
  value slots and index chunks of column \<open>c\<close>. Every planning operation of value tables, indexes
  and hash columns is shown to extend its record in this way, so a record stays well formed, the
  overlays below it are untouched and the other columns see no change.
\<close>

inductive log_extends :: "u8 \<Rightarrow> log_writer \<Rightarrow> log_writer \<Rightarrow> bool" for c where
  none: "log_extends c w w"
| val: "log_extends c w w' \<Longrightarrow> value_id_col t = c \<Longrightarrow> log_extends c w (insert_value w' t i d)"
| chunk: "log_extends c w w' \<Longrightarrow> index_id_col t = c \<Longrightarrow> log_extends c w (insert_index w' t i s d)"

lemmas [intro!] = log_extends.none

lemma log_extends_trans [trans]: "log_extends c w' w'' \<Longrightarrow> log_extends c w w' \<Longrightarrow> log_extends c w w''"
  by (induction rule: log_extends.induct) (auto intro: log_extends.intros)

lemma log_extends_value [intro]: "value_id_col t = c \<Longrightarrow> log_extends c w (insert_value w t i d)"
  and log_extends_index [intro]: "index_id_col t' = c \<Longrightarrow> log_extends c w (insert_index w t' i s d)"
  by (auto intro: log_extends.intros)

section \<open>What an extension keeps\<close>

lemma log_extends_frame:
  assumes "log_extends c w w'"
  shows "lw_overlays w' = lw_overlays w" and "lc_record_id (lw_log w') = lc_record_id (lw_log w)"
    and "lc_dropped_tables (lw_log w') = lc_dropped_tables (lw_log w)"
  using assms
  by (induction rule: log_extends.induct) (simp_all add: insert_value_def insert_index_def Let_def)

lemma log_extends_wf: "log_extends c w w' \<Longrightarrow> wf_change (lw_log w) \<Longrightarrow> wf_change (lw_log w')"
  by (induction rule: log_extends.induct) (simp_all add: wf_change_insert_value wf_change_insert_index)

lemma log_extends_query:
  assumes "log_extends c w w'"
  shows "value_id_col t \<noteq> c \<Longrightarrow> q_value (writer_query w') t i = q_value (writer_query w) t i"
    and "index_id_col t' \<noteq> c \<Longrightarrow> q_index (writer_query w') t' i = q_index (writer_query w) t' i"
  using assms
  by (induction rule: log_extends.induct) (auto simp: writer_query_insert_value writer_query_insert_index)

section \<open>Value tables\<close>

definition table_plans :: "value_table \<Rightarrow> log_writer \<Rightarrow> value_table \<Rightarrow> log_writer \<Rightarrow> bool" where
  "table_plans t w t' w' \<longleftrightarrow> vt_id t' = vt_id t \<and> log_extends (value_id_col (vt_id t)) w w'"

lemma table_plans_trans: "table_plans t w t' w' \<Longrightarrow> table_plans t' w' t'' w'' \<Longrightarrow> table_plans t w t'' w''"
  by (auto simp: table_plans_def intro: log_extends_trans)

lemma clear_slot_plans: "clear_slot t i w = Inr (t', w') \<Longrightarrow> table_plans t w t' w'"
  by (auto simp: clear_slot_def rbind_Inr_iff table_plans_def)

lemma clear_chain_plans: "clear_chain t i w = Some (Inr (t', w')) \<Longrightarrow> table_plans t w t' w'"
proof -
  have "r = Inr (t', w') \<longrightarrow> table_plans t w t' w'" if "clear_chain t i w = Some r" for r
    by (rule clear_chain.raw_induct[where P = "\<lambda>t i w r. r = Inr (t', w') \<longrightarrow> table_plans t w t' w'", OF _ that])
      (auto split: sum.splits option.splits prod.splits dest!: clear_slot_plans intro: table_plans_trans)
  then show "clear_chain t i w = Some (Inr (t', w')) \<Longrightarrow> table_plans t w t' w'" by blast
qed

lemma next_free_id: "next_free t q = Inr (i, t') \<Longrightarrow> vt_id t' = vt_id t"
  by (auto simp: next_free_def Let_def rbind_Inr_iff split: if_splits)

lemma write_part_head_id: "write_part_head t q rm cp st fo ni = Inr (vl, ni', buf, t') \<Longrightarrow> vt_id t' = vt_id t"
  by (auto simp: write_part_head_def Let_def rbind_Inr_iff split: if_splits dest!: next_free_id)

lemma overwrite_part_plans:
  "overwrite_part t w k v c rm off st i fo = Inr (t', w', rm', off', st', i', fo') \<Longrightarrow> table_plans t w t' w'"
  by (auto simp: overwrite_part_def Let_def rbind_Inr_iff table_plans_def dest!: write_part_head_id)

lemma overwrite_loop_plans:
  "overwrite_loop k v c t w rm off st i fo = Some (Inr (st', t', w')) \<Longrightarrow> table_plans t w t' w'"
proof -
  have "r = Inr (st', t', w') \<longrightarrow> table_plans t w t' w'" if "overwrite_loop k v c t w rm off st i fo = Some r" for r
    by (rule overwrite_loop.raw_induct[where P = "\<lambda>k v c t w rm off st i fo r. r = Inr (st', t', w') \<longrightarrow> table_plans t w t' w'", OF _ that])
      (auto split: sum.splits prod.splits if_splits simp: cbind_cret_iff cret_def
        dest!: overwrite_part_plans clear_chain_plans intro: table_plans_trans)
  then show "overwrite_loop k v c t w rm off st i fo = Some (Inr (st', t', w')) \<Longrightarrow> table_plans t w t' w'" by blast
qed

lemma overwrite_chain_plans: "overwrite_chain t k v w at c = Some (Inr (i, t', w')) \<Longrightarrow> table_plans t w t' w'"
  by (auto simp: overwrite_chain_def Let_def cbind_cret_iff rbind_Inr_iff table_plans_def
      dest!: overwrite_loop_plans next_free_id split: option.splits)

lemma insert_plans: "table_write_insert_plan t k v w c = Some (Inr (i, t', w')) \<Longrightarrow> table_plans t w t' w'"
  by (simp add: table_write_insert_plan_def overwrite_chain_plans)

lemma replace_plans: "table_write_replace_plan t i k v w c = Some (Inr (t', w')) \<Longrightarrow> table_plans t w t' w'"
  by (auto simp: table_write_replace_plan_def cbind_cret_iff cret_def dest!: overwrite_chain_plans)

lemma remove_plans: "table_write_remove_plan t i w = Some (Inr (t', w')) \<Longrightarrow> table_plans t w t' w'"
  by (auto simp: table_write_remove_plan_def dest: clear_chain_plans clear_slot_plans split: if_splits)

lemma change_ref_plans: "change_ref t i d w = Inr (b, w') \<Longrightarrow> table_plans t w t w'"
  by (auto simp: change_ref_def Let_def rbind_Inr_iff table_plans_def split: if_splits option.splits)

lemma inc_ref_plans: "write_inc_ref t i w = Inr w' \<Longrightarrow> table_plans t w t w'"
  by (auto simp: write_inc_ref_def rbind_Inr_iff dest: change_ref_plans)

lemma dec_ref_plans: "write_dec_ref t i w = Some (Inr (b, t', w')) \<Longrightarrow> table_plans t w t' w'"
  by (auto simp: write_dec_ref_def cbind_cret_iff cret_def split: if_splits
      dest!: change_ref_plans remove_plans intro: table_plans_trans)

lemma complete_plan_plans: "table_complete_plan t w = (t', w') \<Longrightarrow> table_plans t w t' w'"
  by (auto simp: table_complete_plan_def Let_def table_plans_def split: if_splits)

lemmas table_op_plans = insert_plans replace_plans remove_plans inc_ref_plans dec_ref_plans

section \<open>Indexes\<close>

lemma index_insert_plans: "index_write_insert_plan t k a s w = Inr (out, w') \<Longrightarrow> log_extends (index_id_col (it_id t)) w w'"
  by (auto simp: index_write_insert_plan_def plan_insert_chunk_def Let_def rbind_Inr_iff
      split: option.splits if_splits)

lemma index_remove_plans: "index_write_remove_plan t k s w = Inr (out, w') \<Longrightarrow> log_extends (index_id_col (it_id t)) w w'"
  by (auto simp: index_write_remove_plan_def plan_remove_chunk_def Let_def rbind_Inr_iff
      split: option.splits if_splits)

section \<open>Hash columns\<close>

definition tables_of :: "u8 \<Rightarrow> value_table list \<Rightarrow> bool" where
  "tables_of c ts \<longleftrightarrow> (\<forall>t\<in>set ts. value_id_col (vt_id t) = c)"

definition column_of :: "u8 \<Rightarrow> hash_column \<Rightarrow> bool" where
  "column_of c hc \<longleftrightarrow> tables_of c (hc_value hc) \<and> (\<forall>i\<in>insert (hc_index hc) (set (hc_queue hc)). index_id_col (it_id i) = c)"

lemma tables_of_update:
  assumes "tables_of c ts" and "nth_table ts i = Inr t" and "table_plans t w t' w'"
  shows "tables_of c (ts[i := t'])" and "log_extends c w w'"
proof -
  have c: "value_id_col (vt_id t) = c" using assms(1,2) by (auto simp: tables_of_def nth_table_def split: if_splits)
  have "vt_id t' = vt_id t" using assms(3) by (simp add: table_plans_def)
  then show "tables_of c (ts[i := t'])" using assms(1) c set_update_subset_insert[of ts i t'] by (auto simp: tables_of_def)
  show "log_extends c w w'" using assms(3) c by (simp add: table_plans_def)
qed

lemma write_new_value_plans:
  assumes "tables_of c (tr_tables tables)"
    and "write_new_value_plan cd key tables v w st = Some (Inr (a, ts, w', st'))"
  shows "tables_of c ts \<and> log_extends c w w'"
  using assms(2) tables_of_update[OF assms(1)]
  by (auto simp: write_new_value_plan_def Let_def cbind_cret_iff cret_def split: prod.splits dest!: insert_plans)

lemma move_value_plans:
  assumes "tables_of c ts" and "move_value key ts tier offset target v cp w = Some (Inr (a, ts', w'))"
  shows "tables_of c ts' \<and> log_extends c w w'"
proof -
  obtain t t1 w1 t2 o2 t3 where st: "nth_table ts tier = Inr t"
      "table_write_remove_plan t offset w = Some (Inr (t1, w1))" "nth_table (ts[tier := t1]) target = Inr t2"
      "table_write_insert_plan t2 key v w1 cp = Some (Inr (o2, t3, w'))" "ts' = ts[tier := t1, target := t3]"
    using assms(2) by (auto simp: move_value_def Let_def cbind_cret_iff cret_def)
  note u = tables_of_update[OF assms(1) st(1) remove_plans[OF st(2)]]
  note u' = tables_of_update[OF u(1) st(3) insert_plans[OF st(4)]]
  show ?thesis using u u' st(5) by (auto intro: log_extends_trans)
qed

lemma set_existing_plans:
  assumes "tables_of c (tr_tables tables)"
    and "set_existing_value cd key tables a v w st = Some (Inr (r, ts, w', st'))"
  shows "tables_of c ts \<and> log_extends c w w'"
proof (cases "tr_ref_counted tables \<or> tr_preimage tables")
  case True
  then show ?thesis
    using assms(2) tables_of_update[OF assms(1)] assms(1)
    by (auto simp: set_existing_value_def Let_def cbind_cret_iff rbind_Inr_iff cret_def split: if_splits
        dest!: inc_ref_plans)
next
  case False
  then show ?thesis
    using assms(2) tables_of_update[OF assms(1)] move_value_plans[OF assms(1)]
    by (auto simp: set_existing_value_def Let_def cbind_cret_iff cret_def split: prod.splits if_splits
        dest!: replace_plans)
qed

lemma delete_existing_plans:
  assumes "tables_of c (tr_tables tables)"
    and "delete_existing_value cd key tables a w st = Some (Inr (r, ts, w', st'))"
  shows "tables_of c ts \<and> log_extends c w w'"
  using assms(2) tables_of_update[OF assms(1)]
  by (auto simp: delete_existing_value_def Let_def cbind_cret_iff cret_def split: if_splits
      dest!: dec_ref_plans remove_plans)

lemma write_existing_plans:
  assumes "tables_of c (tr_tables tables)"
    and "write_existing_value_plan cd key tables a v w st = Some (Inr (r, ts, w', st'))"
  shows "tables_of c ts \<and> log_extends c w w'"
  using assms(2) set_existing_plans[OF assms(1)] delete_existing_plans[OF assms(1)]
  by (cases v) (simp_all add: write_existing_value_plan_def)

lemma stats_out_values [simp]:
  "hc_value (stats_out hc st) = hc_value hc" "hc_index (stats_out hc st) = hc_index hc"
  "hc_queue (stats_out hc st) = hc_queue hc"
  by (simp_all add: stats_out_def split: option.splits)

lemma column_of_values: "column_of c hc \<Longrightarrow> tables_of c ts \<Longrightarrow> column_of c (stats_out (hc\<lparr>hc_value := ts\<rparr>) st)"
  by (simp add: column_of_def)

lemma column_of_reindex: "column_of c hc \<Longrightarrow> column_of c (trigger_reindex hc)"
  by (auto simp: column_of_def trigger_reindex_def Let_def index_create_new_def)

lemma column_of_stats [simp]: "column_of c (count_stats hc f) = column_of c hc"
  by (simp add: column_of_def count_stats_def)

lemma write_plan_existing_plans:
  assumes "column_of c hc" and "index \<in> insert (hc_index hc) (set (hc_queue hc))"
    and "write_plan_existing cd hc k v w index s a = Some (Inr (out, hc', w'))"
  shows "column_of c hc' \<and> log_extends c w w'"
proof -
  obtain r ts w1 st where e: "write_existing_value_plan cd (Partial k) (as_ref hc) a v w (stats_in hc) = Some (Inr (r, ts, w1, st))"
      and hc': "hc' = stats_out (hc\<lparr>hc_value := ts\<rparr>) st"
      and rest: "w' = w1 \<or> (\<exists>o' a s. index_write_insert_plan (hc_index hc) k a s w1 = Inr (o', w')) \<or>
        (\<exists>o'. index_write_remove_plan index k s w1 = Inr (o', w'))"
    using assms(3)
    by (auto simp: write_plan_existing_def Let_def cbind_cret_iff cret_def split: option.splits prod.splits) blast+
  have t: "tables_of c ts" "log_extends c w w1"
    using write_existing_plans[OF _ e] assms(1) by (auto simp: column_of_def as_ref_def)
  moreover have "log_extends c w1 w'"
    using rest assms(1,2) by (auto simp: column_of_def dest!: index_insert_plans index_remove_plans)
  ultimately show ?thesis
    using column_of_values[OF assms(1)] hc' by (auto intro: log_extends_trans)
qed

lemma write_plan_new_plans:
  "write_plan_new cd k v hc w = Some (Inr (out, hc', w')) \<Longrightarrow> column_of c hc \<Longrightarrow> column_of c hc' \<and> log_extends c w w'"
proof -
  let ?P = "\<lambda>cd k v hc w r. \<forall>out hc' w'. r = Inr (out, hc', w') \<longrightarrow> column_of c hc \<longrightarrow> column_of c hc' \<and> log_extends c w w'"
  have "?P cd k v hc w r" if "write_plan_new cd k v hc w = Some r" for r
  proof (rule write_plan_new.raw_induct[where P = ?P, OF _ that], goal_cases)
    case (1 f cd k v hc w r)
    note ih = 1(1) and b = 1(2)
    show ?case
    proof (intro allI impI)
      fix out hc' w' assume r: "r = Inr (out, hc', w')" and co: "column_of c hc"
      obtain a ts w1 st o1 w2 where n: "write_new_value_plan cd (Partial k) (as_ref hc) v w (stats_in hc) = Some (Inr (a, ts, w1, st))"
          and i: "index_write_insert_plan (hc_index hc) k a None w1 = Inr (o1, w2)"
          and e: "hc' = stats_out (hc\<lparr>hc_value := ts\<rparr>) st \<and> w' = w2 \<or>
            (\<exists>o2. f cd k v (trigger_reindex (stats_out (hc\<lparr>hc_value := ts\<rparr>) st)) w2 = Some (Inr (o2, hc', w')))"
        using b r by (auto simp: Let_def cbind_cret_iff cret_def split: option.splits sum.splits prod.splits if_splits)
      have t: "tables_of c ts" "log_extends c w w1"
        using write_new_value_plans[OF _ n] co by (auto simp: column_of_def as_ref_def)
      have "log_extends c w1 w2" using index_insert_plans[OF i] co by (simp add: column_of_def)
      then have x: "log_extends c w w2" "column_of c (stats_out (hc\<lparr>hc_value := ts\<rparr>) st)"
        using t co by (auto intro: log_extends_trans column_of_values)
      with e ih show "column_of c hc' \<and> log_extends c w w'"
        by (metis column_of_reindex log_extends_trans)
    qed
  qed
  then show "write_plan_new cd k v hc w = Some (Inr (out, hc', w')) \<Longrightarrow> column_of c hc \<Longrightarrow>
    column_of c hc' \<and> log_extends c w w'" by blast
qed

lemma search_index_table:
  "search_index k index ts q = Some (Inr (Some (table, s, a))) \<Longrightarrow> table = index"
proof -
  let ?P = "\<lambda>k index ts q e n r. r = Inr (Some (table, s, a)) \<longrightarrow> table = index"
  have "table = index" if "search_index_loop k index ts q e n = Some (Inr (Some (table, s, a)))" for e n
    by (rule search_index_loop.raw_induct[where P = ?P, OF _ that, THEN mp, OF _ refl])
      (auto simp: Let_def split: if_splits option.splits sum.splits prod.splits)
  then show "search_index k index ts q = Some (Inr (Some (table, s, a))) \<Longrightarrow> table = index"
    by (auto simp: search_index_def cbind_cret_iff)
qed

lemma search_indexes_table:
  "search_indexes k is ts q = Some (Inr (Some (table, s, a))) \<Longrightarrow> table \<in> set is"
  by (induction "is") (auto simp: cbind_cret_iff cret_def split: option.splits dest: search_index_table)

lemma hash_write_plans:
  assumes "column_of c hc" and "hash_write_plan cd hc k v w = Some (Inr (out, hc', w'))"
  shows "column_of c hc' \<and> log_extends c w w'"
proof -
  obtain r where r: "search_all_indexes k hc (writer_query w) = Some (Inr r)"
    using assms(2) by (auto simp: hash_write_plan_def cbind_cret_iff)
  show ?thesis
  proof (cases r)
    case None
    show ?thesis
    proof (cases v)
      case (Some x)
      then show ?thesis
        using assms(2) r None write_plan_new_plans[OF _ assms(1)] by (simp add: hash_write_plan_def)
    next
      case n: None
      then show ?thesis using assms r None by (auto simp: hash_write_plan_def cret_def)
    qed
  next
    case (Some e)
    obtain table s a where e: "e = (table, s, a)" by (cases e)
    have "table \<in> insert (hc_index hc) (set (hc_queue hc))"
      using r by (auto simp: Some e search_all_indexes_def cbind_cret_iff cret_def split: option.splits
          dest: search_index_table search_indexes_table)
    then show ?thesis
      using write_plan_existing_plans[OF assms(1)] assms(2) r by (simp add: hash_write_plan_def Some e)
  qed
qed

lemma complete_tables_plans:
  "complete_tables ts w = (ts', w') \<Longrightarrow> tables_of c ts \<Longrightarrow> tables_of c ts' \<and> log_extends c w w'"
proof (induction ts arbitrary: w ts' w')
  case (Cons t ts)
  then show ?case
    by (force simp: tables_of_def table_plans_def dest: complete_plan_plans intro: log_extends_trans split: prod.splits)
qed auto

lemma hash_complete_plans:
  "column_of c hc \<Longrightarrow> hash_complete_plan hc w = (hc', w') \<Longrightarrow> column_of c hc' \<and> log_extends c w w'"
  using complete_tables_plans[of "hc_value hc" w] by (auto simp: hash_complete_plan_def split: prod.splits)
    (auto simp: column_of_def)

end
