(* ===== verification/Column_Frame.thy ===== *)
theory Column_Frame
  imports Column_Update Plan_Frame
begin

text \<open>
  What a column represents depends only on its own slots and chunks, and the header slot of a
  value table is not one of them: the changes of another column and \<open>complete_plan\<close> keep it.
\<close>

lemma represents_used:
  assumes "represents t q m" and "same_table t t'" and "vt_last_removed t' = vt_last_removed t"
    and "vt_filled t' = vt_filled t" and "\<And>x. x \<noteq> 0 \<Longrightarrow> q_value q' (vt_id t) x = q_value q (vt_id t) x"
  shows "represents t' q' m"
proof -
  obtain ch fl where c: "chains_ok t q m ch" and a: "alloc_inv t q fl (slots_of ch (dom m))" and wf: "wf_table t"
    using assms(1) unfolding represents_def by blast
  have nz: "x \<noteq> 0" if "x \<in> set fl \<union> slots_of ch (dom m)" for x
    using a that by (auto simp: alloc_inv_def)
  have "chain_ok t' q' i (ch i) e" if "m i = Some e" for i e
  proof -
    have "set (i # ch i) \<subseteq> slots_of ch (dom m)" using that by (auto simp: slots_of_def)
    then have "chain_ok t' q' i (ch i) e = chain_ok t q i (ch i) e"
      using nz assms(5) by (intro chain_ok_cong[OF assms(2)]) blast
    then show ?thesis using c that by (simp add: chains_ok_def)
  qed
  then have "chains_ok t' q' m ch" using c by (simp add: chains_ok_def)
  moreover have "linked t' q' fl = linked t q fl"
    unfolding linked_same_table[OF assms(2)] by (rule linked_cong) (use nz assms(5) in blast)
  then have "alloc_inv t' q' fl (slots_of ch (dom m))"
    using a assms(3,4) by (simp add: alloc_inv_def)
  moreover have "wf_table t'" using wf assms(2,4) by (simp add: wf_table_def same_table_def)
  ultimately show ?thesis unfolding represents_def by blast
qed

lemma col_rep_cong:
  assumes "col_rep cd hc q M" and "wf_query q'"
    and "\<And>t x. t \<in> set (hc_value hc) \<Longrightarrow> q_value q' (vt_id t) x = q_value q (vt_id t) x"
    and "\<And>c. q_index q' (it_id (hc_index hc)) c = q_index q (it_id (hc_index hc)) c"
  shows "col_rep cd hc q' M"
proof -
  obtain ms E loc where inv: "col_inv cd hc q ms E loc M" using assms(1) unfolding col_rep_def by blast
  have "represents (hc_value hc ! i) q' (ms i)" if "i < length (hc_value hc)" "represents (hc_value hc ! i) q (ms i)" for i
    using represents_cong[OF assms(3)[OF nth_mem[OF that(1)]]] that(2) by blast
  then have "tiers_rep (hc_value hc) q' ms" using inv by (auto simp: col_inv_def tiers_rep_def)
  moreover have "index_rep (hc_index hc) q' E"
    using index_rep_cong[OF assms(4,2)] inv by (simp add: col_inv_def)
  ultimately show ?thesis using inv by (intro col_repI[of _ _ _ ms E loc]) (simp add: col_inv_def)
qed

lemma col_rep_wf_query: "col_rep cd hc q M \<Longrightarrow> wf_query q"
  by (auto simp: col_rep_def col_inv_def index_rep_def)

lemma col_rep_other:
  assumes "col_rep cd hc (writer_query w) M" and "column_of c hc" and "log_extends c' w w'" and "c \<noteq> c'"
    and "wf_query (writer_query w')"
  shows "col_rep cd hc (writer_query w') M"
proof (rule col_rep_cong[OF assms(1,5)])
  fix t x assume "t \<in> set (hc_value hc)"
  then show "q_value (writer_query w') (vt_id t) x = q_value (writer_query w) (vt_id t) x"
    using assms(2,4) log_extends_query(1)[OF assms(3)] by (auto simp: column_of_def tables_of_def)
next
  fix i show "q_index (writer_query w') (it_id (hc_index hc)) i = q_index (writer_query w) (it_id (hc_index hc)) i"
    using assms(2,4) log_extends_query(2)[OF assms(3)] by (auto simp: column_of_def)
qed

section \<open>Completing a plan\<close>

definition same_but_header :: "value_table \<Rightarrow> value_table \<Rightarrow> bool" where
  "same_but_header t t' \<longleftrightarrow> same_table t t' \<and> vt_last_removed t' = vt_last_removed t \<and> vt_filled t' = vt_filled t"

lemma table_complete_rep:
  assumes "table_complete_plan t w = (t', w')"
  shows "same_but_header t t'" and "x \<noteq> 0 \<Longrightarrow> q_value (writer_query w') id' x = q_value (writer_query w) id' x"
    and "q_index (writer_query w') = q_index (writer_query w)"
  using assms
  by (auto simp: table_complete_plan_def Let_def same_but_header_def same_table_def writer_query_insert_value
      split: if_splits)

lemma complete_tables_rep:
  assumes "complete_tables ts w = (ts', w')"
  shows "list_all2 same_but_header ts ts'"
    and "x \<noteq> 0 \<Longrightarrow> q_value (writer_query w') id' x = q_value (writer_query w) id' x"
    and "q_index (writer_query w') = q_index (writer_query w)"
  using assms
proof (induction ts arbitrary: w ts' w')
  case (Cons t ts)
  { case 1 then show ?case using Cons.IH table_complete_rep(1) by (auto split: prod.splits) }
  { case 2 then show ?case using Cons.IH table_complete_rep(2) by (auto split: prod.splits) }
  { case 3 then show ?case using Cons.IH table_complete_rep(3) by (auto split: prod.splits) }
qed auto

lemma hash_complete_rep:
  assumes "col_rep cd hc (writer_query w) M" and "hash_complete_plan hc w = (hc', w')"
  shows "col_rep cd hc' (writer_query w') M"
proof -
  obtain ts where ct: "complete_tables (hc_value hc) w = (ts, w')"
      and hc': "hc' = count_stats (hc\<lparr>hc_value := ts\<rparr>) stats_commit"
    using assms(2) by (auto simp: hash_complete_plan_def split: prod.splits)
  note c = complete_tables_rep[OF ct]
  obtain ms E loc where inv: "col_inv cd hc (writer_query w) ms E loc M"
    using assms(1) unfolding col_rep_def by blast
  have sb: "same_but_header (hc_value hc ! i) (ts ! i)" if "i < length ts" for i
    using c(1) that by (simp add: list_all2_conv_all_nth)
  have len: "length ts = length (hc_value hc)" using c(1) by (simp add: list_all2_conv_all_nth)
  have "represents (ts ! i) (writer_query w') (ms i)" if "i < length ts" for i
  proof (rule represents_used)
    show "represents (hc_value hc ! i) (writer_query w) (ms i)"
      using inv that len by (simp add: col_inv_def tiers_rep_def)
  qed (use sb[OF that] c(2) in \<open>simp_all add: same_but_header_def\<close>)
  moreover have "map vt_id ts = map vt_id (hc_value hc)"
    using sb len by (intro nth_equalityI) (auto simp: same_but_header_def same_table_def)
  ultimately have "tiers_rep ts (writer_query w') ms" using inv by (simp add: col_inv_def tiers_rep_def)
  moreover have "tier_shape (hc_ref_counted hc) ts"
    using inv sb len by (simp add: col_inv_def tier_shape_def same_but_header_def same_table_def)
  moreover have "index_rep (hc_index hc) (writer_query w') E"
  proof (rule index_rep_cong)
    show "index_rep (hc_index hc) (writer_query w) E" using inv by (simp add: col_inv_def)
    then show "wf_query (writer_query w')" using c(3) by (simp add: index_rep_def wf_query_def)
  qed (simp add: c(3))
  ultimately show ?thesis
    using inv by (intro col_repI[of _ _ _ ms E loc]) (simp add: col_inv_def hc' count_stats_def)
qed

end
