(* ===== verification/Db_View.thy ===== *)
theory Db_View
  imports Db_Pipeline Column_Frame
begin

text \<open>
  What the database stores: the maps that its hash columns represent through the log overlays,
  and the commits that wait in the queue above them. Planning a commit into a record changes the
  maps as the change sets say and keeps what the other columns represent.
\<close>

section \<open>The columns\<close>

definition col_ok :: "codecs \<Rightarrow> nat \<Rightarrow> column \<Rightarrow> log_query \<Rightarrow> (bytes \<rightharpoonup> bytes \<times> u32) \<Rightarrow> bool" where
  "col_ok cd i c q M =
     (case c of
        Hash hc \<Rightarrow> column_of (of_nat i) hc \<and> col_rep cd hc q M
      | Tree b \<Rightarrow> tables_of (of_nat i) (bc_tables b))"

definition cols_rep :: "codecs \<Rightarrow> column list \<Rightarrow> log_query \<Rightarrow> (nat \<Rightarrow> bytes \<rightharpoonup> bytes \<times> u32) \<Rightarrow> bool" where
  "cols_rep cd cols q Ms \<longleftrightarrow> length cols \<le> 256 \<and> wf_query q \<and> (\<forall>i<length cols. col_ok cd i (cols ! i) q (Ms i))"

definition changes_spec :: "bool \<Rightarrow> bool \<Rightarrow> change_set \<Rightarrow> (bytes \<rightharpoonup> bytes \<times> u32) \<Rightarrow> bytes \<rightharpoonup> bytes \<times> u32" where
  "changes_spec rc preimage cs M = fold (\<lambda>(k, v) M. column_spec rc preimage k v M) cs M"

text \<open>In a plain column the last change of a key decides what it holds.\<close>

lemma changes_spec_plain:
  "map_option fst (changes_spec False False cs M k) =
     (case last_change False cs k of Some v \<Rightarrow> v | None \<Rightarrow> map_option fst (M k))"
proof (induction cs arbitrary: M)
  case Nil
  then show ?case by (simp add: changes_spec_def last_change_def)
next
  case (Cons c cs)
  obtain k' v where c: "c = (k', v)" by (cases c)
  have step: "changes_spec False False (c # cs) M = changes_spec False False cs (column_spec False False k' v M)"
    by (simp add: changes_spec_def c)
  have one: "map_option fst (column_spec False False k' v M k) = (if k = k' then v else map_option fst (M k))"
    by (auto simp: column_spec_def split: option.splits)
  have lc: "last_change False (c # cs) k = (case last_change False cs k of Some x \<Rightarrow> Some x | None \<Rightarrow> if k = k' then Some v else None)"
    by (auto simp: last_change_def c map_add_def split: option.splits)
  show ?case unfolding step Cons.IH lc one by (auto split: option.splits)
qed

section \<open>Planning a change set\<close>

text \<open>Each change that stores a value finds room in the tables and in the index chunk of its key.\<close>

fun changes_fit :: "codecs \<Rightarrow> change_set \<Rightarrow> hash_column \<Rightarrow> log_writer \<Rightarrow> bool" where
  "changes_fit cd [] hc w = True"
| "changes_fit cd ((k, v) # cs) hc w =
     ((case v of Some b \<Rightarrow> slots_room hc (length b) \<and> home_room hc (writer_query w) k | None \<Rightarrow> True) \<and>
      (case hash_write_plan cd hc k v w of
         Some (Inr (_, hc, w)) \<Rightarrow> changes_fit cd cs hc w
       | _ \<Rightarrow> True))"

lemma same_column_fields:
  assumes "same_column hc hc'"
  shows "hc_ref_counted hc' = hc_ref_counted hc" and "hc_preimage hc' = hc_preimage hc"
    and "hc_salt hc' = hc_salt hc" and "hc_uniform_keys hc' = hc_uniform_keys hc" and "hc_db_version hc' = hc_db_version hc"
  using assms by (auto simp: same_column_def)

lemma same_column_trans: "same_column a b \<Longrightarrow> same_column b c \<Longrightarrow> same_column a c"
  by (auto simp: same_column_def) (metis)

lemma same_column_refl [simp]: "same_column hc hc"
  unfolding same_column_def by (rule exI[of _ "hc_value hc"], rule exI[of _ "hc_stats hc"]) simp

lemma write_changes_rep:
  assumes "col_rep cd hc (writer_query w) M" and "codecs_ok cd" and "\<forall>(k, v)\<in>set cs. length k = 32"
    and "changes_fit cd cs hc w" and "column_of c hc"
  shows "\<exists>r hc' w'. write_changes cd cs b hc w = Some (Inr (r, hc', w')) \<and> same_column hc hc' \<and>
     column_of c hc' \<and> log_extends c w w' \<and>
     col_rep cd hc' (writer_query w') (changes_spec (hc_ref_counted hc) (hc_preimage hc) cs M)"
  using assms
proof (induction cs arbitrary: b hc w M)
  case Nil
  then show ?case by (auto simp: cret_def changes_spec_def)
next
  case (Cons kv cs)
  obtain k v where kv: "kv = (k, v)" by (cases kv)
  have "length k = 32" using Cons.prems(3) by (simp add: kv)
  moreover have "slots_room hc (length x)" if "v = Some x" for x using Cons.prems(4) that by (simp add: kv)
  moreover have "home_room hc (writer_query w) k" if "v \<noteq> None" using Cons.prems(4) that by (auto simp: kv)
  ultimately obtain out h1 w1 where st: "hash_write_plan cd hc k v w = Some (Inr (out, h1, w1))" "same_column hc h1"
      "col_rep cd h1 (writer_query w1) (column_spec (hc_ref_counted hc) (hc_preimage hc) k v M)"
    using hash_write_plan_rep[OF Cons.prems(1,2)] by blast
  have fr: "column_of c h1" "log_extends c w w1" using hash_write_plans[OF Cons.prems(5) st(1)] by auto
  have fit: "changes_fit cd cs h1 w1" using Cons.prems(4) by (simp add: kv st(1))
  have "\<forall>(k, v)\<in>set cs. length k = 32" using Cons.prems(3) by simp
  from Cons.IH[OF st(3) Cons.prems(2) this fit fr(1), of "b \<or> out = NeedReindex"]
  obtain r h2 w2 where ih: "write_changes cd cs (b \<or> out = NeedReindex) h1 w1 = Some (Inr (r, h2, w2))"
      "same_column h1 h2" "column_of c h2" "log_extends c w1 w2"
      "col_rep cd h2 (writer_query w2) (changes_spec (hc_ref_counted h1) (hc_preimage h1) cs
         (column_spec (hc_ref_counted hc) (hc_preimage hc) k v M))" by blast
  show ?case
    using ih same_column_fields[OF st(2)] same_column_trans[OF st(2) ih(2)] log_extends_trans[OF ih(4) fr(2)]
    by (intro exI[of _ r] exI[of _ h2] exI[of _ w2]) (simp add: kv st(1) changes_spec_def)
qed

lemma column_number: "i < 256 \<Longrightarrow> j < 256 \<Longrightarrow> (of_nat i :: u8) = of_nat j \<longleftrightarrow> i = j"
proof -
  assume b: "i < 256" "j < 256"
  have "unat (of_nat n :: u8) = n" if "n < 256" for n using that by (simp add: unat_of_nat)
  then show ?thesis using b by metis
qed

text \<open>A column other than the one that changes.\<close>

lemma col_ok_other:
  assumes "col_ok cd i c (writer_query w) M" and "log_extends (of_nat j) w w'" and "i \<noteq> j" and "i < 256" and "j < 256"
    and "wf_query (writer_query w')"
  shows "col_ok cd i c (writer_query w') M"
  using assms column_number[of i j] col_rep_other[OF _ _ assms(2)]
  by (cases c) (auto simp: col_ok_def)

lemma cols_rep_update:
  assumes "cols_rep cd cols (writer_query w) Ms" and "j < length cols" and "log_extends (of_nat j) w w'"
    and "col_ok cd j c (writer_query w') M" and "wf_query (writer_query w')"
  shows "cols_rep cd (cols[j := c]) (writer_query w') (Ms(j := M))"
  unfolding cols_rep_def
proof (intro conjI allI impI)
  show "length (cols[j := c]) \<le> 256" using assms(1) by (simp add: cols_rep_def)
  fix i assume i: "i < length (cols[j := c])"
  show "col_ok cd i (cols[j := c] ! i) (writer_query w') ((Ms(j := M)) i)"
  proof (cases "i = j")
    case False
    then show ?thesis
      using assms i by (simp add: cols_rep_def col_ok_other[where w = w and j = j])
  qed (use assms(2,4) in simp)
qed (use assms(5) in simp)

section \<open>Planning a commit\<close>

definition plan_spec :: "column list \<Rightarrow> (u8 \<times> change_set) list \<Rightarrow> (nat \<Rightarrow> bytes \<rightharpoonup> bytes \<times> u32) \<Rightarrow>
    nat \<Rightarrow> bytes \<rightharpoonup> bytes \<times> u32" where
  "plan_spec cols chs Ms = fold (\<lambda>(c, cs) Ms.
     case cols ! unat c of
       Hash hc \<Rightarrow> Ms(unat c := changes_spec (hc_ref_counted hc) (hc_preimage hc) cs (Ms (unat c)))
     | Tree _ \<Rightarrow> Ms) chs Ms"

fun plan_fits :: "codecs \<Rightarrow> (u8 \<times> change_set) list \<Rightarrow> log_writer \<Rightarrow> db_inner \<Rightarrow> bool" where
  "plan_fits cd [] w db = True"
| "plan_fits cd ((c, cs) # rest) w db =
     (unat c < length (db_columns db) \<and> (\<forall>(k, v)\<in>set cs. length k = 32) \<and>
      (case db_columns db ! unat c of
         Hash hc \<Rightarrow> changes_fit cd cs hc w \<and>
           (case write_changes cd cs False hc w of
              Some (Inr (_, hc, w)) \<Rightarrow> plan_fits cd rest w (set_column (unat c) (Hash hc) db)
            | _ \<Rightarrow> True)
       | Tree _ \<Rightarrow> plan_fits cd rest w db))"

text \<open>The record under construction keeps its base, its number and its shape.\<close>

definition keeps_base :: "log_writer \<Rightarrow> log_writer \<Rightarrow> bool" where
  "keeps_base w w' \<longleftrightarrow> lw_overlays w' = lw_overlays w \<and> lc_record_id (lw_log w') = lc_record_id (lw_log w) \<and>
     (wf_change (lw_log w) \<longrightarrow> wf_change (lw_log w'))"

lemma keeps_base_refl [simp]: "keeps_base w w"
  by (simp add: keeps_base_def)

lemma keeps_base_trans: "keeps_base w w' \<Longrightarrow> keeps_base w' w'' \<Longrightarrow> keeps_base w w''"
  by (simp add: keeps_base_def)

lemma log_extends_keeps: "log_extends c w w' \<Longrightarrow> keeps_base w w'"
  by (simp add: keeps_base_def log_extends_frame log_extends_wf)

definition same_kind :: "column \<Rightarrow> column \<Rightarrow> bool" where
  "same_kind c c' = (case (c, c') of (Hash hc, Hash hc') \<Rightarrow> same_column hc hc' | (Tree _, Tree _) \<Rightarrow> True | _ \<Rightarrow> False)"

lemma same_kind_refl [simp]: "same_kind c c"
  by (simp add: same_kind_def split: column.split)

lemma same_kind_trans: "same_kind a b \<Longrightarrow> same_kind b c \<Longrightarrow> same_kind a c"
  by (auto simp: same_kind_def intro: same_column_trans split: column.splits)

lemma same_kinds_trans:
  "list_all2 same_kind xs ys \<Longrightarrow> list_all2 same_kind ys zs \<Longrightarrow> list_all2 same_kind xs zs"
  by (rule list_all2_trans[OF same_kind_trans])

lemma plan_spec_same_kind:
  assumes "list_all2 same_kind cols cols'" and "\<forall>(c, cs)\<in>set chs. unat c < length cols"
  shows "plan_spec cols' chs Ms = plan_spec cols chs Ms"
  using assms(2)
proof (induction chs arbitrary: Ms)
  case (Cons x chs)
  obtain c cs where x: "x = (c, cs)" by (cases x)
  have "same_kind (cols ! unat c) (cols' ! unat c)"
    using assms(1) Cons.prems by (simp add: x list_all2_conv_all_nth)
  then have "(case cols' ! unat c of
       Hash hc \<Rightarrow> Ms(unat c := changes_spec (hc_ref_counted hc) (hc_preimage hc) cs (Ms (unat c)))
     | Tree _ \<Rightarrow> Ms) = (case cols ! unat c of
       Hash hc \<Rightarrow> Ms(unat c := changes_spec (hc_ref_counted hc) (hc_preimage hc) cs (Ms (unat c)))
     | Tree _ \<Rightarrow> Ms)"
    by (auto simp: same_kind_def same_column_fields split: column.splits)
  then show ?case using Cons by (simp add: plan_spec_def x)
qed (simp add: plan_spec_def)

lemma write_changes_flag:
  "write_changes cd cs b hc w = Some (Inr (r, hc', w')) \<Longrightarrow> \<exists>r'. write_changes cd cs b' hc w = Some (Inr (r', hc', w'))"
proof (induction cs arbitrary: b b' hc w)
  case (Cons x cs)
  obtain k v where x: "x = (k, v)" by (cases x)
  from Cons show ?case by (auto simp: x cbind_cret_iff)
qed (auto simp: cret_def)

lemma plan_indexed_rep:
  assumes "cols_rep cd (db_columns db) (writer_query w) Ms" and "codecs_ok cd" and "plan_fits cd chs w db"
  shows "\<exists>r w' cols. plan_indexed cd chs b w db = Some (Inr (r, w', db\<lparr>db_columns := cols\<rparr>)) \<and>
     list_all2 same_kind (db_columns db) cols \<and> keeps_base w w' \<and>
     (\<forall>(c, cs)\<in>set chs. unat c < length (db_columns db)) \<and>
     cols_rep cd cols (writer_query w') (plan_spec (db_columns db) chs Ms)"
  using assms
proof (induction chs arbitrary: b w db Ms)
  case Nil
  then show ?case
    by (intro exI[of _ b] exI[of _ w] exI[of _ "db_columns db"])
      (auto simp: cret_def plan_spec_def list_all2_conv_all_nth)
next
  case (Cons x rest)
  obtain c cs where x: "x = (c, cs)" by (cases x)
  let ?c = "unat c" and ?cols = "db_columns db"
  have c: "?c < length ?cols" and cw: "of_nat ?c = c" using Cons.prems(3) by (simp_all add: x)
  show ?case
  proof (cases "?cols ! ?c")
    case (Tree t)
    then have p: "plan_fits cd rest w db" using Cons.prems(3) by (simp add: x)
    have sc: "set_column ?c (Tree t) db = db" using Tree[symmetric] by (simp add: set_column_def)
    from Cons.IH[OF Cons.prems(1,2) p, of b] show ?thesis
      using c by (simp add: x column_nth_def indexed_write_plan_def Tree sc plan_spec_def)
  next
    case (Hash hc)
    have ok: "column_of c hc" "col_rep cd hc (writer_query w) (Ms ?c)"
    proof -
      have "col_ok cd ?c (?cols ! ?c) (writer_query w) (Ms ?c)"
        using Cons.prems(1) c unfolding cols_rep_def by blast
      then show "column_of c hc" "col_rep cd hc (writer_query w) (Ms ?c)"
        using cw by (simp_all add: Hash col_ok_def)
    qed
    have fit: "changes_fit cd cs hc w" "\<forall>(k, v)\<in>set cs. length k = 32"
      using Cons.prems(3) by (simp_all add: x Hash)
    obtain r hc' w1 where st: "write_changes cd cs b hc w = Some (Inr (r, hc', w1))" "same_column hc hc'"
        "column_of c hc'" "log_extends c w w1"
        "col_rep cd hc' (writer_query w1) (changes_spec (hc_ref_counted hc) (hc_preimage hc) cs (Ms ?c))"
      using write_changes_rep[OF ok(2) Cons.prems(2) fit(2,1) ok(1)] by blast
    let ?db = "set_column ?c (Hash hc') db" and ?M = "changes_spec (hc_ref_counted hc) (hc_preimage hc) cs (Ms ?c)"
    have "col_ok cd ?c (Hash hc') (writer_query w1) ?M" using st(3,5) cw by (simp add: col_ok_def)
    then have rep: "cols_rep cd (db_columns ?db) (writer_query w1) (Ms(?c := ?M))"
      using cols_rep_update[OF Cons.prems(1) c, of w1 "Hash hc'" ?M] st(4,5) cw
      by (simp add: set_column_def col_rep_wf_query)
    obtain r0 where "write_changes cd cs False hc w = Some (Inr (r0, hc', w1))"
      using write_changes_flag[OF st(1)] by blast
    then have p: "plan_fits cd rest w1 ?db" using Cons.prems(3) by (simp add: x Hash)
    from Cons.IH[OF rep Cons.prems(2) p, of r] obtain r2 w2 cols where ih:
        "plan_indexed cd rest r w1 ?db = Some (Inr (r2, w2, ?db\<lparr>db_columns := cols\<rparr>))"
        "list_all2 same_kind (db_columns ?db) cols" "keeps_base w1 w2"
        "\<forall>(c, cs)\<in>set rest. unat c < length (db_columns ?db)"
        "cols_rep cd cols (writer_query w2) (plan_spec (db_columns ?db) rest (Ms(?c := ?M)))" by blast
    have kinds: "list_all2 same_kind ?cols (db_columns ?db)"
    proof (rule list_all2_all_nthI)
      fix i assume "i < length ?cols"
      then show "same_kind (?cols ! i) (db_columns ?db ! i)"
        using Hash st(2) by (cases "i = ?c") (simp_all add: set_column_def same_kind_def[of "Hash hc"])
    qed (simp add: set_column_def)
    have "\<forall>(c, cs)\<in>set rest. unat c < length ?cols" using ih(4) by (simp add: set_column_def)
    from plan_spec_same_kind[OF kinds this]
    have "plan_spec (db_columns ?db) rest (Ms(?c := ?M)) = plan_spec ?cols (x # rest) Ms"
      by (simp add: plan_spec_def x Hash)
    then have fin: "cols_rep cd cols (writer_query w2) (plan_spec ?cols (x # rest) Ms)" using ih(5) by simp
    have "plan_indexed cd (x # rest) b w db = Some (Inr (r2, w2, db\<lparr>db_columns := cols\<rparr>))"
      using c ih(1) st(1) by (simp add: x column_nth_def indexed_write_plan_def Hash) (simp add: set_column_def)
    then show ?thesis
      using fin same_kinds_trans[OF kinds ih(2)] keeps_base_trans[OF log_extends_keeps[OF st(4)] ih(3)] ih(4) c
      by (intro exI[of _ r2] exI[of _ w2] exI[of _ cols]) (simp add: x set_column_def)
  qed
qed

lemma column_complete_rep:
  assumes "col_ok cd i c (writer_query w) M" and "column_complete_plan c w = (c', w')"
  shows "col_ok cd i c' (writer_query w') M" and "log_extends (of_nat i) w w'" and "same_kind c c'"
    and "q_index (writer_query w') = q_index (writer_query w)"
proof -
  have "col_ok cd i c' (writer_query w') M \<and> log_extends (of_nat i) w w' \<and> same_kind c c' \<and>
      q_index (writer_query w') = q_index (writer_query w)"
  proof (cases c)
    case (Hash hc)
    obtain hc' where cp: "hash_complete_plan hc w = (hc', w')" "c' = Hash hc'"
      using assms(2) by (auto simp: Hash column_complete_plan_def split: prod.splits)
    have "same_column hc hc'"
      using cp(1) by (auto simp: hash_complete_plan_def count_stats_def same_column_def split: prod.splits)
        (metis hash_column.surjective hash_column.update_convs(11))+
    moreover have "q_index (writer_query w') = q_index (writer_query w)"
      using cp(1) complete_tables_rep(3)[of "hc_value hc" w] by (auto simp: hash_complete_plan_def split: prod.splits)
    ultimately show ?thesis
      using assms(1) cp(2) hash_complete_plans[OF _ cp(1)] hash_complete_rep[OF _ cp(1)]
      by (simp add: Hash col_ok_def same_kind_def)
  next
    case (Tree b)
    obtain ts where "complete_tables (bc_tables b) w = (ts, w')" "c' = Tree (b\<lparr>bc_tables := ts\<rparr>)"
      using assms(2) by (auto simp: Tree column_complete_plan_def btree_complete_plan_def split: prod.splits)
    then show ?thesis
      using assms(1) complete_tables_plans complete_tables_rep(3) by (auto simp: Tree col_ok_def same_kind_def)
  qed
  then show "col_ok cd i c' (writer_query w') M" "log_extends (of_nat i) w w'" "same_kind c c'"
    "q_index (writer_query w') = q_index (writer_query w)" by auto
qed

text \<open>The loop over the columns from column \<open>n\<close> on; \<open>done\<close> are the columns before it.\<close>

lemma complete_columns_rep:
  assumes "cols_rep cd (don @ cols) (writer_query w) Ms" and "complete_columns cols w = (cols', w')"
  shows "cols_rep cd (don @ cols') (writer_query w') Ms \<and> keeps_base w w' \<and> list_all2 same_kind cols cols'"
  using assms
proof (induction cols arbitrary: don w cols')
  case (Cons c cols)
  let ?i = "length don"
  obtain c1 w1 cs where st: "column_complete_plan c w = (c1, w1)" "complete_columns cols w1 = (cs, w')" "cols' = c1 # cs"
    using Cons.prems(2) by (auto split: prod.splits)
  have "?i < length (don @ c # cols)" by simp
  then have "col_ok cd ?i ((don @ c # cols) ! ?i) (writer_query w) (Ms ?i)"
    using Cons.prems(1) unfolding cols_rep_def by blast
  then have "col_ok cd ?i c (writer_query w) (Ms ?i)" by simp
  note r = column_complete_rep[OF this st(1)]
  have "wf_query (writer_query w1)" using Cons.prems(1) r(4) by (simp add: cols_rep_def wf_query_def)
  from cols_rep_update[OF Cons.prems(1) _ r(2,1) this]
  have "cols_rep cd ((don @ [c1]) @ cols) (writer_query w1) Ms" by simp
  from Cons.IH[OF this st(2)] show ?case
    using st(3) r(3) keeps_base_trans[OF log_extends_keeps[OF r(2)]] by simp
qed auto

lemma plan_commit_rep:
  assumes "cols_rep cd (db_columns db) (writer_query w) Ms" and "codecs_ok cd"
    and "plan_fits cd (cs_indexed (cm_changeset commit)) w db" and "cs_btree_indexed (cm_changeset commit) = []"
  shows "\<exists>r w' cols. plan_commit cd commit w db = Some (Inr (r, w', db\<lparr>db_columns := cols\<rparr>)) \<and>
     list_all2 same_kind (db_columns db) cols \<and> keeps_base w w' \<and>
     (\<forall>(c, cs)\<in>set (cs_indexed (cm_changeset commit)). unat c < length (db_columns db)) \<and>
     cols_rep cd cols (writer_query w') (plan_spec (db_columns db) (cs_indexed (cm_changeset commit)) Ms)"
proof -
  let ?chs = "cs_indexed (cm_changeset commit)"
  obtain r w1 cols where p: "plan_indexed cd ?chs False w db = Some (Inr (r, w1, db\<lparr>db_columns := cols\<rparr>))"
      "list_all2 same_kind (db_columns db) cols" "keeps_base w w1"
      "\<forall>(c, cs)\<in>set ?chs. unat c < length (db_columns db)"
      "cols_rep cd cols (writer_query w1) (plan_spec (db_columns db) ?chs Ms)"
    using plan_indexed_rep[OF assms(1-3), of False] by blast
  obtain cols2 w2 where c: "complete_columns cols w1 = (cols2, w2)" by (cases "complete_columns cols w1")
  have r: "cols_rep cd cols2 (writer_query w2) (plan_spec (db_columns db) ?chs Ms)" "keeps_base w1 w2"
      "list_all2 same_kind cols cols2"
    using complete_columns_rep[of cd "[]" cols w1, OF _ c] p(5) by auto
  have "plan_commit cd commit w db = Some (Inr (r, w2, db\<lparr>db_columns := cols2\<rparr>))"
    using p(1) c assms(4) by (simp add: plan_commit_def cret_def)
  then show ?thesis
    using p(4) r keeps_base_trans[OF p(3) r(2)] same_kinds_trans[OF p(2) r(3)] by blast
qed

end
