(* ===== verification/Db_Commit.thy ===== *)
theory Db_Commit
  imports Db_View
begin

text \<open>
  The commit overlay against the commits in the queue: the overlay holds, for each key, the last
  change that waits in the queue. A commit is visible at once, and writing the oldest commit to
  the log and cleaning its entries from the overlay changes nothing that a reader can see.
\<close>

section \<open>What waits in the queue\<close>

definition commit_changes :: "commit \<Rightarrow> u8 \<Rightarrow> change_set" where
  "commit_changes cm c = alist_or_default (cs_indexed (cm_changeset cm)) c"

text \<open>A column with reference counts does not show the deletions that wait.\<close>

fun pending :: "bool \<Rightarrow> commit list \<Rightarrow> u8 \<Rightarrow> bytes \<Rightarrow> (u64 \<times> bytes option) option" where
  "pending rc [] c k = None"
| "pending rc (cm # cms) c k =
     (case pending rc cms c k of
        Some x \<Rightarrow> Some x
      | None \<Rightarrow> map_option (Pair (cm_id cm)) (last_change rc (commit_changes cm c) k))"

lemma pending_append:
  "pending rc (cms @ [cm]) c k =
     (case last_change rc (commit_changes cm c) k of Some v \<Rightarrow> Some (cm_id cm, v) | None \<Rightarrow> pending rc cms c k)"
  by (induction cms) (auto split: option.splits)

lemma pending_id: "pending rc cms c k = Some (r, v) \<Longrightarrow> r \<in> cm_id ` set cms"
  by (induction cms) (auto split: option.splits)

section \<open>Updating the overlays\<close>

lemma update_overlays_nth:
  assumes "\<forall>(c, cs)\<in>set chs. unat c < length ovs" and "distinct (map fst chs)" and "length ovs \<le> 256"
    and "\<And>c cs ov. (c, cs) \<in> set chs \<Longrightarrow> f c cs ov = Inr (g c cs ov)"
  shows "\<exists>ovs'. update_overlays f chs ovs = Inr ovs' \<and> length ovs' = length ovs \<and>
     (\<forall>i<length ovs. ovs' ! i = (case map_of chs (of_nat i) of
        Some cs \<Rightarrow> g (of_nat i) cs (ovs ! i) | None \<Rightarrow> ovs ! i))"
  using assms
proof (induction chs arbitrary: ovs)
  case (Cons x chs)
  obtain c cs where x: "x = (c, cs)" by (cases x)
  let ?ovs = "ovs[unat c := g c cs (ovs ! unat c)]"
  have c: "unat c < length ovs" using Cons.prems(1) by (simp add: x)
  have "\<forall>(c, cs)\<in>set chs. unat c < length ?ovs" "distinct (map fst chs)" "length ?ovs \<le> 256"
      "\<And>c cs ov. (c, cs) \<in> set chs \<Longrightarrow> f c cs ov = Inr (g c cs ov)"
    using Cons.prems by (auto simp: x)
  from Cons.IH[OF this] obtain ovs' where ih: "update_overlays f chs ?ovs = Inr ovs'" "length ovs' = length ovs"
      "\<forall>i<length ovs. ovs' ! i = (case map_of chs (of_nat i) of
        Some cs \<Rightarrow> g (of_nat i) cs (?ovs ! i) | None \<Rightarrow> ?ovs ! i)" by auto
  have f: "f c cs (ovs ! unat c) = Inr (g c cs (ovs ! unat c))" using Cons.prems(4) by (simp add: x)
  have n: "map_of chs c = None" using Cons.prems(2) by (simp add: x map_of_eq_None_iff)
  have "ovs' ! i = (case map_of (x # chs) (of_nat i) of
      Some cs \<Rightarrow> g (of_nat i) cs (ovs ! i) | None \<Rightarrow> ovs ! i)" if i: "i < length ovs" for i
  proof (cases "of_nat i = c")
    case True
    then have "unat c = i" using i Cons.prems(3) by (auto simp: unat_of_nat)
    then show ?thesis using ih(3) i True n by (simp add: x)
  next
    case False
    then have "unat c \<noteq> i" by auto
    then have "?ovs ! i = ovs ! i" by simp
    then show ?thesis using ih(3) i False by (auto simp: x split: option.split)
  qed
  then show ?case using ih(1,2) c f by (simp add: x)
qed simp

lemma map_of_or_default: "alist_or_default m c = (case map_of m c of Some x \<Rightarrow> x | None \<Rightarrow> [])"
  by (simp add: alist_or_default_def)

section \<open>The invariant\<close>

definition column_matches :: "db_inner \<Rightarrow> nat \<Rightarrow> hash_column \<Rightarrow> bool" where
  "column_matches db i hc \<longleftrightarrow> i < length (op_columns (db_options db)) \<and>
     (let co = op_columns (db_options db) ! i
      in \<not> co_btree_index co \<and> co_ref_counted co = hc_ref_counted hc \<and> co_uniform co = hc_uniform_keys hc) \<and>
     op_salt (db_options db) = Some (hc_salt hc) \<and> length (hc_salt hc) = 32 \<and> hc_db_version hc = db_version db"

definition options_match :: "db_inner \<Rightarrow> bool" where
  "options_match db \<longleftrightarrow> (\<forall>i<length (db_columns db). case db_columns db ! i of
     Hash hc \<Rightarrow> column_matches db i hc
   | Tree _ \<Rightarrow> i < length (op_columns (db_options db)) \<and> co_btree_index (op_columns (db_options db) ! i))"

lemma options_matchD:
  assumes "options_match db" and "i < length (db_columns db)"
  shows "i < length (op_columns (db_options db))" and "db_columns db ! i = Hash hc \<Longrightarrow> column_matches db i hc"
    and "co_btree_index (op_columns (db_options db) ! i) \<longleftrightarrow> (\<exists>b. db_columns db ! i = Tree b)"
proof -
  have m: "case db_columns db ! i of Hash hc \<Rightarrow> column_matches db i hc
     | Tree _ \<Rightarrow> i < length (op_columns (db_options db)) \<and> co_btree_index (op_columns (db_options db) ! i)"
    using assms unfolding options_match_def by blast
  then show "i < length (op_columns (db_options db))" "db_columns db ! i = Hash hc \<Longrightarrow> column_matches db i hc"
    "co_btree_index (op_columns (db_options db) ! i) \<longleftrightarrow> (\<exists>b. db_columns db ! i = Tree b)"
    by (cases "db_columns db ! i"; simp add: column_matches_def Let_def)+
qed

definition wf_commit :: "nat \<Rightarrow> commit \<Rightarrow> bool" where
  "wf_commit n cm \<longleftrightarrow> distinct (map fst (cs_indexed (cm_changeset cm))) \<and>
     (\<forall>(c, cs)\<in>set (cs_indexed (cm_changeset cm)). unat c < n)"

definition queue_inv :: "db_inner \<Rightarrow> bool" where
  "queue_inv db \<longleftrightarrow> length (db_commit_overlay db) = length (db_columns db) \<and>
     distinct (map cm_id (cq_commits (db_commit_queue db))) \<and>
     (\<forall>cm\<in>set (cq_commits (db_commit_queue db)). wf_commit (length (db_columns db)) cm \<and>
        unat (cm_id cm) \<le> unat (cq_record_id (db_commit_queue db)) + 1) \<and>
     (\<forall>i<length (db_columns db). \<forall>hc k. db_columns db ! i = Hash hc \<longrightarrow>
        map_of (cv_indexed (db_commit_overlay db ! i)) k =
          pending (hc_ref_counted hc) (cq_commits (db_commit_queue db)) (of_nat i) k)"

definition db_inv :: "crates \<Rightarrow> db_inner \<Rightarrow> (nat \<Rightarrow> bytes \<rightharpoonup> bytes \<times> u32) \<Rightarrow> bool" where
  "db_inv cr db Ms \<longleftrightarrow> cols_rep (cr_codecs cr) (db_columns db) (overlays_query (lg_overlays (db_log db))) Ms \<and>
     options_match db \<and> queue_inv db"

text \<open>The part of the invariant that says nothing of the tables: the options and the waiting commits.\<close>

definition commits_inv :: "db_inner \<Rightarrow> bool" where
  "commits_inv db \<longleftrightarrow> length (db_columns db) \<le> 256 \<and> options_match db \<and> queue_inv db"

lemma db_inv_commits: "db_inv cr db Ms \<Longrightarrow> commits_inv db"
  by (simp add: db_inv_def commits_inv_def cols_rep_def)

text \<open>
  The value that a hash column shows for a hashed key, given the map that it stores and the commits
  that wait: the pending change, or what is stored.
\<close>

definition shown :: "bool \<Rightarrow> commit list \<Rightarrow> u8 \<Rightarrow> (bytes \<rightharpoonup> bytes \<times> u32) \<Rightarrow> bytes \<rightharpoonup> bytes" where
  "shown rc cms c M k = (case pending rc cms c k of Some (_, v) \<Rightarrow> v | None \<Rightarrow> map_option fst (M k))"

definition hash_at :: "db_inner \<Rightarrow> nat \<Rightarrow> hash_column \<Rightarrow> bool" where
  "hash_at db i hc \<longleftrightarrow> i < length (db_columns db) \<and> db_columns db ! i = Hash hc"

text \<open>What \<open>get\<close> returns, without the new statistics.\<close>

definition db_lookup :: "crates \<Rightarrow> nat \<Rightarrow> bytes \<Rightarrow> db_inner \<Rightarrow> bytes option comp" where
  "db_lookup cr i key db = cbind (db_get cr (of_nat i) key db) (\<lambda>(r, _). cret r)"

text \<open>The key that \<open>get\<close> looks for: hashed in a hash column, as it is in an ordered one.\<close>

definition lookup_key :: "crates \<Rightarrow> db_inner \<Rightarrow> nat \<Rightarrow> bytes \<Rightarrow> bytes res" where
  "lookup_key cr db i key = (case db_columns db ! i of Hash hc \<Rightarrow> column_hash_key (cr_blake2b cr) hc key | Tree _ \<Rightarrow> Inr key)"

lemma hash_key_length:
  assumes "hash_key b k s u v = Inr h" and "length s = 32"
  shows "length h = 32"
  using assms by (auto simp: hash_key_def rbind_Inr_iff slice_Inr_iff KEY_SIZE_def Let_def split: if_splits)

text \<open>A lookup asks the commit overlay first, and the column where it has no answer.\<close>

definition overlay_answer :: "db_inner \<Rightarrow> nat \<Rightarrow> bytes \<Rightarrow> bytes option option" where
  "overlay_answer db i k = (case db_columns db ! i of
     Hash _ \<Rightarrow> overlay_get (db_commit_overlay db ! i) k | Tree _ \<Rightarrow> overlay_btree_get (db_commit_overlay db ! i) k)"

definition column_answer :: "crates \<Rightarrow> db_inner \<Rightarrow> nat \<Rightarrow> bytes \<Rightarrow> bytes option comp" where
  "column_answer cr db i k = (let q = overlays_query (lg_overlays (db_log db)) in case db_columns db ! i of
     Hash hc \<Rightarrow> cbind (hash_get (cr_codecs cr) hc k q) (\<lambda>(r, _). cret r)
   | Tree b \<Rightarrow> btree_table_get (cr_codecs cr) k q (btree_locked b))"

lemma db_lookup_answers:
  assumes "i < length (db_columns db)" and "i < 256" and "length (db_commit_overlay db) = length (db_columns db)"
    and "lookup_key cr db i key = Inr k"
  shows "db_lookup cr i key db = (case overlay_answer db i k of Some v \<Rightarrow> Some (Inr v) | None \<Rightarrow> column_answer cr db i k)"
proof -
  have u: "unat (of_nat i :: u8) = i" using assms(2) by (simp add: unat_of_nat)
  have ov: "overlay_nth db i = Some (db_commit_overlay db ! i)" using assms by (simp add: overlay_nth_def)
  have b: "cbind (cbind x (\<lambda>(r, hc). cret (r, f hc))) (\<lambda>(r, _). cret r) = cbind x (\<lambda>(r, _). cret r)" for x and f :: "hash_column \<Rightarrow> db_inner"
    by (auto simp: cbind_def cret_def split: option.split sum.split)
  have b': "cbind (cbind x (\<lambda>r. cret (r, db))) (\<lambda>(r, _). cret r) = x" for x :: "bytes option comp"
    by (auto simp: cbind_def cret_def split: option.split sum.split)
  show ?thesis
    using assms ov
    by (cases "db_columns db ! i")
      (auto simp: db_lookup_def db_get_def u column_nth_def lookup_key_def overlay_answer_def column_answer_def
        b[unfolded cret_def] b'[unfolded cret_def] Let_def cret_def split: option.split)
qed

lemma hash_at_length: "db_inv cr db Ms \<Longrightarrow> hash_at db i hc \<Longrightarrow> i < 256"
  by (simp add: db_inv_def cols_rep_def hash_at_def)

lemma overlay_pending:
  "db_inv cr db Ms \<Longrightarrow> hash_at db i hc \<Longrightarrow> map_of (cv_indexed (db_commit_overlay db ! i)) k =
     pending (hc_ref_counted hc) (cq_commits (db_commit_queue db)) (of_nat i) k"
  unfolding db_inv_def queue_inv_def hash_at_def by blast

lemma db_lookup_shown:
  assumes inv: "db_inv cr db Ms" and h: "hash_at db i hc" and k: "column_hash_key (cr_blake2b cr) hc key = Inr k"
  shows "db_lookup cr i key db =
     Some (Inr (shown (hc_ref_counted hc) (cq_commits (db_commit_queue db)) (of_nat i) (Ms i) k))"
proof -
  have i: "i < length (db_columns db)" "db_columns db ! i = Hash hc" using h by (auto simp: hash_at_def)
  have cm: "column_matches db i hc" using inv i options_matchD(2) by (auto simp: db_inv_def)
  then have len: "length k = 32"
    using hash_key_length k by (auto simp: column_hash_key_def column_matches_def)
  have "col_ok (cr_codecs cr) i (Hash hc) (overlays_query (lg_overlays (db_log db))) (Ms i)"
    using inv i by (metis cols_rep_def db_inv_def)
  then have rep: "col_rep (cr_codecs cr) hc (overlays_query (lg_overlays (db_log db))) (Ms i)"
    by (simp add: col_ok_def)
  have "column_answer cr db i k = Some (Inr (map_option fst (Ms i k)))"
    using hash_get_rep[OF rep len] i(2) by (auto simp: column_answer_def cret_def)
  moreover have "overlay_answer db i k =
      map_option snd (pending (hc_ref_counted hc) (cq_commits (db_commit_queue db)) (of_nat i) k)"
    using overlay_pending[OF inv h] i by (simp add: overlay_answer_def overlay_get_def)
  moreover have "length (db_commit_overlay db) = length (db_columns db)" using inv by (simp add: db_inv_def queue_inv_def)
  ultimately show ?thesis
    using db_lookup_answers[OF i(1) hash_at_length[OF inv h]] k i(2)
    by (auto simp: lookup_key_def shown_def split: option.split)
qed

section \<open>Writing the oldest commit to the log\<close>

lemma plan_fits_cong: "db_columns db' = db_columns db \<Longrightarrow> plan_fits cd chs w db' = plan_fits cd chs w db"
proof (induction chs arbitrary: w db db')
  case (Cons x chs)
  obtain c cs where x: "x = (c, cs)" by (cases x)
  have "plan_fits cd chs w' (set_column j h db') = plan_fits cd chs w' (set_column j h db)" for w' j h
    by (rule Cons.IH) (simp add: set_column_def Cons.prems)
  then show ?case
    using Cons.IH[OF Cons.prems] Cons.prems
    by (simp add: x split: column.split option.split sum.split prod.split)
qed simp

lemma plan_spec_nth:
  assumes "distinct (map fst chs)" and "i < 256"
  shows "plan_spec cols chs Ms i =
     (case map_of chs (of_nat i) of
        Some cs \<Rightarrow> (case cols ! i of
          Hash hc \<Rightarrow> changes_spec (hc_ref_counted hc) (hc_preimage hc) cs (Ms i) | Tree _ \<Rightarrow> Ms i)
      | None \<Rightarrow> Ms i)"
  using assms(1)
proof (induction chs arbitrary: Ms)
  case (Cons x chs)
  obtain c cs where x: "x = (c, cs)" by (cases x)
  define Ms' where "Ms' = (case cols ! unat c of
      Hash hc \<Rightarrow> Ms(unat c := changes_spec (hc_ref_counted hc) (hc_preimage hc) cs (Ms (unat c))) | Tree _ \<Rightarrow> Ms)"
  have ps: "plan_spec cols (x # chs) Ms = plan_spec cols chs Ms'" by (simp add: plan_spec_def x Ms'_def)
  have d: "distinct (map fst chs)" "map_of chs c = None" using Cons.prems by (auto simp: x map_of_eq_None_iff)
  show ?case
  proof (cases "of_nat i = c")
    case True
    then have u: "unat c = i" using assms(2) by (auto simp: unat_of_nat)
    show ?thesis unfolding ps Cons.IH[OF d(1)] using d(2) True u by (simp add: x Ms'_def split: column.split)
  next
    case False
    then have "unat c \<noteq> i" by auto
    then have "Ms' i = Ms i" by (simp add: Ms'_def split: column.split)
    then show ?thesis unfolding ps Cons.IH[OF d(1)] using False by (auto simp: x split: option.split column.split)
  qed
qed (simp add: plan_spec_def)

text \<open>Cleaning the entries of the oldest commit leaves the changes of the others.\<close>

lemma clean_pending:
  assumes "map_of m k = pending rc (cm # cms) c k" and "cm_id cm \<notin> cm_id ` set cms"
  shows "map_of (clean_changes (cm_id cm) (commit_changes cm c) m) k = pending rc cms c k"
proof (cases "pending rc cms c k")
  case None
  then show ?thesis
    using assms(1) last_change_dom[of rc "commit_changes cm c" k]
    by (auto simp: map_of_clean_changes split: option.splits)
next
  case (Some x)
  then show ?thesis
    using assms pending_id[of rc cms c k] by (cases x) (fastforce simp: map_of_clean_changes)
qed

lemma clean_changes_Nil_default:
  "(case map_of chs c of Some cs \<Rightarrow> f cs | None \<Rightarrow> f []) = f (alist_or_default chs c)"
  by (simp add: alist_or_default_def split: option.split)

lemma clean_commit_nth:
  assumes "wf_commit (length ovs) cm" and "length ovs \<le> 256" and "cs_btree_indexed (cm_changeset cm) = []"
  shows "\<exists>ovs'. clean_commit cm ovs = Inr ovs' \<and> length ovs' = length ovs \<and>
     (\<forall>i<length ovs. cv_indexed (ovs' ! i) =
        clean_changes (cm_id cm) (commit_changes cm (of_nat i)) (cv_indexed (ovs ! i)))"
proof -
  let ?chs = "cs_indexed (cm_changeset cm)"
  obtain ovs' where o: "update_overlays (\<lambda>_ ch ov. Inr (indexed_clean_overlay (cm_id cm) ch ov)) ?chs ovs = Inr ovs'"
      "length ovs' = length ovs" "\<forall>i<length ovs. ovs' ! i = (case map_of ?chs (of_nat i) of
        Some cs \<Rightarrow> indexed_clean_overlay (cm_id cm) cs (ovs ! i) | None \<Rightarrow> ovs ! i)"
    using update_overlays_nth[of ?chs ovs "\<lambda>_ ch ov. Inr (indexed_clean_overlay (cm_id cm) ch ov)"
        "\<lambda>_. indexed_clean_overlay (cm_id cm)"] assms(1,2) by (auto simp: wf_commit_def)
  have "cv_indexed (ovs' ! i) = clean_changes (cm_id cm) (commit_changes cm (of_nat i)) (cv_indexed (ovs ! i))"
    if "i < length ovs" for i
    using o(3) that by (auto simp: commit_changes_def alist_or_default_def indexed_clean_overlay_def split: option.split)
  then show ?thesis using o(1,2) assms(3) by (simp add: clean_commit_def)
qed

lemma same_kind_Hash: "same_kind (Hash hc) c \<Longrightarrow> \<exists>hc'. c = Hash hc' \<and> same_column hc hc'"
  by (auto simp: same_kind_def split: column.splits)

lemma same_kind_Hash': "same_kind c (Hash hc') \<Longrightarrow> \<exists>hc. c = Hash hc \<and> same_column hc hc'"
  by (auto simp: same_kind_def split: column.splits)

lemma process_commits_rep:
  assumes inv: "db_inv cr db Ms" and cd: "codecs_ok (cr_codecs cr)"
    and queue: "cq_commits (db_commit_queue db) = cm # cms" and bt: "cs_btree_indexed (cm_changeset cm) = []"
    and fits: "plan_fits (cr_codecs cr) (cs_indexed (cm_changeset cm)) (fst (begin_record (db_log db))) db"
  shows "\<exists>db' Ms'. process_commits cr db = Some (Inr (True, db')) \<and> db_inv cr db' Ms' \<and>
     list_all2 same_kind (db_columns db) (db_columns db') \<and> cq_commits (db_commit_queue db') = cms \<and>
     (\<forall>i hc. hash_at db i hc \<longrightarrow>
        Ms' i = changes_spec (hc_ref_counted hc) (hc_preimage hc) (commit_changes cm (of_nat i)) (Ms i))"
proof -
  let ?chs = "cs_indexed (cm_changeset cm)" and ?cols = "db_columns db" and ?l = "db_log db"
  define w where "w = fst (begin_record ?l)"
  define dbp where "dbp = db\<lparr>db_commit_queue := (db_commit_queue db)\<lparr>cq_commits := cms,
      cq_bytes := cq_bytes (db_commit_queue db) - cm_bytes cm\<rparr>, db_log := snd (begin_record ?l)\<rparr>"
  have cp: "db_columns dbp = ?cols" by (simp add: dbp_def)
  have w: "lw_overlays w = lg_overlays ?l" "wf_change (lw_log w)" "lc_record_id (lw_log w) = lg_next_record_id ?l"
    by (simp_all add: w_def begin_record_def log_writer_new_def) (simp_all add: log_change_new_def)
  have wq: "writer_query w = overlays_query (lg_overlays ?l)"
    by (simp add: w_def begin_record_def writer_query_new)
  have rep: "cols_rep (cr_codecs cr) (db_columns dbp) (writer_query w) Ms" using inv by (simp add: db_inv_def wq cp)
  have "plan_fits (cr_codecs cr) ?chs w dbp" using fits plan_fits_cong[OF cp] by (simp add: w_def)
  from plan_commit_rep[OF rep cd this bt] obtain r w' cols where p:
      "plan_commit (cr_codecs cr) cm w dbp = Some (Inr (r, w', dbp\<lparr>db_columns := cols\<rparr>))"
      "list_all2 same_kind ?cols cols" "keeps_base w w'"
      "cols_rep (cr_codecs cr) cols (writer_query w') (plan_spec ?cols ?chs Ms)"
    unfolding cp by blast
  have rid: "lc_record_id (lw_log w') + 1 = lg_next_record_id (db_log dbp)"
    using p(3) w(3) by (simp add: keeps_base_def dbp_def begin_record_def)
  then obtain n l' where e: "end_record (cr_crc cr) (lw_log w') (db_log dbp) = Inr (n, l')"
    using end_record_ok by blast
  have ov: "overlays_query (lg_overlays l') = writer_query w'"
    using end_record_overlays[OF e] overlays_query_merge[of w'] p(3) w(1,2)
    by (simp add: keeps_base_def dbp_def begin_record_def)
  have q: "length (db_commit_overlay db) = length ?cols" "wf_commit (length ?cols) cm" "length ?cols \<le> 256"
    using inv queue by (simp_all add: db_inv_def queue_inv_def cols_rep_def)
  obtain ovs' where c: "clean_commit cm (db_commit_overlay db) = Inr ovs'" "length ovs' = length ?cols"
      "\<forall>i<length ?cols. cv_indexed (ovs' ! i) =
        clean_changes (cm_id cm) (commit_changes cm (of_nat i)) (cv_indexed (db_commit_overlay db ! i))"
    using clean_commit_nth[of "db_commit_overlay db" cm] q bt by auto
  define db1 where "db1 = dbp\<lparr>db_columns := cols, db_log := l', db_log_queue := db_log_queue db + uint n, db_commit_overlay := ovs'\<rparr>"
  define db' where "db' = (if r then start_reindex (lc_record_id (lw_log w')) db1 else db1)"
  have proc: "process_commits cr db = Some (Inr (True, db'))"
    using p(1) e c(1) unfolding w_def[symmetric]
    by (simp add: process_commits_def pop_commit_def queue split_beta Let_def dbp_def db1_def db'_def cret_def
        flip: w_def)
  have f: "db_columns db' = cols" "db_options db' = db_options db" "db_version db' = db_version db"
      "cq_commits (db_commit_queue db') = cms" "cq_record_id (db_commit_queue db') = cq_record_id (db_commit_queue db)"
      "db_commit_overlay db' = ovs'" "db_log db' = l'"
    by (simp_all add: db'_def db1_def dbp_def start_reindex_def)
  have len: "length cols = length ?cols" using p(2) by (simp add: list_all2_conv_all_nth)
  have orig: "\<exists>hc0. ?cols ! i = Hash hc0 \<and> same_column hc0 hc" if "i < length cols" "cols ! i = Hash hc" for i hc
    using same_kind_Hash'[of "?cols ! i" hc] p(2) that by (auto simp: list_all2_conv_all_nth)
  have "options_match db'"
    unfolding options_match_def
  proof (intro allI impI)
    fix i assume a: "i < length (db_columns db')"
    then have i: "i < length ?cols" "same_kind (?cols ! i) (cols ! i)"
      using p(2) by (simp_all add: f len list_all2_conv_all_nth)
    have "options_match db" using inv by (simp add: db_inv_def)
    from options_matchD[OF this i(1)] i(2)
    show "case db_columns db' ! i of Hash hc \<Rightarrow> column_matches db' i hc
       | Tree _ \<Rightarrow> i < length (op_columns (db_options db')) \<and> co_btree_index (op_columns (db_options db') ! i)"
      by (cases "?cols ! i"; cases "cols ! i") (auto simp: same_kind_def column_matches_def f same_column_fields)
  qed
  moreover have "queue_inv db'"
    unfolding queue_inv_def f
  proof (intro conjI allI impI)
    fix i hc k assume a: "i < length cols" "cols ! i = Hash hc"
    then obtain hc0 where "?cols ! i = Hash hc0" "hc_ref_counted hc0 = hc_ref_counted hc"
      using orig same_column_fields(1) by metis
    then have "map_of (cv_indexed (db_commit_overlay db ! i)) k = pending (hc_ref_counted hc) (cm # cms) (of_nat i) k"
      using overlay_pending[OF inv, of i hc0 k] a(1) len queue by (simp add: hash_at_def)
    moreover have "cm_id cm \<notin> cm_id ` set cms" using inv queue by (simp add: db_inv_def queue_inv_def)
    ultimately show "map_of (cv_indexed (ovs' ! i)) k = pending (hc_ref_counted hc) cms (of_nat i) k"
      using clean_pending c(3) a(1) len by simp
  qed (use inv queue len c(2) in \<open>auto simp: db_inv_def queue_inv_def\<close>)
  ultimately have inv': "db_inv cr db' (plan_spec ?cols ?chs Ms)" using p(4) ov by (simp add: db_inv_def f)
  have "plan_spec ?cols ?chs Ms i =
      changes_spec (hc_ref_counted hc) (hc_preimage hc) (commit_changes cm (of_nat i)) (Ms i)" if pl: "hash_at db i hc" for i hc
  proof -
    have i: "i < 256" "?cols ! i = Hash hc" using pl q(3) by (auto simp: hash_at_def)
    have "distinct (map fst ?chs)" using q(2) by (simp add: wf_commit_def)
    from plan_spec_nth[OF this i(1), of ?cols Ms]
    show ?thesis
      using i by (simp add: commit_changes_def alist_or_default_def changes_spec_def split: option.split)
  qed
  then show ?thesis
    using proc inv' p(2) f(1,4) by (intro exI[of _ db'] exI[of _ "plan_spec ?cols ?chs Ms"]) auto
qed

section \<open>Committing\<close>

definition tx_hash :: "crates \<Rightarrow> db_inner \<Rightarrow> u8 \<Rightarrow> bytes \<Rightarrow> bytes res" where
  "tx_hash cr db c k = hash_key (cr_blake2b cr) k (case op_salt (db_options db) of Some s \<Rightarrow> s | None \<Rightarrow> replicate 32 0)
     (co_uniform (op_columns (db_options db) ! unat c)) (db_version db)"

definition tx_ordered :: "db_inner \<Rightarrow> u8 \<Rightarrow> bool" where
  "tx_ordered db c = co_btree_index (op_columns (db_options db) ! unat c)"

definition tx_key :: "crates \<Rightarrow> db_inner \<Rightarrow> u8 \<Rightarrow> bytes \<Rightarrow> bytes" where
  "tx_key cr db c k = (if tx_ordered db c then k else case tx_hash cr db c k of Inr h \<Rightarrow> h | Inl _ \<Rightarrow> [])"

text \<open>The changes of a transaction that go to one column, under the keys that the column uses.\<close>

definition tx_changes :: "crates \<Rightarrow> db_inner \<Rightarrow> (u8 \<times> bytes \<times> bytes option) list \<Rightarrow> u8 \<Rightarrow> change_set" where
  "tx_changes cr db tx c = map (\<lambda>(c, k, v). (tx_key cr db c k, v)) (filter (\<lambda>x. fst x = c) tx)"

text \<open>Each change names a column of the database, and the key of a hash column can be hashed.\<close>

definition tx_ok :: "crates \<Rightarrow> db_inner \<Rightarrow> (u8 \<times> bytes \<times> bytes option) list \<Rightarrow> bool" where
  "tx_ok cr db tx \<longleftrightarrow> (\<forall>(c, k, v)\<in>set tx. unat c < length (db_columns db) \<and>
     (\<not> tx_ordered db c \<longrightarrow> (\<exists>h. tx_hash cr db c k = Inr h)))"

lemma push_change_default:
  "alist_or_default (push_change c kv m) c' = alist_or_default m c' @ (if c' = c then [kv] else [])"
  by (simp add: push_change_def alist_or_default_def)

lemma fst_push_change: "set (map fst (push_change c kv m)) = insert c (set (map fst m))"
    "distinct (map fst m) \<Longrightarrow> distinct (map fst (push_change c kv m))"
  by (simp_all add: push_change_def update_keys distinct_update) (auto simp: update_conv' dom_update)

text \<open>The change sets of a commit: those of the hash columns and those of the ordered ones.\<close>

definition sets_of :: "commit_change_set \<Rightarrow> u8 set" where
  "sets_of cs = fst ` set (cs_indexed cs) \<union> fst ` set (cs_btree_indexed cs)"

definition distinct_sets :: "commit_change_set \<Rightarrow> bool" where
  "distinct_sets cs \<longleftrightarrow> distinct (map fst (cs_indexed cs)) \<and> distinct (map fst (cs_btree_indexed cs))"

lemma build_commit_rep:
  assumes "\<forall>(c, k, v)\<in>set tx. unat c < length (op_columns (db_options db)) \<and>
      (\<not> tx_ordered db c \<longrightarrow> (\<exists>h. tx_hash cr db c k = Inr h))"
  shows "\<exists>cs'. build_commit cr (db_options db) (db_version db) tx cs = Inr cs' \<and>
     (\<forall>c. alist_or_default (cs_indexed cs') c =
        alist_or_default (cs_indexed cs) c @ (if tx_ordered db c then [] else tx_changes cr db tx c)) \<and>
     (\<forall>c. alist_or_default (cs_btree_indexed cs') c =
        alist_or_default (cs_btree_indexed cs) c @ (if tx_ordered db c then tx_changes cr db tx c else [])) \<and>
     (distinct_sets cs \<longrightarrow> distinct_sets cs') \<and> sets_of cs' = sets_of cs \<union> fst ` set tx"
  using assms
proof (induction tx arbitrary: cs)
  case Nil
  then show ?case by (auto simp: tx_changes_def)
next
  case (Cons x tx)
  obtain c k v where x: "x = (c, k, v)" by (cases x)
  let ?k = "tx_key cr db c k"
  have tc: "tx_changes cr db (x # tx) c' = (if c' = c then [(?k, v)] else []) @ tx_changes cr db tx c'" for c'
    by (simp add: tx_changes_def x)
  define cs1 where "cs1 = (if tx_ordered db c then cs\<lparr>cs_btree_indexed := push_change c (?k, v) (cs_btree_indexed cs)\<rparr>
      else cs\<lparr>cs_indexed := push_change c (?k, v) (cs_indexed cs)\<rparr>)"
  have "\<forall>(c, k, v)\<in>set tx. unat c < length (op_columns (db_options db)) \<and>
      (\<not> tx_ordered db c \<longrightarrow> (\<exists>h. tx_hash cr db c k = Inr h))"
    using Cons.prems by simp
  from Cons.IH[OF this, of cs1] obtain cs' where ih:
      "build_commit cr (db_options db) (db_version db) tx cs1 = Inr cs'"
      "\<And>c'. alist_or_default (cs_indexed cs') c' =
         alist_or_default (cs_indexed cs1) c' @ (if tx_ordered db c' then [] else tx_changes cr db tx c')"
      "\<And>c'. alist_or_default (cs_btree_indexed cs') c' =
         alist_or_default (cs_btree_indexed cs1) c' @ (if tx_ordered db c' then tx_changes cr db tx c' else [])"
      "distinct_sets cs1 \<longrightarrow> distinct_sets cs'" "sets_of cs' = sets_of cs1 \<union> fst ` set tx" by blast
  have b: "build_commit cr (db_options db) (db_version db) (x # tx) cs = Inr cs'"
    using Cons.prems ih(1) by (auto simp: x cs1_def tx_key_def tx_hash_def tx_ordered_def Let_def)
  have s: "distinct_sets cs \<longrightarrow> distinct_sets cs1" "sets_of cs1 = insert c (sets_of cs)"
    using fst_push_change(1)[of c "(?k, v)"]
    by (simp_all add: cs1_def distinct_sets_def sets_of_def fst_push_change(2))
  show ?case
    using b ih(2-5) s by (intro exI[of _ cs']) (auto simp: tc[unfolded x] push_change_default cs1_def x simp del: build_commit.simps)
qed

lemma commit_overlays_nth:
  assumes "distinct_sets cs" and "\<forall>c\<in>sets_of cs. unat c < length ovs \<and> unat c < length (op_columns op)"
    and "length ovs \<le> 256"
  shows "\<exists>ovs'. commit_overlays op rid cs ovs = Inr ovs' \<and> length ovs' = length ovs \<and>
     (\<forall>i<length ovs. ovs' ! i = \<lparr>cv_indexed = copy_changes (co_ref_counted (op_columns op ! i)) rid
          (alist_or_default (cs_indexed cs) (of_nat i)) (cv_indexed (ovs ! i)),
        cv_btree_indexed = copy_changes (co_ref_counted (op_columns op ! i)) rid
          (alist_or_default (cs_btree_indexed cs) (of_nat i)) (cv_btree_indexed (ovs ! i))\<rparr>)"
proof -
  have pass: "\<exists>ovs'. update_overlays (\<lambda>c ch ov. rbind (column_ref_counted op c) (\<lambda>rc. Inr (f rc rid ch ov))) chs os = Inr ovs' \<and>
      length ovs' = length os \<and>
      (\<forall>i<length os. ovs' ! i = f (co_ref_counted (op_columns op ! i)) rid (alist_or_default chs (of_nat i)) (os ! i))"
    if d: "distinct (map fst chs)" and c: "\<forall>c\<in>fst ` set chs. unat c < length os \<and> unat c < length (op_columns op)"
      and o: "length os \<le> 256" and e: "\<And>rc ov. f rc rid [] ov = ov" for f chs os
  proof -
    let ?g = "\<lambda>c :: u8. f (co_ref_counted (op_columns op ! unat c)) rid"
    let ?f = "\<lambda>c ch ov. rbind (column_ref_counted op c) (\<lambda>rc. Inr (f rc rid ch ov))"
    have fg: "?f c ch ov = Inr (?g c ch ov)" if "(c, ch) \<in> set chs" for c ch ov
      using c that by (force simp: column_ref_counted_def)
    have "\<forall>(c, cs)\<in>set chs. unat c < length os" using c by force
    from update_overlays_nth[where f = ?f and g = ?g, OF this d o] fg
    obtain ovs' where "update_overlays ?f chs os = Inr ovs'" "length ovs' = length os"
        "\<forall>i<length os. ovs' ! i = (case map_of chs (of_nat i) of Some ch \<Rightarrow> ?g (of_nat i) ch (os ! i) | None \<Rightarrow> os ! i)" by blast
    moreover have "unat (of_nat i :: u8) = i" if "i < length os" for i using that o by (simp add: unat_of_nat)
    ultimately show ?thesis using e by (auto simp: alist_or_default_def split: option.split)
  qed
  have c: "\<forall>c\<in>fst ` set (cs_indexed cs). unat c < length ovs \<and> unat c < length (op_columns op)"
      "\<forall>c\<in>fst ` set (cs_btree_indexed cs). unat c < length ovs \<and> unat c < length (op_columns op)"
    using assms(2) by (auto simp: sets_of_def)
  have d: "distinct (map fst (cs_indexed cs))" "distinct (map fst (cs_btree_indexed cs))"
    using assms(1) by (simp_all add: distinct_sets_def)
  from pass[OF d(1) c(1) assms(3), of indexed_copy_to_overlay] obtain os where o1:
      "update_overlays (\<lambda>c ch ov. rbind (column_ref_counted op c) (\<lambda>rc. Inr (indexed_copy_to_overlay rc rid ch ov))) (cs_indexed cs) ovs = Inr os"
      "length os = length ovs" "\<forall>i<length ovs. os ! i =
        indexed_copy_to_overlay (co_ref_counted (op_columns op ! i)) rid (alist_or_default (cs_indexed cs) (of_nat i)) (ovs ! i)"
    by (auto simp: indexed_copy_to_overlay_def)
  from pass[OF d(2), of os btree_copy_to_overlay] obtain ovs' where o2:
      "update_overlays (\<lambda>c ch ov. rbind (column_ref_counted op c) (\<lambda>rc. Inr (btree_copy_to_overlay rc rid ch ov))) (cs_btree_indexed cs) os = Inr ovs'"
      "length ovs' = length ovs" "\<forall>i<length ovs. ovs' ! i =
        btree_copy_to_overlay (co_ref_counted (op_columns op ! i)) rid (alist_or_default (cs_btree_indexed cs) (of_nat i)) (os ! i)"
    using c(2) o1(2) assms(3) by (auto simp: btree_copy_to_overlay_def)
  have "commit_overlays op rid cs ovs = Inr ovs'" using o1(1) o2(1) by (simp add: commit_overlays_def)
  then show ?thesis
    using o1(3) o2(2,3) by (auto simp: indexed_copy_to_overlay_def btree_copy_to_overlay_def)
qed

lemma db_commit_rep:
  assumes inv: "commits_inv db" and err: "db_bg_err db = None" and tx: "tx_ok cr db tx"
    and ids: "unat (cq_record_id (db_commit_queue db)) + 2 < 2 ^ 64"
  shows "\<exists>db'. db_commit cr tx db = Inr db' \<and> commits_inv db' \<and> db_columns db' = db_columns db \<and>
     db_options db' = db_options db \<and> db_log db' = db_log db \<and>
     (\<forall>i k. i < length (db_columns db) \<longrightarrow> overlay_answer db' i k =
        (case last_change (co_ref_counted (op_columns (db_options db) ! i)) (tx_changes cr db tx (of_nat i)) k of
           Some v \<Rightarrow> Some v | None \<Rightarrow> overlay_answer db i k))"
proof -
  let ?cs0 = "\<lparr>cs_indexed = [], cs_btree_indexed = []\<rparr> :: commit_change_set"
    and ?q = "db_commit_queue db" and ?cols = "db_columns db" and ?op = "db_options db"
  have om: "options_match db" and l: "length (db_commit_overlay db) = length ?cols" "length ?cols \<le> 256"
    using inv by (simp_all add: commits_inv_def queue_inv_def)
  have tb: "\<forall>(c, k, v)\<in>set tx. unat c < length (op_columns ?op) \<and>
      (\<not> tx_ordered db c \<longrightarrow> (\<exists>h. tx_hash cr db c k = Inr h))"
    using tx options_matchD(1)[OF om] by (fastforce simp: tx_ok_def)
  from build_commit_rep[OF tb, of ?cs0] obtain cs where b: "build_commit cr ?op (db_version db) tx ?cs0 = Inr cs"
      "\<And>c. alist_or_default (cs_indexed cs) c = (if tx_ordered db c then [] else tx_changes cr db tx c)"
      "\<And>c. alist_or_default (cs_btree_indexed cs) c = (if tx_ordered db c then tx_changes cr db tx c else [])"
      "distinct_sets cs" "sets_of cs = fst ` set tx"
    by (auto simp: alist_or_default_def distinct_sets_def sets_of_def)
  define rid where "rid = cq_record_id ?q + 2"
  have urid: "unat rid = unat (cq_record_id ?q) + 2"
    using ids by (simp add: rid_def unat_word_ariths)
  have cb: "\<forall>c\<in>sets_of cs. unat c < length ?cols \<and> unat c < length (op_columns ?op)"
    using tx tb unfolding b(5) by (fastforce simp: tx_ok_def)
  let ?rc = "\<lambda>i. co_ref_counted (op_columns ?op ! i)"
  obtain ovs' where o: "commit_overlays ?op rid cs (db_commit_overlay db) = Inr ovs'" "length ovs' = length ?cols"
      "\<forall>i<length ?cols. ovs' ! i = \<lparr>cv_indexed = copy_changes (?rc i) rid
          (alist_or_default (cs_indexed cs) (of_nat i)) (cv_indexed (db_commit_overlay db ! i)),
        cv_btree_indexed = copy_changes (?rc i) rid
          (alist_or_default (cs_btree_indexed cs) (of_nat i)) (cv_btree_indexed (db_commit_overlay db ! i))\<rparr>"
    using commit_overlays_nth[OF b(4), of "db_commit_overlay db" ?op rid] cb l by auto
  define cm where "cm = \<lparr>cm_id = rid, cm_bytes = changeset_bytes cs, cm_changeset = cs\<rparr>"
  define db' where "db' = db\<lparr>db_commit_overlay := ovs', db_commit_queue := \<lparr>cq_record_id = cq_record_id ?q + 1,
      cq_bytes = cq_bytes ?q + changeset_bytes cs, cq_commits = cq_commits ?q @ [cm]\<rparr>\<rparr>"
  have "cq_record_id ?q + 1 + 1 = rid" by (simp add: rid_def)
  then have cm: "db_commit cr tx db = Inr db'"
    using o(1) by (simp add: db_commit_def b(1) commit_raw_def err Let_def db'_def cm_def)
  have ord: "tx_ordered db (of_nat i) \<longleftrightarrow> (\<exists>t. ?cols ! i = Tree t)" if "i < length ?cols" for i
    using options_matchD(3)[OF om that] that l(2) by (simp add: tx_ordered_def unat_of_nat)
  have answer: "overlay_answer db' i k = (case last_change (?rc i) (tx_changes cr db tx (of_nat i)) k of
      Some v \<Rightarrow> Some v | None \<Rightarrow> overlay_answer db i k)" if i: "i < length ?cols" for i k
    using o(3) i ord[OF i]
    by (cases "?cols ! i") (auto simp: overlay_answer_def db'_def b(2,3) overlay_get_def overlay_btree_get_def
        map_of_copy_changes split: option.split)
  have rc: "?rc i = hc_ref_counted hc" if "i < length ?cols" "?cols ! i = Hash hc" for i hc
    using options_matchD(2)[OF om that] by (simp add: column_matches_def Let_def)
  have "queue_inv db'"
    unfolding queue_inv_def
  proof (intro conjI allI impI ballI)
    fix i hc k assume a: "i < length (db_columns db')" "db_columns db' ! i = Hash hc"
    then have i: "i < length ?cols" "?cols ! i = Hash hc" by (simp_all add: db'_def)
    have "commit_changes cm (of_nat i) = tx_changes cr db tx (of_nat i)"
      using ord[OF i(1)] i(2) by (simp add: commit_changes_def cm_def b(2))
    then show "map_of (cv_indexed (db_commit_overlay db' ! i)) k =
        pending (hc_ref_counted hc) (cq_commits (db_commit_queue db')) (of_nat i) k"
      using i o(3) inv rc[OF i] ord[OF i(1)]
      by (auto simp: db'_def pending_append map_of_copy_changes commits_inv_def queue_inv_def b(2) cm_def split: option.split)
  next
    have "rid \<notin> cm_id ` set (cq_commits ?q)" using inv urid by (fastforce simp: commits_inv_def queue_inv_def)
    then show "distinct (map cm_id (cq_commits (db_commit_queue db')))"
      using inv by (simp add: db'_def cm_def commits_inv_def queue_inv_def)
  next
    fix cm' assume "cm' \<in> set (cq_commits (db_commit_queue db'))"
    then have or: "cm' = cm \<or> cm' \<in> set (cq_commits ?q)" by (auto simp: db'_def)
    have old: "wf_commit (length ?cols) cm' \<and> unat (cm_id cm') \<le> unat (cq_record_id ?q) + 1"
      if "cm' \<in> set (cq_commits ?q)"
      using inv that by (simp add: commits_inv_def queue_inv_def)
    have new: "wf_commit (length ?cols) cm"
      using cb b(4) by (force simp: wf_commit_def cm_def distinct_sets_def sets_of_def)
    have "unat (cq_record_id ?q + 1) = unat (cq_record_id ?q) + 1"
      using ids by (simp add: unat_word_ariths)
    moreover have "cm_id cm = rid" by (simp add: cm_def)
    ultimately show "wf_commit (length (db_columns db')) cm'"
        "unat (cm_id cm') \<le> unat (cq_record_id (db_commit_queue db')) + 1"
      using or old new urid unfolding db'_def by auto
  qed (use o(2) in \<open>simp add: db'_def\<close>)
  moreover have "options_match db'"
    using om by (simp add: db'_def options_match_def column_matches_def cong: column.case_cong)
  ultimately have "commits_inv db'" using inv by (simp add: commits_inv_def) (simp add: db'_def)
  then show ?thesis using cm answer by (intro exI[of _ db']) (simp add: db'_def)
qed

lemma db_inv_same:
  assumes "db_inv cr db Ms" and "commits_inv db'" and "db_columns db' = db_columns db" and "db_log db' = db_log db"
  shows "db_inv cr db' Ms"
  using assms by (simp add: db_inv_def commits_inv_def)

end
