(* ===== verification/Db_Replay.thy ===== *)
theory Db_Replay
  imports Db_Pipeline Plan_Frame
begin

text \<open>
  Validating a record before it is applied: the validation loop reads the record and leaves
  the columns as they are.
\<close>

lemma validate_index_keeps:
  "validate_index_plan t i r hc = Some (Inr (hc', r')) \<Longrightarrow> hc' = hc"
  by (auto simp: validate_index_plan_def rbind_Inr_iff split: if_splits option.splits)

lemma column_validate_keeps: "column_validate_plan c a r = Some (Inr (c', r')) \<Longrightarrow> c' = c"
  by (cases c)
    (auto simp: column_validate_plan_def hash_validate_plan_def cbind_cret_iff cret_def rbind_Inr_iff
      split: log_action.splits dest: validate_index_keeps)

lemma validate_step_keeps:
  assumes "validate_step crc r cols = Some (Inr x)"
  shows "(case x of Inl (_, cols') \<Rightarrow> cols' | Inr (_, cols') \<Rightarrow> cols') = cols"
proof -
  have "(case x of Inl (_, cols') \<Rightarrow> cols' | Inr (_, cols') \<Rightarrow> cols') = cols"
    if "validate_insertion i a r' cols = Some (Inr x)" for i a r'
    using that
    by (auto simp: validate_insertion_def cret_def split: if_splits option.splits sum.splits fail.splits prod.splits
        dest!: column_validate_keeps)
  then show ?thesis
    using assms
    by (auto simp: validate_step_def cret_def split: sum.splits fail.splits prod.splits log_action.splits)
qed

lemma validate_loop_keeps:
  "validate_loop crc r cols = Some (Inr (v, cols')) \<Longrightarrow> cols' = cols"
proof -
  let ?P = "\<lambda>crc r cols x. \<forall>v cols'. x = Inr (v, cols') \<longrightarrow> cols' = cols"
  have "?P crc r cols x" if "validate_loop crc r cols = Some x" for x
  proof (rule validate_loop.raw_induct[where P = ?P, OF _ that], goal_cases)
    case (1 f crc r cols x)
    show ?case
    proof (intro allI impI)
      fix v cols' assume x: "x = Inr (v, cols')"
      then obtain y where y: "validate_step crc r cols = Some (Inr y)"
          "(if isl y then Some (Inr (projl y)) else f crc (fst (projr y)) (snd (projr y))) = Some x"
        using 1(2) by (auto simp: cbind_cret_iff)
      then show "cols' = cols"
        using validate_step_keeps[OF y(1)] x 1(1) by (cases y) (fastforce split: prod.splits)+
    qed
  qed
  then show "validate_loop crc r cols = Some (Inr (v, cols')) \<Longrightarrow> cols' = cols" by blast
qed

lemma drop_logs_frame: "drop_logs is l = Inr l' \<Longrightarrow> \<exists>d. l' = l\<lparr>lg_disk := d\<rparr>"
proof (induction "is" arbitrary: l)
  case Nil
  then show ?case by (intro exI[of _ "lg_disk l"]) simp
next
  case (Cons i "is")
  then show ?case by (fastforce simp: rbind_Inr_iff drop_log_def split: if_splits)
qed

lemma refuse_logs_fields:
  "refuse_logs db = Some (Inr (b, db')) \<Longrightarrow> \<not> b \<and> db_columns db' = db_columns db \<and>
     db_commit_overlay db' = db_commit_overlay db \<and> db_last_enacted db' = db_last_enacted db \<and>
     lg_overlays (db_log db') = empty_overlays \<and> lg_reading (db_log db') = None \<and> lg_replay_queue (db_log db') = []"
  by (auto simp: refuse_logs_def rbind_Inr_iff clear_replay_logs_def drop_log_def split: option.splits if_splits)
    (auto dest: drop_logs_frame)

end
