(* ===== verification/Db_Errors.thy ===== *)
theory Db_Errors
  imports Db_Pipeline
begin

text \<open>
  What no stage of the pipeline touches: the options, the version, the shutdown flag and the stored
  background error. Only \<open>store_err\<close> writes the error, and it writes it once.
\<close>

definition settings :: "db_inner \<Rightarrow> options \<times> bool \<times> error option \<times> u32" where
  "settings db = (db_options db, db_shutdown db, db_bg_err db, db_version db)"

lemma settings_simps [simp]:
  "settings (db\<lparr>db_columns := x1\<rparr>) = settings db"
  "settings (db\<lparr>db_log := x2\<rparr>) = settings db"
  "settings (db\<lparr>db_commit_queue := x3\<rparr>) = settings db"
  "settings (db\<lparr>db_commit_overlay := x4\<rparr>) = settings db"
  "settings (db\<lparr>db_log_queue := x5\<rparr>) = settings db"
  "settings (db\<lparr>db_last_enacted := x6\<rparr>) = settings db"
  "settings (db\<lparr>db_next_reindex := x7\<rparr>) = settings db"
  "settings (set_column i c db) = settings db"
  "settings (start_reindex r db) = settings db"
  by (simp_all add: settings_def set_column_def start_reindex_def)

section \<open>The stages\<close>

lemma plan_indexed_settings:
  "plan_indexed cd chs b w db = Some (Inr (r, w', db')) \<Longrightarrow> settings db' = settings db"
  by (induction cd chs b w db rule: plan_indexed.induct) (fastforce simp: cbind_cret_iff cret_def)+

lemma plan_btree_settings:
  "plan_btree cd chs w db = Some (Inr (w', db')) \<Longrightarrow> settings db' = settings db"
  by (induction cd chs w db rule: plan_btree.induct)
    (fastforce simp: cret_def split: column.splits elim!: cbind_InrE)+

lemma commit_settings: "db_commit cr tx db = Inr db' \<Longrightarrow> settings db' = settings db"
  by (auto simp: db_commit_def commit_raw_def rbind_Inr_iff Let_def split: option.splits)

lemma process_commits_settings:
  assumes "process_commits cr db = Some (Inr (m, db'))"
  shows "settings db' = settings db"
proof (cases "pop_commit db")
  case None
  then show ?thesis using assms by (auto simp: process_commits_def cret_def)
next
  case (Some p)
  obtain cm db0 where p: "p = (cm, db0)" by (cases p)
  then have "settings db0 = settings db" using Some by (auto simp: pop_commit_def split: list.splits)
  moreover have "settings d' = settings d" if "plan_commit cd cm w d = Some (Inr (b, w', d'))" for cd cm w d b w' d'
    using that
    by (auto simp: plan_commit_def cret_def case_prod_beta Let_def elim!: cbind_InrE
        dest!: plan_indexed_settings plan_btree_settings)
  ultimately show ?thesis
    using assms by (fastforce simp: process_commits_def Some p cbind_cret_iff cret_def Let_def split: prod.splits if_splits)
qed

lemma process_reindex_settings:
  assumes "process_reindex cr db = Some (Inr (m, db'))"
  shows "settings db' = settings db"
proof -
  have "settings db' = settings db" if "process_reindex_columns cr is db = Some (Inr (m, db'))" for "is"
    using that
  proof (induction cr "is" db rule: process_reindex_columns.induct)
    case (2 cr i "is" db)
    then show ?case
      by (fastforce simp: cbind_cret_iff cret_def Let_def split: column.splits if_splits prod.splits)
  qed (auto simp: cret_def)
  then show ?thesis using assms by (auto simp: process_reindex_def cret_def split: if_splits)
qed

lemma enact_step_settings:
  assumes "enact_step crc r db = Some (Inr x)"
  shows "settings (case x of Inl (_, d) \<Rightarrow> d | Inr (_, d) \<Rightarrow> d) = settings db"
proof -
  obtain action r1 where "reader_next crc r = Inr (action, r1)"
    using assms by (auto simp: enact_step_def cbind_cret_iff)
  moreover have "settings (case x of Inl (_, d) \<Rightarrow> d | Inr (_, d) \<Rightarrow> d) = settings db"
    if d: "enact_drop t r1 db = Some (Inr x)" for t
  proof -
    obtain c where "column_nth db (unat (index_id_col t)) = Inr c"
      using d by (auto simp: enact_drop_def elim!: cbind_InrE)
    then show ?thesis using d by (cases c) (auto simp: enact_drop_def cbind_cret_iff cret_def)
  qed
  ultimately show ?thesis
    using assms by (cases action) (auto simp: enact_step_def enact_insertion_def cbind_cret_iff cret_def)
qed

lemma enact_loop_settings:
  "enact_loop crc r db = Some (Inr (r', db')) \<Longrightarrow> settings db' = settings db"
proof -
  let ?P = "\<lambda>crc r db x. \<forall>r' db'. x = Inr (r', db') \<longrightarrow> settings db' = settings db"
  have "?P crc r db x" if "enact_loop crc r db = Some x" for x
  proof (rule enact_loop.raw_induct[where P = ?P, OF _ that], goal_cases)
    case (1 f crc r db x)
    show ?case
    proof (intro allI impI)
      fix r' db' assume x: "x = Inr (r', db')"
      then obtain y where y: "enact_step crc r db = Some (Inr y)"
          "(if isl y then Some (Inr (projl y)) else f crc (fst (projr y)) (snd (projr y))) = Some x"
        using 1(2) by (auto simp: cbind_cret_iff)
      note s = enact_step_settings[OF y(1)]
      show "settings db' = settings db" using s y(2) x 1(1) by (cases y) (fastforce split: prod.splits)+
    qed
  qed
  then show "enact_loop crc r db = Some (Inr (r', db')) \<Longrightarrow> settings db' = settings db" by blast
qed

lemma enact_logs_settings:
  assumes "enact_logs cr v db = Some (Inr (m, db'))"
  shows "settings db' = settings db"
proof -
  have rec: "settings d' = settings d" if "enact_record cr v r d = Some (Inr (m, d'))" for v r d d'
    using that by (auto simp: enact_record_def cbind_cret_iff cret_def Let_def dest!: enact_loop_settings)
  have ref: "settings d' = settings d" if "refuse_logs d = Some (Inr (m, d'))" for d d'
    using that by (auto simp: refuse_logs_def rbind_Inr_iff)
  have val: "settings d' = settings d" if "validate_record cr r d = Some (Inr (m, d'))" for r d d'
    using that
    by (auto simp: validate_record_def cbind_cret_iff Let_def split: if_splits option.splits dest!: rec ref)
  show ?thesis
    using assms
    by (auto simp: enact_logs_def cret_def split: sum.splits fail.splits error.splits if_splits option.splits
        dest!: rec ref val)
qed

lemma step_settings:
  assumes "db_step cr db db'"
  shows "settings db' = settings db \<or> (\<exists>e d. settings d = settings db \<and> db' = store_err (Inl (Err e)) d)"
  using assms
proof cases
  case (flush m)
  then show ?thesis by (auto simp: flush_logs_def)
next
  case (clean m)
  then show ?thesis by (auto simp: db_clean_logs_def Let_def rbind_Inr_iff split: if_splits)
next
  case (failed e cols l q ovs lq le nr)
  then show ?thesis by (intro disjI2 exI conjI) simp_all
qed (auto dest: commit_settings process_commits_settings process_reindex_settings enact_logs_settings)

text \<open>A stored error stays, and is the one that was stored first.\<close>

lemma steps_keep_error:
  assumes "(db_step cr)\<^sup>*\<^sup>* db db'" and "db_bg_err db = Some e"
  shows "settings db' = settings db"
  using assms
proof (induction rule: rtranclp_induct)
  case (step d d')
  then show ?case using step_settings[OF step(2)] by (auto simp: settings_def store_err_def)
qed simp

end
