(* ===== verification/Db_Correct.thy ===== *)
theory Db_Correct
  imports Db_Commit Db_Replay Db_Errors Column_Correct
begin

text \<open>
  The properties of the database (\<^verbatim>\<open>src/src/db.rs\<close>), stated over its operations.
\<close>

section \<open>A new database\<close>

definition no_files :: db_files where
  "no_files = \<lparr>df_metadata = None, df_values = (\<lambda>_. None), df_indexes = (\<lambda>_. None), df_logs = [], df_locked = None\<rparr>"

definition new_metadata :: "crates \<Rightarrow> options \<Rightarrow> metadata" where
  "new_metadata cr op = \<lparr>md_salt = (case op_salt op of Some s \<Rightarrow> s | None \<Rightarrow> cr_random_salt cr),
     md_version = CURRENT_VERSION, md_columns = op_columns op\<rparr>"

definition new_log :: "bool \<Rightarrow> log_state" where
  "new_log sync = \<lparr>lg_overlays = empty_overlays, lg_appending = None, lg_reading = None,
     lg_reading_state = Idle, lg_flushing = None, lg_next_record_id = 1, lg_dirty = True,
     lg_log_pool = [], lg_cleanup_queue = [], lg_replay_queue = [], lg_next_log_id = 0, lg_sync = sync,
     lg_disk = []\<rparr>"

definition new_db :: "crates \<Rightarrow> options \<Rightarrow> db_inner" where
  "new_db cr op = \<lparr>db_columns = map (\<lambda>i. Hash (new_column (of_nat i) op (new_metadata cr op))) [0..<length (op_columns op)],
     db_options = op\<lparr>op_salt := Some (md_salt (new_metadata cr op))\<rparr>, db_shutdown = False, db_log = new_log (op_sync_wal op),
     db_commit_queue = \<lparr>cq_record_id = 0, cq_bytes = 0, cq_commits = []\<rparr>,
     db_commit_overlay = replicate (length (op_columns op)) commit_overlay_new, db_log_queue = 0,
     db_last_enacted = 1, db_next_reindex = 1, db_bg_err = None, db_version = CURRENT_VERSION\<rparr>"

definition hash_options :: "crates \<Rightarrow> options \<Rightarrow> bool" where
  "hash_options cr op \<longleftrightarrow> length (op_columns op) \<le> 255 \<and> (\<forall>co\<in>set (op_columns op). \<not> co_btree_index co) \<and>
     length (md_salt (new_metadata cr op)) = 32"

lemma column_open_hash_eq:
  assumes "unat col < length (md_columns md)" and "\<not> co_btree_index (md_columns md ! unat col)"
  shows "column_open (\<lambda>_. None) (\<lambda>_. None) col op md = Some (Inr (Hash (new_column col op md)))"
  using assms column_open_new[OF assms(1), of op]
  by (auto simp: column_open_def column_open_hash_def Let_def cret_def cbind_def split: sum.splits)

lemma open_columns_new:
  assumes "\<forall>i\<in>set is. i < length (md_columns md) \<and> i < 256 \<and> \<not> co_btree_index (md_columns md ! i)"
  shows "open_columns no_files op md is = Some (Inr (map (\<lambda>i. Hash (new_column (of_nat i) op md)) is))"
  using assms by (induction "is") (auto simp: no_files_def column_open_hash_eq unat_of_nat cret_def)

lemma db_inner_open_new:
  assumes "hash_options cr op"
  shows "db_inner_open cr op True skip no_files = Some (Inr (new_db cr op))"
proof -
  have "open_columns no_files op (new_metadata cr op) [0..<length (op_columns op)] =
      Some (Inr (map (\<lambda>i. Hash (new_column (of_nat i) op (new_metadata cr op))) [0..<length (op_columns op)]))"
    using assms by (intro open_columns_new) (auto simp: hash_options_def new_metadata_def)
  moreover have "load_and_validate_metadata (cr_hex_encode cr) (cr_hex_decode cr) (cr_random_salt cr) op None True =
      Inr (new_metadata cr op, Some (write_metadata_file (cr_hex_encode cr) op (md_salt (new_metadata cr op))))"
    by (simp add: load_and_validate_metadata_def load_metadata_file_def new_metadata_def Let_def)
  moreover have "md_columns (new_metadata cr op) = op_columns op" by (simp add: new_metadata_def)
  ultimately show ?thesis
    by (simp add: db_inner_open_def log_open_def new_db_def new_log_def replay_record_id_def cret_def)
      (simp add: no_files_def new_metadata_def split: option.split)
qed

lemma refresh_new_tables: "refresh_tables (map (new_table col co v) is) = Inr (map (new_table col co v) is)"
  by (induction "is") (simp_all add: table_refresh_metadata_def new_table_def)

lemma refresh_new_columns:
  "refresh_columns (map (\<lambda>i. Hash (new_column (of_nat i) op md)) is) = Inr (map (\<lambda>i. Hash (new_column (of_nat i) op md)) is)"
proof -
  have "hash_refresh_metadata (new_column col op md) = Inr (new_column col op md)" for col
    by (simp add: hash_refresh_metadata_def new_column_def Let_def refresh_new_tables)
  then show ?thesis by (induction "is") (simp_all add: column_refresh_metadata_def)
qed

lemma db_open_new:
  assumes "hash_options cr op"
  shows "db_open_inner cr op True skip no_files = Some (Inr (new_db cr op))"
proof -
  have "column_is_valid co" if "co \<in> set (op_columns op)" for co
    using assms that by (simp add: hash_options_def column_is_valid_def)
  then have v: "options_is_valid op" by (simp add: options_is_valid_def list_all_iff)
  have "replay_next (new_log s) = (None, new_log s)" for s by (simp add: replay_next_def new_log_def)
  then have "replay_loop cr (new_db cr op) = Some (Inr (new_db cr op))"
    by (subst replay_loop.simps) (simp add: new_db_def)
  moreover have "db_columns (new_db cr op) =
      map (\<lambda>i. Hash (new_column (of_nat i) op (new_metadata cr op))) [0..<length (op_columns op)]"
    by (simp add: new_db_def)
  ultimately have "replay_all_logs cr (new_db cr op) = Some (Inr (new_db cr op))"
    by (simp add: replay_all_logs_def refresh_new_columns cret_def)
  then show ?thesis by (simp add: db_open_inner_def v db_inner_open_new[OF assms])
qed

lemma new_column_of: "column_of col (new_column col op md)"
  by (auto simp: column_of_def tables_of_def new_column_def Let_def new_table_def index_create_new_def)

lemma db_inv_new:
  assumes "hash_options cr op"
  shows "db_inv cr (new_db cr op) (\<lambda>_. Map.empty)"
proof -
  let ?db = "new_db cr op" and ?md = "new_metadata cr op" and ?q = "overlays_query empty_overlays"
  have q: "q_index ?q t i = None" "wf_query ?q" for t i
    by (simp_all add: wf_query_def overlays_query_def empty_overlays_def index_lookup_def)
  have c: "db_columns ?db ! i = Hash (new_column (of_nat i) op ?md)" if "i < length (op_columns op)" for i
    using that by (simp add: new_db_def)
  have l: "length (db_columns ?db) = length (op_columns op)" "lg_overlays (db_log ?db) = empty_overlays"
    by (simp_all add: new_db_def new_log_def)
  have "cols_rep (cr_codecs cr) (db_columns ?db) ?q (\<lambda>_. Map.empty)"
    using assms q(2) c col_rep_new[OF q(1,2)] new_column_of
    by (auto simp: cols_rep_def l hash_options_def col_ok_def)
  moreover have "options_match ?db"
    unfolding options_match_def
  proof (intro allI impI)
    fix i assume a: "i < length (db_columns ?db)"
    then have hc: "db_columns ?db ! i = Hash (new_column (of_nat i) op ?md)" using c l(1) by auto
    have "i < 256" using a(1) l(1) assms by (simp add: hash_options_def)
    then have "unat (of_nat i :: u8) = i" by (simp add: unat_of_nat)
    then show "case db_columns ?db ! i of Hash hc \<Rightarrow> column_matches ?db i hc
       | Tree _ \<Rightarrow> i < length (op_columns (db_options ?db)) \<and> co_btree_index (op_columns (db_options ?db) ! i)"
      using assms a(1) unfolding l(1) hc column.case
      by (auto simp: column_matches_def new_column_def Let_def new_db_def hash_options_def new_metadata_def)
  qed
  moreover have "queue_inv ?db"
    by (simp add: queue_inv_def new_db_def commit_overlay_new_def)
  ultimately show ?thesis unfolding db_inv_def l(2) by blast
qed

section \<open>Properties\<close>

text \<open>
  C23: Creating a database of hash columns in an empty directory succeeds, and every lookup in it
  returns nothing.
\<close>

theorem db_create_empty:
  assumes "hash_options cr op"
  shows "\<exists>db. db_open_inner cr op True False no_files = Some (Inr db) \<and> db_inv cr db (\<lambda>_. Map.empty) \<and>
     (\<forall>i hc key k. hash_at db i hc \<longrightarrow> column_hash_key (cr_blake2b cr) hc key = Inr k \<longrightarrow>
        db_lookup cr i key db = Some (Inr None))"
proof -
  have "shown rc (cq_commits (db_commit_queue (new_db cr op))) c Map.empty k = None" for rc c k
    by (simp add: shown_def new_db_def)
  then show ?thesis
    using db_open_new[OF assms] db_inv_new[OF assms] db_lookup_shown[OF db_inv_new[OF assms]] by auto
qed

definition sample_crates :: crates where
  "sample_crates = \<lparr>cr_crc = (\<lambda>_. 0), cr_blake2b = (\<lambda>_ k. take 32 (k @ replicate 32 0)), cr_codecs = no_codec,
     cr_hex_encode = (\<lambda>_. []), cr_hex_decode = (\<lambda>_. None), cr_random_salt = replicate 32 0\<rparr>"

lemma sample_hash_options: "hash_options sample_crates (with_columns 1)"
  by (simp add: hash_options_def with_columns_def column_options_default_def new_metadata_def sample_crates_def)

lemma sample_codecs: "codecs_ok (cr_codecs sample_crates)"
  by (simp add: sample_crates_def no_codec_ok)

abbreviation sample_db :: db_inner where
  "sample_db \<equiv> new_db sample_crates (with_columns 1)"

abbreviation sample_hc :: hash_column where
  "sample_hc \<equiv> new_column 0 (with_columns 1) (new_metadata sample_crates (with_columns 1))"

lemma sample_db_column: "db_columns sample_db = [Hash sample_hc]"
  by (simp add: new_db_def with_columns_def)

lemma sample_hash_at: "hash_at sample_db 0 sample_hc"
  unfolding hash_at_def sample_db_column by simp

lemma sample_plain: "\<not> hc_ref_counted sample_hc" "\<not> hc_preimage sample_hc"
  by (simp_all add: new_column_def Let_def new_metadata_def with_columns_def column_options_default_def)

lemma sample_hash: "column_hash_key (cr_blake2b sample_crates) sample_hc (replicate 32 5) = Inr (replicate 32 5)"
  by (simp add: column_hash_key_def hash_key_def new_column_def Let_def new_metadata_def with_columns_def
      column_options_default_def sample_crates_def KEY_SIZE_def)

theorem db_create_empty_witness:
  "\<exists>db. db_open_inner sample_crates (with_columns 1) True False no_files = Some (Inr db) \<and>
     db_lookup sample_crates 0 (replicate 32 5) db = Some (Inr None)"
proof -
  from db_create_empty[OF sample_hash_options] obtain db where d:
      "db_open_inner sample_crates (with_columns 1) True False no_files = Some (Inr db)"
      "\<forall>i hc key k. hash_at db i hc \<longrightarrow> column_hash_key (cr_blake2b sample_crates) hc key = Inr k \<longrightarrow>
        db_lookup sample_crates i key db = Some (Inr None)" by blast
  have "db = sample_db" using d(1) db_open_new[OF sample_hash_options] by simp
  then show ?thesis using d sample_hash_at sample_hash by blast
qed

text \<open>
  C1: A commit is visible as soon as it returns, in every column. A lookup of a key that the
  transaction changes returns the last value it gives the key, or nothing when that is a deletion;
  a lookup of any other key returns what it returned before. In a column with reference counts
  deletions are not shown: there the last stored value counts, and a key that the transaction only
  deletes keeps its answer. The commit leaves the maps that the columns store, where they store any.
\<close>

theorem db_commit_get:
  assumes "commits_inv db" and "db_bg_err db = None" and "tx_ok cr db tx"
    and "unat (cq_record_id (db_commit_queue db)) + 2 < 2 ^ 64"
  shows "\<exists>db'. db_commit cr tx db = Inr db' \<and> commits_inv db' \<and> (\<forall>Ms. db_inv cr db Ms \<longrightarrow> db_inv cr db' Ms) \<and>
     (\<forall>i key k. i < length (db_columns db) \<longrightarrow> lookup_key cr db i key = Inr k \<longrightarrow>
        db_lookup cr i key db' =
          (case last_change (co_ref_counted (op_columns (db_options db) ! i)) (tx_changes cr db tx (of_nat i)) k of
             Some v \<Rightarrow> Some (Inr v) | None \<Rightarrow> db_lookup cr i key db))"
proof -
  obtain db' where c: "db_commit cr tx db = Inr db'" "commits_inv db'" "db_columns db' = db_columns db"
      "db_log db' = db_log db"
      "\<forall>i k. i < length (db_columns db) \<longrightarrow> overlay_answer db' i k =
        (case last_change (co_ref_counted (op_columns (db_options db) ! i)) (tx_changes cr db tx (of_nat i)) k of
           Some v \<Rightarrow> Some v | None \<Rightarrow> overlay_answer db i k)"
    using db_commit_rep[OF assms] by blast
  have len: "length (db_commit_overlay d) = length (db_columns d)" "length (db_columns d) \<le> 256"
    if "commits_inv d" for d using that by (simp_all add: commits_inv_def queue_inv_def)
  have "db_lookup cr i key db' =
      (case last_change (co_ref_counted (op_columns (db_options db) ! i)) (tx_changes cr db tx (of_nat i)) k of
         Some v \<Rightarrow> Some (Inr v) | None \<Rightarrow> db_lookup cr i key db)"
    if a: "i < length (db_columns db)" "lookup_key cr db i key = Inr k" for i key k
  proof -
    have k': "lookup_key cr db' i key = Inr k" using a(2) c(3) by (simp add: lookup_key_def)
    have "column_answer cr db' i k = column_answer cr db i k" using c(3,4) by (simp add: column_answer_def)
    then show ?thesis
      using db_lookup_answers[OF a(1) _ len(1)[OF assms(1)] a(2)] db_lookup_answers[OF _ _ len(1)[OF c(2)] k']
        a(1) c(3,5) len(2)[OF c(2)] by (auto split: option.split)
  qed
  then show ?thesis using c(1,2) db_inv_same[OF _ c(2-4)] by blast
qed

lemma sample_options: "op_columns (db_options sample_db) = [column_options_default]"
  by (simp add: new_db_def with_columns_def)

lemma sample_tx_ok: "tx_ok sample_crates sample_db [(0, replicate 32 5, Some [1, 2, 3])]"
  by (simp add: tx_ok_def sample_db_column tx_ordered_def tx_hash_def hash_key_def sample_crates_def KEY_SIZE_def Let_def)
    (simp add: new_db_def with_columns_def column_options_default_def)

lemma sample_tx_changes:
  "tx_changes sample_crates sample_db [(0, replicate 32 5, Some [1, 2, 3])] 0 = [(replicate 32 5, Some [1, 2, 3])]"
  by (simp add: tx_changes_def tx_key_def tx_ordered_def tx_hash_def hash_key_def sample_crates_def KEY_SIZE_def Let_def)
    (simp add: new_db_def with_columns_def column_options_default_def)

theorem db_commit_get_witness:
  "\<exists>db'. db_commit sample_crates [(0, replicate 32 5, Some [1, 2, 3])] sample_db = Inr db' \<and>
     db_lookup sample_crates 0 (replicate 32 5) db' = Some (Inr (Some [1, 2, 3]))"
proof -
  have "db_bg_err sample_db = None" "unat (cq_record_id (db_commit_queue sample_db)) + 2 < 2 ^ 64"
    by (simp_all add: new_db_def)
  note t = db_commit_get[OF db_inv_commits[OF db_inv_new[OF sample_hash_options]] this(1) sample_tx_ok this(2)]
  have "lookup_key sample_crates sample_db 0 (replicate 32 5) = Inr (replicate 32 5)"
    using sample_hash sample_hash_at by (simp add: lookup_key_def hash_at_def)
  moreover have "0 < length (db_columns sample_db)" using sample_hash_at by (simp add: hash_at_def)
  ultimately show ?thesis
    using t by (fastforce simp: sample_tx_changes sample_options column_options_default_def last_change_def)
qed

text \<open>
  C2: Writing the oldest commit of the queue to the log, when it changes hash columns only, no index
  is being rebuilt and none has to grow, returns and moves the commit from the queue and the commit
  overlay into the tables, as the log shows them: each hash column then stores its map with the
  changes of the commit applied in order, and a lookup returns the change of a commit that still
  waits, or else what is stored. In a column without reference counts and without \<open>preimage\<close> no
  lookup can tell: every key keeps the answer it had.
\<close>

theorem db_process_commits_get:
  assumes "db_inv cr db Ms" and "codecs_ok (cr_codecs cr)"
    and "cq_commits (db_commit_queue db) = cm # cms" and "cs_btree_indexed (cm_changeset cm) = []"
    and "plan_fits (cr_codecs cr) (cs_indexed (cm_changeset cm)) (fst (begin_record (db_log db))) db"
  shows "\<exists>db' Ms'. process_commits cr db = Some (Inr (True, db')) \<and> db_inv cr db' Ms' \<and>
     cq_commits (db_commit_queue db') = cms \<and>
     (\<forall>i hc. hash_at db i hc \<longrightarrow>
        Ms' i = changes_spec (hc_ref_counted hc) (hc_preimage hc) (commit_changes cm (of_nat i)) (Ms i)) \<and>
     (\<forall>i hc key k. hash_at db i hc \<longrightarrow> column_hash_key (cr_blake2b cr) hc key = Inr k \<longrightarrow>
        db_lookup cr i key db = Some (Inr (shown (hc_ref_counted hc) (cm # cms) (of_nat i) (Ms i) k)) \<and>
        db_lookup cr i key db' = Some (Inr (shown (hc_ref_counted hc) cms (of_nat i) (Ms' i) k)) \<and>
        (\<not> hc_ref_counted hc \<longrightarrow> \<not> hc_preimage hc \<longrightarrow> db_lookup cr i key db' = db_lookup cr i key db))"
proof -
  obtain db' Ms' where p: "process_commits cr db = Some (Inr (True, db'))" "db_inv cr db' Ms'"
      "list_all2 same_kind (db_columns db) (db_columns db')" "cq_commits (db_commit_queue db') = cms"
      "\<forall>i hc. hash_at db i hc \<longrightarrow>
        Ms' i = changes_spec (hc_ref_counted hc) (hc_preimage hc) (commit_changes cm (of_nat i)) (Ms i)"
    using process_commits_rep[OF assms] by blast
  have after: "db_lookup cr i key db' = Some (Inr (shown (hc_ref_counted hc) cms (of_nat i) (Ms' i) k))"
    if a: "hash_at db i hc" "column_hash_key (cr_blake2b cr) hc key = Inr k" for i hc key k
  proof -
    have "same_kind (db_columns db ! i) (db_columns db' ! i)" "length (db_columns db) = length (db_columns db')"
      using p(3) a(1) by (auto simp: list_all2_conv_all_nth hash_at_def)
    then obtain hc' where h: "hash_at db' i hc'" "same_column hc hc'"
      using same_kind_Hash[of hc "db_columns db' ! i"] a(1) by (auto simp: hash_at_def)
    then have "column_hash_key (cr_blake2b cr) hc' key = Inr k" "hc_ref_counted hc' = hc_ref_counted hc"
      using a by (auto simp: column_hash_key_def same_column_fields)
    with db_lookup_shown[OF p(2) h(1)] show ?thesis by (simp add: p(4))
  qed
  have same: "shown False cms c (changes_spec False False (commit_changes cm c) M) k = shown False (cm # cms) c M k" for c M k
    by (auto simp: shown_def changes_spec_plain split: option.split)
  have "db_lookup cr i key db = Some (Inr (shown (hc_ref_counted hc) (cm # cms) (of_nat i) (Ms i) k)) \<and>
      db_lookup cr i key db' = Some (Inr (shown (hc_ref_counted hc) cms (of_nat i) (Ms' i) k)) \<and>
      (\<not> hc_ref_counted hc \<longrightarrow> \<not> hc_preimage hc \<longrightarrow> db_lookup cr i key db' = db_lookup cr i key db)"
    if a: "hash_at db i hc" "column_hash_key (cr_blake2b cr) hc key = Inr k" for i hc key k
    using after[OF a] db_lookup_shown[OF assms(1) a] p(5)[rule_format, OF a(1)] same by (simp add: assms(3))
  then show ?thesis using p(1,2,4,5) by blast
qed

abbreviation sample_commit :: commit where
  "sample_commit \<equiv> \<lparr>cm_id = 2, cm_bytes = 35,
     cm_changeset = \<lparr>cs_indexed = [(0, [(replicate 32 5, Some [1, 2, 3])])], cs_btree_indexed = []\<rparr>\<rparr>"

lemma sample_committed:
  "db_commit sample_crates [(0, replicate 32 5, Some [1, 2, 3])] sample_db = Inr (sample_db
     \<lparr>db_commit_queue := \<lparr>cq_record_id = 1, cq_bytes = 35, cq_commits = [sample_commit]\<rparr>,
      db_commit_overlay := [\<lparr>cv_indexed = [(replicate 32 5, 2, Some [1, 2, 3])], cv_btree_indexed = []\<rparr>]\<rparr>)"
  by (simp add: db_commit_def commit_raw_def hash_key_def sample_crates_def KEY_SIZE_def Let_def commit_overlays_def
      push_change_def alist_or_default_def column_ref_counted_def indexed_copy_to_overlay_def changeset_bytes_def
      change_bytes_def new_db_def with_columns_def column_options_default_def commit_overlay_new_def)

lemma new_column_room:
  assumes "n < 4000000"
  shows "slots_room (new_column col op md) n"
    and "home_room (new_column col op md) (writer_query (log_writer_new empty_overlays rid)) k"
proof -
  have "q_index (overlays_query empty_overlays) t i = None" for t i
    by (simp add: overlays_query_def empty_overlays_def index_lookup_def)
  then show "home_room (new_column col op md) (writer_query (log_writer_new empty_overlays rid)) k"
    by (auto simp: home_room_def new_column_index writer_query_new entry_is_empty_def CHUNK_ENTRIES_def)
  show "slots_room (new_column col op md) n"
    using assms by (auto simp: slots_room_def new_column_def Let_def new_table_def index_create_new_def MIN_INDEX_BITS_def)
qed

theorem db_process_commits_get_witness:
  "\<exists>db db'. db_commit sample_crates [(0, replicate 32 5, Some [1, 2, 3])] sample_db = Inr db \<and>
     process_commits sample_crates db = Some (Inr (True, db')) \<and> cq_commits (db_commit_queue db') = [] \<and>
     db_lookup sample_crates 0 (replicate 32 5) db' = Some (Inr (Some [1, 2, 3]))"
proof -
  let ?tx = "[(0, replicate 32 5, Some [1, 2, 3])]" and ?k = "replicate 32 5"
  note inv = db_inv_new[OF sample_hash_options]
  have "db_bg_err sample_db = None" "unat (cq_record_id (db_commit_queue sample_db)) + 2 < 2 ^ 64"
    by (simp_all add: new_db_def)
  from db_commit_rep[OF db_inv_commits[OF inv] this(1) sample_tx_ok this(2)]
  obtain db where db: "db_commit sample_crates ?tx sample_db = Inr db" "db_inv sample_crates db (\<lambda>_. Map.empty)"
      "db_columns db = db_columns sample_db" by (blast intro: db_inv_same[OF inv])
  from db have q: "cq_commits (db_commit_queue db) = [sample_commit]" "db_log db = new_log True"
    using sample_committed by (auto simp: new_db_def with_columns_def)
  have h: "hash_at db 0 sample_hc" using sample_hash_at db(3) by (simp add: hash_at_def)
  have room: "slots_room sample_hc 3" "home_room sample_hc (writer_query (log_writer_new empty_overlays 1)) ?k"
    using new_column_room[of 3] by simp_all
  then have "slots_room sample_hc (Suc (Suc (Suc 0)))" by (simp add: numeral_3_eq_3)
  have "plan_fits (cr_codecs sample_crates) (cs_indexed (cm_changeset sample_commit)) (fst (begin_record (db_log db))) db"
    using room(2) \<open>slots_room sample_hc (Suc (Suc (Suc 0)))\<close> by (simp add: q(2) begin_record_def new_log_def db(3) sample_db_column split: option.split sum.split prod.split)
  from db_process_commits_get[OF db(2) sample_codecs q(1) _ this] obtain db' Ms' where p:
      "process_commits sample_crates db = Some (Inr (True, db'))" "cq_commits (db_commit_queue db') = []"
      "\<forall>i hc key k. hash_at db i hc \<longrightarrow> column_hash_key (cr_blake2b sample_crates) hc key = Inr k \<longrightarrow>
        db_lookup sample_crates i key db =
          Some (Inr (shown (hc_ref_counted hc) [sample_commit] (of_nat i) Map.empty k)) \<and>
        db_lookup sample_crates i key db' = Some (Inr (shown (hc_ref_counted hc) [] (of_nat i) (Ms' i) k)) \<and>
        (\<not> hc_ref_counted hc \<longrightarrow> \<not> hc_preimage hc \<longrightarrow> db_lookup sample_crates i key db' = db_lookup sample_crates i key db)"
    by auto
  have "shown False [sample_commit] 0 Map.empty ?k = Some [1, 2, 3]"
    by (simp add: shown_def commit_changes_def alist_or_default_def last_change_def)
  with p(3)[rule_format, OF h sample_hash] sample_plain db(1) p(1,2) show ?thesis by auto
qed

text \<open>
  C38: The first error of a worker is final: after it is stored, whatever the other workers still
  do, the database stays in shutdown, every commit returns that error and changes nothing, and
  closing the database leaves the logs as they are.
\<close>

theorem db_first_error_kept:
  assumes "db_bg_err db = None" and "(db_step cr)\<^sup>*\<^sup>* (store_err (Inl (Err e)) db) db'"
  shows "db_shutdown db' \<and> commit_raw cs db' = Inl (Err (Background e)) \<and>
     store_err (Inl (Err e2)) db' = db' \<and> kill_logs cr db' = Some (Inr db') \<and>
     (build_commit cr (db_options db') (db_version db') tx \<lparr>cs_indexed = [], cs_btree_indexed = []\<rparr> = Inr cs2 \<longrightarrow>
        db_commit cr tx db' = Inl (Err (Background e)))"
proof -
  have "settings db' = settings (store_err (Inl (Err e)) db)"
    using steps_keep_error[OF assms(2)] assms(1) by (simp add: store_err_def shutdown_def)
  then have "db_bg_err db' = Some e" "db_shutdown db'"
    using assms(1) by (simp_all add: settings_def store_err_def shutdown_def)
  then show ?thesis by (simp add: db_commit_def commit_raw_def store_err_def kill_logs_def cret_def)
qed

theorem db_first_error_kept_witness:
  "kill_logs sample_crates (store_err (Inl (Err (Io UnexpectedEof))) sample_db) =
     Some (Inr (store_err (Inl (Err (Io UnexpectedEof))) sample_db))"
  using db_first_error_kept[of sample_db sample_crates "Io UnexpectedEof"] by (simp add: new_db_def)

text \<open>
  C39: A log record that replay does not accept, because of its number, a damaged entry or its
  checksum, leaves no trace: no value table and no index of any column is changed or created, no commit
  is lost, and no record counts as enacted.
\<close>

theorem db_refused_record_keeps_files:
  assumes "enact_logs cr True db = Some (Inr (False, db'))"
  shows "db_columns db' = db_columns db \<and> db_last_enacted db' = db_last_enacted db \<and>
     db_commit_overlay db' = db_commit_overlay db \<and> db_commit_queue db' = db_commit_queue db"
proof -
  have ref: "db_columns d' = db_columns d \<and> db_last_enacted d' = db_last_enacted d \<and>
      db_commit_overlay d' = db_commit_overlay d \<and> db_commit_queue d' = db_commit_queue d"
    if "refuse_logs d = Some (Inr (b, d'))" for d d' b
    using that by (auto simp: refuse_logs_def rbind_Inr_iff)
  have rec: "enact_record cr True r d \<noteq> Some (Inr (False, d'))" for r d d'
    by (auto simp: enact_record_def cret_def Let_def elim!: cbind_InrE)
  have val: "db_columns d' = db_columns d \<and> db_last_enacted d' = db_last_enacted d \<and>
      db_commit_overlay d' = db_commit_overlay d \<and> db_commit_queue d' = db_commit_queue d"
    if v: "validate_record cr r d = Some (Inr (False, d'))" for r d d'
  proof (cases "lr_record_id r = db_last_enacted d + 1")
    case True
    then obtain x cols where l: "validate_loop (cr_crc cr) r (db_columns d) = Some (Inr (x, cols))"
      using v by (auto simp: validate_record_def elim!: cbind_InrE)
    then have "refuse_logs (d\<lparr>db_columns := cols\<rparr>) = Some (Inr (False, d'))"
      using v True rec by (auto simp: validate_record_def Let_def elim!: cbind_InrE split: option.splits)
    from ref[OF this] validate_loop_keeps[OF l] show ?thesis by simp
  qed (use v ref in \<open>auto simp: validate_record_def\<close>)
  show ?thesis
    using assms
    by (auto simp: enact_logs_def cret_def split: sum.splits fail.splits error.splits option.splits dest!: ref val)
qed

text \<open>A log file whose first record has an entry of an unknown type.\<close>

abbreviation damaged_log :: log_state where
  "damaged_log \<equiv> (new_log True)\<lparr>lg_disk := [0], lg_reading_state := Reading,
     lg_reading := Some \<lparr>rd_id = 0, rd_file = [BEGIN_RECORD] @ le64 2 @ [77], rd_pos = 0\<rparr>\<rparr>"

theorem db_refused_record_keeps_files_witness:
  "\<exists>db'. enact_logs sample_crates True (sample_db\<lparr>db_log := damaged_log\<rparr>) = Some (Inr (False, db')) \<and>
     db_columns db' = db_columns sample_db"
proof -
  define start where "start = log_reader_new ([BEGIN_RECORD] @ le64 2 @ [77]) 0 True"
  define r where "r = (advance ([BEGIN_RECORD] @ le64 2) start)\<lparr>lr_record_id := 2\<rparr>"
  have "reader_at start (([BEGIN_RECORD] @ le64 2) @ [77])" by (simp add: start_def reader_at_def log_reader_new_def)
  from reader_next_begin[OF this, of "cr_crc sample_crates"]
  have n: "reader_next (cr_crc sample_crates) start = Inr (BeginRecord, r)" by (simp add: r_def)
  have "reader_at r ([77] @ [])"
    by (simp add: r_def start_def reader_at_def advance_def advance_raw_def log_reader_new_def)
  from reader_read_at[OF this, of 1] have t: "reader_read (Suc 0) r = Inr ([77], advance [77] r)" by simp
  have "validate_step (cr_crc sample_crates) r cols = cret (Inl (None, cols))" for cols
    by (simp add: validate_step_def reader_next_def t log_tags)
  then have "validate_loop (cr_crc sample_crates) r cols = Some (Inr (None, cols))" for cols
    by (subst validate_loop.simps) (simp add: cret_def)
  then have "\<exists>db'. enact_logs sample_crates True (sample_db\<lparr>db_log := damaged_log\<rparr>) = Some (Inr (False, db'))"
    using n unfolding start_def
    by (simp add: enact_logs_def read_next_def validate_record_def new_db_def refuse_logs_def
        clear_replay_logs_def drop_log_def new_log_def r_def Let_def)
  then show ?thesis using db_refused_record_keeps_files by fastforce
qed

end
