(* ===== verification/Migration.thy ===== *)
theory Migration
  imports Db_Correct
begin

text \<open>
  Migration of a database to other column options (\<^verbatim>\<open>src/src/migration.rs\<close>): which columns are migrated,
  how the entries of a column are turned into commits of the destination, and how the files of a column
  are moved or copied. Closing and reopening the two databases between the columns joins their worker
  threads and is not modelled.
\<close>

section \<open>Which columns are migrated\<close>

definition COMMIT_SIZE :: nat where "COMMIT_SIZE = 10240"

definition add_column :: "u8 \<Rightarrow> u8 list \<Rightarrow> u8 list" where
  "add_column c cs = (if c \<in> set cs then cs else cs @ [c])"

text \<open>
  The start of \<open>migrate\<close>: the options of the source, those of the destination with the salt of the
  source, and the set of the columns to migrate.
\<close>

definition migrate_setup :: "(string \<Rightarrow> bytes option) \<Rightarrow> string option \<Rightarrow> options \<Rightarrow> u8 list \<Rightarrow>
    (options \<times> options \<times> u8 list) res" where
  "migrate_setup hex_decode from to force_migrate =
     rbind (load_metadata_file hex_decode from) (\<lambda>meta.
     rbind (case meta of Some m \<Rightarrow> Inr m | None \<Rightarrow> Inl (Err (Migration ''Error loading source metadata''))) (\<lambda>source_meta.
       let to_migrate = fold add_column force_migrate (columns_to_migrate source_meta)
       in if length (md_columns source_meta) \<noteq> length (op_columns to)
          then Inl (Err (Migration ''Source and dest columns mismatch''))
          else
            let to = to\<lparr>op_salt := Some (md_salt source_meta)\<rparr>;
                source_options = (with_columns (of_nat (length (md_columns source_meta))))
                  \<lparr>op_salt := Some (md_salt source_meta), op_columns := md_columns source_meta\<rparr>;
                differ = filter (\<lambda>c. op_columns source_options ! c \<noteq> op_columns to ! c) [0..<length (op_columns source_options)]
            in Inr (source_options, to, fold add_column (map of_nat differ) to_migrate)))"

section \<open>The entries of a column\<close>

record migration =
  mg_commit :: commit_change_set
  mg_nb_commit :: nat
  mg_ncommits :: u64
  mg_dest :: db_inner

definition empty_changes :: commit_change_set where
  "empty_changes = \<lparr>cs_indexed = [], cs_btree_indexed = []\<rparr>"

definition push_value_change :: "u8 \<Rightarrow> bytes \<Rightarrow> bytes \<Rightarrow> commit_change_set \<Rightarrow> commit_change_set" where
  "push_value_change c key val cs = cs\<lparr>cs_indexed := push_change c (key, Some val) (cs_indexed cs)\<rparr>"

text \<open>
  The loop over the references of an entry. The value is taken out of the entry in the first round;
  a commit of the destination that fails ends the iteration.
\<close>

fun migrate_refs :: "u8 \<Rightarrow> bytes \<Rightarrow> nat \<Rightarrow> bytes \<Rightarrow> migration \<Rightarrow> bool \<times> migration res" where
  "migrate_refs c key 0 val s = (True, Inr s)"
| "migrate_refs c key (Suc n) val s =
     (let s = s\<lparr>mg_commit := push_value_change c key val (mg_commit s), mg_nb_commit := mg_nb_commit s + 1\<rparr>
      in if mg_nb_commit s = COMMIT_SIZE then
           let s = s\<lparr>mg_ncommits := mg_ncommits s + 1\<rparr>
           in case commit_raw (mg_commit s) (mg_dest s) of
                Inl (Err e) \<Rightarrow> (False, Inr (s\<lparr>mg_commit := empty_changes\<rparr>))
              | Inl f \<Rightarrow> (False, Inl f)
              | Inr db \<Rightarrow> migrate_refs c key n [] (s\<lparr>mg_commit := empty_changes, mg_nb_commit := 0, mg_dest := db\<rparr>)
         else migrate_refs c key n [] s)"

definition migrate_item :: "u8 \<Rightarrow> iter_state \<Rightarrow> migration res \<Rightarrow> bool \<times> migration res" where
  "migrate_item c item rs =
     (case rs of Inl f \<Rightarrow> (False, Inl f) | Inr s \<Rightarrow> migrate_refs c (is_key item) (unat (is_rc item)) (is_value item) s)"

definition migrate_column :: "crates \<Rightarrow> u8 \<Rightarrow> db_inner \<Rightarrow> migration \<Rightarrow> migration comp" where
  "migrate_column cr c source s = cbind (db_iter_column_while cr c (migrate_item c) source (Inr s)) (\<lambda>rs. Some rs)"

text \<open>All columns in turn, when each is migrated and the source is not overwritten; then the last commit.\<close>

fun migrate_columns :: "crates \<Rightarrow> u8 list \<Rightarrow> db_inner \<Rightarrow> migration \<Rightarrow> migration comp" where
  "migrate_columns cr [] source s = cret s"
| "migrate_columns cr (c # cs) source s = cbind (migrate_column cr c source s) (\<lambda>s. migrate_columns cr cs source s)"

definition migrate_into :: "crates \<Rightarrow> u8 list \<Rightarrow> db_inner \<Rightarrow> db_inner \<Rightarrow> db_inner comp" where
  "migrate_into cr cs source dest =
     cbind (migrate_columns cr cs source \<lparr>mg_commit = empty_changes, mg_nb_commit = 0, mg_ncommits = 0, mg_dest = dest\<rparr>) (\<lambda>s.
       Some (commit_raw (mg_commit s) (mg_dest s)))"

section \<open>The files of a column\<close>

definition deplace_column :: "u8 \<Rightarrow> bool \<Rightarrow> db_files \<Rightarrow> db_files \<Rightarrow> db_files \<times> db_files" where
  "deplace_column c copy from to =
     (let to' = to\<lparr>df_values := (\<lambda>i. if value_id_col i = c \<and> df_values from i \<noteq> None then df_values from i else df_values to i),
                   df_indexes := (\<lambda>i. if index_id_col i = c \<and> df_indexes from i \<noteq> None then df_indexes from i else df_indexes to i)\<rparr>;
          from' = (if copy then from
                   else from\<lparr>df_values := (\<lambda>i. if value_id_col i = c then None else df_values from i),
                             df_indexes := (\<lambda>i. if index_id_col i = c then None else df_indexes from i)\<rparr>)
      in (from', to'))"

definition move_column :: "u8 \<Rightarrow> db_files \<Rightarrow> db_files \<Rightarrow> db_files \<times> db_files" where
  "move_column c from to = deplace_column c False from to"

definition copy_column :: "u8 \<Rightarrow> db_files \<Rightarrow> db_files \<Rightarrow> db_files \<times> db_files" where
  "copy_column c from to = deplace_column c True from to"

section \<open>What reaches the destination\<close>

definition changes_of :: "u8 \<Rightarrow> migration \<Rightarrow> change_set" where
  "changes_of c s = alist_or_default (cs_indexed (mg_commit s)) c"

lemma push_value_changes: "alist_or_default (cs_indexed (push_value_change c key val cs)) c = alist_or_default (cs_indexed cs) c @ [(key, Some val)]"
  by (simp add: push_value_change_def push_change_def alist_or_default_def)

lemma migrate_refs_is:
  "mg_nb_commit s + n < COMMIT_SIZE \<Longrightarrow> \<exists>s'. migrate_refs c key n val s = (True, Inr s') \<and> mg_nb_commit s' = mg_nb_commit s + n \<and> mg_dest s' = mg_dest s \<and>
     changes_of c s' = changes_of c s @ (if n = 0 then [] else (key, Some val) # replicate (n - 1) (key, Some []))"
proof (induction n arbitrary: val s)
  case (Suc n)
  let ?s = "s\<lparr>mg_commit := push_value_change c key val (mg_commit s), mg_nb_commit := mg_nb_commit s + 1\<rparr>"
  have "mg_nb_commit ?s + n < COMMIT_SIZE" using Suc.prems by simp
  from Suc.IH[OF this, of "[]"] obtain s' where s': "migrate_refs c key n [] ?s = (True, Inr s')" "mg_nb_commit s' = mg_nb_commit s + Suc n" "mg_dest s' = mg_dest s"
      "changes_of c s' = changes_of c ?s @ (if n = 0 then [] else (key, Some []) # replicate (n - 1) (key, Some []))"
    by auto
  have "migrate_refs c key (Suc n) val s = (True, Inr s')" using s'(1) Suc.prems by (simp add: Let_def)
  moreover have "changes_of c s' = changes_of c s @ (key, Some val) # replicate n (key, Some [])"
    using s'(4) by (cases n) (simp_all add: changes_of_def push_value_changes)
  ultimately show ?case using s'(2,3) by (intro exI[of _ s']) simp
qed (simp add: changes_of_def)

lemma repeated_spec:
  assumes "M key = Some (u, rc)" and "unat rc + n < 2 ^ 32 - 1"
  shows "fold (\<lambda>(k, v). column_spec counted preimage k v) (replicate n (key, Some [])) M key =
     Some (if counted \<or> preimage \<or> n = 0 then u else [], if counted then rc + of_nat n else if preimage \<or> n = 0 then rc else 1)"
  using assms
proof (induction n arbitrary: M u rc)
  case (Suc n)
  have nl: "rc \<noteq> LOCKED_REF" using Suc.prems(2) by (auto simp: LOCKED_REF_def)
  have "unat (rc + 1) + n < 2 ^ 32 - 1" using Suc.prems(2) by (simp add: unat_word_ariths)
  then have ?case if c: counted
  proof -
    have "column_spec counted preimage key (Some []) M = M(key \<mapsto> (u, rc + 1))" using Suc.prems(1) nl c by (simp add: column_spec_def inc_count_def)
    then obtain M' where M': "column_spec counted preimage key (Some []) M = M'" "M' key = Some (u, rc + 1)" by simp
    show ?thesis using Suc.IH[of M' u "rc + 1", OF M'(2) \<open>unat (rc + 1) + n < _\<close>] M'(1) c by (simp add: funpow_swap1 algebra_simps)
  qed
  moreover have ?case if c: "\<not> counted" preimage
  proof -
    have "column_spec counted preimage key (Some []) M = M" using Suc.prems(1) c by (simp add: column_spec_def)
    then show ?thesis using Suc.IH[of M u rc] Suc.prems c by (simp add: funpow_swap1)
  qed
  moreover have ?case if c: "\<not> counted" "\<not> preimage"
  proof -
    have "column_spec counted preimage key (Some []) M = M(key \<mapsto> ([], 1))" using Suc.prems(1) c by (simp add: column_spec_def)
    then obtain M' where M': "column_spec counted preimage key (Some []) M = M'" "M' key = Some ([], 1)" by simp
    have "unat (1 :: u32) + n < 2 ^ 32 - 1" using Suc.prems(2) by simp
    from Suc.IH[of M' "[]" 1, OF M'(2) this] show ?thesis using M'(1) c by (simp add: funpow_swap1)
  qed
  ultimately show ?case by blast
qed simp

text \<open>
  C32: An entry with a reference count is migrated as one change with its value and one with an empty
  value for each further reference. A destination column that counts references ends with the value and
  the count of the source, and one that takes values as preimages with the value; a plain destination
  column keeps the value only when the count is one, and otherwise ends with the empty value.
\<close>

theorem migrate_counted_entry:
  assumes "0 < unat (is_rc item)" and "mg_nb_commit s + unat (is_rc item) < COMMIT_SIZE" and "M (is_key item) = None"
  shows "\<exists>s'. migrate_item c item (Inr s) = (True, Inr s') \<and>
     fold (\<lambda>(k, v). column_spec counted preimage k v) (drop (length (changes_of c s)) (changes_of c s')) M (is_key item) =
       Some (if counted \<or> preimage \<or> is_rc item = 1 then is_value item else [], if counted then is_rc item else 1)"
proof -
  let ?k = "is_key item" and ?n = "unat (is_rc item)"
  obtain s' where s': "migrate_refs c ?k ?n (is_value item) s = (True, Inr s')"
      "changes_of c s' = changes_of c s @ (?k, Some (is_value item)) # replicate (?n - 1) (?k, Some [])"
    using migrate_refs_is[OF assms(2), of c ?k "is_value item"] assms(1) by auto
  define M1 where "M1 = column_spec counted preimage ?k (Some (is_value item)) M"
  have M1: "M1 ?k = Some (is_value item, 1)" using assms(3) by (simp add: M1_def column_spec_def)
  have "unat (1 :: u32) + (?n - 1) < 2 ^ 32 - 1" using assms(1,2) by (simp add: COMMIT_SIZE_def)
  note r = repeated_spec[where M = M1 and rc = 1 and u = "is_value item" and counted = counted and preimage = preimage, OF M1 this]
  have "of_nat (Suc (?n - 1)) = is_rc item" using assms(1) by simp
  then have "1 + of_nat (?n - 1) = is_rc item" by simp
  moreover have "(?n = 1) = (is_rc item = 1)" by (simp add: word_unat_eq_iff)
  then have "(?n - 1 = 0) = (is_rc item = 1)" using assms(1) by linarith
  ultimately show ?thesis using s' r by (intro exI[of _ s']) (auto simp: migrate_item_def M1_def[symmetric])
qed

definition sample_item :: iter_state where
  "sample_item = \<lparr>is_chunk_index = 0, is_key = replicate 32 5, is_rc = 2, is_value = [1, 2, 3]\<rparr>"

theorem migrate_counted_entry_witness:
  "\<exists>s'. migrate_item 0 sample_item (Inr \<lparr>mg_commit = empty_changes, mg_nb_commit = 0, mg_ncommits = 0, mg_dest = sample_db\<rparr>) = (True, Inr s') \<and>
     fold (\<lambda>(k, v). column_spec False False k v) (changes_of 0 s') Map.empty (replicate 32 5) = Some ([], 1)"
  using migrate_counted_entry[of sample_item "\<lparr>mg_commit = empty_changes, mg_nb_commit = 0, mg_ncommits = 0, mg_dest = sample_db\<rparr>" Map.empty 0 False False]
  by (simp add: sample_item_def COMMIT_SIZE_def changes_of_def empty_changes_def alist_or_default_def)


end
