(* ===== verification/Table_Correct.thy ===== *)
theory Table_Correct
  imports Sample_States
begin

text \<open>
  The properties of the value table (\<^verbatim>\<open>src/src/table.rs\<close>), stated over its operations.
\<close>

text \<open>
  C9: Inserting a value gives a slot that was not in use; a lookup of that slot under the same key
  returns the value and its compression flag, over as many slots as it took, and every value
  stored before is still returned by the same lookup.
\<close>

theorem table_insert_get:
  assumes "represents t (writer_query w) m" and "wf_key key" and "fits t key v" and "room t v"
  shows "\<exists>i t' w'. table_write_insert_plan t key v w c = Some (Inr (i, t', w')) \<and> i \<notin> dom m \<and>
     table_get t' key i (writer_query w') = Some (Inr (Some (v, c))) \<and>
     (\<forall>j e k. m j = Some e \<longrightarrow> wf_key k \<longrightarrow> key_encoded_size k = key_encoded_size (sv_key e) \<longrightarrow>
        table_get t' k j (writer_query w') = table_get t k j (writer_query w))"
  using vt.insert_then_get[of t w m key v c] assms
  by (simp add: table_rep_def table_admits_def table_look_def)

theorem table_insert_get_witness:
  "\<exists>i t' w'. table_write_insert_plan (empty_table True) NoHash [1, 2, 3] empty_writer False
       = Some (Inr (i, t', w')) \<and>
     table_get t' NoHash i (writer_query w') = Some (Inr (Some ([1, 2, 3], False)))"
  using table_insert_get[OF represents_empty_table[of True "writer_query empty_writer"],
      of NoHash "[1, 2, 3]" False] admits_empty_table[of True]
  by (auto simp: wf_key_def table_admits_def)

text \<open>
  C10: Replacing the value of a slot in use stores the new value under the same slot number, when it
  needs more slots than the old one and when it needs fewer, and leaves every other stored value
  as it was.
\<close>

theorem table_replace_get:
  assumes "represents t (writer_query w) m" and "wf_key key" and "fits t key v" and "room t v"
    and "i \<in> dom m"
  shows "\<exists>t' w'. table_write_replace_plan t i key v w c = Some (Inr (t', w')) \<and>
     table_get t' key i (writer_query w') = Some (Inr (Some (v, c))) \<and>
     (\<forall>j e k. m j = Some e \<longrightarrow> j \<noteq> i \<longrightarrow> wf_key k \<longrightarrow>
        key_encoded_size k = key_encoded_size (sv_key e) \<longrightarrow>
        table_get t' k j (writer_query w') = table_get t k j (writer_query w))"
  using vt.replace_then_get[of t w m key v i c] assms
  by (simp add: table_rep_def table_admits_def table_look_def)

theorem table_replace_get_witness:
  "\<exists>t' w'. table_write_replace_plan (one_table True) 1 NoHash [4, 5] (one_writer True) True
       = Some (Inr (t', w')) \<and>
     table_get t' NoHash 1 (writer_query w') = Some (Inr (Some ([4, 5], True)))"
  using table_replace_get[OF represents_one_table[of True], of NoHash "[4, 5]" 1 True]
    admits_one_table[of True]
  by (auto simp: wf_key_def table_admits_def)

text \<open>
  C11: No slot is leaked or shared: after every insertion, replacement and removal each slot below
  \<open>filled\<close> is on the free list or belongs to the chain of exactly one stored value. In
  particular a value that is inserted and removed leaves a table that stores what it stored.
\<close>

theorem table_no_leak:
  assumes "represents t (writer_query w) m" and "wf_key key" and "fits t key v" and "room t v"
  shows "\<exists>i t' w' t'' w''. table_write_insert_plan t key v w c = Some (Inr (i, t', w')) \<and>
     represents t' (writer_query w') (m(i \<mapsto> fresh_entry key v c)) \<and>
     table_write_remove_plan t' i w' = Some (Inr (t'', w'')) \<and> represents t'' (writer_query w'') m"
proof -
  obtain i t' w' where i: "table_write_insert_plan t key v w c = Some (Inr (i, t', w'))" "i \<notin> dom m"
      "represents t' (writer_query w') (m(i \<mapsto> fresh_entry key v c))"
    using insert_represents[OF assms] unfolding fresh_entry_def by blast
  obtain t'' w'' where "table_write_remove_plan t' i w' = Some (Inr (t'', w''))"
      "represents t'' (writer_query w'') ((m(i \<mapsto> fresh_entry key v c))(i := None))"
    using remove_represents[OF i(3), of i] by auto
  moreover have "(m(i \<mapsto> fresh_entry key v c))(i := None) = m" using i(2) by auto
  ultimately show ?thesis using i by metis
qed

theorem table_no_leak_witness:
  "\<exists>i t' w' t'' w''. table_write_insert_plan (empty_table False) NoHash [1, 2, 3] empty_writer False
       = Some (Inr (i, t', w')) \<and>
     table_write_remove_plan t' i w' = Some (Inr (t'', w'')) \<and>
     represents t'' (writer_query w'') Map.empty"
  using table_no_leak[OF represents_empty_table[of False "writer_query empty_writer"],
      of NoHash "[1, 2, 3]" False] admits_empty_table[of False]
  by (auto simp: wf_key_def table_admits_def)

text \<open>
  C15: Releasing a reference removes the value exactly when its counter is one; otherwise the value
  stays with the counter decremented, and a counter that has reached \<open>LOCKED_REF\<close> no longer moves.
\<close>

theorem table_dec_ref:
  assumes "represents t (writer_query w) m" and "vt_ref_counted t" and "m i = Some e"
  shows "\<exists>t' w'. write_dec_ref t i w = Some (Inr (sv_rc e \<noteq> 1, t', w')) \<and>
     represents t' (writer_query w') (m(i := (if sv_rc e = 1 then None
        else Some (e\<lparr>sv_rc := (if sv_rc e = LOCKED_REF then LOCKED_REF else sv_rc e - 1)\<rparr>))))"
  using ct.dec_law[of t w m i e] assms by (auto simp: counted_rep_def)

theorem table_dec_ref_witness:
  "\<exists>t' w'. write_dec_ref (one_table True) 1 (one_writer True) = Some (Inr (False, t', w')) \<and>
     represents t' (writer_query w') Map.empty"
  using table_dec_ref[OF represents_one_table[of True], of 1 one_entry]
  by (auto simp: one_table_def empty_table_def one_entry_def fresh_entry_def)

text \<open>
  Taking a reference and releasing it gives back the table's contents, as long as the counter
  does not reach the lock.
\<close>

theorem table_inc_dec:
  assumes "represents t (writer_query w) m" and "vt_ref_counted t" and "m i = Some e"
    and "0 < sv_rc e" and "sv_rc e \<noteq> LOCKED_REF" and "sv_rc e + 1 \<noteq> LOCKED_REF"
  shows "\<exists>w' t'' w''. write_inc_ref t i w = Inr w' \<and>
     write_dec_ref t i w' = Some (Inr (True, t'', w'')) \<and> represents t'' (writer_query w'') m"
  using ct.inc_then_dec[of t w m i e] assms by (auto simp: counted_rep_def)

theorem table_inc_dec_witness:
  "\<exists>w' t'' w''. write_inc_ref (one_table True) 1 (one_writer True) = Inr w' \<and>
     write_dec_ref (one_table True) 1 w' = Some (Inr (True, t'', w'')) \<and>
     represents t'' (writer_query w'') [1 \<mapsto> one_entry]"
  using table_inc_dec[OF represents_one_table[of True], of 1 one_entry]
  by (auto simp: one_table_def empty_table_def one_entry_def fresh_entry_def LOCKED_REF_def)

text \<open>
  C12: Enacting the record of a slot ends (the file grows until it has the slot), consumes exactly
  the bytes that were planned, and keeps what the table stores, both while the overlay still
  shows the slot and after its overlay entry is gone: what was planned is what is on disk.
\<close>

theorem table_enact_durable:
  assumes "represents t q m" and "file_ok (vt_entry_size t) (vt_file t)"
    and "q_value q (vt_id t) i = Some d" and "valid_record t i d" and "reader_at r (d @ rest)"
    and "(unat (vt_filled t) + 1) * es t + 262144 < 2 ^ 64" and "i < vt_filled t"
    and "unat (tf_capacity (vt_file t)) * es t < 2 ^ 64"
  shows "\<exists>t'. table_enact_plan t i r = Some (Inr (t', advance d r)) \<and>
     represents t' q m \<and> represents t' (without_slot q (vt_id t) i) m"
  using enact_represents[OF assms] by blast

theorem table_enact_durable_witness:
  "\<exists>t'. table_enact_plan (one_table False) 1 (log_reader_new (one_record False) 0 False)
       = Some (Inr (t', advance (one_record False) (log_reader_new (one_record False) 0 False))) \<and>
     represents t' (without_slot (writer_query (one_writer False)) sample_id 1) [1 \<mapsto> one_entry]"
proof -
  have r: "reader_at (log_reader_new (one_record False) 0 False) (one_record False @ [])"
    by (simp add: reader_at_def log_reader_new_def)
  have q: "q_value (writer_query (one_writer False)) (vt_id (one_table False)) 1
      = Some (one_record False)" and i: "vt_id (one_table False) = sample_id"
    using one_query[of False] by (simp_all add: one_table_def empty_table_def)
  have "\<exists>t'. table_enact_plan (one_table False) 1 (log_reader_new (one_record False) 0 False)
       = Some (Inr (t', advance (one_record False) (log_reader_new (one_record False) 0 False))) \<and>
     represents t' (writer_query (one_writer False)) [1 \<mapsto> one_entry] \<and>
     represents t' (without_slot (writer_query (one_writer False)) (vt_id (one_table False)) 1) [1 \<mapsto> one_entry]"
    by (rule table_enact_durable[OF represents_one_table _ q one_valid r])
      (simp_all add: one_table_def empty_table_def file_ok_def)
  then show ?thesis unfolding i by blast
qed

end
