(* ===== verification/Index_Correct.thy ===== *)
theory Index_Correct
  imports Sample_States
begin

text \<open>
  The properties of the hash index (\<^verbatim>\<open>src/src/index.rs\<close>), stated over its operations.
\<close>

lemma full_or_empty:
  "length ents = CHUNK_ENTRIES \<Longrightarrow> \<exists>e\<in>set ents. entry_is_empty e \<Longrightarrow>
     \<exists>i < CHUNK_ENTRIES. entry_is_empty (ents ! i) \<and> (\<forall>j<i. \<not> entry_is_empty (ents ! j))"
proof -
  assume l: "length ents = CHUNK_ENTRIES" and "\<exists>e\<in>set ents. entry_is_empty e"
  then obtain k where k: "k < CHUNK_ENTRIES" "entry_is_empty (ents ! k)" by (auto simp: in_set_conv_nth)
  let ?i = "LEAST i. entry_is_empty (ents ! i)"
  have "entry_is_empty (ents ! ?i)" "?i \<le> k" using k(2) by (rule LeastI, rule Least_le)
  moreover have "\<not> entry_is_empty (ents ! j)" if "j < ?i" for j using that by (rule not_less_Least)
  moreover have "?i < CHUNK_ENTRIES" using \<open>?i \<le> k\<close> k(1) by (rule le_less_trans)
  ultimately show ?thesis by blast
qed

lemma entries_length: "index_entries t ci q = Inr ents \<Longrightarrow> length ents = CHUNK_ENTRIES"
  by (auto simp: index_entries_view rbind_Inr_iff)

text \<open>
  C13: Planning an insertion into a chunk with an empty entry succeeds: a lookup that starts at the
  entry's position returns it, its address is the one given, and neither another entry of the
  chunk nor another chunk changes.
\<close>

theorem index_insert_found:
  assumes "wf_index t" and "wf_query (writer_query w)"
    and "ci = chunk_index (it_id t) (index_from_partial key)"
    and "index_entries t ci (writer_query w) = Inr ents" and "\<exists>e\<in>set ents. entry_is_empty e"
    and "address_as_u64 a \<le> entry_last_address (it_bits t)" and "address_as_u64 a \<noteq> 0"
  shows "\<exists>i e w'. index_write_insert_plan t key a None w = Inr (Written, w') \<and>
     index_get t key i (writer_query w') = Inr (e, i) \<and> entry_address e (it_bits t) = a \<and>
     entry_is_empty (ents ! i) \<and> index_entries t ci (writer_query w') = Inr (ents[i := e]) \<and>
     (\<forall>cj. cj \<noteq> ci \<longrightarrow> index_entries t cj (writer_query w') = index_entries t cj (writer_query w))"
proof -
  let ?kp = "index_from_partial key"
  let ?e = "entry_new a (entry_extract_key ?kp (it_bits t)) (it_bits t)"
  have b: "valid_index_bits (it_bits t)" using assms(1) by (simp add: wf_index_def)
  obtain i where i: "i < CHUNK_ENTRIES" "entry_is_empty (ents ! i)" "\<forall>j<i. \<not> entry_is_empty (ents ! j)"
    using full_or_empty[OF entries_length[OF assms(4)] assms(5)] by blast
  obtain w' where w': "index_write_insert_plan t key a None w = Inr (Written, w')"
      "index_entries t ci (writer_query w') = Inr (ents[i := ?e])"
      "\<forall>cj. cj \<noteq> ci \<longrightarrow> index_entries t cj (writer_query w') = index_entries t cj (writer_query w)"
    using index_insert_spec(3)[OF assms(1,2) refl assms(3,4) assms(6) i] by blast
  obtain c where c: "chunk_view t (writer_query w') ci = Inr c" "transmute_chunk c = ents[i := ?e]"
    using w'(2) by (auto simp: index_entries_view rbind_Inr_iff)
  have r: "read_entry c i = ?e"
    using nth_transmute[OF i(1), of c] c(2) i(1) entries_length[OF assms(4)] by simp
  have a: "entry_address ?e (it_bits t) = a" by (rule entry_address_new[OF b assms(6)])
  have "\<not> entry_is_empty ?e"
  proof
    assume "entry_is_empty ?e"
    then have "entry_address ?e (it_bits t) = Address 0"
      by (simp add: entry_is_empty_def entry_address_def address_from_u64_def)
    then show False using a assms(7) by auto
  qed
  then have "find_entry (it_id t) ?kp i c = (?e, i)"
    using find_entry_hit[OF i(1), of c "it_id t" ?kp] r entry_partial_key_new[OF b assms(6)] by simp
  then have "index_get t key i (writer_query w') = Inr (?e, i)"
    using c(1) assms(3) by (simp add: index_get_view)
  then show ?thesis using w' a i(2) by blast
qed

theorem index_insert_found_witness:
  "\<exists>i e w'. index_write_insert_plan empty_index sample_key (address_new 5 3) None empty_writer
       = Inr (Written, w') \<and>
     index_get empty_index sample_key i (writer_query w') = Inr (e, i) \<and>
     entry_address e (it_bits empty_index) = address_new 5 3"
  using index_insert_found[OF wf_empty_index wf_empty_query refl empty_index_entries,
      of "address_new 5 3" sample_key]
  by (auto simp: entry_is_empty_def CHUNK_ENTRIES_def address_new_def shl64_def index_consts
      entry_last_address_def entry_address_bits_def empty_index_def index_create_new_def)

text \<open>
  C18: An insertion asks for a larger index exactly when the address does not fit in an entry or the
  chunk is full, and then leaves the log as it was.
\<close>

theorem index_insert_need_reindex:
  assumes "wf_index t" and "wf_query (writer_query w)"
    and "ci = chunk_index (it_id t) (index_from_partial key)"
    and "index_entries t ci (writer_query w) = Inr ents"
  shows "index_write_insert_plan t key a None w = Inr (NeedReindex, w') \<longleftrightarrow> w' = w \<and>
       (entry_last_address (it_bits t) < address_as_u64 a \<or> (\<forall>e\<in>set ents. \<not> entry_is_empty e))"
proof -
  note sp = index_insert_spec[OF assms(1,2) refl assms(3,4)]
  have w: "index_write_insert_plan t key a None w = Inr (NeedReindex, w)"
    if "entry_last_address (it_bits t) < address_as_u64 a \<or> (\<forall>e\<in>set ents. \<not> entry_is_empty e)"
    using that sp(1,2) by blast
  have n: "\<exists>w'. index_write_insert_plan t key a None w = Inr (Written, w')"
    if no: "\<not> (entry_last_address (it_bits t) < address_as_u64 a \<or> (\<forall>e\<in>set ents. \<not> entry_is_empty e))"
  proof -
    obtain i where "i < CHUNK_ENTRIES" "entry_is_empty (ents ! i)" "\<forall>j<i. \<not> entry_is_empty (ents ! j)"
      using full_or_empty[OF entries_length[OF assms(4)]] no by blast
    then show ?thesis using sp(3)[of a i] no by (auto simp: not_less)
  qed
  show ?thesis using w n by fastforce
qed

theorem index_insert_need_reindex_witness:
  "index_write_insert_plan empty_index sample_key (Address 0x40000000) None empty_writer
     = Inr (NeedReindex, empty_writer)"
  using index_insert_need_reindex[OF wf_empty_index wf_empty_query refl empty_index_entries,
      of sample_key "Address 0x40000000" empty_writer]
  by (simp add: shl64_def index_consts entry_last_address_def entry_address_bits_def empty_index_def
      index_create_new_def)

text \<open>
  C17: Reindexing needs no key: the chunk number and the partial key of an entry give back the
  leading 50 bits of the key it was inserted under, and these place the entry, in an index of
  any other size, in the chunk and under the partial key that the whole key would.
\<close>

theorem index_reindex_place:
  assumes "valid_index_bits (index_id_bits t)" and "valid_index_bits (index_id_bits t')"
    and "address_as_u64 a \<le> entry_last_address (index_id_bits t)"
  defines "e \<equiv> \<lambda>kp. entry_new a (entry_extract_key kp (index_id_bits t)) (index_id_bits t)"
    and "kp' \<equiv> \<lambda>kp. index_from_partial (recover_key_prefix t (chunk_index t kp)
       (entry_new a (entry_extract_key kp (index_id_bits t)) (index_id_bits t)))"
  shows "kp' kp = kp AND NOT (mask 14) \<and> chunk_index t' (kp' kp) = chunk_index t' kp \<and>
     entry_extract_key (kp' kp) (index_id_bits t') = entry_extract_key kp (index_id_bits t') \<and>
     entry_address (e kp) (index_id_bits t) = a"
proof (intro conjI)
  show k: "kp' kp = kp AND NOT (mask 14)"
    unfolding kp'_def by (rule recover_key_prefix_eq[OF assms(1,3)])
  show "chunk_index t' (kp' kp) = chunk_index t' kp"
    unfolding k by (rule chunk_index_low_cleared[OF assms(2)])
  show "entry_extract_key (kp' kp) (index_id_bits t') = entry_extract_key kp (index_id_bits t')"
    unfolding k by (rule extract_key_low_cleared[OF assms(2)])
  show "entry_address (e kp) (index_id_bits t) = a"
    unfolding e_def by (rule entry_address_new[OF assms(1,3)])
qed

theorem index_reindex_place_witness:
  "chunk_index (index_id_new 0 17) (index_from_partial (recover_key_prefix (index_id_new 0 16)
      (chunk_index (index_id_new 0 16) 0x0123456789abcdef)
      (entry_new (Address 0x503) (entry_extract_key 0x0123456789abcdef 16) 16)))
   = chunk_index (index_id_new 0 17) 0x0123456789abcdef"
proof -
  have b: "valid_index_bits (index_id_bits (index_id_new 0 16))"
      "valid_index_bits (index_id_bits (index_id_new 0 17))"
    by (simp_all add: valid_index_bits_def)
  have a: "address_as_u64 (Address 0x503) \<le> entry_last_address (index_id_bits (index_id_new 0 16))"
    by (simp add: shl64_def index_consts entry_last_address_def entry_address_bits_def)
  show ?thesis
    using index_reindex_place[OF b a, of "0x0123456789abcdef"] unfolding index_id_bits_new by blast
qed

text \<open>
  C16: The mask that is logged with a chunk names every entry in which the chunk differs from the
  one below the record; planning insertions, replacements and removals keeps it so.
\<close>

theorem index_mask_covers:
  assumes "wf_index t" and "wf_query (writer_query w)" and "logged_ok t w"
  shows "(index_write_insert_plan t key a sub w = Inr (out, w') \<longrightarrow> logged_ok t w') \<and>
     (i < CHUNK_ENTRIES \<longrightarrow> index_write_remove_plan t key i w = Inr (out', w'') \<longrightarrow> logged_ok t w'')"
  using logged_ok_insert[OF assms] logged_ok_remove[OF assms] by blast+

theorem index_mask_covers_witness:
  "\<exists>e w'. index_write_insert_plan empty_index sample_key (Address 0x503) None empty_writer = Inr (Written, w') \<and>
     index_entries empty_index (chunk_index (it_id empty_index) (index_from_partial sample_key)) (writer_query w')
       = Inr ((replicate CHUNK_ENTRIES (Entry 0))[0 := e]) \<and>
     logged_ok empty_index w'"
proof -
  let ?a = "Address 0x503"
  have "logged_ok empty_index empty_writer"
    unfolding empty_writer_def by (rule logged_ok_new)
  note m = index_mask_covers[OF wf_empty_index wf_empty_query this, of sample_key ?a None]
  have "address_as_u64 ?a \<le> entry_last_address (it_bits empty_index)"
    by (simp add: shl64_def index_consts entry_last_address_def entry_address_bits_def empty_index_def
        index_create_new_def)
  moreover have "0 < CHUNK_ENTRIES" "entry_is_empty (replicate CHUNK_ENTRIES (Entry 0) ! 0)"
    by (simp_all add: CHUNK_ENTRIES_def entry_is_empty_def)
  ultimately show ?thesis
    using index_insert_spec(3)[OF wf_empty_index wf_empty_query refl refl empty_index_entries, of ?a 0] m by blast
qed

text \<open>
  C14: Enacting the logged entries of a chunk (creating the index file first when there is none)
  makes the map hold the chunk that the overlay showed, leaves every other chunk, and consumes
  exactly the logged bytes; so a reader sees the same entries before and after the overlay goes.
\<close>

theorem index_enact_durable:
  assumes "wf_index t" and "it_map t = None \<Longrightarrow> \<not> it_on_disk t"
    and "unat ci < 2 ^ unat (it_bits t)" and "length d = CHUNK_LEN"
    and "chunk_view t \<lparr>q_index = (\<lambda>_ _. None), q_value = qv\<rparr> ci = Inr b" and "covers msk d b"
    and "reader_at r (le64 msk @ masked_entries d msk @ rest)"
  shows "\<exists>t'. index_enact_plan t ci r = Inr (t', advance (le64 msk @ masked_entries d msk) r) \<and>
     wf_index t' \<and>
     (\<forall>q cj. unat cj < 2 ^ unat (it_bits t) \<longrightarrow> q_index q (it_id t) cj = None \<longrightarrow>
        chunk_view t' q cj = (if cj = ci then Inr d else chunk_view t q cj))"
  using index_enact_logged[OF assms] by blast

theorem index_enact_durable_witness:
  "\<exists>t'. index_enact_plan empty_index 3
       (log_reader_new (le64 1 @ masked_entries (write_entry (Entry 7) 0 EMPTY_CHUNK) 1) 0 False)
     = Inr (t', advance (le64 1 @ masked_entries (write_entry (Entry 7) 0 EMPTY_CHUNK) 1)
         (log_reader_new (le64 1 @ masked_entries (write_entry (Entry 7) 0 EMPTY_CHUNK) 1) 0 False)) \<and>
     chunk_view t' (overlays_query empty_overlays) 3 = Inr (write_entry (Entry 7) 0 EMPTY_CHUNK)"
proof -
  let ?d = "write_entry (Entry 7) 0 EMPTY_CHUNK"
  let ?r = "log_reader_new (le64 1 @ masked_entries ?d 1) 0 False"
  have 1: "length ?d = CHUNK_LEN" by (simp add: CHUNK_ENTRIES_def)
  have 2: "chunk_view empty_index \<lparr>q_index = (\<lambda>_ _. None), q_value = (\<lambda>_ _. None)\<rparr> 3 = Inr EMPTY_CHUNK"
    by (simp add: chunk_view_def empty_index_def index_create_new_def)
  have 3: "covers 1 ?d EMPTY_CHUNK"
    by (auto simp: covers_def read_entry_write_entry CHUNK_ENTRIES_def bit_1_iff)
  have 4: "reader_at ?r (le64 1 @ masked_entries ?d 1 @ [])"
    by (simp add: reader_at_def log_reader_new_def)
  have 5: "unat (3 :: u64) < 2 ^ unat (it_bits empty_index)"
    by (simp add: empty_index_def index_create_new_def)
  have 6: "q_index (overlays_query empty_overlays) (it_id empty_index) 3 = None"
    by (simp add: overlays_query_def empty_overlays_def index_lookup_def)
  have "it_map empty_index = None \<Longrightarrow> \<not> it_on_disk empty_index"
    by (simp add: empty_index_def index_create_new_def)
  from index_enact_durable[OF wf_empty_index this 5 1 2 3 4] show ?thesis
    using 5 6 by auto
qed

text \<open>
  C40: Validation does not protect the enactment of a chunk. The bound that it checks is the number
  of entries, 64 times the number of chunks: for every index whose map has the size of its file, a
  record with at least one entry for any chunk between the two bounds passes the validation, and
  enacting that same record writes outside the map.
\<close>

theorem index_validate_too_weak:
  assumes "valid_index_bits (it_bits t)" and "unat (it_bits t) < 49" and "it_map t = None \<Longrightarrow> \<not> it_on_disk t"
    and "\<And>m. it_map t = Some m \<Longrightarrow> flen m = unat (index_file_size (it_bits t))"
    and "total_chunks (it_bits t) \<le> ci" and "ci < total_entries (it_bits t)"
    and "length d = CHUNK_LEN" and "msk \<noteq> 0" and "reader_at r (le64 msk @ masked_entries d msk @ rest)"
  shows "index_validate_plan t ci r = Inr (advance (le64 msk @ masked_entries d msk) r) \<and>
     index_enact_plan t ci r = Inl Undefined"
proof
  note rd = reader_read_at[OF assms(9), of 8] and a = reader_at_advance(1)[OF assms(9)]
  show "index_validate_plan t ci r = Inr (advance (le64 msk @ masked_entries d msk) r)"
    using assms(6) rd skip_entries_logged[OF assms(7) a]
    by (simp add: index_validate_plan_def advance_append not_le)
  obtain m t' where m: "ensure_map t = Inr (m, t')" "flen m = unat (index_file_size (it_bits t))"
    using assms(3,4) by (cases "it_map t") (auto simp: ensure_map_def Let_def)
  have "flen m < chunk_offset ci + CHUNK_LEN"
    unfolding m(2) by (rule chunk_outside_file[OF assms(1,2,5,6)])
  then show "index_enact_plan t ci r = Inl Undefined"
    using m(1) rd assms(8) by (simp add: index_enact_plan_def Let_def)
qed

theorem index_validate_too_weak_witness:
  "let r = log_reader_new (le64 1 @ masked_entries (write_entry (Entry 7) 0 EMPTY_CHUNK) 1) 0 True
   in (\<exists>r'. index_validate_plan empty_index 70000 r = Inr r') \<and> index_enact_plan empty_index 70000 r = Inl Undefined"
proof -
  let ?d = "write_entry (Entry 7) 0 EMPTY_CHUNK"
  let ?r = "log_reader_new (le64 1 @ masked_entries ?d 1) 0 True"
  have b: "it_bits empty_index = 16" "it_map empty_index = None" "\<not> it_on_disk empty_index"
    by (simp_all add: empty_index_def index_create_new_def)
  have v: "valid_index_bits (it_bits empty_index)" "unat (it_bits empty_index) < 49"
    by (simp_all add: b valid_index_bits_def)
  have c: "total_chunks (it_bits empty_index) \<le> 70000" "70000 < total_entries (it_bits empty_index)"
    by (simp_all add: b total_chunks_def total_entries_def shl64_def CHUNK_ENTRIES_def)
  have l: "length ?d = CHUNK_LEN" by (simp add: CHUNK_ENTRIES_def)
  have "reader_at ?r (le64 1 @ masked_entries ?d 1 @ [])" by (simp add: reader_at_def log_reader_new_def)
  from index_validate_too_weak[OF v _ _ c l _ this] show ?thesis by (simp add: b Let_def)
qed

end
