(* ===== verification/Options_Correct.thy ===== *)
theory Options_Correct
  imports Options
begin

text \<open>
  The metadata file: what is written is read back, but for the compression threshold, which is
  not stored; so a database with another threshold than the default cannot be opened again.
\<close>

section \<open>Decimal numbers\<close>

lemma of_char_digit: "n < 10 \<Longrightarrow> of_char (char_of (48 + n) :: char) = (48 + n :: nat)"
  by (simp add: of_char_of take_bit_nat_eq_self)

lemma dec_not_Nil [simp]: "dec n \<noteq> []"
  by (subst dec.simps) simp

lemma dec_is_digit: "list_all is_digit (dec n)"
proof (induction n rule: dec.induct)
  case (1 n)
  have d: "is_digit (char_of (48 + m) :: char)" if "m < 10" for m :: nat
    using of_char_digit[OF that] that by (simp add: is_digit_def)
  show ?case
  proof (cases "n < 10")
    case True
    then show ?thesis using d by (subst dec.simps) simp
  next
    case False
    then show ?thesis using 1 d[of "n mod 10"] by (subst dec.simps) simp
  qed
qed

lemma foldl_dec: "foldl (\<lambda>a c. a * 10 + ((of_char c :: nat) - 48)) 0 (dec n) = n"
proof (induction n rule: dec.induct)
  case (1 n)
  show ?case
  proof (cases "n < 10")
    case True
    then show ?thesis using of_char_digit[OF True] by (subst dec.simps) simp
  next
    case False
    then show ?thesis
      using 1[OF False] of_char_digit[of "n mod 10"] by (subst dec.simps) simp
  qed
qed

lemma digit_chars: "is_digit c \<Longrightarrow> c \<notin> {CHR ''+'', CHR ''='', newline, CHR 0x0D}"
  by (auto simp: is_digit_def newline_def)

lemma dec_chars: "c \<in> set (dec n) \<Longrightarrow> c \<notin> {CHR ''+'', CHR ''='', newline, CHR 0x0D}"
  using dec_is_digit[of n] digit_chars by (metis list_all_iff)

lemma dec_ascii: "c \<in> set (dec n) \<Longrightarrow> (of_char c :: nat) < 128"
  using dec_is_digit[of n] by (fastforce simp: list_all_iff is_digit_def)

lemma parse_dec: "n \<le> mx \<Longrightarrow> parse_uint mx (dec n) = Some n"
proof -
  assume n: "n \<le> mx"
  obtain c r where c: "dec n = c # r" by (cases "dec n") auto
  then have "c \<noteq> CHR ''+''" using dec_chars[of c n] by auto
  then have "(case dec n of c # r \<Rightarrow> if c = CHR ''+'' then r else dec n | [] \<Rightarrow> []) = dec n"
    by (simp add: c)
  then show ?thesis
    using n dec_is_digit[of n] by (simp add: parse_uint_def foldl_dec Let_def)
qed

section \<open>Lines\<close>

definition plain_line :: "string \<Rightarrow> bool" where
  "plain_line l \<longleftrightarrow> newline \<notin> set l \<and> CHR 0x0D \<notin> set l \<and> (\<forall>c\<in>set l. (of_char c :: nat) < 128)"

lemma plain_line_utf8: "plain_line l \<Longrightarrow> utf8_valid (map of_char l)"
  by (rule utf8_ascii) (simp add: plain_line_def)

lemma split_lines:
  "\<forall>l\<in>set ls. newline \<notin> set l \<Longrightarrow>
     split_str [newline] (concat (map (\<lambda>l. l @ [newline]) ls)) = ls @ [[]]"
proof (induction ls)
  case Nil
  then show ?case by (simp add: split_str_def)
next
  case (Cons l ls)
  then show ?case using split_str_piece[of newline l "[]"] by simp
qed

lemma lines_of_lines:
  assumes "\<forall>l\<in>set ls. plain_line l"
  shows "lines_of (concat (map (\<lambda>l. l @ [newline]) ls)) = ls"
proof -
  have "strip_cr l = l" if "l \<in> set ls" for l
    using assms that last_in_set[of l] by (fastforce simp: plain_line_def strip_cr_def)
  then show ?thesis
    using assms by (simp add: lines_of_def split_lines plain_line_def map_idI)
qed

lemma split_key_value:
  "CHR ''='' \<notin> set k \<Longrightarrow> CHR ''='' \<notin> set v \<Longrightarrow> split_str ''='' (k @ ''='' @ v) = [k, v]"
  using split_str_piece[of "CHR ''=''" k "[]" v] split_str_none[of "CHR ''=''" "''=''" v] by simp

section \<open>The file\<close>

text \<open>What the crate \<open>hex\<close> documents: decoding inverts encoding, into hexadecimal digits.\<close>

definition hex_ok :: "(bytes \<Rightarrow> string) \<Rightarrow> (string \<Rightarrow> bytes option) \<Rightarrow> bool" where
  "hex_ok enc dcd \<longleftrightarrow> (\<forall>b. dcd (enc b) = Some b) \<and>
     (\<forall>b. set (enc b) \<subseteq> set ''0123456789abcdefABCDEF'')"

lemma column_as_string_chars:
  "c \<in> set (column_as_string co) \<Longrightarrow> c \<noteq> CHR ''='' \<and> c \<noteq> newline \<and> c \<noteq> CHR 0x0D"
  by (auto simp: column_as_string_def newline_def dec_compression dest!: show_bool_chars
      split: compression_type.splits)

lemma column_as_string_ascii: "\<forall>c\<in>set (column_as_string co). (of_char c :: nat) < 128"
proof -
  have b: "\<forall>c\<in>set (show_bool b). (of_char c :: nat) < 128" for b by (simp add: show_bool_def)
  have d: "\<forall>c\<in>set (dec n). (of_char c :: nat) < 128" for n using dec_ascii by blast
  show ?thesis unfolding column_as_string_def set_append ball_Un by (intro conjI b d) simp_all
qed

definition stored_column :: "column_options \<Rightarrow> column_options" where
  "stored_column c = c\<lparr>co_compression_threshold := 4096\<rparr>"

definition column_line :: "nat \<times> column_options \<Rightarrow> string" where
  "column_line = (\<lambda>(i, c). (''col'' @ dec i) @ ''='' @ column_as_string c)"

lemma load_column_line:
  "load_line dcd (column_line (i, c)) (v, s, cs) = Inr (v, s, cs @ [stored_column c])"
proof -
  have "CHR ''='' \<notin> set (''col'' @ dec i)" using dec_chars by auto
  moreover have "CHR ''='' \<notin> set (column_as_string c)" using column_as_string_chars by blast
  ultimately have "split_str ''='' ((''col'' @ dec i) @ ''='' @ column_as_string c) =
      [''col'' @ dec i, column_as_string c]"
    by (rule split_key_value)
  then show ?thesis
    by (simp add: load_line_def column_line_def column_string_roundtrip stored_column_def)
qed

lemma column_line_plain: "plain_line (column_line ic)"
  using dec_chars column_as_string_chars dec_ascii column_as_string_ascii
  by (cases ic) (fastforce simp: plain_line_def column_line_def newline_def)

lemma load_column_lines:
  "load_lines dcd (map column_line ics) (v, s, cs) = Inr (v, s, cs @ map (stored_column \<circ> snd) ics)"
proof (induction ics arbitrary: cs)
  case (Cons ic ics)
  obtain i c where "ic = (i, c)" by (cases ic)
  then show ?case
    using Cons load_column_line[of dcd i c v s cs] plain_line_utf8[OF column_line_plain[of ic]] by simp
qed simp

lemma load_written:
  assumes hex: "hex_ok enc dcd" and salt: "length salt = 32" and v: "LAST_SUPPORTED_VERSION \<le> v"
  shows "load_metadata_file dcd (Some (write_metadata_file_with_version enc op salt (Some v))) =
     Inr (Some \<lparr>md_salt = salt, md_version = v, md_columns = map stored_column (op_columns op)\<rparr>)"
proof -
  let ?ics = "List.enumerate 0 (op_columns op)"
  let ?vl = "''version'' @ ''='' @ dec (unat v)" and ?sl = "''salt'' @ ''='' @ enc salt"
  let ?ls = "?vl # ?sl # map column_line ?ics"
  have ps: "plain_line ?sl"
  proof -
    have "set (enc salt) \<subseteq> set ''0123456789abcdefABCDEF''" using hex by (simp add: hex_ok_def)
    then have "newline \<notin> set (enc salt)" "CHR 0x0D \<notin> set (enc salt)" "\<forall>c\<in>set (enc salt). (of_char c :: nat) < 128"
      by (auto simp: newline_def)
    then show ?thesis by (auto simp: plain_line_def newline_def)
  qed
  have es: "CHR ''='' \<notin> set (enc salt)" using hex unfolding hex_ok_def by force
  have pv: "plain_line ?vl" using dec_chars dec_ascii by (auto simp: plain_line_def newline_def)
  have written: "write_metadata_file_with_version enc op salt (Some v) = concat (map (\<lambda>l. l @ [newline]) ?ls)"
    by (simp add: write_metadata_file_with_version_def column_line_def split_def o_def cong: map_cong)
  have lines: "lines_of (write_metadata_file_with_version enc op salt (Some v)) = ?ls"
    unfolding written by (rule lines_of_lines) (use ps pv column_line_plain in auto)
  have "unat v \<le> 2 ^ 32 - 1"
    using unat_lt_32[of v] unfolding less_Suc_eq_le[symmetric] by (simp del: unat_lt_32)
  then have pu: "parse_uint (2 ^ 32 - 1) (dec (unat v)) = Some (unat v)" by (rule parse_dec)
  have "CHR ''='' \<notin> set (dec (unat v))" using dec_chars[of "CHR ''=''" "unat v"] by auto
  then have sv: "split_str ''='' ?vl = [''version'', dec (unat v)]"
    using split_key_value[of "''version''" "dec (unat v)"] by simp
  have l1: "load_line dcd ?vl (0, None, []) = Inr (v, None, [])"
    unfolding load_line_def sv prod.case list.case if_P[OF refl] pu by simp
  have l2: "load_line dcd ?sl (v, None, []) = Inr (v, Some salt, [])"
    using split_key_value[of "''salt''" "enc salt"] es hex salt by (simp add: load_line_def hex_ok_def)
  have "map (stored_column \<circ> snd) ?ics = map stored_column (op_columns op)"
    by (simp flip: map_map)
  then have "load_lines dcd ?ls (0, None, []) = Inr (v, Some salt, map stored_column (op_columns op))"
    by (simp only: load_lines.simps l1 l2 rbind.simps load_column_lines append_Nil if_True
        plain_line_utf8[OF pv] plain_line_utf8[OF ps])
  then show ?thesis
    unfolding load_metadata_file_def option.case lines using v
    by (simp only: rbind.simps prod.case not_less[symmetric] if_False option.case)
qed

section \<open>Properties\<close>

text \<open>
  C19: The metadata file is read back as it was written: the salt, the version and every column,
  with the compression threshold of each set to the default.
\<close>

theorem metadata_roundtrip:
  assumes "hex_ok enc dcd" and "length salt = 32" and "LAST_SUPPORTED_VERSION \<le> v"
  shows "load_metadata_file dcd (Some (write_metadata_file_with_version enc op salt (Some v))) =
     Inr (Some \<lparr>md_salt = salt, md_version = v,
       md_columns = map (\<lambda>c. c\<lparr>co_compression_threshold := 4096\<rparr>) (op_columns op)\<rparr>)"
  using load_written[OF assms, of op] by (simp add: stored_column_def[abs_def])

text \<open>An encoding as the crate documents it, for instances of the properties.\<close>

definition nibble :: "nat \<Rightarrow> char" where
  "nibble n = ''0123456789abcdef'' ! n"

definition unnibble :: "char \<Rightarrow> nat" where
  "unnibble c = length (takeWhile (\<lambda>d. d \<noteq> c) ''0123456789abcdef'')"

definition enc_hex :: "bytes \<Rightarrow> string" where
  "enc_hex bs = concat (map (\<lambda>b. [nibble (unat b div 16), nibble (unat b mod 16)]) bs)"

fun dec_hex :: "string \<Rightarrow> bytes option" where
  "dec_hex [] = Some []"
| "dec_hex (a # b # s) = map_option (\<lambda>bs. of_nat (unnibble a * 16 + unnibble b) # bs) (dec_hex s)"
| "dec_hex [a] = None"

lemma unnibble_nibble: "n < 16 \<Longrightarrow> unnibble (nibble n) = n"
proof -
  have "\<forall>n\<in>set [0..<16]. unnibble (nibble n) = n" by code_simp
  then show "n < 16 \<Longrightarrow> unnibble (nibble n) = n" by simp
qed

lemma nibble_chars: "n < 16 \<Longrightarrow> nibble n \<in> set ''0123456789abcdef''"
  unfolding nibble_def by (rule nth_mem) simp

lemma hex_ok_sample: "hex_ok enc_hex dec_hex"
proof -
  have "dec_hex (enc_hex b) = Some b" for b
  proof (induction b)
    case Nil
    then show ?case by (simp add: enc_hex_def)
  next
    case (Cons x b)
    have "unat x div 16 < 16" "unat x mod 16 < 16" using unat_lt_8[of x] by (linarith, simp)
    then have "of_nat (unnibble (nibble (unat x div 16)) * 16 + unnibble (nibble (unat x mod 16))) = x"
      by (simp add: unnibble_nibble div_mult_mod_eq del: of_nat_add of_nat_mult)
    then show ?case using Cons by (simp add: enc_hex_def)
  qed
  moreover have "set (enc_hex b) \<subseteq> set ''0123456789abcdefABCDEF''" for b
  proof
    fix c assume "c \<in> set (enc_hex b)"
    then have "\<exists>x. c = nibble (unat (x :: u8) div 16) \<or> c = nibble (unat x mod 16)"
      by (auto simp: enc_hex_def)
    then obtain x :: u8 where "c = nibble (unat x div 16) \<or> c = nibble (unat x mod 16)" by blast
    moreover have "unat (x :: u8) div 16 < 16" "unat x mod 16 < 16" using unat_lt_8[of x] by (linarith, simp)
    ultimately have "c \<in> set ''0123456789abcdef''" using nibble_chars by blast
    then show "c \<in> set ''0123456789abcdefABCDEF''" by auto
  qed
  ultimately show ?thesis by (simp add: hex_ok_def)
qed

theorem metadata_roundtrip_witness:
  "load_metadata_file dec_hex (Some (write_metadata_file_with_version enc_hex (with_columns 2)
      (replicate 32 7) (Some 5))) =
     Inr (Some \<lparr>md_salt = replicate 32 7, md_version = 5,
       md_columns = [column_options_default, column_options_default]\<rparr>)"
proof -
  have "unat (2 :: u8) = Suc (Suc 0)" by simp
  then have "op_columns (with_columns 2) = [column_options_default, column_options_default]"
    unfolding with_columns_def by (simp only: replicate.simps options.simps)
  then show ?thesis
    using metadata_roundtrip[OF hex_ok_sample, of "replicate 32 7" 5 "with_columns 2"]
    by (simp add: LAST_SUPPORTED_VERSION_def column_options_default_def)
qed

text \<open>
  C20: A database is opened again with the options it was created with exactly when every column
  has the default compression threshold: any other threshold is lost in the metadata file, and
  the comparison with the requested options then fails.
\<close>

theorem reopen_iff_default_threshold:
  assumes "hex_ok enc dcd" and "op_salt op = Some salt" and "length salt = 32"
  shows "\<exists>meta file. load_and_validate_metadata enc dcd rnd op None True = Inr (meta, Some file) \<and>
     md_columns meta = op_columns op \<and>
     ((\<exists>meta' file'. load_and_validate_metadata enc dcd rnd op (Some file) create = Inr (meta', file')) \<longleftrightarrow>
      (\<forall>c\<in>set (op_columns op). co_compression_threshold c = 4096))"
proof -
  let ?f = "write_metadata_file enc op salt"
  have v: "LAST_SUPPORTED_VERSION \<le> CURRENT_VERSION"
    by (simp add: LAST_SUPPORTED_VERSION_def CURRENT_VERSION_def)
  have ff: "?f = write_metadata_file_with_version enc op salt (Some CURRENT_VERSION)"
    by (simp add: write_metadata_file_def write_metadata_file_with_version_def)
  have load: "load_metadata_file dcd (Some ?f) = Inr (Some \<lparr>md_salt = salt, md_version = CURRENT_VERSION,
      md_columns = map stored_column (op_columns op)\<rparr>)"
    unfolding ff by (rule load_written[OF assms(1,3) v])
  have same: "stored_column c = c \<longleftrightarrow> co_compression_threshold c = 4096" for c
    by (cases c) (auto simp: stored_column_def)
  let ?P = "\<lambda>c. map stored_column (op_columns op) ! c \<noteq> op_columns op ! c"
  have find: "List.find ?P [0..<length (op_columns op)] = None \<longleftrightarrow>
      (\<forall>c\<in>set (op_columns op). co_compression_threshold c = 4096)"
    by (auto simp: find_None_iff same all_set_conv_all_nth)
  have re: "load_and_validate_metadata enc dcd rnd op (Some ?f) create =
      (case List.find ?P [0..<length (op_columns op)] of
         Some c \<Rightarrow> Inl (Err (InvalidConfiguration
            (mismatch c (op_columns op ! c) (map stored_column (op_columns op) ! c))))
       | None \<Rightarrow> Inr (\<lparr>md_salt = salt, md_version = CURRENT_VERSION,
            md_columns = map stored_column (op_columns op)\<rparr>, Some ?f))"
    unfolding load_and_validate_metadata_def load by (simp cong: option.case_cong)
  have "load_and_validate_metadata enc dcd rnd op None True =
      Inr (\<lparr>md_salt = salt, md_version = CURRENT_VERSION, md_columns = op_columns op\<rparr>, Some ?f)"
    using assms(2) by (simp add: load_and_validate_metadata_def load_metadata_file_def Let_def)
  moreover have "(\<exists>meta' file'. load_and_validate_metadata enc dcd rnd op (Some ?f) create = Inr (meta', file'))
      \<longleftrightarrow> (\<forall>c\<in>set (op_columns op). co_compression_threshold c = 4096)"
    unfolding re find[symmetric] by (auto split: option.splits)
  ultimately show ?thesis by (intro exI[of _ "\<lparr>md_salt = salt, md_version = CURRENT_VERSION,
      md_columns = op_columns op\<rparr>"] exI[of _ ?f]) simp
qed

theorem reopen_iff_default_threshold_witness:
  "\<exists>meta file. load_and_validate_metadata enc_hex dec_hex []
       \<lparr>op_columns = [column_options_default\<lparr>co_compression_threshold := 100\<rparr>], op_sync_wal = True,
        op_sync_data = True, op_stats = True, op_salt = Some (replicate 32 7)\<rparr> None True
       = Inr (meta, Some file) \<and>
     \<not> (\<exists>meta' file'. load_and_validate_metadata enc_hex dec_hex []
       \<lparr>op_columns = [column_options_default\<lparr>co_compression_threshold := 100\<rparr>], op_sync_wal = True,
        op_sync_data = True, op_stats = True, op_salt = Some (replicate 32 7)\<rparr> (Some file) False
       = Inr (meta', file'))"
  using reopen_iff_default_threshold[OF hex_ok_sample,
      of "\<lparr>op_columns = [column_options_default\<lparr>co_compression_threshold := 100\<rparr>], op_sync_wal = True,
        op_sync_data = True, op_stats = True, op_salt = Some (replicate 32 7)\<rparr>" "replicate 32 7" "[]" False]
  by auto

end
