(* ===== verification/Log_Files.thy ===== *)
theory Log_Files
  imports Log_Overlay "HOL-Library.Multiset"
begin

text \<open>
  The life of a log file (\<^verbatim>\<open>src/src/log.rs\<close>, \<open>Log\<close>): from the pool or a new id it is appended to,
  flushed, read, queued for cleanup and returned to the pool. The step relation \<open>log_step\<close> has one
  rule for each operation of \<open>Log\<close> that moves files or reads them; the invariant says that each
  file of the directory is in exactly one place, that a file in the pool is empty, and that a
  reader that went idle has nothing left to read.
\<close>

section \<open>Where the files are\<close>

definition append_ids :: "log_appending option \<Rightarrow> u32 list" where
  "append_ids a = (case a of None \<Rightarrow> [] | Some ap \<Rightarrow> [ap_id ap])"

definition flush_ids :: "(u32 \<times> bytes) option \<Rightarrow> u32 list" where
  "flush_ids f = (case f of None \<Rightarrow> [] | Some p \<Rightarrow> [fst p])"

definition read_ids :: "log_reading option \<Rightarrow> u32 list" where
  "read_ids r = (case r of None \<Rightarrow> [] | Some rd \<Rightarrow> [rd_id rd])"

lemma place_ids_simps [simp]:
  "append_ids None = []" "append_ids (Some ap) = [ap_id ap]" "flush_ids None = []" "flush_ids (Some p) = [fst p]"
  "read_ids None = []" "read_ids (Some rd) = [rd_id rd]"
  by (simp_all add: append_ids_def flush_ids_def read_ids_def)

definition active_ids :: "log_state \<Rightarrow> u32 list" where
  "active_ids l = append_ids (lg_appending l) @ flush_ids (lg_flushing l) @ read_ids (lg_reading l)"

definition file_ids :: "log_state \<Rightarrow> u32 list" where
  "file_ids l = map fst (lg_log_pool l) @ active_ids l @ map fst (lg_cleanup_queue l) @
     map fst (lg_replay_queue l)"

definition exhausted :: "(bytes \<Rightarrow> u32) \<Rightarrow> log_reading \<Rightarrow> bool" where
  "exhausted crc rd \<longleftrightarrow> (\<exists>validate. reader_next crc (log_reader_new (rd_file rd) (rd_pos rd) validate) =
     Inl (Err (Io UnexpectedEof)))"

definition files_inv :: "(bytes \<Rightarrow> u32) \<Rightarrow> log_state \<Rightarrow> bool" where
  "files_inv crc l \<longleftrightarrow> distinct (file_ids l) \<and> distinct (lg_disk l) \<and> set (file_ids l) = set (lg_disk l) \<and>
     (\<forall>i\<in>set (lg_disk l). i < lg_next_log_id l) \<and>
     (\<forall>(i, file)\<in>set (lg_log_pool l). file = []) \<and> length (lg_log_pool l) \<le> MAX_LOG_POOL_SIZE \<and>
     (\<forall>rd. lg_reading l = Some rd \<and> lg_reading_state l = Idle \<longrightarrow> exhausted crc rd)"

inductive log_step :: "(bytes \<Rightarrow> u32) \<Rightarrow> log_state \<Rightarrow> log_state \<Rightarrow> bool" for crc where
  start: "log_step crc l (snd (begin_record l))"
| append: "lg_next_log_id l \<noteq> - 1 \<Longrightarrow> end_record crc c l = Inr (n, l') \<Longrightarrow> log_step crc l l'"
| flush: "flush_one min_size l = Some (r, l') \<Longrightarrow> log_step crc l l'"
| read: "read_next crc validate l = Inr (Some r, l') \<Longrightarrow> lr_pos r \<le> lr_pos r' \<Longrightarrow>
    log_step crc l (release_reader r' (end_read cl rid l'))"
| idle: "read_next crc validate l = Inr (None, l') \<Longrightarrow> log_step crc l l'"
| replay: "replay_next l = (r, l') \<Longrightarrow> log_step crc l l'"
| clean: "clean_logs n l = Inr (dirty, l') \<Longrightarrow> log_step crc l l'"
| clear: "clear_replay_logs l = Inr l' \<Longrightarrow> log_step crc l l'"
| kill: "log_kill_logs l = Inr l' \<Longrightarrow> log_step crc l l'"

definition log_reachable :: "(bytes \<Rightarrow> u32) \<Rightarrow> log_state \<Rightarrow> bool" where
  "log_reachable crc l \<longleftrightarrow> (\<exists>sync dir l0. log_open sync dir = Inr l0 \<and> distinct (map fst dir) \<and>
     (\<forall>i\<in>set (map fst dir). i \<noteq> - 1) \<and> (log_step crc)\<^sup>*\<^sup>* l0 l)"

section \<open>Removing files\<close>

lemma drop_logs_ok:
  assumes "distinct is" and "set is \<subseteq> set (lg_disk l)" and "distinct (lg_disk l)"
  shows "\<exists>d. drop_logs is l = Inr (l\<lparr>lg_disk := d\<rparr>) \<and> distinct d \<and> set d = set (lg_disk l) - set is"
  using assms
proof (induction "is" arbitrary: l)
  case Nil
  then show ?case by (intro exI[of _ "lg_disk l"]) simp
next
  case (Cons i "is")
  let ?l = "l\<lparr>lg_disk := remove1 i (lg_disk l)\<rparr>"
  have "distinct is" "set is \<subseteq> set (lg_disk ?l)" "distinct (lg_disk ?l)"
    using Cons.prems by auto
  from Cons.IH[OF this] obtain d where "drop_logs is ?l = Inr (?l\<lparr>lg_disk := d\<rparr>)" "distinct d"
      "set d = set (lg_disk ?l) - set is" by blast
  moreover have "drop_log i l = Inr ?l" using Cons.prems(2) by (simp add: drop_log_def)
  moreover have "set (lg_disk ?l) - set is = set (lg_disk l) - set (i # is)" using Cons.prems(3) by auto
  ultimately show ?case by (intro exI[of _ d]) simp
qed

text \<open>Under the invariant a file that one of the queues names is in the directory.\<close>

lemmas ids_defs = file_ids_def active_ids_def

lemma clean_logs_ok:
  assumes "files_inv crc l" and "n \<le> num_dirty_logs l"
  shows "\<exists>dirty l'. clean_logs n l = Inr (dirty, l') \<and> files_inv crc l'"
proof -
  define cleaned pool where "cleaned = map (\<lambda>(i, _). (i, [] :: bytes)) (take n (lg_cleanup_queue l))"
    and "pool = sort_key fst (lg_log_pool l @ cleaned)"
  define l1 where "l1 = l\<lparr>lg_cleanup_queue := drop n (lg_cleanup_queue l), lg_log_pool := take MAX_LOG_POOL_SIZE pool\<rparr>"
  let ?rest = "map fst (drop MAX_LOG_POOL_SIZE pool)"
  have cl: "map fst cleaned = take n (map fst (lg_cleanup_queue l))"
    unfolding cleaned_def by (auto simp: take_map intro!: map_cong)
  have mp: "mset (map fst pool) = mset (map fst (lg_log_pool l) @ take n (map fst (lg_cleanup_queue l)))"
    unfolding pool_def cl[symmetric] by simp
  have split: "mset (file_ids l) = mset (map fst pool @ active_ids l @ drop n (map fst (lg_cleanup_queue l)) @
      map fst (lg_replay_queue l))"
  proof -
    have "mset (map fst (lg_cleanup_queue l)) =
        mset (take n (map fst (lg_cleanup_queue l))) + mset (drop n (map fst (lg_cleanup_queue l)))"
      by (metis append_take_drop_id mset_append)
    then show ?thesis unfolding file_ids_def mset_append mp by simp
  qed
  have ids: "file_ids l1 = map fst (take MAX_LOG_POOL_SIZE pool) @ active_ids l @
      drop n (map fst (lg_cleanup_queue l)) @ map fst (lg_replay_queue l)"
    by (simp add: file_ids_def l1_def active_ids_def drop_map)
  have sp: "mset (map fst pool) = mset (map fst (take MAX_LOG_POOL_SIZE pool)) + mset ?rest"
    by (metis append_take_drop_id map_append mset_append)
  have all: "mset (file_ids l) = mset (?rest @ file_ids l1)"
    unfolding split ids mset_append sp by simp
  have dl: "distinct (?rest @ file_ids l1)" and sl: "set (?rest @ file_ids l1) = set (lg_disk l)"
    using assms(1) mset_eq_setD[OF all] mset_eq_imp_distinct_iff[OF all] by (simp_all add: files_inv_def)
  have d1: "lg_disk l1 = lg_disk l" by (simp add: l1_def)
  have di: "distinct (lg_disk l)" using assms(1) by (simp add: files_inv_def)
  obtain d where d: "drop_logs ?rest l1 = Inr (l1\<lparr>lg_disk := d\<rparr>)" "distinct d" "set d = set (lg_disk l) - set ?rest"
    using drop_logs_ok[of ?rest l1] dl sl di unfolding d1 by auto
  have "clean_logs n l = Inr (lg_cleanup_queue (l1\<lparr>lg_disk := d\<rparr>) \<noteq> [], l1\<lparr>lg_disk := d\<rparr>)"
    using assms(2) d(1) by (simp add: clean_logs_def num_dirty_logs_def Let_def cleaned_def pool_def l1_def)
  moreover have "files_inv crc (l1\<lparr>lg_disk := d\<rparr>)"
  proof -
    have "file_ids (l1\<lparr>lg_disk := d\<rparr>) = file_ids l1" by (simp add: ids_defs)
    moreover have "set d = set (file_ids l1)" using d(3) dl sl by auto
    moreover have "\<forall>(i, file)\<in>set pool. file = []"
      using assms(1) by (auto simp: pool_def cleaned_def files_inv_def)
    then have "\<forall>(i, file)\<in>set (take MAX_LOG_POOL_SIZE pool). file = []"
      by (meson in_set_takeD)
    ultimately show ?thesis
      using assms(1) dl d(2,3) unfolding files_inv_def by (auto simp: l1_def)
  qed
  ultimately show ?thesis by blast
qed

lemma kill_logs_ok:
  assumes "files_inv crc l"
  shows "\<exists>l'. log_kill_logs l = Inr l' \<and> files_inv crc l'"
proof -
  let ?l = "l\<lparr>lg_log_pool := []\<rparr>"
  have "distinct (map fst (lg_log_pool l))" "set (map fst (lg_log_pool l)) \<subseteq> set (lg_disk ?l)" "distinct (lg_disk ?l)"
    using assms by (auto simp: files_inv_def file_ids_def)
  from drop_logs_ok[OF this] obtain d where d: "drop_logs (map fst (lg_log_pool l)) ?l = Inr (?l\<lparr>lg_disk := d\<rparr>)"
      "distinct d" "set d = set (lg_disk l) - set (map fst (lg_log_pool l))" by auto
  show ?thesis
  proof (cases "lg_reading l")
    case None
    then have "log_kill_logs l = Inr (?l\<lparr>lg_disk := d\<rparr>)" using d(1) by (simp add: log_kill_logs_def)
    moreover have "files_inv crc (?l\<lparr>lg_disk := d\<rparr>)"
      using assms d(2,3) None by (auto simp: files_inv_def ids_defs simp del: set_map)
    ultimately show ?thesis by blast
  next
    case (Some rd)
    let ?l' = "?l\<lparr>lg_disk := remove1 (rd_id rd) d, lg_reading := None\<rparr>"
    have "rd_id rd \<in> set d" using assms Some d(3) by (auto simp: files_inv_def ids_defs simp del: set_map)
    then have "log_kill_logs l = Inr ?l'" using d(1) Some by (simp add: log_kill_logs_def drop_log_def)
    moreover have "files_inv crc ?l'"
      using assms d(2,3) Some by (auto simp: files_inv_def ids_defs simp del: set_map)
    ultimately show ?thesis by blast
  qed
qed

lemma clear_replay_ok:
  assumes "files_inv crc l"
  shows "\<exists>l'. clear_replay_logs l = Inr l' \<and> files_inv crc l'"
proof -
  define d1 where "d1 = (case lg_reading l of None \<Rightarrow> lg_disk l | Some rd \<Rightarrow> remove1 (rd_id rd) (lg_disk l))"
  define l1 where "l1 = l\<lparr>lg_reading := None, lg_disk := d1\<rparr>"
  have fst_step: "(case lg_reading l of None \<Rightarrow> Inr l
      | Some rd \<Rightarrow> drop_log (rd_id rd) (l\<lparr>lg_reading := None\<rparr>)) = Inr l1"
    using assms by (auto simp: l1_def d1_def drop_log_def files_inv_def ids_defs split: option.splits)
  have f: "lg_replay_queue l1 = lg_replay_queue l" by (simp add: l1_def)
  have sd: "distinct d1" "set d1 = set (lg_disk l) - (case lg_reading l of None \<Rightarrow> {} | Some rd \<Rightarrow> {rd_id rd})"
    using assms by (auto simp: d1_def files_inv_def split: option.splits)
  have "distinct (map fst (lg_replay_queue l))" "set (map fst (lg_replay_queue l)) \<subseteq> set d1"
    using assms sd(2) by (auto simp: files_inv_def ids_defs simp del: set_map split: option.splits)
  then obtain d where d: "drop_logs (map fst (lg_replay_queue l)) (l1\<lparr>lg_replay_queue := []\<rparr>) =
      Inr (l1\<lparr>lg_replay_queue := [], lg_disk := d\<rparr>)" "distinct d" "set d = set d1 - set (map fst (lg_replay_queue l))"
    using drop_logs_ok[of "map fst (lg_replay_queue l)" "l1\<lparr>lg_replay_queue := []\<rparr>"] sd(1)
    by (auto simp: l1_def)
  let ?l' = "l1\<lparr>lg_replay_queue := [], lg_disk := d, lg_overlays := empty_overlays,
      lg_reading_state := Idle, lg_dirty := False\<rparr>"
  have "clear_replay_logs l = Inr ?l'"
    unfolding clear_replay_logs_def fst_step by (simp add: f d(1))
  moreover have "files_inv crc ?l'"
    using assms sd d(2,3) by (cases "lg_reading l") (auto simp: files_inv_def ids_defs l1_def simp del: set_map)
  ultimately show ?thesis by blast
qed

section \<open>Every operation keeps the invariant\<close>

lemma files_inv_cong:
  "lg_log_pool l' = lg_log_pool l \<Longrightarrow> lg_appending l' = lg_appending l \<Longrightarrow> lg_flushing l' = lg_flushing l \<Longrightarrow>
   lg_reading l' = lg_reading l \<Longrightarrow> lg_cleanup_queue l' = lg_cleanup_queue l \<Longrightarrow>
   lg_replay_queue l' = lg_replay_queue l \<Longrightarrow> lg_disk l' = lg_disk l \<Longrightarrow>
   lg_next_log_id l' = lg_next_log_id l \<Longrightarrow> lg_reading_state l' = lg_reading_state l \<Longrightarrow>
   files_inv crc l' = files_inv crc l"
  by (simp add: files_inv_def ids_defs)

lemma files_inv_move:
  assumes "files_inv crc l" and "mset (file_ids l') = mset (file_ids l)" and "lg_disk l' = lg_disk l"
    and "lg_next_log_id l' = lg_next_log_id l" and "set (lg_log_pool l') \<subseteq> set (lg_log_pool l)"
    and "length (lg_log_pool l') \<le> length (lg_log_pool l)"
    and "\<And>rd. lg_reading l' = Some rd \<Longrightarrow> lg_reading_state l' = Idle \<Longrightarrow> exhausted crc rd"
  shows "files_inv crc l'"
  using assms(1,3-7) mset_eq_setD[OF assms(2)] mset_eq_imp_distinct_iff[OF assms(2)]
  unfolding files_inv_def by auto

lemma below_next: "m \<noteq> - 1 \<Longrightarrow> i \<le> m \<Longrightarrow> i < m + (1 :: 'a::len word)"
proof -
  assume "m \<noteq> - 1" "i \<le> m"
  moreover from this have "1 + m \<noteq> 0" by (metis add.commute eq_neg_iff_add_eq_0)
  ultimately show ?thesis using unatSuc[of m] by (simp add: word_less_nat_alt word_le_nat_alt add.commute)
qed

lemma append_file_inv:
  assumes "files_inv crc l" and "lg_next_log_id l \<noteq> - 1" and "end_record crc c l = Inr (n, l')"
  shows "files_inv crc l'"
proof (cases "lg_appending l")
  case None
  note i = assms(1)[unfolded files_inv_def ids_defs None place_ids_simps]
  show ?thesis
  proof (cases "lg_log_pool l")
    case Nil
    have "i < lg_next_log_id l + 1" if "i \<in> insert (lg_next_log_id l) (set (lg_disk l))" for i
      using that i by (intro below_next assms(2)) auto
    then show ?thesis
      using i assms(3) None Nil
      by (auto simp: end_record_def Let_def flush_to_file_def files_inv_def ids_defs simp del: set_map split: if_splits)
  next
    case (Cons p pool)
    show ?thesis
      by (rule files_inv_move[OF assms(1)])
        (use assms(1,3) None Cons in \<open>auto simp: end_record_def Let_def flush_to_file_def ids_defs files_inv_def
          simp del: set_map split: if_splits prod.splits\<close>)
  qed
next
  case (Some ap)
  then show ?thesis
    using assms(1,3)
    by (auto simp: end_record_def Let_def flush_to_file_def files_inv_def ids_defs simp del: set_map split: if_splits)
qed

lemma flush_one_split:
  assumes "flush_one min_size l = Some (r, l')"
  obtains l1 where "mset (file_ids l1) = mset (file_ids l)" and "lg_disk l1 = lg_disk l"
    and "lg_next_log_id l1 = lg_next_log_id l" and "lg_log_pool l1 = lg_log_pool l"
    and "l1 = l \<or> lg_reading_state l1 = Reading \<and> lg_flushing l1 = None"
    and "l' = l1 \<or> lg_flushing l1 = None \<and>
      l' = l1\<lparr>lg_appending := None, lg_flushing := map_option (\<lambda>ap. (ap_id ap, ap_file ap)) (lg_appending l1)\<rparr>"
proof (cases "lg_flushing l")
  case None
  show ?thesis
    by (rule that[of l]) (use assms None in \<open>auto simp: flush_one_def Let_def split: if_splits\<close>)
next
  case (Some f)
  let ?q = "case lg_reading l of Some rd \<Rightarrow> [(rd_id rd, rd_file rd)] | None \<Rightarrow> []"
  let ?l = "l\<lparr>lg_cleanup_queue := lg_cleanup_queue l @ ?q, lg_flushing := None, lg_reading_state := Reading,
    lg_reading := Some \<lparr>rd_id = fst f, rd_file = snd f, rd_pos = 0\<rparr>\<rparr>"
  have "l' = ?l \<or> l' = ?l\<lparr>lg_appending := None,
      lg_flushing := map_option (\<lambda>ap. (ap_id ap, ap_file ap)) (lg_appending ?l)\<rparr>"
    using assms Some by (auto simp: flush_one_def Let_def split: if_splits option.splits prod.splits)
  moreover have "mset (file_ids ?l) = mset (file_ids l)"
    using Some by (cases "lg_reading l") (simp_all add: ids_defs)
  ultimately show ?thesis by (intro that[of ?l]) auto
qed

lemma flush_file_inv:
  assumes "files_inv crc l" and "flush_one min_size l = Some (r, l')"
  shows "files_inv crc l'"
proof -
  obtain l1 where l1: "mset (file_ids l1) = mset (file_ids l)" "lg_disk l1 = lg_disk l"
      "lg_next_log_id l1 = lg_next_log_id l" "lg_log_pool l1 = lg_log_pool l"
      "l1 = l \<or> lg_reading_state l1 = Reading \<and> lg_flushing l1 = None"
    and l': "l' = l1 \<or> lg_flushing l1 = None \<and>
      l' = l1\<lparr>lg_appending := None, lg_flushing := map_option (\<lambda>ap. (ap_id ap, ap_file ap)) (lg_appending l1)\<rparr>"
    by (rule flush_one_split[OF assms(2)])
  have i1: "files_inv crc l1"
    by (rule files_inv_move[OF assms(1) l1(1-3)]) (use l1(4,5) assms(1) in \<open>auto simp: files_inv_def\<close>)
  show ?thesis
  proof (cases "l' = l1")
    case False
    with l' have "mset (file_ids l') = mset (file_ids l1)" by (cases "lg_appending l1") (auto simp: ids_defs)
    then show ?thesis
      by (rule files_inv_move[OF i1]) (use l' i1 in \<open>auto simp: files_inv_def\<close>)
  qed (use i1 in simp)
qed

lemma replay_file_inv:
  assumes "files_inv crc l" and "replay_next l = (r, l')"
  shows "files_inv crc l'"
proof (rule files_inv_move[OF assms(1)])
  show "mset (file_ids l') = mset (file_ids l)"
    using assms(2) by (cases "lg_reading l"; cases "lg_replay_queue l")
      (auto simp: replay_next_def Let_def ids_defs)
qed (use assms(2) in \<open>auto simp: replay_next_def Let_def split: option.splits list.splits prod.splits\<close>)

lemma read_next_cases:
  "read_next crc validate l = Inr (r, l') \<Longrightarrow>
     l' = l \<and> (r \<noteq> None \<longrightarrow> lg_reading_state l = Reading) \<or>
     r = None \<and> l' = l\<lparr>lg_reading_state := Idle\<rparr> \<and> (\<forall>rd. lg_reading l = Some rd \<longrightarrow> exhausted crc rd)"
  by (auto simp: read_next_def exhausted_def split: if_splits option.splits sum.splits fail.splits error.splits
      io_kind.splits prod.splits log_action.splits)

lemma release_reader_inv:
  assumes "files_inv crc l" and "lg_reading_state l = Reading"
  shows "files_inv crc (release_reader r l)"
  using assms by (cases "lg_reading l") (simp_all add: release_reader_def files_inv_def ids_defs)

lemma end_read_files [simp]:
  "files_inv crc (end_read cl rid l) = files_inv crc l" "lg_reading_state (end_read cl rid l) = lg_reading_state l"
  by (rule files_inv_cong) (simp_all add: end_read_def Let_def)

lemma log_step_inv: "log_step crc l l' \<Longrightarrow> files_inv crc l \<Longrightarrow> files_inv crc l'"
proof (induction rule: log_step.induct)
  case (start l)
  then show ?case by (subst files_inv_cong[where l = l]) (simp_all add: begin_record_def)
next
  case (append l c n l')
  then show ?case by (blast intro: append_file_inv)
next
  case (flush min_size l r l')
  then show ?case by (blast intro: flush_file_inv)
next
  case (read validate l r l' r' cl rid)
  then show ?case using read_next_cases[OF read(1)] by (auto intro!: release_reader_inv)
next
  case (idle validate l l')
  show ?case
    by (rule files_inv_move[OF idle(2)]) (use read_next_cases[OF idle(1)] idle(2) in \<open>auto simp: ids_defs files_inv_def\<close>)
next
  case (replay l r l')
  then show ?case by (blast intro: replay_file_inv)
next
  case (clean n l dirty l')
  then have "n \<le> num_dirty_logs l" by (auto simp: clean_logs_def num_dirty_logs_def split: if_splits)
  from clean_logs_ok[OF clean(2) this] clean(1) show ?case by auto
next
  case (clear l l')
  then show ?case using clear_replay_ok by fastforce
next
  case (kill l l')
  then show ?case using kill_logs_ok by fastforce
qed

lemma log_scan_ids:
  assumes "log_scan dir logs m = Inr (logs', m')" and "distinct (map fst logs @ map fst dir)"
    and "\<forall>i\<in>set (map fst logs). i \<le> m"
  shows "distinct (map fst logs') \<and> set (map fst logs') \<subseteq> set (map fst logs @ map fst dir) \<and>
    (\<forall>i\<in>set (map fst logs'). i \<le> m') \<and> (m' = m \<or> m' \<in> set (map fst dir))"
  using assms
proof (induction dir arbitrary: logs m)
  case Nil
  then show ?case by simp
next
  case (Cons p dir)
  obtain nlog f where p: "p = (nlog, f)" by (cases p)
  from Cons.prems(1) obtain rid where rid: "open_log_file f = Inr rid"
    by (auto simp: p rbind_Inr_iff)
  show ?case
  proof (cases rid)
    case None
    then show ?thesis using Cons.IH[of logs m] Cons.prems by (auto simp: p rid simp del: set_map)
  next
    case (Some r)
    let ?m = "if m < nlog then nlog else m"
    have "log_scan dir (logs @ [(nlog, r, f)]) ?m = Inr (logs', m')"
      using Cons.prems(1) by (simp add: p rid Some)
    moreover have "distinct (map fst (logs @ [(nlog, r, f)]) @ map fst dir)"
      using Cons.prems(2) by (auto simp: p simp del: set_map)
    moreover have "\<forall>i\<in>set (map fst (logs @ [(nlog, r, f)])). i \<le> ?m"
      using Cons.prems(3) by auto
    ultimately have ih: "distinct (map fst logs')" "set (map fst logs') \<subseteq> set (map fst logs @ map fst (p # dir))"
        "\<forall>i\<in>set (map fst logs'). i \<le> m'" "m' = m \<or> m' \<in> set (map fst (p # dir))"
      using Cons.IH[of "logs @ [(nlog, r, f)]" ?m] by (auto simp: p simp del: set_map split: if_splits)
    then show ?thesis by simp
  qed
qed

lemma log_open_inv:
  assumes "log_open sync dir = Inr l" and "distinct (map fst dir)" and "\<forall>i\<in>set (map fst dir). i \<noteq> - 1"
  shows "files_inv crc l"
proof -
  obtain logs m where sc: "log_scan dir [] 0 = Inr (logs, m)"
      and l: "lg_replay_queue l = sort_key (\<lambda>(_, record_id, _). record_id) logs" "lg_disk l = map fst logs"
        "lg_next_log_id l = (if logs = [] then 0 else m + 1)" "lg_appending l = None" "lg_reading l = None"
        "lg_flushing l = None" "lg_log_pool l = []" "lg_cleanup_queue l = []"
    using assms(1) by (auto simp: log_open_def rbind_Inr_iff)
  note ids = log_scan_ids[OF sc] 
  have d: "distinct (map fst logs)" "\<forall>i\<in>set (map fst logs). i \<le> m" "m = 0 \<or> m \<in> set (map fst dir)"
    using ids assms(2) by auto
  have ms: "mset (map fst (lg_replay_queue l)) = mset (map fst logs)" unfolding l(1) by simp
  have "i < m + 1" if "i \<in> set (map fst logs)" for i
  proof -
    have "m \<noteq> - 1" using d(3) assms(3) by auto
    then show ?thesis using d(2) that by (simp add: below_next del: set_map)
  qed
  then show ?thesis
    using d(1) mset_eq_setD[OF ms] mset_eq_imp_distinct_iff[OF ms]
    by (auto simp: files_inv_def ids_defs l simp del: set_map)
qed

theorem log_reachable_inv: "log_reachable crc l \<Longrightarrow> files_inv crc l"
proof -
  assume "log_reachable crc l"
  then obtain sync dir l0 where o: "log_open sync dir = Inr l0" "distinct (map fst dir)"
      "\<forall>i\<in>set (map fst dir). i \<noteq> - 1" and r: "(log_step crc)\<^sup>*\<^sup>* l0 l"
    unfolding log_reachable_def by blast
  from r show ?thesis by induction (auto intro: log_open_inv[OF o] log_step_inv)
qed

end
