(* ===== verification/Log_Correct.thy ===== *)
theory Log_Correct
  imports Log_Files
begin

text \<open>
  The properties of the write-ahead log (\<^verbatim>\<open>src/src/log.rs\<close>), stated over its operations.
\<close>

section \<open>Shared facts\<close>

lemma log_open_reachable: "log_open sync [] = Inr l \<Longrightarrow> log_reachable crc l"
  unfolding log_reachable_def by (rule exI[of _ sync], rule exI[of _ "[]"]) auto

definition fresh_log :: log_state where
  "fresh_log = \<lparr>lg_overlays = empty_overlays, lg_appending = None, lg_reading = None,
     lg_reading_state = Idle, lg_flushing = None, lg_next_record_id = 1, lg_dirty = True,
     lg_log_pool = [], lg_cleanup_queue = [], lg_replay_queue = [], lg_next_log_id = 0, lg_sync = True,
     lg_disk = []\<rparr>"

lemma fresh_log_reachable: "log_reachable crc fresh_log"
  by (rule log_open_reachable[of True]) (simp add: log_open_def fresh_log_def)

text \<open>What \<open>end_record\<close> leaves in a log without an open file: the record is all there is to flush.\<close>

lemma end_record_new_file:
  assumes "files_inv crc l" and "lg_appending l = None" and "lc_record_id c + 1 = lg_next_record_id l"
  obtains n l1 i where "end_record crc c l = Inr (n, l1)" and "n = of_nat (length (change_body c)) + 4"
    and "lg_appending l1 = Some \<lparr>ap_id = i, ap_file = change_body c @ le32 (crc (change_body c)), ap_size = n\<rparr>"
    and "lg_flushing l1 = lg_flushing l" and "lg_reading l1 = lg_reading l"
    and "lg_reading_state l1 = lg_reading_state l" and "lg_cleanup_queue l1 = lg_cleanup_queue l"
proof -
  have "\<forall>(i, f)\<in>set (lg_log_pool l). f = []" using assms(1) by (simp add: files_inv_def)
  then obtain i n l1 where "end_record crc c l = Inr (n, l1)" "n = of_nat (length (change_body c)) + 4"
      "lg_appending l1 = Some \<lparr>ap_id = i, ap_file = change_body c @ le32 (crc (change_body c)), ap_size = n\<rparr>"
      "lg_flushing l1 = lg_flushing l \<and> lg_reading l1 = lg_reading l \<and>
       lg_reading_state l1 = lg_reading_state l \<and> lg_cleanup_queue l1 = lg_cleanup_queue l"
    using assms(2,3) by (cases "lg_log_pool l") (auto simp: end_record_def Let_def flush_to_file_def)
  then show ?thesis by (intro that[of n l1 i]) simp_all
qed

text \<open>
  A log that has read its first file to the end while the second one waits: a record is appended
  and flushed twice, a second one is appended and flushed, and the reader takes the first record and
  then meets the end of its file.
\<close>

abbreviation no_crc :: "bytes \<Rightarrow> u32" where
  "no_crc \<equiv> \<lambda>_. 0"

definition empty_change :: log_change where
  "empty_change = log_change_new 0"

definition record_file :: bytes where
  "record_file = change_body empty_change @ le32 0"

definition log_of :: "log_overlays \<Rightarrow> u32 list \<Rightarrow> u32 \<Rightarrow> log_appending option \<Rightarrow> (u32 \<times> bytes) option \<Rightarrow>
    log_reading option \<Rightarrow> reading_state \<Rightarrow> log_state" where
  "log_of ov disk next_id ap fl rd st = fresh_log\<lparr>lg_overlays := ov, lg_disk := disk, lg_next_log_id := next_id,
     lg_appending := ap, lg_flushing := fl, lg_reading := rd, lg_reading_state := st\<rparr>"

definition drained_log :: "log_overlays \<Rightarrow> log_state" where
  "drained_log ov = log_of ov [1, 0] 2 None (Some (1, record_file))
     (Some \<lparr>rd_id = 0, rd_file = record_file, rd_pos = length record_file\<rparr>) Idle"

lemma append_empty:
  "\<exists>n ov'. end_record no_crc empty_change (log_of ov disk i None fl rd st) =
     Inr (n, log_of ov' (i # disk) (i + 1) (Some \<lparr>ap_id = i, ap_file = record_file, ap_size = 14\<rparr>) fl rd st)"
  by (simp add: end_record_def log_of_def fresh_log_def flush_to_file_def empty_change_def log_change_new_def
      record_file_def change_body_def Let_def)

lemma flush_appended:
  "\<exists>r. flush_one 0 (log_of ov disk i (Some \<lparr>ap_id = j, ap_file = f, ap_size = 14\<rparr>) None rd st) =
     Some (r, log_of ov disk i None (Some (j, f)) rd st)"
  by (auto simp: flush_one_def log_of_def Let_def)

lemma flush_to_reader:
  "\<exists>r. flush_one 0 (log_of ov disk i None (Some (j, f)) None Idle) =
     Some (r, log_of ov disk i None None (Some \<lparr>rd_id = j, rd_file = f, rd_pos = 0\<rparr>) Reading)"
  by (auto simp: flush_one_def log_of_def Let_def)

lemma read_record_file:
  assumes "lg_reading l = Some \<lparr>rd_id = j, rd_file = record_file, rd_pos = 0\<rparr>" and "lg_reading_state l = Reading"
  shows "\<exists>r. read_next no_crc True l = Inr (Some r, l) \<and> lr_pos r \<le> length record_file"
proof -
  let ?r = "log_reader_new record_file 0 True"
  obtain rest where f: "record_file = ([BEGIN_RECORD] @ le64 0) @ rest"
    by (auto simp: record_file_def change_body_def empty_change_def log_change_new_def)
  have "reader_at ?r (([BEGIN_RECORD] @ le64 0) @ rest)" by (simp add: reader_at_def log_reader_new_def f)
  from reader_next_begin[OF this, of no_crc] show ?thesis
    using assms by (simp add: read_next_def log_reader_new_def advance_def advance_raw_def f)
qed

lemma drained_log_reachable: "\<exists>ov. log_reachable no_crc (drained_log ov)"
proof -
  let ?step = "(log_step no_crc)\<^sup>*\<^sup>*"
  let ?rd = "\<lambda>p. Some \<lparr>rd_id = 0, rd_file = record_file, rd_pos = p\<rparr>"
  have app: "\<exists>ov'. log_step no_crc (log_of ov disk i None fl rd st)
      (log_of ov' (i # disk) (i + 1) (Some \<lparr>ap_id = i, ap_file = record_file, ap_size = 14\<rparr>) fl rd st)"
    if "i \<noteq> - 1" for ov disk i fl rd st
  proof -
    have "lg_next_log_id (log_of ov disk i None fl rd st) \<noteq> - 1" using that by (simp add: log_of_def)
    then show ?thesis using append_empty[of ov disk i fl rd st] by (blast intro: log_step.append)
  qed
  have fl: "log_step no_crc (log_of ov disk i (Some \<lparr>ap_id = j, ap_file = f, ap_size = 14\<rparr>) None rd st)
      (log_of ov disk i None (Some (j, f)) rd st)" for ov disk i j f rd st
    using flush_appended by (blast intro: log_step.flush)
  have "log_of empty_overlays [] 0 None None None Idle = fresh_log" by (simp add: log_of_def fresh_log_def)
  then obtain ov1 where 1: "log_step no_crc fresh_log
      (log_of ov1 [0] 1 (Some \<lparr>ap_id = 0, ap_file = record_file, ap_size = 14\<rparr>) None None Idle)"
    using app[of 0 empty_overlays "[]" None None Idle] by auto
  note 2 = fl[of ov1 "[0]" 1 0 record_file None Idle]
  have 3: "log_step no_crc (log_of ov1 [0] 1 None (Some (0, record_file)) None Idle)
      (log_of ov1 [0] 1 None None (?rd 0) Reading)"
    using flush_to_reader by (blast intro: log_step.flush)
  obtain ov2 where 4: "log_step no_crc (log_of ov1 [0] 1 None None (?rd 0) Reading)
      (log_of ov2 [1, 0] 2 (Some \<lparr>ap_id = 1, ap_file = record_file, ap_size = 14\<rparr>) None (?rd 0) Reading)"
    using app[of 1 ov1 "[0]" None "?rd 0" Reading] by auto
  note 5 = fl[of ov2 "[1, 0]" 2 1 record_file "?rd 0" Reading]
  let ?l = "log_of ov2 [1, 0] 2 None (Some (1, record_file)) (?rd 0) Reading"
  let ?r = "(log_reader_new record_file 0 True)\<lparr>lr_pos := length record_file\<rparr>"
  obtain r where "read_next no_crc True ?l = Inr (Some r, ?l)" "lr_pos r \<le> length record_file"
    using read_record_file[of ?l 0] by (auto simp: log_of_def)
  then have 6: "log_step no_crc ?l (release_reader ?r (end_read empty_cleared 0 ?l))"
    by (intro log_step.read) simp_all
  obtain ov3 where e: "release_reader ?r (end_read empty_cleared 0 ?l) =
      log_of ov3 [1, 0] 2 None (Some (1, record_file)) (?rd (length record_file)) Reading"
    by (simp add: release_reader_def end_read_def log_of_def fresh_log_def Let_def)
  have 7: "log_step no_crc (log_of ov3 [1, 0] 2 None (Some (1, record_file)) (?rd (length record_file)) Reading)
      (drained_log ov3)"
    by (rule log_step.idle[of _ True])
      (simp add: read_next_def log_of_def drained_log_def reader_next_def reader_read_def reader_take_def log_reader_new_def)
  have "?step fresh_log (drained_log ov3)"
    using 1 2 3 4 5 6[unfolded e] 7 by (meson converse_rtranclp_into_rtranclp rtranclp.rtrancl_refl)
  then show ?thesis using fresh_log_reachable[of no_crc] unfolding log_reachable_def by (meson rtranclp_trans)
qed

section \<open>Properties\<close>

text \<open>
  C33: In every state that a log reaches from \<open>Log::open\<close>, each file of the directory is in exactly
  one of the pool, the queues and the appending, flushing and reading positions, the pool is
  bounded, and so no operation that removes files fails on a missing file.
\<close>

theorem log_files_accounted:
  assumes "log_reachable crc l"
  shows "distinct (file_ids l) \<and> set (file_ids l) = set (lg_disk l) \<and>
     length (lg_log_pool l) \<le> MAX_LOG_POOL_SIZE \<and>
     (\<forall>n\<le>num_dirty_logs l. \<exists>dirty l'. clean_logs n l = Inr (dirty, l')) \<and>
     (\<exists>l'. log_kill_logs l = Inr l') \<and> (\<exists>l'. clear_replay_logs l = Inr l')"
proof -
  note inv = log_reachable_inv[OF assms]
  have "\<forall>n\<le>num_dirty_logs l. \<exists>dirty l'. clean_logs n l = Inr (dirty, l')"
    using clean_logs_ok[OF inv] by meson
  moreover have "\<exists>l'. log_kill_logs l = Inr l'" "\<exists>l'. clear_replay_logs l = Inr l'"
    using kill_logs_ok[OF inv] clear_replay_ok[OF inv] by blast+
  ultimately show ?thesis using inv by (simp add: files_inv_def)
qed

theorem log_files_accounted_witness:
  "\<exists>ov l'. file_ids (drained_log ov) = [1, 0] \<and> lg_disk (drained_log ov) = [1, 0] \<and>
     log_kill_logs (drained_log ov) = Inr l'"
proof -
  obtain ov where "log_reachable no_crc (drained_log ov)" using drained_log_reachable by blast
  then have "\<exists>l'. log_kill_logs (drained_log ov) = Inr l'" using log_files_accounted by blast
  moreover have "file_ids (drained_log ov) = [1, 0]" "lg_disk (drained_log ov) = [1, 0]"
    by (simp_all add: drained_log_def log_of_def fresh_log_def ids_defs)
  ultimately show ?thesis by blast
qed

text \<open>
  C35: A finished record reaches its reader: in a log with nothing to flush and an idle reader,
  appending a record and flushing twice makes \<open>read_next\<close> return a reader of that record, standing
  right behind its header.
\<close>

theorem log_record_reaches_reader:
  assumes "log_reachable crc l" and "lg_appending l = None" and "lg_flushing l = None"
    and "lg_reading_state l = Idle" and "lc_record_id c + 1 = lg_next_record_id l"
    and "length (change_body c) + 4 < 2 ^ 64"
  shows "\<exists>n l1 r1 l2 r2 l3 r. end_record crc c l = Inr (n, l1) \<and> flush_one 0 l1 = Some (r1, l2) \<and>
     flush_one 0 l2 = Some (r2, l3) \<and> read_next crc True l3 = Inr (Some r, l3) \<and>
     lr_record_id r = lc_record_id c \<and>
     lr_file r = change_body c @ le32 (crc (change_body c)) \<and> lr_pos r = 9"
proof -
  let ?f = "change_body c @ le32 (crc (change_body c))"
  obtain n l1 i where e: "end_record crc c l = Inr (n, l1)" "n = of_nat (length (change_body c)) + 4"
      "lg_appending l1 = Some \<lparr>ap_id = i, ap_file = ?f, ap_size = n\<rparr>" "lg_flushing l1 = lg_flushing l"
      "lg_reading l1 = lg_reading l" "lg_reading_state l1 = lg_reading_state l"
      "lg_cleanup_queue l1 = lg_cleanup_queue l"
    by (rule end_record_new_file[OF log_reachable_inv[OF assms(1)] assms(2,5)])
  have "n = of_nat (length (change_body c) + 4)" by (simp add: e(2))
  then have n: "0 < n" using assms(6) by (simp add: word_less_nat_alt unat_of_nat_u64 del: of_nat_add)
  obtain r1 l2 where f1: "flush_one 0 l1 = Some (r1, l2)" "lg_flushing l2 = Some (i, ?f)" "lg_appending l2 = None"
      "lg_reading_state l2 = Idle"
    using n e(3-6) assms(3,4) by (simp add: flush_one_def Let_def)
  obtain r2 l3 where f2: "flush_one 0 l2 = Some (r2, l3)"
      "lg_reading l3 = Some \<lparr>rd_id = i, rd_file = ?f, rd_pos = 0\<rparr>" "lg_reading_state l3 = Reading"
    using f1(2-4) by (cases "lg_reading l2") (simp_all add: flush_one_def Let_def)
  obtain rest where body: "?f = ([BEGIN_RECORD] @ le64 (lc_record_id c)) @ rest"
    by (auto simp: change_body_def)
  let ?r = "log_reader_new ?f 0 True"
  have "reader_at ?r (([BEGIN_RECORD] @ le64 (lc_record_id c)) @ rest)"
    by (simp add: reader_at_def log_reader_new_def body)
  from reader_next_begin[OF this, of crc]
  have "read_next crc True l3 = Inr (Some ((advance ([BEGIN_RECORD] @ le64 (lc_record_id c)) ?r)
      \<lparr>lr_record_id := lc_record_id c\<rparr>), l3)"
    using f2(2,3) by (simp add: read_next_def)
  then show ?thesis using e(1) f1(1) f2(1)
    by (intro exI[of _ n] exI[of _ l1] exI[of _ r1] exI[of _ l2] exI[of _ r2] exI[of _ l3]
        exI[of _ "(advance ([BEGIN_RECORD] @ le64 (lc_record_id c)) ?r)\<lparr>lr_record_id := lc_record_id c\<rparr>"])
      (simp add: log_reader_new_def)
qed

theorem log_record_reaches_reader_witness:
  "\<exists>n l1 r1 l2 r2 l3 r. end_record (\<lambda>_. 0) (log_change_new 0) fresh_log = Inr (n, l1) \<and>
     flush_one 0 l1 = Some (r1, l2) \<and> flush_one 0 l2 = Some (r2, l3) \<and>
     read_next (\<lambda>_. 0) True l3 = Inr (Some r, l3) \<and> lr_record_id r = 0"
proof -
  have "length (change_body (log_change_new 0)) + 4 < 2 ^ 64"
    by (simp add: change_body_def log_change_new_def)
  then show ?thesis
    using log_record_reaches_reader[OF fresh_log_reachable[of "\<lambda>_. 0"], of "log_change_new 0"]
    by (fastforce simp: fresh_log_def log_change_new_def)
qed

text \<open>
  C36: Retiring an enacted record removes from the overlays the entries that the record wrote and
  its reader met; an entry that a later record has overwritten since stays, and every other entry
  stays.
\<close>

theorem log_end_read_own:
  assumes "wf_overlays (lg_overlays l)" and "l' = end_read cl rid l"
  shows "wf_overlays (lg_overlays l') \<and>
     (\<forall>t i. lookup2 (ov_index (lg_overlays l')) t i =
        (case lookup2 (ov_index (lg_overlays l)) t i of
           None \<Rightarrow> None
         | Some e \<Rightarrow> if (t, i) \<in> set (cl_index cl) \<and> fst e = rid then None else Some e)) \<and>
     (\<forall>t i. lookup2 (ov_value (lg_overlays l')) t i =
        (case lookup2 (ov_value (lg_overlays l)) t i of
           None \<Rightarrow> None
         | Some e \<Rightarrow> if (t, i) \<in> set (cl_values cl) \<and> fst e = rid then None else Some e))"
  using wf_end_read[OF assms(1)] end_read_lookup[OF assms(1)] unfolding assms(2)
  by (auto split: option.split)

theorem log_end_read_own_witness:
  "wf_overlays (lg_overlays (end_read \<lparr>cl_index = [], cl_values = [(ValueTableId 0, 1)]\<rparr> 4
     (fresh_log\<lparr>lg_overlays := \<lparr>ov_index = [], ov_value = [(ValueTableId 0, [(1, (5, [7]))])],
        ov_last_record_id = []\<rparr>\<rparr>)))"
proof -
  let ?l = "fresh_log\<lparr>lg_overlays := \<lparr>ov_index = [], ov_value = [(ValueTableId 0, [(1, (5, [7]))])],
        ov_last_record_id = []\<rparr>\<rparr>"
  have "wf_overlays (lg_overlays ?l)" by (simp add: wf_overlays_def wf_alist2_def)
  from log_end_read_own[OF this refl] show ?thesis by blast
qed

text \<open>
  C37: One log file of one to eight bytes, as a crash in the middle of writing a record header
  leaves it, makes \<open>Log::open\<close> fail with an I/O error, whatever the other files hold.
\<close>

theorem log_open_short_file:
  assumes "1 \<le> length f" and "length f \<le> 8" and "\<forall>(i, g)\<in>set before. length g = 0 \<or> 9 \<le> length g"
  shows "log_open sync (before @ (n, f) # after) = Inl (Err (Io UnexpectedEof))"
proof -
  have f: "open_log_file f = Inl (Err (Io UnexpectedEof))" using assms(1,2) by (auto simp: open_log_file_def)
  have "log_scan (before @ (n, f) # after) logs m = Inl (Err (Io UnexpectedEof))" for logs m
    using assms(3)
  proof (induction before arbitrary: logs m)
    case (Cons p before)
    then show ?case by (cases p) (auto simp: open_log_file_def)
  qed (simp add: f)
  then show ?thesis by (simp add: log_open_def)
qed

theorem log_open_short_file_witness: "log_open True [(3, [1])] = Inl (Err (Io UnexpectedEof))"
  using log_open_short_file[of "[1]" "[]" True 3 "[]"] by simp

end
