(* ===== verification/Log_Cleanup.thy ===== *)
theory Log_Cleanup
  imports Db_Correct Log_Correct
begin

text \<open>
  When a log file may be thrown away. \<open>Log\<close> (\<^verbatim>\<open>src/src/log.rs\<close>) queues the file it reads for cleanup
  in two places: in \<open>flush_one\<close>, which waits until the reader is idle, and in \<open>replay_next\<close>, which
  does not look at the reader at all and relies on its caller. That caller is \<open>replay_all_logs\<close> of
  \<^verbatim>\<open>src/src/db.rs\<close>, which calls \<open>enact_logs\<close> until it has no more work.
\<close>

section \<open>What one call of enact_logs leaves in the log\<close>

definition read_out :: "(bytes \<Rightarrow> u32) \<Rightarrow> log_state \<Rightarrow> bool" where
  "read_out crc l \<longleftrightarrow> (\<forall>rd. lg_reading l = Some rd \<longrightarrow> exhausted crc rd)"

definition queues_read_out :: "(bytes \<Rightarrow> u32) \<Rightarrow> log_state \<Rightarrow> log_state \<Rightarrow> bool" where
  "queues_read_out crc l l' \<longleftrightarrow> lg_cleanup_queue l' = lg_cleanup_queue l \<or>
     (\<exists>rd. lg_reading l = Some rd \<and> lg_cleanup_queue l' = lg_cleanup_queue l @ [(rd_id rd, rd_file rd)] \<and>
        exhausted crc rd)"

lemma replay_next_queues: "read_out crc l \<Longrightarrow> queues_read_out crc l (snd (replay_next l))"
  by (auto simp: read_out_def queues_read_out_def replay_next_def Let_def split: option.splits list.splits)

lemma enact_step_log:
  "enact_step crc r db = Some (Inr x) \<Longrightarrow>
     db_log (case x of Inl (_, db') \<Rightarrow> db' | Inr (_, db') \<Rightarrow> db') = db_log db"
  by (auto simp: enact_step_def enact_insertion_def enact_drop_def set_column_def start_reindex_def cret_def
      elim!: cbind_InrE split: log_action.splits column.splits)

lemma enact_loop_log: "enact_loop crc r db = Some (Inr (r', db')) \<Longrightarrow> db_log db' = db_log db"
proof -
  let ?P = "\<lambda>crc r db x. \<forall>r' db'. x = Inr (r', db') \<longrightarrow> db_log db' = db_log db"
  have "?P crc r db x" if "enact_loop crc r db = Some x" for x
  proof (rule enact_loop.raw_induct[where P = ?P, OF _ that], goal_cases)
    case (1 f crc r db x)
    show ?case
    proof (intro allI impI)
      fix r' db' assume x: "x = Inr (r', db')"
      then obtain y where y: "enact_step crc r db = Some (Inr y)"
          "(if isl y then Some (Inr (projl y)) else f crc (fst (projr y)) (snd (projr y))) = Some x"
        using 1(2) by (auto simp: cbind_cret_iff)
      then show "db_log db' = db_log db"
        using enact_step_log[OF y(1)] x 1(1) by (cases y) (fastforce split: prod.splits)+
    qed
  qed
  then show "enact_loop crc r db = Some (Inr (r', db')) \<Longrightarrow> db_log db' = db_log db" by blast
qed

lemma enact_record_log:
  assumes "enact_record cr v r db = Some (Inr (b, db'))" and "files_inv (cr_crc cr) (db_log db)"
    and "lg_reading_state (db_log db) = Reading"
  shows "b \<and> files_inv (cr_crc cr) (db_log db')"
proof -
  obtain r1 db1 where l: "enact_loop (cr_crc cr) r db = Some (Inr (r1, db1))"
      "b" "db_log db' = end_read (lr_cleared r1) (lr_record_id r1) (release_reader r1 (db_log db1))"
    using assms(1) by (auto simp: enact_record_def cret_def Let_def elim!: cbind_InrE)
  then show ?thesis using assms(2,3) enact_loop_log[OF l(1)] by (simp add: release_reader_inv)
qed

lemma refuse_logs_log:
  assumes "refuse_logs db = Some (Inr (b, db'))" and "files_inv crc (db_log db)"
  shows "\<not> b \<and> files_inv crc (db_log db') \<and> read_out crc (db_log db')"
proof -
  obtain l where "clear_replay_logs (db_log db) = Inr l" "db_log db' = l"
    using assms(1) by (auto simp: refuse_logs_def rbind_Inr_iff)
  then show ?thesis
    using clear_replay_ok[OF assms(2)] refuse_logs_fields[OF assms(1)] by (auto simp: read_out_def)
qed

lemma validate_record_log:
  assumes "validate_record cr r db = Some (Inr (b, db'))" and "files_inv (cr_crc cr) (db_log db)"
    and "lg_reading_state (db_log db) = Reading"
  shows "files_inv (cr_crc cr) (db_log db') \<and> (\<not> b \<longrightarrow> read_out (cr_crc cr) (db_log db'))"
proof -
  have ref: ?thesis if "refuse_logs d = Some (Inr (b, db'))" and "db_log d = db_log db" for d
    using refuse_logs_log[OF that(1)] that(2) assms(2) by auto
  have rec: ?thesis if "enact_record cr True r' d = Some (Inr (b, db'))" and "db_log d = db_log db" for d r'
    using enact_record_log[OF that(1)] that(2) assms(2,3) by auto
  have "(\<exists>d. refuse_logs d = Some (Inr (b, db')) \<and> db_log d = db_log db) \<or>
      (\<exists>r' d. enact_record cr True r' d = Some (Inr (b, db')) \<and> db_log d = db_log db)"
    using assms(1)
    by (fastforce simp: validate_record_def Let_def elim!: cbind_InrE split: if_splits option.splits)
  then show ?thesis using ref rec by blast
qed

lemma read_next_idle: "read_next crc v l = Inr (None, l') \<Longrightarrow> files_inv crc l \<Longrightarrow> read_out crc l'"
  by (cases "lg_reading_state l")
    (auto simp: read_next_def read_out_def exhausted_def files_inv_def
      split: option.splits sum.splits fail.splits error.splits io_kind.splits prod.splits log_action.splits)

lemma enact_logs_log:
  assumes "enact_logs cr v db = Some (Inr (b, db'))" and "files_inv (cr_crc cr) (db_log db)"
  shows "files_inv (cr_crc cr) (db_log db') \<and> (\<not> b \<longrightarrow> read_out (cr_crc cr) (db_log db'))"
proof (cases "read_next (cr_crc cr) v (db_log db)")
  case (Inl e)
  then have "refuse_logs db = Some (Inr (b, db'))"
    using assms(1) by (auto simp: enact_logs_def split: fail.splits error.splits if_splits)
  then show ?thesis using assms(2) by (blast dest: refuse_logs_log)
next
  case (Inr x)
  obtain r l where x: "x = (r, l)" by (cases x)
  note c = read_next_cases[OF Inr[unfolded x]]
  show ?thesis
  proof (cases r)
    case None
    then have db': "\<not> b" "db_log db' = l" using assms(1) Inr x by (auto simp: enact_logs_def cret_def)
    have "log_step (cr_crc cr) (db_log db) l" using Inr x None by (auto intro: log_step.idle)
    then have "files_inv (cr_crc cr) l" using assms(2) by (rule log_step_inv)
    moreover have "read_out (cr_crc cr) l" using Inr x None assms(2) by (blast intro: read_next_idle)
    ultimately show ?thesis using db' by simp
  next
    case (Some r)
    then have "l = db_log db" "lg_reading_state (db_log db) = Reading" using c by auto
    then show ?thesis
      using assms Inr x Some
      by (auto simp: enact_logs_def split: if_splits dest: validate_record_log enact_record_log)
  qed
qed

lemma repeat_enact_log:
  assumes "repeat_while (enact_logs cr v) db = Some (Inr db')" and "files_inv (cr_crc cr) (db_log db)"
  shows "files_inv (cr_crc cr) (db_log db') \<and> read_out (cr_crc cr) (db_log db')"
proof -
  let ?Q = "\<lambda>db db'. files_inv (cr_crc cr) (db_log db) \<longrightarrow>
     files_inv (cr_crc cr) (db_log db') \<and> read_out (cr_crc cr) (db_log db')"
  let ?P = "\<lambda>f db x. f = enact_logs cr v \<longrightarrow> (\<forall>db'. x = Inr db' \<longrightarrow> ?Q db db')"
  have "?P (enact_logs cr v) db x" if "repeat_while (enact_logs cr v) db = Some x" for x
  proof (rule repeat_while.raw_induct[where P = ?P, OF _ that], goal_cases)
    case (1 rep f db x)
    show ?case
    proof (intro impI allI)
      fix db' assume f: "f = enact_logs cr v" and x: "x = Inr db'" and i: "files_inv (cr_crc cr) (db_log db)"
      obtain b db1 where y: "enact_logs cr v db = Some (Inr (b, db1))"
          "(if b then rep f db1 else Some (Inr db1)) = Some x"
        using 1(2) f x by (auto elim!: cbind_InrE)
      show "files_inv (cr_crc cr) (db_log db') \<and> read_out (cr_crc cr) (db_log db')"
        using enact_logs_log[OF y(1) i] y(2) x f 1(1) by (cases b) auto
    qed
  qed
  then show ?thesis using assms by blast
qed

section \<open>Properties\<close>

text \<open>
  C34: A log file is queued for cleanup only when its reader has met the end of the file, so no
  record is thrown away before it has been read. This holds for both places that queue files:
  \<open>flush_one\<close>, in every state a log reaches, and \<open>replay_next\<close> in the states in which
  \<open>replay_all_logs\<close> calls it, namely right after \<open>Log::open\<close> and after a loop of \<open>enact_logs\<close> that
  has no more work.
\<close>

theorem log_cleanup_after_read:
  assumes "log_reachable (cr_crc cr) (db_log db)"
  shows "(\<forall>min_size r l'. flush_one min_size (db_log db) = Some (r, l') \<longrightarrow>
        queues_read_out (cr_crc cr) (db_log db) l') \<and>
     (\<forall>sync dir l. log_open sync dir = Inr l \<longrightarrow> queues_read_out (cr_crc cr) l (snd (replay_next l))) \<and>
     (\<forall>db'. repeat_while (enact_logs cr True) db = Some (Inr db') \<longrightarrow>
        queues_read_out (cr_crc cr) (db_log db') (snd (replay_next (db_log db'))))"
proof (intro conjI allI impI)
  note inv = log_reachable_inv[OF assms]
  fix min_size r l' assume f: "flush_one min_size (db_log db) = Some (r, l')"
  let ?l = "db_log db"
  have "lg_reading_state ?l = Idle" if "lg_flushing ?l \<noteq> None"
    using f that by (cases "lg_reading_state ?l") (auto simp: flush_one_def)
  moreover have "lg_cleanup_queue l' = lg_cleanup_queue ?l \<or> lg_flushing ?l \<noteq> None \<and>
     (\<exists>rd. lg_reading ?l = Some rd \<and> lg_cleanup_queue l' = lg_cleanup_queue ?l @ [(rd_id rd, rd_file rd)])"
    using f by (auto simp: flush_one_def Let_def split: if_splits option.splits prod.splits)
  ultimately show "queues_read_out (cr_crc cr) ?l l'"
    using inv unfolding files_inv_def queues_read_out_def by blast
next
  fix sync dir l assume "log_open sync dir = Inr l"
  then have "lg_reading l = None" by (auto simp: log_open_def rbind_Inr_iff split: prod.splits)
  then show "queues_read_out (cr_crc cr) l (snd (replay_next l))" by (simp add: read_out_def replay_next_queues)
next
  fix db' assume "repeat_while (enact_logs cr True) db = Some (Inr db')"
  from repeat_enact_log[OF this log_reachable_inv[OF assms]]
  show "queues_read_out (cr_crc cr) (db_log db') (snd (replay_next (db_log db')))"
    by (simp add: replay_next_queues)
qed

theorem log_cleanup_after_read_witness:
  "\<exists>db db' r l'. lg_cleanup_queue (db_log db) = [] \<and>
     flush_one 0 (db_log db) = Some (r, l') \<and> lg_cleanup_queue l' = [(0, record_file)] \<and>
     repeat_while (enact_logs sample_crates True) db = Some (Inr db') \<and>
     lg_cleanup_queue (snd (replay_next (db_log db'))) = [(0, record_file)] \<and>
     exhausted no_crc \<lparr>rd_id = 0, rd_file = record_file, rd_pos = length record_file\<rparr>"
proof -
  obtain ov where reach: "log_reachable no_crc (drained_log ov)" using drained_log_reachable by blast
  define db where "db = sample_db\<lparr>db_log := drained_log ov\<rparr>"
  have crc: "cr_crc sample_crates = no_crc" by (simp add: sample_crates_def)
  have "log_reachable (cr_crc sample_crates) (db_log db)" using reach by (simp add: db_def crc)
  note t = log_cleanup_after_read[OF this, unfolded crc]
  obtain r l' where f: "flush_one 0 (db_log db) = Some (r, l')" "lg_cleanup_queue l' = [(0, record_file)]"
    by (simp add: db_def drained_log_def log_of_def fresh_log_def flush_one_def Let_def)
  have "repeat_while (enact_logs sample_crates True) db = Some (Inr db)"
    by (subst repeat_while.simps)
      (simp add: enact_logs_def read_next_def db_def drained_log_def log_of_def cret_def)
  moreover have "lg_cleanup_queue (db_log db) = []"
      "lg_reading (db_log db) = Some \<lparr>rd_id = 0, rd_file = record_file, rd_pos = length record_file\<rparr>"
    by (simp_all add: db_def drained_log_def log_of_def fresh_log_def)
  moreover have "lg_cleanup_queue (snd (replay_next (db_log db))) = [(0, record_file)]"
    by (simp add: db_def drained_log_def log_of_def fresh_log_def replay_next_def)
  moreover have "queues_read_out no_crc (db_log db) l'" using t f(1) by blast
  ultimately show ?thesis using f by (fastforce simp: queues_read_out_def)
qed

end
