(* ===== verification/Spec2Isabelle.thy ===== *)
theory Spec2Isabelle
  imports Iter_Correct Migration Table_Correct Index_Correct Options_Correct Column_Correct Log_Correct Db_Correct
    Log_Cleanup
begin

text \<open>
  Verification of parity-db, an embedded key-value store (\<^verbatim>\<open>src/src\<close>).

  \<^bold>\<open>The program.\<close> A database is a list of columns. A hash column keeps its values in 256 value tables
  (\<^verbatim>\<open>table.rs\<close>), one per size tier, and finds them through a memory-mapped hash index
  (\<^verbatim>\<open>index.rs\<close>); an ordered column keeps the nodes of a B-tree in the same kind of value tables
  (\<^verbatim>\<open>btree/\<close>). A transaction goes through a pipeline of four stages (\<^verbatim>\<open>db.rs\<close>): \<open>commit\<close> puts it
  into a queue and into the commit overlay, from which lookups are answered at once;
  \<open>process_commits\<close> plans it, that is, computes the slots and chunks it changes, writes them into a
  record of the write-ahead log (\<^verbatim>\<open>log.rs\<close>) and shows them to readers through the log overlays;
  \<open>enact_logs\<close> reads flushed records back and applies them to the files; \<open>clean_logs\<close> recycles the log
  files. When a database is opened the same records are validated and replayed.

  \<^bold>\<open>The model.\<close> Every operation is a function from the state it reads to the state it leaves, and
  errors, panics and accesses outside an object are values (\<open>Prelude\<close>). Integers keep their width
  wherever the code computes with them. Loops whose end depends on stored data (chains of slots,
  free lists, replay) are \<open>partial_function (option)\<close>: not returning is the value \<open>None\<close>, and the
  theorems say that the operations return. A call that takes a lock it holds already does not return
  either: \<open>write_reindex_plan\<close> and \<open>validate_plan\<close> of a hash column do this when they have to start a
  re-index, and there the model has \<open>None\<close>. The theories, in the order of the components:

  \<^item> \<open>Prelude\<close>: machine integers, byte strings, the result types and their binds, little endian
    encodings and the lemmas on lists, words and maps that the components share.
  \<^item> \<open>File\<close> (\<^verbatim>\<open>file.rs\<close>): byte files and the growable \<open>TableFile\<close>.
  \<^item> \<open>Table_Entry\<close>, \<open>Table\<close> (\<^verbatim>\<open>table.rs\<close>): the entry format (sizes, markers, keys, counters) and every
    operation of \<open>ValueTable\<close>, planning and enacting. \<open>Table_Slots\<close> to \<open>Table_Refs\<close> show that the
    slots of a table are divided between the free list and the chains of the stored values, and that
    each operation is an update of the map from slots to values; \<open>Value_Store\<close> states this as the
    interface its clients use (a locale) and interprets it. \<open>Table_Enact\<close> is the writing of records
    into the file.
  \<^item> \<open>Index_Entry\<close>, \<open>Index\<close>, \<open>Index_Props\<close>, \<open>Index_Store\<close> (\<^verbatim>\<open>index.rs\<close>): the bits of an entry, chunks,
    planned insertion and removal, enacting under a mask; the interface of an index as a locale.
  \<^item> \<open>Log\<close>, \<open>Log_Overlay\<close>, \<open>Log_Files\<close> (\<^verbatim>\<open>log.rs\<close>): overlays, the record format and its reader with the
    checksum, the life of the log files as a step relation.
  \<^item> \<open>Stats\<close> (\<^verbatim>\<open>stats.rs\<close>), \<open>Compress\<close> (\<^verbatim>\<open>compress.rs\<close>), \<open>Options\<close> (\<^verbatim>\<open>options.rs\<close>): counters, choice of
    the codec, the metadata file (a line that is not UTF-8 is an I/O error). The codecs, the checksum and the hash of keys are third-party code
    and arguments of the definitions.
  \<^item> \<open>Column\<close> (\<^verbatim>\<open>column.rs\<close>): hash columns, their lookups, planning, reindexing and enacting.
    \<open>Column_Tiers\<close> to \<open>Column_Update\<close> show that planning a change is an update of the map from keys to
    values, \<open>Column_Grow\<close> that a new key is found when its chunk was full and the next larger index was
    started for it; \<open>Plan_Frame\<close> and \<open>Column_Frame\<close> show what planning leaves alone.
  \<^item> \<open>BTree_Node\<close>, \<open>BTree\<close>, \<open>BTree_Iter\<close> (\<^verbatim>\<open>btree/\<close>): nodes and their format, the tree operations with the
    store of nodes, and the iterator merged with the commit overlay. \<open>BTree_Layout\<close> says what the
    operations on the arrays of one node do to its lists of separators and children, \<open>BTree_Codec\<close> that
    a stored node is read back. \<open>BTree_Tree\<close> is the tree that a store of nodes holds (\<open>btr\<close>, with the
    address of every node and value) and the lookup in it. \<open>BTree_Store\<close> states what the tree relies on
    as the locale \<open>node_store\<close> (new, changed and removed entries of a store from addresses to bytes) and
    interprets it on the value tables. Inside the locale \<open>BTree_Frame\<close> is the ownership of addresses,
    \<open>BTree_Rebalance\<close> and \<open>BTree_Remove\<close> the moves between siblings, merging and removal of the last
    separator, \<open>BTree_Change\<close> and \<open>BTree_Update\<close> one insertion or removal at any depth, \<open>BTree_Loop\<close> the
    run of \<open>Node::change\<close> over a sorted list, \<open>BTree_Write\<close> the root, \<open>BTree_Batch\<close> the header and the
    whole batch as an update of a map; \<open>BTree_Open\<close> is the header of a new column. \<open>BTree_Scan\<close> gives
    the stack of the iterator its meaning, the separators still to come, and \<open>BTree_Merge\<close> the merge
    with the commit overlay.
  \<^item> \<open>Commit_Overlay\<close>, \<open>Db\<close>, \<open>Db_Pipeline\<close> (\<^verbatim>\<open>db.rs\<close>): the database and the stages of its pipeline, replay
    and shutdown. \<open>Db_View\<close> and \<open>Db_Commit\<close> relate the overlay, the queue and the columns to the maps
    that a reader sees; \<open>Db_Replay\<close> and \<open>Db_Errors\<close> are about validation and background errors: in the step relation
    \<open>db_step\<close> a call of a worker that fails may leave the columns, the log, the queue and the overlays in
    any state, and its error is stored. \<open>Log_Cleanup\<close> joins the log and the replay loop: which files may
    be recycled.
  \<^item> \<open>Migration\<close> (\<^verbatim>\<open>migration.rs\<close>): which columns are migrated, the commits made from the entries of a
    column, and the files that are moved.
  \<^item> The properties are in \<open>Table_Correct\<close>, \<open>Index_Correct\<close>, \<open>Options_Correct\<close>, \<open>Column_Correct\<close>,
    \<open>BTree_Correct\<close>, \<open>Iter_Correct\<close>, \<open>Log_Correct\<close>, \<open>Log_Cleanup\<close> and \<open>Db_Correct\<close>, each with a witness on
    a concrete state (\<open>Sample_States\<close>) where it has hypotheses.

  \<^bold>\<open>Bounds.\<close> No loop has fuel except where the code itself bounds it. Hypotheses on machine sizes (a
  table below its last slot, counters below the lock, offsets below \<open>2 ^ 64\<close>, record numbers) are those
  beyond which the code's own integers wrap around. A batch on an ordered column is written within a
  budget (\<open>write_budget\<close>): a change costs at most \<open>4 * (d + 1)\<close> entries at depth \<open>d\<close> and one for the root,
  and an entry takes at most as many slots as it has bytes; the budget keeps slot numbers below
  \<open>2 ^ 56\<close>, what an address can hold.

  \<^bold>\<open>Scope.\<close> Other hypotheses restrict the states that a theorem covers, and each theorem says so in
  words:

  \<^item> Hash columns. \<open>col_rep\<close> is about columns with no index in the re-index queue; \<open>slots_room\<close> asks for
    slot numbers that the index can hold, \<open>home_room\<close> for an empty entry in the chunk of a new key, and
    \<open>plan_fits\<close> is the two for the changes of a commit. The code does not fail there: it starts a larger
    index. \<open>column_put_get\<close> covers the step in which a full chunk makes the index grow; no theorem
    covers a column while entries move from an old index to a new one, and a key that moves to another
    tier meanwhile can lose its entry (\<^verbatim>\<open>column.rs\<close> line 511).
  \<^item> Ordered columns. \<open>store_inv\<close>, and with it every theorem on ordered columns, leaves out columns with
    reference counts. \<^verbatim>\<open>options.rs\<close> accepts them, but \<open>write_existing_value_plan\<close> then counts a
    reference where the tree wants a node or its header rewritten, and the tree does not change.
  \<^item> The database. \<open>db_process_commits_get\<close> is about commits to hash columns; \<open>db_commit_get\<close> is about
    all columns, and in those with reference counts a deletion is not shown before it is written.

  \<^bold>\<open>Not modelled.\<close> Threads: an operation of the model is one call of a stage, and interleavings are
  sequences of calls. Memory advice and flushing of files have no effect on contents. The textual
  reports of the statistics, the hexadecimal display, the command line tool and the benchmarks only
  print or generate load. The rename of the temporary metadata file is one write. Of the migration, the
  closing and reopening of the two databases between columns is left out: it waits for worker threads.
\<close>

end
